(* ===== verification/Prelude.thy ===== *)
theory Prelude
  imports Main "HOL-Library.Word" "HOL-Library.Multiset"
begin

text \<open>
  Shared vocabulary of the development: pointers, the ways a run can stop, the collections
  of hints the component theories fill, and the generic facts on lists, rotation and modular
  arithmetic that the components share.

  A C pointer is an option: \<open>None\<close> is \<open>NULL\<close>, \<open>Some p\<close> points at (or is) \<open>p\<close>. A call that may
  end the process returns a value of \<open>'a run\<close>: \<open>Inl\<close> says how the process stopped, \<open>Inr\<close>
  carries the result.
\<close>

section \<open>Pointers and stopping\<close>

type_synonym 'a ptr = "'a option"

abbreviation NULL :: "'a ptr" where
  "NULL \<equiv> None"

text \<open>
  \<open>Abort\<close> is \<open>abort()\<close>, \<open>Fatal\<close> is \<open>fatal(...)\<close> or \<open>exit(1)\<close>, \<open>Panic\<close> is \<open>panic(...)\<close>,
  \<open>Assert\<close> a failed \<open>assert\<close>, \<open>Segv\<close> a dereference of \<open>NULL\<close> or of freed memory and
  \<open>Div_zero\<close> an integer division by zero.
\<close>

datatype stop = Abort | Fatal | Panic | Assert | Segv | Div_zero

type_synonym 'a run = "stop + 'a"

text \<open>Running \<open>f\<close> on the result of \<open>m\<close>, unless \<open>m\<close> stops the process.\<close>

definition andthen :: "'a run \<Rightarrow> ('a \<Rightarrow> 'b run) \<Rightarrow> 'b run" where
  "andthen m f = (case m of Inl e \<Rightarrow> Inl e | Inr x \<Rightarrow> f x)"

lemma andthen_simps [simp]: "andthen (Inl e) f = Inl e" "andthen (Inr x) f = f x"
  by (simp_all add: andthen_def)

lemma andthen_assoc: "andthen (andthen m f) g = andthen m (\<lambda>x. andthen (f x) g)"
  by (cases m) simp_all

lemma andthen_eq_Inr: "andthen m f = Inr y \<longleftrightarrow> (\<exists>x. m = Inr x \<and> f x = Inr y)"
  by (cases m) simp_all

text \<open>A loop over a list that stops when its body stops.\<close>

primrec run_list :: "('s \<Rightarrow> 'a \<Rightarrow> 's run) \<Rightarrow> 'a list \<Rightarrow> 's \<Rightarrow> 's run" where
  "run_list f [] s = Inr s"
| "run_list f (x # xs) s = andthen (f s x) (\<lambda>s'. run_list f xs s')"

lemma run_list_append: "run_list f (xs @ ys) s = andthen (run_list f xs s) (run_list f ys)"
  by (induction xs arbitrary: s) (simp_all add: andthen_assoc)

text \<open>An operation that may not return gives an option of a run; \<open>None\<close> is not returning.\<close>

definition bindr :: "'a run option \<Rightarrow> ('a \<Rightarrow> 'b run option) \<Rightarrow> 'b run option" where
  "bindr m f = (case m of None \<Rightarrow> None | Some (Inl e) \<Rightarrow> Some (Inl e) | Some (Inr x) \<Rightarrow> f x)"

lemma bindr_simps [simp]: "bindr None f = None" "bindr (Some (Inl e)) f = Some (Inl e)" "bindr (Some (Inr x)) f = f x"
  by (simp_all add: bindr_def)

abbreviation ret :: "'a \<Rightarrow> 'a run option" where
  "ret x \<equiv> Some (Inr x)"

abbreviation stops :: "stop \<Rightarrow> 'a run option" where
  "stops e \<equiv> Some (Inl e)"

lemma bindr_ret: "bindr m f = ret y \<longleftrightarrow> (\<exists>x. m = ret x \<and> f x = ret y)"
  by (auto simp: bindr_def split: option.split sum.split)

lemma bindr_bind: "bindr m f = Option.bind m (\<lambda>r. case r of Inl e \<Rightarrow> Some (Inl e) | Inr x \<Rightarrow> f x)"
  by (cases m) (auto simp: bindr_def split: sum.split)

lemma bindr_mono [partial_function_mono]:
  assumes "mono_option B" "\<And>y. mono_option (\<lambda>f. C y f)"
  shows "mono_option (\<lambda>f. bindr (B f) (\<lambda>y. C y f))"
  unfolding bindr_bind
proof (rule bind_mono [OF assms(1)])
  fix r
  show "mono_option (\<lambda>f. case r of Inl e \<Rightarrow> Some (Inl e) | Inr x \<Rightarrow> C x f)"
    using assms(2) by (cases r) (simp_all add: monotone_def option.leq_refl)
qed

text \<open>Loops over a list or over the positions below \<open>n\<close>: an invariant that each round keeps holds at
  the end, and the loop returns.\<close>

primrec run_each :: "('s \<Rightarrow> 'a \<Rightarrow> 's run option) \<Rightarrow> 'a list \<Rightarrow> 's \<Rightarrow> 's run option" where
  "run_each f [] s = ret s"
| "run_each f (x # xs) s = bindr (f s x) (\<lambda>s'. run_each f xs s')"

lemma run_each_append: "run_each f (xs @ ys) s = bindr (run_each f xs s) (run_each f ys)"
  by (induction xs arbitrary: s) (auto simp: bindr_def split: option.split sum.split)

lemma run_list_upto:
  assumes "I 0 s" and step: "\<And>k s. k < n \<Longrightarrow> I k s \<Longrightarrow> \<exists>s'. f s k = Inr s' \<and> I (Suc k) s'"
  shows "\<exists>s'. run_list f [0..<n] s = Inr s' \<and> I n s'"
  using step
proof (induction n)
  case 0
  then show ?case using assms(1) by simp
next
  case (Suc n)
  obtain u where u: "run_list f [0..<n] s = Inr u" "I n u" using Suc.IH Suc.prems less_SucI by meson
  obtain s' where "f u n = Inr s'" "I (Suc n) s'" using Suc.prems [of n u] u(2) by blast
  then show ?case using u(1) by (simp add: run_list_append)
qed

text \<open>A loop each of whose rounds adds something to what its invariant covers.\<close>

lemma run_list_union:
  assumes "I D s" and step: "\<And>D x s. x \<in> set xs \<Longrightarrow> I D s \<Longrightarrow> \<exists>s'. f s x = Inr s' \<and> I (D \<union> F x) s'"
  shows "\<exists>s'. run_list f xs s = Inr s' \<and> I (D \<union> (\<Union>x \<in> set xs. F x)) s'"
  using assms
proof (induction xs arbitrary: D s)
  case Nil
  then show ?case by simp
next
  case (Cons x xs)
  obtain s' where s': "f s x = Inr s'" "I (D \<union> F x) s'" using Cons.prems(2) [of x D s] Cons.prems(1) by auto
  obtain s'' where s'': "run_list f xs s' = Inr s''" "I ((D \<union> F x) \<union> (\<Union>x \<in> set xs. F x)) s''"
    using Cons.IH [OF s'(2)] Cons.prems(2) by auto
  then show ?case using s'(1) by (simp add: Un_assoc)
qed

lemma run_each_upto:
  assumes "I 0 s" and step: "\<And>k s. k < n \<Longrightarrow> I k s \<Longrightarrow> \<exists>s'. f s k = ret s' \<and> I (Suc k) s'"
  shows "\<exists>s'. run_each f [0..<n] s = ret s' \<and> I n s'"
  using step
proof (induction n)
  case 0
  then show ?case using assms(1) by simp
next
  case (Suc n)
  obtain u where u: "run_each f [0..<n] s = ret u" "I n u" using Suc.IH Suc.prems less_SucI by meson
  obtain s' where "f u n = ret s'" "I (Suc n) s'" using Suc.prems [of n u] u(2) by blast
  then show ?case using u(1) by (simp add: run_each_append)
qed

text \<open>The C operator \<open>%\<close> on \<open>int\<close>: the remainder of a division that truncates towards zero, with
  the sign of the dividend.\<close>

definition c_rem :: "int \<Rightarrow> int \<Rightarrow> int" where
  "c_rem a b = sgn a * (\<bar>a\<bar> mod \<bar>b\<bar>)"

lemma c_rem_nonneg: "0 \<le> a \<Longrightarrow> 0 < b \<Longrightarrow> c_rem a b = a mod b"
  by (auto simp: c_rem_def sgn_if)

text \<open>The same for the truncating division \<open>/\<close>.\<close>

definition c_div :: "int \<Rightarrow> int \<Rightarrow> int" where
  "c_div a b = sgn a * sgn b * (\<bar>a\<bar> div \<bar>b\<bar>)"

lemma c_div_nonneg: "0 \<le> a \<Longrightarrow> 0 < b \<Longrightarrow> c_div a b = a div b"
  by (auto simp: c_div_def sgn_if)

section \<open>Hint collections\<close>

named_theorems inv_intros \<open>introduction rules for the components' invariants\<close>
named_theorems view_simps \<open>what an operation does to the abstract value of a component\<close>

section \<open>Modular arithmetic of ring positions\<close>

lemma mod_pred_add:
  assumes "0 < s"
  shows "((h + k) mod s + s - 1) mod s = (h + k + s - 1) mod (s::nat)"
proof -
  have "(h + k) mod s + s - 1 = (h + k) mod s + (s - 1)" and "h + k + s - 1 = (h + k) + (s - 1)"
    using assms by simp_all
  then show ?thesis by (simp add: mod_simps)
qed

lemma mod_pred_Suc:
  assumes "0 < s"
  shows "((h + Suc k) mod s + s - 1) mod s = (h + k) mod (s::nat)"
proof -
  have "h + Suc k + s - 1 = (h + k) + s" by simp
  then show ?thesis by (simp only: mod_pred_add [OF assms] mod_add_self2)
qed

lemma mod_head_pred:
  assumes "0 < (s::nat)"
  shows "Suc ((h + s - Suc 0) mod s + c) mod s = (h + c) mod s"
proof -
  have "Suc ((h + s - Suc 0) mod s + c) mod s = (h + s - Suc 0 + Suc c) mod s"
    by (metis add_Suc_right mod_add_left_eq)
  also have "h + s - Suc 0 + Suc c = (h + c) + s"
    using assms by simp
  finally show ?thesis by simp
qed

lemma mod_pred_Suc_head:
  assumes "0 < (c::nat)"
  shows "(Suc h mod s + c - Suc 0) mod s = (h + c) mod s"
proof -
  have "Suc h mod s + c - Suc 0 = Suc h mod s + (c - 1)" using assms by simp
  then have "(Suc h mod s + c - Suc 0) mod s = (Suc h + (c - 1)) mod s" by (simp add: mod_simps)
  then show ?thesis using assms by simp
qed

lemma mod_Suc_add: "((h + k) mod s + 1) mod s = (h + Suc k) mod (s::nat)"
  by (simp add: mod_simps)

lemma mod_add_inj:
  assumes "(h + i) mod s = (h + j) mod s" and "i < s" and "j < (s::nat)"
  shows "i = j"
proof -
  have "int s dvd (int h + int i) - (int h + int j)"
    using assms(1) by (metis mod_eq_dvd_iff of_nat_add of_nat_mod)
  then have "int s dvd int i - int j" by simp
  moreover have "\<bar>int i - int j\<bar> < int s" using assms(2,3) by linarith
  ultimately have "int i - int j = 0" by (metis dvd_imp_le_int linorder_not_less abs_of_nat)
  then show ?thesis by simp
qed

section \<open>Rotation\<close>

lemma rotate_update:
  assumes "i < length xs"
  shows "rotate h (xs[(h + i) mod length xs := x]) = (rotate h xs)[i := x]"
proof (rule nth_equalityI)
  show "length (rotate h (xs[(h + i) mod length xs := x])) = length ((rotate h xs)[i := x])"
    by simp
next
  fix j assume j: "j < length (rotate h (xs[(h + i) mod length xs := x]))"
  have "(h + i) mod length xs = (h + j) mod length xs \<longleftrightarrow> i = j"
    using assms j by (auto dest: mod_add_inj)
  moreover have "(h + j) mod length xs < length xs"
    using assms by (intro mod_less_divisor) auto
  ultimately show "rotate h (xs[(h + i) mod length xs := x]) ! j = (rotate h xs)[i := x] ! j"
    using assms j by (auto simp: nth_rotate nth_list_update)
qed

lemma nth_mod_rotate: "i < length xs \<Longrightarrow> xs ! ((h + i) mod length xs) = rotate h xs ! i"
  by (simp add: nth_rotate)

lemma rotate_pred:
  assumes "xs \<noteq> []"
  shows "rotate ((h + length xs - 1) mod length xs) xs = last (rotate h xs) # butlast (rotate h xs)"
proof -
  let ?r = "rotate ((h + length xs - 1) mod length xs) xs"
  have "rotate1 ?r = rotate (Suc (h + length xs - 1)) xs"
    by (simp add: rotate_conv_mod [of "Suc _"] mod_Suc_eq flip: rotate_Suc)
  also have "\<dots> = rotate h xs"
    using assms by (simp add: rotate_conv_mod [of "h + _"] rotate_conv_mod [of h] Suc_diff_1)
  finally have r: "rotate1 ?r = rotate h xs" .
  have "?r \<noteq> []" using assms by simp
  then obtain y ys where "?r = y # ys" by (cases ?r) auto
  with r show ?thesis by (metis butlast_snoc last_snoc rotate1.simps(2))
qed

lemma rotate_Suc_mod: "rotate ((h + 1) mod length xs) xs = rotate1 (rotate h xs)"
  by (simp flip: rotate_conv_mod)

lemma rotate_pred_nth:
  assumes "Suc j < length xs"
  shows "rotate ((h + length xs - 1) mod length xs) xs ! Suc j = rotate h xs ! j"
  using assms by (subst rotate_pred) (auto simp: nth_butlast)

lemma rotate_succ_nth:
  assumes "Suc j < length xs"
  shows "rotate ((h + 1) mod length xs) xs ! j = rotate h xs ! Suc j"
  using assms by (simp add: nth_rotate mod_simps)

section \<open>Vectors of lists\<close>

lemma mset_concat_update:
  assumes "i < length vec"
  shows "mset (concat (vec[i := xs])) + mset (vec ! i) = mset (concat vec) + mset xs"
  using assms
proof (induction vec arbitrary: i)
  case (Cons v vec)
  then show ?case by (cases i) (auto simp: ac_simps)
qed simp

lemma mset_concat_cons:
  assumes "i < length vec"
  shows "mset (concat (vec[i := x # vec ! i])) = add_mset x (mset (concat vec))"
  using mset_concat_update [OF assms, of "x # vec ! i"] by simp

lemma set_concat_nth: "x \<in> set (concat vec) \<longleftrightarrow> (\<exists>i < length vec. x \<in> set (vec ! i))"
  by (metis UN_iff in_set_conv_nth set_concat)

section \<open>Searching a list\<close>

text \<open>The position of the first element equal to \<open>d\<close>, or the length.\<close>

definition first_pos :: "'a list \<Rightarrow> 'a \<Rightarrow> nat" where
  "first_pos xs d = length (takeWhile (\<lambda>x. x \<noteq> d) xs)"

lemma first_pos_le: "first_pos xs d \<le> length xs"
  by (simp add: first_pos_def length_takeWhile_le)

lemma first_pos_end: "first_pos xs d = length xs \<longleftrightarrow> d \<notin> set xs"
  unfolding first_pos_def by (induction xs) auto

lemma first_pos_least: "e \<in> set xs \<Longrightarrow> (LEAST j. j < length xs \<and> xs ! j = e) = first_pos xs e"
proof (rule Least_equality)
  assume e: "e \<in> set xs"
  then have lt: "first_pos xs e < length xs"
    using first_pos_le [of xs e] first_pos_end [of xs e] by simp
  then show "first_pos xs e < length xs \<and> xs ! first_pos xs e = e"
    using nth_length_takeWhile [of "\<lambda>x. x \<noteq> e" xs] by (simp add: first_pos_def)
next
  fix j assume "j < length xs \<and> xs ! j = e"
  then show "first_pos xs e \<le> j"
  proof (induction xs arbitrary: j)
    case (Cons x xs)
    then show ?case by (cases j) (auto simp: first_pos_def)
  qed simp
qed

section \<open>Block copies\<close>

text \<open>\<open>memcpy(dst + off, src, length src)\<close> between different objects.\<close>

definition blit :: "'a list \<Rightarrow> nat \<Rightarrow> 'a list \<Rightarrow> 'a list" where
  "blit dst off src = take off dst @ src @ drop (off + length src) dst"

lemma length_blit [simp]: "off + length src \<le> length dst \<Longrightarrow> length (blit dst off src) = length dst"
  by (simp add: blit_def)

lemma nth_blit:
  assumes "off + length src \<le> length dst" "j < length dst"
  shows "blit dst off src ! j = (if off \<le> j \<and> j < off + length src then src ! (j - off) else dst ! j)"
  using assms by (auto simp: blit_def nth_append)

section \<open>Linked structures\<close>

text \<open>A memory of nodes at addresses; reading through \<open>NULL\<close> or at an address where no node is
  allocated stops the process. \<open>node_put\<close> is the assignment of fields of \<open>*p\<close>.\<close>

type_synonym 'n memory = "nat \<rightharpoonup> 'n"

definition node_at :: "'n memory \<Rightarrow> nat ptr \<Rightarrow> 'n run" where
  "node_at mem p =
     (case p of None \<Rightarrow> Inl Segv | Some a \<Rightarrow> (case mem a of None \<Rightarrow> Inl Segv | Some n \<Rightarrow> Inr n))"

definition node_put :: "'n memory \<Rightarrow> nat ptr \<Rightarrow> ('n \<Rightarrow> 'n) \<Rightarrow> 'n memory run" where
  "node_put mem p f = andthen (node_at mem p) (\<lambda>n. Inr (mem(the p \<mapsto> f n)))"

lemma node_at_Some [simp]: "mem a = Some n \<Longrightarrow> node_at mem (Some a) = Inr n"
  by (simp add: node_at_def)

lemma node_put_Some [simp]: "mem a = Some n \<Longrightarrow> node_put mem (Some a) f = Inr (mem(a \<mapsto> f n))"
  by (simp add: node_put_def)

section \<open>Association lists\<close>

lemma map_of_insert_mid: "k \<notin> fst ` set a \<Longrightarrow> map_of (a @ (k, v) # b) = (map_of (a @ b))(k \<mapsto> v)"
  by (induction a) auto

lemma map_of_delete_mid:
  assumes "k \<notin> fst ` set (a @ b)"
  shows "(map_of (a @ (k, v) # b))(k := None) = map_of (a @ b)"
proof -
  have "map_of (a @ b) k = None" using assms by (simp add: map_of_eq_None_iff image_Un)
  moreover have "map_of (a @ (k, v) # b) = (map_of (a @ b))(k \<mapsto> v)"
    using assms by (intro map_of_insert_mid) auto
  ultimately show ?thesis by (simp only: fun_upd_upd fun_upd_idem)
qed

end
