(* ===== verification/CString.thy ===== *)
theory CString
  imports Prelude
begin

text \<open>
  The part of the C library's string and character functions that the utilities call, on
  strings as character lists (the terminating null character is not part of the list, and a
  C string holds no null character). \<open>strcmp\<close> and \<open>strcasecmp\<close> are given up to the sign of
  their result, which is all the C standard fixes and all the program looks at. Character
  classification is that of the "C" locale.
\<close>

section \<open>Characters\<close>

definition char_code :: "char \<Rightarrow> nat" where
  "char_code c = of_char c"

lemma char_code_less [simp]: "char_code c < 256"
  using of_char_mod_256 [of c, where 'a = nat] by (simp add: char_code_def)

lemma char_code_inj [simp]: "char_code c = char_code d \<longleftrightarrow> c = d"
  by (simp add: char_code_def)

lemma char_of_char_code [simp]: "char_of (char_code c) = c"
  by (simp add: char_code_def)

lemma char_code_char_of: "n < 256 \<Longrightarrow> char_code (char_of n) = n"
  by (simp add: char_code_def)

definition isspace :: "char \<Rightarrow> bool" where
  "isspace c \<longleftrightarrow> char_code c = 32 \<or> (9 \<le> char_code c \<and> char_code c \<le> 13)"

definition tolower :: "char \<Rightarrow> char" where
  "tolower c = (if 65 \<le> char_code c \<and> char_code c \<le> 90 then char_of (char_code c + 32) else c)"

lemma tolower_idem [simp]: "tolower (tolower c) = tolower c"
  by (auto simp: tolower_def char_code_char_of)

section \<open>Comparison\<close>

fun strcmp :: "string \<Rightarrow> string \<Rightarrow> int" where
  "strcmp [] [] = 0"
| "strcmp [] (d # ds) = -1"
| "strcmp (c # cs) [] = 1"
| "strcmp (c # cs) (d # ds) =
     (if c = d then strcmp cs ds else if char_code c < char_code d then -1 else 1)"

definition strcasecmp :: "string \<Rightarrow> string \<Rightarrow> int" where
  "strcasecmp s t = strcmp (map tolower s) (map tolower t)"

lemma strcmp_0 [simp]: "strcmp s t = 0 \<longleftrightarrow> s = t"
  by (induction s t rule: strcmp.induct) auto

lemma strcasecmp_0 [simp]: "strcasecmp s t = 0 \<longleftrightarrow> map tolower s = map tolower t"
  by (simp add: strcasecmp_def)

lemma strcmp_sign: "strcmp s t \<le> 0 \<longleftrightarrow> 0 \<le> strcmp t s"
  by (induction s t rule: strcmp.induct) (auto simp: not_less dest: le_neq_implies_less)

lemma strcmp_trans: "strcmp s t \<le> 0 \<Longrightarrow> strcmp t u \<le> 0 \<Longrightarrow> strcmp s u \<le> 0"
proof (induction s t arbitrary: u rule: strcmp.induct)
  case 1
  then show ?case by simp
next
  case (2 d ds)
  then show ?case by (cases u) auto
next
  case (3 c cs)
  then show ?case by simp
next
  case (4 c cs d ds)
  then show ?case by (cases u) (auto split: if_splits)
qed

text \<open>\<open>strncmp\<close> compares at most the first \<open>n\<close> characters.\<close>

definition strncmp :: "string \<Rightarrow> string \<Rightarrow> nat \<Rightarrow> int" where
  "strncmp s t n = strcmp (take n s) (take n t)"

section \<open>Copying into a buffer\<close>

text \<open>\<open>snprintf(buf, size, "%s", s)\<close> with \<open>size > 0\<close> leaves the first \<open>size - 1\<close> characters.\<close>

definition snprintf_s :: "nat \<Rightarrow> string \<Rightarrow> string" where
  "snprintf_s sz s = take (sz - 1) s"

section \<open>Numbers as text and as bytes\<close>

text \<open>The decimal text of \<open>printf("%d")\<close>.\<close>

definition dec_digit :: "nat \<Rightarrow> char" where
  "dec_digit d = char_of (48 + d)"

fun nat_text :: "nat \<Rightarrow> string" where
  "nat_text n = (if n < 10 then [dec_digit n] else nat_text (n div 10) @ [dec_digit (n mod 10)])"

declare nat_text.simps [simp del]

definition int_text :: "int \<Rightarrow> string" where
  "int_text i = (if i < 0 then ''-'' @ nat_text (nat (- i)) else nat_text (nat i))"

definition isdigit :: "char \<Rightarrow> bool" where
  "isdigit c \<longleftrightarrow> 48 \<le> char_code c \<and> char_code c \<le> 57"

definition digit_val :: "char \<Rightarrow> int" where
  "digit_val c = int (char_code c) - 48"

definition dec_val :: "string \<Rightarrow> int" where
  "dec_val ds = foldl (\<lambda>n c. 10 * n + digit_val c) 0 ds"

lemma dec_digit_code: "d < 10 \<Longrightarrow> char_code (dec_digit d) = 48 + d"
  by (simp add: dec_digit_def char_code_char_of)

lemma dec_digit_props [simp]: "d < 10 \<Longrightarrow> isdigit (dec_digit d)" "d < 10 \<Longrightarrow> digit_val (dec_digit d) = int d"
  by (simp_all add: isdigit_def digit_val_def dec_digit_code)

lemma nat_text_digits: "nat_text n \<noteq> [] \<and> list_all isdigit (nat_text n)"
proof (induction n rule: nat_text.induct)
  case (1 n)
  then show ?case by (cases "n < 10") (simp_all add: nat_text.simps [of n])
qed

lemma dec_val_snoc: "dec_val (ds @ [c]) = 10 * dec_val ds + digit_val c"
  by (simp add: dec_val_def)

lemma dec_val_nat_text: "dec_val (nat_text n) = int n"
proof (induction n rule: nat_text.induct)
  case (1 n)
  show ?case
  proof (cases "n < 10")
    case True
    then show ?thesis by (simp add: nat_text.simps [of n] dec_val_def)
  next
    case False
    then show ?thesis
      using 1 by (simp add: nat_text.simps [of n] dec_val_snoc zdiv_int zmod_int)
  qed
qed

text \<open>Only zero is written with a leading zero.\<close>

lemma nat_text_head: "0 < n \<Longrightarrow> hd (nat_text n) \<noteq> CHR ''0''"
proof (induction n rule: nat_text.induct)
  case (1 n)
  show ?case
  proof (cases "n < 10")
    case True
    have "char_code (CHR ''0'') = 48" by (simp add: char_code_def)
    then have "dec_digit n \<noteq> CHR ''0''" using True 1(2) dec_digit_code [of n] by force
    then show ?thesis using True by (simp add: nat_text.simps [of n])
  next
    case False
    then show ?thesis using 1 nat_text_digits [of "n div 10"] by (simp add: nat_text.simps [of n])
  qed
qed

text \<open>\<open>n\<close> bytes, least significant first, as \<open>fwrite\<close> and \<open>fread\<close> of an integer see them on the
  host. A byte of a file is a character.\<close>

primrec nat_bytes :: "nat \<Rightarrow> nat \<Rightarrow> char list" where
  "nat_bytes 0 k = []"
| "nat_bytes (Suc n) k = char_of (k mod 256) # nat_bytes n (k div 256)"

primrec bytes_nat :: "char list \<Rightarrow> nat" where
  "bytes_nat [] = 0"
| "bytes_nat (c # cs) = char_code c + 256 * bytes_nat cs"

lemma length_nat_bytes [simp]: "length (nat_bytes n k) = n"
  by (induction n arbitrary: k) simp_all

lemma bytes_nat_bytes: "bytes_nat (nat_bytes n k) = k mod 256 ^ n"
proof (induction n arbitrary: k)
  case (Suc n)
  have "k mod (256 * 256 ^ n) = k mod 256 + 256 * (k div 256 mod 256 ^ n)"
    by (simp add: mod_mult2_eq)
  then show ?case using Suc by (simp add: char_code_def)
qed simp

end
