(* ===== verification/Quicksort.thy ===== *)
theory Quicksort
  imports Prelude
begin

text \<open>
  The in-place quicksort that \<open>list.c\<close> and \<open>linked-list.c\<close> both contain (their two static
  functions \<open>sort\<close> differ in how a cell is read and written and in the choice of the pivot,
  the last element of the range in one, the middle one in the other).

  The functions below take the array as a state \<open>s\<close> with a partial read \<open>rd s i\<close> (\<open>None\<close> is
  an access outside the array) and a write \<open>wr s i x\<close>. The two inner scans and the outer loop
  of the partition stop only if the comparison function behaves, so they are partial
  functions whose result \<open>None\<close> covers divergence and access errors. The locale \<open>comparator\<close>
  states what a caller's comparison function has to satisfy; in it the sort is proved total
  and correct. The locale \<open>array_view\<close> transfers this to any representation of the array.
\<close>

section \<open>The algorithm\<close>

text \<open>\<open>while (comp(a[i], ptr) < 0) i++;\<close> and \<open>while (comp(a[j], ptr) > 0) j--;\<close>\<close>

partial_function (option) scan_up ::
  "(int \<Rightarrow> 'a option) \<Rightarrow> ('a \<Rightarrow> 'a \<Rightarrow> int) \<Rightarrow> 'a \<Rightarrow> int \<Rightarrow> int option" where
  "scan_up rd cmp p i =
     Option.bind (rd i) (\<lambda>x. if cmp x p < 0 then scan_up rd cmp p (i + 1) else Some i)"

partial_function (option) scan_down ::
  "(int \<Rightarrow> 'a option) \<Rightarrow> ('a \<Rightarrow> 'a \<Rightarrow> int) \<Rightarrow> 'a \<Rightarrow> int \<Rightarrow> int option" where
  "scan_down rd cmp p j =
     Option.bind (rd j) (\<lambda>x. if cmp x p > 0 then scan_down rd cmp p (j - 1) else Some j)"

text \<open>The body of the \<open>do \<dots> while (i <= j)\<close> loop, with the exchange of the two cells.\<close>

partial_function (option) partition_loop ::
  "('s \<Rightarrow> int \<Rightarrow> 'a option) \<Rightarrow> ('s \<Rightarrow> int \<Rightarrow> 'a \<Rightarrow> 's) \<Rightarrow> ('a \<Rightarrow> 'a \<Rightarrow> int) \<Rightarrow> 'a \<Rightarrow>
   's \<Rightarrow> int \<Rightarrow> int \<Rightarrow> ('s \<times> int \<times> int) option" where
  "partition_loop rd wr cmp p s i j =
     Option.bind (scan_up (rd s) cmp p i) (\<lambda>i.
     Option.bind (scan_down (rd s) cmp p j) (\<lambda>j.
       if i \<le> j
       then Option.bind (rd s i) (\<lambda>x. Option.bind (rd s j) (\<lambda>y.
              let s = wr (wr s i y) j x; i = i + 1; j = j - 1
              in if i \<le> j then partition_loop rd wr cmp p s i j else Some (s, i, j)))
       else Some (s, i, j)))"

text \<open>\<open>piv lo hi\<close> is the position of the pivot.\<close>

partial_function (option) quicksort ::
  "(int \<Rightarrow> int \<Rightarrow> int) \<Rightarrow> ('s \<Rightarrow> int \<Rightarrow> 'a option) \<Rightarrow> ('s \<Rightarrow> int \<Rightarrow> 'a \<Rightarrow> 's) \<Rightarrow> ('a \<Rightarrow> 'a \<Rightarrow> int) \<Rightarrow>
   's \<Rightarrow> int \<Rightarrow> int \<Rightarrow> 's option" where
  "quicksort piv rd wr cmp s lo hi =
     Option.bind (rd s (piv lo hi)) (\<lambda>p.
     Option.bind (partition_loop rd wr cmp p s lo hi) (\<lambda>(s, i, j).
     Option.bind (if lo < j then quicksort piv rd wr cmp s lo j else Some s) (\<lambda>s.
       if i < hi then quicksort piv rd wr cmp s i hi else Some s)))"

section \<open>Plain arrays\<close>

text \<open>A C array as a list: reads and writes outside it fail or have no effect.\<close>

definition arr_get :: "'a list \<Rightarrow> int \<Rightarrow> 'a option" where
  "arr_get xs i = (if 0 \<le> i \<and> i < int (length xs) then Some (xs ! nat i) else None)"

definition arr_set :: "'a list \<Rightarrow> int \<Rightarrow> 'a \<Rightarrow> 'a list" where
  "arr_set xs i x = (if 0 \<le> i \<and> i < int (length xs) then xs[nat i := x] else xs)"

lemma length_arr_set [simp]: "length (arr_set xs i x) = length xs"
  by (simp add: arr_set_def)

lemma arr_get_set:
  "arr_get (arr_set xs i x) k =
    (if k = i \<and> 0 \<le> i \<and> i < int (length xs) then Some x else arr_get xs k)"
  by (auto simp: arr_get_def arr_set_def nth_list_update nat_eq_iff2)

text \<open>The elements of a range of positions.\<close>

definition in_range :: "('a \<Rightarrow> bool) \<Rightarrow> 'a list \<Rightarrow> int \<Rightarrow> int \<Rightarrow> bool" where
  "in_range P xs a b \<longleftrightarrow> (\<forall>k. a \<le> k \<and> k \<le> b \<longrightarrow> (\<exists>x. arr_get xs k = Some x \<and> P x))"

text \<open>\<open>ys\<close> is \<open>xs\<close> with the elements in positions \<open>a..b\<close> permuted.\<close>

definition permuted :: "'a list \<Rightarrow> 'a list \<Rightarrow> int \<Rightarrow> int \<Rightarrow> bool" where
  "permuted xs ys a b \<longleftrightarrow>
     mset ys = mset xs \<and> (\<forall>k. k < a \<or> b < k \<longrightarrow> arr_get ys k = arr_get xs k)"

lemma permuted_refl: "permuted xs xs a b"
  by (simp add: permuted_def)

lemma permuted_trans:
  assumes "permuted xs ys a b" "permuted ys zs c d" "a \<le> c" "d \<le> b"
  shows "permuted xs zs a b"
proof -
  have "arr_get zs k = arr_get xs k" if "k < a \<or> b < k" for k
  proof -
    have "k < c \<or> d < k" using that assms(3,4) by linarith
    then show ?thesis using assms(1,2) that by (auto simp: permuted_def)
  qed
  then show ?thesis using assms(1,2) by (simp add: permuted_def)
qed

lemma permuted_length: "permuted xs ys a b \<Longrightarrow> length ys = length xs"
  by (auto simp: permuted_def dest: mset_eq_length)

lemma permuted_swap:
  assumes "arr_get xs i = Some x" "arr_get xs j = Some y" "a \<le> i" "i \<le> b" "a \<le> j" "j \<le> b"
  shows "permuted xs (arr_set (arr_set xs i y) j x) a b"
proof -
  have ij: "0 \<le> i" "nat i < length xs" "x = xs ! nat i" "0 \<le> j" "nat j < length xs" "y = xs ! nat j"
    using assms(1,2) by (auto simp: arr_get_def split: if_splits)
  have "mset (xs[nat i := xs ! nat j, nat j := xs ! nat i]) = mset xs"
    using ij by (intro mset_swap) auto
  then have "mset (arr_set (arr_set xs i y) j x) = mset xs"
    using ij by (simp add: arr_set_def)
  moreover have "arr_get (arr_set (arr_set xs i y) j x) k = arr_get xs k" if "k < a \<or> b < k" for k
    using that assms by (auto simp: arr_get_set)
  ultimately show ?thesis by (auto simp: permuted_def)
qed

text \<open>A property of all elements of a range survives a permutation inside the range.\<close>

lemma slice_set:
  assumes "0 \<le> a" "b < int (length xs)" "a \<le> b + 1"
  shows "in_range P xs a b \<longleftrightarrow> (\<forall>x \<in> set (take (nat (b + 1 - a)) (drop (nat a) xs)). P x)"
proof -
  let ?n = "nat (b + 1 - a)"
  have len: "nat a + ?n \<le> length xs" using assms by linarith
  have "(\<forall>x \<in> set (take ?n (drop (nat a) xs)). P x) \<longleftrightarrow> (\<forall>m < ?n. P (xs ! (nat a + m)))"
    using len by (simp add: all_set_conv_all_nth)
  also have "\<dots> \<longleftrightarrow> in_range P xs a b"
  proof
    assume L: "\<forall>m < ?n. P (xs ! (nat a + m))"
    show "in_range P xs a b" unfolding in_range_def
    proof (intro allI impI)
      fix k assume k: "a \<le> k \<and> k \<le> b"
      then have "nat (k - a) < ?n" and "nat a + nat (k - a) = nat k" using assms(1) by linarith+
      with L have "P (xs ! nat k)" by metis
      with k assms show "\<exists>x. arr_get xs k = Some x \<and> P x" by (auto simp: arr_get_def)
    qed
  next
    assume R: "in_range P xs a b"
    show "\<forall>m < ?n. P (xs ! (nat a + m))"
    proof (intro allI impI)
      fix m assume m: "m < ?n"
      then have "a \<le> a + int m \<and> a + int m \<le> b" by linarith
      then obtain x where "arr_get xs (a + int m) = Some x" "P x"
        using R unfolding in_range_def by blast
      moreover have "nat (a + int m) = nat a + m" using assms(1) by linarith
      ultimately show "P (xs ! (nat a + m))" by (auto simp: arr_get_def split: if_splits)
    qed
  qed
  finally show ?thesis by blast
qed

lemma permuted_slice_mset:
  assumes "permuted xs ys a b" "0 \<le> a" "b < int (length xs)" "a \<le> b + 1"
  shows "mset (take (nat (b + 1 - a)) (drop (nat a) ys)) = mset (take (nat (b + 1 - a)) (drop (nat a) xs))"
proof -
  let ?n = "nat (b + 1 - a)"
  have len: "length ys = length xs" by (rule permuted_length [OF assms(1)])
  have out: "ys ! k = xs ! k" if "k < length xs" "k < nat a \<or> nat a + ?n \<le> k" for k
  proof -
    have "int k < a \<or> b < int k" using that(2) assms by linarith
    then have "arr_get ys (int k) = arr_get xs (int k)" using assms(1) by (auto simp: permuted_def)
    then show ?thesis using that(1) len by (simp add: arr_get_def)
  qed
  have pre: "take (nat a) ys = take (nat a) xs"
    by (rule nth_equalityI) (use out len in auto)
  have post: "drop (nat a + ?n) ys = drop (nat a + ?n) xs"
    by (rule nth_equalityI) (use out len in auto)
  have split: "mset zs = mset (take (nat a) zs) + mset (take ?n (drop (nat a) zs)) + mset (drop (nat a + ?n) zs)"
    for zs :: "'a list"
    by (metis append_take_drop_id drop_drop mset_append add.assoc add.commute)
  have "mset ys = mset xs" using assms(1) by (simp add: permuted_def)
  then show ?thesis using split [of xs] split [of ys] pre post by simp
qed

lemma in_range_permuted:
  assumes "permuted xs ys a b" "0 \<le> a" "b < int (length xs)" "a \<le> b + 1"
  shows "in_range P ys a b \<longleftrightarrow> in_range P xs a b"
proof -
  have "set (take (nat (b + 1 - a)) (drop (nat a) ys)) = set (take (nat (b + 1 - a)) (drop (nat a) xs))"
    using permuted_slice_mset [OF assms] by (metis set_mset_mset)
  then show ?thesis
    using assms permuted_length [OF assms(1)] by (simp add: slice_set)
qed

lemma in_range_join: "in_range P xs a (m - 1) \<Longrightarrow> in_range P xs m b \<Longrightarrow> in_range P xs a b"
  unfolding in_range_def by (metis linorder_not_less zle_diff1_eq)

lemma in_range_mono: "in_range P xs a b \<Longrightarrow> (\<And>x. P x \<Longrightarrow> Q x) \<Longrightarrow> in_range Q xs a b"
  unfolding in_range_def by blast

lemma in_range_sub: "in_range P xs a b \<Longrightarrow> a \<le> c \<Longrightarrow> d \<le> b \<Longrightarrow> in_range P xs c d"
  unfolding in_range_def by auto

lemma in_range_cong:
  "(\<And>k. a \<le> k \<Longrightarrow> k \<le> b \<Longrightarrow> arr_get ys k = arr_get xs k) \<Longrightarrow> in_range P ys a b = in_range P xs a b"
  unfolding in_range_def by metis

lemma in_range_one: "in_range P xs k k \<longleftrightarrow> (\<exists>x. arr_get xs k = Some x \<and> P x)"
  unfolding in_range_def by auto

lemma in_range_empty: "b < a \<Longrightarrow> in_range P xs a b"
  unfolding in_range_def by auto

section \<open>Correctness for a well-behaved comparison\<close>

lemma scan_up_total:
  assumes "in_range (\<lambda>x. 0 \<le> cmp x p) xs k k" "i \<le> k" "0 \<le> i"
  shows "\<exists>i'. scan_up (arr_get xs) cmp p i = Some i' \<and> i \<le> i' \<and> i' \<le> k \<and>
    in_range (\<lambda>x. 0 \<le> cmp x p) xs i' i' \<and> in_range (\<lambda>x. cmp x p < 0) xs i (i' - 1)"
  using assms
proof (induction "nat (k - i)" arbitrary: i)
  case 0
  then have "i = k" by simp
  with 0 show ?case by (auto simp: scan_up.simps [of _ _ _ k] in_range_one intro!: in_range_empty)
next
  case (Suc n)
  obtain x where x: "arr_get xs i = Some x"
    using Suc.prems by (auto simp: in_range_one arr_get_def split: if_splits)
  show ?case
  proof (cases "cmp x p < 0")
    case True
    have "\<exists>i'. scan_up (arr_get xs) cmp p (i + 1) = Some i' \<and> i + 1 \<le> i' \<and> i' \<le> k \<and>
      in_range (\<lambda>x. 0 \<le> cmp x p) xs i' i' \<and> in_range (\<lambda>x. cmp x p < 0) xs (i + 1) (i' - 1)"
      using Suc.hyps(2) Suc.prems by (intro Suc.hyps(1)) auto
    then obtain i' where i': "scan_up (arr_get xs) cmp p (i + 1) = Some i'" "i + 1 \<le> i'" "i' \<le> k"
      "in_range (\<lambda>x. 0 \<le> cmp x p) xs i' i'" "in_range (\<lambda>x. cmp x p < 0) xs (i + 1) (i' - 1)" by blast
    have "in_range (\<lambda>x. cmp x p < 0) xs i (i' - 1)"
      by (rule in_range_join [OF _ i'(5)]) (use x True in \<open>simp add: in_range_one\<close>)
    then show ?thesis using x True i' by (auto simp: scan_up.simps [of _ _ _ i])
  next
    case False
    then show ?thesis using x Suc.prems
      by (auto simp: scan_up.simps [of _ _ _ i] in_range_one intro!: in_range_empty)
  qed
qed

lemma scan_down_total:
  assumes "in_range (\<lambda>x. cmp x p \<le> 0) xs k k" "k \<le> j" "j < int (length xs)"
  shows "\<exists>j'. scan_down (arr_get xs) cmp p j = Some j' \<and> k \<le> j' \<and> j' \<le> j \<and>
    in_range (\<lambda>x. cmp x p \<le> 0) xs j' j' \<and> in_range (\<lambda>x. 0 < cmp x p) xs (j' + 1) j"
  using assms
proof (induction "nat (j - k)" arbitrary: j)
  case 0
  then have "j = k" by simp
  with 0 show ?case by (auto simp: scan_down.simps [of _ _ _ k] in_range_one intro!: in_range_empty)
next
  case (Suc n)
  obtain x where x: "arr_get xs j = Some x"
    using Suc.prems by (auto simp: in_range_one arr_get_def split: if_splits)
  show ?case
  proof (cases "0 < cmp x p")
    case True
    have "\<exists>j'. scan_down (arr_get xs) cmp p (j - 1) = Some j' \<and> k \<le> j' \<and> j' \<le> j - 1 \<and>
      in_range (\<lambda>x. cmp x p \<le> 0) xs j' j' \<and> in_range (\<lambda>x. 0 < cmp x p) xs (j' + 1) (j - 1)"
      using Suc.hyps(2) Suc.prems by (intro Suc.hyps(1)) auto
    then obtain j' where j': "scan_down (arr_get xs) cmp p (j - 1) = Some j'" "k \<le> j'" "j' \<le> j - 1"
      "in_range (\<lambda>x. cmp x p \<le> 0) xs j' j'" "in_range (\<lambda>x. 0 < cmp x p) xs (j' + 1) (j - 1)" by blast
    have "in_range (\<lambda>x. 0 < cmp x p) xs (j' + 1) j"
      by (rule in_range_join [OF j'(5)]) (use x True in \<open>simp add: in_range_one\<close>)
    then show ?thesis using x True j' by (auto simp: scan_down.simps [of _ _ _ j])
  next
    case False
    then show ?thesis using x Suc.prems
      by (auto simp: scan_down.simps [of _ _ _ j] in_range_one intro!: in_range_empty)
  qed
qed

locale comparator =
  fixes cmp :: "'a \<Rightarrow> 'a \<Rightarrow> int"
  assumes cmp_sign: "cmp x y \<le> 0 \<longleftrightarrow> 0 \<le> cmp y x"
    and cmp_trans: "cmp x y \<le> 0 \<Longrightarrow> cmp y z \<le> 0 \<Longrightarrow> cmp x z \<le> 0"
begin

lemma cmp_refl: "cmp x x \<le> 0" "0 \<le> cmp x x"
  using cmp_sign [of x x] by linarith+

definition sorted_range :: "'a list \<Rightarrow> int \<Rightarrow> int \<Rightarrow> bool" where
  "sorted_range xs a b \<longleftrightarrow> (\<forall>k l. a \<le> k \<and> k \<le> l \<and> l \<le> b \<longrightarrow>
     (\<exists>x y. arr_get xs k = Some x \<and> arr_get xs l = Some y \<and> cmp x y \<le> 0))"

lemma sorted_range_short:
  assumes "b \<le> a" "0 \<le> a" "b < int (length xs)"
  shows "sorted_range xs a b"
  unfolding sorted_range_def
proof (intro allI impI)
  fix k l assume "a \<le> k \<and> k \<le> l \<and> l \<le> b"
  then have "l = k" "0 \<le> k" "k < int (length xs)" using assms by linarith+
  then show "\<exists>x y. arr_get xs k = Some x \<and> arr_get xs l = Some y \<and> cmp x y \<le> 0"
    by (simp add: arr_get_def cmp_refl)
qed

lemma sorted_range_cong:
  assumes "\<And>k. a \<le> k \<Longrightarrow> k \<le> b \<Longrightarrow> arr_get ys k = arr_get xs k"
  shows "sorted_range ys a b = sorted_range xs a b"
proof -
  have "arr_get ys k = arr_get xs k" "arr_get ys l = arr_get xs l" if "a \<le> k \<and> k \<le> l \<and> l \<le> b" for k l
    using assms [of k] assms [of l] that by simp_all
  then show ?thesis unfolding sorted_range_def by (metis (no_types, lifting))
qed

text \<open>The invariant of the partition loop: everything left of \<open>i\<close> is at most the pivot,
  everything right of \<open>j\<close> at least the pivot, and both scans meet an element they stop at.\<close>

definition part_inv :: "'a \<Rightarrow> int \<Rightarrow> int \<Rightarrow> 'a list \<Rightarrow> int \<Rightarrow> int \<Rightarrow> bool" where
  "part_inv p lo hi xs i j \<longleftrightarrow> 0 \<le> lo \<and> hi < int (length xs) \<and> lo \<le> i \<and> j \<le> hi \<and>
     in_range (\<lambda>x. cmp x p \<le> 0) xs lo (i - 1) \<and> in_range (\<lambda>x. cmp p x \<le> 0) xs (j + 1) hi"

definition part_stops :: "'a \<Rightarrow> int \<Rightarrow> int \<Rightarrow> 'a list \<Rightarrow> int \<Rightarrow> int \<Rightarrow> bool" where
  "part_stops p lo hi xs i j \<longleftrightarrow>
     (\<exists>k. i \<le> k \<and> k \<le> hi \<and> in_range (\<lambda>x. 0 \<le> cmp x p) xs k k) \<and>
     (\<exists>k. lo \<le> k \<and> k \<le> j \<and> in_range (\<lambda>x. cmp x p \<le> 0) xs k k)"

lemma partition_loop_total:
  assumes "part_inv p lo hi xs i j" "part_stops p lo hi xs i j"
  shows "\<exists>ys i' j'. partition_loop arr_get arr_set cmp p xs i j = Some (ys, i', j') \<and>
    permuted xs ys lo hi \<and> part_inv p lo hi ys i' j' \<and> i \<le> i' \<and> j' \<le> j \<and> j' < i' \<and>
    ((\<exists>k. i \<le> k \<and> k \<le> j \<and> arr_get xs k = Some p) \<longrightarrow> i < i' \<and> j' < j)"
  using assms
proof (induction "nat (j - i + 1)" arbitrary: xs i j rule: less_induct)
  case less
  note inv = less.prems(1) [unfolded part_inv_def]
  obtain ku kd where ku: "i \<le> ku" "ku \<le> hi" "in_range (\<lambda>x. 0 \<le> cmp x p) xs ku ku"
    and kd: "lo \<le> kd" "kd \<le> j" "in_range (\<lambda>x. cmp x p \<le> 0) xs kd kd"
    using less.prems(2) unfolding part_stops_def by blast
  obtain i1 where i1: "scan_up (arr_get xs) cmp p i = Some i1" "i \<le> i1" "i1 \<le> ku"
    "in_range (\<lambda>x. 0 \<le> cmp x p) xs i1 i1" "in_range (\<lambda>x. cmp x p < 0) xs i (i1 - 1)"
    using scan_up_total [of cmp p xs ku i] ku inv by auto
  obtain j1 where j1: "scan_down (arr_get xs) cmp p j = Some j1" "kd \<le> j1" "j1 \<le> j"
    "in_range (\<lambda>x. cmp x p \<le> 0) xs j1 j1" "in_range (\<lambda>x. 0 < cmp x p) xs (j1 + 1) j"
    using scan_down_total [of cmp p xs kd j] kd inv by auto
  have left: "in_range (\<lambda>x. cmp x p \<le> 0) xs lo (i1 - 1)"
    by (rule in_range_join [of _ _ _ i]) (use inv i1(5) in \<open>auto elim: in_range_mono\<close>)
  have right: "in_range (\<lambda>x. cmp p x \<le> 0) xs (j1 + 1) hi"
    by (rule in_range_join [of _ _ _ "j + 1"])
      (use inv j1(5) cmp_sign in \<open>auto elim: in_range_mono\<close>)
  have pivot: "i1 \<le> k \<and> k \<le> j1" if "i \<le> k" "k \<le> j" "arr_get xs k = Some p" for k
    using that i1(5) j1(5) cmp_refl [of p] unfolding in_range_def by (smt (verit) option.inject)
  show ?case
  proof (cases "i1 \<le> j1")
    case False
    then have "partition_loop arr_get arr_set cmp p xs i j = Some (xs, i1, j1)"
      using i1 j1 by (simp add: partition_loop.simps [of _ _ _ _ _ i])
    moreover have "part_inv p lo hi xs i1 j1"
      using inv left right i1(2) j1(3) by (simp add: part_inv_def)
    moreover have "\<not> (\<exists>k. i \<le> k \<and> k \<le> j \<and> arr_get xs k = Some p)"
      using pivot False by (meson order_trans)
    ultimately show ?thesis using False i1(2) j1(3) permuted_refl by auto
  next
    case True
    obtain x where x: "arr_get xs i1 = Some x" "0 \<le> cmp x p" using i1(4) by (auto simp: in_range_one)
    obtain y where y: "arr_get xs j1 = Some y" "cmp y p \<le> 0" using j1(4) by (auto simp: in_range_one)
    let ?ys = "arr_set (arr_set xs i1 y) j1 x"
    have perm: "permuted xs ?ys lo hi"
      by (rule permuted_swap [OF x(1) y(1)]) (use inv i1 j1 ku kd True in linarith)+
    have bounds: "0 \<le> i1" "j1 < int (length xs)" using inv i1 j1 by linarith+
    have get: "arr_get ?ys k = (if k = j1 then Some x else if k = i1 then Some y else arr_get xs k)" for k
      using bounds True x(1) y(1) by (auto simp: arr_get_set)
    have "in_range (\<lambda>x. cmp x p \<le> 0) ?ys lo i1"
    proof (rule in_range_join [of _ _ _ i1])
      show "in_range (\<lambda>x. cmp x p \<le> 0) ?ys lo (i1 - 1)"
        using left True by (subst in_range_cong [of _ _ ?ys xs]) (auto simp: get)
      show "in_range (\<lambda>x. cmp x p \<le> 0) ?ys i1 i1"
        using x y by (auto simp: in_range_one get)
    qed
    moreover have "in_range (\<lambda>x. cmp p x \<le> 0) ?ys j1 hi"
    proof (rule in_range_join [of _ _ _ "j1 + 1"])
      show "in_range (\<lambda>x. cmp p x \<le> 0) ?ys (j1 + 1) hi"
        using right True by (subst in_range_cong [of _ _ ?ys xs]) (auto simp: get)
      show "in_range (\<lambda>x. cmp p x \<le> 0) ?ys j1 (j1 + 1 - 1)"
        using x cmp_sign by (auto simp: in_range_one get)
    qed
    ultimately have inv': "part_inv p lo hi ?ys (i1 + 1) (j1 - 1)"
      using inv i1 j1 by (simp add: part_inv_def)
    show ?thesis
    proof (cases "i1 + 1 \<le> j1 - 1")
      case False
      then have "partition_loop arr_get arr_set cmp p xs i j = Some (?ys, i1 + 1, j1 - 1)"
        using True i1 j1 x y by (simp add: partition_loop.simps [of _ _ _ _ _ i] Let_def)
      then show ?thesis using False inv' perm i1(2) j1(3) by auto
    next
      case rec: True
      have eq: "partition_loop arr_get arr_set cmp p xs i j =
          partition_loop arr_get arr_set cmp p ?ys (i1 + 1) (j1 - 1)"
        using True rec i1 j1 x y by (simp add: partition_loop.simps [of _ _ _ _ _ i] Let_def)
      have "part_stops p lo hi ?ys (i1 + 1) (j1 - 1)"
        unfolding part_stops_def
      proof (intro conjI exI)
        show "i1 + 1 \<le> j1" "lo \<le> i1" "i1 \<le> j1 - 1" "j1 \<le> hi" using rec inv i1 j1 by linarith+
        show "in_range (\<lambda>x. 0 \<le> cmp x p) ?ys j1 j1" "in_range (\<lambda>x. cmp x p \<le> 0) ?ys i1 i1"
          using x y rec by (auto simp: in_range_one get)
      qed
      with less.hyps [of "j1 - 1" "i1 + 1" ?ys] inv' i1(2) j1(3) True
      obtain ys i' j' where R: "partition_loop arr_get arr_set cmp p ?ys (i1 + 1) (j1 - 1) = Some (ys, i', j')"
        "permuted ?ys ys lo hi" "part_inv p lo hi ys i' j'" "i1 + 1 \<le> i'" "j' \<le> j1 - 1" "j' < i'"
        by auto
      have "permuted xs ys lo hi" by (rule permuted_trans [OF perm R(2)]) auto
      with R eq i1(2) j1(3) show ?thesis by auto
    qed
  qed
qed

text \<open>What the partition established on both sides of the pivot survives the two recursive
  sorts, the first of positions \<open>lo..j\<close> (\<open>ys\<close> to \<open>zs\<close>), the second of \<open>i..hi\<close> (\<open>zs\<close> to \<open>ws\<close>).\<close>

lemma low_side_kept:
  assumes inv: "part_inv p lo hi ys i j" and ji: "j < i" and L: "permuted ys zs lo j"
    and R: "permuted zs ws i hi"
  shows "in_range (\<lambda>x. cmp x p \<le> 0) ws lo (i - 1)"
proof -
  note inv = inv [unfolded part_inv_def]
  have zs_right: "arr_get zs k = arr_get ys k" if "j < k" for k
    using L that by (simp add: permuted_def)
  have ws_left: "arr_get ws k = arr_get zs k" if "k < i" for k
    using R that by (simp add: permuted_def)
  have ylow: "in_range (\<lambda>x. cmp x p \<le> 0) ys lo (i - 1)" using inv by simp
  have "in_range (\<lambda>x. cmp x p \<le> 0) zs lo (i - 1)"
  proof (cases "lo \<le> j + 1")
    case True
    show ?thesis
    proof (rule in_range_join [of _ _ _ "j + 1"])
      show "in_range (\<lambda>x. cmp x p \<le> 0) zs lo (j + 1 - 1)"
        using in_range_permuted [OF L] in_range_sub [OF ylow] inv True ji by auto
      show "in_range (\<lambda>x. cmp x p \<le> 0) zs (j + 1) (i - 1)"
        using in_range_sub [OF ylow] zs_right True by (subst in_range_cong [of _ _ zs ys]) auto
    qed
  next
    case False
    then show ?thesis using ylow zs_right by (subst in_range_cong [of _ _ zs ys]) auto
  qed
  then show ?thesis using ws_left by (subst in_range_cong [of _ _ ws zs]) auto
qed

lemma high_side_kept:
  assumes inv: "part_inv p lo hi ys i j" and ji: "j < i" "lo < i" and L: "permuted ys zs lo j"
    and R: "permuted zs ws i hi"
  shows "in_range (\<lambda>x. cmp p x \<le> 0) ws (j + 1) hi"
proof -
  note inv = inv [unfolded part_inv_def]
  have zlen: "length zs = length ys" by (rule permuted_length [OF L])
  have zs_right: "arr_get zs k = arr_get ys k" if "j < k" for k
    using L that by (simp add: permuted_def)
  have ws_left: "arr_get ws k = arr_get zs k" if "k < i" for k
    using R that by (simp add: permuted_def)
  have yhigh: "in_range (\<lambda>x. cmp p x \<le> 0) ys (j + 1) hi" using inv by simp
  then have zhigh: "in_range (\<lambda>x. cmp p x \<le> 0) zs (j + 1) hi"
    using zs_right by (subst in_range_cong [of _ _ zs ys]) auto
  show ?thesis
  proof (cases "i \<le> hi + 1")
    case True
    show ?thesis
    proof (rule in_range_join [of _ _ _ i])
      show "in_range (\<lambda>x. cmp p x \<le> 0) ws (j + 1) (i - 1)"
        using in_range_sub [OF zhigh] ws_left True by (subst in_range_cong [of _ _ ws zs]) auto
      show "in_range (\<lambda>x. cmp p x \<le> 0) ws i hi"
        using in_range_permuted [OF R] in_range_sub [OF zhigh] inv True ji zlen by auto
    qed
  next
    case False
    then show ?thesis using zhigh ws_left by (subst in_range_cong [of _ _ ws zs]) auto
  qed
qed

lemma join_sorted:
  assumes inv: "part_inv p lo hi ys i j" and ji: "j < i" "lo < i"
    and L: "permuted ys zs lo j" "sorted_range zs lo j"
    and R: "permuted zs ws i hi" "sorted_range ws i hi"
  shows "sorted_range ws lo hi"
  unfolding sorted_range_def
proof (intro allI impI)
  fix k l assume kl: "lo \<le> k \<and> k \<le> l \<and> l \<le> hi"
  have sortedL: "sorted_range ws lo j"
    using L(2) R(1) ji(1) by (subst sorted_range_cong [of _ _ ws zs]) (auto simp: permuted_def)
  consider "l \<le> j" | "i \<le> k" | "k \<le> i - 1" "j + 1 \<le> l" by linarith
  then show "\<exists>x y. arr_get ws k = Some x \<and> arr_get ws l = Some y \<and> cmp x y \<le> 0"
  proof cases
    case 1
    then show ?thesis using sortedL kl unfolding sorted_range_def by blast
  next
    case 2
    then show ?thesis using R(2) kl unfolding sorted_range_def by blast
  next
    case 3
    then show ?thesis
      using low_side_kept [OF inv ji(1) L(1) R(1)] high_side_kept [OF inv ji L(1) R(1)] kl cmp_trans
      unfolding in_range_def by blast
  qed
qed

lemma quicksort_total:
  assumes "0 \<le> lo" "lo \<le> hi" "hi < int (length xs)"
    and piv: "\<And>a b. 0 \<le> a \<Longrightarrow> a \<le> b \<Longrightarrow> a \<le> piv a b \<and> piv a b \<le> b"
  shows "\<exists>ys. quicksort piv arr_get arr_set cmp xs lo hi = Some ys \<and>
    permuted xs ys lo hi \<and> sorted_range ys lo hi"
  using assms(1-3)
proof (induction "nat (hi - lo)" arbitrary: xs lo hi rule: less_induct)
  case less
  note b = less.prems
  obtain p where p: "arr_get xs (piv lo hi) = Some p"
    using piv [of lo hi] b by (auto simp: arr_get_def)
  have one: "in_range (\<lambda>x. 0 \<le> cmp x p) xs (piv lo hi) (piv lo hi)"
      "in_range (\<lambda>x. cmp x p \<le> 0) xs (piv lo hi) (piv lo hi)"
    using p by (auto simp: in_range_one cmp_refl)
  have "part_inv p lo hi xs lo hi" using b by (simp add: part_inv_def in_range_empty)
  moreover have "part_stops p lo hi xs lo hi"
    using one piv [of lo hi] b by (auto simp: part_stops_def)
  ultimately obtain ys i j where P: "partition_loop arr_get arr_set cmp p xs lo hi = Some (ys, i, j)"
      "permuted xs ys lo hi" "part_inv p lo hi ys i j" "j < i" "lo < i" "j < hi"
    using partition_loop_total [of p lo hi xs lo hi] p piv [of lo hi] b by blast
  note inv = P(3) [unfolded part_inv_def]
  obtain zs where L: "(if lo < j then quicksort piv arr_get arr_set cmp ys lo j else Some ys) = Some zs"
      "permuted ys zs lo j" "sorted_range zs lo j"
  proof (cases "lo < j")
    case True
    then have "\<exists>zs. quicksort piv arr_get arr_set cmp ys lo j = Some zs \<and>
        permuted ys zs lo j \<and> sorted_range zs lo j"
      using P b inv by (intro less.hyps) auto
    then show thesis using True that by auto
  next
    case False
    then have "sorted_range ys lo j" using inv P by (intro sorted_range_short) auto
    then show thesis using False that permuted_refl by auto
  qed
  have zlen: "length zs = length ys" by (rule permuted_length [OF L(2)])
  obtain ws where R: "(if i < hi then quicksort piv arr_get arr_set cmp zs i hi else Some zs) = Some ws"
      "permuted zs ws i hi" "sorted_range ws i hi"
  proof (cases "i < hi")
    case True
    then have "\<exists>ws. quicksort piv arr_get arr_set cmp zs i hi = Some ws \<and>
        permuted zs ws i hi \<and> sorted_range ws i hi"
      using P b inv zlen by (intro less.hyps) auto
    then show thesis using True that by auto
  next
    case False
    then have "sorted_range zs i hi" using inv P zlen by (intro sorted_range_short) auto
    then show thesis using False that permuted_refl by auto
  qed
  have eq: "quicksort piv arr_get arr_set cmp xs lo hi = Some ws"
    using p P(1) L(1) R(1) by (simp add: quicksort.simps [of _ _ _ _ xs])
  have perm: "permuted xs ws lo hi"
    using permuted_trans [OF permuted_trans [OF P(2) L(2)] R(2)] P inv by simp
  have "sorted_range ws lo hi" by (rule join_sorted [OF P(3-5) L(2,3) R(2,3)])
  with eq perm show ?case by blast
qed

text \<open>Sorting a whole array: the result is a permutation of it in ascending order.\<close>

lemma quicksort_sorts:
  assumes "xs \<noteq> []" "\<And>a b. 0 \<le> a \<Longrightarrow> a \<le> b \<Longrightarrow> a \<le> piv a b \<and> piv a b \<le> b"
  shows "\<exists>ys. quicksort piv arr_get arr_set cmp xs 0 (int (length xs) - 1) = Some ys \<and>
    mset ys = mset xs \<and> sorted_wrt (\<lambda>x y. cmp x y \<le> 0) ys"
proof -
  obtain ys where ys: "quicksort piv arr_get arr_set cmp xs 0 (int (length xs) - 1) = Some ys"
      "permuted xs ys 0 (int (length xs) - 1)" "sorted_range ys 0 (int (length xs) - 1)"
    using quicksort_total [of 0 "int (length xs) - 1" xs piv] assms by auto
  have len: "length ys = length xs" by (rule permuted_length [OF ys(2)])
  have "sorted_wrt (\<lambda>x y. cmp x y \<le> 0) ys"
    unfolding sorted_wrt_iff_nth_less
  proof (intro allI impI)
    fix k l assume kl: "k < l" "l < length ys"
    then have "0 \<le> int k \<and> int k \<le> int l \<and> int l \<le> int (length xs) - 1" using len by linarith
    then obtain x y where "arr_get ys (int k) = Some x" "arr_get ys (int l) = Some y" "cmp x y \<le> 0"
      using ys(3) unfolding sorted_range_def by blast
    then show "cmp (ys ! k) (ys ! l) \<le> 0" using kl by (simp add: arr_get_def)
  qed
  then show ?thesis using ys by (auto simp: permuted_def)
qed

end

section \<open>Arrays behind a representation\<close>

text \<open>
  \<open>view s\<close> is the array that the state \<open>s\<close> holds, while \<open>ok s\<close> is its invariant: reads and writes
  at positions inside the view act on the view. What quicksort does on the view it then does
  on the state.
\<close>

locale array_view =
  fixes rd :: "'s \<Rightarrow> int \<Rightarrow> 'a option"
    and wr :: "'s \<Rightarrow> int \<Rightarrow> 'a \<Rightarrow> 's"
    and ok :: "'s \<Rightarrow> bool"
    and view :: "'s \<Rightarrow> 'a list"
  assumes rd_view: "ok s \<Longrightarrow> arr_get (view s) i = Some x \<Longrightarrow> rd s i = Some x"
    and wr_view: "ok s \<Longrightarrow> 0 \<le> i \<Longrightarrow> i < int (length (view s)) \<Longrightarrow>
      ok (wr s i x) \<and> view (wr s i x) = arr_set (view s) i x"
begin

lemma scan_up_view:
  assumes "scan_up (arr_get (view s)) cmp p i = Some i'" and "ok s"
  shows "scan_up (rd s) cmp p i = Some i'"
proof -
  have "r = arr_get (view s) \<Longrightarrow> scan_up (rd s) cmp p i = Some i'"
    if "scan_up r cmp p i = Some i'" for r
    using that
  proof (rule scan_up.raw_induct [of "\<lambda>r cmp p i i'. r = arr_get (view s) \<longrightarrow> scan_up (rd s) cmp p i = Some i'", rotated, THEN mp])
    fix f r cmp p i i'
    assume "\<And>r cmp p i i'. f r cmp p i = Some i' \<Longrightarrow> r = arr_get (view s) \<longrightarrow> scan_up (rd s) cmp p i = Some i'"
      and "Option.bind (r i) (\<lambda>x. if cmp x p < 0 then f r cmp p (i + 1) else Some i) = Some i'"
    then show "r = arr_get (view s) \<longrightarrow> scan_up (rd s) cmp p i = Some i'"
      using rd_view [OF assms(2), of i] by (auto simp: scan_up.simps [of _ _ _ i] split: if_splits bind_splits)
  qed
  then show ?thesis using assms(1) by blast
qed

lemma scan_down_view:
  assumes "scan_down (arr_get (view s)) cmp p j = Some j'" and "ok s"
  shows "scan_down (rd s) cmp p j = Some j'"
proof -
  have "r = arr_get (view s) \<Longrightarrow> scan_down (rd s) cmp p j = Some j'"
    if "scan_down r cmp p j = Some j'" for r
    using that
  proof (rule scan_down.raw_induct [of "\<lambda>r cmp p j j'. r = arr_get (view s) \<longrightarrow> scan_down (rd s) cmp p j = Some j'", rotated, THEN mp])
    fix f r cmp p j j'
    assume "\<And>r cmp p j j'. f r cmp p j = Some j' \<Longrightarrow> r = arr_get (view s) \<longrightarrow> scan_down (rd s) cmp p j = Some j'"
      and "Option.bind (r j) (\<lambda>x. if cmp x p > 0 then f r cmp p (j - 1) else Some j) = Some j'"
    then show "r = arr_get (view s) \<longrightarrow> scan_down (rd s) cmp p j = Some j'"
      using rd_view [OF assms(2), of j] by (auto simp: scan_down.simps [of _ _ _ j] split: if_splits bind_splits)
  qed
  then show ?thesis using assms(1) by blast
qed

lemma partition_loop_view:
  assumes "partition_loop arr_get arr_set cmp p (view s) i j = Some (ys, i', j')" and "ok s"
  shows "\<exists>t. partition_loop rd wr cmp p s i j = Some (t, i', j') \<and> ok t \<and> view t = ys"
proof -
  define P where "P rd' wr' cmp p xs i j r \<longleftrightarrow> rd' = arr_get \<longrightarrow> wr' = arr_set \<longrightarrow>
      (\<forall>s. ok s \<longrightarrow> view s = xs \<longrightarrow> (\<exists>t. partition_loop rd wr cmp p s i j = Some (t, snd r) \<and>
        ok t \<and> view t = fst r))"
    for rd' :: "'a list \<Rightarrow> int \<Rightarrow> 'a option" and wr' :: "'a list \<Rightarrow> int \<Rightarrow> 'a \<Rightarrow> 'a list"
      and cmp p and xs :: "'a list" and i j r
  have "P arr_get arr_set cmp p (view s) i j (ys, i', j')"
  proof (rule partition_loop.raw_induct [of P, OF _ assms(1)])
    fix f rd' wr' cmp p i j r and xs :: "'a list"
    assume IH: "\<And>rd' wr' cmp p xs i j r. f rd' wr' cmp p xs i j = Some r \<Longrightarrow> P rd' wr' cmp p xs i j r"
      and eq: "Option.bind (scan_up (rd' xs) cmp p i) (\<lambda>i.
        Option.bind (scan_down (rd' xs) cmp p j) (\<lambda>j.
          if i \<le> j
          then Option.bind (rd' xs i) (\<lambda>x. Option.bind (rd' xs j) (\<lambda>y.
            let s = wr' (wr' xs i y) j x; i = i + 1; j = j - 1
            in if i \<le> j then f rd' wr' cmp p s i j else Some (s, i, j)))
          else Some (xs, i, j))) = Some r"
    show "P rd' wr' cmp p xs i j r"
      unfolding P_def
    proof (intro impI allI)
      fix s assume C: "rd' = arr_get" "wr' = arr_set" "ok s" "view s = xs"
      obtain i1 j1 where S: "scan_up (arr_get xs) cmp p i = Some i1" "scan_down (arr_get xs) cmp p j = Some j1"
        using eq C by (auto split: bind_splits)
      have V: "scan_up (rd s) cmp p i = Some i1" "scan_down (rd s) cmp p j = Some j1"
        using S C scan_up_view scan_down_view by auto
      show "\<exists>t. partition_loop rd wr cmp p s i j = Some (t, snd r) \<and> ok t \<and> view t = fst r"
      proof (cases "i1 \<le> j1")
        case False
        then show ?thesis
          using eq C S V by (auto simp: partition_loop.simps [of _ _ _ _ s])
      next
        case True
        then obtain x y where xy: "arr_get xs i1 = Some x" "arr_get xs j1 = Some y"
          using eq C S by (auto split: bind_splits)
        let ?t = "wr (wr s i1 y) j1 x"
        have bounds: "0 \<le> i1" "i1 < int (length xs)" "0 \<le> j1" "j1 < int (length xs)"
          using xy by (auto simp: arr_get_def split: if_splits)
        have t: "ok ?t" "view ?t = arr_set (arr_set xs i1 y) j1 x"
          using wr_view [of s i1 y] wr_view [of "wr s i1 y" j1 x] C bounds by auto
        have rds: "rd s i1 = Some x" "rd s j1 = Some y"
          using rd_view C xy by auto
        show ?thesis
        proof (cases "i1 + 1 \<le> j1 - 1")
          case rec: True
          then have "f arr_get arr_set cmp p (view ?t) (i1 + 1) (j1 - 1) = Some r"
            using eq C S xy True t by simp
          from IH [OF this] t show ?thesis
            using True rec V rds by (simp add: P_def partition_loop.simps [of _ _ _ _ s] Let_def)
        next
          case False
          then show ?thesis
            using eq C S V xy rds True t by (auto simp: partition_loop.simps [of _ _ _ _ s] Let_def)
        qed
      qed
    qed
  qed
  then show ?thesis using assms(2) by (simp add: P_def)
qed

lemma quicksort_view:
  assumes "quicksort piv arr_get arr_set cmp (view s) lo hi = Some ys" and "ok s"
  shows "\<exists>t. quicksort piv rd wr cmp s lo hi = Some t \<and> ok t \<and> view t = ys"
proof -
  define P where "P piv rd' wr' cmp xs lo hi ys \<longleftrightarrow> rd' = arr_get \<longrightarrow> wr' = arr_set \<longrightarrow>
      (\<forall>s. ok s \<longrightarrow> view s = xs \<longrightarrow> (\<exists>t. quicksort piv rd wr cmp s lo hi = Some t \<and> ok t \<and> view t = ys))"
    for piv and rd' :: "'a list \<Rightarrow> int \<Rightarrow> 'a option" and wr' :: "'a list \<Rightarrow> int \<Rightarrow> 'a \<Rightarrow> 'a list"
      and cmp and xs :: "'a list" and lo hi ys
  have "P piv arr_get arr_set cmp (view s) lo hi ys"
  proof (rule quicksort.raw_induct [of P, OF _ assms(1)])
    fix f piv rd' wr' cmp lo hi and xs :: "'a list" and ys
    assume IH: "\<And>piv rd' wr' cmp xs lo hi ys. f piv rd' wr' cmp xs lo hi = Some ys \<Longrightarrow> P piv rd' wr' cmp xs lo hi ys"
      and eq: "Option.bind (rd' xs (piv lo hi)) (\<lambda>p.
        Option.bind (partition_loop rd' wr' cmp p xs lo hi) (\<lambda>(s, i, j).
        Option.bind (if lo < j then f piv rd' wr' cmp s lo j else Some s) (\<lambda>s.
          if i < hi then f piv rd' wr' cmp s i hi else Some s))) = Some ys"
    show "P piv rd' wr' cmp xs lo hi ys"
      unfolding P_def
    proof (intro impI allI)
      fix s assume C: "rd' = arr_get" "wr' = arr_set" "ok s" "view s = xs"
      obtain p xs1 i j xs2 where S: "arr_get xs (piv lo hi) = Some p"
          "partition_loop arr_get arr_set cmp p xs lo hi = Some (xs1, i, j)"
          "(if lo < j then f piv arr_get arr_set cmp xs1 lo j else Some xs1) = Some xs2"
          "(if i < hi then f piv arr_get arr_set cmp xs2 i hi else Some xs2) = Some ys"
        using eq C by (auto split: bind_splits prod.splits)
      obtain t1 where t1: "partition_loop rd wr cmp p s lo hi = Some (t1, i, j)" "ok t1" "view t1 = xs1"
        using partition_loop_view S(2) C by blast
      have "\<exists>t2. (if lo < j then quicksort piv rd wr cmp t1 lo j else Some t1) = Some t2 \<and> ok t2 \<and> view t2 = xs2"
        using S(3) t1 IH [of piv arr_get arr_set cmp xs1 lo j xs2] by (auto simp: P_def split: if_splits)
      then obtain t2 where t2: "(if lo < j then quicksort piv rd wr cmp t1 lo j else Some t1) = Some t2"
          "ok t2" "view t2 = xs2" by blast
      have "\<exists>t3. (if i < hi then quicksort piv rd wr cmp t2 i hi else Some t2) = Some t3 \<and> ok t3 \<and> view t3 = ys"
        using S(4) t2 IH [of piv arr_get arr_set cmp xs2 i hi ys] by (auto simp: P_def split: if_splits)
      moreover have "rd s (piv lo hi) = Some p" using rd_view C S(1) by auto
      ultimately show "\<exists>t. quicksort piv rd wr cmp s lo hi = Some t \<and> ok t \<and> view t = ys"
        using t1(1) t2(1) by (auto simp: quicksort.simps [of _ _ _ _ s])
    qed
  qed
  then show ?thesis using assms(2) by (simp add: P_def)
qed

end

end
