(* ===== verification/Interfaces.thy ===== *)
theory Interfaces
  imports Prelude
begin

text \<open>
  The contracts that clients of the containers rely on, as locales over an invariant \<open>ok\<close> and
  an abstract value \<open>view\<close>: a queue and a stack over a sequence (provided by the array list).
  The consequences a client uses are proved here once; the container theories interpret the
  locales on their own operations.
\<close>

section \<open>Queues and stacks\<close>

text \<open>\<open>n\<close> calls of a removing operation, with the list of what they return.\<close>

primrec drain :: "('s \<Rightarrow> 's \<times> 'a) \<Rightarrow> nat \<Rightarrow> 's \<Rightarrow> 's \<times> 'a list" where
  "drain get 0 s = (s, [])"
| "drain get (Suc n) s =
     (case get s of (s', x) \<Rightarrow> case drain get n s' of (s'', xs) \<Rightarrow> (s'', x # xs))"

locale sequence =
  fixes ok :: "'s \<Rightarrow> bool"
    and view :: "'s \<Rightarrow> 'a list"
    and add :: "'s \<Rightarrow> 'a \<Rightarrow> 's"
  assumes add_ok: "ok s \<Longrightarrow> ok (add s x)"
    and add_view: "ok s \<Longrightarrow> view (add s x) = view s @ [x]"
begin

lemma add_all: "ok s \<Longrightarrow> ok (foldl add s xs) \<and> view (foldl add s xs) = view s @ xs"
  by (induction xs arbitrary: s) (simp_all add: add_ok add_view)

end

locale queue = sequence ok view enq
  for ok :: "'s \<Rightarrow> bool" and view :: "'s \<Rightarrow> 'a list" and enq :: "'s \<Rightarrow> 'a \<Rightarrow> 's" +
  fixes deq :: "'s \<Rightarrow> 's \<times> 'a"
  assumes deq_ok: "ok s \<Longrightarrow> view s = x # xs \<Longrightarrow> ok (fst (deq s))"
    and deq_view: "ok s \<Longrightarrow> view s = x # xs \<Longrightarrow> view (fst (deq s)) = xs \<and> snd (deq s) = x"
begin

lemma drain_deq:
  "ok s \<Longrightarrow> n \<le> length (view s) \<Longrightarrow>
   ok (fst (drain deq n s)) \<and> view (fst (drain deq n s)) = drop n (view s) \<and>
   snd (drain deq n s) = take n (view s)"
proof (induction n arbitrary: s)
  case 0
  then show ?case by simp
next
  case (Suc n)
  then obtain x xs where v: "view s = x # xs" by (cases "view s") auto
  obtain s' y where d: "deq s = (s', y)" by fastforce
  have "ok s'" "view s' = xs" "y = x"
    using deq_ok [OF Suc.prems(1) v] deq_view [OF Suc.prems(1) v] by (simp_all add: d)
  then show ?case
    using Suc.IH [of s'] Suc.prems(2) v by (auto simp: d split: prod.split)
qed

text \<open>First in, first out.\<close>

lemma fifo: "ok s \<Longrightarrow> view s = [] \<Longrightarrow> snd (drain deq (length xs) (foldl enq s xs)) = xs"
  using add_all [of s xs] drain_deq [of "foldl enq s xs" "length xs"] by simp

end

locale stack = sequence ok view push
  for ok :: "'s \<Rightarrow> bool" and view :: "'s \<Rightarrow> 'a list" and push :: "'s \<Rightarrow> 'a \<Rightarrow> 's" +
  fixes pop :: "'s \<Rightarrow> 's \<times> 'a"
  assumes pop_ok: "ok s \<Longrightarrow> view s = xs @ [x] \<Longrightarrow> ok (fst (pop s))"
    and pop_view: "ok s \<Longrightarrow> view s = xs @ [x] \<Longrightarrow> view (fst (pop s)) = xs \<and> snd (pop s) = x"
begin

lemma drain_pop:
  "ok s \<Longrightarrow> n \<le> length (view s) \<Longrightarrow>
   ok (fst (drain pop n s)) \<and> view (fst (drain pop n s)) = take (length (view s) - n) (view s) \<and>
   snd (drain pop n s) = take n (rev (view s))"
proof (induction n arbitrary: s)
  case 0
  then show ?case by simp
next
  case (Suc n)
  then obtain x xs where v: "view s = xs @ [x]" by (cases "view s" rule: rev_cases) auto
  obtain s' y where d: "pop s = (s', y)" by fastforce
  have "ok s'" "view s' = xs" "y = x"
    using pop_ok [OF Suc.prems(1) v] pop_view [OF Suc.prems(1) v] by (simp_all add: d)
  then show ?case
    using Suc.IH [of s'] Suc.prems(2) v by (auto simp: d split: prod.split)
qed

text \<open>Last in, first out.\<close>

lemma lifo: "ok s \<Longrightarrow> snd (drain pop (length xs) (foldl push s xs)) = rev xs"
  using add_all [of s xs] drain_pop [of "foldl push s xs" "length xs"] by simp

end

section \<open>Dictionaries\<close>

text \<open>A table of values under string keys that are compared through the normal form \<open>norm\<close>
  (which no operation changes). Inserting never overwrites, and setting never inserts, as in
  \<open>hash-table.h\<close>.\<close>

locale dict =
  fixes ok :: "'s \<Rightarrow> bool"
    and norm :: "'s \<Rightarrow> string \<Rightarrow> string"
    and view :: "'s \<Rightarrow> (string \<rightharpoonup> 'v)"
    and get :: "'s \<Rightarrow> string \<Rightarrow> 'v ptr"
    and ins :: "'s \<Rightarrow> string \<Rightarrow> 'v ptr \<Rightarrow> ('s \<times> bool) run"
    and put :: "'s \<Rightarrow> string \<Rightarrow> 'v ptr \<Rightarrow> 's \<times> bool"
    and del :: "'s \<Rightarrow> string \<Rightarrow> ('s \<times> 'v ptr) run"
  assumes get_law: "ok s \<Longrightarrow> get s k = view s (norm s k)"
    and ins_law: "ok s \<Longrightarrow> \<exists>s' r. ins s k d = Inr (s', r) \<and> ok s' \<and> norm s' = norm s \<and>
        (r \<longleftrightarrow> d \<noteq> NULL \<and> view s (norm s k) = None) \<and>
        view s' = (if r then (view s)(norm s k := d) else view s)"
    and put_law: "ok s \<Longrightarrow> \<exists>s' r. put s k d = (s', r) \<and> ok s' \<and> norm s' = norm s \<and>
        (r \<longleftrightarrow> d \<noteq> NULL \<and> view s (norm s k) \<noteq> None) \<and>
        view s' = (if r then (view s)(norm s k := d) else view s)"
    and del_law: "ok s \<Longrightarrow> \<exists>s'. del s k = Inr (s', view s (norm s k)) \<and> ok s' \<and> norm s' = norm s \<and>
        view s' = (view s)(norm s k := None)"
begin

text \<open>Writing a value whether the key is there or not.\<close>

lemma upsert:
  assumes "ok s"
  shows "get s k = None \<Longrightarrow> \<exists>s'. ins s k (Some v) = Inr (s', True) \<and> ok s' \<and> norm s' = norm s \<and>
      view s' = (view s)(norm s k \<mapsto> v)"
    and "get s k = Some w \<Longrightarrow> \<exists>s'. put s k (Some v) = (s', True) \<and> ok s' \<and> norm s' = norm s \<and>
      view s' = (view s)(norm s k \<mapsto> v)"
  using ins_law [OF assms, of k "Some v"] put_law [OF assms, of k "Some v"] get_law [OF assms, of k]
  by auto

text \<open>An insertion under a key that is there changes nothing and says so.\<close>

lemma ins_present:
  assumes "ok s" "get s k = Some w"
  shows "\<exists>s'. ins s k d = Inr (s', False) \<and> ok s' \<and> norm s' = norm s \<and> view s' = view s"
  using ins_law [OF assms(1), of k d] get_law [OF assms(1), of k] assms(2) by auto

text \<open>After an insertion the key is found, and removing it gives the old table back.\<close>

lemma get_ins:
  assumes "ok s" "ins s k d = Inr (s', r)"
  shows "get s' k' = (if r \<and> norm s k' = norm s k then d else get s k')"
  using ins_law [OF assms(1), of k d] assms by (auto simp: get_law)

lemma del_ins:
  assumes "ok s" "get s k = None" "ins s k (Some v) = Inr (s', r)" "del s' k = Inr (s'', d)"
  shows "ok s'' \<and> r \<and> d = Some v \<and> view s'' = view s"
  using ins_law [OF assms(1), of k "Some v"] del_law [of s' k] assms get_law [OF assms(1), of k]
  by (auto simp: fun_upd_idem)

end

section \<open>Priority queues\<close>

text \<open>A bag of elements from which the one with the least key is taken first. Keys of elements in
  the bag differ, so that the element taken is determined.\<close>

locale priority_queue =
  fixes ok :: "'s \<Rightarrow> bool"
    and bag :: "'s \<Rightarrow> 'e multiset"
    and prio :: "'s \<Rightarrow> 'e \<Rightarrow> 'k::linorder"
    and take_min :: "'s \<Rightarrow> 's \<times> 'e"
  assumes keys_differ: "ok s \<Longrightarrow> inj_on (prio s) (set_mset (bag s))"
    and take_min_ok: "ok s \<Longrightarrow> bag s \<noteq> {#} \<Longrightarrow> ok (fst (take_min s)) \<and> prio (fst (take_min s)) = prio s"
    and take_min_bag: "ok s \<Longrightarrow> bag s \<noteq> {#} \<Longrightarrow>
        bag s = add_mset (snd (take_min s)) (bag (fst (take_min s)))"
    and take_min_least: "ok s \<Longrightarrow> bag s \<noteq> {#} \<Longrightarrow> e \<in># bag s \<Longrightarrow>
        prio s (snd (take_min s)) \<le> prio s e"
begin

text \<open>Taking every element out returns them in the order of their keys.\<close>

lemma drain_sorted:
  "ok s \<Longrightarrow> bag s = mset xs \<Longrightarrow>
   mset (snd (drain take_min (length xs) s)) = bag s \<and>
   sorted (map (prio s) (snd (drain take_min (length xs) s)))"
proof (induction "length xs" arbitrary: s xs)
  case (Suc n)
  obtain s' e where t: "take_min s = (s', e)" by fastforce
  have ne: "bag s \<noteq> {#}" using Suc by auto
  have s': "ok s'" "prio s' = prio s" "bag s = add_mset e (bag s')"
      "\<And>e'. e' \<in># bag s \<Longrightarrow> prio s e \<le> prio s e'"
    using take_min_ok [OF Suc.prems(1) ne] take_min_bag [OF Suc.prems(1) ne]
      take_min_least [OF Suc.prems(1) ne] by (simp_all add: t)
  obtain ys where ys: "bag s' = mset ys" by (metis ex_mset)
  then have "mset xs = mset (e # ys)" using s'(3) Suc.prems(2) by simp
  then have n: "n = length ys" using Suc.hyps(2) by (metis mset_eq_length length_Cons Suc_inject)
  note IH = Suc.hyps(1) [OF n s'(1) ys]
  moreover have "set (snd (drain take_min n s')) = set_mset (bag s')"
    using IH n by (metis set_mset_mset)
  ultimately show ?case
    using s'(2-4) n Suc.hyps(2) by (auto simp: t simp flip: Suc.hyps(2) split: prod.split)
qed simp

text \<open>So the order is the sorted order of any list of the elements.\<close>

lemma drain_sort_key:
  assumes "ok s" "bag s = mset xs"
  shows "snd (drain take_min (length xs) s) = sort_key (prio s) xs"
proof -
  note D = drain_sorted [OF assms]
  have "inj_on (prio s) (set xs)" using keys_differ [OF assms(1)] assms(2) by simp
  then show ?thesis using D assms(2) by (intro sort_key_inj_key_eq [symmetric]) auto
qed

end

end
