(* ===== verification/ListT.thy ===== *)
theory ListT
  imports CString Quicksort Interfaces
begin

text \<open>
  The array list of \<open>src/lib/util/list.c\<close>: a ring of \<open>void *\<close> cells in a vector that doubles
  when it is full, with element \<open>i\<close> of the list in cell \<open>(head + i) mod size\<close>. The same
  structure serves as list, stack and queue.

  The record has the fields of \<open>struct list_t\<close>. Counts, sizes and ring positions are natural
  numbers (the code's \<open>int\<close> fields never become negative and a vector of \<open>2 ^ 30\<close> cells is
  assumed out of reach); the index arguments, which a caller may pass negative, are integers.
  Operations that return a value and update the list return a pair. \<open>list_contents\<close> is the
  abstract value, the sequence of elements; the lemmas show what each operation does to it.
\<close>

section \<open>Data\<close>

datatype list_err_t = LIST_ERR_OK | LIST_ERR_BOUNDS | LIST_ERR_NOT_FOUND | LIST_ERR_EMPTY

record 'a list_t =
  l_count :: nat
  l_error_code :: list_err_t
  l_size :: nat
  l_head :: nat
  l_tail :: nat
  l_elem :: "'a ptr list"

text \<open>The macro \<open>INLIST(X - 1)\<close>, that is \<open>((X - 1) + sz) % size\<close>, for a position \<open>X\<close>.\<close>

definition INLIST_pred :: "nat \<Rightarrow> nat \<Rightarrow> nat" where
  "INLIST_pred sz x = (x + sz - 1) mod sz"

section \<open>Operations\<close>

text \<open>The copy loop of \<open>list_grow\<close>: cells \<open>i, i + 1, \<dots>\<close> of the old ring go to cells
  \<open>index, index + 1, \<dots>\<close> of the new vector.\<close>

function list_grow_copy :: "'a ptr list \<Rightarrow> nat \<Rightarrow> nat \<Rightarrow> nat \<Rightarrow> nat \<Rightarrow> 'a ptr list \<Rightarrow> 'a ptr list" where
  "list_grow_copy elem sz cnt i index nelem =
     (if index < cnt
      then list_grow_copy elem sz cnt ((i + 1) mod sz) (index + 1) (nelem[index := elem ! i])
      else nelem)"
  by pat_completeness auto
termination
  by (relation "measure (\<lambda>(elem, sz, cnt, i, index, nelem). cnt - index)") auto

declare list_grow_copy.simps [simp del]

definition list_grow :: "'a list_t \<Rightarrow> 'a list_t" where
  "list_grow list =
     (let nsize = l_size list * 2;
          nelem = list_grow_copy (l_elem list) (l_size list) (l_count list) (l_head list) 0
                    (replicate nsize NULL)
      in list\<lparr>l_elem := nelem, l_size := nsize, l_head := 0, l_tail := l_count list\<rparr>)"

definition list_create_with_size :: "int \<Rightarrow> 'a list_t" where
  "list_create_with_size sz =
     (let sz = (if sz < 4 then 4 else nat sz)
      in \<lparr>l_count = 0, l_error_code = LIST_ERR_OK, l_size = sz, l_head = 0, l_tail = 0,
          l_elem = replicate sz NULL\<rparr>)"

definition list_create :: "'a list_t" where
  "list_create = list_create_with_size 8"

definition list_count :: "'a list_t \<Rightarrow> nat" where
  "list_count list = l_count list"

definition list_add :: "'a list_t \<Rightarrow> 'a ptr \<Rightarrow> 'a list_t" where
  "list_add list0 elem =
     (let list = (if l_count list0 = l_size list0 then list_grow list0 else list0)
      in list\<lparr>l_elem := (l_elem list)[l_tail list := elem],
              l_tail := (l_tail list + 1) mod l_size list,
              l_count := l_count list + 1,
              l_error_code := LIST_ERR_OK\<rparr>)"

definition list_get :: "'a list_t \<Rightarrow> int \<Rightarrow> 'a list_t \<times> 'a ptr" where
  "list_get list index =
     (if index < 0 \<or> int (l_count list) \<le> index then (list\<lparr>l_error_code := LIST_ERR_BOUNDS\<rparr>, NULL)
      else (list\<lparr>l_error_code := LIST_ERR_OK\<rparr>,
            l_elem list ! ((nat index + l_head list) mod l_size list)))"

definition list_set :: "'a list_t \<Rightarrow> int \<Rightarrow> 'a ptr \<Rightarrow> 'a list_t" where
  "list_set list index elem =
     (if index < 0 \<or> int (l_count list) \<le> index then list\<lparr>l_error_code := LIST_ERR_BOUNDS\<rparr>
      else list\<lparr>l_elem := (l_elem list)[(nat index + l_head list) mod l_size list := elem],
                l_error_code := LIST_ERR_OK\<rparr>)"

text \<open>The two shift loops of \<open>list_insert\<close>, with the number of iterations left as the first
  argument.\<close>

primrec insert_shift_right :: "nat \<Rightarrow> nat \<Rightarrow> nat \<Rightarrow> 'a ptr list \<Rightarrow> 'a ptr list" where
  "insert_shift_right 0 sz pos elem = elem"
| "insert_shift_right (Suc n) sz pos elem =
     insert_shift_right n sz (INLIST_pred sz pos) (elem[pos := elem ! INLIST_pred sz pos])"

primrec insert_shift_left :: "nat \<Rightarrow> nat \<Rightarrow> nat \<Rightarrow> 'a ptr list \<Rightarrow> 'a ptr list" where
  "insert_shift_left 0 sz pos elem = elem"
| "insert_shift_left (Suc n) sz pos elem =
     insert_shift_left n sz ((pos + 1) mod sz) (elem[INLIST_pred sz pos := elem ! pos])"

definition list_insert :: "'a list_t \<Rightarrow> int \<Rightarrow> 'a ptr \<Rightarrow> 'a list_t" where
  "list_insert list0 index elem =
     (if index < 0 \<or> int (l_count list0) < index then list0\<lparr>l_error_code := LIST_ERR_BOUNDS\<rparr>
      else
        let list = (if l_count list0 = l_size list0 then list_grow list0 else list0);
            sz = l_size list;
            idx = nat index;
            shifted =
              (if l_count list div 2 < idx
               then list\<lparr>l_elem := insert_shift_right (l_count list - idx) sz (l_tail list) (l_elem list),
                         l_tail := (l_tail list + 1) mod sz\<rparr>
               else list\<lparr>l_elem := insert_shift_left idx sz (l_head list) (l_elem list),
                         l_head := INLIST_pred sz (l_head list)\<rparr>)
        in shifted\<lparr>l_elem := (l_elem shifted)[(l_head shifted + idx) mod sz := elem],
                   l_count := l_count shifted + 1,
                   l_error_code := LIST_ERR_OK\<rparr>)"

text \<open>The search loop of \<open>list_index_of\<close>; the result \<open>-1\<close> is "not found".\<close>

function index_of_loop :: "'a list_t \<Rightarrow> 'a ptr \<Rightarrow> nat \<Rightarrow> nat \<Rightarrow> int" where
  "index_of_loop list elem i pos =
     (if i < l_count list
      then (if l_elem list ! pos = elem then int i
            else index_of_loop list elem (i + 1) ((pos + 1) mod l_size list))
      else -1)"
  by pat_completeness auto
termination
  by (relation "measure (\<lambda>(list, elem, i, pos). l_count list - i)") auto

declare index_of_loop.simps [simp del]

definition list_index_of :: "'a list_t \<Rightarrow> 'a ptr \<Rightarrow> 'a list_t \<times> int" where
  "list_index_of list elem =
     (let r = index_of_loop list elem 0 (l_head list)
      in (list\<lparr>l_error_code := (if r = -1 then LIST_ERR_NOT_FOUND else LIST_ERR_OK)\<rparr>, r))"

text \<open>The two shift loops of \<open>list_remove_at\<close>. The first also returns the final \<open>pos\<close>,
  whose cell the code then clears.\<close>

primrec remove_shift_left :: "nat \<Rightarrow> nat \<Rightarrow> nat \<Rightarrow> 'a ptr list \<Rightarrow> nat \<times> 'a ptr list" where
  "remove_shift_left 0 sz pos elem = (pos, elem)"
| "remove_shift_left (Suc n) sz pos elem =
     remove_shift_left n sz ((pos + 1) mod sz) (elem[pos := elem ! ((pos + 1) mod sz)])"

primrec remove_shift_right :: "nat \<Rightarrow> nat \<Rightarrow> nat \<Rightarrow> 'a ptr list \<Rightarrow> 'a ptr list" where
  "remove_shift_right 0 sz pos elem = elem"
| "remove_shift_right (Suc n) sz pos elem =
     remove_shift_right n sz (INLIST_pred sz pos) (elem[pos := elem ! INLIST_pred sz pos])"

definition list_remove_at :: "'a list_t \<Rightarrow> int \<Rightarrow> 'a list_t \<times> 'a ptr" where
  "list_remove_at list index =
     (if index < 0 \<or> int (l_count list) \<le> index then (list\<lparr>l_error_code := LIST_ERR_BOUNDS\<rparr>, NULL)
      else
        let sz = l_size list;
            idx = nat index;
            pos0 = (l_head list + idx) mod sz;
            elem = l_elem list ! pos0;
            list' =
              (if l_count list div 2 < idx
               then case remove_shift_left (l_count list - idx - 1) sz pos0 (l_elem list) of
                      (pos, v) \<Rightarrow> list\<lparr>l_elem := v[pos := NULL], l_tail := INLIST_pred sz (l_tail list)\<rparr>
               else list\<lparr>l_elem := (remove_shift_right idx sz pos0 (l_elem list))[l_head list := NULL],
                         l_head := (l_head list + 1) mod sz\<rparr>)
        in (list'\<lparr>l_count := l_count list' - 1, l_error_code := LIST_ERR_OK\<rparr>, elem))"

definition list_remove :: "'a list_t \<Rightarrow> 'a ptr \<Rightarrow> 'a list_t \<times> 'a ptr" where
  "list_remove list elem =
     (case list_index_of list elem of
        (list', index) \<Rightarrow>
          if l_error_code list' \<noteq> LIST_ERR_OK then (list', NULL)
          else list_remove_at list' index)"

definition list_clear :: "'a list_t \<Rightarrow> 'a list_t" where
  "list_clear list = list\<lparr>l_count := 0, l_head := 0, l_tail := 0, l_error_code := LIST_ERR_OK\<rparr>"

definition list_push :: "'a list_t \<Rightarrow> 'a ptr \<Rightarrow> 'a list_t" where
  "list_push list elem = list_add list elem"

definition list_pop :: "'a list_t \<Rightarrow> 'a list_t \<times> 'a ptr" where
  "list_pop list =
     (if l_count list = 0 then (list\<lparr>l_error_code := LIST_ERR_EMPTY\<rparr>, NULL)
      else list_remove_at list (int (l_count list) - 1))"

definition list_top :: "'a list_t \<Rightarrow> 'a list_t \<times> 'a ptr" where
  "list_top list =
     (if l_count list = 0 then (list\<lparr>l_error_code := LIST_ERR_EMPTY\<rparr>, NULL)
      else list_get list (int (l_count list) - 1))"

definition list_bottom :: "'a list_t \<Rightarrow> 'a list_t \<times> 'a ptr" where
  "list_bottom list =
     (if l_count list = 0 then (list\<lparr>l_error_code := LIST_ERR_EMPTY\<rparr>, NULL)
      else list_get list 0)"

definition list_enqueue :: "'a list_t \<Rightarrow> 'a ptr \<Rightarrow> 'a list_t" where
  "list_enqueue list elem = list_add list elem"

definition list_dequeue :: "'a list_t \<Rightarrow> 'a list_t \<times> 'a ptr" where
  "list_dequeue list =
     (if l_count list = 0 then (list\<lparr>l_error_code := LIST_ERR_EMPTY\<rparr>, NULL)
      else list_remove_at list 0)"

definition list_head :: "'a list_t \<Rightarrow> 'a list_t \<times> 'a ptr" where
  "list_head list =
     (if l_count list = 0 then (list\<lparr>l_error_code := LIST_ERR_EMPTY\<rparr>, NULL)
      else list_get list 0)"

definition list_tail :: "'a list_t \<Rightarrow> 'a list_t \<times> 'a ptr" where
  "list_tail list =
     (if l_count list = 0 then (list\<lparr>l_error_code := LIST_ERR_EMPTY\<rparr>, NULL)
      else list_get list (int (l_count list) - 1))"

text \<open>The macro \<open>ELEM(X)\<close> as a value and as the target of an assignment; \<open>X\<close> may be any
  \<open>int\<close>, and a negative cell is outside the vector.\<close>

definition ELEM :: "'a list_t \<Rightarrow> int \<Rightarrow> 'a ptr option" where
  "ELEM list x = arr_get (l_elem list) (c_rem (x + int (l_head list)) (int (l_size list)))"

definition ELEM_assign :: "'a list_t \<Rightarrow> int \<Rightarrow> 'a ptr \<Rightarrow> 'a list_t" where
  "ELEM_assign list x v =
     list\<lparr>l_elem := arr_set (l_elem list) (c_rem (x + int (l_head list)) (int (l_size list))) v\<rparr>"

text \<open>The static function \<open>sort\<close> with the pivot \<open>ELEM(hi)\<close>, and \<open>list_sort\<close>.\<close>

definition list_sort_range ::
  "('a ptr \<Rightarrow> 'a ptr \<Rightarrow> int) \<Rightarrow> 'a list_t \<Rightarrow> int \<Rightarrow> int \<Rightarrow> 'a list_t option" where
  "list_sort_range cmp list lo hi = quicksort (\<lambda>lo hi. hi) ELEM ELEM_assign cmp list lo hi"

definition list_sort :: "('a ptr \<Rightarrow> 'a ptr \<Rightarrow> int) \<Rightarrow> 'a list_t \<Rightarrow> 'a list_t option" where
  "list_sort cmp list =
     (if l_count list = 0 then Some list
      else list_sort_range cmp list 0 (int (l_count list) - 1))"

section \<open>Invariant and abstract value\<close>

definition list_inv :: "'a list_t \<Rightarrow> bool" where
  "list_inv list \<longleftrightarrow>
     0 < l_size list \<and> length (l_elem list) = l_size list \<and> l_count list \<le> l_size list \<and>
     l_head list < l_size list \<and> l_tail list = (l_head list + l_count list) mod l_size list"

definition list_contents :: "'a list_t \<Rightarrow> 'a ptr list" where
  "list_contents list = take (l_count list) (rotate (l_head list) (l_elem list))"


lemma list_invD:
  assumes "list_inv list"
  shows "0 < l_size list" "length (l_elem list) = l_size list" "l_count list \<le> l_size list"
    "l_head list < l_size list" "l_tail list = (l_head list + l_count list) mod l_size list"
  using assms by (auto simp: list_inv_def)

lemma length_list_contents: "list_inv list \<Longrightarrow> length (list_contents list) = l_count list"
  by (simp add: list_contents_def list_invD)

lemma list_contents_nth:
  assumes "list_inv list" "i < l_count list"
  shows "list_contents list ! i = l_elem list ! ((l_head list + i) mod l_size list)"
  using assms by (auto simp: list_contents_def nth_rotate list_inv_def)

lemma list_inv_create [inv_intros]: "list_inv (list_create_with_size n)"
  by (auto simp: list_inv_def list_create_with_size_def Let_def)

lemma list_contents_create [view_simps]: "list_contents (list_create_with_size n) = []"
  by (simp add: list_contents_def list_create_with_size_def Let_def)

text \<open>Error codes alone do not change the list.\<close>

lemma list_err_frame [simp]:
  "list_inv (list\<lparr>l_error_code := e\<rparr>) = list_inv list"
  "list_contents (list\<lparr>l_error_code := e\<rparr>) = list_contents list"
  by (simp_all add: list_inv_def list_contents_def)

section \<open>Growing\<close>

lemma list_grow_copy_eq:
  assumes "index \<le> cnt" "cnt \<le> length elem" "cnt \<le> length nelem" "i = (h + index) mod length elem"
  shows "list_grow_copy elem (length elem) cnt i index nelem =
    take index nelem @ drop index (take cnt (rotate h elem)) @ drop cnt nelem"
  using assms
proof (induction "cnt - index" arbitrary: i index nelem)
  case 0
  then show ?case by (simp add: list_grow_copy.simps [of elem])
next
  case (Suc n)
  then have lt: "index < cnt" by simp
  let ?x = "elem ! i"
  have "index < length elem" using Suc.prems lt by linarith
  then have x: "?x = rotate h elem ! index"
    unfolding Suc.prems(4) by (rule nth_mod_rotate)
  have "list_grow_copy elem (length elem) cnt i index nelem =
      list_grow_copy elem (length elem) cnt ((i + 1) mod length elem) (Suc index) (nelem[index := ?x])"
    using lt by (simp add: list_grow_copy.simps [of elem _ _ i])
  also have "\<dots> = take (Suc index) (nelem[index := ?x]) @
      drop (Suc index) (take cnt (rotate h elem)) @ drop cnt (nelem[index := ?x])"
    using Suc.hyps Suc.prems lt by (intro Suc.hyps(1)) (auto simp: mod_Suc_eq mod_simps)
  also have "\<dots> = take index nelem @ (?x # drop (Suc index) (take cnt (rotate h elem))) @ drop cnt nelem"
    using lt Suc.prems by (simp add: take_Suc_conv_app_nth)
  also have "?x # drop (Suc index) (take cnt (rotate h elem)) = drop index (take cnt (rotate h elem))"
    using lt Suc.prems(2) Cons_nth_drop_Suc [of index "take cnt (rotate h elem)"] by (simp add: x)
  finally show ?case .
qed

lemma list_grow_elem:
  assumes "list_inv list"
  shows "l_elem (list_grow list) =
    list_contents list @ replicate (2 * l_size list - l_count list) NULL"
  using assms list_grow_copy_eq [of 0 "l_count list" "l_elem list"
      "replicate (l_size list * 2) NULL" "l_head list" "l_head list"]
  by (auto simp: list_grow_def list_contents_def list_inv_def Let_def mult.commute)

lemma list_grow_props:
  assumes "list_inv list"
  shows "list_inv (list_grow list)" "list_contents (list_grow list) = list_contents list"
    "l_count (list_grow list) = l_count list" "l_size (list_grow list) = 2 * l_size list"
proof -
  show c: "l_count (list_grow list) = l_count list"
    and z: "l_size (list_grow list) = 2 * l_size list"
    by (simp_all add: list_grow_def Let_def)
  have h: "l_head (list_grow list) = 0" and t: "l_tail (list_grow list) = l_count list"
    by (simp_all add: list_grow_def Let_def)
  note e = list_grow_elem [OF assms]
  have len: "length (list_contents list) = l_count list" by (rule length_list_contents [OF assms])
  show "list_contents (list_grow list) = list_contents list"
    by (subst list_contents_def) (simp add: c h e len)
  show "list_inv (list_grow list)"
    using assms by (auto simp: list_inv_def c h z t e len)
qed

text \<open>Every insertion first makes room.\<close>

definition list_room :: "'a list_t \<Rightarrow> 'a list_t" where
  "list_room list = (if l_count list = l_size list then list_grow list else list)"

lemma list_room_props:
  assumes "list_inv list"
  shows "list_inv (list_room list)" "list_contents (list_room list) = list_contents list"
    "l_count (list_room list) = l_count list" "l_count (list_room list) < l_size (list_room list)"
  using assms by (auto simp: list_room_def list_grow_props list_invD le_neq_implies_less)

section \<open>The shift loops\<close>

text \<open>Seen from position \<open>h\<close> of the ring, each loop moves a block of \<open>n\<close> cells by one place.\<close>

lemma length_shifts [simp]:
  "length (insert_shift_right n sz pos xs) = length xs"
  "length (insert_shift_left n sz pos xs) = length xs"
  "length (snd (remove_shift_left n sz pos xs)) = length xs"
  "length (remove_shift_right n sz pos xs) = length xs"
  by (induction n arbitrary: pos xs) auto

lemma remove_shift_right_eq_insert: "remove_shift_right = insert_shift_right"
proof (intro ext)
  fix n sz pos and xs :: "'a ptr list"
  show "remove_shift_right n sz pos xs = insert_shift_right n sz pos xs"
    by (induction n arbitrary: pos xs) auto
qed

lemma insert_shift_right_nth:
  assumes "n \<le> k" "k < length xs" "j < length xs"
  shows "rotate h (insert_shift_right n (length xs) ((h + k) mod length xs) xs) ! j =
    (if k - n < j \<and> j \<le> k then rotate h xs ! (j - 1) else rotate h xs ! j)"
  using assms
proof (induction n arbitrary: k xs)
  case 0
  then show ?case by auto
next
  case (Suc n)
  then obtain k' where k: "k = Suc k'" by (cases k) auto
  let ?r = "rotate h xs"
  let ?xs = "xs[(h + k) mod length xs := xs ! ((h + k') mod length xs)]"
  have rx: "rotate h ?xs = ?r[k := ?r ! k']"
    using Suc.prems k by (simp only: rotate_update nth_mod_rotate)
  have "INLIST_pred (length xs) ((h + k) mod length xs) = (h + k') mod length xs"
    unfolding INLIST_pred_def k by (rule mod_pred_Suc) (use Suc.prems in linarith)
  then have "insert_shift_right (Suc n) (length xs) ((h + k) mod length xs) xs =
      insert_shift_right n (length ?xs) ((h + k') mod length ?xs) ?xs"
    by simp
  moreover have "rotate h (insert_shift_right n (length ?xs) ((h + k') mod length ?xs) ?xs) ! j =
      (if k' - n < j \<and> j \<le> k' then rotate h ?xs ! (j - 1) else rotate h ?xs ! j)"
    using Suc.prems k by (intro Suc.IH) auto
  note this [unfolded rx]
  ultimately show ?case
    using Suc.prems k by (auto simp: nth_list_update)
qed

lemma insert_shift_left_nth:
  assumes "k + n < length xs" "j < length xs"
  shows "rotate h (insert_shift_left n (length xs) ((h + Suc k) mod length xs) xs) ! j =
    (if k \<le> j \<and> j < k + n then rotate h xs ! (j + 1) else rotate h xs ! j)"
  using assms
proof (induction n arbitrary: k xs)
  case 0
  then show ?case by auto
next
  case (Suc n)
  let ?r = "rotate h xs"
  let ?xs = "xs[(h + k) mod length xs := xs ! ((h + Suc k) mod length xs)]"
  have rx: "rotate h ?xs = ?r[k := ?r ! Suc k]"
    using Suc.prems by (simp only: rotate_update nth_mod_rotate)
  have "INLIST_pred (length xs) ((h + Suc k) mod length xs) = (h + k) mod length xs"
    unfolding INLIST_pred_def by (rule mod_pred_Suc) (use Suc.prems in linarith)
  then have "insert_shift_left (Suc n) (length xs) ((h + Suc k) mod length xs) xs =
      insert_shift_left n (length ?xs) ((h + Suc (Suc k)) mod length ?xs) ?xs"
    by (simp only: insert_shift_left.simps mod_Suc_add length_list_update)
  moreover have "rotate h (insert_shift_left n (length ?xs) ((h + Suc (Suc k)) mod length ?xs) ?xs) ! j =
      (if Suc k \<le> j \<and> j < Suc k + n then ?r[k := ?r ! Suc k] ! (j + 1) else ?r[k := ?r ! Suc k] ! j)"
    using Suc.IH [of "Suc k" ?xs] Suc.prems by (simp only: rx length_list_update)
  ultimately show ?case
    using Suc.prems by (auto simp: nth_list_update)
qed

text \<open>The left shift of a removal copies from the next cell into the current one, that of an
  insertion from the current one into the previous.\<close>

lemma remove_shift_left_eq:
  assumes "0 < length xs"
  shows "remove_shift_left n (length xs) ((h + k) mod length xs) xs =
    ((h + (k + n)) mod length xs, insert_shift_left n (length xs) ((h + Suc k) mod length xs) xs)"
  using assms
proof (induction n arbitrary: k xs)
  case 0
  then show ?case by simp
next
  case (Suc n)
  let ?xs = "xs[(h + k) mod length xs := xs ! ((h + Suc k) mod length xs)]"
  have "INLIST_pred (length xs) ((h + Suc k) mod length xs) = (h + k) mod length xs"
    using Suc.prems by (simp only: INLIST_pred_def mod_pred_Suc)
  then show ?case
    using Suc.IH [of ?xs "Suc k"] Suc.prems
    by (simp only: remove_shift_left.simps insert_shift_left.simps mod_Suc_add length_list_update) simp
qed

section \<open>What each operation does\<close>

text \<open>Two ring lists with the same cells modulo rotation hold the same elements.\<close>

lemma list_add_room:
  "list_add list e =
    (let l = list_room list
     in l\<lparr>l_elem := (l_elem l)[l_tail l := e], l_tail := (l_tail l + 1) mod l_size l,
          l_count := l_count l + 1, l_error_code := LIST_ERR_OK\<rparr>)"
  by (simp add: list_add_def list_room_def)

lemma list_add_correct:
  assumes "list_inv list"
  shows "list_inv (list_add list e)" "list_contents (list_add list e) = list_contents list @ [e]"
    "l_error_code (list_add list e) = LIST_ERR_OK"
proof -
  let ?l = "list_room list"
  note room = list_room_props [OF assms]
  note inv = list_invD [OF room(1)]
  have idx: "l_count ?l < length (l_elem ?l)" using room(4) inv(2) by simp
  have "rotate (l_head ?l) ((l_elem ?l)[l_tail ?l := e]) = (rotate (l_head ?l) (l_elem ?l))[l_count ?l := e]"
    using rotate_update [OF idx, of "l_head ?l" e] inv by simp
  then have "list_contents (list_add list e) = list_contents ?l @ [e]"
    using idx by (simp add: list_contents_def list_add_room Let_def take_Suc_conv_app_nth)
  then show "list_contents (list_add list e) = list_contents list @ [e]"
    by (simp add: room(2))
  show "list_inv (list_add list e)"
    using inv room(4) by (auto simp: list_inv_def list_add_room Let_def mod_simps)
  show "l_error_code (list_add list e) = LIST_ERR_OK"
    by (simp add: list_add_room Let_def)
qed

lemma list_get_correct:
  assumes "list_inv list"
  shows "snd (list_get list i) =
      (if 0 \<le> i \<and> i < int (l_count list) then list_contents list ! nat i else NULL)"
    and "fst (list_get list i) = list\<lparr>l_error_code :=
      (if 0 \<le> i \<and> i < int (l_count list) then LIST_ERR_OK else LIST_ERR_BOUNDS)\<rparr>"
  using assms by (auto simp: list_get_def list_contents_nth add.commute)

lemma list_set_correct:
  assumes "list_inv list"
  shows "list_inv (list_set list i e)"
    and "list_contents (list_set list i e) =
      (if 0 \<le> i then (list_contents list)[nat i := e] else list_contents list)"
    and "l_error_code (list_set list i e) =
      (if 0 \<le> i \<and> i < int (l_count list) then LIST_ERR_OK else LIST_ERR_BOUNDS)"
proof -
  note inv = list_invD [OF assms]
  show "list_inv (list_set list i e)"
    using inv by (simp add: list_inv_def list_set_def)
  show "l_error_code (list_set list i e) =
      (if 0 \<le> i \<and> i < int (l_count list) then LIST_ERR_OK else LIST_ERR_BOUNDS)"
    by (simp add: list_set_def)
  show "list_contents (list_set list i e) =
      (if 0 \<le> i then (list_contents list)[nat i := e] else list_contents list)"
  proof (cases "0 \<le> i \<and> i < int (l_count list)")
    case True
    then have "nat i < length (l_elem list)" using inv by linarith
    from rotate_update [OF this, of "l_head list" e] True inv show ?thesis
      by (simp add: list_contents_def list_set_def add.commute take_update_swap)
  next
    case False
    then show ?thesis
      using length_list_contents [OF assms] by (auto simp: list_set_def list_update_beyond)
  qed
qed

lemma list_clear_correct:
  assumes "list_inv list"
  shows "list_inv (list_clear list)" "list_contents (list_clear list) = []"
  using assms by (auto simp: list_inv_def list_clear_def list_contents_def)

section \<open>Insertion and removal in the middle\<close>

lemma list_insert_right_elem:
  assumes "list_inv l" "l_count l < l_size l" "idx \<le> l_count l"
  shows "take (l_count l + 1) (rotate (l_head l)
      ((insert_shift_right (l_count l - idx) (l_size l) (l_tail l) (l_elem l))
        [(l_head l + idx) mod l_size l := e])) =
    take idx (list_contents l) @ e # drop idx (list_contents l)"
proof -
  note inv = list_invD [OF assms(1)]
  let ?S = "insert_shift_right (l_count l - idx) (l_size l) (l_tail l) (l_elem l)"
  have S: "rotate (l_head l) ?S ! j =
      (if idx < j \<and> j \<le> l_count l then rotate (l_head l) (l_elem l) ! (j - 1)
       else rotate (l_head l) (l_elem l) ! j)" if "j \<le> l_count l" for j
    using insert_shift_right_nth [of "l_count l - idx" "l_count l" "l_elem l" j "l_head l"] that assms inv
    by simp
  have idx: "idx < length ?S" using assms inv by simp
  have "rotate (l_head l) (?S[(l_head l + idx) mod l_size l := e]) = (rotate (l_head l) ?S)[idx := e]"
    using rotate_update [OF idx, of "l_head l" e] inv by simp
  then show ?thesis
    using assms(2,3) inv(2-4)
    by (intro nth_equalityI) (auto simp: list_contents_def S nth_append nth_Cons' nth_list_update)
qed

lemma list_insert_left_elem:
  assumes "list_inv l" "l_count l < l_size l" "idx \<le> l_count l"
  shows "take (l_count l + 1) (rotate (INLIST_pred (l_size l) (l_head l))
      ((insert_shift_left idx (l_size l) (l_head l) (l_elem l))
        [(INLIST_pred (l_size l) (l_head l) + idx) mod l_size l := e])) =
    take idx (list_contents l) @ e # drop idx (list_contents l)"
proof -
  note inv = list_invD [OF assms(1)]
  let ?h = "INLIST_pred (l_size l) (l_head l)"
  let ?S = "insert_shift_left idx (l_size l) (l_head l) (l_elem l)"
  have h: "(?h + Suc 0) mod l_size l = l_head l"
    using inv by (simp add: INLIST_pred_def mod_Suc_eq)
  have r: "rotate ?h (l_elem l) ! Suc j = rotate (l_head l) (l_elem l) ! j" if "Suc j < l_size l" for j
    using rotate_pred_nth [of j "l_elem l" "l_head l"] that inv by (simp add: INLIST_pred_def)
  have S: "rotate ?h ?S ! j =
      (if j < idx then rotate (l_head l) (l_elem l) ! j else rotate ?h (l_elem l) ! j)"
    if "j \<le> l_count l" for j
    using insert_shift_left_nth [of 0 idx "l_elem l" j ?h, unfolded inv(2) h] that assms(2,3)
    by (auto simp: r)
  have idx: "idx < length ?S" using assms inv by simp
  have upd: "rotate ?h (?S[(?h + idx) mod l_size l := e]) = (rotate ?h ?S)[idx := e]"
    using rotate_update [OF idx, of ?h e] inv by simp
  have r': "rotate ?h (l_elem l) ! j = rotate (l_head l) (l_elem l) ! (j - 1)"
    if "idx < j" "j \<le> l_count l" for j
    using r [of "j - 1"] that assms by simp
  show ?thesis
    unfolding upd using assms(2,3) inv(2-4)
    by (intro nth_equalityI) (auto simp: list_contents_def S r' nth_append nth_Cons' nth_list_update)
qed

lemma list_insert_room:
  "list_insert list i e =
    (if i < 0 \<or> int (l_count list) < i then list\<lparr>l_error_code := LIST_ERR_BOUNDS\<rparr>
     else
       let l = list_room list; sz = l_size l; idx = nat i;
           shifted =
             (if l_count l div 2 < idx
              then l\<lparr>l_elem := insert_shift_right (l_count l - idx) sz (l_tail l) (l_elem l),
                     l_tail := (l_tail l + 1) mod sz\<rparr>
              else l\<lparr>l_elem := insert_shift_left idx sz (l_head l) (l_elem l),
                     l_head := INLIST_pred sz (l_head l)\<rparr>)
       in shifted\<lparr>l_elem := (l_elem shifted)[(l_head shifted + idx) mod sz := e],
                  l_count := l_count shifted + 1, l_error_code := LIST_ERR_OK\<rparr>)"
  unfolding list_insert_def list_room_def Let_def by (rule refl)

lemma list_insert_correct:
  assumes "list_inv list"
  shows "list_inv (list_insert list i e)"
    and "list_contents (list_insert list i e) =
      (if 0 \<le> i \<and> i \<le> int (l_count list)
       then take (nat i) (list_contents list) @ e # drop (nat i) (list_contents list)
       else list_contents list)"
    and "l_error_code (list_insert list i e) =
      (if 0 \<le> i \<and> i \<le> int (l_count list) then LIST_ERR_OK else LIST_ERR_BOUNDS)"
proof -
  let ?l = "list_room list"
  note room = list_room_props [OF assms]
  note inv = list_invD [OF room(1)]
  show "l_error_code (list_insert list i e) =
      (if 0 \<le> i \<and> i \<le> int (l_count list) then LIST_ERR_OK else LIST_ERR_BOUNDS)"
    by (simp add: list_insert_room Let_def)
  have A: "list_inv (?l\<lparr>l_tail := (l_tail ?l + 1) mod l_size ?l, l_elem := xs[k := e],
      l_count := l_count ?l + 1, l_error_code := LIST_ERR_OK\<rparr>)" if "length xs = l_size ?l" for xs k
    unfolding list_inv_def using inv(1-4) room(4) that by (simp add: inv(5) mod_Suc_eq)
  have tail: "l_tail ?l = (INLIST_pred (l_size ?l) (l_head ?l) + (l_count ?l + 1)) mod l_size ?l"
    using mod_head_pred [of "l_size ?l" "l_head ?l" "l_count ?l"] inv(1,5) by (simp add: INLIST_pred_def)
  have B: "list_inv (?l\<lparr>l_head := INLIST_pred (l_size ?l) (l_head ?l), l_elem := xs[k := e],
      l_count := l_count ?l + 1, l_error_code := LIST_ERR_OK\<rparr>)" if "length xs = l_size ?l" for xs k
    unfolding list_inv_def using inv(1-4) room(4) that tail by (simp add: INLIST_pred_def)
  show "list_inv (list_insert list i e)"
    using assms inv(2) A B by (simp add: list_insert_room Let_def)
  show "list_contents (list_insert list i e) =
      (if 0 \<le> i \<and> i \<le> int (l_count list)
       then take (nat i) (list_contents list) @ e # drop (nat i) (list_contents list)
       else list_contents list)"
  proof (cases "0 \<le> i \<and> i \<le> int (l_count list)")
    case True
    then have idx: "nat i \<le> l_count ?l" by (simp add: room(3) nat_le_iff)
    show ?thesis
      unfolding list_contents_def [of "list_insert list i e"]
      using True list_insert_right_elem [OF room(1,4) idx, of e] list_insert_left_elem [OF room(1,4) idx, of e]
      by (simp add: list_insert_room Let_def room(2))
  qed (auto simp: list_insert_room)
qed

lemma list_remove_right_elem:
  assumes "list_inv l" "idx < l_count l"
  shows "take (l_count l - 1) (rotate ((l_head l + 1) mod l_size l)
      ((remove_shift_right idx (l_size l) ((l_head l + idx) mod l_size l) (l_elem l))[l_head l := NULL])) =
    take idx (list_contents l) @ drop (Suc idx) (list_contents l)"
proof -
  note inv = list_invD [OF assms(1)]
  define S where "S = insert_shift_right idx (l_size l) ((l_head l + idx) mod l_size l) (l_elem l)"
  have len: "length S = l_size l" using inv by (simp add: S_def)
  have S: "rotate (l_head l) S ! j =
      (if 0 < j \<and> j \<le> idx then rotate (l_head l) (l_elem l) ! (j - 1) else rotate (l_head l) (l_elem l) ! j)"
    if "j < l_count l" for j
    using insert_shift_right_nth [of idx idx "l_elem l" j "l_head l"] that assms inv(1-4) by (simp add: S_def)
  have "rotate (l_head l) (S[(l_head l + 0) mod length S := NULL]) = (rotate (l_head l) S)[0 := NULL]"
    by (rule rotate_update) (use inv len in simp)
  then have upd: "rotate (l_head l) (S[l_head l := NULL]) = (rotate (l_head l) S)[0 := NULL]"
    using inv len by simp
  have R: "rotate ((l_head l + 1) mod l_size l) (S[l_head l := NULL]) ! j = rotate (l_head l) S ! Suc j"
    if "Suc j < l_count l" for j
    using rotate_succ_nth [of j "S[l_head l := NULL]" "l_head l"] that inv(1-4) len by (simp add: upd)
  define R where "R = rotate ((l_head l + 1) mod l_size l) (S[l_head l := NULL])"
  have "take (l_count l - 1) R = take idx (list_contents l) @ drop (Suc idx) (list_contents l)"
    using assms(2) inv(2-4) len R [folded R_def]
    by (intro nth_equalityI) (auto simp: list_contents_def S nth_append R_def)
  then show ?thesis unfolding remove_shift_right_eq_insert S_def R_def .
qed

lemma list_remove_left_elem:
  assumes "list_inv l" "idx < l_count l"
    and rem: "remove_shift_left (l_count l - idx - 1) (l_size l) ((l_head l + idx) mod l_size l) (l_elem l) = (pos, v)"
  shows "take (l_count l - 1) (rotate (l_head l) (v[pos := NULL])) =
    take idx (list_contents l) @ drop (Suc idx) (list_contents l)"
    and "length v = l_size l"
proof -
  note inv = list_invD [OF assms(1)]
  define n where "n = l_count l - idx - 1"
  have pv: "pos = (l_head l + (idx + n)) mod l_size l"
      "v = insert_shift_left n (l_size l) ((l_head l + Suc idx) mod l_size l) (l_elem l)"
    using remove_shift_left_eq [of "l_elem l" n "l_head l" idx, unfolded inv(2)] rem inv(1)
    by (auto simp: n_def)
  show len: "length v = l_size l" using pv inv by simp
  have S: "rotate (l_head l) v ! j =
      (if idx \<le> j \<and> j < idx + n then rotate (l_head l) (l_elem l) ! (j + 1)
       else rotate (l_head l) (l_elem l) ! j)"
    if "j < l_count l" for j
    using insert_shift_left_nth [of idx n "l_elem l" j "l_head l"] that assms(2) inv(1-4)
    by (simp add: pv(2) n_def)
  have "rotate (l_head l) (v[(l_head l + (idx + n)) mod length v := NULL]) =
      (rotate (l_head l) v)[idx + n := NULL]"
    by (rule rotate_update) (use len assms(2) inv in \<open>simp add: n_def\<close>)
  then have upd: "rotate (l_head l) (v[pos := NULL]) = (rotate (l_head l) v)[idx + n := NULL]"
    using len pv(1) by simp
  have "idx + n = l_count l - 1" using assms(2) by (simp add: n_def)
  then show "take (l_count l - 1) (rotate (l_head l) (v[pos := NULL])) =
      take idx (list_contents l) @ drop (Suc idx) (list_contents l)"
    unfolding upd using assms(2) inv(2-4) len
    by (intro nth_equalityI) (auto simp: list_contents_def S nth_append)
qed

lemma list_remove_at_correct:
  assumes "list_inv list" "0 \<le> i" "i < int (l_count list)"
  shows "list_inv (fst (list_remove_at list i))"
    and "list_contents (fst (list_remove_at list i)) =
      take (nat i) (list_contents list) @ drop (Suc (nat i)) (list_contents list)"
    and "snd (list_remove_at list i) = list_contents list ! nat i"
    and "l_error_code (fst (list_remove_at list i)) = LIST_ERR_OK"
proof -
  note inv = list_invD [OF assms(1)]
  have idx: "nat i < l_count list" using assms by simp
  obtain pos v where pv: "remove_shift_left (l_count list - nat i - 1) (l_size list)
      ((l_head list + nat i) mod l_size list) (l_elem list) = (pos, v)"
    by fastforce
  note left = list_remove_left_elem [OF assms(1) idx pv]
  have pred: "INLIST_pred (l_size list) (l_tail list) = (l_head list + (l_count list - 1)) mod l_size list"
    using mod_pred_Suc [of "l_size list" "l_head list" "l_count list - 1"] inv idx
    by (simp add: INLIST_pred_def)
  show "l_error_code (fst (list_remove_at list i)) = LIST_ERR_OK"
    using assms pv by (simp add: list_remove_at_def Let_def)
  show "snd (list_remove_at list i) = list_contents list ! nat i"
    using assms pv by (simp add: list_remove_at_def Let_def list_contents_nth)
  have A: "list_inv (list\<lparr>l_elem := v[pos := NULL], l_tail := INLIST_pred (l_size list) (l_tail list),
      l_count := l_count list - 1, l_error_code := LIST_ERR_OK\<rparr>)"
    unfolding list_inv_def pred using inv(1-4) left(2) by simp
  have tail: "(l_head list + l_count list) mod l_size list =
      ((l_head list + 1) mod l_size list + (l_count list - 1)) mod l_size list"
    using idx mod_pred_Suc_head [of "l_count list" "l_head list" "l_size list"] by simp
  have B: "list_inv (list\<lparr>l_elem := (remove_shift_right (nat i) (l_size list)
        ((l_head list + nat i) mod l_size list) (l_elem list))[l_head list := NULL],
      l_head := (l_head list + 1) mod l_size list, l_count := l_count list - 1,
      l_error_code := LIST_ERR_OK\<rparr>)"
    unfolding list_inv_def using inv(1-4) inv(5) [unfolded tail] by simp
  show "list_inv (fst (list_remove_at list i))"
    using assms(2,3) pv A B by (simp add: list_remove_at_def Let_def)
  show "list_contents (fst (list_remove_at list i)) =
      take (nat i) (list_contents list) @ drop (Suc (nat i)) (list_contents list)"
    unfolding list_contents_def [of "fst (list_remove_at list i)"]
    using assms pv left(1) list_remove_right_elem [OF assms(1) idx]
    by (simp add: list_remove_at_def Let_def)
qed

lemma list_remove_at_bounds:
  "i < 0 \<or> int (l_count list) \<le> i \<Longrightarrow>
   list_remove_at list i = (list\<lparr>l_error_code := LIST_ERR_BOUNDS\<rparr>, NULL)"
  by (auto simp: list_remove_at_def)

section \<open>Searching\<close>

lemma index_of_loop_eq:
  assumes "list_inv list" "i \<le> l_count list" "pos = (l_head list + i) mod l_size list"
    and "\<forall>j < i. list_contents list ! j \<noteq> e"
  shows "index_of_loop list e i pos =
    (if e \<in> set (list_contents list)
     then int (LEAST j. j < l_count list \<and> list_contents list ! j = e) else -1)"
  using assms
proof (induction "l_count list - i" arbitrary: i pos)
  case 0
  then have "e \<notin> set (list_contents list)"
    by (auto simp: in_set_conv_nth length_list_contents)
  then show ?case using 0 by (simp add: index_of_loop.simps)
next
  case (Suc n)
  then have i: "i < l_count list" by simp
  have cell: "l_elem list ! pos = list_contents list ! i"
    using Suc.prems i by (simp add: list_contents_nth)
  show ?case
  proof (cases "list_contents list ! i = e")
    case True
    then have "(LEAST j. j < l_count list \<and> list_contents list ! j = e) = i"
      using Suc.prems(4) i by (intro Least_equality) (auto simp: not_less [symmetric])
    moreover have "e \<in> set (list_contents list)"
      using True i Suc.prems(1) by (auto simp: in_set_conv_nth length_list_contents)
    ultimately show ?thesis
      using True i cell by (simp add: index_of_loop.simps [of list e i])
  next
    case False
    then have "index_of_loop list e i pos = index_of_loop list e (i + 1) ((pos + 1) mod l_size list)"
      using i cell by (simp add: index_of_loop.simps [of list e i])
    also have "\<dots> = (if e \<in> set (list_contents list)
        then int (LEAST j. j < l_count list \<and> list_contents list ! j = e) else -1)"
      using Suc.hyps(2) Suc.prems i False
      by (intro Suc.hyps(1)) (auto simp: less_Suc_eq mod_simps)
    finally show ?thesis .
  qed
qed

lemma list_index_of_correct:
  assumes "list_inv list"
  shows "snd (list_index_of list e) =
      (if e \<in> set (list_contents list)
       then int (LEAST j. j < l_count list \<and> list_contents list ! j = e) else -1)"
    and "fst (list_index_of list e) = list\<lparr>l_error_code :=
      (if e \<in> set (list_contents list) then LIST_ERR_OK else LIST_ERR_NOT_FOUND)\<rparr>"
  using index_of_loop_eq [OF assms, of 0 "l_head list" e] list_invD [OF assms]
  by (auto simp: list_index_of_def Let_def)

text \<open>Cutting a sequence at the first occurrence of an element is \<open>remove1\<close>.\<close>

lemma remove1_first:
  assumes "e \<in> set xs" "j = (LEAST j. j < length xs \<and> xs ! j = e)"
  shows "j < length xs" "xs ! j = e" "take j xs @ drop (Suc j) xs = remove1 e xs"
proof -
  have ex: "\<exists>j. j < length xs \<and> xs ! j = e" using assms(1) by (simp add: in_set_conv_nth)
  show j: "j < length xs" and e: "xs ! j = e"
    using LeastI_ex [OF ex] assms(2) by auto
  have "e \<notin> set (take j xs)"
  proof
    assume "e \<in> set (take j xs)"
    then obtain k where "k < j" "xs ! k = e" using j by (auto simp: in_set_conv_nth)
    then show False using not_less_Least [of k "\<lambda>j. j < length xs \<and> xs ! j = e"] assms(2) j by auto
  qed
  moreover have "xs = take j xs @ e # drop (Suc j) xs" using id_take_nth_drop [OF j] e by simp
  ultimately show "take j xs @ drop (Suc j) xs = remove1 e xs"
    by (metis remove1.simps(2) remove1_append)
qed

lemma list_remove_correct:
  assumes "list_inv list"
  shows "list_inv (fst (list_remove list e))"
    and "list_contents (fst (list_remove list e)) = remove1 e (list_contents list)"
    and "snd (list_remove list e) = (if e \<in> set (list_contents list) then e else NULL)"
    and "l_error_code (fst (list_remove list e)) =
      (if e \<in> set (list_contents list) then LIST_ERR_OK else LIST_ERR_NOT_FOUND)"
proof -
  obtain l i where li: "list_index_of list e = (l, i)" by fastforce
  note idx = list_index_of_correct [OF assms, of e, unfolded li, simplified]
  have "list_inv (fst (list_remove list e)) \<and>
    list_contents (fst (list_remove list e)) = remove1 e (list_contents list) \<and>
    snd (list_remove list e) = (if e \<in> set (list_contents list) then e else NULL) \<and>
    l_error_code (fst (list_remove list e)) =
      (if e \<in> set (list_contents list) then LIST_ERR_OK else LIST_ERR_NOT_FOUND)"
  proof (cases "e \<in> set (list_contents list)")
    case True
    define j where "j = (LEAST j. j < length (list_contents list) \<and> list_contents list ! j = e)"
    note j = remove1_first [OF True j_def]
    have i: "i = int j" using idx(1) True by (simp add: j_def length_list_contents [OF assms])
    have inv: "list_inv l" and cont: "list_contents l = list_contents list" and "l_count l = l_count list"
      using idx(2) assms by simp_all
    then have "i < int (l_count l)" using j(1) i by (simp add: length_list_contents [OF assms])
    from list_remove_at_correct [OF inv _ this] show ?thesis
      using True idx(2) j i cont by (simp add: list_remove_def li)
  next
    case False
    then show ?thesis using idx assms by (simp add: list_remove_def li remove1_idem)
  qed
  then show "list_inv (fst (list_remove list e))"
    and "list_contents (fst (list_remove list e)) = remove1 e (list_contents list)"
    and "snd (list_remove list e) = (if e \<in> set (list_contents list) then e else NULL)"
    and "l_error_code (fst (list_remove list e)) =
      (if e \<in> set (list_contents list) then LIST_ERR_OK else LIST_ERR_NOT_FOUND)" by blast+
qed

section \<open>The list as queue, stack and array\<close>

lemma list_dequeue_correct:
  assumes "list_inv list" "list_contents list = x # xs"
  shows "list_inv (fst (list_dequeue list))" "list_contents (fst (list_dequeue list)) = xs"
    "snd (list_dequeue list) = x"
proof -
  have "0 < l_count list" using length_list_contents [OF assms(1)] assms(2) by auto
  then show "list_inv (fst (list_dequeue list))" "list_contents (fst (list_dequeue list)) = xs"
    "snd (list_dequeue list) = x"
    using list_remove_at_correct [OF assms(1), of 0] assms(2) by (auto simp: list_dequeue_def)
qed

lemma list_pop_correct:
  assumes "list_inv list" "list_contents list = xs @ [x]"
  shows "list_inv (fst (list_pop list))" "list_contents (fst (list_pop list)) = xs"
    "snd (list_pop list) = x"
proof -
  have cnt: "l_count list = Suc (length xs)" using length_list_contents [OF assms(1)] assms(2) by simp
  then have "nat (int (l_count list) - 1) = length xs" by simp
  then show "list_inv (fst (list_pop list))" "list_contents (fst (list_pop list)) = xs"
    "snd (list_pop list) = x"
    using list_remove_at_correct [OF assms(1), of "int (l_count list) - 1"] assms(2) cnt
    by (auto simp: list_pop_def)
qed

interpretation list_queue: queue list_inv list_contents list_enqueue list_dequeue
  by unfold_locales
    (auto simp: list_enqueue_def list_add_correct intro: list_dequeue_correct)

interpretation list_stack: stack list_inv list_contents list_push list_pop
  by unfold_locales
    (auto simp: list_push_def list_add_correct intro: list_pop_correct)

lemma ELEM_cell:
  assumes "list_inv list" "0 \<le> i" "i < int (l_count list)"
  shows "c_rem (i + int (l_head list)) (int (l_size list)) =
    int ((l_head list + nat i) mod l_size list)"
  using assms list_invD [OF assms(1)] by (simp add: c_rem_nonneg zmod_int add.commute)

interpretation list_array: array_view ELEM ELEM_assign list_inv list_contents
proof unfold_locales
  fix list :: "'a list_t" and i :: int and x
  assume inv: "list_inv list" and get: "arr_get (list_contents list) i = Some x"
  then have i: "0 \<le> i" "i < int (l_count list)" "x = list_contents list ! nat i"
    by (auto simp: arr_get_def length_list_contents split: if_splits)
  have "(l_head list + nat i) mod l_size list < l_size list" using list_invD(1) [OF inv] by simp
  then show "ELEM list i = Some x"
    using i list_contents_nth [OF inv, of "nat i"] list_invD(2) [OF inv]
    by (simp add: ELEM_def ELEM_cell [OF inv i(1,2)] arr_get_def flip: of_nat_mod of_nat_add)
next
  fix list :: "'a list_t" and i :: int and x
  assume inv: "list_inv list" and i: "0 \<le> i" "i < int (length (list_contents list))"
  then have i': "0 \<le> i" "i < int (l_count list)" by (simp_all add: length_list_contents)
  have lt: "(l_head list + nat i) mod l_size list < l_size list" using list_invD(1) [OF inv] by simp
  have "ELEM_assign list i x =
      list\<lparr>l_elem := (l_elem list)[(l_head list + nat i) mod l_size list := x]\<rparr>"
    using lt list_invD(2) [OF inv]
    by (simp add: ELEM_assign_def ELEM_cell [OF inv i'] arr_set_def flip: of_nat_mod of_nat_add)
  then have "ELEM_assign list i x = (list_set list i x)\<lparr>l_error_code := l_error_code list\<rparr>"
    using i' by (simp add: list_set_def add.commute)
  then show "list_inv (ELEM_assign list i x) \<and>
      list_contents (ELEM_assign list i x) = arr_set (list_contents list) i x"
    using list_set_correct [OF inv, of i x] i by (simp add: arr_set_def)
qed

lemma list_sort_correct:
  assumes "list_inv list" "comparator cmp"
  shows "\<exists>list'. list_sort cmp list = Some list' \<and> list_inv list' \<and>
    mset (list_contents list') = mset (list_contents list) \<and>
    sorted_wrt (\<lambda>x y. cmp x y \<le> 0) (list_contents list')"
proof (cases "l_count list = 0")
  case True
  then show ?thesis using assms by (simp add: list_sort_def list_contents_def)
next
  case False
  then have ne: "list_contents list \<noteq> []" using length_list_contents [OF assms(1)] by auto
  obtain ys where ys: "quicksort (\<lambda>lo hi. hi) arr_get arr_set cmp (list_contents list) 0
      (int (length (list_contents list)) - 1) = Some ys"
      "mset ys = mset (list_contents list)" "sorted_wrt (\<lambda>x y. cmp x y \<le> 0) ys"
    using comparator.quicksort_sorts [OF assms(2) ne, of "\<lambda>lo hi. hi"] by auto
  from list_array.quicksort_view [OF ys(1) assms(1)] ys(2,3) show ?thesis
    using False by (auto simp: list_sort_def list_sort_range_def length_list_contents [OF assms(1)])
qed

section \<open>The list as a client sees it\<close>

text \<open>The operations a client calls (\<open>list_push\<close> and \<open>list_enqueue\<close> are \<open>list_add\<close>), with the
  value each returns.\<close>

datatype 'a list_op = L_add "'a ptr" | L_get int | L_set int "'a ptr" | L_insert int "'a ptr"
  | L_remove_at int | L_index_of "'a ptr" | L_remove "'a ptr" | L_clear
  | L_pop | L_top | L_bottom | L_dequeue | L_head | L_tail

datatype 'a list_out = L_void | L_int int | L_ptr "'a ptr"

definition out_void :: "'a list_t \<Rightarrow> 'a list_t \<times> 'a list_out" where
  "out_void l = (l, L_void)"

definition out_ptr :: "'a list_t \<times> 'a ptr \<Rightarrow> 'a list_t \<times> 'a list_out" where
  "out_ptr r = (fst r, L_ptr (snd r))"

fun list_step :: "'a list_t \<Rightarrow> 'a list_op \<Rightarrow> 'a list_t \<times> 'a list_out" where
  "list_step l (L_add e) = out_void (list_add l e)"
| "list_step l (L_get i) = out_ptr (list_get l i)"
| "list_step l (L_set i e) = out_void (list_set l i e)"
| "list_step l (L_insert i e) = out_void (list_insert l i e)"
| "list_step l (L_remove_at i) = out_ptr (list_remove_at l i)"
| "list_step l (L_index_of e) = (fst (list_index_of l e), L_int (snd (list_index_of l e)))"
| "list_step l (L_remove e) = out_ptr (list_remove l e)"
| "list_step l L_clear = out_void (list_clear l)"
| "list_step l L_pop = out_ptr (list_pop l)"
| "list_step l L_top = out_ptr (list_top l)"
| "list_step l L_bottom = out_ptr (list_bottom l)"
| "list_step l L_dequeue = out_ptr (list_dequeue l)"
| "list_step l L_head = out_ptr (list_head l)"
| "list_step l L_tail = out_ptr (list_tail l)"

text \<open>The specification, on the sequence of elements.\<close>

definition at_index :: "'a ptr list \<Rightarrow> int \<Rightarrow> 'a list_out \<times> list_err_t" where
  "at_index xs i =
     (if 0 \<le> i \<and> i < int (length xs) then (L_ptr (xs ! nat i), LIST_ERR_OK)
      else (L_ptr NULL, LIST_ERR_BOUNDS))"

definition drop_index :: "'a ptr list \<Rightarrow> int \<Rightarrow> 'a ptr list \<times> 'a list_out \<times> list_err_t" where
  "drop_index xs i =
     (if 0 \<le> i \<and> i < int (length xs)
      then (take (nat i) xs @ drop (Suc (nat i)) xs, L_ptr (xs ! nat i), LIST_ERR_OK)
      else (xs, L_ptr NULL, LIST_ERR_BOUNDS))"

definition unless_empty :: "'a ptr list \<Rightarrow> 'a ptr list \<times> 'a list_out \<times> list_err_t \<Rightarrow>
    'a ptr list \<times> 'a list_out \<times> list_err_t" where
  "unless_empty xs r = (if xs = [] then (xs, L_ptr NULL, LIST_ERR_EMPTY) else r)"

fun seq_step :: "'a ptr list \<Rightarrow> 'a list_op \<Rightarrow> 'a ptr list \<times> 'a list_out \<times> list_err_t" where
  "seq_step xs (L_add e) = (xs @ [e], L_void, LIST_ERR_OK)"
| "seq_step xs (L_get i) = (xs, at_index xs i)"
| "seq_step xs (L_set i e) =
     (if 0 \<le> i \<and> i < int (length xs) then (xs[nat i := e], L_void, LIST_ERR_OK)
      else (xs, L_void, LIST_ERR_BOUNDS))"
| "seq_step xs (L_insert i e) =
     (if 0 \<le> i \<and> i \<le> int (length xs)
      then (take (nat i) xs @ e # drop (nat i) xs, L_void, LIST_ERR_OK)
      else (xs, L_void, LIST_ERR_BOUNDS))"
| "seq_step xs (L_remove_at i) = drop_index xs i"
| "seq_step xs (L_index_of e) =
     (xs, L_int (if e \<in> set xs then int (first_pos xs e) else -1),
      if e \<in> set xs then LIST_ERR_OK else LIST_ERR_NOT_FOUND)"
| "seq_step xs (L_remove e) =
     (remove1 e xs, L_ptr (if e \<in> set xs then e else NULL),
      if e \<in> set xs then LIST_ERR_OK else LIST_ERR_NOT_FOUND)"
| "seq_step xs L_clear = ([], L_void, LIST_ERR_OK)"
| "seq_step xs L_pop = unless_empty xs (drop_index xs (int (length xs) - 1))"
| "seq_step xs L_top = unless_empty xs (xs, at_index xs (int (length xs) - 1))"
| "seq_step xs L_bottom = unless_empty xs (xs, at_index xs 0)"
| "seq_step xs L_dequeue = unless_empty xs (drop_index xs 0)"
| "seq_step xs L_head = unless_empty xs (xs, at_index xs 0)"
| "seq_step xs L_tail = unless_empty xs (xs, at_index xs (int (length xs) - 1))"

definition list_refines :: "'a list_t \<times> 'a list_out \<Rightarrow> 'a ptr list \<times> 'a list_out \<times> list_err_t \<Rightarrow> bool" where
  "list_refines r s \<longleftrightarrow> list_inv (fst r) \<and> s = (list_contents (fst r), snd r, l_error_code (fst r))"

lemma refines_get:
  assumes "list_inv l"
  shows "list_refines (out_ptr (list_get l i)) (list_contents l, at_index (list_contents l) i)"
  using list_get_correct [OF assms] assms
  by (auto simp: list_refines_def out_ptr_def at_index_def length_list_contents)

lemma refines_remove_at:
  assumes "list_inv l"
  shows "list_refines (out_ptr (list_remove_at l i)) (drop_index (list_contents l) i)"
  using list_remove_at_correct [OF assms, of i] list_remove_at_bounds [of i l] assms
  by (auto simp: list_refines_def out_ptr_def drop_index_def length_list_contents not_le not_less)

lemma refines_empty:
  assumes "list_inv l" "list_refines r s"
  shows "list_refines (if l_count l = 0 then out_ptr (l\<lparr>l_error_code := LIST_ERR_EMPTY\<rparr>, NULL) else r)
    (unless_empty (list_contents l) s)"
  using assms length_list_contents [OF assms(1)]
  by (auto simp: list_refines_def out_ptr_def unless_empty_def)

lemma list_step_correct:
  assumes inv: "list_inv l"
  shows "list_refines (list_step l op) (seq_step (list_contents l) op)"
proof -
  note len = length_list_contents [OF inv]
  note G = refines_get [OF inv] and R = refines_remove_at [OF inv] and E = refines_empty [OF inv]
  show ?thesis
  proof (cases op)
    case (L_add e)
    then show ?thesis using list_add_correct [OF inv] by (simp add: list_refines_def out_void_def)
  next
    case (L_set i e)
    then show ?thesis
      using list_set_correct [OF inv, of i e] len
      by (auto simp: list_refines_def out_void_def list_update_beyond)
  next
    case (L_insert i e)
    then show ?thesis
      using list_insert_correct [OF inv, of i e] len by (auto simp: list_refines_def out_void_def)
  next
    case (L_index_of e)
    then show ?thesis
      using list_index_of_correct [OF inv, of e] inv first_pos_least [of e "list_contents l"] len
      by (auto simp: list_refines_def)
  next
    case (L_remove e)
    then show ?thesis
      using list_remove_correct [OF inv, of e] by (auto simp: list_refines_def out_ptr_def)
  next
    case L_clear
    then show ?thesis
      using list_clear_correct [OF inv] by (simp add: list_refines_def out_void_def list_clear_def)
  next
    case L_pop
    then show ?thesis using E [OF R [of "int (l_count l) - 1"]] by (simp add: list_pop_def len if_distrib [of out_ptr])
  next
    case L_top
    then show ?thesis using E [OF G [of "int (l_count l) - 1"]] by (simp add: list_top_def len if_distrib [of out_ptr])
  next
    case L_bottom
    then show ?thesis using E [OF G [of 0]] by (simp add: list_bottom_def if_distrib [of out_ptr])
  next
    case L_dequeue
    then show ?thesis using E [OF R [of 0]] by (simp add: list_dequeue_def if_distrib [of out_ptr])
  next
    case L_head
    then show ?thesis using E [OF G [of 0]] by (simp add: list_head_def if_distrib [of out_ptr])
  next
    case L_tail
    then show ?thesis using E [OF G [of "int (l_count l) - 1"]] by (simp add: list_tail_def len if_distrib [of out_ptr])
  qed (use G R in simp_all)
qed

primrec list_run :: "'a list_t \<Rightarrow> 'a list_op list \<Rightarrow> 'a list_t \<times> ('a list_out \<times> list_err_t) list" where
  "list_run l [] = (l, [])"
| "list_run l (op # ops) =
     (case list_step l op of
        (l', out) \<Rightarrow> (case list_run l' ops of (l'', outs) \<Rightarrow> (l'', (out, l_error_code l') # outs)))"

primrec seq_run :: "'a ptr list \<Rightarrow> 'a list_op list \<Rightarrow> 'a ptr list \<times> ('a list_out \<times> list_err_t) list" where
  "seq_run xs [] = (xs, [])"
| "seq_run xs (op # ops) =
     (case seq_step xs op of (xs', out) \<Rightarrow> (case seq_run xs' ops of (xs'', outs) \<Rightarrow> (xs'', out # outs)))"

lemma list_run_correct:
  "list_inv l \<Longrightarrow> list_inv (fst (list_run l ops)) \<and>
    seq_run (list_contents l) ops = (list_contents (fst (list_run l ops)), snd (list_run l ops))"
proof (induction ops arbitrary: l)
  case (Cons op ops)
  obtain l' out where s: "list_step l op = (l', out)" by fastforce
  then have r: "list_inv l'" "seq_step (list_contents l) op = (list_contents l', out, l_error_code l')"
    using list_step_correct [OF Cons.prems, of op] by (simp_all add: list_refines_def)
  show ?case using Cons.IH [OF r(1)] s r(2) by (auto split: prod.split)
qed simp

text \<open>The order of strings, for lists of strings.\<close>

interpretation strcmp_order: comparator strcmp
  by unfold_locales (fact strcmp_sign, fact strcmp_trans)

lemma comparator_map: "comparator cmp \<Longrightarrow> comparator (\<lambda>p q. cmp (f p) (f q))"
  unfolding comparator_def by blast

section \<open>Properties\<close>

text \<open>C32: any sequence of calls on a new list, whatever its initial size, returns the values and
  leaves the error codes that the same calls have on a plain sequence; the ring, its growth and
  the two directions of shifting are invisible to the client.\<close>

theorem list_refines_sequence:
  "\<exists>l. list_run (list_create_with_size n) ops = (l, snd (seq_run [] ops)) \<and>
     list_inv l \<and> list_contents l = fst (seq_run [] ops)"
  using list_run_correct [OF list_inv_create, of n ops]
  by (auto simp: list_contents_create prod_eq_iff)

text \<open>the list as a queue is first in, first out, and as a stack last in, first out.\<close>

theorem list_fifo_lifo:
  "snd (drain list_dequeue (length xs) (foldl list_enqueue (list_create_with_size n) xs)) = xs \<and>
   snd (drain list_pop (length xs) (foldl list_push (list_create_with_size n) xs)) = rev xs"
  using list_queue.fifo [OF list_inv_create list_contents_create] list_stack.lifo [OF list_inv_create]
  by blast

text \<open>\<open>list_sort\<close> with a comparison function that is a total preorder returns, and leaves a
  sorted permutation of the elements.\<close>

theorem list_sort_sorts:
  assumes "list_inv list" "comparator cmp"
  shows "\<exists>list'. list_sort cmp list = Some list' \<and> list_inv list' \<and>
    mset (list_contents list') = mset (list_contents list) \<and>
    sorted_wrt (\<lambda>x y. cmp x y \<le> 0) (list_contents list')"
  by (rule list_sort_correct [OF assms])

theorem list_sort_sorts_witness:
  "\<exists>list'. list_sort (\<lambda>p q. strcmp (the p) (the q))
      (list_add (list_add list_create (Some ''b'')) (Some ''a'')) = Some list' \<and> list_inv list' \<and>
    mset (list_contents list') =
      mset (list_contents (list_add (list_add list_create (Some ''b'')) (Some ''a''))) \<and>
    sorted_wrt (\<lambda>x y. strcmp (the x) (the y) \<le> 0) (list_contents list')"
  by (rule list_sort_sorts)
    (simp_all add: list_add_correct list_create_def list_inv_create
      comparator_map [OF strcmp_order.comparator_axioms])

end
