(* ===== verification/Linked_Pointers.thy ===== *)
theory Linked_Pointers
  imports Prelude
begin

text \<open>
  The pointers of a doubly linked structure in terms of the list of its node addresses: the
  address at a position and the address before it, with \<open>NULL\<close> past both ends, and what an
  insertion and a removal do to them. Shared by the linked list of the utilities and by the
  intrusive list of the simulator.
\<close>

definition at :: "nat list \<Rightarrow> nat \<Rightarrow> nat ptr" where
  "at ps i = (if i < length ps then Some (ps ! i) else NULL)"

definition before :: "nat list \<Rightarrow> nat \<Rightarrow> nat ptr" where
  "before ps i = (if i = 0 then NULL else Some (ps ! (i - 1)))"

lemma at_simps [simp]: "i < length ps \<Longrightarrow> at ps i = Some (ps ! i)" "at ps (length ps) = NULL"
  by (simp_all add: at_def)

lemma at_NULL: "i \<le> length ps \<Longrightarrow> at ps i = NULL \<longleftrightarrow> i = length ps"
  by (auto simp: at_def)

lemma at_inj: "distinct ps \<Longrightarrow> i \<le> length ps \<Longrightarrow> j \<le> length ps \<Longrightarrow> at ps i = at ps j \<longleftrightarrow> i = j"
  by (auto simp: at_def nth_eq_iff_index_eq)

lemma before_Suc [simp]: "before ps (Suc i) = Some (ps ! i)"
  by (simp add: before_def)

lemma before_0 [simp]: "before ps 0 = NULL"
  by (simp add: before_def)

lemma at_insert:
  "k \<le> length ps \<Longrightarrow> at (take k ps @ a # drop k ps) i =
    (if i < k then at ps i else if i = k then Some a else at ps (i - 1))"
  by (auto simp: at_def nth_append)

lemma before_insert:
  "k \<le> length ps \<Longrightarrow> i \<le> Suc (length ps) \<Longrightarrow> before (take k ps @ a # drop k ps) i =
    (if i \<le> k then before ps i else if i = Suc k then Some a else before ps (i - 1))"
  by (auto simp: before_def nth_append nth_Cons' not_le numeral_2_eq_2)

lemma at_remove:
  "k < length ps \<Longrightarrow> at (take k ps @ drop (Suc k) ps) i = (if i < k then at ps i else at ps (i + 1))"
  by (auto simp: at_def nth_append)

lemma before_remove:
  "k < length ps \<Longrightarrow> i < length ps \<Longrightarrow> before (take k ps @ drop (Suc k) ps) i =
    (if i \<le> k then before ps i else before ps (i + 1))"
  by (auto simp: before_def nth_append)

lemma set_remove_at:
  assumes "distinct ps" "k < length ps"
  shows "set (take k ps @ drop (Suc k) ps) = set ps - {ps ! k}"
proof -
  have "distinct (take k ps @ ps ! k # drop (Suc k) ps)" "set ps = set (take k ps @ ps ! k # drop (Suc k) ps)"
    using assms by (simp_all add: id_take_nth_drop [symmetric])
  then show ?thesis by auto
qed

lemma distinct_remove_at: "distinct ps \<Longrightarrow> distinct (take k ps @ drop (Suc k) ps)"
  by (simp add: set_take_disj_set_drop_if_distinct)

lemma before_remove_last:
  assumes "k < length ps"
  shows "before (take k ps @ drop (Suc k) ps) (length ps - 1) =
    (if k + 1 = length ps then before ps k else before ps (length ps))"
proof (cases "k + 1 = length ps")
  case True
  then show ?thesis
    by (cases k) (auto simp: before_def nth_append simp flip: True)
next
  case False
  then obtain m where "length ps = Suc (Suc m)" "k \<le> m" using assms by (cases "length ps"; cases "length ps - 1") auto
  then show ?thesis by (simp add: before_def nth_append min_def)
qed

lemma set_insert_at: "set (take k ps @ a # drop k ps) = insert a (set ps)"
proof -
  have "set (take k ps @ drop k ps) = set ps" by (simp only: append_take_drop_id)
  then show ?thesis by (simp only: set_append list.set) blast
qed

end
