(* ===== verification/LinkedList.thy ===== *)
theory LinkedList
  imports ListT Linked_Pointers
begin

text \<open>
  The doubly linked list with a cursor of \<open>src/lib/util/linked-list.c\<close>, and its iterators.

  The nodes live in a memory that maps addresses to nodes; every \<open>->\<close> of the code is a read or
  write of that memory, and a read through \<open>NULL\<close> or of a freed node gives \<open>Segv\<close>. The memory
  holds the nodes of the one list; \<open>xcalloc\<close> returns the address \<open>ll_brk\<close>, which no node has
  had before, and \<open>free\<close> removes the node. The version counter is the code's \<open>int\<close>, 32 bits wide;
  the count and the index of the cursor are natural numbers, so a list is assumed to have fewer than
  \<open>2 ^ 31\<close> nodes, where the \<open>int\<close> of the code would overflow.
  A loop that follows \<open>next\<close> until \<open>NULL\<close> might not end on a cyclic memory: it is a partial
  function with an option result.

  \<open>ll_rep\<close> relates the pointer structure to the list of node addresses and the list of data;
  \<open>ll_abs\<close> to the abstract value, the list of data and the position of the cursor.
\<close>

section \<open>Data\<close>

datatype linked_list_error_t =
  LINKED_LIST_ERR_OK | LINKED_LIST_ERR_BOUNDS | LINKED_LIST_ERR_EMPTY | LINKED_LIST_ERR_NOT_FOUND

record 'a linked_list_elem_t =
  ln_prev :: "nat ptr"
  ln_next :: "nat ptr"
  ln_data :: "'a ptr"

record 'a linked_list_t =
  ll_count :: nat
  ll_error :: linked_list_error_t
  ll_head :: "nat ptr"
  ll_tail :: "nat ptr"
  ll_current :: "nat ptr"
  ll_current_index :: nat
  ll_version :: "32 word"
  ll_mem :: "'a linked_list_elem_t memory"
  ll_brk :: nat

section \<open>The cursor\<close>

definition linked_list_create :: "'a linked_list_t" where
  "linked_list_create =
     \<lparr>ll_count = 0, ll_error = LINKED_LIST_ERR_OK, ll_head = NULL, ll_tail = NULL,
      ll_current = NULL, ll_current_index = 0, ll_version = 0, ll_mem = Map.empty, ll_brk = 0\<rparr>"

definition linked_list_current :: "'a linked_list_t \<Rightarrow> 'a linked_list_t \<times> nat" where
  "linked_list_current l = (l\<lparr>ll_error := LINKED_LIST_ERR_OK\<rparr>, ll_current_index l)"

definition linked_list_get :: "'a linked_list_t \<Rightarrow> ('a linked_list_t \<times> 'a ptr) run" where
  "linked_list_get l =
     (if ll_current_index l = ll_count l then Inr (l\<lparr>ll_error := LINKED_LIST_ERR_BOUNDS\<rparr>, NULL)
      else andthen (node_at (ll_mem l) (ll_current l)) (\<lambda>n.
           Inr (l\<lparr>ll_error := LINKED_LIST_ERR_OK\<rparr>, ln_data n)))"

definition linked_list_next :: "'a linked_list_t \<Rightarrow> 'a linked_list_t run" where
  "linked_list_next l =
     (if ll_current_index l = ll_count l then Inr (l\<lparr>ll_error := LINKED_LIST_ERR_BOUNDS\<rparr>)
      else andthen (node_at (ll_mem l) (ll_current l)) (\<lambda>n.
           Inr (l\<lparr>ll_error := LINKED_LIST_ERR_OK, ll_current_index := ll_current_index l + 1,
                  ll_current := ln_next n\<rparr>)))"

text \<open>\<open>list->current ? list->current->prev : list->tail\<close>\<close>

definition before_current :: "'a linked_list_t \<Rightarrow> nat ptr run" where
  "before_current l =
     (if ll_current l = NULL then Inr (ll_tail l)
      else andthen (node_at (ll_mem l) (ll_current l)) (\<lambda>n. Inr (ln_prev n)))"

definition linked_list_prev :: "'a linked_list_t \<Rightarrow> 'a linked_list_t run" where
  "linked_list_prev l =
     (if ll_current_index l = 0 then Inr (l\<lparr>ll_error := LINKED_LIST_ERR_BOUNDS\<rparr>)
      else andthen (before_current l) (\<lambda>p.
           Inr (l\<lparr>ll_error := LINKED_LIST_ERR_OK, ll_current_index := ll_current_index l - 1,
                  ll_current := p\<rparr>)))"

definition linked_list_next_circular :: "'a linked_list_t \<Rightarrow> 'a linked_list_t run" where
  "linked_list_next_circular l =
     (if ll_count l = 0 then Inr (l\<lparr>ll_error := LINKED_LIST_ERR_EMPTY\<rparr>)
      else if ll_count l - 1 \<le> ll_current_index l
      then Inr (l\<lparr>ll_current_index := 0, ll_current := ll_head l, ll_error := LINKED_LIST_ERR_OK\<rparr>)
      else andthen (node_at (ll_mem l) (ll_current l)) (\<lambda>n.
           Inr (l\<lparr>ll_current_index := ll_current_index l + 1, ll_current := ln_next n,
                  ll_error := LINKED_LIST_ERR_OK\<rparr>)))"

definition linked_list_prev_circular :: "'a linked_list_t \<Rightarrow> 'a linked_list_t run" where
  "linked_list_prev_circular l =
     (if ll_count l = 0 then Inr (l\<lparr>ll_error := LINKED_LIST_ERR_EMPTY\<rparr>)
      else if ll_current_index l = 0
      then Inr (l\<lparr>ll_current_index := ll_count l - 1, ll_current := ll_tail l,
                  ll_error := LINKED_LIST_ERR_OK\<rparr>)
      else andthen (before_current l) (\<lambda>p.
           Inr (l\<lparr>ll_current_index := ll_current_index l - 1, ll_current := p,
                  ll_error := LINKED_LIST_ERR_OK\<rparr>)))"

definition linked_list_head :: "'a linked_list_t \<Rightarrow> 'a linked_list_t" where
  "linked_list_head l =
     (if ll_count l = 0 then l\<lparr>ll_error := LINKED_LIST_ERR_EMPTY\<rparr>
      else l\<lparr>ll_error := LINKED_LIST_ERR_OK, ll_current_index := 0, ll_current := ll_head l\<rparr>)"

definition linked_list_tail :: "'a linked_list_t \<Rightarrow> 'a linked_list_t" where
  "linked_list_tail l =
     (if ll_count l = 0 then l\<lparr>ll_error := LINKED_LIST_ERR_EMPTY\<rparr>
      else l\<lparr>ll_current_index := ll_count l - 1, ll_current := ll_tail l,
             ll_error := LINKED_LIST_ERR_OK\<rparr>)"

definition linked_list_out :: "'a linked_list_t \<Rightarrow> 'a linked_list_t" where
  "linked_list_out l =
     l\<lparr>ll_error := LINKED_LIST_ERR_OK, ll_current_index := ll_count l, ll_current := NULL\<rparr>"

text \<open>The two loops of \<open>linked_list_goto\<close>.\<close>

function goto_up :: "'a linked_list_t \<Rightarrow> nat \<Rightarrow> 'a linked_list_t run" where
  "goto_up l index =
     (if ll_current_index l < index
      then andthen (node_at (ll_mem l) (ll_current l)) (\<lambda>n.
           goto_up (l\<lparr>ll_current_index := ll_current_index l + 1, ll_current := ln_next n\<rparr>) index)
      else Inr l)"
  by pat_completeness auto
termination
  by (relation "measure (\<lambda>(l, index). index - ll_current_index l)") auto

function goto_down :: "'a linked_list_t \<Rightarrow> nat \<Rightarrow> 'a linked_list_t run" where
  "goto_down l index =
     (if index < ll_current_index l
      then andthen (before_current (l\<lparr>ll_current_index := ll_current_index l - 1\<rparr>)) (\<lambda>p.
           goto_down (l\<lparr>ll_current_index := ll_current_index l - 1, ll_current := p\<rparr>) index)
      else Inr l)"
  by pat_completeness auto
termination
  by (relation "measure (\<lambda>(l, index). ll_current_index l - index)") auto

declare goto_up.simps [simp del] goto_down.simps [simp del]

definition linked_list_goto :: "'a linked_list_t \<Rightarrow> int \<Rightarrow> ('a linked_list_t \<times> 'a ptr) run" where
  "linked_list_goto l index =
     (if index < 0 \<or> int (ll_count l) < index then Inr (l\<lparr>ll_error := LINKED_LIST_ERR_BOUNDS\<rparr>, NULL)
      else
        andthen (goto_up (l\<lparr>ll_error := LINKED_LIST_ERR_OK\<rparr>) (nat index)) (\<lambda>l1.
        andthen (goto_down l1 (nat index)) (\<lambda>l2.
          if ll_current l2 = NULL then Inr (l2, NULL)
          else andthen (node_at (ll_mem l2) (ll_current l2)) (\<lambda>n. Inr (l2, ln_data n)))))"

partial_function (option) find_loop :: "'a linked_list_t \<Rightarrow> 'a ptr \<Rightarrow> 'a linked_list_t run option" where
  "find_loop l d =
     (case ll_current l of
        None \<Rightarrow> Some (Inr l)
      | Some a \<Rightarrow>
          (case ll_mem l a of
             None \<Rightarrow> Some (Inl Segv)
           | Some n \<Rightarrow>
               if ln_data n = d then Some (Inr l)
               else find_loop (l\<lparr>ll_current_index := ll_current_index l + 1, ll_current := ln_next n\<rparr>) d))"

definition linked_list_find :: "'a linked_list_t \<Rightarrow> 'a ptr \<Rightarrow> ('a linked_list_t \<times> 'a ptr) run option" where
  "linked_list_find l d =
     map_option (\<lambda>r. andthen r (\<lambda>l'.
         if ll_current l' = NULL then Inr (l'\<lparr>ll_error := LINKED_LIST_ERR_NOT_FOUND\<rparr>, NULL)
         else Inr (l', d)))
       (find_loop (l\<lparr>ll_error := LINKED_LIST_ERR_OK, ll_current_index := 0, ll_current := ll_head l\<rparr>) d)"

definition linked_list_count :: "'a linked_list_t \<Rightarrow> 'a linked_list_t \<times> nat" where
  "linked_list_count l = (l\<lparr>ll_error := LINKED_LIST_ERR_OK\<rparr>, ll_count l)"

definition linked_list_is_end :: "'a linked_list_t \<Rightarrow> 'a linked_list_t \<times> bool" where
  "linked_list_is_end l = (l\<lparr>ll_error := LINKED_LIST_ERR_OK\<rparr>, ll_current_index l = ll_count l)"

section \<open>Insertion and removal\<close>

text \<open>The linking of the new element \<open>a\<close>: the new memory, head and tail.\<close>

definition insert_links :: "'a linked_list_t \<Rightarrow> nat \<Rightarrow> 'a linked_list_elem_t memory \<Rightarrow>
    ('a linked_list_elem_t memory \<times> nat ptr \<times> nat ptr) run" where
  "insert_links l a mem =
     (let elem = Some a
      in if ll_count l = 0 then Inr (mem, elem, elem)
         else if ll_current l = ll_head l
         then andthen (node_put mem elem (\<lambda>n. n\<lparr>ln_next := ll_head l\<rparr>)) (\<lambda>mem.
              andthen (node_put mem (ll_head l) (\<lambda>n. n\<lparr>ln_prev := elem\<rparr>)) (\<lambda>mem.
              Inr (mem, elem, ll_tail l)))
         else if ll_current l = NULL
         then andthen (node_put mem elem (\<lambda>n. n\<lparr>ln_prev := ll_tail l\<rparr>)) (\<lambda>mem.
              andthen (node_put mem (ll_tail l) (\<lambda>n. n\<lparr>ln_next := elem\<rparr>)) (\<lambda>mem.
              Inr (mem, ll_head l, elem)))
         else
           andthen (node_at mem (ll_current l)) (\<lambda>c.
           andthen (node_put mem elem (\<lambda>n. n\<lparr>ln_prev := ln_prev c\<rparr>)) (\<lambda>mem.
           andthen (node_put mem elem (\<lambda>n. n\<lparr>ln_next := ll_current l\<rparr>)) (\<lambda>mem.
           andthen (node_put mem (ll_current l) (\<lambda>n. n\<lparr>ln_prev := elem\<rparr>)) (\<lambda>mem.
           andthen (node_at mem elem) (\<lambda>e.
           andthen (node_put mem (ln_prev e) (\<lambda>n. n\<lparr>ln_next := elem\<rparr>)) (\<lambda>mem.
           Inr (mem, ll_head l, ll_tail l))))))))"

definition linked_list_insert :: "'a linked_list_t \<Rightarrow> 'a ptr \<Rightarrow> 'a linked_list_t run" where
  "linked_list_insert l d =
     (let a = ll_brk l
      in andthen (insert_links l a ((ll_mem l)(a \<mapsto> \<lparr>ln_prev = NULL, ln_next = NULL, ln_data = d\<rparr>)))
           (\<lambda>(mem, head, tail).
         Inr (l\<lparr>ll_mem := mem, ll_brk := a + 1, ll_head := head, ll_tail := tail,
                ll_error := LINKED_LIST_ERR_OK, ll_count := ll_count l + 1,
                ll_current := Some a, ll_version := ll_version l + 1\<rparr>)))"

definition linked_list_add :: "'a linked_list_t \<Rightarrow> 'a ptr \<Rightarrow> 'a linked_list_t run" where
  "linked_list_add l d =
     andthen (linked_list_insert (linked_list_out l) d) (\<lambda>l'. Inr (linked_list_out l'))"

text \<open>The unlinking of the current element.\<close>

definition remove_links :: "'a linked_list_t \<Rightarrow> ('a linked_list_elem_t memory \<times> nat ptr \<times> nat ptr) run" where
  "remove_links l =
     (let elem = ll_current l; mem = ll_mem l
      in andthen (node_at mem elem) (\<lambda>e.
         if ll_count l = 1 then Inr (mem, NULL, NULL)
         else if elem = ll_head l
         then andthen (node_put mem (ln_next e) (\<lambda>n. n\<lparr>ln_prev := NULL\<rparr>)) (\<lambda>mem.
              Inr (mem, ln_next e, ll_tail l))
         else if elem = ll_tail l
         then andthen (node_put mem (ln_prev e) (\<lambda>n. n\<lparr>ln_next := NULL\<rparr>)) (\<lambda>mem.
              Inr (mem, ll_head l, ln_prev e))
         else
           andthen (node_put mem (ln_prev e) (\<lambda>n. n\<lparr>ln_next := ln_next e\<rparr>)) (\<lambda>mem.
           andthen (node_put mem (ln_next e) (\<lambda>n. n\<lparr>ln_prev := ln_prev e\<rparr>)) (\<lambda>mem.
           Inr (mem, ll_head l, ll_tail l)))))"

definition linked_list_remove :: "'a linked_list_t \<Rightarrow> ('a linked_list_t \<times> 'a ptr) run" where
  "linked_list_remove l =
     (if ll_current_index l = ll_count l then Inr (l\<lparr>ll_error := LINKED_LIST_ERR_BOUNDS\<rparr>, NULL)
      else
        andthen (node_at (ll_mem l) (ll_current l)) (\<lambda>n.
        andthen (remove_links l) (\<lambda>(mem, head, tail).
        if ll_count l = 0 then Inl Assert
        else andthen (node_at mem (ll_current l)) (\<lambda>e.
          Inr (l\<lparr>ll_mem := mem(the (ll_current l) := None), ll_head := head, ll_tail := tail,
                 ll_error := LINKED_LIST_ERR_OK, ll_count := ll_count l - 1,
                 ll_current := ln_next e, ll_version := ll_version l + 1\<rparr>, ln_data n)))))"

partial_function (option) clear_loop ::
  "'a linked_list_elem_t memory \<Rightarrow> nat ptr \<Rightarrow> 'a linked_list_elem_t memory run option" where
  "clear_loop mem p =
     (case p of
        None \<Rightarrow> Some (Inr mem)
      | Some a \<Rightarrow>
          (case mem a of None \<Rightarrow> Some (Inl Segv) | Some n \<Rightarrow> clear_loop (mem(a := None)) (ln_next n)))"

definition linked_list_clear :: "'a linked_list_t \<Rightarrow> 'a linked_list_t run option" where
  "linked_list_clear l =
     map_option (\<lambda>r. andthen r (\<lambda>mem.
         Inr (l\<lparr>ll_mem := mem, ll_error := LINKED_LIST_ERR_OK, ll_current_index := 0, ll_count := 0,
                ll_tail := NULL, ll_head := NULL, ll_current := NULL,
                ll_version := ll_version l + 1\<rparr>)))
       (clear_loop (ll_mem l) (ll_head l))"

section \<open>Sorting\<close>

text \<open>\<open>n\<close> iterations of the loop that collects the nodes into \<open>array\<close>.\<close>

primrec collect :: "'a linked_list_elem_t memory \<Rightarrow> nat \<Rightarrow> nat ptr \<Rightarrow> nat ptr list run" where
  "collect mem 0 p = Inr []"
| "collect mem (Suc n) p =
     andthen (node_at mem p) (\<lambda>e. andthen (collect mem n (ln_next e)) (\<lambda>ps. Inr (p # ps)))"

text \<open>The data the comparisons of \<open>sort\<close> look at.\<close>

definition elem_data :: "'a linked_list_elem_t memory \<Rightarrow> nat ptr \<Rightarrow> 'a ptr" where
  "elem_data mem p = (case node_at mem p of Inl _ \<Rightarrow> NULL | Inr n \<Rightarrow> ln_data n)"

definition linked_sort :: "('a ptr \<Rightarrow> 'a ptr \<Rightarrow> int) \<Rightarrow> 'a linked_list_elem_t memory \<Rightarrow>
    nat ptr list \<Rightarrow> int \<Rightarrow> int \<Rightarrow> nat ptr list option" where
  "linked_sort cmp mem array lo hi =
     quicksort (\<lambda>lo hi. c_div (lo + hi) 2) arr_get arr_set
       (\<lambda>p q. cmp (elem_data mem p) (elem_data mem q)) array lo hi"

text \<open>The loop that links the nodes in the order of the array, from index \<open>i\<close> on.\<close>

function relink :: "nat ptr list \<Rightarrow> nat \<Rightarrow> nat \<Rightarrow> 'a linked_list_elem_t memory \<Rightarrow>
    'a linked_list_elem_t memory run" where
  "relink array cnt i mem =
     (if i < cnt
      then andthen (node_put mem (array ! i) (\<lambda>n. n\<lparr>ln_prev := if 0 < i then array ! (i - 1) else NULL\<rparr>)) (\<lambda>mem.
           andthen (node_put mem (array ! i) (\<lambda>n. n\<lparr>ln_next := if i < cnt - 1 then array ! (i + 1) else NULL\<rparr>)) (\<lambda>mem.
           relink array cnt (i + 1) mem))
      else Inr mem)"
  by pat_completeness auto
termination
  by (relation "measure (\<lambda>(array, cnt, i, mem). cnt - i)") auto

declare relink.simps [simp del]

definition linked_list_sort ::
  "('a ptr \<Rightarrow> 'a ptr \<Rightarrow> int) \<Rightarrow> 'a linked_list_t \<Rightarrow> 'a linked_list_t run option" where
  "linked_list_sort cmp l =
     (if ll_count l = 0 then Some (Inr (l\<lparr>ll_error := LINKED_LIST_ERR_OK\<rparr>))
      else
        (case collect (ll_mem l) (ll_count l) (ll_head l) of
           Inl e \<Rightarrow> Some (Inl e)
         | Inr array0 \<Rightarrow>
             map_option (\<lambda>array.
                 andthen (relink array (ll_count l) 0 (ll_mem l)) (\<lambda>mem.
                 Inr (l\<lparr>ll_error := LINKED_LIST_ERR_OK, ll_mem := mem, ll_head := array ! 0,
                        ll_tail := array ! (ll_count l - 1), ll_current_index := 0,
                        ll_current := array ! 0, ll_version := ll_version l + 1\<rparr>)))
               (linked_sort cmp (ll_mem l) array0 0 (int (ll_count l) - 1))))"

partial_function (option) sorted_loop ::
  "('a ptr \<Rightarrow> 'a ptr \<Rightarrow> int) \<Rightarrow> 'a linked_list_elem_t memory \<Rightarrow> 'a linked_list_elem_t \<Rightarrow> nat ptr \<Rightarrow>
   bool run option" where
  "sorted_loop cmp mem prev p =
     (case p of
        None \<Rightarrow> Some (Inr True)
      | Some a \<Rightarrow>
          (case mem a of
             None \<Rightarrow> Some (Inl Segv)
           | Some e \<Rightarrow>
               if cmp (ln_data prev) (ln_data e) > 0 then Some (Inr False)
               else sorted_loop cmp mem e (ln_next e)))"

definition linked_list_sorted ::
  "('a ptr \<Rightarrow> 'a ptr \<Rightarrow> int) \<Rightarrow> 'a linked_list_t \<Rightarrow> ('a linked_list_t \<times> bool) run option" where
  "linked_list_sorted cmp l0 =
     (let l = l0\<lparr>ll_error := LINKED_LIST_ERR_OK\<rparr>
      in if ll_head l = NULL then Some (Inr (l, True))
         else case node_at (ll_mem l) (ll_head l) of
                Inl e \<Rightarrow> Some (Inl e)
              | Inr prev \<Rightarrow>
                  map_option (\<lambda>r. andthen r (\<lambda>b. Inr (l, b)))
                    (sorted_loop cmp (ll_mem l) prev (ln_next prev)))"

section \<open>Iterators\<close>

text \<open>\<open>struct linked_list_iter_t\<close> without the pointer to its list, which is an argument of the
  functions here.\<close>

record linked_list_iter_t =
  it_version :: "32 word"
  it_elem :: "nat ptr"

definition linked_list_iter_check_version :: "'a linked_list_t \<Rightarrow> linked_list_iter_t \<Rightarrow> unit run" where
  "linked_list_iter_check_version l it = (if it_version it = ll_version l then Inr () else Inl Panic)"

definition linked_list_iter_create :: "'a linked_list_t \<Rightarrow> linked_list_iter_t" where
  "linked_list_iter_create l = \<lparr>it_version = ll_version l, it_elem = ll_head l\<rparr>"

definition linked_list_iter_head :: "'a linked_list_t \<Rightarrow> linked_list_iter_t \<Rightarrow> linked_list_iter_t run" where
  "linked_list_iter_head l it =
     andthen (linked_list_iter_check_version l it) (\<lambda>_. Inr (it\<lparr>it_elem := ll_head l\<rparr>))"

definition linked_list_iter_next :: "'a linked_list_t \<Rightarrow> linked_list_iter_t \<Rightarrow> linked_list_iter_t run" where
  "linked_list_iter_next l it =
     andthen (linked_list_iter_check_version l it) (\<lambda>_.
       if it_elem it = NULL then Inr it
       else andthen (node_at (ll_mem l) (it_elem it)) (\<lambda>n. Inr (it\<lparr>it_elem := ln_next n\<rparr>)))"

definition linked_list_iter_is_end :: "'a linked_list_t \<Rightarrow> linked_list_iter_t \<Rightarrow> bool run" where
  "linked_list_iter_is_end l it =
     andthen (linked_list_iter_check_version l it) (\<lambda>_. Inr (it_elem it = NULL))"

definition linked_list_iter_get :: "'a linked_list_t \<Rightarrow> linked_list_iter_t \<Rightarrow> 'a ptr run" where
  "linked_list_iter_get l it =
     andthen (linked_list_iter_check_version l it) (\<lambda>_.
       if it_elem it = NULL then Inr NULL
       else andthen (node_at (ll_mem l) (it_elem it)) (\<lambda>n. Inr (ln_data n)))"

partial_function (option) iter_find_loop ::
  "'a linked_list_elem_t memory \<Rightarrow> linked_list_iter_t \<Rightarrow> 'a ptr \<Rightarrow> (linked_list_iter_t \<times> bool) run option" where
  "iter_find_loop mem it d =
     (case it_elem it of
        None \<Rightarrow> Some (Inr (it, False))
      | Some a \<Rightarrow>
          (case mem a of
             None \<Rightarrow> Some (Inl Segv)
           | Some n \<Rightarrow>
               if ln_data n = d then Some (Inr (it, True))
               else iter_find_loop mem (it\<lparr>it_elem := ln_next n\<rparr>) d))"

definition linked_list_iter_find ::
  "'a linked_list_t \<Rightarrow> linked_list_iter_t \<Rightarrow> 'a ptr \<Rightarrow> (linked_list_iter_t \<times> bool) run option" where
  "linked_list_iter_find l it d =
     (case linked_list_iter_check_version l it of
        Inl e \<Rightarrow> Some (Inl e)
      | Inr _ \<Rightarrow> iter_find_loop (ll_mem l) (it\<lparr>it_elem := ll_head l\<rparr>) d)"

section \<open>Representation\<close>

text \<open>The node of the \<open>i\<close>-th element of a list of addresses and data.\<close>

definition node :: "nat list \<Rightarrow> 'a ptr list \<Rightarrow> nat \<Rightarrow> 'a linked_list_elem_t" where
  "node ps xs i = \<lparr>ln_prev = before ps i, ln_next = at ps (i + 1), ln_data = xs ! i\<rparr>"

definition dll :: "'a linked_list_elem_t memory \<Rightarrow> nat list \<Rightarrow> 'a ptr list \<Rightarrow> bool" where
  "dll mem ps xs \<longleftrightarrow>
     distinct ps \<and> length xs = length ps \<and> dom mem = set ps \<and>
     (\<forall>i < length ps. mem (ps ! i) = Some (node ps xs i))"

definition ll_rep :: "'a linked_list_t \<Rightarrow> nat list \<Rightarrow> 'a ptr list \<Rightarrow> bool" where
  "ll_rep l ps xs \<longleftrightarrow>
     dll (ll_mem l) ps xs \<and> (\<forall>p \<in> set ps. p < ll_brk l) \<and> ll_count l = length ps \<and>
     ll_head l = at ps 0 \<and> ll_tail l = before ps (length ps) \<and>
     ll_current_index l \<le> length ps \<and> ll_current l = at ps (ll_current_index l)"

type_synonym 'a cursor = "'a ptr list \<times> nat"

definition ll_abs :: "'a linked_list_t \<Rightarrow> 'a cursor \<Rightarrow> bool" where
  "ll_abs l c \<longleftrightarrow> (\<exists>ps. ll_rep l ps (fst c)) \<and> ll_current_index l = snd c"

lemma ll_repD:
  assumes "ll_rep l ps xs"
  shows "distinct ps" "length xs = length ps" "dom (ll_mem l) = set ps"
    "\<And>i. i < length ps \<Longrightarrow> ll_mem l (ps ! i) = Some (node ps xs i)"
    "\<And>p. p \<in> set ps \<Longrightarrow> p < ll_brk l" "ll_count l = length ps" "ll_head l = at ps 0"
    "ll_tail l = before ps (length ps)" "ll_current_index l \<le> length ps"
    "ll_current l = at ps (ll_current_index l)"
  using assms by (auto simp: ll_rep_def dll_def)

lemma node_simps [simp]:
  "ln_prev (node ps xs i) = before ps i" "ln_next (node ps xs i) = at ps (Suc i)"
  "ln_data (node ps xs i) = xs ! i"
  by (simp_all add: node_def)

text \<open>Moving the cursor, and the error code, leaves the structure alone.\<close>

lemma ll_rep_cursor:
  "ll_rep l ps xs \<Longrightarrow> i \<le> length ps \<Longrightarrow>
   ll_rep (l\<lparr>ll_current_index := i, ll_current := at ps i\<rparr>) ps xs"
  by (simp add: ll_rep_def)

lemma ll_rep_error [simp]: "ll_rep (l\<lparr>ll_error := e\<rparr>) ps xs = ll_rep l ps xs"
  by (simp add: ll_rep_def)

lemma ll_rep_node:
  "ll_rep l ps xs \<Longrightarrow> ll_current_index l < length ps \<Longrightarrow>
   node_at (ll_mem l) (ll_current l) = Inr (node ps xs (ll_current_index l))"
  using ll_repD [of l ps xs] by simp

lemma before_current_rep:
  assumes "ll_rep l ps xs" "0 < ll_current_index l"
  shows "before_current l = Inr (at ps (ll_current_index l - 1))"
proof -
  note D = ll_repD [OF assms(1)]
  obtain i where i: "ll_current_index l = Suc i" using assms(2) by (cases "ll_current_index l") auto
  show ?thesis
  proof (cases "ll_current_index l = length ps")
    case True
    then show ?thesis using D(8,10) i by (auto simp: before_current_def before_def at_def)
  next
    case False
    then show ?thesis using D(4,9,10) i by (simp add: before_current_def)
  qed
qed

lemma linked_list_create_rep: "ll_rep linked_list_create [] []"
  by (simp add: ll_rep_def dll_def linked_list_create_def at_def)

section \<open>Moving the cursor\<close>

lemma linked_list_get_rep:
  assumes "ll_rep l ps xs"
  shows "linked_list_get l =
    (if ll_current_index l = length xs then Inr (l\<lparr>ll_error := LINKED_LIST_ERR_BOUNDS\<rparr>, NULL)
     else Inr (l\<lparr>ll_error := LINKED_LIST_ERR_OK\<rparr>, xs ! ll_current_index l))"
  using ll_repD(2,6,9) [OF assms] ll_rep_node [OF assms] by (auto simp: linked_list_get_def)

lemma linked_list_next_rep:
  assumes "ll_rep l ps xs"
  shows "linked_list_next l =
    (if ll_current_index l = length xs then Inr (l\<lparr>ll_error := LINKED_LIST_ERR_BOUNDS\<rparr>)
     else Inr (l\<lparr>ll_error := LINKED_LIST_ERR_OK, ll_current_index := ll_current_index l + 1,
                 ll_current := at ps (ll_current_index l + 1)\<rparr>))"
  using ll_repD(2,6,9) [OF assms] ll_rep_node [OF assms] by (auto simp: linked_list_next_def)

lemma linked_list_prev_rep:
  assumes "ll_rep l ps xs"
  shows "linked_list_prev l =
    (if ll_current_index l = 0 then Inr (l\<lparr>ll_error := LINKED_LIST_ERR_BOUNDS\<rparr>)
     else Inr (l\<lparr>ll_error := LINKED_LIST_ERR_OK, ll_current_index := ll_current_index l - 1,
                 ll_current := at ps (ll_current_index l - 1)\<rparr>))"
  using before_current_rep [OF assms] by (auto simp: linked_list_prev_def)

lemma linked_list_next_circular_rep:
  assumes "ll_rep l ps xs"
  shows "linked_list_next_circular l =
    (if xs = [] then Inr (l\<lparr>ll_error := LINKED_LIST_ERR_EMPTY\<rparr>)
     else let i = (if length xs \<le> ll_current_index l + 1 then 0 else ll_current_index l + 1)
          in Inr (l\<lparr>ll_current_index := i, ll_current := at ps i, ll_error := LINKED_LIST_ERR_OK\<rparr>))"
  using ll_repD(2,6,7,9) [OF assms] ll_rep_node [OF assms]
  by (auto simp: linked_list_next_circular_def Let_def)

lemma linked_list_prev_circular_rep:
  assumes "ll_rep l ps xs"
  shows "linked_list_prev_circular l =
    (if xs = [] then Inr (l\<lparr>ll_error := LINKED_LIST_ERR_EMPTY\<rparr>)
     else let i = (if ll_current_index l = 0 then length xs - 1 else ll_current_index l - 1)
          in Inr (l\<lparr>ll_current_index := i, ll_current := at ps i, ll_error := LINKED_LIST_ERR_OK\<rparr>))"
  using ll_repD(2,6,8,9) [OF assms] before_current_rep [OF assms]
  by (auto simp: linked_list_prev_circular_def Let_def before_def)

lemma linked_list_head_rep:
  assumes "ll_rep l ps xs"
  shows "linked_list_head l =
    (if xs = [] then l\<lparr>ll_error := LINKED_LIST_ERR_EMPTY\<rparr>
     else l\<lparr>ll_error := LINKED_LIST_ERR_OK, ll_current_index := 0, ll_current := at ps 0\<rparr>)"
  using ll_repD(2,6,7) [OF assms] by (auto simp: linked_list_head_def)

lemma linked_list_tail_rep:
  assumes "ll_rep l ps xs"
  shows "linked_list_tail l =
    (if xs = [] then l\<lparr>ll_error := LINKED_LIST_ERR_EMPTY\<rparr>
     else l\<lparr>ll_current_index := length xs - 1, ll_current := at ps (length xs - 1),
            ll_error := LINKED_LIST_ERR_OK\<rparr>)"
  using ll_repD(2,6,8) [OF assms] by (auto simp: linked_list_tail_def before_def)

lemma linked_list_out_rep:
  assumes "ll_rep l ps xs"
  shows "linked_list_out l = l\<lparr>ll_error := LINKED_LIST_ERR_OK, ll_current_index := length xs,
    ll_current := at ps (length xs)\<rparr>"
  using ll_repD(2,6) [OF assms] by (simp add: linked_list_out_def)

lemma goto_up_rep:
  assumes "ll_rep l ps xs" "index \<le> length ps"
  shows "goto_up l index = Inr (if ll_current_index l < index
    then l\<lparr>ll_current_index := index, ll_current := at ps index\<rparr> else l)"
  using assms
proof (induction "index - ll_current_index l" arbitrary: l)
  case 0
  then show ?case by (subst goto_up.simps) simp
next
  case (Suc n)
  let ?i = "ll_current_index l" and ?l = "l\<lparr>ll_current_index := ll_current_index l + 1,
      ll_current := at ps (ll_current_index l + 1)\<rparr>"
  have lt: "?i < index" using Suc.hyps(2) by simp
  have "goto_up l index = goto_up ?l index"
    using lt ll_rep_node [OF Suc.prems(1)] Suc.prems(2) by (subst goto_up.simps) simp
  also have "\<dots> = Inr (if ?i + 1 < index
      then ?l\<lparr>ll_current_index := index, ll_current := at ps index\<rparr> else ?l)"
    using Suc.hyps(1) [of ?l] Suc.hyps(2) lt ll_rep_cursor [OF Suc.prems(1)] Suc.prems(2) by simp
  finally show ?case using lt by (cases "?i + 1 = index") auto
qed

lemma goto_down_rep:
  assumes "ll_rep l ps xs"
  shows "goto_down l index = Inr (if index < ll_current_index l
    then l\<lparr>ll_current_index := index, ll_current := at ps index\<rparr> else l)"
  using assms
proof (induction "ll_current_index l - index" arbitrary: l)
  case 0
  then show ?case by (subst goto_down.simps) simp
next
  case (Suc n)
  let ?i = "ll_current_index l" and ?l = "l\<lparr>ll_current_index := ll_current_index l - 1,
      ll_current := at ps (ll_current_index l - 1)\<rparr>"
  have lt: "index < ?i" using Suc.hyps(2) by simp
  have b: "before_current (l\<lparr>ll_current_index := ?i - 1\<rparr>) = before_current l"
    by (simp add: before_current_def)
  have "before_current (l\<lparr>ll_current_index := ?i - 1\<rparr>) = Inr (at ps (?i - 1))"
    unfolding b using before_current_rep [OF Suc.prems(1)] lt by simp
  then have "goto_down l index = goto_down ?l index"
    using lt by (subst goto_down.simps) simp
  also have "\<dots> = Inr (if index < ?i - 1
      then ?l\<lparr>ll_current_index := index, ll_current := at ps index\<rparr> else ?l)"
    using Suc.hyps(1) [of ?l] Suc.hyps(2) ll_rep_cursor [OF Suc.prems, of "?i - 1"]
      ll_repD(9) [OF Suc.prems] by simp
  finally show ?case using lt by (cases "?i - 1 = index") auto
qed

lemma linked_list_goto_rep:
  assumes "ll_rep l ps xs"
  shows "linked_list_goto l index =
    (if index < 0 \<or> int (length xs) < index then Inr (l\<lparr>ll_error := LINKED_LIST_ERR_BOUNDS\<rparr>, NULL)
     else Inr (l\<lparr>ll_error := LINKED_LIST_ERR_OK, ll_current_index := nat index,
                 ll_current := at ps (nat index)\<rparr>,
               if nat index = length xs then NULL else xs ! nat index))"
proof (cases "index < 0 \<or> int (length xs) < index")
  case True
  then show ?thesis using ll_repD(2,6) [OF assms] by (auto simp: linked_list_goto_def)
next
  case False
  let ?k = "nat index" and ?l0 = "l\<lparr>ll_error := LINKED_LIST_ERR_OK\<rparr>"
  define l2 where "l2 = ?l0\<lparr>ll_current_index := ?k, ll_current := at ps ?k\<rparr>"
  have k: "?k \<le> length ps" using False ll_repD(2) [OF assms] by linarith
  have r0: "ll_rep ?l0 ps xs" using assms by simp
  have same: "ll_current_index l = ?k \<Longrightarrow> ?l0 = l2" using ll_repD(10) [OF assms] by (simp add: l2_def)
  have "goto_up ?l0 ?k = Inr (if ll_current_index l < ?k then l2 else ?l0)"
    using goto_up_rep [OF r0 k] by (simp add: l2_def)
  moreover have "goto_down l2 ?k = Inr l2" by (subst goto_down.simps) (simp add: l2_def)
  moreover have "goto_down ?l0 ?k = Inr (if ?k < ll_current_index l then l2 else ?l0)"
    using goto_down_rep [OF r0, of ?k] by (simp add: l2_def)
  ultimately have walk: "andthen (goto_up ?l0 ?k) (\<lambda>l1. goto_down l1 ?k) = Inr l2"
    using same by (auto simp: not_less)
  have "linked_list_goto l index = andthen (andthen (goto_up ?l0 ?k) (\<lambda>l1. goto_down l1 ?k)) (\<lambda>l2.
      if ll_current l2 = NULL then Inr (l2, NULL)
      else andthen (node_at (ll_mem l2) (ll_current l2)) (\<lambda>n. Inr (l2, ln_data n)))"
    using False ll_repD(2,6) [OF assms] by (simp add: linked_list_goto_def andthen_assoc)
  also have "\<dots> = Inr (l2, if ?k = length xs then NULL else xs ! ?k)"
  proof -
    have r2: "ll_rep l2 ps xs" unfolding l2_def by (rule ll_rep_cursor [OF r0 k])
    have c: "ll_current l2 = at ps ?k" "ll_current_index l2 = ?k" by (simp_all add: l2_def)
    show ?thesis
      using k c ll_rep_node [OF r2] ll_repD(2) [OF assms] at_NULL [OF k] unfolding walk by auto
  qed
  finally show ?thesis using False by (simp add: l2_def)
qed

lemma first_pos_drop:
  "i < length xs \<Longrightarrow>
   i + first_pos (drop i xs) d = (if xs ! i = d then i else Suc i + first_pos (drop (Suc i) xs) d)"
  by (simp add: first_pos_def flip: Cons_nth_drop_Suc)

lemma find_loop_rep:
  assumes "ll_rep l ps xs"
    and "j = ll_current_index l + first_pos (drop (ll_current_index l) xs) d"
  shows "find_loop l d = Some (Inr (l\<lparr>ll_current_index := j, ll_current := at ps j\<rparr>))"
  using assms
proof (induction "length xs - ll_current_index l" arbitrary: l)
  case 0
  then have "ll_current_index l = length ps" "length xs = length ps"
    using ll_repD(2,9) [OF 0(2)] by auto
  then show ?case
    using 0 ll_repD(10) [OF 0(2)] by (subst find_loop.simps) (simp add: first_pos_def)
next
  case (Suc n)
  let ?i = "ll_current_index l"
  note D = ll_repD [OF Suc.prems(1)]
  have lt: "?i < length ps" "?i < length xs" using Suc.hyps(2) D(2) by auto
  show ?case
  proof (cases "xs ! ?i = d")
    case True
    then have "j = ?i" unfolding Suc.prems(2) using first_pos_drop [OF lt(2), of d] by simp
    moreover have c: "ll_current l = Some (ps ! ?i)" using D(10) lt by simp
    moreover have "l\<lparr>ll_current_index := ?i, ll_current := at ps ?i\<rparr> = l" using c lt by simp
    ultimately show ?thesis using lt D(4) True by (subst find_loop.simps) simp
  next
    case False
    let ?l = "l\<lparr>ll_current_index := ?i + 1, ll_current := at ps (?i + 1)\<rparr>"
    have "find_loop l d = find_loop ?l d"
      using lt D(4,10) False by (subst find_loop.simps) simp
    moreover have "j = Suc ?i + first_pos (drop (Suc ?i) xs) d"
      unfolding Suc.prems(2) using first_pos_drop [OF lt(2), of d] False by simp
    ultimately show ?thesis
      using Suc.hyps(1) [of ?l] Suc.hyps(2) ll_rep_cursor [OF Suc.prems(1), of "?i + 1"] lt by simp
  qed
qed

lemma linked_list_find_rep:
  assumes "ll_rep l ps xs"
  shows "linked_list_find l d = Some (Inr
    (l\<lparr>ll_error := if d \<in> set xs then LINKED_LIST_ERR_OK else LINKED_LIST_ERR_NOT_FOUND,
       ll_current_index := first_pos xs d, ll_current := at ps (first_pos xs d)\<rparr>,
     if d \<in> set xs then d else NULL))"
proof -
  note D = ll_repD [OF assms]
  let ?l = "l\<lparr>ll_error := LINKED_LIST_ERR_OK, ll_current_index := 0, ll_current := ll_head l\<rparr>"
  have "ll_rep ?l ps xs" using assms by (simp add: ll_rep_def)
  from find_loop_rep [OF this refl, of d]
  have f: "find_loop ?l d = Some (Inr (?l\<lparr>ll_current_index := first_pos xs d,
      ll_current := at ps (first_pos xs d)\<rparr>))" by simp
  have "at ps (first_pos xs d) = NULL \<longleftrightarrow> d \<notin> set xs"
    using first_pos_le [of xs d] D(2) at_NULL [of "first_pos xs d" ps] first_pos_end [of xs d] by simp
  then show ?thesis by (simp add: linked_list_find_def f)
qed

section \<open>Inserting\<close>

text \<open>A memory in which the new node and its neighbours are linked represents the list with the
  element inserted at \<open>k\<close>.\<close>

lemma dll_insert:
  assumes d: "dll mem ps xs" and k: "k \<le> length ps" and a: "a \<notin> set ps"
    and new: "mem' a = Some \<lparr>ln_prev = before ps k, ln_next = at ps k, ln_data = x\<rparr>"
    and old: "\<And>i. i < length ps \<Longrightarrow> mem' (ps ! i) = Some ((node ps xs i)
        \<lparr>ln_prev := if i = k then Some a else before ps i,
         ln_next := if i + 1 = k then Some a else at ps (i + 1)\<rparr>)"
    and dom: "dom mem' = insert a (set ps)"
  shows "dll mem' (take k ps @ a # drop k ps) (take k xs @ x # drop k xs)"
proof -
  let ?ps = "take k ps @ a # drop k ps" and ?xs = "take k xs @ x # drop k xs"
  have len: "length xs = length ps" and dist: "distinct ps" using d by (auto simp: dll_def)
  have "set ?ps = insert a (set ps)" using set_append [of "take k ps" "drop k ps"] by auto
  moreover have "distinct ?ps"
    using dist a set_take_disj_set_drop_if_distinct [of ps k k] by (auto dest: in_set_takeD in_set_dropD)
  moreover have "mem' (?ps ! i) = Some (node ?ps ?xs i)" if i: "i < length ?ps" for i
  proof -
    consider "i < k" | "i = k" | j where "i = Suc j" "k \<le> j" "j < length ps"
      using i k by (cases "i < k"; cases "i = k"; cases i) auto
    then show ?thesis
    proof cases
      case 1
      then show ?thesis
        using old [of i] k len by (simp add: nth_append node_def at_insert before_insert)
    next
      case 2
      then show ?thesis
        using new k len by (simp add: nth_append node_def at_insert before_insert)
    next
      case (3 j)
      then show ?thesis
        using old [of j] k len by (auto simp: nth_append node_def at_insert before_insert before_def)
    qed
  qed
  ultimately show ?thesis using dom len by (simp add: dll_def)
qed

text \<open>The four cases of \<open>linked_list_insert\<close> link the new node between its neighbours.\<close>

lemma insert_links_rep:
  assumes r: "ll_rep l ps xs" and a: "a \<notin> set ps" and fresh: "k = ll_current_index l"
  shows "\<exists>mem'. insert_links l a ((ll_mem l)(a \<mapsto> \<lparr>ln_prev = NULL, ln_next = NULL, ln_data = x\<rparr>)) =
      Inr (mem', at (take k ps @ a # drop k ps) 0, before (take k ps @ a # drop k ps) (Suc (length ps))) \<and>
    dll mem' (take k ps @ a # drop k ps) (take k xs @ x # drop k xs)"
proof -
  note D = ll_repD [OF r]
  let ?mem = "(ll_mem l)(a \<mapsto> \<lparr>ln_prev = NULL, ln_next = NULL, ln_data = x\<rparr>)"
  have d: "dll (ll_mem l) ps xs" using r by (simp add: ll_rep_def)
  have k: "k \<le> length ps" using D(9) fresh by simp
  have nd: "?mem (ps ! i) = Some (node ps xs i)" if "i < length ps" for i
    using that D(4) a nth_mem by auto
  have ne: "ps ! i \<noteq> a" if "i < length ps" for i using that a nth_mem by metis
  have dm: "dom ?mem = insert a (set ps)" using D(3) by simp
  have cur: "ll_current l = at ps k" using D(10) fresh by simp
  have hd_eq: "ll_current l = ll_head l \<longleftrightarrow> k = 0" using D(1,7) cur k at_inj [of ps k 0] by simp
  consider (empty) "ps = []" | (head) "ps \<noteq> []" "k = 0" | (tail) "ps \<noteq> []" "k = length ps"
    | (mid) "0 < k" "k < length ps" using k by linarith
  then show ?thesis
  proof cases
    case empty
    then have "dll ?mem (take k ps @ a # drop k ps) (take k xs @ x # drop k xs)"
      using k dm by (intro dll_insert [OF d k a]) (simp_all add: at_def)
    then show ?thesis using empty D(6) by (auto simp: insert_links_def Let_def at_def before_def)
  next
    case head
    let ?m = "?mem(a \<mapsto> \<lparr>ln_prev = NULL, ln_next = at ps 0, ln_data = x\<rparr>,
        ps ! 0 \<mapsto> (node ps xs 0)\<lparr>ln_prev := Some a\<rparr>)"
    have "insert_links l a ?mem = Inr (?m, Some a, ll_tail l)"
      using head D(6,7) hd_eq nd [of 0] ne [of 0] by (simp add: insert_links_def Let_def)
    moreover have "dll ?m (take k ps @ a # drop k ps) (take k xs @ x # drop k xs)"
    proof (rule dll_insert [OF d k a])
      show "?m (ps ! i) = Some ((node ps xs i)\<lparr>ln_prev := if i = k then Some a else before ps i,
           ln_next := if i + 1 = k then Some a else at ps (i + 1)\<rparr>)" if "i < length ps" for i
        using that head nd [of i] ne [of i] D(1) by (auto simp: node_def nth_eq_iff_index_eq)
      show "dom ?m = insert a (set ps)" using head nth_mem [of 0 ps] dm by (simp add: insert_absorb)
    qed (use head ne [of 0] in simp)
    moreover have "ll_tail l = before (take k ps @ a # drop k ps) (Suc (length ps))"
      using head D(8) by (simp add: before_insert) (simp add: before_def)
    moreover have "at (take k ps @ a # drop k ps) 0 = Some a" using head by simp
    ultimately show ?thesis by metis
  next
    case tail
    let ?n = "length ps - 1"
    let ?m = "?mem(a \<mapsto> \<lparr>ln_prev = Some (ps ! ?n), ln_next = NULL, ln_data = x\<rparr>,
        ps ! ?n \<mapsto> (node ps xs ?n)\<lparr>ln_next := Some a\<rparr>)"
    have "insert_links l a ?mem = Inr (?m, ll_head l, Some a)"
      using tail D(6,7,8) hd_eq cur nd [of ?n] ne [of ?n] by (simp add: insert_links_def Let_def before_def)
    moreover have "dll ?m (take k ps @ a # drop k ps) (take k xs @ x # drop k xs)"
    proof (rule dll_insert [OF d k a])
      show "?m (ps ! i) = Some ((node ps xs i)\<lparr>ln_prev := if i = k then Some a else before ps i,
           ln_next := if i + 1 = k then Some a else at ps (i + 1)\<rparr>)" if "i < length ps" for i
        using that tail nd [of i] ne [of i] D(1) by (auto simp: node_def nth_eq_iff_index_eq)
      show "dom ?m = insert a (set ps)" using tail nth_mem [of ?n ps] dm by (simp add: insert_absorb)
    qed (use tail ne [of ?n] in \<open>simp add: before_def\<close>)
    ultimately show ?thesis using tail D(7) by (simp add: at_insert before_insert nth_append)
  next
    case mid
    let ?p = "k - 1"
    let ?m = "?mem(a \<mapsto> \<lparr>ln_prev = Some (ps ! ?p), ln_next = Some (ps ! k), ln_data = x\<rparr>,
        ps ! k \<mapsto> (node ps xs k)\<lparr>ln_prev := Some a\<rparr>, ps ! ?p \<mapsto> (node ps xs ?p)\<lparr>ln_next := Some a\<rparr>)"
    have pa: "ps ! ?p \<noteq> a" by (rule ne) (use mid in linarith)
    have neq: "ps ! ?p \<noteq> ps ! k" using mid D(1) by (simp add: nth_eq_iff_index_eq)
    have "insert_links l a ?mem = Inr (?m, ll_head l, ll_tail l)"
      using mid D(6) hd_eq cur nd [of ?p] nd [of k] ne [of ?p] ne [of k] neq
      by (auto simp: insert_links_def Let_def before_def)
    moreover have "dll ?m (take k ps @ a # drop k ps) (take k xs @ x # drop k xs)"
    proof (rule dll_insert [OF d k a])
      show "?m (ps ! i) = Some ((node ps xs i)\<lparr>ln_prev := if i = k then Some a else before ps i,
           ln_next := if i + 1 = k then Some a else at ps (i + 1)\<rparr>)" if "i < length ps" for i
        using that mid nd [of i] ne [of i] D(1) by (auto simp: node_def nth_eq_iff_index_eq)
      show "dom ?m = insert a (set ps)"
        using mid nth_mem [of ?p ps] nth_mem [of k ps] dm by (simp add: insert_absorb)
    qed (use mid pa ne [of k] in \<open>auto simp: before_def\<close>)
    moreover have "at (take k ps @ a # drop k ps) 0 = ll_head l"
      using mid D(7) by (simp add: at_insert del: at_simps)
    moreover have "before (take k ps @ a # drop k ps) (Suc (length ps)) = ll_tail l"
      using mid D(8) by (simp add: before_insert del: before_Suc)
    ultimately show ?thesis by metis
  qed
qed

lemma linked_list_insert_rep:
  assumes r: "ll_rep l ps xs"
  defines "k \<equiv> ll_current_index l"
  shows "\<exists>l' ps'. linked_list_insert l x = Inr l' \<and> ll_rep l' ps' (take k xs @ x # drop k xs) \<and>
    ll_current_index l' = k \<and> ll_error l' = LINKED_LIST_ERR_OK \<and> ll_version l' = ll_version l + 1"
proof -
  note D = ll_repD [OF r]
  let ?a = "ll_brk l"
  let ?ps = "take k ps @ ?a # drop k ps"
  have a: "?a \<notin> set ps" using D(5) by blast
  obtain mem' where m: "insert_links l ?a ((ll_mem l)(?a \<mapsto> \<lparr>ln_prev = NULL, ln_next = NULL, ln_data = x\<rparr>)) =
      Inr (mem', at ?ps 0, before ?ps (Suc (length ps)))" "dll mem' ?ps (take k xs @ x # drop k xs)"
    using insert_links_rep [OF r a] by (auto simp: k_def)
  let ?l = "l\<lparr>ll_mem := mem', ll_brk := ?a + 1, ll_head := at ?ps 0, ll_tail := before ?ps (Suc (length ps)),
      ll_error := LINKED_LIST_ERR_OK, ll_count := ll_count l + 1,
      ll_current := Some ?a, ll_version := ll_version l + 1\<rparr>"
  have "linked_list_insert l x = Inr ?l" by (simp add: linked_list_insert_def Let_def m(1))
  moreover have "ll_rep ?l ?ps (take k xs @ x # drop k xs)"
    using m(2) D(5,6,9)
    by (auto simp: ll_rep_def at_insert k_def less_Suc_eq dest: in_set_takeD in_set_dropD)
  ultimately show ?thesis by (intro exI [of _ ?l] exI [of _ ?ps]) (simp add: k_def)
qed

section \<open>Removing\<close>

lemma dll_remove:
  assumes d: "dll mem ps xs" and k: "k < length ps"
    and old: "\<And>i. i < length ps \<Longrightarrow> i \<noteq> k \<Longrightarrow> mem' (ps ! i) = Some ((node ps xs i)
        \<lparr>ln_prev := if i = k + 1 then before ps k else before ps i,
         ln_next := if i + 1 = k then at ps (k + 1) else at ps (i + 1)\<rparr>)"
    and dom: "dom mem' = set ps - {ps ! k}"
  shows "dll mem' (take k ps @ drop (Suc k) ps) (take k xs @ drop (Suc k) xs)"
proof -
  let ?ps = "take k ps @ drop (Suc k) ps" and ?xs = "take k xs @ drop (Suc k) xs"
  have len: "length xs = length ps" and dist: "distinct ps" using d by (auto simp: dll_def)
  have split: "ps = take k ps @ ps ! k # drop (Suc k) ps" using k by (rule id_take_nth_drop)
  then have "distinct (take k ps @ ps ! k # drop (Suc k) ps)" using dist by simp
  then have "distinct ?ps" "set ?ps = set (take k ps @ ps ! k # drop (Suc k) ps) - {ps ! k}" by auto
  then have "distinct ?ps" "set ?ps = set ps - {ps ! k}" using split by simp_all
  moreover have "mem' (?ps ! i) = Some (node ?ps ?xs i)" if i: "i < length ?ps" for i
  proof (cases "i < k")
    case True
    moreover from this have "i + 1 = k \<Longrightarrow> at ps (k + 1) = at ps (i + 2)" by auto
    ultimately show ?thesis
      using old [of i] k len by (cases "i + 1 = k") (auto simp: nth_append node_def at_remove before_remove)
  next
    case False
    then have "i + 1 < length ps" "?ps ! i = ps ! (i + 1)" "?xs ! i = xs ! (i + 1)"
      using i k len by (auto simp: nth_append)
    then show ?thesis
      using old [of "i + 1"] k False by (auto simp: node_def at_remove before_remove)
  qed
  ultimately show ?thesis using dom len k by (simp add: dll_def)
qed

text \<open>The four cases of \<open>linked_list_remove\<close> link the neighbours of the node with each other.\<close>

lemma remove_links_rep:
  assumes r: "ll_rep l ps xs" and k: "k = ll_current_index l" "k < length ps"
  shows "\<exists>mem'. remove_links l =
      Inr (mem', at (take k ps @ drop (Suc k) ps) 0, before (take k ps @ drop (Suc k) ps) (length ps - 1)) \<and>
    mem' (ps ! k) = Some (node ps xs k) \<and>
    dll (mem'(ps ! k := None)) (take k ps @ drop (Suc k) ps) (take k xs @ drop (Suc k) xs)"
proof -
  note D = ll_repD [OF r]
  let ?n = "length ps - 1"
  have d: "dll (ll_mem l) ps xs" using r by (simp add: ll_rep_def)
  have nd: "ll_mem l (ps ! i) = Some (node ps xs i)" if "i < length ps" for i using that D(4) by simp
  have eq: "ps ! i = ps ! j \<longleftrightarrow> i = j" if "i < length ps" "j < length ps" for i j
    using that D(1) by (simp add: nth_eq_iff_index_eq)
  have cur: "ll_current l = Some (ps ! k)" using D(10) k by simp
  have nk: "node_at (ll_mem l) (ll_current l) = Inr (node ps xs k)" using cur nd [OF k(2)] by simp
  have hd: "ll_head l = Some (ps ! 0)" and tl: "ll_tail l = Some (ps ! ?n)"
    using D(7,8) k(2) by (auto simp: at_def before_def)
  have head_eq: "ll_current l = ll_head l \<longleftrightarrow> k = 0"
    unfolding cur hd option.inject using k(2) by (intro eq) auto
  have tail_eq: "ll_current l = ll_tail l \<longleftrightarrow> k = ?n"
    unfolding cur tl option.inject using k(2) by (intro eq) auto
  consider (one) "length ps = 1" | (head) "length ps \<noteq> 1" "k = 0"
    | (tail) "length ps \<noteq> 1" "0 < k" "k = ?n" | (mid) "length ps \<noteq> 1" "0 < k" "k < ?n"
    using k(2) by linarith
  then show ?thesis
  proof cases
    case one
    moreover have "dll ((ll_mem l)(ps ! k := None)) (take k ps @ drop (Suc k) ps) (take k xs @ drop (Suc k) xs)"
      using one k(2) D(3) by (intro dll_remove [OF d k(2)]) auto
    ultimately show ?thesis
      using D(6) k(2) nd [of k] cur by (auto simp: remove_links_def Let_def at_def before_def)
  next
    case head
    let ?m = "(ll_mem l)(ps ! 1 \<mapsto> (node ps xs 1)\<lparr>ln_prev := NULL\<rparr>)"
    have n: "1 < length ps" using head k(2) by linarith
    have ne01: "ps ! 0 \<noteq> ps ! 1" using n D(1) by (cases ps; cases "tl ps") auto
    have nd0: "ll_mem l (ps ! 0) = Some (node ps xs 0)" by (rule nd) (use n in linarith)
    have "remove_links l = Inr (?m, Some (ps ! 1), ll_tail l)"
      using head D(6) head_eq cur nd0 nd [of 1] n hd by (auto simp: remove_links_def Let_def)
    moreover have "dll (?m(ps ! k := None)) (take k ps @ drop (Suc k) ps) (take k xs @ drop (Suc k) xs)"
    proof (rule dll_remove [OF d k(2)])
      show "(?m(ps ! k := None)) (ps ! i) = Some ((node ps xs i)
          \<lparr>ln_prev := if i = k + 1 then before ps k else before ps i,
           ln_next := if i + 1 = k then at ps (k + 1) else at ps (i + 1)\<rparr>)"
        if "i < length ps" "i \<noteq> k" for i
        using that head nd [of i] n eq [of i k] k(2) eq [of i 1] by (auto simp: node_def)
      show "dom (?m(ps ! k := None)) = set ps - {ps ! k}" using D(3) n by (auto simp: nth_mem)
    qed
    moreover have "?m (ps ! k) = Some (node ps xs k)" using head nd0 ne01 by simp
    moreover have "Suc (length ps - Suc (Suc 0)) = length ps - Suc 0" using n by linarith
    ultimately show ?thesis
      using head n tl k(2) by (simp add: at_remove before_remove before_def nth_append)
  next
    case tail
    let ?m = "(ll_mem l)(ps ! (k - 1) \<mapsto> (node ps xs (k - 1))\<lparr>ln_next := NULL\<rparr>)"
    have c: "ll_count l \<noteq> 1" "ll_current l \<noteq> ll_head l" "ll_current l = ll_tail l"
      using tail D(6) head_eq tail_eq by auto
    have nk1: "ll_mem l (ps ! (k - 1)) = Some (node ps xs (k - 1))" by (rule nd) (use k(2) in linarith)
    have bk: "before ps k = Some (ps ! (k - 1))" using tail by (simp add: before_def)
    have "remove_links l = Inr (?m, ll_head l, Some (ps ! (k - 1)))"
      unfolding remove_links_def Let_def nk andthen_simps using c nk1 by (simp add: bk)
    moreover have "dll (?m(ps ! k := None)) (take k ps @ drop (Suc k) ps) (take k xs @ drop (Suc k) xs)"
    proof (rule dll_remove [OF d k(2)])
      show "(?m(ps ! k := None)) (ps ! i) = Some ((node ps xs i)
          \<lparr>ln_prev := if i = k + 1 then before ps k else before ps i,
           ln_next := if i + 1 = k then at ps (k + 1) else at ps (i + 1)\<rparr>)"
        if "i < length ps" "i \<noteq> k" for i
        using that tail nd [of i] k(2) by (auto simp: node_def eq at_def)
      show "dom (?m(ps ! k := None)) = set ps - {ps ! k}" using D(3) k(2) by (auto simp: nth_mem)
    qed
    moreover have "?m (ps ! k) = Some (node ps xs k)" using tail k(2) nd [of k] by (simp add: eq)
    ultimately show ?thesis
      using tail hd k(2) by (simp add: at_remove before_remove before_def)
  next
    case mid
    let ?m = "(ll_mem l)(ps ! (k - 1) \<mapsto> (node ps xs (k - 1))\<lparr>ln_next := at ps (k + 1)\<rparr>,
        ps ! (k + 1) \<mapsto> (node ps xs (k + 1))\<lparr>ln_prev := before ps k\<rparr>)"
    have n: "k + 1 < length ps" using mid by linarith
    have "ps ! (k - 1) = ps ! (k + 1) \<longleftrightarrow> k - 1 = k + 1" by (rule eq) (use n in linarith)+
    then have ne2: "ps ! (k - 1) \<noteq> ps ! (k + 1)" by simp
    have c: "ll_count l \<noteq> 1" "ll_current l \<noteq> ll_head l" "ll_current l \<noteq> ll_tail l"
      using mid D(6) head_eq tail_eq by auto
    have nk1: "ll_mem l (ps ! (k - 1)) = Some (node ps xs (k - 1))" by (rule nd) (use k(2) in linarith)
    have bk: "before ps k = Some (ps ! (k - 1))" using mid by (simp add: before_def)
    have "remove_links l = Inr (?m, ll_head l, ll_tail l)"
      unfolding remove_links_def Let_def nk andthen_simps using c nk1 nd [OF n] n ne2
      by (simp add: bk)
    moreover have "dll (?m(ps ! k := None)) (take k ps @ drop (Suc k) ps) (take k xs @ drop (Suc k) xs)"
    proof (rule dll_remove [OF d k(2)])
      show "(?m(ps ! k := None)) (ps ! i) = Some ((node ps xs i)
          \<lparr>ln_prev := if i = k + 1 then before ps k else before ps i,
           ln_next := if i + 1 = k then at ps (k + 1) else at ps (i + 1)\<rparr>)"
        if "i < length ps" "i \<noteq> k" for i
        using that mid n nd [of i] k(2) by (auto simp: node_def eq)
      show "dom (?m(ps ! k := None)) = set ps - {ps ! k}" using D(3) n k(2) by (auto simp: nth_mem)
    qed
    moreover have "?m (ps ! k) = Some (node ps xs k)" using mid n nd [of k] by (simp add: eq)
    moreover have "at (take k ps @ drop (Suc k) ps) 0 = ll_head l"
      using mid D(7) k(2) by (simp add: at_remove del: at_simps)
    moreover have "before (take k ps @ drop (Suc k) ps) ?n = ll_tail l"
      using mid tl k(2) before_remove [OF k(2), of ?n] by simp
    ultimately show ?thesis by metis
  qed
qed

lemma linked_list_remove_rep:
  assumes r: "ll_rep l ps xs" and k: "k = ll_current_index l" "k < length xs"
  shows "\<exists>l' ps'. linked_list_remove l = Inr (l', xs ! k) \<and> ll_rep l' ps' (take k xs @ drop (Suc k) xs) \<and>
    ll_current_index l' = k \<and> ll_error l' = LINKED_LIST_ERR_OK \<and> ll_version l' = ll_version l + 1"
proof -
  note D = ll_repD [OF r]
  let ?ps = "take k ps @ drop (Suc k) ps"
  have kp: "k < length ps" using k D(2) by simp
  obtain mem' where m: "remove_links l = Inr (mem', at ?ps 0, before ?ps (length ps - 1))"
      "mem' (ps ! k) = Some (node ps xs k)" "dll (mem'(ps ! k := None)) ?ps (take k xs @ drop (Suc k) xs)"
    using remove_links_rep [OF r k(1) kp] by blast
  have cur: "ll_current l = Some (ps ! k)" using D(10) k kp by simp
  let ?l = "l\<lparr>ll_mem := mem'(ps ! k := None), ll_head := at ?ps 0, ll_tail := before ?ps (length ps - 1),
      ll_error := LINKED_LIST_ERR_OK, ll_count := ll_count l - 1,
      ll_current := at ps (Suc k), ll_version := ll_version l + 1\<rparr>"
  have "linked_list_remove l = Inr (?l, xs ! k)"
    using m(1,2) cur D(4) [OF kp] D(2,6) k kp by (auto simp: linked_list_remove_def)
  moreover have "ll_rep ?l ?ps (take k xs @ drop (Suc k) xs)"
    using m(3) D(5,6) kp k(1) by (auto simp: ll_rep_def at_remove dest: in_set_takeD in_set_dropD)
  ultimately show ?thesis by (intro exI [of _ ?l] exI [of _ ?ps]) (simp add: k(1))
qed

lemma linked_list_remove_end:
  assumes "ll_rep l ps xs" "ll_current_index l = length xs"
  shows "linked_list_remove l = Inr (l\<lparr>ll_error := LINKED_LIST_ERR_BOUNDS\<rparr>, NULL)"
  using ll_repD(2,6) [OF assms(1)] assms(2) by (simp add: linked_list_remove_def)

text \<open>Freeing the nodes from position \<open>i\<close> on, when the ones before are already freed.\<close>

lemma clear_loop_rep:
  assumes "distinct ps" "dom mem = set (drop i ps)"
    "\<And>j. i \<le> j \<Longrightarrow> j < length ps \<Longrightarrow> mem (ps ! j) = Some (node ps xs j)" "i \<le> length ps"
  shows "clear_loop mem (at ps i) = Some (Inr Map.empty)"
  using assms
proof (induction "length ps - i" arbitrary: i mem)
  case 0
  then show ?case by (subst clear_loop.simps) (simp add: at_def)
next
  case (Suc n)
  have lt: "i < length ps" using Suc.hyps(2) by simp
  then have split: "drop i ps = ps ! i # drop (Suc i) ps" by (simp add: Cons_nth_drop_Suc)
  then have "ps ! i \<notin> set (drop (Suc i) ps)" using Suc.prems(1) by (metis distinct.simps(2) distinct_drop)
  then have "dom (mem(ps ! i := None)) = set (drop (Suc i) ps)" using Suc.prems(2) split by simp
  moreover have "(mem(ps ! i := None)) (ps ! j) = Some (node ps xs j)" if "Suc i \<le> j" "j < length ps" for j
    using that lt Suc.prems(1,3) by (simp add: nth_eq_iff_index_eq)
  ultimately have "clear_loop (mem(ps ! i := None)) (at ps (Suc i)) = Some (Inr Map.empty)"
    using Suc.hyps(1) [of "Suc i" "mem(ps ! i := None)"] Suc.hyps(2) Suc.prems(1) lt by simp
  then show ?case using lt Suc.prems(3) [of i] by (subst clear_loop.simps) simp
qed

lemma linked_list_clear_rep:
  assumes r: "ll_rep l ps xs"
  shows "\<exists>l'. linked_list_clear l = Some (Inr l') \<and> ll_rep l' [] [] \<and> ll_current_index l' = 0 \<and>
    ll_error l' = LINKED_LIST_ERR_OK \<and> ll_version l' = ll_version l + 1 \<and> ll_mem l' = Map.empty"
proof -
  note D = ll_repD [OF r]
  have "clear_loop (ll_mem l) (ll_head l) = Some (Inr Map.empty)"
    unfolding D(7) by (rule clear_loop_rep) (use D(1,3,4) in auto)
  then show ?thesis by (simp add: linked_list_clear_def ll_rep_def dll_def at_def)
qed

section \<open>Sorting a list\<close>

lemma collect_rep:
  "dll mem ps xs \<Longrightarrow> i + n = length ps \<Longrightarrow> collect mem n (at ps i) = Inr (map Some (drop i ps))"
proof (induction n arbitrary: i)
  case (Suc n)
  then have "i < length ps" by simp
  then show ?case
    using Suc.IH [of "Suc i"] Suc.prems by (simp add: dll_def flip: Cons_nth_drop_Suc)
qed simp

text \<open>The comparison of the nodes is one on their data.\<close>

lemma comparator_elem_data:
  "comparator cmp \<Longrightarrow> comparator (\<lambda>p q. cmp (elem_data mem p) (elem_data mem q))"
  unfolding comparator_def by blast

text \<open>After \<open>i\<close> steps the first \<open>i\<close> nodes of the array are linked in its order.\<close>

lemma relink_rep:
  assumes "distinct ps" "dom mem = set ps" "length xs = length ps" "i \<le> length ps"
    "\<And>j. j < length ps \<Longrightarrow> ln_data (the (mem (ps ! j))) = xs ! j"
    "\<And>j. j < i \<Longrightarrow> mem (ps ! j) = Some (node ps xs j)"
  shows "\<exists>mem'. relink (map Some ps) (length ps) i mem = Inr mem' \<and> dll mem' ps xs"
  using assms
proof (induction "length ps - i" arbitrary: i mem)
  case 0
  then show ?case by (subst relink.simps) (auto simp: dll_def)
next
  case (Suc n)
  have lt: "i < length ps" using Suc.hyps(2) by simp
  obtain e where e: "mem (ps ! i) = Some e" using Suc.prems(2) lt nth_mem by blast
  have eq: "ps ! j = ps ! i \<longleftrightarrow> j = i" if "j < length ps" for j
    using that lt Suc.prems(1) by (simp add: nth_eq_iff_index_eq)
  let ?mem = "mem(ps ! i \<mapsto> node ps xs i)"
  have nd: "e\<lparr>ln_prev := if 0 < i then map Some ps ! (i - 1) else NULL,
      ln_next := if i < length ps - 1 then map Some ps ! (i + 1) else NULL\<rparr> = node ps xs i"
    using Suc.prems(5) [OF lt] lt e by (auto simp: node_def before_def at_def)
  then have step: "relink (map Some ps) (length ps) i mem = relink (map Some ps) (length ps) (i + 1) ?mem"
    using lt e by (subst relink.simps) simp
  have "\<exists>mem'. relink (map Some ps) (length ps) (i + 1) ?mem = Inr mem' \<and> dll mem' ps xs"
  proof (rule Suc.hyps(1))
    show "n = length ps - (i + 1)" using Suc.hyps(2) by simp
    show "dom ?mem = set ps" using Suc.prems(2) lt by (auto simp: nth_mem)
    show "ln_data (the (?mem (ps ! j))) = xs ! j" if "j < length ps" for j
      using Suc.prems(5) [OF that] eq [OF that] by simp
    show "?mem (ps ! j) = Some (node ps xs j)" if "j < i + 1" for j
      using Suc.prems(6) [of j] that lt eq [of j] by (cases "j = i") auto
  qed (use Suc.prems lt in auto)
  with step show ?case by simp
qed

lemma linked_list_sort_rep:
  assumes r: "ll_rep l ps xs" and cmp: "comparator cmp"
  shows "\<exists>l' ps' xs'. linked_list_sort cmp l = Some (Inr l') \<and> ll_rep l' ps' xs' \<and>
    mset xs' = mset xs \<and> sorted_wrt (\<lambda>x y. cmp x y \<le> 0) xs' \<and>
    (if xs = [] then l' = l\<lparr>ll_error := LINKED_LIST_ERR_OK\<rparr>
     else ll_current_index l' = 0 \<and> ll_version l' = ll_version l + 1)"
proof (cases "xs = []")
  case True
  then have "linked_list_sort cmp l = Some (Inr (l\<lparr>ll_error := LINKED_LIST_ERR_OK\<rparr>))"
    using ll_repD(2,6) [OF r] by (simp add: linked_list_sort_def)
  moreover have "ll_rep (l\<lparr>ll_error := LINKED_LIST_ERR_OK\<rparr>) ps []" using r True by simp
  ultimately show ?thesis using True by (intro exI conjI) auto
next
  case False
  note D = ll_repD [OF r]
  let ?n = "length ps" and ?c = "\<lambda>p q. cmp (elem_data (ll_mem l) p) (elem_data (ll_mem l) q)"
  have ne: "ps \<noteq> []" "0 < ?n" using False D(2) by auto
  have data: "elem_data (ll_mem l) (Some (ps ! i)) = xs ! i" if "i < ?n" for i
    using D(4) [OF that] by (simp add: elem_data_def)
  have col: "collect (ll_mem l) ?n (ll_head l) = Inr (map Some ps)"
    using collect_rep [of "ll_mem l" ps xs 0 ?n] r D(7) by (simp add: ll_rep_def)
  have piv: "a \<le> c_div (a + b) 2 \<and> c_div (a + b) 2 \<le> b" if "0 \<le> a" "a \<le> b" for a b :: int
    using that by (simp add: c_div_nonneg) linarith
  obtain ys where ys: "quicksort (\<lambda>lo hi. c_div (lo + hi) 2) arr_get arr_set ?c (map Some ps) 0
        (int (length (map Some ps)) - 1) = Some ys"
      "mset ys = mset (map Some ps)" "sorted_wrt (\<lambda>p q. ?c p q \<le> 0) ys"
    using comparator.quicksort_sorts [OF comparator_elem_data [OF cmp, of "ll_mem l"], of "map Some ps"
        "\<lambda>lo hi. c_div (lo + hi) 2"] ne piv by blast
  define qs where "qs = map the ys"
  define f where "f q = ln_data (the (ll_mem l q))" for q
  have "set ys = Some ` set ps" using mset_eq_setD [OF ys(2)] by simp
  then have qs: "ys = map Some qs" by (auto simp: qs_def map_idI comp_def intro!: map_idI [symmetric])
  have "mset qs = image_mset the (mset ys)" by (simp add: qs_def)
  then have m: "mset qs = mset ps" unfolding ys(2) by (simp add: multiset.map_comp comp_def)
  then have len: "length qs = ?n" and set: "set qs = set ps" and dist: "distinct qs"
    using D(1) by (auto dest: mset_eq_length mset_eq_setD mset_eq_imp_distinct_iff)
  have fps: "map f ps = xs"
    using D(2,4) by (intro nth_equalityI) (auto simp: f_def)
  have "ln_data (the (ll_mem l (qs ! j))) = map f qs ! j" if "j < length qs" for j
    using that by (simp add: f_def)
  then obtain mem' where mem': "relink (map Some qs) (length qs) 0 (ll_mem l) = Inr mem'" "dll mem' qs (map f qs)"
    using relink_rep [OF dist, of "ll_mem l" "map f qs" 0] D(3) set by auto
  let ?l = "l\<lparr>ll_error := LINKED_LIST_ERR_OK, ll_mem := mem', ll_head := ys ! 0,
      ll_tail := ys ! (?n - 1), ll_current_index := 0, ll_current := ys ! 0, ll_version := ll_version l + 1\<rparr>"
  have "linked_list_sort cmp l = Some (Inr ?l)"
    using ne D(6) ys(1) mem'(1) by (simp add: linked_list_sort_def linked_sort_def col qs len)
  moreover have "ll_rep ?l qs (map f qs)"
    using mem'(2) D(5,6) ne len set by (simp add: ll_rep_def qs at_def before_def)
  moreover have "mset (map f qs) = mset xs" using m fps by (metis mset_map)
  moreover have "sorted_wrt (\<lambda>x y. cmp x y \<le> 0) (map f qs)"
  proof -
    have "elem_data (ll_mem l) (Some q) = f q" if "q \<in> set qs" for q
      using that set D(3) by (cases "ll_mem l q") (auto simp: elem_data_def f_def node_at_def domIff)
    then have "sorted_wrt (\<lambda>p q. cmp (f p) (f q) \<le> 0) qs"
      using ys(3) by (auto simp: qs sorted_wrt_map intro: sorted_wrt_mono_rel [rotated])
    then show ?thesis by (simp add: sorted_wrt_map)
  qed
  ultimately show ?thesis using False by (intro exI conjI) auto
qed

text \<open>\<open>linked_list_sorted\<close> tells whether neighbours are in order.\<close>

lemma sorted_loop_rep:
  "dll mem ps xs \<Longrightarrow> i < length ps \<Longrightarrow>
   sorted_loop cmp mem (node ps xs i) (at ps (Suc i)) =
     Some (Inr (\<forall>j. i \<le> j \<and> Suc j < length xs \<longrightarrow> cmp (xs ! j) (xs ! Suc j) \<le> 0))"
proof (induction "length ps - i" arbitrary: i)
  case (Suc n)
  have len: "length xs = length ps" using Suc.prems by (simp add: dll_def)
  show ?case
  proof (cases "Suc i < length ps")
    case False
    then show ?thesis using Suc.prems len by (subst sorted_loop.simps) (auto simp: at_def)
  next
    case True
    then have "mem (ps ! Suc i) = Some (node ps xs (Suc i))" using Suc.prems(1) by (simp add: dll_def)
    moreover have "(\<forall>j. i \<le> j \<and> Suc j < length xs \<longrightarrow> cmp (xs ! j) (xs ! Suc j) \<le> 0) \<longleftrightarrow>
        cmp (xs ! i) (xs ! Suc i) \<le> 0 \<and> (\<forall>j. Suc i \<le> j \<and> Suc j < length xs \<longrightarrow> cmp (xs ! j) (xs ! Suc j) \<le> 0)"
      using True len by (metis Suc_leI le_antisym not_less_eq_eq order_refl Suc_leD)
    ultimately show ?thesis
      using True Suc.hyps(1) [of "Suc i"] Suc.hyps(2) Suc.prems
      by (subst sorted_loop.simps) (simp add: not_less)
  qed
qed simp

lemma linked_list_sorted_rep:
  assumes r: "ll_rep l ps xs"
  shows "linked_list_sorted cmp l = Some (Inr (l\<lparr>ll_error := LINKED_LIST_ERR_OK\<rparr>,
    \<forall>j. Suc j < length xs \<longrightarrow> cmp (xs ! j) (xs ! Suc j) \<le> 0))"
proof (cases "ps = []")
  case True
  then show ?thesis using ll_repD(2,7) [OF r] by (simp add: linked_list_sorted_def Let_def at_def)
next
  case False
  then have "ll_head l = Some (ps ! 0)" "node_at (ll_mem l) (Some (ps ! 0)) = Inr (node ps xs 0)"
    using ll_repD(4,7) [OF r] by auto
  moreover have "dll (ll_mem l) ps xs" using r by (simp add: ll_rep_def)
  ultimately show ?thesis
    using sorted_loop_rep [of "ll_mem l" ps xs 0 cmp] False by (simp add: linked_list_sorted_def Let_def)
qed

section \<open>Enumeration\<close>

text \<open>The macro \<open>LINKED_LIST_FOR_EACH\<close> with \<open>linked_list_get\<close> in its body: the list of the
  data visited, with the number of iterations bounded by \<open>fuel\<close>.\<close>

fun for_each_data :: "nat \<Rightarrow> 'a linked_list_t \<Rightarrow> ('a linked_list_t \<times> 'a ptr list) run option" where
  "for_each_data 0 l = None"
| "for_each_data (Suc fuel) l =
     (case linked_list_is_end l of
        (l, True) \<Rightarrow> Some (Inr (l, []))
      | (l, False) \<Rightarrow>
          (case andthen (linked_list_get l) (\<lambda>(l, d). andthen (linked_list_next l) (\<lambda>l. Inr (l, d))) of
             Inl e \<Rightarrow> Some (Inl e)
           | Inr (l, d) \<Rightarrow> map_option (\<lambda>r. andthen r (\<lambda>(l, ds). Inr (l, d # ds))) (for_each_data fuel l)))"

definition LINKED_LIST_FOR_EACH :: "'a linked_list_t \<Rightarrow> ('a linked_list_t \<times> 'a ptr list) run option" where
  "LINKED_LIST_FOR_EACH l = for_each_data (ll_count l + 1) (linked_list_head l)"

lemma for_each_data_rep:
  assumes "ll_rep l ps xs" "length xs - ll_current_index l < fuel"
  shows "\<exists>l'. for_each_data fuel l = Some (Inr (l', drop (ll_current_index l) xs)) \<and> ll_rep l' ps xs \<and>
    ll_current_index l' = length xs \<and> ll_version l' = ll_version l \<and> ll_mem l' = ll_mem l"
  using assms
proof (induction fuel arbitrary: l)
  case (Suc fuel)
  note D = ll_repD [OF Suc.prems(1)]
  let ?i = "ll_current_index l" and ?l0 = "l\<lparr>ll_error := LINKED_LIST_ERR_OK\<rparr>"
  have r0: "ll_rep ?l0 ps xs" using Suc.prems(1) by simp
  show ?case
  proof (cases "?i = length xs")
    case True
    then show ?thesis
      using r0 D(2,6) by (intro exI [of _ ?l0]) (simp add: linked_list_is_end_def)
  next
    case False
    then have lt: "?i < length xs" using D(2,9) by simp
    let ?l = "l\<lparr>ll_error := LINKED_LIST_ERR_OK, ll_current_index := ?i + 1, ll_current := at ps (?i + 1)\<rparr>"
    have r1: "ll_rep ?l ps xs" using ll_rep_cursor [OF r0, of "?i + 1"] lt D(2) by simp
    obtain l' where l': "for_each_data fuel ?l = Some (Inr (l', drop (?i + 1) xs))" "ll_rep l' ps xs"
        "ll_current_index l' = length xs" "ll_version l' = ll_version l" "ll_mem l' = ll_mem l"
    proof -
      have "length xs - ll_current_index ?l < fuel" using Suc.prems(2) lt by simp
      from Suc.IH [OF r1 this] that show ?thesis by auto
    qed
    have "for_each_data (Suc fuel) l = Some (Inr (l', xs ! ?i # drop (?i + 1) xs))"
      using False lt D(2,6) linked_list_get_rep [OF r0] linked_list_next_rep [OF r0] l'(1)
      by (simp add: linked_list_is_end_def)
    then show ?thesis using l' lt by (simp add: Cons_nth_drop_Suc)
  qed
qed simp

lemma LINKED_LIST_FOR_EACH_rep:
  assumes "ll_rep l ps xs"
  shows "\<exists>l'. LINKED_LIST_FOR_EACH l = Some (Inr (l', xs)) \<and> ll_rep l' ps xs \<and>
    ll_current_index l' = length xs \<and> ll_version l' = ll_version l \<and> ll_mem l' = ll_mem l"
proof -
  note D = ll_repD [OF assms]
  have h: "ll_rep (linked_list_head l) ps xs" "ll_current_index (linked_list_head l) = 0"
      "ll_version (linked_list_head l) = ll_version l" "ll_mem (linked_list_head l) = ll_mem l"
    using assms D(2,9) ll_rep_cursor [of "l\<lparr>ll_error := LINKED_LIST_ERR_OK\<rparr>" ps xs 0]
    by (auto simp: linked_list_head_rep [OF assms])
  then show ?thesis
    using for_each_data_rep [OF h(1), of "ll_count l + 1"] D(2,6) by (simp add: LINKED_LIST_FOR_EACH_def)
qed

text \<open>Iterators: \<open>it_elem\<close> at position \<open>i\<close> of an unmodified list.\<close>

lemma iter_ok:
  assumes "ll_rep l ps xs" "it_version it = ll_version l" "it_elem it = at ps i" "i \<le> length ps"
  shows "linked_list_iter_get l it = Inr (if i = length xs then NULL else xs ! i)"
    "linked_list_iter_is_end l it = Inr (i = length xs)"
    "linked_list_iter_next l it = Inr (it\<lparr>it_elem := at ps (if i = length xs then i else i + 1)\<rparr>)"
    "linked_list_iter_head l it = Inr (it\<lparr>it_elem := at ps 0\<rparr>)"
  using ll_repD(2,4,7) [OF assms(1)] assms(2-4) at_NULL [OF assms(4)]
  by (auto simp: linked_list_iter_get_def linked_list_iter_is_end_def linked_list_iter_next_def
      linked_list_iter_head_def linked_list_iter_check_version_def)

lemma iter_stale:
  assumes "it_version it \<noteq> ll_version l"
  shows "linked_list_iter_get l it = Inl Panic" "linked_list_iter_is_end l it = Inl Panic"
    "linked_list_iter_next l it = Inl Panic" "linked_list_iter_head l it = Inl Panic"
    "linked_list_iter_find l it d = Some (Inl Panic)"
  using assms
  by (simp_all add: linked_list_iter_get_def linked_list_iter_is_end_def linked_list_iter_next_def
      linked_list_iter_head_def linked_list_iter_find_def linked_list_iter_check_version_def)

text \<open>The traversal \<open>for (it = create(l); !is_end(it); next(it)) get(it)\<close>.\<close>

fun iter_data :: "nat \<Rightarrow> 'a linked_list_t \<Rightarrow> linked_list_iter_t \<Rightarrow> 'a ptr list run option" where
  "iter_data 0 l it = None"
| "iter_data (Suc fuel) l it =
     (case linked_list_iter_is_end l it of
        Inl e \<Rightarrow> Some (Inl e)
      | Inr True \<Rightarrow> Some (Inr [])
      | Inr False \<Rightarrow>
          (case andthen (linked_list_iter_get l it) (\<lambda>d. andthen (linked_list_iter_next l it) (\<lambda>it. Inr (it, d))) of
             Inl e \<Rightarrow> Some (Inl e)
           | Inr (it, d) \<Rightarrow> map_option (\<lambda>r. andthen r (\<lambda>ds. Inr (d # ds))) (iter_data fuel l it)))"

lemma iter_data_rep:
  assumes "ll_rep l ps xs" "it_version it = ll_version l" "it_elem it = at ps i" "i \<le> length ps"
    "length xs - i < fuel"
  shows "iter_data fuel l it = Some (Inr (drop i xs))"
  using assms
proof (induction fuel arbitrary: it i)
  case (Suc fuel)
  note I = iter_ok [OF Suc.prems(1-4)]
  have len: "length xs = length ps" using ll_repD(2) [OF Suc.prems(1)] .
  show ?case
  proof (cases "i = length xs")
    case False
    then have lt: "i < length xs" using Suc.prems(4) len by simp
    then have "iter_data fuel l (it\<lparr>it_elem := at ps (i + 1)\<rparr>) = Some (Inr (drop (i + 1) xs))"
      using Suc.IH [of "it\<lparr>it_elem := at ps (i + 1)\<rparr>" "i + 1"] Suc.prems len by simp
    then show ?thesis using I False lt by (simp add: Cons_nth_drop_Suc)
  qed (use I in simp)
qed simp

lemma iter_find_loop_rep:
  assumes "dll mem ps xs" "i \<le> length ps"
  shows "\<exists>it'. iter_find_loop mem (it\<lparr>it_elem := at ps i\<rparr>) d = Some (Inr (it', d \<in> set (drop i xs)))"
  using assms(2)
proof (induction "length ps - i" arbitrary: i)
  case 0
  then show ?case using assms(1) by (subst iter_find_loop.simps) (simp add: at_def dll_def)
next
  case (Suc n)
  then have lt: "i < length ps" by simp
  then have "drop i xs = xs ! i # drop (Suc i) xs" "mem (ps ! i) = Some (node ps xs i)"
    using assms(1) by (simp_all add: dll_def Cons_nth_drop_Suc)
  then show ?case using Suc.hyps(1) [of "Suc i"] Suc.hyps(2) lt by (subst iter_find_loop.simps) auto
qed

lemma linked_list_iter_find_rep:
  assumes "ll_rep l ps xs" "it_version it = ll_version l"
  shows "\<exists>it'. linked_list_iter_find l it d = Some (Inr (it', d \<in> set xs))"
proof -
  have "dll (ll_mem l) ps xs" using assms(1) by (simp add: ll_rep_def)
  then show ?thesis
    using iter_find_loop_rep [of "ll_mem l" ps xs 0 it d] assms(2) ll_repD(7) [OF assms(1)]
    by (simp add: linked_list_iter_find_def linked_list_iter_check_version_def)
qed

section \<open>The abstract cursor list\<close>

text \<open>The operations as a client calls them, with what each returns and the error code it leaves
  (\<open>None\<close> for the return value of a \<open>void\<close> function).\<close>

datatype 'a ll_op = Current | Get | Next | Prev | Next_circular | Prev_circular | Head | Tail | Out
  | Goto int | Find "'a ptr" | Count | Is_end | Insert "'a ptr" | Add "'a ptr" | Remove | Clear

datatype 'a ll_out = Void | IntV int | Ptr "'a ptr"

text \<open>The code: one operation.\<close>

definition done_void :: "'a linked_list_t \<Rightarrow> ('a linked_list_t \<times> 'a ll_out) run option" where
  "done_void l = Some (Inr (l, Void))"

fun ll_step :: "'a linked_list_t \<Rightarrow> 'a ll_op \<Rightarrow> ('a linked_list_t \<times> 'a ll_out) run option" where
  "ll_step l Current = (case linked_list_current l of (l, n) \<Rightarrow> Some (Inr (l, IntV (int n))))"
| "ll_step l Get = Some (andthen (linked_list_get l) (\<lambda>(l, d). Inr (l, Ptr d)))"
| "ll_step l Next = Some (andthen (linked_list_next l) (\<lambda>l. Inr (l, Void)))"
| "ll_step l Prev = Some (andthen (linked_list_prev l) (\<lambda>l. Inr (l, Void)))"
| "ll_step l Next_circular = Some (andthen (linked_list_next_circular l) (\<lambda>l. Inr (l, Void)))"
| "ll_step l Prev_circular = Some (andthen (linked_list_prev_circular l) (\<lambda>l. Inr (l, Void)))"
| "ll_step l Head = done_void (linked_list_head l)"
| "ll_step l Tail = done_void (linked_list_tail l)"
| "ll_step l Out = done_void (linked_list_out l)"
| "ll_step l (Goto i) = Some (andthen (linked_list_goto l i) (\<lambda>(l, d). Inr (l, Ptr d)))"
| "ll_step l (Find d) = map_option (\<lambda>r. andthen r (\<lambda>(l, d). Inr (l, Ptr d))) (linked_list_find l d)"
| "ll_step l Count = (case linked_list_count l of (l, n) \<Rightarrow> Some (Inr (l, IntV (int n))))"
| "ll_step l Is_end = (case linked_list_is_end l of (l, b) \<Rightarrow> Some (Inr (l, IntV (of_bool b))))"
| "ll_step l (Insert d) = Some (andthen (linked_list_insert l d) (\<lambda>l. Inr (l, Void)))"
| "ll_step l (Add d) = Some (andthen (linked_list_add l d) (\<lambda>l. Inr (l, Void)))"
| "ll_step l Remove = Some (andthen (linked_list_remove l) (\<lambda>(l, d). Inr (l, Ptr d)))"
| "ll_step l Clear = map_option (\<lambda>r. andthen r (\<lambda>l. Inr (l, Void))) (linked_list_clear l)"

text \<open>The specification: a list and a position \<open>0..length\<close> in it.\<close>

fun cursor_step :: "'a cursor \<Rightarrow> 'a ll_op \<Rightarrow> 'a cursor \<times> 'a ll_out \<times> linked_list_error_t" where
  "cursor_step (xs, i) Current = ((xs, i), IntV (int i), LINKED_LIST_ERR_OK)"
| "cursor_step (xs, i) Get =
     (if i = length xs then ((xs, i), Ptr NULL, LINKED_LIST_ERR_BOUNDS)
      else ((xs, i), Ptr (xs ! i), LINKED_LIST_ERR_OK))"
| "cursor_step (xs, i) Next =
     (if i = length xs then ((xs, i), Void, LINKED_LIST_ERR_BOUNDS)
      else ((xs, i + 1), Void, LINKED_LIST_ERR_OK))"
| "cursor_step (xs, i) Prev =
     (if i = 0 then ((xs, i), Void, LINKED_LIST_ERR_BOUNDS)
      else ((xs, i - 1), Void, LINKED_LIST_ERR_OK))"
| "cursor_step (xs, i) Next_circular =
     (if xs = [] then ((xs, i), Void, LINKED_LIST_ERR_EMPTY)
      else ((xs, if length xs \<le> i + 1 then 0 else i + 1), Void, LINKED_LIST_ERR_OK))"
| "cursor_step (xs, i) Prev_circular =
     (if xs = [] then ((xs, i), Void, LINKED_LIST_ERR_EMPTY)
      else ((xs, if i = 0 then length xs - 1 else i - 1), Void, LINKED_LIST_ERR_OK))"
| "cursor_step (xs, i) Head =
     (if xs = [] then ((xs, i), Void, LINKED_LIST_ERR_EMPTY) else ((xs, 0), Void, LINKED_LIST_ERR_OK))"
| "cursor_step (xs, i) Tail =
     (if xs = [] then ((xs, i), Void, LINKED_LIST_ERR_EMPTY)
      else ((xs, length xs - 1), Void, LINKED_LIST_ERR_OK))"
| "cursor_step (xs, i) Out = ((xs, length xs), Void, LINKED_LIST_ERR_OK)"
| "cursor_step (xs, i) (Goto j) =
     (if j < 0 \<or> int (length xs) < j then ((xs, i), Ptr NULL, LINKED_LIST_ERR_BOUNDS)
      else ((xs, nat j), Ptr (if nat j = length xs then NULL else xs ! nat j), LINKED_LIST_ERR_OK))"
| "cursor_step (xs, i) (Find d) =
     ((xs, first_pos xs d), Ptr (if d \<in> set xs then d else NULL),
      if d \<in> set xs then LINKED_LIST_ERR_OK else LINKED_LIST_ERR_NOT_FOUND)"
| "cursor_step (xs, i) Count = ((xs, i), IntV (int (length xs)), LINKED_LIST_ERR_OK)"
| "cursor_step (xs, i) Is_end = ((xs, i), IntV (of_bool (i = length xs)), LINKED_LIST_ERR_OK)"
| "cursor_step (xs, i) (Insert d) = ((take i xs @ d # drop i xs, i), Void, LINKED_LIST_ERR_OK)"
| "cursor_step (xs, i) (Add d) = ((xs @ [d], length xs + 1), Void, LINKED_LIST_ERR_OK)"
| "cursor_step (xs, i) Remove =
     (if i = length xs then ((xs, i), Ptr NULL, LINKED_LIST_ERR_BOUNDS)
      else ((take i xs @ drop (i + 1) xs, i), Ptr (xs ! i), LINKED_LIST_ERR_OK))"
| "cursor_step (xs, i) Clear = (([], 0), Void, LINKED_LIST_ERR_OK)"

text \<open>\<open>l\<close> after \<open>ll_step\<close> is as \<open>cursor_step\<close> says.\<close>

definition step_ok :: "('a linked_list_t \<times> 'a ll_out) run option \<Rightarrow> 'a cursor \<times> 'a ll_out \<times> linked_list_error_t \<Rightarrow> bool" where
  "step_ok r s \<longleftrightarrow> (\<exists>l. r = Some (Inr (l, fst (snd s))) \<and> ll_abs l (fst s) \<and> ll_error l = snd (snd s))"

lemma ll_absI: "ll_rep l ps xs \<Longrightarrow> ll_current_index l = i \<Longrightarrow> ll_abs l (xs, i)"
  by (auto simp: ll_abs_def)

lemma ll_abs_move:
  assumes "ll_rep l ps xs" "j \<le> length xs"
  shows "ll_abs (l\<lparr>ll_error := e, ll_current_index := j, ll_current := at ps j\<rparr>) (xs, j)"
    "ll_abs (l\<lparr>ll_current_index := j, ll_current := at ps j, ll_error := e\<rparr>) (xs, j)"
  using assms ll_repD(2) [OF assms(1)] by (auto simp: ll_abs_def ll_rep_def intro!: exI [of _ ps])

lemma ll_abs_error: "ll_rep l ps xs \<Longrightarrow> ll_abs (l\<lparr>ll_error := e\<rparr>) (xs, ll_current_index l)"
  by (auto simp: ll_abs_def)

lemma ll_step_cursor:
  assumes r: "ll_rep l ps xs" and op: "op \<in> {Current, Get, Next, Prev, Next_circular, Prev_circular, Head, Tail, Out,
      Count, Is_end}"
  shows "step_ok (ll_step l op) (cursor_step (xs, ll_current_index l) op)"
proof -
  note D = ll_repD(2,6,9) [OF r] and M = ll_abs_move [OF r] and E = ll_abs_error [OF r]
  show ?thesis
    using op D M E
    by (auto simp: step_ok_def linked_list_current_def linked_list_get_rep [OF r] linked_list_next_rep [OF r]
        linked_list_prev_rep [OF r] linked_list_next_circular_rep [OF r] linked_list_prev_circular_rep [OF r]
        linked_list_head_rep [OF r] linked_list_tail_rep [OF r] linked_list_out_rep [OF r] done_void_def
        linked_list_count_def linked_list_is_end_def Let_def simp del: at_simps)
qed

lemma linked_list_add_rep:
  assumes r: "ll_rep l ps xs"
  shows "\<exists>l' ps'. linked_list_add l d = Inr l' \<and> ll_rep l' ps' (xs @ [d]) \<and>
    ll_current_index l' = length xs + 1 \<and> ll_error l' = LINKED_LIST_ERR_OK \<and> ll_version l' = ll_version l + 1"
proof -
  let ?l = "linked_list_out l"
  have o: "ll_rep ?l ps xs" "ll_current_index ?l = length xs" "ll_version ?l = ll_version l"
    using r ll_rep_cursor [of "l\<lparr>ll_error := LINKED_LIST_ERR_OK\<rparr>" ps xs "length xs"] ll_repD(2) [OF r]
    by (simp_all add: linked_list_out_rep [OF r])
  obtain l' ps' where i: "linked_list_insert ?l d = Inr l'" "ll_rep l' ps' (xs @ [d])" "ll_version l' = ll_version l + 1"
    using linked_list_insert_rep [OF o(1), of d] o(2,3) by auto
  let ?l' = "linked_list_out l'"
  have "ll_rep ?l' ps' (xs @ [d])"
    using i(2) ll_rep_cursor [of "l'\<lparr>ll_error := LINKED_LIST_ERR_OK\<rparr>" ps' "xs @ [d]" "length xs + 1"]
      ll_repD(2) [OF i(2)] by (simp add: linked_list_out_rep [OF i(2)])
  then show ?thesis
    using i by (intro exI [of _ ?l'] exI [of _ ps']) (simp add: linked_list_add_def linked_list_out_rep [OF i(2)])
qed

text \<open>Every operation refines its specification.\<close>

lemma ll_step_correct:
  assumes "ll_abs l c"
  shows "step_ok (ll_step l op) (cursor_step c op)"
proof -
  obtain xs ps where c: "c = (xs, ll_current_index l)" and r: "ll_rep l ps xs"
    using assms by (cases c) (auto simp: ll_abs_def)
  note D = ll_repD(2,6,9) [OF r] and M = ll_abs_move [OF r] and E = ll_abs_error [OF r]
  show ?thesis
  proof (cases op)
    case (Goto j)
    then show ?thesis using M E D by (auto simp: c step_ok_def linked_list_goto_rep [OF r])
  next
    case (Find d)
    then show ?thesis
      using M [OF first_pos_le] by (auto simp: c step_ok_def linked_list_find_rep [OF r])
  next
    case (Insert d)
    then show ?thesis
      using linked_list_insert_rep [OF r, of d] by (auto simp: c step_ok_def intro: ll_absI)
  next
    case (Add d)
    then show ?thesis
      using linked_list_add_rep [OF r, of d] by (auto simp: c step_ok_def intro: ll_absI)
  next
    case Remove
    then show ?thesis
      using linked_list_remove_rep [OF r refl] linked_list_remove_end [OF r] E D
      by (cases "ll_current_index l = length xs") (auto simp: c step_ok_def intro: ll_absI)
  next
    case Clear
    then show ?thesis
      using linked_list_clear_rep [OF r] by (auto simp: c step_ok_def intro: ll_absI)
  qed (simp_all only: c, (rule ll_step_cursor [OF r], simp)+)
qed

text \<open>Which operations count as a modification of the list, and so stop its iterators.\<close>

fun modifies :: "'a cursor \<Rightarrow> 'a ll_op \<Rightarrow> bool" where
  "modifies c (Insert d) = True"
| "modifies c (Add d) = True"
| "modifies c Clear = True"
| "modifies c Remove = (snd c < length (fst c))"
| "modifies c _ = False"

lemma ll_step_version:
  assumes r: "ll_rep l ps xs"
  shows "\<exists>l' out. ll_step l op = Some (Inr (l', out)) \<and>
    (if modifies (xs, ll_current_index l) op then ll_version l' = ll_version l + 1
     else ll_version l' = ll_version l \<and> ll_head l' = ll_head l)"
proof -
  note D = ll_repD(2,6,9) [OF r]
  show ?thesis
  proof (cases op)
    case (Insert d)
    then show ?thesis using linked_list_insert_rep [OF r, of d] by auto
  next
    case (Add d)
    then show ?thesis using linked_list_add_rep [OF r, of d] by auto
  next
    case Remove
    then show ?thesis
      using linked_list_remove_rep [OF r refl] linked_list_remove_end [OF r] D
      by (cases "ll_current_index l = length xs") auto
  next
    case Clear
    then show ?thesis using linked_list_clear_rep [OF r] by auto
  qed (auto simp: linked_list_current_def linked_list_get_rep [OF r] linked_list_next_rep [OF r]
        linked_list_prev_rep [OF r] linked_list_next_circular_rep [OF r] linked_list_prev_circular_rep [OF r]
        linked_list_head_rep [OF r] linked_list_tail_rep [OF r] linked_list_out_rep [OF r] done_void_def
        linked_list_goto_rep [OF r] linked_list_find_rep [OF r]
        linked_list_count_def linked_list_is_end_def Let_def simp del: at_simps)
qed

text \<open>So a sequence of operations on a fresh list never stops the process and returns what the
  specification returns.\<close>

fun ll_run :: "'a linked_list_t \<Rightarrow> 'a ll_op list \<Rightarrow> ('a linked_list_t \<times> ('a ll_out \<times> linked_list_error_t) list) run option" where
  "ll_run l [] = Some (Inr (l, []))"
| "ll_run l (op # ops) =
     (case ll_step l op of
        None \<Rightarrow> None
      | Some (Inl e) \<Rightarrow> Some (Inl e)
      | Some (Inr (l', out)) \<Rightarrow>
          map_option (\<lambda>r. andthen r (\<lambda>(l'', outs). Inr (l'', (out, ll_error l') # outs))) (ll_run l' ops))"

fun cursor_run :: "'a cursor \<Rightarrow> 'a ll_op list \<Rightarrow> 'a cursor \<times> ('a ll_out \<times> linked_list_error_t) list" where
  "cursor_run c [] = (c, [])"
| "cursor_run c (op # ops) =
     (case cursor_step c op of
        (c', out) \<Rightarrow> (case cursor_run c' ops of (c'', outs) \<Rightarrow> (c'', out # outs)))"

lemma ll_run_correct:
  "ll_abs l c \<Longrightarrow> \<exists>l'. ll_run l ops = Some (Inr (l', snd (cursor_run c ops))) \<and> ll_abs l' (fst (cursor_run c ops))"
proof (induction ops arbitrary: l c)
  case (Cons op ops)
  obtain c' out e where s: "cursor_step c op = (c', out, e)" by (metis prod_cases3)
  obtain l' where l': "ll_step l op = Some (Inr (l', out))" "ll_abs l' c'" "ll_error l' = e"
    using ll_step_correct [OF Cons.prems, of op] by (auto simp: s step_ok_def)
  obtain c'' outs where r: "cursor_run c' ops = (c'', outs)" by fastforce
  show ?case using Cons.IH [OF l'(2)] l' s r by auto
qed auto

section \<open>Properties\<close>

text \<open>C28: any sequence of calls on a new linked list never dereferences \<open>NULL\<close> or a freed node,
  always returns, and returns the values and leaves the error codes of the same calls on a
  sequence with a cursor; the memory then holds exactly the nodes of the list.\<close>

theorem linked_list_refines_cursor:
  "\<exists>l. ll_run linked_list_create ops = Some (Inr (l, snd (cursor_run ([], 0) ops))) \<and>
     ll_abs l (fst (cursor_run ([], 0) ops))"
proof -
  have "ll_abs linked_list_create ([], 0)"
    by (rule ll_absI [OF linked_list_create_rep]) (simp add: linked_list_create_def)
  then show ?thesis by (rule ll_run_correct)
qed

text \<open>C29: \<open>linked_list_sort\<close> with a comparison function that is a total preorder returns and leaves
  a sorted permutation of the data in a well-formed list, which \<open>linked_list_sorted\<close> confirms.\<close>

theorem linked_list_sort_sorts:
  assumes "ll_abs l (xs, i)" "comparator cmp"
  shows "\<exists>l' xs' j. linked_list_sort cmp l = Some (Inr l') \<and> ll_abs l' (xs', j) \<and>
    mset xs' = mset xs \<and> sorted_wrt (\<lambda>x y. cmp x y \<le> 0) xs' \<and>
    linked_list_sorted cmp l' = Some (Inr (l'\<lparr>ll_error := LINKED_LIST_ERR_OK\<rparr>, True))"
proof -
  obtain ps where r: "ll_rep l ps xs" using assms(1) by (auto simp: ll_abs_def)
  obtain l' ps' xs' where s: "linked_list_sort cmp l = Some (Inr l')" "ll_rep l' ps' xs'"
      "mset xs' = mset xs" "sorted_wrt (\<lambda>x y. cmp x y \<le> 0) xs'"
    using linked_list_sort_rep [OF r assms(2)] by blast
  have "\<forall>j. Suc j < length xs' \<longrightarrow> cmp (xs' ! j) (xs' ! Suc j) \<le> 0"
    using sorted_wrt_nth_less [OF s(4)] by blast
  then have "linked_list_sorted cmp l' = Some (Inr (l'\<lparr>ll_error := LINKED_LIST_ERR_OK\<rparr>, True))"
    using linked_list_sorted_rep [OF s(2), of cmp] by simp
  with s show ?thesis using ll_absI [OF s(2) refl] by blast
qed

lemma ll_abs_of: "\<exists>l i. ll_abs l (xs, i)"
proof -
  have "fst (fst (cursor_run (ys, i) (map Add xs))) = ys @ xs" for ys i
    by (induction xs arbitrary: ys i) (simp_all add: split_beta)
  then show ?thesis
    using ll_run_correct [OF ll_absI [OF linked_list_create_rep refl], of "map Add xs"]
    by (metis append_Nil prod.collapse)
qed

theorem linked_list_sort_sorts_witness:
  "\<exists>l i. ll_abs l ([Some ''b'', Some ''a''], i) \<and>
    (\<exists>l' xs' j. linked_list_sort (\<lambda>p q. strcmp (the p) (the q)) l = Some (Inr l') \<and> ll_abs l' (xs', j) \<and>
      mset xs' = mset [Some ''b'', Some ''a''] \<and>
      sorted_wrt (\<lambda>x y. strcmp (the x) (the y) \<le> 0) xs' \<and>
      linked_list_sorted (\<lambda>p q. strcmp (the p) (the q)) l' =
        Some (Inr (l'\<lparr>ll_error := LINKED_LIST_ERR_OK\<rparr>, True)))"
proof -
  obtain l i where l: "ll_abs l ([Some ''b'', Some ''a''], i)" using ll_abs_of by blast
  have "comparator (\<lambda>p q. strcmp (the p) (the q))"
    by (rule comparator_map [OF strcmp_order.comparator_axioms])
  from linked_list_sort_sorts [OF l this] l show ?thesis by blast
qed

text \<open>An iterator that every use of stops.\<close>

definition expired :: "'a linked_list_t \<Rightarrow> linked_list_iter_t \<Rightarrow> bool" where
  "expired l it \<longleftrightarrow> linked_list_iter_get l it = Inl Panic \<and> linked_list_iter_next l it = Inl Panic \<and>
     linked_list_iter_head l it = Inl Panic \<and> linked_list_iter_is_end l it = Inl Panic \<and>
     (\<forall>d. linked_list_iter_find l it d = Some (Inl Panic))"

lemma expiredI: "it_version it \<noteq> ll_version l \<Longrightarrow> expired l it"
  using iter_stale [of it l] by (simp add: expired_def)

lemma iter_visits_abs:
  assumes "ll_abs l (xs, i)" "it_version it = ll_version l" "it_elem it = ll_head l"
  shows "iter_data (length xs + 1) l it = Some (Inr xs)"
proof -
  obtain ps where r: "ll_rep l ps xs" using assms(1) by (auto simp: ll_abs_def)
  show ?thesis using iter_data_rep [OF r assms(2), of 0 "length xs + 1"] assms(3) ll_repD(7) [OF r] by (simp del: iter_data.simps)
qed

text \<open>C30: An iterator visits the data in order without moving the cursor of the list. After any one call that
  changes the list, an insertion, a removal, a clearing or the sorting of a list that is not empty,
  every use of it stops with the version check; after any other call, and after a removal that finds
  nothing to remove, it still visits all data. (The version is an \<open>int\<close>, so \<open>2 ^ 32\<close> changes in a row
  go unnoticed.)\<close>

theorem linked_list_iter_visits:
  assumes "ll_abs l (xs, i)"
  shows "iter_data (length xs + 1) l (linked_list_iter_create l) = Some (Inr xs) \<and>
    (\<forall>op. \<exists>l' out. ll_step l op = Some (Inr (l', out)) \<and>
      (if modifies (xs, i) op then expired l' (linked_list_iter_create l)
       else iter_data (length xs + 1) l' (linked_list_iter_create l) = Some (Inr xs))) \<and>
    (\<forall>cmp. comparator cmp \<longrightarrow> (\<exists>l'. linked_list_sort cmp l = Some (Inr l') \<and>
      (if xs = [] then iter_data 1 l' (linked_list_iter_create l) = Some (Inr [])
       else expired l' (linked_list_iter_create l))))"
proof (intro conjI allI impI)
  obtain ps where r: "ll_rep l ps xs" and i: "i = ll_current_index l" using assms by (auto simp: ll_abs_def)
  let ?it = "linked_list_iter_create l"
  have it: "it_version ?it = ll_version l" "it_elem ?it = ll_head l" by (simp_all add: linked_list_iter_create_def)
  show "iter_data (length xs + 1) l ?it = Some (Inr xs)" by (rule iter_visits_abs [OF assms it])
  show "\<exists>l' out. ll_step l op = Some (Inr (l', out)) \<and>
      (if modifies (xs, i) op then expired l' ?it else iter_data (length xs + 1) l' ?it = Some (Inr xs))" for op
  proof -
    obtain l' out where s: "ll_step l op = Some (Inr (l', out))"
        "if modifies (xs, i) op then ll_version l' = ll_version l + 1 else ll_version l' = ll_version l \<and> ll_head l' = ll_head l"
      using ll_step_version [OF r, of op] i by blast
    have a: "ll_abs l' (fst (cursor_step (xs, i) op))" using ll_step_correct [OF assms, of op] s(1) by (simp add: step_ok_def)
    have same: "fst (fst (cursor_step (xs, i) op)) = xs" if "\<not> modifies (xs, i) op"
      using that ll_repD(2,9) [OF r] i by (cases op) auto
    have "iter_data (length xs + 1) l' ?it = Some (Inr xs)" if n: "\<not> modifies (xs, i) op"
      using iter_visits_abs [of l' xs "snd (fst (cursor_step (xs, i) op))" ?it] a same [OF n] s(2) n it by (metis prod.collapse)
    then show ?thesis using s expiredI [of ?it l'] it(1) by auto
  qed
  show "\<exists>l'. linked_list_sort cmp l = Some (Inr l') \<and>
      (if xs = [] then iter_data 1 l' ?it = Some (Inr []) else expired l' ?it)" if cmp: "comparator cmp" for cmp
  proof -
    obtain l' ps' xs' where s: "linked_list_sort cmp l = Some (Inr l')"
        "if xs = [] then l' = l\<lparr>ll_error := LINKED_LIST_ERR_OK\<rparr> else ll_current_index l' = 0 \<and> ll_version l' = ll_version l + 1"
      using linked_list_sort_rep [OF r cmp] by blast
    have "iter_data 1 l' ?it = Some (Inr [])" if "xs = []"
      using iter_visits_abs [of l' "[]" i ?it] s(2) that assms it ll_abs_error [OF r, of LINKED_LIST_ERR_OK] i by simp
    then show ?thesis using s expiredI [of ?it l'] it(1) by auto
  qed
qed

theorem linked_list_iter_visits_witness:
  "\<exists>l i. ll_abs l ([Some (1 :: nat), NULL], i) \<and>
    iter_data 3 l (linked_list_iter_create l) = Some (Inr [Some 1, NULL])"
  using ll_abs_of [of "[Some (1 :: nat), NULL]"] linked_list_iter_visits [of _ "[Some (1 :: nat), NULL]"]
  by (force simp: eval_nat_numeral)

text \<open>\<open>LINKED_LIST_FOR_EACH\<close> visits every element once, in order, and leaves the cursor at the
  end.\<close>

theorem linked_list_for_each_visits:
  assumes "ll_abs l (xs, i)"
  shows "\<exists>l'. LINKED_LIST_FOR_EACH l = Some (Inr (l', xs)) \<and> ll_abs l' (xs, length xs)"
proof -
  obtain ps where r: "ll_rep l ps xs" using assms by (auto simp: ll_abs_def)
  then show ?thesis using LINKED_LIST_FOR_EACH_rep [OF r] ll_absI by blast
qed

theorem linked_list_for_each_visits_witness:
  "\<exists>l i l'. ll_abs l ([Some (1 :: nat), NULL], i) \<and>
    LINKED_LIST_FOR_EACH l = Some (Inr (l', [Some 1, NULL])) \<and> ll_abs l' ([Some 1, NULL], 2)"
  using ll_abs_of [of "[Some (1 :: nat), NULL]"] linked_list_for_each_visits [of _ "[Some (1 :: nat), NULL]"]
  by (force simp: eval_nat_numeral)

end
