(* ===== verification/HashTable.thy ===== *)
theory HashTable
  imports CString Interfaces
begin

text \<open>
  The chained hash table of \<open>src/lib/util/hash-table.c\<close>: string keys, \<open>void *\<close> values, a
  vector of collision lists that doubles when it is half full, and an enumeration
  (\<open>hash_table_find_first\<close>, \<open>hash_table_find_next\<close>) that any insertion or removal interrupts.

  A collision list is a list of elements, its head first. The enumeration pointer
  \<open>find_elem\<close> always points into the list of \<open>find_index\<close> when it is followed, so it is kept
  as a position in that list. Values stored in the table are never \<open>NULL\<close>; arguments and
  results that may be are options. The hash is computed on 32-bit words as in the code. The count
  and the size of the vector are natural numbers: the code has \<open>int\<close>, whose doubling would overflow only for
  a vector of \<open>2 ^ 30\<close> lists, half of them filled, which is assumed out of reach.
  \<open>hash_table_map\<close> is the abstract value, a partial map from canonical keys.
\<close>

section \<open>Data\<close>

record 'v hash_table_elem =
  key :: string
  data :: 'v

record 'v hash_table =
  ht_count :: nat
  ht_size :: nat
  case_sensitive :: bool
  find_op :: bool
  find_index :: nat
  find_elem :: "nat ptr"
  elem_vector :: "'v hash_table_elem list list"

definition HASH_TABLE_MIN_INITIAL_SIZE :: int where
  "HASH_TABLE_MIN_INITIAL_SIZE = 5"

section \<open>Operations\<close>

definition hash_table_elem_create :: "string \<Rightarrow> 'v \<Rightarrow> 'v hash_table_elem" where
  "hash_table_elem_create k d = \<lparr>key = k, data = d\<rparr>"

text \<open>\<open>str_compare_func\<close> is \<open>strcmp\<close> or \<open>strcasecmp\<close>, as \<open>hash_table_create\<close> chooses.\<close>

definition str_compare_func :: "'v hash_table \<Rightarrow> string \<Rightarrow> string \<Rightarrow> int" where
  "str_compare_func table = (if case_sensitive table then strcmp else strcasecmp)"

text \<open>The loop of \<open>hash_table_get_index\<close> over the key.\<close>

primrec hash_loop :: "bool \<Rightarrow> string \<Rightarrow> 32 word \<Rightarrow> 32 word" where
  "hash_loop cs [] hash = hash"
| "hash_loop cs (k # ks) hash =
     (let c = word_of_nat (char_code (if cs then k else tolower k))
      in hash_loop cs ks ((xor hash c) * 16777619))"

definition hash_table_get_index :: "'v hash_table \<Rightarrow> string \<Rightarrow> nat" where
  "hash_table_get_index table k =
     unat (hash_loop (case_sensitive table) k 5381) mod ht_size table"

text \<open>\<open>hash_table_grow\<close> moves the elements of the old lists, each taken from its head, to the
  heads of the new lists. The size field is already the new one when the index is computed.\<close>

definition grow_move :: "'v hash_table \<Rightarrow> 'v hash_table_elem list list \<Rightarrow> 'v hash_table_elem \<Rightarrow>
    'v hash_table_elem list list" where
  "grow_move table vec e =
     (let index = hash_table_get_index table (key e) in vec[index := e # vec ! index])"

definition hash_table_grow :: "'v hash_table \<Rightarrow> 'v hash_table" where
  "hash_table_grow table0 =
     (let table = table0\<lparr>ht_size := ht_size table0 * 2\<rparr>
      in table\<lparr>elem_vector :=
           foldl (grow_move table) (replicate (ht_size table) []) (concat (elem_vector table0))\<rparr>)"

text \<open>The position of the first element of a collision list whose key compares equal.\<close>

primrec chain_find :: "(string \<Rightarrow> string \<Rightarrow> int) \<Rightarrow> string \<Rightarrow> 'v hash_table_elem list \<Rightarrow> nat \<Rightarrow> nat ptr" where
  "chain_find cmp k [] i = NULL"
| "chain_find cmp k (e # es) i = (if cmp k (key e) = 0 then Some i else chain_find cmp k es (i + 1))"

text \<open>\<open>hash_table_find\<close> returns the element (as a position in the list) and the index.\<close>

definition hash_table_find :: "'v hash_table \<Rightarrow> string \<Rightarrow> nat ptr \<times> nat" where
  "hash_table_find table k =
     (let index = hash_table_get_index table k
      in (chain_find (str_compare_func table) k (elem_vector table ! index) 0, index))"

definition hash_table_create :: "int \<Rightarrow> bool \<Rightarrow> 'v hash_table" where
  "hash_table_create size0 cs =
     (let sz = nat (if size0 < HASH_TABLE_MIN_INITIAL_SIZE then HASH_TABLE_MIN_INITIAL_SIZE else size0)
      in \<lparr>ht_count = 0, ht_size = sz, case_sensitive = cs, find_op = False, find_index = 0,
          find_elem = NULL, elem_vector = replicate sz []\<rparr>)"

definition hash_table_clear :: "'v hash_table \<Rightarrow> 'v hash_table" where
  "hash_table_clear table =
     table\<lparr>find_op := False, elem_vector := map (\<lambda>_. []) (elem_vector table), ht_count := 0\<rparr>"

text \<open>The result is the new table and the return value, or the failed assertion.\<close>

definition hash_table_insert :: "'v hash_table \<Rightarrow> string \<Rightarrow> 'v ptr \<Rightarrow> ('v hash_table \<times> bool) run" where
  "hash_table_insert table0 k d =
     (let table1 = table0\<lparr>find_op := False\<rparr>
      in case d of
           None \<Rightarrow> Inr (table1, False)
         | Some v \<Rightarrow>
             let table = (if ht_size table1 div 2 \<le> ht_count table1 then hash_table_grow table1 else table1)
             in case hash_table_find table k of
                  (Some _, _) \<Rightarrow> Inr (table, False)
                | (None, index) \<Rightarrow>
                    let table' = table\<lparr>elem_vector := (elem_vector table)
                                         [index := hash_table_elem_create k v # elem_vector table ! index],
                                       ht_count := ht_count table + 1\<rparr>
                    in if ht_count table' < ht_size table' then Inr (table', True) else Inl Assert)"

definition hash_table_set :: "'v hash_table \<Rightarrow> string \<Rightarrow> 'v ptr \<Rightarrow> 'v hash_table \<times> bool" where
  "hash_table_set table k d =
     (case d of
        None \<Rightarrow> (table, False)
      | Some v \<Rightarrow>
          (case hash_table_find table k of
             (None, _) \<Rightarrow> (table, False)
           | (Some i, index) \<Rightarrow>
               (table\<lparr>elem_vector := (elem_vector table)[index :=
                    (elem_vector table ! index)[i := (elem_vector table ! index ! i)\<lparr>data := v\<rparr>]]\<rparr>, True)))"

definition hash_table_count :: "'v hash_table \<Rightarrow> nat" where
  "hash_table_count table = ht_count table"

definition hash_table_get :: "'v hash_table \<Rightarrow> string \<Rightarrow> 'v ptr" where
  "hash_table_get table k =
     (case hash_table_find table k of
        (None, _) \<Rightarrow> NULL
      | (Some i, index) \<Rightarrow> Some (data (elem_vector table ! index ! i)))"

text \<open>The search and unlink loop of \<open>hash_table_remove\<close>, which compares with the arguments in
  the other order: the data of the removed element and the list without it.\<close>

primrec chain_remove :: "(string \<Rightarrow> string \<Rightarrow> int) \<Rightarrow> string \<Rightarrow> 'v hash_table_elem list \<Rightarrow>
    ('v \<times> 'v hash_table_elem list) option" where
  "chain_remove cmp k [] = None"
| "chain_remove cmp k (e # es) =
     (if cmp (key e) k = 0 then Some (data e, es)
      else map_option (\<lambda>(d, es'). (d, e # es')) (chain_remove cmp k es))"

definition hash_table_remove :: "'v hash_table \<Rightarrow> string \<Rightarrow> ('v hash_table \<times> 'v ptr) run" where
  "hash_table_remove table0 k =
     (let table = table0\<lparr>find_op := False\<rparr>;
          index = hash_table_get_index table k
      in case chain_remove (str_compare_func table) k (elem_vector table ! index) of
           None \<Rightarrow> Inr (table, NULL)
         | Some (d, es) \<Rightarrow>
             if 0 < ht_count table
             then Inr (table\<lparr>elem_vector := (elem_vector table)[index := es],
                             ht_count := ht_count table - 1\<rparr>, Some d)
             else Inl Assert)"

text \<open>The scan of the vector from \<open>index\<close> on for a list that is not empty.\<close>

function first_nonempty :: "'v hash_table \<Rightarrow> nat \<Rightarrow> nat option" where
  "first_nonempty table index =
     (if index < ht_size table
      then if elem_vector table ! index \<noteq> [] then Some index else first_nonempty table (index + 1)
      else None)"
  by pat_completeness auto
termination
  by (relation "measure (\<lambda>(table, index). ht_size table - index)") auto

declare first_nonempty.simps [simp del]

text \<open>The enumeration returns the key and, through \<open>data_ptr\<close>, the data; both are \<open>NULL\<close> at
  the end. (In the one case in which \<open>hash_table_find_next\<close> leaves \<open>*data_ptr\<close> alone, a call
  after the end was reached, the model also returns \<open>NULL\<close>.)\<close>

definition hash_table_find_first :: "'v hash_table \<Rightarrow> ('v hash_table \<times> (string \<times> 'v) ptr) run" where
  "hash_table_find_first table0 =
     (let table = table0\<lparr>find_op := True, find_index := 0, find_elem := NULL\<rparr>
      in if ht_count table = 0 then Inr (table, NULL)
         else case first_nonempty table 0 of
                None \<Rightarrow> Inl Panic
              | Some index \<Rightarrow>
                  let e = hd (elem_vector table ! index)
                  in Inr (table\<lparr>find_index := index, find_elem := Some 0\<rparr>, Some (key e, data e)))"

definition hash_table_find_next :: "'v hash_table \<Rightarrow> ('v hash_table \<times> (string \<times> 'v) ptr) run" where
  "hash_table_find_next table =
     (if \<not> find_op table then Inl Panic
      else case find_elem table of
             None \<Rightarrow> Inr (table, NULL)
           | Some i \<Rightarrow>
               let chain = elem_vector table ! find_index table
               in if i + 1 < length chain
                  then let e = chain ! (i + 1)
                       in Inr (table\<lparr>find_elem := Some (i + 1)\<rparr>, Some (key e, data e))
                  else case first_nonempty table (find_index table + 1) of
                         Some index \<Rightarrow>
                           let e = hd (elem_vector table ! index)
                           in Inr (table\<lparr>find_index := index, find_elem := Some 0\<rparr>, Some (key e, data e))
                       | None \<Rightarrow> Inr (table\<lparr>find_index := 0, find_elem := NULL\<rparr>, NULL))"

section \<open>Abstract value and invariant\<close>

text \<open>Keys are compared up to case unless the table is case sensitive.\<close>

definition canon :: "'v hash_table \<Rightarrow> string \<Rightarrow> string" where
  "canon table k = (if case_sensitive table then k else map tolower k)"

definition ht_elems :: "'v hash_table \<Rightarrow> 'v hash_table_elem list" where
  "ht_elems table = concat (elem_vector table)"

definition hash_table_map :: "'v hash_table \<Rightarrow> (string \<rightharpoonup> 'v)" where
  "hash_table_map table = map_of (map (\<lambda>e. (canon table (key e), data e)) (ht_elems table))"

definition ht_keys :: "'v hash_table \<Rightarrow> string multiset" where
  "ht_keys table = image_mset (\<lambda>e. canon table (key e)) (mset (ht_elems table))"

text \<open>Every element lies in the list its key hashes to, no two elements have equal keys, and
  the count is right and smaller than the vector.\<close>

definition hash_table_inv :: "'v hash_table \<Rightarrow> bool" where
  "hash_table_inv table \<longleftrightarrow>
     5 \<le> ht_size table \<and> length (elem_vector table) = ht_size table \<and>
     ht_count table = length (ht_elems table) \<and> ht_count table < ht_size table \<and>
     distinct (map (\<lambda>e. canon table (key e)) (ht_elems table)) \<and>
     (\<forall>i < ht_size table. \<forall>e \<in> set (elem_vector table ! i). hash_table_get_index table (key e) = i)"

lemma hash_table_invD:
  assumes "hash_table_inv table"
  shows "5 \<le> ht_size table" "length (elem_vector table) = ht_size table"
    "ht_count table = length (ht_elems table)" "ht_count table < ht_size table"
    "distinct (map (\<lambda>e. canon table (key e)) (ht_elems table))"
    "\<And>i e. i < ht_size table \<Longrightarrow> e \<in> set (elem_vector table ! i) \<Longrightarrow>
      hash_table_get_index table (key e) = i"
  using assms by (auto simp: hash_table_inv_def)

lemma compare_canon [simp]: "str_compare_func table a b = 0 \<longleftrightarrow> canon table a = canon table b"
  by (simp add: str_compare_func_def canon_def)

lemma hash_loop_lower: "hash_loop False ks h = hash_loop True (map tolower ks) h"
  by (induction ks arbitrary: h) (simp_all add: Let_def)

lemma get_index_canon:
  "hash_table_get_index table k = unat (hash_loop True (canon table k) 5381) mod ht_size table"
  by (simp add: hash_table_get_index_def canon_def hash_loop_lower)

lemma get_index_less: "0 < ht_size table \<Longrightarrow> hash_table_get_index table k < ht_size table"
  by (simp add: hash_table_get_index_def)

lemma canon_frame [simp]:
  "canon (table\<lparr>ht_count := c\<rparr>) = canon table" "canon (table\<lparr>ht_size := n\<rparr>) = canon table"
  "canon (table\<lparr>find_op := b\<rparr>) = canon table" "canon (table\<lparr>find_index := i\<rparr>) = canon table"
  "canon (table\<lparr>find_elem := p\<rparr>) = canon table" "canon (table\<lparr>elem_vector := v\<rparr>) = canon table"
  by (auto simp: canon_def)

lemma get_index_frame [simp]:
  "hash_table_get_index (table\<lparr>ht_count := c\<rparr>) = hash_table_get_index table"
  "hash_table_get_index (table\<lparr>find_op := b\<rparr>) = hash_table_get_index table"
  "hash_table_get_index (table\<lparr>find_index := i\<rparr>) = hash_table_get_index table"
  "hash_table_get_index (table\<lparr>find_elem := p\<rparr>) = hash_table_get_index table"
  "hash_table_get_index (table\<lparr>elem_vector := v\<rparr>) = hash_table_get_index table"
  by (auto simp: hash_table_get_index_def)

lemma compare_frame [simp]:
  "str_compare_func (table\<lparr>find_op := b\<rparr>) = str_compare_func table"
  by (auto simp: str_compare_func_def)

lemma elems_frame [simp]:
  "ht_elems (table\<lparr>ht_count := c\<rparr>) = ht_elems table" "ht_elems (table\<lparr>ht_size := n\<rparr>) = ht_elems table"
  "ht_elems (table\<lparr>find_op := b\<rparr>) = ht_elems table" "ht_elems (table\<lparr>find_index := i\<rparr>) = ht_elems table"
  "ht_elems (table\<lparr>find_elem := p\<rparr>) = ht_elems table"
  "ht_elems (table\<lparr>elem_vector := v\<rparr>) = concat v"
  by (auto simp: ht_elems_def)

text \<open>The fields of the enumeration play no part in the abstract value.\<close>

lemma find_frame [simp]:
  "hash_table_inv (table\<lparr>find_op := b\<rparr>) = hash_table_inv table"
  "hash_table_inv (table\<lparr>find_index := i\<rparr>) = hash_table_inv table"
  "hash_table_inv (table\<lparr>find_elem := p\<rparr>) = hash_table_inv table"
  "hash_table_map (table\<lparr>find_op := b\<rparr>) = hash_table_map table"
  "hash_table_map (table\<lparr>find_index := i\<rparr>) = hash_table_map table"
  "hash_table_map (table\<lparr>find_elem := p\<rparr>) = hash_table_map table"
  by (simp_all add: hash_table_inv_def hash_table_map_def)

lemma hash_table_map_Some:
  assumes "hash_table_inv table"
  shows "hash_table_map table c = Some v \<longleftrightarrow>
    (\<exists>e \<in> set (ht_elems table). canon table (key e) = c \<and> data e = v)"
proof -
  have "distinct (map fst (map (\<lambda>e. (canon table (key e), data e)) (ht_elems table)))"
    using hash_table_invD(5) [OF assms] by (simp add: comp_def)
  then show ?thesis
    unfolding hash_table_map_def by (simp only: map_of_eq_Some_iff) auto
qed

lemma hash_table_map_None:
  "hash_table_map table c = None \<longleftrightarrow> (\<forall>e \<in> set (ht_elems table). canon table (key e) \<noteq> c)"
  by (simp add: hash_table_map_def map_of_eq_None_iff image_image) auto

text \<open>An element with a given key can only be in one collision list.\<close>

lemma bucket_elem:
  assumes "hash_table_inv table" "e \<in> set (ht_elems table)"
  shows "e \<in> set (elem_vector table ! hash_table_get_index table (key e))"
  using assms(2) hash_table_invD(2,6) [OF assms(1)] unfolding ht_elems_def set_concat_nth by metis

lemma get_index_cong:
  "canon table a = canon table b \<Longrightarrow> hash_table_get_index table a = hash_table_get_index table b"
  by (simp add: get_index_canon)

section \<open>Searching\<close>

lemma chain_find_None: "chain_find cmp k es i = None \<longleftrightarrow> (\<forall>e \<in> set es. cmp k (key e) \<noteq> 0)"
  by (induction es arbitrary: i) auto

lemma chain_find_Some:
  "chain_find cmp k es i = Some j \<Longrightarrow> i \<le> j \<and> j - i < length es \<and> cmp k (key (es ! (j - i))) = 0"
proof (induction es arbitrary: i)
  case (Cons e es)
  show ?case
  proof (cases "cmp k (key e) = 0")
    case False
    then have "Suc i \<le> j \<and> j - Suc i < length es \<and> cmp k (key (es ! (j - Suc i))) = 0"
      using Cons by simp
    moreover then have "j - i = Suc (j - Suc i)" by linarith
    ultimately show ?thesis by auto
  qed (use Cons in auto)
qed simp

lemma hash_table_find_correct:
  assumes "hash_table_inv table"
  shows "hash_table_find table k = (None, index) \<Longrightarrow>
      hash_table_map table (canon table k) = None \<and> index = hash_table_get_index table k"
    and "hash_table_find table k = (Some i, index) \<Longrightarrow>
      index = hash_table_get_index table k \<and> i < length (elem_vector table ! index) \<and>
      canon table (key (elem_vector table ! index ! i)) = canon table k \<and>
      hash_table_map table (canon table k) = Some (data (elem_vector table ! index ! i))"
proof -
  note inv = hash_table_invD [OF assms]
  have lt: "hash_table_get_index table k < length (elem_vector table)"
    using inv(1,2) get_index_less [of table k] by linarith
  show "hash_table_map table (canon table k) = None \<and> index = hash_table_get_index table k"
    if "hash_table_find table k = (None, index)"
  proof -
    have f: "index = hash_table_get_index table k"
        "\<forall>e \<in> set (elem_vector table ! hash_table_get_index table k). canon table k \<noteq> canon table (key e)"
      using that by (auto simp: hash_table_find_def Let_def chain_find_None)
    have "canon table (key e) \<noteq> canon table k" if "e \<in> set (ht_elems table)" for e
      using f(2) bucket_elem [OF assms that] get_index_cong [of table "key e" k] by metis
    with f(1) show ?thesis by (simp add: hash_table_map_None)
  qed
  show "index = hash_table_get_index table k \<and> i < length (elem_vector table ! index) \<and>
      canon table (key (elem_vector table ! index ! i)) = canon table k \<and>
      hash_table_map table (canon table k) = Some (data (elem_vector table ! index ! i))"
    if "hash_table_find table k = (Some i, index)"
  proof -
    have f: "index = hash_table_get_index table k" "i < length (elem_vector table ! index)"
        "canon table k = canon table (key (elem_vector table ! index ! i))"
      using that chain_find_Some [of "str_compare_func table" k "elem_vector table ! index" 0 i]
      by (auto simp: hash_table_find_def Let_def)
    then have "elem_vector table ! index ! i \<in> set (ht_elems table)"
      using lt nth_mem unfolding ht_elems_def set_concat_nth by blast
    with f show ?thesis by (auto simp: hash_table_map_Some [OF assms])
  qed
qed

lemma hash_table_get_correct:
  "hash_table_inv table \<Longrightarrow> hash_table_get table k = hash_table_map table (canon table k)"
  using hash_table_find_correct [of table k]
  by (auto simp: hash_table_get_def split: prod.split option.split)

section \<open>Growing\<close>

text \<open>The abstract value depends on the elements only, not on where they lie.\<close>

lemma hash_table_map_cong:
  assumes "hash_table_inv table" "hash_table_inv table'" "canon table' = canon table"
    and "set (ht_elems table') = set (ht_elems table)"
  shows "hash_table_map table' = hash_table_map table"
proof
  fix c
  have "hash_table_map table' c = Some v \<longleftrightarrow> hash_table_map table c = Some v" for v
    using assms by (simp add: hash_table_map_Some)
  then show "hash_table_map table' c = hash_table_map table c"
    by (metis not_None_eq)
qed

lemma grow_move_step:
  assumes "0 < ht_size table" "length vec = ht_size table"
    and "\<forall>i < ht_size table. \<forall>e \<in> set (vec ! i). hash_table_get_index table (key e) = i"
  shows "length (grow_move table vec e) = ht_size table"
    and "mset (concat (grow_move table vec e)) = add_mset e (mset (concat vec))"
    and "\<forall>i < ht_size table. \<forall>d \<in> set (grow_move table vec e ! i). hash_table_get_index table (key d) = i"
  using assms get_index_less [of table "key e"]
  by (auto simp: grow_move_def Let_def mset_concat_cons nth_list_update)

lemma grow_move_all:
  assumes "0 < ht_size table" "length vec = ht_size table"
    and "\<forall>i < ht_size table. \<forall>e \<in> set (vec ! i). hash_table_get_index table (key e) = i"
  shows "length (foldl (grow_move table) vec es) = ht_size table \<and>
    mset (concat (foldl (grow_move table) vec es)) = mset (concat vec) + mset es \<and>
    (\<forall>i < ht_size table. \<forall>d \<in> set (foldl (grow_move table) vec es ! i).
      hash_table_get_index table (key d) = i)"
  using assms
proof (induction es arbitrary: vec)
  case (Cons e es)
  note step = grow_move_step [OF Cons.prems, of e]
  from Cons.IH [OF Cons.prems(1) step(1,3)] step(2) show ?case by simp
qed simp

lemma concat_replicate_Nil [simp]: "concat (replicate n []) = []"
  by (induction n) simp_all

lemma hash_table_grow_correct:
  assumes "hash_table_inv table"
  shows "hash_table_inv (hash_table_grow table)"
    "hash_table_map (hash_table_grow table) = hash_table_map table"
    "ht_count (hash_table_grow table) = ht_count table"
    "ht_size (hash_table_grow table) = 2 * ht_size table"
    "canon (hash_table_grow table) = canon table"
    "find_op (hash_table_grow table) = find_op table"
    "case_sensitive (hash_table_grow table) = case_sensitive table"
proof -
  note inv = hash_table_invD [OF assms]
  let ?g = "hash_table_grow table"
  define t where "t = table\<lparr>ht_size := ht_size table * 2\<rparr>"
  define V where "V = foldl (grow_move t) (replicate (ht_size t) []) (concat (elem_vector table))"
  have g: "?g = t\<lparr>elem_vector := V\<rparr>"
    by (simp add: hash_table_grow_def Let_def t_def V_def)
  show c: "ht_count ?g = ht_count table" and z: "ht_size ?g = 2 * ht_size table"
    and cn: "canon ?g = canon table" and "find_op ?g = find_op table"
    and "case_sensitive ?g = case_sensitive table"
    by (simp_all add: hash_table_grow_def Let_def)
  have G: "length (elem_vector ?g) = ht_size ?g" "mset (ht_elems ?g) = mset (ht_elems table)"
      "\<forall>i < ht_size ?g. \<forall>e \<in> set (elem_vector ?g ! i). hash_table_get_index ?g (key e) = i"
    using grow_move_all [of t "replicate (ht_size t) []" "concat (elem_vector table)", folded V_def] inv(1)
    unfolding g by (simp_all add: t_def ht_elems_def)
  have "mset (map (\<lambda>e. canon table (key e)) (ht_elems ?g)) = mset (map (\<lambda>e. canon table (key e)) (ht_elems table))"
    using G(2) by simp
  then have d: "distinct (map (\<lambda>e. canon table (key e)) (ht_elems ?g))"
    using inv(5) mset_eq_imp_distinct_iff by blast
  show i: "hash_table_inv ?g"
    unfolding hash_table_inv_def cn c using G d inv(1,3,4) mset_eq_length [OF G(2)] by (simp add: z)
  show "hash_table_map ?g = hash_table_map table"
    by (rule hash_table_map_cong [OF assms i cn]) (use G(2) mset_eq_setD in blast)
qed

section \<open>Insertion and update\<close>

lemma hash_table_inv_create:
  "hash_table_inv (hash_table_create n cs)" "hash_table_map (hash_table_create n cs) = Map.empty"
  by (auto simp: hash_table_inv_def hash_table_create_def Let_def ht_elems_def
      HASH_TABLE_MIN_INITIAL_SIZE_def hash_table_map_def)

lemma hash_table_clear_correct:
  assumes "hash_table_inv table"
  shows "hash_table_inv (hash_table_clear table)" "hash_table_map (hash_table_clear table) = Map.empty"
  using hash_table_invD(1,2) [OF assms] concat_replicate_Nil [of "length (elem_vector table)"]
  by (auto simp: hash_table_inv_def hash_table_clear_def ht_elems_def hash_table_map_def map_replicate_const)

text \<open>Adding a fresh key at the head of its list.\<close>

lemma hash_table_add_elem:
  assumes inv: "hash_table_inv table" and fresh: "hash_table_map table (canon table (key e)) = None"
    and room: "ht_count table + 1 < ht_size table"
  defines "index \<equiv> hash_table_get_index table (key e)"
  defines "t \<equiv> table\<lparr>elem_vector := (elem_vector table)[index := e # elem_vector table ! index],
                     ht_count := ht_count table + 1\<rparr>"
  shows "hash_table_inv t" "hash_table_map t = (hash_table_map table)(canon table (key e) \<mapsto> data e)"
proof -
  note D = hash_table_invD [OF inv]
  have lt: "index < length (elem_vector table)"
    using D(1,2) get_index_less [of table "key e"] by (simp add: index_def)
  have m: "mset (ht_elems t) = add_mset e (mset (ht_elems table))"
    using mset_concat_cons [OF lt] by (simp add: t_def ht_elems_def)
  have set: "set (ht_elems t) = insert e (set (ht_elems table))"
    using arg_cong [OF m, of set_mset] by simp
  have cn: "canon t = canon table" and c: "ht_count t = ht_count table + 1" and z: "ht_size t = ht_size table"
    by (simp_all add: t_def)
  have "mset (map (\<lambda>e. canon table (key e)) (ht_elems t)) =
      mset (canon table (key e) # map (\<lambda>e. canon table (key e)) (ht_elems table))"
    using m by simp
  moreover have "distinct (canon table (key e) # map (\<lambda>e. canon table (key e)) (ht_elems table))"
    using D(5) fresh by (auto simp: hash_table_map_None)
  ultimately have d: "distinct (map (\<lambda>e. canon table (key e)) (ht_elems t))"
    using mset_eq_imp_distinct_iff by blast
  have b: "\<forall>i < ht_size t. \<forall>d \<in> set (elem_vector t ! i). hash_table_get_index t (key d) = i"
    using D(2,6) lt by (auto simp: t_def nth_list_update index_def)
  show i: "hash_table_inv t"
    unfolding hash_table_inv_def using b d D(1-4) room mset_eq_length [of "ht_elems t" "e # ht_elems table"] m
    by (auto simp: cn c z) (simp add: t_def)
  show "hash_table_map t = (hash_table_map table)(canon table (key e) \<mapsto> data e)"
  proof
    fix k
    have "hash_table_map t k = Some v \<longleftrightarrow> ((hash_table_map table)(canon table (key e) \<mapsto> data e)) k = Some v" for v
      using fresh unfolding hash_table_map_Some [OF i] cn set
      by (auto simp: hash_table_map_Some [OF inv] hash_table_map_None)
    then show "hash_table_map t k = ((hash_table_map table)(canon table (key e) \<mapsto> data e)) k"
      by (metis not_None_eq)
  qed
qed

lemma case_sensitive_canon: "case_sensitive t = case_sensitive u \<Longrightarrow> canon t = canon u"
  by (rule ext) (simp add: canon_def)

lemma hash_table_insert_correct:
  assumes "hash_table_inv table"
  shows "\<exists>table' r. hash_table_insert table k d = Inr (table', r) \<and> hash_table_inv table' \<and>
    \<not> find_op table' \<and> case_sensitive table' = case_sensitive table \<and>
    (r \<longleftrightarrow> d \<noteq> NULL \<and> hash_table_map table (canon table k) = None) \<and>
    hash_table_map table' = (if r then (hash_table_map table)(canon table k := d) else hash_table_map table)"
proof (cases d)
  case None
  then have "hash_table_insert table k d = Inr (table\<lparr>find_op := False\<rparr>, False)"
    by (simp add: hash_table_insert_def Let_def)
  with None show ?thesis
    using assms by (intro exI [of _ "table\<lparr>find_op := False\<rparr>"] exI [of _ False]) simp
next
  case (Some v)
  let ?t1 = "table\<lparr>find_op := False\<rparr>"
  define t where "t = (if ht_size ?t1 div 2 \<le> ht_count ?t1 then hash_table_grow ?t1 else ?t1)"
  have inv1: "hash_table_inv ?t1" using assms by simp
  note grow = hash_table_grow_correct [OF inv1]
  have t: "hash_table_inv t" "hash_table_map t = hash_table_map table" "\<not> find_op t"
      "case_sensitive t = case_sensitive table" "ht_count t + 1 < ht_size t"
    using grow assms hash_table_invD(1,4) [OF assms] by (auto simp: t_def)
  have cn: "canon t = canon table" by (rule case_sensitive_canon [OF t(4)])
  have unfold: "hash_table_insert table k d =
      (case hash_table_find t k of
         (Some _, _) \<Rightarrow> Inr (t, False)
       | (None, index) \<Rightarrow>
           let table' = t\<lparr>elem_vector := (elem_vector t)
                            [index := hash_table_elem_create k v # elem_vector t ! index],
                          ht_count := ht_count t + 1\<rparr>
           in if ht_count table' < ht_size table' then Inr (table', True) else Inl Assert)"
    unfolding hash_table_insert_def t_def Let_def Some by (simp only: option.case)
  obtain p index where f: "hash_table_find t k = (p, index)" by fastforce
  show ?thesis
  proof (cases p)
    case (Some i)
    then show ?thesis using hash_table_find_correct(2) [OF t(1)] f t cn unfold by fastforce
  next
    case None
    let ?e = "hash_table_elem_create k v"
    have n: "hash_table_map t (canon t k) = None" "index = hash_table_get_index t k"
      using hash_table_find_correct(1) [OF t(1)] f None by auto
    have e: "key ?e = k" "data ?e = v" by (simp_all add: hash_table_elem_create_def)
    note add = hash_table_add_elem [OF t(1), of ?e, unfolded e, OF n(1) t(5), folded n(2)]
    let ?t = "t\<lparr>elem_vector := (elem_vector t)[index := ?e # elem_vector t ! index],
        ht_count := ht_count t + 1\<rparr>"
    have "hash_table_insert table k d = Inr (?t, True)"
      using unfold f None t(5) by (simp add: Let_def)
    then show ?thesis using add n(1) t \<open>d = Some v\<close>
      by (intro exI [of _ ?t] exI [of _ True]) (simp add: cn)
  qed
qed

text \<open>Replacing or dropping one element, seen on the abstract map.\<close>

lemma elems_inj:
  assumes "hash_table_inv table" "x \<in> set (ht_elems table)" "y \<in> set (ht_elems table)"
    and "canon table (key x) = canon table (key y)"
  shows "x = y"
  using hash_table_invD(5) [OF assms(1)] assms(2-4) by (auto simp: distinct_map inj_on_def)

lemma hash_table_map_replace:
  assumes "hash_table_inv table" "hash_table_inv t" "canon t = canon table"
    and "e \<in> set (ht_elems table)" "key e' = key e"
    and "set (ht_elems t) = insert e' (set (ht_elems table) - {e})"
  shows "hash_table_map t = (hash_table_map table)(canon table (key e) \<mapsto> data e')"
proof
  fix c
  have "hash_table_map t c = Some w \<longleftrightarrow>
      ((hash_table_map table)(canon table (key e) \<mapsto> data e')) c = Some w" for w
    unfolding hash_table_map_Some [OF assms(2)] assms(3,6)
    using assms(4,5) elems_inj [OF assms(1)] by (auto simp: hash_table_map_Some [OF assms(1)])
  then show "hash_table_map t c = ((hash_table_map table)(canon table (key e) \<mapsto> data e')) c"
    by (metis not_None_eq)
qed

lemma hash_table_map_drop:
  assumes "hash_table_inv table" "hash_table_inv t" "canon t = canon table"
    and "e \<in> set (ht_elems table)"
    and "set (ht_elems t) = set (ht_elems table) - {e}"
  shows "hash_table_map t = (hash_table_map table)(canon table (key e) := None)"
proof
  fix c
  have "hash_table_map t c = Some w \<longleftrightarrow>
      ((hash_table_map table)(canon table (key e) := None)) c = Some w" for w
    unfolding hash_table_map_Some [OF assms(2)] assms(3,5)
    using assms(4) elems_inj [OF assms(1)] by (auto simp: hash_table_map_Some [OF assms(1)])
  then show "hash_table_map t c = ((hash_table_map table)(canon table (key e) := None)) c"
    by (metis not_None_eq)
qed

lemma set_mset_remove:
  assumes "distinct xs" "e \<in> set xs" "mset ys = add_mset e' (mset xs - {#e#})"
  shows "set ys = insert e' (set xs - {e})"
proof -
  have "mset ys = mset (e' # remove1 e xs)" using assms(3) by simp
  then have "set ys = set (e' # remove1 e xs)" by (rule mset_eq_setD)
  then show ?thesis using assms(1) by simp
qed

text \<open>Storing new data in element \<open>i\<close> of list \<open>index\<close>.\<close>

lemma hash_table_store_elem:
  fixes table :: "'v hash_table" and v :: 'v
  assumes inv: "hash_table_inv table" and lt: "index < length (elem_vector table)"
    and i: "i < length (elem_vector table ! index)"
  defines "e \<equiv> elem_vector table ! index ! i"
  defines "t \<equiv> table\<lparr>elem_vector := (elem_vector table)
      [index := (elem_vector table ! index)[i := e\<lparr>data := v\<rparr>]]\<rparr>"
  shows "hash_table_inv t" "hash_table_map t = (hash_table_map table)(canon table (key e) \<mapsto> v)"
proof -
  note D = hash_table_invD [OF inv]
  let ?c = "elem_vector table ! index"
  have e: "e \<in> set ?c" using i by (simp add: e_def)
  then have mem: "e \<in> set (ht_elems table)" using lt set_concat_nth by (fastforce simp: ht_elems_def)
  have "mset (ht_elems t) + mset ?c = mset (ht_elems table) + add_mset (e\<lparr>data := v\<rparr>) (mset ?c - {#e#})"
    using mset_concat_update [OF lt] i by (simp add: t_def ht_elems_def mset_update e_def)
  moreover obtain M where M: "mset ?c = add_mset e M" using e by (metis in_multiset_in_set mset_add)
  ultimately have "add_mset e (mset (ht_elems t)) = add_mset (e\<lparr>data := v\<rparr>) (mset (ht_elems table))"
    by simp
  moreover obtain N where N: "mset (ht_elems table) = add_mset e N" using mem by (metis in_multiset_in_set mset_add)
  ultimately have m: "mset (ht_elems t) = add_mset (e\<lparr>data := v\<rparr>) (mset (ht_elems table) - {#e#})"
    by (simp add: add_mset_commute)
  have cn: "canon t = canon table" by (simp add: t_def)
  have keys: "mset (map (\<lambda>e. canon table (key e)) (ht_elems t)) = mset (map (\<lambda>e. canon table (key e)) (ht_elems table))"
    using m N by simp
  have d: "distinct (map (\<lambda>e. canon table (key e)) (ht_elems t))"
    using keys D(5) mset_eq_imp_distinct_iff by blast
  have len: "length (ht_elems t) = length (ht_elems table)"
    using mset_eq_length [OF keys] by simp
  have b: "\<forall>j < ht_size t. \<forall>x \<in> set (elem_vector t ! j). hash_table_get_index t (key x) = j"
  proof (intro allI impI ballI)
    fix j x assume j: "j < ht_size t" and x: "x \<in> set (elem_vector t ! j)"
    show "hash_table_get_index t (key x) = j"
    proof (cases "j = index")
      case True
      then have "x \<in> insert (e\<lparr>data := v\<rparr>) (set ?c)"
        using x lt set_update_subset_insert [of ?c i "e\<lparr>data := v\<rparr>"] by (auto simp: t_def)
      then show ?thesis using D(2,6) e lt True by (auto simp: t_def)
    next
      case False
      then show ?thesis using x j D(6) by (simp add: t_def)
    qed
  qed
  show inv': "hash_table_inv t"
    unfolding hash_table_inv_def cn using D(1-4) d len b by (simp add: t_def)
  have "set (ht_elems t) = insert (e\<lparr>data := v\<rparr>) (set (ht_elems table) - {e})"
    by (rule set_mset_remove [OF _ mem m]) (use D(5) in \<open>simp add: distinct_map\<close>)
  from hash_table_map_replace [OF inv inv' cn mem _ this]
  show "hash_table_map t = (hash_table_map table)(canon table (key e) \<mapsto> v)" by simp
qed

lemma hash_table_set_correct:
  assumes "hash_table_inv table"
  shows "\<exists>table' r. hash_table_set table k d = (table', r) \<and> hash_table_inv table' \<and>
    find_op table' = find_op table \<and> case_sensitive table' = case_sensitive table \<and>
    (r \<longleftrightarrow> d \<noteq> NULL \<and> hash_table_map table (canon table k) \<noteq> None) \<and>
    hash_table_map table' = (if r then (hash_table_map table)(canon table k := d) else hash_table_map table)"
proof (cases "d = NULL \<or> fst (hash_table_find table k) = None")
  case True
  obtain p index where f: "hash_table_find table k = (p, index)" by fastforce
  then have "p = None \<Longrightarrow> hash_table_map table (canon table k) = None"
    using hash_table_find_correct(1) [OF assms] by blast
  then show ?thesis using True f assms by (cases d) (auto simp: hash_table_set_def)
next
  case False
  then obtain v i index where v: "d = Some v" and f: "hash_table_find table k = (Some i, index)"
    by (metis not_None_eq prod.collapse)
  note D = hash_table_invD [OF assms]
  note F = hash_table_find_correct(2) [OF assms f]
  have lt: "index < length (elem_vector table)"
    using F D(1,2) get_index_less [of table k] by simp
  have i: "i < length (elem_vector table ! index)" using F by blast
  have ck: "canon table (key (elem_vector table ! index ! i)) = canon table k" using F by blast
  note st = hash_table_store_elem [OF assms lt i, where v = v, unfolded ck]
  show ?thesis using st v F f by (auto simp: hash_table_set_def)
qed

section \<open>Removal\<close>

lemma chain_remove_None: "chain_remove cmp k es = None \<longleftrightarrow> (\<forall>e \<in> set es. cmp (key e) k \<noteq> 0)"
  by (induction es) auto

lemma chain_remove_Some:
  "chain_remove cmp k es = Some (d, es') \<Longrightarrow>
   \<exists>xs e ys. es = xs @ e # ys \<and> es' = xs @ ys \<and> d = data e \<and> cmp (key e) k = 0"
proof (induction es arbitrary: es')
  case (Cons a es)
  show ?case
  proof (cases "cmp (key a) k = 0")
    case True
    then show ?thesis using Cons.prems by (intro exI [of _ "[]"]) auto
  next
    case False
    then obtain es2 where "chain_remove cmp k es = Some (d, es2)" "es' = a # es2"
      using Cons.prems by auto
    then show ?thesis using Cons.IH by (metis append_Cons)
  qed
qed simp

lemma hash_table_remove_correct:
  assumes "hash_table_inv table"
  shows "\<exists>table'. hash_table_remove table k = Inr (table', hash_table_map table (canon table k)) \<and>
    hash_table_inv table' \<and> \<not> find_op table' \<and> case_sensitive table' = case_sensitive table \<and>
    hash_table_map table' = (hash_table_map table)(canon table k := None)"
proof -
  note D = hash_table_invD [OF assms]
  let ?t1 = "table\<lparr>find_op := False\<rparr>"
  define index where "index = hash_table_get_index table k"
  let ?c = "elem_vector table ! index"
  have lt: "index < length (elem_vector table)"
    using D(1,2) get_index_less [of table k] by (simp add: index_def)
  show ?thesis
  proof (cases "chain_remove (str_compare_func table) k ?c")
    case None
    have "canon table (key e) \<noteq> canon table k" if "e \<in> set (ht_elems table)" for e
      using None [unfolded chain_remove_None] bucket_elem [OF assms that]
        get_index_cong [of table "key e" k] unfolding index_def compare_canon by metis
    then have "hash_table_map table (canon table k) = None" by (simp add: hash_table_map_None)
    then show ?thesis using None assms by (auto simp: hash_table_remove_def Let_def index_def fun_upd_idem)
  next
    case (Some r)
    obtain d es where r: "r = (d, es)" by fastforce
    obtain xs e ys where c: "?c = xs @ e # ys" "es = xs @ ys" "d = data e" "canon table (key e) = canon table k"
      using chain_remove_Some [OF Some [unfolded r]] by auto
    have mem: "e \<in> set (ht_elems table)" using lt c(1) set_concat_nth by (fastforce simp: ht_elems_def)
    define t where "t = ?t1\<lparr>elem_vector := (elem_vector table)[index := es], ht_count := ht_count table - 1\<rparr>"
    have m: "add_mset e (mset (ht_elems t)) = mset (ht_elems table)"
      using mset_concat_update [OF lt, of es] c(1,2) by (simp add: t_def ht_elems_def)
    have cn: "canon t = canon table" by (simp add: t_def)
    have keys: "mset (canon table (key e) # map (\<lambda>e. canon table (key e)) (ht_elems t)) =
        mset (map (\<lambda>e. canon table (key e)) (ht_elems table))"
      using arg_cong [OF m, of "image_mset (\<lambda>e. canon table (key e))"] by simp
    then have d: "distinct (canon table (key e) # map (\<lambda>e. canon table (key e)) (ht_elems t))"
      using D(5) mset_eq_imp_distinct_iff by blast
    have len: "Suc (length (ht_elems t)) = length (ht_elems table)"
      using mset_eq_length [OF keys] by simp
    have b: "\<forall>j < ht_size t. \<forall>x \<in> set (elem_vector t ! j). hash_table_get_index t (key x) = j"
      using D(2,6) lt c by (auto simp: t_def nth_list_update)
    have inv': "hash_table_inv t"
      unfolding hash_table_inv_def cn using D(1-4) d len b by (auto simp: t_def)
    have "e \<notin> set (ht_elems t)" using d by auto
    then have set: "set (ht_elems t) = set (ht_elems table) - {e}"
      using arg_cong [OF m, of set_mset] by auto
    have "hash_table_map table (canon table k) = Some d"
      using mem c(3,4) by (auto simp: hash_table_map_Some [OF assms])
    moreover have "hash_table_remove table k = Inr (t, Some d)"
      using Some r len D(3) by (auto simp: hash_table_remove_def Let_def index_def t_def)
    ultimately show ?thesis
      using inv' hash_table_map_drop [OF assms inv' cn mem set] c(4) by (auto simp: t_def)
  qed
qed

section \<open>Enumeration\<close>

text \<open>The loop \<open>HASH_TABLE_FOR_EACH\<close> (or the same loop written out), with a body that only
  reads: the pairs of key and data it visits, in order. The fuel bounds the calls of
  \<open>hash_table_find_next\<close>; \<open>hash_table_for_each_correct\<close> shows that it suffices.\<close>

fun for_each_loop :: "nat \<Rightarrow> 'v hash_table \<Rightarrow> (string \<times> 'v) ptr \<Rightarrow>
    ('v hash_table \<times> (string \<times> 'v) list) run option" where
  "for_each_loop fuel table None = Some (Inr (table, []))"
| "for_each_loop 0 table (Some kv) = None"
| "for_each_loop (Suc fuel) table (Some kv) =
     (case hash_table_find_next table of
        Inl s \<Rightarrow> Some (Inl s)
      | Inr (table', next) \<Rightarrow>
          map_option (map_sum id (\<lambda>(t, kvs). (t, kv # kvs))) (for_each_loop fuel table' next))"

definition hash_table_for_each :: "'v hash_table \<Rightarrow> ('v hash_table \<times> (string \<times> 'v) list) run option" where
  "hash_table_for_each table =
     (case hash_table_find_first table of
        Inl s \<Rightarrow> Some (Inl s)
      | Inr (table', first) \<Rightarrow> for_each_loop (ht_count table) table' first)"

abbreviation kv_pair :: "'v hash_table_elem \<Rightarrow> string \<times> 'v" where
  "kv_pair e \<equiv> (key e, data e)"

text \<open>The elements the enumeration has not visited yet.\<close>

definition enum_rest :: "'v hash_table \<Rightarrow> 'v hash_table_elem list" where
  "enum_rest table =
     (case find_elem table of
        None \<Rightarrow> []
      | Some i \<Rightarrow> drop (i + 1) (elem_vector table ! find_index table) @
                  concat (drop (find_index table + 1) (elem_vector table)))"

lemma first_nonempty_split:
  assumes "length (elem_vector table) = ht_size table"
  shows "(case first_nonempty table index of
      None \<Rightarrow> concat (drop index (elem_vector table)) = []
    | Some j \<Rightarrow> j < ht_size table \<and> elem_vector table ! j \<noteq> [] \<and>
        concat (drop index (elem_vector table)) =
          elem_vector table ! j @ concat (drop (j + 1) (elem_vector table)))"
  using assms
proof (induction table index rule: first_nonempty.induct)
  case (1 table index)
  show ?case
  proof (cases "index < ht_size table")
    case True
    have split: "concat (drop index (elem_vector table)) =
        elem_vector table ! index @ concat (drop (index + 1) (elem_vector table))"
      using True 1(2) by (simp flip: Cons_nth_drop_Suc)
    show ?thesis
    proof (cases "elem_vector table ! index = []")
      case empty: True
      then show ?thesis
        using 1(1) [OF True] 1(2) split
        by (subst (1) first_nonempty.simps) (auto simp: True split: option.splits)
    next
      case False
      then show ?thesis using True split by (subst first_nonempty.simps) simp
    qed
  next
    case False
    then show ?thesis using 1(2) by (subst first_nonempty.simps) simp
  qed
qed

text \<open>One call of \<open>hash_table_find_next\<close> visits the first of the elements left.\<close>

lemma find_next_step:
  assumes "hash_table_inv table" "find_op table"
  shows "\<exists>table'. hash_table_find_next table =
      Inr (table', case enum_rest table of [] \<Rightarrow> NULL | e # _ \<Rightarrow> Some (kv_pair e)) \<and>
    hash_table_inv table' \<and> find_op table' \<and> case_sensitive table' = case_sensitive table \<and>
    ht_elems table' = ht_elems table \<and> enum_rest table' = tl (enum_rest table) \<and>
    (enum_rest table = [] \<longrightarrow> find_elem table' = NULL)"
proof (cases "find_elem table")
  case None
  then show ?thesis using assms by (simp add: hash_table_find_next_def enum_rest_def)
next
  case (Some i)
  let ?c = "elem_vector table ! find_index table"
  show ?thesis
  proof (cases "i + 1 < length ?c")
    case True
    then have "drop (i + 1) ?c = ?c ! (i + 1) # drop (i + 2) ?c"
      by (simp flip: Cons_nth_drop_Suc)
    then show ?thesis
      using assms True Some by (simp add: hash_table_find_next_def enum_rest_def Let_def)
  next
    case False
    have split: "case first_nonempty table (find_index table + 1) of
        None \<Rightarrow> enum_rest table = []
      | Some j \<Rightarrow> elem_vector table ! j \<noteq> [] \<and>
          enum_rest table = elem_vector table ! j @ concat (drop (j + 1) (elem_vector table))"
      using first_nonempty_split [of table "find_index table + 1"] hash_table_invD(2) [OF assms(1)] False Some
      by (auto simp: enum_rest_def split: option.splits)
    show ?thesis
    proof (cases "first_nonempty table (find_index table + 1)")
      case None
      then have rest: "enum_rest table = []" using split by simp
      have "hash_table_find_next table = Inr (table\<lparr>find_index := 0, find_elem := NULL\<rparr>, NULL)"
        using assms False Some None by (simp add: hash_table_find_next_def Let_def)
      moreover have "enum_rest (table\<lparr>find_index := 0, find_elem := NULL\<rparr>) = []" by (simp add: enum_rest_def)
      ultimately show ?thesis using assms rest by simp
    next
      case j: (Some j)
      then obtain e es where "elem_vector table ! j = e # es" using split by (cases "elem_vector table ! j") auto
      then show ?thesis
        using assms False Some split j by (auto simp: hash_table_find_next_def enum_rest_def Let_def)
    qed
  qed
qed

lemma for_each_loop_correct:
  assumes "hash_table_inv table" "find_op table" "length (enum_rest table) < fuel"
  shows "\<exists>table'. for_each_loop fuel table (Some kv) =
      Some (Inr (table', kv # map kv_pair (enum_rest table))) \<and>
    hash_table_inv table' \<and> case_sensitive table' = case_sensitive table \<and>
    ht_elems table' = ht_elems table"
  using assms
proof (induction fuel arbitrary: table kv)
  case (Suc fuel)
  obtain t' where t': "hash_table_find_next table =
        Inr (t', case enum_rest table of [] \<Rightarrow> NULL | e # _ \<Rightarrow> Some (kv_pair e))"
      "hash_table_inv t'" "find_op t'" "case_sensitive t' = case_sensitive table"
      "ht_elems t' = ht_elems table" "enum_rest t' = tl (enum_rest table)"
    using find_next_step [OF Suc.prems(1,2)] by blast
  show ?case
  proof (cases "enum_rest table")
    case Nil
    then show ?thesis using t' by simp
  next
    case (Cons e es)
    then show ?thesis using Suc.IH [of t' "kv_pair e"] Suc.prems(3) t' by auto
  qed
qed simp

lemma hash_table_for_each_correct:
  assumes "hash_table_inv table"
  shows "\<exists>table'. hash_table_for_each table = Some (Inr (table', map kv_pair (ht_elems table))) \<and>
    hash_table_inv table' \<and> case_sensitive table' = case_sensitive table \<and>
    ht_elems table' = ht_elems table"
proof (cases "ht_count table = 0")
  case True
  then have "ht_elems table = []" using hash_table_invD(3) [OF assms] by simp
  then show ?thesis
    using True assms by (simp add: hash_table_for_each_def hash_table_find_first_def Let_def)
next
  case False
  let ?t0 = "table\<lparr>find_op := True, find_index := 0, find_elem := NULL\<rparr>"
  have ne: "ht_elems table \<noteq> []" using False hash_table_invD(3) [OF assms] by simp
  have "case first_nonempty ?t0 0 of
      None \<Rightarrow> ht_elems table = []
    | Some j \<Rightarrow> elem_vector table ! j \<noteq> [] \<and>
        ht_elems table = elem_vector table ! j @ concat (drop (j + 1) (elem_vector table))"
    using first_nonempty_split [of ?t0 0] hash_table_invD(2) [OF assms]
    by (auto simp: ht_elems_def split: option.splits)
  with ne obtain j where j: "first_nonempty ?t0 0 = Some j" "elem_vector table ! j \<noteq> []"
      "ht_elems table = elem_vector table ! j @ concat (drop (j + 1) (elem_vector table))"
    by (auto split: option.splits)
  then obtain e es where c: "elem_vector table ! j = e # es" by (cases "elem_vector table ! j") auto
  let ?t = "?t0\<lparr>find_index := j, find_elem := Some 0\<rparr>"
  have rest: "enum_rest ?t = es @ concat (drop (j + 1) (elem_vector table))"
    using c by (simp add: enum_rest_def)
  have "hash_table_find_first table = Inr (?t, Some (kv_pair e))"
    using False j c by (simp add: hash_table_find_first_def Let_def)
  moreover have "length (enum_rest ?t) < ht_count table"
    using rest j(3) c hash_table_invD(3) [OF assms] by simp
  ultimately show ?thesis
    using for_each_loop_correct [of ?t "ht_count table" "kv_pair e"] assms rest j(3) c
    by (auto simp: hash_table_for_each_def)
qed

lemma hash_table_count_correct:
  assumes "hash_table_inv table"
  shows "hash_table_count table = card (dom (hash_table_map table))"
proof -
  have "dom (hash_table_map table) = set (map (\<lambda>e. canon table (key e)) (ht_elems table))"
    by (auto simp: hash_table_map_def dom_map_of_conv_image_fst image_image)
  then show ?thesis
    using hash_table_invD(3,5) [OF assms] distinct_card by (fastforce simp: hash_table_count_def)
qed

section \<open>The table as a dictionary\<close>

text \<open>The contract of the dictionary, on the code's operations.\<close>

interpretation hash_dict: dict hash_table_inv canon hash_table_map hash_table_get
  hash_table_insert hash_table_set hash_table_remove
proof unfold_locales
  fix s :: "'v hash_table" and k d
  assume inv: "hash_table_inv s"
  show "hash_table_get s k = hash_table_map s (canon s k)" by (rule hash_table_get_correct [OF inv])
  show "\<exists>s' r. hash_table_insert s k d = Inr (s', r) \<and> hash_table_inv s' \<and> canon s' = canon s \<and>
      r = (d \<noteq> NULL \<and> hash_table_map s (canon s k) = None) \<and>
      hash_table_map s' = (if r then (hash_table_map s)(canon s k := d) else hash_table_map s)"
    using hash_table_insert_correct [OF inv, of k d] case_sensitive_canon by blast
  show "\<exists>s' r. hash_table_set s k d = (s', r) \<and> hash_table_inv s' \<and> canon s' = canon s \<and>
      r = (d \<noteq> NULL \<and> hash_table_map s (canon s k) \<noteq> None) \<and>
      hash_table_map s' = (if r then (hash_table_map s)(canon s k := d) else hash_table_map s)"
    using hash_table_set_correct [OF inv, of k d] case_sensitive_canon by blast
  show "\<exists>s'. hash_table_remove s k = Inr (s', hash_table_map s (canon s k)) \<and> hash_table_inv s' \<and>
      canon s' = canon s \<and> hash_table_map s' = (hash_table_map s)(canon s k := None)"
    using hash_table_remove_correct [OF inv, of k] case_sensitive_canon by blast
qed

section \<open>The table as a client sees it\<close>

datatype 'v hash_op = H_insert string "'v ptr" | H_set string "'v ptr" | H_get string
  | H_remove string | H_count | H_clear

datatype 'v hash_out = H_void | H_ok bool | H_int nat | H_data "'v ptr"

fun hash_step :: "'v hash_table \<Rightarrow> 'v hash_op \<Rightarrow> ('v hash_table \<times> 'v hash_out) run" where
  "hash_step t (H_insert k d) = andthen (hash_table_insert t k d) (\<lambda>(t, r). Inr (t, H_ok r))"
| "hash_step t (H_set k d) = (case hash_table_set t k d of (t, r) \<Rightarrow> Inr (t, H_ok r))"
| "hash_step t (H_get k) = Inr (t, H_data (hash_table_get t k))"
| "hash_step t (H_remove k) = andthen (hash_table_remove t k) (\<lambda>(t, d). Inr (t, H_data d))"
| "hash_step t H_count = Inr (t, H_int (hash_table_count t))"
| "hash_step t H_clear = Inr (hash_table_clear t, H_void)"

text \<open>The specification: a finite map on keys brought to a normal form by \<open>norm\<close>.\<close>

fun map_step :: "(string \<Rightarrow> string) \<Rightarrow> (string \<rightharpoonup> 'v) \<Rightarrow> 'v hash_op \<Rightarrow> (string \<rightharpoonup> 'v) \<times> 'v hash_out" where
  "map_step norm m (H_insert k d) =
     (if d \<noteq> NULL \<and> m (norm k) = None then (m(norm k := d), H_ok True) else (m, H_ok False))"
| "map_step norm m (H_set k d) =
     (if d \<noteq> NULL \<and> m (norm k) \<noteq> None then (m(norm k := d), H_ok True) else (m, H_ok False))"
| "map_step norm m (H_get k) = (m, H_data (m (norm k)))"
| "map_step norm m (H_remove k) = (m(norm k := None), H_data (m (norm k)))"
| "map_step norm m H_count = (m, H_int (card (dom m)))"
| "map_step norm m H_clear = (Map.empty, H_void)"

lemma hash_step_correct:
  assumes "hash_table_inv t"
  shows "\<exists>t'. hash_step t op = Inr (t', snd (map_step (canon t) (hash_table_map t) op)) \<and>
    hash_table_inv t' \<and> canon t' = canon t \<and> hash_table_map t' = fst (map_step (canon t) (hash_table_map t) op)"
proof (cases op)
  case (H_insert k d)
  then show ?thesis using hash_dict.ins_law [OF assms, of k d] by auto
next
  case (H_set k d)
  then show ?thesis using hash_dict.put_law [OF assms, of k d] by auto
next
  case (H_get k)
  then show ?thesis using hash_dict.get_law [OF assms] assms by simp
next
  case (H_remove k)
  then show ?thesis using hash_dict.del_law [OF assms, of k] by auto
next
  case H_count
  then show ?thesis using hash_table_count_correct [OF assms] assms by simp
next
  case H_clear
  have "case_sensitive (hash_table_clear t) = case_sensitive t" by (simp add: hash_table_clear_def)
  then show ?thesis using hash_table_clear_correct [OF assms] H_clear case_sensitive_canon by simp
qed

primrec hash_run :: "'v hash_table \<Rightarrow> 'v hash_op list \<Rightarrow> ('v hash_table \<times> 'v hash_out list) run" where
  "hash_run t [] = Inr (t, [])"
| "hash_run t (op # ops) =
     andthen (hash_step t op) (\<lambda>(t, out). andthen (hash_run t ops) (\<lambda>(t, outs). Inr (t, out # outs)))"

primrec map_run :: "(string \<Rightarrow> string) \<Rightarrow> (string \<rightharpoonup> 'v) \<Rightarrow> 'v hash_op list \<Rightarrow> (string \<rightharpoonup> 'v) \<times> 'v hash_out list" where
  "map_run norm m [] = (m, [])"
| "map_run norm m (op # ops) =
     (case map_step norm m op of (m, out) \<Rightarrow> (case map_run norm m ops of (m, outs) \<Rightarrow> (m, out # outs)))"

lemma hash_run_correct:
  "hash_table_inv t \<Longrightarrow> \<exists>t'. hash_run t ops = Inr (t', snd (map_run (canon t) (hash_table_map t) ops)) \<and>
    hash_table_inv t' \<and> hash_table_map t' = fst (map_run (canon t) (hash_table_map t) ops)"
proof (induction ops arbitrary: t)
  case (Cons op ops)
  obtain m out where s: "map_step (canon t) (hash_table_map t) op = (m, out)" by fastforce
  then obtain t' where t': "hash_step t op = Inr (t', out)" "hash_table_inv t'" "canon t' = canon t"
      "hash_table_map t' = m"
    using hash_step_correct [OF Cons.prems, of op] by auto
  then show ?case using Cons.IH [OF t'(2)] s by (auto split: prod.split)
qed simp

section \<open>Properties\<close>

text \<open>C31: Any sequence of calls on a new table returns what the same calls return on a finite map
  over the keys (up to case when the table is case insensitive); no assertion fails, and growing
  is invisible. Insertion and replacement return 1 when they succeed and 0 when they do not, which is
  the opposite of what the header documents (0 for success).\<close>

theorem hash_table_refines_map:
  "\<exists>t. hash_run (hash_table_create n cs) ops =
      Inr (t, snd (map_run (if cs then id else map tolower) Map.empty ops)) \<and>
    hash_table_map t = fst (map_run (if cs then id else map tolower) Map.empty ops) \<and>
    hash_table_inv t"
proof -
  have "canon (hash_table_create n cs :: 'a hash_table) = (if cs then id else map tolower)"
    by (auto simp: canon_def hash_table_create_def Let_def fun_eq_iff)
  then show ?thesis
    using hash_run_correct [OF hash_table_inv_create(1), of n cs ops]
    by (auto simp: hash_table_inv_create(2))
qed

text \<open>an enumeration with \<open>hash_table_find_first\<close> and \<open>hash_table_find_next\<close> visits every
  binding of the map exactly once and leaves the bindings alone.\<close>

theorem hash_table_enumerates:
  assumes "hash_table_inv table"
  shows "\<exists>table' kvs. hash_table_for_each table = Some (Inr (table', kvs)) \<and>
    distinct (map (\<lambda>kv. canon table (fst kv)) kvs) \<and> length kvs = hash_table_count table \<and>
    map_of (map (\<lambda>kv. (canon table (fst kv), snd kv)) kvs) = hash_table_map table \<and>
    hash_table_map table' = hash_table_map table"
proof -
  obtain t where t: "hash_table_for_each table = Some (Inr (t, map kv_pair (ht_elems table)))"
      "hash_table_inv t" "case_sensitive t = case_sensitive table" "ht_elems t = ht_elems table"
    using hash_table_for_each_correct [OF assms] by blast
  have "canon t = canon table" by (rule case_sensitive_canon [OF t(3)])
  then show ?thesis
    using t hash_table_invD(3,5) [OF assms]
    by (auto simp: hash_table_map_def comp_def hash_table_count_def)
qed

theorem hash_table_enumerates_witness:
  "hash_table_for_each (hash_table_create 0 True :: nat hash_table) \<noteq> None"
  using hash_table_enumerates [OF hash_table_inv_create(1), of 0 True] by auto

text \<open>an insertion or removal interrupts an enumeration: the next \<open>hash_table_find_next\<close>
  stops with \<open>panic\<close>.\<close>

theorem hash_table_enumeration_interrupted:
  assumes "hash_table_inv table"
  shows "andthen (hash_table_insert table k d) (\<lambda>(t, _). hash_table_find_next t) = Inl Panic \<and>
    andthen (hash_table_remove table k) (\<lambda>(t, _). hash_table_find_next t) = Inl Panic"
  using hash_table_insert_correct [OF assms, of k d] hash_table_remove_correct [OF assms, of k]
  by (auto simp: hash_table_find_next_def)

theorem hash_table_enumeration_interrupted_witness:
  "andthen (hash_table_insert (hash_table_create 0 True) ''a'' (Some (1 :: nat)))
     (\<lambda>(t, _). hash_table_find_next t) = Inl Panic"
  using hash_table_enumeration_interrupted [OF hash_table_inv_create(1), of 0 True "''a''" "Some (1 :: nat)"]
  by (rule conjunct1)

end
