(* ===== verification/HeapT.thy ===== *)
theory HeapT
  imports Prelude Interfaces "HOL-Library.Product_Lexorder"
begin

text \<open>
  The binary heap of \<open>src/lib/util/heap.c\<close>: elements with a \<open>value\<close> and the \<open>time\<close> of their
  insertion in a vector that doubles when it is full, the least value at the root; elements of
  equal value come out oldest first (the FIFO policy) or youngest first (LIFO).

  Values and times are \<open>long long\<close>, compared, copied and counted up only: they are integers
  here (\<open>2 ^ 63\<close> insertions are out of reach). Functions that return a value and store the
  data through \<open>void **data\<close> return both with the new heap. Cells that the code leaves
  uninitialised when the vector grows hold a zero element.
\<close>

section \<open>Data\<close>

datatype heap_time_policy_enum = heap_time_policy_fifo | heap_time_policy_lifo

datatype heap_err = HEAP_OK | HEAP_EEMPTY | HEAP_EELEM

record 'd heap_elem_t =
  he_time :: int
  he_value :: int
  he_data :: "'d ptr"

record 'd heap_t =
  hp_count :: nat
  hp_size :: nat
  hp_current :: nat
  hp_error :: heap_err
  hp_time :: int
  hp_policy :: heap_time_policy_enum
  hp_elem :: "'d heap_elem_t list"

definition PARENT :: "nat \<Rightarrow> nat" where "PARENT x = (x - 1) div 2"

definition LEFT :: "nat \<Rightarrow> nat" where "LEFT x = x * 2 + 1"

definition RIGHT :: "nat \<Rightarrow> nat" where "RIGHT x = x * 2 + 2"

definition zero_elem :: "'d heap_elem_t" where
  "zero_elem = \<lparr>he_time = 0, he_value = 0, he_data = NULL\<rparr>"

section \<open>Operations\<close>

definition elem_less_than :: "heap_time_policy_enum \<Rightarrow> 'd heap_elem_t \<Rightarrow> 'd heap_elem_t \<Rightarrow> bool" where
  "elem_less_than policy x y =
     (if he_value x \<noteq> he_value y then he_value x < he_value y
      else if policy = heap_time_policy_fifo then he_time x < he_time y
      else he_time x > he_time y)"

definition heap_less_than :: "'d heap_t \<Rightarrow> nat \<Rightarrow> nat \<Rightarrow> bool" where
  "heap_less_than heap x y = elem_less_than (hp_policy heap) (hp_elem heap ! x) (hp_elem heap ! y)"

definition heap_grow :: "'d heap_t \<Rightarrow> 'd heap_t" where
  "heap_grow heap =
     (let nsize = hp_size heap * 2
      in heap\<lparr>hp_elem := hp_elem heap @ replicate (nsize - hp_size heap) zero_elem, hp_size := nsize\<rparr>)"

text \<open>The exchange of two elements through \<open>tmp\<close>.\<close>

definition heap_swap :: "'d heap_t \<Rightarrow> nat \<Rightarrow> nat \<Rightarrow> 'd heap_t" where
  "heap_swap heap i k =
     heap\<lparr>hp_elem := (hp_elem heap)[k := hp_elem heap ! i, i := hp_elem heap ! k]\<rparr>"

text \<open>The child to exchange with in \<open>heapify\<close>, or \<open>i\<close> itself.\<close>

definition heapify_child :: "'d heap_t \<Rightarrow> nat \<Rightarrow> nat" where
  "heapify_child heap i =
     (let l = LEFT i; r = RIGHT i;
          k = (if l < hp_count heap \<and> heap_less_than heap l i then l else i)
      in if r < hp_count heap \<and> heap_less_than heap r k then r else k)"

lemma heapify_child_cases:
  "heapify_child heap i = i \<or> i < heapify_child heap i \<and> heapify_child heap i < hp_count heap"
  by (auto simp: heapify_child_def Let_def LEFT_def RIGHT_def)

lemma heap_swap_frame [simp]:
  "hp_count (heap_swap heap i k) = hp_count heap" "hp_size (heap_swap heap i k) = hp_size heap"
  "hp_time (heap_swap heap i k) = hp_time heap" "hp_policy (heap_swap heap i k) = hp_policy heap"
  "hp_error (heap_swap heap i k) = hp_error heap" "hp_current (heap_swap heap i k) = hp_current heap"
  "length (hp_elem (heap_swap heap i k)) = length (hp_elem heap)"
  by (simp_all add: heap_swap_def)

function heapify :: "'d heap_t \<Rightarrow> nat \<Rightarrow> 'd heap_t" where
  "heapify heap i =
     (let k = heapify_child heap i
      in if k = i then heap else heapify (heap_swap heap i k) k)"
  by pat_completeness auto
termination
proof (relation "measure (\<lambda>(heap, i). hp_count heap - i)")
  fix heap :: "'d heap_t" and i k
  assume "k = heapify_child heap i" "k \<noteq> i"
  then show "((heap_swap heap i k, k), heap, i) \<in> measure (\<lambda>(heap, i). hp_count heap - i)"
    using heapify_child_cases [of heap i] by auto
qed simp

declare heapify.simps [simp del]

definition heap_create :: "int \<Rightarrow> 'd heap_t" where
  "heap_create sz0 =
     (let sz = (if sz0 < 10 then 10 else nat sz0)
      in \<lparr>hp_count = 0, hp_size = sz, hp_current = 0, hp_error = HEAP_OK, hp_time = 0,
          hp_policy = heap_time_policy_fifo, hp_elem = replicate sz zero_elem\<rparr>)"

definition heap_error_msg :: "'d heap_t \<Rightarrow> string" where
  "heap_error_msg heap =
     (case hp_error heap of
        HEAP_EEMPTY \<Rightarrow> ''heap is empty''
      | HEAP_EELEM \<Rightarrow> ''element not found''
      | _ \<Rightarrow> [])"

definition heap_error :: "'d heap_t \<Rightarrow> heap_err" where
  "heap_error heap = hp_error heap"

text \<open>The loop of \<open>heap_insert\<close> that moves the new element up.\<close>

function heap_sift_up :: "'d heap_t \<Rightarrow> nat \<Rightarrow> 'd heap_t" where
  "heap_sift_up heap i =
     (if 0 < i \<and> heap_less_than heap i (PARENT i)
      then heap_sift_up (heap_swap heap i (PARENT i)) (PARENT i)
      else heap)"
  by pat_completeness auto
termination
  by (relation "measure snd") (auto simp: PARENT_def)

declare heap_sift_up.simps [simp del]

definition heap_insert :: "'d heap_t \<Rightarrow> int \<Rightarrow> 'd ptr \<Rightarrow> 'd heap_t" where
  "heap_insert heap0 v d =
     (let heap = (if hp_count heap0 = hp_size heap0 then heap_grow heap0 else heap0);
          i = hp_count heap;
          heap1 = heap\<lparr>hp_elem := (hp_elem heap)[i := \<lparr>he_time = hp_time heap, he_value = v, he_data = d\<rparr>],
                       hp_time := hp_time heap + 1\<rparr>;
          heap2 = heap_sift_up heap1 i
      in heap2\<lparr>hp_count := hp_count heap2 + 1, hp_error := HEAP_OK\<rparr>)"

definition heap_peek :: "'d heap_t \<Rightarrow> 'd heap_t \<times> int \<times> 'd ptr" where
  "heap_peek heap =
     (if hp_count heap = 0 then (heap\<lparr>hp_error := HEAP_EEMPTY\<rparr>, 0, NULL)
      else (heap\<lparr>hp_error := HEAP_OK\<rparr>, he_value (hp_elem heap ! 0), he_data (hp_elem heap ! 0)))"

definition heap_extract :: "'d heap_t \<Rightarrow> 'd heap_t \<times> int \<times> 'd ptr" where
  "heap_extract heap0 =
     (case heap_peek heap0 of (heap, v, d) \<Rightarrow>
        if hp_error heap \<noteq> HEAP_OK then (heap, 0, d)
        else
          let heap1 = heap\<lparr>hp_count := hp_count heap - 1\<rparr>;
              heap2 = heap1\<lparr>hp_elem := (hp_elem heap1)[0 := hp_elem heap1 ! hp_count heap1]\<rparr>
          in (heapify heap2 0, v, d))"

definition heap_time_policy :: "'d heap_t \<Rightarrow> heap_time_policy_enum \<Rightarrow> 'd heap_t" where
  "heap_time_policy heap policy = heap\<lparr>hp_policy := policy, hp_error := HEAP_OK\<rparr>"

definition heap_first :: "'d heap_t \<Rightarrow> 'd heap_t \<times> int \<times> 'd ptr" where
  "heap_first heap =
     (if hp_count heap = 0 then (heap\<lparr>hp_error := HEAP_EELEM\<rparr>, 0, NULL)
      else (heap\<lparr>hp_current := 0, hp_error := HEAP_OK\<rparr>,
            he_value (hp_elem heap ! 0), he_data (hp_elem heap ! 0)))"

text \<open>The bound \<open>current >= count - 1\<close> is a comparison of \<open>int\<close>s, true when the heap is empty.\<close>

definition heap_next :: "'d heap_t \<Rightarrow> 'd heap_t \<times> int \<times> 'd ptr" where
  "heap_next heap =
     (if hp_count heap \<le> hp_current heap + 1 then (heap\<lparr>hp_error := HEAP_EELEM\<rparr>, 0, NULL)
      else
        let current = hp_current heap + 1
        in (heap\<lparr>hp_current := current, hp_error := HEAP_OK\<rparr>,
            he_value (hp_elem heap ! current), he_data (hp_elem heap ! current)))"

section \<open>Invariant and abstract value\<close>

text \<open>The order the code implements: by value, then by time in the direction of the policy.\<close>

definition elem_key :: "heap_time_policy_enum \<Rightarrow> 'd heap_elem_t \<Rightarrow> int \<times> int" where
  "elem_key policy e =
     (he_value e, if policy = heap_time_policy_fifo then he_time e else - he_time e)"

lemma elem_less_than_key: "elem_less_than policy x y \<longleftrightarrow> elem_key policy x < elem_key policy y"
  by (auto simp: elem_less_than_def elem_key_def less_prod_def')

definition heap_key :: "'d heap_t \<Rightarrow> nat \<Rightarrow> int \<times> int" where
  "heap_key heap j = elem_key (hp_policy heap) (hp_elem heap ! j)"

lemma heap_less_than_key [simp]: "heap_less_than heap x y \<longleftrightarrow> heap_key heap x < heap_key heap y"
  by (simp add: heap_less_than_def elem_less_than_key heap_key_def)

definition heap_ordered :: "'d heap_t \<Rightarrow> nat \<Rightarrow> bool" where
  "heap_ordered heap n \<longleftrightarrow> (\<forall>j < n. 0 < j \<longrightarrow> heap_key heap (PARENT j) \<le> heap_key heap j)"

definition heap_elems :: "'d heap_t \<Rightarrow> 'd heap_elem_t list" where
  "heap_elems heap = take (hp_count heap) (hp_elem heap)"

definition heap_inv :: "'d heap_t \<Rightarrow> bool" where
  "heap_inv heap \<longleftrightarrow>
     10 \<le> hp_size heap \<and> length (hp_elem heap) = hp_size heap \<and> hp_count heap \<le> hp_size heap \<and>
     heap_ordered heap (hp_count heap) \<and> distinct (map he_time (heap_elems heap)) \<and>
     (\<forall>e \<in> set (heap_elems heap). he_time e < hp_time heap)"

lemma heap_invD:
  assumes "heap_inv heap"
  shows "10 \<le> hp_size heap" "length (hp_elem heap) = hp_size heap" "hp_count heap \<le> hp_size heap"
    "heap_ordered heap (hp_count heap)" "distinct (map he_time (heap_elems heap))"
    "\<And>e. e \<in> set (heap_elems heap) \<Longrightarrow> he_time e < hp_time heap"
  using assms by (auto simp: heap_inv_def)

lemma PARENT_less [simp]: "0 < j \<Longrightarrow> PARENT j < j"
  by (simp add: PARENT_def)

lemma PARENT_le: "0 < j \<Longrightarrow> PARENT j \<le> j - 1"
  by (simp add: PARENT_def)

lemma PARENT_eq: "0 < j \<Longrightarrow> PARENT j = i \<longleftrightarrow> j = LEFT i \<or> j = RIGHT i"
  by (auto simp: PARENT_def LEFT_def RIGHT_def)

lemma heap_key_swap:
  assumes "i < length (hp_elem heap)" "k < length (hp_elem heap)"
  shows "heap_key (heap_swap heap i k) j =
    heap_key heap (if j = i then k else if j = k then i else j)"
  using assms by (auto simp: heap_key_def heap_swap_def nth_list_update)

lemma mset_take_swap:
  assumes "i < n" "k < n" "n \<le> length (hp_elem heap)"
  shows "mset (take n (hp_elem (heap_swap heap i k))) = mset (take n (hp_elem heap))"
  using assms mset_swap [of i "take n (hp_elem heap)" k]
  by (simp add: heap_swap_def take_update_swap)

text \<open>The root is least.\<close>

lemma heap_root_least: "heap_ordered heap n \<Longrightarrow> j < n \<Longrightarrow> heap_key heap 0 \<le> heap_key heap j"
proof (induction j rule: less_induct)
  case (less j)
  show ?case
  proof (cases "j = 0")
    case False
    then have "heap_key heap 0 \<le> heap_key heap (PARENT j)" "heap_key heap (PARENT j) \<le> heap_key heap j"
      using less PARENT_less [of j] by (auto simp: heap_ordered_def)
    then show ?thesis by (rule order_trans)
  qed simp
qed

section \<open>Moving an element up\<close>

lemma sift_up_frame:
  "hp_count (heap_sift_up heap i) = hp_count heap \<and> hp_size (heap_sift_up heap i) = hp_size heap \<and>
   hp_time (heap_sift_up heap i) = hp_time heap \<and> hp_policy (heap_sift_up heap i) = hp_policy heap \<and>
   length (hp_elem (heap_sift_up heap i)) = length (hp_elem heap)"
  by (induction heap i rule: heap_sift_up.induct) (subst (1 2 3 4 5) heap_sift_up.simps, simp)

lemma sift_up_mset:
  "i < n \<Longrightarrow> n \<le> length (hp_elem heap) \<Longrightarrow>
   mset (take n (hp_elem (heap_sift_up heap i))) = mset (take n (hp_elem heap))"
proof (induction heap i rule: heap_sift_up.induct)
  case (1 heap i)
  show ?case
  proof (cases "0 < i \<and> heap_less_than heap i (PARENT i)")
    case True
    moreover from this have "PARENT i < n" using 1(2) PARENT_less [of i] by linarith
    ultimately show ?thesis
      using 1 by (subst heap_sift_up.simps) (simp add: mset_take_swap)
  next
    case False
    then show ?thesis by (subst heap_sift_up.simps) auto
  qed
qed

text \<open>In order everywhere but at \<open>i\<close>, whose children are in order with its parent.\<close>

definition up_hole :: "'d heap_t \<Rightarrow> nat \<Rightarrow> nat \<Rightarrow> bool" where
  "up_hole heap n i \<longleftrightarrow>
     (\<forall>j < n. 0 < j \<longrightarrow> j \<noteq> i \<longrightarrow> heap_key heap (PARENT j) \<le> heap_key heap j) \<and>
     (0 < i \<longrightarrow> (\<forall>j < n. 0 < j \<longrightarrow> PARENT j = i \<longrightarrow> heap_key heap (PARENT i) \<le> heap_key heap j))"

lemma up_hole_swap:
  assumes h: "up_hole heap n i" and i: "0 < i" "i < n" "n \<le> length (hp_elem heap)"
    and less: "heap_key heap i < heap_key heap (PARENT i)"
  shows "up_hole (heap_swap heap i (PARENT i)) n (PARENT i)"
proof -
  let ?p = "PARENT i" and ?h = "heap_swap heap i (PARENT i)"
  have p: "?p < i" using i by simp
  then have K: "heap_key ?h j = heap_key heap (if j = i then ?p else if j = ?p then i else j)" for j
    using i p by (intro heap_key_swap) linarith+
  have A: "heap_key heap (PARENT j) \<le> heap_key heap j" if "j < n" "0 < j" "j \<noteq> i" for j
    using h that by (simp add: up_hole_def)
  have B: "heap_key heap ?p \<le> heap_key heap j" if "j < n" "0 < j" "PARENT j = i" for j
    using h that i by (simp add: up_hole_def)
  have "heap_key ?h (PARENT j) \<le> heap_key ?h j" if j: "j < n" "0 < j" "j \<noteq> ?p" for j
  proof (cases "j = i")
    case True
    then show ?thesis using less p by (simp add: K)
  next
    case False
    then show ?thesis using A [OF j(1,2)] B [OF j(1,2)] less j(3) by (auto simp: K)
  qed
  moreover have "heap_key ?h (PARENT ?p) \<le> heap_key ?h j"
    if j: "0 < ?p" "j < n" "0 < j" "PARENT j = ?p" for j
  proof -
    have g: "PARENT ?p < ?p" using j(1) by simp
    have "heap_key heap (PARENT ?p) \<le> heap_key heap ?p" using A [of ?p] i p j(1) by simp
    moreover have "j \<noteq> ?p" using j(3,4) PARENT_less [of j] by auto
    ultimately show ?thesis using A [OF j(2,3)] j(4) g p by (auto simp: K)
  qed
  ultimately show ?thesis by (simp add: up_hole_def)
qed

lemma sift_up_ordered:
  "up_hole heap n i \<Longrightarrow> i < n \<Longrightarrow> n \<le> length (hp_elem heap) \<Longrightarrow> heap_ordered (heap_sift_up heap i) n"
proof (induction heap i rule: heap_sift_up.induct)
  case (1 heap i)
  show ?case
  proof (cases "0 < i \<and> heap_less_than heap i (PARENT i)")
    case True
    moreover from this have "PARENT i < n" using 1(3) PARENT_less [of i] by linarith
    ultimately show ?thesis
      using 1 by (subst heap_sift_up.simps) (simp add: up_hole_swap)
  next
    case False
    then show ?thesis
      using 1(2) by (subst heap_sift_up.simps) (auto simp: heap_ordered_def up_hole_def not_less)
  qed
qed

section \<open>Moving an element down\<close>

lemma heapify_frame:
  "hp_count (heapify heap i) = hp_count heap \<and> hp_size (heapify heap i) = hp_size heap \<and>
   hp_time (heapify heap i) = hp_time heap \<and> hp_policy (heapify heap i) = hp_policy heap \<and>
   length (hp_elem (heapify heap i)) = length (hp_elem heap) \<and> hp_error (heapify heap i) = hp_error heap"
  by (induction heap i rule: heapify.induct) (subst (1 2 3 4 5 6) heapify.simps, simp add: Let_def)

lemma heapify_mset:
  assumes "hp_count heap \<le> length (hp_elem heap)"
  shows "mset (take (hp_count heap) (hp_elem (heapify heap i))) = mset (take (hp_count heap) (hp_elem heap))"
  using assms
proof (induction heap i rule: heapify.induct)
  case (1 heap i)
  show ?case
  proof (cases "heapify_child heap i = i")
    case False
    then have k: "i < heapify_child heap i" "heapify_child heap i < hp_count heap"
      using heapify_child_cases [of heap i] by auto
    then show ?thesis
      using 1(1) [OF refl False] 1(2) False
      by (subst heapify.simps) (simp add: Let_def mset_take_swap)
  qed (subst heapify.simps, simp add: Let_def)
qed

text \<open>What the choice of the child guarantees.\<close>

lemma heapify_child_least:
  assumes "j < hp_count heap" "0 < j" "PARENT j = i"
  shows "heap_key heap (heapify_child heap i) \<le> heap_key heap j"
  using assms PARENT_eq [of j i]
  by (auto simp: heapify_child_def Let_def not_less split: if_splits)

lemma heapify_child_less:
  assumes "heapify_child heap i \<noteq> i"
  shows "heap_key heap (heapify_child heap i) < heap_key heap i \<and> PARENT (heapify_child heap i) = i \<and>
    0 < heapify_child heap i \<and> i < heapify_child heap i \<and> heapify_child heap i < hp_count heap"
  using assms PARENT_eq [of "LEFT i" i] PARENT_eq [of "RIGHT i" i]
  by (auto simp: heapify_child_def Let_def LEFT_def RIGHT_def split: if_splits)

text \<open>In order everywhere but below \<open>i\<close>, whose children are in order with its parent.\<close>

definition down_hole :: "'d heap_t \<Rightarrow> nat \<Rightarrow> bool" where
  "down_hole heap i \<longleftrightarrow>
     (\<forall>j < hp_count heap. 0 < j \<longrightarrow> PARENT j \<noteq> i \<longrightarrow> heap_key heap (PARENT j) \<le> heap_key heap j) \<and>
     (0 < i \<longrightarrow> (\<forall>j < hp_count heap. 0 < j \<longrightarrow> PARENT j = i \<longrightarrow> heap_key heap (PARENT i) \<le> heap_key heap j))"

lemma down_hole_swap:
  assumes h: "down_hole heap i" and n: "hp_count heap \<le> length (hp_elem heap)"
    and ne: "heapify_child heap i \<noteq> i"
  shows "down_hole (heap_swap heap i (heapify_child heap i)) (heapify_child heap i)"
proof -
  define k where "k = heapify_child heap i"
  let ?h = "heap_swap heap i k"
  have k: "heap_key heap k < heap_key heap i" "PARENT k = i" "0 < k" "i < k" "k < hp_count heap"
    using heapify_child_less [OF ne] by (auto simp: k_def)
  have K: "heap_key ?h j = heap_key heap (if j = i then k else if j = k then i else j)" for j
    using k n by (intro heap_key_swap) auto
  have A: "heap_key heap (PARENT j) \<le> heap_key heap j"
    if "j < hp_count heap" "0 < j" "PARENT j \<noteq> i" for j
    using h that by (simp add: down_hole_def)
  have B: "heap_key heap (PARENT i) \<le> heap_key heap k" if "0 < i"
    using h that k by (simp add: down_hole_def)
  have C: "heap_key heap k \<le> heap_key heap j" if "j < hp_count heap" "0 < j" "PARENT j = i" for j
    using heapify_child_least [OF that] by (simp add: k_def)
  have "heap_key ?h (PARENT j) \<le> heap_key ?h j"
    if j: "j < hp_count heap" "0 < j" "PARENT j \<noteq> k" for j
  proof (cases "j = i")
    case True
    moreover have "PARENT i < i" using j True by simp
    ultimately show ?thesis using B j k by (auto simp: K)
  next
    case False
    then show ?thesis using A [OF j(1,2)] C [OF j(1,2)] k j(3) by (auto simp: K)
  qed
  moreover have "heap_key ?h (PARENT k) \<le> heap_key ?h j"
    if j: "j < hp_count heap" "0 < j" "PARENT j = k" for j
  proof -
    have "k < j" using j PARENT_less [of j] by simp
    then show ?thesis using A [OF j(1,2)] j k by (auto simp: K)
  qed
  ultimately show ?thesis by (simp add: down_hole_def k_def)
qed

lemma heapify_ordered:
  "down_hole heap i \<Longrightarrow> hp_count heap \<le> length (hp_elem heap) \<Longrightarrow>
   heap_ordered (heapify heap i) (hp_count heap)"
proof (induction heap i rule: heapify.induct)
  case (1 heap i)
  show ?case
  proof (cases "heapify_child heap i = i")
    case True
    have "heap_key heap (PARENT j) \<le> heap_key heap j" if "j < hp_count heap" "0 < j" for j
      using 1(2) that heapify_child_least [OF that, of i] True
      by (cases "PARENT j = i") (auto simp: down_hole_def)
    then have "heap_ordered heap (hp_count heap)" by (simp add: heap_ordered_def)
    with True show ?thesis by (subst heapify.simps) (simp add: Let_def)
  next
    case False
    then show ?thesis
      using 1(1) [OF refl False] 1(2,3) down_hole_swap [of heap i]
      by (subst heapify.simps) (simp add: Let_def)
  qed
qed

section \<open>The operations on the abstract value\<close>

lemma mset_take_elems:
  assumes "mset (take (hp_count h) (hp_elem h)) = mset xs" "distinct (map he_time xs)"
    "\<And>e. e \<in> set xs \<Longrightarrow> he_time e < hp_time h"
  shows "distinct (map he_time (heap_elems h)) \<and> (\<forall>e \<in> set (heap_elems h). he_time e < hp_time h)"
proof -
  have "mset (map he_time (heap_elems h)) = mset (map he_time xs)"
    using assms(1) by (simp add: heap_elems_def)
  then have "distinct (map he_time (heap_elems h))" using assms(2) mset_eq_imp_distinct_iff by blast
  moreover have "set (heap_elems h) = set xs"
    using assms(1) unfolding heap_elems_def by (metis set_mset_mset)
  ultimately show ?thesis using assms(3) by simp
qed

lemma heap_inv_create: "heap_inv (heap_create n)" "heap_elems (heap_create n) = []"
  by (simp_all add: heap_inv_def heap_create_def Let_def heap_elems_def heap_ordered_def
      nat_le_iff le_nat_iff)

lemma heap_time_policy_empty:
  "heap_inv heap \<Longrightarrow> hp_count heap = 0 \<Longrightarrow> heap_inv (heap_time_policy heap p)"
  "heap_elems (heap_time_policy heap p) = heap_elems heap"
  by (simp_all add: heap_inv_def heap_time_policy_def heap_elems_def heap_ordered_def)

lemma heap_insert_correct:
  assumes "heap_inv heap"
  shows "heap_inv (heap_insert heap v d) \<and> hp_policy (heap_insert heap v d) = hp_policy heap \<and>
    hp_time (heap_insert heap v d) = hp_time heap + 1 \<and> hp_error (heap_insert heap v d) = HEAP_OK \<and>
    hp_count (heap_insert heap v d) = hp_count heap + 1 \<and>
    mset (heap_elems (heap_insert heap v d)) =
      add_mset \<lparr>he_time = hp_time heap, he_value = v, he_data = d\<rparr> (mset (heap_elems heap))"
proof -
  note D = heap_invD [OF assms]
  let ?e = "\<lparr>he_time = hp_time heap, he_value = v, he_data = d\<rparr>"
  define g where "g = (if hp_count heap = hp_size heap then heap_grow heap else heap)"
  define i where "i = hp_count heap"
  define h1 where "h1 = g\<lparr>hp_elem := (hp_elem g)[i := ?e], hp_time := hp_time g + 1\<rparr>"
  define h2 where "h2 = heap_sift_up h1 i"
  have g: "hp_count g = i" "i < length (hp_elem g)" "hp_policy g = hp_policy heap" "10 \<le> hp_size g"
      "length (hp_elem g) = hp_size g" "hp_time g = hp_time heap" "take i (hp_elem g) = heap_elems heap"
    using D(1-3) by (auto simp: g_def i_def heap_grow_def Let_def heap_elems_def)
  have eq: "heap_insert heap v d = h2\<lparr>hp_count := hp_count h2 + 1, hp_error := HEAP_OK\<rparr>"
    unfolding heap_insert_def Let_def g_def [symmetric] h2_def h1_def g(1,6) ..
  have e1: "hp_elem h1 = (hp_elem g)[i := ?e]" by (simp add: h1_def)
  have t1: "take (Suc i) (hp_elem h1) = heap_elems heap @ [?e]"
    using g(2,7) by (simp add: e1 take_Suc_conv_app_nth)
  have key: "heap_key h1 j = heap_key heap j" if "j < i" for j
    using that g(3,7) by (simp add: h1_def heap_key_def heap_elems_def i_def) (metis nth_take)
  have hole: "up_hole h1 (Suc i) i"
    unfolding up_hole_def
  proof (intro conjI allI impI)
    fix j assume j: "j < Suc i" "0 < j" "j \<noteq> i"
    moreover from this have "PARENT j < i" using PARENT_le [of j] by simp
    ultimately show "heap_key h1 (PARENT j) \<le> heap_key h1 j"
      using D(4) PARENT_less [of j] key [of j] key [of "PARENT j"] by (simp add: heap_ordered_def i_def)
  next
    fix j assume "j < Suc i" "0 < j" "PARENT j = i"
    then show "heap_key h1 (PARENT i) \<le> heap_key h1 j" using PARENT_less [of j] by auto
  qed
  have len: "Suc i \<le> length (hp_elem h1)" using g(2) by (simp add: e1)
  note frame = sift_up_frame [of h1 i, folded h2_def]
  have f1: "hp_count h2 = i" "hp_size h2 = hp_size g" "hp_time h2 = hp_time heap + 1"
      "hp_policy h2 = hp_policy heap" "length (hp_elem h2) = hp_size g"
    using frame g by (simp_all add: h1_def)
  have m: "mset (take (Suc i) (hp_elem h2)) = mset (heap_elems heap @ [?e])"
    using sift_up_mset [OF _ len, of i] t1 by (simp add: h2_def)
  have o: "heap_ordered h2 (Suc i)" unfolding h2_def by (rule sift_up_ordered [OF hole _ len]) simp
  let ?h = "h2\<lparr>hp_count := hp_count h2 + 1, hp_error := HEAP_OK\<rparr>"
  have "distinct (map he_time (heap_elems ?h)) \<and> (\<forall>e \<in> set (heap_elems ?h). he_time e < hp_time ?h)"
  proof (rule mset_take_elems)
    show "mset (take (hp_count ?h) (hp_elem ?h)) = mset (heap_elems heap @ [?e])" using m f1 by simp
    show "distinct (map he_time (heap_elems heap @ [?e]))" using D(5,6) by force
    show "he_time e < hp_time ?h" if "e \<in> set (heap_elems heap @ [?e])" for e
      using that D(6) [of e] f1 by auto
  qed
  moreover have "heap_ordered ?h (Suc i)" using o by (simp add: heap_ordered_def heap_key_def)
  ultimately show ?thesis
    unfolding eq using f1 m g(2,4,5) by (simp add: heap_inv_def i_def heap_elems_def)
qed

lemma heap_key_0:
  "heap_inv heap \<Longrightarrow> e \<in> set (heap_elems heap) \<Longrightarrow>
   elem_key (hp_policy heap) (hp_elem heap ! 0) \<le> elem_key (hp_policy heap) e"
  using heap_root_least [OF heap_invD(4), of heap] heap_invD(2,3) [of heap]
  by (auto simp: heap_elems_def heap_key_def in_set_conv_nth)

text \<open>Taking the root out of the vector.\<close>

lemma heap_extract_parts:
  assumes inv: "heap_inv heap" and ne: "0 < hp_count heap"
  defines "h \<equiv> heap\<lparr>hp_error := HEAP_OK, hp_count := hp_count heap - 1,
      hp_elem := (hp_elem heap)[0 := hp_elem heap ! (hp_count heap - 1)]\<rparr>"
  shows "down_hole h 0" "hp_count h \<le> length (hp_elem h)"
    "mset (heap_elems heap) = add_mset (hp_elem heap ! 0) (mset (take (hp_count h) (hp_elem h)))"
proof -
  note D = heap_invD [OF inv]
  have key: "heap_key h j = heap_key heap j" if "0 < j" "j < hp_count heap" for j
    using that by (simp add: h_def heap_key_def)
  show "down_hole h 0"
    unfolding down_hole_def
  proof (intro conjI allI impI)
    fix j assume j: "j < hp_count h" "0 < j" "PARENT j \<noteq> 0"
    then have "j < hp_count heap" "PARENT j < hp_count heap"
      using PARENT_le [of j] by (simp_all add: h_def)
    then show "heap_key h (PARENT j) \<le> heap_key h j"
      using D(4) j PARENT_less [of j] key [of j] key [of "PARENT j"] by (simp add: heap_ordered_def)
  qed simp
  show "hp_count h \<le> length (hp_elem h)" using D(2,3) by (simp add: h_def)
  obtain n where n: "hp_count heap = Suc n" using ne by (cases "hp_count heap") auto
  obtain x xs where x: "hp_elem heap = x # xs" using D(1,2) by (cases "hp_elem heap") auto
  show "mset (heap_elems heap) = add_mset (hp_elem heap ! 0) (mset (take (hp_count h) (hp_elem h)))"
  proof (cases n)
    case 0
    then show ?thesis by (simp add: heap_elems_def n h_def x)
  next
    case (Suc m)
    moreover have "m < length xs" using D(2,3) n x Suc by simp
    ultimately show ?thesis
      by (simp add: heap_elems_def n h_def x take_Suc_conv_app_nth)
  qed
qed

lemma heap_extract_correct:
  assumes inv: "heap_inv heap" and ne: "0 < hp_count heap"
  shows "\<exists>heap'. heap_extract heap = (heap', he_value (hp_elem heap ! 0), he_data (hp_elem heap ! 0)) \<and>
    heap_inv heap' \<and> hp_policy heap' = hp_policy heap \<and> hp_error heap' = HEAP_OK \<and>
    mset (heap_elems heap) = add_mset (hp_elem heap ! 0) (mset (heap_elems heap'))"
proof -
  note D = heap_invD [OF inv]
  let ?h = "heap\<lparr>hp_error := HEAP_OK, hp_count := hp_count heap - 1,
      hp_elem := (hp_elem heap)[0 := hp_elem heap ! (hp_count heap - 1)]\<rparr>"
  let ?e = "hp_elem heap ! 0"
  note P = heap_extract_parts [OF inv ne]
  have eq: "heap_extract heap = (heapify ?h 0, he_value ?e, he_data ?e)"
    using ne by (simp add: heap_extract_def heap_peek_def Let_def)
  have m: "mset (heap_elems (heapify ?h 0)) = mset (take (hp_count ?h) (hp_elem ?h))"
    using heapify_mset [OF P(2), of 0] heapify_frame [of ?h 0] by (simp add: heap_elems_def)
  have sub: "mset (heap_elems heap) = add_mset ?e (mset (heap_elems (heapify ?h 0)))"
    using P(3) m by simp
  then have "mset (map he_time (heap_elems heap)) =
      mset (map he_time (?e # heap_elems (heapify ?h 0)))" by simp
  then have "distinct (map he_time (heap_elems (heapify ?h 0)))"
    using D(5) mset_eq_imp_distinct_iff by fastforce
  moreover have "set (heap_elems (heapify ?h 0)) \<subseteq> set (heap_elems heap)"
    using sub by (metis insert_subset mset_subset_eq_insertD set_mset_add_mset_insert
        set_mset_mset subset_insertI)
  moreover have "heap_ordered (heapify ?h 0) (hp_count (heapify ?h 0))"
    using heapify_ordered [OF P(1,2)] heapify_frame [of ?h 0] by (simp only:)
  moreover have "hp_count (heapify ?h 0) = hp_count heap - 1" "hp_size (heapify ?h 0) = hp_size heap"
      "length (hp_elem (heapify ?h 0)) = hp_size heap" "hp_time (heapify ?h 0) = hp_time heap"
    using heapify_frame [of ?h 0] D(2) by simp_all
  moreover have "hp_count heap - 1 \<le> hp_size heap" using D(3) by linarith
  ultimately have "heap_inv (heapify ?h 0)"
    unfolding heap_inv_def using D(1,6) by (metis (no_types, lifting) subsetD)
  then show ?thesis
    using eq sub heapify_frame [of ?h 0] by (intro exI [of _ "heapify ?h 0"]) simp
qed

lemma heap_extract_empty:
  "hp_count heap = 0 \<Longrightarrow> heap_extract heap = (heap\<lparr>hp_error := HEAP_EEMPTY\<rparr>, 0, NULL)"
  by (simp add: heap_extract_def heap_peek_def)

lemma heap_count_elems: "heap_inv heap \<Longrightarrow> hp_count heap = length (heap_elems heap)"
  using heap_invD(2,3) [of heap] by (simp add: heap_elems_def)

lemma elem_key_inj: "inj_on he_time A \<Longrightarrow> inj_on (elem_key policy) A"
  by (auto simp: inj_on_def elem_key_def split: if_splits)

interpretation heap_pq: priority_queue heap_inv "\<lambda>heap. mset (heap_elems heap)"
  "\<lambda>heap. elem_key (hp_policy heap)" "\<lambda>heap. (fst (heap_extract heap), hp_elem heap ! 0)"
proof unfold_locales
  fix heap :: "'d heap_t" assume inv: "heap_inv heap"
  show "inj_on (elem_key (hp_policy heap)) (set_mset (mset (heap_elems heap)))"
    using heap_invD(5) [OF inv] by (intro elem_key_inj) (simp add: distinct_map)
next
  fix heap :: "'d heap_t" assume inv: "heap_inv heap" and "mset (heap_elems heap) \<noteq> {#}"
  then have "0 < hp_count heap" by (auto simp: heap_count_elems)
  from heap_extract_correct [OF inv this]
  show "heap_inv (fst (fst (heap_extract heap), hp_elem heap ! 0)) \<and>
      elem_key (hp_policy (fst (fst (heap_extract heap), hp_elem heap ! 0))) = elem_key (hp_policy heap)"
    and "mset (heap_elems heap) = add_mset (snd (fst (heap_extract heap), hp_elem heap ! 0))
      (mset (heap_elems (fst (fst (heap_extract heap), hp_elem heap ! 0))))" by auto
next
  fix heap :: "'d heap_t" and e
  assume "heap_inv heap" "e \<in># mset (heap_elems heap)"
  then show "elem_key (hp_policy heap) (snd (fst (heap_extract heap), hp_elem heap ! 0))
      \<le> elem_key (hp_policy heap) e" by (simp add: heap_key_0)
qed

section \<open>The order of extraction\<close>

text \<open>A stable sort by value is the sort by value and time, when the times grow.\<close>

lemma insort_lex:
  assumes "sorted (map (\<lambda>e. (f e, g e)) es)" "\<forall>y \<in> set es. g x < g y"
  shows "sorted (map (\<lambda>e. (f e, g e)) (insort_key f x es))"
  using assms
proof (induction es)
  case (Cons y es)
  have "set (insort_key f x es) = insert x (set es)" by (simp add: set_insort_key)
  then show ?case using Cons by (auto simp: less_prod_def')
qed simp

lemma sort_key_lex:
  "sorted_wrt (<) (map g es) \<Longrightarrow> sorted (map (\<lambda>e. (f e, g e)) (sort_key f es))"
  by (induction es) (simp_all add: insort_lex)

lemma sort_key_lex_eq:
  assumes "sorted_wrt (<) (map g es)"
  shows "sort_key (\<lambda>e. (f e, g e)) es = sort_key f es"
proof (rule sort_key_inj_key_eq)
  have "distinct (map g es)" using assms strict_sorted_iff by blast
  then show "inj_on (\<lambda>e. (f e, g e)) (set es)" by (auto simp: distinct_map inj_on_def)
  show "sorted (map (\<lambda>e. (f e, g e)) (sort_key f es))" by (rule sort_key_lex [OF assms])
qed simp

lemma insort_key_map: "insort_key f (h x) (map h xs) = map h (insort_key (f \<circ> h) x xs)"
  by (induction xs) simp_all

lemma sort_key_map: "sort_key f (map h xs) = map h (sort_key (f \<circ> h) xs)"
  by (induction xs) (simp_all add: insort_key_map comp_def)

text \<open>Inserting a list of values with their data, and the elements this makes.\<close>

definition heap_insert_all :: "'d heap_t \<Rightarrow> (int \<times> 'd ptr) list \<Rightarrow> 'd heap_t" where
  "heap_insert_all heap xs = foldl (\<lambda>h (v, d). heap_insert h v d) heap xs"

primrec stamped :: "int \<Rightarrow> (int \<times> 'd ptr) list \<Rightarrow> 'd heap_elem_t list" where
  "stamped t [] = []"
| "stamped t (x # xs) = \<lparr>he_time = t, he_value = fst x, he_data = snd x\<rparr> # stamped (t + 1) xs"

lemma stamped_map: "map (\<lambda>e. (he_value e, he_data e)) (stamped t xs) = xs"
  by (induction xs arbitrary: t) simp_all

lemma stamped_ge: "e \<in> set (stamped t xs) \<Longrightarrow> t \<le> he_time e"
  by (induction xs arbitrary: t) fastforce+

lemma stamped_sorted: "sorted_wrt (<) (map he_time (stamped t xs))"
  by (induction xs arbitrary: t) (auto dest!: stamped_ge)

lemma heap_insert_all_correct:
  "heap_inv heap \<Longrightarrow> heap_inv (heap_insert_all heap xs) \<and>
    hp_policy (heap_insert_all heap xs) = hp_policy heap \<and>
    mset (heap_elems (heap_insert_all heap xs)) =
      mset (heap_elems heap) + mset (stamped (hp_time heap) xs)"
proof (induction xs arbitrary: heap)
  case (Cons x xs)
  note I = heap_insert_correct [OF Cons.prems, of "fst x" "snd x"]
  then show ?case
    using Cons.IH [of "heap_insert heap (fst x) (snd x)"]
    by (simp add: heap_insert_all_def split_beta)
qed (simp add: heap_insert_all_def)

text \<open>What \<open>heap_extract\<close> returns is the value and data of the element taken.\<close>

lemma drain_extract:
  "heap_inv heap \<Longrightarrow> n \<le> hp_count heap \<Longrightarrow>
   snd (drain heap_extract n heap) = map (\<lambda>e. (he_value e, he_data e))
     (snd (drain (\<lambda>heap. (fst (heap_extract heap), hp_elem heap ! 0)) n heap))"
proof (induction n arbitrary: heap)
  case (Suc n)
  then have ne: "0 < hp_count heap" by simp
  obtain h' where h': "heap_extract heap = (h', he_value (hp_elem heap ! 0), he_data (hp_elem heap ! 0))"
      "heap_inv h'" "mset (heap_elems heap) = add_mset (hp_elem heap ! 0) (mset (heap_elems h'))"
    using heap_extract_correct [OF Suc.prems(1) ne] by blast
  have "Suc (length (heap_elems h')) = length (heap_elems heap)"
    using arg_cong [OF h'(3), of size] by simp
  then have "n \<le> hp_count h'" using Suc.prems h'(2) by (simp add: heap_count_elems)
  then show ?case using Suc.IH [OF h'(2)] h'(1) by (auto split: prod.split)
qed simp

lemma drain_insert_all:
  assumes "heap_inv heap" "heap_elems heap = []" "mset es = mset (stamped (hp_time heap) xs)"
  shows "snd (drain heap_extract (length xs) (heap_insert_all heap xs)) =
    map (\<lambda>e. (he_value e, he_data e)) (sort_key (elem_key (hp_policy heap)) es)"
proof -
  note I = heap_insert_all_correct [OF assms(1), of xs]
  let ?h = "heap_insert_all heap xs"
  have bag: "mset (heap_elems ?h) = mset es" using I assms(2,3) by simp
  have len: "length es = length xs"
    using assms(3) by (metis length_map mset_eq_length stamped_map)
  then have "length xs = hp_count ?h"
    using I bag by (metis heap_count_elems mset_eq_length)
  then show ?thesis
    using drain_extract [of ?h "length xs"] heap_pq.drain_sort_key [of ?h es] I bag len by simp
qed

text \<open>Under FIFO the values come out as a stable sort leaves them, under LIFO as the stable sort
  of the reversed list does.\<close>

lemma heap_fifo_correct:
  "snd (drain heap_extract (length xs) (heap_insert_all (heap_create n) xs)) = sort_key fst xs"
proof -
  let ?h = "heap_create n :: 'a heap_t"
  let ?es = "stamped (hp_time ?h) xs"
  have p: "hp_policy ?h = heap_time_policy_fifo" by (simp add: heap_create_def Let_def)
  have k: "elem_key heap_time_policy_fifo = (\<lambda>e. (he_value e, he_time e))"
    by (simp add: fun_eq_iff elem_key_def)
  have "snd (drain heap_extract (length xs) (heap_insert_all ?h xs)) =
      map (\<lambda>e. (he_value e, he_data e)) (sort_key he_value ?es)"
    using drain_insert_all [of ?h ?es xs] heap_inv_create [of n]
    by (simp add: p k sort_key_lex_eq [OF stamped_sorted])
  also have "\<dots> = sort_key fst (map (\<lambda>e. (he_value e, he_data e)) ?es)"
    by (simp add: sort_key_map comp_def)
  finally show ?thesis by (simp add: stamped_map)
qed

lemma heap_lifo_correct:
  "snd (drain heap_extract (length xs) (heap_insert_all
      (heap_time_policy (heap_create n) heap_time_policy_lifo) xs)) = sort_key fst (rev xs)"
proof -
  let ?h = "heap_time_policy (heap_create n) heap_time_policy_lifo :: 'a heap_t"
  let ?es = "rev (stamped (hp_time ?h) xs)"
  have p: "hp_policy ?h = heap_time_policy_lifo" by (simp add: heap_time_policy_def)
  have k: "elem_key heap_time_policy_lifo = (\<lambda>e. (he_value e, - he_time e))"
    by (simp add: fun_eq_iff elem_key_def)
  have s: "sorted_wrt (<) (map (\<lambda>e. - he_time e) ?es)"
    using stamped_sorted [of "hp_time ?h" xs]
    by (simp add: sorted_wrt_rev sorted_wrt_map flip: rev_map)
  have inv: "heap_inv ?h" "heap_elems ?h = []"
    using heap_time_policy_empty heap_inv_create heap_count_elems
    by (metis list.size(3))+
  have "snd (drain heap_extract (length xs) (heap_insert_all ?h xs)) =
      map (\<lambda>e. (he_value e, he_data e)) (sort_key he_value ?es)"
    using drain_insert_all [of ?h ?es xs] inv by (simp add: p k sort_key_lex_eq [OF s])
  also have "\<dots> = sort_key fst (map (\<lambda>e. (he_value e, he_data e)) ?es)"
    by (simp add: sort_key_map comp_def)
  finally show ?thesis by (simp add: stamped_map flip: rev_map)
qed

section \<open>Enumeration\<close>

text \<open>The loop \<open>for (v = heap_first(h, &d); !heap_error(h); v = heap_next(h, &d))\<close> of the header,
  with a bound on the calls of \<open>heap_next\<close>.\<close>

primrec heap_enum_loop :: "nat \<Rightarrow> 'd heap_t \<times> int \<times> 'd ptr \<Rightarrow> 'd heap_t \<times> (int \<times> 'd ptr) list" where
  "heap_enum_loop 0 r = (fst r, [])"
| "heap_enum_loop (Suc fuel) r =
     (if heap_error (fst r) \<noteq> HEAP_OK then (fst r, [])
      else case heap_enum_loop fuel (heap_next (fst r)) of (h, xs) \<Rightarrow> (h, snd r # xs))"

definition heap_enum :: "'d heap_t \<Rightarrow> 'd heap_t \<times> (int \<times> 'd ptr) list" where
  "heap_enum heap = heap_enum_loop (hp_count heap + 1) (heap_first heap)"

lemma heap_frame [simp]:
  "heap_elems (h\<lparr>hp_current := c\<rparr>) = heap_elems h"
  "heap_elems (h\<lparr>hp_error := e\<rparr>) = heap_elems h"
  "heap_inv (h\<lparr>hp_current := c\<rparr>) = heap_inv h"
  "heap_inv (h\<lparr>hp_error := e\<rparr>) = heap_inv h"
  by (simp_all add: heap_inv_def heap_elems_def heap_ordered_def heap_key_def)

abbreviation elem_out :: "'d heap_elem_t \<Rightarrow> int \<times> 'd ptr" where
  "elem_out e \<equiv> (he_value e, he_data e)"

lemma heap_elems_nth: "heap_inv h \<Longrightarrow> j < hp_count h \<Longrightarrow> heap_elems h ! j = hp_elem h ! j"
  by (simp add: heap_elems_def)

lemma heap_next_more:
  assumes "Suc (hp_current h) < hp_count h"
  shows "heap_next h = (h\<lparr>hp_current := Suc (hp_current h), hp_error := HEAP_OK\<rparr>,
    elem_out (hp_elem h ! Suc (hp_current h)))"
  using assms by (simp add: heap_next_def Let_def)

lemma heap_next_end:
  "hp_count h \<le> Suc (hp_current h) \<Longrightarrow> heap_next h = (h\<lparr>hp_error := HEAP_EELEM\<rparr>, 0, NULL)"
  by (simp add: heap_next_def)

lemma heap_enum_loop_correct:
  assumes "heap_inv h" "hp_current h + Suc m = hp_count h" "hp_error h = HEAP_OK"
  shows "\<exists>h'. heap_enum_loop (Suc (Suc m)) (h, elem_out (hp_elem h ! hp_current h)) =
    (h', map elem_out (drop (hp_current h) (heap_elems h))) \<and>
    heap_inv h' \<and> heap_elems h' = heap_elems h \<and> hp_error h' = HEAP_EELEM"
  using assms
proof (induction m arbitrary: h)
  case 0
  have n: "length (heap_elems h) = Suc (hp_current h)" "heap_elems h ! hp_current h = hp_elem h ! hp_current h"
    using 0 heap_count_elems [OF 0(1)] by (auto simp: heap_elems_nth)
  then have "drop (hp_current h) (heap_elems h) = [hp_elem h ! hp_current h]"
    using Cons_nth_drop_Suc [of "hp_current h" "heap_elems h"] by simp
  then show ?case using 0 by (simp add: heap_error_def heap_next_end)
next
  case (Suc m)
  let ?h = "h\<lparr>hp_current := Suc (hp_current h), hp_error := HEAP_OK\<rparr>"
  have n: "length (heap_elems h) > hp_current h" "heap_elems h ! hp_current h = hp_elem h ! hp_current h"
    using Suc.prems heap_count_elems [OF Suc.prems(1)] by (auto simp: heap_elems_nth)
  then have d: "drop (hp_current h) (heap_elems h) =
      hp_elem h ! hp_current h # drop (Suc (hp_current h)) (heap_elems h)"
    by (metis Cons_nth_drop_Suc)
  have "heap_next h = (?h, elem_out (hp_elem ?h ! hp_current ?h))"
    using Suc.prems(2) by (simp add: heap_next_more)
  then have step: "heap_enum_loop (Suc (Suc (Suc m))) (h, elem_out (hp_elem h ! hp_current h)) =
      (case heap_enum_loop (Suc (Suc m)) (?h, elem_out (hp_elem ?h ! hp_current ?h)) of
         (h', xs) \<Rightarrow> (h', elem_out (hp_elem h ! hp_current h) # xs))"
    using Suc.prems(3) by (subst heap_enum_loop.simps) (simp add: heap_error_def)
  obtain h' where "heap_enum_loop (Suc (Suc m)) (?h, elem_out (hp_elem ?h ! hp_current ?h)) =
      (h', map elem_out (drop (hp_current ?h) (heap_elems ?h)))"
      "heap_inv h'" "heap_elems h' = heap_elems ?h" "hp_error h' = HEAP_EELEM"
    using Suc.IH [of ?h] Suc.prems by auto
  then show ?case unfolding step d by (intro exI [of _ h']) simp
qed

lemma heap_enum_correct:
  assumes "heap_inv heap"
  shows "\<exists>heap'. heap_enum heap = (heap', map elem_out (heap_elems heap)) \<and>
    heap_inv heap' \<and> heap_elems heap' = heap_elems heap \<and> hp_error heap' = HEAP_EELEM"
proof (cases "hp_count heap")
  case 0
  then show ?thesis
    using assms heap_count_elems [OF assms] by (simp add: heap_enum_def heap_first_def heap_error_def)
next
  case (Suc m)
  let ?h = "heap\<lparr>hp_current := 0, hp_error := HEAP_OK\<rparr>"
  have "heap_enum heap = heap_enum_loop (Suc (Suc m)) (?h, elem_out (hp_elem ?h ! hp_current ?h))"
    using Suc by (simp add: heap_enum_def heap_first_def del: heap_enum_loop.simps)
  then show ?thesis
    using heap_enum_loop_correct [of ?h m] Suc assms by (simp del: heap_enum_loop.simps)
qed

section \<open>Properties\<close>

text \<open>C33: under the FIFO policy, extracting everything that was inserted into a new heap returns
  the values in increasing order and, among equal values, in the order of insertion.\<close>

theorem heap_fifo_order:
  "snd (drain heap_extract (length xs) (heap_insert_all (heap_create n) xs)) = sort_key fst xs"
  by (rule heap_fifo_correct)

text \<open>under the LIFO policy equal values come out in the reverse order of insertion.\<close>

theorem heap_lifo_order:
  "snd (drain heap_extract (length xs) (heap_insert_all
      (heap_time_policy (heap_create n) heap_time_policy_lifo) xs)) = sort_key fst (rev xs)"
  by (rule heap_lifo_correct)

text \<open>\<open>heap_extract\<close> returns what \<open>heap_peek\<close> shows, an element of least value, takes it and
  nothing else out, and keeps the heap well formed.\<close>

theorem heap_extract_takes_least:
  assumes "heap_inv heap" "0 < hp_count heap"
  shows "\<exists>heap' v d t. heap_extract heap = (heap', v, d) \<and> snd (heap_peek heap) = (v, d) \<and>
    heap_inv heap' \<and> (\<forall>e \<in> set (heap_elems heap). v \<le> he_value e) \<and>
    mset (heap_elems heap) = add_mset \<lparr>he_time = t, he_value = v, he_data = d\<rparr> (mset (heap_elems heap'))"
proof -
  let ?e = "hp_elem heap ! 0"
  obtain heap' where h: "heap_extract heap = (heap', he_value ?e, he_data ?e)" "heap_inv heap'"
      "mset (heap_elems heap) = add_mset ?e (mset (heap_elems heap'))"
    using heap_extract_correct [OF assms] by blast
  have "he_value ?e \<le> he_value e" if "e \<in> set (heap_elems heap)" for e
    using heap_key_0 [OF assms(1) that] by (auto simp: elem_key_def less_eq_prod_def)
  then show ?thesis
    using h assms(2) by (intro exI [of _ heap'] exI [of _ "he_value ?e"] exI [of _ "he_data ?e"]
        exI [of _ "he_time ?e"]) (simp add: heap_peek_def)
qed

theorem heap_extract_takes_least_witness:
  "\<exists>heap' v. heap_extract (heap_insert (heap_insert (heap_create 0) 7 NULL) 3 (Some ''x'')) = (heap', v) \<and>
    snd (heap_peek (heap_insert (heap_insert (heap_create 0) 7 NULL) 3 (Some ''x''))) = v"
proof -
  let ?h = "heap_insert (heap_insert (heap_create 0) 7 NULL) 3 (Some ''x'')"
  have "heap_inv ?h" "0 < hp_count ?h"
    using heap_insert_correct heap_inv_create(1) by (metis, metis add_gr_0 zero_less_one)
  from heap_extract_takes_least [OF this] show ?thesis by auto
qed

text \<open>the enumeration with \<open>heap_first\<close> and \<open>heap_next\<close> visits the value and data of every
  element once and changes no element.\<close>

theorem heap_enumerates:
  assumes "heap_inv heap"
  shows "\<exists>heap' xs. heap_enum heap = (heap', xs) \<and>
    mset xs = image_mset (\<lambda>e. (he_value e, he_data e)) (mset (heap_elems heap)) \<and>
    heap_inv heap' \<and> heap_elems heap' = heap_elems heap"
  using heap_enum_correct [OF assms] by auto

theorem heap_enumerates_witness:
  "\<exists>heap'. heap_enum (heap_insert (heap_create 0) 5 (Some ''x'')) = (heap', [(5, Some ''x'')])"
proof -
  let ?h = "heap_insert (heap_create 0) 5 (Some ''x'')"
  note I = heap_insert_correct [OF heap_inv_create(1), of 0 5 "Some ''x''"]
  then obtain heap' xs where "heap_enum ?h = (heap', xs)"
      "mset xs = image_mset (\<lambda>e. (he_value e, he_data e)) (mset (heap_elems ?h))"
    using heap_enumerates [of ?h] by blast
  then show ?thesis using I by (auto simp: heap_inv_create(2))
qed

end
