(* ===== verification/BitMap.thy ===== *)
theory BitMap
  imports Prelude
begin

unbundle bit_operations_syntax

text \<open>
  The bit map of \<open>src/lib/util/bit-map.c\<close>: bits in a vector of 32-bit words, written and read in
  groups of at most 32 that may straddle two words. Positions and sizes are the code's
  \<open>unsigned int\<close>, 32-bit words here, with their wrap-around. \<open>bm_bit\<close> is the abstract value, the
  bit at a position. A group of more than 32 bits ends the process with \<open>abort()\<close>.
\<close>

section \<open>Operations\<close>

record bit_map_t =
  bm_size :: "32 word"
  bm_word_count :: "32 word"
  bm_data :: "32 word list"

definition bit_map_create :: "32 word \<Rightarrow> bit_map_t" where
  "bit_map_create sz =
     (let word_count = (sz + 31) div 32
      in \<lparr>bm_size = sz, bm_word_count = word_count, bm_data = replicate (unat word_count) 0\<rparr>)"

definition bit_map_set :: "bit_map_t \<Rightarrow> 32 word \<Rightarrow> 32 word \<Rightarrow> 32 word \<Rightarrow> bit_map_t run" where
  "bit_map_set bm pos sz v =
     (if 32 < sz then Inl Abort
      else
        let where_word1 = pos div 32;
            where_offset1 = pos mod 32;
            size_align1 = min sz (32 - where_offset1)
        in if bm_word_count bm \<le> where_word1 then Inr bm
           else if sz = 32 \<and> where_offset1 = 0
           then Inr (bm\<lparr>bm_data := (bm_data bm)[unat where_word1 := v]\<rparr>)
           else
             let word1_mask = push_bit (unat where_offset1) (push_bit (unat size_align1) 1 - 1);
                 word1_value = push_bit (unat where_offset1) v AND word1_mask;
                 word1 = (bm_data bm ! unat where_word1 AND NOT word1_mask) OR word1_value;
                 bm1 = bm\<lparr>bm_data := (bm_data bm)[unat where_word1 := word1]\<rparr>
             in if size_align1 = sz then Inr bm1
                else
                  let where_word2 = where_word1 + 1;
                      size_align2 = sz - size_align1
                  in if bm_word_count bm \<le> where_word2 then Inr bm1
                     else
                       let word2_mask = push_bit (unat size_align2) 1 - 1;
                           word2_value = drop_bit (unat size_align1) v AND word2_mask;
                           word2 = (bm_data bm1 ! unat where_word2 AND NOT word2_mask) OR word2_value
                       in Inr (bm1\<lparr>bm_data := (bm_data bm1)[unat where_word2 := word2]\<rparr>))"

definition bit_map_get :: "bit_map_t \<Rightarrow> 32 word \<Rightarrow> 32 word \<Rightarrow> 32 word run" where
  "bit_map_get bm pos sz =
     (if 32 < sz then Inl Abort
      else
        let where_word1 = pos div 32;
            where_offset1 = pos mod 32;
            size_align1 = min sz (32 - where_offset1);
            word1 = (if where_word1 < bm_word_count bm then bm_data bm ! unat where_word1 else 0)
        in if sz = 32 \<and> where_offset1 = 0 then Inr word1
           else
             let word1_mask = push_bit (unat where_offset1) (push_bit (unat size_align1) 1 - 1);
                 result = drop_bit (unat where_offset1) (word1 AND word1_mask)
             in if size_align1 = sz then Inr result
                else
                  let size_align2 = sz - size_align1;
                      word2_mask = push_bit (unat size_align2) 1 - 1
                  in Inr (result OR push_bit (unat size_align1) (word1 AND word2_mask)))"

text \<open>The loops of \<open>bit_map_count_ones\<close> and \<open>bit_map_dump\<close>, from index \<open>i\<close> with \<open>n\<close> iterations left;
  \<open>count\<close> is an \<open>int\<close>.\<close>

primrec count_ones_loop :: "nat \<Rightarrow> bit_map_t \<Rightarrow> 32 word \<Rightarrow> 32 word \<Rightarrow> int \<Rightarrow> int run" where
  "count_ones_loop 0 bm pos i cnt = Inr cnt"
| "count_ones_loop (Suc n) bm pos i cnt =
     andthen (bit_map_get bm (pos + i) 1) (\<lambda>b. count_ones_loop n bm pos (i + 1) (cnt + uint b))"

definition bit_map_count_ones :: "bit_map_t \<Rightarrow> 32 word \<Rightarrow> 32 word \<Rightarrow> int run" where
  "bit_map_count_ones bm pos sz = count_ones_loop (unat sz) bm pos 0 0"

primrec dump_loop :: "nat \<Rightarrow> bit_map_t \<Rightarrow> 32 word \<Rightarrow> 32 word \<Rightarrow> 32 word list run" where
  "dump_loop 0 bm pos i = Inr []"
| "dump_loop (Suc n) bm pos i =
     andthen (bit_map_get bm (pos + i) 1) (\<lambda>b. andthen (dump_loop n bm pos (i + 1)) (\<lambda>bs. Inr (b # bs)))"

text \<open>\<open>bit_map_dump\<close> prints the digits of this list.\<close>

definition bit_map_dump :: "bit_map_t \<Rightarrow> 32 word \<Rightarrow> 32 word \<Rightarrow> 32 word list run" where
  "bit_map_dump bm pos sz = dump_loop (unat sz) bm pos 0"

text \<open>Two different maps; the result is the new destination.\<close>

function bit_map_copy :: "bit_map_t \<Rightarrow> 32 word \<Rightarrow> bit_map_t \<Rightarrow> 32 word \<Rightarrow> 32 word \<Rightarrow> bit_map_t run" where
  "bit_map_copy dst dst_where src src_where sz =
     (if sz = 0 then Inr dst
      else
        let current_size = min sz 32
        in andthen (bit_map_get src src_where current_size) (\<lambda>w.
           andthen (bit_map_set dst dst_where current_size w) (\<lambda>dst'.
           bit_map_copy dst' (dst_where + current_size) src (src_where + current_size)
             (sz - current_size))))"
  by pat_completeness auto
termination
proof (relation "measure (\<lambda>(dst, dw, src, sw, sz). unat sz)")
  fix sz c :: "32 word" and dst dst' src :: bit_map_t and dw sw :: "32 word"
  assume "sz \<noteq> 0" "c = min sz 32"
  then have "unat (sz - c) < unat sz"
    by (simp add: unat_sub min_def unat_gt_0 word_le_nat_alt)
  then show "((dst', dw + c, src, sw + c, sz - c), dst, dw, src, sw, sz)
      \<in> measure (\<lambda>(dst, dw, src, sw, sz). unat sz)" by simp
qed simp

declare bit_map_copy.simps [simp del]

section \<open>Abstract value and invariant\<close>

definition bm_inv :: "bit_map_t \<Rightarrow> bool" where
  "bm_inv bm \<longleftrightarrow> length (bm_data bm) = unat (bm_word_count bm) \<and> unat (bm_word_count bm) \<le> 2 ^ 27"

definition bm_bit :: "bit_map_t \<Rightarrow> nat \<Rightarrow> bool" where
  "bm_bit bm i \<longleftrightarrow> i div 32 < length (bm_data bm) \<and> bit (bm_data bm ! (i div 32)) (i mod 32)"

lemma bm_inv_create: "bm_inv (bit_map_create sz)" "\<not> bm_bit (bit_map_create sz) i"
proof -
  have "unat (sz + 31) div 32 \<le> 2 ^ 27" using unsigned_less [of "sz + 31", where 'a = nat] by simp
  then show "bm_inv (bit_map_create sz)"
    by (simp add: bm_inv_def bit_map_create_def Let_def unat_div)
  show "\<not> bm_bit (bit_map_create sz) i"
    by (simp add: bm_bit_def bit_map_create_def Let_def)
qed

text \<open>The words of the code as natural numbers: position \<open>p = pos div 32\<close>, offset \<open>o\<close>, sizes.\<close>

lemma unat_div_32 [simp]: "unat ((pos :: 32 word) div 32) = unat pos div 32"
  by (simp add: unat_div)

lemma unat_mod_32 [simp]: "unat ((pos :: 32 word) mod 32) = unat pos mod 32"
  by (simp add: unat_mod)

lemma unat_room: "unat (32 - (pos :: 32 word) mod 32) = 32 - unat pos mod 32"
  by (subst unat_sub) (simp_all add: word_le_nat_alt)

lemma unat_min: "unat (min a b :: 'a::len word) = min (unat a) (unat b)"
  by (simp add: min_def word_le_nat_alt)

lemma unat_next_word [simp]: "unat ((pos :: 32 word) div 32 + 1) = unat pos div 32 + 1"
proof -
  have "unat pos div 32 + 1 < 2 ^ 32" using unsigned_less [of pos, where 'a = nat] by simp
  then show ?thesis by (subst unat_add_lem [THEN iffD1]) simp_all
qed

lemma shifted_mask: "push_bit n (1 :: 'a::len word) - 1 = mask n"
  by (simp add: mask_eq_exp_minus_1)


text \<open>Storing the low \<open>n\<close> bits of \<open>v\<close> at offset \<open>off\<close> of a word.\<close>

definition deposit :: "32 word \<Rightarrow> nat \<Rightarrow> nat \<Rightarrow> 32 word \<Rightarrow> 32 word" where
  "deposit w off n v = (w AND NOT (push_bit off (mask n))) OR (push_bit off v AND push_bit off (mask n))"

lemma bit_deposit:
  "off + n \<le> 32 \<Longrightarrow> k < 32 \<Longrightarrow>
   bit (deposit w off n v) k = (if off \<le> k \<and> k < off + n then bit v (k - off) else bit w k)"
  by (auto simp: deposit_def bit_simps)

lemma bit_deposit_high:
  "n \<le> 32 \<Longrightarrow> k < 32 \<Longrightarrow>
   bit ((w AND NOT (mask n)) OR (drop_bit m v AND mask n)) k =
   (if k < n then bit v (m + k) else bit (w :: 32 word) k)"
  by (auto simp: bit_simps)

text \<open>\<open>bit_map_set\<close> with the sizes as natural numbers.\<close>

lemma bit_map_set_nat:
  fixes bm :: bit_map_t and pos sz v :: "32 word"
  assumes "sz \<le> 32" "bm_inv bm"
  defines "p \<equiv> unat pos div 32" and "off \<equiv> unat pos mod 32"
  defines "n1 \<equiv> min (unat sz) (32 - off)"
  defines "d1 \<equiv> (bm_data bm)[p := deposit (bm_data bm ! p) off n1 v]"
  defines "d2 \<equiv> d1[p + 1 := (d1 ! (p + 1) AND NOT (mask (unat sz - n1))) OR
      (drop_bit n1 v AND mask (unat sz - n1))]"
  shows "bit_map_set bm pos sz v = Inr (bm\<lparr>bm_data :=
     if length (bm_data bm) \<le> p then bm_data bm
     else if unat sz \<le> 32 - off then d1
     else if length (bm_data bm) \<le> p + 1 then d1 else d2\<rparr>)"
proof -
  note nat = word_le_nat_alt word_less_nat_alt unat_min unat_room unat_sub
  have len: "unat (bm_word_count bm) = length (bm_data bm)" using assms(2) by (simp add: bm_inv_def)
  have n1: "unat (min sz (32 - pos mod 32)) = n1" by (simp add: unat_min unat_room n1_def off_def)
  have al: "min sz (32 - pos mod 32) = sz \<longleftrightarrow> unat sz \<le> 32 - off"
    by (simp add: word_unat_eq_iff n1) (auto simp: n1_def)
  have n2: "unat (sz - min sz (32 - pos mod 32)) = unat sz - n1"
    by (subst unat_sub) (simp_all add: n1)
  have out: "bm_word_count bm \<le> pos div 32 \<longleftrightarrow> length (bm_data bm) \<le> p"
      "bm_word_count bm \<le> pos div 32 + 1 \<longleftrightarrow> length (bm_data bm) \<le> p + 1"
    by (simp_all add: nat len p_def)
  have full: "deposit w 0 32 v = v" for w
    by (rule bit_word_eqI) (simp add: bit_deposit)
  have whole: "sz = 32 \<and> pos mod 32 = 0 \<longleftrightarrow> unat sz = 32 \<and> off = 0"
    by (simp add: word_unat_eq_iff off_def)
  show ?thesis
  proof (cases "unat sz = 32 \<and> off = 0")
    case True
    moreover from this have "n1 = 32" by (simp add: n1_def)
    ultimately show ?thesis
      using assms(1) unfolding bit_map_set_def Let_def whole out
      by (simp add: d1_def full p_def not_less)
  next
    case False
    then show ?thesis
      using assms(1) unfolding bit_map_set_def Let_def whole out al shifted_mask n1 n2 if_not_P [OF False]
      by (simp add: d2_def d1_def deposit_def p_def off_def not_less)
  qed
qed

text \<open>Where the positions of a group lie.\<close>

lemma group_position:
  fixes p q off k n :: nat
  assumes "off < 32" "k < 32" "n \<le> 32"
  shows "32 * p + off \<le> 32 * q + k \<and> 32 * q + k < 32 * p + off + n \<longleftrightarrow>
    q = p \<and> off \<le> k \<and> k < off + n \<or> q = p + 1 \<and> k + 32 < off + n"
proof -
  consider "q < p" | "q = p" | "q = p + 1" | "p + 1 < q" by linarith
  then show ?thesis using assms by cases auto
qed

text \<open>Bit \<open>i\<close> after \<open>bit_map_set\<close>: the bits of \<open>v\<close> in the group, the old bits elsewhere.\<close>

lemma bit_map_set_correct:
  assumes "sz \<le> 32" "bm_inv bm"
  shows "\<exists>bm'. bit_map_set bm pos sz v = Inr bm' \<and> bm_inv bm' \<and>
    bm_size bm' = bm_size bm \<and> bm_word_count bm' = bm_word_count bm \<and>
    (\<forall>i. bm_bit bm' i =
      (if unat pos \<le> i \<and> i < unat pos + unat sz \<and> i < 32 * length (bm_data bm)
       then bit v (i - unat pos) else bm_bit bm i))"
proof -
  define p where "p = unat pos div 32"
  define off where "off = unat pos mod 32"
  have pos: "unat pos = 32 * p + off" "off < 32" by (simp_all add: p_def off_def)
  have sz: "unat sz \<le> 32" using assms(1) by (simp add: word_le_nat_alt)
  note set = bit_map_set_nat [OF assms, of pos v, folded p_def off_def]
  obtain bm' where bm': "bit_map_set bm pos sz v = Inr bm'" using set by blast
  have "bm_bit bm' i =
      (if unat pos \<le> i \<and> i < unat pos + unat sz \<and> i < 32 * length (bm_data bm)
       then bit v (i - unat pos) else bm_bit bm i)" for i
  proof -
    obtain q k where i: "i = 32 * q + k" "k < 32"
      by (metis mod_less_divisor mult_div_mod_eq zero_less_numeral)
    then have q: "i div 32 = q" "i mod 32 = k" by simp_all
    have lt: "i < 32 * length (bm_data bm) \<longleftrightarrow> q < length (bm_data bm)" using i by linarith
    have range: "unat pos \<le> i \<and> i < unat pos + unat sz \<longleftrightarrow>
        q = p \<and> off \<le> k \<and> k < off + unat sz \<or> q = p + 1 \<and> k + 32 < off + unat sz"
      unfolding pos(1) i(1) by (rule group_position [OF pos(2) i(2) sz])
    let ?ds = "bm_data bm"
    consider (out) "length ?ds \<le> p" | (one) "p < length ?ds" "unat sz \<le> 32 - off"
      | (cut) "p < length ?ds" "\<not> unat sz \<le> 32 - off" "length ?ds \<le> p + 1"
      | (two) "p < length ?ds" "\<not> unat sz \<le> 32 - off" "p + 1 < length ?ds" by linarith
    then show ?thesis
    proof cases
      case out
      then have "bm' = bm" using bm' set by simp
      then show ?thesis using out unfolding conj_assoc [symmetric] range lt by auto
    next
      case one
      then have d: "bm_data bm' = ?ds[p := deposit (?ds ! p) off (unat sz) v]"
        using bm' set by (auto simp: min_def)
      have r: "unat pos \<le> i \<and> i < unat pos + unat sz \<longleftrightarrow> q = p \<and> off \<le> k \<and> k < off + unat sz"
        using one(2) i(2) pos(2) by (auto simp: range)
      show ?thesis
        using one i(2) pos unfolding conj_assoc [symmetric] r lt unfolding bm_bit_def q d
        by (cases "q = p") (auto simp: bit_deposit i(1))
    next
      case cut
      then have d: "bm_data bm' = ?ds[p := deposit (?ds ! p) off (32 - off) v]"
        using bm' set by auto
      have r: "unat pos \<le> i \<and> i < unat pos + unat sz \<and> i < 32 * length ?ds \<longleftrightarrow> q = p \<and> off \<le> k"
        using cut i(2) pos(2) unfolding conj_assoc [symmetric] range lt by auto
      show ?thesis
        using cut i(2) pos unfolding r unfolding bm_bit_def q d
        by (cases "q = p") (auto simp: bit_deposit i(1))
    next
      case two
      let ?n1 = "32 - off"
      let ?d1 = "?ds[p := deposit (?ds ! p) off ?n1 v]"
      have d: "bm_data bm' = ?d1[p + 1 := (?ds ! (p + 1) AND NOT (mask (unat sz - ?n1))) OR
          (drop_bit ?n1 v AND mask (unat sz - ?n1))]"
        using bm' set two by auto
      have r: "unat pos \<le> i \<and> i < unat pos + unat sz \<and> i < 32 * length ?ds \<longleftrightarrow>
          q = p \<and> off \<le> k \<or> q = p + 1 \<and> k < unat sz - ?n1"
        using two i(2) pos(2) unfolding conj_assoc [symmetric] range lt by auto
      show ?thesis
        using two i(2) pos sz bit_deposit_high [of "unat sz - ?n1" k "?ds ! (p + 1)" ?n1 v]
        unfolding r unfolding bm_bit_def q d
        by (cases "q = p"; cases "q = p + 1") (auto simp: bit_deposit i(1))
    qed
  qed
  moreover have "bm_inv bm'" "bm_size bm' = bm_size bm" "bm_word_count bm' = bm_word_count bm"
    using bm' set assms(2) by (auto simp: bm_inv_def)
  ultimately show ?thesis using bm' by blast
qed

section \<open>Reading\<close>

text \<open>What \<open>bit_map_get\<close> reads: for the part of the group in the second word it looks at the low
  bits of the first word again.\<close>

lemma bit_map_get_bits:
  fixes bm :: bit_map_t and pos sz :: "32 word"
  assumes "sz \<le> 32" "bm_inv bm"
  defines "off \<equiv> unat pos mod 32"
  shows "\<exists>w. bit_map_get bm pos sz = Inr w \<and>
    (\<forall>k < 32. bit w k =
      (k < unat sz \<and> bm_bit bm (if k < 32 - off then unat pos + k else 32 * (unat pos div 32) + (k - (32 - off)))))"
proof -
  define p where "p = unat pos div 32"
  define n1 where "n1 = min (unat sz) (32 - off)"
  define w1 where "w1 = (if p < length (bm_data bm) then bm_data bm ! p else 0)"
  have pos: "unat pos = 32 * p + off" "off < 32" by (simp_all add: p_def off_def)
  have sz: "unat sz \<le> 32" using assms(1) by (simp add: word_le_nat_alt)
  have bits: "bm_bit bm (32 * p + k) = bit w1 k" if "k < 32" for k
    using that by (simp add: bm_bit_def w1_def)
  have len: "unat (bm_word_count bm) = length (bm_data bm)" using assms(2) by (simp add: bm_inv_def)
  have n1: "unat (min sz (32 - pos mod 32)) = n1" by (simp add: unat_min unat_room n1_def off_def)
  have al: "min sz (32 - pos mod 32) = sz \<longleftrightarrow> unat sz \<le> 32 - off"
    by (simp add: word_unat_eq_iff n1) (auto simp: n1_def)
  have n2: "unat (sz - min sz (32 - pos mod 32)) = unat sz - n1"
    by (subst unat_sub) (simp_all add: n1)
  have rd: "(if pos div 32 < bm_word_count bm then bm_data bm ! unat (pos div 32) else 0) = w1"
    by (simp add: word_less_nat_alt len w1_def p_def)
  have whole: "sz = 32 \<and> pos mod 32 = 0 \<longleftrightarrow> unat sz = 32 \<and> off = 0"
    by (simp add: word_unat_eq_iff off_def)
  have off: "unat (pos mod 32) = off" by (simp add: off_def)
  have get: "bit_map_get bm pos sz =
      Inr (if unat sz = 32 \<and> off = 0 then w1
           else let r = drop_bit off (w1 AND push_bit off (mask n1))
                in if unat sz \<le> 32 - off then r else r OR push_bit n1 (w1 AND mask (unat sz - n1)))"
    using assms(1) unfolding bit_map_get_def Let_def whole rd al shifted_mask n1 n2 off
    by (simp add: not_less)
  consider (whole) "unat sz = 32" "off = 0" | (one) "\<not> (unat sz = 32 \<and> off = 0)" "unat sz \<le> 32 - off"
    | (two) "\<not> (unat sz = 32 \<and> off = 0)" "\<not> unat sz \<le> 32 - off" by blast
  then show ?thesis
  proof cases
    case whole
    then show ?thesis using get bits pos by simp
  next
    case one
    then have "n1 = unat sz" by (simp add: n1_def)
    then show ?thesis
      using get one bits pos by (auto simp: bit_simps add.assoc if_not_P [OF one(1)])
  next
    case two
    then have "n1 = 32 - off" by (simp add: n1_def)
    then have "bit_map_get bm pos sz = Inr (drop_bit off (w1 AND push_bit off (mask (32 - off))) OR
        push_bit (32 - off) (w1 AND mask (unat sz - (32 - off))))"
      using get two by (simp only: if_not_P [OF two(1)] if_not_P [OF two(2)] Let_def if_False)
    moreover have "bit (drop_bit off (w1 AND push_bit off (mask (32 - off))) OR
        push_bit (32 - off) (w1 AND mask (unat sz - (32 - off)))) k =
      (k < unat sz \<and> bm_bit bm (if k < 32 - off then unat pos + k else 32 * p + (k - (32 - off))))"
      if "k < 32" for k
      using that two bits [of "off + k"] bits [of "k - (32 - off)"] pos
      by (auto simp: bit_simps add.assoc)
    ultimately show ?thesis by (simp add: p_def)
  qed
qed

text \<open>A group that lies in one word is read right.\<close>

lemma bit_map_get_correct:
  assumes "sz \<le> 32" "bm_inv bm" "unat pos mod 32 + unat sz \<le> 32"
  shows "\<exists>w. bit_map_get bm pos sz = Inr w \<and>
    (\<forall>k < 32. bit w k = (k < unat sz \<and> bm_bit bm (unat pos + k)))"
proof -
  obtain w where w: "bit_map_get bm pos sz = Inr w"
    "\<forall>k < 32. bit w k = (k < unat sz \<and> bm_bit bm (if k < 32 - unat pos mod 32 then unat pos + k
      else 32 * (unat pos div 32) + (k - (32 - unat pos mod 32))))"
    using bit_map_get_bits [OF assms(1,2)] by blast
  moreover have "k < unat sz \<Longrightarrow> k < 32 - unat pos mod 32" for k using assms(3) by linarith
  ultimately show ?thesis by auto
qed

text \<open>Written and read back in one word: the low bits of the value.\<close>

lemma bit_map_get_set:
  assumes "sz \<le> 32" "bm_inv bm" "unat pos mod 32 + unat sz \<le> 32" "unat pos div 32 < length (bm_data bm)"
  shows "andthen (bit_map_set bm pos sz v) (\<lambda>bm'. bit_map_get bm' pos sz) = Inr (v AND mask (unat sz))"
proof -
  obtain bm' where bm': "bit_map_set bm pos sz v = Inr bm'" "bm_inv bm'"
      "\<And>i. bm_bit bm' i = (if unat pos \<le> i \<and> i < unat pos + unat sz \<and> i < 32 * length (bm_data bm)
        then bit v (i - unat pos) else bm_bit bm i)"
    using bit_map_set_correct [OF assms(1,2)] by blast
  obtain w where w: "bit_map_get bm' pos sz = Inr w"
      "\<forall>k < 32. bit w k = (k < unat sz \<and> bm_bit bm' (unat pos + k))"
    using bit_map_get_correct [OF assms(1) bm'(2) assms(3)] by blast
  have "unat pos + k < 32 * length (bm_data bm)" if "k < unat sz" for k
    using assms(3,4) that mult_div_mod_eq [of 32 "unat pos"] by linarith
  then have "w = v AND mask (unat sz)"
    using w(2) by (intro bit_word_eqI) (auto simp: bm'(3) bit_simps)
  then show ?thesis by (simp add: bm'(1) w(1))
qed

text \<open>Single bits are always read right; positions wrap around in \<open>unsigned int\<close>.\<close>

lemma bit_map_get_1:
  assumes "bm_inv bm"
  shows "bit_map_get bm pos 1 = Inr (of_bool (bm_bit bm (unat pos)))"
proof -
  have "unat pos mod 32 + unat (1 :: 32 word) \<le> 32"
    using mod_less_divisor [of 32 "unat pos"] by simp
  then obtain w where w: "bit_map_get bm pos 1 = Inr w"
      "\<forall>k < 32. bit w k = (k < 1 \<and> bm_bit bm (unat pos + k))"
    using bit_map_get_correct [of 1 bm pos] assms by (auto simp: word_le_nat_alt)
  then have "w = of_bool (bm_bit bm (unat pos))"
    by (intro bit_word_eqI) (auto simp: bit_simps)
  then show ?thesis by (simp add: w(1))
qed

lemma count_ones_loop_correct:
  assumes "bm_inv bm"
  shows "count_ones_loop n bm pos i cnt = Inr (cnt + int (card {j. j < n \<and> bm_bit bm (unat (pos + i + of_nat j))}))"
proof (induction n arbitrary: i cnt)
  case (Suc n)
  let ?P = "\<lambda>j. bm_bit bm (unat (pos + i + of_nat j))"
  have "{j. j < Suc n \<and> ?P j} = (if ?P 0 then {0} else {}) \<union> Suc ` {j. j < n \<and> ?P (Suc j)}"
    by (auto simp: less_Suc_eq_0_disj)
  moreover have "card (Suc ` {j. j < n \<and> ?P (Suc j)}) = card {j. j < n \<and> ?P (Suc j)}"
    by (rule card_image) simp
  ultimately have "card {j. j < Suc n \<and> ?P j} = of_bool (?P 0) + card {j. j < n \<and> ?P (Suc j)}"
    by (simp add: card_insert_if image_iff)
  then show ?case
    using Suc.IH [of "i + 1" "cnt + of_bool (?P 0)"]
    by (cases "?P 0") (simp_all add: bit_map_get_1 [OF assms] ac_simps)
qed simp

lemma bit_map_count_ones_correct:
  assumes "bm_inv bm" "unat pos + unat sz \<le> 2 ^ 32"
  shows "bit_map_count_ones bm pos sz =
    Inr (int (card {i. unat pos \<le> i \<and> i < unat pos + unat sz \<and> bm_bit bm i}))"
proof -
  have "unat (pos + of_nat j) = unat pos + j" if "j < unat sz" for j
  proof -
    have "unat (of_nat j :: 32 word) = j" using that unsigned_less [of sz, where 'a = nat] by (simp add: unat_of_nat)
    then show ?thesis using that assms(2) by (subst unat_add_lem [THEN iffD1]) simp_all
  qed
  then have "{j. j < unat sz \<and> bm_bit bm (unat (pos + 0 + of_nat j))} =
      {j. j < unat sz \<and> bm_bit bm (unat pos + j)}" by auto
  moreover have "(+) (unat pos) ` {j. j < unat sz \<and> bm_bit bm (unat pos + j)} =
      {i. unat pos \<le> i \<and> i < unat pos + unat sz \<and> bm_bit bm i}"
    by (auto simp: image_iff) (metis le_add_diff_inverse nat_add_left_cancel_less)
  moreover have "card ((+) (unat pos) ` {j. j < unat sz \<and> bm_bit bm (unat pos + j)}) =
      card {j. j < unat sz \<and> bm_bit bm (unat pos + j)}" by (rule card_image) simp
  ultimately show ?thesis
    using count_ones_loop_correct [OF assms(1), of "unat sz" pos 0 0]
    by (simp add: bit_map_count_ones_def)
qed

text \<open>Copying from a word boundary of the source, to any position of the destination.\<close>

lemma bit_map_copy_correct:
  assumes "bm_inv dst" "bm_inv src" "unat src_where mod 32 = 0"
    and "unat src_where + unat sz < 2 ^ 32" "unat dst_where + unat sz < 2 ^ 32"
  shows "\<exists>dst'. bit_map_copy dst dst_where src src_where sz = Inr dst' \<and> bm_inv dst' \<and>
    length (bm_data dst') = length (bm_data dst) \<and>
    (\<forall>i. bm_bit dst' i =
      (if unat dst_where \<le> i \<and> i < unat dst_where + unat sz \<and> i < 32 * length (bm_data dst)
       then bm_bit src (unat src_where + (i - unat dst_where)) else bm_bit dst i))"
  using assms
proof (induction "unat sz" arbitrary: dst dst_where src_where sz rule: less_induct)
  case less
  show ?case
  proof (cases "sz = 0")
    case True
    then show ?thesis using less.prems by (subst bit_map_copy.simps) auto
  next
    case False
    define c where "c = min sz 32"
    have c: "unat c = min (unat sz) 32" "c \<le> 32" "c \<le> sz"
      by (simp_all add: c_def unat_min)
    have pos: "0 < unat sz" using False by (simp add: unat_gt_0)
    have "unat src_where mod 32 + unat c \<le> 32" using less.prems(3) c(1) by simp
    from bit_map_get_correct [OF c(2) less.prems(2) this]
    obtain w where w: "bit_map_get src src_where c = Inr w"
        "\<forall>k < 32. bit w k = (k < unat c \<and> bm_bit src (unat src_where + k))" by blast
    obtain d where d: "bit_map_set dst dst_where c w = Inr d" "bm_inv d"
        "bm_word_count d = bm_word_count dst"
        "\<And>i. bm_bit d i = (if unat dst_where \<le> i \<and> i < unat dst_where + unat c \<and> i < 32 * length (bm_data dst)
          then bit w (i - unat dst_where) else bm_bit dst i)"
      using bit_map_set_correct [OF c(2) less.prems(1)] by blast
    have len: "length (bm_data d) = length (bm_data dst)"
      using d(2,3) less.prems(1) by (simp add: bm_inv_def)
    have adds: "unat (src_where + c) = unat src_where + unat c"
      "unat (dst_where + c) = unat dst_where + unat c" "unat (sz - c) = unat sz - unat c"
      using less.prems(4,5) c by (auto simp: unat_sub unat_add_lem [THEN iffD1])
    have step: "bit_map_copy dst dst_where src src_where sz =
        bit_map_copy d (dst_where + c) src (src_where + c) (sz - c)"
      using False by (subst bit_map_copy.simps) (simp add: Let_def w(1) d(1) flip: c_def)
    show ?thesis
    proof (cases "unat sz \<le> 32")
      case True
      then have "sz - c = 0" "unat c = unat sz" using c by (simp_all add: unat_eq_zero [symmetric] adds(3))
      moreover have "bm_bit d i = (if unat dst_where \<le> i \<and> i < unat dst_where + unat sz \<and> i < 32 * length (bm_data dst)
         then bm_bit src (unat src_where + (i - unat dst_where)) else bm_bit dst i)" for i
        using w(2) \<open>unat c = unat sz\<close> True by (auto simp: d(4))
      ultimately show ?thesis using step d(2) len by (simp add: bit_map_copy.simps)
    next
      case False
      then have c32: "unat c = 32" using c by simp
      have "unat (sz - c) < unat sz" "unat (src_where + c) mod 32 = 0"
        "unat (src_where + c) + unat (sz - c) < 2 ^ 32" "unat (dst_where + c) + unat (sz - c) < 2 ^ 32"
        using adds c32 False less.prems(3-5) by simp_all
      from less.hyps [OF this(1) d(2) less.prems(2) this(2-4)]
      obtain d' where d': "bit_map_copy d (dst_where + c) src (src_where + c) (sz - c) = Inr d'" "bm_inv d'"
          "length (bm_data d') = length (bm_data dst)"
          "\<And>i. bm_bit d' i = (if unat dst_where + 32 \<le> i \<and> i < unat dst_where + unat sz \<and> i < 32 * length (bm_data dst)
            then bm_bit src (unat src_where + 32 + (i - (unat dst_where + 32))) else bm_bit d i)"
        using adds len c32 False by auto
      have "bm_bit d' i = (if unat dst_where \<le> i \<and> i < unat dst_where + unat sz \<and> i < 32 * length (bm_data dst)
         then bm_bit src (unat src_where + (i - unat dst_where)) else bm_bit dst i)" for i
        using w(2) c32 False by (auto simp: d'(4) d(4))
      then show ?thesis using step d' by auto
    qed
  qed
qed

section \<open>Properties\<close>

text \<open>\<open>bit_map_set\<close> writes the bits of its value to the positions of the group, in one word or
  across two, drops those beyond the last word, and changes no other bit.\<close>

theorem bit_map_set_writes:
  assumes "sz \<le> 32" "bm_inv bm"
  shows "\<exists>bm'. bit_map_set bm pos sz v = Inr bm' \<and> bm_inv bm' \<and>
    (\<forall>i. bm_bit bm' i =
      (if unat pos \<le> i \<and> i < unat pos + unat sz \<and> i < 32 * length (bm_data bm)
       then bit v (i - unat pos) else bm_bit bm i))"
  using bit_map_set_correct [OF assms, of pos v] by blast

theorem bit_map_set_writes_witness:
  "\<exists>bm'. bit_map_set (bit_map_create 64) 28 8 0xFF = Inr bm' \<and> bm_inv bm' \<and> bm_bit bm' 35 \<and> \<not> bm_bit bm' 36"
proof -
  have len: "length (bm_data (bit_map_create 64)) = 2" by (simp add: bit_map_create_def)
  have "(8 :: 32 word) \<le> 32" by simp
  from bit_map_set_writes [OF this bm_inv_create(1), of 64 28 "0xFF"]
  obtain bm' where b: "bit_map_set (bit_map_create 64) 28 8 0xFF = Inr bm'" "bm_inv bm'"
      "\<forall>i. bm_bit bm' i = (if 28 \<le> i \<and> i < 36 \<and> i < 64 then bit (0xFF :: 32 word) (i - 28)
        else bm_bit (bit_map_create 64) i)"
    by (auto simp: len)
  have "bit (0xFF :: 32 word) 7" by (simp add: bit_iff_odd)
  then show ?thesis using b by (auto simp: bm_inv_create(2))
qed

text \<open>a group that lies in one word is read back as it was written.\<close>

theorem bit_map_set_get:
  assumes "sz \<le> 32" "bm_inv bm" "unat pos mod 32 + unat sz \<le> 32" "unat pos div 32 < length (bm_data bm)"
  shows "andthen (bit_map_set bm pos sz v) (\<lambda>bm'. bit_map_get bm' pos sz) = Inr (v AND mask (unat sz))"
  by (rule bit_map_get_set [OF assms])

theorem bit_map_set_get_witness:
  "andthen (bit_map_set (bit_map_create 64) 40 8 0x1AB) (\<lambda>bm'. bit_map_get bm' 40 8) = Inr 0xAB"
proof -
  have "unat (40 :: 32 word) div 32 < length (bm_data (bit_map_create 64))" by (simp add: bit_map_create_def)
  then have "andthen (bit_map_set (bit_map_create 64) 40 8 0x1AB) (\<lambda>bm'. bit_map_get bm' 40 8) =
      Inr (0x1AB AND mask (unat (8 :: 32 word)))"
    by (intro bit_map_set_get) (simp_all add: bm_inv_create(1))
  then show ?thesis by (simp add: mask_eq_exp_minus_1)
qed

text \<open>a group that straddles two words is not read back: \<open>bit_map_get\<close> takes the upper part of
  the result from the first word, so eight ones written at position 28 are read as four.\<close>

theorem bit_map_get_straddling:
  "andthen (bit_map_set (bit_map_create 64) 28 8 0xFF) (\<lambda>bm. bit_map_get bm 28 8) = Inr 0x0F"
  by code_simp

text \<open>\<open>bit_map_count_ones\<close> returns the number of ones in its range.\<close>

theorem bit_map_count_ones_counts:
  assumes "bm_inv bm" "unat pos + unat sz \<le> 2 ^ 32"
  shows "bit_map_count_ones bm pos sz =
    Inr (int (card {i. unat pos \<le> i \<and> i < unat pos + unat sz \<and> bm_bit bm i}))"
  by (rule bit_map_count_ones_correct [OF assms])

theorem bit_map_count_ones_counts_witness:
  "bit_map_count_ones (bit_map_create 64) 3 40 = Inr 0"
  using bit_map_count_ones_counts [OF bm_inv_create(1), of 3 40 64] by (simp add: bm_inv_create(2))

text \<open>\<open>bit_map_copy\<close> from a position on a word boundary copies the bits, to any position of
  another map, and changes no other bit of it.\<close>

theorem bit_map_copy_copies:
  assumes "bm_inv dst" "bm_inv src" "unat src_where mod 32 = 0"
    and "unat src_where + unat sz < 2 ^ 32" "unat dst_where + unat sz < 2 ^ 32"
  shows "\<exists>dst'. bit_map_copy dst dst_where src src_where sz = Inr dst' \<and> bm_inv dst' \<and>
    (\<forall>i. bm_bit dst' i =
      (if unat dst_where \<le> i \<and> i < unat dst_where + unat sz \<and> i < 32 * length (bm_data dst)
       then bm_bit src (unat src_where + (i - unat dst_where)) else bm_bit dst i))"
  using bit_map_copy_correct [OF assms] by blast

theorem bit_map_copy_copies_witness:
  "\<exists>dst'. bit_map_copy (bit_map_create 100) 5 (bit_map_create 100) 32 50 = Inr dst' \<and> bm_inv dst'"
  using bit_map_copy_copies [OF bm_inv_create(1) bm_inv_create(1), of 32 50 5 100 100] by auto

end
