(* ===== verification/Buffer.thy ===== *)
theory Buffer
  imports Prelude
begin

text \<open>
  The byte FIFO of \<open>src/lib/util/buffer.c\<close>: a ring of bytes that grows when a write does not fit.
  A buffer of size 0 may be created; the remainder by its size then ends the process. Sizes and
  positions are natural numbers (negative sizes are not meaningful to \<open>memcpy\<close>), and a vector
  of \<open>2 ^ 30\<close> bytes is assumed out of reach, so that doubling the \<open>int\<close> size does not overflow.
  The bytes read are returned instead of being stored through \<open>dest\<close>.
\<close>

section \<open>Operations\<close>

type_synonym byte = "8 word"

record buffer_t =
  bf_data :: "byte list"
  bf_count :: nat
  bf_size :: nat
  bf_head :: nat
  bf_tail :: nat

text \<open>\<open>grow\<close>: the new buffer and the return value.\<close>

definition grow :: "buffer_t \<Rightarrow> nat \<Rightarrow> buffer_t \<times> bool" where
  "grow buffer sz =
     (if sz < bf_size buffer then (buffer, False)
      else
        let dat = replicate sz 0;
            right = bf_size buffer - bf_head buffer;
            dat1 = blit dat 0 (take right (drop (bf_head buffer) (bf_data buffer)));
            dat2 = blit dat1 right (take (bf_head buffer) (bf_data buffer))
        in (buffer\<lparr>bf_data := dat2, bf_size := sz, bf_head := 0, bf_tail := bf_count buffer\<rparr>, True))"

definition buffer_create :: "nat \<Rightarrow> buffer_t" where
  "buffer_create sz =
     \<lparr>bf_data = replicate sz 0, bf_count = 0, bf_size = sz, bf_head = 0, bf_tail = 0\<rparr>"

definition buffer_read :: "buffer_t \<Rightarrow> nat \<Rightarrow> (buffer_t \<times> byte list) run" where
  "buffer_read buffer sz0 =
     (let sz = min sz0 (bf_count buffer);
          right = min (bf_size buffer - bf_head buffer) sz;
          left = sz - right;
          dest = take right (drop (bf_head buffer) (bf_data buffer)) @ take left (bf_data buffer)
      in if bf_size buffer = 0 then Inl Div_zero
         else Inr (buffer\<lparr>bf_head := (bf_head buffer + sz) mod bf_size buffer,
                          bf_count := bf_count buffer - sz\<rparr>, dest))"

text \<open>The loop of \<open>buffer_write\<close> that grows the buffer; \<open>False\<close> when \<open>grow\<close> refuses.\<close>

function buffer_reserve :: "buffer_t \<Rightarrow> nat \<Rightarrow> buffer_t \<times> bool" where
  "buffer_reserve buffer sz =
     (if bf_size buffer < bf_count buffer + sz
      then case grow buffer (max (bf_count buffer + sz) (bf_size buffer * 2)) of
             (buffer', ok) \<Rightarrow> if ok then buffer_reserve buffer' sz else (buffer', False)
      else (buffer, True))"
  by pat_completeness auto
termination
  by (relation "measure (\<lambda>(buffer, sz). bf_count buffer + sz - bf_size buffer)")
    (auto simp: grow_def Let_def split: if_splits)

declare buffer_reserve.simps [simp del]

text \<open>The number of bytes written is returned: all of \<open>src\<close>, or 0.\<close>

definition buffer_write :: "buffer_t \<Rightarrow> byte list \<Rightarrow> (buffer_t \<times> nat) run" where
  "buffer_write buffer0 src =
     (case buffer_reserve buffer0 (length src) of
        (buffer, ok) \<Rightarrow>
          if \<not> ok then Inr (buffer, 0)
          else
            let sz = length src;
                right = min (bf_size buffer - bf_tail buffer) sz;
                dat1 = blit (bf_data buffer) (bf_tail buffer) (take right src);
                dat2 = blit dat1 0 (drop right src)
            in if bf_size buffer = 0 then Inl Div_zero
               else Inr (buffer\<lparr>bf_data := dat2, bf_tail := (bf_tail buffer + sz) mod bf_size buffer,
                                bf_count := bf_count buffer + sz\<rparr>, sz))"

definition buffer_count :: "buffer_t \<Rightarrow> nat" where
  "buffer_count buffer = bf_count buffer"

section \<open>Abstract value and invariant\<close>

definition buffer_inv :: "buffer_t \<Rightarrow> bool" where
  "buffer_inv buffer \<longleftrightarrow>
     length (bf_data buffer) = bf_size buffer \<and> bf_count buffer \<le> bf_size buffer \<and>
     (if bf_size buffer = 0 then bf_head buffer = 0 \<and> bf_tail buffer = 0
      else bf_head buffer < bf_size buffer \<and> bf_tail buffer = (bf_head buffer + bf_count buffer) mod bf_size buffer)"

definition buffer_bytes :: "buffer_t \<Rightarrow> byte list" where
  "buffer_bytes buffer =
     map (\<lambda>k. bf_data buffer ! ((bf_head buffer + k) mod bf_size buffer)) [0..<bf_count buffer]"

lemma length_bytes [simp]: "length (buffer_bytes buffer) = bf_count buffer"
  by (simp add: buffer_bytes_def)

lemma nth_bytes:
  "k < bf_count buffer \<Longrightarrow> buffer_bytes buffer ! k = bf_data buffer ! ((bf_head buffer + k) mod bf_size buffer)"
  by (simp add: buffer_bytes_def)

lemma buffer_inv_create: "buffer_inv (buffer_create n)" "buffer_bytes (buffer_create n) = []"
  by (simp_all add: buffer_inv_def buffer_create_def buffer_bytes_def)

text \<open>One step around the ring.\<close>

lemma ring_index: "(h :: nat) < n \<Longrightarrow> k \<le> n \<Longrightarrow> (h + k) mod n = (if h + k < n then h + k else h + k - n)"
  by (auto simp: mod_if)

section \<open>Growing\<close>

lemma grow_correct:
  assumes "buffer_inv buffer" "bf_size buffer \<le> sz" "0 < sz"
  shows "\<exists>buffer'. grow buffer sz = (buffer', True) \<and> bf_size buffer' = sz \<and>
    length (bf_data buffer') = sz \<and> bf_head buffer' = 0 \<and> bf_tail buffer' = bf_count buffer \<and>
    bf_count buffer' = bf_count buffer \<and> buffer_bytes buffer' = buffer_bytes buffer"
proof -
  let ?h = "bf_head buffer" and ?s = "bf_size buffer" and ?d = "bf_data buffer"
  define a where "a = blit (replicate sz 0) 0 (take (?s - ?h) (drop ?h ?d))"
  define b where "b = blit a (?s - ?h) (take ?h ?d)"
  have h: "?h \<le> ?s" "length ?d = ?s" "bf_count buffer \<le> ?s"
    using assms(1) by (auto simp: buffer_inv_def split: if_splits)
  have la: "length a = sz" and lb: "length b = sz" using h assms(2) by (simp_all add: a_def b_def)
  have nth: "b ! k = ?d ! ((?h + k) mod ?s)" if "k < ?s" for k
  proof -
    have "?h < ?s" using that assms(1) by (auto simp: buffer_inv_def)
    then have m: "(?h + k) mod ?s = (if ?h + k < ?s then ?h + k else ?h + k - ?s)"
      using that by (intro ring_index) auto
    have "b ! k = (if ?s - ?h \<le> k then ?d ! (k - (?s - ?h)) else a ! k)"
      using that h assms(2) la by (auto simp: b_def nth_blit)
    moreover have "k < ?s - ?h \<Longrightarrow> a ! k = ?d ! (?h + k)"
      using that h assms(2) by (simp add: a_def nth_blit)
    ultimately show ?thesis using m \<open>?h < ?s\<close> by (auto simp: add.commute)
  qed
  let ?b = "buffer\<lparr>bf_data := b, bf_size := sz, bf_head := 0, bf_tail := bf_count buffer\<rparr>"
  have "grow buffer sz = (?b, True)" using assms(2) by (simp add: grow_def Let_def a_def b_def)
  moreover have "buffer_bytes ?b = buffer_bytes buffer"
    using nth h assms(2) by (auto simp: buffer_bytes_def)
  ultimately show ?thesis using lb by auto
qed

lemma buffer_reserve_correct:
  assumes "buffer_inv buffer"
  shows "\<exists>buffer'. buffer_reserve buffer n = (buffer', True) \<and> buffer_inv buffer' \<and>
    bf_count buffer' = bf_count buffer \<and> bf_count buffer + n \<le> bf_size buffer' \<and>
    (bf_size buffer' = 0 \<longleftrightarrow> bf_size buffer = 0 \<and> n = 0) \<and> buffer_bytes buffer' = buffer_bytes buffer"
proof (cases "bf_size buffer < bf_count buffer + n")
  case True
  define sz where "sz = max (bf_count buffer + n) (bf_size buffer * 2)"
  have sz: "bf_size buffer \<le> sz" "0 < sz" using True by (auto simp: sz_def)
  obtain b where b: "grow buffer sz = (b, True)" "bf_size b = sz" "length (bf_data b) = sz"
      "bf_head b = 0" "bf_tail b = bf_count buffer" "bf_count b = bf_count buffer"
      "buffer_bytes b = buffer_bytes buffer"
    using grow_correct [OF assms sz] by blast
  have c: "bf_count buffer \<le> bf_size buffer" using assms by (simp add: buffer_inv_def)
  have "bf_tail b = (bf_head b + bf_count b) mod bf_size b"
    using b c True by (auto simp: sz_def mod_if)
  then have "buffer_inv b" using b c sz by (simp add: buffer_inv_def)
  moreover have "buffer_reserve buffer n = (b, True)"
    using True b(1,2,6) by (subst buffer_reserve.simps) (simp add: buffer_reserve.simps flip: sz_def, simp add: sz_def)
  ultimately show ?thesis using b sz True c by (auto simp: sz_def)
next
  case False
  then show ?thesis using assms by (subst buffer_reserve.simps) (auto simp: buffer_inv_def)
qed

section \<open>Writing and reading\<close>

lemma buffer_write_correct:
  assumes "buffer_inv buffer" "0 < bf_size buffer \<or> src \<noteq> []"
  shows "\<exists>buffer'. buffer_write buffer src = Inr (buffer', length src) \<and> buffer_inv buffer' \<and>
    0 < bf_size buffer' \<and> buffer_bytes buffer' = buffer_bytes buffer @ src"
proof -
  let ?n = "length src"
  obtain g where g: "buffer_reserve buffer ?n = (g, True)" "buffer_inv g" "bf_count g = bf_count buffer"
      "bf_count g + ?n \<le> bf_size g" "0 < bf_size g" "buffer_bytes g = buffer_bytes buffer"
    using buffer_reserve_correct [OF assms(1), of ?n] assms(2) by auto
  let ?s = "bf_size g" and ?h = "bf_head g" and ?t = "bf_tail g" and ?c = "bf_count g"
  define right where "right = min (?s - ?t) ?n"
  define d1 where "d1 = blit (bf_data g) ?t (take right src)"
  define d2 where "d2 = blit d1 0 (drop right src)"
  have gi: "length (bf_data g) = ?s" "?h < ?s" "?t = (?h + ?c) mod ?s" "?t < ?s"
    using g(2,5) by (auto simp: buffer_inv_def)
  have l1: "length d1 = ?s" using gi(1,4) unfolding d1_def right_def by (intro length_blit [THEN trans]) auto
  have r: "?n - right \<le> ?t" using g(4) gi by (auto simp: right_def mod_if split: if_splits)
  have l2: "length d2 = ?s" using l1 r gi(4) unfolding d2_def by (intro length_blit [THEN trans]) auto
  have at: "d2 ! j = (if j < ?n - right then src ! (right + j) else if ?t \<le> j \<and> j < ?t + right
      then src ! (j - ?t) else bf_data g ! j)" if "j < ?s" for j
  proof -
    have "d2 ! j = (if j < ?n - right then src ! (right + j) else d1 ! j)"
      using that l1 r gi(4) by (simp add: d2_def nth_blit)
    moreover have "d1 ! j = (if ?t \<le> j \<and> j < ?t + right then src ! (j - ?t) else bf_data g ! j)"
      using that gi(1,4) unfolding d1_def by (subst nth_blit) (auto simp: right_def less_diff_conv2)
    ultimately show ?thesis by simp
  qed
  let ?b = "g\<lparr>bf_data := d2, bf_tail := (?t + ?n) mod ?s, bf_count := ?c + ?n\<rparr>"
  have "buffer_write buffer src = Inr (?b, ?n)"
    using g(1,5) by (simp add: buffer_write_def Let_def d2_def d1_def right_def)
  moreover have "buffer_inv ?b"
    using l2 g(4,5) gi by (simp add: buffer_inv_def mod_add_left_eq add.assoc)
  moreover have "buffer_bytes ?b = buffer_bytes g @ src"
  proof (rule nth_equalityI)
    fix k assume "k < length (buffer_bytes ?b)"
    then have k: "k < ?c + ?n" by simp
    then have m: "(?h + k) mod ?s = (if ?h + k < ?s then ?h + k else ?h + k - ?s)"
      using g(4) gi(2) by (intro ring_index) auto
    have t: "?t = (if ?h + ?c < ?s then ?h + ?c else ?h + ?c - ?s)"
      unfolding gi(3) using g(4) gi(2) by (intro ring_index) auto
    have "d2 ! ((?h + k) mod ?s) = (if k < ?c then bf_data g ! ((?h + k) mod ?s) else src ! (k - ?c))"
    proof (cases "k < ?c")
      case True
      then have "\<not> (?h + k) mod ?s < ?n - right" "\<not> (?t \<le> (?h + k) mod ?s \<and> (?h + k) mod ?s < ?t + right)"
        unfolding m using t g(4) gi(2,4) by (auto simp: right_def min_def split: if_splits)
      then show ?thesis using at [of "(?h + k) mod ?s"] gi(2) True by auto
    next
      case False
      then have "(?h + k) mod ?s < ?n - right \<and> right + (?h + k) mod ?s = k - ?c \<or>
          \<not> (?h + k) mod ?s < ?n - right \<and> ?t \<le> (?h + k) mod ?s \<and> (?h + k) mod ?s < ?t + right \<and>
          (?h + k) mod ?s - ?t = k - ?c"
        unfolding m using t g(4) gi(2,4) k by (auto simp: right_def min_def split: if_splits)
      then show ?thesis using at [of "(?h + k) mod ?s"] gi(2) False by auto
    qed
    then show "buffer_bytes ?b ! k = (buffer_bytes g @ src) ! k"
      using k by (simp add: nth_bytes nth_append)
  qed simp
  ultimately show ?thesis using g(5,6) by auto
qed

lemma buffer_read_correct:
  assumes "buffer_inv buffer" "0 < bf_size buffer"
  shows "\<exists>buffer'. buffer_read buffer n = Inr (buffer', take n (buffer_bytes buffer)) \<and> buffer_inv buffer' \<and>
    bf_size buffer' = bf_size buffer \<and> buffer_bytes buffer' = drop n (buffer_bytes buffer)"
proof -
  let ?s = "bf_size buffer" and ?h = "bf_head buffer" and ?c = "bf_count buffer" and ?d = "bf_data buffer"
  define sz where "sz = min n ?c"
  define right where "right = min (?s - ?h) sz"
  have b: "length ?d = ?s" "?h < ?s" "?c \<le> ?s" "bf_tail buffer = (?h + ?c) mod ?s"
    using assms by (auto simp: buffer_inv_def)
  let ?b = "buffer\<lparr>bf_head := (?h + sz) mod ?s, bf_count := ?c - sz\<rparr>"
  have out: "take right (drop ?h ?d) @ take (sz - right) ?d = take n (buffer_bytes buffer)"
  proof (rule nth_equalityI)
    show "length (take right (drop ?h ?d) @ take (sz - right) ?d) = length (take n (buffer_bytes buffer))"
      using b by (auto simp: right_def sz_def)
    fix k assume "k < length (take right (drop ?h ?d) @ take (sz - right) ?d)"
    then have k: "k < sz" using b by (auto simp: right_def)
    then have m: "(?h + k) mod ?s = (if ?h + k < ?s then ?h + k else ?h + k - ?s)"
      using b by (intro ring_index) (auto simp: sz_def)
    have "take n (buffer_bytes buffer) ! k = ?d ! ((?h + k) mod ?s)"
      using k by (simp add: sz_def nth_bytes)
    then show "(take right (drop ?h ?d) @ take (sz - right) ?d) ! k = take n (buffer_bytes buffer) ! k"
      using k b m by (auto simp: nth_append right_def min_def add.commute)
  qed
  have "buffer_read buffer n = Inr (?b, take n (buffer_bytes buffer))"
    using assms(2) out by (simp add: buffer_read_def Let_def sz_def right_def)
  moreover have "buffer_inv ?b"
    using b assms(2) mod_add_left_eq [of "?h + sz" ?s "?c - sz"] by (simp add: buffer_inv_def sz_def)
  moreover have "buffer_bytes ?b = drop n (buffer_bytes buffer)"
    using b by (intro nth_equalityI) (auto simp: nth_bytes sz_def mod_add_left_eq min_def add.assoc)
  ultimately show ?thesis by auto
qed

lemma buffer_size_0:
  assumes "buffer_inv buffer" "bf_size buffer = 0"
  shows "buffer_read buffer n = Inl Div_zero" "buffer_write buffer [] = Inl Div_zero"
  using assms by (simp_all add: buffer_read_def buffer_write_def buffer_reserve.simps buffer_inv_def)

text \<open>Sequences of calls, with what each returns, of a buffer and of a plain list of bytes.\<close>

datatype buffer_op = Write "byte list" | Read nat | Count

datatype buffer_out = Written nat | Bytes_read "byte list" | Counted nat

fun buffer_step :: "buffer_t \<Rightarrow> buffer_op \<Rightarrow> (buffer_t \<times> buffer_out) run" where
  "buffer_step buffer (Write bs) = andthen (buffer_write buffer bs) (\<lambda>(buffer', n). Inr (buffer', Written n))"
| "buffer_step buffer (Read n) = andthen (buffer_read buffer n) (\<lambda>(buffer', bs). Inr (buffer', Bytes_read bs))"
| "buffer_step buffer Count = Inr (buffer, Counted (buffer_count buffer))"

fun buffer_run :: "buffer_t \<Rightarrow> buffer_op list \<Rightarrow> (buffer_t \<times> buffer_out list) run" where
  "buffer_run buffer [] = Inr (buffer, [])"
| "buffer_run buffer (op # ops) =
     andthen (buffer_step buffer op) (\<lambda>(buffer', out).
     andthen (buffer_run buffer' ops) (\<lambda>(buffer'', outs). Inr (buffer'', out # outs)))"

fun stream_step :: "byte list \<Rightarrow> buffer_op \<Rightarrow> byte list \<times> buffer_out" where
  "stream_step held (Write bs) = (held @ bs, Written (length bs))"
| "stream_step held (Read n) = (drop n held, Bytes_read (take n held))"
| "stream_step held Count = (held, Counted (length held))"

fun stream_run :: "byte list \<Rightarrow> buffer_op list \<Rightarrow> byte list \<times> buffer_out list" where
  "stream_run held [] = (held, [])"
| "stream_run held (op # ops) =
     (let (held', out) = stream_step held op; (held'', outs) = stream_run held' ops in (held'', out # outs))"

lemma buffer_step_correct:
  assumes "buffer_inv buffer" "0 < bf_size buffer"
  shows "\<exists>buffer'. buffer_step buffer op = Inr (buffer', snd (stream_step (buffer_bytes buffer) op)) \<and>
    buffer_inv buffer' \<and> 0 < bf_size buffer' \<and> buffer_bytes buffer' = fst (stream_step (buffer_bytes buffer) op)"
proof (cases op)
  case (Write bs)
  then show ?thesis using buffer_write_correct [OF assms(1), of bs] assms(2) by auto
next
  case (Read n)
  then show ?thesis using buffer_read_correct [OF assms, of n] assms(2) by auto
next
  case Count
  then show ?thesis using assms by (simp add: buffer_count_def)
qed

lemma buffer_run_correct:
  "buffer_inv buffer \<Longrightarrow> 0 < bf_size buffer \<Longrightarrow>
   \<exists>buffer'. buffer_run buffer ops = Inr (buffer', snd (stream_run (buffer_bytes buffer) ops)) \<and> buffer_inv buffer' \<and>
     buffer_bytes buffer' = fst (stream_run (buffer_bytes buffer) ops)"
proof (induction ops arbitrary: buffer)
  case (Cons op ops)
  obtain b where b: "buffer_step buffer op = Inr (b, snd (stream_step (buffer_bytes buffer) op))" "buffer_inv b" "0 < bf_size b"
      "buffer_bytes b = fst (stream_step (buffer_bytes buffer) op)"
    using buffer_step_correct [OF Cons.prems, of op] by blast
  then show ?case using Cons.IH [OF b(2,3)] by (auto simp: case_prod_beta)
qed simp

section \<open>Properties\<close>

text \<open>C34: The buffer is a byte stream: any calls on a new buffer of positive size return what the same calls on a
  list of bytes return, and leave the bytes of that list in the buffer. A write adds all its bytes at the
  end and returns their number, a read takes as many bytes from the front as there are, up to the number
  asked for, and \<open>buffer_count\<close> is the number of bytes held.\<close>

theorem buffer_is_stream:
  "\<exists>buffer. buffer_run (buffer_create (Suc n)) ops = Inr (buffer, snd (stream_run [] ops)) \<and>
    buffer_bytes buffer = fst (stream_run [] ops)"
  using buffer_run_correct [OF buffer_inv_create(1), of "Suc n" ops] buffer_inv_create(2) [of "Suc n"]
  by (auto simp: buffer_create_def)

text \<open>a buffer created with size 0 cannot be read, and nothing can be written to it in a write of
  no bytes: the remainder by its size stops the process; a write of some bytes works.\<close>

theorem buffer_of_size_0:
  "buffer_read (buffer_create 0) n = Inl Div_zero \<and> buffer_write (buffer_create 0) [] = Inl Div_zero \<and>
   (\<exists>buffer. buffer_write (buffer_create 0) (b # bs) = Inr (buffer, Suc (length bs)) \<and>
     buffer_bytes buffer = b # bs)"
  using buffer_size_0 [OF buffer_inv_create(1), of 0] buffer_write_correct [OF buffer_inv_create(1), of 0 "b # bs"]
    buffer_inv_create(2) [of 0] by (auto simp: buffer_create_def)

end
