(* ===== verification/Matrix.thy ===== *)
theory Matrix
  imports Prelude
begin

text \<open>
  The matrix of pointers of \<open>src/lib/util/matrix.c\<close>: one vector in row order, accesses outside
  the bounds ignored. The product of the sizes is assumed to fit in an \<open>int\<close>. A matrix without
  cells has no vector (\<open>elem\<close> is \<open>NULL\<close>).
\<close>

record 'a matrix_t =
  num_rows :: int
  num_cols :: int
  mx_elem :: "'a ptr list ptr"

definition matrix_create :: "int \<Rightarrow> int \<Rightarrow> 'a matrix_t run" where
  "matrix_create rows cols =
     (if rows < 0 \<or> cols < 0 then Inl Fatal
      else Inr \<lparr>num_rows = rows, num_cols = cols,
                mx_elem = if 0 < rows \<and> 0 < cols then Some (replicate (nat (rows * cols)) NULL) else NULL\<rparr>)"

definition matrix_set :: "'a matrix_t \<Rightarrow> int \<Rightarrow> int \<Rightarrow> 'a ptr \<Rightarrow> 'a matrix_t run" where
  "matrix_set mx row col v =
     (if row < 0 \<or> num_rows mx \<le> row then Inr mx
      else if col < 0 \<or> num_cols mx \<le> col then Inr mx
      else case mx_elem mx of
             None \<Rightarrow> Inl Segv
           | Some es \<Rightarrow> Inr (mx\<lparr>mx_elem := Some (es[nat (row * num_cols mx + col) := v])\<rparr>))"

definition matrix_get :: "'a matrix_t \<Rightarrow> int \<Rightarrow> int \<Rightarrow> 'a ptr run" where
  "matrix_get mx row col =
     (if row < 0 \<or> num_rows mx \<le> row then Inr NULL
      else if col < 0 \<or> num_cols mx \<le> col then Inr NULL
      else case mx_elem mx of
             None \<Rightarrow> Inl Segv
           | Some es \<Rightarrow> Inr (es ! nat (row * num_cols mx + col)))"

definition matrix_clear :: "'a matrix_t \<Rightarrow> 'a matrix_t" where
  "matrix_clear mx =
     mx\<lparr>mx_elem := map_option (\<lambda>es. replicate (nat (num_rows mx * num_cols mx)) NULL) (mx_elem mx)\<rparr>"

definition matrix_get_num_rows :: "'a matrix_t \<Rightarrow> int" where
  "matrix_get_num_rows mx = num_rows mx"

definition matrix_get_num_cols :: "'a matrix_t \<Rightarrow> int" where
  "matrix_get_num_cols mx = num_cols mx"

section \<open>Invariant and behaviour\<close>

text \<open>The vector is there exactly when there are cells, with one place for each.\<close>

definition matrix_inv :: "'a matrix_t \<Rightarrow> bool" where
  "matrix_inv mx \<longleftrightarrow> 0 \<le> num_rows mx \<and> 0 \<le> num_cols mx \<and>
     (case mx_elem mx of
        None \<Rightarrow> num_rows mx = 0 \<or> num_cols mx = 0
      | Some es \<Rightarrow> 0 < num_rows mx \<and> 0 < num_cols mx \<and> length es = nat (num_rows mx * num_cols mx))"

definition in_bounds :: "'a matrix_t \<Rightarrow> int \<Rightarrow> int \<Rightarrow> bool" where
  "in_bounds mx row col \<longleftrightarrow> 0 \<le> row \<and> row < num_rows mx \<and> 0 \<le> col \<and> col < num_cols mx"

text \<open>A position in bounds lies in the vector, and different positions in different cells.\<close>

lemma cell_bound:
  fixes row col m n :: int
  assumes "0 \<le> row" "row < m" "0 \<le> col" "col < n"
  shows "0 \<le> row * n + col" "row * n + col < m * n"
proof -
  show "0 \<le> row * n + col" using assms by simp
  have "row * n + col < (row + 1) * n" using assms by (simp add: distrib_right)
  also have "\<dots> \<le> m * n" using assms by (intro mult_right_mono) auto
  finally show "row * n + col < m * n" .
qed

lemma cell_inj:
  fixes row col row' col' n :: int
  assumes "0 \<le> col" "col < n" "0 \<le> col'" "col' < n"
  shows "row * n + col = row' * n + col' \<longleftrightarrow> row = row' \<and> col = col'"
proof
  assume eq: "row * n + col = row' * n + col'"
  have "(row * n + col) div n = row" "(row' * n + col') div n = row'" using assms by simp_all
  then show "row = row' \<and> col = col'" using eq by simp
qed simp

lemma matrix_create_correct:
  assumes "0 \<le> rows" "0 \<le> cols"
  shows "\<exists>mx. matrix_create rows cols = Inr mx \<and> matrix_inv mx \<and> num_rows mx = rows \<and>
    num_cols mx = cols \<and> matrix_get mx r c = Inr NULL"
proof -
  have "nat (r * cols + c) < nat (rows * cols)" if "0 \<le> r" "r < rows" "0 \<le> c" "c < cols"
    using cell_bound [OF that] by simp
  then show ?thesis using assms
    by (auto simp: matrix_create_def matrix_inv_def matrix_get_def)
qed

lemma matrix_get_total:
  "matrix_inv mx \<Longrightarrow> \<exists>v. matrix_get mx row col = Inr v \<and> (\<not> in_bounds mx row col \<longrightarrow> v = NULL)"
  by (auto simp: matrix_inv_def matrix_get_def in_bounds_def split: option.splits)

lemma matrix_set_correct:
  assumes "matrix_inv mx"
  shows "\<exists>mx'. matrix_set mx row col v = Inr mx' \<and> matrix_inv mx' \<and> num_rows mx' = num_rows mx \<and>
    num_cols mx' = num_cols mx \<and>
    (\<forall>r c. matrix_get mx' r c =
      (if r = row \<and> c = col \<and> in_bounds mx row col then Inr v else matrix_get mx r c))"
proof (cases "in_bounds mx row col")
  case False
  then show ?thesis using assms by (auto simp: matrix_set_def in_bounds_def)
next
  case True
  then obtain es where es: "mx_elem mx = Some es" "length es = nat (num_rows mx * num_cols mx)"
    using assms by (auto simp: matrix_inv_def in_bounds_def split: option.splits)
  let ?k = "nat (row * num_cols mx + col)"
  let ?mx = "mx\<lparr>mx_elem := Some (es[?k := v])\<rparr>"
  have k: "0 \<le> row * num_cols mx + col" "?k < length es"
    using True cell_bound [of row "num_rows mx" col "num_cols mx"] es(2) by (auto simp: in_bounds_def)
  have get: "matrix_get ?mx r c = (if r = row \<and> c = col then Inr v else matrix_get mx r c)" for r c
  proof (cases "in_bounds mx r c")
    case in2: True
    then have "0 \<le> r * num_cols mx + c"
      using cell_bound [of r "num_rows mx" c "num_cols mx"] by (simp add: in_bounds_def)
    then have "nat (r * num_cols mx + c) = ?k \<longleftrightarrow> r * num_cols mx + c = row * num_cols mx + col"
      by (rule eq_nat_nat_iff [OF _ k(1)])
    then have "nat (r * num_cols mx + c) = ?k \<longleftrightarrow> r = row \<and> c = col"
      using True in2 cell_inj [of c "num_cols mx" col r row] by (simp add: in_bounds_def)
    then show ?thesis using in2 es k by (auto simp: matrix_get_def in_bounds_def)
  next
    case False
    then show ?thesis using True by (auto simp: matrix_get_def in_bounds_def)
  qed
  have "matrix_set mx row col v = Inr ?mx" using True es(1) by (simp add: matrix_set_def in_bounds_def)
  moreover have "matrix_inv ?mx" using assms es by (simp add: matrix_inv_def)
  ultimately show ?thesis using get True by (intro exI [of _ ?mx]) auto
qed

lemma matrix_clear_correct:
  assumes "matrix_inv mx"
  shows "matrix_inv (matrix_clear mx) \<and> matrix_get (matrix_clear mx) row col = Inr NULL"
proof -
  have "nat (row * num_cols mx + col) < nat (num_rows mx * num_cols mx)" if "in_bounds mx row col"
    using that cell_bound [of row "num_rows mx" col "num_cols mx"] by (auto simp: in_bounds_def)
  then show ?thesis
    using assms by (auto simp: matrix_inv_def matrix_get_def matrix_clear_def in_bounds_def split: option.splits)
qed

section \<open>Properties\<close>

text \<open>\<open>matrix_set\<close> and \<open>matrix_get\<close> never leave the vector; a value stored in bounds is read
  back at its position and nowhere else, a store out of bounds has no effect.\<close>

theorem matrix_set_get:
  assumes "matrix_inv mx"
  shows "\<exists>mx'. matrix_set mx row col v = Inr mx' \<and> matrix_inv mx' \<and>
    (\<forall>r c. matrix_get mx' r c =
      (if r = row \<and> c = col \<and> in_bounds mx row col then Inr v else matrix_get mx r c))"
  using matrix_set_correct [OF assms] by blast

theorem matrix_set_get_witness:
  "\<exists>mx mx'. matrix_create 2 3 = Inr mx \<and> matrix_set mx 1 2 (Some ''x'') = Inr mx' \<and>
    matrix_get mx' 1 2 = Inr (Some ''x'')"
proof -
  obtain mx :: "string matrix_t" where mx: "matrix_create 2 3 = Inr mx" "matrix_inv mx"
      "num_rows mx = 2" "num_cols mx = 3"
    using matrix_create_correct [of 2 3] by auto
  from matrix_set_get [OF mx(2), of 1 2 "Some ''x''"] mx show ?thesis
    by (auto simp: in_bounds_def)
qed

end
