(* ===== verification/StringUtil.thy ===== *)
theory StringUtil
  imports ListT
begin

unbundle bit_operations_syntax

text \<open>
  The string functions of \<open>src/lib/util/string.c\<close>: string maps, token lists (on the array list),
  normalisation of spaces, trimming, and the conversions between strings and integers.

  A string is the list of its characters before the null character; a function that fills
  \<open>char *dest\<close> returns the string it leaves there. Error codes stored through \<open>err_ptr\<close> are
  returned beside the result. \<open>int\<close> arithmetic that can overflow (hexadecimal and octal numbers)
  is reduced to the width of the type, as the machine does.
\<close>

section \<open>String maps\<close>

text \<open>\<open>struct str_map_t\<close>: the first \<open>count\<close> entries of its vector.\<close>

type_synonym str_map_t = "(string \<times> int) list"

text \<open>The loop over the entries with the comparison function, and the error flag.\<close>

primrec map_lookup :: "(string \<Rightarrow> string \<Rightarrow> int) \<Rightarrow> string \<Rightarrow> str_map_t \<Rightarrow> int \<times> bool" where
  "map_lookup cmp s [] = (0, True)"
| "map_lookup cmp s (e # es) = (if cmp s (fst e) = 0 then (snd e, False) else map_lookup cmp s es)"

definition str_map_string_err :: "str_map_t \<Rightarrow> string \<Rightarrow> int \<times> bool" where
  "str_map_string_err m s = map_lookup strcmp s m"

definition str_map_string :: "str_map_t \<Rightarrow> string \<Rightarrow> int" where
  "str_map_string m s = fst (str_map_string_err m s)"

definition str_map_string_err_msg :: "str_map_t \<Rightarrow> string \<Rightarrow> int run" where
  "str_map_string_err_msg m s =
     (case str_map_string_err m s of (v, err) \<Rightarrow> if \<not> err then Inr v else Inl Fatal)"

definition str_map_string_case_err :: "str_map_t \<Rightarrow> string \<Rightarrow> int \<times> bool" where
  "str_map_string_case_err m s = map_lookup strcasecmp s m"

definition str_map_string_case :: "str_map_t \<Rightarrow> string \<Rightarrow> int" where
  "str_map_string_case m s = fst (str_map_string_case_err m s)"

definition str_map_string_case_err_msg :: "str_map_t \<Rightarrow> string \<Rightarrow> int run" where
  "str_map_string_case_err_msg m s =
     (case str_map_string_case_err m s of (v, err) \<Rightarrow> if \<not> err then Inr v else Inl Fatal)"

primrec str_map_value :: "str_map_t \<Rightarrow> int \<Rightarrow> string" where
  "str_map_value [] v = ''<unknown>''"
| "str_map_value (e # es) v = (if snd e = v then fst e else str_map_value es v)"

text \<open>\<open>buf\<close> receives the name, or the number in decimal.\<close>

primrec str_map_value_buf :: "str_map_t \<Rightarrow> int \<Rightarrow> nat \<Rightarrow> string" where
  "str_map_value_buf [] v sz = snprintf_s sz (int_text v)"
| "str_map_value_buf (e # es) v sz =
     (if snd e = v then snprintf_s sz (fst e) else str_map_value_buf es v sz)"

section \<open>Printing into a buffer\<close>

text \<open>\<open>str_printf\<close>: the text written so far and the room left, \<open>*psize\<close>. \<open>text\<close> is the formatted
  string.\<close>

definition str_printf :: "string \<times> int \<Rightarrow> string \<Rightarrow> string \<times> int" where
  "str_printf b text =
     (case b of (buf, sz) \<Rightarrow>
        if sz \<le> 0 then (buf, sz)
        else if sz = 1 then (buf, sz)
        else
          let len = (if sz \<le> int (length text) then sz - 1 else int (length text))
          in (buf @ take (nat (sz - 1)) text, sz - len))"

text \<open>The constants of \<open>string.h\<close>.\<close>

definition MAX_STRING_SIZE :: nat where "MAX_STRING_SIZE = 200"

definition MAX_LONG_STRING_SIZE :: nat where "MAX_LONG_STRING_SIZE = 1024 * 8"

text \<open>The loop of \<open>str_map_flags\<close> from bit \<open>i\<close> on, with \<open>n\<close> bits left.\<close>

primrec map_flags_loop :: "nat \<Rightarrow> str_map_t \<Rightarrow> 32 word \<Rightarrow> nat \<Rightarrow> string \<Rightarrow> string \<times> int \<Rightarrow> string \<times> int" where
  "map_flags_loop 0 m flags i comma b = b"
| "map_flags_loop (Suc n) m flags i comma b =
     (let flag = push_bit i (1 :: 32 word)
      in if flags AND flag \<noteq> 0
         then map_flags_loop n m flags (i + 1) ''|''
                (str_printf (str_printf b comma) (str_map_value_buf m (sint flag) MAX_STRING_SIZE))
         else map_flags_loop n m flags (i + 1) comma b)"

definition str_map_flags :: "str_map_t \<Rightarrow> 32 word \<Rightarrow> int \<Rightarrow> string" where
  "str_map_flags m flags sz =
     fst (str_printf (map_flags_loop 32 m flags 0 [] (str_printf ([], sz) ''{'')) ''}'')"

section \<open>Tokens\<close>

text \<open>\<open>strtok\<close> on what is left of the string: the next token and the rest after it.\<close>

definition strtok :: "string \<Rightarrow> string \<Rightarrow> (string \<times> string) option" where
  "strtok delim s =
     (let t = dropWhile (\<lambda>c. c \<in> set delim) s
      in if t = [] then None
         else Some (takeWhile (\<lambda>c. c \<notin> set delim) t, drop 1 (dropWhile (\<lambda>c. c \<notin> set delim) t)))"

lemma strtok_shorter: "strtok delim s = Some (t, r) \<Longrightarrow> length r < length s"
proof -
  assume a: "strtok delim s = Some (t, r)"
  have le: "length (dropWhile P xs) \<le> length xs" for P and xs :: string by (rule length_dropWhile_le)
  let ?t = "dropWhile (\<lambda>c. c \<in> set delim) s"
  have t: "?t \<noteq> []" "r = drop 1 (dropWhile (\<lambda>c. c \<notin> set delim) ?t)"
    using a by (auto simp: strtok_def Let_def split: if_splits)
  then have "hd ?t \<notin> set delim" using hd_dropWhile by blast
  then have "length (dropWhile (\<lambda>c. c \<notin> set delim) ?t) < length ?t"
    using t(1) le [of "\<lambda>c. c \<notin> set delim" "tl ?t"] by (cases ?t) auto
  then show ?thesis using t(2) le [of "\<lambda>c. c \<in> set delim" s] by simp
qed

function token_loop :: "string \<Rightarrow> string \<Rightarrow> string list_t \<Rightarrow> string list_t" where
  "token_loop delim s token_list =
     (case strtok delim s of
        None \<Rightarrow> token_list
      | Some (token, rest) \<Rightarrow> token_loop delim rest (list_add token_list (Some token)))"
  by pat_completeness auto
termination
  by (relation "measure (\<lambda>(delim, s, token_list). length s)") (auto dest: strtok_shorter)

declare token_loop.simps [simp del]

definition str_token_list_create :: "string \<Rightarrow> string \<Rightarrow> string list_t" where
  "str_token_list_create str delim = token_loop delim str list_create"

text \<open>The functions on a token list return its new state; a token is dereferenced, so a \<open>NULL\<close>
  element would stop the process.\<close>

definition str_token_list_first :: "string list_t \<Rightarrow> string list_t \<times> string ptr" where
  "str_token_list_first token_list =
     (if list_count token_list = 0 then (token_list, Some []) else list_get token_list 0)"

definition str_token_list_shift :: "string list_t \<Rightarrow> string list_t \<times> string ptr" where
  "str_token_list_shift token_list =
     (if list_count token_list = 0 then (token_list, Some [])
      else str_token_list_first (fst (list_remove_at token_list 0)))"

function token_find_loop :: "(string \<Rightarrow> string \<Rightarrow> int) \<Rightarrow> string list_t \<Rightarrow> string \<Rightarrow> nat \<Rightarrow> (string list_t \<times> int) run" where
  "token_find_loop cmp token_list token index =
     (if index < list_count token_list
      then case list_get token_list (int index) of
             (list', None) \<Rightarrow> Inl Segv
           | (list', Some t) \<Rightarrow>
               if cmp token t = 0 then Inr (list', int index)
               else token_find_loop cmp list' token (index + 1)
      else Inr (token_list, -1))"
  by pat_completeness auto
termination
  by (relation "measure (\<lambda>(cmp, l, token, index). list_count l - index)")
    (auto simp: list_count_def list_get_def split: if_splits)

declare token_find_loop.simps [simp del]

definition str_token_list_find :: "string list_t \<Rightarrow> string \<Rightarrow> (string list_t \<times> int) run" where
  "str_token_list_find token_list token = token_find_loop strcmp token_list token 0"

definition str_token_list_find_case :: "string list_t \<Rightarrow> string \<Rightarrow> (string list_t \<times> int) run" where
  "str_token_list_find_case token_list token = token_find_loop strcasecmp token_list token 0"

section \<open>Strings\<close>

datatype str_error_enum = str_err_ok | str_err_base | str_err_format | str_err_range

definition str_error_code :: "str_error_enum \<Rightarrow> int" where
  "str_error_code e =
     (case e of str_err_ok \<Rightarrow> 0 | str_err_base \<Rightarrow> 1 | str_err_format \<Rightarrow> 2 | str_err_range \<Rightarrow> 3)"

definition str_error_map :: str_map_t where
  "str_error_map =
     [(''OK'', str_error_code str_err_ok), (''Invalid base'', str_error_code str_err_base),
      (''Invalid format'', str_error_code str_err_format),
      (''Integer exceeds valid range'', str_error_code str_err_range)]"

definition str_error :: "int \<Rightarrow> string" where
  "str_error err = str_map_value str_error_map err"

text \<open>The second loop of \<open>str_single_spaces\<close>; \<open>sz\<close> is the room left, the null character included.\<close>

primrec single_spaces_loop :: "string \<Rightarrow> nat \<Rightarrow> bool \<Rightarrow> string" where
  "single_spaces_loop [] sz prev_space = []"
| "single_spaces_loop (c # src) sz prev_space =
     (if \<not> 1 < sz then []
      else if isspace c then single_spaces_loop src sz True
      else
        let out1 = (if prev_space \<and> 1 < sz then '' '' else []);
            sz1 = (if prev_space \<and> 1 < sz then sz - 1 else sz);
            out2 = (if 1 < sz1 then [c] else []);
            sz2 = (if 1 < sz1 then sz1 - 1 else sz1)
        in out1 @ out2 @ single_spaces_loop src sz2 False)"

text \<open>With no room the old content \<open>dest\<close> of the buffer stays.\<close>

definition str_single_spaces :: "string \<Rightarrow> nat \<Rightarrow> string \<Rightarrow> string" where
  "str_single_spaces dest sz src =
     (if sz < 1 then dest else single_spaces_loop (dropWhile isspace src) sz False)"

definition str_suffix :: "string \<Rightarrow> string \<Rightarrow> bool" where
  "str_suffix str suffix =
     (if length str < length suffix then False
      else if strcmp (drop (length str - length suffix) str) suffix \<noteq> 0 then False else True)"

definition str_prefix :: "string \<Rightarrow> string \<Rightarrow> bool" where
  "str_prefix str prefix =
     (if length str < length prefix then False
      else if strncmp str prefix (length prefix) = 0 then True else False)"

text \<open>A negative count would copy outside the buffers.\<close>

definition str_substr :: "int \<Rightarrow> string \<Rightarrow> int \<Rightarrow> int \<Rightarrow> string run" where
  "str_substr dest_size src src_pos src_count =
     (let src_len = int (length src);
          count1 = (if dest_size - 1 < src_count then dest_size - 1 else src_count);
          count2 = (if src_len - src_pos < count1 then src_len - src_pos else count1)
      in if count2 < 0 \<or> src_pos < 0 then Inl Segv
         else Inr (take (nat count2) (drop (nat src_pos) src)))"

text \<open>\<open>index\<close> more calls of \<open>strtok(NULL, delim)\<close>; once it has returned \<open>NULL\<close> it keeps doing so.\<close>

primrec nth_token :: "nat \<Rightarrow> string \<Rightarrow> (string \<times> string) option \<Rightarrow> string" where
  "nth_token 0 delim t = (case t of None \<Rightarrow> [] | Some (token, _) \<Rightarrow> token)"
| "nth_token (Suc n) delim t =
     nth_token n delim (case t of None \<Rightarrow> None | Some (_, rest) \<Rightarrow> strtok delim rest)"

definition str_token :: "nat \<Rightarrow> string \<Rightarrow> int \<Rightarrow> string \<Rightarrow> string" where
  "str_token dest_size src index delim =
     snprintf_s dest_size (nth_token (nat index) delim (strtok delim (snprintf_s MAX_STRING_SIZE src)))"

text \<open>The two counting loops of \<open>str_trim\<close>: from position \<open>i - 1\<close> down, from position \<open>i\<close> up.\<close>

primrec right_trim_loop :: "string \<Rightarrow> nat \<Rightarrow> nat \<Rightarrow> nat" where
  "right_trim_loop src 0 right_trim = right_trim"
| "right_trim_loop src (Suc i) right_trim =
     (if isspace (src ! i) then right_trim_loop src i (right_trim + 1) else right_trim)"

function left_trim_loop :: "string \<Rightarrow> nat \<Rightarrow> nat \<Rightarrow> nat" where
  "left_trim_loop src i left_trim =
     (if i < length src \<and> isspace (src ! i) then left_trim_loop src (i + 1) (left_trim + 1) else left_trim)"
  by pat_completeness auto
termination
  by (relation "measure (\<lambda>(src, i, left_trim). length src - i)") auto

declare left_trim_loop.simps [simp del]

definition str_trim :: "int \<Rightarrow> string \<Rightarrow> string run" where
  "str_trim sz src =
     (if sz < 1 then Inl Panic
      else
        let len = length src;
            right_trim = right_trim_loop src len 0
        in if len < right_trim then Inl Assert
           else if right_trim = len then Inr []
           else
             let left_trim = left_trim_loop src 0 0;
                 new_len = int len - int left_trim - int right_trim
             in if \<not> 0 < new_len then Inl Assert
                else
                  let new_len1 = min new_len (sz - 1)
                  in Inr (map (\<lambda>i. src ! (i + left_trim)) [0..<nat new_len1]))"

text \<open>The result and the error code.\<close>

definition str_digit_to_int :: "char \<Rightarrow> int \<Rightarrow> int \<times> str_error_enum" where
  "str_digit_to_int dchar base =
     (if base \<noteq> 2 \<and> base \<noteq> 8 \<and> base \<noteq> 10 \<and> base \<noteq> 16 then (0, str_err_base)
      else
        let digit = int (char_code (tolower dchar))
        in if 48 \<le> digit \<and> digit \<le> 57
           then (if base \<le> digit - 48 then (0, str_err_format) else (digit - 48, str_err_ok))
           else if 97 \<le> digit \<and> digit \<le> 102
           then (if base \<le> digit - 97 + 10 then (0, str_err_format) else (digit - 97 + 10, str_err_ok))
           else (0, str_err_format))"

section \<open>Numbers\<close>

text \<open>A signed type of \<open>w\<close> bits: its bounds, and the value of an \<open>int\<close> expression in it.\<close>

definition INT_MIN :: "nat \<Rightarrow> int" where "INT_MIN w = - (2 ^ (w - 1))"

definition INT_MAX :: "nat \<Rightarrow> int" where "INT_MAX w = 2 ^ (w - 1) - 1"

definition wrap :: "nat \<Rightarrow> int \<Rightarrow> int" where "wrap w x = signed_take_bit (w - 1) x"

text \<open>The parts of \<open>str_to_int\<close> and \<open>str_to_llint\<close>, whose bodies are the same but for the type of
  \<open>result\<close> and the bound on hexadecimal digits: the base, the sign and the suffix, each with the
  rest of the string.\<close>

definition num_base :: "string \<Rightarrow> int \<times> string" where
  "num_base str =
     (if str_prefix str ''0x'' then (16, drop 2 str)
      else if 2 \<le> length str \<and> str ! 0 = CHR ''0'' then (8, drop 1 str)
      else (10, str))"

definition num_sign :: "int \<Rightarrow> string \<Rightarrow> int \<times> string" where
  "num_sign base str =
     (if base = 10 then
        (case str of
           c # rest \<Rightarrow> if c = CHR ''+'' then (1, rest) else if c = CHR ''-'' then (- 1, rest) else (1, str)
         | [] \<Rightarrow> (1, str))
      else (1, str))"

definition suffix_factor :: "char \<Rightarrow> int option" where
  "suffix_factor c =
     (if c = CHR ''k'' then Some 1024
      else if c = CHR ''K'' then Some 1000
      else if c = CHR ''m'' then Some (1024 * 1024)
      else if c = CHR ''M'' then Some (1000 * 1000)
      else if c = CHR ''g'' then Some (1024 * 1024 * 1024)
      else if c = CHR ''G'' then Some (1000 * 1000 * 1000)
      else None)"

definition num_suffix :: "int \<Rightarrow> string \<Rightarrow> int \<times> string" where
  "num_suffix base str =
     (if base = 10 then
        (case suffix_factor (last str) of Some f \<Rightarrow> (f, butlast str) | None \<Rightarrow> (0, str))
      else (0, str))"

text \<open>The conversion loop.\<close>

primrec convert_loop :: "nat \<Rightarrow> int \<Rightarrow> int \<Rightarrow> int \<Rightarrow> string \<Rightarrow> int \<Rightarrow> int \<Rightarrow> int \<times> str_error_enum" where
  "convert_loop w max_hex base sign [] result num_digits = (result, str_err_ok)"
| "convert_loop w max_hex base sign (c # str) result num_digits =
     (case str_digit_to_int c base of
        (digit, err) \<Rightarrow>
          if err \<noteq> str_err_ok then (0, err)
          else if base = 10 \<and> (sign < 0 \<and> result < c_div (INT_MIN w) base \<or>
                               0 < sign \<and> c_div (INT_MAX w) base < result)
          then (0, str_err_range)
          else
            let result1 = wrap w (result * base)
            in if base = 10 \<and> (sign < 0 \<and> result1 < INT_MIN w + digit \<or>
                                0 < sign \<and> INT_MAX w - digit < result1)
               then (0, str_err_range)
               else
                 let result2 = wrap w (result1 + digit * sign)
                 in if base = 16 \<and> max_hex < num_digits + 1 then (0, str_err_range)
                    else convert_loop w max_hex base sign str result2 (num_digits + 1))"

definition str_to_num :: "nat \<Rightarrow> int \<Rightarrow> string \<Rightarrow> (int \<times> str_error_enum) run" where
  "str_to_num w max_hex str0 =
     andthen (str_trim (int MAX_STRING_SIZE) str0) (\<lambda>trimmed.
       case num_base trimmed of
         (base, str1) \<Rightarrow>
           (case num_sign base str1 of
              (sign, str2) \<Rightarrow>
                if str2 = [] then Inr (0, str_err_format)
                else
                  (case num_suffix base str2 of
                     (factor, str3) \<Rightarrow>
                       let str4 = dropWhile (\<lambda>c. c = CHR ''0'') str3
                       in if str4 = [] then Inr (0, str_err_ok)
                          else
                            (case convert_loop w max_hex base sign str4 0 0 of
                               (result, err) \<Rightarrow>
                                 if err \<noteq> str_err_ok then Inr (0, err)
                                 else if base = 10 \<and> factor \<noteq> 0 then
                                   if sign < 0 \<and> result < c_div (INT_MIN w) factor \<or>
                                      0 < sign \<and> c_div (INT_MAX w) factor < result
                                   then Inr (0, str_err_range)
                                   else Inr (wrap w (result * factor), str_err_ok)
                                 else Inr (result, str_err_ok)))))"

definition str_to_int :: "string \<Rightarrow> (int \<times> str_error_enum) run" where
  "str_to_int str = str_to_num 32 8 str"

definition str_to_llint :: "string \<Rightarrow> (int \<times> str_error_enum) run" where
  "str_to_llint str = str_to_num 64 16 str"

text \<open>Numbers in base 62. The digits come out in reverse order and are then mirrored by exchanges.\<close>

definition alnum_char :: "32 word \<Rightarrow> char" where
  "alnum_char digit =
     (if digit \<le> 9 then char_of (48 + unat digit)
      else if 10 \<le> digit \<and> digit \<le> 35 then char_of (unat digit - 10 + 97)
      else char_of (unat digit - 36 + 65))"

function alnum_loop :: "32 word \<Rightarrow> nat \<Rightarrow> string \<Rightarrow> string" where
  "alnum_loop v sz str =
     (if v \<noteq> 0 \<and> length str < sz - 1 then alnum_loop (v div 62) sz (str @ [alnum_char (v mod 62)])
      else str)"
  by pat_completeness auto
termination
  by (relation "measure (\<lambda>(v, sz, str). sz - length str)") auto

declare alnum_loop.simps [simp del]

function mirror_loop :: "string \<Rightarrow> nat \<Rightarrow> string" where
  "mirror_loop str i =
     (if i < length str div 2
      then mirror_loop (str[i := str ! (length str - i - 1), length str - i - 1 := str ! i]) (i + 1)
      else str)"
  by pat_completeness auto
termination
  by (relation "measure (\<lambda>(str, i). length str - i)") auto

declare mirror_loop.simps [simp del]

definition str_int_to_alnum :: "string \<Rightarrow> nat \<Rightarrow> 32 word \<Rightarrow> string" where
  "str_int_to_alnum dest sz v = (if sz = 0 then dest else mirror_loop (alnum_loop v sz []) 0)"

definition alnum_digit :: "char \<Rightarrow> 32 word option" where
  "alnum_digit ch =
     (let c = char_code ch
      in if 48 \<le> c \<and> c \<le> 57 then Some (of_nat (c - 48))
         else if 97 \<le> c \<and> c \<le> 122 then Some (of_nat (c - 97 + 10))
         else if 65 \<le> c \<and> c \<le> 90 then Some (of_nat (c - 65 + 36))
         else None)"

primrec alnum_to_int_loop :: "string \<Rightarrow> nat \<Rightarrow> 32 word \<Rightarrow> 32 word \<Rightarrow> 32 word" where
  "alnum_to_int_loop str 0 result pw = result"
| "alnum_to_int_loop str (Suc i) result pw =
     (case alnum_digit (str ! i) of
        None \<Rightarrow> 0
      | Some digit \<Rightarrow> alnum_to_int_loop str i (result + digit * pw) (pw * 62))"

definition str_alnum_to_int :: "string ptr \<Rightarrow> 32 word" where
  "str_alnum_to_int p =
     (case p of
        None \<Rightarrow> 0
      | Some str \<Rightarrow> if str = [] then 0 else alnum_to_int_loop str (length str) 0 1)"

section \<open>Strings in files\<close>

text \<open>A file being read is the list of its bytes left. \<open>buf\<close> receives the bytes, the null
  character among them. A negative size passes the check against \<open>buf_size\<close> and asks \<open>fread\<close> for
  more bytes than there can be: all that are left are stored, past the end of the buffer when
  they do not fit.\<close>

definition str_read_from_file :: "char list \<Rightarrow> int \<Rightarrow> (char list \<times> char list) run" where
  "str_read_from_file f buf_size =
     (if length f < 4 then Inl Abort
      else
        let sz = wrap 32 (int (bytes_nat (take 4 f)));
            rest = drop 4 f
        in if buf_size < sz then Inl Abort
           else if sz < 0 then (if buf_size < int (length rest) then Inl Segv else Inl Abort)
           else if int (length rest) < sz then Inl Abort
           else Inr (take (nat sz) rest, drop (nat sz) rest))"

text \<open>Writing appends to the file; the null character is a byte of the file.\<close>

definition str_write_to_file :: "char list \<Rightarrow> string ptr \<Rightarrow> char list" where
  "str_write_to_file f buf =
     (let s = (case buf of None \<Rightarrow> [] | Some s \<Rightarrow> s);
          sz = length s + 1
      in f @ nat_bytes 4 sz @ s @ [char_of (0 :: nat)])"

definition str_set :: "string ptr \<Rightarrow> string ptr" where
  "str_set new_str = (case new_str of None \<Rightarrow> Some [] | Some s \<Rightarrow> Some s)"

definition str_free :: "string ptr \<Rightarrow> string ptr" where
  "str_free str = NULL"

section \<open>Trimming\<close>

text \<open>The string without the white space at its two ends.\<close>

definition strip :: "string \<Rightarrow> string" where
  "strip s = rev (dropWhile isspace (rev (dropWhile isspace s)))"

lemma right_trim_loop_eq:
  "i \<le> length src \<Longrightarrow>
   right_trim_loop src i r = r + length (takeWhile isspace (rev (take i src)))"
  by (induction i arbitrary: r) (simp_all add: take_Suc_conv_app_nth)

lemma left_trim_loop_eq:
  "left_trim_loop src i l = l + length (takeWhile isspace (drop i src))"
proof (induction src i l rule: left_trim_loop.induct)
  case (1 src i l)
  show ?case
  proof (cases "i < length src")
    case True
    then have "drop i src = src ! i # drop (Suc i) src" by (simp add: Cons_nth_drop_Suc)
    then show ?thesis using 1 True by (simp add: left_trim_loop.simps [of src i])
  qed (simp add: left_trim_loop.simps [of src i])
qed

lemma map_nth_take:
  "l + n \<le> length s \<Longrightarrow> map (\<lambda>i. s ! (i + l)) [0..<n] = take n (drop l s)"
  by (rule nth_equalityI) (auto simp: add.commute)

lemma strip_parts:
  assumes "\<not> list_all isspace s"
  shows "strip s = take (length s - length (takeWhile isspace s) - length (takeWhile isspace (rev s)))
                        (drop (length (takeWhile isspace s)) s)"
    and "length (takeWhile isspace s) + length (takeWhile isspace (rev s)) < length s"
proof -
  obtain c where c: "c \<in> set s" "\<not> isspace c" using assms by (auto simp: list_all_iff)
  obtain a b where s: "s = a @ c # b" "c \<notin> set a" by (meson c(1) split_list_first)
  define t where "t = dropWhile isspace s"
  have st: "s = takeWhile isspace s @ t" by (simp add: t_def)
  have "c \<in> set t"
    using c st set_takeWhileD [of c isspace s] by (metis Un_iff set_append)
  then have tw: "takeWhile isspace (rev s) = takeWhile isspace (rev t)"
    using c(2) st by (metis rev_append set_rev takeWhile_append1)
  have "dropWhile isspace (rev t) = drop (length (takeWhile isspace (rev t))) (rev t)"
    by (rule dropWhile_eq_drop)
  then have "strip s = take (length t - length (takeWhile isspace (rev t))) t"
    by (simp add: strip_def t_def [symmetric] rev_drop)
  moreover have "t = drop (length (takeWhile isspace s)) s" by (simp add: t_def dropWhile_eq_drop)
  moreover have "length t = length s - length (takeWhile isspace s)" by (metis calculation(2) length_drop)
  ultimately show "strip s = take (length s - length (takeWhile isspace s) - length (takeWhile isspace (rev s)))
      (drop (length (takeWhile isspace s)) s)" using tw by simp
  have "length (takeWhile isspace (rev t)) < length (rev t)"
    using \<open>c \<in> set t\<close> c(2)
    by (metis length_takeWhile_le le_neq_implies_less set_rev set_takeWhileD takeWhile_eq_take take_all order_refl)
  then show "length (takeWhile isspace s) + length (takeWhile isspace (rev s)) < length s"
    using st tw by (metis add_strict_left_mono length_append length_rev)
qed

lemma strip_spaces: "list_all isspace s \<Longrightarrow> strip s = []"
proof -
  assume "list_all isspace s"
  then have "dropWhile isspace s = []" by (subst dropWhile_eq_Nil_conv) (auto simp: list_all_iff)
  then show "strip s = []" by (simp only: strip_def dropWhile.simps rev.simps)
qed

lemma str_trim_eq:
  assumes "1 \<le> sz"
  shows "str_trim sz src = Inr (take (nat (sz - 1)) (strip src))"
proof -
  let ?r = "length (takeWhile isspace (rev src))"
  have r: "right_trim_loop src (length src) 0 = ?r" by (simp add: right_trim_loop_eq)
  have le: "?r \<le> length src" using length_takeWhile_le [of isspace "rev src"] by simp
  show ?thesis
  proof (cases "list_all isspace src")
    case True
    then have "takeWhile isspace (rev src) = rev src"
      by (subst takeWhile_eq_all_conv) (auto simp: list_all_iff)
    then have "?r = length src" by (metis length_rev)
    then show ?thesis using assms True r by (simp add: str_trim_def Let_def strip_spaces)
  next
    case False
    note sp = strip_parts [OF False]
    have l: "left_trim_loop src 0 0 = length (takeWhile isspace src)" by (simp add: left_trim_loop_eq)
    let ?l = "length (takeWhile isspace src)"
    have n: "int (length src) - int ?l - int ?r = int (length src - ?l - ?r)" using sp(2) by simp
    let ?n = "nat (min (int (length src - ?l - ?r)) (sz - 1))"
    have bnd: "?l + ?n \<le> length src" using sp(2) by linarith
    have m: "?n = min (nat (sz - 1)) (length src - ?l - ?r)" using assms by linarith
    have "str_trim sz src = Inr (map (\<lambda>i. src ! (i + ?l)) [0..<?n])"
      using assms sp(2) r l by (simp add: str_trim_def Let_def n)
    then have "str_trim sz src = Inr (take ?n (drop ?l src))" by (simp only: map_nth_take [OF bnd])
    then show ?thesis by (simp only: m sp(1) take_take)
  qed
qed

section \<open>Words\<close>

text \<open>The pieces of a list between the elements that satisfy \<open>P\<close>, and those that are not empty.\<close>

primrec split_at :: "('a \<Rightarrow> bool) \<Rightarrow> 'a list \<Rightarrow> 'a list list" where
  "split_at P [] = [[]]"
| "split_at P (c # s) =
     (if P c then [] # split_at P s
      else (case split_at P s of w # ws \<Rightarrow> (c # w) # ws | [] \<Rightarrow> [[c]]))"

definition pieces :: "('a \<Rightarrow> bool) \<Rightarrow> 'a list \<Rightarrow> 'a list list" where
  "pieces P s = filter (\<lambda>w. w \<noteq> []) (split_at P s)"

text \<open>The strings of a list with a separator between them.\<close>

fun join :: "'a list \<Rightarrow> 'a list list \<Rightarrow> 'a list" where
  "join sep [] = []"
| "join sep [w] = w"
| "join sep (w # v # ws) = w @ sep @ join sep (v # ws)"

lemma split_at_hd: "\<exists>w ws. split_at P s = w # ws \<and> w = takeWhile (\<lambda>c. \<not> P c) s"
  by (induction s) auto

lemma pieces_simps [simp]:
  "pieces P [] = []"
  "P c \<Longrightarrow> pieces P (c # s) = pieces P s"
  by (simp_all add: pieces_def)

lemma pieces_cons:
  assumes "\<not> P c"
  shows "pieces P (c # s) =
    (if s = [] \<or> P (hd s) then [c] # pieces P s
     else (case pieces P s of w # ws \<Rightarrow> (c # w) # ws | [] \<Rightarrow> []))"
proof -
  obtain w ws where w: "split_at P s = w # ws" "w = takeWhile (\<lambda>c. \<not> P c) s" using split_at_hd by blast
  have "w = [] \<longleftrightarrow> s = [] \<or> P (hd s)" using w(2) by (cases s) auto
  then show ?thesis using assms w(1) by (auto simp: pieces_def)
qed

lemma pieces_ne: "s \<noteq> [] \<Longrightarrow> \<not> P (hd s) \<Longrightarrow> pieces P s \<noteq> []"
proof (cases s)
  case (Cons c s')
  assume "\<not> P (hd s)"
  moreover obtain w ws where "split_at P s' = w # ws" using split_at_hd by blast
  ultimately show ?thesis using Cons by (simp add: pieces_def)
qed simp

text \<open>A piece up to a separator, and what follows it.\<close>

lemma pieces_append:
  assumes "\<forall>c \<in> set t. \<not> P c" and "t \<noteq> []"
  shows "pieces P (t @ r) =
    (if r = [] \<or> P (hd r) then t # pieces P r
     else (case pieces P r of w # ws \<Rightarrow> (t @ w) # ws | [] \<Rightarrow> []))"
  using assms
proof (induction t)
  case (Cons c t)
  show ?case
  proof (cases "t = []")
    case True
    then show ?thesis using Cons.prems by (simp add: pieces_cons split: list.split)
  next
    case False
    then have "\<not> P (hd (t @ r))" "t @ r \<noteq> []" using Cons.prems by (auto simp: neq_Nil_conv)
    then show ?thesis using Cons False by (auto simp: pieces_cons split: list.split)
  qed
qed simp

lemma pieces_dropWhile: "pieces P (dropWhile P s) = pieces P s"
  by (induction s) auto

lemma pieces_props: "w \<in> set (pieces P s) \<Longrightarrow> w \<noteq> [] \<and> (\<forall>c \<in> set w. \<not> P c)"
proof -
  have "v \<in> set (split_at P s) \<Longrightarrow> \<forall>c \<in> set v. \<not> P c" for v
    by (induction s arbitrary: v) (fastforce split: if_splits list.splits)+
  then show "w \<in> set (pieces P s) \<Longrightarrow> w \<noteq> [] \<and> (\<forall>c \<in> set w. \<not> P c)"
    by (auto simp: pieces_def)
qed

lemma join_cons: "join sep (w # ws) = (if ws = [] then w else w @ sep @ join sep ws)"
  by (cases ws) simp_all

section \<open>Single spaces\<close>

text \<open>The loop without a bound on the buffer.\<close>

primrec respaced :: "string \<Rightarrow> bool \<Rightarrow> string" where
  "respaced [] prev = []"
| "respaced (c # s) prev =
     (if isspace c then respaced s True
      else (if prev then '' '' else []) @ c # respaced s False)"

lemma single_spaces_loop_eq:
  "1 \<le> sz \<Longrightarrow> single_spaces_loop s sz prev = take (sz - 1) (respaced s prev)"
proof (induction s arbitrary: sz prev)
  case (Cons c s)
  show ?case
  proof (cases "1 < sz")
    case True
    then have "sz = Suc (Suc (sz - 2))" by simp
    then obtain n where n: "sz = Suc (Suc n)" by blast
    note IH = Cons.IH [of "Suc (Suc n)" True] Cons.IH [of "Suc n" False] Cons.IH [of n False]
    show ?thesis
    proof (cases "isspace c")
      case True
      then show ?thesis using IH(1) by (simp add: n)
    next
      case False
      have z: "single_spaces_loop s (Suc 0) False = []" by (cases s) simp_all
      show ?thesis
      proof (cases "prev")
        case True
        then show ?thesis using False IH(3) z by (cases n) (simp_all add: n Let_def)
      next
        case np: False
        then show ?thesis using False IH(2) by (simp add: n Let_def)
      qed
    qed
  next
    case False
    then have "sz = 1" using Cons.prems by simp
    then show ?thesis by simp
  qed
qed simp

lemma respaced_words:
  "respaced s prev =
    (if pieces isspace s = [] then []
     else (if prev \<or> isspace (hd s) then '' '' else []) @ join '' '' (pieces isspace s))"
proof (induction s arbitrary: prev)
  case (Cons c s)
  show ?case
  proof (cases "isspace c")
    case True
    then show ?thesis using Cons.IH [of True] by simp
  next
    case False
    then have ne: "pieces isspace (c # s) \<noteq> []" by (simp add: pieces_ne)
    show ?thesis
    proof (cases "s = [] \<or> isspace (hd s)")
      case True
      then show ?thesis using False Cons.IH [of False] by (auto simp: pieces_cons join_cons)
    next
      case c: False
      then obtain w ws where "pieces isspace s = w # ws" using pieces_ne by (metis neq_Nil_conv)
      then show ?thesis using False c Cons.IH [of False] by (simp add: pieces_cons join_cons)
    qed
  qed
qed simp

lemma str_single_spaces_eq:
  assumes "1 \<le> sz"
  shows "str_single_spaces dest sz src = take (sz - 1) (join '' '' (pieces isspace src))"
proof -
  let ?s = "dropWhile isspace src"
  have "?s = [] \<or> \<not> isspace (hd ?s)" using hd_dropWhile [of isspace src] by blast
  then have "respaced ?s False =
      (if pieces isspace ?s = [] then [] else join '' '' (pieces isspace ?s))"
    by (elim disjE) (simp_all only: respaced_words pieces_simps if_True if_False simp_thms append_Nil)
  then have "respaced ?s False = join '' '' (pieces isspace ?s)"
    by (cases "pieces isspace ?s") simp_all
  then show ?thesis
    using assms by (simp add: str_single_spaces_def single_spaces_loop_eq pieces_dropWhile)
qed

section \<open>Token lists\<close>

lemma pieces_drop1: "r = [] \<or> P (hd r) \<Longrightarrow> pieces P (drop 1 r) = pieces P r"
  by (cases r) auto

lemma takeWhile_ne: "t \<noteq> [] \<Longrightarrow> P (hd t) \<Longrightarrow> takeWhile P t \<noteq> []"
  by (cases t) auto

lemma takeWhile_all: "\<forall>c \<in> set (takeWhile P t). P c"
  by (meson set_takeWhileD)

lemma pieces_token:
  fixes P :: "'a \<Rightarrow> bool"
  assumes t: "t = dropWhile P s" "t \<noteq> []"
    and k: "k = takeWhile (\<lambda>c. \<not> P c) t" and r: "r = dropWhile (\<lambda>c. \<not> P c) t"
  shows "pieces P s = k # pieces P (drop 1 r)"
proof -
  have "\<not> P (hd t)" using t hd_dropWhile by blast
  then have ne: "k \<noteq> []" unfolding k by (rule takeWhile_ne [OF t(2)])
  have all: "\<forall>c \<in> set k. \<not> P c" unfolding k by (rule takeWhile_all)
  have rest: "r = [] \<or> P (hd r)" using r hd_dropWhile by blast
  have "t = k @ r" using k r by simp
  then have "pieces P t = k # pieces P r" using pieces_append [OF all ne, of r] rest by presburger
  then show ?thesis using pieces_dropWhile [of P s] pieces_drop1 [of r P] rest t(1) by simp
qed

lemma strtok_pieces:
  "(case strtok delim s of
      None \<Rightarrow> pieces (\<lambda>c. c \<in> set delim) s = []
    | Some (t, r) \<Rightarrow> pieces (\<lambda>c. c \<in> set delim) s = t # pieces (\<lambda>c. c \<in> set delim) r)"
proof (cases "dropWhile (\<lambda>c. c \<in> set delim) s = []")
  case True
  then have "pieces (\<lambda>c. c \<in> set delim) s = []"
    using pieces_dropWhile [of "\<lambda>c. c \<in> set delim" s] by (simp only: pieces_simps)
  then show ?thesis using True by (simp only: strtok_def Let_def if_True option.case simp_thms)
next
  case False
  then show ?thesis
    using pieces_token [OF refl False refl refl] by (simp only: strtok_def Let_def if_False option.case prod.case)
qed

text \<open>A list of strings without \<open>NULL\<close> elements.\<close>

definition token_list_holds :: "string list_t \<Rightarrow> string list \<Rightarrow> bool" where
  "token_list_holds l ts \<longleftrightarrow> list_inv l \<and> list_contents l = map Some ts"

lemma token_list_count: "token_list_holds l ts \<Longrightarrow> list_count l = length ts"
  by (metis length_list_contents length_map list_count_def token_list_holds_def)

lemma token_loop_holds:
  "token_list_holds l ts \<Longrightarrow>
   token_list_holds (token_loop delim s l) (ts @ pieces (\<lambda>c. c \<in> set delim) s)"
proof (induction delim s l arbitrary: ts rule: token_loop.induct)
  case (1 delim s l)
  show ?case
  proof (cases "strtok delim s")
    case None
    then show ?thesis using 1(2) strtok_pieces [of delim s] by (simp add: token_loop.simps [of delim s])
  next
    case (Some p)
    obtain t r where p: "p = (t, r)" by fastforce
    have "token_list_holds (list_add l (Some t)) (ts @ [t])"
      using 1(2) by (simp add: token_list_holds_def list_add_correct)
    then show ?thesis
      using 1(1) [OF Some p [symmetric], of "ts @ [t]"] strtok_pieces [of delim s] Some p
      by (simp add: token_loop.simps [of delim s])
  qed
qed

lemma str_token_list_create_holds:
  "token_list_holds (str_token_list_create s delim) (pieces (\<lambda>c. c \<in> set delim) s)"
proof -
  have "token_list_holds list_create []"
    by (simp add: token_list_holds_def list_create_def list_inv_create list_contents_create)
  then show ?thesis using token_loop_holds [of list_create "[]"] by (simp add: str_token_list_create_def)
qed

lemma str_token_list_first_correct:
  assumes "token_list_holds l ts"
  shows "token_list_holds (fst (str_token_list_first l)) ts"
    and "snd (str_token_list_first l) = Some (if ts = [] then [] else hd ts)"
proof -
  have c: "list_count l = length ts" using token_list_count assms .
  have inv: "list_inv l" "list_contents l = map Some ts" using assms by (auto simp: token_list_holds_def)
  show "token_list_holds (fst (str_token_list_first l)) ts"
    using assms c inv list_get_correct(2) [OF inv(1), of 0]
    by (simp add: str_token_list_first_def token_list_holds_def list_err_frame)
  show "snd (str_token_list_first l) = Some (if ts = [] then [] else hd ts)"
    using c inv list_get_correct(1) [OF inv(1), of 0]
    by (cases ts) (simp_all add: str_token_list_first_def list_count_def)
qed

lemma str_token_list_shift_correct:
  assumes "token_list_holds l ts"
  shows "token_list_holds (fst (str_token_list_shift l)) (tl ts)"
    and "snd (str_token_list_shift l) = Some (if tl ts = [] then [] else hd (tl ts))"
proof -
  have c: "list_count l = length ts" using token_list_count assms .
  have inv: "list_inv l" "list_contents l = map Some ts" using assms by (auto simp: token_list_holds_def)
  have r: "ts \<noteq> [] \<Longrightarrow> token_list_holds (fst (list_remove_at l 0)) (tl ts)"
    using list_remove_at_correct(1,2) [OF inv(1), of 0] c inv(2)
    by (simp add: token_list_holds_def list_count_def drop_Suc map_tl)
  show "token_list_holds (fst (str_token_list_shift l)) (tl ts)"
    using assms c str_token_list_first_correct(1) [OF r] by (cases ts) (simp_all add: str_token_list_shift_def)
  show "snd (str_token_list_shift l) = Some (if tl ts = [] then [] else hd (tl ts))"
    using assms c str_token_list_first_correct(2) [OF r] by (cases ts) (simp_all add: str_token_list_shift_def)
qed

text \<open>The index of the first token that satisfies \<open>P\<close>, or \<open>-1\<close>.\<close>

definition token_index :: "(string \<Rightarrow> bool) \<Rightarrow> string list \<Rightarrow> int" where
  "token_index P ts = (if \<exists>t \<in> set ts. P t then int (length (takeWhile (\<lambda>t. \<not> P t) ts)) else -1)"

lemma first_fit_length:
  assumes "i < length ts" "\<not> Q (ts ! i)" "\<forall>t \<in> set (take i ts). Q t"
  shows "length (takeWhile Q ts) = i"
proof -
  have "ts = take i ts @ ts ! i # drop (Suc i) ts" using assms(1) by (simp add: id_take_nth_drop)
  then have "takeWhile Q ts = take i ts @ takeWhile Q (ts ! i # drop (Suc i) ts)"
    using assms(3) by (metis takeWhile_append2)
  then show ?thesis using assms by simp
qed

lemma token_find_loop_correct:
  assumes "token_list_holds l ts" "i \<le> length ts" "\<forall>t \<in> set (take i ts). cmp token t \<noteq> 0"
  shows "\<exists>l'. token_find_loop cmp l token i = Inr (l', token_index (\<lambda>t. cmp token t = 0) ts) \<and>
    token_list_holds l' ts"
  using assms
proof (induction cmp l token i rule: token_find_loop.induct)
  case (1 cmp l token i)
  let ?P = "\<lambda>t. cmp token t = 0"
  have c: "list_count l = length ts" using token_list_count 1(2) .
  have inv: "list_inv l" "list_contents l = map Some ts" using 1(2) by (auto simp: token_list_holds_def)
  show ?case
  proof (cases "i < length ts")
    case True
    obtain l' where g: "list_get l (int i) = (l', Some (ts ! i))" "token_list_holds l' ts"
      using list_get_correct [OF inv(1), of "int i"] True c inv 1(2)
      by (cases "list_get l (int i)") (simp add: list_count_def token_list_holds_def)
    show ?thesis
    proof (cases "?P (ts ! i)")
      case p: True
      have "length (takeWhile (\<lambda>t. \<not> ?P t) ts) = i"
        using first_fit_length [OF True, of "\<lambda>t. \<not> ?P t"] p 1(4) by simp
      then show ?thesis
        using p g True c by (auto simp: token_find_loop.simps [of cmp l] token_index_def)
    next
      case np: False
      have "\<forall>t \<in> set (take (i + 1) ts). \<not> ?P t" using 1(4) np True by (simp add: take_Suc_conv_app_nth)
      then show ?thesis using 1(1) [of l' "Some (ts ! i)" "ts ! i"] g np True c
        by (simp add: token_find_loop.simps [of cmp l])
    qed
  next
    case False
    then show ?thesis
      using 1(2-4) c by (auto simp: token_find_loop.simps [of cmp l] token_index_def)
  qed
qed

section \<open>Printed text\<close>

text \<open>What \<open>str_printf\<close> has left of the text \<open>t\<close> in a buffer of \<open>sz\<close> bytes.\<close>

definition printed :: "int \<Rightarrow> string \<Rightarrow> string \<times> int" where
  "printed sz t = (take (nat (sz - 1)) t, sz - int (length (take (nat (sz - 1)) t)))"

lemma take_take_append: "take n t @ take (n - length t) u = take n (t @ u)"
  by simp

lemma str_printf_printed [simp]: "str_printf (printed sz t) u = printed sz (t @ u)"
proof (cases "sz \<le> 0")
  case True
  then show ?thesis by (simp add: str_printf_def printed_def)
next
  case False
  then have "sz = int (Suc (nat (sz - 1)))" by simp
  then obtain n where n: "sz = int (Suc n)" by blast
  have p: "printed sz v = (take n v, sz - int (min (length v) n))" for v by (simp add: printed_def n)
  show ?thesis
  proof (cases "n \<le> length t")
    case True
    then show ?thesis unfolding str_printf_def p by (simp add: n)
  next
    case False
    then have m: "min (length t) n = length t" "take n t = t" by simp_all
    have a: "\<not> sz - int (length t) \<le> 0" "sz - int (length t) \<noteq> 1" using False n by linarith+
    have "nat (sz - int (length t) - 1) = n - length t" using False n by linarith
    moreover have "sz - int (length t) - (if sz - int (length t) \<le> int (length u)
        then sz - int (length t) - 1 else int (length u)) = sz - int (min (length (t @ u)) n)"
      using False n by auto
    ultimately show ?thesis by (simp only: str_printf_def p m prod.case a if_False Let_def take_append)
  qed
qed

lemma bit_flag: "i < 32 \<Longrightarrow> (flags :: 32 word) AND push_bit i 1 \<noteq> 0 \<longleftrightarrow> bit flags i"
  by (simp add: bit_iff_and_push_bit_not_eq_0)

text \<open>The names of the flags set, from bit \<open>i\<close> on.\<close>

definition flag_names :: "str_map_t \<Rightarrow> 32 word \<Rightarrow> nat \<Rightarrow> string list" where
  "flag_names m flags i =
     map (\<lambda>i. str_map_value_buf m (sint (push_bit i (1 :: 32 word))) MAX_STRING_SIZE)
       (filter (bit flags) [i..<32])"

lemma map_flags_loop_eq:
  "i + n = 32 \<Longrightarrow> map_flags_loop n m flags i comma (printed sz t) =
   printed sz (t @ (if flag_names m flags i = [] then [] else comma) @ join ''|'' (flag_names m flags i))"
proof (induction n arbitrary: i comma t)
  case (Suc n)
  have up: "[i..<32] = i # [Suc i..<32]" using Suc.prems by (simp add: upt_conv_Cons)
  show ?case
    using Suc.prems Suc.IH [of "Suc i"]
    using bit_flag [of i flags] by (simp add: flag_names_def up Let_def join_cons)
qed (simp add: flag_names_def)

lemma str_map_flags_eq:
  "str_map_flags m flags sz =
   take (nat (sz - 1)) (''{'' @ join ''|'' (flag_names m flags 0) @ ''}'')"
proof -
  have "str_printf ([], sz) ''{'' = printed sz ''{''"
    using str_printf_printed [of sz "[]" "''{''"] by (simp add: printed_def)
  then have "str_map_flags m flags sz = fst (printed sz (''{'' @ join ''|'' (flag_names m flags 0) @ ''}''))"
    by (simp add: str_map_flags_def map_flags_loop_eq)
  then show ?thesis by (simp only: printed_def fst_conv)
qed

section \<open>Base 62\<close>

lemma mirror_loop_nth:
  "i \<le> length s div 2 \<Longrightarrow>
   length (mirror_loop s i) = length s \<and>
   (\<forall>j < length s. mirror_loop s i ! j =
      (if j < i \<or> length s - i \<le> j then s ! j else s ! (length s - 1 - j)))"
proof (induction s i rule: mirror_loop.induct)
  case (1 s i)
  show ?case
  proof (cases "i < length s div 2")
    case True
    define s' where "s' = s[i := s ! (length s - i - 1), length s - i - 1 := s ! i]"
    have len: "length s' = length s" by (simp add: s'_def)
    have IH: "\<forall>j < length s. mirror_loop s' (i + 1) ! j =
        (if j < i + 1 \<or> length s - (i + 1) \<le> j then s' ! j else s' ! (length s - 1 - j))"
      and l: "length (mirror_loop s' (i + 1)) = length s"
      using 1(1) True len by (auto simp: s'_def)
    have s': "s' ! j = (if j = i then s ! (length s - i - 1) else if j = length s - i - 1 then s ! i else s ! j)"
      if "j < length s" for j
      using that True by (auto simp: s'_def nth_list_update)
    have "mirror_loop s' (i + 1) ! j =
        (if j < i \<or> length s - i \<le> j then s ! j else s ! (length s - 1 - j))" if j: "j < length s" for j
    proof -
      consider "j < i" | "j = i" | "i < j" "j < length s - i - 1" | "j = length s - i - 1" | "length s - i \<le> j"
        by linarith
      then show ?thesis
      proof cases
        case 3
        then have "length s - 1 - j \<noteq> i" "length s - 1 - j \<noteq> length s - i - 1" "length s - 1 - j < length s"
          using j True by linarith+
        then have "s' ! (length s - 1 - j) = s ! (length s - 1 - j)" using s' by presburger
        moreover have "\<not> (j < i + 1 \<or> length s - (i + 1) \<le> j)" "\<not> (j < i \<or> length s - i \<le> j)" using 3 by linarith+
        ultimately show ?thesis using IH j by presburger
      qed (use IH j s' True in auto)
    qed
    moreover have "mirror_loop s i = mirror_loop s' (i + 1)"
      unfolding s'_def using True by (subst mirror_loop.simps) simp
    ultimately show ?thesis using l by presburger
  next
    case False
    then have "i = length s div 2" using 1(2) by simp
    moreover have "j < length s \<Longrightarrow> \<not> (j < i \<or> length s - i \<le> j) \<Longrightarrow> j = length s - 1 - j" for j
      using calculation by linarith
    moreover have "mirror_loop s i = s" using False by (subst mirror_loop.simps) simp
    ultimately show ?thesis by presburger
  qed
qed

lemma mirror_loop_rev: "mirror_loop s 0 = rev s"
  using mirror_loop_nth [of 0 s] by (intro nth_equalityI) (auto simp: rev_nth)

text \<open>The first \<open>n\<close> digits, the least significant first.\<close>

primrec alnum_digits :: "nat \<Rightarrow> 32 word \<Rightarrow> string" where
  "alnum_digits 0 v = []"
| "alnum_digits (Suc n) v = (if v = 0 then [] else alnum_char (v mod 62) # alnum_digits n (v div 62))"

lemma alnum_loop_eq: "alnum_loop v sz s = s @ alnum_digits (sz - 1 - length s) v"
proof (induction v sz s rule: alnum_loop.induct)
  case (1 v sz s)
  show ?case
  proof (cases "v \<noteq> 0 \<and> length s < sz - 1")
    case True
    then have "sz - 1 - length s = Suc (sz - 1 - Suc (length s))" by linarith
    then show ?thesis using 1 True by (simp add: alnum_loop.simps [of v])
  next
    case False
    have z: "alnum_digits n 0 = []" for n by (cases n) simp_all
    have "alnum_loop v sz s = s" using False by (subst alnum_loop.simps) auto
    then show ?thesis using False z by (cases "v = 0") simp_all
  qed
qed

lemma alnum_digit_char: "d < 62 \<Longrightarrow> alnum_digit (alnum_char d) = Some d"
proof -
  assume "d < 62"
  then have "unat d < 62" by (simp add: word_less_nat_alt)
  moreover have "d = of_nat (unat d)" by simp
  ultimately show ?thesis
    by (auto simp: alnum_char_def alnum_digit_def Let_def word_le_nat_alt char_code_char_of)
qed

lemma alnum_to_int_loop_append:
  "i \<le> length s \<Longrightarrow> alnum_to_int_loop (s @ t) i r p = alnum_to_int_loop s i r p"
  by (induction i arbitrary: r p) (auto simp: nth_append split: option.split)

lemma word_of_nat_unat_eq: "of_nat (unat (w :: 32 word)) = w"
  by simp

lemma alnum_to_int_digits:
  "alnum_to_int_loop (rev (alnum_digits n v)) (length (alnum_digits n v)) r p =
   r + p * of_nat (unat v mod 62 ^ n)"
proof (induction n arbitrary: v r p)
  case (Suc n)
  show ?case
  proof (cases "v = 0")
    case False
    let ?ds = "alnum_digits n (v div 62)"
    have lt: "v mod 62 < 62" by (simp add: word_mod_less_divisor)
    have m: "unat v mod (62 * 62 ^ n) = unat v mod 62 + 62 * (unat v div 62 mod 62 ^ n)"
      by (simp add: mod_mult2_eq)
    have "unat (v mod 62) = unat v mod 62" by (simp add: unat_mod)
    then have u: "unat (v div 62) = unat v div 62" "v mod 62 = of_nat (unat v mod 62)"
      using word_of_nat_unat_eq [of "v mod 62"] by (simp_all add: unat_div)
    have "alnum_to_int_loop (rev ?ds @ [alnum_char (v mod 62)]) (Suc (length ?ds)) r p =
        alnum_to_int_loop (rev ?ds) (length ?ds) (r + v mod 62 * p) (p * 62)"
      using alnum_to_int_loop_append [of "length ?ds" "rev ?ds"] by (simp add: alnum_digit_char [OF lt] nth_append)
    also have "\<dots> = r + p * of_nat (unat v mod (62 * 62 ^ n))"
      by (simp add: Suc.IH u(1) m) (simp add: u(2) algebra_simps)
    finally show ?thesis using False by simp
  qed simp
qed simp

section \<open>Strings in a file\<close>

lemma str_file_roundtrip:
  assumes "length s + 1 < 2 ^ 31" "int (length s) < buf_size"
  shows "str_read_from_file (str_write_to_file [] (Some s) @ rest) buf_size = Inr (s @ [char_of (0 :: nat)], rest)"
proof -
  let ?sz = "length s + 1"
  have "bytes_nat (nat_bytes 4 ?sz) = ?sz" using assms(1) by (simp add: bytes_nat_bytes)
  moreover have "wrap 32 (int ?sz) = int ?sz"
    unfolding wrap_def using assms(1) by (intro signed_take_bit_int_eq_self) auto
  moreover have "nat (1 + int (length s)) = Suc (length s)" by simp
  ultimately show ?thesis
    using assms(2) by (simp add: str_read_from_file_def str_write_to_file_def Let_def)
qed

section \<open>Decimal numbers\<close>

lemma INT_props: "INT_MIN w = - (2 ^ (w - 1))" "INT_MAX w = 2 ^ (w - 1) - 1" "INT_MIN w < 0" "0 \<le> INT_MAX w"
  by (simp_all add: INT_MIN_def INT_MAX_def)

lemma wrap_id: "INT_MIN w \<le> x \<Longrightarrow> x \<le> INT_MAX w \<Longrightarrow> wrap w x = x"
  unfolding wrap_def INT_MIN_def INT_MAX_def by (intro signed_take_bit_int_eq_self) simp_all

lemma mult_le_div: "0 < f \<Longrightarrow> v * f \<le> m \<longleftrightarrow> v \<le> m div (f :: int)"
proof
  assume f: "0 < f"
  show "v \<le> m div f" if "v * f \<le> m" using zdiv_mono1 [OF that f] f by simp
  show "v * f \<le> m" if "v \<le> m div f"
  proof -
    have "v * f \<le> m div f * f" using that f by (simp add: mult_right_mono)
    also have "\<dots> \<le> m" using div_mult_mod_eq [of m f] pos_mod_sign [OF f, of m] by linarith
    finally show ?thesis .
  qed
qed

text \<open>The guard before a multiplication by \<open>f\<close> is exact.\<close>

lemma mult_guard:
  assumes "0 < f" "0 \<le> v" "s = 1 \<or> s = (-1 :: int)"
  shows "(s < 0 \<and> s * v < c_div (INT_MIN w) f \<or> 0 < s \<and> c_div (INT_MAX w) f < s * v) \<longleftrightarrow>
    \<not> (INT_MIN w \<le> s * (v * f) \<and> s * (v * f) \<le> INT_MAX w)"
proof -
  have le: "v * f \<le> m \<longleftrightarrow> v \<le> m div f" for m by (rule mult_le_div [OF assms(1)])
  have p: "0 \<le> v * f" using assms by simp
  have mn: "c_div (INT_MIN w) f = - (- INT_MIN w div f)"
    using assms(1) INT_props(3) [of w] by (simp add: c_div_def)
  have mx: "c_div (INT_MAX w) f = INT_MAX w div f"
    using c_div_nonneg [OF INT_props(4) assms(1)] .
  show ?thesis
    unfolding mn mx using assms(3) le [of "- INT_MIN w"] le [of "INT_MAX w"] p INT_props(3,4) [of w]
    by (elim disjE) auto
qed

lemma add_guard:
  assumes "0 \<le> d" "0 \<le> v" "s = 1 \<or> s = (-1 :: int)"
  shows "(s < 0 \<and> s * v < INT_MIN w + d \<or> 0 < s \<and> INT_MAX w - d < s * v) \<longleftrightarrow>
    \<not> (INT_MIN w \<le> s * (v + d) \<and> s * (v + d) \<le> INT_MAX w)"
  using assms INT_props(3,4) [of w] by auto

definition in_range :: "nat \<Rightarrow> int \<Rightarrow> bool" where
  "in_range w v \<longleftrightarrow> INT_MIN w \<le> v \<and> v \<le> INT_MAX w"

lemma in_range_less:
  "in_range w (s * v) \<Longrightarrow> 0 \<le> u \<Longrightarrow> u \<le> v \<Longrightarrow> s = 1 \<or> s = (-1 :: int) \<Longrightarrow> in_range w (s * u)"
  using INT_props(3,4) [of w] by (auto simp: in_range_def)

definition num_val :: "int \<Rightarrow> string \<Rightarrow> int" where
  "num_val v ds = foldl (\<lambda>n c. 10 * n + digit_val c) v ds"

lemma digit_bounds: "isdigit c \<Longrightarrow> 0 \<le> digit_val c \<and> digit_val c \<le> 9"
  by (auto simp: isdigit_def digit_val_def)

lemma num_val_ge: "list_all isdigit ds \<Longrightarrow> 0 \<le> v \<Longrightarrow> v \<le> num_val v ds"
proof (induction ds arbitrary: v)
  case (Cons c ds)
  then have "0 \<le> digit_val c" using digit_bounds [of c] by simp
  then have "v \<le> 10 * v + digit_val c" "0 \<le> 10 * v + digit_val c" using Cons.prems(2) by linarith+
  moreover from calculation(2) have "10 * v + digit_val c \<le> num_val (10 * v + digit_val c) ds"
    using Cons by simp
  ultimately show ?case by (simp add: num_val_def)
qed (simp add: num_val_def)

lemma str_digit_dec: "isdigit c \<Longrightarrow> str_digit_to_int c 10 = (digit_val c, str_err_ok)"
  by (simp add: str_digit_to_int_def isdigit_def digit_val_def tolower_def Let_def)

lemma base_10: "(10 :: int) \<noteq> 16"
  by simp

lemma convert_loop_dec:
  assumes "list_all isdigit ds" "0 \<le> v" "in_range w (s * v)" "s = 1 \<or> s = -1"
  shows "convert_loop w mh 10 s ds (s * v) n =
    (if in_range w (s * num_val v ds) then (s * num_val v ds, str_err_ok) else (0, str_err_range))"
  using assms
proof (induction ds arbitrary: v n)
  case (Cons c ds)
  let ?d = "digit_val c"
  have d: "0 \<le> ?d" "isdigit c" using Cons.prems(1) digit_bounds [of c] by auto
  have nv: "num_val v (c # ds) = num_val (v * 10 + ?d) ds" by (simp add: num_val_def mult.commute)
  have ge: "v * 10 + ?d \<le> num_val (v * 10 + ?d) ds" using Cons.prems(1,2) d by (intro num_val_ge) simp_all
  note mono = in_range_less [OF _ _ _ Cons.prems(4)]
  note mg = mult_guard [of 10 v s w, OF _ Cons.prems(2,4)] and
    ag = add_guard [OF d(1) _ Cons.prems(4), of "v * 10" w]
  show ?case
  proof (cases "in_range w (s * (v * 10))")
    case False
    then have "\<not> in_range w (s * num_val v (c # ds))"
      using mono [of w "num_val (v * 10 + ?d) ds" "v * 10"] ge d Cons.prems(2) unfolding nv by linarith
    then show ?thesis using False mg by (simp add: str_digit_dec [OF d(2)] in_range_def)
  next
    case m: True
    then have w1: "wrap w (s * v * 10) = s * (v * 10)" by (simp add: wrap_id in_range_def mult.assoc)
    show ?thesis
    proof (cases "in_range w (s * (v * 10 + ?d))")
      case False
      then have "\<not> in_range w (s * num_val v (c # ds))"
        using mono [of w "num_val (v * 10 + ?d) ds" "v * 10 + ?d"] ge d Cons.prems(2) unfolding nv by linarith
      then show ?thesis
        using False m mg ag Cons.prems(2) by (simp add: str_digit_dec [OF d(2)] in_range_def w1 Let_def)
    next
      case True
      have e: "s * (v * 10) + ?d * s = s * (v * 10 + ?d)" by (simp add: algebra_simps)
      have w2: "wrap w (s * (v * 10) + ?d * s) = s * (v * 10 + ?d)"
        unfolding e using True by (simp add: wrap_id in_range_def)
      have IH: "convert_loop w mh 10 s ds (s * (v * 10 + ?d)) (n + 1) =
          (if in_range w (s * num_val v (c # ds)) then (s * num_val v (c # ds), str_err_ok) else (0, str_err_range))"
        unfolding nv using Cons.prems(1,2) d True Cons.IH [of "v * 10 + ?d" "n + 1"] Cons.prems(4) by simp
      have g1: "\<not> (s < 0 \<and> s * v < c_div (INT_MIN w) 10 \<or> 0 < s \<and> c_div (INT_MAX w) 10 < s * v)"
        using m mg by (simp add: in_range_def)
      have g2: "\<not> (s < 0 \<and> s * (v * 10) < INT_MIN w + ?d \<or> 0 < s \<and> INT_MAX w - ?d < s * (v * 10))"
        using True ag Cons.prems(2) by (simp add: in_range_def)
      show ?thesis
        unfolding convert_loop.simps str_digit_dec [OF d(2)] prod.case w1 Let_def w2 IH
        using g1 g2 by (simp only: simp_thms if_False base_10)
    qed
  qed
qed (simp add: num_val_def)

text \<open>The text of a decimal number: a sign, digits and a suffix. A leading zero without a sign
  would announce an octal number.\<close>

definition num_suffixes :: "string list" where
  "num_suffixes = [[], ''k'', ''K'', ''m'', ''M'', ''g'', ''G'']"

definition decimal_text :: "string \<Rightarrow> string \<Rightarrow> string \<Rightarrow> bool" where
  "decimal_text sg ds suf \<longleftrightarrow>
     sg \<in> set [[], ''+'', ''-''] \<and> ds \<noteq> [] \<and> list_all isdigit ds \<and> suf \<in> set num_suffixes \<and>
     (sg = [] \<and> 1 < length (ds @ suf) \<longrightarrow> hd ds \<noteq> CHR ''0'')"

definition sign_val :: "string \<Rightarrow> int" where
  "sign_val sg = (if sg = ''-'' then -1 else 1)"

definition suffix_val :: "string \<Rightarrow> int" where
  "suffix_val suf =
     (case suf of [] \<Rightarrow> 1 | c # _ \<Rightarrow> (case suffix_factor c of Some f \<Rightarrow> f | None \<Rightarrow> 1))"

lemma char_codes [simp]:
  "char_code (CHR ''0'') = 48" "char_code (CHR ''+'') = 43" "char_code (CHR ''-'') = 45" "char_code (CHR ''x'') = 120"
  "char_code (CHR ''k'') = 107" "char_code (CHR ''K'') = 75" "char_code (CHR ''m'') = 109"
  "char_code (CHR ''M'') = 77" "char_code (CHR ''g'') = 103" "char_code (CHR ''G'') = 71"
  by (simp_all add: char_code_def)

lemma digit_not: "isdigit c \<Longrightarrow> c \<notin> set ''+-kKmMgGx'' \<and> \<not> isspace c"
  by (auto simp: isdigit_def isspace_def)

lemma digit_no_factor: "isdigit c \<Longrightarrow> suffix_factor c = None"
  using digit_not [of c] by (simp add: suffix_factor_def)

lemma num_val_zeros: "num_val 0 (dropWhile (\<lambda>c. c = CHR ''0'') ds) = dec_val ds"
  by (induction ds) (simp_all add: num_val_def dec_val_def digit_val_def)

lemma num_base_decimal:
  assumes "decimal_text sg ds suf"
  shows "num_base (sg @ ds @ suf) = (10, sg @ ds @ suf)"
proof (cases "sg = []")
  case True
  then have "length (ds @ suf) < 2 \<or> hd ds \<noteq> CHR ''0''" "ds \<noteq> []"
    using assms by (auto simp: decimal_text_def)
  then show ?thesis using True by (cases ds) (auto simp: num_base_def str_prefix_def strncmp_def)
next
  case False
  then show ?thesis using assms by (auto simp: decimal_text_def num_base_def str_prefix_def strncmp_def)
qed

lemma num_sign_decimal:
  assumes "decimal_text sg ds suf"
  shows "num_sign 10 (sg @ ds @ suf) = (sign_val sg, ds @ suf)"
proof -
  have ds: "ds \<noteq> []" "isdigit (hd ds)" using assms by (cases ds; simp add: decimal_text_def)+
  then have "hd ds \<noteq> CHR ''+''" "hd ds \<noteq> CHR ''-''" using digit_not by auto
  then show ?thesis using assms ds by (cases ds) (auto simp: decimal_text_def num_sign_def sign_val_def)
qed

lemma num_suffix_decimal:
  assumes "decimal_text sg ds suf"
  shows "num_suffix 10 (ds @ suf) = (if suf = [] then 0 else suffix_val suf, ds)"
proof -
  have "isdigit (last ds)" using assms by (auto simp: decimal_text_def list_all_iff)
  then have "suffix_factor (last ds) = None" by (rule digit_no_factor)
  moreover have "suf = [] \<or> (\<exists>c. suf = [c] \<and> suffix_factor c \<noteq> None)"
    using assms by (auto simp: decimal_text_def num_suffixes_def suffix_factor_def)
  ultimately show ?thesis by (auto simp: num_suffix_def suffix_val_def)
qed

lemma suffix_val_pos: "decimal_text sg ds suf \<Longrightarrow> 1 \<le> suffix_val suf"
  by (auto simp: decimal_text_def num_suffixes_def suffix_val_def suffix_factor_def)

lemma dropWhile_prefix: "list_all P l \<Longrightarrow> t \<noteq> [] \<Longrightarrow> \<not> P (hd t) \<Longrightarrow> dropWhile P (l @ t) = t"
  by (induction l) (cases t, simp_all)

lemma strip_inner:
  assumes "list_all isspace l" "list_all isspace r" "t \<noteq> []" "\<not> isspace (hd t)" "\<not> isspace (last t)"
  shows "strip (l @ t @ r) = t"
proof -
  have "dropWhile isspace (l @ t @ r) = t @ r"
    by (rule dropWhile_prefix [OF assms(1)]) (use assms(3,4) in simp_all)
  moreover have "dropWhile isspace (rev r @ rev t) = rev t"
    by (rule dropWhile_prefix) (use assms(2,3,5) in \<open>simp_all add: hd_rev\<close>)
  ultimately show ?thesis by (simp add: strip_def)
qed

lemma decimal_strip:
  assumes "decimal_text sg ds suf" "list_all isspace l" "list_all isspace r"
  shows "strip (l @ (sg @ ds @ suf) @ r) = sg @ ds @ suf"
proof (rule strip_inner [OF assms(2,3)])
  have ds: "ds \<noteq> []" "isdigit (hd ds)" "isdigit (last ds)"
    using assms(1) by (auto simp: decimal_text_def list_all_iff)
  then show "sg @ ds @ suf \<noteq> []" by simp
  show "\<not> isspace (hd (sg @ ds @ suf))"
    using assms(1) ds digit_not by (auto simp: decimal_text_def isspace_def hd_append)
  show "\<not> isspace (last (sg @ ds @ suf))"
    using assms(1) ds digit_not by (auto simp: decimal_text_def num_suffixes_def isspace_def)
qed

lemma str_to_num_decimal:
  assumes d: "decimal_text sg ds suf" and sp: "list_all isspace l" "list_all isspace r"
    and len: "length (sg @ ds @ suf) < MAX_STRING_SIZE"
  shows "str_to_num w mh (l @ (sg @ ds @ suf) @ r) =
    (let v = sign_val sg * dec_val ds * suffix_val suf
     in if in_range w v then Inr (v, str_err_ok) else Inr (0, str_err_range))"
proof -
  let ?s = "sign_val sg" and ?z = "dropWhile (\<lambda>c. c = CHR ''0'') ds" and ?f = "suffix_val suf"
  have s: "?s = 1 \<or> ?s = -1" by (simp add: sign_val_def)
  have ds: "ds \<noteq> []" "list_all isdigit ds" using d by (auto simp: decimal_text_def)
  have z: "list_all isdigit ?z" using ds(2) by (auto simp: list_all_iff dest: set_dropWhileD)
  have f: "1 \<le> ?f" using suffix_val_pos d .
  have trim: "str_trim (int MAX_STRING_SIZE) (l @ (sg @ ds @ suf) @ r) = Inr (sg @ ds @ suf)"
  proof -
    have "str_trim (int MAX_STRING_SIZE) (l @ (sg @ ds @ suf) @ r) =
        Inr (take (nat (int MAX_STRING_SIZE - 1)) (sg @ ds @ suf))"
      using str_trim_eq [of "int MAX_STRING_SIZE" "l @ (sg @ ds @ suf) @ r"]
      unfolding decimal_strip [OF d sp] by (simp add: MAX_STRING_SIZE_def)
    then show ?thesis using len by (simp add: MAX_STRING_SIZE_def)
  qed
  have zero: "in_range w 0" using INT_props(3,4) [of w] by (simp add: in_range_def)
  have conv: "convert_loop w mh 10 ?s ?z 0 0 =
      (if in_range w (?s * dec_val ds) then (?s * dec_val ds, str_err_ok) else (0, str_err_range))"
    using convert_loop_dec [OF z, of 0 w ?s mh 0] s zero by (simp add: num_val_zeros)
  have pos: "0 \<le> dec_val ds" using num_val_ge [OF z, of 0] by (simp add: num_val_zeros)
  have vz: "?z = [] \<Longrightarrow> dec_val ds = 0" by (metis foldl_Nil num_val_def num_val_zeros)
  have guard: "(?s < 0 \<and> ?s * dec_val ds < c_div (INT_MIN w) ?f \<or> 0 < ?s \<and> c_div (INT_MAX w) ?f < ?s * dec_val ds)
      \<longleftrightarrow> \<not> in_range w (?s * (dec_val ds * ?f))"
    using mult_guard [of ?f "dec_val ds" ?s w] f pos s by (simp add: in_range_def)
  have mono: "in_range w (?s * (dec_val ds * ?f)) \<Longrightarrow> in_range w (?s * dec_val ds)"
    using in_range_less [of w ?s "dec_val ds * ?f" "dec_val ds"] f pos s
    by (simp add: mult_le_cancel_left1)
  have nz: "?f \<noteq> 0" using f by simp
  have f1: "suf = [] \<Longrightarrow> ?f = 1" by (simp add: suffix_val_def)
  have ne: "ds @ suf \<noteq> []" using ds(1) by simp
  have val: "?s * dec_val ds * ?f = ?s * (dec_val ds * ?f)" by (simp only: mult.assoc)
  have wr: "in_range w (?s * (dec_val ds * ?f)) \<Longrightarrow> wrap w (?s * (dec_val ds * ?f)) = ?s * (dec_val ds * ?f)"
    by (simp add: wrap_id in_range_def)
  note eqs = str_to_num_def trim andthen_simps num_base_decimal [OF d] prod.case num_sign_decimal [OF d]
    num_suffix_decimal [OF d] Let_def conv if_not_P [OF ne] val
  consider "?z = []" | "?z \<noteq> []" "\<not> in_range w (?s * dec_val ds)"
    | "?z \<noteq> []" "in_range w (?s * dec_val ds)" "suf = []"
    | "?z \<noteq> []" "in_range w (?s * dec_val ds)" "suf \<noteq> []" by blast
  then show ?thesis
  proof cases
    case 1
    then show ?thesis unfolding eqs using vz zero by (simp only: if_True mult_zero_left mult_zero_right simp_thms)
  next
    case 2
    then have "\<not> in_range w (?s * (dec_val ds * ?f))" using mono by blast
    then show ?thesis unfolding eqs if_not_P [OF 2(1)] if_not_P [OF 2(2)] prod.case by simp
  next
    case 3
    then show ?thesis unfolding eqs if_not_P [OF 3(1)] if_P [OF 3(2)] prod.case using f1 by simp
  next
    case 4
    show ?thesis unfolding eqs if_not_P [OF 4(1)] if_P [OF 4(2)] if_not_P [OF 4(3)] prod.case guard
      using nz wr by simp
  qed
qed

text \<open>The decimal text of an integer is one of these.\<close>

lemma decimal_int_text:
  "\<exists>sg ds. int_text v = sg @ ds @ [] \<and> decimal_text sg ds [] \<and> sign_val sg * dec_val ds = v"
proof -
  let ?ds = "nat_text (nat \<bar>v\<bar>)"
  have dg: "?ds \<noteq> []" "list_all isdigit ?ds" using nat_text_digits by auto
  have dv: "dec_val ?ds = \<bar>v\<bar>" by (simp add: dec_val_nat_text)
  show ?thesis
  proof (cases "v < 0")
    case True
    then have "int_text v = ''-'' @ ?ds @ []" by (simp add: int_text_def)
    then show ?thesis using True dg dv
      by (intro exI [of _ "''-''"] exI [of _ ?ds]) (simp add: decimal_text_def sign_val_def num_suffixes_def)
  next
    case False
    have "1 < length ?ds \<Longrightarrow> 0 < nat \<bar>v\<bar>" by (cases "v = 0") (simp_all add: nat_text.simps)
    then have "1 < length ?ds \<Longrightarrow> hd ?ds \<noteq> CHR ''0''" using nat_text_head by blast
    moreover have "int_text v = [] @ ?ds @ []" using False by (simp add: int_text_def)
    ultimately show ?thesis using False dg dv
      by (intro exI [of _ "[]"] exI [of _ ?ds]) (simp add: decimal_text_def sign_val_def num_suffixes_def)
  qed
qed

lemma nat_text_length: "n < 10 ^ Suc k \<Longrightarrow> length (nat_text n) \<le> Suc k"
proof (induction k arbitrary: n)
  case 0
  then show ?case by (simp add: nat_text.simps [of n])
next
  case (Suc k)
  then show ?case by (cases "n < 10") (simp_all add: nat_text.simps [of n])
qed

lemma int_text_length: "\<bar>v\<bar> < 10 ^ Suc k \<Longrightarrow> length (int_text v) \<le> k + 2"
  using nat_text_length [of "nat \<bar>v\<bar>" k] by (cases "v < 0") (simp_all add: int_text_def nat_less_iff)

lemma str_to_num_int_text:
  assumes "in_range w v" "\<bar>v\<bar> < 10 ^ 100"
  shows "str_to_num w mh (int_text v) = Inr (v, str_err_ok)"
proof -
  obtain sg ds where t: "int_text v = sg @ ds @ []" "decimal_text sg ds []" "sign_val sg * dec_val ds = v"
    using decimal_int_text by blast
  have "length (int_text v) < MAX_STRING_SIZE"
    using int_text_length [of v 99] assms(2) by (simp add: MAX_STRING_SIZE_def)
  then show ?thesis
    using str_to_num_decimal [OF t(2), of "[]" "[]" w mh] t(1,3) assms(1)
    by (simp add: suffix_val_def Let_def)
qed

section \<open>Properties\<close>

text \<open>C35: \<open>str_to_int\<close> and \<open>str_to_llint\<close> on a decimal number (a sign, digits, and one of the
  suffixes k, K, m, M, g, G, with white space around it, shorter than the work buffer): the result
  is the exact value times the suffix, and the range error exactly when that value does not fit
  the type.\<close>

theorem str_to_int_decimal:
  assumes "decimal_text sg ds suf" "list_all isspace l" "list_all isspace r"
    and "length (sg @ ds @ suf) < MAX_STRING_SIZE"
  shows "let str = l @ (sg @ ds @ suf) @ r; v = sign_val sg * dec_val ds * suffix_val suf
     in str_to_int str =
          (if - (2 ^ 31) \<le> v \<and> v < 2 ^ 31 then Inr (v, str_err_ok) else Inr (0, str_err_range)) \<and>
        str_to_llint str =
          (if - (2 ^ 63) \<le> v \<and> v < 2 ^ 63 then Inr (v, str_err_ok) else Inr (0, str_err_range))"
  using str_to_num_decimal [OF assms, of 32 8] str_to_num_decimal [OF assms, of 64 16]
  by (simp add: str_to_int_def str_to_llint_def Let_def in_range_def INT_MIN_def INT_MAX_def zle_diff1_eq)

theorem str_to_int_decimal_witness:
  "str_to_int ''  -20k '' = Inr (-20480, str_err_ok) \<and> str_to_int ''  -3G '' = Inr (0, str_err_range) \<and>
   str_to_llint ''  -3G '' = Inr (-3000000000, str_err_ok)"
proof -
  have d: "isdigit (CHR ''2'')" "isdigit (CHR ''0'')" "isdigit (CHR ''3'')" by code_simp+
  have sp: "list_all isspace ''  ''" "list_all isspace '' ''" by code_simp+
  have t: "decimal_text ''-'' ''20'' ''k''" "decimal_text ''-'' ''3'' ''G''"
    using d by (simp_all add: decimal_text_def num_suffixes_def)
  have v: "dec_val ''20'' = 20" "dec_val ''3'' = 3" by code_simp+
  show ?thesis
    using str_to_int_decimal [OF t(1) sp] str_to_int_decimal [OF t(2) sp]
    by (simp add: MAX_STRING_SIZE_def Let_def v sign_val_def suffix_val_def suffix_factor_def)
qed

text \<open>The decimal text of an \<open>int\<close> is read back by \<open>str_to_int\<close>, and that of a \<open>long long\<close> by
  \<open>str_to_llint\<close>, the least values of the types included.\<close>

theorem str_to_int_text:
  "(- (2 ^ 31) \<le> v \<and> v < 2 ^ 31 \<longrightarrow> str_to_int (int_text v) = Inr (v, str_err_ok)) \<and>
   (- (2 ^ 63) \<le> v \<and> v < 2 ^ 63 \<longrightarrow> str_to_llint (int_text v) = Inr (v, str_err_ok))"
proof -
  have "- (2 ^ 31) \<le> v \<Longrightarrow> v < 2 ^ 31 \<Longrightarrow> \<bar>v\<bar> < 10 ^ 100"
    "- (2 ^ 63) \<le> v \<Longrightarrow> v < 2 ^ 63 \<Longrightarrow> \<bar>v\<bar> < 10 ^ 100" by auto
  then show ?thesis
    using str_to_num_int_text [of 32 v 8] str_to_num_int_text [of 64 v 16]
    by (auto simp: str_to_int_def str_to_llint_def in_range_def INT_MIN_def INT_MAX_def)
qed

theorem str_to_int_text_witness:
  "str_to_int (int_text (-2147483648)) = Inr (-2147483648, str_err_ok)"
  using str_to_int_text [of "-2147483648"] by simp

text \<open>What \<open>str_to_int\<close> accepts beyond numbers: a suffix or a sign with a suffix and no digit is
  the number 0, an octal number that does not fit wraps around without an error (a decimal or
  hexadecimal one is refused), and a suffix after a leading zero is refused.\<close>

theorem str_to_int_accepts:
  "str_to_int ''k'' = Inr (0, str_err_ok) \<and> str_to_int ''+M'' = Inr (0, str_err_ok) \<and>
   str_to_int ''040000000000'' = Inr (0, str_err_ok) \<and> str_to_int ''4294967296'' = Inr (0, str_err_range) \<and>
   str_to_int ''0x100000000'' = Inr (0, str_err_range) \<and> str_to_int ''0k'' = Inr (0, str_err_format) \<and>
   str_to_int ''0x'' = Inr (0, str_err_format) \<and> str_to_int ''0xffffffff'' = Inr (-1, str_err_ok)"
  by (intro conjI; code_simp)

text \<open>\<open>str_trim\<close> copies the string without the white space at its ends, as much of it as fits;
  its assertions hold for every string.\<close>

theorem str_trim_strips:
  "str_trim sz src = (if sz < 1 then Inl Panic else Inr (take (nat (sz - 1)) (strip src)))"
  using str_trim_eq [of sz src] by (simp add: str_trim_def)

text \<open>\<open>str_single_spaces\<close> leaves the words of the string with single spaces between them, as much
  of that as fits; a string cut after a space ends with the space.\<close>

theorem str_single_spaces_joins:
  "str_single_spaces dest sz src =
     (if sz < 1 then dest else take (sz - 1) (join '' '' (pieces isspace src))) \<and>
   str_single_spaces dest 3 ''a b'' = ''a ''"
proof -
  have "str_single_spaces dest 3 ''a b'' = str_single_spaces [] 3 ''a b''" by (simp add: str_single_spaces_def)
  also have "\<dots> = ''a ''" by code_simp
  finally show ?thesis using str_single_spaces_eq [of sz dest src] by (simp add: str_single_spaces_def)
qed

text \<open>\<open>str_map_flags\<close> prints the names of the flags set, from the least bit up, separated by bars
  and in braces, as much of it as fits the buffer.\<close>

theorem str_map_flags_joins:
  "str_map_flags m flags sz = take (nat (sz - 1))
     (''{'' @ join ''|'' (map (\<lambda>i. str_map_value_buf m (sint (push_bit i (1 :: 32 word))) MAX_STRING_SIZE)
                          (filter (bit flags) [0..<32])) @ ''}'')"
  using str_map_flags_eq [of m flags sz] by (simp only: flag_names_def)

text \<open>A token list holds the pieces of the string between the delimiters that are not empty;
  \<open>str_token_list_first\<close> and \<open>str_token_list_shift\<close> are its head and the head of the rest (the empty
  string when there is none), and \<open>str_token_list_find\<close> gives the first position of a token or \<open>-1\<close>,
  with or without regard to case.\<close>

theorem str_token_list_splits:
  "let l = str_token_list_create s delim; ts = pieces (\<lambda>c. c \<in> set delim) s
   in list_contents l = map Some ts \<and>
      snd (str_token_list_first l) = Some (if ts = [] then [] else hd ts) \<and>
      list_contents (fst (str_token_list_shift l)) = map Some (tl ts) \<and>
      snd (str_token_list_shift l) = Some (if tl ts = [] then [] else hd (tl ts)) \<and>
      (\<exists>l'. str_token_list_find l token = Inr (l', token_index (\<lambda>t. token = t) ts) \<and>
            list_contents l' = map Some ts) \<and>
      (\<exists>l'. str_token_list_find_case l token =
              Inr (l', token_index (\<lambda>t. map tolower token = map tolower t) ts) \<and>
            list_contents l' = map Some ts)"
proof -
  note h = str_token_list_create_holds [of s delim]
  show ?thesis
    using h str_token_list_first_correct(2) [OF h] str_token_list_shift_correct [OF h]
      token_find_loop_correct [OF h, of 0 strcmp token] token_find_loop_correct [OF h, of 0 strcasecmp token]
    by (auto simp: Let_def token_list_holds_def str_token_list_find_def str_token_list_find_case_def)
qed

text \<open>A number written in base 62 is read back modulo the digits that fit; seven bytes hold
  every 32-bit number.\<close>

theorem str_alnum_roundtrip:
  assumes "1 \<le> sz"
  shows "unat (str_alnum_to_int (Some (str_int_to_alnum dest sz v))) = unat v mod 62 ^ (sz - 1) \<and>
    (7 \<le> sz \<longrightarrow> str_alnum_to_int (Some (str_int_to_alnum dest sz v)) = v)"
proof (intro conjI impI)
  let ?ds = "alnum_digits (sz - 1) v"
  have "str_alnum_to_int (Some (str_int_to_alnum dest sz v)) = alnum_to_int_loop (rev ?ds) (length ?ds) 0 1"
    using assms by (simp add: str_alnum_to_int_def str_int_to_alnum_def mirror_loop_rev alnum_loop_eq)
  also have "\<dots> = of_nat (unat v mod 62 ^ (sz - 1))"
    using alnum_to_int_digits [of "sz - 1" v 0 1] by simp
  finally have eq: "str_alnum_to_int (Some (str_int_to_alnum dest sz v)) = of_nat (unat v mod 62 ^ (sz - 1))" .
  have less: "unat v < 2 ^ 32" using unsigned_less [of v, where 'a = nat] by simp
  have "unat v mod 62 ^ (sz - 1) < 2 ^ 32" using less mod_less_eq_dividend le_less_trans by blast
  then show m: "unat (str_alnum_to_int (Some (str_int_to_alnum dest sz v))) = unat v mod 62 ^ (sz - 1)"
    unfolding eq by (simp add: unsigned_of_nat take_bit_nat_eq_self)
  assume "7 \<le> sz"
  then have "(62 :: nat) ^ 6 \<le> 62 ^ (sz - 1)" by (intro power_increasing) simp_all
  then have "unat v < 62 ^ (sz - 1)" using less by simp
  then show "str_alnum_to_int (Some (str_int_to_alnum dest sz v)) = v" unfolding eq by simp
qed

theorem str_alnum_roundtrip_witness:
  "str_alnum_to_int (Some (str_int_to_alnum [] 8 4294967295)) = 4294967295"
  using str_alnum_roundtrip [of 8 "[]" 4294967295] by simp

text \<open>A string written to a file is read back with its null character and leaves the rest of the
  file, when the buffer has room for both; with less room the reader aborts. A negative length in
  the file is not refused: the reader then stores what is left of the file past the end of a
  shorter buffer.\<close>

theorem str_file_read_write:
  assumes "length s + 1 < 2 ^ 31"
  shows "str_read_from_file (str_write_to_file [] (Some s) @ rest) buf_size =
      (if int (length s) < buf_size then Inr (s @ [char_of (0 :: nat)], rest) else Inl Abort) \<and>
    (buf_size < int (length rest) \<and> 0 \<le> buf_size \<longrightarrow>
      str_read_from_file (nat_bytes 4 (2 ^ 32 - 1) @ rest) buf_size = Inl Segv)"
proof
  have "wrap 32 (int (length s + 1)) = int (length s + 1)"
    unfolding wrap_def using assms by (intro signed_take_bit_int_eq_self) auto
  then have "\<not> int (length s) < buf_size \<Longrightarrow>
      str_read_from_file (str_write_to_file [] (Some s) @ rest) buf_size = Inl Abort"
    using assms by (simp add: str_read_from_file_def str_write_to_file_def Let_def bytes_nat_bytes)
  then show "str_read_from_file (str_write_to_file [] (Some s) @ rest) buf_size =
      (if int (length s) < buf_size then Inr (s @ [char_of (0 :: nat)], rest) else Inl Abort)"
    using str_file_roundtrip [OF assms] by simp
  have "wrap 32 (4294967295) = -1" by (simp add: wrap_def)
  then show "buf_size < int (length rest) \<and> 0 \<le> buf_size \<longrightarrow>
      str_read_from_file (nat_bytes 4 (2 ^ 32 - 1) @ rest) buf_size = Inl Segv"
    by (simp add: str_read_from_file_def Let_def bytes_nat_bytes)
qed

theorem str_file_read_write_witness:
  "str_read_from_file (str_write_to_file [] (Some ''ab'') @ ''xyz'') 3 = Inr (''ab'' @ [char_of (0 :: nat)], ''xyz'') \<and>
   str_read_from_file (nat_bytes 4 (2 ^ 32 - 1) @ ''xyz'') 2 = Inl Segv"
  using str_file_read_write [of "''ab''" "''xyz''" 3] str_file_read_write [of "''ab''" "''xyz''" 2]
  by simp

end
