(* ===== verification/Mhandle.thy ===== *)
theory Mhandle
  imports CString
begin

unbundle bit_operations_syntax

text \<open>
  The memory handler of \<open>src/lib/mhandle/mhandle.c\<close>: an open-addressing hash table of the blocks
  that are allocated, with tombstones for removed entries, and guard bytes around each block that
  are checked when it is released.

  Addresses and sizes are 64-bit words, as pointers and \<open>unsigned long\<close> are on the host. The address
  that \<open>malloc\<close>, \<open>calloc\<close> or \<open>realloc\<close> of the C library returns is an argument of the operation
  (\<open>NULL\<close> when there is no memory). The contents of memory are a function from addresses to bytes.
  The memory of the table itself never runs out. The size of the table and the count of its items are
  not bounded here; they are \<open>int\<close> in the code, whose doubling would overflow with \<open>2 ^ 29\<close> live blocks.
  The contract of the C library's \<open>malloc\<close>, \<open>fresh_op\<close>, only says that a new block is none of those in use:
  its alignment is left out, so what is proved for all reachable states holds of aligned blocks
  too, while a state that is shown to be reachable may need addresses that are not aligned.

  A search of the table may not end; an operation therefore returns an option of a run, and \<open>None\<close>
  is an operation that does not return. The text of the message before an \<open>abort\<close> is not modelled.
\<close>

section \<open>State\<close>

type_synonym addr = "64 word"

definition MHANDLE_HASH_TABLE_SIZE :: nat where "MHANDLE_HASH_TABLE_SIZE = 1000"

definition MHANDLE_MARK_END :: "8 word" where "MHANDLE_MARK_END = 0xa5"

definition MHANDLE_MARK_START :: "8 word" where "MHANDLE_MARK_START = 0x5a"

definition MHANDLE_CORRUPT_RANGE :: "64 word" where "MHANDLE_CORRUPT_RANGE = 2"

definition MHANDLE_CORRUPT_TOTAL :: "64 word" where "MHANDLE_CORRUPT_TOTAL = 2 * MHANDLE_CORRUPT_RANGE"

record mhandle_item_t =
  it_ptr :: addr
  it_size :: "64 word"
  it_at :: string
  it_removed :: bool
  it_active :: bool
  it_corrupt_info :: bool

text \<open>An item as \<open>calloc\<close> leaves it.\<close>

definition zero_item :: mhandle_item_t where
  "zero_item = \<lparr>it_ptr = 0, it_size = 0, it_at = [], it_removed = False, it_active = False, it_corrupt_info = False\<rparr>"

text \<open>The static variables and the memory; \<open>mhandle_hash_table_size\<close> is the length of the table.\<close>

record mhandle_t =
  mhandle_initialized :: bool
  mhandle_mem_used :: "64 word"
  mhandle_hash_table :: "mhandle_item_t list"
  mhandle_hash_table_count :: int
  memory_bytes :: "addr \<Rightarrow> 8 word"

definition mhandle_start :: "(addr \<Rightarrow> 8 word) \<Rightarrow> mhandle_t" where
  "mhandle_start bytes = \<lparr>mhandle_initialized = False, mhandle_mem_used = 0, mhandle_hash_table = [],
     mhandle_hash_table_count = 0, memory_bytes = bytes\<rparr>"

abbreviation item_live :: "mhandle_item_t \<Rightarrow> bool" where
  "item_live it \<equiv> it_active it \<and> \<not> it_removed it"

section \<open>The table\<close>

definition mhandle_init :: "mhandle_t \<Rightarrow> mhandle_t" where
  "mhandle_init st =
     (if mhandle_initialized st then st
      else st\<lparr>mhandle_initialized := True,
              mhandle_hash_table := replicate MHANDLE_HASH_TABLE_SIZE zero_item,
              mhandle_hash_table_count := 0\<rparr>)"

text \<open>The loop of \<open>mhandle_hash_table_insert\<close> that finds a position.\<close>

partial_function (option) insert_loop :: "mhandle_item_t list \<Rightarrow> nat \<Rightarrow> nat option" where
  "insert_loop ht index =
     (if it_active (ht ! index) \<and> \<not> it_removed (ht ! index)
      then insert_loop ht ((index + 1) mod length ht)
      else Some index)"

text \<open>The loop of \<open>mhandle_hash_table_grow\<close>; \<open>ins\<close> is the recursive call of the insertion.\<close>

primrec grow_loop ::
  "(mhandle_t \<Rightarrow> addr \<Rightarrow> 64 word \<Rightarrow> string \<Rightarrow> bool \<Rightarrow> mhandle_t run option) \<Rightarrow>
   mhandle_item_t list \<Rightarrow> mhandle_t \<Rightarrow> mhandle_t run option" where
  "grow_loop ins [] st = ret st"
| "grow_loop ins (it # old_ht) st =
     (if it_active it \<and> \<not> it_removed it
      then
        bindr (ins (st\<lparr>mhandle_hash_table_count := mhandle_hash_table_count st - 1,
                          mhandle_mem_used := mhandle_mem_used st - it_size it\<rparr>)
                 (it_ptr it) (it_size it) (it_at it) (it_corrupt_info it))
          (grow_loop ins old_ht)
      else grow_loop ins old_ht st)"

definition mhandle_hash_table_grow ::
  "(mhandle_t \<Rightarrow> addr \<Rightarrow> 64 word \<Rightarrow> string \<Rightarrow> bool \<Rightarrow> mhandle_t run option) \<Rightarrow>
   mhandle_t \<Rightarrow> mhandle_t run option" where
  "mhandle_hash_table_grow ins st =
     (let old_ht = mhandle_hash_table st
      in grow_loop ins old_ht
           (st\<lparr>mhandle_hash_table := replicate (length old_ht * 2) zero_item\<rparr>))"

text \<open>The insertion and the growth call each other; the first argument bounds the nesting of the
  calls, and two levels are enough for every state the program reaches.\<close>

primrec hash_table_insert_at ::
  "nat \<Rightarrow> mhandle_t \<Rightarrow> addr \<Rightarrow> 64 word \<Rightarrow> string \<Rightarrow> bool \<Rightarrow> mhandle_t run option" where
  "hash_table_insert_at 0 st ptr sz at corrupt_info = None"
| "hash_table_insert_at (Suc depth) st ptr sz at corrupt_info =
     bindr
       (if int (length (mhandle_hash_table st) div 2) \<le> mhandle_hash_table_count st
        then mhandle_hash_table_grow (hash_table_insert_at depth) st
        else ret st)
       (\<lambda>st.
         let ht = mhandle_hash_table st
         in if length ht = 0 then stops Div_zero
            else
              (case insert_loop ht (unat ptr mod length ht) of
                 None \<Rightarrow> None
               | Some index \<Rightarrow>
                   ret (st\<lparr>mhandle_hash_table := ht[index :=
                             \<lparr>it_ptr = ptr, it_size = sz, it_at = at, it_removed = False,
                              it_active = True, it_corrupt_info = corrupt_info\<rparr>],
                            mhandle_mem_used := mhandle_mem_used st + sz,
                            mhandle_hash_table_count := mhandle_hash_table_count st + 1\<rparr>)))"

declare hash_table_insert_at.simps(2) [simp del]

definition mhandle_hash_table_insert ::
  "mhandle_t \<Rightarrow> addr \<Rightarrow> 64 word \<Rightarrow> string \<Rightarrow> bool \<Rightarrow> mhandle_t run option" where
  "mhandle_hash_table_insert = hash_table_insert_at 2"

partial_function (option) get_loop :: "mhandle_item_t list \<Rightarrow> addr \<Rightarrow> nat \<Rightarrow> nat ptr option" where
  "get_loop ht ptr idx =
     (if it_ptr (ht ! idx) \<noteq> ptr \<or> \<not> it_active (ht ! idx) \<or> it_removed (ht ! idx)
      then if \<not> it_active (ht ! idx) then Some NULL
           else get_loop ht ptr ((idx + 1) mod length ht)
      else Some (Some idx))"

text \<open>A pointer to an item is its index.\<close>

definition mhandle_hash_table_get :: "mhandle_t \<Rightarrow> addr \<Rightarrow> nat ptr run option" where
  "mhandle_hash_table_get st ptr =
     (let ht = mhandle_hash_table st
      in if length ht = 0 then stops Div_zero
         else map_option Inr (get_loop ht ptr (unat ptr mod length ht)))"

definition mhandle_hash_table_remove :: "mhandle_t \<Rightarrow> addr \<Rightarrow> string \<Rightarrow> (mhandle_t \<times> 64 word) run option" where
  "mhandle_hash_table_remove st ptr at =
     bindr (mhandle_hash_table_get st ptr) (\<lambda>item.
       case item of
         None \<Rightarrow> stops Abort
       | Some idx \<Rightarrow>
           let it = mhandle_hash_table st ! idx
           in ret (st\<lparr>mhandle_hash_table := (mhandle_hash_table st)[idx := it\<lparr>it_removed := True\<rparr>],
                       mhandle_mem_used := mhandle_mem_used st - it_size it,
                       mhandle_hash_table_count := mhandle_hash_table_count st - 1\<rparr>,
                    it_size it))"

section \<open>Guard bytes\<close>

definition mhandle_mark_corrupt :: "(addr \<Rightarrow> 8 word) \<Rightarrow> addr \<Rightarrow> 64 word \<Rightarrow> addr \<Rightarrow> 8 word" where
  "mhandle_mark_corrupt bytes eff_ptr eff_size =
     bytes(eff_ptr := MHANDLE_MARK_START, eff_ptr + 1 := MHANDLE_MARK_START,
           eff_ptr + (eff_size - MHANDLE_CORRUPT_RANGE) := MHANDLE_MARK_END,
           eff_ptr + (eff_size - MHANDLE_CORRUPT_RANGE + 1) := MHANDLE_MARK_END)"

definition mhandle_check_corrupt :: "mhandle_t \<Rightarrow> addr \<Rightarrow> 64 word \<Rightarrow> unit run option" where
  "mhandle_check_corrupt st eff_ptr eff_size =
     (let bytes = memory_bytes st;
          sz = eff_size - MHANDLE_CORRUPT_TOTAL
      in if \<not> 0 < sz then stops Assert
         else if bytes eff_ptr \<noteq> MHANDLE_MARK_START \<or> bytes (eff_ptr + 1) \<noteq> MHANDLE_MARK_START \<or>
                 bytes (eff_ptr + (eff_size - MHANDLE_CORRUPT_RANGE)) \<noteq> MHANDLE_MARK_END \<or>
                 bytes (eff_ptr + (eff_size - MHANDLE_CORRUPT_RANGE + 1)) \<noteq> MHANDLE_MARK_END
         then stops Abort
         else ret ())"

text \<open>\<open>memset\<close> and \<open>memcpy\<close> of \<open>n\<close> bytes.\<close>

primrec bytes_fill :: "nat \<Rightarrow> addr \<Rightarrow> (addr \<Rightarrow> 8 word) \<Rightarrow> addr \<Rightarrow> 8 word" where
  "bytes_fill 0 p bytes = bytes"
| "bytes_fill (Suc n) p bytes = bytes_fill n (p + 1) (bytes(p := 0))"

primrec bytes_store :: "8 word list \<Rightarrow> addr \<Rightarrow> (addr \<Rightarrow> 8 word) \<Rightarrow> addr \<Rightarrow> 8 word" where
  "bytes_store [] p bytes = bytes"
| "bytes_store (b # bs) p bytes = bytes_store bs (p + 1) (bytes(p := b))"

section \<open>Public functions\<close>

definition mhandle_free :: "mhandle_t \<Rightarrow> addr \<Rightarrow> string \<Rightarrow> mhandle_t run option" where
  "mhandle_free st ptr at =
     (if ptr = 0 then ret st
      else
        let st = mhandle_init st
        in bindr (mhandle_hash_table_get st ptr) (\<lambda>item.
             case item of
               None \<Rightarrow> stops Abort
             | Some idx \<Rightarrow>
                 let it = mhandle_hash_table st ! idx
                 in bindr
                      (if it_corrupt_info it then
                         let eff_ptr = ptr - MHANDLE_CORRUPT_RANGE;
                             eff_size = it_size it + MHANDLE_CORRUPT_TOTAL
                         in bindr (mhandle_check_corrupt st eff_ptr eff_size) (\<lambda>_.
                              ret (st\<lparr>memory_bytes := bytes_fill (unat eff_size) eff_ptr (memory_bytes st)\<rparr>))
                       else
                         ret (st\<lparr>memory_bytes := bytes_fill (unat (it_size it)) ptr (memory_bytes st)\<rparr>))
                      (\<lambda>st. bindr (mhandle_hash_table_remove st ptr at) (\<lambda>(st, _). ret st))))"

text \<open>\<open>got\<close> is what \<open>malloc\<close> returns.\<close>

definition mhandle_malloc :: "mhandle_t \<Rightarrow> 64 word \<Rightarrow> string \<Rightarrow> addr ptr \<Rightarrow> (mhandle_t \<times> addr) run option" where
  "mhandle_malloc st sz at got =
     (let st = mhandle_init st;
          eff_size = sz + MHANDLE_CORRUPT_TOTAL
      in case got of
           None \<Rightarrow> stops Abort
         | Some eff_ptr \<Rightarrow>
             let ptr = eff_ptr + MHANDLE_CORRUPT_RANGE;
                 st = st\<lparr>memory_bytes := mhandle_mark_corrupt (memory_bytes st) eff_ptr eff_size\<rparr>
             in bindr (mhandle_hash_table_insert st ptr sz at True) (\<lambda>st. ret (st, ptr)))"

definition mhandle_calloc ::
  "mhandle_t \<Rightarrow> 64 word \<Rightarrow> 64 word \<Rightarrow> string \<Rightarrow> addr ptr \<Rightarrow> (mhandle_t \<times> addr) run option" where
  "mhandle_calloc st nmemb sz at got =
     (let st = mhandle_init st;
          total = nmemb * sz;
          eff_total = total + MHANDLE_CORRUPT_TOTAL
      in case got of
           None \<Rightarrow> stops Abort
         | Some eff_ptr \<Rightarrow>
             let ptr = eff_ptr + MHANDLE_CORRUPT_RANGE;
                 bytes = bytes_fill (unat eff_total) eff_ptr (memory_bytes st);
                 st = st\<lparr>memory_bytes := mhandle_mark_corrupt bytes eff_ptr eff_total\<rparr>
             in bindr (mhandle_hash_table_insert st ptr total at True) (\<lambda>st. ret (st, ptr)))"

text \<open>\<open>realloc\<close> of the C library moves the bytes of the old block that fit to the address \<open>got\<close>; the
  old block has the size with which it was allocated.\<close>

definition mhandle_realloc ::
  "mhandle_t \<Rightarrow> addr \<Rightarrow> 64 word \<Rightarrow> string \<Rightarrow> addr ptr \<Rightarrow> (mhandle_t \<times> addr) run option" where
  "mhandle_realloc st ptr sz at got =
     (if ptr = 0 then mhandle_malloc st sz at got
      else if sz = 0 then bindr (mhandle_free st ptr at) (\<lambda>st. ret (st, 0))
      else
        let st = mhandle_init st
        in bindr (mhandle_hash_table_get st ptr) (\<lambda>item.
             case item of
               None \<Rightarrow> stops Abort
             | Some idx \<Rightarrow>
                 let it = mhandle_hash_table st ! idx
                 in if \<not> it_corrupt_info it then stops Abort
                    else
                      let eff_ptr = ptr - MHANDLE_CORRUPT_RANGE;
                          old_size = it_size it + MHANDLE_CORRUPT_TOTAL
                      in bindr (mhandle_check_corrupt st eff_ptr old_size) (\<lambda>_.
                         bindr (mhandle_hash_table_remove st ptr at) (\<lambda>(st, _).
                           let eff_size = sz + MHANDLE_CORRUPT_TOTAL
                           in case got of
                                None \<Rightarrow> stops Abort
                              | Some new_ptr \<Rightarrow>
                                  let kept = min (unat old_size) (unat eff_size);
                                      moved = map (\<lambda>i. memory_bytes st (eff_ptr + of_nat i)) [0..<kept];
                                      bytes = bytes_store moved new_ptr (memory_bytes st);
                                      ptr = new_ptr + MHANDLE_CORRUPT_RANGE;
                                      st = st\<lparr>memory_bytes := mhandle_mark_corrupt bytes new_ptr eff_size\<rparr>
                                  in bindr (mhandle_hash_table_insert st ptr sz at True)
                                       (\<lambda>st. ret (st, ptr))))))"

text \<open>The bytes of a string with its null character.\<close>

definition string_bytes :: "string \<Rightarrow> 8 word list" where
  "string_bytes s = map (\<lambda>c. of_nat (char_code c)) s @ [0]"

definition mhandle_strdup :: "mhandle_t \<Rightarrow> string \<Rightarrow> string \<Rightarrow> addr ptr \<Rightarrow> (mhandle_t \<times> addr) run option" where
  "mhandle_strdup st s at got =
     (let st = mhandle_init st;
          sz = of_nat (length s) + 1;
          eff_size = sz + MHANDLE_CORRUPT_TOTAL
      in case got of
           None \<Rightarrow> stops Abort
         | Some eff_ptr \<Rightarrow>
             let ptr = eff_ptr + MHANDLE_CORRUPT_RANGE;
                 bytes = bytes_store (string_bytes s) ptr (memory_bytes st);
                 st = st\<lparr>memory_bytes := mhandle_mark_corrupt bytes eff_ptr eff_size\<rparr>
             in bindr (mhandle_hash_table_insert st ptr sz at True) (\<lambda>st. ret (st, ptr)))"

text \<open>The blocks reported as not freed, and the summary: their number and bytes.\<close>

definition mhandle_done :: "mhandle_t \<Rightarrow> (mhandle_t \<times> string list \<times> (int \<times> 64 word) option) run option" where
  "mhandle_done st =
     (let warnings = map it_at (filter (\<lambda>it. it_active it \<and> \<not> it_removed it) (mhandle_hash_table st));
          summary = (if mhandle_hash_table_count st \<noteq> 0
                     then Some (mhandle_hash_table_count st, mhandle_mem_used st) else None)
      in if mhandle_hash_table_count st = 0 \<and> mhandle_mem_used st \<noteq> 0 then stops Assert
         else ret (st\<lparr>mhandle_initialized := False, mhandle_mem_used := 0,
                       mhandle_hash_table_count := 0, mhandle_hash_table := []\<rparr>, warnings, summary))"

text \<open>The loop over the table, with the number of blocks checked.\<close>

primrec check_items :: "mhandle_t \<Rightarrow> mhandle_item_t list \<Rightarrow> int \<Rightarrow> int run option" where
  "check_items st [] n = ret n"
| "check_items st (it # ht) n =
     (if it_active it \<and> \<not> it_removed it \<and> it_corrupt_info it
      then bindr (mhandle_check_corrupt st (it_ptr it - MHANDLE_CORRUPT_RANGE) (it_size it + MHANDLE_CORRUPT_TOTAL))
             (\<lambda>_. check_items st ht (n + 1))
      else check_items st ht n)"

definition mhandle_check :: "mhandle_t \<Rightarrow> int run option" where
  "mhandle_check st = check_items st (mhandle_hash_table st) 0"

definition mhandle_check_ptr :: "mhandle_t \<Rightarrow> addr \<Rightarrow> mhandle_t run option" where
  "mhandle_check_ptr st ptr =
     (if ptr = 0 then ret st
      else
        let st = mhandle_init st
        in bindr (mhandle_hash_table_get st ptr) (\<lambda>item.
             case item of
               None \<Rightarrow> stops Abort
             | Some idx \<Rightarrow>
                 let it = mhandle_hash_table st ! idx
                 in if it_corrupt_info it
                    then bindr (mhandle_check_corrupt st (ptr - MHANDLE_CORRUPT_RANGE)
                                  (it_size it + MHANDLE_CORRUPT_TOTAL)) (\<lambda>_. ret st)
                    else ret st))"

definition mhandle_used_memory :: "mhandle_t \<Rightarrow> 64 word" where
  "mhandle_used_memory st = mhandle_mem_used st"

definition mhandle_register_ptr :: "mhandle_t \<Rightarrow> addr \<Rightarrow> 64 word \<Rightarrow> string \<Rightarrow> mhandle_t run option" where
  "mhandle_register_ptr st ptr sz at = mhandle_hash_table_insert st ptr sz at False"

text \<open>The wrappers that only check the result of the C library.\<close>

definition xmalloc :: "(64 word \<Rightarrow> addr ptr) \<Rightarrow> 64 word \<Rightarrow> string \<Rightarrow> addr run" where
  "xmalloc malloc sz at = (case malloc sz of None \<Rightarrow> Inl Abort | Some p \<Rightarrow> Inr p)"

definition xcalloc :: "(64 word \<Rightarrow> 64 word \<Rightarrow> addr ptr) \<Rightarrow> 64 word \<Rightarrow> 64 word \<Rightarrow> string \<Rightarrow> addr run" where
  "xcalloc calloc nmemb sz at = (case calloc nmemb sz of None \<Rightarrow> Inl Abort | Some p \<Rightarrow> Inr p)"

definition xrealloc :: "(addr \<Rightarrow> 64 word \<Rightarrow> addr ptr) \<Rightarrow> addr \<Rightarrow> 64 word \<Rightarrow> string \<Rightarrow> addr run" where
  "xrealloc realloc ptr sz at = (case realloc ptr sz of None \<Rightarrow> Inl Abort | Some p \<Rightarrow> Inr p)"

definition xstrdup :: "(string \<Rightarrow> addr ptr) \<Rightarrow> string \<Rightarrow> string \<Rightarrow> addr run" where
  "xstrdup strdup s at = (case strdup s of None \<Rightarrow> Inl Abort | Some p \<Rightarrow> Inr p)"

section \<open>What the table tracks\<close>

text \<open>The size, the place and the guard flag of the block at an address.\<close>

type_synonym block_info = "64 word \<times> string \<times> bool"

definition item_info :: "mhandle_item_t \<Rightarrow> block_info" where
  "item_info it = (it_size it, it_at it, it_corrupt_info it)"

abbreviation live_items :: "mhandle_item_t list \<Rightarrow> mhandle_item_t list" where
  "live_items ht \<equiv> filter item_live ht"

definition tracked :: "mhandle_item_t list \<Rightarrow> addr \<Rightarrow> block_info option" where
  "tracked ht = map_of (map (\<lambda>it. (it_ptr it, item_info it)) (live_items ht))"

lemma tracked_simps [simp]:
  "tracked [] = Map.empty"
  "tracked (it # ht) = (if item_live it then (tracked ht)(it_ptr it \<mapsto> item_info it) else tracked ht)"
  by (simp_all add: tracked_def)

definition home :: "mhandle_item_t list \<Rightarrow> addr \<Rightarrow> nat" where
  "home ht p = unat p mod length ht"

text \<open>Every live item is reached from the position its address hashes to over active items, and no
  two live items have the same address.\<close>

definition reached :: "mhandle_item_t list \<Rightarrow> nat \<Rightarrow> bool" where
  "reached ht j \<longleftrightarrow>
     (\<exists>d < length ht. (home ht (it_ptr (ht ! j)) + d) mod length ht = j \<and>
        (\<forall>k < d. it_active (ht ! ((home ht (it_ptr (ht ! j)) + k) mod length ht))))"

definition table_ok :: "mhandle_item_t list \<Rightarrow> bool" where
  "table_ok ht \<longleftrightarrow> ht \<noteq> [] \<and> distinct (map it_ptr (live_items ht)) \<and>
     (\<forall>j < length ht. item_live (ht ! j) \<longrightarrow> reached ht j)"

lemma filter_update_in:
  assumes "j < length xs" "\<not> P (xs ! j)" "P x"
  shows "\<exists>a b. filter P xs = a @ b \<and> filter P (xs[j := x]) = a @ x # b"
proof -
  have "xs = take j xs @ xs ! j # drop (Suc j) xs" using assms(1) by (simp add: id_take_nth_drop)
  then have "filter P xs = filter P (take j xs) @ filter P (drop (Suc j) xs)"
    using assms(2) by (metis filter.simps(2) filter_append)
  moreover have "filter P (xs[j := x]) = filter P (take j xs) @ x # filter P (drop (Suc j) xs)"
    using assms(1,3) by (simp add: upd_conv_take_nth_drop)
  ultimately show ?thesis by blast
qed

lemma filter_update_out:
  assumes "j < length xs" "P (xs ! j)" "\<not> P y"
  shows "\<exists>a b. filter P xs = a @ xs ! j # b \<and> filter P (xs[j := y]) = a @ b"
  using filter_update_in [of j "xs[j := y]" P "xs ! j"] assms by auto

lemma tracked_iff:
  assumes "distinct (map it_ptr (live_items ht))"
  shows "tracked ht p = Some i \<longleftrightarrow> (\<exists>j < length ht. item_live (ht ! j) \<and> it_ptr (ht ! j) = p \<and> item_info (ht ! j) = i)"
proof -
  have "distinct (map fst (map (\<lambda>it. (it_ptr it, item_info it)) (live_items ht)))"
    using assms by (simp add: comp_def)
  then have "tracked ht p = Some i \<longleftrightarrow> (p, i) \<in> set (map (\<lambda>it. (it_ptr it, item_info it)) (live_items ht))"
    unfolding tracked_def by (rule map_of_eq_Some_iff)
  also have "\<dots> \<longleftrightarrow> (\<exists>it \<in> set ht. item_live it \<and> it_ptr it = p \<and> item_info it = i)" by auto
  finally show ?thesis by (metis in_set_conv_nth)
qed

lemma tracked_None: "tracked ht p = None \<longleftrightarrow> (\<forall>j < length ht. \<not> (item_live (ht ! j) \<and> it_ptr (ht ! j) = p))"
proof -
  have "tracked ht p = None \<longleftrightarrow> (\<forall>it \<in> set ht. \<not> (item_live it \<and> it_ptr it = p))"
    by (auto simp: tracked_def map_of_eq_None_iff image_image)
  then show ?thesis by (simp only: all_set_conv_all_nth)
qed

lemma live_unique:
  assumes "distinct (map it_ptr (live_items ht))" "i < length ht" "j < length ht"
    and "item_live (ht ! i)" "item_live (ht ! j)" "it_ptr (ht ! i) = it_ptr (ht ! j)"
  shows "i = j"
proof (rule ccontr)
  assume "i \<noteq> j"
  have "\<not> item_live zero_item" by (simp add: zero_item_def)
  then obtain a b where ab: "live_items ht = a @ ht ! i # b" "live_items (ht[i := zero_item]) = a @ b"
    using filter_update_out [of i ht item_live zero_item] assms by blast
  have "ht ! j \<in> set (live_items (ht[i := zero_item]))"
    using assms(3,5) \<open>i \<noteq> j\<close> 
    by (auto simp: in_set_conv_nth intro!: exI [of _ j])
  then have "it_ptr (ht ! i) \<in> it_ptr ` set (a @ b)" using ab(2) assms(6) by (metis image_eqI)
  then show False using assms(1) ab(1) by auto
qed

section \<open>Searching\<close>

lemma step_mod: "idx < n \<Longrightarrow> (idx + Suc d) mod n = ((idx + 1) mod n + d) mod (n :: nat)"
  by (simp add: mod_simps)

lemma get_loop_run:
  assumes "idx < length ht"
    and "\<And>k. k < d \<Longrightarrow> it_active (ht ! ((idx + k) mod length ht)) \<and>
      \<not> (item_live (ht ! ((idx + k) mod length ht)) \<and> it_ptr (ht ! ((idx + k) mod length ht)) = p)"
  shows "get_loop ht p idx = get_loop ht p ((idx + d) mod length ht)"
  using assms
proof (induction d arbitrary: idx)
  case (Suc d)
  have "get_loop ht p idx = get_loop ht p ((idx + 1) mod length ht)"
    using Suc.prems(1) Suc.prems(2) [of 0] by (subst get_loop.simps) auto
  also have "\<dots> = get_loop ht p (((idx + 1) mod length ht + d) mod length ht)"
  proof (rule Suc.IH)
    show "(idx + 1) mod length ht < length ht" using Suc.prems(1) by (intro mod_less_divisor) auto
    show "it_active (ht ! (((idx + 1) mod length ht + k) mod length ht)) \<and>
      \<not> (item_live (ht ! (((idx + 1) mod length ht + k) mod length ht)) \<and>
         it_ptr (ht ! (((idx + 1) mod length ht + k) mod length ht)) = p)" if "k < d" for k
      using Suc.prems(2) [of "Suc k"] step_mod [OF Suc.prems(1), of k] that by simp
  qed
  finally show ?case using step_mod [OF Suc.prems(1)] by simp
qed simp

lemma insert_loop_run:
  assumes "idx < length ht" and "\<And>k. k < d \<Longrightarrow> item_live (ht ! ((idx + k) mod length ht))"
  shows "insert_loop ht idx = insert_loop ht ((idx + d) mod length ht)"
  using assms
proof (induction d arbitrary: idx)
  case (Suc d)
  have "insert_loop ht idx = insert_loop ht ((idx + 1) mod length ht)"
    using Suc.prems(1) Suc.prems(2) [of 0] by (subst insert_loop.simps) auto
  also have "\<dots> = insert_loop ht (((idx + 1) mod length ht + d) mod length ht)"
  proof (rule Suc.IH)
    show "(idx + 1) mod length ht < length ht" using Suc.prems(1) by (intro mod_less_divisor) auto
    show "item_live (ht ! (((idx + 1) mod length ht + k) mod length ht))" if "k < d" for k
      using Suc.prems(2) [of "Suc k"] step_mod [OF Suc.prems(1), of k] that by simp
  qed
  finally show ?case using step_mod [OF Suc.prems(1)] by simp
qed simp

text \<open>The first position from \<open>idx\<close> on, around the ring, that satisfies \<open>P\<close>.\<close>

lemma first_around:
  assumes "idx < n" "j < (n :: nat)" "P j"
  shows "\<exists>d < n. P ((idx + d) mod n) \<and> (\<forall>k < d. \<not> P ((idx + k) mod n))"
proof -
  have "(idx + (j + n - idx) mod n) mod n = (idx + (j + n - idx)) mod n" by (simp add: mod_simps)
  also have "\<dots> = j" using assms by simp
  finally have e: "P ((idx + (j + n - idx) mod n) mod n)" using assms(3) by simp
  define d where "d = (LEAST d. P ((idx + d) mod n))"
  have Pd: "P ((idx + d) mod n)" unfolding d_def by (rule LeastI [of "\<lambda>d. P ((idx + d) mod n)", OF e])
  have min: "\<not> P ((idx + k) mod n)" if "k < d" for k using that not_less_Least unfolding d_def by blast
  have "d \<le> (j + n - idx) mod n" unfolding d_def by (rule Least_le [of "\<lambda>d. P ((idx + d) mod n)", OF e])
  also have "\<dots> < n" using assms(1) by (intro mod_less_divisor) simp
  finally show ?thesis using Pd min by blast
qed

lemma get_loop_live:
  assumes ok: "table_ok ht" and j: "j < length ht" "item_live (ht ! j)"
  shows "get_loop ht (it_ptr (ht ! j)) (home ht (it_ptr (ht ! j))) = Some (Some j)"
proof -
  let ?p = "it_ptr (ht ! j)" and ?h = "home ht (it_ptr (ht ! j))"
  have h: "?h < length ht" using j(1) unfolding home_def by (intro mod_less_divisor) auto
  have dist: "distinct (map it_ptr (live_items ht))" and "reached ht j" using ok j by (auto simp: table_ok_def)
  then obtain d where d: "d < length ht" "(?h + d) mod length ht = j"
      "\<forall>k < d. it_active (ht ! ((?h + k) mod length ht))" unfolding reached_def by blast
  have "get_loop ht ?p ?h = get_loop ht ?p ((?h + d) mod length ht)"
  proof (rule get_loop_run [OF h])
    fix k assume k: "k < d"
    have "(?h + k) mod length ht \<noteq> j"
      using mod_add_inj [of ?h k "length ht" d] d(1,2) k by auto
    moreover have "(?h + k) mod length ht < length ht" using j(1) by (intro mod_less_divisor) auto
    ultimately show "it_active (ht ! ((?h + k) mod length ht)) \<and>
        \<not> (item_live (ht ! ((?h + k) mod length ht)) \<and> it_ptr (ht ! ((?h + k) mod length ht)) = ?p)"
      using d(3) k live_unique [OF dist _ j(1) _ j(2)] by blast
  qed
  then show ?thesis using d(2) j(2) by (subst (asm) (2) get_loop.simps) simp
qed

lemma get_loop_absent:
  assumes "tracked ht p = None" "j < length ht" "\<not> it_active (ht ! j)"
  shows "get_loop ht p (home ht p) = Some NULL"
proof -
  have h: "home ht p < length ht" using assms(2) unfolding home_def by (intro mod_less_divisor) auto
  obtain d where d: "\<not> it_active (ht ! ((home ht p + d) mod length ht))"
      "\<forall>k < d. \<not> \<not> it_active (ht ! ((home ht p + k) mod length ht))"
    using first_around [OF h assms(2), of "\<lambda>i. \<not> it_active (ht ! i)"] assms(3) by blast
  have "get_loop ht p (home ht p) = get_loop ht p ((home ht p + d) mod length ht)"
  proof (rule get_loop_run [OF h])
    fix k assume "k < d"
    moreover have "(home ht p + k) mod length ht < length ht" using h by (intro mod_less_divisor) auto
    ultimately show "it_active (ht ! ((home ht p + k) mod length ht)) \<and>
        \<not> (item_live (ht ! ((home ht p + k) mod length ht)) \<and> it_ptr (ht ! ((home ht p + k) mod length ht)) = p)"
      using d(2) assms(1) unfolding tracked_None by blast
  qed
  then show ?thesis using d(1) by (subst (asm) (2) get_loop.simps) simp
qed

text \<open>With every item active, the search for an address that is not in the table never ends.\<close>

lemma get_loop_hangs:
  assumes "tracked ht p = None" "\<forall>j < length ht. it_active (ht ! j)" "idx < length ht"
  shows "get_loop ht p idx = None"
proof (rule ccontr)
  assume "get_loop ht p idx \<noteq> None"
  then obtain r where ret: "get_loop ht p idx = Some r" by blast
  let ?full = "\<lambda>ht p. tracked ht p = None \<and> (\<forall>j < length ht. it_active (ht ! j))"
  have "\<not> (?full ht p \<and> idx < length ht)"
  proof (rule get_loop.raw_induct [where P = "\<lambda>ht p idx r. \<not> (?full ht p \<and> idx < length ht)", OF _ ret])
    fix f ht p idx r
    assume IH: "\<And>ht p idx r. f ht p idx = Some r \<Longrightarrow> \<not> (?full ht p \<and> idx < length ht)"
      and eq: "(if it_ptr (ht ! idx) \<noteq> p \<or> \<not> it_active (ht ! idx) \<or> it_removed (ht ! idx)
        then if \<not> it_active (ht ! idx) then Some NULL else f ht p ((idx + 1) mod length ht)
        else Some (Some idx)) = Some r"
    show "\<not> (?full ht p \<and> idx < length ht)"
    proof
      assume a: "?full ht p \<and> idx < length ht"
      then have "it_active (ht ! idx)" "it_ptr (ht ! idx) \<noteq> p \<or> it_removed (ht ! idx)"
        unfolding tracked_None by blast+
      then have "f ht p ((idx + 1) mod length ht) = Some r" using eq by (auto split: if_splits)
      moreover have "(idx + 1) mod length ht < length ht" using a by (intro mod_less_divisor) auto
      ultimately show False using IH a by blast
    qed
  qed
  then show False using assms by blast
qed

section \<open>Insertion and removal\<close>

lemma insert_loop_free:
  assumes "p < length ht" "j < length ht" "\<not> item_live (ht ! j)"
  shows "\<exists>d < length ht. insert_loop ht p = Some ((p + d) mod length ht) \<and>
    \<not> item_live (ht ! ((p + d) mod length ht)) \<and> (\<forall>k < d. item_live (ht ! ((p + k) mod length ht)))"
proof -
  obtain d where d: "d < length ht" "\<not> item_live (ht ! ((p + d) mod length ht))"
      "\<forall>k < d. \<not> \<not> item_live (ht ! ((p + k) mod length ht))"
    using first_around [OF assms(1,2), of "\<lambda>i. \<not> item_live (ht ! i)"] assms(3) by blast
  have "insert_loop ht p = insert_loop ht ((p + d) mod length ht)"
    using d(3) by (intro insert_loop_run [OF assms(1)]) blast
  moreover have "insert_loop ht ((p + d) mod length ht) = Some ((p + d) mod length ht)"
    using d(2) by (subst insert_loop.simps) (simp only: if_False simp_thms)
  ultimately show ?thesis using d by metis
qed

lemma live_update_in:
  assumes "j < length ht" "\<not> item_live (ht ! j)" "item_live it" "tracked ht (it_ptr it) = None"
    and dist: "distinct (map it_ptr (live_items ht))"
  shows "distinct (map it_ptr (live_items (ht[j := it])))"
    and "tracked (ht[j := it]) = (tracked ht)(it_ptr it \<mapsto> item_info it)"
    and "length (live_items (ht[j := it])) = Suc (length (live_items ht))"
    and "(\<Sum>x \<leftarrow> live_items (ht[j := it]). it_size x) = (\<Sum>x \<leftarrow> live_items ht. it_size x) + it_size it"
proof -
  obtain a b where ab: "live_items ht = a @ b" "live_items (ht[j := it]) = a @ it # b"
    using filter_update_in [OF assms(1), of item_live it] assms(2,3) by blast
  have new: "it_ptr it \<notin> it_ptr ` set (a @ b)"
    using assms(4) ab(1) by (auto simp: tracked_def map_of_eq_None_iff image_image)
  then show "distinct (map it_ptr (live_items (ht[j := it])))" using dist ab by auto
  show "tracked (ht[j := it]) = (tracked ht)(it_ptr it \<mapsto> item_info it)"
    unfolding tracked_def ab map_append list.map using new
    by (intro map_of_insert_mid) (simp add: image_image image_Un)
  show "length (live_items (ht[j := it])) = Suc (length (live_items ht))"
    "(\<Sum>x \<leftarrow> live_items (ht[j := it]). it_size x) = (\<Sum>x \<leftarrow> live_items ht. it_size x) + it_size it"
    by (simp_all add: ab)
qed

lemma live_update_out:
  assumes "j < length ht" "item_live (ht ! j)" "\<not> item_live it"
    and dist: "distinct (map it_ptr (live_items ht))"
  shows "distinct (map it_ptr (live_items (ht[j := it])))"
    and "tracked (ht[j := it]) = (tracked ht)(it_ptr (ht ! j) := None)"
    and "length (live_items ht) = Suc (length (live_items (ht[j := it])))"
    and "(\<Sum>x \<leftarrow> live_items (ht[j := it]). it_size x) = (\<Sum>x \<leftarrow> live_items ht. it_size x) - it_size (ht ! j)"
proof -
  obtain a b where ab: "live_items ht = a @ ht ! j # b" "live_items (ht[j := it]) = a @ b"
    using filter_update_out [OF assms(1), of item_live it] assms(2,3) by blast
  have new: "it_ptr (ht ! j) \<notin> it_ptr ` set (a @ b)" using dist ab(1) by auto
  then show "distinct (map it_ptr (live_items (ht[j := it])))" using dist ab by auto
  show "tracked (ht[j := it]) = (tracked ht)(it_ptr (ht ! j) := None)"
    unfolding tracked_def ab map_append list.map using new
    by (intro map_of_delete_mid [symmetric]) (simp add: image_image image_Un)
  show "length (live_items ht) = Suc (length (live_items (ht[j := it])))"
    "(\<Sum>x \<leftarrow> live_items (ht[j := it]). it_size x) = (\<Sum>x \<leftarrow> live_items ht. it_size x) - it_size (ht ! j)"
    by (simp_all add: ab)
qed

text \<open>An item that stays reached when another position becomes or stays active.\<close>

lemma reached_update:
  assumes "reached ht i" "j < length ht" "it_active it" "i \<noteq> j \<or> it_ptr it = it_ptr (ht ! j)"
  shows "reached (ht[j := it]) i"
proof -
  obtain d where d: "d < length ht" "(home ht (it_ptr (ht ! i)) + d) mod length ht = i"
      "\<forall>k < d. it_active (ht ! ((home ht (it_ptr (ht ! i)) + k) mod length ht))"
    using assms(1) unfolding reached_def by blast
  have p: "it_ptr (ht[j := it] ! i) = it_ptr (ht ! i)"
    using assms(2,4) by (cases "i = j") simp_all
  have "\<forall>k < d. it_active (ht[j := it] ! ((home ht (it_ptr (ht ! i)) + k) mod length ht))"
    using d(3) assms(2,3) by (simp add: nth_list_update)
  then show ?thesis unfolding reached_def p home_def length_list_update using d(1,2)[unfolded home_def] by (auto simp: home_def)
qed

lemma table_ok_insert:
  assumes ok: "table_ok ht" and free: "i < length ht" "\<not> item_live (ht ! i)"
    and it: "item_live it" "tracked ht (it_ptr it) = None"
  shows "\<exists>j < length ht. insert_loop ht (home ht (it_ptr it)) = Some j \<and> \<not> item_live (ht ! j) \<and>
    table_ok (ht[j := it])"
proof -
  let ?p = "it_ptr it"
  have h: "home ht ?p < length ht" using free(1) unfolding home_def by (intro mod_less_divisor) auto
  obtain d where d: "d < length ht" "insert_loop ht (home ht ?p) = Some ((home ht ?p + d) mod length ht)"
      "\<not> item_live (ht ! ((home ht ?p + d) mod length ht))"
      "\<forall>k < d. item_live (ht ! ((home ht ?p + k) mod length ht))"
    using insert_loop_free [OF h free] by blast
  define j where "j = (home ht ?p + d) mod length ht"
  have j: "j < length ht" using h unfolding j_def by (intro mod_less_divisor) auto
  have "reached (ht[j := it]) i" if "i < length ht" "item_live (ht[j := it] ! i)" for i
  proof (cases "i = j")
    case True
    have "\<forall>k < d. it_active (ht[j := it] ! ((home ht ?p + k) mod length ht))"
      using d(4) it(1) j by (simp add: nth_list_update)
    then show ?thesis
      unfolding reached_def home_def length_list_update using True j d(1)
      by (auto simp: home_def j_def intro!: exI [of _ d])
  next
    case False
    then show ?thesis using reached_update [OF _ j, of i it] that ok it(1) by (simp add: table_ok_def)
  qed
  moreover have "distinct (map it_ptr (live_items (ht[j := it])))"
    using live_update_in(1) [OF j _ it] d(3) ok by (simp add: j_def table_ok_def)
  ultimately have "table_ok (ht[j := it])" using j by (auto simp: table_ok_def)
  then show ?thesis using d(2,3) j unfolding j_def by blast
qed

lemma table_ok_remove:
  assumes ok: "table_ok ht" and j: "j < length ht" "item_live (ht ! j)"
  shows "table_ok (ht[j := (ht ! j)\<lparr>it_removed := True\<rparr>])"
proof -
  let ?it = "(ht ! j)\<lparr>it_removed := True\<rparr>"
  have "reached (ht[j := ?it]) i" if "i < length ht" "item_live (ht[j := ?it] ! i)" for i
  proof -
    have "i \<noteq> j" using that j by (cases "i = j") auto
    then show ?thesis using reached_update [OF _ j(1), of i ?it] that ok j(2) by (simp add: table_ok_def)
  qed
  moreover have "distinct (map it_ptr (live_items (ht[j := ?it])))"
    using live_update_out(1) [OF j, of ?it] ok by (simp add: table_ok_def)
  ultimately show ?thesis using j by (auto simp: table_ok_def)
qed

lemma table_ok_empty: "0 < n \<Longrightarrow> table_ok (replicate n zero_item)"
  by (simp add: table_ok_def zero_item_def)

lemma live_items_zero: "live_items (replicate n zero_item) = []"
  by (simp add: zero_item_def)

section \<open>The state of the handler\<close>

abbreviation live_bytes :: "mhandle_item_t list \<Rightarrow> 64 word" where
  "live_bytes ht \<equiv> (\<Sum>x \<leftarrow> live_items ht. it_size x)"

text \<open>The table is at most half full after every operation.\<close>

definition mh_inv :: "mhandle_t \<Rightarrow> bool" where
  "mh_inv st \<longleftrightarrow> mhandle_initialized st \<and> table_ok (mhandle_hash_table st) \<and>
     2 \<le> length (mhandle_hash_table st) \<and>
     mhandle_hash_table_count st = int (length (live_items (mhandle_hash_table st))) \<and>
     mhandle_mem_used st = live_bytes (mhandle_hash_table st) \<and>
     length (live_items (mhandle_hash_table st)) \<le> length (mhandle_hash_table st) div 2"

text \<open>The blocks that are tracked in a state.\<close>

abbreviation blocks :: "mhandle_t \<Rightarrow> addr \<Rightarrow> block_info option" where
  "blocks st \<equiv> tracked (mhandle_hash_table st)"

lemma mh_invD:
  assumes "mh_inv st"
  shows "mhandle_initialized st" "table_ok (mhandle_hash_table st)" "2 \<le> length (mhandle_hash_table st)"
    "mhandle_hash_table_count st = int (length (live_items (mhandle_hash_table st)))"
    "mhandle_mem_used st = live_bytes (mhandle_hash_table st)"
    "length (live_items (mhandle_hash_table st)) \<le> length (mhandle_hash_table st) div 2"
  using assms by (simp_all add: mh_inv_def)

lemma mh_inv_bytes [simp]: "mh_inv (st\<lparr>memory_bytes := b\<rparr>) = mh_inv st"
  by (simp add: mh_inv_def)

lemma mhandle_init_id [simp]: "mh_inv st \<Longrightarrow> mhandle_init st = st"
  by (simp add: mh_inv_def mhandle_init_def)

lemma mhandle_init_start:
  "mh_inv (mhandle_init (mhandle_start bytes))" "blocks (mhandle_init (mhandle_start bytes)) = Map.empty"
  "memory_bytes (mhandle_init (mhandle_start bytes)) = bytes"
proof -
  have t: "mhandle_hash_table (mhandle_init (mhandle_start bytes)) = replicate 1000 zero_item"
    by (simp add: mhandle_init_def mhandle_start_def MHANDLE_HASH_TABLE_SIZE_def)
  show "mh_inv (mhandle_init (mhandle_start bytes))"
    unfolding mh_inv_def t live_items_zero
    using table_ok_empty [of 1000] by (simp add: mhandle_init_def mhandle_start_def)
  show "blocks (mhandle_init (mhandle_start bytes)) = Map.empty"
    unfolding t tracked_def live_items_zero by simp
  show "memory_bytes (mhandle_init (mhandle_start bytes)) = bytes"
    by (simp add: mhandle_init_def mhandle_start_def)
qed

lemma free_position: "length (live_items ht) < length ht \<Longrightarrow> \<exists>i < length ht. \<not> item_live (ht ! i)"
proof (rule ccontr)
  assume l: "length (live_items ht) < length ht" and "\<not> (\<exists>i < length ht. \<not> item_live (ht ! i))"
  then have "\<forall>it \<in> set ht. item_live it" by (metis in_set_conv_nth)
  then have "live_items ht = ht" by (simp add: filter_id_conv)
  then show False using l by simp
qed

text \<open>An insertion that does not grow the table.\<close>

lemma insert_at_room:
  assumes count: "mhandle_hash_table_count st < int (length (mhandle_hash_table st) div 2)"
    and ok: "table_ok (mhandle_hash_table st)"
    and room: "length (live_items (mhandle_hash_table st)) < length (mhandle_hash_table st)"
    and new: "blocks st p = None"
  shows "\<exists>ht. hash_table_insert_at (Suc depth) st p sz at ci =
      ret (st\<lparr>mhandle_hash_table := ht, mhandle_mem_used := mhandle_mem_used st + sz,
              mhandle_hash_table_count := mhandle_hash_table_count st + 1\<rparr>) \<and>
    table_ok ht \<and> length ht = length (mhandle_hash_table st) \<and>
    tracked ht = (blocks st)(p \<mapsto> (sz, at, ci)) \<and>
    length (live_items ht) = Suc (length (live_items (mhandle_hash_table st))) \<and>
    live_bytes ht = live_bytes (mhandle_hash_table st) + sz"
proof -
  let ?ht = "mhandle_hash_table st"
  let ?it = "\<lparr>it_ptr = p, it_size = sz, it_at = at, it_removed = False, it_active = True, it_corrupt_info = ci\<rparr>"
  obtain i where i: "i < length ?ht" "\<not> item_live (?ht ! i)" using free_position [OF room] by blast
  have it: "item_live ?it" "tracked ?ht (it_ptr ?it) = None" using new by simp_all
  obtain j where j: "j < length ?ht" "insert_loop ?ht (home ?ht p) = Some j" "\<not> item_live (?ht ! j)"
      "table_ok (?ht[j := ?it])"
    using table_ok_insert [OF ok i it] by auto
  have dist: "distinct (map it_ptr (live_items ?ht))" using ok by (simp add: table_ok_def)
  have "hash_table_insert_at (Suc depth) st p sz at ci =
      ret (st\<lparr>mhandle_hash_table := ?ht[j := ?it], mhandle_mem_used := mhandle_mem_used st + sz,
              mhandle_hash_table_count := mhandle_hash_table_count st + 1\<rparr>)"
    using count j(1,2) by (auto simp: hash_table_insert_at.simps(2) Let_def home_def)
  then show ?thesis
    using j(4) live_update_in(2-4) [OF j(1,3) it dist] by (intro exI [of _ "?ht[j := ?it]"]) (simp add: item_info_def)
qed

text \<open>Rehashing the items of the old table.\<close>

lemma grow_loop_correct:
  assumes "table_ok (mhandle_hash_table st)" "mhandle_hash_table_count st \<le> int (length (mhandle_hash_table st) div 2)"
    and "length (live_items (mhandle_hash_table st)) + length (live_items old) < length (mhandle_hash_table st)"
    and "distinct (map it_ptr (live_items old))" "\<forall>it \<in> set (live_items old). blocks st (it_ptr it) = None"
  shows "\<exists>ht. grow_loop (hash_table_insert_at (Suc depth)) old st = ret (st\<lparr>mhandle_hash_table := ht\<rparr>) \<and>
    table_ok ht \<and> length ht = length (mhandle_hash_table st) \<and>
    tracked ht = blocks st ++ tracked old \<and>
    length (live_items ht) = length (live_items (mhandle_hash_table st)) + length (live_items old) \<and>
    live_bytes ht = live_bytes (mhandle_hash_table st) + live_bytes old"
  using assms
proof (induction old arbitrary: st)
  case Nil
  have "st = st\<lparr>mhandle_hash_table := mhandle_hash_table st\<rparr>" by simp
  then show ?case using Nil.prems(1)
    by (intro exI [of _ "mhandle_hash_table st"]) (simp add: tracked_def)
next
  case (Cons it old)
  show ?case
  proof (cases "item_live it")
    case False
    then have live: "live_items (it # old) = live_items old"
      and step: "grow_loop ins (it # old) st = grow_loop ins old st" for ins by auto
    have tr: "tracked (it # old) = tracked old" by (simp only: tracked_simps False if_False)
    show ?thesis
      unfolding live step tr
      by (rule Cons.IH [OF Cons.prems(1,2) Cons.prems(3) [unfolded live] Cons.prems(4) [unfolded live]
            Cons.prems(5) [unfolded live]])
  next
    case True
    let ?st = "st\<lparr>mhandle_hash_table_count := mhandle_hash_table_count st - 1,
                  mhandle_mem_used := mhandle_mem_used st - it_size it\<rparr>"
    have live: "live_items (it # old) = it # live_items old" using True by simp
    obtain ht where ht: "hash_table_insert_at (Suc depth) ?st (it_ptr it) (it_size it) (it_at it) (it_corrupt_info it) =
        ret (st\<lparr>mhandle_hash_table := ht\<rparr>)"
        "table_ok ht" "length ht = length (mhandle_hash_table st)"
        "tracked ht = (blocks st)(it_ptr it \<mapsto> item_info it)"
        "length (live_items ht) = Suc (length (live_items (mhandle_hash_table st)))"
        "live_bytes ht = live_bytes (mhandle_hash_table st) + it_size it"
      using insert_at_room [of ?st "it_ptr it" depth "it_size it" "it_at it" "it_corrupt_info it"] Cons.prems(1-3,5)
      unfolding live by (auto simp: item_info_def)
    have notin: "it_ptr it \<notin> it_ptr ` set (live_items old)"
      using Cons.prems(4) unfolding live by (simp del: set_filter)
    have fresh: "\<forall>x \<in> set (live_items old). blocks (st\<lparr>mhandle_hash_table := ht\<rparr>) (it_ptr x) = None"
    proof
      fix x assume x: "x \<in> set (live_items old)"
      then have "it_ptr x \<noteq> it_ptr it" using notin by (metis imageI)
      moreover have "blocks st (it_ptr x) = None" using Cons.prems(5) x unfolding live by (meson list.set_intros(2))
      ultimately show "blocks (st\<lparr>mhandle_hash_table := ht\<rparr>) (it_ptr x) = None" by (simp add: ht(4))
    qed
    obtain ht' where ht': "grow_loop (hash_table_insert_at (Suc depth)) old (st\<lparr>mhandle_hash_table := ht\<rparr>) =
        ret (st\<lparr>mhandle_hash_table := ht'\<rparr>)"
        "table_ok ht'" "length ht' = length ht" "tracked ht' = tracked ht ++ tracked old"
        "length (live_items ht') = length (live_items ht) + length (live_items old)"
        "live_bytes ht' = live_bytes ht + live_bytes old"
      using Cons.IH [of "st\<lparr>mhandle_hash_table := ht\<rparr>"] Cons.prems(2,3,4) fresh ht(2,3,5) unfolding live by auto
    have "it_ptr it \<notin> dom (tracked old)"
      using notin by (simp add: tracked_def dom_map_of_conv_image_fst image_image del: set_filter)
    then have "tracked ht' = blocks st ++ tracked (it # old)"
      using True by (simp add: ht'(4) ht(4) map_add_upd_left)
    moreover have "grow_loop (hash_table_insert_at (Suc depth)) (it # old) st = ret (st\<lparr>mhandle_hash_table := ht'\<rparr>)"
      using True ht(1) ht'(1) by simp
    ultimately show ?thesis
      unfolding live using ht(3,5,6) ht'(2,3,5,6) by (intro exI [of _ ht']) (simp add: algebra_simps)
  qed
qed

lemma insert_at_inv:
  assumes "mh_inv st" "mhandle_hash_table_count st < int (length (mhandle_hash_table st) div 2)" "blocks st p = None"
  shows "\<exists>st'. hash_table_insert_at (Suc depth) st p sz at ci = ret st' \<and> mh_inv st' \<and>
    blocks st' = (blocks st)(p \<mapsto> (sz, at, ci)) \<and> memory_bytes st' = memory_bytes st"
proof -
  note inv = mh_invD [OF assms(1)]
  have room: "length (live_items (mhandle_hash_table st)) < length (mhandle_hash_table st)" using inv(3,6) by linarith
  obtain ht where ht: "hash_table_insert_at (Suc depth) st p sz at ci =
      ret (st\<lparr>mhandle_hash_table := ht, mhandle_mem_used := mhandle_mem_used st + sz,
              mhandle_hash_table_count := mhandle_hash_table_count st + 1\<rparr>)"
      "table_ok ht" "length ht = length (mhandle_hash_table st)" "tracked ht = (blocks st)(p \<mapsto> (sz, at, ci))"
      "length (live_items ht) = Suc (length (live_items (mhandle_hash_table st)))"
      "live_bytes ht = live_bytes (mhandle_hash_table st) + sz"
    using insert_at_room [OF assms(2) inv(2) room assms(3), of depth sz at ci] by blast
  let ?st' = "st\<lparr>mhandle_hash_table := ht, mhandle_mem_used := mhandle_mem_used st + sz,
              mhandle_hash_table_count := mhandle_hash_table_count st + 1\<rparr>"
  have "mh_inv ?st'" using ht(2,3,5,6) inv assms(2) by (simp add: mh_inv_def)
  then show ?thesis using ht(1,4) by (intro exI [of _ ?st']) simp
qed

text \<open>Every insertion of a new address ends, and two levels of calls are enough.\<close>

lemma insert_at_correct:
  assumes inv: "mh_inv st" and new: "blocks st p = None"
  shows "\<exists>st'. hash_table_insert_at (Suc (Suc depth)) st p sz at ci = ret st' \<and> mh_inv st' \<and>
    blocks st' = (blocks st)(p \<mapsto> (sz, at, ci)) \<and> memory_bytes st' = memory_bytes st"
proof (cases "mhandle_hash_table_count st < int (length (mhandle_hash_table st) div 2)")
  case True
  then show ?thesis using insert_at_inv [OF inv _ new] by blast
next
  case False
  let ?old = "mhandle_hash_table st"
  let ?st = "st\<lparr>mhandle_hash_table := replicate (length ?old * 2) zero_item\<rparr>"
  note I = mh_invD [OF inv]
  have dist: "distinct (map it_ptr (live_items ?old))" using I(2) by (simp add: table_ok_def)
  have empty: "live_items (mhandle_hash_table ?st) = []" "tracked (mhandle_hash_table ?st) = Map.empty"
    using live_items_zero [of "length ?old * 2"] by (simp_all add: tracked_def)
  have ok: "table_ok (mhandle_hash_table ?st)" using table_ok_empty [of "length ?old * 2"] I(3) by (cases ?old) simp_all
  have few: "length (live_items ?old) < length ?old * 2" using I(3,6) by linarith
  obtain ht where ht: "grow_loop (hash_table_insert_at (Suc depth)) ?old ?st = ret (?st\<lparr>mhandle_hash_table := ht\<rparr>)"
      "table_ok ht" "length ht = length ?old * 2" "tracked ht = blocks st"
      "length (live_items ht) = length (live_items ?old)" "live_bytes ht = live_bytes ?old"
    using grow_loop_correct [OF ok, of ?old depth] I(3,4,6) dist empty few by auto
  have grown: "mhandle_hash_table_grow (hash_table_insert_at (Suc depth)) st = ret (st\<lparr>mhandle_hash_table := ht\<rparr>)"
    using ht(1) by (simp add: mhandle_hash_table_grow_def Let_def)
  let ?st' = "st\<lparr>mhandle_hash_table := ht\<rparr>"
  have inv': "mh_inv ?st'" and room: "mhandle_hash_table_count ?st' < int (length (mhandle_hash_table ?st') div 2)"
    using I ht(2-6) by (simp_all add: mh_inv_def)
  have "hash_table_insert_at (Suc (Suc depth)) st p sz at ci = hash_table_insert_at (Suc (Suc depth)) ?st' p sz at ci"
    using False room by (simp add: hash_table_insert_at.simps(2) [of "Suc depth"] grown)
  then show ?thesis using insert_at_inv [OF inv' room, of p "Suc depth" sz at ci] new ht(4) by simp
qed

lemma insert_correct:
  assumes "mh_inv st" "blocks st p = None"
  shows "\<exists>st'. mhandle_hash_table_insert st p sz at ci = ret st' \<and> mh_inv st' \<and>
    blocks st' = (blocks st)(p \<mapsto> (sz, at, ci)) \<and> memory_bytes st' = memory_bytes st"
  using insert_at_correct [OF assms, of 0 sz at ci] by (simp add: mhandle_hash_table_insert_def numeral_2_eq_2)

lemma get_live:
  assumes "mh_inv st" "blocks st p = Some i"
  shows "\<exists>idx < length (mhandle_hash_table st). mhandle_hash_table_get st p = ret (Some idx) \<and>
    item_live (mhandle_hash_table st ! idx) \<and> it_ptr (mhandle_hash_table st ! idx) = p \<and>
    item_info (mhandle_hash_table st ! idx) = i"
proof -
  note inv = mh_invD [OF assms(1)]
  have dist: "distinct (map it_ptr (live_items (mhandle_hash_table st)))" using inv(2) by (simp add: table_ok_def)
  obtain j where j: "j < length (mhandle_hash_table st)" "item_live (mhandle_hash_table st ! j)"
      "it_ptr (mhandle_hash_table st ! j) = p" "item_info (mhandle_hash_table st ! j) = i"
    using assms(2) unfolding tracked_iff [OF dist] by blast
  then show ?thesis
    using get_loop_live [OF inv(2) j(1,2)] inv(3)
    by (intro exI [of _ j]) (auto simp: mhandle_hash_table_get_def home_def Let_def)
qed

lemma get_absent:
  assumes "mh_inv st" "blocks st p = None"
  shows "mhandle_hash_table_get st p =
    (if \<forall>it \<in> set (mhandle_hash_table st). it_active it then None else ret NULL)"
proof -
  let ?ht = "mhandle_hash_table st"
  have n: "?ht \<noteq> []" using mh_invD(3) [OF assms(1)] by auto
  have h: "home ?ht p < length ?ht" using n unfolding home_def by (intro mod_less_divisor) simp
  have "get_loop ?ht p (home ?ht p) = (if \<forall>it \<in> set ?ht. it_active it then None else Some NULL)"
    using get_loop_hangs [OF assms(2) _ h] get_loop_absent [OF assms(2)] by (auto simp: all_set_conv_all_nth in_set_conv_nth)
  then show ?thesis using n by (simp add: mhandle_hash_table_get_def home_def Let_def)
qed

lemma remove_live:
  assumes "mh_inv st" "blocks st p = Some (sz, at, ci)"
  shows "\<exists>st'. mhandle_hash_table_remove st p place = ret (st', sz) \<and> mh_inv st' \<and>
    blocks st' = (blocks st)(p := None) \<and> memory_bytes st' = memory_bytes st"
proof -
  let ?ht = "mhandle_hash_table st"
  note inv = mh_invD [OF assms(1)]
  have dist: "distinct (map it_ptr (live_items ?ht))" using inv(2) by (simp add: table_ok_def)
  obtain j where j: "j < length ?ht" "mhandle_hash_table_get st p = ret (Some j)" "item_live (?ht ! j)"
      "it_ptr (?ht ! j) = p" "item_info (?ht ! j) = (sz, at, ci)"
    using get_live [OF assms] by auto
  let ?it = "(?ht ! j)\<lparr>it_removed := True\<rparr>"
  have sz: "it_size (?ht ! j) = sz" using j(5) by (simp add: item_info_def)
  have dead: "\<not> item_live ?it" by simp
  note out = live_update_out [OF j(1,3) dead dist]
  have "table_ok (?ht[j := ?it])" by (rule table_ok_remove [OF inv(2) j(1,3)])
  then show ?thesis
    using out(2-4) inv j(2,4) sz by (auto simp: mhandle_hash_table_remove_def Let_def mh_inv_def)
qed

section \<open>Blocks and their guards\<close>

definition guarded :: "(addr \<Rightarrow> 8 word) \<Rightarrow> addr \<Rightarrow> 64 word \<Rightarrow> bool" where
  "guarded bytes p sz \<longleftrightarrow> bytes (p - 2) = MHANDLE_MARK_START \<and> bytes (p - 1) = MHANDLE_MARK_START \<and>
     bytes (p + sz) = MHANDLE_MARK_END \<and> bytes (p + sz + 1) = MHANDLE_MARK_END"

lemmas range_defs = MHANDLE_CORRUPT_RANGE_def MHANDLE_CORRUPT_TOTAL_def

lemma check_corrupt_block:
  "mhandle_check_corrupt st (p - MHANDLE_CORRUPT_RANGE) (sz + MHANDLE_CORRUPT_TOTAL) =
    (if sz = 0 then stops Assert else if guarded (memory_bytes st) p sz then ret () else stops Abort)"
proof -
  have "0 < sz \<longleftrightarrow> sz \<noteq> 0" by (simp add: word_neq_0_conv)
  moreover have "p - 2 + 1 = p - 1" "p - 2 + (sz + 4 - 2) = p + sz" "p - 2 + (sz + 4 - 2 + 1) = p + sz + 1"
    "sz + 4 - 4 = sz" by (simp_all add: algebra_simps)
  ultimately show ?thesis
    by (simp only: mhandle_check_corrupt_def range_defs Let_def guarded_def mult_2 numeral_plus_numeral) (auto simp: ac_simps)
qed

text \<open>The guards of a new block do not overlap unless its size is within four bytes of the whole
  address space.\<close>

lemma mark_corrupt_guards:
  assumes "unat sz + 4 < 2 ^ 64"
  shows "guarded (mhandle_mark_corrupt bytes e (sz + MHANDLE_CORRUPT_TOTAL)) (e + MHANDLE_CORRUPT_RANGE) sz"
proof -
  have ne: "sz + k \<noteq> 0" if "0 < k" "k \<le> 4" for k :: "64 word"
  proof -
    have k: "unat k \<le> 4" "0 < unat k" using that by (simp_all add: word_le_nat_alt unat_gt_0)
    then have "unat (sz + k) = unat sz + unat k" using assms by (simp add: unat_word_ariths)
    then show ?thesis using k by auto
  qed
  have "sz + 1 \<noteq> 0" "sz + 2 \<noteq> 0" "sz + 3 \<noteq> 0" using ne [of 1] ne [of 2] ne [of 3] by simp_all
  moreover have "e + 2 + sz = e \<longleftrightarrow> sz + 2 = 0" "e + 2 + sz + 1 = e \<longleftrightarrow> sz + 3 = 0"
    "e + 2 + sz = e + 1 \<longleftrightarrow> sz + 1 = 0" "e + 2 + sz + 1 = e + 1 \<longleftrightarrow> sz + 2 = 0"
    by (auto simp: algebra_simps eq_neg_iff_add_eq_0)
  moreover have "e + (sz + 4 - 2) = e + 2 + sz" "e + (sz + 4 - 2 + 1) = e + 2 + sz + 1" by (simp_all add: algebra_simps)
  ultimately show ?thesis
    by (simp add: guarded_def mhandle_mark_corrupt_def range_defs)
qed

text \<open>Releasing a tracked block.\<close>

lemma free_tracked:
  assumes inv: "mh_inv st" and p: "p \<noteq> 0" "blocks st p = Some (sz, at, ci)"
  shows "if ci \<and> sz = 0 then mhandle_free st p place = stops Assert
    else if ci \<and> \<not> guarded (memory_bytes st) p sz then mhandle_free st p place = stops Abort
    else \<exists>st'. mhandle_free st p place = ret st' \<and> mh_inv st' \<and> blocks st' = (blocks st)(p := None)"
proof -
  obtain idx where idx: "mhandle_hash_table_get st p = ret (Some idx)"
      "item_info (mhandle_hash_table st ! idx) = (sz, at, ci)"
    using get_live [OF inv p(2)] by blast
  let ?it = "mhandle_hash_table st ! idx"
  have it: "it_size ?it = sz" "it_corrupt_info ?it = ci" using idx(2) by (simp_all add: item_info_def)
  have remove: "\<exists>st'. bindr (mhandle_hash_table_remove (st\<lparr>memory_bytes := b\<rparr>) p place) (\<lambda>(st, _). ret st) = ret st' \<and>
      mh_inv st' \<and> blocks st' = (blocks st)(p := None)" for b
    using remove_live [of "st\<lparr>memory_bytes := b\<rparr>" p sz at ci place] inv p(2) by auto
  show ?thesis
    unfolding mhandle_free_def
    using p(1) inv idx(1) it remove by (simp add: Let_def check_corrupt_block check_corrupt_block [of _ p 0, simplified])
qed

lemma free_absent:
  assumes "mh_inv st" "p \<noteq> 0" "blocks st p = None"
  shows "mhandle_free st p place =
    (if \<forall>it \<in> set (mhandle_hash_table st). it_active it then None else stops Abort)"
  using assms get_absent [OF assms(1,3)] by (simp add: mhandle_free_def Let_def)

section \<open>The states the program reaches\<close>

datatype mh_op =
    Op_malloc "64 word" string "addr ptr"
  | Op_calloc "64 word" "64 word" string "addr ptr"
  | Op_realloc addr "64 word" string "addr ptr"
  | Op_strdup string string "addr ptr"
  | Op_free addr string
  | Op_register addr "64 word" string
  | Op_check_ptr addr

primrec mh_step :: "mhandle_t \<Rightarrow> mh_op \<Rightarrow> mhandle_t run option" where
  "mh_step st (Op_malloc sz at got) = bindr (mhandle_malloc st sz at got) (\<lambda>(st, _). ret st)"
| "mh_step st (Op_calloc n sz at got) = bindr (mhandle_calloc st n sz at got) (\<lambda>(st, _). ret st)"
| "mh_step st (Op_realloc p sz at got) = bindr (mhandle_realloc st p sz at got) (\<lambda>(st, _). ret st)"
| "mh_step st (Op_strdup s at got) = bindr (mhandle_strdup st s at got) (\<lambda>(st, _). ret st)"
| "mh_step st (Op_free p at) = mhandle_free st p at"
| "mh_step st (Op_register p sz at) = mhandle_register_ptr st p sz at"
| "mh_step st (Op_check_ptr p) = mhandle_check_ptr st p"

text \<open>What an operation does to the map of the blocks. The address that the C library hands out is two
  bytes before the address of the block.\<close>

fun block_step :: "(addr \<Rightarrow> block_info option) \<Rightarrow> mh_op \<Rightarrow> addr \<Rightarrow> block_info option" where
  "block_step m (Op_malloc sz at (Some e)) = m(e + 2 \<mapsto> (sz, at, True))"
| "block_step m (Op_calloc n sz at (Some e)) = m(e + 2 \<mapsto> (n * sz, at, True))"
| "block_step m (Op_strdup s at (Some e)) = m(e + 2 \<mapsto> (of_nat (length s) + 1, at, True))"
| "block_step m (Op_realloc p sz at got) =
     (if p = 0 then (case got of Some e \<Rightarrow> m(e + 2 \<mapsto> (sz, at, True)) | None \<Rightarrow> m)
      else if sz = 0 then m(p := None)
      else (case got of Some e \<Rightarrow> (m(p := None))(e + 2 \<mapsto> (sz, at, True)) | None \<Rightarrow> m))"
| "block_step m (Op_free p at) = (if p = 0 then m else m(p := None))"
| "block_step m (Op_register p sz at) = m(p \<mapsto> (sz, at, False))"
| "block_step m op = m"

text \<open>What the C library guarantees: it hands out memory that is not in use. A reallocation may keep
  the address.\<close>

fun fresh_op :: "(addr \<Rightarrow> block_info option) \<Rightarrow> mh_op \<Rightarrow> bool" where
  "fresh_op m (Op_malloc sz at (Some e)) \<longleftrightarrow> m (e + 2) = None"
| "fresh_op m (Op_calloc n sz at (Some e)) \<longleftrightarrow> m (e + 2) = None"
| "fresh_op m (Op_strdup s at (Some e)) \<longleftrightarrow> m (e + 2) = None"
| "fresh_op m (Op_realloc p sz at (Some e)) \<longleftrightarrow> m (e + 2) = None \<or> p = e + 2 \<and> p \<noteq> 0"
| "fresh_op m (Op_register p sz at) \<longleftrightarrow> m p = None"
| "fresh_op m op \<longleftrightarrow> True"

inductive mh_reach :: "mhandle_t \<Rightarrow> (addr \<Rightarrow> block_info option) \<Rightarrow> bool" where
  reach_start: "mh_reach (mhandle_init (mhandle_start bytes)) Map.empty"
| reach_op: "mh_reach st m \<Longrightarrow> fresh_op m op \<Longrightarrow> mh_step st op = ret st' \<Longrightarrow> mh_reach st' (block_step m op)"
| reach_write: "mh_reach st m \<Longrightarrow> mh_reach (st\<lparr>memory_bytes := bytes\<rparr>) m"

inductive_cases mh_reachE: "mh_reach st m"

lemma insert_step:
  assumes "mh_inv st" "blocks st p = None" "mhandle_hash_table_insert (st\<lparr>memory_bytes := b\<rparr>) p sz at ci = ret st'"
  shows "mh_inv st' \<and> blocks st' = (blocks st)(p \<mapsto> (sz, at, ci))"
  using insert_correct [of "st\<lparr>memory_bytes := b\<rparr>" p sz at ci] assms by auto

lemma malloc_step:
  assumes "mh_inv st" "fresh_op (blocks st) (Op_malloc sz at got)" "mh_step st (Op_malloc sz at got) = ret st'"
  shows "mh_inv st' \<and> blocks st' = block_step (blocks st) (Op_malloc sz at got)"
  using assms
  by (cases got)
    (auto simp: mhandle_malloc_def Let_def bindr_ret MHANDLE_CORRUPT_RANGE_def dest!: insert_step [rotated 2])

lemma free_step:
  assumes "mh_inv st" "mhandle_free st p at = ret st'"
  shows "mh_inv st' \<and> blocks st' = (if p = 0 then blocks st else (blocks st)(p := None))"
proof (cases "p = 0")
  case True
  then show ?thesis using assms by (simp add: mhandle_free_def)
next
  case False
  show ?thesis
  proof (cases "blocks st p")
    case None
    then show ?thesis using free_absent [OF assms(1) False] assms(2) by (auto split: if_splits)
  next
    case (Some i)
    obtain sz a ci where "i = (sz, a, ci)" by (cases i)
    then show ?thesis
      using free_tracked [OF assms(1) False, of sz a ci at] Some assms(2) False by (auto split: if_splits)
  qed
qed

lemma realloc_tracked:
  assumes inv: "mh_inv st" and p: "p \<noteq> 0" "sz \<noteq> 0" and fresh: "fresh_op (blocks st) (Op_realloc p sz at got)"
    and ret: "mhandle_realloc st p sz at got = ret (st', q)"
  shows "mh_inv st' \<and> (\<exists>e. got = Some e \<and> q = e + 2 \<and>
    blocks st' = ((blocks st)(p := None))(e + 2 \<mapsto> (sz, at, True)))"
proof -
  obtain idx where idx: "mhandle_hash_table_get st p = ret (Some idx)"
    using ret p inv by (auto simp: mhandle_realloc_def Let_def bindr_ret split: option.splits)
  let ?it = "mhandle_hash_table st ! idx"
  obtain i where i: "blocks st p = Some i"
    using idx get_absent [OF inv, of p] by (cases "blocks st p") (auto split: if_splits)
  obtain osz oat oci where oi: "i = (osz, oat, oci)" by (cases i)
  obtain st1 where st1: "mhandle_hash_table_remove st p at = ret (st1, osz)" "mh_inv st1"
      "blocks st1 = (blocks st)(p := None)"
    using remove_live [OF inv i [unfolded oi], of at] by blast
  obtain e b where e: "got = Some e" "q = e + 2"
      "mhandle_hash_table_insert (st1\<lparr>memory_bytes := b\<rparr>) (e + 2) sz at True = ret st'"
    using ret p inv idx st1(1)
    by (auto simp: mhandle_realloc_def Let_def bindr_ret MHANDLE_CORRUPT_RANGE_def split: option.splits if_splits)
  have "blocks st1 (e + 2) = None" using fresh e(1) st1(3) by auto
  then show ?thesis using insert_step [OF st1(2) _ e(3)] e(1,2) st1(3) by auto
qed

lemma step_correct:
  assumes "mh_inv st" "fresh_op (blocks st) op" "mh_step st op = ret st'"
  shows "mh_inv st' \<and> blocks st' = block_step (blocks st) op"
proof (cases op)
  case (Op_malloc sz at got)
  then show ?thesis using malloc_step assms by blast
next
  case (Op_calloc n sz at got)
  then show ?thesis using assms
    by (cases got)
      (auto simp: mhandle_calloc_def Let_def bindr_ret MHANDLE_CORRUPT_RANGE_def dest!: insert_step [rotated 2])
next
  case (Op_strdup s at got)
  then show ?thesis using assms
    by (cases got)
      (auto simp: mhandle_strdup_def Let_def bindr_ret MHANDLE_CORRUPT_RANGE_def dest!: insert_step [rotated 2])
next
  case (Op_free p at)
  then show ?thesis using assms free_step by auto
next
  case (Op_register p sz at)
  then show ?thesis using assms insert_correct [OF assms(1), of p sz at False] by (auto simp: mhandle_register_ptr_def)
next
  case (Op_check_ptr p)
  then show ?thesis using assms by (auto simp: mhandle_check_ptr_def Let_def bindr_ret split: if_splits option.splits)
next
  case op: (Op_realloc p sz at got)
  show ?thesis
  proof (cases "p = 0 \<or> sz = 0")
    case False
    then show ?thesis using realloc_tracked [OF assms(1), of p sz at got st'] assms op by (auto simp: bindr_ret)
  next
    case pz: True
    show ?thesis
    proof (cases "p = 0")
      case True
      then have "fresh_op (blocks st) (Op_malloc sz at got)" "mh_step st (Op_malloc sz at got) = ret st'"
        using assms(2,3) op by (cases got; simp add: mhandle_realloc_def)+
      then have "mh_inv st' \<and> blocks st' = block_step (blocks st) (Op_malloc sz at got)"
        by (rule malloc_step [OF assms(1)])
      moreover have "block_step (blocks st) op = block_step (blocks st) (Op_malloc sz at got)"
        using op True by (cases got) simp_all
      ultimately show ?thesis by simp
    next
      case False
      then have "mhandle_free st p at = ret st'" "sz = 0"
        using assms(3) op pz by (auto simp: mhandle_realloc_def bindr_ret)
      then show ?thesis using free_step [OF assms(1)] op False by simp
    qed
  qed
qed

lemma reach_correct: "mh_reach st m \<Longrightarrow> mh_inv st \<and> blocks st = m"
proof (induction rule: mh_reach.induct)
  case (reach_start bytes)
  then show ?case by (simp only: mhandle_init_start simp_thms)
next
  case (reach_op st m op st')
  then show ?case using step_correct by blast
next
  case (reach_write st m bytes)
  then show ?case by simp
qed

text \<open>Sums over the table as sums over the addresses.\<close>

lemma dom_tracked: "dom (tracked ht) = it_ptr ` set (live_items ht)"
  by (simp add: tracked_def dom_map_of_conv_image_fst image_image del: set_filter)

lemma live_sums:
  assumes "distinct (map it_ptr (live_items ht))"
  shows "card (dom (tracked ht)) = length (live_items ht)"
    and "(\<Sum>p \<in> dom (tracked ht). fst (the (tracked ht p))) = live_bytes ht"
proof -
  have "set (map it_ptr (live_items ht)) = dom (tracked ht)" by (simp add: dom_tracked del: set_filter)
  then show "card (dom (tracked ht)) = length (live_items ht)" using distinct_card [OF assms] by simp
  have d: "distinct (live_items ht)" using assms by (simp only: distinct_map)
  have inj: "inj_on it_ptr (set (live_items ht))" using assms by (simp add: distinct_map)
  have val: "fst (the (tracked ht (it_ptr it))) = it_size it" if it: "it \<in> set (live_items ht)" for it
  proof -
    obtain j where "j < length ht" "ht ! j = it" using it by (auto simp: in_set_conv_nth)
    then have "tracked ht (it_ptr it) = Some (item_info it)" using it by (auto simp: tracked_iff [OF assms])
    then show ?thesis by (simp add: item_info_def)
  qed
  have "(\<Sum>p \<in> dom (tracked ht). fst (the (tracked ht p))) =
      (\<Sum>it \<in> set (live_items ht). fst (the (tracked ht (it_ptr it))))"
    unfolding dom_tracked by (simp only: sum.reindex [OF inj] comp_def)
  also have "\<dots> = (\<Sum>it \<in> set (live_items ht). it_size it)" by (rule sum.cong [OF refl val])
  also have "\<dots> = live_bytes ht" by (rule sum_list_distinct_conv_sum_set [OF d, symmetric])
  finally show "(\<Sum>p \<in> dom (tracked ht). fst (the (tracked ht p))) = live_bytes ht" .
qed

section \<open>A table that fills with tombstones\<close>

text \<open>One block at a time at the addresses that hash to the positions in turn: each leaves its
  position active.\<close>

definition tombstones :: "nat \<Rightarrow> mhandle_t \<Rightarrow> bool" where
  "tombstones n st \<longleftrightarrow> mh_reach st Map.empty \<and> length (mhandle_hash_table st) = 1000 \<and>
     (\<forall>j < n. it_active (mhandle_hash_table st ! j))"

lemma tombstone_insert:
  assumes st: "mh_inv st" "blocks st = Map.empty" "length (mhandle_hash_table st) = 1000" and i: "i < 1000"
  shows "\<exists>st' it. mh_step st (Op_malloc 1 [] (Some (of_nat (998 + i)))) = ret st' \<and>
    mhandle_hash_table st' = (mhandle_hash_table st)[i := it] \<and> item_live it \<and>
    it_ptr it = of_nat (1000 + i) \<and> guarded (memory_bytes st') (of_nat (1000 + i)) 1 \<and> it_size it = 1"
proof -
  let ?ht = "mhandle_hash_table st" and ?p = "of_nat (1000 + i) :: addr"
  have p: "of_nat (998 + i) + MHANDLE_CORRUPT_RANGE = ?p" by (simp add: MHANDLE_CORRUPT_RANGE_def)
  have "unat ?p = 1000 + i" using i by (simp only: unsigned_of_nat) (simp add: take_bit_nat_eq_self)
  then have h: "unat ?p mod 1000 = i" "?p \<noteq> 0" using i by (simp_all add: unat_eq_0 [symmetric] del: of_nat_add)
  have "\<not> item_live (?ht ! i)" using st(2,3) i tracked_None [of ?ht] by (metis (full_types))
  then have loop: "insert_loop ?ht i = Some i" by (subst insert_loop.simps) (simp only: if_False simp_thms)
  have "\<forall>it \<in> set ?ht. \<not> item_live it" using st(2) tracked_None [of ?ht] by (metis (no_types, lifting) in_set_conv_nth)
  then have "live_items ?ht = []" by (simp add: filter_empty_conv)
  then have c: "mhandle_hash_table_count st = 0" using mh_invD(4) [OF st(1)] by simp
  have g: "guarded (mhandle_mark_corrupt (memory_bytes st) (of_nat (998 + i)) (1 + MHANDLE_CORRUPT_TOTAL)) ?p 1"
    using mark_corrupt_guards [of 1 "memory_bytes st" "of_nat (998 + i)"] unfolding p by simp
  let ?it = "\<lparr>it_ptr = ?p, it_size = 1, it_at = [], it_removed = False, it_active = True, it_corrupt_info = True\<rparr>"
  let ?b = "mhandle_mark_corrupt (memory_bytes st) (of_nat (998 + i)) (1 + MHANDLE_CORRUPT_TOTAL)"
  have two: "hash_table_insert_at 2 = hash_table_insert_at (Suc 1)" by (simp add: numeral_2_eq_2)
  have "?ht \<noteq> []" using st(3) by auto
  then have ins: "mhandle_hash_table_insert (st\<lparr>memory_bytes := ?b\<rparr>) ?p 1 [] True =
      ret (st\<lparr>memory_bytes := ?b, mhandle_hash_table := ?ht[i := ?it], mhandle_mem_used := mhandle_mem_used st + 1,
              mhandle_hash_table_count := 1\<rparr>)"
    using st(3) h(1) loop c
    by (simp only: mhandle_hash_table_insert_def two hash_table_insert_at.simps(2)) (simp add: Let_def)
  have "mh_step st (Op_malloc 1 [] (Some (of_nat (998 + i)))) =
      ret (st\<lparr>memory_bytes := ?b, mhandle_hash_table := ?ht[i := ?it], mhandle_mem_used := mhandle_mem_used st + 1,
              mhandle_hash_table_count := 1\<rparr>)"
    using st(1) ins by (simp only: mh_step.simps mhandle_malloc_def mhandle_init_id Let_def option.case p bindr_simps prod.case)
  then show ?thesis
    by (rule exI [of _ "st\<lparr>memory_bytes := ?b, mhandle_hash_table := ?ht[i := ?it],
        mhandle_mem_used := mhandle_mem_used st + 1, mhandle_hash_table_count := 1\<rparr>", OF exI [of _ ?it], OF conjI])
      (use g in simp)
qed

lemma tombstone_remove:
  assumes "mh_inv st" "i < length (mhandle_hash_table st)" "p \<noteq> 0"
    and "mhandle_hash_table_get st p = ret (Some i)"
    and "guarded (memory_bytes st) p sz" "it_size (mhandle_hash_table st ! i) = sz" "sz \<noteq> 0"
  shows "\<exists>st' it. mh_step st (Op_free p at) = ret st' \<and> mhandle_hash_table st' = (mhandle_hash_table st)[i := it] \<and>
    it_active it = it_active (mhandle_hash_table st ! i)"
proof -
  have get: "mhandle_hash_table_get (st\<lparr>memory_bytes := b\<rparr>) p = ret (Some i)" for b
    using assms(4) by (simp add: mhandle_hash_table_get_def Let_def)
  show ?thesis
    using assms get by (simp add: mhandle_free_def Let_def mhandle_hash_table_remove_def check_corrupt_block)
      (rule exI, rule conjI, rule refl, simp)
qed

lemma tombstone_round:
  assumes "tombstones i st" "i < 1000"
  shows "\<exists>st'. tombstones (Suc i) st'"
proof -
  let ?p = "of_nat (1000 + i) :: addr"
  have reach: "mh_reach st Map.empty" and len: "length (mhandle_hash_table st) = 1000"
    and act: "\<forall>j < i. it_active (mhandle_hash_table st ! j)" using assms(1) by (simp_all add: tombstones_def)
  have inv: "mh_inv st" "blocks st = Map.empty" using reach_correct [OF reach] by auto
  obtain st1 it where st1: "mh_step st (Op_malloc 1 [] (Some (of_nat (998 + i)))) = ret st1"
      "mhandle_hash_table st1 = (mhandle_hash_table st)[i := it]" "item_live it" "it_ptr it = ?p"
      "guarded (memory_bytes st1) ?p 1" "it_size it = 1"
    using tombstone_insert [OF inv len assms(2)] by blast
  have p: "of_nat (998 + i) + 2 = ?p" by simp
  have "mh_reach st1 (block_step Map.empty (Op_malloc 1 [] (Some (of_nat (998 + i)))))"
    by (rule reach_op [OF reach _ st1(1)]) simp
  then have reach1: "mh_reach st1 [?p \<mapsto> (1, [], True)]" unfolding block_step.simps p .
  note inv1 = reach_correct [OF reach1]
  have at_i: "i < length (mhandle_hash_table st1)" "mhandle_hash_table st1 ! i = it" using st1(2) len assms(2) by simp_all
  have "unat ?p = 1000 + i" using assms(2) by (simp only: unsigned_of_nat) (simp add: take_bit_nat_eq_self)
  then have p0: "?p \<noteq> 0" by (auto simp del: of_nat_add)
  have "mhandle_hash_table_get st1 ?p = ret (Some i)"
    using get_loop_live [OF mh_invD(2) at_i(1)] inv1 at_i st1(3,4)
    by (auto simp: mhandle_hash_table_get_def home_def Let_def)
  then obtain st2 it2 where st2: "mh_step st1 (Op_free ?p []) = ret st2"
      "mhandle_hash_table st2 = (mhandle_hash_table st1)[i := it2]" "it_active it2"
    using tombstone_remove [OF _ at_i(1) p0 _ st1(5), of "[]"] inv1 at_i(2) st1(3,6) by auto
  have "mh_reach st2 (block_step [?p \<mapsto> (1, [], True)] (Op_free ?p []))"
    by (rule reach_op [OF reach1 _ st2(1)]) simp
  then have "mh_reach st2 Map.empty" using p0 by simp
  then show ?thesis
    using st1(2) st2(2,3) len act assms(2) by (intro exI [of _ st2]) (auto simp: tombstones_def less_Suc_eq)
qed

lemma tombstones_reached: "i \<le> 1000 \<Longrightarrow> \<exists>st. tombstones i st"
proof (induction i)
  case 0
  have "tombstones 0 (mhandle_init (mhandle_start (\<lambda>_. 0)))"
    using reach_start [of "\<lambda>_. 0"]
    by (simp add: tombstones_def mhandle_init_def mhandle_start_def MHANDLE_HASH_TABLE_SIZE_def)
  then show ?case by blast
next
  case (Suc i)
  then show ?case using tombstone_round by auto
qed

section \<open>Properties\<close>

text \<open>C39: Every state that malloc, calloc, realloc, strdup, free and register reach, whatever the
  program writes to memory in between, tracks exactly the blocks handed out and not released, with
  their sizes, places and guard flags; the number of blocks and the bytes in use are exact (modulo the
  width of \<open>unsigned long\<close>), and the search for a tracked block ends with its item. This holds across
  the growth of the table.\<close>

theorem mhandle_tracks_blocks:
  assumes "mh_reach st m"
  shows "blocks st = m \<and> mhandle_hash_table_count st = int (card (dom m)) \<and>
    mhandle_used_memory st = (\<Sum>p \<in> dom m. fst (the (m p))) \<and>
    (\<forall>p info. m p = Some info \<longrightarrow>
      (\<exists>idx. mhandle_hash_table_get st p = ret (Some idx) \<and> it_ptr (mhandle_hash_table st ! idx) = p \<and>
             item_info (mhandle_hash_table st ! idx) = info))"
proof -
  have inv: "mh_inv st" and m: "blocks st = m" using reach_correct [OF assms] by auto
  have dist: "distinct (map it_ptr (live_items (mhandle_hash_table st)))"
    using mh_invD(2) [OF inv] by (simp add: table_ok_def)
  show ?thesis
    using live_sums [OF dist] mh_invD(4,5) [OF inv] m get_live [OF inv]
    unfolding mhandle_used_memory_def by metis
qed

theorem mhandle_tracks_blocks_witness:
  "\<exists>st. mh_reach st [18 \<mapsto> (5, ''a.c:1'', True)] \<and> mhandle_used_memory st = 5 \<and> mhandle_hash_table_count st = 1"
proof -
  let ?st = "mhandle_init (mhandle_start (\<lambda>_. 0))"
  have inv: "mh_inv ?st" "blocks ?st = Map.empty" by (rule mhandle_init_start)+
  obtain st' where "mh_step ?st (Op_malloc 5 ''a.c:1'' (Some 16)) = ret st'"
    using insert_correct [of "?st\<lparr>memory_bytes := b\<rparr>" 18 5 "''a.c:1''" True for b] inv
    by (auto simp: mhandle_malloc_def Let_def MHANDLE_CORRUPT_RANGE_def bindr_ret)
  then have "mh_reach st' (block_step Map.empty (Op_malloc 5 ''a.c:1'' (Some 16)))"
    by (rule reach_op [OF reach_start, rotated]) simp
  then have r: "mh_reach st' [18 \<mapsto> (5, ''a.c:1'', True)]" by simp
  then show ?thesis using mhandle_tracks_blocks [OF r] by (intro exI [of _ st']) simp
qed

text \<open>C40: A block from malloc, whatever is done to memory afterwards, is released by free exactly when
  its four guard bytes are intact, and free aborts when one of them was overwritten; a block of size 0
  can never be released (the check asserts a positive size).\<close>

theorem mhandle_free_checks_guards:
  assumes "mh_reach st m" "m (e + 2) = None" "e + 2 \<noteq> 0" "unat sz + 4 < 2 ^ 64"
  shows "\<exists>st'. mhandle_malloc st sz at (Some e) = ret (st', e + 2) \<and>
    guarded (memory_bytes st') (e + 2) sz \<and>
    (\<forall>bytes. let st1 = st'\<lparr>memory_bytes := bytes\<rparr> in
       if sz = 0 then mhandle_free st1 (e + 2) place = stops Assert
       else if guarded bytes (e + 2) sz
       then \<exists>st2. mhandle_free st1 (e + 2) place = ret st2 \<and> mh_reach st2 m
       else mhandle_free st1 (e + 2) place = stops Abort)"
proof -
  have inv: "mh_inv st" and m: "blocks st = m" using reach_correct [OF assms(1)] by auto
  let ?b = "mhandle_mark_corrupt (memory_bytes st) e (sz + MHANDLE_CORRUPT_TOTAL)"
  obtain st' where st': "mhandle_hash_table_insert (st\<lparr>memory_bytes := ?b\<rparr>) (e + 2) sz at True = ret st'"
      "memory_bytes st' = ?b"
    using insert_correct [of "st\<lparr>memory_bytes := ?b\<rparr>" "e + 2" sz at True] inv assms(2) m by auto
  have got: "mhandle_malloc st sz at (Some e) = ret (st', e + 2)"
    using st'(1) inv by (simp add: mhandle_malloc_def Let_def MHANDLE_CORRUPT_RANGE_def)
  have "mh_reach st' (block_step m (Op_malloc sz at (Some e)))"
    by (rule reach_op [OF assms(1)]) (simp_all add: assms(2) got)
  then have r: "mh_reach st' (m(e + 2 \<mapsto> (sz, at, True)))" by simp
  have g: "guarded (memory_bytes st') (e + 2) sz"
    using mark_corrupt_guards [OF assms(4), of "memory_bytes st" e] st'(2) by (simp add: MHANDLE_CORRUPT_RANGE_def)
  have "let st1 = st'\<lparr>memory_bytes := bytes\<rparr> in
       if sz = 0 then mhandle_free st1 (e + 2) place = stops Assert
       else if guarded bytes (e + 2) sz
       then \<exists>st2. mhandle_free st1 (e + 2) place = ret st2 \<and> mh_reach st2 m
       else mhandle_free st1 (e + 2) place = stops Abort" for bytes
  proof -
    let ?st1 = "st'\<lparr>memory_bytes := bytes\<rparr>"
    have r1: "mh_reach ?st1 (m(e + 2 \<mapsto> (sz, at, True)))" by (rule reach_write [OF r])
    have "mhandle_free ?st1 (e + 2) place = ret st2 \<Longrightarrow> mh_reach st2 m" for st2
      using reach_op [OF r1, of "Op_free (e + 2) place" st2] assms(2,3) by (simp add: fun_upd_idem)
    then show ?thesis
      using free_tracked [of ?st1 "e + 2" sz at True place] reach_correct [OF r1] assms(3)
      by (auto simp: Let_def split: if_splits)
  qed
  then show ?thesis using got g by blast
qed

theorem mhandle_free_checks_guards_witness:
  "\<exists>st'. mhandle_malloc (mhandle_init (mhandle_start (\<lambda>_. 0))) 0 ''a.c:1'' (Some 16) = ret (st', 18) \<and>
    mhandle_free (st'\<lparr>memory_bytes := (\<lambda>_. 0)\<rparr>) 18 ''a.c:2'' = stops Assert"
  using mhandle_free_checks_guards [OF reach_start [of "\<lambda>_. 0"], of 16 0 "''a.c:1''" "''a.c:2''"]
  by (auto simp: Let_def)

text \<open>A release of an address that is not tracked aborts when the table has an item that was never
  active, and never returns otherwise. For blocks at arbitrary addresses (not aligned as those of \<open>malloc\<close> are) a
  table with no such item is reached while nothing is allocated.\<close>

theorem mhandle_free_invalid:
  "(mh_reach st m \<and> p \<noteq> 0 \<and> m p = None \<longrightarrow>
     mhandle_free st p place =
       (if \<forall>it \<in> set (mhandle_hash_table st). it_active it then None else stops Abort)) \<and>
   (\<exists>full. mh_reach full Map.empty \<and> (\<forall>p place. p \<noteq> 0 \<longrightarrow> mhandle_free full p place = None))"
proof
  show "mh_reach st m \<and> p \<noteq> 0 \<and> m p = None \<longrightarrow>
     mhandle_free st p place =
       (if \<forall>it \<in> set (mhandle_hash_table st). it_active it then None else stops Abort)"
    using free_absent reach_correct by blast
  obtain full where full: "tombstones 1000 full" using tombstones_reached [of 1000] by auto
  then have r: "mh_reach full Map.empty" and "\<forall>it \<in> set (mhandle_hash_table full). it_active it"
    by (auto simp: tombstones_def in_set_conv_nth)
  then have "p \<noteq> 0 \<Longrightarrow> mhandle_free full p place = None" for p place
    using free_absent [of full p place] reach_correct [OF r] by simp
  then show "\<exists>full. mh_reach full Map.empty \<and> (\<forall>p place. p \<noteq> 0 \<longrightarrow> mhandle_free full p place = None)"
    using r by blast
qed

theorem mhandle_free_invalid_witness:
  "mhandle_free (mhandle_init (mhandle_start (\<lambda>_. 0))) 18 ''a.c:1'' = stops Abort"
proof -
  let ?st = "mhandle_init (mhandle_start (\<lambda>_. 0))"
  have "\<not> (\<forall>it \<in> set (mhandle_hash_table ?st). it_active it)"
    by (simp add: mhandle_init_def mhandle_start_def MHANDLE_HASH_TABLE_SIZE_def zero_item_def)
  then show ?thesis
    using mhandle_free_invalid [of ?st Map.empty 18 "''a.c:1''"] reach_start [of "\<lambda>_. 0"] by simp
qed

end
