(* ===== verification/Config.thy ===== *)
theory Config
  imports StringUtil HashTable LinkedList
begin

text \<open>
  Configuration files, \<open>src/lib/util/config.c\<close>: sections with variables, on two hash tables and a
  linked list of section names, with the file format, the typed readers and writers and the check of
  allowed and mandatory items.

  A file is the list of its characters. Operations return the new configuration. The formats of
  \<open>double\<close> and pointer values are those of the C library, given as arguments.
\<close>

section \<open>Data\<close>

definition HASH_TABLE_SIZE :: int where "HASH_TABLE_SIZE = 100"

text \<open>The values of \<open>items\<close>: \<open>(void *) 1\<close> for a section, a string for a variable.\<close>

datatype item_value = Present | Value string

datatype item_property = ITEM_ALLOWED | ITEM_MANDATORY

record config_t =
  file_name :: string
  items :: "item_value hash_table"
  allowed_items :: "item_property hash_table"
  section_list :: "string linked_list_t"

abbreviation newline :: char where
  "newline \<equiv> CHR 0x0A"

section \<open>Names\<close>

definition get_section_var_from_item :: "string \<Rightarrow> string \<times> string" where
  "get_section_var_from_item item =
     (let section = snprintf_s MAX_LONG_STRING_SIZE item
      in if newline \<in> set section
         then (takeWhile (\<lambda>c. c \<noteq> newline) section,
               snprintf_s MAX_LONG_STRING_SIZE (drop 1 (dropWhile (\<lambda>c. c \<noteq> newline) section)))
         else (section, []))"

definition get_item_from_section_var :: "string \<Rightarrow> string ptr \<Rightarrow> string run" where
  "get_item_from_section_var section var =
     (if section = [] then Inl Assert
      else
        let section_trim = str_single_spaces [] MAX_LONG_STRING_SIZE section
        in case var of
             None \<Rightarrow> Inr (snprintf_s MAX_LONG_STRING_SIZE section_trim)
           | Some v \<Rightarrow>
               if v = [] then Inr (snprintf_s MAX_LONG_STRING_SIZE section_trim)
               else andthen (str_trim (int MAX_LONG_STRING_SIZE) v) (\<lambda>var_trim.
                      Inr (snprintf_s MAX_LONG_STRING_SIZE (section_trim @ newline # var_trim))))"

text \<open>The variable, the value and whether the format is wrong.\<close>

definition get_var_value_from_item :: "string \<Rightarrow> (string \<times> string \<times> bool) run" where
  "get_var_value_from_item item =
     (if CHR ''='' \<notin> set item then Inr ([], [], True)
      else
        let equal_pos = length (takeWhile (\<lambda>c. c \<noteq> CHR ''='') item)
        in andthen (str_trim (int MAX_LONG_STRING_SIZE) (take equal_pos item)) (\<lambda>var.
           andthen (str_trim (int MAX_LONG_STRING_SIZE) (drop (equal_pos + 1) item)) (\<lambda>value.
           Inr (var, value, False))))"

text \<open>Both return whether the section or the variable was there already. A value that is not a string
  cannot be released.\<close>

definition config_insert_section :: "config_t \<Rightarrow> string \<Rightarrow> (config_t \<times> bool) run" where
  "config_insert_section config section =
     (let section_trim = str_single_spaces [] MAX_LONG_STRING_SIZE section
      in andthen (hash_table_insert (items config) section_trim (Some Present)) (\<lambda>(table, ret).
           if ret
           then andthen (linked_list_add (section_list config) (Some section_trim)) (\<lambda>l.
                  Inr (config\<lparr>items := table, section_list := l\<rparr>, False))
           else Inr (config\<lparr>items := table\<rparr>, True)))"

definition config_insert_var :: "config_t \<Rightarrow> string \<Rightarrow> string ptr \<Rightarrow> string \<Rightarrow> (config_t \<times> bool) run" where
  "config_insert_var config section var value =
     andthen (get_item_from_section_var section var) (\<lambda>item.
     andthen (str_trim (int MAX_LONG_STRING_SIZE) value) (\<lambda>value_trim.
       case hash_table_get (items config) item of
         Some Present \<Rightarrow> Inl Segv
       | Some (Value ovalue) \<Rightarrow>
           Inr (config\<lparr>items := fst (hash_table_set (items config) item (Some (Value value_trim)))\<rparr>, True)
       | None \<Rightarrow>
           andthen (hash_table_insert (items config) item (Some (Value value_trim))) (\<lambda>(table, ret).
             Inr (config\<lparr>items := table\<rparr>, False))))"

section \<open>Files\<close>

definition config_create :: "string \<Rightarrow> config_t" where
  "config_create filename =
     \<lparr>file_name = filename, items = hash_table_create HASH_TABLE_SIZE False,
      allowed_items = hash_table_create HASH_TABLE_SIZE False, section_list = linked_list_create\<rparr>"

definition config_get_file_name :: "config_t \<Rightarrow> string" where
  "config_get_file_name config = file_name config"

text \<open>\<open>fgets\<close> with a buffer of \<open>n\<close> bytes: the line, with its newline, and the rest of the file. The
  string in the buffer ends at the first null character.\<close>

definition fgets :: "nat \<Rightarrow> string \<Rightarrow> string \<times> string" where
  "fgets n f =
     (let k = min (n - 1) (length (takeWhile (\<lambda>c. c \<noteq> newline) f) + 1)
      in (take k f, drop k f))"

definition c_string :: "string \<Rightarrow> string" where
  "c_string s = takeWhile (\<lambda>c. c \<noteq> CHR 0x00) s"

text \<open>The body of the loop of \<open>config_load\<close>: a line, in the section \<open>section\<close>.\<close>

definition load_line :: "config_t \<Rightarrow> string \<Rightarrow> string \<Rightarrow> (config_t \<times> string) run" where
  "load_line config section line =
     andthen (str_trim (int MAX_LONG_STRING_SIZE) line) (\<lambda>line_trim.
       if line_trim = [] \<or> hd line_trim = CHR '';'' \<or> hd line_trim = CHR ''#'' then Inr (config, section)
       else if hd line_trim = CHR ''['' \<and> line_trim ! (length line_trim - 1) = CHR '']''
       then
         let section = str_single_spaces [] MAX_LONG_STRING_SIZE
               (line_trim[0 := CHR '' '', length line_trim - 1 := CHR '' ''])
         in andthen (config_insert_section config section) (\<lambda>(config, err).
              if err then Inl Fatal else Inr (config, section))
       else if section = [] then Inl Fatal
       else
         andthen (get_var_value_from_item line_trim) (\<lambda>(var, value, err).
           if err then Inl Fatal
           else andthen (config_insert_var config section (Some var) value) (\<lambda>(config, err).
                  if err then Inl Fatal else Inr (config, section))))"

function load_loop :: "config_t \<Rightarrow> string \<Rightarrow> string \<Rightarrow> config_t run" where
  "load_loop config section f =
     (if f = [] then Inr config
      else case fgets MAX_LONG_STRING_SIZE f of
             (line, rest) \<Rightarrow>
               andthen (load_line config section (c_string line)) (\<lambda>(config, section). load_loop config section rest))"
  by pat_completeness auto
termination
  by (relation "measure (\<lambda>(config, section, f). length f)")
    (auto simp: fgets_def Let_def MAX_LONG_STRING_SIZE_def)

declare load_loop.simps [simp del]

text \<open>\<open>f\<close> is the contents of the file, \<open>NULL\<close> when it cannot be opened.\<close>

definition config_load :: "config_t \<Rightarrow> string ptr \<Rightarrow> config_t run" where
  "config_load config f =
     (case f of None \<Rightarrow> Inl Fatal | Some text \<Rightarrow> load_loop config [] text)"

text \<open>The lines of the variables of a section, among the items enumerated.\<close>

primrec save_vars :: "string \<Rightarrow> (string \<times> item_value) list \<Rightarrow> string run" where
  "save_vars section [] = Inr []"
| "save_vars section (kv # kvs) =
     (case get_section_var_from_item (fst kv) of
        (section_buf, var_buf) \<Rightarrow>
          if var_buf \<noteq> [] \<and> strcmp section_buf section = 0
          then
            (case snd kv of
               Present \<Rightarrow> Inl Segv
             | Value value \<Rightarrow>
                 andthen (save_vars section kvs) (\<lambda>text. Inr (var_buf @ '' = '' @ value @ [newline] @ text)))
          else save_vars section kvs)"

primrec save_sections :: "item_value hash_table \<Rightarrow> string ptr list \<Rightarrow> (item_value hash_table \<times> string) run option" where
  "save_sections table [] = ret (table, [])"
| "save_sections table (s # ss) =
     (case s of
        None \<Rightarrow> stops Segv
      | Some section \<Rightarrow>
          bindr (hash_table_for_each table) (\<lambda>(table, kvs).
          bindr (Some (save_vars section kvs)) (\<lambda>vars.
          bindr (save_sections table ss) (\<lambda>(table, text).
          ret (table, ''[ '' @ section @ '' ]'' @ [newline] @ vars @ [newline] @ text)))))"

text \<open>The contents of the file written; \<open>opened\<close> is whether the file can be opened.\<close>

definition config_save :: "config_t \<Rightarrow> bool \<Rightarrow> (config_t \<times> string) run option" where
  "config_save config opened =
     (if \<not> opened then stops Fatal
      else
        bindr (LINKED_LIST_FOR_EACH (section_list config)) (\<lambda>(l, sections).
        bindr (save_sections (items config) sections) (\<lambda>(table, text).
        ret (config\<lparr>section_list := l, items := table\<rparr>, text))))"

definition config_section_exists :: "config_t \<Rightarrow> string \<Rightarrow> bool" where
  "config_section_exists config section =
     (hash_table_get (items config) (str_single_spaces [] MAX_LONG_STRING_SIZE section) \<noteq> NULL)"

definition config_var_exists :: "config_t \<Rightarrow> string \<Rightarrow> string ptr \<Rightarrow> bool run" where
  "config_var_exists config section var =
     andthen (get_item_from_section_var section var) (\<lambda>item. Inr (hash_table_get (items config) item \<noteq> NULL))"

definition config_section_remove :: "config_t \<Rightarrow> string \<Rightarrow> config_t \<times> int" where
  "config_section_remove config section = (config, 1)"

definition config_key_remove :: "config_t \<Rightarrow> string \<Rightarrow> string \<Rightarrow> config_t \<times> int" where
  "config_key_remove config section k = (config, 1)"

definition config_section_first :: "config_t \<Rightarrow> (config_t \<times> string ptr) run" where
  "config_section_first config =
     andthen (linked_list_get (linked_list_head (section_list config))) (\<lambda>(l, s).
       Inr (config\<lparr>section_list := l\<rparr>, s))"

definition config_section_next :: "config_t \<Rightarrow> (config_t \<times> string ptr) run" where
  "config_section_next config =
     andthen (linked_list_next (section_list config)) (\<lambda>l.
     andthen (linked_list_get l) (\<lambda>(l, s). Inr (config\<lparr>section_list := l\<rparr>, s)))"

section \<open>Writing variables\<close>

text \<open>Adding the section and the item to the allowed items, as \<open>config_write_string\<close> and
  \<open>config_read_string\<close> do; the section is not normalised here.\<close>

definition allow_section_item :: "config_t \<Rightarrow> string \<Rightarrow> string \<Rightarrow> config_t run" where
  "allow_section_item config section item =
     andthen
       (if hash_table_get (allowed_items config) section = NULL
        then andthen (hash_table_insert (allowed_items config) section (Some ITEM_ALLOWED)) (\<lambda>(t, _). Inr t)
        else Inr (allowed_items config))
       (\<lambda>table.
         andthen
           (if hash_table_get table item = NULL
            then andthen (hash_table_insert table item (Some ITEM_ALLOWED)) (\<lambda>(t, _). Inr t)
            else Inr table)
           (\<lambda>table. Inr (config\<lparr>allowed_items := table\<rparr>)))"

definition config_write_string :: "config_t \<Rightarrow> string \<Rightarrow> string ptr \<Rightarrow> string \<Rightarrow> config_t run" where
  "config_write_string config section var value =
     andthen (get_item_from_section_var section var) (\<lambda>item.
     andthen (allow_section_item config section item) (\<lambda>config.
     andthen (config_insert_section config section) (\<lambda>(config, _).
     andthen (config_insert_var config section var value) (\<lambda>(config, _).
     Inr config))))"

definition config_write_int :: "config_t \<Rightarrow> string \<Rightarrow> string ptr \<Rightarrow> 32 word \<Rightarrow> config_t run" where
  "config_write_int config section var value = config_write_string config section var (int_text (sint value))"

definition config_write_llint :: "config_t \<Rightarrow> string \<Rightarrow> string ptr \<Rightarrow> 64 word \<Rightarrow> config_t run" where
  "config_write_llint config section var value = config_write_string config section var (int_text (sint value))"

definition config_write_bool :: "config_t \<Rightarrow> string \<Rightarrow> string ptr \<Rightarrow> int \<Rightarrow> config_t run" where
  "config_write_bool config section var value =
     config_write_string config section var (if value \<noteq> 0 then ''True'' else ''False'')"

text \<open>\<open>format\<close> is the conversion of \<open>sprintf\<close>.\<close>

definition config_write_double :: "('d \<Rightarrow> string) \<Rightarrow> config_t \<Rightarrow> string \<Rightarrow> string ptr \<Rightarrow> 'd \<Rightarrow> config_t run" where
  "config_write_double format config section var value = config_write_string config section var (format value)"

definition config_write_ptr :: "(64 word \<Rightarrow> string) \<Rightarrow> config_t \<Rightarrow> string \<Rightarrow> string ptr \<Rightarrow> 64 word \<Rightarrow> config_t run" where
  "config_write_ptr format config section var value = config_write_string config section var (format value)"

section \<open>Reading variables\<close>

definition config_read_string ::
  "config_t \<Rightarrow> string \<Rightarrow> string ptr \<Rightarrow> string ptr \<Rightarrow> (config_t \<times> item_value ptr) run" where
  "config_read_string config section var def =
     andthen (get_item_from_section_var section var) (\<lambda>item.
     andthen (allow_section_item config section item) (\<lambda>config.
       case hash_table_get (items config) item of
         Some value \<Rightarrow> Inr (config, Some value)
       | None \<Rightarrow> Inr (config, map_option Value def)))"

text \<open>The typed readers: the default when the variable is not there, otherwise \<open>f\<close> of its text. The
  mark of a section is not a string.\<close>

definition read_with ::
  "config_t \<Rightarrow> string \<Rightarrow> string ptr \<Rightarrow> 'r \<Rightarrow> (string \<Rightarrow> 'r run) \<Rightarrow> (config_t \<times> 'r) run" where
  "read_with config section var def f =
     andthen (config_read_string config section var NULL) (\<lambda>(config, result).
       case result of
         None \<Rightarrow> Inr (config, def)
       | Some Present \<Rightarrow> Inl Segv
       | Some (Value text) \<Rightarrow> andthen (f text) (\<lambda>r. Inr (config, r)))"

definition config_read_int :: "config_t \<Rightarrow> string \<Rightarrow> string ptr \<Rightarrow> int \<Rightarrow> (config_t \<times> int) run" where
  "config_read_int config section var def =
     read_with config section var def (\<lambda>text.
       andthen (str_to_int text) (\<lambda>(value, err). if err \<noteq> str_err_ok then Inl Fatal else Inr value))"

definition config_read_llint :: "config_t \<Rightarrow> string \<Rightarrow> string ptr \<Rightarrow> int \<Rightarrow> (config_t \<times> int) run" where
  "config_read_llint config section var def =
     read_with config section var def (\<lambda>text.
       andthen (str_to_llint text) (\<lambda>(value, err). if err \<noteq> str_err_ok then Inl Fatal else Inr value))"

definition config_read_bool :: "config_t \<Rightarrow> string \<Rightarrow> string ptr \<Rightarrow> int \<Rightarrow> (config_t \<times> int) run" where
  "config_read_bool config section var def =
     read_with config section var def (\<lambda>text.
       if strcasecmp text ''t'' = 0 \<or> strcasecmp text ''True'' = 0 \<or> strcasecmp text ''On'' = 0 then Inr 1
       else if strcasecmp text ''f'' = 0 \<or> strcasecmp text ''False'' = 0 \<or> strcasecmp text ''Off'' = 0 then Inr 0
       else Inl Fatal)"

text \<open>\<open>scan\<close> is the conversion of \<open>sscanf\<close>.\<close>

definition config_read_double ::
  "(string \<Rightarrow> 'd) \<Rightarrow> config_t \<Rightarrow> string \<Rightarrow> string ptr \<Rightarrow> 'd \<Rightarrow> (config_t \<times> 'd) run" where
  "config_read_double scan config section var def = read_with config section var def (\<lambda>text. Inr (scan text))"

definition config_read_ptr ::
  "(string \<Rightarrow> 64 word) \<Rightarrow> config_t \<Rightarrow> string \<Rightarrow> string ptr \<Rightarrow> 64 word \<Rightarrow> (config_t \<times> 64 word) run" where
  "config_read_ptr scan config section var def = read_with config section var def (\<lambda>text. Inr (scan text))"

primrec enum_index :: "string list \<Rightarrow> string \<Rightarrow> int \<Rightarrow> int run" where
  "enum_index [] result i = Inl Fatal"
| "enum_index (name # names) result i = (if strcasecmp name result = 0 then Inr i else enum_index names result (i + 1))"

definition config_read_enum :: "config_t \<Rightarrow> string \<Rightarrow> string ptr \<Rightarrow> int \<Rightarrow> string list \<Rightarrow> (config_t \<times> int) run" where
  "config_read_enum config section var def names =
     read_with config section var def (\<lambda>result. enum_index names result 0)"

section \<open>Allowed and mandatory items\<close>

definition allowed_items_insert :: "config_t \<Rightarrow> string \<Rightarrow> string ptr \<Rightarrow> item_property \<Rightarrow> config_t run" where
  "allowed_items_insert config section var property =
     andthen (get_item_from_section_var section var) (\<lambda>item.
       let table = (if hash_table_get (allowed_items config) item \<noteq> NULL
                    then fst (hash_table_set (allowed_items config) item (Some property))
                    else allowed_items config)
       in andthen (hash_table_insert table item (Some property)) (\<lambda>(table, _).
            Inr (config\<lparr>allowed_items := table\<rparr>)))"

definition item_is_allowed :: "config_t \<Rightarrow> string \<Rightarrow> string ptr \<Rightarrow> bool run" where
  "item_is_allowed config section var =
     andthen (get_item_from_section_var section var) (\<lambda>item.
       Inr (hash_table_get (allowed_items config) item \<noteq> NULL))"

definition item_is_present :: "config_t \<Rightarrow> string \<Rightarrow> string ptr \<Rightarrow> bool run" where
  "item_is_present config section var =
     andthen (get_item_from_section_var section var) (\<lambda>item.
       Inr (hash_table_get (items config) item \<noteq> NULL))"

definition config_section_allow :: "config_t \<Rightarrow> string \<Rightarrow> config_t run" where
  "config_section_allow config section = allowed_items_insert config section NULL ITEM_ALLOWED"

definition config_section_enforce :: "config_t \<Rightarrow> string \<Rightarrow> config_t run" where
  "config_section_enforce config section = allowed_items_insert config section NULL ITEM_MANDATORY"

definition config_var_allow :: "config_t \<Rightarrow> string \<Rightarrow> string \<Rightarrow> config_t run" where
  "config_var_allow config section var = allowed_items_insert config section (Some var) ITEM_ALLOWED"

definition config_var_enforce :: "config_t \<Rightarrow> string \<Rightarrow> string \<Rightarrow> config_t run" where
  "config_var_enforce config section var = allowed_items_insert config section (Some var) ITEM_MANDATORY"

text \<open>The two loops of \<open>config_check\<close>, over what the enumerations of the tables visit.\<close>

primrec check_mandatory :: "config_t \<Rightarrow> (string \<times> item_property) list \<Rightarrow> unit run" where
  "check_mandatory config [] = Inr ()"
| "check_mandatory config (kv # kvs) =
     (if snd kv = ITEM_ALLOWED then check_mandatory config kvs
      else
        case get_section_var_from_item (fst kv) of
          (section, var) \<Rightarrow>
            andthen (item_is_present config section NULL) (\<lambda>b.
              if \<not> b then Inl Fatal
              else andthen (item_is_present config section (Some var)) (\<lambda>b.
                     if \<not> b then Inl Fatal else check_mandatory config kvs)))"

primrec check_allowed :: "config_t \<Rightarrow> (string \<times> item_value) list \<Rightarrow> unit run" where
  "check_allowed config [] = Inr ()"
| "check_allowed config (kv # kvs) =
     (case get_section_var_from_item (fst kv) of
        (section, var) \<Rightarrow>
          andthen (item_is_allowed config section (Some var)) (\<lambda>b.
            if b then check_allowed config kvs else Inl Fatal))"

definition config_check :: "config_t \<Rightarrow> config_t run option" where
  "config_check config =
     bindr (hash_table_for_each (allowed_items config)) (\<lambda>(allowed, kvs).
     bindr (Some (check_mandatory (config\<lparr>allowed_items := allowed\<rparr>) kvs)) (\<lambda>_.
     bindr (hash_table_for_each (items config)) (\<lambda>(table, kvs).
     bindr (Some (check_allowed (config\<lparr>allowed_items := allowed, items := table\<rparr>) kvs)) (\<lambda>_.
     ret (config\<lparr>allowed_items := allowed, items := table\<rparr>)))))"

text \<open>The same for one section.\<close>

primrec section_check_mandatory :: "config_t \<Rightarrow> string \<Rightarrow> (string \<times> item_property) list \<Rightarrow> unit run" where
  "section_check_mandatory config section_ref [] = Inr ()"
| "section_check_mandatory config section_ref (kv # kvs) =
     (if snd kv = ITEM_ALLOWED then section_check_mandatory config section_ref kvs
      else
        case get_section_var_from_item (fst kv) of
          (section, var) \<Rightarrow>
            if strcasecmp section section_ref \<noteq> 0 then section_check_mandatory config section_ref kvs
            else andthen (item_is_present config section (Some var)) (\<lambda>b.
                   if \<not> b then Inl Fatal else section_check_mandatory config section_ref kvs))"

primrec section_check_allowed :: "config_t \<Rightarrow> string \<Rightarrow> (string \<times> item_value) list \<Rightarrow> unit run" where
  "section_check_allowed config section_ref [] = Inr ()"
| "section_check_allowed config section_ref (kv # kvs) =
     (case get_section_var_from_item (fst kv) of
        (section, var) \<Rightarrow>
          if strcasecmp section section_ref \<noteq> 0 then section_check_allowed config section_ref kvs
          else andthen (item_is_allowed config section (Some var)) (\<lambda>b.
                 if \<not> b then Inl Fatal else section_check_allowed config section_ref kvs))"

definition config_section_check :: "config_t \<Rightarrow> string \<Rightarrow> config_t run option" where
  "config_section_check config section_ref =
     bindr (hash_table_for_each (allowed_items config)) (\<lambda>(allowed, kvs).
     bindr (Some (section_check_mandatory (config\<lparr>allowed_items := allowed\<rparr>) section_ref kvs)) (\<lambda>_.
     bindr (hash_table_for_each (items config)) (\<lambda>(table, kvs).
     bindr (Some (section_check_allowed (config\<lparr>allowed_items := allowed, items := table\<rparr>) section_ref kvs)) (\<lambda>_.
     ret (config\<lparr>allowed_items := allowed, items := table\<rparr>)))))"

section \<open>Normal forms of names\<close>

abbreviation lower :: "string \<Rightarrow> string" where
  "lower \<equiv> map tolower"

definition norm_section :: "string \<Rightarrow> string" where
  "norm_section s = take 8191 (join '' '' (pieces isspace s))"

definition item_name :: "string \<Rightarrow> string ptr \<Rightarrow> string" where
  "item_name section var =
     take 8191 (norm_section section @
       (case var of None \<Rightarrow> [] | Some v \<Rightarrow> if v = [] then [] else newline # take 8191 (strip v)))"

lemma long_size [simp]: "MAX_LONG_STRING_SIZE = 8192"
  by (simp add: MAX_LONG_STRING_SIZE_def)

lemma single_spaces_norm [simp]: "str_single_spaces [] 8192 s = norm_section s"
  by (simp add: str_single_spaces_eq norm_section_def)

lemma trim_long [simp]: "str_trim 8192 s = Inr (take 8191 (strip s))"
  by (simp add: str_trim_eq)

lemma get_item_eq: "section \<noteq> [] \<Longrightarrow> get_item_from_section_var section var = Inr (item_name section var)"
  by (auto simp: get_item_from_section_var_def item_name_def snprintf_s_def norm_section_def split: option.split)

lemma take_join_spaces:
  assumes "c \<in> set (join '' '' ws)" "\<forall>w \<in> set ws. \<forall>d \<in> set w. \<not> isspace d"
  shows "c = CHR '' '' \<or> \<not> isspace c"
  using assms by (induction "'' ''" ws rule: join.induct) auto

lemma norm_no_newline: "newline \<notin> set (norm_section s)"
proof
  assume "newline \<in> set (norm_section s)"
  then have "newline \<in> set (join '' '' (pieces isspace s))" unfolding norm_section_def by (rule in_set_takeD)
  then have "newline = CHR '' '' \<or> \<not> isspace newline" using take_join_spaces pieces_props by blast
  then show False by (simp add: isspace_def char_code_def)
qed

lemma char_code_tolower:
  "char_code (tolower c) = (if 65 \<le> char_code c \<and> char_code c \<le> 90 then char_code c + 32 else char_code c)"
  by (simp add: tolower_def char_code_char_of)

lemma newline_code: "c = newline \<longleftrightarrow> char_code c = 10"
proof -
  have "char_code newline = 10" by (simp add: char_code_def)
  then show ?thesis by (metis char_code_inj)
qed

lemma lower_newline [simp]: "newline \<in> set (lower k) \<longleftrightarrow> newline \<in> set k"
proof -
  have "tolower c = newline \<longleftrightarrow> c = newline" for c
    unfolding newline_code char_code_tolower by auto
  then show ?thesis by (metis (no_types, lifting) image_iff list.set_map)
qed

text \<open>A proper variable name: the section leaves room for the separator.\<close>

definition var_name_ok :: "string \<Rightarrow> string ptr \<Rightarrow> bool" where
  "var_name_ok section var \<longleftrightarrow> section \<noteq> [] \<and> length (norm_section section) < 8191 \<and>
     (\<exists>v. var = Some v \<and> v \<noteq> [])"

lemma var_item_newline: "var_name_ok section var \<Longrightarrow> newline \<in> set (item_name section var)"
  by (auto simp: var_name_ok_def item_name_def take_Cons' split: if_splits)

section \<open>The invariant\<close>

abbreviation cfg_map :: "config_t \<Rightarrow> (string \<rightharpoonup> item_value)" where
  "cfg_map c \<equiv> hash_table_map (items c)"

abbreviation allow_map :: "config_t \<Rightarrow> (string \<rightharpoonup> item_property)" where
  "allow_map c \<equiv> hash_table_map (allowed_items c)"

text \<open>The names of sections are the items without a newline; the list has each once.\<close>

definition cfg_inv :: "config_t \<Rightarrow> string list \<Rightarrow> bool" where
  "cfg_inv c ss \<longleftrightarrow> hash_table_inv (items c) \<and> \<not> case_sensitive (items c) \<and>
     hash_table_inv (allowed_items c) \<and> \<not> case_sensitive (allowed_items c) \<and>
     (\<exists>i. ll_abs (section_list c) (map Some ss, i)) \<and>
     (\<forall>k v. cfg_map c k = Some v \<longrightarrow> (v = Present \<longleftrightarrow> newline \<notin> set k)) \<and>
     distinct (map lower ss) \<and> (\<forall>k. cfg_map c k = Some Present \<longleftrightarrow> k \<in> lower ` set ss)"

lemma cfg_invD:
  assumes "cfg_inv c ss"
  shows "hash_table_inv (items c)" "\<not> case_sensitive (items c)" "hash_table_inv (allowed_items c)"
    "\<not> case_sensitive (allowed_items c)" "\<exists>i. ll_abs (section_list c) (map Some ss, i)"
    "\<And>k v. cfg_map c k = Some v \<Longrightarrow> v = Present \<longleftrightarrow> newline \<notin> set k"
    "distinct (map lower ss)" "\<And>k. cfg_map c k = Some Present \<longleftrightarrow> k \<in> lower ` set ss"
  using assms by (auto simp: cfg_inv_def)

lemma canon_lower: "\<not> case_sensitive t \<Longrightarrow> canon t = lower"
  by (simp add: canon_def fun_eq_iff)

lemma canon_sensitive: "canon t = canon u \<Longrightarrow> case_sensitive t = case_sensitive u"
proof (rule ccontr)
  assume c: "canon t = canon u" and "case_sensitive t \<noteq> case_sensitive u"
  then have "lower ''A'' = ''A''" by (cases "case_sensitive t") (metis canon_def)+
  then have "char_code (tolower (CHR ''A'')) = char_code (CHR ''A'')" by simp
  moreover have "char_code (CHR ''A'') = 65" by (simp add: char_code_def)
  ultimately show False by (simp only: char_code_tolower) simp
qed

lemma get_lower: "hash_table_inv t \<Longrightarrow> \<not> case_sensitive t \<Longrightarrow> hash_table_get t k = hash_table_map t (lower k)"
  by (simp add: hash_dict.get_law canon_lower)

lemma insert_lower:
  assumes "hash_table_inv t" "\<not> case_sensitive t"
  shows "\<exists>t'. hash_table_insert t k (Some v) = Inr (t', hash_table_map t (lower k) = None) \<and> hash_table_inv t' \<and>
    \<not> case_sensitive t' \<and>
    hash_table_map t' = (if hash_table_map t (lower k) = None then (hash_table_map t)(lower k \<mapsto> v) else hash_table_map t)"
  using hash_dict.ins_law [OF assms(1), of k "Some v"] canon_lower [OF assms(2)] canon_sensitive [of _ t] assms(2)
  by fastforce

lemma set_lower:
  assumes "hash_table_inv t" "\<not> case_sensitive t" "hash_table_map t (lower k) \<noteq> None"
  shows "hash_table_inv (fst (hash_table_set t k (Some v)))" "\<not> case_sensitive (fst (hash_table_set t k (Some v)))"
    "hash_table_map (fst (hash_table_set t k (Some v))) = (hash_table_map t)(lower k \<mapsto> v)"
  using hash_dict.put_law [OF assms(1), of k "Some v"] canon_lower [OF assms(2)] canon_sensitive [of _ t] assms(2,3)
  by fastforce+

lemma create_lower: "case_sensitive (hash_table_create n cs) = cs"
  by (simp add: hash_table_create_def Let_def)

lemma config_create_inv: "cfg_inv (config_create f) []" "cfg_map (config_create f) = Map.empty"
  "allow_map (config_create f) = Map.empty"
proof -
  have "\<exists>i. ll_abs (linked_list_create :: string linked_list_t) ([], i)"
    using ll_absI [OF linked_list_create_rep refl] by blast
  then show "cfg_inv (config_create f) []"
    by (simp add: cfg_inv_def config_create_def hash_table_inv_create create_lower)
qed (simp_all add: config_create_def hash_table_inv_create)

section \<open>Writing and reading\<close>

lemma config_insert_section_correct:
  assumes inv: "cfg_inv c ss"
  shows "\<exists>c'. config_insert_section c s = Inr (c', cfg_map c (lower (norm_section s)) \<noteq> None) \<and>
    file_name c' = file_name c \<and> allowed_items c' = allowed_items c \<and>
    (if cfg_map c (lower (norm_section s)) = None
     then cfg_inv c' (ss @ [norm_section s]) \<and> cfg_map c' = (cfg_map c)(lower (norm_section s) \<mapsto> Present)
     else cfg_inv c' ss \<and> cfg_map c' = cfg_map c)"
proof -
  let ?n = "norm_section s"
  note I = cfg_invD [OF inv]
  obtain t where t: "hash_table_insert (items c) ?n (Some Present) = Inr (t, cfg_map c (lower ?n) = None)"
      "hash_table_inv t" "\<not> case_sensitive t"
      "hash_table_map t = (if cfg_map c (lower ?n) = None then (cfg_map c)(lower ?n \<mapsto> Present) else cfg_map c)"
    using insert_lower [OF I(1,2)] by blast
  show ?thesis
  proof (cases "cfg_map c (lower ?n) = None")
    case False
    then show ?thesis
      using t inv by (auto simp: config_insert_section_def cfg_inv_def)
  next
    case True
    obtain i where l: "ll_abs (section_list c) (map Some ss, i)" using I(5) by blast
    obtain l' where l': "linked_list_add (section_list c) (Some ?n) = Inr l'"
        "ll_abs l' (map Some (ss @ [?n]), length ss + 1)"
      using ll_step_correct [OF l, of "Add (Some ?n)"] by (auto simp: step_ok_def andthen_eq_Inr)
    have new: "lower ?n \<notin> lower ` set ss" using I(8) [of "lower ?n"] True by auto
    have "cfg_inv (c\<lparr>items := t, section_list := l'\<rparr>) (ss @ [?n])"
      unfolding cfg_inv_def
    proof (intro conjI allI impI)
      fix k v assume k: "cfg_map (c\<lparr>items := t, section_list := l'\<rparr>) k = Some v"
      then show "v = Present \<longleftrightarrow> newline \<notin> set k"
        using True t(4) I(6) [of k v] norm_no_newline [of s] lower_newline [of ?n]
        by (cases "k = lower ?n") (simp_all del: lower_newline set_map)
    next
      fix k
      show "cfg_map (c\<lparr>items := t, section_list := l'\<rparr>) k = Some Present \<longleftrightarrow> k \<in> lower ` set (ss @ [?n])"
        using True t(4) I(8) [of k] by auto
    qed (use t I l'(2) new in auto)
    then show ?thesis using True t l'(1) by (simp add: config_insert_section_def)
  qed
qed

lemma config_insert_var_correct:
  assumes inv: "cfg_inv c ss" and name: "var_name_ok s var"
  shows "\<exists>c'. config_insert_var c s var value = Inr (c', cfg_map c (lower (item_name s var)) \<noteq> None) \<and>
    cfg_inv c' ss \<and> file_name c' = file_name c \<and> allowed_items c' = allowed_items c \<and>
    cfg_map c' = (cfg_map c)(lower (item_name s var) \<mapsto> Value (take 8191 (strip value)))"
proof -
  let ?k = "item_name s var" and ?v = "Value (take 8191 (strip value))"
  note I = cfg_invD [OF inv]
  have nl: "newline \<in> set (lower ?k)" using var_item_newline [OF name] by (simp del: set_map)
  have item: "get_item_from_section_var s var = Inr ?k" using name get_item_eq by (simp add: var_name_ok_def)
  have get: "hash_table_get (items c) ?k = cfg_map c (lower ?k)" using get_lower I(1,2) by blast
  have keep: "cfg_inv (c\<lparr>items := t\<rparr>) ss"
    if t: "hash_table_inv t" "\<not> case_sensitive t" "hash_table_map t = (cfg_map c)(lower ?k \<mapsto> ?v)" for t
  proof -
    have "lower ?k \<notin> lower ` set ss" using I(6,8) [of "lower ?k"] nl by auto
    moreover have "\<And>k v. hash_table_map t k = Some v \<Longrightarrow> v = Present \<longleftrightarrow> newline \<notin> set k"
      using I(6) nl t(3) by (auto split: if_splits simp del: set_map lower_newline)
    moreover have "hash_table_map t k = Some Present \<longleftrightarrow> k \<in> lower ` set ss" for k
      using I(8) [of k] t(3) calculation(1) by auto
    ultimately show ?thesis using I(3-5,7) t(1,2) unfolding cfg_inv_def by simp
  qed
  show ?thesis
  proof (cases "cfg_map c (lower ?k)")
    case None
    then obtain t where "hash_table_insert (items c) ?k (Some ?v) = Inr (t, True)" "hash_table_inv t"
        "\<not> case_sensitive t" "hash_table_map t = (cfg_map c)(lower ?k \<mapsto> ?v)"
      using insert_lower [OF I(1,2), of ?k ?v] by auto
    then show ?thesis using keep None item get by (simp add: config_insert_var_def)
  next
    case (Some w)
    then obtain ovalue where w: "w = Value ovalue" using I(6) [OF Some] nl by (cases w) auto
    note S = set_lower [OF I(1,2), of ?k ?v]
    show ?thesis using keep [OF S] S(3) Some w item get by (simp add: config_insert_var_def)
  qed
qed

lemma allow_section_item_correct:
  assumes inv: "cfg_inv c ss"
  shows "\<exists>c'. allow_section_item c s k = Inr c' \<and> cfg_inv c' ss \<and> items c' = items c \<and> file_name c' = file_name c \<and>
    allow_map c' = (\<lambda>x. if allow_map c x = None \<and> (x = lower s \<or> x = lower k) then Some ITEM_ALLOWED else allow_map c x)"
proof -
  note I = cfg_invD [OF inv]
  have step: "\<exists>t'. (if hash_table_get t k = NULL
        then andthen (hash_table_insert t k (Some ITEM_ALLOWED)) (\<lambda>(t, _). Inr t) else Inr t) = Inr t' \<and>
      hash_table_inv t' \<and> \<not> case_sensitive t' \<and>
      hash_table_map t' = (\<lambda>x. if hash_table_map t x = None \<and> x = lower k then Some ITEM_ALLOWED else hash_table_map t x)"
    if t: "hash_table_inv t" "\<not> case_sensitive t" for t k
    using insert_lower [OF t, of k ITEM_ALLOWED] t get_lower [OF t, of k] by (auto simp: fun_eq_iff)
  obtain t where t: "(if hash_table_get (allowed_items c) s = NULL
        then andthen (hash_table_insert (allowed_items c) s (Some ITEM_ALLOWED)) (\<lambda>(t, _). Inr t)
        else Inr (allowed_items c)) = Inr t" "hash_table_inv t" "\<not> case_sensitive t"
      "hash_table_map t = (\<lambda>x. if allow_map c x = None \<and> x = lower s then Some ITEM_ALLOWED else allow_map c x)"
    using step [OF I(3,4)] by blast
  obtain t' where t': "(if hash_table_get t k = NULL
        then andthen (hash_table_insert t k (Some ITEM_ALLOWED)) (\<lambda>(t, _). Inr t) else Inr t) = Inr t'"
      "hash_table_inv t'" "\<not> case_sensitive t'"
      "hash_table_map t' = (\<lambda>x. if hash_table_map t x = None \<and> x = lower k then Some ITEM_ALLOWED else hash_table_map t x)"
    using step [OF t(2,3)] by blast
  have "cfg_inv (c\<lparr>allowed_items := t'\<rparr>) ss" using inv t'(2,3) by (simp add: cfg_inv_def)
  then show ?thesis using t(1,4) t'(1,4) by (auto simp: allow_section_item_def fun_eq_iff)
qed

text \<open>The effect of a write and of a read on the two maps.\<close>

lemma config_write_string_correct:
  assumes inv: "cfg_inv c ss" and name: "var_name_ok s var"
  shows "\<exists>c' ss'. config_write_string c s var value = Inr c' \<and> cfg_inv c' ss' \<and> file_name c' = file_name c \<and>
    cfg_map c' = (cfg_map c)(lower (norm_section s) \<mapsto> Present,
                             lower (item_name s var) \<mapsto> Value (take 8191 (strip value))) \<and>
    allow_map c' = (\<lambda>x. if allow_map c x = None \<and> (x = lower s \<or> x = lower (item_name s var))
                        then Some ITEM_ALLOWED else allow_map c x)"
proof -
  have item: "get_item_from_section_var s var = Inr (item_name s var)"
    using name get_item_eq by (simp add: var_name_ok_def)
  obtain c1 where c1: "allow_section_item c s (item_name s var) = Inr c1" "cfg_inv c1 ss" "items c1 = items c"
      "file_name c1 = file_name c"
      "allow_map c1 = (\<lambda>x. if allow_map c x = None \<and> (x = lower s \<or> x = lower (item_name s var))
                        then Some ITEM_ALLOWED else allow_map c x)"
    using allow_section_item_correct [OF inv] by blast
  let ?n = "lower (norm_section s)"
  obtain c2 b ss2 where c2: "config_insert_section c1 s = Inr (c2, b)" "cfg_inv c2 ss2" "file_name c2 = file_name c1"
      "allowed_items c2 = allowed_items c1" "cfg_map c2 = (cfg_map c1)(?n \<mapsto> Present)"
  proof -
    have "cfg_map c1 ?n \<noteq> None \<Longrightarrow> cfg_map c1 ?n = Some Present"
      using cfg_invD(6) [OF c1(2), of ?n] norm_no_newline [of s] by (auto simp del: set_map)
    then have "cfg_map c1 ?n \<noteq> None \<Longrightarrow> (cfg_map c1)(?n \<mapsto> Present) = cfg_map c1" by (simp add: fun_upd_idem)
    then show thesis using config_insert_section_correct [OF c1(2), of s] that by (auto split: if_splits)
  qed
  obtain c3 where "config_insert_var c2 s var value = Inr (c3, cfg_map c2 (lower (item_name s var)) \<noteq> None)"
      "cfg_inv c3 ss2" "file_name c3 = file_name c2" "allowed_items c3 = allowed_items c2"
      "cfg_map c3 = (cfg_map c2)(lower (item_name s var) \<mapsto> Value (take 8191 (strip value)))"
    using config_insert_var_correct [OF c2(2) name] by blast
  then show ?thesis
    using item c1 c2 by (intro exI [of _ c3] exI [of _ ss2]) (simp add: config_write_string_def)
qed

lemma config_read_string_correct:
  assumes inv: "cfg_inv c ss" and s: "s \<noteq> []"
  shows "\<exists>c'. config_read_string c s var def =
      Inr (c', case cfg_map c (lower (item_name s var)) of None \<Rightarrow> map_option Value def | Some v \<Rightarrow> Some v) \<and>
    cfg_inv c' ss \<and> items c' = items c"
proof -
  obtain c1 where c1: "allow_section_item c s (item_name s var) = Inr c1" "cfg_inv c1 ss" "items c1 = items c"
    using allow_section_item_correct [OF inv] by blast
  have "hash_table_get (items c1) (item_name s var) = cfg_map c (lower (item_name s var))"
    using get_lower cfg_invD(1,2) [OF c1(2)] c1(3) by metis
  then show ?thesis
    using c1 get_item_eq [OF s] by (auto simp: config_read_string_def split: option.split)
qed

section \<open>Typed values\<close>

lemma strip_int_text: "take 8191 (strip (int_text v)) = int_text v" if "\<bar>v\<bar> < 10 ^ 100"
proof -
  obtain sg ds where t: "int_text v = sg @ ds @ []" "decimal_text sg ds []" using decimal_int_text by blast
  have "strip (int_text v) = int_text v" using decimal_strip [OF t(2), of "[]" "[]"] t(1) by simp
  then show ?thesis using int_text_length [of v 99] that by simp
qed

lemma read_with_value:
  assumes "cfg_inv c ss" "s \<noteq> []" "cfg_map c (lower (item_name s var)) = Some (Value text)" "f text = Inr r"
  shows "\<exists>c'. read_with c s var def f = Inr (c', r)"
  using config_read_string_correct [OF assms(1,2), of var NULL] assms(3,4) by (auto simp: read_with_def)

lemma sint_bounds:
  "- (2 ^ 31) \<le> sint (w :: 32 word) \<and> sint w < 2 ^ 31"
  "- (2 ^ 63) \<le> sint (x :: 64 word) \<and> sint x < 2 ^ 63"
  using sint_ge [of w] sint_lt [of w] sint_ge [of x] sint_lt [of x] by simp_all

lemma sint_small: "\<bar>sint (w :: 32 word)\<bar> < 10 ^ 100" "\<bar>sint (x :: 64 word)\<bar> < 10 ^ 100"
  using sint_bounds(1) [of w] sint_bounds(2) [of x] by (auto simp: abs_less_iff)

lemma str_to_int_sint: "str_to_int (int_text (sint (w :: 32 word))) = Inr (sint w, str_err_ok)"
  using str_to_num_int_text [of 32 "sint w" 8] sint_bounds(1) [of w] sint_small(1)
  by (simp add: str_to_int_def in_range_def INT_MIN_def INT_MAX_def)

lemma str_to_llint_sint: "str_to_llint (int_text (sint (w :: 64 word))) = Inr (sint w, str_err_ok)"
  using str_to_num_int_text [of 64 "sint w" 16] sint_bounds(2) [of w] sint_small(2)
  by (simp add: str_to_llint_def in_range_def INT_MIN_def INT_MAX_def)

section \<open>The check\<close>

text \<open>Names that survive the way from the table to the check and back.\<close>

definition key_clean :: "string \<Rightarrow> bool" where
  "key_clean k \<longleftrightarrow> (case get_section_var_from_item k of (s, v) \<Rightarrow> s \<noteq> [] \<and> item_name s (Some v) = k)"

definition section_of :: "string \<Rightarrow> string" where
  "section_of k = norm_section (fst (get_section_var_from_item k))"

lemma item_name_none: "item_name s None = norm_section s"
  by (simp add: item_name_def norm_section_def)

lemma item_is_present_eq:
  assumes "cfg_inv c ss" "s \<noteq> []"
  shows "item_is_present c s var = Inr (cfg_map c (lower (item_name s var)) \<noteq> None)"
    "item_is_allowed c s var = Inr (allow_map c (lower (item_name s var)) \<noteq> None)"
  using get_lower [OF cfg_invD(1,2) [OF assms(1)]] get_lower [OF cfg_invD(3,4) [OF assms(1)]]
  by (simp_all add: item_is_present_def item_is_allowed_def get_item_eq [OF assms(2)])

lemma check_mandatory_eq:
  assumes "cfg_inv c ss" "\<forall>kv \<in> set kvs. snd kv = ITEM_MANDATORY \<longrightarrow> key_clean (fst kv)"
  shows "check_mandatory c kvs =
    (if \<forall>kv \<in> set kvs. snd kv = ITEM_MANDATORY \<longrightarrow>
          cfg_map c (lower (section_of (fst kv))) \<noteq> None \<and> cfg_map c (lower (fst kv)) \<noteq> None
     then Inr () else Inl Fatal)"
  using assms(2)
proof (induction kvs)
  case (Cons kv kvs)
  obtain s v where sv: "get_section_var_from_item (fst kv) = (s, v)" by fastforce
  show ?case
  proof (cases "snd kv")
    case ITEM_ALLOWED
    then show ?thesis using Cons by simp
  next
    case ITEM_MANDATORY
    then have s: "s \<noteq> []" "item_name s (Some v) = fst kv" using Cons.prems sv by (auto simp: key_clean_def)
    have "section_of (fst kv) = norm_section s" by (simp add: section_of_def sv)
    then show ?thesis
      using Cons ITEM_MANDATORY sv s item_is_present_eq(1) [OF assms(1) s(1)] by (simp add: item_name_none)
  qed
qed simp

lemma check_allowed_eq:
  assumes "cfg_inv c ss" "\<forall>kv \<in> set kvs. key_clean (fst kv)"
  shows "check_allowed c kvs =
    (if \<forall>kv \<in> set kvs. allow_map c (lower (fst kv)) \<noteq> None then Inr () else Inl Fatal)"
  using assms(2)
proof (induction kvs)
  case (Cons kv kvs)
  obtain s v where sv: "get_section_var_from_item (fst kv) = (s, v)" by fastforce
  then have s: "s \<noteq> []" "item_name s (Some v) = fst kv" using Cons.prems by (auto simp: key_clean_def)
  then show ?case using Cons sv item_is_present_eq(2) [OF assms(1) s(1)] by simp
qed simp

abbreviation pairs :: "'v hash_table \<Rightarrow> (string \<times> 'v) list" where
  "pairs t \<equiv> map kv_pair (ht_elems t)"

lemma map_pairs:
  "hash_table_inv t \<Longrightarrow> \<not> case_sensitive t \<Longrightarrow>
   hash_table_map t k = Some v \<longleftrightarrow> (\<exists>k'. (k', v) \<in> set (pairs t) \<and> lower k' = k)"
  by (auto simp: hash_table_map_Some canon_lower image_iff)

lemma map_pairsD:
  "hash_table_inv t \<Longrightarrow> \<not> case_sensitive t \<Longrightarrow> kv \<in> set (pairs t) \<Longrightarrow>
   hash_table_map t (lower (fst kv)) = Some (snd kv)"
  by (subst map_pairs) (auto intro!: exI [of _ "fst kv"])

lemma for_each_lower:
  assumes "hash_table_inv t" "\<not> case_sensitive t"
  shows "\<exists>t'. hash_table_for_each t = ret (t', pairs t) \<and> hash_table_inv t' \<and> \<not> case_sensitive t' \<and>
    ht_elems t' = ht_elems t \<and> hash_table_map t' = hash_table_map t"
proof -
  obtain t' where t': "hash_table_for_each t = ret (t', pairs t)" "hash_table_inv t'"
      "case_sensitive t' = case_sensitive t" "ht_elems t' = ht_elems t"
    using hash_table_for_each_correct [OF assms(1)] by blast
  have "hash_table_map t' = hash_table_map t"
    using case_sensitive_canon [OF t'(3)] t'(4) by (simp add: hash_table_map_def)
  then show ?thesis using t' assms(2) by blast
qed

text \<open>The check with clean names: it returns exactly when every mandatory item and its section are
  present and every item present is allowed, and stops with \<open>fatal\<close> otherwise.\<close>

lemma config_check_correct:
  assumes inv: "cfg_inv c ss"
    and clean: "\<forall>kv \<in> set (pairs (items c)). key_clean (fst kv)"
      "\<forall>kv \<in> set (pairs (allowed_items c)). snd kv = ITEM_MANDATORY \<longrightarrow> key_clean (fst kv)"
  shows "if (\<forall>kv \<in> set (pairs (allowed_items c)). snd kv = ITEM_MANDATORY \<longrightarrow>
               cfg_map c (lower (section_of (fst kv))) \<noteq> None \<and> cfg_map c (lower (fst kv)) \<noteq> None) \<and>
            (\<forall>kv \<in> set (pairs (items c)). allow_map c (lower (fst kv)) \<noteq> None)
    then \<exists>c'. config_check c = ret c' \<and> cfg_inv c' ss \<and> cfg_map c' = cfg_map c \<and> allow_map c' = allow_map c
    else config_check c = stops Fatal"
proof -
  note I = cfg_invD [OF inv]
  obtain ta where ta: "hash_table_for_each (allowed_items c) = ret (ta, pairs (allowed_items c))"
      "hash_table_inv ta" "\<not> case_sensitive ta" "hash_table_map ta = allow_map c"
    using for_each_lower [OF I(3,4)] by blast
  obtain ti where ti: "hash_table_for_each (items c) = ret (ti, pairs (items c))"
      "hash_table_inv ti" "\<not> case_sensitive ti" "hash_table_map ti = cfg_map c"
    using for_each_lower [OF I(1,2)] by blast
  let ?c1 = "c\<lparr>allowed_items := ta\<rparr>" and ?c2 = "c\<lparr>allowed_items := ta, items := ti\<rparr>"
  have inv1: "cfg_inv ?c1 ss" and inv2: "cfg_inv ?c2 ss" using inv ta ti by (simp_all add: cfg_inv_def)
  show ?thesis
    using check_mandatory_eq [OF inv1 clean(2)] check_allowed_eq [OF inv2 clean(1)] inv2 ta ti
    by (auto simp: config_check_def)
qed

section \<open>Saving and loading\<close>

lemma strip_ends:
  assumes "strip s = s" "s \<noteq> []"
  shows "\<not> isspace (hd s)" "\<not> isspace (last s)"
proof -
  have r: "rev s = dropWhile isspace (rev (dropWhile isspace s))" using assms(1) by (metis rev_rev_ident strip_def)
  have "\<not> isspace (hd (rev s))" using r assms(2) hd_dropWhile by (metis rev_is_Nil_conv)
  then show "\<not> isspace (last s)" by (simp add: hd_rev)
  show "\<not> isspace (hd s)"
  proof
    assume h: "isspace (hd s)"
    obtain c t where s: "s = c # t" using assms(2) by (cases s) auto
    have "length (dropWhile isspace s) \<le> length t" using h s length_dropWhile_le by auto
    moreover have "length s \<le> length (dropWhile isspace s)"
      using r length_dropWhile_le [of isspace "rev (dropWhile isspace s)"] by (metis length_rev)
    ultimately show False using s by simp
  qed
qed

lemma strip_nil [simp]: "strip [] = []"
  by (simp add: strip_def)

lemma split_at_snoc: "P c \<Longrightarrow> split_at P (s @ [c]) = split_at P s @ [[]]"
proof (induction s)
  case (Cons d s)
  moreover obtain w ws where "split_at P s = w # ws" using split_at_hd by blast
  ultimately show ?case by simp
qed simp

lemma pieces_snoc: "P c \<Longrightarrow> pieces P (s @ [c]) = pieces P s"
  by (simp add: pieces_def split_at_snoc)

lemma space_char [simp]: "isspace (CHR '' '')" "isspace newline"
  by (simp_all add: isspace_def char_code_def)

lemma bracket_chars [simp]: "\<not> isspace (CHR ''['')" "\<not> isspace (CHR '']'')" "\<not> isspace (CHR ''='')"
  by (simp_all add: isspace_def char_code_def)

lemma norm_padded: "norm_section (''  '' @ s @ ''  '') = norm_section s"
proof -
  have "pieces isspace (''  '' @ s @ ''  '') = pieces isspace ((s @ '' '') @ '' '')" by simp
  also have "\<dots> = pieces isspace (s @ '' '')" by (rule pieces_snoc) simp
  also have "\<dots> = pieces isspace s" by (rule pieces_snoc) simp
  finally show ?thesis by (simp only: norm_section_def)
qed

text \<open>The names, variables and values that a file can hold.\<close>

abbreviation plain :: "string \<Rightarrow> bool" where
  "plain s \<equiv> newline \<notin> set s \<and> CHR 0x00 \<notin> set s"

definition section_ok :: "string \<Rightarrow> bool" where
  "section_ok s \<longleftrightarrow> s \<noteq> [] \<and> norm_section s = s \<and> plain s \<and> length s + 5 \<le> 8191"

definition pair_ok :: "string \<Rightarrow> string \<Rightarrow> string \<Rightarrow> bool" where
  "pair_ok s v w \<longleftrightarrow> v \<noteq> [] \<and> strip v = v \<and> strip w = w \<and> plain v \<and> plain w \<and> CHR ''='' \<notin> set v \<and>
     hd v \<notin> set '';#['' \<and> length s + 1 + length v \<le> 8191 \<and> length v + length w + 4 \<le> 8191"

definition file_clean :: "config_t \<Rightarrow> string list \<Rightarrow> bool" where
  "file_clean c ss \<longleftrightarrow> (\<forall>s \<in> set ss. section_ok s) \<and>
     (\<forall>kv \<in> set (pairs (items c)).
        case snd kv of Present \<Rightarrow> True
        | Value w \<Rightarrow> (case get_section_var_from_item (fst kv) of
            (s, v) \<Rightarrow> s \<in> set ss \<and> fst kv = s @ newline # v \<and> pair_ok s v w))"

text \<open>A line of a variable, and the lines of a file.\<close>

definition var_line :: "string \<times> string \<Rightarrow> string" where
  "var_line vw = fst vw @ '' = '' @ snd vw"

lemma fgets_line:
  assumes "newline \<notin> set l" "length l < 8191"
  shows "fgets 8192 (l @ newline # rest) = (l @ [newline], rest)"
proof -
  have "takeWhile (\<lambda>c. c \<noteq> newline) (l @ newline # rest) = l"
    using assms(1) by (subst takeWhile_append2) auto
  then show ?thesis using assms(2) by (simp add: fgets_def Let_def)
qed

lemma load_loop_step:
  assumes "plain l" "length l < 8191"
  shows "load_loop c sec (l @ newline # rest) =
    andthen (load_line c sec (l @ [newline])) (\<lambda>(c, sec). load_loop c sec rest)"
proof -
  have "c_string (l @ [newline]) = l @ [newline]"
    unfolding c_string_def using assms(1) by (subst takeWhile_eq_all_conv) auto
  then show ?thesis
    using fgets_line [of l rest] assms by (subst load_loop.simps) simp
qed

lemma load_blank: "load_line c sec [newline] = Inr (c, sec)"
  by (simp add: load_line_def strip_spaces)

lemma load_section_line:
  assumes s: "section_ok s"
  shows "load_line c sec (''[ '' @ s @ '' ]'' @ [newline]) =
    andthen (config_insert_section c s) (\<lambda>(c, err). if err then Inl Fatal else Inr (c, s))"
proof -
  let ?l = "''[ '' @ s @ '' ]''"
  have "strip ([] @ ?l @ [newline]) = ?l" by (rule strip_inner) simp_all
  moreover have "take 8191 ?l = ?l" using s by (intro take_all) (simp add: section_ok_def)
  ultimately have trim: "str_trim 8192 (''[ '' @ s @ '' ]'' @ [newline]) = Inr ?l"
    unfolding trim_long append_Nil append_assoc by argo
  have "?l[0 := CHR '' '', length ?l - 1 := CHR '' ''] = ''  '' @ s @ ''  ''"
    by (simp add: list_update_append)
  moreover have "?l ! (length ?l - 1) = CHR '']''" by (simp add: nth_append)
  ultimately show ?thesis
    using s norm_padded [of s] trim by (simp add: load_line_def section_ok_def Let_def)
qed

lemma var_line_parts:
  assumes ok: "pair_ok s v w"
  defines "L \<equiv> if w = [] then v @ '' ='' else v @ '' = '' @ w"
  shows "str_trim 8192 (var_line (v, w) @ [newline]) = Inr L" "L \<noteq> []" "hd L = hd v"
    "get_var_value_from_item L = Inr (v, w, False)"
proof -
  have v: "v \<noteq> []" "strip v = v" "CHR ''='' \<notin> set v" "strip w = w" using ok by (auto simp: pair_ok_def)
  note ve = strip_ends [OF v(2,1)] and we = strip_ends [OF v(4)]
  have len: "length L < 8191" using ok by (auto simp: L_def pair_ok_def)
  show L: "L \<noteq> []" "hd L = hd v" using v(1) by (simp_all add: L_def)
  have "strip (var_line (v, w) @ [newline]) = L"
  proof (cases "w = []")
    case True
    then show ?thesis using strip_inner [of "[]" "'' '' @ [newline]" "v @ '' =''"] ve v(1)
      by (simp add: var_line_def L_def)
  next
    case False
    then show ?thesis using strip_inner [of "[]" "[newline]" "v @ '' = '' @ w"] ve v(1) we
      by (simp add: var_line_def L_def)
  qed
  then show "str_trim 8192 (var_line (v, w) @ [newline]) = Inr L" using len by simp
  have split: "L = (v @ '' '') @ CHR ''='' # (if w = [] then [] else '' '' @ w)" by (simp add: L_def)
  have "takeWhile (\<lambda>c. c \<noteq> CHR ''='') L = v @ '' ''"
    unfolding split using v(3) by (subst takeWhile_append2) auto
  then have pos: "take (length (takeWhile (\<lambda>c. c \<noteq> CHR ''='') L)) L = v @ '' ''"
    "drop (length (takeWhile (\<lambda>c. c \<noteq> CHR ''='') L) + 1) L = (if w = [] then [] else '' '' @ w)"
    by (simp_all add: L_def)
  have "strip (v @ '' '') = v" using strip_inner [of "[]" "'' ''" v] ve v(1) by simp
  moreover have "w \<noteq> [] \<Longrightarrow> strip ('' '' @ w) = w" using strip_inner [of "'' ''" "[]" w] we by simp
  moreover have "CHR ''='' \<in> set L" by (simp add: split)
  ultimately show "get_var_value_from_item L = Inr (v, w, False)"
    using pos ok by (auto simp: get_var_value_from_item_def Let_def pair_ok_def)
qed

lemma load_var_line:
  assumes s: "section_ok s" and ok: "pair_ok s v w"
  shows "load_line c s (var_line (v, w) @ [newline]) =
    andthen (config_insert_var c s (Some v) w) (\<lambda>(c, err). if err then Inl Fatal else Inr (c, s))"
  using var_line_parts [OF ok] ok s by (auto simp: load_line_def pair_ok_def section_ok_def)

section \<open>A whole file\<close>

text \<open>The items of the lines of a section.\<close>

definition var_items :: "string \<Rightarrow> (string \<times> string) list \<Rightarrow> (string \<times> item_value) list" where
  "var_items s vws = map (\<lambda>vw. (lower (s @ newline # fst vw), Value (snd vw))) vws"

lemma var_items_simps [simp]:
  "var_items s [] = []"
  "var_items s ((v, w) # vws) = (lower (s @ newline # v), Value w) # var_items s vws"
  by (simp_all add: var_items_def)

lemma item_name_pair:
  assumes "section_ok s" "pair_ok s v w"
  shows "item_name s (Some v) = s @ newline # v"
proof -
  have len: "length v \<le> 8191" "length (s @ newline # v) \<le> 8191"
    using assms(2) by (simp_all add: pair_ok_def)
  have "take 8191 v = v" by (rule take_all [OF len(1)])
  moreover have "take 8191 (s @ newline # v) = s @ newline # v" by (rule take_all [OF len(2)])
  ultimately show ?thesis using assms by (simp add: item_name_def section_ok_def pair_ok_def del: take_append)
qed

lemma load_vars:
  assumes "cfg_inv c ss" "section_ok s" "\<forall>vw \<in> set vws. pair_ok s (fst vw) (snd vw)"
    and "distinct (map fst (var_items s vws))" "\<forall>k \<in> fst ` set (var_items s vws). cfg_map c k = None"
  shows "\<exists>c'. load_loop c s (concat (map (\<lambda>vw. var_line vw @ [newline]) vws) @ rest) = load_loop c' s rest \<and>
    cfg_inv c' ss \<and> cfg_map c' = cfg_map c ++ map_of (var_items s vws)"
  using assms
proof (induction vws arbitrary: c)
  case (Cons vw vws)
  obtain v w where vw: "vw = (v, w)" by fastforce
  let ?k = "lower (s @ newline # v)"
  have ok: "pair_ok s v w" using Cons.prems(3) vw by simp
  have name: "item_name s (Some v) = s @ newline # v" using item_name_pair Cons.prems(2) ok by blast
  have "var_name_ok s (Some v)" using Cons.prems(2) ok by (auto simp: var_name_ok_def section_ok_def pair_ok_def)
  then obtain c1 where c1: "config_insert_var c s (Some v) w = Inr (c1, False)" "cfg_inv c1 ss"
      "cfg_map c1 = (cfg_map c)(?k \<mapsto> Value (take 8191 (strip w)))"
    using config_insert_var_correct [OF Cons.prems(1), of s "Some v" w] Cons.prems(5) name
    by (auto simp: vw simp del: list.map(2) map_append)
  have w: "take 8191 (strip w) = w" using ok by (simp add: pair_ok_def)
  have plain: "plain (var_line (v, w))" "length (var_line (v, w)) < 8191"
    using ok by (auto simp: pair_ok_def var_line_def)
  have step: "load_loop c s (var_line vw @ newline # t) = load_loop c1 s t" for t
    using load_loop_step [OF plain] load_var_line [OF Cons.prems(2) ok] c1(1) by (simp add: vw)
  have dist: "?k \<notin> fst ` set (var_items s vws)" "distinct (map fst (var_items s vws))"
    using Cons.prems(4) by (simp_all add: vw del: map_append)
  have fresh: "\<forall>k \<in> fst ` set (var_items s vws). cfg_map c1 k = None"
    using Cons.prems(5) dist(1) c1(3) unfolding vw var_items_simps
    by (metis fst_conv fun_upd_other image_insert insertCI list.simps(15))
  obtain c' where c': "load_loop c1 s (concat (map (\<lambda>vw. var_line vw @ [newline]) vws) @ rest) = load_loop c' s rest"
      "cfg_inv c' ss" "cfg_map c' = cfg_map c1 ++ map_of (var_items s vws)"
    using Cons.IH [OF c1(2) Cons.prems(2) _ dist(2) fresh] Cons.prems(3) by auto
  have "cfg_map c1 ++ map_of (var_items s vws) = cfg_map c ++ map_of (var_items s (vw # vws))"
    using dist(1) c1(3) w by (simp add: vw map_add_upd_left dom_map_of_conv_image_fst del: map_append)
  then show ?case using c' step by (intro exI [of _ c']) simp
qed (auto simp: var_items_def)

text \<open>A section with its lines and the blank line after it.\<close>

definition section_text :: "string \<Rightarrow> (string \<times> string) list \<Rightarrow> string" where
  "section_text s vws =
     ''[ '' @ s @ '' ]'' @ [newline] @ concat (map (\<lambda>vw. var_line vw @ [newline]) vws) @ [newline]"

definition section_items :: "string \<Rightarrow> (string \<times> string) list \<Rightarrow> (string \<times> item_value) list" where
  "section_items s vws = (lower s, Present) # var_items s vws"

lemma load_section:
  assumes inv: "cfg_inv c ss" and s: "section_ok s" and vws: "\<forall>vw \<in> set vws. pair_ok s (fst vw) (snd vw)"
    and dist: "distinct (map fst (section_items s vws))"
    and fresh: "\<forall>k \<in> fst ` set (section_items s vws). cfg_map c k = None"
  shows "\<exists>c'. load_loop c sec (section_text s vws @ rest) = load_loop c' s rest \<and>
    cfg_inv c' (ss @ [s]) \<and> cfg_map c' = cfg_map c ++ map_of (section_items s vws)"
proof -
  have n: "norm_section s = s" using s by (simp add: section_ok_def)
  obtain c1 where c1: "config_insert_section c s = Inr (c1, False)" "cfg_inv c1 (ss @ [s])"
      "cfg_map c1 = (cfg_map c)(lower s \<mapsto> Present)"
    using config_insert_section_correct [OF inv, of s] fresh n by (auto simp: section_items_def)
  have plain: "plain (''[ '' @ s @ '' ]'')" "length (''[ '' @ s @ '' ]'') < 8191"
    using s by (auto simp: section_ok_def)
  have head: "load_loop c sec (''[ '' @ s @ '' ]'' @ newline # t) = load_loop c1 s t" for t
    using load_loop_step [OF plain, of c sec t] load_section_line [OF s, of c sec] c1(1) by simp
  have d: "distinct (map fst (var_items s vws))" "lower s \<notin> fst ` set (var_items s vws)"
    using dist by (simp_all add: section_items_def)
  have "\<forall>k \<in> fst ` set (var_items s vws). cfg_map c1 k = None"
    using fresh d(2) c1(3) unfolding section_items_def by (metis fun_upd_other image_insert insertCI list.simps(15))
  then obtain c2 where c2: "load_loop c1 s (concat (map (\<lambda>vw. var_line vw @ [newline]) vws) @ newline # rest) =
        load_loop c2 s (newline # rest)" "cfg_inv c2 (ss @ [s])" "cfg_map c2 = cfg_map c1 ++ map_of (var_items s vws)"
    using load_vars [OF c1(2) s vws d(1), of "newline # rest"] by auto
  have "load_loop c2 s (newline # rest) = load_loop c2 s rest"
    using load_loop_step [of "[]" c2 s rest] load_blank by simp
  moreover have "cfg_map c2 = cfg_map c ++ map_of (section_items s vws)"
    using d(2) c1(3) c2(3) by (simp add: section_items_def map_add_upd_left dom_map_of_conv_image_fst)
  ultimately show ?thesis using head c2(1,2) by (intro exI [of _ c2]) (simp add: section_text_def)
qed

lemma load_sections:
  assumes "cfg_inv c ss0" "\<forall>s \<in> set ss. section_ok s \<and> (\<forall>vw \<in> set (vws s). pair_ok s (fst vw) (snd vw))"
    and "distinct (map fst (concat (map (\<lambda>s. section_items s (vws s)) ss)))"
    and "\<forall>k \<in> fst ` set (concat (map (\<lambda>s. section_items s (vws s)) ss)). cfg_map c k = None"
  shows "\<exists>c'. load_loop c sec (concat (map (\<lambda>s. section_text s (vws s)) ss)) = Inr c' \<and> cfg_inv c' (ss0 @ ss) \<and>
    cfg_map c' = cfg_map c ++ map_of (concat (map (\<lambda>s. section_items s (vws s)) ss))"
  using assms
proof (induction ss arbitrary: c ss0 sec)
  case Nil
  then show ?case by (simp add: load_loop.simps)
next
  case (Cons s ss)
  let ?E = "section_items s (vws s)" and ?R = "concat (map (\<lambda>s. section_items s (vws s)) ss)"
  have d: "distinct (map fst ?E)" "distinct (map fst ?R)" "fst ` set ?E \<inter> fst ` set ?R = {}"
    using Cons.prems(3) by simp_all
  obtain c1 where c1: "load_loop c sec (section_text s (vws s) @ concat (map (\<lambda>s. section_text s (vws s)) ss)) =
        load_loop c1 s (concat (map (\<lambda>s. section_text s (vws s)) ss))"
      "cfg_inv c1 (ss0 @ [s])" "cfg_map c1 = cfg_map c ++ map_of ?E"
    using load_section [OF Cons.prems(1) _ _ d(1)] Cons.prems(2,4) by fastforce
  have fresh: "\<forall>k \<in> fst ` set ?R. cfg_map c1 k = None"
  proof
    fix k assume k: "k \<in> fst ` set ?R"
    then have "map_of ?E k = None" using d(3) by (auto simp: map_of_eq_None_iff)
    moreover have kk: "k \<in> fst ` set (concat (map (\<lambda>s. section_items s (vws s)) (s # ss)))" using k by auto
    have "cfg_map c k = None" by (rule bspec [OF Cons.prems(4) kk])
    ultimately show "cfg_map c1 k = None" using c1(3) by (simp add: map_add_def)
  qed
  obtain c' where c': "load_loop c1 s (concat (map (\<lambda>s. section_text s (vws s)) ss)) = Inr c'"
      "cfg_inv c' ((ss0 @ [s]) @ ss)" "cfg_map c' = cfg_map c1 ++ map_of ?R"
    using Cons.IH [OF c1(2) _ d(2) fresh, of s] Cons.prems(2) by auto
  have "map_of ?E ++ map_of ?R = map_of ?R ++ map_of ?E"
    using d(3) by (intro map_add_comm) (simp add: dom_map_of_conv_image_fst)
  then show ?case using c1 c' by (intro exI [of _ c']) (simp flip: map_add_assoc)
qed

text \<open>The lines that \<open>config_save\<close> writes for a section.\<close>

definition vars_of :: "(string \<times> item_value) list \<Rightarrow> string \<Rightarrow> (string \<times> string) list" where
  "vars_of kvs s =
     map (\<lambda>kv. (snd (get_section_var_from_item (fst kv)), case snd kv of Value w \<Rightarrow> w | Present \<Rightarrow> []))
       (filter (\<lambda>kv. snd kv \<noteq> Present \<and> fst (get_section_var_from_item (fst kv)) = s) kvs)"

text \<open>The pairs of a table that is fit for a file, as \<open>file_clean\<close> says.\<close>

definition pairs_clean :: "string list \<Rightarrow> (string \<times> item_value) list \<Rightarrow> bool" where
  "pairs_clean ss kvs \<longleftrightarrow> (\<forall>kv \<in> set kvs.
     case snd kv of Present \<Rightarrow> newline \<notin> set (fst kv)
     | Value w \<Rightarrow> (case get_section_var_from_item (fst kv) of
         (s, v) \<Rightarrow> s \<in> set ss \<and> fst kv = s @ newline # v \<and> pair_ok s v w))"

lemma pairs_cleanD:
  assumes "pairs_clean ss kvs" "kv \<in> set kvs"
  shows "snd kv = Present \<Longrightarrow> newline \<notin> set (fst kv)"
    and "snd kv = Value w \<Longrightarrow> \<exists>s v. get_section_var_from_item (fst kv) = (s, v) \<and> s \<in> set ss \<and>
      fst kv = s @ newline # v \<and> pair_ok s v w"
proof -
  have c: "case snd kv of Present \<Rightarrow> newline \<notin> set (fst kv)
     | Value w \<Rightarrow> (case get_section_var_from_item (fst kv) of
         (s, v) \<Rightarrow> s \<in> set ss \<and> fst kv = s @ newline # v \<and> pair_ok s v w)"
    using assms unfolding pairs_clean_def by blast
  show "snd kv = Present \<Longrightarrow> newline \<notin> set (fst kv)" using c by simp
  obtain s v where "get_section_var_from_item (fst kv) = (s, v)" by fastforce
  then show "snd kv = Value w \<Longrightarrow> \<exists>s v. get_section_var_from_item (fst kv) = (s, v) \<and> s \<in> set ss \<and>
      fst kv = s @ newline # v \<and> pair_ok s v w" using c by simp
qed

lemma save_vars_eq:
  assumes "pairs_clean ss kvs"
  shows "save_vars s kvs = Inr (concat (map (\<lambda>vw. var_line vw @ [newline]) (vars_of kvs s)))"
  using assms
proof (induction kvs)
  case (Cons kv kvs)
  have rest: "pairs_clean ss kvs" using Cons.prems by (simp add: pairs_clean_def)
  show ?case
  proof (cases "snd kv")
    case Present
    then have "newline \<notin> set (fst kv)" using pairs_cleanD(1) [OF Cons.prems] by simp
    then have "snd (get_section_var_from_item (fst kv)) = []"
      by (auto simp: get_section_var_from_item_def Let_def snprintf_s_def dest: in_set_takeD)
    then show ?thesis using Cons.IH [OF rest] Present by (simp add: vars_of_def split_beta)
  next
    case (Value w)
    then obtain t v where tv: "get_section_var_from_item (fst kv) = (t, v)" "pair_ok t v w"
      using pairs_cleanD(2) [OF Cons.prems, of kv w] by auto
    then have "v \<noteq> []" by (simp add: pair_ok_def)
    then show ?thesis using Cons.IH [OF rest] Value tv by (simp add: vars_of_def var_line_def)
  qed
qed (simp add: vars_of_def)

lemma save_sections_eq:
  assumes "hash_table_inv t" "\<not> case_sensitive t" "pairs_clean all (pairs t)"
  shows "\<exists>t'. save_sections t (map Some ss) =
      ret (t', concat (map (\<lambda>s. section_text s (vars_of (pairs t) s)) ss)) \<and>
    hash_table_inv t' \<and> \<not> case_sensitive t' \<and> hash_table_map t' = hash_table_map t \<and> ht_elems t' = ht_elems t"
  using assms
proof (induction ss arbitrary: t)
  case (Cons s ss)
  obtain t1 where t1: "hash_table_for_each t = ret (t1, pairs t)" "hash_table_inv t1" "\<not> case_sensitive t1"
      "ht_elems t1 = ht_elems t" "hash_table_map t1 = hash_table_map t"
    using for_each_lower [OF Cons.prems(1,2)] by blast
  obtain t2 where "save_sections t1 (map Some ss) =
      ret (t2, concat (map (\<lambda>s. section_text s (vars_of (pairs t) s)) ss))"
      "hash_table_inv t2" "\<not> case_sensitive t2" "hash_table_map t2 = hash_table_map t1" "ht_elems t2 = ht_elems t1"
    using Cons.IH [OF t1(2,3)] Cons.prems(3) t1(4) by auto
  then show ?case
    using t1 save_vars_eq [OF Cons.prems(3), of s] by (simp add: section_text_def)
qed auto

lemma vars_of_clean:
  assumes "pairs_clean ss kvs" "vw \<in> set (vars_of kvs s)"
  shows "pair_ok s (fst vw) (snd vw)" "(s @ newline # fst vw, Value (snd vw)) \<in> set kvs"
proof -
  obtain kv where kv: "kv \<in> set kvs" "snd kv \<noteq> Present" "fst (get_section_var_from_item (fst kv)) = s"
      "vw = (snd (get_section_var_from_item (fst kv)), case snd kv of Value w \<Rightarrow> w | Present \<Rightarrow> [])"
    using assms(2) by (auto simp: vars_of_def)
  obtain w where w: "snd kv = Value w" using kv(2) by (cases "snd kv") auto
  obtain t v where "get_section_var_from_item (fst kv) = (t, v)" "fst kv = t @ newline # v" "pair_ok t v w"
    using pairs_cleanD(2) [OF assms(1) kv(1) w] by blast
  then have "t = s" "vw = (v, w)" "kv = (s @ newline # v, Value w)" "pair_ok s v w"
    using kv w by (simp_all add: prod_eq_iff)
  then show "pair_ok s (fst vw) (snd vw)" "(s @ newline # fst vw, Value (snd vw)) \<in> set kvs"
    using kv(1) by simp_all
qed

lemma vars_of_all:
  assumes "pairs_clean ss kvs" "(k, Value w) \<in> set kvs"
  shows "\<exists>s \<in> set ss. \<exists>v. k = s @ newline # v \<and> (v, w) \<in> set (vars_of kvs s)"
proof -
  obtain s v where "get_section_var_from_item k = (s, v)" "s \<in> set ss" "k = s @ newline # v"
    using pairs_cleanD(2) [OF assms(1,2), of w] by auto
  moreover from calculation(1) have "(v, w) \<in> set (vars_of kvs s)"
    unfolding vars_of_def using assms(2) by (auto simp: image_iff intro!: exI [of _ k] exI [of _ "Value w"])
  ultimately show ?thesis by blast
qed

abbreviation file_items :: "string list \<Rightarrow> (string \<times> item_value) list \<Rightarrow> (string \<times> item_value) list" where
  "file_items ss kvs \<equiv> concat (map (\<lambda>s. section_items s (vars_of kvs s)) ss)"

lemma section_items_key:
  assumes "pairs_clean all kvs" "k \<in> fst ` set (section_items s (vars_of kvs s))"
  shows "k = lower s \<or> (\<exists>v w. k = lower (s @ newline # v) \<and> (s @ newline # v, Value w) \<in> set kvs)"
  using assms vars_of_clean(2) [OF assms(1)] by (fastforce simp: section_items_def var_items_def)

lemma newline_split: "newline \<notin> set s \<Longrightarrow> newline \<notin> set t \<Longrightarrow> s @ newline # v = t @ newline # w \<Longrightarrow> s = t"
proof (induction s arbitrary: t)
  case (Cons c s)
  then show ?case by (cases t) auto
next
  case Nil
  then show ?case by (cases t) auto
qed

lemma distinct_keys:
  assumes "distinct (map (lower \<circ> fst) kvs)" "a \<in> set kvs" "b \<in> set kvs" "lower (fst a) = lower (fst b)"
  shows "a = b"
  using assms by (metis (no_types, lifting) comp_apply distinct_map inj_onD)

lemma var_items_vars_of:
  assumes "pairs_clean all kvs"
  shows "map fst (var_items s (vars_of kvs s)) = map (lower \<circ> fst)
    (filter (\<lambda>kv. snd kv \<noteq> Present \<and> fst (get_section_var_from_item (fst kv)) = s) kvs)"
proof -
  have "lower (s @ newline # snd (get_section_var_from_item (fst kv))) = lower (fst kv)"
    if h: "kv \<in> set kvs" "snd kv \<noteq> Present" "fst (get_section_var_from_item (fst kv)) = s" for kv
  proof -
    obtain w where "snd kv = Value w" using h(2) by (cases "snd kv") auto
    then show ?thesis using pairs_cleanD(2) [OF assms h(1), of w] h(3) by auto
  qed
  then show ?thesis by (simp add: var_items_def vars_of_def)
qed

lemma file_items_distinct:
  assumes clean: "pairs_clean all kvs" and dist: "distinct (map (lower \<circ> fst) kvs)"
    and ss: "distinct (map lower ss)" "\<forall>s \<in> set ss. newline \<notin> set s"
  shows "distinct (map fst (file_items ss kvs))"
  using ss
proof (induction ss)
  case (Cons s ss)
  have nl: "newline \<notin> set (lower s)" using Cons.prems(2) by (simp del: set_map)
  have "lower s \<notin> fst ` set (var_items s (vars_of kvs s))"
  proof
    assume "lower s \<in> fst ` set (var_items s (vars_of kvs s))"
    then obtain v where "lower s = lower (s @ newline # v)" by (auto simp: var_items_def)
    then have "length (lower s) = length (lower (s @ newline # v))" by (rule arg_cong)
    then show False by simp
  qed
  moreover have "distinct (map fst (var_items s (vars_of kvs s)))"
    unfolding var_items_vars_of [OF clean] using dist by (rule distinct_map_filter)
  ultimately have here: "distinct (map fst (section_items s (vars_of kvs s)))" by (simp add: section_items_def)
  have "fst ` set (section_items s (vars_of kvs s)) \<inter> fst ` set (file_items ss kvs) = {}"
  proof (rule ccontr)
    assume "\<not> ?thesis"
    then obtain k t where k: "k \<in> fst ` set (section_items s (vars_of kvs s))" and t: "t \<in> set ss"
        "k \<in> fst ` set (section_items t (vars_of kvs t))" by auto
    have st: "lower s \<noteq> lower t" using Cons.prems(1) t(1) by auto
    have nt: "newline \<notin> set t" "newline \<notin> set s" using Cons.prems(2) t(1) by auto
    have no: "lower a \<noteq> lower (b @ newline # v)" if "newline \<notin> set a" for a b v
      using that by (metis in_set_conv_decomp lower_newline)
    show False
      using section_items_key [OF clean k] section_items_key [OF clean t(2)] st no nt
        distinct_keys [OF dist] newline_split
      by (metis fst_conv)
  qed
  then show ?case using here Cons by simp
qed simp

lemma map_eqI: "(\<And>k x. f k = Some x \<longleftrightarrow> g k = Some x) \<Longrightarrow> f = g"
proof (rule ext)
  fix k
  assume h: "\<And>k x. f k = Some x \<longleftrightarrow> g k = Some x"
  show "f k = g k" using h [of k] by (cases "f k") (metis not_None_eq)+
qed

lemma in_concat_map: "s \<in> set ss \<Longrightarrow> x \<in> set (f s) \<Longrightarrow> x \<in> set (concat (map f ss))"
  by auto

lemma section_items_in:
  assumes inv: "cfg_inv c ss" and clean: "pairs_clean ss (pairs (items c))" and s: "s \<in> set ss"
    and e: "e \<in> set (section_items s (vars_of (pairs (items c)) s))"
  shows "cfg_map c (fst e) = Some (snd e)"
proof -
  note I = cfg_invD [OF inv]
  have "e = (lower s, Present) \<or> e \<in> set (var_items s (vars_of (pairs (items c)) s))"
    using e by (simp add: section_items_def)
  then show ?thesis
  proof
    assume "e = (lower s, Present)"
    then show ?thesis using I(8) [of "lower s"] s by (simp del: set_map)
  next
    assume "e \<in> set (var_items s (vars_of (pairs (items c)) s))"
    then obtain vw where vw: "vw \<in> set (vars_of (pairs (items c)) s)"
        "e = (lower (s @ newline # fst vw), Value (snd vw))"
      unfolding var_items_def set_map by (rule imageE)
    have "(s @ newline # fst vw, Value (snd vw)) \<in> set (pairs (items c))" by (rule vars_of_clean(2) [OF clean vw(1)])
    then have "cfg_map c (lower (s @ newline # fst vw)) = Some (Value (snd vw))"
      unfolding map_pairs [OF I(1,2)] by (intro exI conjI) (assumption, rule refl)
    then show ?thesis by (simp only: vw(2) fst_conv snd_conv)
  qed
qed

lemma map_in_section_items:
  assumes inv: "cfg_inv c ss" and clean: "pairs_clean ss (pairs (items c))" and k: "cfg_map c k = Some x"
  shows "\<exists>s \<in> set ss. (k, x) \<in> set (section_items s (vars_of (pairs (items c)) s))"
proof (cases x)
  note I = cfg_invD [OF inv]
  case Present
  then have "k \<in> lower ` set ss" using k I(8) [of k] by simp
  then show ?thesis using Present by (auto simp: section_items_def)
next
  note I = cfg_invD [OF inv]
  case (Value w)
  then obtain k' where k': "(k', Value w) \<in> set (pairs (items c))" "lower k' = k"
    using k unfolding map_pairs [OF I(1,2)] by blast
  obtain s v where sv: "s \<in> set ss" "k' = s @ newline # v" "(v, w) \<in> set (vars_of (pairs (items c)) s)"
    using vars_of_all [OF clean k'(1)] by blast
  have "(\<lambda>vw. (lower (s @ newline # fst vw), Value (snd vw))) (v, w) \<in> set (var_items s (vars_of (pairs (items c)) s))"
    unfolding var_items_def set_map by (rule imageI [OF sv(3)])
  then have "(k, x) \<in> set (section_items s (vars_of (pairs (items c)) s))"
    using k'(2) sv(2) Value by (simp add: section_items_def)
  then show ?thesis using sv(1) by blast
qed

lemma file_items_map:
  assumes inv: "cfg_inv c ss" and clean: "pairs_clean ss (pairs (items c))"
    and dist: "distinct (map fst (file_items ss (pairs (items c))))"
  shows "map_of (file_items ss (pairs (items c))) = cfg_map c"
proof (rule map_eqI)
  fix k x
  have "(k, x) \<in> set (file_items ss (pairs (items c))) \<longleftrightarrow>
      (\<exists>s \<in> set ss. (k, x) \<in> set (section_items s (vars_of (pairs (items c)) s)))"
    unfolding set_concat set_map by blast
  also have "\<dots> \<longleftrightarrow> cfg_map c k = Some x"
    using section_items_in [OF inv clean] map_in_section_items [OF inv clean] by (metis fst_conv snd_conv)
  finally show "map_of (file_items ss (pairs (items c))) k = Some x \<longleftrightarrow> cfg_map c k = Some x"
    unfolding map_of_eq_Some_iff [OF dist] .
qed

lemma config_save_load_correct:
  assumes inv: "cfg_inv c ss" and clean: "file_clean c ss"
  shows "\<exists>c1 text c2. config_save c True = ret (c1, text) \<and> cfg_map c1 = cfg_map c \<and>
    config_load (config_create f) (Some text) = Inr c2 \<and> cfg_inv c2 ss \<and> cfg_map c2 = cfg_map c"
proof -
  note I = cfg_invD [OF inv]
  let ?kvs = "pairs (items c)"
  have "newline \<notin> set k" if "(k, Present) \<in> set ?kvs" for k
    using that map_pairs [OF I(1,2)] I(6) lower_newline by blast
  then have pc: "pairs_clean ss ?kvs"
    using clean unfolding pairs_clean_def file_clean_def by (auto split: item_value.splits simp del: set_map)
  have so: "\<forall>s \<in> set ss. section_ok s" using clean by (simp add: file_clean_def)
  obtain l i where l: "LINKED_LIST_FOR_EACH (section_list c) = ret (l, map Some ss)" "ll_abs l (map Some ss, i)"
  proof -
    obtain j ps where r: "ll_rep (section_list c) ps (map Some ss)" using I(5) by (auto simp: ll_abs_def)
    show thesis using LINKED_LIST_FOR_EACH_rep [OF r] that ll_absI by blast
  qed
  obtain t where t: "save_sections (items c) (map Some ss) =
      ret (t, concat (map (\<lambda>s. section_text s (vars_of ?kvs s)) ss))" "hash_table_map t = cfg_map c"
    using save_sections_eq [OF I(1,2) pc] by blast
  let ?text = "concat (map (\<lambda>s. section_text s (vars_of ?kvs s)) ss)"
  have save: "config_save c True = ret (c\<lparr>section_list := l, items := t\<rparr>, ?text)"
    using l(1) t(1) by (simp add: config_save_def)
  have dist: "distinct (map (lower \<circ> fst) ?kvs)"
    using hash_table_invD(5) [OF I(1)] canon_lower [OF I(2)] by (simp add: comp_def)
  have dE: "distinct (map fst (file_items ss ?kvs))"
    using file_items_distinct [OF pc dist I(7)] so by (auto simp: section_ok_def)
  obtain c2 where "load_loop (config_create f) [] ?text = Inr c2" "cfg_inv c2 ([] @ ss)"
      "cfg_map c2 = Map.empty ++ map_of (file_items ss ?kvs)"
    using load_sections [OF config_create_inv(1) [of f], of ss "vars_of ?kvs" "[]"] so vars_of_clean(1) [OF pc] dE
      config_create_inv(2) [of f] by auto
  then show ?thesis
    using save t(2) file_items_map [OF inv pc dE]
    by (intro exI [of _ "c\<lparr>section_list := l, items := t\<rparr>"] exI [of _ ?text] exI [of _ c2]) (simp add: config_load_def)
qed

section \<open>Names in the other case\<close>

lemma tolower_isspace [simp]: "isspace (tolower c) = isspace c"
  by (auto simp: isspace_def char_code_tolower)

lemma pieces_lower: "pieces isspace (lower s) = map lower (pieces isspace s)"
proof -
  have "split_at isspace (lower s) = map lower (split_at isspace s)"
    by (induction s) (auto split: list.split)
  then show ?thesis by (simp add: pieces_def filter_map comp_def)
qed

lemma join_lower: "lower (join '' '' ws) = join '' '' (map lower ws)"
  by (induction "'' ''" ws rule: join.induct) (simp_all add: tolower_def char_code_def)

lemma norm_section_lower: "norm_section (lower s) = lower (norm_section s)"
  by (simp only: norm_section_def pieces_lower join_lower [symmetric] take_map)

lemma takeWhile_lower: "takeWhile (\<lambda>c. c \<noteq> newline) (lower k) = lower (takeWhile (\<lambda>c. c \<noteq> newline) k)"
proof -
  have "tolower c = newline \<longleftrightarrow> c = newline" for c unfolding newline_code char_code_tolower by auto
  then show ?thesis by (simp add: takeWhile_map comp_def)
qed

lemma section_part: "fst (get_section_var_from_item k) = takeWhile (\<lambda>c. c \<noteq> newline) (take 8191 k)"
proof (cases "newline \<in> set (take 8191 k)")
  case False
  then have "takeWhile (\<lambda>c. c \<noteq> newline) (take 8191 k) = take 8191 k" by (subst takeWhile_eq_all_conv) auto
  moreover have "fst (get_section_var_from_item k) = take 8191 k"
    using False by (simp add: get_section_var_from_item_def Let_def snprintf_s_def)
  ultimately show ?thesis by (simp only:)
qed (simp add: get_section_var_from_item_def Let_def snprintf_s_def)

text \<open>The section part of a key does not depend on the case.\<close>

lemma section_part_lower: "lower (fst (get_section_var_from_item k)) = fst (get_section_var_from_item (lower k))"
  by (simp only: section_part takeWhile_lower take_map)

lemma section_part_norm:
  "fst (get_section_var_from_item (item_name s (Some v))) = norm_section s"
  "get_section_var_from_item (norm_section s) = (norm_section s, [])"
proof -
  have n: "newline \<notin> set (norm_section s)" by (rule norm_no_newline)
  have len: "length (norm_section s) \<le> 8191" by (simp add: norm_section_def)
  show "get_section_var_from_item (norm_section s) = (norm_section s, [])"
    using n len by (simp add: get_section_var_from_item_def Let_def snprintf_s_def)
  have w: "takeWhile (\<lambda>c. c \<noteq> newline) (take 8191 (norm_section s @ t)) = norm_section s"
    if t: "t = [] \<or> hd t = newline" for t
  proof (cases "t = [] \<or> length (norm_section s) = 8191")
    case True
    then show ?thesis using n len by (auto simp: takeWhile_eq_all_conv)
  next
    case False
    then have "8191 - length (norm_section s) = Suc (8190 - length (norm_section s))" using len by linarith
    moreover obtain u where "t = newline # u" using t False by (cases t) auto
    moreover have "takeWhile (\<lambda>c. c \<noteq> newline) (norm_section s @ newline # take (8190 - length (norm_section s)) u)
        = norm_section s"
      using n by (subst takeWhile_append2) auto
    ultimately show ?thesis using len by simp
  qed
  show "fst (get_section_var_from_item (item_name s (Some v))) = norm_section s"
    unfolding section_part item_name_def
    using w [of "[]"] w [of "newline # take 8191 (strip v)"] len by (simp add: min_absorb1)
qed

text \<open>With no empty section names, an item present under a name that is not allowed stops the check.\<close>

lemma check_allowed_rejects:
  assumes inv: "cfg_inv c ss" and ne: "\<forall>kv \<in> set kvs. fst (get_section_var_from_item (fst kv)) \<noteq> []"
    and bad: "kv \<in> set kvs" "get_section_var_from_item (fst kv) = (s, v)" "allow_map c (lower (item_name s (Some v))) = None"
  shows "check_allowed c kvs = Inl Fatal"
  using ne bad(1)
proof (induction kvs)
  case (Cons kw kvs)
  obtain t u where tu: "get_section_var_from_item (fst kw) = (t, u)" by fastforce
  then have t: "t \<noteq> []" using Cons.prems(1) by auto
  show ?case
  proof (cases "kw = kv")
    case True
    then show ?thesis using tu bad(2,3) item_is_present_eq(2) [OF inv t, of "Some u"] by simp
  next
    case False
    then show ?thesis
      using Cons tu item_is_present_eq(2) [OF inv t, of "Some u"] by auto
  qed
qed simp

lemma check_mandatory_none:
  "\<forall>kv \<in> set kvs. snd kv = ITEM_ALLOWED \<Longrightarrow> check_mandatory c kvs = Inr ()"
  by (induction kvs) simp_all

section \<open>Properties\<close>

text \<open>C37: A variable that is written is read back trimmed, under any spelling of the section and
  variable (letter case, spacing) with the same normal form; its section is then present, every other
  item reads as before, and a read of an absent item gives the default.\<close>

theorem config_write_read:
  assumes "cfg_inv c ss" "var_name_ok s var"
  shows "\<exists>c' ss'. config_write_string c s var value = Inr c' \<and> cfg_inv c' ss' \<and>
    (\<forall>s2 var2 def. s2 \<noteq> [] \<longrightarrow> (\<exists>c''. config_read_string c' s2 var2 def =
       Inr (c'', if lower (item_name s2 var2) = lower (item_name s var) then Some (Value (take 8191 (strip value)))
                 else if lower (item_name s2 var2) = lower (norm_section s) then Some Present
                 else (case cfg_map c (lower (item_name s2 var2)) of
                         None \<Rightarrow> map_option Value def | Some v \<Rightarrow> Some v))))"
proof -
  obtain c' ss' where w: "config_write_string c s var value = Inr c'" "cfg_inv c' ss'"
      "cfg_map c' = (cfg_map c)(lower (norm_section s) \<mapsto> Present,
                                lower (item_name s var) \<mapsto> Value (take 8191 (strip value)))"
    using config_write_string_correct [OF assms] by blast
  have "\<exists>c''. config_read_string c' s2 var2 def =
       Inr (c'', if lower (item_name s2 var2) = lower (item_name s var) then Some (Value (take 8191 (strip value)))
                 else if lower (item_name s2 var2) = lower (norm_section s) then Some Present
                 else (case cfg_map c (lower (item_name s2 var2)) of
                         None \<Rightarrow> map_option Value def | Some v \<Rightarrow> Some v))" if "s2 \<noteq> []" for s2 var2 def
    using config_read_string_correct [OF w(2) that, of var2 def] w(3) by auto
  then show ?thesis using w(1,2) by blast
qed

lemma var_name_witness: "var_name_ok ''Bus A'' (Some ''Width'')" "norm_section ''  bus   a'' = ''bus a''"
  "norm_section ''Bus A'' = ''Bus A''"
proof -
  have sp: "isspace (CHR ''B'') = False" "isspace (CHR ''u'') = False" "isspace (CHR ''s'') = False"
    "isspace (CHR ''A'') = False" "isspace (CHR ''b'') = False" "isspace (CHR ''a'') = False"
    by (simp_all add: isspace_def char_code_def)
  show n: "norm_section ''  bus   a'' = ''bus a''" "norm_section ''Bus A'' = ''Bus A''"
    by (simp_all add: norm_section_def pieces_def sp)
  show "var_name_ok ''Bus A'' (Some ''Width'')" using n(2) by (simp add: var_name_ok_def)
qed

theorem config_write_read_witness:
  "\<exists>c' c''. config_write_string (config_create ''f'') ''Bus A'' (Some ''Width'') ''64'' = Inr c' \<and>
    config_read_string c' ''Bus A'' (Some ''Width'') None = Inr (c'', Some (Value (take 8191 (strip ''64''))))"
proof -
  have s: "''Bus A'' \<noteq> ''''" by simp
  obtain c' ss' where w: "config_write_string (config_create ''f'') ''Bus A'' (Some ''Width'') ''64'' = Inr c'"
    and r: "\<forall>s2 var2 def. s2 \<noteq> [] \<longrightarrow> (\<exists>c''. config_read_string c' s2 var2 def =
       Inr (c'', if lower (item_name s2 var2) = lower (item_name ''Bus A'' (Some ''Width''))
                 then Some (Value (take 8191 (strip ''64'')))
                 else if lower (item_name s2 var2) = lower (norm_section ''Bus A'') then Some Present
                 else (case cfg_map (config_create ''f'') (lower (item_name s2 var2)) of
                         None \<Rightarrow> map_option Value def | Some v \<Rightarrow> Some v)))"
    using config_write_read [OF config_create_inv(1) var_name_witness(1)] by blast
  obtain c'' where "config_read_string c' ''Bus A'' (Some ''Width'') None = Inr (c'', Some (Value (take 8191 (strip ''64''))))"
    using r [rule_format, OF s, of "Some ''Width''" None] unfolding if_P [OF refl] by blast
  then show ?thesis using w by blast
qed

text \<open>The typed writers and readers are inverse: an \<open>int\<close>, a \<open>long long\<close> and a truth value that are
  written are read back, the least values of the types included.\<close>

theorem config_typed_roundtrip:
  assumes "cfg_inv c ss" "var_name_ok s var"
  shows "(\<exists>c1 c2. config_write_int c s var n = Inr c1 \<and> config_read_int c1 s var def = Inr (c2, sint n)) \<and>
    (\<exists>c1 c2. config_write_llint c s var m = Inr c1 \<and> config_read_llint c1 s var def = Inr (c2, sint m)) \<and>
    (\<exists>c1 c2. config_write_bool c s var b = Inr c1 \<and> config_read_bool c1 s var def = Inr (c2, of_bool (b \<noteq> 0)))"
proof -
  have s: "s \<noteq> []" using assms(2) by (simp add: var_name_ok_def)
  have rw: "\<exists>c1 c2. config_write_string c s var w = Inr c1 \<and> read_with c1 s var def f = Inr (c2, r)"
    if val: "take 8191 (strip w) = w" "f w = Inr r" for w f r
  proof -
    obtain c1 ss1 where "config_write_string c s var w = Inr c1" "cfg_inv c1 ss1"
        "cfg_map c1 (lower (item_name s var)) = Some (Value w)"
      using config_write_string_correct [OF assms, of w] val(1) by auto
    then show ?thesis using read_with_value [OF _ s, of c1 ss1 var w f r def] val(2) by blast
  qed
  have str: "take 8191 (strip ''True'') = ''True''" "take 8191 (strip ''False'') = ''False''"
    by (simp_all add: strip_def isspace_def char_code_def)
  show ?thesis
    unfolding config_write_int_def config_read_int_def config_write_llint_def config_read_llint_def
      config_write_bool_def config_read_bool_def
    using strip_int_text [OF sint_small(1) [of n]] strip_int_text [OF sint_small(2) [of m]]
      str_to_int_sint [of n] str_to_llint_sint [of m] str
    by (intro conjI; intro rw) (simp_all add: strcasecmp_def tolower_def char_code_def)
qed

theorem config_typed_roundtrip_witness:
  "\<exists>c1 c2. config_write_int (config_create ''f'') ''Bus A'' (Some ''Width'') 0x80000000 = Inr c1 \<and>
    config_read_int c1 ''Bus A'' (Some ''Width'') 0 = Inr (c2, - 2147483648)"
  using config_typed_roundtrip [OF config_create_inv(1) var_name_witness(1), where n = "0x80000000" and def = 0]
  by fastforce

text \<open>C38: With clean names in the tables, \<open>config_check\<close> returns exactly when every mandatory item and
  its section are present and every item present is allowed, leaving the contents alone, and stops with
  \<open>fatal\<close> otherwise.\<close>

theorem config_check_decides:
  assumes "cfg_inv c ss" "\<forall>kv \<in> set (pairs (items c)). key_clean (fst kv)"
    and "\<forall>kv \<in> set (pairs (allowed_items c)). snd kv = ITEM_MANDATORY \<longrightarrow> key_clean (fst kv)"
  shows "if (\<forall>kv \<in> set (pairs (allowed_items c)). snd kv = ITEM_MANDATORY \<longrightarrow>
               cfg_map c (lower (section_of (fst kv))) \<noteq> None \<and> cfg_map c (lower (fst kv)) \<noteq> None) \<and>
            (\<forall>kv \<in> set (pairs (items c)). allow_map c (lower (fst kv)) \<noteq> None)
    then \<exists>c'. config_check c = ret c' \<and> cfg_map c' = cfg_map c \<and> allow_map c' = allow_map c
    else config_check c = stops Fatal"
  using config_check_correct [OF assms] by (auto split: if_splits)

theorem config_check_decides_witness:
  "\<exists>c'. config_check (config_create ''f'') = ret c' \<and> cfg_map c' = Map.empty"
proof -
  have e: "pairs (items (config_create ''f'')) = []" "pairs (allowed_items (config_create ''f'')) = []"
    by (simp_all add: config_create_def hash_table_create_def Let_def ht_elems_def)
  show ?thesis
    using config_check_decides [OF config_create_inv(1) [of "''f''"]] config_create_inv(2) [of "''f''"] by (auto simp: e)
qed

text \<open>C36: A configuration that is saved and loaded into a new one keeps its sections, in their order,
  and all its variables with their values, when the names and values fit the file format: names and
  values are trimmed and on one line, no variable has an equal sign or starts as a comment or a
  section, and each variable's section is spelled as in the list of sections.\<close>

theorem config_save_load:
  assumes "cfg_inv c ss" "file_clean c ss"
  shows "\<exists>c1 text c2. config_save c True = ret (c1, text) \<and> cfg_map c1 = cfg_map c \<and>
    config_load (config_create f) (Some text) = Inr c2 \<and> cfg_inv c2 ss \<and> cfg_map c2 = cfg_map c"
  by (rule config_save_load_correct [OF assms])

text \<open>Strings without letters are spelled in one way only, so the tables after a write with such names
  are known.\<close>

lemma lower_digits:
  assumes "lower k = t" "\<forall>c \<in> set t. char_code c < 65"
  shows "k = t"
proof -
  have "tolower c = c" if "char_code (tolower c) < 65" for c
    using that char_code_tolower [of c] by (auto simp: char_code_inj [symmetric] simp del: char_code_inj split: if_splits)
  then have "map tolower k = map id k" using assms by (intro map_cong) auto
  then show ?thesis using assms(1) by simp
qed

lemma digits_written:
  "\<exists>c ss. config_write_string (config_create ''f'') ''1'' (Some ''2'') ''3'' = Inr c \<and> cfg_inv c ss \<and> file_clean c ss \<and>
     cfg_map c = [''1'' \<mapsto> Present, ''1'' @ newline # ''2'' \<mapsto> Value ''3'']"
proof -
  have codes: "char_code (CHR ''1'') = 49" "char_code (CHR ''2'') = 50" "char_code (CHR ''3'') = 51"
    "char_code newline = 10" by (simp_all add: char_code_def)
  have sp [simp]: "isspace (CHR ''1'') = False" "isspace (CHR ''2'') = False" "isspace (CHR ''3'') = False"
    by (simp_all add: isspace_def char_code_def)
  have n: "norm_section ''1'' = ''1''" by (simp add: norm_section_def pieces_def)
  have i: "item_name ''1'' (Some ''2'') = ''1'' @ newline # ''2''"
    by (simp add: item_name_def n strip_def)
  have ok: "var_name_ok ''1'' (Some ''2'')" by (simp add: var_name_ok_def n)
  have low: "lower ''1'' = ''1''" "lower (''1'' @ newline # ''2'') = ''1'' @ newline # ''2''"
    by (simp_all add: tolower_def codes)
  have w: "take 8191 (strip ''3'') = ''3''" by (simp add: strip_def)
  obtain c ss where c: "config_write_string (config_create ''f'') ''1'' (Some ''2'') ''3'' = Inr c" "cfg_inv c ss"
      "cfg_map c = [''1'' \<mapsto> Present, ''1'' @ newline # ''2'' \<mapsto> Value ''3'']"
    using config_write_string_correct [OF config_create_inv(1) ok, of "''f''" "''3''"]
    unfolding n i low config_create_inv(2) w by blast
  note I = cfg_invD [OF c(2)]
  have one: "t = ''1''" if "lower t = ''1''" for t using lower_digits [OF that] codes by simp
  have "x \<in> lower ` set ss \<longleftrightarrow> x = ''1''" for x
    unfolding I(8) [of x, symmetric] c(3) by (simp add: fun_upd_apply)
  then have img: "lower ` set ss = {''1''}" by blast
  have "t = ''1''" if h: "t \<in> set ss" for t using imageI [OF h, of lower] one unfolding img by simp
  moreover have "set ss \<noteq> {}" using img by (metis image_is_empty insert_not_empty)
  moreover have "A = {a}" if "\<And>t. t \<in> A \<Longrightarrow> t = a" "A \<noteq> {}" for A and a :: string using that by auto
  ultimately have ss: "set ss = {''1''}" by metis
  have kvs: "fst kv = ''1'' @ newline # ''2'' \<and> w = ''3''" if h: "kv \<in> set (pairs (items c))" "snd kv = Value w" for kv w
  proof -
    have "cfg_map c (lower (fst kv)) = Some (Value w)" using map_pairsD [OF I(1,2) h(1)] h(2) by simp
    then have "lower (fst kv) = ''1'' @ newline # ''2'' \<and> w = ''3''"
      unfolding c(3) fun_upd_apply by (simp split: if_splits)
    moreover have "\<forall>c \<in> set (''1'' @ newline # ''2''). char_code c < 65" by (simp add: codes)
    ultimately show ?thesis using lower_digits by blast
  qed
  have "get_section_var_from_item (''1'' @ newline # ''2'') = (''1'', ''2'')"
    by (simp add: get_section_var_from_item_def snprintf_s_def Let_def)
  moreover have "pair_ok ''1'' ''2'' ''3''" by (simp add: pair_ok_def strip_def)
  moreover have "section_ok ''1''" by (simp add: section_ok_def n)
  moreover have "case snd kv of Present \<Rightarrow> True
        | Value w \<Rightarrow> (case get_section_var_from_item (fst kv) of
            (s, v) \<Rightarrow> s \<in> set ss \<and> fst kv = s @ newline # v \<and> pair_ok s v w)"
    if h: "kv \<in> set (pairs (items c))" for kv
  proof (cases "snd kv")
    case (Value u)
    then show ?thesis using kvs [OF h Value] calculation(1,2) by (simp only: ss item_value.case prod.case) simp
  qed simp
  ultimately have "file_clean c ss" unfolding file_clean_def ss by simp
  then show ?thesis using c by (intro exI [of _ c] exI [of _ ss] conjI)
qed

theorem config_save_load_witness:
  "\<exists>c c1 text c2. config_write_string (config_create ''f'') ''1'' (Some ''2'') ''3'' = Inr c \<and>
     config_save c True = ret (c1, text) \<and> config_load (config_create ''f'') (Some text) = Inr c2 \<and>
     cfg_map c2 = [''1'' \<mapsto> Present, ''1'' @ newline # ''2'' \<mapsto> Value ''3'']"
proof -
  obtain c ss where c: "config_write_string (config_create ''f'') ''1'' (Some ''2'') ''3'' = Inr c"
      "cfg_inv c ss" "file_clean c ss" "cfg_map c = [''1'' \<mapsto> Present, ''1'' @ newline # ''2'' \<mapsto> Value ''3'']"
    using digits_written by blast
  then show ?thesis using config_save_load [OF c(2,3), of "''f''"] by metis
qed

text \<open>The check stops when a section is stored that is not allowed and nothing is mandatory.\<close>

lemma section_key:
  assumes "lower k = lower (norm_section s)"
  shows "get_section_var_from_item k = (take 8191 k, [])"
    "lower (item_name (take 8191 k) (Some [])) = lower (norm_section (norm_section s))"
proof -
  have k: "newline \<notin> set k" using assms norm_no_newline [of s] lower_newline by metis
  have len: "take 8191 k = k"
    using arg_cong [OF assms, of length] by (intro take_all) (simp add: norm_section_def)
  show "get_section_var_from_item k = (take 8191 k, [])"
    using k len by (simp add: get_section_var_from_item_def snprintf_s_def Let_def)
  have "item_name k (Some []) = norm_section k" by (simp add: item_name_def norm_section_def)
  then have "lower (item_name (take 8191 k) (Some [])) = norm_section (lower k)"
    unfolding len norm_section_lower by (rule arg_cong)
  also have "\<dots> = lower (norm_section (norm_section s))" unfolding assms by (rule norm_section_lower)
  finally show "lower (item_name (take 8191 k) (Some [])) = lower (norm_section (norm_section s))" .
qed

lemma config_check_misnamed:
  assumes inv: "cfg_inv c ss" and allowed: "\<forall>k v. allow_map c k = Some v \<longrightarrow> v = ITEM_ALLOWED"
    and keys: "\<forall>k. cfg_map c k \<noteq> None \<longrightarrow> fst (get_section_var_from_item k) \<noteq> []"
    and present: "cfg_map c (lower (norm_section s)) \<noteq> None"
    and bad: "allow_map c (lower (norm_section (norm_section s))) = None"
  shows "config_check c = stops Fatal"
proof -
  note I = cfg_invD [OF inv]
  obtain ta where ta: "hash_table_for_each (allowed_items c) = ret (ta, pairs (allowed_items c))"
      "hash_table_inv ta" "\<not> case_sensitive ta" "hash_table_map ta = allow_map c"
    using for_each_lower [OF I(3,4)] by blast
  obtain ti where ti: "hash_table_for_each (items c) = ret (ti, pairs (items c))"
      "hash_table_inv ti" "\<not> case_sensitive ti" "hash_table_map ti = cfg_map c"
    using for_each_lower [OF I(1,2)] by blast
  let ?c = "c\<lparr>allowed_items := ta, items := ti\<rparr>"
  have inv2: "cfg_inv ?c ss" using inv ta ti by (simp add: cfg_inv_def)
  have "\<forall>kv \<in> set (pairs (allowed_items c)). snd kv = ITEM_ALLOWED"
    using map_pairsD [OF I(3,4)] allowed by blast
  then have m: "check_mandatory (c\<lparr>allowed_items := ta\<rparr>) (pairs (allowed_items c)) = Inr ()"
    by (rule check_mandatory_none)
  have "fst (get_section_var_from_item (fst kv)) \<noteq> []" if h: "kv \<in> set (pairs (items c))" for kv
  proof -
    have "cfg_map c (lower (fst kv)) = Some (snd kv)" by (rule map_pairsD [OF I(1,2) h])
    then have "fst (get_section_var_from_item (lower (fst kv))) \<noteq> []" using keys by (metis option.distinct(1))
    then show ?thesis unfolding section_part_lower [symmetric] by simp
  qed
  moreover obtain k v where k: "(k, v) \<in> set (pairs (items c))" "lower k = lower (norm_section s)"
  proof -
    obtain v where "cfg_map c (lower (norm_section s)) = Some v" using present by blast
    then show thesis using map_pairs [OF I(1,2), of "lower (norm_section s)" v] that by blast
  qed
  moreover have "allow_map ?c (lower (item_name (take 8191 k) (Some []))) = None"
    using section_key(2) [OF k(2)] bad ta(4) by simp
  ultimately have "check_allowed ?c (pairs (items c)) = Inl Fatal"
    using check_allowed_rejects [OF inv2 _ k(1), of "take 8191 k" "[]"] section_key(1) [OF k(2)]
    unfolding fst_conv by blast
  then show ?thesis using ta(1) ti(1) m by (simp add: config_check_def)
qed

text \<open>A variable written under a section name that is not in normal form (spaces doubled or at the
  ends) makes the check of the same configuration stop: the section is stored under its normal form but
  allowed under the name as written.\<close>

theorem config_check_own_write:
  assumes "var_name_ok s var" "norm_section s \<noteq> []" "norm_section (norm_section s) = norm_section s"
    and "lower s \<noteq> lower (norm_section s)"
  shows "\<exists>c. config_write_string (config_create f) s var w = Inr c \<and> config_check c = stops Fatal"
proof -
  obtain v where v: "var = Some v" using assms(1) by (auto simp: var_name_ok_def)
  let ?n = "norm_section s" and ?i = "item_name s var"
  obtain c ss where c: "config_write_string (config_create f) s var w = Inr c" "cfg_inv c ss"
      "cfg_map c = [lower ?n \<mapsto> Present, lower ?i \<mapsto> Value (take 8191 (strip w))]"
      "allow_map c = (\<lambda>x. if x = lower s \<or> x = lower ?i then Some ITEM_ALLOWED else None)"
    using config_write_string_correct [OF config_create_inv(1) assms(1), of f w]
    unfolding config_create_inv(2,3) by (simp cong: if_cong) blast
  have ni: "lower ?n \<noteq> lower ?i"
    using var_item_newline [OF assms(1)] norm_no_newline [of s] lower_newline by metis
  have "config_check c = stops Fatal"
  proof (rule config_check_misnamed [OF c(2), of s])
    show "\<forall>k v. allow_map c k = Some v \<longrightarrow> v = ITEM_ALLOWED" by (simp add: c(4))
    show "cfg_map c (lower ?n) \<noteq> None" "allow_map c (lower (norm_section ?n)) = None"
      using ni assms(3,4) by (simp_all add: c(3,4))
    have "fst (get_section_var_from_item (lower k)) \<noteq> []" if "k = ?n \<or> k = ?i" for k
      unfolding section_part_lower [symmetric] using that section_part_norm [of s] assms(2) v by auto
    then show "\<forall>k. cfg_map c k \<noteq> None \<longrightarrow> fst (get_section_var_from_item k) \<noteq> []"
      unfolding c(3) by (auto simp: fun_upd_apply simp del: list.map_disc_iff split: if_splits)
  qed
  then show ?thesis using c(1) by blast
qed

theorem config_check_own_write_witness:
  "\<exists>c. config_write_string (config_create ''f'') ''  bus   a'' (Some ''x'') ''1'' = Inr c \<and> config_check c = stops Fatal"
proof -
  have x: "var_name_ok ''  bus   a'' (Some ''x'')" by (simp add: var_name_ok_def var_name_witness(2))
  have nn: "norm_section ''bus a'' = ''bus a''"
    by (simp add: norm_section_def pieces_def isspace_def char_code_def)
  show ?thesis
    by (rule config_check_own_write [OF x]) (simp_all add: var_name_witness(2) nn)
qed

text \<open>A line with an equal sign and no variable name before it makes \<open>config_load\<close> release the mark
  of its section, which is no block of the allocator: undefined behaviour, not an error message.\<close>

theorem config_load_no_name:
  assumes "section_ok s" "strip w = w" "w \<noteq> []" "plain w" "length w < 8000"
  shows "config_load (config_create f) (Some (''[ '' @ s @ '' ]'' @ newline # ''= '' @ w @ newline # rest)) = Inl Segv"
proof -
  let ?l = "''= '' @ w"
  have n: "norm_section s = s" "s \<noteq> []" using assms(1) by (simp_all add: section_ok_def)
  obtain c where c: "config_insert_section (config_create f) s = Inr (c, False)" "cfg_inv c [s]"
      "cfg_map c = [lower s \<mapsto> Present]"
    using config_insert_section_correct [OF config_create_inv(1), of f s] config_create_inv(2) [of f] n
    by (auto split: if_splits)
  have plain: "plain (''[ '' @ s @ '' ]'')" "length (''[ '' @ s @ '' ]'') < 8191"
    using assms(1) by (simp_all add: section_ok_def)
  have "strip ([] @ ?l @ [newline]) = ?l"
    using strip_ends(2) [OF assms(2,3)] assms(3) by (intro strip_inner) simp_all
  then have trim: "str_trim 8192 (?l @ [newline]) = Inr ?l" using assms(5) by simp
  have parts: "get_var_value_from_item ?l = Inr ([], take 8191 (strip ('' '' @ w)), False)"
    by (simp add: get_var_value_from_item_def)
  have "hash_table_get (items c) (item_name s (Some [])) = cfg_map c (lower (item_name s (Some [])))"
    using get_lower cfg_invD(1,2) [OF c(2)] by metis
  moreover have "item_name s (Some []) = s" using assms(1) by (simp add: item_name_def section_ok_def)
  ultimately have "hash_table_get (items c) (item_name s (Some [])) = Some Present" using c(3) by simp
  then have "config_insert_var c s (Some []) x = Inl Segv" for x
    using get_item_eq [OF n(2)] by (simp add: config_insert_var_def)
  then have line: "load_line c s (?l @ [newline]) = Inl Segv"
    using trim parts n(2) assms(3) by (simp add: load_line_def)
  have plain2: "plain ?l" "length ?l < 8191" using assms(4,5) by auto
  have "load_loop (config_create f) [] (''[ '' @ s @ '' ]'' @ newline # t) = load_loop c s t" for t
    using load_loop_step [OF plain, of "config_create f" "[]" t] load_section_line [OF assms(1)] c(1) by simp
  moreover have "load_loop c s (?l @ newline # rest) = Inl Segv"
    using load_loop_step [OF plain2] line by simp
  ultimately show ?thesis by (simp add: config_load_def)
qed

theorem config_load_no_name_witness:
  "config_load (config_create ''f'') (Some (''[ '' @ ''1'' @ '' ]'' @ newline # ''= '' @ ''2'' @ newline # [])) = Inl Segv"
proof (rule config_load_no_name)
  show "section_ok ''1''" by (simp add: section_ok_def norm_section_def pieces_def isspace_def char_code_def)
  show "strip ''2'' = ''2''" by (simp add: strip_def isspace_def char_code_def)
qed simp_all

end
