(* ===== verification/Aligned_Words.thy ===== *)
theory Aligned_Words
  imports Prelude
begin

unbundle bit_operations_syntax

text \<open>
  Addresses split by a power of two: the base \<open>a AND NOT (mask k)\<close> of an address and its offset
  \<open>a AND mask k\<close>, as the pages of a memory and the blocks of a cache use them. The lemmas read both
  as natural numbers, and follow the addresses of a chunk that does not cross the next base.
\<close>

lemma ones_mask: "push_bit k 1 - 1 = (mask k :: 'a::len word)"
  by (simp add: mask_eq_exp_minus_1 push_bit_eq_mult)

lemma unat_offset: "unat (a AND mask k :: 'a::len word) = unat a mod 2 ^ k"
  unfolding take_bit_eq_mask [symmetric] unsigned_take_bit_eq by (rule take_bit_eq_mod)

lemma base_plus_offset: "(a AND NOT (mask k)) + (a AND mask k) = (a :: 'a::len word)"
proof -
  have "(a AND NOT (mask k)) + (a AND mask k) = (a AND NOT (mask k)) OR (a AND mask k)"
    by (rule disjunctive_add) (simp add: bit_simps)
  also have "\<dots> = a" by (rule bit_word_eqI) (auto simp: bit_simps)
  finally show ?thesis .
qed

lemma unat_base: "unat (a AND NOT (mask k) :: 'a::len word) = unat a div 2 ^ k * 2 ^ k"
proof -
  have "a AND NOT (mask k) = push_bit k (drop_bit k a)"
    by (rule bit_word_eqI) (auto simp: bit_simps)
  moreover have "take_bit LENGTH('a) (uint a) = uint a" by (simp add: take_bit_int_eq_self_iff uint_lt2p)
  ultimately have "uint (a AND NOT (mask k)) = take_bit LENGTH('a) (push_bit k (drop_bit k (uint a)))"
    by (simp add: unsigned_push_bit_eq unsigned_drop_bit_eq)
  also have "\<dots> = push_bit k (drop_bit k (uint a))"
  proof (rule take_bit_int_eq_self)
    show "0 \<le> push_bit k (drop_bit k (uint a))" by simp
    have "push_bit k (drop_bit k (uint a)) \<le> uint a"
      by (simp add: push_bit_eq_mult drop_bit_eq_div minus_mod_eq_div_mult [symmetric])
    then show "push_bit k (drop_bit k (uint a)) < 2 ^ LENGTH('a)" using uint_lt2p [of a] by linarith
  qed
  finally have "int (unat (a AND NOT (mask k))) = int (unat a) div 2 ^ k * 2 ^ k"
    by (simp add: push_bit_eq_mult drop_bit_eq_div)
  then show ?thesis by (metis (mono_tags, lifting) of_nat_eq_iff of_nat_mult of_nat_numeral of_nat_power zdiv_int)
qed

lemma base_le: "a AND NOT (mask k) \<le> (a :: 'a::len word)"
  unfolding word_le_nat_alt unat_base by (metis div_times_less_eq_dividend)

lemma base_idem [simp]: "a AND NOT (mask k) AND NOT (mask k) = (a AND NOT (mask k) :: 'a::len word)"
  by (simp add: and.assoc)

lemma offset_base [simp]: "a AND NOT (mask k) AND mask k = (0 :: 'a::len word)"
  by (rule bit_word_eqI) (auto simp: bit_simps)

lemma offset_less: "unat (a AND mask k :: 'a::len word) < 2 ^ k"
  by (simp add: unat_offset)

lemma aligned_base: "a AND mask k = 0 \<Longrightarrow> a AND NOT (mask k) = (a :: 'a::len word)"
  using base_plus_offset [of a k] by simp

text \<open>Advancing within the block of an address.\<close>

lemma advance:
  fixes a :: "'a::len word"
  assumes "unat (a AND mask k) + i < 2 ^ k" "k < LENGTH('a)"
  shows "unat (a + of_nat i) = unat a + i" "(a + of_nat i) AND NOT (mask k) = a AND NOT (mask k)"
    "unat ((a + of_nat i) AND mask k) = unat (a AND mask k) + i"
proof -
  let ?p = "2 ^ k :: nat"
  have i: "unat a mod ?p + i < ?p" using assms(1) by (simp add: unat_offset)
  have bound: "unat a + i < 2 ^ LENGTH('a)"
  proof -
    have l: "(2::nat) ^ LENGTH('a) = 2 ^ (LENGTH('a) - k) * ?p"
      using assms(2) by (simp flip: power_add)
    have "unat a div ?p < 2 ^ (LENGTH('a) - k)"
      using unsigned_less [of a, where 'a = nat] unfolding l by (simp add: less_mult_imp_div_less)
    then have "(unat a div ?p + 1) * ?p \<le> 2 ^ LENGTH('a)" unfolding l by (intro mult_right_mono) auto
    moreover have "unat a + i < (unat a div ?p + 1) * ?p"
      using i div_mult_mod_eq [of "unat a" ?p] unfolding add_mult_distrib by linarith
    ultimately show ?thesis by linarith
  qed
  then have "i < 2 ^ LENGTH('a)" by simp
  then have u: "unat (of_nat i :: 'a word) = i" by (simp add: unat_of_nat)
  show s: "unat (a + of_nat i) = unat a + i" using bound u by (simp add: unat_word_ariths)
  have m: "(unat a + i) mod ?p = unat a mod ?p + i" using i by (metis mod_add_left_eq mod_less)
  have "unat a + i = (unat a mod ?p + i) + unat a div ?p * ?p" using div_mult_mod_eq [of "unat a" ?p] by linarith
  then have "(unat a + i) div ?p = unat a div ?p + (unat a mod ?p + i) div ?p" 
    using div_mult_self1 [of ?p "unat a mod ?p + i" "unat a div ?p"] by (metis power_not_zero zero_neq_numeral)
  then have d: "(unat a + i) div ?p = unat a div ?p" unfolding div_less [OF i] by (simp only: add_0_right)
  show "(a + of_nat i) AND NOT (mask k) = a AND NOT (mask k)"
    by (simp only: word_unat_eq_iff unat_base s d)
  show "unat ((a + of_nat i) AND mask k) = unat (a AND mask k) + i"
    by (simp only: unat_offset s m)
qed

text \<open>Two addresses with the same base are at the distance of their offsets.\<close>

lemma same_base_eq:
  fixes a b :: "'a::len word"
  assumes "a AND NOT (mask k) = b AND NOT (mask k)" "a AND mask k = b AND mask k"
  shows "a = b"
  by (metis assms base_plus_offset)

text \<open>The addresses of a chunk that does not cross the next base are those at a distance below its
  length.\<close>

lemma in_block:
  fixes a b :: "'a::len word"
  assumes "unat (a AND mask k) + n \<le> 2 ^ k" "k < LENGTH('a)"
  shows "unat (b - a) < n \<longleftrightarrow> b AND NOT (mask k) = a AND NOT (mask k) \<and>
      unat (a AND mask k) \<le> unat (b AND mask k) \<and> unat (b AND mask k) < unat (a AND mask k) + n"
    "unat (b - a) < n \<Longrightarrow> unat (b - a) = unat (b AND mask k) - unat (a AND mask k)"
proof -
  let ?o = "\<lambda>x. unat (x AND mask k)" and ?b = "\<lambda>x :: 'a word. x AND NOT (mask k)"
  have adv: "unat (a + of_nat i) = unat a + i" "?b (a + of_nat i) = ?b a" "?o (a + of_nat i) = ?o a + i" if "i < n" for i
    using advance [of a k i] assms that by simp_all
  have b: "b = a + of_nat (unat (b - a))" by simp
  have fwd: "?b b = ?b a \<and> ?o b = ?o a + unat (b - a)" if "unat (b - a) < n"
    using adv [OF that] b by simp
  then show "unat (b - a) < n \<Longrightarrow> unat (b - a) = ?o b - ?o a" by simp
  show "unat (b - a) < n \<longleftrightarrow> ?b b = ?b a \<and> ?o a \<le> ?o b \<and> ?o b < ?o a + n"
  proof
    assume h: "?b b = ?b a \<and> ?o a \<le> ?o b \<and> ?o b < ?o a + n"
    then have i: "?o b - ?o a < n" by linarith
    note c = adv [OF i]
    have "?o (a + of_nat (?o b - ?o a)) = ?o b" using c(3) h by simp
    then have "(a + of_nat (?o b - ?o a)) AND mask k = b AND mask k" by (simp add: word_unat_eq_iff)
    moreover have "?b (a + of_nat (?o b - ?o a)) = ?b b" using c(2) h by (simp only:)
    ultimately have "a + of_nat (?o b - ?o a) = b" by (rule same_base_eq [rotated])
    then have d: "b - a = of_nat (?o b - ?o a)" by (metis add_diff_cancel_left')
    have "?o b - ?o a < 2 ^ k" using offset_less [of b k] by linarith
    also have "(2 :: nat) ^ k < 2 ^ LENGTH('a)" using assms(2) by simp
    finally have "unat (b - a) = ?o b - ?o a" unfolding d by (simp add: unat_of_nat)
    then show "unat (b - a) < n" using i by simp
  qed (use fwd in simp)
qed

text \<open>Distances from an address that is further on.\<close>

lemma word_dist:
  fixes d :: "'a::len word"
  shows "c \<le> unat d \<Longrightarrow> unat (d - of_nat c) = unat d - c"
    "c + k \<le> 2 ^ LENGTH('a) \<Longrightarrow> unat (d - of_nat c) < k \<longleftrightarrow> c \<le> unat d \<and> unat d < c + k"
proof -
  have sub: "unat (d - of_nat c) = unat d - c" if "c \<le> unat d"
  proof -
    have "c < 2 ^ LENGTH('a)" using unsigned_less [of d, where 'a = nat] that by (rule order.strict_trans1 [rotated])
    then have u: "unat (of_nat c :: 'a word) = c" by (simp add: unat_of_nat)
    then show ?thesis using that by (simp add: unat_sub word_le_nat_alt)
  qed
  then show "c \<le> unat d \<Longrightarrow> unat (d - of_nat c) = unat d - c" .
  show "unat (d - of_nat c) < k \<longleftrightarrow> c \<le> unat d \<and> unat d < c + k" if le: "c + k \<le> 2 ^ LENGTH('a)"
  proof
    assume h: "unat (d - of_nat c) < k"
    define n where "n = unat (d - of_nat c) + c"
    have "d = of_nat n" by (simp add: n_def)
    moreover have "n < 2 ^ LENGTH('a)" using h le unfolding n_def by linarith
    ultimately have "unat d = n" by (simp add: unat_of_nat)
    then show "c \<le> unat d \<and> unat d < c + k" using h unfolding n_def by linarith
  qed (use sub in auto)
qed

text \<open>Bytes of a range in two parts.\<close>

lemma range_split:
  fixes a b :: "'a::len word"
  assumes "c + k \<le> 2 ^ LENGTH('a)" "length bs = c"
  shows "(if unat (b - (a + of_nat c)) < k then cs ! unat (b - (a + of_nat c))
          else if unat (b - a) < c then bs ! unat (b - a) else x) =
    (if unat (b - a) < c + k then (bs @ cs) ! unat (b - a) else x)"
proof -
  have e: "b - (a + of_nat c) = (b - a) - of_nat c" by (simp add: algebra_simps)
  show ?thesis
    unfolding e word_dist(2) [OF assms(1)] using word_dist(1) [of c "b - a"] assms(2) by (auto simp: nth_append)
qed

lemma map_upt_add: "map f [0..<m + n] = map f [0..<m] @ map (\<lambda>i. f (m + i)) [0..<n]"
proof -
  have "[m..<m + n] = map (\<lambda>i. m + i) [0..<n]" by (induction n) simp_all
  moreover have "[0..<m + n] = [0..<m] @ [m..<m + n]" by (rule upt_add_eq_append) simp
  ultimately show ?thesis by (simp only: map_append map_map comp_def)
qed

section \<open>Powers of two\<close>

text \<open>The test \<open>x & (x - 1)\<close>, and what a power of two less one is.\<close>

lemma pow2_test_nat: "0 < n \<Longrightarrow> n AND (n - 1) = 0 \<Longrightarrow> \<exists>k. n = (2 :: nat) ^ k"
proof (induction n rule: less_induct)
  case (less n)
  show ?case
  proof (cases "even n")
    case True
    then obtain j where m: "n = 2 * Suc j" using less.prems(1) by (cases "n div 2") (auto elim!: evenE)
    then have "n AND (n - 1) = 2 * (Suc j AND (Suc j - 1))" by (subst and_nat_rec) simp
    then obtain k where "Suc j = 2 ^ k" using less.IH [of "Suc j"] less.prems(2) m by auto
    then show ?thesis using m by (intro exI [of _ "Suc k"]) simp
  next
    case False
    then obtain m where m: "n = 2 * m + 1" by (auto elim!: oddE)
    then have "n AND (n - 1) = 2 * m" by (subst and_nat_rec) simp
    then show ?thesis using less.prems(2) m by (intro exI [of _ 0]) simp
  qed
qed

lemma unat_pow2:
  assumes "k < 32"
  shows "unat (2 ^ k :: 32 word) = 2 ^ k"
proof -
  have "(2 :: nat) ^ k < 2 ^ 32" using assms by (intro power_strict_increasing) simp_all
  then have "unat (of_nat (2 ^ k) :: 32 word) = 2 ^ k" unfolding unat_of_nat by simp
  then show ?thesis by simp
qed

lemma pow2_test:
  fixes w :: "32 word"
  assumes "w AND (w - 1) = 0" "w \<noteq> 0"
  obtains k where "k < 32" "w = 2 ^ k" "unat w = 2 ^ k"
proof -
  have "unat w AND (unat w - 1) = unat (w AND (w - 1))"
    using assms(2) by (simp add: unsigned_and_eq unat_minus_one)
  then have "unat w AND (unat w - 1) = 0" using assms(1) by simp
  moreover have "0 < unat w" using assms(2) by (simp add: unat_gt_0)
  ultimately obtain k where k: "unat w = 2 ^ k" using pow2_test_nat by blast
  then have "(2 :: nat) ^ k < 2 ^ 32" using unsigned_less [of w, where 'a = nat] by simp
  then have "k < 32" by (rule power_less_imp_less_exp [rotated]) simp
  moreover have "w = 2 ^ k" using k calculation by (simp only: word_unat_eq_iff unat_pow2)
  ultimately show thesis using k that by blast
qed

lemma pow2_facts:
  fixes k :: nat
  assumes "k < 32"
  shows "(2 ^ k :: 32 word) - 1 = mask k" "unat (2 ^ k :: 32 word) = 2 ^ k" "(2 ^ k :: 32 word) AND (2 ^ k - 1) = 0"
    "(2 ^ k :: 32 word) \<noteq> 0"
proof -
  show u: "unat (2 ^ k :: 32 word) = 2 ^ k" using assms by (rule unat_pow2)
  show m: "(2 ^ k :: 32 word) - 1 = mask k" by (simp add: mask_eq_exp_minus_1)
  show "(2 ^ k :: 32 word) AND (2 ^ k - 1) = 0" unfolding m by (rule bit_word_eqI) (auto simp: bit_simps)
  show "(2 ^ k :: 32 word) \<noteq> 0" using u by (metis power_eq_0_iff unsigned_0 zero_neq_numeral)
qed

text \<open>A word that is an \<open>int\<close> and not negative.\<close>

lemma sint_unat_31: "unat w < 2 ^ 31 \<Longrightarrow> sint (w :: 32 word) = int (unat w)"
proof -
  assume "unat w < 2 ^ 31"
  then have "int (unat w) < int (2 ^ 31)" by (simp only: of_nat_less_iff)
  then have "uint w < 2 ^ 31" by simp
  moreover have "- (2 ^ 31) \<le> (0 :: int)" by simp
  then have "- (2 ^ 31) \<le> uint w" using uint_nonnegative [of w] by (rule order_trans)
  ultimately have "signed_take_bit 31 (uint w) = uint w" by (intro signed_take_bit_int_eq_self)
  then show ?thesis by (simp add: sint_uint)
qed

end
