(* ===== verification/GuestMemory.thy ===== *)
theory GuestMemory
  imports Aligned_Words "HOL-Library.AList"
begin

text \<open>
  The memory of a guest program, \<open>src/memory/Memory.cc\<close>: a 32-bit address space of pages of 4 KB that
  are created by \<open>Map\<close>, each with permissions and with data that is allocated when it is first
  written.

  The table of pages is an association list; its order stands for the order in which the
  \<open>unordered_map\<close> of the code is enumerated, and no result depends on it. A byte is a word of 8
  bits. The functions that can throw return the memory as it is when they return or throw, with an
  error or a result. The loops of \<open>Map\<close>, \<open>Unmap\<close>, \<open>Protect\<close> and \<open>MapSpace\<close> may not end; they
  are partial functions, and \<open>None\<close> is not returning.
\<close>

section \<open>State\<close>

type_synonym guest_addr = "32 word"

type_synonym byte = "8 word"

definition LogPageSize :: nat where "LogPageSize = 12"

definition PageSize :: guest_addr where "PageSize = push_bit LogPageSize 1"

definition PageMask :: guest_addr where "PageMask = NOT (PageSize - 1)"

text \<open>The kinds of access, which are also the flags of the permissions of a page.\<close>

definition AccessRead :: "32 word" where "AccessRead = push_bit 0 1"
definition AccessWrite :: "32 word" where "AccessWrite = push_bit 1 1"
definition AccessExec :: "32 word" where "AccessExec = push_bit 2 1"
definition AccessInit :: "32 word" where "AccessInit = push_bit 3 1"
definition AccessModified :: "32 word" where "AccessModified = push_bit 4 1"

record page =
  pg_tag :: guest_addr
  pg_perm :: "32 word"
  pg_data :: "byte list option"

record memory =
  pages :: "(guest_addr \<times> page) list"
  safe :: bool
  heap_break :: guest_addr
  last_address :: guest_addr

text \<open>\<open>Memory::Error\<close> with its three causes, and the ways to panic or to fail an assertion.\<close>

datatype mem_error = Permission_denied guest_addr | Segmentation_fault guest_addr | Cannot_open | Mem_stop stop

type_synonym 'a mem_res = "memory \<times> (mem_error + 'a)"

definition then_mem :: "'a mem_res \<Rightarrow> (memory \<Rightarrow> 'a \<Rightarrow> 'b mem_res) \<Rightarrow> 'b mem_res" where
  "then_mem m f = (case snd m of Inl e \<Rightarrow> (fst m, Inl e) | Inr x \<Rightarrow> f (fst m) x)"

lemma then_mem_simps [simp]: "then_mem (m, Inl e) f = (m, Inl e)" "then_mem (m, Inr x) f = f m x"
  by (simp_all add: then_mem_def)

text \<open>\<open>safe_mode\<close> is the configuration option.\<close>

definition memory_create :: "bool \<Rightarrow> memory" where
  "memory_create safe_mode = \<lparr>pages = [], safe = safe_mode, heap_break = 0, last_address = 0\<rparr>"

definition setSafe :: "memory \<Rightarrow> bool \<Rightarrow> memory" where
  "setSafe mem b = mem\<lparr>safe := b\<rparr>"

definition setSafeDefault :: "bool \<Rightarrow> memory \<Rightarrow> memory" where
  "setSafeDefault safe_mode mem = mem\<lparr>safe := safe_mode\<rparr>"

definition Clear :: "memory \<Rightarrow> memory" where
  "Clear mem = mem\<lparr>pages := []\<rparr>"

definition setHeapBreak :: "memory \<Rightarrow> guest_addr \<Rightarrow> memory" where
  "setHeapBreak mem brk = mem\<lparr>heap_break := brk\<rparr>"

definition growHeapBreak :: "memory \<Rightarrow> guest_addr \<Rightarrow> memory" where
  "growHeapBreak mem brk = (if heap_break mem < brk then mem\<lparr>heap_break := brk\<rparr> else mem)"

section \<open>Pages\<close>

definition AllocateData :: "page \<Rightarrow> page" where
  "AllocateData p = (if pg_data p = None then p\<lparr>pg_data := Some (replicate (unat PageSize) 0)\<rparr> else p)"

definition setPerm :: "32 word \<Rightarrow> page \<Rightarrow> page" where
  "setPerm perm p = p\<lparr>pg_perm := perm\<rparr>"

definition addPerm :: "32 word \<Rightarrow> page \<Rightarrow> page" where
  "addPerm perm p = p\<lparr>pg_perm := pg_perm p OR perm\<rparr>"

definition getPage :: "memory \<Rightarrow> guest_addr \<Rightarrow> page option" where
  "getPage mem address = map_of (pages mem) (address AND NOT (PageSize - 1))"

text \<open>Changing the page of an address in place, through the pointer that \<open>getPage\<close> returns.\<close>

definition at_page :: "memory \<Rightarrow> guest_addr \<Rightarrow> (page \<Rightarrow> page) \<Rightarrow> memory" where
  "at_page mem address f = mem\<lparr>pages := AList.map_entry (address AND NOT (PageSize - 1)) f (pages mem)\<rparr>"

text \<open>The loop over all pages of \<open>getNextPage\<close>.\<close>

primrec next_page_loop ::
  "guest_addr \<Rightarrow> (guest_addr \<times> page) list \<Rightarrow> guest_addr \<Rightarrow> page option \<Rightarrow> page option" where
  "next_page_loop tag [] min_tag min_page = min_page"
| "next_page_loop tag (kp # kps) min_tag min_page =
     (if tag < pg_tag (snd kp) \<and> pg_tag (snd kp) < min_tag
      then next_page_loop tag kps (pg_tag (snd kp)) (Some (snd kp))
      else next_page_loop tag kps min_tag min_page)"

definition getNextPage :: "memory \<Rightarrow> guest_addr \<Rightarrow> page option" where
  "getNextPage mem address =
     (let tag = (address + PageSize) AND NOT (PageSize - 1)
      in if tag = 0 then None
         else case map_of (pages mem) tag of
                Some page \<Rightarrow> Some page
              | None \<Rightarrow> next_page_loop tag (pages mem) 0xffffffff None)"

definition newPage :: "memory \<Rightarrow> guest_addr \<Rightarrow> 32 word \<Rightarrow> unit mem_res" where
  "newPage mem address perm =
     (let tag = address AND NOT (PageSize - 1)
      in if map_of (pages mem) tag \<noteq> None then (mem, Inl (Mem_stop Panic))
         else (mem\<lparr>pages := (tag, \<lparr>pg_tag = tag, pg_perm = perm, pg_data = None\<rparr>) # pages mem\<rparr>, Inr ()))"

section \<open>Access\<close>

text \<open>\<open>memcpy\<close> of \<open>buffer\<close> to the offset \<open>offset\<close> of the data of a page.\<close>

definition copy_in :: "nat \<Rightarrow> byte list \<Rightarrow> page \<Rightarrow> page" where
  "copy_in offset buffer p =
     (case pg_data p of
        None \<Rightarrow> p
      | Some d \<Rightarrow> p\<lparr>pg_data := Some (take offset d @ buffer @ drop (offset + length buffer) d)\<rparr>)"

text \<open>An access within a page. The argument \<open>buffer\<close> has the bytes to write, or as many bytes as
  are read; the result is its contents afterwards.\<close>

definition AccessAtPageBoundary :: "memory \<Rightarrow> guest_addr \<Rightarrow> byte list \<Rightarrow> 32 word \<Rightarrow> byte list mem_res" where
  "AccessAtPageBoundary mem address buffer access =
     (let sz = length buffer;
          offset = unat (address AND (PageSize - 1))
      in if \<not> offset + sz \<le> unat PageSize then (mem, Inl (Mem_stop Assert))
         else if getPage mem address = None \<and> safe mem then (mem, Inl (Segmentation_fault address))
         else if getPage mem address = None \<and> (access = AccessRead \<or> access = AccessExec)
         then (mem, Inr (replicate sz 0))
         else
           then_mem
             (if getPage mem address = None \<and> (access = AccessWrite \<or> access = AccessInit)
              then newPage mem address (AccessRead OR AccessWrite OR AccessExec OR AccessInit)
              else (mem, Inr ()))
             (\<lambda>mem _.
               if getPage mem address = None then (mem, Inl (Mem_stop Assert))
               else
                 let mem = (if access = AccessWrite then at_page mem address (addPerm AccessModified) else mem);
                     page = the (getPage mem address)
                 in if safe mem \<and> pg_perm page AND access \<noteq> access then (mem, Inl (Permission_denied address))
                    else if access = AccessRead \<or> access = AccessExec
                    then (mem, Inr (case pg_data page of
                                      Some d \<Rightarrow> take sz (drop offset d)
                                    | None \<Rightarrow> replicate sz 0))
                    else if access = AccessWrite \<or> access = AccessInit
                    then (at_page mem address (copy_in offset buffer \<circ> AllocateData), Inr buffer)
                    else (mem, Inl (Mem_stop Abort))))"

text \<open>The loop of \<open>Access\<close>: \<open>buf\<close> is the part of the buffer that is left.\<close>

function access_loop :: "memory \<Rightarrow> guest_addr \<Rightarrow> byte list \<Rightarrow> 32 word \<Rightarrow> byte list mem_res" where
  "access_loop mem address buf access =
     (if buf = [] then (mem, Inr [])
      else
        let offset = unat (address AND (PageSize - 1));
            chunksize = min (length buf) (unat PageSize - offset)
        in then_mem (AccessAtPageBoundary mem address (take chunksize buf) access) (\<lambda>mem bytes.
           then_mem (access_loop mem (address + of_nat chunksize) (drop chunksize buf) access) (\<lambda>mem rest.
             (mem, Inr (bytes @ rest)))))"
  by pat_completeness auto

lemma page_size [simp]: "unat PageSize = 4096" "PageSize - 1 = mask 12" "LogPageSize = 12"
proof -
  show "LogPageSize = 12" by (simp add: LogPageSize_def)
  show "unat PageSize = 4096" by (simp add: PageSize_def LogPageSize_def push_bit_eq_mult)
  show "PageSize - 1 = mask 12" by (simp only: PageSize_def LogPageSize_def ones_mask)
qed

lemma offset_page [simp]: "unat (a AND mask 12 :: guest_addr) < 4096"
  using offset_less [of a 12] by simp

text \<open>The size of the next chunk; every chunk has a byte.\<close>

abbreviation chunk_size :: "guest_addr \<Rightarrow> nat \<Rightarrow> nat" where
  "chunk_size address n \<equiv> min n (4096 - unat (address AND mask 12))"

lemma chunk_pos: "0 < n \<Longrightarrow> 0 < chunk_size address n"
  using offset_page [of address] by (simp add: min_def)

termination access_loop
  by (relation "measure (\<lambda>(mem, address, buf, access). length buf)") (auto simp: chunk_pos intro!: diff_less)

declare access_loop.simps [simp del]

definition Access :: "memory \<Rightarrow> guest_addr \<Rightarrow> byte list \<Rightarrow> 32 word \<Rightarrow> byte list mem_res" where
  "Access mem address buf access = access_loop (mem\<lparr>last_address := address\<rparr>) address buf access"

definition Read :: "memory \<Rightarrow> guest_addr \<Rightarrow> nat \<Rightarrow> byte list mem_res" where
  "Read mem address sz = Access mem address (replicate sz 0) AccessRead"

definition Write :: "memory \<Rightarrow> guest_addr \<Rightarrow> byte list \<Rightarrow> byte list mem_res" where
  "Write mem address buffer = Access mem address buffer AccessWrite"

definition Init :: "memory \<Rightarrow> guest_addr \<Rightarrow> byte list \<Rightarrow> byte list mem_res" where
  "Init mem address buffer = Access mem address buffer AccessInit"

text \<open>A pointer into the data of a page is the tag of the page and an offset.\<close>

definition getBuffer :: "memory \<Rightarrow> guest_addr \<Rightarrow> 32 word \<Rightarrow> 32 word \<Rightarrow> (guest_addr \<times> nat) ptr mem_res" where
  "getBuffer mem address sz access =
     (let offset = address AND (PageSize - 1)
      in if PageSize < offset + sz then (mem, Inr NULL)
         else case getPage mem address of
                None \<Rightarrow> (mem, Inr NULL)
              | Some page \<Rightarrow>
                  if pg_perm page AND access \<noteq> access \<and> safe mem then (mem, Inl (Permission_denied address))
                  else (at_page mem address AllocateData, Inr (Some (pg_tag page, unat offset))))"

section \<open>Copying pages\<close>

text \<open>The size is a multiple of the size of a page, so it is a number of pages.\<close>

primrec copy_loop :: "nat \<Rightarrow> memory \<Rightarrow> guest_addr \<Rightarrow> guest_addr \<Rightarrow> unit mem_res" where
  "copy_loop 0 mem dest src = (mem, Inr ())"
| "copy_loop (Suc n) mem dest src =
     (case (getPage mem dest, getPage mem src) of
        (Some page_dest, Some page_src) \<Rightarrow>
          copy_loop n
            (at_page mem dest (\<lambda>p.
               case pg_data page_src of
                 Some d \<Rightarrow> (AllocateData p)\<lparr>pg_data := Some d\<rparr>
               | None \<Rightarrow> if pg_data p \<noteq> None then p\<lparr>pg_data := Some (replicate (unat PageSize) 0)\<rparr> else p))
            (dest + PageSize) (src + PageSize)
      | _ \<Rightarrow> (mem, Inl (Mem_stop Assert)))"

definition Copy :: "memory \<Rightarrow> guest_addr \<Rightarrow> guest_addr \<Rightarrow> 32 word \<Rightarrow> unit mem_res" where
  "Copy mem dest src sz =
     (if dest AND (PageSize - 1) \<noteq> 0 \<or> src AND (PageSize - 1) \<noteq> 0 \<or> sz AND (PageSize - 1) \<noteq> 0
      then (mem, Inl (Mem_stop Assert))
      else if (src < dest \<and> dest < src + sz) \<or> (dest < src \<and> src < dest + sz) then (mem, Inl (Mem_stop Panic))
      else copy_loop (unat sz div unat PageSize) mem dest src)"

section \<open>Mapping\<close>

partial_function (option) map_space_loop ::
  "memory \<Rightarrow> guest_addr \<Rightarrow> guest_addr \<Rightarrow> 32 word \<Rightarrow> guest_addr run option" where
  "map_space_loop mem tag_start tag_end sz =
     (if tag_end = 0 then ret (- 1)
      else if getPage mem tag_end \<noteq> None then map_space_loop mem (tag_end + PageSize) (tag_end + PageSize) sz
      else if tag_end - tag_start + PageSize = sz then ret tag_start
      else if \<not> tag_end - tag_start + PageSize < sz then stops Assert
      else map_space_loop mem tag_start (tag_end + PageSize) sz)"

definition MapSpace :: "memory \<Rightarrow> guest_addr \<Rightarrow> 32 word \<Rightarrow> guest_addr run option" where
  "MapSpace mem address sz =
     (if address AND (PageSize - 1) \<noteq> 0 \<or> sz AND (PageSize - 1) \<noteq> 0 then stops Assert
      else map_space_loop mem address address sz)"

partial_function (option) map_space_down_loop ::
  "memory \<Rightarrow> guest_addr \<Rightarrow> guest_addr \<Rightarrow> 32 word \<Rightarrow> guest_addr run option" where
  "map_space_down_loop mem tag_start tag_end sz =
     (if tag_start = 0 then ret (- 1)
      else if getPage mem tag_start \<noteq> None then map_space_down_loop mem (tag_start - PageSize) (tag_start - PageSize) sz
      else if tag_end - tag_start + PageSize = sz then ret tag_start
      else if \<not> tag_end - tag_start + PageSize < sz then stops Assert
      else map_space_down_loop mem (tag_start - PageSize) tag_end sz)"

definition MapSpaceDown :: "memory \<Rightarrow> guest_addr \<Rightarrow> 32 word \<Rightarrow> guest_addr run option" where
  "MapSpaceDown mem address sz =
     (if address AND (PageSize - 1) \<noteq> 0 \<or> sz AND (PageSize - 1) \<noteq> 0 then stops Assert
      else map_space_down_loop mem address address sz)"

text \<open>The loop over the pages from \<open>tag\<close> to \<open>tag2\<close> of \<open>Map\<close>, \<open>Unmap\<close> and \<open>Protect\<close>; \<open>f\<close> is its body.\<close>

partial_function (option) for_pages ::
  "(memory \<Rightarrow> guest_addr \<Rightarrow> memory) \<Rightarrow> guest_addr \<Rightarrow> guest_addr \<Rightarrow> memory \<Rightarrow> memory run option" where
  "for_pages f tag tag2 mem = (if tag \<le> tag2 then for_pages f (tag + PageSize) tag2 (f mem tag) else ret mem)"

definition map_page :: "32 word \<Rightarrow> memory \<Rightarrow> guest_addr \<Rightarrow> memory" where
  "map_page perm mem tag =
     (let mem = (if getPage mem tag = None then fst (newPage mem tag perm) else mem)
      in at_page mem tag (addPerm perm))"

definition Map :: "memory \<Rightarrow> guest_addr \<Rightarrow> 32 word \<Rightarrow> 32 word \<Rightarrow> memory run option" where
  "Map mem address sz perm =
     for_pages (map_page perm) (address AND NOT (PageSize - 1)) ((address + sz - 1) AND NOT (PageSize - 1)) mem"

definition unmap_page :: "memory \<Rightarrow> guest_addr \<Rightarrow> memory" where
  "unmap_page mem tag = mem\<lparr>pages := AList.delete tag (pages mem)\<rparr>"

definition Unmap :: "memory \<Rightarrow> guest_addr \<Rightarrow> 32 word \<Rightarrow> memory run option" where
  "Unmap mem address sz =
     (if address AND (PageSize - 1) \<noteq> 0 \<or> sz AND (PageSize - 1) \<noteq> 0 then stops Assert
      else for_pages unmap_page (address AND NOT (PageSize - 1)) ((address + sz - 1) AND NOT (PageSize - 1)) mem)"

definition protect_page :: "32 word \<Rightarrow> memory \<Rightarrow> guest_addr \<Rightarrow> memory" where
  "protect_page perm mem tag = (if getPage mem tag = None then mem else at_page mem tag (setPerm perm))"

definition Protect :: "memory \<Rightarrow> guest_addr \<Rightarrow> 32 word \<Rightarrow> 32 word \<Rightarrow> memory run option" where
  "Protect mem address sz perm =
     (if address AND (PageSize - 1) \<noteq> 0 \<or> sz AND (PageSize - 1) \<noteq> 0 then stops Assert
      else for_pages (protect_page perm) (address AND NOT (PageSize - 1)) ((address + sz - 1) AND NOT (PageSize - 1)) mem)"

section \<open>Strings, files and copies\<close>

definition WriteString :: "memory \<Rightarrow> guest_addr \<Rightarrow> byte list \<Rightarrow> byte list mem_res" where
  "WriteString mem address s = Write mem address (s @ [0])"

text \<open>The loop of \<open>ReadString\<close>; the first argument is the number of characters left.\<close>

primrec read_string_loop :: "nat \<Rightarrow> memory \<Rightarrow> guest_addr \<Rightarrow> byte list \<Rightarrow> byte list mem_res" where
  "read_string_loop 0 mem address s = (mem, Inl (Mem_stop Panic))"
| "read_string_loop (Suc n) mem address s =
     then_mem (Read mem address 1) (\<lambda>mem c.
       if c ! 0 = 0 then (mem, Inr s) else read_string_loop n mem (address + 1) (s @ [c ! 0]))"

definition ReadString :: "memory \<Rightarrow> guest_addr \<Rightarrow> int \<Rightarrow> byte list mem_res" where
  "ReadString mem address max_length = read_string_loop (nat max_length) mem address []"

primrec zero_loop :: "nat \<Rightarrow> memory \<Rightarrow> guest_addr \<Rightarrow> unit mem_res" where
  "zero_loop 0 mem address = (mem, Inr ())"
| "zero_loop (Suc n) mem address = then_mem (Write mem address [0]) (\<lambda>mem _. zero_loop n mem (address + 1))"

definition Zero :: "memory \<Rightarrow> guest_addr \<Rightarrow> 32 word \<Rightarrow> unit mem_res" where
  "Zero mem address sz = zero_loop (unat sz) mem address"

text \<open>The loop of \<open>Save\<close>, with the contents of the file so far.\<close>

function save_loop :: "memory \<Rightarrow> guest_addr \<Rightarrow> guest_addr \<Rightarrow> byte list \<Rightarrow> byte list mem_res" where
  "save_loop mem start end_addr f =
     (if start < end_addr
      then
        let sz = min PageSize (end_addr - start)
        in then_mem (Read mem start (unat sz)) (\<lambda>mem buf. save_loop mem (start + sz) end_addr (f @ buf))
      else (mem, Inr f))"
  by pat_completeness auto

lemma save_step:
  assumes "start < (end_addr :: guest_addr)"
  shows "unat (end_addr - (start + min PageSize (end_addr - start))) < unat (end_addr - start)"
proof -
  let ?sz = "min PageSize (end_addr - start)"
  have "?sz \<noteq> 0" using assms by (auto simp: min_def PageSize_def LogPageSize_def push_bit_eq_mult)
  then have "0 < unat ?sz" by (simp add: unat_gt_0)
  moreover have "?sz \<le> end_addr - start" by simp
  then have "unat (end_addr - start - ?sz) = unat (end_addr - start) - unat ?sz" by (rule unat_sub)
  moreover have "unat ?sz \<le> unat (end_addr - start)" by (simp flip: word_le_nat_alt)
  ultimately show ?thesis by (simp add: diff_diff_eq)
qed

termination save_loop
  by (relation "measure (\<lambda>(mem, start, end_addr, f). unat (end_addr - start))") (auto intro: save_step)

declare save_loop.simps [simp del]

text \<open>The contents of the file written; \<open>opened\<close> is whether it can be opened.\<close>

definition Save :: "memory \<Rightarrow> bool \<Rightarrow> guest_addr \<Rightarrow> guest_addr \<Rightarrow> byte list mem_res" where
  "Save mem opened start end_addr =
     (if \<not> opened then (mem, Inl Cannot_open)
      else
        let old_safe = safe mem
        in then_mem (save_loop (mem\<lparr>safe := False\<rparr>) start end_addr []) (\<lambda>mem f. (mem\<lparr>safe := old_safe\<rparr>, Inr f)))"

text \<open>The loop of \<open>Load\<close>: the stream is good until a read finds less than a page.\<close>

function load_file_loop :: "memory \<Rightarrow> guest_addr \<Rightarrow> byte list \<Rightarrow> unit mem_res" where
  "load_file_loop mem start f =
     (let buf = take (unat PageSize) f
      in then_mem (Write mem start buf) (\<lambda>mem _.
           if length buf < unat PageSize then (mem, Inr ())
           else load_file_loop mem (start + of_nat (length buf)) (drop (unat PageSize) f)))"
  by pat_completeness auto

termination load_file_loop
  by (relation "measure (\<lambda>(mem, start, f). length f)") auto

declare load_file_loop.simps [simp del]

definition Load :: "memory \<Rightarrow> byte list option \<Rightarrow> guest_addr \<Rightarrow> unit mem_res" where
  "Load mem f start =
     (case f of
        None \<Rightarrow> (mem, Inl Cannot_open)
      | Some contents \<Rightarrow>
          let old_safe = safe mem
          in then_mem (load_file_loop (mem\<lparr>safe := False\<rparr>) start contents) (\<lambda>mem _. (mem\<lparr>safe := old_safe\<rparr>, Inr ())))"

primrec clone_loop :: "(guest_addr \<times> page) list \<Rightarrow> memory \<Rightarrow> unit mem_res" where
  "clone_loop [] mem = (mem, Inr ())"
| "clone_loop (kp # kps) mem =
     (let src_page = snd kp
      in then_mem (newPage mem (pg_tag src_page) (pg_perm src_page)) (\<lambda>mem _.
         then_mem
           (case pg_data src_page of
              None \<Rightarrow> (mem, Inr [])
            | Some d \<Rightarrow> Access mem (pg_tag src_page) d AccessInit)
           (\<lambda>mem _. clone_loop kps mem)))"

definition Clone :: "memory \<Rightarrow> memory \<Rightarrow> unit mem_res" where
  "Clone mem src =
     then_mem (clone_loop (pages src) ((Clear mem)\<lparr>safe := False\<rparr>)) (\<lambda>mem _.
       (mem\<lparr>safe := safe src, heap_break := heap_break src\<rparr>, Inr ()))"

text \<open>The copy constructor.\<close>

definition memory_copy :: "memory \<Rightarrow> unit mem_res" where
  "memory_copy src =
     then_mem (clone_loop (pages src) (memory_create False)) (\<lambda>mem _.
       (mem\<lparr>safe := safe src, heap_break := heap_break src\<rparr>, Inr ()))"

section \<open>The bytes and permissions of a memory\<close>

abbreviation page_base :: "guest_addr \<Rightarrow> guest_addr" where
  "page_base a \<equiv> a AND NOT (mask 12)"

abbreviation page_offset :: "guest_addr \<Rightarrow> nat" where
  "page_offset a \<equiv> unat (a AND mask 12)"

text \<open>The table has one page for a tag, under its tag, which is aligned, and its data is of full size.\<close>

definition page_ok :: "guest_addr \<Rightarrow> page \<Rightarrow> bool" where
  "page_ok k p \<longleftrightarrow> pg_tag p = k \<and> page_base k = k \<and> (\<forall>d. pg_data p = Some d \<longrightarrow> length d = 4096)"

definition mem_ok :: "memory \<Rightarrow> bool" where
  "mem_ok mem \<longleftrightarrow> distinct (map fst (pages mem)) \<and> (\<forall>kp \<in> set (pages mem). page_ok (fst kp) (snd kp))"

definition data_at :: "page \<Rightarrow> nat \<Rightarrow> byte" where
  "data_at p i = (case pg_data p of None \<Rightarrow> 0 | Some d \<Rightarrow> d ! i)"

definition byte_at :: "memory \<Rightarrow> guest_addr \<Rightarrow> byte" where
  "byte_at mem a = (case getPage mem a of None \<Rightarrow> 0 | Some p \<Rightarrow> data_at p (page_offset a))"

definition perm_at :: "memory \<Rightarrow> guest_addr \<Rightarrow> 32 word option" where
  "perm_at mem a = map_option pg_perm (getPage mem a)"

text \<open>Whether an access is allowed at an address, and the error when it is not.\<close>

definition accessible :: "memory \<Rightarrow> 32 word \<Rightarrow> guest_addr \<Rightarrow> bool" where
  "accessible mem access a \<longleftrightarrow> \<not> safe mem \<or> (\<exists>q. perm_at mem a = Some q \<and> q AND access = access)"

definition fault :: "memory \<Rightarrow> guest_addr \<Rightarrow> mem_error" where
  "fault mem a = (if perm_at mem a = None then Segmentation_fault a else Permission_denied a)"

lemma perm_at_None [simp]: "perm_at mem a = None \<longleftrightarrow> getPage mem a = None"
  by (simp add: perm_at_def)

lemma getPage_base: "getPage mem a = map_of (pages mem) (page_base a)"
  by (simp add: getPage_def)

lemma same_page:
  assumes "page_base a = page_base b"
  shows "getPage mem a = getPage mem b" "perm_at mem a = perm_at mem b" "accessible mem access a = accessible mem access b"
  using assms by (simp_all add: getPage_base perm_at_def accessible_def)

lemma getPage_ok: "mem_ok mem \<Longrightarrow> getPage mem a = Some p \<Longrightarrow> page_ok (page_base a) p"
  unfolding mem_ok_def getPage_base by (auto dest!: map_of_SomeD)

lemma getPage_at_page:
  "getPage (at_page mem a f) b = (if page_base b = page_base a then map_option f (getPage mem b) else getPage mem b)"
  by (simp add: getPage_base at_page_def AList.map_of_map_entry fun_upd_apply split: option.split)

lemma at_page_fields [simp]: "safe (at_page mem a f) = safe mem" "heap_break (at_page mem a f) = heap_break mem"
  "last_address (at_page mem a f) = last_address mem"
  by (simp_all add: at_page_def)

lemma set_map_entry: "kp \<in> set (AList.map_entry k f xs) \<Longrightarrow> kp \<in> set xs \<or> (\<exists>p. (k, p) \<in> set xs \<and> kp = (k, f p))"
  by (induction xs) (auto split: if_splits)

lemma map_entry_absent: "k \<notin> fst ` set xs \<Longrightarrow> AList.map_entry k f xs = xs"
  by (induction xs) auto

lemma at_page_absent: "getPage mem a = None \<Longrightarrow> at_page mem a f = mem"
  by (simp add: at_page_def getPage_base map_of_eq_None_iff map_entry_absent)

lemma at_page_ok:
  assumes "mem_ok mem" "\<And>p. page_ok (page_base a) p \<Longrightarrow> page_ok (page_base a) (f p)"
  shows "mem_ok (at_page mem a f)"
  using assms unfolding mem_ok_def at_page_def
  by (auto simp: AList.distinct_map_entry dest!: set_map_entry)

lemma newPage_new:
  assumes "getPage mem a = None"
  shows "\<exists>mem'. newPage mem a perm = (mem', Inr ()) \<and> safe mem' = safe mem \<and> heap_break mem' = heap_break mem \<and>
    last_address mem' = last_address mem \<and>
    (\<forall>b. getPage mem' b = (if page_base b = page_base a
            then Some \<lparr>pg_tag = page_base a, pg_perm = perm, pg_data = None\<rparr> else getPage mem b)) \<and>
    (mem_ok mem \<longrightarrow> mem_ok mem')"
proof -
  have "page_base a \<notin> fst ` set (pages mem)" using assms by (simp add: getPage_base map_of_eq_None_iff)
  then show ?thesis
    using assms by (simp add: newPage_def Let_def getPage_base mem_ok_def page_ok_def)
qed

section \<open>An access within a page\<close>

lemma chunk_bytes:
  assumes "page_offset a + n \<le> 4096" "i < n"
  shows "page_base (a + of_nat i) = page_base a" "page_offset (a + of_nat i) = page_offset a + i"
    "unat (a + of_nat i) = unat a + i"
  using advance [of a 12 i] assms by simp_all

lemma flags [simp]: "AccessRead \<noteq> AccessWrite" "AccessRead \<noteq> AccessInit" "AccessExec \<noteq> AccessWrite" "AccessExec \<noteq> AccessInit"
  "AccessWrite \<noteq> AccessRead" "AccessInit \<noteq> AccessRead" "AccessWrite \<noteq> AccessExec" "AccessInit \<noteq> AccessExec"
  "AccessInit \<noteq> AccessWrite" "AccessWrite \<noteq> AccessInit"
  by (simp_all add: AccessRead_def AccessWrite_def AccessExec_def AccessInit_def)

text \<open>A page as a byte list in the range of a chunk.\<close>

lemma page_chunk:
  assumes "mem_ok mem" "page_offset a + n \<le> 4096" "getPage mem a = Some p"
  shows "map (\<lambda>i. byte_at mem (a + of_nat i)) [0..<n] =
    (case pg_data p of Some d \<Rightarrow> take n (drop (page_offset a) d) | None \<Rightarrow> replicate n 0)"
proof -
  have b: "byte_at mem (a + of_nat i) = data_at p (page_offset a + i)" if "i < n" for i
    using chunk_bytes [OF assms(2) that] same_page(1) [of "a + of_nat i" a] assms(3) by (simp add: byte_at_def)
  show ?thesis
  proof (cases "pg_data p")
    case (Some d)
    then have "length d = 4096" using getPage_ok [OF assms(1,3)] by (simp add: page_ok_def)
    then show ?thesis using b Some assms(2) by (intro nth_equalityI) (simp_all add: data_at_def)
  next
    case None
    then show ?thesis using b by (intro nth_equalityI) (simp_all add: data_at_def)
  qed
qed

lemma boundary_read:
  assumes "mem_ok mem" "page_offset a + length buf \<le> 4096" "access = AccessRead \<or> access = AccessExec"
  shows "AccessAtPageBoundary mem a buf access =
    (mem, if accessible mem access a then Inr (map (\<lambda>i. byte_at mem (a + of_nat i)) [0..<length buf])
          else Inl (fault mem a))"
proof (cases "getPage mem a")
  case None
  then have "byte_at mem (a + of_nat i) = 0" if "i < length buf" for i
    using chunk_bytes [OF assms(2) that] same_page(1) [of "a + of_nat i" a] by (simp add: byte_at_def)
  then have "map (\<lambda>i. byte_at mem (a + of_nat i)) [0..<length buf] = replicate (length buf) 0"
    by (intro nth_equalityI) simp_all
  then show ?thesis
    using None assms(2,3) by (auto simp: AccessAtPageBoundary_def Let_def accessible_def fault_def perm_at_def)
next
  case (Some p)
  have "access \<noteq> AccessWrite" "access \<noteq> AccessInit" using assms(3) by auto
  then show ?thesis
    using Some assms(2,3) page_chunk [OF assms(1,2) Some]
    by (simp add: AccessAtPageBoundary_def Let_def accessible_def fault_def perm_at_def)
qed

text \<open>The addresses of a chunk are those at a distance below its length.\<close>

lemma in_chunk:
  assumes "page_offset a + n \<le> 4096"
  shows "unat (b - a) < n \<longleftrightarrow> page_base b = page_base a \<and> page_offset a \<le> page_offset b \<and> page_offset b < page_offset a + n"
    "unat (b - a) < n \<Longrightarrow> unat (b - a) = page_offset b - page_offset a"
  using in_block [of a 12 n b] assms by simp_all

definition all_access :: "32 word" where
  "all_access = AccessRead OR AccessWrite OR AccessExec OR AccessInit"

text \<open>The permissions of a page after an access.\<close>

definition marked :: "32 word \<Rightarrow> 32 word option \<Rightarrow> 32 word" where
  "marked access q = (case q of None \<Rightarrow> all_access | Some q \<Rightarrow> q) OR (if access = AccessWrite then AccessModified else 0)"

lemma modified_apart: "access = AccessWrite \<or> access = AccessInit \<Longrightarrow> (q OR AccessModified) AND access = q AND access"
  unfolding bit.conj_disj_distrib2 by (auto simp: AccessWrite_def AccessInit_def AccessModified_def)

lemma copy_in_data:
  assumes "page_ok k p" "off + length buf \<le> 4096" "i < 4096"
  shows "data_at (copy_in off buf (AllocateData p)) i =
      (if off \<le> i \<and> i < off + length buf then buf ! (i - off) else data_at p i)"
    "page_ok k (copy_in off buf (AllocateData p))" "pg_perm (copy_in off buf (AllocateData p)) = pg_perm p"
  using assms by (auto simp: copy_in_def AllocateData_def data_at_def page_ok_def nth_append min_def split: option.split)

text \<open>Writing to the page of an address once it is there and allowed.\<close>

lemma write_page:
  assumes "mem_ok mem" "page_offset a + length buf \<le> 4096" "getPage mem a = Some p"
  defines "mem' \<equiv> at_page mem a (copy_in (page_offset a) buf \<circ> AllocateData)"
  shows "mem_ok mem'" "safe mem' = safe mem" "perm_at mem' b = perm_at mem b"
    "byte_at mem' b = (if unat (b - a) < length buf then buf ! unat (b - a) else byte_at mem b)"
proof -
  have "page_ok k q \<Longrightarrow> page_ok k (copy_in (page_offset a) buf (AllocateData q))" for k q
    using copy_in_data(2) [OF _ assms(2), of k q 0] by simp
  then show "mem_ok mem'" unfolding mem'_def by (intro at_page_ok) (simp_all add: assms(1))
  show "safe mem' = safe mem" by (simp add: mem'_def)
  show "perm_at mem' b = perm_at mem b"
    using assms(3) copy_in_data(3) [OF getPage_ok [OF assms(1,3)] assms(2), of 0] same_page(1) [of b a]
    by (auto simp: perm_at_def mem'_def getPage_at_page)
  show "byte_at mem' b = (if unat (b - a) < length buf then buf ! unat (b - a) else byte_at mem b)"
  proof (cases "page_base b = page_base a")
    case True
    then have g: "getPage mem b = Some p" using assms(3) same_page(1) by metis
    then show ?thesis
      using True in_chunk [OF assms(2), of b]
        copy_in_data(1) [OF getPage_ok [OF assms(1) g] assms(2), of "page_offset b"]
      by (auto simp: byte_at_def mem'_def getPage_at_page)
  next
    case False
    then show ?thesis using in_chunk(1) [OF assms(2), of b] by (simp add: byte_at_def mem'_def getPage_at_page)
  qed
qed

text \<open>Creating the page of an address when it is missing, and adding flags to it, change no byte.\<close>

lemma ensure_page:
  assumes "mem_ok mem"
  obtains mem1 where "(if getPage mem a = None then newPage mem a all_access else (mem, Inr ())) = (mem1, Inr ())"
    "mem_ok mem1" "safe mem1 = safe mem" "heap_break mem1 = heap_break mem" "last_address mem1 = last_address mem"
    "getPage mem1 a \<noteq> None" "\<And>b. byte_at mem1 b = byte_at mem b"
    "\<And>b. perm_at mem1 b = (if page_base b = page_base a
       then Some (case perm_at mem a of None \<Rightarrow> all_access | Some q \<Rightarrow> q) else perm_at mem b)"
proof (cases "getPage mem a")
  case None
  obtain mem' where m: "newPage mem a all_access = (mem', Inr ())" "safe mem' = safe mem" "heap_break mem' = heap_break mem"
      "last_address mem' = last_address mem"
      "\<forall>b. getPage mem' b = (if page_base b = page_base a
          then Some \<lparr>pg_tag = page_base a, pg_perm = all_access, pg_data = None\<rparr> else getPage mem b)" "mem_ok mem'"
    using newPage_new [OF None, of all_access] assms by blast
  have "byte_at mem' b = byte_at mem b" for b
    using m(5) None same_page(1) [of b a mem] by (cases "page_base b = page_base a") (simp_all add: byte_at_def data_at_def)
  moreover have "perm_at mem' b = (if page_base b = page_base a
       then Some (case perm_at mem a of None \<Rightarrow> all_access | Some q \<Rightarrow> q) else perm_at mem b)" for b
    using m(5) None by (simp add: perm_at_def)
  ultimately show thesis using m None by (intro that [of mem']) simp_all
next
  case (Some p)
  have "perm_at mem b = (if page_base b = page_base a
       then Some (case perm_at mem a of None \<Rightarrow> all_access | Some q \<Rightarrow> q) else perm_at mem b)" for b
    using same_page(2) [of b a mem] Some by (simp add: perm_at_def)
  then show thesis using Some assms by (intro that [of mem]) simp_all
qed

lemma mark_page:
  "mem_ok mem \<Longrightarrow> mem_ok (at_page mem a (addPerm m))"
  "byte_at (at_page mem a (addPerm m)) b = byte_at mem b"
  "perm_at (at_page mem a (addPerm m)) b =
     (if page_base b = page_base a then map_option (\<lambda>q. q OR m) (perm_at mem b) else perm_at mem b)"
  "getPage (at_page mem a (addPerm m)) b = None \<longleftrightarrow> getPage mem b = None"
proof -
  show "mem_ok mem \<Longrightarrow> mem_ok (at_page mem a (addPerm m))" by (rule at_page_ok) (simp_all add: addPerm_def page_ok_def)
  show "byte_at (at_page mem a (addPerm m)) b = byte_at mem b"
    by (cases "getPage mem b") (simp_all add: byte_at_def getPage_at_page data_at_def addPerm_def)
  show "perm_at (at_page mem a (addPerm m)) b =
     (if page_base b = page_base a then map_option (\<lambda>q. q OR m) (perm_at mem b) else perm_at mem b)"
    by (cases "getPage mem b") (simp_all add: perm_at_def getPage_at_page addPerm_def)
  show "getPage (at_page mem a (addPerm m)) b = None \<longleftrightarrow> getPage mem b = None" by (simp add: getPage_at_page)
qed

lemma boundary_write:
  assumes "mem_ok mem" "page_offset a + length buf \<le> 4096" "access = AccessWrite \<or> access = AccessInit"
    and "accessible mem access a"
  shows "\<exists>mem'. AccessAtPageBoundary mem a buf access = (mem', Inr buf) \<and> mem_ok mem' \<and> safe mem' = safe mem \<and>
    heap_break mem' = heap_break mem \<and> last_address mem' = last_address mem \<and>
    (\<forall>b. perm_at mem' b = (if page_base b = page_base a then Some (marked access (perm_at mem a)) else perm_at mem b)) \<and>
    (\<forall>b. byte_at mem' b = (if unat (b - a) < length buf then buf ! unat (b - a) else byte_at mem b))"
proof -
  have na: "access \<noteq> AccessRead" "access \<noteq> AccessExec" using assms(3) by auto
  obtain mem1 where m1: "(if getPage mem a = None then newPage mem a all_access else (mem, Inr ())) = (mem1, Inr ())"
      "mem_ok mem1" "safe mem1 = safe mem" "heap_break mem1 = heap_break mem" "last_address mem1 = last_address mem"
      "getPage mem1 a \<noteq> None" "\<And>b. byte_at mem1 b = byte_at mem b"
      "\<And>b. perm_at mem1 b = (if page_base b = page_base a
         then Some (case perm_at mem a of None \<Rightarrow> all_access | Some q \<Rightarrow> q) else perm_at mem b)"
    using ensure_page [OF assms(1)] by blast
  define mem2 where "mem2 = (if access = AccessWrite then at_page mem1 a (addPerm AccessModified) else mem1)"
  have m2: "mem_ok mem2" "safe mem2 = safe mem" "heap_break mem2 = heap_break mem" "last_address mem2 = last_address mem"
      "\<And>b. byte_at mem2 b = byte_at mem b"
    using m1 mark_page(1,2) [of mem1 a AccessModified] by (simp_all add: mem2_def)
  have m25: "getPage mem2 a \<noteq> None" using m1(6) mark_page(4) unfolding mem2_def by metis
  have p2: "perm_at mem2 b = (if page_base b = page_base a then Some (marked access (perm_at mem a)) else perm_at mem b)" for b
    using m1(8) [of b] mark_page(3) [of mem1 a AccessModified b] by (simp add: mem2_def marked_def)
  obtain p where p: "getPage mem2 a = Some p" using m25 by blast
  have pm: "pg_perm p = marked access (perm_at mem a)" using p2 [of a] p by (simp add: perm_at_def)
  have ok: "\<not> (safe mem \<and> pg_perm p AND access \<noteq> access)"
  proof
    assume h: "safe mem \<and> pg_perm p AND access \<noteq> access"
    then obtain q where "perm_at mem a = Some q" "q AND access = access" using assms(4) by (auto simp: accessible_def)
    then have "pg_perm p AND access = access"
      using modified_apart [OF assms(3), of q] by (cases "access = AccessWrite") (simp_all add: pm marked_def)
    then show False using h by simp
  qed
  have np: "\<not> (getPage mem a = None \<and> safe mem)" using assms(4) by (auto simp: accessible_def perm_at_def)
  have e: "(if getPage mem a = None \<and> (access = AccessWrite \<or> access = AccessInit)
       then newPage mem a (AccessRead OR AccessWrite OR AccessExec OR AccessInit) else (mem, Inr ())) = (mem1, Inr ())"
    using m1(1) assms(3) unfolding all_access_def by simp
  have res: "AccessAtPageBoundary mem a buf access =
      (at_page mem2 a (copy_in (page_offset a) buf \<circ> AllocateData), Inr buf)"
    unfolding AccessAtPageBoundary_def Let_def page_size(2) e then_mem_simps mem2_def [symmetric]
    using assms(2,3) np na m1(6) ok m2(2) p by simp
  note w = write_page [OF m2(1) assms(2) p]
  show ?thesis
    unfolding res
    by (rule exI, intro conjI allI, rule refl) (simp_all only: w m2 p2 at_page_fields)
qed

text \<open>A denied write marks the page all the same.\<close>

lemma boundary_denied:
  assumes "page_offset a + length buf \<le> 4096" "access = AccessWrite \<or> access = AccessInit"
    and "\<not> accessible mem access a"
  shows "AccessAtPageBoundary mem a buf access =
    (if access = AccessWrite then at_page mem a (addPerm AccessModified) else mem, Inl (fault mem a))"
proof (cases "getPage mem a")
  case None
  then show ?thesis
    using assms by (auto simp: AccessAtPageBoundary_def Let_def accessible_def fault_def perm_at_def at_page_absent)
next
  case (Some p)
  have s: "safe mem" "pg_perm p AND access \<noteq> access" using assms(3) Some by (auto simp: accessible_def perm_at_def)
  then have "(pg_perm p OR AccessModified) AND access \<noteq> access" using modified_apart [OF assms(2)] by simp
  then show ?thesis
    using assms(1,2) Some s
    by (auto simp: AccessAtPageBoundary_def Let_def fault_def perm_at_def getPage_at_page addPerm_def)
qed

section \<open>Accesses of any size\<close>

lemma chunk_fits: "page_offset a + chunk_size a n \<le> 4096"
proof -
  have "k + min n (4096 - k) \<le> 4096" if "k < 4096" for k :: nat using that by auto
  then show ?thesis by simp
qed

lemma accessible_same:
  assumes "page_offset a + c \<le> 4096" "i < c"
  shows "accessible mem access (a + of_nat i) = accessible mem access a"
  using chunk_bytes(1) [OF assms] same_page(3) by blast

text \<open>The number of bytes at the start of a range that are accessible.\<close>

primrec reach :: "memory \<Rightarrow> 32 word \<Rightarrow> guest_addr \<Rightarrow> nat \<Rightarrow> nat" where
  "reach mem access a 0 = 0"
| "reach mem access a (Suc n) = (if accessible mem access a then Suc (reach mem access (a + 1) n) else 0)"

lemma reach_le: "reach mem access a n \<le> n"
  by (induction n arbitrary: a) auto

lemma reach_less: "i < reach mem access a n \<Longrightarrow> accessible mem access (a + of_nat i)"
proof (induction n arbitrary: a i)
  case (Suc n)
  then show ?case
    using Suc.IH [of "i - 1" "a + 1"] by (cases i) (auto split: if_splits simp: algebra_simps)
qed simp

lemma reach_stop: "reach mem access a n < n \<Longrightarrow> \<not> accessible mem access (a + of_nat (reach mem access a n))"
proof (induction n arbitrary: a)
  case (Suc n)
  then show ?case using Suc.IH [of "a + 1"] by (auto simp: algebra_simps)
qed simp

lemma reach_split:
  assumes "\<forall>i < c. accessible mem access (a + of_nat i)"
  shows "reach mem access a (c + n) = c + reach mem access (a + of_nat c) n"
  using assms
proof (induction c arbitrary: a)
  case (Suc c)
  have "\<forall>i < c. accessible mem access (a + 1 + of_nat i)"
  proof (intro allI impI)
    fix i
    assume "i < c"
    then show "accessible mem access (a + 1 + of_nat i)" using Suc.prems [rule_format, of "Suc i"] by (simp add: algebra_simps)
  qed
  then show ?case using Suc.IH [of "a + 1"] Suc.prems [rule_format, of 0] by (simp add: algebra_simps)
qed simp

lemma reach_cong: "(\<And>b. accessible mem' access b = accessible mem access b) \<Longrightarrow> reach mem' access a n = reach mem access a n"
  by (induction n arbitrary: a) simp_all

text \<open>How far a range is accessible, chunk by chunk.\<close>

lemma reach_chunk:
  assumes "c = chunk_size a n" "0 < n"
  shows "reach mem access a n =
    (if accessible mem access a then c + reach mem access (a + of_nat c) (n - c) else 0)"
proof (cases "accessible mem access a")
  case True
  have "\<forall>i < c. accessible mem access (a + of_nat i)"
    using accessible_same [OF chunk_fits [of a n]] True assms(1) by blast
  then have "reach mem access a (c + (n - c)) = c + reach mem access (a + of_nat c) (n - c)" by (rule reach_split)
  moreover have "c + (n - c) = n" using assms(1) by simp
  ultimately show ?thesis using True by simp
next
  case False
  then show ?thesis using assms(2) by (cases n) simp_all
qed

lemma access_loop_chunk:
  assumes "buf \<noteq> []" "c = chunk_size a (length buf)"
  shows "access_loop mem a buf access =
    then_mem (AccessAtPageBoundary mem a (take c buf) access) (\<lambda>mem bytes.
    then_mem (access_loop mem (a + of_nat c) (drop c buf) access) (\<lambda>mem rest. (mem, Inr (bytes @ rest))))"
  using assms by (subst access_loop.simps) (simp add: Let_def)

lemma access_loop_read:
  assumes "mem_ok mem" "access = AccessRead \<or> access = AccessExec"
  shows "access_loop mem a buf access =
    (mem, if reach mem access a (length buf) = length buf
          then Inr (map (\<lambda>i. byte_at mem (a + of_nat i)) [0..<length buf])
          else Inl (fault mem (a + of_nat (reach mem access a (length buf)))))"
proof (induction "length buf" arbitrary: a buf rule: less_induct)
  case less
  show ?case
  proof (cases "buf = []")
    case True
    then show ?thesis by (subst access_loop.simps) simp
  next
    case False
    define c where "c = chunk_size a (length buf)"
    have c: "0 < c" "c \<le> length buf" "page_offset a + length (take c buf) \<le> 4096"
      using chunk_pos [of "length buf" a] False chunk_fits [of a "length buf"] by (simp_all add: c_def)
    note step = access_loop_chunk [OF False c_def, of mem access]
      and b = boundary_read [OF assms(1) c(3) assms(2)]
      and r = reach_chunk [OF c_def, of mem access]
    have n: "0 < length buf" using False by simp
    show ?thesis
    proof (cases "accessible mem access a")
      case False
      then show ?thesis using b step r [OF n] n by simp
    next
      case True
      have l: "length buf = c + length (drop c buf)" using c(2) by simp
      have "length (drop c buf) < length buf" using c(1,2) by simp
      note ih = less [OF this, of "a + of_nat c"]
      have m: "map (\<lambda>i. byte_at mem (a + of_nat i)) [0..<length buf] =
          map (\<lambda>i. byte_at mem (a + of_nat i)) [0..<c] @
          map (\<lambda>i. byte_at mem (a + of_nat c + of_nat i)) [0..<length (drop c buf)]"
        by (subst l) (simp only: map_upt_add of_nat_add add.assoc)
      have rr: "reach mem access a (length buf) = c + reach mem access (a + of_nat c) (length (drop c buf))"
        using r [OF n] True by simp
      have t: "length (take c buf) = c" using c(2) by simp
      note lhs = step [unfolded b if_P [OF True] then_mem_simps ih t]
      show ?thesis
      proof (cases "reach mem access (a + of_nat c) (length (drop c buf)) = length (drop c buf)")
        case True
        then have e: "c + reach mem access (a + of_nat c) (length (drop c buf)) = length buf" using l by linarith
        show ?thesis unfolding lhs if_P [OF True] then_mem_simps rr if_P [OF e] m ..
      next
        case False
        then have e: "c + reach mem access (a + of_nat c) (length (drop c buf)) \<noteq> length buf" using l by linarith
        show ?thesis unfolding lhs if_not_P [OF False] then_mem_simps rr if_not_P [OF e] of_nat_add add.assoc ..
      qed
    qed
  qed
qed

text \<open>The permission to write or initialise is not lost by a write.\<close>

lemma marked_accessible:
  assumes "access = AccessWrite \<or> access = AccessInit" "accessible mem access a" "safe mem' = safe mem"
    and "\<forall>b. perm_at mem' b = (if page_base b = page_base a then Some (marked access (perm_at mem a)) else perm_at mem b)"
  shows "accessible mem' access b = accessible mem access b"
proof (cases "page_base b = page_base a \<and> safe mem")
  case True
  obtain q where q: "perm_at mem a = Some q" "q AND access = access" using assms(2) True by (auto simp: accessible_def)
  have "marked access (Some q) AND access = access"
    using q(2) modified_apart [OF assms(1), of q] by (cases "access = AccessWrite") (simp_all add: marked_def)
  then show ?thesis
    using True assms(3,4) q same_page(2) [of b a mem] by (auto simp: accessible_def)
next
  case False
  then show ?thesis using assms(3,4) by (auto simp: accessible_def)
qed

lemma guest_range_split:
  fixes a b :: guest_addr
  assumes "c + k \<le> 2 ^ 32" "length bs = c"
  shows "(if unat (b - (a + of_nat c)) < k then cs ! unat (b - (a + of_nat c))
          else if unat (b - a) < c then bs ! unat (b - a) else x) =
    (if unat (b - a) < c + k then (bs @ cs) ! unat (b - a) else x)"
  using range_split [of c k bs b a cs x] assms by simp

text \<open>What an access does to permissions: flags are kept, and only the modified flag is added; in safe
  mode no page is created.\<close>

definition perms_grow :: "memory \<Rightarrow> memory \<Rightarrow> bool" where
  "perms_grow mem mem' \<longleftrightarrow> safe mem' = safe mem \<and>
     (\<forall>b. safe mem \<longrightarrow> perm_at mem b = None \<longrightarrow> perm_at mem' b = None) \<and>
     (\<forall>b q. perm_at mem b = Some q \<longrightarrow> perm_at mem' b = Some q \<or> perm_at mem' b = Some (q OR AccessModified))"

declare perm_at_None [simp del]

lemma perms_growD:
  assumes "perms_grow mem mem'"
  shows "safe mem' = safe mem" "safe mem \<Longrightarrow> perm_at mem b = None \<Longrightarrow> perm_at mem' b = None"
    "perm_at mem b = Some q \<Longrightarrow> perm_at mem' b = Some q \<or> perm_at mem' b = Some (q OR AccessModified)"
  using assms unfolding perms_grow_def by blast+

lemma perms_grow_trans:
  assumes "perms_grow mem mem1" "perms_grow mem1 mem2"
  shows "perms_grow mem mem2"
  unfolding perms_grow_def
proof (intro conjI allI impI)
  fix b q
  assume "perm_at mem b = Some q"
  then consider "perm_at mem1 b = Some q" | "perm_at mem1 b = Some (q OR AccessModified)"
    using perms_growD(3) [OF assms(1)] by blast
  then show "perm_at mem2 b = Some q \<or> perm_at mem2 b = Some (q OR AccessModified)"
    using perms_growD(3) [OF assms(2), of b] by cases (auto simp: or.assoc)
qed (use perms_growD(1,2) [OF assms(1)] perms_growD(1,2) [OF assms(2)] in auto)

lemma perms_grow_refl: "perms_grow mem mem"
  by (simp add: perms_grow_def)

lemma fault_same: "perms_grow mem mem' \<Longrightarrow> safe mem \<Longrightarrow> fault mem' b = fault mem b"
  using perms_growD(2,3) [of mem mem' b] unfolding fault_def by (cases "perm_at mem b") auto

lemma perms_grow_marked:
  assumes "accessible mem access a" "safe mem' = safe mem"
    and "\<forall>b. perm_at mem' b = (if page_base b = page_base a then Some (marked access (perm_at mem a)) else perm_at mem b)"
  shows "perms_grow mem mem'"
proof -
  have "(safe mem \<longrightarrow> perm_at mem b = None \<longrightarrow> perm_at mem' b = None) \<and>
     (\<forall>q. perm_at mem b = Some q \<longrightarrow> perm_at mem' b = Some q \<or> perm_at mem' b = Some (q OR AccessModified))" for b
  proof (cases "page_base b = page_base a")
    case True
    then have "perm_at mem b = perm_at mem a" by (rule same_page(2))
    then show ?thesis
      using assms(1,3) True by (cases "perm_at mem a") (auto simp: accessible_def marked_def)
  qed (simp add: assms(3))
  then show ?thesis using assms(2) unfolding perms_grow_def by blast
qed

lemma perms_grow_denied: "perms_grow mem (if access = AccessWrite then at_page mem a (addPerm AccessModified) else mem)"
  by (auto simp: perms_grow_def mark_page(3))

lemma access_loop_write:
  assumes "mem_ok mem" "access = AccessWrite \<or> access = AccessInit" "length buf \<le> 2 ^ 32"
    and "k = reach mem access a (length buf)"
  shows "\<exists>mem'. access_loop mem a buf access = (mem', if k = length buf then Inr buf else Inl (fault mem (a + of_nat k))) \<and>
    mem_ok mem' \<and> perms_grow mem mem' \<and> heap_break mem' = heap_break mem \<and> last_address mem' = last_address mem \<and>
    (\<forall>b. byte_at mem' b = (if unat (b - a) < k then buf ! unat (b - a) else byte_at mem b))"
  using assms(1,3,4)
proof (induction "length buf" arbitrary: mem a buf k rule: less_induct)
  case less
  show ?case
  proof (cases "buf = []")
    case True
    then show ?thesis using less.prems by (subst access_loop.simps) (simp add: perms_grow_refl)
  next
    case False
    then have n: "0 < length buf" by simp
    define c where "c = chunk_size a (length buf)"
    have c: "0 < c" "c \<le> length buf" "page_offset a + length (take c buf) \<le> 4096" "length (take c buf) = c"
      using chunk_pos [OF n, of a] chunk_fits [of a "length buf"] by (simp_all add: c_def)
    note step = access_loop_chunk [OF False c_def, of mem access]
      and r = reach_chunk [OF c_def n, of mem access]
    show ?thesis
    proof (cases "accessible mem access a")
      case False
      let ?m = "if access = AccessWrite then at_page mem a (addPerm AccessModified) else mem"
      have k: "k = 0" using r False less.prems(3) by simp
      have "access_loop mem a buf access = (?m, Inl (fault mem a))"
        unfolding step boundary_denied [OF c(3) assms(2) False] by simp
      moreover have "mem_ok ?m" "byte_at ?m b = byte_at mem b" for b
        using mark_page(1) [OF less.prems(1)] less.prems(1) mark_page(2) by simp_all
      ultimately show ?thesis
        using perms_grow_denied [of mem access a] n k by (intro exI [of _ ?m]) simp
    next
      case True
      obtain mem1 where m1: "AccessAtPageBoundary mem a (take c buf) access = (mem1, Inr (take c buf))" "mem_ok mem1"
          "safe mem1 = safe mem" "heap_break mem1 = heap_break mem" "last_address mem1 = last_address mem"
          "\<forall>b. perm_at mem1 b = (if page_base b = page_base a then Some (marked access (perm_at mem a)) else perm_at mem b)"
          "\<forall>b. byte_at mem1 b = (if unat (b - a) < c then take c buf ! unat (b - a) else byte_at mem b)"
        using boundary_write [OF less.prems(1) c(3) assms(2) True] unfolding c(4) by blast
      have acc: "accessible mem1 access b = accessible mem access b" for b
        using marked_accessible [OF assms(2) True m1(3,6)] .
      have grow: "perms_grow mem mem1" using perms_grow_marked [OF True m1(3,6)] .
      define k2 where "k2 = reach mem access (a + of_nat c) (length (drop c buf))"
      have k2: "k = c + k2" using r True less.prems(3) by (simp add: k2_def)
      have k2l: "k2 \<le> length (drop c buf)" unfolding k2_def by (rule reach_le)
      have "length (drop c buf) < length buf" "length (drop c buf) \<le> 2 ^ 32" using c(1,2) less.prems(2) by simp_all
      then obtain mem2 where m2: "access_loop mem1 (a + of_nat c) (drop c buf) access =
            (mem2, if k2 = length (drop c buf) then Inr (drop c buf) else Inl (fault mem1 (a + of_nat c + of_nat k2)))"
          "mem_ok mem2" "perms_grow mem1 mem2" "heap_break mem2 = heap_break mem1" "last_address mem2 = last_address mem1"
          "\<forall>b. byte_at mem2 b = (if unat (b - (a + of_nat c)) < k2 then drop c buf ! unat (b - (a + of_nat c)) else byte_at mem1 b)"
        using less.hyps [OF _ m1(2), of "drop c buf" k2 "a + of_nat c"] reach_cong [OF acc] unfolding k2_def by metis
      have fault: "fault mem1 b = fault mem b" if "k2 \<noteq> length (drop c buf)" for b
      proof -
        have "\<not> accessible mem access (a + of_nat c + of_nat k2)"
          using reach_stop [of mem access "a + of_nat c" "length (drop c buf)"] that k2l unfolding k2_def by linarith
        then show ?thesis using fault_same [OF grow] by (simp add: accessible_def)
      qed
      have len: "length buf = c + length (drop c buf)" using c(2) by simp
      have res: "access_loop mem a buf access =
          (mem2, if k = length buf then Inr buf else Inl (fault mem (a + of_nat k)))"
        unfolding step m1(1) then_mem_simps m2(1)
      proof (cases "k2 = length (drop c buf)")
        case True
        then have "k = length buf" using k2 len by linarith
        then show "then_mem (mem2, if k2 = length (drop c buf) then Inr (drop c buf) else Inl (fault mem1 (a + of_nat c + of_nat k2)))
           (\<lambda>mem rest. (mem, Inr (take c buf @ rest))) = (mem2, if k = length buf then Inr buf else Inl (fault mem (a + of_nat k)))"
          unfolding if_P [OF True] by simp
      next
        case False
        then have "k \<noteq> length buf" using k2 len by linarith
        then show "then_mem (mem2, if k2 = length (drop c buf) then Inr (drop c buf) else Inl (fault mem1 (a + of_nat c + of_nat k2)))
           (\<lambda>mem rest. (mem, Inr (take c buf @ rest))) = (mem2, if k = length buf then Inr buf else Inl (fault mem (a + of_nat k)))"
          unfolding if_not_P [OF False] by (simp add: fault [OF False] k2 add.assoc)
      qed
      have "c + k2 \<le> 2 ^ 32" using k2l len less.prems(2) by linarith
      note rs = guest_range_split [OF this c(4), where cs = "drop c buf"]
      have "byte_at mem2 b = (if unat (b - a) < k then buf ! unat (b - a) else byte_at mem b)" for b
        unfolding m2(6) [rule_format] m1(7) [rule_format] rs k2 by simp
      then show ?thesis
        using res m2 m1(4,5) perms_grow_trans [OF grow m2(3)] by (intro exI [of _ mem2]) simp
    qed
  qed
qed

section \<open>The loops over pages\<close>

abbreviation last_page :: guest_addr where
  "last_page \<equiv> 0xfffff000"

abbreviation aligned :: "guest_addr \<Rightarrow> bool" where
  "aligned a \<equiv> page_base a = a"

lemma aligned_nat: "aligned a \<longleftrightarrow> 4096 dvd unat a"
  unfolding word_unat_eq_iff unat_base by (simp add: dvd_eq_mod_eq_0) (metis add_cancel_left_right div_mult_mod_eq)

lemma aligned_offset: "aligned a \<Longrightarrow> a AND mask 12 = 0"
  unfolding aligned_nat by (simp add: word_unat_eq_iff unat_offset dvd_eq_mod_eq_0)

lemma aligned_le_last:
  assumes "aligned a"
  shows "a \<le> last_page"
proof -
  obtain k where k: "unat a = 4096 * k" using assms unfolding aligned_nat by (auto elim: dvdE)
  have "unat a < 4294967296" using unsigned_less [of a, where 'a = nat] by simp
  then have "k \<le> 1048575" using k by simp
  then have "unat a \<le> 4294963200" using k by simp
  moreover have "unat last_page = 4294963200" by simp
  ultimately show ?thesis unfolding word_le_nat_alt by (simp only:)
qed

text \<open>From an aligned address to the next one, unless it is the last.\<close>

lemma next_page:
  assumes "aligned a"
  shows "aligned (a + PageSize)" "a \<noteq> last_page \<Longrightarrow> unat (a + PageSize) = unat a + 4096"
    "a = last_page \<Longrightarrow> a + PageSize = 0"
proof -
  have ps: "PageSize = 4096" by (simp add: word_unat_eq_iff)
  show last: "a = last_page \<Longrightarrow> a + PageSize = 0" by (simp add: ps)
  show nx: "unat (a + PageSize) = unat a + 4096" if "a \<noteq> last_page"
  proof -
    have "unat a < unat last_page" using aligned_le_last [OF assms] that by (simp add: word_le_nat_alt word_unat_eq_iff)
    then have "unat a + 4096 < 2 ^ 32" using assms [unfolded aligned_nat] by (auto elim!: dvdE)
    then show ?thesis by (simp add: ps unat_word_ariths)
  qed
  show "aligned (a + PageSize)"
  proof (cases "a = last_page")
    case True
    then show ?thesis using last by simp
  next
    case False
    then show ?thesis using assms nx unfolding aligned_nat by simp
  qed
qed

text \<open>A loop up to the last page never ends; the tag wraps around.\<close>

lemma for_pages_diverges: "aligned tag \<Longrightarrow> for_pages f tag last_page mem = None"
proof (rule ccontr)
  assume "aligned tag" "for_pages f tag last_page mem \<noteq> None"
  then obtain y where "for_pages f tag last_page mem = Some y" by blast
  then have "\<not> (aligned tag \<and> last_page = (last_page :: guest_addr))"
  proof (rule for_pages.raw_induct [where P = "\<lambda>f tag tag2 mem y. \<not> (aligned tag \<and> tag2 = last_page)", rotated])
    fix go f tag tag2 mem y
    assume "\<And>f tag tag2 mem y. go f tag tag2 mem = Some y \<Longrightarrow> \<not> (aligned tag \<and> tag2 = last_page)"
      and "(if tag \<le> tag2 then go f (tag + PageSize) tag2 (f mem tag) else ret mem) = Some y"
    then show "\<not> (aligned tag \<and> tag2 = last_page)"
      using aligned_le_last [of tag] next_page(1) [of tag] by (auto split: if_splits)
  qed
  then show False using \<open>aligned tag\<close> by simp
qed

text \<open>Otherwise the loop returns. What it does follows from what its body does to a view of the memory
  at the addresses of its page.\<close>

lemma for_pages_effect:
  assumes body: "\<And>mem tag. ok mem \<Longrightarrow> aligned tag \<Longrightarrow>
      ok (f mem tag) \<and> (\<forall>b. view (f mem tag) b = (if page_base b = tag then h (view mem b) else view mem b))"
    and "ok mem" "aligned tag" "aligned tag2" "tag2 \<noteq> last_page"
  shows "\<exists>mem'. for_pages f tag tag2 mem = ret mem' \<and> ok mem' \<and>
    (\<forall>b. view mem' b = (if tag \<le> page_base b \<and> page_base b \<le> tag2 then h (view mem b) else view mem b))"
  using assms(2,3)
proof (induction "2 ^ 32 - unat tag" arbitrary: tag mem rule: less_induct)
  case less
  show ?case
  proof (cases "tag \<le> tag2")
    case False
    then show ?thesis using less.prems by (subst for_pages.simps) auto
  next
    case True
    then have nl: "tag \<noteq> last_page" using assms(4,5) aligned_le_last [of tag2] by auto
    note nx = next_page(1) [OF less.prems(2)] next_page(2) [OF less.prems(2) nl]
    have "unat (tag + PageSize) < 2 ^ 32" using unsigned_less [of "tag + PageSize", where 'a = nat] by simp
    then have "2 ^ 32 - unat (tag + PageSize) < 2 ^ 32 - unat tag" using nx(2) by linarith
    then obtain mem' where m: "for_pages f (tag + PageSize) tag2 (f mem tag) = ret mem'" "ok mem'"
        "\<forall>b. view mem' b = (if tag + PageSize \<le> page_base b \<and> page_base b \<le> tag2
            then h (view (f mem tag) b) else view (f mem tag) b)"
      using less.hyps [of "tag + PageSize" "f mem tag"] nx(1) body [OF less.prems] by blast
    have step: "tag + PageSize \<le> page_base b \<longleftrightarrow> tag \<le> page_base b \<and> page_base b \<noteq> tag" for b
    proof -
      obtain k where "unat tag = 4096 * k" using less.prems(2) unfolding aligned_nat by (elim dvdE)
      moreover have "unat (page_base b) = 4096 * (unat b div 4096)" by (simp add: unat_base)
      ultimately show ?thesis unfolding word_le_nat_alt word_unat_eq_iff nx(2) by auto
    qed
    have "view mem' b = (if tag \<le> page_base b \<and> page_base b \<le> tag2 then h (view mem b) else view mem b)" for b
      using m(3) [rule_format, of b] body [OF less.prems, THEN conjunct2, rule_format, of b] step [of b] True by auto
    then show ?thesis using m(1,2) True by (subst for_pages.simps) simp
  qed
qed

text \<open>The page loops of \<open>Map\<close>, \<open>Unmap\<close> and \<open>Protect\<close>.\<close>

definition same_fields :: "memory \<Rightarrow> memory \<Rightarrow> bool" where
  "same_fields mem mem' \<longleftrightarrow> safe mem' = safe mem \<and> heap_break mem' = heap_break mem \<and> last_address mem' = last_address mem"

abbreviation contents :: "memory \<Rightarrow> guest_addr \<Rightarrow> 32 word option \<times> byte" where
  "contents mem b \<equiv> (perm_at mem b, byte_at mem b)"

lemma map_page_body:
  assumes "mem_ok mem \<and> same_fields mem0 mem" "aligned tag"
  shows "(mem_ok (map_page perm mem tag) \<and> same_fields mem0 (map_page perm mem tag)) \<and>
    (\<forall>b. contents (map_page perm mem tag) b =
       (if page_base b = tag then case contents mem b of (p, x) \<Rightarrow> (Some ((case p of None \<Rightarrow> 0 | Some q \<Rightarrow> q) OR perm), x)
        else contents mem b))"
proof (cases "getPage mem tag")
  case None
  obtain mem1 where m: "newPage mem tag perm = (mem1, Inr ())" "safe mem1 = safe mem" "heap_break mem1 = heap_break mem"
      "last_address mem1 = last_address mem"
      "\<forall>b. getPage mem1 b = (if page_base b = page_base tag
          then Some \<lparr>pg_tag = page_base tag, pg_perm = perm, pg_data = None\<rparr> else getPage mem b)" "mem_ok mem1"
    using newPage_new [OF None, of perm] assms(1) by blast
  have e: "map_page perm mem tag = at_page mem1 tag (addPerm perm)" using None m(1) by (simp add: map_page_def)
  have tag: "page_base tag = tag" by (rule assms(2))
  have v: "contents (at_page mem1 tag (addPerm perm)) b =
       (if page_base b = tag then case contents mem b of (p, x) \<Rightarrow> (Some ((case p of None \<Rightarrow> 0 | Some q \<Rightarrow> q) OR perm), x)
        else contents mem b)" for b
  proof (cases "page_base b = tag")
    case True
    then have n: "getPage mem b = None" using None same_page(1) [of b tag mem] tag by simp
    then have "perm_at mem1 b = Some perm" "byte_at mem1 b = 0" "perm_at mem b = None" "byte_at mem b = 0"
      using True m(5) [rule_format, of b] tag by (simp_all add: byte_at_def data_at_def perm_at_def)
    then show ?thesis using True tag by (simp add: mark_page(2,3))
  next
    case False
    then have "contents mem1 b = contents mem b"
      using m(5) [rule_format, of b] tag by (simp add: byte_at_def perm_at_def)
    then show ?thesis using False tag by (simp add: mark_page(2,3))
  qed
  show ?thesis
    unfolding e using v mark_page(1) [OF m(6) [rule_format]] m(2-4,6) assms(1) by (simp add: same_fields_def)
next
  case (Some p)
  then have e: "map_page perm mem tag = at_page mem tag (addPerm perm)" by (simp add: map_page_def)
  have v: "contents (at_page mem tag (addPerm perm)) b =
       (if page_base b = tag then case contents mem b of (p, x) \<Rightarrow> (Some ((case p of None \<Rightarrow> 0 | Some q \<Rightarrow> q) OR perm), x)
        else contents mem b)" for b
  proof (cases "page_base b = tag")
    case True
    then have "perm_at mem b = Some (pg_perm p)" using Some same_page(1) [of b tag mem] assms(2) by (simp add: perm_at_def)
    then show ?thesis using True assms(2) by (simp add: mark_page(2,3))
  next
    case False
    then show ?thesis using assms(2) by (simp add: mark_page(2,3))
  qed
  show ?thesis unfolding e using v mark_page(1) [of mem tag perm] assms(1) by (simp add: same_fields_def)
qed

lemma unmap_page_body:
  assumes "mem_ok mem \<and> same_fields mem0 mem" "aligned tag"
  shows "(mem_ok (unmap_page mem tag) \<and> same_fields mem0 (unmap_page mem tag)) \<and>
    (\<forall>b. contents (unmap_page mem tag) b = (if page_base b = tag then (\<lambda>_. (None, 0)) (contents mem b) else contents mem b))"
proof -
  have "getPage (unmap_page mem tag) b = (if page_base b = tag then None else getPage mem b)" for b
    by (simp add: getPage_base unmap_page_def AList.delete_conv')
  moreover have "mem_ok (unmap_page mem tag)"
    using assms(1) AList.distinct_delete [of "pages mem" tag]
    by (auto simp: mem_ok_def unmap_page_def AList.delete_eq)
  ultimately show ?thesis using assms(1) by (simp add: same_fields_def unmap_page_def perm_at_def byte_at_def)
qed

lemma protect_page_body:
  assumes "mem_ok mem \<and> same_fields mem0 mem" "aligned tag"
  shows "(mem_ok (protect_page perm mem tag) \<and> same_fields mem0 (protect_page perm mem tag)) \<and>
    (\<forall>b. contents (protect_page perm mem tag) b =
       (if page_base b = tag then case contents mem b of (p, x) \<Rightarrow> (map_option (\<lambda>_. perm) p, x) else contents mem b))"
proof (cases "getPage mem tag")
  case None
  have "contents mem b = (map_option (\<lambda>_. perm) (perm_at mem b), byte_at mem b)" if "page_base b = tag" for b
    using None same_page(1) [of b tag mem] that assms(2) by (simp add: perm_at_def)
  then show ?thesis using None assms(1) by (simp add: protect_page_def)
next
  case (Some p)
  have "contents (at_page mem tag (setPerm perm)) b =
       (if page_base b = tag then (map_option (\<lambda>_. perm) (perm_at mem b), byte_at mem b) else contents mem b)" for b
    using assms(2) by (cases "getPage mem b") (simp_all add: getPage_at_page perm_at_def byte_at_def data_at_def setPerm_def)
  moreover have "mem_ok (at_page mem tag (setPerm perm))"
    using assms(1) by (auto intro!: at_page_ok simp: setPerm_def page_ok_def)
  moreover have "protect_page perm mem tag = at_page mem tag (setPerm perm)" by (simp add: protect_page_def Some)
  ultimately show ?thesis using assms(1) by (simp only: same_fields_def at_page_fields prod.case simp_thms)
qed

text \<open>The first and the last page of a range, as the code computes them.\<close>

abbreviation first_tag :: "guest_addr \<Rightarrow> guest_addr" where
  "first_tag a \<equiv> page_base a"

abbreviation last_tag :: "guest_addr \<Rightarrow> 32 word \<Rightarrow> guest_addr" where
  "last_tag a n \<equiv> page_base (a + n - 1)"

abbreviation in_pages :: "guest_addr \<Rightarrow> 32 word \<Rightarrow> guest_addr \<Rightarrow> bool" where
  "in_pages a n b \<equiv> first_tag a \<le> page_base b \<and> page_base b \<le> last_tag a n"

lemma page_loop_spec:
  assumes ok: "mem_ok mem"
    and body: "\<And>m tag. mem_ok m \<and> same_fields mem m \<Longrightarrow> aligned tag \<Longrightarrow>
      (mem_ok (f m tag) \<and> same_fields mem (f m tag)) \<and>
      (\<forall>b. contents (f m tag) b = (if page_base b = tag then h (contents m b) else contents m b))"
  shows "if last_tag a n = last_page then for_pages f (first_tag a) (last_tag a n) mem = None
    else \<exists>mem'. for_pages f (first_tag a) (last_tag a n) mem = ret mem' \<and> mem_ok mem' \<and> same_fields mem mem' \<and>
      (\<forall>b. contents mem' b = (if in_pages a n b then h (contents mem b) else contents mem b))"
proof (cases "last_tag a n = last_page")
  case True
  then show ?thesis using for_pages_diverges [of "first_tag a" f mem] by simp
next
  case False
  have s: "mem_ok mem \<and> same_fields mem mem" using ok by (simp add: same_fields_def)
  show ?thesis
    using for_pages_effect [where ok = "\<lambda>m. mem_ok m \<and> same_fields mem m" and view = contents and h = h, OF body s _ _ False]
      False by simp
qed

text \<open>The pages of a range, stated without the tags of the code: those that hold one of its bytes. The
  addresses wrap around.\<close>

definition touches :: "guest_addr \<Rightarrow> 32 word \<Rightarrow> guest_addr \<Rightarrow> bool" where
  "touches a n b \<longleftrightarrow> (\<exists>i < unat n. unat (a + of_nat i) div 4096 = unat b div 4096)"

lemma touchesI: "i < unat n \<Longrightarrow> unat (a + of_nat i) div 4096 = unat b div 4096 \<Longrightarrow> touches a n b"
  by (auto simp: touches_def)

lemma touches_range:
  assumes "0 < unat n" "unat a + unat n \<le> 2 ^ 32"
  shows "touches a n b \<longleftrightarrow> unat a div 4096 \<le> unat b div 4096 \<and> unat b div 4096 \<le> (unat a + unat n - 1) div 4096"
proof -
  have s: "unat (a + of_nat i) = unat a + i" if "i < unat n" for i
    using that assms(2) by (simp add: unat_word_ariths unat_of_nat)
  show ?thesis
  proof
    assume "touches a n b"
    then obtain i where i: "i < unat n" "(unat a + i) div 4096 = unat b div 4096" using s by (auto simp: touches_def)
    have "unat a div 4096 \<le> (unat a + i) div 4096" "(unat a + i) div 4096 \<le> (unat a + unat n - 1) div 4096"
      using i(1) by (auto intro!: div_le_mono)
    then show "unat a div 4096 \<le> unat b div 4096 \<and> unat b div 4096 \<le> (unat a + unat n - 1) div 4096" using i(2) by simp
  next
    assume b: "unat a div 4096 \<le> unat b div 4096 \<and> unat b div 4096 \<le> (unat a + unat n - 1) div 4096"
    define x where "x = max (unat a) (unat b div 4096 * 4096)"
    have "unat b div 4096 * 4096 \<le> unat a + unat n - 1"
      using b div_times_less_eq_dividend [of "unat a + unat n - 1" 4096] by (meson le_trans mult_le_mono1)
    then have x: "unat a \<le> x" "x < unat a + unat n" using assms(1) by (auto simp: x_def)
    have "x div 4096 = unat b div 4096"
    proof (cases "unat b div 4096 * 4096 \<le> unat a")
      case True
      then have "unat b div 4096 \<le> unat a div 4096" using div_le_mono [OF True, of 4096] by simp
      then show ?thesis using True b by (simp add: x_def max_def)
    qed (simp add: x_def)
    then show "touches a n b" using x s [of "x - unat a"] by (intro touchesI [of "x - unat a"]) auto
  qed
qed

lemma unat_last: "0 < unat n \<Longrightarrow> unat (a + n - 1 :: 32 word) = (unat a + unat n - 1) mod 2 ^ 32"
proof -
  assume "0 < unat n"
  then have "a + n - 1 = of_nat (unat a + unat n - 1)" by (simp add: of_nat_diff)
  then show ?thesis by (simp only: unat_of_nat) simp
qed

lemma in_pages_range:
  assumes "0 < unat n" "unat a + unat n \<le> 2 ^ 32"
  shows "in_pages a n b \<longleftrightarrow> touches a n b"
proof -
  have "unat (a + n - 1) = unat a + unat n - 1" using assms by (simp add: unat_last)
  then show ?thesis using assms by (simp add: touches_range word_le_nat_alt unat_base)
qed

lemma div_eq_last_page: "x < 2 ^ 32 \<Longrightarrow> x div 2 ^ 12 * 2 ^ 12 = 4294963200 \<longleftrightarrow> 2 ^ 32 - 4096 \<le> (x :: nat)"
proof -
  assume "x < 2 ^ 32"
  moreover have "x = 4096 * (x div 4096) + x mod 4096" "x mod 4096 < 4096" by simp_all
  ultimately have "x div 4096 = 1048575 \<longleftrightarrow> 4294963200 \<le> x" by simp linarith
  then show ?thesis by auto
qed

lemma last_tag_last:
  assumes "0 < unat n"
  shows "last_tag a n = last_page \<longleftrightarrow> 2 ^ 32 - 4096 \<le> (unat a + unat n - 1) mod 2 ^ 32"
proof -
  have lt: "(unat a + unat n - 1) mod 2 ^ 32 < 2 ^ 32" by (rule mod_less_divisor) simp
  have "last_tag a n = last_page \<longleftrightarrow> (unat a + unat n - 1) mod 2 ^ 32 div 2 ^ 12 * 2 ^ 12 = 4294963200"
    unfolding word_unat_eq_iff unat_base unat_last [OF assms] by simp
  also have "\<dots> \<longleftrightarrow> 2 ^ 32 - 4096 \<le> (unat a + unat n - 1) mod 2 ^ 32"
    using lt by (simp only: div_eq_last_page)
  finally show ?thesis .
qed

section \<open>Finding free space\<close>

text \<open>A range of free pages: \<open>n\<close> pages from \<open>tag\<close>, as addresses that do not wrap around.\<close>

definition free_pages :: "memory \<Rightarrow> nat \<Rightarrow> nat \<Rightarrow> bool" where
  "free_pages mem tag n \<longleftrightarrow> tag + n \<le> 2 ^ 32 \<and> (\<forall>x. tag \<le> x \<and> x < tag + n \<longrightarrow> getPage mem (of_nat x) = None)"

text \<open>Positions in the address space as natural numbers up to \<open>2 ^ 32\<close>.\<close>

lemma pos_nat:
  assumes "x < 2 ^ 32"
  shows "unat (of_nat x :: guest_addr) = x"
  using assms by (simp add: unat_of_nat)

lemma pos_zero: "0 < e \<Longrightarrow> e \<le> 2 ^ 32 \<Longrightarrow> (of_nat e :: guest_addr) = 0 \<longleftrightarrow> e = 2 ^ 32"
  using pos_nat [of e] by (cases "e = 2 ^ 32") (auto simp: word_unat_eq_iff simp del: of_nat_eq_0_iff)

lemma aligned_pos: "4096 dvd e \<Longrightarrow> e < 2 ^ 32 \<Longrightarrow> aligned (of_nat e)"
  by (simp add: aligned_nat pos_nat)

lemma page_of_pos:
  assumes "4096 dvd e" "e \<le> x" "x < e + 4096" "e < 2 ^ 32"
  shows "getPage mem (of_nat x) = getPage mem (of_nat e)"
proof -
  obtain k where k: "e = 4096 * k" using assms(1) by (elim dvdE)
  have "k < 1048576" using assms(4) k by simp
  then have "x < 4294967296" using assms(3) k by linarith
  then have x: "x < 2 ^ 32" by simp
  have "x div 2 ^ 12 = e div 2 ^ 12" using assms(2,3) k by auto
  then have "page_base (of_nat x :: guest_addr) = page_base (of_nat e)"
    unfolding word_unat_eq_iff unat_base pos_nat [OF x] pos_nat [OF assms(4)] by (simp only:)
  then show ?thesis by (rule same_page(1))
qed

lemma blocked:
  assumes "4096 dvd e" "e < 2 ^ 32" "getPage mem (of_nat e) \<noteq> None" "x < e + 4096" "e < x + n" "0 < n"
  shows "\<not> free_pages mem x n"
proof
  assume f: "free_pages mem x n"
  let ?y = "max x e"
  have "getPage mem (of_nat ?y) = getPage mem (of_nat e)" using assms by (intro page_of_pos) auto
  moreover have "getPage mem (of_nat ?y) = None" using f assms(4-6) unfolding free_pages_def by (auto simp: max_def)
  ultimately show False using assms(3) by simp
qed

lemma free_pages_step:
  assumes "4096 dvd e" "e < 2 ^ 32" "getPage mem (of_nat e) = None" "\<forall>x. s \<le> x \<and> x < e \<longrightarrow> getPage mem (of_nat x) = None"
  shows "\<forall>x. s \<le> x \<and> x < e + 4096 \<longrightarrow> getPage mem (of_nat x) = None"
  using assms(3,4) page_of_pos [OF assms(1) _ _ assms(2), of _ mem] by (metis not_le)

text \<open>The distances that the loop compares.\<close>

lemma pos_distance:
  assumes "s \<le> e" "e < 2 ^ 32" "e - s + 4096 \<le> unat (sz :: 32 word)"
  shows "of_nat e - of_nat s + PageSize = sz \<longleftrightarrow> e - s + 4096 = unat sz"
    "of_nat e - of_nat s + PageSize < sz \<longleftrightarrow> e - s + 4096 < unat sz"
proof -
  have b: "unat sz < 2 ^ 32" using unsigned_less [of sz, where 'a = nat] by simp
  have "of_nat e - of_nat s + PageSize = (of_nat (e - s + 4096) :: guest_addr)"
    using assms(1) by (simp add: PageSize_def LogPageSize_def push_bit_eq_mult of_nat_diff)
  then have "unat (of_nat e - of_nat s + PageSize :: guest_addr) = e - s + 4096"
    using b assms(3) by (simp only: pos_nat [OF order.strict_trans1])
  then show "of_nat e - of_nat s + PageSize = sz \<longleftrightarrow> e - s + 4096 = unat sz"
    "of_nat e - of_nat s + PageSize < sz \<longleftrightarrow> e - s + 4096 < unat sz"
    by (simp_all add: word_unat_eq_iff word_less_nat_alt)
qed

lemma pos_step: "of_nat e + PageSize = (of_nat (e + 4096) :: guest_addr)"
  by (simp add: PageSize_def LogPageSize_def push_bit_eq_mult)

text \<open>The first range from \<open>lo\<close> on, or no such range.\<close>

definition first_fit :: "memory \<Rightarrow> nat \<Rightarrow> nat \<Rightarrow> guest_addr \<Rightarrow> bool" where
  "first_fit mem lo n r \<longleftrightarrow>
     (if r = - 1 then \<forall>x \<ge> lo. \<not> free_pages mem x n
      else aligned r \<and> lo \<le> unat r \<and> free_pages mem (unat r) n \<and> (\<forall>x. lo \<le> x \<and> x < unat r \<longrightarrow> \<not> free_pages mem x n))"

lemma aligned_not_last: "aligned r \<Longrightarrow> r \<noteq> - 1"
  unfolding aligned_nat by (auto simp: unsigned_minus_1_eq_mask mask_eq_exp_minus_1)

lemma map_space_loop_spec:
  assumes "0 < unat sz" "4096 dvd unat sz" "4096 dvd s" "4096 dvd e" "s \<le> e" "0 < e" "e \<le> 2 ^ 32" "e - s < unat sz"
    and "\<forall>x. s \<le> x \<and> x < e \<longrightarrow> getPage mem (of_nat x) = None"
    and "\<forall>x. lo \<le> x \<and> x < s \<longrightarrow> \<not> free_pages mem x (unat sz)" "lo \<le> s"
  shows "\<exists>r. map_space_loop mem (of_nat s) (of_nat e) sz = ret r \<and> first_fit mem lo (unat sz) r"
  using assms(3-)
proof (induction "2 ^ 32 - e" arbitrary: s e rule: less_induct)
  case less
  note P = less.prems
  have unf: "map_space_loop mem (of_nat s) (of_nat e) sz =
     (if (of_nat e :: guest_addr) = 0 then ret (- 1)
      else if getPage mem (of_nat e) \<noteq> None then map_space_loop mem (of_nat (e + 4096)) (of_nat (e + 4096)) sz
      else if of_nat e - of_nat s + PageSize = sz then ret (of_nat s)
      else if \<not> of_nat e - of_nat s + PageSize < sz then stops Assert
      else map_space_loop mem (of_nat s) (of_nat (e + 4096)) sz)"
    by (subst map_space_loop.simps) (simp only: pos_step)
  show ?case
  proof (cases "e = 2 ^ 32")
    case True
    have "\<not> free_pages mem x (unat sz)" if "lo \<le> x" for x
    proof (cases "x < s")
      case False
      then show ?thesis using P(6) True unfolding free_pages_def by linarith
    qed (use that P(8) in blast)
    then show ?thesis unfolding unf using True by (simp add: first_fit_def)
  next
    case False
    then have e: "e < 2 ^ 32" using P(5) by simp
    then have nz: "(of_nat e :: guest_addr) \<noteq> 0" using pos_zero [OF P(4,5)] by simp
    obtain k where k: "e = 4096 * k" using P(2) by (elim dvdE)
    have "k < 1048576" using e k by simp
    then have e2: "e + 4096 \<le> 2 ^ 32" using k by simp
    have dv: "4096 dvd e + 4096" using P(2) by simp
    have dec: "2 ^ 32 - (e + 4096) < 2 ^ 32 - e" using e by linarith
    show ?thesis
    proof (cases "getPage mem (of_nat e) = None")
      case False
      have blk: "\<forall>x. lo \<le> x \<and> x < e + 4096 \<longrightarrow> \<not> free_pages mem x (unat sz)"
      proof (intro allI impI)
        fix x
        assume x: "lo \<le> x \<and> x < e + 4096"
        show "\<not> free_pages mem x (unat sz)"
        proof (cases "x < s")
          case True
          then show ?thesis using x P(8) by blast
        next
          case gt: False
          show ?thesis
          proof (rule blocked [OF P(2) e False])
            show "x < e + 4096" using x by blast
            show "e < x + unat sz" using gt P(6) by linarith
            show "0 < unat sz" by (rule assms(1))
          qed
        qed
      qed
      have "map_space_loop mem (of_nat s) (of_nat e) sz = map_space_loop mem (of_nat (e + 4096)) (of_nat (e + 4096)) sz"
        unfolding unf if_not_P [OF nz] using False by (simp only: if_True simp_thms)
      moreover have "lo \<le> e + 4096" "0 < e + 4096" "e + 4096 - (e + 4096) < unat sz" using P(3,9) assms(1) by linarith+
      moreover have "\<forall>x. e + 4096 \<le> x \<and> x < e + 4096 \<longrightarrow> getPage mem (of_nat x) = None" by linarith
      ultimately show ?thesis using less.hyps [OF dec dv dv order_refl _ e2 _ _ blk] by metis
    next
      case True
      obtain m where m: "unat sz = 4096 * m" using assms(2) by (elim dvdE)
      obtain l where l: "s = 4096 * l" using P(1) by (elim dvdE)
      have "k - l < m" using P(6) unfolding k l m diff_mult_distrib2 [symmetric] by simp
      then have le: "e - s + 4096 \<le> unat sz" unfolding k l m diff_mult_distrib2 [symmetric] by simp
      note d = pos_distance [OF P(3) e le]
      note fs = free_pages_step [OF P(2) e True P(7)]
      show ?thesis
      proof (cases "e - s + 4096 = unat sz")
        case eq: True
        have "s < 2 ^ 32" using P(3) e by linarith
        note us = pos_nat [OF this]
        have "free_pages mem s (unat sz)" unfolding free_pages_def eq [symmetric] using fs P(3) e2 by auto
        then have "first_fit mem lo (unat sz) (of_nat s)"
          using aligned_not_last [OF aligned_pos [OF P(1) \<open>s < 2 ^ 32\<close>]] aligned_pos [OF P(1) \<open>s < 2 ^ 32\<close>] us P(8,9)
          by (simp add: first_fit_def)
        then show ?thesis unfolding unf using nz True d(1) eq by simp
      next
        case ne: False
        then have lt: "e - s + 4096 < unat sz" using le by linarith
        have "map_space_loop mem (of_nat s) (of_nat e) sz = map_space_loop mem (of_nat s) (of_nat (e + 4096)) sz"
          unfolding unf using nz True d ne lt by simp
        moreover have "s \<le> e + 4096" "e + 4096 - s < unat sz" using P(3) lt by linarith+
        ultimately show ?thesis using less.hyps [OF dec P(1) dv _ _ e2 _ fs P(8,9)] by simp
      qed
    qed
  qed
qed

lemma MapSpace_spec:
  assumes "aligned a" "0 < unat sz" "4096 dvd unat (sz :: 32 word)"
  shows "\<exists>r. MapSpace mem a sz = ret r \<and> (if a = 0 then r = - 1 else first_fit mem (unat a) (unat sz) r)"
proof -
  have off: "x AND mask 12 = 0" if "4096 dvd unat x" for x :: guest_addr
    using that by (simp add: word_unat_eq_iff unat_offset dvd_eq_mod_eq_0)
  have eq: "MapSpace mem a sz = map_space_loop mem a a sz"
    using off [of a] off [OF assms(3)] assms(1) by (simp add: MapSpace_def aligned_nat)
  show ?thesis
  proof (cases "a = 0")
    case True
    then show ?thesis unfolding eq by (subst map_space_loop.simps) simp
  next
    case False
    then have "0 < unat a" by (simp add: unat_gt_0)
    moreover have "unat a \<le> 2 ^ 32" using unsigned_less [of a, where 'a = nat] by simp
    ultimately have "\<exists>r. map_space_loop mem (of_nat (unat a)) (of_nat (unat a)) sz = ret r \<and> first_fit mem (unat a) (unat sz) r"
      using assms by (intro map_space_loop_spec) (auto simp: aligned_nat)
    then show ?thesis unfolding eq using False by simp
  qed
qed

section \<open>Reads and writes\<close>

lemma field_simps_mem [simp]:
  "getPage (mem\<lparr>last_address := x\<rparr>) = getPage mem" "getPage (mem\<lparr>safe := y\<rparr>) = getPage mem"
  "getPage (mem\<lparr>heap_break := z\<rparr>) = getPage mem"
  "byte_at (mem\<lparr>last_address := x\<rparr>) = byte_at mem" "byte_at (mem\<lparr>safe := y\<rparr>) = byte_at mem"
  "byte_at (mem\<lparr>heap_break := z\<rparr>) = byte_at mem"
  "perm_at (mem\<lparr>last_address := x\<rparr>) = perm_at mem" "perm_at (mem\<lparr>safe := y\<rparr>) = perm_at mem"
  "perm_at (mem\<lparr>heap_break := z\<rparr>) = perm_at mem"
  "mem_ok (mem\<lparr>last_address := x\<rparr>) = mem_ok mem" "mem_ok (mem\<lparr>safe := y\<rparr>) = mem_ok mem"
  "mem_ok (mem\<lparr>heap_break := z\<rparr>) = mem_ok mem"
  by (auto simp: fun_eq_iff getPage_base byte_at_def perm_at_def mem_ok_def)

lemma field_simps_access [simp]:
  "accessible (mem\<lparr>last_address := x\<rparr>) = accessible mem" "fault (mem\<lparr>last_address := x\<rparr>) = fault mem"
  by (simp_all add: fun_eq_iff accessible_def fault_def)

abbreviation bytes_from :: "memory \<Rightarrow> guest_addr \<Rightarrow> nat \<Rightarrow> byte list" where
  "bytes_from mem a n \<equiv> map (\<lambda>i. byte_at mem (a + of_nat i)) [0..<n]"

lemma Read_spec:
  assumes "mem_ok mem"
  shows "Read mem a n = (mem\<lparr>last_address := a\<rparr>,
    if reach mem AccessRead a n = n then Inr (bytes_from mem a n) else Inl (fault mem (a + of_nat (reach mem AccessRead a n))))"
proof -
  have "reach (mem\<lparr>last_address := a\<rparr>) AccessRead a n = reach mem AccessRead a n" by (rule reach_cong) simp
  then show ?thesis
    using access_loop_read [of "mem\<lparr>last_address := a\<rparr>" AccessRead a "replicate n 0"] assms
    by (simp add: Read_def Access_def)
qed

lemma Write_spec:
  assumes "mem_ok mem" "length buf \<le> 2 ^ 32" "k = reach mem AccessWrite a (length buf)"
  shows "\<exists>mem'. Write mem a buf = (mem', if k = length buf then Inr buf else Inl (fault mem (a + of_nat k))) \<and>
    mem_ok mem' \<and> perms_grow mem mem' \<and> heap_break mem' = heap_break mem \<and> last_address mem' = a \<and>
    (\<forall>b. byte_at mem' b = (if unat (b - a) < k then buf ! unat (b - a) else byte_at mem b))"
proof -
  have "reach (mem\<lparr>last_address := a\<rparr>) AccessWrite a (length buf) = reach mem AccessWrite a (length buf)"
    by (rule reach_cong) simp
  moreover have "perms_grow (mem\<lparr>last_address := a\<rparr>) = perms_grow mem" by (simp add: perms_grow_def fun_eq_iff)
  ultimately show ?thesis
    using access_loop_write [of "mem\<lparr>last_address := a\<rparr>" AccessWrite buf k a] assms
    unfolding Write_def Access_def field_simps_mem field_simps_access by simp
qed

lemma reach_unsafe: "\<not> safe mem \<Longrightarrow> reach mem access a n = n"
  by (induction n arbitrary: a) (simp_all add: accessible_def)

lemma Write_unsafe:
  assumes "mem_ok mem" "length buf \<le> 2 ^ 32" "\<not> safe mem"
  shows "\<exists>mem'. Write mem a buf = (mem', Inr buf) \<and> mem_ok mem' \<and> \<not> safe mem' \<and> heap_break mem' = heap_break mem \<and>
    (\<forall>b. byte_at mem' b = (if unat (b - a) < length buf then buf ! unat (b - a) else byte_at mem b))"
  using Write_spec [OF assms(1,2), of "length buf" a] reach_unsafe [OF assms(3)] assms(3)
  by (auto dest: perms_growD(1))

section \<open>Files\<close>

lemma bytes_from_split: "bytes_from mem a (m + n) = bytes_from mem a m @ bytes_from mem (a + of_nat m) n"
  by (simp only: map_upt_add of_nat_add add.assoc)

lemma save_loop_spec:
  assumes "mem_ok mem" "\<not> safe mem" "start \<le> end_addr"
  shows "\<exists>x. save_loop mem start end_addr f =
    (mem\<lparr>last_address := x\<rparr>, Inr (f @ bytes_from mem start (unat (end_addr - start))))"
  using assms
proof (induction "unat (end_addr - start)" arbitrary: mem start f rule: less_induct)
  case less
  show ?case
  proof (cases "start < end_addr")
    case False
    then have "end_addr = start" using less.prems(3) by simp
    then show ?thesis by (subst save_loop.simps) (auto intro: exI [of _ "last_address mem"])
  next
    case True
    define sz where "sz = min PageSize (end_addr - start)"
    have le: "sz \<le> end_addr - start" by (simp add: sz_def)
    have sub: "unat (end_addr - (start + sz)) = unat (end_addr - start) - unat sz"
      using unat_sub [OF le] by (simp add: diff_diff_eq)
    have le2: "start + sz \<le> end_addr"
    proof -
      have "unat sz \<le> unat (end_addr - start)" using le by (simp add: word_le_nat_alt)
      also have "\<dots> = unat end_addr - unat start" using less.prems(3) by (simp add: unat_sub)
      finally have u: "unat start + unat sz \<le> unat end_addr" using less.prems(3) by (simp add: word_le_nat_alt)
      then have "unat start + unat sz < 2 ^ 32" using unsigned_less [of end_addr, where 'a = nat] by simp
      then have "unat (start + sz) = unat start + unat sz" by (simp add: unat_word_ariths)
      then show ?thesis using u by (simp add: word_le_nat_alt)
    qed
    have len: "unat (end_addr - start) = unat sz + unat (end_addr - (start + sz))"
      using sub le by (simp add: word_le_nat_alt)
    have "Read mem start (unat sz) = (mem\<lparr>last_address := start\<rparr>, Inr (bytes_from mem start (unat sz)))"
      using Read_spec [OF less.prems(1)] reach_unsafe [OF less.prems(2)] by simp
    then have step: "save_loop mem start end_addr f =
        save_loop (mem\<lparr>last_address := start\<rparr>) (start + sz) end_addr (f @ bytes_from mem start (unat sz))"
      using True by (subst save_loop.simps) (simp add: sz_def Let_def)
    have "unat (end_addr - (start + sz)) < unat (end_addr - start)" using save_step [OF True] by (simp add: sz_def)
    then have "\<exists>x. save_loop (mem\<lparr>last_address := start\<rparr>) (start + sz) end_addr (f @ bytes_from mem start (unat sz)) =
        ((mem\<lparr>last_address := start\<rparr>)\<lparr>last_address := x\<rparr>, Inr ((f @ bytes_from mem start (unat sz)) @
           bytes_from (mem\<lparr>last_address := start\<rparr>) (start + sz) (unat (end_addr - (start + sz)))))"
      by (rule less.hyps) (simp_all add: less.prems(1,2) le2)
    then obtain x where "save_loop (mem\<lparr>last_address := start\<rparr>) (start + sz) end_addr (f @ bytes_from mem start (unat sz)) =
        (mem\<lparr>last_address := x\<rparr>,
         Inr ((f @ bytes_from mem start (unat sz)) @ bytes_from mem (start + sz) (unat (end_addr - (start + sz)))))"
      by auto
    then show ?thesis unfolding step len bytes_from_split by (intro exI [of _ x]) simp
  qed
qed

lemma Save_spec:
  assumes "mem_ok mem" "start \<le> end_addr"
  shows "\<exists>x. Save mem True start end_addr = (mem\<lparr>last_address := x\<rparr>, Inr (bytes_from mem start (unat (end_addr - start))))"
proof -
  obtain x where "save_loop (mem\<lparr>safe := False\<rparr>) start end_addr [] =
      (mem\<lparr>safe := False, last_address := x\<rparr>, Inr (bytes_from mem start (unat (end_addr - start))))"
    using save_loop_spec [of "mem\<lparr>safe := False\<rparr>" start end_addr "[]"] assms by auto
  then show ?thesis by (intro exI [of _ x]) (simp add: Save_def)
qed

lemma load_file_loop_spec:
  assumes "mem_ok mem" "\<not> safe mem" "length f \<le> 2 ^ 32"
  shows "\<exists>mem'. load_file_loop mem start f = (mem', Inr ()) \<and> mem_ok mem' \<and> \<not> safe mem' \<and> heap_break mem' = heap_break mem \<and>
    (\<forall>b. byte_at mem' b = (if unat (b - start) < length f then f ! unat (b - start) else byte_at mem b))"
  using assms
proof (induction "length f" arbitrary: mem start f rule: less_induct)
  case less
  define buf where "buf = take 4096 f"
  have "length buf \<le> 2 ^ 32" using less.prems(3) by (simp add: buf_def)
  then obtain mem1 where m1: "Write mem start buf = (mem1, Inr buf)" "mem_ok mem1" "\<not> safe mem1" "heap_break mem1 = heap_break mem"
      "\<forall>b. byte_at mem1 b = (if unat (b - start) < length buf then buf ! unat (b - start) else byte_at mem b)"
    using Write_unsafe [OF less.prems(1) _ less.prems(2)] by blast
  have unf: "load_file_loop mem start f =
      (if length buf < 4096 then (mem1, Inr ()) else load_file_loop mem1 (start + of_nat (length buf)) (drop 4096 f))"
    using m1(1) by (subst load_file_loop.simps) (simp add: buf_def)
  show ?case
  proof (cases "length buf < 4096")
    case True
    then have "buf = f" by (simp add: buf_def)
    then show ?thesis unfolding unf using True m1 by simp
  next
    case False
    then have l: "length buf = 4096" "length f = 4096 + length (drop 4096 f)" by (simp_all add: buf_def)
    then have "length (drop 4096 f) < length f" "length (drop 4096 f) \<le> 2 ^ 32" using less.prems(3) by simp_all
    then obtain mem2 where m2: "load_file_loop mem1 (start + of_nat 4096) (drop 4096 f) = (mem2, Inr ())" "mem_ok mem2"
        "\<not> safe mem2" "heap_break mem2 = heap_break mem1"
        "\<forall>b. byte_at mem2 b = (if unat (b - (start + of_nat 4096)) < length (drop 4096 f)
           then drop 4096 f ! unat (b - (start + of_nat 4096)) else byte_at mem1 b)"
      using less.hyps [OF _ m1(2,3)] by blast
    have "4096 + length (drop 4096 f) \<le> 2 ^ 32" using l(2) less.prems(3) by linarith
    note rs = guest_range_split [OF this l(1), where cs = "drop 4096 f"]
    have "byte_at mem2 b = (if unat (b - start) < length f then f ! unat (b - start) else byte_at mem b)" for b
      unfolding m2(5) [rule_format] m1(5) [rule_format] l(1) rs l(2) [symmetric] by (simp add: buf_def)
    then show ?thesis using m2 m1(4) False l(1) unf by (intro exI [of _ mem2]) simp
  qed
qed

lemma Load_spec:
  assumes "mem_ok mem" "length f \<le> 2 ^ 32"
  shows "\<exists>mem'. Load mem (Some f) start = (mem', Inr ()) \<and> mem_ok mem' \<and> safe mem' = safe mem \<and> heap_break mem' = heap_break mem \<and>
    (\<forall>b. byte_at mem' b = (if unat (b - start) < length f then f ! unat (b - start) else byte_at mem b))"
proof -
  obtain mem1 where "load_file_loop (mem\<lparr>safe := False\<rparr>) start f = (mem1, Inr ())" "mem_ok mem1" "heap_break mem1 = heap_break mem"
      "\<forall>b. byte_at mem1 b = (if unat (b - start) < length f then f ! unat (b - start) else byte_at mem b)"
    using load_file_loop_spec [of "mem\<lparr>safe := False\<rparr>" f start] assms by auto
  then show ?thesis by (intro exI [of _ "mem1\<lparr>safe := safe mem\<rparr>"]) (simp add: Load_def)
qed

section \<open>Copies of a memory\<close>

text \<open>Initialising a whole page.\<close>

lemma init_page:
  assumes "mem_ok mem" "\<not> safe mem" "aligned tag" "length d = 4096"
  shows "\<exists>mem'. Access mem tag d AccessInit = (mem', Inr d) \<and> mem_ok mem' \<and> \<not> safe mem' \<and>
    (\<forall>b. perm_at mem' b = (if page_base b = tag then Some (marked AccessInit (perm_at mem tag)) else perm_at mem b)) \<and>
    (\<forall>b. byte_at mem' b = (if page_base b = tag then d ! page_offset b else byte_at mem b))"
proof -
  let ?mem = "mem\<lparr>last_address := tag\<rparr>"
  have "4096 dvd unat tag" using assms(3) unfolding aligned_nat .
  then have off: "page_offset tag = 0" by (simp add: unat_offset dvd_eq_mod_eq_0)
  have c: "chunk_size tag (length d) = 4096" using off assms(4) by simp
  have "page_offset tag + length d \<le> 4096" "accessible ?mem AccessInit tag" using off assms(2,4) by (simp_all add: accessible_def)
  then obtain mem' where m: "AccessAtPageBoundary ?mem tag d AccessInit = (mem', Inr d)" "mem_ok mem'" "safe mem' = safe ?mem"
      "\<forall>b. perm_at mem' b = (if page_base b = page_base tag then Some (marked AccessInit (perm_at ?mem tag)) else perm_at ?mem b)"
      "\<forall>b. byte_at mem' b = (if unat (b - tag) < length d then d ! unat (b - tag) else byte_at ?mem b)"
    using boundary_write [of ?mem tag d AccessInit] assms(1) by auto
  have "access_loop mem' (tag + of_nat 4096) [] AccessInit = (mem', Inr [])" by (subst access_loop.simps) simp
  then have a: "Access mem tag d AccessInit = (mem', Inr d)"
  proof -
    have "d \<noteq> []" using assms(4) by auto
    then show ?thesis
      using access_loop_chunk [of d _ tag ?mem AccessInit, OF _ refl] m(1) assms(4) \<open>access_loop mem' _ _ _ = _\<close>
      unfolding c by (simp add: Access_def)
  qed
  have "byte_at mem' b = (if page_base b = tag then d ! page_offset b else byte_at mem b)" for b
  proof -
    have "page_offset tag + 4096 \<le> 4096" using off by simp
    note ic = in_chunk [OF this, of b]
    show ?thesis using m(5) [rule_format, of b] ic assms(3,4) off offset_page [of b] by auto
  qed
  then show ?thesis using a m(2-4) assms(2,3) by (intro exI [of _ mem']) simp
qed

abbreviation table_of :: "(guest_addr \<times> page) list \<Rightarrow> guest_addr \<Rightarrow> page option" where
  "table_of kps b \<equiv> map_of kps (page_base b)"

definition table_contents :: "(guest_addr \<times> page) list \<Rightarrow> guest_addr \<Rightarrow> 32 word option \<times> byte" where
  "table_contents kps b = (map_option pg_perm (table_of kps b),
     case table_of kps b of None \<Rightarrow> 0 | Some p \<Rightarrow> data_at p (page_offset b))"

lemma table_contents_pages: "table_contents (pages mem) b = contents mem b"
  by (simp add: table_contents_def perm_at_def byte_at_def getPage_base)

lemma clone_loop_spec:
  assumes "distinct (map fst kps)" "\<forall>kp \<in> set kps. page_ok (fst kp) (snd kp)"
    and "mem_ok mem" "\<not> safe mem" "\<forall>k \<in> fst ` set kps. getPage mem k = None"
  shows "\<exists>mem'. clone_loop kps mem = (mem', Inr ()) \<and> mem_ok mem' \<and>
    (\<forall>b. contents mem' b = (if page_base b \<in> fst ` set kps then table_contents kps b else contents mem b))"
  using assms
proof (induction kps arbitrary: mem)
  case (Cons kp kps)
  obtain k p where kp: "kp = (k, p)" by fastforce
  have ok: "pg_tag p = k" "aligned k" "\<forall>d. pg_data p = Some d \<longrightarrow> length d = 4096"
    using Cons.prems(2) by (simp_all add: kp page_ok_def)
  have new: "getPage mem k = None" using Cons.prems(5) by (simp add: kp)
  obtain mem1 where m1: "newPage mem k (pg_perm p) = (mem1, Inr ())" "safe mem1 = safe mem" "mem_ok mem1"
      "\<forall>b. getPage mem1 b = (if page_base b = k
          then Some \<lparr>pg_tag = k, pg_perm = pg_perm p, pg_data = None\<rparr> else getPage mem b)"
    using newPage_new [OF new, of "pg_perm p"] Cons.prems(3) ok(2) by auto
  obtain mem2 where m2: "(case pg_data p of None \<Rightarrow> (mem1, Inr []) | Some d \<Rightarrow> Access mem1 k d AccessInit) = (mem2, Inr (case pg_data p of None \<Rightarrow> [] | Some d \<Rightarrow> d))"
      "mem_ok mem2" "\<not> safe mem2"
      "\<And>b. perm_at mem2 b = (if page_base b = k then Some (pg_perm p) else perm_at mem b)"
      "\<And>b. byte_at mem2 b = (if page_base b = k then data_at p (page_offset b) else byte_at mem b)"
  proof (cases "pg_data p")
    case None
    then show thesis using m1 Cons.prems(4) by (intro that [of mem1]) (simp_all add: perm_at_def byte_at_def data_at_def)
  next
    case (Some d)
    have ns: "\<not> safe mem1" using m1(2) Cons.prems(4) by simp
    obtain mem2 where a: "Access mem1 k d AccessInit = (mem2, Inr d)" "mem_ok mem2" "\<not> safe mem2"
        "\<forall>b. perm_at mem2 b = (if page_base b = k then Some (marked AccessInit (perm_at mem1 k)) else perm_at mem1 b)"
        "\<forall>b. byte_at mem2 b = (if page_base b = k then d ! page_offset b else byte_at mem1 b)"
      using init_page [OF m1(3) ns ok(2)] ok(3) Some by blast
    have p1: "perm_at mem1 b = (if page_base b = k then Some (pg_perm p) else perm_at mem b)"
        and b1: "byte_at mem1 b = (if page_base b = k then 0 else byte_at mem b)" for b
      using m1(4) by (simp_all add: perm_at_def byte_at_def data_at_def)
    have "marked AccessInit (perm_at mem1 k) = pg_perm p" using ok(2) by (simp add: p1 marked_def)
    then show thesis
      using a(1-3) a(4,5) [rule_format] Some p1 b1 by (intro that [of mem2]) (simp_all add: data_at_def)
  qed
  have "getPage mem2 k' = None" if "k' \<in> fst ` set kps" for k'
  proof -
    have "page_base k' = k'" using that Cons.prems(2) by (auto simp: page_ok_def)
    moreover have "k' \<noteq> k" using that Cons.prems(1) by (simp add: kp) blast
    ultimately have "perm_at mem2 k' = perm_at mem k'" using m2(4) [of k'] by simp
    moreover have "getPage mem k' = None" using Cons.prems(5) that by (auto simp: kp)
    ultimately show ?thesis using perm_at_None by metis
  qed
  then obtain mem' where m: "clone_loop kps mem2 = (mem', Inr ())" "mem_ok mem'"
      "\<forall>b. contents mem' b = (if page_base b \<in> fst ` set kps then table_contents kps b else contents mem2 b)"
    using Cons.IH [OF _ _ m2(2,3)] Cons.prems(1,2) by auto
  have "clone_loop (kp # kps) mem = (mem', Inr ())" 
    unfolding clone_loop.simps Let_def kp snd_conv ok(1) m1(1) then_mem_simps m2(1) m(1) ..
  moreover have "contents mem' b = (if page_base b \<in> fst ` set (kp # kps) then table_contents (kp # kps) b else contents mem b)" for b
    using m(3) [rule_format, of b] m2(4,5) [of b] Cons.prems(1) by (auto simp: kp table_contents_def)
  ultimately show ?case using m(2) by blast
qed simp

lemma Clone_spec:
  assumes "mem_ok src"
  shows "\<exists>mem'. Clone mem src = (mem', Inr ()) \<and> mem_ok mem' \<and> safe mem' = safe src \<and> heap_break mem' = heap_break src \<and>
      (\<forall>b. contents mem' b = contents src b)"
    "\<exists>mem'. memory_copy src = (mem', Inr ()) \<and> mem_ok mem' \<and> safe mem' = safe src \<and> heap_break mem' = heap_break src \<and>
      (\<forall>b. contents mem' b = contents src b)"
proof -
  have main: "\<exists>mem'. clone_loop (pages src) mem0 = (mem', Inr ()) \<and> mem_ok mem' \<and> (\<forall>b. contents mem' b = contents src b)"
    if "pages mem0 = []" "\<not> safe mem0" for mem0
  proof -
    have e: "getPage mem0 b = None" for b by (simp add: getPage_base that(1))
    have "\<exists>mem'. clone_loop (pages src) mem0 = (mem', Inr ()) \<and> mem_ok mem' \<and>
        (\<forall>b. contents mem' b = (if page_base b \<in> fst ` set (pages src) then table_contents (pages src) b else contents mem0 b))"
    proof -
      have "distinct (map fst (pages src))" "\<forall>kp \<in> set (pages src). page_ok (fst kp) (snd kp)" "mem_ok mem0"
        using assms that(1) by (simp_all add: mem_ok_def)
      then show ?thesis by (rule clone_loop_spec) (simp_all add: that(2) e)
    qed
    then obtain mem' where m: "clone_loop (pages src) mem0 = (mem', Inr ())" "mem_ok mem'"
        "\<forall>b. contents mem' b = (if page_base b \<in> fst ` set (pages src) then table_contents (pages src) b else contents mem0 b)"
      by blast
    have "contents mem' b = contents src b" for b
    proof (cases "page_base b \<in> fst ` set (pages src)")
      case True
      then show ?thesis using m(3) table_contents_pages by simp
    next
      case False
      then have "getPage src b = None" by (simp add: getPage_base map_of_eq_None_iff)
      then show ?thesis using m(3) [rule_format, of b] False e by (simp add: perm_at_def byte_at_def)
    qed
    then show ?thesis using m(1,2) by blast
  qed
  obtain m1 where "clone_loop (pages src) ((Clear mem)\<lparr>safe := False\<rparr>) = (m1, Inr ())" "mem_ok m1" "\<forall>b. contents m1 b = contents src b"
    using main [of "(Clear mem)\<lparr>safe := False\<rparr>"] by (auto simp: Clear_def)
  then show "\<exists>mem'. Clone mem src = (mem', Inr ()) \<and> mem_ok mem' \<and> safe mem' = safe src \<and> heap_break mem' = heap_break src \<and>
      (\<forall>b. contents mem' b = contents src b)"
    by (intro exI [of _ "m1\<lparr>safe := safe src, heap_break := heap_break src\<rparr>"]) (simp add: Clone_def)
  obtain m2 where "clone_loop (pages src) (memory_create False) = (m2, Inr ())" "mem_ok m2" "\<forall>b. contents m2 b = contents src b"
    using main [of "memory_create False"] by (auto simp: memory_create_def)
  then show "\<exists>mem'. memory_copy src = (mem', Inr ()) \<and> mem_ok mem' \<and> safe mem' = safe src \<and> heap_break mem' = heap_break src \<and>
      (\<forall>b. contents mem' b = contents src b)"
    by (intro exI [of _ "m2\<lparr>safe := safe src, heap_break := heap_break src\<rparr>"]) (simp add: memory_copy_def)
qed

section \<open>Strings\<close>

lemma read_string_loop_spec:
  assumes "mem_ok mem" "\<forall>i \<le> length s. accessible mem AccessRead (a + of_nat i)"
    and "\<forall>i < length s. byte_at mem (a + of_nat i) = s ! i \<and> s ! i \<noteq> 0" "byte_at mem (a + of_nat (length s)) = 0"
    and "length s < n"
  shows "\<exists>x. read_string_loop n mem a done_part = (mem\<lparr>last_address := x\<rparr>, Inr (done_part @ s))"
  using assms
proof (induction s arbitrary: n mem a done_part)
  case Nil
  then obtain m where "n = Suc m" by (cases n) auto
  moreover have "reach mem AccessRead a 1 = 1" using Nil.prems(2) by simp
  ultimately show ?case
    using Read_spec [OF Nil.prems(1), of a 1] Nil.prems(4) by (auto intro: exI [of _ a])
next
  case (Cons c s)
  obtain m where m: "n = Suc m" "length s < m" using Cons.prems(5) by (cases n) auto
  have acc: "accessible mem AccessRead a" using Cons.prems(2) [rule_format, of 0] by simp
  have c: "byte_at mem a = c" "c \<noteq> 0" using Cons.prems(3) [rule_format, of 0] by simp_all
  let ?mem = "mem\<lparr>last_address := a\<rparr>"
  have "Read mem a 1 = (?mem, Inr [c])" using Read_spec [OF Cons.prems(1), of a 1] acc c(1) by simp
  then have step: "read_string_loop n mem a done_part = read_string_loop m ?mem (a + 1) (done_part @ [c])"
    using c(2) m(1) by simp
  have sh: "a + 1 + of_nat i = a + of_nat (Suc i)" for i by (simp add: algebra_simps)
  have "\<exists>x. read_string_loop m ?mem (a + 1) (done_part @ [c]) = (?mem\<lparr>last_address := x\<rparr>, Inr ((done_part @ [c]) @ s))"
  proof (rule Cons.IH)
    show "mem_ok ?mem" "length s < m" using Cons.prems(1) m(2) by simp_all
    show "\<forall>i\<le>length s. accessible ?mem AccessRead (a + 1 + of_nat i)"
      unfolding sh using Cons.prems(2) by (simp del: of_nat_Suc)
    show "\<forall>i<length s. byte_at ?mem (a + 1 + of_nat i) = s ! i \<and> s ! i \<noteq> 0"
      unfolding sh using Cons.prems(3) by (auto simp del: of_nat_Suc)
    show "byte_at ?mem (a + 1 + of_nat (length s)) = 0" unfolding sh using Cons.prems(4) by simp
  qed
  then show ?case unfolding step by simp
qed

section \<open>The table stays well formed\<close>

lemma boundary_mem_ok:
  assumes "mem_ok mem"
  shows "mem_ok (fst (AccessAtPageBoundary mem a buf access))"
proof (cases "page_offset a + length buf \<le> 4096")
  case False
  then show ?thesis using assms by (simp add: AccessAtPageBoundary_def Let_def)
next
  case fits: True
  consider (rd) "access = AccessRead \<or> access = AccessExec" | (wr) "access = AccessWrite \<or> access = AccessInit"
    | (other) "access \<noteq> AccessRead" "access \<noteq> AccessExec" "access \<noteq> AccessWrite" "access \<noteq> AccessInit" by blast
  then show ?thesis
  proof cases
    case rd
    then show ?thesis using boundary_read [OF assms fits] assms by simp
  next
    case wr
    show ?thesis
    proof (cases "accessible mem access a")
      case True
      then show ?thesis using boundary_write [OF assms fits wr] by auto
    next
      case False
      then show ?thesis using boundary_denied [OF fits wr] assms mark_page(1) [OF assms] by simp
    qed
  next
    case other
    then show ?thesis using assms fits by (simp add: AccessAtPageBoundary_def Let_def)
  qed
qed

lemma then_mem_ok:
  assumes "mem_ok (fst m)" "\<And>mem x. mem_ok mem \<Longrightarrow> mem_ok (fst (f mem x))"
  shows "mem_ok (fst (then_mem m f))"
  using assms by (auto simp: then_mem_def split: sum.split)

lemma access_loop_mem_ok: "mem_ok mem \<Longrightarrow> mem_ok (fst (access_loop mem a buf access))"
proof (induction "length buf" arbitrary: mem a buf rule: less_induct)
  case less
  show ?case
  proof (cases "buf = []")
    case True
    then show ?thesis using less.prems by (subst access_loop.simps) simp
  next
    case False
    then have "length (drop (chunk_size a (length buf)) buf) < length buf" using chunk_pos [of "length buf" a] by simp
    then show ?thesis
      unfolding access_loop_chunk [OF False refl]
      by (intro then_mem_ok boundary_mem_ok less.prems less.hyps) simp_all
  qed
qed

lemma access_mem_ok: "mem_ok mem \<Longrightarrow> mem_ok (fst (Access mem a buf access))"
  by (simp add: Access_def access_loop_mem_ok)

lemma copy_loop_mem_ok: "mem_ok mem \<Longrightarrow> mem_ok (fst (copy_loop n mem dest src))"
proof (induction n arbitrary: mem dest src)
  case (Suc n)
  show ?case
  proof (cases "getPage mem dest = None \<or> getPage mem src = None")
    case False
    then obtain p q where pq: "getPage mem dest = Some p" "getPage mem src = Some q" by auto
    have "page_ok (page_base src) q" by (rule getPage_ok [OF Suc.prems pq(2)])
    then have "mem_ok (at_page mem dest (\<lambda>p. case pg_data q of Some d \<Rightarrow> (AllocateData p)\<lparr>pg_data := Some d\<rparr>
        | None \<Rightarrow> if pg_data p \<noteq> None then p\<lparr>pg_data := Some (replicate (unat PageSize) 0)\<rparr> else p))"
      by (intro at_page_ok [OF Suc.prems]) (auto simp: page_ok_def AllocateData_def split: option.split)
    then show ?thesis using Suc.IH pq by simp
  qed (use Suc.prems in \<open>auto split: option.split\<close>)
qed simp

lemma zero_loop_mem_ok: "mem_ok mem \<Longrightarrow> mem_ok (fst (zero_loop n mem a))"
  by (induction n arbitrary: mem a) (auto intro!: then_mem_ok simp: Write_def access_mem_ok)

lemma buffer_mem_ok: "mem_ok mem \<Longrightarrow> mem_ok (fst (getBuffer mem a sz access))"
  by (auto simp: getBuffer_def Let_def AllocateData_def page_ok_def intro!: at_page_ok split: option.split)

lemma page_loops_mem_ok:
  assumes "mem_ok mem"
  shows "Map mem a sz perm = ret mem' \<Longrightarrow> mem_ok mem'" "Unmap mem a sz = ret mem' \<Longrightarrow> mem_ok mem'"
    "Protect mem a sz perm = ret mem' \<Longrightarrow> mem_ok mem'"
  using page_loop_spec [OF assms map_page_body, of a sz perm] page_loop_spec [OF assms unmap_page_body, of a sz]
    page_loop_spec [OF assms protect_page_body, of a sz perm]
  by (auto simp: Map_def Unmap_def Protect_def split: if_splits)

text \<open>The states of a memory: what any sequence of operations leaves, also when some of them throw.\<close>

inductive mem_reach :: "memory \<Rightarrow> bool" where
  reach_create: "mem_reach (memory_create safe_mode)"
| reach_safe: "mem_reach mem \<Longrightarrow> mem_reach (setSafe mem b)"
| reach_clear: "mem_reach mem \<Longrightarrow> mem_reach (Clear mem)"
| reach_break: "mem_reach mem \<Longrightarrow> mem_reach (growHeapBreak mem brk)"
| reach_access: "mem_reach mem \<Longrightarrow> mem_reach (fst (Access mem a buf access))"
| reach_buffer: "mem_reach mem \<Longrightarrow> mem_reach (fst (getBuffer mem a sz access))"
| reach_copy: "mem_reach mem \<Longrightarrow> mem_reach (fst (Copy mem dest src sz))"
| reach_zero: "mem_reach mem \<Longrightarrow> mem_reach (fst (Zero mem a sz))"
| reach_map: "mem_reach mem \<Longrightarrow> Map mem a sz perm = ret mem' \<Longrightarrow> mem_reach mem'"
| reach_unmap: "mem_reach mem \<Longrightarrow> Unmap mem a sz = ret mem' \<Longrightarrow> mem_reach mem'"
| reach_protect: "mem_reach mem \<Longrightarrow> Protect mem a sz perm = ret mem' \<Longrightarrow> mem_reach mem'"
| reach_load: "mem_reach mem \<Longrightarrow> length f \<le> 2 ^ 32 \<Longrightarrow> mem_reach (fst (Load mem (Some f) a))"
| reach_clone: "mem_reach mem \<Longrightarrow> mem_reach src \<Longrightarrow> mem_reach (fst (Clone mem src))"

lemma mem_reach_ok: "mem_reach mem \<Longrightarrow> mem_ok mem"
proof (induction rule: mem_reach.induct)
  case (reach_load mem f a)
  then show ?case using Load_spec [of mem f a] by auto
next
  case (reach_clone mem src)
  then show ?case using Clone_spec(1) [of src mem] by auto
qed (auto simp: memory_create_def setSafe_def Clear_def growHeapBreak_def Copy_def Zero_def mem_ok_def [of "\<lparr>pages = [], safe = _, heap_break = _, last_address = _\<rparr>"]
     mem_ok_def [of "_\<lparr>pages := []\<rparr>"] access_mem_ok buffer_mem_ok copy_loop_mem_ok zero_loop_mem_ok dest: page_loops_mem_ok)

text \<open>What a call does to the pages of a range: \<open>h\<close> to the permissions and the bytes of those that it
  touches, but nothing where the range goes on after the last page, and no return where it ends there.\<close>

definition range_effect ::
  "memory \<Rightarrow> guest_addr \<Rightarrow> 32 word \<Rightarrow> (32 word option \<times> byte \<Rightarrow> 32 word option \<times> byte) \<Rightarrow> memory run option \<Rightarrow> bool" where
  "range_effect mem a n h r \<longleftrightarrow> (let last_byte = unat a + unat n - 1 in
     if last_byte < 2 ^ 32 - 4096
     then \<exists>m. r = ret m \<and> mem_reach m \<and> (\<forall>b. contents m b = (if touches a n b then h (contents mem b) else contents mem b))
     else if last_byte < 2 ^ 32 then r = None
     else \<exists>m. r = ret m \<and> mem_reach m \<and> (\<forall>b. contents m b = contents mem b))"

lemma range_effect_before:
  assumes "range_effect mem a n h r" "unat a + unat n - 1 < 2 ^ 32 - 4096"
  shows "\<exists>m. r = ret m \<and> (\<forall>b. contents m b = (if touches a n b then h (contents mem b) else contents mem b))"
  using assms(1) unfolding range_effect_def Let_def if_P [OF assms(2)] by blast

lemma loop_range_effect:
  assumes ok: "mem_ok mem" and r: "r = for_pages f (first_tag a) (last_tag a n) mem"
    and reach: "\<And>m. r = ret m \<Longrightarrow> mem_reach m"
    and body: "\<And>m tag. mem_ok m \<and> same_fields mem m \<Longrightarrow> aligned tag \<Longrightarrow>
      (mem_ok (f m tag) \<and> same_fields mem (f m tag)) \<and>
      (\<forall>b. contents (f m tag) b = (if page_base b = tag then h (contents m b) else contents m b))"
    and n: "0 < unat n" and w: "unat a + unat n \<le> 2 ^ 32 + unat a div 4096 * 4096"
  shows "range_effect mem a n h r"
proof -
  have returns: "\<exists>m. r = ret m \<and> mem_reach m \<and> (\<forall>b. contents m b = (if in_pages a n b then h (contents mem b) else contents mem b))"
    if "last_tag a n \<noteq> last_page"
    using page_loop_spec [OF ok body, of a n] reach unfolding r if_not_P [OF that] by blast
  let ?last = "unat a + unat n - 1"
  consider (before) "?last < 2 ^ 32 - 4096" | (at_end) "2 ^ 32 - 4096 \<le> ?last" "?last < 2 ^ 32" | (over) "2 ^ 32 \<le> ?last" by linarith
  then show ?thesis
  proof cases
    case before
    then have "unat a + unat n \<le> 2 ^ 32" "last_tag a n \<noteq> last_page" using n by (simp_all add: last_tag_last)
    then show ?thesis using returns before in_pages_range [OF n] by (simp add: range_effect_def)
  next
    case at_end
    then have "last_tag a n = last_page" using n by (simp add: last_tag_last)
    then have "r = None" unfolding r by (simp add: for_pages_diverges)
    then show ?thesis using at_end by (simp add: range_effect_def)
  next
    case over
    have u: "unat (a + n - 1) = ?last - 2 ^ 32"
      using over n unsigned_less [of a, where 'a = nat] unsigned_less [of n, where 'a = nat]
      by (simp add: unat_last mod_if del: unsigned_less)
    have lt: "?last - 2 ^ 32 < unat a div 4096 * 4096" using w over n by linarith
    then have "(?last - 2 ^ 32) div 4096 < unat a div 4096" by (simp add: less_mult_imp_div_less)
    then have out: "\<not> in_pages a n b" for b by (auto simp: word_le_nat_alt unat_base u)
    have "unat a div 4096 < 1048576" using unsigned_less [of a, where 'a = nat] by (simp add: less_mult_imp_div_less)
    then have "unat a div 4096 * 4096 \<le> 2 ^ 32 - 4096" by simp
    then have "?last - 2 ^ 32 < 2 ^ 32 - 4096" by (rule order_less_le_trans [OF lt])
    then have "last_tag a n \<noteq> last_page"
      using u n unsigned_less [of a, where 'a = nat] last_tag_last [OF n, of a] unat_last [OF n, of a] by auto
    then show ?thesis using returns out over by (simp add: range_effect_def)
  qed
qed

section \<open>Properties\<close>

text \<open>C9: Whatever sequence of operations is run, also when some of them throw, the table of pages has one
  page for a tag, stored under its own tag, which is a multiple of the page size, and page data has the
  size of a page.\<close>

theorem guest_pages_well_formed:
  assumes "mem_reach mem"
  shows "distinct (map fst (pages mem)) \<and>
    (\<forall>(k, p) \<in> set (pages mem). pg_tag p = k \<and> k AND (PageSize - 1) = 0 \<and>
       (\<forall>d. pg_data p = Some d \<longrightarrow> length d = unat PageSize))"
proof -
  show ?thesis using mem_reach_ok [OF assms] by (auto simp: mem_ok_def page_ok_def aligned_offset)
qed

theorem guest_pages_well_formed_witness:
  "\<exists>mem. mem_reach mem \<and> byte_at mem 7 = 1 \<and> distinct (map fst (pages mem))"
proof -
  let ?mem = "memory_create False"
  have acc: "accessible ?mem AccessWrite b" for b by (simp add: accessible_def memory_create_def)
  have k: "reach ?mem AccessWrite 7 (length [1 :: byte]) = 1"
    using reach_le [of ?mem AccessWrite 7 1] reach_stop [of ?mem AccessWrite 7 1] acc by fastforce
  obtain mem' where w: "Write ?mem 7 [1] = (mem', Inr [1])" "\<forall>b. byte_at mem' b = (if unat (b - 7) < 1 then [1] ! unat (b - 7) else byte_at ?mem b)"
    using Write_spec [OF mem_reach_ok [OF reach_create [of False]], of "[1]" "reach ?mem AccessWrite 7 (length [1 :: byte])" 7] k by auto
  have "mem_reach (fst (Write ?mem 7 [1]))" unfolding Write_def by (rule reach_access [OF reach_create])
  then have r: "mem_reach mem'" unfolding w(1) by simp
  have "byte_at mem' 7 = 1" using w(2) by simp
  then show ?thesis using guest_pages_well_formed [OF r] r by blast
qed

text \<open>C1: A read of any size returns the bytes at the addresses of its range, across pages; in safe mode
  it throws at the first address that is not readable, a segmentation fault where there is no page and
  a denied permission otherwise; in both cases nothing but the last address changes.\<close>

theorem guest_read:
  assumes "mem_reach mem"
  shows "Read mem a n = (mem\<lparr>last_address := a\<rparr>,
    if \<forall>i < n. accessible mem AccessRead (a + of_nat i) then Inr (bytes_from mem a n)
    else Inl (fault mem (a + of_nat (LEAST i. \<not> accessible mem AccessRead (a + of_nat i)))))"
proof -
  note r = Read_spec [OF mem_reach_ok [OF assms], of a n]
  show ?thesis
  proof (cases "reach mem AccessRead a n = n")
    case True
    then show ?thesis using r reach_less [of _ mem AccessRead a n] by simp
  next
    case False
    then have lt: "reach mem AccessRead a n < n" using reach_le [of mem AccessRead a n] by simp
    have "(LEAST i. \<not> accessible mem AccessRead (a + of_nat i)) = reach mem AccessRead a n"
      using reach_stop [OF lt] reach_less [of _ mem AccessRead a n] by (intro Least_equality) (auto simp: not_less [symmetric])
    moreover have "\<not> (\<forall>i < n. accessible mem AccessRead (a + of_nat i))" using reach_stop [OF lt] lt by blast
    ultimately show ?thesis using r False by simp
  qed
qed

theorem guest_read_witness:
  "Read (memory_create True) 0xffffffff 2 = ((memory_create True)\<lparr>last_address := 0xffffffff\<rparr>, Inl (Segmentation_fault 0xffffffff))"
proof -
  have n: "\<not> accessible (memory_create True) AccessRead b" for b
    by (simp add: accessible_def perm_at_def getPage_def memory_create_def)
  then have l: "(LEAST i. \<not> accessible (memory_create True) AccessRead (0xffffffff + of_nat i)) = 0" by simp
  have "\<not> (\<forall>i < 2. accessible (memory_create True) AccessRead (0xffffffff + of_nat i))"
    using n zero_less_numeral by blast
  moreover have "fault (memory_create True) b = Segmentation_fault b" for b
    by (simp add: fault_def perm_at_def getPage_def memory_create_def)
  ultimately show ?thesis
    using guest_read [OF reach_create [of True], of "0xffffffff" 2] l by simp
qed

text \<open>C2: A write of any size stores its bytes up to the first address that is not writable and no other
  byte: all of them, or those before that address, at which it throws. Pages with no permission to
  write keep their bytes, permissions are kept but for the modified flag, and in safe mode no page is
  created.\<close>

theorem guest_write:
  assumes "mem_reach mem" "length buf \<le> 2 ^ 32"
  shows "\<exists>mem' k. k \<le> length buf \<and> (\<forall>i < k. accessible mem AccessWrite (a + of_nat i)) \<and>
    (k < length buf \<longrightarrow> \<not> accessible mem AccessWrite (a + of_nat k)) \<and>
    Write mem a buf = (mem', if k = length buf then Inr buf else Inl (fault mem (a + of_nat k))) \<and>
    (\<forall>b. byte_at mem' b = (if unat (b - a) < k then buf ! unat (b - a) else byte_at mem b)) \<and>
    perms_grow mem mem' \<and> mem_reach mem'"
proof -
  let ?k = "reach mem AccessWrite a (length buf)"
  obtain mem' where w: "Write mem a buf = (mem', if ?k = length buf then Inr buf else Inl (fault mem (a + of_nat ?k)))"
      "perms_grow mem mem'" "\<forall>b. byte_at mem' b = (if unat (b - a) < ?k then buf ! unat (b - a) else byte_at mem b)"
    using Write_spec [OF mem_reach_ok [OF assms(1)] assms(2) refl] by blast
  have "mem_reach (fst (Write mem a buf))" unfolding Write_def by (rule reach_access [OF assms(1)])
  then have "mem_reach mem'" unfolding w(1) by simp
  then show ?thesis
    using w reach_le reach_less reach_stop by (intro exI [of _ mem'] exI [of _ ?k]) blast
qed

theorem guest_write_witness:
  "\<exists>mem'. Write (memory_create False) 0xffffffff [1, 2] = (mem', Inr [1, 2]) \<and> byte_at mem' 0xffffffff = 1 \<and> byte_at mem' 0 = 2"
proof -
  have acc: "accessible (memory_create False) AccessWrite b" for b by (simp add: accessible_def memory_create_def)
  obtain mem' k where "k \<le> length [1 :: byte, 2]" "k < length [1 :: byte, 2] \<longrightarrow> False"
      "Write (memory_create False) 0xffffffff [1, 2] = (mem', if k = length [1 :: byte, 2] then Inr [1, 2] else Inl (fault (memory_create False) (0xffffffff + of_nat k)))"
      "\<forall>b. byte_at mem' b = (if unat (b - 0xffffffff) < k then [1, 2] ! unat (b - 0xffffffff) else byte_at (memory_create False) b)"
    using guest_write [OF reach_create [of False], of "[1, 2]" "0xffffffff"] acc by auto
  then show ?thesis by (intro exI [of _ mem']) simp
qed

text \<open>C3: For every range of at least one byte, aligned or not, that does not wrap around to its own first page:
  when its last byte lies before the last page of the address space, \<open>Map\<close> returns and has changed
  exactly the pages that hold a byte of the range, which are mapped with the permissions added and their
  bytes kept; when its last byte lies in the last page, \<open>Map\<close> never returns; and when it goes on after the
  last page, \<open>Map\<close> returns and nothing is mapped at all, though the header says that the pages of the
  range are allocated. \<open>Unmap\<close>, which removes the pages, and \<open>Protect\<close>, which replaces the permissions
  of those that there are, do the same for an aligned address and a multiple of the page size and fail
  their assertion otherwise.\<close>

theorem guest_map_unmap_protect:
  assumes "mem_reach mem" "0 < unat n" "unat a + unat n \<le> 2 ^ 32 + unat a div 4096 * 4096"
  shows "range_effect mem a n (\<lambda>(p, x). (Some ((case p of None \<Rightarrow> 0 | Some q \<Rightarrow> q) OR perm), x)) (Map mem a n perm) \<and>
    (if 4096 dvd unat a \<and> 4096 dvd unat n
     then range_effect mem a n (\<lambda>_. (None, 0)) (Unmap mem a n) \<and>
       range_effect mem a n (\<lambda>(p, x). (map_option (\<lambda>_. perm) p, x)) (Protect mem a n perm)
     else Unmap mem a n = stops Assert \<and> Protect mem a n perm = stops Assert)"
proof (intro conjI)
  note ok = mem_reach_ok [OF assms(1)]
  have off: "x AND mask 12 = 0 \<longleftrightarrow> 4096 dvd unat x" for x :: guest_addr
    by (simp add: word_unat_eq_iff unat_offset dvd_eq_mod_eq_0)
  have eqs: "Map mem a n perm = for_pages (map_page perm) (first_tag a) (last_tag a n) mem"
    by (simp add: Map_def)
  show "range_effect mem a n (\<lambda>(p, x). (Some ((case p of None \<Rightarrow> 0 | Some q \<Rightarrow> q) OR perm), x)) (Map mem a n perm)"
    by (rule loop_range_effect [OF ok eqs reach_map [OF assms(1)] map_page_body assms(2,3)])
  show "if 4096 dvd unat a \<and> 4096 dvd unat n
     then range_effect mem a n (\<lambda>_. (None, 0)) (Unmap mem a n) \<and>
       range_effect mem a n (\<lambda>(p, x). (map_option (\<lambda>_. perm) p, x)) (Protect mem a n perm)
     else Unmap mem a n = stops Assert \<and> Protect mem a n perm = stops Assert"
  proof (cases "4096 dvd unat a \<and> 4096 dvd unat n")
    case False
    then show ?thesis by (auto simp: Unmap_def Protect_def off)
  next
    case True
    then have eqs: "Unmap mem a n = for_pages unmap_page (first_tag a) (last_tag a n) mem"
        "Protect mem a n perm = for_pages (protect_page perm) (first_tag a) (last_tag a n) mem"
      by (simp_all add: Unmap_def Protect_def off)
    have "range_effect mem a n (\<lambda>_. (None, 0)) (Unmap mem a n)"
      by (rule loop_range_effect [OF ok eqs(1) reach_unmap [OF assms(1)] unmap_page_body assms(2,3)])
    moreover have "range_effect mem a n (\<lambda>(p, x). (map_option (\<lambda>_. perm) p, x)) (Protect mem a n perm)"
      by (rule loop_range_effect [OF ok eqs(2) reach_protect [OF assms(1)] protect_page_body assms(2,3)])
    ultimately show ?thesis unfolding if_P [OF True] ..
  qed
qed

theorem guest_map_unmap_protect_witness:
  "Map (memory_create True) 0xfffff010 0x20 AccessRead = None \<and>
   (\<exists>m. Map (memory_create True) 0xffffe000 0x3000 AccessRead = ret m \<and> perm_at m 0xffffe000 = None) \<and>
   (\<exists>m. Map (memory_create True) 0x1ffe 4 AccessRead = ret m \<and> perm_at m 0x1000 = Some AccessRead \<and>
      perm_at m 0x2fff = Some AccessRead \<and> perm_at m 0x3000 = None) \<and>
   Unmap (memory_create True) 0x1ffe 4 = stops Assert"
proof -
  let ?mem = "memory_create True"
  let ?h = "\<lambda>(p, x). (Some ((case p of None \<Rightarrow> 0 | Some q \<Rightarrow> q) OR AccessRead), x) :: 32 word option \<times> byte"
  have e: "perm_at ?mem b = None" for b by (simp add: perm_at_def getPage_def memory_create_def)
  have r: "range_effect ?mem 0xfffff010 0x20 ?h (Map ?mem 0xfffff010 0x20 AccessRead)"
      "range_effect ?mem 0xffffe000 0x3000 ?h (Map ?mem 0xffffe000 0x3000 AccessRead)"
      "range_effect ?mem 0x1ffe 4 ?h (Map ?mem 0x1ffe 4 AccessRead)"
      "Unmap ?mem 0x1ffe 4 = stops Assert"
    using guest_map_unmap_protect [OF reach_create [of True], where n = "0x20" and a = "0xfffff010" and perm = AccessRead]
      guest_map_unmap_protect [OF reach_create [of True], where n = "0x3000" and a = "0xffffe000" and perm = AccessRead]
      guest_map_unmap_protect [OF reach_create [of True], where n = 4 and a = "0x1ffe" and perm = AccessRead] by simp_all
  have "Map ?mem 0xfffff010 0x20 AccessRead = None" using r(1) by (simp add: range_effect_def)
  moreover have "\<exists>m. Map ?mem 0xffffe000 0x3000 AccessRead = ret m \<and> perm_at m 0xffffe000 = None"
    using r(2) by (auto simp: range_effect_def e)
  moreover have "\<exists>m. Map ?mem 0x1ffe 4 AccessRead = ret m \<and> (\<forall>b. contents m b = (if touches 0x1ffe 4 b then ?h (contents ?mem b) else contents ?mem b))"
    using range_effect_before [OF r(3)] by simp
  then obtain m where m: "Map ?mem 0x1ffe 4 AccessRead = ret m"
      "\<And>b. contents m b = (if touches 0x1ffe 4 b then ?h (contents ?mem b) else contents ?mem b)" by blast
  have p: "perm_at m b = (if touches 0x1ffe 4 b then Some AccessRead else None)" for b
    using m(2) [of b] by (simp add: e split: if_splits)
  have "touches 0x1ffe 4 0x1000" by (rule touchesI [of 0]) simp_all
  moreover have "touches 0x1ffe 4 0x2fff" by (rule touchesI [of 2]) simp_all
  moreover have "\<not> touches 0x1ffe 4 0x3000" by (simp add: touches_range)
  ultimately show ?thesis using m(1) r(4) p by simp
qed

text \<open>C6: From an aligned address other than 0, for a positive number of pages, \<open>MapSpace\<close> always returns:
  the lowest range of free pages of that size at or above the address, or -1 when there is none up to
  the end of the address space; from address 0 it always gives -1.\<close>

theorem guest_map_space:
  assumes "aligned a" "0 < unat sz" "4096 dvd unat (sz :: 32 word)"
  shows "\<exists>r. MapSpace mem a sz = ret r \<and> (if a = 0 then r = - 1 else
    if r = - 1 then \<forall>x \<ge> unat a. \<not> free_pages mem x (unat sz)
    else aligned r \<and> a \<le> r \<and> free_pages mem (unat r) (unat sz) \<and>
      (\<forall>x. unat a \<le> x \<and> x < unat r \<longrightarrow> \<not> free_pages mem x (unat sz)))"
  using MapSpace_spec [OF assms, of mem] by (auto simp: first_fit_def word_le_nat_alt split: if_splits)

theorem guest_map_space_witness:
  "\<exists>r. MapSpace (memory_create True) 0x1000 0x2000 = ret r \<and> r = 0x1000"
proof -
  have a: "aligned (0x1000 :: guest_addr)" "0 < unat (0x2000 :: 32 word)" "4096 dvd unat (0x2000 :: 32 word)"
    by (simp_all add: aligned_nat)
  have free: "free_pages (memory_create True) 0x1000 0x2000"
    by (simp add: free_pages_def getPage_def memory_create_def)
  obtain r where r: "MapSpace (memory_create True) 0x1000 0x2000 = ret r"
      "if r = - 1 then \<forall>x \<ge> unat (0x1000 :: 32 word). \<not> free_pages (memory_create True) x (unat (0x2000 :: 32 word))
       else aligned r \<and> 0x1000 \<le> r \<and> free_pages (memory_create True) (unat r) (unat (0x2000 :: 32 word)) \<and>
         (\<forall>x. unat (0x1000 :: 32 word) \<le> x \<and> x < unat r \<longrightarrow> \<not> free_pages (memory_create True) x (unat (0x2000 :: 32 word)))"
    using guest_map_space [OF a, of "memory_create True"] by auto
  have "r \<noteq> - 1" using r(2) free by auto
  then have "0x1000 \<le> r" "\<not> 0x1000 < unat r" using r(2) free by auto
  then have "r = 0x1000" by (simp add: word_le_nat_alt word_unat_eq_iff)
  then show ?thesis using r(1) by blast
qed

text \<open>C7: The bytes from \<open>start\<close> up to the one before \<open>end\<close>, saved to a file and loaded at any address, of the
  same memory or of another one, are the same there, and all other bytes are kept; the permissions and
  the safe mode of neither memory matter or change the result. (The header calls \<open>end\<close> the last address to
  save; the code does not save the byte at \<open>end\<close>.)\<close>

theorem guest_save_load:
  assumes "mem_reach mem" "mem_reach mem2" "start \<le> end_addr"
  shows "\<exists>m1 f m2. Save mem True start end_addr = (m1, Inr f) \<and> length f = unat (end_addr - start) \<and>
    (\<forall>b. contents m1 b = contents mem b) \<and> safe m1 = safe mem \<and>
    Load mem2 (Some f) dest = (m2, Inr ()) \<and> safe m2 = safe mem2 \<and>
    (\<forall>b. byte_at m2 b = (if b - dest < end_addr - start then byte_at mem (start + (b - dest)) else byte_at mem2 b))"
proof -
  let ?n = "unat (end_addr - start)"
  obtain x where s: "Save mem True start end_addr = (mem\<lparr>last_address := x\<rparr>, Inr (bytes_from mem start ?n))"
    using Save_spec [OF mem_reach_ok [OF assms(1)] assms(3)] by blast
  have "length (bytes_from mem start ?n) \<le> 2 ^ 32" using unsigned_less [of "end_addr - start", where 'a = nat] by simp
  then obtain m2 where l: "Load mem2 (Some (bytes_from mem start ?n)) dest = (m2, Inr ())" "safe m2 = safe mem2"
      "\<forall>b. byte_at m2 b = (if unat (b - dest) < length (bytes_from mem start ?n)
         then bytes_from mem start ?n ! unat (b - dest) else byte_at mem2 b)"
    using Load_spec [OF mem_reach_ok [OF assms(2)]] by blast
  have "byte_at m2 b = (if b - dest < end_addr - start then byte_at mem (start + (b - dest)) else byte_at mem2 b)" for b
    using l(3) [rule_format, of b] by (simp add: word_less_nat_alt)
  then show ?thesis
    using s l(1,2) by (intro exI [of _ "mem\<lparr>last_address := x\<rparr>"] exI [of _ "bytes_from mem start ?n"] exI [of _ m2]) simp
qed

theorem guest_save_load_witness:
  "\<exists>m1 f m2. Save (memory_create True) True 0 2 = (m1, Inr f) \<and> length f = 2 \<and>
     Load (memory_create False) (Some f) 7 = (m2, Inr ()) \<and> safe m2 = safe (memory_create False)"
proof -
  have "(0 :: guest_addr) \<le> 2" by simp
  then show ?thesis
    using guest_save_load [OF reach_create [of True] reach_create [of False], of 0 2 7] by auto
qed

text \<open>C8: A clone, whatever the memory held before, and a copy have the pages, permissions and bytes of the
  memory they are taken from, its safe mode and its heap break.\<close>

theorem guest_clone:
  assumes "mem_reach src"
  shows "(\<exists>m. Clone mem src = (m, Inr ()) \<and> (\<forall>b. contents m b = contents src b) \<and> safe m = safe src \<and> heap_break m = heap_break src) \<and>
    (\<exists>m. memory_copy src = (m, Inr ()) \<and> (\<forall>b. contents m b = contents src b) \<and> safe m = safe src \<and> heap_break m = heap_break src)"
  using Clone_spec [OF mem_reach_ok [OF assms]] by blast

theorem guest_clone_witness:
  "\<exists>m. Clone (memory_create True) (memory_create False) = (m, Inr ()) \<and> safe m = safe (memory_create False)"
  using guest_clone [OF reach_create [of False]] by blast

text \<open>A write that is denied has marked the page as modified all the same.\<close>

theorem guest_denied_write_marks:
  assumes "safe mem" "perm_at mem a = Some q" "q AND AccessWrite \<noteq> AccessWrite"
  shows "\<exists>mem'. Write mem a [x] = (mem', Inl (Permission_denied a)) \<and> perm_at mem' a = Some (q OR AccessModified)"
proof -
  let ?mem = "mem\<lparr>last_address := a\<rparr>"
  have fits: "page_offset a + length [x] \<le> 4096" using offset_page [of a] by (simp only: list.size Suc_leI One_nat_def add_Suc_right add_0_right)
  have na: "\<not> accessible ?mem AccessWrite a" using assms by (simp add: accessible_def)
  note d = boundary_denied [OF fits _ na]
  have c: "chunk_size a (length [x]) = 1" using fits by (simp add: min_def)
  have "Write mem a [x] = (at_page ?mem a (addPerm AccessModified), Inl (fault ?mem a))"
    using access_loop_chunk [of "[x]" _ a ?mem AccessWrite, OF _ refl] d unfolding c by (simp add: Write_def Access_def)
  moreover have "fault ?mem a = Permission_denied a" using assms(2) by (simp add: fault_def)
  moreover have "perm_at (at_page ?mem a (addPerm AccessModified)) a = Some (q OR AccessModified)"
    using assms(2) by (simp add: mark_page(3))
  ultimately show ?thesis by simp
qed

theorem guest_denied_write_marks_witness:
  "\<exists>mem mem'. perm_at mem 5 = Some AccessRead \<and> Write mem 5 [1] = (mem', Inl (Permission_denied 5)) \<and>
     perm_at mem' 5 = Some (AccessRead OR AccessModified)"
proof -
  let ?mem = "(memory_create True)\<lparr>pages := [(0, \<lparr>pg_tag = 0, pg_perm = AccessRead, pg_data = None\<rparr>)]\<rparr>"
  have "page_base 5 = (0 :: guest_addr)" by (simp add: word_unat_eq_iff unat_base)
  then have p: "perm_at ?mem 5 = Some AccessRead" by (simp add: perm_at_def getPage_base)
  have "AccessRead AND AccessWrite \<noteq> AccessWrite" by (simp add: AccessRead_def AccessWrite_def)
  then show ?thesis using guest_denied_write_marks [OF _ p, of 1] p by (auto simp: memory_create_def)
qed

end
