(* ===== verification/SpecMem.thy ===== *)
theory SpecMem
  imports GuestMemory
begin

text \<open>
  The speculative memory of \<open>src/memory/SpecMem.cc\<close>: a hash table of pages of 16 bytes that holds what a
  context writes while it runs speculatively, over the guest memory, which it only reads. At most 100
  pages are kept; a write that needs another one is ignored.

  The operations take the speculative memory and the guest memory it points to and return both, since a
  read changes the last address of the guest memory and its safe mode is switched off meanwhile.
\<close>

section \<open>State\<close>

definition SpecLogPageSize :: nat where "SpecLogPageSize = 4"

definition SpecPageSize :: guest_addr where "SpecPageSize = push_bit SpecLogPageSize 1"

definition SpecPageMask :: guest_addr where "SpecPageMask = NOT (SpecPageSize - 1)"

definition PageTableSize :: nat where "PageTableSize = 32"

definition MaxPages :: int where "MaxPages = 100"

record spec_page =
  sp_address :: guest_addr
  sp_data :: "byte list"

text \<open>A chain of pages is a list, the head first.\<close>

record spec_mem =
  num_pages :: int
  spec_pages :: "spec_page list list"

type_synonym 'a spec_res = "spec_mem \<times> memory \<times> (mem_error + 'a)"

definition spec_create :: spec_mem where
  "spec_create = \<lparr>num_pages = 0, spec_pages = replicate PageTableSize []\<rparr>"

definition spec_clear :: "spec_mem \<Rightarrow> spec_mem" where
  "spec_clear sm = sm\<lparr>num_pages := 0, spec_pages := map (\<lambda>_. []) (spec_pages sm)\<rparr>"

section \<open>Pages\<close>

definition spec_index :: "guest_addr \<Rightarrow> nat" where
  "spec_index address = unat (drop_bit SpecLogPageSize address) mod PageTableSize"

text \<open>The walk along a chain.\<close>

primrec chain_page :: "guest_addr \<Rightarrow> spec_page list \<Rightarrow> spec_page option" where
  "chain_page address [] = None"
| "chain_page address (p # ps) = (if sp_address p \<noteq> address then chain_page address ps else Some p)"

definition spec_getPage :: "spec_mem \<Rightarrow> guest_addr \<Rightarrow> spec_page option" where
  "spec_getPage sm address =
     (let address = address AND SpecPageMask
      in chain_page address (spec_pages sm ! spec_index address))"

text \<open>The contents of a new page are read from the guest memory in unsafe mode.\<close>

definition spec_newPage :: "spec_mem \<Rightarrow> memory \<Rightarrow> guest_addr \<Rightarrow> unit spec_res" where
  "spec_newPage sm mem address =
     (let address = address AND SpecPageMask;
          index = spec_index address;
          old_safe = safe mem
      in case Read (setSafe mem False) address (unat SpecPageSize) of
           (mem, Inl e) \<Rightarrow> (sm, mem, Inl e)
         | (mem, Inr d) \<Rightarrow>
             (sm\<lparr>spec_pages := (spec_pages sm)[index := \<lparr>sp_address = address, sp_data = d\<rparr> # spec_pages sm ! index],
                 num_pages := num_pages sm + 1\<rparr>,
              setSafe mem old_safe, Inr ()))"

text \<open>Changing the page of an address in place.\<close>

definition spec_at_page :: "spec_mem \<Rightarrow> guest_addr \<Rightarrow> (byte list \<Rightarrow> byte list) \<Rightarrow> spec_mem" where
  "spec_at_page sm address f =
     (let address = address AND SpecPageMask;
          index = spec_index address
      in sm\<lparr>spec_pages := (spec_pages sm)[index :=
           map (\<lambda>p. if sp_address p = address then p\<lparr>sp_data := f (sp_data p)\<rparr> else p) (spec_pages sm ! index)]\<rparr>)"

section \<open>Access\<close>

text \<open>The end of \<open>AccessAligned\<close>, when the page is there.\<close>

definition page_access :: "spec_mem \<Rightarrow> memory \<Rightarrow> guest_addr \<Rightarrow> byte list \<Rightarrow> 32 word \<Rightarrow> byte list spec_res" where
  "page_access sm mem address buffer access =
     (let offset = unat (address AND NOT SpecPageMask);
          sz = length buffer
      in if \<not> offset + sz \<le> unat SpecPageSize then (sm, mem, Inl (Mem_stop Assert))
         else if access = AccessRead
         then (sm, mem, Inr (take sz (drop offset (sp_data (the (spec_getPage sm address))))))
         else if access = AccessWrite
         then (spec_at_page sm address (\<lambda>d. take offset d @ buffer @ drop (offset + sz) d), mem, Inr buffer)
         else (sm, mem, Inl (Mem_stop Panic)))"

definition AccessAligned :: "spec_mem \<Rightarrow> memory \<Rightarrow> guest_addr \<Rightarrow> byte list \<Rightarrow> 32 word \<Rightarrow> byte list spec_res" where
  "AccessAligned sm mem address buffer access =
     (if spec_getPage sm address = None
      then
        if access = AccessRead
        then
          let old_safe = safe mem
          in case Read (setSafe mem False) address (length buffer) of
               (mem, Inl e) \<Rightarrow> (sm, mem, Inl e)
             | (mem, Inr bytes) \<Rightarrow> (sm, setSafe mem old_safe, Inr bytes)
        else if access = AccessWrite
        then
          if MaxPages \<le> num_pages sm then (sm, mem, Inr buffer)
          else
            case spec_newPage sm mem address of
              (sm, mem, Inl e) \<Rightarrow> (sm, mem, Inl e)
            | (sm, mem, Inr _) \<Rightarrow> page_access sm mem address buffer access
        else (sm, mem, Inl (Mem_stop Panic))
      else page_access sm mem address buffer access)"

function spec_access :: "spec_mem \<Rightarrow> memory \<Rightarrow> guest_addr \<Rightarrow> byte list \<Rightarrow> 32 word \<Rightarrow> byte list spec_res" where
  "spec_access sm mem address buffer access =
     (if buffer = [] then (sm, mem, Inr [])
      else
        let offset = unat (address AND (SpecPageSize - 1));
            chunksize = min (length buffer) (unat SpecPageSize - offset)
        in case AccessAligned sm mem address (take chunksize buffer) access of
             (sm, mem, Inl e) \<Rightarrow> (sm, mem, Inl e)
           | (sm, mem, Inr bytes) \<Rightarrow>
               (case spec_access sm mem (address + of_nat chunksize) (drop chunksize buffer) access of
                  (sm, mem, Inl e) \<Rightarrow> (sm, mem, Inl e)
                | (sm, mem, Inr rest) \<Rightarrow> (sm, mem, Inr (bytes @ rest))))"
  by pat_completeness auto

lemma spec_sizes [simp]: "unat SpecPageSize = 16" "SpecPageSize - 1 = mask 4" "SpecPageMask = NOT (mask 4)"
  "SpecLogPageSize = 4" "PageTableSize = 32" "MaxPages = 100"
proof -
  show "SpecLogPageSize = 4" "PageTableSize = 32" "MaxPages = 100"
    by (simp_all add: SpecLogPageSize_def PageTableSize_def MaxPages_def)
  show "unat SpecPageSize = 16" by (simp add: SpecPageSize_def SpecLogPageSize_def push_bit_eq_mult)
  show m: "SpecPageSize - 1 = mask 4" by (simp only: SpecPageSize_def SpecLogPageSize_def ones_mask)
  show "SpecPageMask = NOT (mask 4)" by (simp only: SpecPageMask_def m)
qed

abbreviation spec_base :: "guest_addr \<Rightarrow> guest_addr" where
  "spec_base a \<equiv> a AND NOT (mask 4)"

abbreviation spec_offset :: "guest_addr \<Rightarrow> nat" where
  "spec_offset a \<equiv> unat (a AND mask 4)"

abbreviation spec_chunk :: "guest_addr \<Rightarrow> nat \<Rightarrow> nat" where
  "spec_chunk a n \<equiv> min n (16 - spec_offset a)"

lemma spec_offset_less [simp]: "spec_offset a < 16"
  using offset_less [of a 4] by simp

lemma spec_chunk_pos: "0 < n \<Longrightarrow> 0 < spec_chunk a n"
  using spec_offset_less [of a] by (simp add: min_def)

termination spec_access
  by (relation "measure (\<lambda>(sm, mem, address, buffer, access). length buffer)") (auto simp: spec_chunk_pos intro!: diff_less)

declare spec_access.simps [simp del]

text \<open>The size is an \<open>int\<close>, and the buffer has that many bytes.\<close>

definition spec_read :: "spec_mem \<Rightarrow> memory \<Rightarrow> guest_addr \<Rightarrow> nat \<Rightarrow> byte list spec_res" where
  "spec_read sm mem address sz = spec_access sm mem address (replicate sz 0) AccessRead"

definition spec_write :: "spec_mem \<Rightarrow> memory \<Rightarrow> guest_addr \<Rightarrow> byte list \<Rightarrow> byte list spec_res" where
  "spec_write sm mem address buffer = spec_access sm mem address buffer AccessWrite"

section \<open>The view of the program\<close>

text \<open>A page is in the chain of its address, once, and its data has 16 bytes.\<close>

definition spec_ok :: "spec_mem \<Rightarrow> bool" where
  "spec_ok sm \<longleftrightarrow> length (spec_pages sm) = 32 \<and>
     (\<forall>i < 32. distinct (map sp_address (spec_pages sm ! i)) \<and>
       (\<forall>p \<in> set (spec_pages sm ! i). spec_base (sp_address p) = sp_address p \<and> spec_index (sp_address p) = i \<and>
          length (sp_data p) = 16)) \<and>
     num_pages sm = int (sum_list (map length (spec_pages sm))) \<and> num_pages sm \<le> 100"

text \<open>The byte that a speculative read sees.\<close>

definition spec_byte :: "spec_mem \<Rightarrow> memory \<Rightarrow> guest_addr \<Rightarrow> byte" where
  "spec_byte sm mem b = (case spec_getPage sm b of None \<Rightarrow> byte_at mem b | Some p \<Rightarrow> sp_data p ! spec_offset b)"

text \<open>The guest memory with nothing changed but the last address.\<close>

definition untouched :: "memory \<Rightarrow> memory \<Rightarrow> bool" where
  "untouched mem mem' \<longleftrightarrow> (\<exists>x. mem' = mem\<lparr>last_address := x\<rparr>)"

lemma untouchedD:
  assumes "untouched mem mem'"
  shows "getPage mem' = getPage mem" "byte_at mem' = byte_at mem" "perm_at mem' = perm_at mem" "safe mem' = safe mem"
    "mem_ok mem' = mem_ok mem" "heap_break mem' = heap_break mem" "pages mem' = pages mem"
  using assms by (auto simp: untouched_def)

lemma untouched_refl: "untouched mem mem"
  unfolding untouched_def by (rule exI [of _ "last_address mem"]) simp

lemma untouched_trans: "untouched mem mem1 \<Longrightarrow> untouched mem1 mem2 \<Longrightarrow> untouched mem mem2"
  by (auto simp: untouched_def)

lemma spec_byte_cong: "byte_at mem = byte_at mem' \<Longrightarrow> spec_byte sm mem = spec_byte sm mem'"
  by (rule ext) (simp only: spec_byte_def)

lemma spec_same_page: "spec_base a = spec_base b \<Longrightarrow> spec_getPage sm a = spec_getPage sm b"
  by (simp add: spec_getPage_def)

lemma spec_index_less [simp]: "spec_index a < 32"
  by (simp add: spec_index_def)

lemma chain_page_Some: "chain_page a ps = Some p \<Longrightarrow> p \<in> set ps \<and> sp_address p = a"
  by (induction ps) (auto split: if_splits)

lemma spec_getPage_ok:
  assumes "spec_ok sm" "spec_getPage sm a = Some p"
  shows "length (sp_data p) = 16" "sp_address p = spec_base a"
proof -
  have c: "p \<in> set (spec_pages sm ! spec_index (spec_base a)) \<and> sp_address p = spec_base a"
    using assms(2) by (intro chain_page_Some) (simp add: spec_getPage_def Let_def)
  then show "length (sp_data p) = 16" "sp_address p = spec_base a"
    using assms(1) spec_index_less [of "spec_base a"] unfolding spec_ok_def by blast+
qed

text \<open>A read of the guest memory in unsafe mode.\<close>

lemma unsafe_read:
  assumes "mem_ok mem"
  shows "\<exists>m. Read (setSafe mem False) a n = (m, Inr (bytes_from mem a n)) \<and> untouched mem (setSafe m (safe mem))"
proof -
  have "Read (setSafe mem False) a n = ((setSafe mem False)\<lparr>last_address := a\<rparr>, Inr (bytes_from mem a n))"
    using Read_spec [of "setSafe mem False" a n] reach_unsafe [of "setSafe mem False"] assms by (simp add: setSafe_def)
  moreover have "untouched mem (setSafe ((setSafe mem False)\<lparr>last_address := a\<rparr>) (safe mem))"
    unfolding untouched_def by (rule exI [of _ a]) (simp add: setSafe_def)
  ultimately show ?thesis by blast
qed

section \<open>New pages and pages written\<close>

lemma chain_page_None: "chain_page a ps = None \<longleftrightarrow> a \<notin> sp_address ` set ps"
  by (induction ps) auto

lemma chain_page_map:
  "chain_page c (map (\<lambda>p. if sp_address p = a then p\<lparr>sp_data := f (sp_data p)\<rparr> else p) ps) =
   map_option (\<lambda>p. if c = a then p\<lparr>sp_data := f (sp_data p)\<rparr> else p) (chain_page c ps)"
  by (induction ps) auto

lemma spec_newPage_spec:
  assumes "spec_ok sm" "mem_ok mem" "spec_getPage sm a = None" "num_pages sm < 100"
  shows "\<exists>sm' m. spec_newPage sm mem a = (sm', m, Inr ()) \<and> untouched mem m \<and> spec_ok sm' \<and> num_pages sm' = num_pages sm + 1 \<and>
    (\<forall>b. spec_getPage sm' b = (if spec_base b = spec_base a
       then Some \<lparr>sp_address = spec_base a, sp_data = bytes_from mem (spec_base a) 16\<rparr> else spec_getPage sm b))"
proof -
  let ?i = "spec_index (spec_base a)"
  let ?p = "\<lparr>sp_address = spec_base a, sp_data = bytes_from mem (spec_base a) 16\<rparr>"
  let ?sm = "sm\<lparr>spec_pages := (spec_pages sm)[?i := ?p # spec_pages sm ! ?i], num_pages := num_pages sm + 1\<rparr>"
  obtain m where m: "Read (setSafe mem False) (spec_base a) 16 = (m, Inr (bytes_from mem (spec_base a) 16))"
      "untouched mem (setSafe m (safe mem))"
    using unsafe_read [OF assms(2)] by blast
  have eq: "spec_newPage sm mem a = (?sm, setSafe m (safe mem), Inr ())"
    using m(1) by (simp add: spec_newPage_def Let_def)
  have len: "length (spec_pages sm) = 32" using assms(1) by (simp add: spec_ok_def)
  have new: "spec_base a \<notin> sp_address ` set (spec_pages sm ! ?i)"
    using assms(3) unfolding spec_getPage_def Let_def chain_page_None spec_sizes(3) .
  have get: "spec_getPage ?sm b = (if spec_base b = spec_base a then Some ?p else spec_getPage sm b)" for b
    using len by (auto simp: spec_getPage_def Let_def nth_list_update)
  have "num_pages ?sm = int (sum_list (map length (spec_pages ?sm)))"
    using assms(1) len by (simp add: spec_ok_def map_update sum_list_update)
  then have "spec_ok ?sm"
    using assms(1,4) new by (auto simp: spec_ok_def nth_list_update)
  then show ?thesis using eq m(2) get by (intro exI [of _ ?sm] exI [of _ "setSafe m (safe mem)"]) simp
qed

lemma spec_at_page_spec:
  assumes "spec_ok sm" "spec_getPage sm a = Some p" "\<And>d. length d = 16 \<Longrightarrow> length (f d) = (16 :: nat)"
  shows "spec_ok (spec_at_page sm a f)" "num_pages (spec_at_page sm a f) = num_pages sm"
    "spec_getPage (spec_at_page sm a f) b =
       (if spec_base b = spec_base a then Some (p\<lparr>sp_data := f (sp_data p)\<rparr>) else spec_getPage sm b)"
proof -
  let ?i = "spec_index (spec_base a)"
  let ?g = "\<lambda>p. if sp_address p = spec_base a then p\<lparr>sp_data := f (sp_data p)\<rparr> else p"
  have eq: "spec_at_page sm a f = sm\<lparr>spec_pages := (spec_pages sm)[?i := map ?g (spec_pages sm ! ?i)]\<rparr>"
    by (simp add: spec_at_page_def Let_def)
  have len: "length (spec_pages sm) = 32" using assms(1) by (simp add: spec_ok_def)
  have sum: "sum_list (map length ((spec_pages sm)[?i := map ?g (spec_pages sm ! ?i)])) = sum_list (map length (spec_pages sm))"
    using len by (simp add: map_update sum_list_update)
  have addr: "map sp_address (map ?g ps) = map sp_address ps" for ps by simp
  have elem: "\<exists>q' \<in> set ps. sp_address q = sp_address q' \<and> (length (sp_data q') = 16 \<longrightarrow> length (sp_data q) = 16)"
    if h: "q \<in> set (map ?g ps)" for q ps
  proof -
    obtain q' where "q' \<in> set ps" "q = ?g q'" using h by auto
    then show ?thesis using assms(3) by (intro bexI [of _ q']) auto
  qed
  show "num_pages (spec_at_page sm a f) = num_pages sm" by (simp add: eq)
  show "spec_getPage (spec_at_page sm a f) b =
       (if spec_base b = spec_base a then Some (p\<lparr>sp_data := f (sp_data p)\<rparr>) else spec_getPage sm b)"
    using assms(2) len by (auto simp: eq spec_getPage_def Let_def nth_list_update chain_page_map option.map_ident)
  have "distinct (map sp_address (spec_pages (spec_at_page sm a f) ! i)) \<and>
       (\<forall>p \<in> set (spec_pages (spec_at_page sm a f) ! i). spec_base (sp_address p) = sp_address p \<and>
          spec_index (sp_address p) = i \<and> length (sp_data p) = 16)" if "i < 32" for i
  proof (cases "i = ?i")
    case False
    then show ?thesis using assms(1) that by (simp add: spec_ok_def eq)
  next
    case True
    have e: "spec_pages (spec_at_page sm a f) ! i = map ?g (spec_pages sm ! i)" using True len by (simp add: eq)
    have old: "distinct (map sp_address (spec_pages sm ! i))"
      "\<forall>p \<in> set (spec_pages sm ! i). spec_base (sp_address p) = sp_address p \<and> spec_index (sp_address p) = i \<and> length (sp_data p) = 16"
      using assms(1) that unfolding spec_ok_def by blast+
    have "spec_base (sp_address q) = sp_address q \<and> spec_index (sp_address q) = i \<and> length (sp_data q) = 16"
      if q: "q \<in> set (map ?g (spec_pages sm ! i))" for q
    proof -
      obtain q' where "q' \<in> set (spec_pages sm ! i)" "sp_address q = sp_address q'"
          "length (sp_data q') = 16 \<longrightarrow> length (sp_data q) = 16"
        using elem [OF q] by blast
      then show ?thesis using old(2) by metis
    qed
    then show ?thesis unfolding e addr using old(1) by blast
  qed
  then show "spec_ok (spec_at_page sm a f)" using assms(1) sum len by (simp add: spec_ok_def eq)
qed

section \<open>An access within a page\<close>

lemma spec_chunk_fits: "spec_offset a + spec_chunk a n \<le> 16"
proof -
  have "k + min n (16 - k) \<le> 16" if "k < 16" for k :: nat using that by auto
  then show ?thesis by simp
qed

lemma spec_advance:
  assumes "spec_offset a + n \<le> 16" "i < n"
  shows "spec_base (a + of_nat i) = spec_base a" "spec_offset (a + of_nat i) = spec_offset a + i"
  using advance [of a 4 i] assms by simp_all

lemma in_spec_chunk:
  assumes "spec_offset a + n \<le> 16"
  shows "unat (b - a) < n \<longleftrightarrow> spec_base b = spec_base a \<and> spec_offset a \<le> spec_offset b \<and> spec_offset b < spec_offset a + n"
    "unat (b - a) < n \<Longrightarrow> unat (b - a) = spec_offset b - spec_offset a"
  using in_block [of a 4 n b] assms by simp_all

lemma base_offset_byte: "bytes_from mem (spec_base b) 16 ! spec_offset b = byte_at mem b"
  using base_plus_offset [of b 4] by simp

lemma page_read:
  assumes "spec_ok sm" "spec_offset a + length buf \<le> 16" "spec_getPage sm a = Some p"
  shows "page_access sm mem a buf AccessRead =
    (sm, mem, Inr (map (\<lambda>i. spec_byte sm mem (a + of_nat i)) [0..<length buf]))"
proof -
  have "spec_byte sm mem (a + of_nat i) = sp_data p ! (spec_offset a + i)" if "i < length buf" for i
    using spec_advance [OF assms(2) that] spec_same_page [of "a + of_nat i" a sm] assms(3) by (simp add: spec_byte_def)
  then have "map (\<lambda>i. spec_byte sm mem (a + of_nat i)) [0..<length buf] = take (length buf) (drop (spec_offset a) (sp_data p))"
    using spec_getPage_ok(1) [OF assms(1,3)] assms(2) by (intro nth_equalityI) simp_all
  then show ?thesis using assms(2,3) by (simp add: page_access_def Let_def)
qed

lemma aligned_read:
  assumes "spec_ok sm" "mem_ok mem" "spec_offset a + length buf \<le> 16"
  shows "\<exists>m. AccessAligned sm mem a buf AccessRead =
      (sm, m, Inr (map (\<lambda>i. spec_byte sm mem (a + of_nat i)) [0..<length buf])) \<and> untouched mem m"
proof (cases "spec_getPage sm a")
  case (Some p)
  then show ?thesis
    using page_read [OF assms(1,3) Some] untouched_refl by (auto simp: AccessAligned_def)
next
  case None
  obtain m where m: "Read (setSafe mem False) a (length buf) = (m, Inr (bytes_from mem a (length buf)))"
      "untouched mem (setSafe m (safe mem))"
    using unsafe_read [OF assms(2)] by blast
  have "spec_byte sm mem (a + of_nat i) = byte_at mem (a + of_nat i)" if "i < length buf" for i
    using spec_advance(1) [OF assms(3) that] spec_same_page [of "a + of_nat i" a sm] None by (simp add: spec_byte_def)
  then have "map (\<lambda>i. spec_byte sm mem (a + of_nat i)) [0..<length buf] = bytes_from mem a (length buf)" by simp
  then show ?thesis
    using None m by (intro exI [of _ "setSafe m (safe mem)"]) (simp add: AccessAligned_def Let_def)
qed

text \<open>What a write of \<open>bs\<close> from \<open>a\<close> does: the bytes of its range are stored, unless the limit of pages is
  reached and the byte is on a page that was not there; all other bytes are kept.\<close>

definition writes :: "memory \<Rightarrow> guest_addr \<Rightarrow> byte list \<Rightarrow> spec_mem \<Rightarrow> spec_mem \<Rightarrow> bool" where
  "writes mem a bs sm sm' \<longleftrightarrow> spec_ok sm' \<and> num_pages sm \<le> num_pages sm' \<and>
     (\<forall>b. spec_getPage sm b \<noteq> None \<longrightarrow> spec_getPage sm' b \<noteq> None) \<and>
     (\<forall>b. if unat (b - a) < length bs
       then spec_byte sm' mem b = bs ! unat (b - a) \<or>
         spec_byte sm' mem b = spec_byte sm mem b \<and> num_pages sm' = 100 \<and> spec_getPage sm b = None
       else spec_byte sm' mem b = spec_byte sm mem b)"

lemma page_write:
  assumes "spec_ok sm" "spec_offset a + length buf \<le> 16" "spec_getPage sm a = Some p"
  shows "\<exists>sm'. page_access sm mem a buf AccessWrite = (sm', mem, Inr buf) \<and> writes mem a buf sm sm'"
proof -
  define f where "f d = take (spec_offset a) d @ buf @ drop (spec_offset a + length buf) d" for d
  let ?sm = "spec_at_page sm a f"
  have f: "length (f d) = 16" if "length d = 16" for d using that assms(2) by (simp add: f_def)
  note sp = spec_at_page_spec [where f = f, OF assms(1,3) f]
  have len: "length (sp_data p) = 16" by (rule spec_getPage_ok(1) [OF assms(1,3)])
  have "spec_byte ?sm mem b = (if unat (b - a) < length buf then buf ! unat (b - a) else spec_byte sm mem b)" for b
  proof (cases "spec_base b = spec_base a")
    case True
    then have "spec_getPage sm b = Some p" using spec_same_page [of b a sm] assms(3) by simp
    moreover have "f (sp_data p) ! spec_offset b =
        (if spec_offset a \<le> spec_offset b \<and> spec_offset b < spec_offset a + length buf then buf ! (spec_offset b - spec_offset a)
         else sp_data p ! spec_offset b)"
      using len assms(2) spec_offset_less [of b] by (auto simp: f_def nth_append)
    ultimately show ?thesis
      using True sp(3) [of b] in_spec_chunk [OF assms(2), of b] by (auto simp: spec_byte_def)
  next
    case False
    then show ?thesis using sp(3) [of b] in_spec_chunk(1) [OF assms(2), of b] by (simp add: spec_byte_def)
  qed
  then have "writes mem a buf sm ?sm" using sp by (simp add: writes_def)
  moreover have "page_access sm mem a buf AccessWrite = (?sm, mem, Inr buf)"
    using assms(2) by (simp add: page_access_def Let_def f_def [abs_def])
  ultimately show ?thesis by blast
qed

lemma writes_bytes_cong:
  assumes "byte_at mem = byte_at mem'"
  shows "writes mem a bs sm sm' = writes mem' a bs sm sm'"
  unfolding writes_def spec_byte_cong [OF assms] ..

lemma aligned_write:
  assumes "spec_ok sm" "mem_ok mem" "spec_offset a + length buf \<le> 16"
  shows "\<exists>sm' m. AccessAligned sm mem a buf AccessWrite = (sm', m, Inr buf) \<and> untouched mem m \<and> writes mem a buf sm sm'"
proof (cases "spec_getPage sm a")
  case (Some p)
  then show ?thesis
    using page_write [OF assms(1,3) Some, of mem] untouched_refl [of mem] by (simp add: AccessAligned_def) blast
next
  case None
  show ?thesis
  proof (cases "100 \<le> num_pages sm")
    case True
    then have "num_pages sm = 100" using assms(1) by (simp add: spec_ok_def)
    moreover have "spec_getPage sm b = None" if "unat (b - a) < length buf" for b
      using in_spec_chunk(1) [OF assms(3)] that spec_same_page [of b a sm] None by simp
    ultimately have "writes mem a buf sm sm" using assms(1) by (simp add: writes_def)
    then show ?thesis using None True untouched_refl by (auto simp: AccessAligned_def)
  next
    case False
    then obtain sm1 m where n: "spec_newPage sm mem a = (sm1, m, Inr ())" "untouched mem m" "spec_ok sm1"
        "num_pages sm1 = num_pages sm + 1"
        "\<forall>b. spec_getPage sm1 b = (if spec_base b = spec_base a
           then Some \<lparr>sp_address = spec_base a, sp_data = bytes_from mem (spec_base a) 16\<rparr> else spec_getPage sm b)"
      using spec_newPage_spec [OF assms(1,2) None] by force
    have same: "spec_byte sm1 mem b = spec_byte sm mem b" for b
    proof (cases "spec_base b = spec_base a")
      case True
      then have "spec_getPage sm b = None" using spec_same_page [of b a sm] None by simp
      moreover have "spec_byte sm1 mem b = bytes_from mem (spec_base b) 16 ! spec_offset b"
        using n(5) [rule_format, of b] True by (simp add: spec_byte_def)
      ultimately show ?thesis unfolding base_offset_byte by (simp add: spec_byte_def)
    qed (use n(5) in \<open>simp add: spec_byte_def\<close>)
    obtain p where "spec_getPage sm1 a = Some p" using n(5) by simp
    then obtain sm' where w: "page_access sm1 m a buf AccessWrite = (sm', m, Inr buf)" "writes m a buf sm1 sm'"
      using page_write [OF n(3) assms(3)] by blast
    have w2: "writes mem a buf sm1 sm'" using w(2) writes_bytes_cong untouchedD(2) [OF n(2)] by metis
    have mono: "spec_getPage sm b \<noteq> None \<Longrightarrow> spec_getPage sm1 b \<noteq> None" for b using n(5) by simp
    have there: "spec_getPage sm1 b \<noteq> None" if "unat (b - a) < length buf" for b
      using in_spec_chunk(1) [OF assms(3), of b] that n(5) by simp
    note w3 = w2 [unfolded writes_def same]
    have "writes mem a buf sm sm'"
      unfolding writes_def
    proof (intro conjI allI impI)
      show "spec_ok sm'" "num_pages sm \<le> num_pages sm'" using w3 n(4) by linarith+
      show "spec_getPage sm' b \<noteq> None" if "spec_getPage sm b \<noteq> None" for b using w3 mono [OF that] by blast
      fix b
      have "if unat (b - a) < length buf
       then spec_byte sm' mem b = buf ! unat (b - a) \<or>
         spec_byte sm' mem b = spec_byte sm mem b \<and> num_pages sm' = 100 \<and> spec_getPage sm1 b = None
       else spec_byte sm' mem b = spec_byte sm mem b" using w3 by blast
      then show "if unat (b - a) < length buf
       then spec_byte sm' mem b = buf ! unat (b - a) \<or>
         spec_byte sm' mem b = spec_byte sm mem b \<and> num_pages sm' = 100 \<and> spec_getPage sm b = None
       else spec_byte sm' mem b = spec_byte sm mem b" using there [of b] by argo
    qed
    moreover have "AccessAligned sm mem a buf AccessWrite = (sm', m, Inr buf)"
      using None False n(1) w(1) by (simp add: AccessAligned_def)
    ultimately show ?thesis using n(2) by blast
  qed
qed

section \<open>Accesses of any size\<close>

lemma spec_access_chunk:
  assumes "buf \<noteq> []" "c = spec_chunk a (length buf)"
  shows "spec_access sm mem a buf access =
    (case AccessAligned sm mem a (take c buf) access of
       (sm, mem, Inl e) \<Rightarrow> (sm, mem, Inl e)
     | (sm, mem, Inr bytes) \<Rightarrow>
         (case spec_access sm mem (a + of_nat c) (drop c buf) access of
            (sm, mem, Inl e) \<Rightarrow> (sm, mem, Inl e)
          | (sm, mem, Inr rest) \<Rightarrow> (sm, mem, Inr (bytes @ rest))))"
  using assms by (subst spec_access.simps) (simp add: Let_def)

lemma spec_chunk_take:
  assumes "buf \<noteq> []" "c = spec_chunk a (length buf)"
  shows "spec_offset a + length (take c buf) \<le> 16" "length (take c buf) = c" "length (drop c buf) < length buf"
    "length buf = c + length (drop c buf)"
  using spec_chunk_fits [of a "length buf"] spec_chunk_pos [of "length buf" a] assms by simp_all

lemma spec_access_read:
  assumes "spec_ok sm" "mem_ok mem"
  shows "\<exists>m. spec_access sm mem a buf AccessRead =
      (sm, m, Inr (map (\<lambda>i. spec_byte sm mem (a + of_nat i)) [0..<length buf])) \<and> untouched mem m"
  using assms(2)
proof (induction "length buf" arbitrary: a buf mem rule: less_induct)
  case less
  show ?case
  proof (cases "buf = []")
    case True
    then show ?thesis using untouched_refl by (subst spec_access.simps) auto
  next
    case False
    define c where "c = spec_chunk a (length buf)"
    note t = spec_chunk_take [OF False c_def]
    obtain m where m: "AccessAligned sm mem a (take c buf) AccessRead =
        (sm, m, Inr (map (\<lambda>i. spec_byte sm mem (a + of_nat i)) [0..<c]))" "untouched mem m"
      using aligned_read [OF assms(1) less.prems t(1)] unfolding t(2) by blast
    have "mem_ok m" using less.prems untouchedD(5) [OF m(2)] by simp
    then obtain m2 where m2: "spec_access sm m (a + of_nat c) (drop c buf) AccessRead =
        (sm, m2, Inr (map (\<lambda>i. spec_byte sm m (a + of_nat c + of_nat i)) [0..<length (drop c buf)]))" "untouched m m2"
      using less.hyps [OF t(3)] by blast
    note e = spec_byte_cong [OF untouchedD(2) [OF m(2)], of sm]
    have "spec_access sm mem a buf AccessRead =
        (sm, m2, Inr (map (\<lambda>i. spec_byte sm mem (a + of_nat i)) [0..<length buf]))"
      unfolding spec_access_chunk [OF False c_def] m(1) prod.case sum.case m2(1) e t(4) map_upt_add of_nat_add add.assoc ..
    then show ?thesis using untouched_trans [OF m(2) m2(2)] by blast
  qed
qed

lemma writes_append:
  assumes "writes mem a bs sm sm1" "writes mem (a + of_nat (length bs)) cs sm1 sm2" "length bs + length cs \<le> 2 ^ 32"
  shows "writes mem a (bs @ cs) sm sm2"
  unfolding writes_def
proof (intro conjI allI)
  note w1 = assms(1) [unfolded writes_def] and w2 = assms(2) [unfolded writes_def]
  show "spec_ok sm2" using w2 by blast
  show "num_pages sm \<le> num_pages sm2" using w1 w2 by linarith
  show "spec_getPage sm b \<noteq> None \<longrightarrow> spec_getPage sm2 b \<noteq> None" for b using w1 w2 by blast
  fix b
  let ?d = "unat (b - a)" and ?e = "unat (b - (a + of_nat (length bs)))"
  have dist: "b - (a + of_nat (length bs)) = (b - a) - of_nat (length bs)" by (simp add: algebra_simps)
  have le: "length bs + length cs \<le> 2 ^ LENGTH(32)" using assms(3) by simp
  have e: "?e < length cs \<longleftrightarrow> length bs \<le> ?d \<and> ?d < length bs + length cs"
    unfolding dist by (rule word_dist(2) [OF le])
  have e2: "length bs \<le> ?d \<Longrightarrow> ?e = ?d - length bs" unfolding dist by (rule word_dist(1))
  have b1: "if ?d < length bs
       then spec_byte sm1 mem b = bs ! ?d \<or> spec_byte sm1 mem b = spec_byte sm mem b \<and> num_pages sm1 = 100 \<and> spec_getPage sm b = None
       else spec_byte sm1 mem b = spec_byte sm mem b" using w1 by blast
  have b2: "if ?e < length cs
       then spec_byte sm2 mem b = cs ! ?e \<or> spec_byte sm2 mem b = spec_byte sm1 mem b \<and> num_pages sm2 = 100 \<and> spec_getPage sm1 b = None
       else spec_byte sm2 mem b = spec_byte sm1 mem b" using w2 by blast
  have lim: "num_pages sm1 \<le> num_pages sm2" "num_pages sm2 \<le> 100" using w2 by (simp_all add: spec_ok_def)
  have mono: "spec_getPage sm1 b = None \<Longrightarrow> spec_getPage sm b = None" using w1 by blast
  consider "?d < length bs" | "length bs \<le> ?d" "?d < length bs + length cs" | "length bs + length cs \<le> ?d" by linarith
  then show "if ?d < length (bs @ cs)
       then spec_byte sm2 mem b = (bs @ cs) ! ?d \<or>
         spec_byte sm2 mem b = spec_byte sm mem b \<and> num_pages sm2 = 100 \<and> spec_getPage sm b = None
       else spec_byte sm2 mem b = spec_byte sm mem b"
  proof cases
    case 1
    then show ?thesis using b1 b2 e lim by (auto simp: nth_append)
  next
    case 2
    then show ?thesis using b1 b2 e e2 mono by (auto simp: nth_append)
  next
    case 3
    then show ?thesis using b1 b2 e by auto
  qed
qed

lemma spec_access_write:
  assumes "spec_ok sm" "mem_ok mem" "length buf \<le> 2 ^ 32"
  shows "\<exists>sm' m. spec_access sm mem a buf AccessWrite = (sm', m, Inr buf) \<and> untouched mem m \<and> writes mem a buf sm sm'"
  using assms
proof (induction "length buf" arbitrary: a buf mem sm rule: less_induct)
  case less
  show ?case
  proof (cases "buf = []")
    case True
    then have "writes mem a buf sm sm" using less.prems(1) by (simp add: writes_def)
    then show ?thesis using True untouched_refl by (subst spec_access.simps) auto
  next
    case False
    define c where "c = spec_chunk a (length buf)"
    note t = spec_chunk_take [OF False c_def]
    obtain sm1 m where m: "AccessAligned sm mem a (take c buf) AccessWrite = (sm1, m, Inr (take c buf))" "untouched mem m"
        "writes mem a (take c buf) sm sm1"
      using aligned_write [OF less.prems(1,2) t(1)] by blast
    have "mem_ok m" "spec_ok sm1" using less.prems(2) untouchedD(5) [OF m(2)] m(3) by (simp_all add: writes_def)
    moreover have "length (drop c buf) \<le> 2 ^ 32" using less.prems(3) by simp
    ultimately obtain sm2 m2 where m2: "spec_access sm1 m (a + of_nat c) (drop c buf) AccessWrite = (sm2, m2, Inr (drop c buf))"
        "untouched m m2" "writes m (a + of_nat c) (drop c buf) sm1 sm2"
      using less.hyps [OF t(3)] by blast
    have "writes mem (a + of_nat (length (take c buf))) (drop c buf) sm1 sm2"
      using m2(3) unfolding t(2) writes_bytes_cong [OF untouchedD(2) [OF m(2)]] .
    moreover have "length (take c buf) + length (drop c buf) \<le> 2 ^ 32" using t(2,4) less.prems(3) by linarith
    ultimately have "writes mem a (take c buf @ drop c buf) sm sm2" by (rule writes_append [OF m(3)])
    then have w: "writes mem a buf sm sm2" unfolding append_take_drop_id .
    have "spec_access sm mem a buf AccessWrite = (sm2, m2, Inr buf)"
      unfolding spec_access_chunk [OF False c_def] m(1) prod.case sum.case m2(1) append_take_drop_id ..
    then show ?thesis using untouched_trans [OF m(2) m2(2)] w by blast
  qed
qed

section \<open>Properties\<close>

lemma spec_create_ok: "spec_ok spec_create" "spec_byte spec_create mem = byte_at mem"
proof -
  have r: "replicate PageTableSize [] ! i = []" if "i < 32" for i :: nat using that by simp
  show "spec_ok spec_create" by (simp add: spec_ok_def spec_create_def sum_list_replicate)
  show "spec_byte spec_create mem = byte_at mem"
    by (rule ext) (simp add: spec_byte_def spec_getPage_def Let_def spec_create_def)
qed

lemma spec_clear_ok:
  assumes "spec_ok sm"
  shows "spec_ok (spec_clear sm)" "spec_byte (spec_clear sm) mem = byte_at mem"
proof -
  have len: "length (spec_pages sm) = 32" using assms by (simp add: spec_ok_def)
  have "sum_list (map (length \<circ> (\<lambda>_. [])) xs) = (0 :: nat)" for xs :: "spec_page list list" by (induction xs) simp_all
  then show "spec_ok (spec_clear sm)" using len by (simp add: spec_ok_def spec_clear_def)
  show "spec_byte (spec_clear sm) mem = byte_at mem"
    using len by (intro ext) (simp add: spec_byte_def spec_getPage_def Let_def spec_clear_def)
qed

text \<open>The states of a speculative memory and the guest memory it belongs to while the guest memory is
  written by nothing else.\<close>

inductive spec_reach :: "memory \<Rightarrow> spec_mem \<Rightarrow> memory \<Rightarrow> bool" for mem0 where
  spec_start: "spec_reach mem0 spec_create mem0"
| spec_reads: "spec_reach mem0 sm mem \<Longrightarrow> spec_read sm mem a n = (sm', mem', r) \<Longrightarrow> spec_reach mem0 sm' mem'"
| spec_writes: "spec_reach mem0 sm mem \<Longrightarrow> length bs \<le> 2 ^ 31 \<Longrightarrow> spec_write sm mem a bs = (sm', mem', r) \<Longrightarrow> spec_reach mem0 sm' mem'"
| spec_clears: "spec_reach mem0 sm mem \<Longrightarrow> spec_reach mem0 (spec_clear sm) mem"

lemma spec_reach_ok:
  assumes "spec_reach mem0 sm mem" "mem_ok mem0"
  shows "spec_ok sm \<and> mem_ok mem \<and> untouched mem0 mem"
  using assms(1)
proof (induction rule: spec_reach.induct)
  case spec_start
  then show ?case using spec_create_ok(1) assms(2) untouched_refl by blast
next
  case (spec_reads sm mem a n sm' mem' r)
  obtain m where "spec_read sm mem a n = (sm, m, Inr (map (\<lambda>i. spec_byte sm mem (a + of_nat i)) [0..<length (replicate n (0 :: byte))]))"
      "untouched mem m"
    using spec_access_read [of sm mem a "replicate n 0"] spec_reads.IH unfolding spec_read_def by blast
  then have "sm' = sm" "untouched mem mem'" using spec_reads.hyps(2) by auto
  then show ?case using spec_reads.IH untouchedD(5) [of mem mem'] untouched_trans by blast
next
  case (spec_writes sm mem bs a sm' mem' r)
  have "length bs \<le> 2 ^ 32" using spec_writes.hyps(2) by simp
  then obtain s m where "spec_write sm mem a bs = (s, m, Inr bs)" "untouched mem m" "writes mem a bs sm s"
    using spec_access_write [of sm mem bs a] spec_writes.IH unfolding spec_write_def by blast
  then have "spec_ok sm'" "untouched mem mem'" using spec_writes.hyps(3) by (auto simp: writes_def)
  then show ?case using spec_writes.IH untouchedD(5) [of mem mem'] untouched_trans by blast
next
  case (spec_clears sm mem)
  then show ?case using spec_clear_ok(1) by blast
qed

text \<open>C4: Whatever a context does speculatively, the guest memory keeps its pages, permissions, bytes and
  safe mode; no speculative access throws, also on pages that are missing or not permitted; and once the
  speculative memory is cleared, reads see the guest memory again.\<close>

theorem speculation_is_isolated:
  assumes "mem_reach mem0" "spec_reach mem0 sm mem"
  shows "pages mem = pages mem0 \<and> safe mem = safe mem0 \<and>
    (\<exists>m. spec_read sm mem a n = (sm, m, Inr (map (\<lambda>i. spec_byte sm mem (a + of_nat i)) [0..<n]))) \<and>
    (\<exists>m. spec_read (spec_clear sm) mem a n = (spec_clear sm, m, Inr (bytes_from mem0 a n)))"
proof -
  have ok: "spec_ok sm" "mem_ok mem" "untouched mem0 mem" using spec_reach_ok [OF assms(2) mem_reach_ok [OF assms(1)]] by simp_all
  note r = spec_access_read [OF _ ok(2), where a = a and buf = "replicate n 0", unfolded length_replicate]
  have "spec_byte (spec_clear sm) mem = byte_at mem0"
    using spec_clear_ok(2) [OF ok(1)] untouchedD(2) [OF ok(3)] by simp
  then have "\<exists>m. spec_read (spec_clear sm) mem a n = (spec_clear sm, m, Inr (bytes_from mem0 a n))"
    using r [OF spec_clear_ok(1) [OF ok(1)]] unfolding spec_read_def by auto
  then show ?thesis using r [OF ok(1)] untouchedD(4,7) [OF ok(3)] unfolding spec_read_def by blast
qed

theorem speculation_is_isolated_witness:
  "\<exists>m. spec_read (spec_clear spec_create) (memory_create True) 0xffffffff 3 =
     (spec_clear spec_create, m, Inr (bytes_from (memory_create True) 0xffffffff 3))"
  using speculation_is_isolated [OF reach_create [of True] spec_start] by blast

text \<open>C5: A speculative write returns and stores its bytes over the guest memory: a later speculative read
  sees them and sees the bytes as before everywhere else. When the 100 pages are used up, a byte may
  keep its value instead, and only if it is on a page that was not there.\<close>

theorem speculative_write_read:
  assumes "mem_reach mem0" "spec_reach mem0 sm mem" "length bs \<le> 2 ^ 31"
  shows "\<exists>sm' mem'. spec_write sm mem a bs = (sm', mem', Inr bs) \<and> spec_reach mem0 sm' mem' \<and>
    (\<forall>b n. \<exists>m. spec_read sm' mem' b n = (sm', m, Inr (map (\<lambda>i. spec_byte sm' mem (b + of_nat i)) [0..<n]))) \<and>
    (\<forall>b. if unat (b - a) < length bs
       then spec_byte sm' mem b = bs ! unat (b - a) \<or>
         spec_byte sm' mem b = spec_byte sm mem b \<and> num_pages sm' = 100 \<and> spec_getPage sm b = None
       else spec_byte sm' mem b = spec_byte sm mem b)"
proof -
  have ok: "spec_ok sm" "mem_ok mem" "untouched mem0 mem" using spec_reach_ok [OF assms(2) mem_reach_ok [OF assms(1)]] by simp_all
  have "length bs \<le> 2 ^ 32" using assms(3) by simp
  then obtain sm' m where w: "spec_write sm mem a bs = (sm', m, Inr bs)" "untouched mem m" "writes mem a bs sm sm'"
    using spec_access_write [OF ok(1,2)] unfolding spec_write_def by blast
  have ok': "spec_ok sm'" "mem_ok m" using w(3) untouchedD(5) [OF w(2)] ok(2) by (simp_all add: writes_def)
  have "\<exists>m'. spec_read sm' m b n = (sm', m', Inr (map (\<lambda>i. spec_byte sm' mem (b + of_nat i)) [0..<n]))" for b n
    using spec_access_read [OF ok', of b "replicate n 0"] spec_byte_cong [OF untouchedD(2) [OF w(2)]]
    unfolding spec_read_def length_replicate by auto
  moreover have "spec_reach mem0 sm' m" using spec_reach.spec_writes [OF assms(2,3) w(1)] .
  ultimately show ?thesis
    using w(1) w(3) [unfolded writes_def] by (intro exI [of _ sm'] exI [of _ m]) blast
qed

theorem speculative_write_read_witness:
  "\<exists>sm' mem'. spec_write spec_create (memory_create True) 0xffffffff [1, 2] = (sm', mem', Inr [1, 2])"
proof -
  have "length [1 :: byte, 2] \<le> 2 ^ 31" by simp
  then show ?thesis using speculative_write_read [OF reach_create [of True] spec_start] by blast
qed

end
