(* ===== verification/Recency.thy ===== *)
theory Recency
  imports Main
begin

text \<open>
  Lists in order of use, the most recent element first: moving an element to the front. Shared by
  the intrusive list, the replacement orders of the caches and the branch target buffer.
\<close>

definition to_front :: "'a \<Rightarrow> 'a list \<Rightarrow> 'a list" where
  "to_front a ps = a # remove1 a ps"

lemma remove1_nth: "distinct ps \<Longrightarrow> i < length ps \<Longrightarrow> remove1 (ps ! i) ps = take i ps @ drop (Suc i) ps"
  by (induction ps arbitrary: i) (auto simp: nth_Cons' less_Suc_eq_0_disj)

lemma to_front_map:
  assumes "inj f"
  shows "to_front (f x) (map f xs) = map f (to_front x xs)"
proof -
  have "remove1 (f x) (map f xs) = map f (remove1 x xs)" by (induction xs) (simp_all add: inj_eq [OF assms])
  then show ?thesis by (simp add: to_front_def)
qed

lemma set_to_front: "x \<in> set xs \<Longrightarrow> distinct xs \<Longrightarrow> set (to_front x xs) = set xs"
  by (auto simp: to_front_def)

end
