(* ===== verification/IntrusiveList.thy ===== *)
theory IntrusiveList
  imports Linked_Pointers Recency
begin

text \<open>
  The doubly linked list of \<open>src/lib/cpp/List.h\<close>, whose nodes are allocated inside the objects
  they link. The nodes live in a memory that maps addresses to nodes and may hold the nodes of
  several lists; every \<open>->\<close> of the code is a read or a write of it. The pointer of a node to its
  list is the identity \<open>il_id\<close> of the list. An iterator is a pointer to a node.

  \<open>ilist_rep\<close> relates the pointers to the list of node addresses. The \<open>prev\<close> pointer of the first
  node is left out of it: the code never resets the pointers of a node that it removes, so a node
  that is moved to the front keeps an old one. The same holds for the \<open>next\<close> pointer of a node that
  is removed and pushed to the back, and there it matters.
\<close>

section \<open>Data\<close>

record 'a inode =
  in_prev :: "nat ptr"
  in_next :: "nat ptr"
  in_list :: "nat ptr"
  in_data :: 'a

record ilist =
  il_id :: nat
  il_head :: "nat ptr"
  il_tail :: "nat ptr"
  il_size :: int

definition new_node :: "'a \<Rightarrow> 'a inode" where
  "new_node d = \<lparr>in_prev = NULL, in_next = NULL, in_list = NULL, in_data = d\<rparr>"

definition new_list :: "nat \<Rightarrow> ilist" where
  "new_list i = \<lparr>il_id = i, il_head = NULL, il_tail = NULL, il_size = 0\<rparr>"

section \<open>Iterators\<close>

definition iter_begin :: "ilist \<Rightarrow> nat ptr" where
  "iter_begin l = il_head l"

definition iter_end :: "ilist \<Rightarrow> nat ptr" where
  "iter_end l = NULL"

definition iter_incr :: "'a inode memory \<Rightarrow> nat ptr \<Rightarrow> nat ptr run" where
  "iter_incr mem it = (if it = NULL then Inl Assert else andthen (node_at mem it) (\<lambda>n. Inr (in_next n)))"

definition iter_decr :: "'a inode memory \<Rightarrow> nat ptr \<Rightarrow> nat ptr run" where
  "iter_decr mem it = (if it = NULL then Inl Assert else andthen (node_at mem it) (\<lambda>n. Inr (in_prev n)))"

definition iter_deref :: "'a inode memory \<Rightarrow> nat ptr \<Rightarrow> 'a run" where
  "iter_deref mem it = (if it = NULL then Inl Assert else andthen (node_at mem it) (\<lambda>n. Inr (in_data n)))"

text \<open>The range-based loop \<open>for (T *data : list)\<close> that the class is made for: \<open>acc\<close> is the data
  visited so far.\<close>

partial_function (option) range_loop :: "'a inode memory \<Rightarrow> ilist \<Rightarrow> nat ptr \<Rightarrow> 'a list \<Rightarrow> 'a list run option" where
  "range_loop mem l it acc =
     (if it = iter_end l then ret acc
      else case andthen (iter_deref mem it) (\<lambda>d. andthen (iter_incr mem it) (\<lambda>it'. Inr (d, it'))) of
             Inl e \<Rightarrow> stops e
           | Inr (d, it') \<Rightarrow> range_loop mem l it' (acc @ [d]))"

section \<open>Operations\<close>

definition getSize :: "ilist \<Rightarrow> int" where
  "getSize l = il_size l"

definition Front :: "'a inode memory \<Rightarrow> ilist \<Rightarrow> 'a ptr run" where
  "Front mem l = (if il_head l = NULL then Inr NULL else andthen (node_at mem (il_head l)) (\<lambda>n. Inr (Some (in_data n))))"

definition Back :: "'a inode memory \<Rightarrow> ilist \<Rightarrow> 'a ptr run" where
  "Back mem l = (if il_tail l = NULL then Inr NULL else andthen (node_at mem (il_tail l)) (\<lambda>n. Inr (Some (in_data n))))"

text \<open>The linking of the node at \<open>a\<close>: the new memory, head and tail.\<close>

definition link_node :: "'a inode memory \<Rightarrow> ilist \<Rightarrow> nat ptr \<Rightarrow> nat \<Rightarrow> ('a inode memory \<times> nat ptr \<times> nat ptr) run" where
  "link_node mem l position a =
     (let nd = Some a
      in if il_size l = 0 then Inr (mem, nd, nd)
         else if position = iter_begin l
         then andthen (node_put mem nd (\<lambda>n. n\<lparr>in_next := il_head l\<rparr>)) (\<lambda>mem.
              andthen (node_put mem (il_head l) (\<lambda>n. n\<lparr>in_prev := nd\<rparr>)) (\<lambda>mem.
              Inr (mem, nd, il_tail l)))
         else if position = iter_end l
         then andthen (node_put mem nd (\<lambda>n. n\<lparr>in_prev := il_tail l\<rparr>)) (\<lambda>mem.
              andthen (node_put mem (il_tail l) (\<lambda>n. n\<lparr>in_next := nd\<rparr>)) (\<lambda>mem.
              Inr (mem, il_head l, nd)))
         else
           andthen (node_at mem position) (\<lambda>p.
           andthen (node_put mem nd (\<lambda>n. n\<lparr>in_prev := in_prev p\<rparr>)) (\<lambda>mem.
           andthen (node_put mem nd (\<lambda>n. n\<lparr>in_next := position\<rparr>)) (\<lambda>mem.
           andthen (node_put mem position (\<lambda>n. n\<lparr>in_prev := nd\<rparr>)) (\<lambda>mem.
           andthen (node_at mem nd) (\<lambda>n.
           andthen (node_put mem (in_prev n) (\<lambda>n. n\<lparr>in_next := nd\<rparr>)) (\<lambda>mem.
           Inr (mem, il_head l, il_tail l))))))))"

definition Insert :: "'a inode memory \<Rightarrow> ilist \<Rightarrow> nat ptr \<Rightarrow> nat \<Rightarrow> ('a inode memory \<times> ilist \<times> nat ptr) run" where
  "Insert mem l position a =
     andthen (node_at mem (Some a)) (\<lambda>n.
     if in_list n \<noteq> NULL then Inl Assert
     else
       andthen (link_node mem l position a) (\<lambda>(mem, head, tail).
       andthen (node_put mem (Some a) (\<lambda>n. n\<lparr>in_list := Some (il_id l)\<rparr>)) (\<lambda>mem.
       Inr (mem, l\<lparr>il_head := head, il_tail := tail, il_size := il_size l + 1\<rparr>, Some a))))"

definition PushBack :: "'a inode memory \<Rightarrow> ilist \<Rightarrow> nat \<Rightarrow> ('a inode memory \<times> ilist \<times> nat ptr) run" where
  "PushBack mem l a = Insert mem l (iter_end l) a"

definition PushFront :: "'a inode memory \<Rightarrow> ilist \<Rightarrow> nat \<Rightarrow> ('a inode memory \<times> ilist \<times> nat ptr) run" where
  "PushFront mem l a = Insert mem l (iter_begin l) a"

text \<open>The unlinking of the node \<open>n\<close> at \<open>position\<close>.\<close>

definition unlink_node :: "'a inode memory \<Rightarrow> ilist \<Rightarrow> nat ptr \<Rightarrow> 'a inode \<Rightarrow> ('a inode memory \<times> nat ptr \<times> nat ptr) run" where
  "unlink_node mem l position n =
     (if il_size l = 1
      then if il_head l \<noteq> position \<or> il_tail l \<noteq> position then Inl Assert else Inr (mem, NULL, NULL)
      else if position = il_head l
      then andthen (node_put mem (in_next n) (\<lambda>m. m\<lparr>in_prev := NULL\<rparr>)) (\<lambda>mem.
           Inr (mem, in_next n, il_tail l))
      else if position = il_tail l
      then andthen (node_put mem (in_prev n) (\<lambda>m. m\<lparr>in_next := NULL\<rparr>)) (\<lambda>mem.
           Inr (mem, il_head l, in_prev n))
      else
        andthen (node_put mem (in_prev n) (\<lambda>m. m\<lparr>in_next := in_next n\<rparr>)) (\<lambda>mem.
        andthen (node_put mem (in_next n) (\<lambda>m. m\<lparr>in_prev := in_prev n\<rparr>)) (\<lambda>mem.
        Inr (mem, il_head l, il_tail l))))"

definition Erase :: "'a inode memory \<Rightarrow> ilist \<Rightarrow> nat ptr \<Rightarrow> ('a inode memory \<times> ilist \<times> nat ptr) run" where
  "Erase mem l position =
     (if \<not> 0 < il_size l \<or> position = NULL then Inl Assert
      else
        andthen (node_at mem position) (\<lambda>n.
        if in_list n \<noteq> Some (il_id l) then Inl Assert
        else
          andthen (unlink_node mem l position n) (\<lambda>(mem, head, tail).
          andthen (node_put mem position (\<lambda>m. m\<lparr>in_list := NULL\<rparr>)) (\<lambda>mem.
          andthen (node_at mem position) (\<lambda>n.
          Inr (mem, l\<lparr>il_head := head, il_tail := tail, il_size := il_size l - 1\<rparr>, in_next n))))))"

section \<open>Representation\<close>

text \<open>The node of position \<open>i\<close>.\<close>

definition linked :: "nat \<Rightarrow> nat list \<Rightarrow> nat \<Rightarrow> 'a inode \<Rightarrow> bool" where
  "linked i ps j n \<longleftrightarrow> in_list n = Some i \<and> in_next n = at ps (j + 1) \<and> (0 < j \<longrightarrow> in_prev n = before ps j)"

definition ilist_rep :: "'a inode memory \<Rightarrow> ilist \<Rightarrow> nat list \<Rightarrow> bool" where
  "ilist_rep mem l ps \<longleftrightarrow>
     distinct ps \<and> il_size l = int (length ps) \<and> il_head l = at ps 0 \<and> il_tail l = before ps (length ps) \<and>
     (\<forall>j < length ps. \<exists>n. mem (ps ! j) = Some n \<and> linked (il_id l) ps j n) \<and>
     (\<forall>p n. mem p = Some n \<longrightarrow> in_list n = Some (il_id l) \<longrightarrow> p \<in> set ps)"

lemma ilist_repD:
  assumes "ilist_rep mem l ps"
  shows "distinct ps" "il_size l = int (length ps)" "il_head l = at ps 0" "il_tail l = before ps (length ps)"
    "\<And>j. j < length ps \<Longrightarrow> \<exists>n. mem (ps ! j) = Some n \<and> linked (il_id l) ps j n"
    "\<And>p n. mem p = Some n \<Longrightarrow> in_list n = Some (il_id l) \<Longrightarrow> p \<in> set ps"
  using assms by (auto simp: ilist_rep_def)

lemma ilist_owner:
  assumes "ilist_rep mem l ps" "p \<in> set ps" "mem p = Some n"
  shows "in_list n = Some (il_id l)"
proof -
  obtain j where "j < length ps" "p = ps ! j" using assms(2) by (auto simp: in_set_conv_nth)
  then show ?thesis using ilist_repD(5) [OF assms(1), of j] assms(3) by (auto simp: linked_def)
qed

text \<open>What an operation on a list leaves of the memory: the nodes in use, their data and every node
  that it was not about.\<close>

definition same_nodes :: "nat set \<Rightarrow> 'a inode memory \<Rightarrow> 'a inode memory \<Rightarrow> bool" where
  "same_nodes A mem mem' \<longleftrightarrow>
     (\<forall>q. map_option in_data (mem' q) = map_option in_data (mem q)) \<and> (\<forall>q. q \<notin> A \<longrightarrow> mem' q = mem q)"

lemma same_nodes_refl [simp]: "same_nodes A mem mem"
  by (simp add: same_nodes_def)

lemma same_nodes_trans: "same_nodes A mem mem1 \<Longrightarrow> same_nodes B mem1 mem2 \<Longrightarrow> same_nodes (A \<union> B) mem mem2"
  by (auto simp: same_nodes_def)

lemma same_nodes_put:
  "mem a = Some n \<Longrightarrow> in_data n' = in_data n \<Longrightarrow> a \<in> A \<Longrightarrow> same_nodes A mem (mem(a \<mapsto> n'))"
  by (auto simp: same_nodes_def)

lemma same_nodes_put_after:
  assumes "same_nodes A mem mem1" "mem1 a = Some n" "in_data n' = in_data n" "a \<in> A"
  shows "same_nodes A mem (mem1(a \<mapsto> n'))"
  using same_nodes_trans [OF assms(1) same_nodes_put, of a n n' A] assms(2-4) by simp

text \<open>Removing position \<open>i\<close>: any memory in which the neighbours are linked with each other and the
  other nodes are as before represents the rest of the list.\<close>

lemma rep_remove:
  assumes r: "ilist_rep mem l ps" and i: "i < length ps"
    and kept: "\<And>j. j < length ps \<Longrightarrow> j \<noteq> i \<Longrightarrow> \<exists>n. mem' (ps ! j) = Some n \<and> in_list n = Some (il_id l) \<and>
        in_next n = (if j + 1 = i then at ps (i + 1) else at ps (j + 1)) \<and>
        (0 < j \<and> (i = 0 \<longrightarrow> j \<noteq> 1) \<longrightarrow> in_prev n = (if j = i + 1 then before ps i else before ps j))"
    and gone: "\<exists>n. mem' (ps ! i) = Some n \<and> in_list n = NULL"
    and frame: "\<And>q. q \<notin> set ps \<Longrightarrow> mem' q = mem q"
    and l': "il_id l' = il_id l" "il_size l' = il_size l - 1" "il_head l' = at (take i ps @ drop (Suc i) ps) 0"
      "il_tail l' = before (take i ps @ drop (Suc i) ps) (length ps - 1)"
  shows "ilist_rep mem' l' (take i ps @ drop (Suc i) ps)"
proof -
  note D = ilist_repD [OF r]
  let ?ps = "take i ps @ drop (Suc i) ps"
  have node: "\<exists>n. mem' (?ps ! j) = Some n \<and> linked (il_id l') ?ps j n" if j: "j < length ?ps" for j
  proof (cases "j < i")
    case True
    then have e: "?ps ! j = ps ! j" "j < length ps" "j \<noteq> i" using i by (simp_all add: nth_append)
    obtain n where "mem' (ps ! j) = Some n" "in_list n = Some (il_id l)"
        "in_next n = (if j + 1 = i then at ps (i + 1) else at ps (j + 1))"
        "0 < j \<longrightarrow> in_prev n = before ps j"
      using kept [OF e(2,3)] True by auto
    then show ?thesis
      using e(1) True i l'(1) by (cases "j + 1 = i") (auto simp: linked_def at_remove before_remove simp del: at_simps)
  next
    case False
    then have e: "?ps ! j = ps ! (j + 1)" "j + 1 < length ps" "j + 1 \<noteq> i" using i j by (simp_all add: nth_append)
    obtain n where "mem' (ps ! (j + 1)) = Some n" "in_list n = Some (il_id l)" "in_next n = at ps (j + 2)"
        "0 < j \<longrightarrow> in_prev n = (if j = i then before ps i else before ps (j + 1))"
      using kept [OF e(2,3)] False by auto
    then show ?thesis
      using e(1) False i j l'(1) by (auto simp: linked_def at_remove before_remove)
  qed
  have "p \<in> set ?ps" if "mem' p = Some n" "in_list n = Some (il_id l')" for p n
  proof -
    have "p \<in> set ps" using that D(6) frame l'(1) by (metis)
    moreover have "p \<noteq> ps ! i" using that gone by auto
    ultimately show ?thesis using set_remove_at [OF D(1) i] by simp
  qed
  then show ?thesis
    using node distinct_remove_at [OF D(1)] l'(2-4) D(2) i unfolding ilist_rep_def by auto
qed

lemma unlink_node_rep:
  assumes r: "ilist_rep mem l ps" and i: "i < length ps" and n: "mem (ps ! i) = Some n" "linked (il_id l) ps i n"
  shows "\<exists>mem'. unlink_node mem l (Some (ps ! i)) n =
      Inr (mem', at (take i ps @ drop (Suc i) ps) 0, before (take i ps @ drop (Suc i) ps) (length ps - 1)) \<and>
    same_nodes (set ps) mem mem' \<and> mem' (ps ! i) = Some n \<and>
    (\<forall>j < length ps. j \<noteq> i \<longrightarrow> (\<exists>n. mem' (ps ! j) = Some n \<and> in_list n = Some (il_id l) \<and>
      in_next n = (if j + 1 = i then at ps (i + 1) else at ps (j + 1)) \<and>
      (0 < j \<and> (i = 0 \<longrightarrow> j \<noteq> 1) \<longrightarrow> in_prev n = (if j = i + 1 then before ps i else before ps j))))"
proof -
  note D = ilist_repD [OF r]
  have node: "\<exists>n. mem (ps ! j) = Some n \<and> in_list n = Some (il_id l) \<and> in_next n = at ps (j + 1) \<and>
      (0 < j \<longrightarrow> in_prev n = before ps j)" if "j < length ps" for j
    using D(5) [OF that] by (auto simp: linked_def)
  have inj: "ps ! j = ps ! k \<longleftrightarrow> j = k" if "j < length ps" "k < length ps" for j k
    using that D(1) by (simp add: nth_eq_iff_index_eq)
  have nx: "in_next n = at ps (i + 1)" "0 < i \<longrightarrow> in_prev n = before ps i" using n(2) by (simp_all add: linked_def)
  have ne0: "0 < length ps" using i by linarith
  have hd: "il_head l = Some (ps ! i) \<longleftrightarrow> i = 0"
    using D(3) inj [OF ne0 i] ne0 by auto
  have tl: "il_tail l = Some (ps ! i) \<longleftrightarrow> i + 1 = length ps"
    using D(4) inj [OF _ i, of "length ps - 1"] ne0 by (auto simp: before_def)
  consider (one) "length ps = 1" | (first) "length ps \<noteq> 1" "i = 0" | (last) "length ps \<noteq> 1" "i \<noteq> 0" "i + 1 = length ps"
    | (mid) "i \<noteq> 0" "i + 1 < length ps"
    using i by linarith
  then show ?thesis
  proof cases
    case one
    then show ?thesis using i n(1) hd tl D(2) by (auto simp: unlink_node_def at_def before_def intro!: exI [of _ mem])
  next
    case first
    then have l1: "1 < length ps" using ne0 by linarith
    obtain m where m: "mem (ps ! 1) = Some m" "in_list m = Some (il_id l)" "in_next m = at ps 2"
      using node [OF l1] by (auto simp: numeral_2_eq_2)
    let ?mem = "mem(ps ! 1 \<mapsto> m\<lparr>in_prev := NULL\<rparr>)"
    have "unlink_node mem l (Some (ps ! i)) n = Inr (?mem, at ps 1, il_tail l)"
      using first l1 hd D(2) nx m(1) by (simp add: unlink_node_def)
    moreover have "at (take i ps @ drop (Suc i) ps) 0 = at ps 1" using first l1 by (simp add: at_def)
    moreover have "before (take i ps @ drop (Suc i) ps) (length ps - 1) = il_tail l"
      using first l1 D(4) before_remove_last [OF i] by simp
    moreover have "same_nodes (set ps) mem ?mem" using m(1) l1 by (intro same_nodes_put) auto
    moreover have "?mem (ps ! i) = Some n" using first n(1) inj [OF l1 ne0] by auto
    moreover have "\<exists>n. ?mem (ps ! j) = Some n \<and> in_list n = Some (il_id l) \<and>
        in_next n = (if j + 1 = i then at ps (i + 1) else at ps (j + 1)) \<and>
        (0 < j \<and> (i = 0 \<longrightarrow> j \<noteq> 1) \<longrightarrow> in_prev n = (if j = i + 1 then before ps i else before ps j))"
      if j: "j < length ps" "j \<noteq> i" for j
      using first node [OF j(1)] m inj [OF j(1) l1] j by (cases "j = 1") (auto simp: numeral_2_eq_2)
    ultimately show ?thesis by auto
  next
    case last
    then have l1: "i - 1 < length ps" "i - 1 + 1 = i" using i by simp_all
    obtain m where m: "mem (ps ! (i - 1)) = Some m" "in_list m = Some (il_id l)" "0 < i - 1 \<longrightarrow> in_prev m = before ps (i - 1)"
      using node [OF l1(1)] by auto
    let ?mem = "mem(ps ! (i - 1) \<mapsto> m\<lparr>in_next := NULL\<rparr>)"
    have pr: "in_prev n = Some (ps ! (i - 1))" using nx(2) last by (simp add: before_def)
    have "unlink_node mem l (Some (ps ! i)) n = Inr (?mem, il_head l, Some (ps ! (i - 1)))"
      using last hd tl D(2) pr m(1) by (auto simp: unlink_node_def)
    moreover have "at (take i ps @ drop (Suc i) ps) 0 = il_head l" using last D(3) at_remove [OF i, of 0] by simp
    moreover have "before (take i ps @ drop (Suc i) ps) (length ps - 1) = Some (ps ! (i - 1))"
      using last before_remove_last [OF i] by (simp add: before_def)
    moreover have "same_nodes (set ps) mem ?mem" using m(1) l1 by (intro same_nodes_put) auto
    moreover have "?mem (ps ! i) = Some n" using last l1 n(1) inj [of "i - 1" i] i by simp
    moreover have "\<exists>n. ?mem (ps ! j) = Some n \<and> in_list n = Some (il_id l) \<and>
        in_next n = (if j + 1 = i then at ps (i + 1) else at ps (j + 1)) \<and>
        (0 < j \<and> (i = 0 \<longrightarrow> j \<noteq> 1) \<longrightarrow> in_prev n = (if j = i + 1 then before ps i else before ps j))"
      if j: "j < length ps" "j \<noteq> i" for j
      using last node [OF j(1)] m inj [OF j(1) l1(1)] j by (cases "j = i - 1") (auto simp: at_def)
    ultimately show ?thesis by auto
  next
    case mid
    then have l1: "i - 1 < length ps" "i - 1 + 1 = i" using i by simp_all
    obtain m where m: "mem (ps ! (i - 1)) = Some m" "in_list m = Some (il_id l)" "0 < i - 1 \<longrightarrow> in_prev m = before ps (i - 1)"
      using node [OF l1(1)] by auto
    obtain k where k: "mem (ps ! (i + 1)) = Some k" "in_list k = Some (il_id l)" "in_next k = at ps (i + 2)"
      using node [OF mid(2)] by auto
    let ?mem = "(mem(ps ! (i - 1) \<mapsto> m\<lparr>in_next := in_next n\<rparr>))(ps ! (i + 1) \<mapsto> k\<lparr>in_prev := in_prev n\<rparr>)"
    have pr: "in_prev n = Some (ps ! (i - 1))" "in_next n = Some (ps ! (i + 1))" using nx mid by (simp_all add: before_def)
    have ne: "ps ! (i - 1) \<noteq> ps ! (i + 1)" "ps ! i \<noteq> ps ! (i + 1)" "ps ! i \<noteq> ps ! (i - 1)"
      using inj [OF l1(1) mid(2)] inj [OF i mid(2)] inj [OF i l1(1)] mid(1) by simp_all
    have "unlink_node mem l (Some (ps ! i)) n = Inr (?mem, il_head l, il_tail l)"
      using mid hd tl D(2) pr m(1) k(1) ne by (auto simp: unlink_node_def)
    moreover have "at (take i ps @ drop (Suc i) ps) 0 = il_head l" using mid D(3) at_remove [OF i, of 0] by simp
    moreover have "before (take i ps @ drop (Suc i) ps) (length ps - 1) = il_tail l"
      using mid i D(4) before_remove_last [OF i] by simp
    moreover have "same_nodes (set ps) mem ?mem"
      using m(1) k(1) l1 mid ne by (intro same_nodes_put_after [OF same_nodes_put]) auto
    moreover have "?mem (ps ! i) = Some n" using ne n(1) by simp
    moreover have "\<exists>n. ?mem (ps ! j) = Some n \<and> in_list n = Some (il_id l) \<and>
        in_next n = (if j + 1 = i then at ps (i + 1) else at ps (j + 1)) \<and>
        (0 < j \<and> (i = 0 \<longrightarrow> j \<noteq> 1) \<longrightarrow> in_prev n = (if j = i + 1 then before ps i else before ps j))"
      if j: "j < length ps" "j \<noteq> i" for j
    proof -
      consider "j = i - 1" | "j = i + 1" | "j + 1 \<noteq> i" "j \<noteq> i - 1" "j \<noteq> i + 1" using mid(1) by linarith
      then show ?thesis
        using mid node [OF j(1)] m k nx ne inj [OF j(1) l1(1)] inj [OF j(1) mid(2)] j by cases simp_all
    qed
    ultimately show ?thesis by auto
  qed
qed

lemma Erase_rep:
  assumes r: "ilist_rep mem l ps" and i: "i < length ps"
  shows "\<exists>mem' l'. Erase mem l (Some (ps ! i)) = Inr (mem', l', at ps (i + 1)) \<and>
    ilist_rep mem' l' (take i ps @ drop (Suc i) ps) \<and> il_id l' = il_id l \<and> same_nodes (set ps) mem mem' \<and>
    (\<exists>n. mem' (ps ! i) = Some n \<and> in_list n = NULL \<and> in_next n = at ps (i + 1))"
proof -
  note D = ilist_repD [OF r]
  let ?p = "ps ! i" and ?ps = "take i ps @ drop (Suc i) ps"
  obtain n where n: "mem ?p = Some n" "linked (il_id l) ps i n" using D(5) [OF i] by auto
  obtain mem1 where m: "unlink_node mem l (Some ?p) n = Inr (mem1, at ?ps 0, before ?ps (length ps - 1))"
      "same_nodes (set ps) mem mem1" "mem1 ?p = Some n"
      "\<forall>j < length ps. j \<noteq> i \<longrightarrow> (\<exists>n. mem1 (ps ! j) = Some n \<and> in_list n = Some (il_id l) \<and>
        in_next n = (if j + 1 = i then at ps (i + 1) else at ps (j + 1)) \<and>
        (0 < j \<and> (i = 0 \<longrightarrow> j \<noteq> 1) \<longrightarrow> in_prev n = (if j = i + 1 then before ps i else before ps j)))"
    using unlink_node_rep [OF r i n] by blast
  let ?mem = "mem1(?p \<mapsto> n\<lparr>in_list := NULL\<rparr>)"
  let ?l = "l\<lparr>il_head := at ?ps 0, il_tail := before ?ps (length ps - 1), il_size := il_size l - 1\<rparr>"
  have same: "same_nodes (set ps) mem ?mem" using m(2,3) i by (intro same_nodes_put_after) auto
  have "Erase mem l (Some ?p) = Inr (?mem, ?l, at ps (i + 1))"
    using n m(1,3) D(2) i by (auto simp: Erase_def linked_def)
  moreover have "ilist_rep ?mem ?l ?ps"
  proof (rule rep_remove [OF r i])
    show "\<exists>n. ?mem (ps ! j) = Some n \<and> in_list n = Some (il_id l) \<and>
        in_next n = (if j + 1 = i then at ps (i + 1) else at ps (j + 1)) \<and>
        (0 < j \<and> (i = 0 \<longrightarrow> j \<noteq> 1) \<longrightarrow> in_prev n = (if j = i + 1 then before ps i else before ps j))"
      if j: "j < length ps" "j \<noteq> i" for j
      using m(4) [rule_format, OF j] j D(1) i by (simp add: nth_eq_iff_index_eq)
    show "?mem q = mem q" if "q \<notin> set ps" for q using same that by (simp add: same_nodes_def)
  qed simp_all
  ultimately show ?thesis
    using same n(2) by (intro exI [of _ ?mem] exI [of _ ?l]) (simp add: linked_def)
qed

text \<open>Inserting before position \<open>k\<close>, in the same way.\<close>

lemma rep_insert:
  assumes r: "ilist_rep mem l ps" and k: "k \<le> length ps" and a: "a \<notin> set ps"
    and kept: "\<And>j. j < length ps \<Longrightarrow> \<exists>n. mem' (ps ! j) = Some n \<and> in_list n = Some (il_id l) \<and>
        in_next n = (if j + 1 = k then Some a else at ps (j + 1)) \<and>
        (j = k \<or> 0 < j \<longrightarrow> in_prev n = (if j = k then Some a else before ps j))"
    and new: "\<exists>n. mem' a = Some n \<and> in_list n = Some (il_id l) \<and> in_next n = at ps k \<and> (0 < k \<longrightarrow> in_prev n = before ps k)"
    and frame: "\<And>q. q \<notin> insert a (set ps) \<Longrightarrow> mem' q = mem q"
    and l': "il_id l' = il_id l" "il_size l' = il_size l + 1" "il_head l' = at (take k ps @ a # drop k ps) 0"
      "il_tail l' = before (take k ps @ a # drop k ps) (Suc (length ps))"
  shows "ilist_rep mem' l' (take k ps @ a # drop k ps)"
proof -
  note D = ilist_repD [OF r]
  let ?ps = "take k ps @ a # drop k ps"
  have node: "\<exists>n. mem' (?ps ! j) = Some n \<and> linked (il_id l') ?ps j n" if j: "j < length ?ps" for j
  proof -
    consider "j < k" | "j = k" | "k < j" by linarith
    then show ?thesis
    proof cases
      case 1
      then have e: "?ps ! j = ps ! j" "j < length ps" using k by (simp_all add: nth_append)
      show ?thesis using kept [OF e(2)] e(1) 1 k l'(1) at_insert [OF k, of a "j + 1"] before_insert [OF k, of j a]
        by (auto simp: linked_def)
    next
      case 2
      then have e: "?ps ! j = a" using k by (simp add: nth_append)
      show ?thesis using new e 2 k l'(1) at_insert [OF k, of a "j + 1"] before_insert [OF k, of j a]
        by (auto simp: linked_def)
    next
      case 3
      then obtain i where i: "j = Suc i" "k \<le> i" by (cases j) auto
      then have e: "?ps ! j = ps ! i" "i < length ps" using k j by (simp_all add: nth_append nth_Cons')
      show ?thesis using kept [OF e(2)] e i k l'(1) at_insert [OF k, of a "j + 1"] before_insert [OF k, of j a]
        by (auto simp: linked_def)
    qed
  qed
  have s: "set ?ps = insert a (set ps)" by (rule set_insert_at)
  have "p \<in> set ?ps" if "mem' p = Some n" "in_list n = Some (il_id l')" for p n
    using that D(6) [of p n] frame [of p] l'(1) unfolding s by (cases "p \<in> insert a (set ps)") auto
  moreover have "distinct ?ps" using D(1) a
    by (auto simp: set_take_disj_set_drop_if_distinct dest: in_set_takeD in_set_dropD)
  ultimately show ?thesis using node l'(2-4) D(2) k unfolding ilist_rep_def by auto
qed

lemma link_node_rep:
  assumes r: "ilist_rep mem l ps" and k: "k \<le> length ps" and a: "a \<notin> set ps" "mem a = Some n"
  shows "\<exists>mem' n'. link_node mem l (at ps k) a =
      Inr (mem', at (take k ps @ a # drop k ps) 0, before (take k ps @ a # drop k ps) (Suc (length ps))) \<and>
    same_nodes (insert a (set ps)) mem mem' \<and>
    mem' a = Some n' \<and> in_data n' = in_data n \<and>
    in_next n' = (if k = length ps then in_next n else at ps k) \<and> (0 < k \<longrightarrow> in_prev n' = before ps k) \<and>
    (\<forall>j < length ps. \<exists>n. mem' (ps ! j) = Some n \<and> in_list n = Some (il_id l) \<and>
        in_next n = (if j + 1 = k then Some a else at ps (j + 1)) \<and>
        (j = k \<or> 0 < j \<longrightarrow> in_prev n = (if j = k then Some a else before ps j)))"
proof -
  note D = ilist_repD [OF r]
  let ?ps = "take k ps @ a # drop k ps"
  have node: "\<exists>n. mem (ps ! j) = Some n \<and> in_list n = Some (il_id l) \<and> in_next n = at ps (j + 1) \<and>
      (0 < j \<longrightarrow> in_prev n = before ps j)" if "j < length ps" for j
    using D(5) [OF that] by (auto simp: linked_def)
  have inj: "ps ! j = ps ! i \<longleftrightarrow> j = i" if "j < length ps" "i < length ps" for j i
    using that D(1) by (simp add: nth_eq_iff_index_eq)
  have na: "ps ! j \<noteq> a" "a \<noteq> ps ! j" if "j < length ps" for j using a(1) that by auto
  have hd: "at ?ps 0 = (if k = 0 then Some a else at ps 0)" using at_insert [OF k, of a 0] by simp
  have tl: "before ?ps (Suc (length ps)) = (if k = length ps then Some a else before ps (length ps))"
    using before_insert [OF k, of "Suc (length ps)" a] k by auto
  have front: "at ps k = il_head l \<longleftrightarrow> k = 0" using D(1,3) k at_inj [of ps k 0] by simp
  consider (empty) "ps = []" | (first) "ps \<noteq> []" "k = 0" | (last) "ps \<noteq> []" "k = length ps" | (mid) "0 < k" "k < length ps"
    using k by (cases "ps = []"; cases "k = 0"; cases "k = length ps") auto
  then show ?thesis
  proof cases
    case empty
    then show ?thesis using k a(2) D(2) hd tl
      by (intro exI [of _ mem] exI [of _ n]) (simp add: link_node_def Let_def at_def)
  next
    case first
    then have l0: "0 < length ps" by simp
    obtain m where m: "mem (ps ! 0) = Some m" "in_list m = Some (il_id l)" "in_next m = at ps 1" using node [OF l0] by auto
    let ?n = "n\<lparr>in_next := at ps 0\<rparr>" let ?mem = "(mem(a \<mapsto> ?n))(ps ! 0 \<mapsto> m\<lparr>in_prev := Some a\<rparr>)"
    have "link_node mem l (at ps k) a = Inr (?mem, at ?ps 0, before ?ps (Suc (length ps)))"
      using first l0 front D(2,3,4) a(2) m(1) na [OF l0] hd tl by (simp add: link_node_def Let_def iter_begin_def)
    moreover have "same_nodes (insert a (set ps)) mem ?mem"
      using a(2) m(1) l0 na [OF l0] by (intro same_nodes_put_after [OF same_nodes_put]) auto
    moreover have "\<exists>n. ?mem (ps ! j) = Some n \<and> in_list n = Some (il_id l) \<and>
        in_next n = (if j + 1 = k then Some a else at ps (j + 1)) \<and>
        (j = k \<or> 0 < j \<longrightarrow> in_prev n = (if j = k then Some a else before ps j))" if j: "j < length ps" for j
      using first node [OF j] m inj [OF j l0] na [OF j] by (cases "j = 0") auto
    ultimately show ?thesis using first l0 na [OF l0] by (intro exI [of _ ?mem] exI [of _ ?n]) simp
  next
    case last
    then have l1: "length ps - 1 < length ps" by simp
    obtain m where m: "mem (ps ! (length ps - 1)) = Some m" "in_list m = Some (il_id l)"
        "0 < length ps - 1 \<longrightarrow> in_prev m = before ps (length ps - 1)" using node [OF l1] by auto
    let ?n = "n\<lparr>in_prev := before ps (length ps)\<rparr>"
    let ?mem = "(mem(a \<mapsto> ?n))(ps ! (length ps - 1) \<mapsto> m\<lparr>in_next := Some a\<rparr>)"
    have t: "before ps (length ps) = Some (ps ! (length ps - 1))" using last by (simp add: before_def)
    have "link_node mem l (at ps k) a = Inr (?mem, at ?ps 0, before ?ps (Suc (length ps)))"
      using last front D(2,3,4) a(2) m(1) na [OF l1] hd tl t by (simp add: link_node_def Let_def iter_begin_def iter_end_def)
    moreover have "same_nodes (insert a (set ps)) mem ?mem"
      using a(2) m(1) l1 na [OF l1] last by (intro same_nodes_put_after [OF same_nodes_put]) auto
    moreover have "\<exists>n. ?mem (ps ! j) = Some n \<and> in_list n = Some (il_id l) \<and>
        in_next n = (if j + 1 = k then Some a else at ps (j + 1)) \<and>
        (j = k \<or> 0 < j \<longrightarrow> in_prev n = (if j = k then Some a else before ps j))" if j: "j < length ps" for j
      using last node [OF j] m inj [OF j l1] na [OF j] less_imp_neq [OF j] by (cases "j = length ps - 1") auto
    ultimately show ?thesis using last l1 na [OF l1] by (intro exI [of _ ?mem] exI [of _ ?n]) simp
  next
    case mid
    then have l1: "k - 1 < length ps" and l0: "0 < length ps" by linarith+
    obtain m where m: "mem (ps ! (k - 1)) = Some m" "in_list m = Some (il_id l)" "0 < k - 1 \<longrightarrow> in_prev m = before ps (k - 1)"
      using node [OF l1] by auto
    obtain p where p: "mem (ps ! k) = Some p" "in_list p = Some (il_id l)" "in_next p = at ps (k + 1)" "in_prev p = Some (ps ! (k - 1))"
      using node [OF mid(2)] mid(1) by (auto simp: before_def)
    let ?n = "n\<lparr>in_prev := in_prev p, in_next := Some (ps ! k)\<rparr>"
    let ?mem = "((mem(a \<mapsto> ?n))(ps ! k \<mapsto> p\<lparr>in_prev := Some a\<rparr>))(ps ! (k - 1) \<mapsto> m\<lparr>in_next := Some a\<rparr>)"
    have ne: "ps ! (k - 1) \<noteq> ps ! k" using inj [OF l1 mid(2)] mid(1) by simp
    have "link_node mem l (at ps k) a = Inr (?mem, at ?ps 0, before ?ps (Suc (length ps)))"
      using mid l0 inj [OF mid(2) l0] at_simps(1) [OF l0] D(2,3,4) a(2) m(1) p(1,4) na [OF l1] na [OF mid(2)] ne hd tl
      by (simp add: link_node_def Let_def iter_begin_def iter_end_def)
    moreover have "same_nodes (insert a (set ps)) mem ?mem"
      using a(2) m(1) p(1) l1 mid na [OF l1] na [OF mid(2)] ne
      by (intro same_nodes_put_after [OF same_nodes_put_after [OF same_nodes_put]]) auto
    moreover have "\<exists>n. ?mem (ps ! j) = Some n \<and> in_list n = Some (il_id l) \<and>
        in_next n = (if j + 1 = k then Some a else at ps (j + 1)) \<and>
        (j = k \<or> 0 < j \<longrightarrow> in_prev n = (if j = k then Some a else before ps j))" if j: "j < length ps" for j
    proof -
      consider "j = k - 1" | "j = k" | "j + 1 \<noteq> k" "j \<noteq> k - 1" "j \<noteq> k" using mid(1) by linarith
      then show ?thesis
        using mid node [OF j] m p ne inj [OF j l1] inj [OF j mid(2)] na [OF j] by cases simp_all
    qed
    ultimately show ?thesis
      using mid na [OF l1] na [OF mid(2)] p(4) by (intro exI [of _ ?mem] exI [of _ ?n]) (simp add: before_def)
  qed
qed

lemma Insert_rep:
  assumes r: "ilist_rep mem l ps" and k: "k \<le> length ps" and a: "mem a = Some n" "in_list n = NULL"
    and fresh: "k = length ps \<Longrightarrow> in_next n = NULL"
  shows "\<exists>mem' l'. Insert mem l (at ps k) a = Inr (mem', l', Some a) \<and>
    ilist_rep mem' l' (take k ps @ a # drop k ps) \<and> il_id l' = il_id l \<and> same_nodes (insert a (set ps)) mem mem'"
proof -
  note D = ilist_repD [OF r]
  let ?ps = "take k ps @ a # drop k ps"
  have na: "a \<notin> set ps" using D(5) a by (force simp: in_set_conv_nth linked_def)
  obtain mem1 n1 where m: "link_node mem l (at ps k) a = Inr (mem1, at ?ps 0, before ?ps (Suc (length ps)))"
      "same_nodes (insert a (set ps)) mem mem1"
      "mem1 a = Some n1" "in_data n1 = in_data n" "in_next n1 = (if k = length ps then in_next n else at ps k)" "0 < k \<longrightarrow> in_prev n1 = before ps k"
      "\<forall>j < length ps. \<exists>n. mem1 (ps ! j) = Some n \<and> in_list n = Some (il_id l) \<and>
        in_next n = (if j + 1 = k then Some a else at ps (j + 1)) \<and>
        (j = k \<or> 0 < j \<longrightarrow> in_prev n = (if j = k then Some a else before ps j))"
    using link_node_rep [OF r k na a(1)] by blast
  let ?mem = "mem1(a \<mapsto> n1\<lparr>in_list := Some (il_id l)\<rparr>)"
  let ?l = "l\<lparr>il_head := at ?ps 0, il_tail := before ?ps (Suc (length ps)), il_size := il_size l + 1\<rparr>"
  have same: "same_nodes (insert a (set ps)) mem ?mem" using m(2,3) by (intro same_nodes_put_after) auto
  have "Insert mem l (at ps k) a = Inr (?mem, ?l, Some a)"
    using a m(1,3) by (simp add: Insert_def)
  moreover have "ilist_rep ?mem ?l ?ps"
  proof (rule rep_insert [OF r k na])
    show "\<exists>n. ?mem (ps ! j) = Some n \<and> in_list n = Some (il_id l) \<and>
        in_next n = (if j + 1 = k then Some a else at ps (j + 1)) \<and>
        (j = k \<or> 0 < j \<longrightarrow> in_prev n = (if j = k then Some a else before ps j))" if j: "j < length ps" for j
      using m(7) [rule_format, OF j] j na by (auto simp del: One_nat_def)
    show "?mem q = mem q" if "q \<notin> insert a (set ps)" for q using same that by (simp add: same_nodes_def)
  qed (use m fresh in simp_all)
  ultimately show ?thesis using same by (intro exI [of _ ?mem] exI [of _ ?l]) simp
qed

text \<open>The cases the caches use: both ends, and moving a node to the front.\<close>

lemma PushFront_rep:
  assumes "ilist_rep mem l ps" "mem a = Some n" "in_list n = NULL" "ps = [] \<Longrightarrow> in_next n = NULL"
  shows "\<exists>mem' l'. PushFront mem l a = Inr (mem', l', Some a) \<and>
    ilist_rep mem' l' (a # ps) \<and> il_id l' = il_id l \<and> same_nodes (insert a (set ps)) mem mem'"
  using Insert_rep [OF assms(1) _ assms(2,3), of 0] assms(4) ilist_repD(3) [OF assms(1)]
  by (auto simp: PushFront_def iter_begin_def)

lemma PushBack_rep:
  assumes "ilist_rep mem l ps" "mem a = Some n" "in_list n = NULL" "in_next n = NULL"
  shows "\<exists>mem' l'. PushBack mem l a = Inr (mem', l', Some a) \<and>
    ilist_rep mem' l' (ps @ [a]) \<and> il_id l' = il_id l \<and> same_nodes (insert a (set ps)) mem mem'"
  using Insert_rep [OF assms(1) order_refl assms(2,3)] assms(4) by (auto simp: PushBack_def iter_end_def)

lemma move_to_front_rep:
  assumes r: "ilist_rep mem l ps" and a: "a \<in> set ps"
  shows "\<exists>mem1 l1 it mem' l'. Erase mem l (Some a) = Inr (mem1, l1, it) \<and> PushFront mem1 l1 a = Inr (mem', l', Some a) \<and>
    ilist_rep mem' l' (to_front a ps) \<and> il_id l' = il_id l \<and> same_nodes (set ps) mem mem'"
proof -
  note D = ilist_repD [OF r]
  obtain i where i: "i < length ps" "ps ! i = a" using a by (auto simp: in_set_conv_nth)
  let ?ps = "take i ps @ drop (Suc i) ps"
  obtain mem1 l1 n where e: "Erase mem l (Some a) = Inr (mem1, l1, at ps (i + 1))" "ilist_rep mem1 l1 ?ps"
      "il_id l1 = il_id l" "same_nodes (set ps) mem mem1" "mem1 a = Some n" "in_list n = NULL" "in_next n = at ps (i + 1)"
    using Erase_rep [OF r i(1)] i(2) by auto
  have "?ps = [] \<Longrightarrow> in_next n = NULL" using i(1) e(7) by (auto simp: at_def)
  then obtain mem' l' where p: "PushFront mem1 l1 a = Inr (mem', l', Some a)" "ilist_rep mem' l' (a # ?ps)"
      "il_id l' = il_id l1" "same_nodes (insert a (set ?ps)) mem1 mem'"
    using PushFront_rep [OF e(2,5,6)] by blast
  have "insert a (set ?ps) = set ps" using set_remove_at [OF D(1) i(1)] i a by auto
  then have "same_nodes (set ps) mem mem'" using same_nodes_trans [OF e(4) p(4)] by simp
  moreover have "to_front a ps = a # ?ps" using remove1_nth [OF D(1) i(1)] i(2) by (simp add: to_front_def)
  ultimately show ?thesis using e(1,3) p by auto
qed

lemma Back_rep:
  "ilist_rep mem l ps \<Longrightarrow> Back mem l = Inr (if ps = [] then NULL else map_option in_data (mem (last ps)))"
  using ilist_repD(4) [of mem l ps] ilist_repD(5) [of mem l ps "length ps - 1"]
  by (auto simp: Back_def before_def last_conv_nth)

lemma Front_rep:
  "ilist_rep mem l ps \<Longrightarrow> Front mem l = Inr (if ps = [] then NULL else map_option in_data (mem (hd ps)))"
  using ilist_repD(3) [of mem l ps] ilist_repD(5) [of mem l ps 0]
  by (auto simp: Front_def at_def hd_conv_nth)

lemma iter_moves:
  assumes "ilist_rep mem l ps" "i < length ps"
  shows "iter_incr mem (at ps i) = Inr (at ps (i + 1))" "0 < i \<Longrightarrow> iter_decr mem (at ps i) = Inr (at ps (i - 1))"
  using ilist_repD(5) [OF assms] assms(2) by (auto simp: iter_incr_def iter_decr_def linked_def before_def)

lemma new_list_rep: "(\<And>p n. mem p = Some n \<Longrightarrow> in_list n \<noteq> Some i) \<Longrightarrow> ilist_rep mem (new_list i) []"
  by (auto simp: ilist_rep_def new_list_def at_def)

text \<open>The operations on one list leave the others alone.\<close>

lemma ilist_rep_frame:
  assumes r: "ilist_rep mem l ps" and s: "same_nodes A mem mem'" and d: "set ps \<inter> A = {}"
    and new: "\<And>p n. p \<in> A \<Longrightarrow> mem' p = Some n \<Longrightarrow> in_list n \<noteq> Some (il_id l)"
  shows "ilist_rep mem' l ps"
proof -
  note D = ilist_repD [OF r]
  have "mem' (ps ! j) = mem (ps ! j)" if "j < length ps" for j
    using s d that by (auto simp: same_nodes_def) (metis disjoint_iff nth_mem)
  moreover have "p \<in> set ps" if "mem' p = Some n" "in_list n = Some (il_id l)" for p n
    using that D(6) [of p n] new [of p n] s by (cases "p \<in> A") (auto simp: same_nodes_def)
  ultimately show ?thesis using D unfolding ilist_rep_def by auto
qed

section \<open>The range-based loop\<close>

lemma range_loop_rep:
  assumes r: "ilist_rep mem l ps" and k: "k \<le> length ps"
  shows "range_loop mem l (at ps k) acc = ret (acc @ map (\<lambda>p. in_data (the (mem p))) (drop k ps))"
  using k
proof (induction k arbitrary: acc rule: inc_induct)
  case base
  then show ?case by (subst range_loop.simps) (simp add: iter_end_def)
next
  case (step k)
  obtain n where n: "mem (ps ! k) = Some n" "in_next n = at ps (Suc k)"
    using ilist_repD(5) [OF r step.hyps(2)] by (auto simp: linked_def)
  have "range_loop mem l (at ps k) acc = range_loop mem l (at ps (Suc k)) (acc @ [in_data n])"
    using n step.hyps(2) by (subst range_loop.simps) (simp add: iter_end_def iter_deref_def iter_incr_def)
  then show ?case using step.IH [of "acc @ [in_data n]"] n(1) step.hyps(2) by (simp add: Cons_nth_drop_Suc [symmetric])
qed

text \<open>Where no node has a null \<open>next\<close> pointer the loop does not end.\<close>

lemma range_loop_cycle:
  assumes "\<forall>p \<in> A. \<exists>n q. mem p = Some n \<and> in_next n = Some q \<and> q \<in> A" "p \<in> A"
  shows "range_loop mem l (Some p) acc = None"
proof (rule ccontr)
  let ?cyc = "\<lambda>mem it. (\<forall>p \<in> A. \<exists>n q. mem p = Some n \<and> in_next n = Some q \<and> q \<in> A) \<and> it \<in> Some ` A"
  assume "range_loop mem l (Some p) acc \<noteq> None"
  then obtain y where ret: "range_loop mem l (Some p) acc = Some y" by blast
  have "\<not> ?cyc mem (Some p)"
  proof (rule range_loop.raw_induct [where P = "\<lambda>mem l it acc y. \<not> ?cyc mem it", OF _ ret])
    fix go :: "'a inode memory \<Rightarrow> ilist \<Rightarrow> nat ptr \<Rightarrow> 'a list \<Rightarrow> 'a list run option"
      and mem :: "'a inode memory" and l it acc y
    assume IH: "\<And>mem l it acc y. go mem l it acc = Some y \<Longrightarrow> \<not> ?cyc mem it"
      and eq: "(if it = iter_end l then ret acc
        else case andthen (iter_deref mem it) (\<lambda>d. andthen (iter_incr mem it) (\<lambda>it'. Inr (d, it'))) of
             Inl e \<Rightarrow> stops e | Inr (d, it') \<Rightarrow> go mem l it' (acc @ [d])) = Some y"
    show "\<not> ?cyc mem it"
    proof
      assume c: "?cyc mem it"
      then obtain p n q where n: "it = Some p" "mem p = Some n" "in_next n = Some q" "q \<in> A" by blast
      then have "go mem l (Some q) (acc @ [in_data n]) = Some y"
        using eq by (simp add: iter_end_def iter_deref_def iter_incr_def)
      then show False using IH c n(4) by blast
    qed
  qed
  then show False using assms by blast
qed

section \<open>Properties\<close>

text \<open>Two nodes pushed to the back of an empty list.\<close>

definition two_nodes :: "nat inode memory" where
  "two_nodes = [0 \<mapsto> new_node 7, 1 \<mapsto> new_node 8]"

lemma two_nodes_rep: "\<exists>mem l. ilist_rep mem l [0, 1] \<and> same_nodes {0, 1} two_nodes mem \<and> il_id l = 5"
proof -
  have n: "two_nodes 0 = Some (new_node 7)" "two_nodes 1 = Some (new_node 8)" by (simp_all add: two_nodes_def)
  have "ilist_rep two_nodes (new_list 5) []" by (rule new_list_rep) (auto simp: two_nodes_def new_node_def split: if_splits)
  then obtain mem1 l1 where m1: "ilist_rep mem1 l1 [0]" "il_id l1 = 5" "same_nodes {0} two_nodes mem1"
    using PushBack_rep [of two_nodes "new_list 5" "[]" 0 "new_node 7"] n(1) by (auto simp: new_node_def new_list_def)
  then have "mem1 1 = Some (new_node 8)" using n(2) by (simp add: same_nodes_def)
  then obtain mem l where "ilist_rep mem l [0, 1]" "il_id l = 5" "same_nodes {0, 1} mem1 mem"
    using PushBack_rep [OF m1(1)] m1(2) by (fastforce simp: new_node_def insert_commute)
  then show ?thesis using same_nodes_trans [OF m1(3)] by fastforce
qed

text \<open>C26: \<open>Insert\<close> at any position puts the node before that position and returns an iterator to it,
  \<open>PushFront\<close> and \<open>PushBack\<close> are the insertions at both ends, and \<open>Erase\<close> removes the node and returns
  an iterator to the one after it, or the past-the-end iterator. They keep the pointers consistent, the
  data of all nodes, and every node outside of the list. \<open>Front\<close>, \<open>Back\<close>, \<open>getSize\<close>, \<open>++\<close>, \<open>--\<close> and
  the range-based loop read the sequence. A node in a list is refused by an insertion and one
  that is not in this list by a removal, with a failed assertion. An insertion at the back, or into an
  empty list, is only right when the \<open>next\<close> pointer of the node is null, which the removal of a node
  does not see to. The \<open>prev\<close> pointer of the first node is left open: the code does not reset it, and
  \<open>--\<close> is stated for the other nodes only.\<close>

theorem intrusive_list_operations:
  assumes "ilist_rep mem l ps" "mem a = Some n"
  shows "(in_list n \<noteq> NULL \<longrightarrow> (\<forall>position. Insert mem l position a = Inl Assert)) \<and>
    (in_list n \<noteq> Some (il_id l) \<longrightarrow> Erase mem l (Some a) = Inl Assert) \<and> Erase mem l NULL = Inl Assert \<and>
    (in_list n = NULL \<longrightarrow> (\<forall>i \<le> length ps. (i = length ps \<longrightarrow> in_next n = NULL) \<longrightarrow>
      (\<exists>mem' l'. Insert mem l (at ps i) a = Inr (mem', l', Some a) \<and> ilist_rep mem' l' (take i ps @ a # drop i ps) \<and>
        il_id l' = il_id l \<and> same_nodes (insert a (set ps)) mem mem'))) \<and>
    PushFront mem l a = Insert mem l (at ps 0) a \<and> PushBack mem l a = Insert mem l (at ps (length ps)) a \<and>
    (\<forall>i < length ps. ps ! i = a \<longrightarrow>
      (\<exists>mem' l'. Erase mem l (Some a) = Inr (mem', l', at ps (i + 1)) \<and> ilist_rep mem' l' (take i ps @ drop (Suc i) ps) \<and>
        il_id l' = il_id l \<and> same_nodes (set ps) mem mem')) \<and>
    getSize l = int (length ps) \<and>
    Front mem l = Inr (if ps = [] then NULL else map_option in_data (mem (hd ps))) \<and>
    Back mem l = Inr (if ps = [] then NULL else map_option in_data (mem (last ps))) \<and>
    (\<forall>i < length ps. iter_incr mem (at ps i) = Inr (at ps (i + 1)) \<and> (0 < i \<longrightarrow> iter_decr mem (at ps i) = Inr (at ps (i - 1)))) \<and>
    range_loop mem l (iter_begin l) [] = ret (map (\<lambda>p. in_data (the (mem p))) ps)"
proof -
  note D = ilist_repD [OF assms(1)]
  have "\<exists>mem' l'. Erase mem l (Some a) = Inr (mem', l', at ps (i + 1)) \<and> ilist_rep mem' l' (take i ps @ drop (Suc i) ps) \<and>
      il_id l' = il_id l \<and> same_nodes (set ps) mem mem'" if "i < length ps" "ps ! i = a" for i
    using Erase_rep [OF assms(1) that(1)] that(2) by auto
  moreover have "Insert mem l position a = Inl Assert" if "in_list n \<noteq> NULL" for position
    using that assms(2) by (simp add: Insert_def)
  moreover have "Erase mem l (Some a) = Inl Assert" if "in_list n \<noteq> Some (il_id l)"
    using that assms(2) by (simp add: Erase_def)
  moreover have "Erase mem l NULL = Inl Assert" by (simp add: Erase_def)
  moreover have "PushFront mem l a = Insert mem l (at ps 0) a" "PushBack mem l a = Insert mem l (at ps (length ps)) a"
    using D(3) by (simp_all add: PushFront_def PushBack_def iter_begin_def iter_end_def)
  moreover have "range_loop mem l (iter_begin l) [] = ret (map (\<lambda>p. in_data (the (mem p))) ps)"
    using range_loop_rep [OF assms(1), of 0 "[]"] D(3) by (simp add: iter_begin_def)
  ultimately show ?thesis
    using Insert_rep [OF assms(1) _ assms(2)] Front_rep [OF assms(1)] Back_rep [OF assms(1)] iter_moves [OF assms(1)] D(2)
    unfolding getSize_def by blast
qed

theorem intrusive_list_operations_witness:
  "\<exists>mem (l :: ilist). ilist_rep mem l [0, 1 :: nat] \<and> range_loop mem l (iter_begin l) [] = ret [7, 8 :: nat]"
proof -
  obtain mem l where m: "ilist_rep mem l [0, 1]" "same_nodes {0, 1} two_nodes mem" using two_nodes_rep by blast
  then have d: "map_option in_data (mem 0) = Some 7" "map_option in_data (mem 1) = Some 8"
    by (simp_all add: same_nodes_def two_nodes_def new_node_def)
  then obtain n k where n: "mem 0 = Some n" "in_data n = 7" "mem 1 = Some k" "in_data k = 8" by auto
  then show ?thesis using intrusive_list_operations [OF m(1) n(1)] m(1) by auto
qed

text \<open>C27: When the first node of a list of two or more is removed and pushed to the back, its \<open>next\<close>
  pointer still leads to the old second node: the list is a cycle and a loop over it never ends.\<close>

theorem intrusive_list_stale_next:
  assumes "ilist_rep mem l ps" "2 \<le> length ps"
  shows "\<exists>mem1 l1 it mem2 l2. Erase mem l (iter_begin l) = Inr (mem1, l1, it) \<and>
    PushBack mem1 l1 (hd ps) = Inr (mem2, l2, Some (hd ps)) \<and> range_loop mem2 l2 (iter_begin l2) [] = None"
proof -
  note D = ilist_repD [OF assms(1)]
  have l0: "0 < length ps" using assms(2) by linarith
  obtain a qs where ps: "ps = a # qs" using l0 by (cases ps) auto
  have ne: "qs \<noteq> []" "a \<notin> set qs" using assms(2) D(1) ps by auto
  obtain mem1 l1 n where e: "Erase mem l (Some a) = Inr (mem1, l1, at ps 1)" "ilist_rep mem1 l1 qs"
      "mem1 a = Some n" "in_list n = NULL" "in_next n = Some (hd qs)"
    using Erase_rep [OF assms(1) l0] ps ne by (auto simp: at_def hd_conv_nth)
  have "take (length qs) qs @ a # drop (length qs) qs = qs @ [a]" by simp
  note lk = link_node_rep [OF e(2) order_refl ne(2) e(3), unfolded this]
  obtain mem2 n2 where k: "link_node mem1 l1 (at qs (length qs)) a = Inr (mem2, at (qs @ [a]) 0, before (qs @ [a]) (Suc (length qs)))"
      "mem2 a = Some n2" "in_next n2 = (if length qs = length qs then in_next n else at qs (length qs))"
      "\<forall>j < length qs. \<exists>n. mem2 (qs ! j) = Some n \<and> in_list n = Some (il_id l1) \<and>
        in_next n = (if j + 1 = length qs then Some a else at qs (j + 1)) \<and>
        (j = length qs \<or> 0 < j \<longrightarrow> in_prev n = (if j = length qs then Some a else before qs j))"
    using lk by blast
  let ?mem = "mem2(a \<mapsto> n2\<lparr>in_list := Some (il_id l1)\<rparr>)"
  let ?l = "l1\<lparr>il_head := at (qs @ [a]) 0, il_tail := before (qs @ [a]) (Suc (length qs)), il_size := il_size l1 + 1\<rparr>"
  have "PushBack mem1 l1 a = Inr (?mem, ?l, Some a)"
    using k(1,2) e(3,4) by (simp add: PushBack_def Insert_def iter_end_def)
  moreover have "range_loop ?mem ?l (Some (hd qs)) [] = None"
  proof (rule range_loop_cycle [where A = "insert a (set qs)"])
    show "\<forall>p \<in> insert a (set qs). \<exists>n q. ?mem p = Some n \<and> in_next n = Some q \<and> q \<in> insert a (set qs)"
    proof
      fix p assume "p \<in> insert a (set qs)"
      then consider "p = a" | j where "j < length qs" "p = qs ! j" "p \<noteq> a" by (auto simp: in_set_conv_nth)
      then show "\<exists>n q. ?mem p = Some n \<and> in_next n = Some q \<and> q \<in> insert a (set qs)"
      proof cases
        case 1
        then show ?thesis using k(3) e(5) ne by simp
      next
        case 2
        then obtain n where "mem2 p = Some n" "in_next n = (if j + 1 = length qs then Some a else at qs (j + 1))"
          using k(4) by blast
        then show ?thesis using 2 by (cases "j + 1 = length qs") (simp_all add: at_def)
      qed
    qed
  qed (use ne in simp)
  moreover have "il_head ?l = Some (hd qs)" using ne by (simp add: at_def hd_conv_nth nth_append)
  ultimately show ?thesis using e(1) D(3) ps by (auto simp: iter_begin_def)
qed

theorem intrusive_list_stale_next_witness:
  "\<exists>mem l mem1 l1 it mem2 l2. ilist_rep (mem :: nat inode memory) l [0, 1] \<and> Erase mem l (iter_begin l) = Inr (mem1, l1, it) \<and>
     PushBack mem1 l1 0 = Inr (mem2, l2, Some 0) \<and> range_loop mem2 l2 (iter_begin l2) [] = None"
proof -
  obtain mem l where "ilist_rep mem l [0, 1]" "same_nodes {0, 1} two_nodes mem" using two_nodes_rep by blast
  then show ?thesis using intrusive_list_stale_next [of mem l "[0, 1]"] by fastforce
qed

end
