(* ===== verification/Arrays.thy ===== *)
theory Arrays
  imports Prelude
begin

text \<open>
  Arrays that the C++ classes index with an \<open>int\<close>: reading and writing, with \<open>Segv\<close> for an index outside the
  array, and the allocation of \<open>src/lib/cpp/Misc.h\<close>.
\<close>

definition rd :: "'a list \<Rightarrow> int \<Rightarrow> 'a run" where
  "rd xs i = (if 0 \<le> i \<and> i < int (length xs) then Inr (xs ! nat i) else Inl Segv)"

definition wr :: "'a list \<Rightarrow> int \<Rightarrow> 'a \<Rightarrow> 'a list run" where
  "wr xs i x = (if 0 \<le> i \<and> i < int (length xs) then Inr (xs[nat i := x]) else Inl Segv)"

text \<open>\<open>misc::new_unique_array\<close>; \<open>new\<close> throws for a negative size.\<close>

definition new_array :: "int \<Rightarrow> 'a \<Rightarrow> 'a list run" where
  "new_array n x = (if n < 0 then Inl Abort else Inr (replicate (nat n) x))"

section \<open>Inside the array\<close>

lemma rd_in: "0 \<le> i \<Longrightarrow> i < int (length xs) \<Longrightarrow> rd xs i = Inr (xs ! nat i)"
  by (simp add: rd_def)

lemma wr_in: "0 \<le> i \<Longrightarrow> i < int (length xs) \<Longrightarrow> wr xs i x = Inr (xs[nat i := x])"
  by (simp add: wr_def)

lemma rd_nat [simp]: "i < length xs \<Longrightarrow> rd xs (int i) = Inr (xs ! i)"
  by (simp add: rd_def)

lemma wr_nat [simp]: "i < length xs \<Longrightarrow> wr xs (int i) x = Inr (xs[i := x])"
  by (simp add: wr_def)

end
