(* ===== verification/Cache.thy ===== *)
theory Cache
  imports IntrusiveList Aligned_Words Arrays
begin

text \<open>
  The caches of \<open>src/memory/Cache.cc\<close>: blocks in sets, each set with the list of its blocks in
  replacement order.

  The blocks are one array, \<open>num_ways\<close> of them for each set; an access outside it stops with
  \<open>Segv\<close>. The list node inside a block is the node at the index of the block in the memory \<open>nodes\<close>,
  and its data, the pointer to the block, is that index. All numbers are 32 bits wide;
  \<open>misc::inRange\<close> compares them as signed integers and \<open>misc::new_unique_array\<close> takes an \<open>int\<close>, so that a
  cache has fewer than \<open>2 ^ 31\<close> blocks (\<open>valid_geometry\<close>; with \<open>2 ^ 31\<close> the constructor throws). \<open>random()\<close> is an argument of \<open>ReplaceBlock\<close>. The
  name and the trace output are left out.

  \<open>cache_rep\<close> relates a cache to the replacement order of the ways of each set.
\<close>

section \<open>Data\<close>

datatype ReplacementPolicy = ReplacementInvalid | ReplacementLRU | ReplacementFIFO | ReplacementRandom

datatype WritePolicy = WriteInvalid | WriteBack | WriteThrough

datatype BlockState =
  BlockInvalid | BlockNonCoherent | BlockModified | BlockOwned | BlockExclusive | BlockShared

definition ReplacementPolicyMap :: "(string \<times> ReplacementPolicy) list" where
  "ReplacementPolicyMap = [(''LRU'', ReplacementLRU), (''FIFO'', ReplacementFIFO), (''Random'', ReplacementRandom)]"

definition WritePolicyMap :: "(string \<times> WritePolicy) list" where
  "WritePolicyMap = [(''WriteBack'', WriteBack), (''WriteThrough'', WriteThrough)]"

definition BlockStateMap :: "(string \<times> BlockState) list" where
  "BlockStateMap = [(''N'', BlockNonCoherent), (''M'', BlockModified), (''O'', BlockOwned),
     (''E'', BlockExclusive), (''S'', BlockShared), (''I'', BlockInvalid)]"

type_synonym unsigned = "32 word"

record block =
  b_tag :: unsigned
  b_transient_tag :: unsigned
  b_way_id :: unsigned
  b_state :: BlockState

record cache =
  num_sets :: unsigned
  num_ways :: unsigned
  block_size :: unsigned
  num_blocks :: unsigned
  block_mask :: unsigned
  log_block_size :: nat
  replacement_policy :: ReplacementPolicy
  write_policy :: WritePolicy
  sets :: "ilist list"
  blocks :: "block list"
  nodes :: "nat inode memory"

definition new_block :: block where
  "new_block = \<lparr>b_tag = 0, b_transient_tag = 0, b_way_id = 0, b_state = BlockInvalid\<rparr>"

section \<open>Numbers\<close>

definition inRange :: "int \<Rightarrow> int \<Rightarrow> int \<Rightarrow> bool" where
  "inRange v lo hi \<longleftrightarrow> lo \<le> v \<and> v \<le> hi"

text \<open>The loop of \<open>misc::LogBase2\<close> would not end for 0.\<close>

partial_function (option) log_base2_loop :: "unsigned \<Rightarrow> unsigned \<Rightarrow> unsigned option" where
  "log_base2_loop v result =
     (if v AND 1 = 0 then log_base2_loop (drop_bit 1 v) (result + 1) else Some result)"

definition LogBase2 :: "unsigned \<Rightarrow> unsigned run option" where
  "LogBase2 v =
     (if v AND (v - 1) \<noteq> 0 then stops Panic
      else if v = 0 then stops Panic
      else map_option Inr (log_base2_loop v 0))"

section \<open>Sets and blocks\<close>

text \<open>The indices of a set and of a block.\<close>

definition getSet :: "cache \<Rightarrow> unsigned \<Rightarrow> nat run" where
  "getSet c set_id =
     (if \<not> inRange (sint set_id) 0 (sint (num_sets c - 1)) then Inl Assert
      else if unat set_id < length (sets c) then Inr (unat set_id) else Inl Segv)"

definition getBlock :: "cache \<Rightarrow> unsigned \<Rightarrow> unsigned \<Rightarrow> nat run" where
  "getBlock c set_id way_id =
     (if \<not> inRange (sint set_id) 0 (sint (num_sets c - 1)) then Inl Assert
      else if \<not> inRange (sint way_id) 0 (sint (num_ways c - 1)) then Inl Assert
      else
        let i = unat (set_id * num_ways c + way_id)
        in if i < length (blocks c) then Inr i else Inl Segv)"

section \<open>Construction\<close>

definition init_way :: "unsigned \<Rightarrow> cache \<Rightarrow> nat \<Rightarrow> cache run" where
  "init_way set_id c way =
     andthen (getSet c set_id) (\<lambda>s.
     andthen (getBlock c set_id (of_nat way)) (\<lambda>b.
     let c = c\<lparr>blocks := (blocks c)[b := (blocks c ! b)\<lparr>b_way_id := of_nat way\<rparr>]\<rparr>
     in andthen (PushBack (nodes c) (sets c ! s) b) (\<lambda>(mem, l, _).
        Inr (c\<lparr>nodes := mem, sets := (sets c)[s := l]\<rparr>))))"

definition init_set :: "cache \<Rightarrow> nat \<Rightarrow> cache run" where
  "init_set c set_id = run_list (init_way (of_nat set_id)) [0..<unat (num_ways c)] c"

text \<open>The sizes of the two arrays are converted to \<open>int\<close>.\<close>

definition cache_create ::
  "unsigned \<Rightarrow> unsigned \<Rightarrow> unsigned \<Rightarrow> ReplacementPolicy \<Rightarrow> WritePolicy \<Rightarrow> cache run option" where
  "cache_create ns nw bs rp wp =
     (if ns AND (ns - 1) \<noteq> 0 \<or> nw AND (nw - 1) \<noteq> 0 \<or> bs AND (bs - 1) \<noteq> 0 then stops Assert
      else
        bindr (LogBase2 bs) (\<lambda>log.
        let nb = ns * nw
        in Some (andthen (new_array (sint nb) new_block) (\<lambda>bl.
           andthen (new_array (sint ns) ()) (\<lambda>ss.
           let c = \<lparr>num_sets = ns, num_ways = nw, block_size = bs, num_blocks = nb, block_mask = bs - 1,
                 log_block_size = unat log, replacement_policy = rp, write_policy = wp,
                 sets = map new_list [0..<length ss], blocks = bl,
                 nodes = (\<lambda>i. if i < length bl then Some (new_node i) else None)\<rparr>
           in run_list init_set [0..<unat ns] c)))))"

section \<open>Lookup\<close>

text \<open>Set, tag and offset of an address.\<close>

definition DecodeAddress :: "cache \<Rightarrow> unsigned \<Rightarrow> (unsigned \<times> unsigned \<times> unsigned) run" where
  "DecodeAddress c address =
     (if num_sets c = 0 then Inl Div_zero
      else Inr (drop_bit (log_block_size c) address mod num_sets c, address AND NOT (block_mask c),
        address AND block_mask c))"

text \<open>The loop of \<open>FindBlock\<close>, from the way \<open>way_id\<close> on, with the values of its three reference
  arguments at the end.\<close>

function find_way :: "cache \<Rightarrow> unsigned \<Rightarrow> unsigned \<Rightarrow> unsigned \<Rightarrow> (bool \<times> unsigned \<times> unsigned \<times> BlockState) run" where
  "find_way c set_id tag way_id =
     (if way_id < num_ways c
      then andthen (getBlock c set_id way_id) (\<lambda>b.
        if b_tag (blocks c ! b) = tag \<and> b_state (blocks c ! b) \<noteq> BlockInvalid
        then Inr (True, set_id, way_id, b_state (blocks c ! b))
        else find_way c set_id tag (way_id + 1))
      else Inr (False, 0, 0, BlockInvalid))"
  by pat_completeness auto
termination
proof (relation "measure (\<lambda>(c, set_id, tag, way_id). unat (num_ways c) - unat way_id)", goal_cases)
  case (2 c set_id tag way_id b)
  then have "unat way_id < unat (num_ways c)" by (simp add: word_less_nat_alt)
  moreover have "unat (way_id + 1) = unat way_id + 1"
    using calculation unsigned_less [of "num_ways c", where 'a = nat] by (simp add: unat_word_ariths)
  ultimately show ?case by simp
qed simp

declare find_way.simps [simp del]

definition FindBlock :: "cache \<Rightarrow> unsigned \<Rightarrow> (bool \<times> unsigned \<times> unsigned \<times> BlockState) run" where
  "FindBlock c address =
     (if num_sets c = 0 then Inl Div_zero
      else find_way c (drop_bit (log_block_size c) address mod num_sets c) (address AND NOT (block_mask c)) 0)"

definition block_info :: "cache \<Rightarrow> unsigned \<Rightarrow> unsigned \<Rightarrow> (unsigned \<times> BlockState) run" where
  "block_info c set_id way_id =
     andthen (getBlock c set_id way_id) (\<lambda>b. Inr (b_tag (blocks c ! b), b_state (blocks c ! b)))"

section \<open>Updates\<close>

text \<open>\<open>lru_list.Erase(block->lru_node); lru_list.PushFront(block->lru_node)\<close>\<close>

definition move_to_head :: "cache \<Rightarrow> nat \<Rightarrow> nat \<Rightarrow> cache run" where
  "move_to_head c s b =
     andthen (Erase (nodes c) (sets c ! s) (Some b)) (\<lambda>(mem, l, _).
     andthen (PushFront mem l b) (\<lambda>(mem, l, _).
     Inr (c\<lparr>nodes := mem, sets := (sets c)[s := l]\<rparr>)))"

definition setBlock :: "cache \<Rightarrow> unsigned \<Rightarrow> unsigned \<Rightarrow> unsigned \<Rightarrow> BlockState \<Rightarrow> cache run" where
  "setBlock c set_id way_id tag state =
     andthen (getSet c set_id) (\<lambda>s.
     andthen (getBlock c set_id way_id) (\<lambda>b.
     andthen (if replacement_policy c = ReplacementFIFO \<and> b_tag (blocks c ! b) \<noteq> tag
              then move_to_head c s b else Inr c) (\<lambda>c.
     Inr (c\<lparr>blocks := (blocks c)[b := (blocks c ! b)\<lparr>b_tag := tag, b_state := state\<rparr>]\<rparr>))))"

definition AccessBlock :: "cache \<Rightarrow> unsigned \<Rightarrow> unsigned \<Rightarrow> cache run" where
  "AccessBlock c set_id way_id =
     andthen (getSet c set_id) (\<lambda>s.
     andthen (getBlock c set_id way_id) (\<lambda>b.
     let move = replacement_policy c = ReplacementLRU \<or>
           replacement_policy c = ReplacementFIFO \<and> b_state (blocks c ! b) = BlockInvalid
     in if move then move_to_head c s b else Inr c))"

definition ReplaceBlock :: "cache \<Rightarrow> nat \<Rightarrow> unsigned \<Rightarrow> (cache \<times> unsigned) run" where
  "ReplaceBlock c random set_id =
     andthen (getSet c set_id) (\<lambda>s.
     if replacement_policy c = ReplacementLRU \<or> replacement_policy c = ReplacementFIFO
     then
       andthen (Back (nodes c) (sets c ! s)) (\<lambda>block.
       case block of
         None \<Rightarrow> Inl Assert
       | Some b \<Rightarrow> andthen (move_to_head c s b) (\<lambda>c. Inr (c, b_way_id (blocks c ! b))))
     else if replacement_policy c \<noteq> ReplacementRandom then Inl Assert
     else if num_ways c = 0 then Inl Div_zero
     else Inr (c, of_nat (random mod unat (num_ways c))))"

definition setTransientTag :: "cache \<Rightarrow> unsigned \<Rightarrow> unsigned \<Rightarrow> unsigned \<Rightarrow> cache run" where
  "setTransientTag c set_id way_id tag =
     andthen (getBlock c set_id way_id) (\<lambda>b.
     Inr (c\<lparr>blocks := (blocks c)[b := (blocks c ! b)\<lparr>b_transient_tag := tag\<rparr>]\<rparr>))"

text \<open>\<open>setStateTag\<close> of the block at a set and way.\<close>

definition setStateTag :: "cache \<Rightarrow> unsigned \<Rightarrow> unsigned \<Rightarrow> BlockState \<Rightarrow> unsigned \<Rightarrow> cache run" where
  "setStateTag c set_id way_id state tag =
     andthen (getBlock c set_id way_id) (\<lambda>b.
     Inr (c\<lparr>blocks := (blocks c)[b := (blocks c ! b)\<lparr>b_state := state, b_tag := tag\<rparr>]\<rparr>))"

section \<open>Powers of two\<close>

lemma log_base2_pow: "k < 32 \<Longrightarrow> log_base2_loop (2 ^ k) r = Some (r + of_nat k)"
proof (induction k arbitrary: r)
  case 0
  then show ?case by (subst log_base2_loop.simps) simp
next
  case (Suc k)
  have "drop_bit 1 (2 ^ Suc k :: unsigned) = 2 ^ k"
    using Suc.prems by (intro bit_word_eqI) (auto simp: bit_simps)
  moreover have "(2 ^ Suc k :: unsigned) AND 1 = 0" by (rule bit_word_eqI) (auto simp: bit_simps)
  ultimately show ?case using Suc by (subst log_base2_loop.simps) (simp add: add.assoc)
qed

lemma LogBase2_pow: "k < 32 \<Longrightarrow> LogBase2 (2 ^ k) = ret (of_nat k)"
  using pow2_facts [of k] log_base2_pow [of k 0] by (simp add: LogBase2_def)

section \<open>Geometry\<close>

text \<open>Comparing as signed integers with a power of two less one is comparing as natural numbers.\<close>

lemma sint_nonneg_unat: "0 \<le> sint (w :: unsigned) \<Longrightarrow> sint w = int (unat w)"
proof -
  assume "0 \<le> sint w"
  then have "\<not> bit w 31" using bit_last_iff [of w] by simp
  then have "signed_take_bit 31 (uint w) = take_bit 31 (uint w)"
    by (simp add: signed_take_bit_def bit_uint_iff concat_bit_def)
  moreover have "take_bit 31 (uint w) = uint w"
  proof (rule bit_eqI)
    fix n
    show "bit (take_bit 31 (uint w)) n \<longleftrightarrow> bit (uint w) n"
      using \<open>\<not> bit w 31\<close> by (cases "n = 31") (auto simp: bit_simps dest: bit_imp_le_length)
  qed
  ultimately show "sint w = int (unat w)" by (simp add: sint_uint)
qed

lemma inRange_pow2:
  fixes x :: unsigned
  assumes "k < 32" "n = (2 ^ k :: unsigned)"
  shows "inRange (sint x) 0 (sint (n - 1)) \<longleftrightarrow> unat x < unat n"
proof -
  have hi: "(2 :: nat) ^ k \<le> 2 ^ 31" using assms(1) by (intro power_increasing) simp_all
  have "\<not> bit (mask k :: unsigned) 31" using assms(1) by (simp add: bit_simps)
  then have "0 \<le> sint (mask k :: unsigned)" using bit_last_iff [of "mask k :: unsigned"] by simp
  moreover have "unat (mask k :: unsigned) = 2 ^ k - 1"
    using pow2_facts(1) [OF assms(1)] unat_pow2 [OF assms(1)] pow2_facts(4) [OF assms(1)] by (metis unat_minus_one)
  ultimately have m: "sint (n - 1) = 2 ^ k - 1"
    using sint_nonneg_unat [of "mask k"] pow2_facts(1) [OF assms(1)] assms(2) by (simp add: of_nat_diff)
  have n: "unat n = 2 ^ k" using assms unat_pow2 by simp
  show ?thesis
  proof (cases "0 \<le> sint x")
    case True
    have "int i \<le> 2 ^ k - 1 \<longleftrightarrow> i < 2 ^ k" for i
      by (metis zle_diff1_eq of_nat_less_iff of_nat_numeral of_nat_power)
    then show ?thesis unfolding inRange_def m n sint_nonneg_unat [OF True] by (simp only: of_nat_0_le_iff simp_thms)
  next
    case False
    then have "bit x 31" using bit_last_iff [of x] by simp
    then have "bit (unat x) 31" by (simp add: bit_simps)
    then have "\<not> unat x < 2 ^ 31" by (auto simp: bit_iff_odd)
    then show ?thesis using False hi unfolding inRange_def n by simp
  qed
qed

definition geometry :: "cache \<Rightarrow> bool" where
  "geometry c \<longleftrightarrow>
     (\<exists>k < 32. num_sets c = 2 ^ k) \<and> (\<exists>k < 32. num_ways c = 2 ^ k) \<and>
     log_block_size c < 32 \<and> block_size c = 2 ^ log_block_size c \<and> block_mask c = mask (log_block_size c) \<and>
     unat (num_sets c) * unat (num_ways c) < 2 ^ 32 \<and>
     length (sets c) = unat (num_sets c) \<and> length (blocks c) = unat (num_sets c) * unat (num_ways c)"

abbreviation set_count :: "cache \<Rightarrow> nat" where
  "set_count c \<equiv> unat (num_sets c)"

abbreviation way_count :: "cache \<Rightarrow> nat" where
  "way_count c \<equiv> unat (num_ways c)"

text \<open>The index of the block of a set and way.\<close>

abbreviation block_at :: "cache \<Rightarrow> nat \<Rightarrow> nat \<Rightarrow> nat" where
  "block_at c s w \<equiv> s * way_count c + w"

lemma block_at_less: "s < (S :: nat) \<Longrightarrow> w < W \<Longrightarrow> s * W + w < S * W"
  by (metis Suc_leI add.commute add_less_cancel_left mult_Suc mult_le_mono1 order_less_le_trans)

lemma block_at_inj:
  fixes w :: nat
  assumes "w < W" "w' < W" "s * W + w = s' * W + w'"
  shows "s = s' \<and> w = w'"
proof -
  have "(s * W + w) div W = s" "(s' * W + w') div W = s'" using assms(1,2) by simp_all
  then show ?thesis using assms(3) by simp
qed

lemma getSet_in: "geometry c \<Longrightarrow> getSet c x = (if unat x < set_count c then Inr (unat x) else Inl Assert)"
  by (auto simp: getSet_def geometry_def inRange_pow2)

lemma getBlock_in:
  assumes "geometry c"
  shows "getBlock c x y = (if unat x < set_count c \<and> unat y < way_count c then Inr (block_at c (unat x) (unat y)) else Inl Assert)"
proof (cases "unat x < set_count c \<and> unat y < way_count c")
  case True
  then have lt: "block_at c (unat x) (unat y) < set_count c * way_count c" by (simp add: block_at_less)
  moreover have "set_count c * way_count c < 2 ^ 32" using assms by (simp add: geometry_def)
  moreover have "unat x * way_count c \<le> block_at c (unat x) (unat y)" by simp
  ultimately have "unat (x * num_ways c + y) = block_at c (unat x) (unat y)" by (simp add: unat_word_ariths)
  then show ?thesis using True lt assms by (auto simp: getBlock_def geometry_def inRange_pow2 Let_def)
next
  case False
  then show ?thesis using assms by (auto simp: getBlock_def geometry_def inRange_pow2)
qed

section \<open>Representation\<close>

text \<open>\<open>os s\<close> is the list of the ways of the set \<open>s\<close> in replacement order.\<close>

definition set_rep :: "cache \<Rightarrow> nat \<Rightarrow> nat list \<Rightarrow> bool" where
  "set_rep c s ws \<longleftrightarrow>
     il_id (sets c ! s) = s \<and> set ws \<subseteq> {..<way_count c} \<and> ilist_rep (nodes c) (sets c ! s) (map (block_at c s) ws) \<and>
     (\<forall>w \<in> set ws. b_way_id (blocks c ! block_at c s w) = of_nat w)"

text \<open>While a cache is constructed the lists hold some of the ways.\<close>

definition cache_part :: "cache \<Rightarrow> (nat \<Rightarrow> nat list) \<Rightarrow> bool" where
  "cache_part c os \<longleftrightarrow>
     geometry c \<and> (\<forall>i < length (blocks c). map_option in_data (nodes c i) = Some i) \<and>
     (\<forall>s < set_count c. set_rep c s (os s))"

definition cache_rep :: "cache \<Rightarrow> (nat \<Rightarrow> nat list) \<Rightarrow> bool" where
  "cache_rep c os \<longleftrightarrow> cache_part c os \<and> (\<forall>s < set_count c. set (os s) = {..<way_count c})"

lemma cache_repD:
  assumes "cache_rep c os"
  shows "geometry c" "cache_part c os" "\<And>s. s < set_count c \<Longrightarrow> set (os s) = {..<way_count c}"
    "\<And>s. s < set_count c \<Longrightarrow> set_rep c s (os s)" "\<And>s. s < set_count c \<Longrightarrow> distinct (os s)"
proof -
  show "geometry c" "cache_part c os" "\<And>s. s < set_count c \<Longrightarrow> set (os s) = {..<way_count c}"
    and r: "\<And>s. s < set_count c \<Longrightarrow> set_rep c s (os s)"
    using assms by (simp_all add: cache_rep_def cache_part_def)
  show "distinct (os s)" if "s < set_count c" for s
  proof -
    have "ilist_rep (nodes c) (sets c ! s) (map (block_at c s) (os s))" using r [OF that] by (simp add: set_rep_def)
    then show ?thesis using ilist_repD(1) distinct_map by blast
  qed
qed

lemma block_at_in: "geometry c \<Longrightarrow> s < set_count c \<Longrightarrow> w < way_count c \<Longrightarrow> block_at c s w < length (blocks c)"
  by (simp add: geometry_def block_at_less)

text \<open>Replacing the list of one set, with the nodes of its blocks.\<close>

lemma set_update:
  assumes c: "cache_part c os" and s: "s < set_count c"
    and l: "ilist_rep mem l (map (block_at c s) ws)" "il_id l = s" "set ws \<subseteq> {..<way_count c}" "set (os s) \<subseteq> set ws"
    and same: "same_nodes (block_at c s ` set ws) (nodes c) mem"
    and ids: "\<forall>w \<in> set ws. b_way_id (blocks c ! block_at c s w) = of_nat w"
  shows "cache_part (c\<lparr>nodes := mem, sets := (sets c)[s := l]\<rparr>) (os(s := ws))"
proof -
  let ?c = "c\<lparr>nodes := mem, sets := (sets c)[s := l]\<rparr>" and ?A = "block_at c s ` set ws"
  have geo: "geometry c" and reps: "\<And>t. t < set_count c \<Longrightarrow> set_rep c t (os t)"
    and data: "\<forall>i < length (blocks c). map_option in_data (nodes c i) = Some i"
    using c by (simp_all add: cache_part_def)
  have len: "s < length (sets c)" using geo s by (simp add: geometry_def)
  have "set_rep ?c t (os t)" if t: "t < set_count c" "t \<noteq> s" for t
  proof -
    have r: "set_rep c t (os t)" by (rule reps [OF t(1)])
    have "ilist_rep mem (sets c ! t) (map (block_at c t) (os t))"
    proof (rule ilist_rep_frame [OF _ same])
      show "ilist_rep (nodes c) (sets c ! t) (map (block_at c t) (os t))" using r by (simp add: set_rep_def)
      show "set (map (block_at c t) (os t)) \<inter> ?A = {}"
      proof -
        have "block_at c t w1 \<noteq> block_at c s w2" if "w1 \<in> set (os t)" "w2 \<in> set ws" for w1 w2
          using block_at_inj [of w1 "way_count c" w2 t s] that r l(3) t(2) by (auto simp: set_rep_def)
        then show ?thesis by auto
      qed
      show "in_list n \<noteq> Some (il_id (sets c ! t))" if p: "p \<in> ?A" "mem p = Some n" for p n
      proof -
        have "p \<in> set (map (block_at c s) ws)" using p(1) by simp
        then have "in_list n = Some s" using ilist_owner [OF l(1) _ p(2)] l(2) by simp
        then show ?thesis using r t(2) by (simp add: set_rep_def)
      qed
    qed
    then show ?thesis using r t(2) by (simp add: set_rep_def)
  qed
  moreover have "set_rep ?c s ws" using l len ids by (simp add: set_rep_def)
  moreover have "\<forall>i < length (blocks c). map_option in_data (mem i) = Some i" using same data by (simp add: same_nodes_def)
  moreover have "geometry ?c" using geo by (simp add: geometry_def)
  ultimately show ?thesis by (simp add: cache_part_def)
qed

lemma move_to_head_rep:
  assumes c: "cache_rep c os" and s: "s < set_count c" and w: "w < way_count c"
  shows "\<exists>mem l. move_to_head c s (block_at c s w) = Inr (c\<lparr>nodes := mem, sets := (sets c)[s := l]\<rparr>) \<and>
    cache_rep (c\<lparr>nodes := mem, sets := (sets c)[s := l]\<rparr>) (os(s := to_front w (os s)))"
proof -
  note D = cache_repD [OF c]
  let ?f = "block_at c s" and ?ws = "to_front w (os s)"
  have r: "ilist_rep (nodes c) (sets c ! s) (map ?f (os s))" "il_id (sets c ! s) = s"
      "\<forall>w \<in> set (os s). b_way_id (blocks c ! ?f w) = of_nat w"
    using D(4) [OF s] by (simp_all add: set_rep_def)
  have "inj ?f" by (simp add: inj_def)
  then have fr: "to_front (?f w) (map ?f (os s)) = map ?f ?ws" by (rule to_front_map)
  have set: "set ?ws = set (os s)" using w D(3,5) [OF s] by (intro set_to_front) simp_all
  have "?f w \<in> set (map ?f (os s))" using w D(3) [OF s] by simp
  then obtain mem1 l1 it mem l where m: "Erase (nodes c) (sets c ! s) (Some (?f w)) = Inr (mem1, l1, it)"
      "PushFront mem1 l1 (?f w) = Inr (mem, l, Some (?f w))" "ilist_rep mem l (map ?f ?ws)" "il_id l = il_id (sets c ! s)"
      "same_nodes (set (map ?f (os s))) (nodes c) mem"
    using move_to_front_rep [OF r(1), of "?f w"] unfolding fr by blast
  have "cache_part (c\<lparr>nodes := mem, sets := (sets c)[s := l]\<rparr>) (os(s := ?ws))"
    using m(4,5) r(2,3) set D(3) [OF s] by (intro set_update [OF D(2) s m(3)]) simp_all
  then show ?thesis using m(1,2) set D(3) by (auto simp: move_to_head_def cache_rep_def)
qed

section \<open>Operations on the representation\<close>

text \<open>Tag and state of a block.\<close>

definition entry :: "cache \<Rightarrow> nat \<Rightarrow> nat \<Rightarrow> unsigned \<times> BlockState" where
  "entry c s w = (b_tag (blocks c ! block_at c s w), b_state (blocks c ! block_at c s w))"

text \<open>The fields that no operation changes.\<close>

definition kept :: "cache \<Rightarrow> cache \<Rightarrow> bool" where
  "kept c c' \<longleftrightarrow>
     num_sets c' = num_sets c \<and> num_ways c' = num_ways c \<and> block_size c' = block_size c \<and>
     num_blocks c' = num_blocks c \<and> block_mask c' = block_mask c \<and> log_block_size c' = log_block_size c \<and>
     replacement_policy c' = replacement_policy c \<and> write_policy c' = write_policy c"

lemma kept_fields:
  assumes "kept c c'"
  shows "num_sets c' = num_sets c" "num_ways c' = num_ways c" "block_size c' = block_size c"
    "block_mask c' = block_mask c" "log_block_size c' = log_block_size c"
    "replacement_policy c' = replacement_policy c"
  using assms by (simp_all add: kept_def)

lemma kept_refl [simp]: "kept c c" by (simp add: kept_def)

lemma kept_lists [simp]: "kept c (c\<lparr>nodes := mem, sets := ls\<rparr>)" by (simp add: kept_def)

lemma kept_blocks [simp]: "kept c (c\<lparr>blocks := bs\<rparr>)" by (simp add: kept_def)

lemma kept_trans: "kept c c1 \<Longrightarrow> kept c1 c2 \<Longrightarrow> kept c c2"
  by (simp add: kept_def)

text \<open>Updating one block.\<close>

lemma block_update:
  assumes c: "cache_rep c os" and s: "s < set_count c" and w: "w < way_count c"
    and f: "\<And>b. b_way_id (f b) = b_way_id b"
  defines "c' \<equiv> c\<lparr>blocks := (blocks c)[block_at c s w := f (blocks c ! block_at c s w)]\<rparr>"
  shows "cache_rep c' os" "\<And>s' w'. s' < set_count c \<Longrightarrow> w' < way_count c \<Longrightarrow> entry c' s' w' =
    (if s' = s \<and> w' = w then (b_tag (f (blocks c ! block_at c s w)), b_state (f (blocks c ! block_at c s w))) else entry c s' w')"
proof -
  note D = cache_repD [OF c]
  have len: "block_at c s w < length (blocks c)" by (rule block_at_in [OF D(1) s w])
  have "set_rep c' t (os t)" if "t < set_count c" for t
    using D(4) [OF that] f len by (auto simp: set_rep_def c'_def nth_list_update)
  then show "cache_rep c' os"
    using c by (simp add: cache_rep_def cache_part_def geometry_def c'_def)
  show "entry c' s' w' = (if s' = s \<and> w' = w then (b_tag (f (blocks c ! block_at c s w)), b_state (f (blocks c ! block_at c s w))) else entry c s' w')"
    if "s' < set_count c" "w' < way_count c" for s' w'
  proof -
    have "block_at c s w = block_at c s' w' \<longleftrightarrow> s' = s \<and> w' = w" using block_at_inj [OF w that(2), of s s'] by auto
    then show ?thesis using len by (simp add: entry_def c'_def nth_list_update)
  qed
qed

lemma entry_lists [simp]: "entry (c\<lparr>nodes := mem, sets := ls\<rparr>) = entry c"
  by (simp add: entry_def fun_eq_iff)

lemma AccessBlock_rep:
  assumes c: "cache_rep c os"
  shows "if unat x < set_count c \<and> unat y < way_count c
    then \<exists>c'. AccessBlock c x y = Inr c' \<and> kept c c' \<and> entry c' = entry c \<and>
      cache_rep c' (if replacement_policy c = ReplacementLRU \<or>
          replacement_policy c = ReplacementFIFO \<and> snd (entry c (unat x) (unat y)) = BlockInvalid
        then os(unat x := to_front (unat y) (os (unat x))) else os)
    else AccessBlock c x y = Inl Assert"
proof -
  note in_range = getSet_in [OF cache_repD(1) [OF c]] getBlock_in [OF cache_repD(1) [OF c]]
  show ?thesis
  proof (cases "unat x < set_count c \<and> unat y < way_count c")
    case True
    then obtain mem l where "move_to_head c (unat x) (block_at c (unat x) (unat y)) = Inr (c\<lparr>nodes := mem, sets := (sets c)[unat x := l]\<rparr>)"
        "cache_rep (c\<lparr>nodes := mem, sets := (sets c)[unat x := l]\<rparr>) (os(unat x := to_front (unat y) (os (unat x))))"
      using move_to_head_rep [OF c] by blast
    then show ?thesis using True c in_range by (simp add: AccessBlock_def Let_def entry_def)
  next
    case False
    then show ?thesis using in_range by (auto simp: AccessBlock_def)
  qed
qed

lemma setBlock_rep:
  assumes c: "cache_rep c os"
  shows "if unat x < set_count c \<and> unat y < way_count c
    then \<exists>c'. setBlock c x y tag state = Inr c' \<and> kept c c' \<and>
      (\<forall>s < set_count c. \<forall>w < way_count c. entry c' s w = (if s = unat x \<and> w = unat y then (tag, state) else entry c s w)) \<and>
      cache_rep c' (if replacement_policy c = ReplacementFIFO \<and> fst (entry c (unat x) (unat y)) \<noteq> tag
        then os(unat x := to_front (unat y) (os (unat x))) else os)
    else setBlock c x y tag state = Inl Assert"
proof -
  note in_range = getSet_in [OF cache_repD(1) [OF c]] getBlock_in [OF cache_repD(1) [OF c]]
  show ?thesis
  proof (cases "unat x < set_count c \<and> unat y < way_count c")
    case True
    let ?b = "block_at c (unat x) (unat y)"
    let ?move = "replacement_policy c = ReplacementFIFO \<and> fst (entry c (unat x) (unat y)) \<noteq> tag"
    let ?os = "if ?move then os(unat x := to_front (unat y) (os (unat x))) else os"
    obtain mem l where m: "move_to_head c (unat x) ?b = Inr (c\<lparr>nodes := mem, sets := (sets c)[unat x := l]\<rparr>)"
        "cache_rep (c\<lparr>nodes := mem, sets := (sets c)[unat x := l]\<rparr>) (os(unat x := to_front (unat y) (os (unat x))))"
      using move_to_head_rep [OF c] True by blast
    define c1 where "c1 = (if ?move then c\<lparr>nodes := mem, sets := (sets c)[unat x := l]\<rparr> else c)"
    have c1: "cache_rep c1 ?os" "kept c c1" "entry c1 = entry c" using m(2) c by (simp_all add: c1_def)
    have f: "num_sets c1 = num_sets c" "num_ways c1 = num_ways c" using kept_fields(1,2) [OF c1(2)] .
    have "setBlock c x y tag state = Inr (c1\<lparr>blocks := (blocks c1)[?b := (blocks c1 ! ?b)\<lparr>b_tag := tag, b_state := state\<rparr>]\<rparr>)"
      using True m(1) in_range by (simp add: setBlock_def c1_def entry_def)
    moreover note block_update [OF c1(1), where f = "\<lambda>b. b\<lparr>b_tag := tag, b_state := state\<rparr>" and s = "unat x" and w = "unat y", unfolded f c1(3)]
    ultimately show ?thesis using True kept_trans [OF c1(2) kept_blocks] by simp
  next
    case False
    then show ?thesis using in_range by (auto simp: setBlock_def)
  qed
qed

lemma tags_rep:
  assumes c: "cache_rep c os"
  shows "if unat x < set_count c \<and> unat y < way_count c
    then (\<exists>c'. setTransientTag c x y tag = Inr c' \<and> kept c c' \<and> cache_rep c' os \<and>
        (\<forall>s < set_count c. \<forall>w < way_count c. entry c' s w = entry c s w)) \<and>
      (\<exists>c'. setStateTag c x y state tag = Inr c' \<and> kept c c' \<and> cache_rep c' os \<and>
        (\<forall>s < set_count c. \<forall>w < way_count c. entry c' s w = (if s = unat x \<and> w = unat y then (tag, state) else entry c s w)))
    else setTransientTag c x y tag = Inl Assert \<and> setStateTag c x y state tag = Inl Assert"
proof -
  note in_range = getBlock_in [OF cache_repD(1) [OF c]]
  show ?thesis
  proof (cases "unat x < set_count c \<and> unat y < way_count c")
    case True
    note u = block_update [OF c, of "unat x" "unat y"]
    show ?thesis
      using True in_range u [of "\<lambda>b. b\<lparr>b_transient_tag := tag\<rparr>"] u [of "\<lambda>b. b\<lparr>b_state := state, b_tag := tag\<rparr>"]
      by (simp add: setTransientTag_def setStateTag_def) (simp add: entry_def)
  next
    case False
    then show ?thesis using in_range by (auto simp: setTransientTag_def setStateTag_def)
  qed
qed

lemma ReplaceBlock_rep:
  assumes c: "cache_rep c os" and ne: "0 < way_count c"
  shows "if \<not> unat x < set_count c \<or> replacement_policy c = ReplacementInvalid then ReplaceBlock c r x = Inl Assert
    else if replacement_policy c = ReplacementRandom then ReplaceBlock c r x = Inr (c, of_nat (r mod way_count c))
    else \<exists>c'. ReplaceBlock c r x = Inr (c', of_nat (last (os (unat x)))) \<and> kept c c' \<and> entry c' = entry c \<and>
      cache_rep c' (os(unat x := to_front (last (os (unat x))) (os (unat x))))"
proof -
  note D = cache_repD [OF c]
  note in_range = getSet_in [OF D(1)]
  have nz: "num_ways c \<noteq> 0" using ne by auto
  show ?thesis
  proof (cases "unat x < set_count c \<and> (replacement_policy c = ReplacementLRU \<or> replacement_policy c = ReplacementFIFO)")
    case True
    then have s: "unat x < set_count c" by simp
    let ?s = "unat x" and ?w = "last (os (unat x))"
    have "0 \<in> set (os ?s)" unfolding D(3) [OF s] using ne by simp
    then have nn: "os ?s \<noteq> []" by auto
    then have ws: "?w \<in> set (os ?s)" by simp
    have w: "?w < way_count c" using ws D(3) [OF s] by simp
    have r: "ilist_rep (nodes c) (sets c ! ?s) (map (block_at c ?s) (os ?s))" "\<forall>w \<in> set (os ?s). b_way_id (blocks c ! block_at c ?s w) = of_nat w"
      using D(4) [OF s] by (simp_all add: set_rep_def)
    have "map_option in_data (nodes c (block_at c ?s ?w)) = Some (block_at c ?s ?w)"
      using c block_at_in [OF D(1) s w] by (simp add: cache_rep_def cache_part_def)
    then have bk: "Back (nodes c) (sets c ! ?s) = Inr (Some (block_at c ?s ?w))"
      using Back_rep [OF r(1)] nn by (simp add: last_map)
    obtain mem l where m: "move_to_head c ?s (block_at c ?s ?w) = Inr (c\<lparr>nodes := mem, sets := (sets c)[?s := l]\<rparr>)"
        "cache_rep (c\<lparr>nodes := mem, sets := (sets c)[?s := l]\<rparr>) (os(?s := to_front ?w (os ?s)))"
      using move_to_head_rep [OF c s w] by blast
    have "b_way_id (blocks c ! block_at c ?s ?w) = of_nat ?w" using r(2) ws by blast
    then have "ReplaceBlock c r x = Inr (c\<lparr>nodes := mem, sets := (sets c)[?s := l]\<rparr>, of_nat ?w)"
      using True in_range [of x] bk m(1) by (simp add: ReplaceBlock_def)
    moreover have "replacement_policy c \<noteq> ReplacementInvalid" "replacement_policy c \<noteq> ReplacementRandom" using True by auto
    ultimately show ?thesis using s m(2) by simp
  next
    case False
    show ?thesis
    proof (cases "unat x < set_count c")
      case True
      then show ?thesis using False in_range [of x] nz by (cases "replacement_policy c") (simp_all add: ReplaceBlock_def)
    next
      case False
      then show ?thesis using in_range [of x] by (simp add: ReplaceBlock_def)
    qed
  qed
qed

section \<open>Construction gives a representation\<close>

text \<open>The nodes outside a set of indices and the entries stay as they are.\<close>

definition grown :: "nat set \<Rightarrow> cache \<Rightarrow> cache \<Rightarrow> bool" where
  "grown A c c' \<longleftrightarrow> kept c c' \<and> (\<forall>p. p \<notin> A \<longrightarrow> nodes c' p = nodes c p) \<and> entry c' = entry c"

lemma grown_trans: "grown A c c1 \<Longrightarrow> grown B c1 c2 \<Longrightarrow> grown (A \<union> B) c c2"
  by (auto simp: grown_def kept_def)

lemma init_way_rep:
  assumes c: "cache_part c os" and s: "s < set_count c" and w: "w < way_count c" and o: "os s = [0..<w]"
    and fresh: "nodes c (block_at c s w) = Some (new_node (block_at c s w))"
  shows "\<exists>c'. init_way (of_nat s) c w = Inr c' \<and> cache_part c' (os(s := [0..<Suc w])) \<and>
    grown (block_at c s ` {..<Suc w}) c c'"
proof -
  let ?b = "block_at c s w"
  define c1 where "c1 = c\<lparr>blocks := (blocks c)[?b := (blocks c ! ?b)\<lparr>b_way_id := of_nat w\<rparr>]\<rparr>"
  have geo: "geometry c" using c by (simp add: cache_part_def)
  have len: "?b < length (blocks c)" by (rule block_at_in [OF geo s w])
  have u: "unat (of_nat s :: unsigned) = s" "unat (of_nat w :: unsigned) = w"
    using s w unsigned_less [of "num_sets c", where 'a = nat] unsigned_less [of "num_ways c", where 'a = nat]
    by (simp_all add: unat_of_nat)
  have "set_rep c1 t (os t)" if t: "t < set_count c" for t
  proof -
    have "set (os t) \<subseteq> {..<way_count c}" using c t by (simp add: cache_part_def set_rep_def)
    then have "?b \<noteq> block_at c t v" if "v \<in> set (os t)" for v
      using block_at_inj [OF w, of v s t] that o by auto
    then show ?thesis using c t by (auto simp: cache_part_def set_rep_def c1_def nth_list_update)
  qed
  then have c1: "cache_part c1 os" using c by (simp add: cache_part_def geometry_def c1_def)
  have r: "il_id (sets c ! s) = s" "ilist_rep (nodes c) (sets c ! s) (map (block_at c s) [0..<w])"
      "\<forall>v < w. b_way_id (blocks c ! block_at c s v) = of_nat v"
    using c s o by (auto simp: cache_part_def set_rep_def)
  have n: "in_list (new_node ?b) = NULL" "in_next (new_node ?b) = NULL" by (simp_all add: new_node_def)
  obtain mem l where m: "PushBack (nodes c) (sets c ! s) ?b = Inr (mem, l, Some ?b)"
      "ilist_rep mem l (map (block_at c s) [0..<w] @ [?b])" "il_id l = s"
      "same_nodes (insert ?b (set (map (block_at c s) [0..<w]))) (nodes c) mem"
    using PushBack_rep [OF r(2) fresh n, unfolded r(1)] by blast
  let ?c = "c1\<lparr>nodes := mem, sets := (sets c)[s := l]\<rparr>"
  have w': "way_count c1 = way_count c" "set_count c1 = set_count c" "sets c1 = sets c" "nodes c1 = nodes c" by (simp_all add: c1_def)
  have im: "insert ?b (set (map (block_at c s) [0..<w])) = block_at c s ` set [0..<Suc w]" by (auto simp: less_Suc_eq)
  have "cache_part (c1\<lparr>nodes := mem, sets := (sets c1)[s := l]\<rparr>) (os(s := [0..<Suc w]))"
  proof (rule set_update [OF c1])
    show "same_nodes (block_at c1 s ` set [0..<Suc w]) (nodes c1) mem" using m(4) unfolding im w' .
    show "\<forall>v \<in> set [0..<Suc w]. b_way_id (blocks c1 ! block_at c1 s v) = of_nat v"
      using r(3) len unfolding w' by (auto simp: c1_def less_Suc_eq nth_list_update)
  qed (use m(2,3) s w o in \<open>auto simp: w'\<close>)
  moreover have "init_way (of_nat s) c w = Inr ?c"
    using s w m(1) by (simp add: init_way_def Let_def getSet_in [OF geo] getBlock_in [OF geo] u c1_def)
  moreover have "grown (block_at c s ` {..<Suc w}) c ?c"
    using m(4) len unfolding im by (auto simp: grown_def kept_def c1_def same_nodes_def entry_def nth_list_update fun_eq_iff atLeast0LessThan)
  ultimately show ?thesis unfolding w' by blast
qed

lemma init_set_rep:
  assumes c: "cache_part c os" and s: "s < set_count c" and o: "os s = []"
    and fresh: "\<forall>w < way_count c. nodes c (block_at c s w) = Some (new_node (block_at c s w))"
  shows "\<exists>c'. init_set c s = Inr c' \<and> cache_part c' (os(s := [0..<way_count c])) \<and>
    grown (block_at c s ` {..<way_count c}) c c'"
proof -
  have "\<exists>c'. run_list (init_way (of_nat s)) [0..<n] c = Inr c' \<and> cache_part c' (os(s := [0..<n])) \<and>
      grown (block_at c s ` {..<n}) c c'" if "n \<le> way_count c" for n
    using that
  proof (induction n)
    case 0
    then show ?case using c o by (simp add: grown_def fun_upd_idem)
  next
    case (Suc n)
    from Suc.IH [OF Suc_leD [OF Suc.prems]]
    obtain c1 where c1: "run_list (init_way (of_nat s)) [0..<n] c = Inr c1" "cache_part c1 (os(s := [0..<n]))"
        "grown (block_at c s ` {..<n}) c c1" by blast
    have f: "num_sets c1 = num_sets c" "num_ways c1 = num_ways c" using c1(3) by (simp_all add: grown_def kept_def)
    have "block_at c s n \<notin> block_at c s ` {..<n}" by auto
    then have "nodes c1 (block_at c s n) = Some (new_node (block_at c s n))"
      using c1(3) fresh Suc.prems by (simp add: grown_def)
    then obtain c' where c': "init_way (of_nat s) c1 n = Inr c'" "cache_part c' (os(s := [0..<Suc n]))"
        "grown (block_at c s ` {..<Suc n}) c1 c'"
      using init_way_rep [OF c1(2), of s n, unfolded f] s Suc.prems by auto
    have "run_list (init_way (of_nat s)) [0..<Suc n] c = Inr c'"
      using c1(1) c'(1) by (simp add: run_list_append)
    moreover have "block_at c s ` {..<n} \<union> block_at c s ` {..<Suc n} = block_at c s ` {..<Suc n}" by auto
    ultimately show ?case using c'(2) grown_trans [OF c1(3) c'(3)] by (simp only: simp_thms) blast
  qed
  then show ?thesis by (simp add: init_set_def)
qed

definition valid_geometry :: "unsigned \<Rightarrow> unsigned \<Rightarrow> unsigned \<Rightarrow> bool" where
  "valid_geometry ns nw bs \<longleftrightarrow>
     ns \<noteq> 0 \<and> nw \<noteq> 0 \<and> bs \<noteq> 0 \<and> ns AND (ns - 1) = 0 \<and> nw AND (nw - 1) = 0 \<and> bs AND (bs - 1) = 0 \<and>
     unat ns * unat nw < 2 ^ 31"

lemma cache_create_rep:
  assumes v: "valid_geometry ns nw bs"
  shows "\<exists>c. cache_create ns nw bs rp wp = ret c \<and> cache_rep c (\<lambda>s. [0..<unat nw]) \<and> num_sets c = ns \<and> num_ways c = nw \<and>
    replacement_policy c = rp \<and> block_size c = bs \<and> (\<forall>s < unat ns. \<forall>w < unat nw. entry c s w = (0, BlockInvalid))"
proof -
  obtain k1 k2 k3 where k: "k1 < 32" "ns = 2 ^ k1" "k2 < 32" "nw = 2 ^ k2" "k3 < 32" "bs = 2 ^ k3"
    using v pow2_test unfolding valid_geometry_def by metis
  let ?S = "unat ns" and ?W = "unat nw"
  define c0 where "c0 = \<lparr>num_sets = ns, num_ways = nw, block_size = bs, num_blocks = ns * nw, block_mask = bs - 1,
      log_block_size = k3, replacement_policy = rp, write_policy = wp,
      sets = map new_list [0..<?S], blocks = replicate (?S * ?W) new_block,
      nodes = (\<lambda>i. if i < ?S * ?W then Some (new_node i) else None)\<rparr>"
  have nb: "unat (ns * nw) = ?S * ?W" using v by (simp add: valid_geometry_def unat_word_ariths)
  have "?S \<le> ?S * ?W" using v by (simp add: valid_geometry_def Suc_le_eq unat_gt_0)
  moreover have "?S * ?W < 2 ^ 31" using v by (simp only: valid_geometry_def)
  ultimately have S: "?S < 2 ^ 31" by (rule order_le_less_trans)
  have arrays: "new_array (sint (ns * nw)) new_block = Inr (replicate (?S * ?W) new_block)"
      "new_array (sint ns) () = Inr (replicate ?S ())"
    using sint_unat_31 [of "ns * nw"] sint_unat_31 [OF S] v
    unfolding new_array_def nb valid_geometry_def by (simp_all flip: of_nat_mult)
  have geo: "geometry c0" using v k pow2_facts(1) [OF k(5)] by (auto simp: geometry_def c0_def valid_geometry_def)
  have f0: "num_sets c0 = ns" "num_ways c0 = nw" by (simp_all add: c0_def)
  have "ilist_rep (nodes c0) (new_list s) []" for s
    by (rule new_list_rep) (auto simp: c0_def new_node_def split: if_splits)
  moreover have "sets c0 ! s = new_list s" "il_id (new_list s) = s" if "s < ?S" for s
    using that by (simp_all add: c0_def new_list_def)
  ultimately have "set_rep c0 s []" if "s < ?S" for s
    using that by (simp add: set_rep_def)
  then have p0: "cache_part c0 (\<lambda>_. [])" using geo by (simp add: cache_part_def f0) (simp add: c0_def new_node_def)
  have loop: "\<exists>c. run_list init_set [0..<n] c0 = Inr c \<and> cache_part c (\<lambda>s. if s < n then [0..<?W] else []) \<and>
      grown {..<n * ?W} c0 c" if "n \<le> ?S" for n
    using that
  proof (induction n)
    case 0
    then show ?case using p0 by (simp add: grown_def)
  next
    case (Suc n)
    from Suc.IH [OF Suc_leD [OF Suc.prems]]
    obtain c1 where c1: "run_list init_set [0..<n] c0 = Inr c1" "cache_part c1 (\<lambda>s. if s < n then [0..<?W] else [])"
        "grown {..<n * ?W} c0 c1" by blast
    have f: "num_sets c1 = ns" "num_ways c1 = nw" using c1(3) f0 by (simp_all add: grown_def kept_def)
    have fresh: "\<forall>w < ?W. nodes c1 (n * ?W + w) = Some (new_node (n * ?W + w))"
      using c1(3) block_at_less [of n ?S _ ?W] Suc.prems by (simp add: grown_def) (simp add: c0_def)
    have eq: "(\<lambda>s. if s < n then [0..<?W] else [])(n := [0..<?W]) = (\<lambda>s. if s < Suc n then [0..<?W] else [])"
      by (auto simp: fun_eq_iff less_Suc_eq)
    obtain c where c: "init_set c1 n = Inr c" "cache_part c (\<lambda>s. if s < Suc n then [0..<?W] else [])"
        "grown ((\<lambda>w. n * ?W + w) ` {..<?W}) c1 c"
      using init_set_rep [OF c1(2), of n] Suc.prems fresh unfolding f eq by auto
    have "{..<n * ?W} \<union> (\<lambda>w. n * ?W + w) ` {..<?W} = {..<Suc n * ?W}"
      by (simp add: lessThan_atLeast0 ivl_disj_un add.commute)
    then have "grown {..<Suc n * ?W} c0 c"
      using grown_trans [OF c1(3) c(3)] by simp
    then show ?case using c1(1) c(1,2) by (simp add: run_list_append)
  qed
  obtain c where c: "run_list init_set [0..<?S] c0 = Inr c" "cache_part c (\<lambda>s. if s < ?S then [0..<?W] else [])"
      "grown {..<?S * ?W} c0 c" using loop [of ?S] by blast
  have f: "num_sets c = ns" "num_ways c = nw" "replacement_policy c = rp" "block_size c = bs"
    using c(3) by (simp_all add: grown_def kept_def c0_def)
  have "cache_part c (\<lambda>s. [0..<?W])" using c(2) by (auto simp: cache_part_def f)
  then have "cache_rep c (\<lambda>s. [0..<?W])" by (auto simp: cache_rep_def f)
  moreover have "entry c s w = (0, BlockInvalid)" if "s < ?S" "w < ?W" for s w
    using c(3) block_at_less [OF that] by (simp add: grown_def) (simp add: entry_def c0_def new_block_def)
  moreover have "unat (of_nat k3 :: unsigned) = k3" using k(5) by (simp add: unat_of_nat)
  then have "cache_create ns nw bs rp wp = ret c"
    using v c(1) LogBase2_pow [OF k(5)] k(6) arrays by (simp add: cache_create_def valid_geometry_def Let_def c0_def)
  ultimately show ?thesis using f by blast
qed

text \<open>With \<open>2 ^ 31\<close> blocks the size of the array is negative and the allocation throws.\<close>

lemma cache_create_too_large:
  assumes "ns AND (ns - 1) = 0" "nw AND (nw - 1) = 0" "k < 32" "unat ns * unat nw = 2 ^ 31"
  shows "cache_create ns nw (2 ^ k) rp wp = stops Abort"
proof -
  have "(2 :: unsigned) ^ k AND (2 ^ k - 1) = 0" by (rule pow2_facts(3) [OF assms(3)])
  moreover have "unat (ns * nw) = 2147483648" using assms(4) by (simp add: unat_word_ariths)
  then have "ns * nw = 2147483648" by (simp add: word_unat_eq_iff)
  then have "new_array (sint (ns * nw)) new_block = Inl Abort" by (simp add: new_array_def)
  ultimately show ?thesis using assms(1,2) LogBase2_pow [OF assms(3)] by (simp add: cache_create_def Let_def)
qed

section \<open>Lookup on the representation\<close>

text \<open>The first way from \<open>way_id\<close> on whose block has the tag and is valid.\<close>

definition hit :: "cache \<Rightarrow> nat \<Rightarrow> unsigned \<Rightarrow> nat \<Rightarrow> bool" where
  "hit c s tag w \<longleftrightarrow> w < way_count c \<and> fst (entry c s w) = tag \<and> snd (entry c s w) \<noteq> BlockInvalid"

lemma find_way_rep:
  assumes geo: "geometry c" and x: "unat x < set_count c"
  shows "find_way c x tag y = Inr (case find (hit c (unat x) tag) [unat y..<way_count c] of
      None \<Rightarrow> (False, 0, 0, BlockInvalid) | Some w \<Rightarrow> (True, x, of_nat w, snd (entry c (unat x) w)))"
  using assms
proof (induction c x tag y rule: find_way.induct)
  case (1 c x tag y)
  note geo = 1(2) and x = 1(3)
  show ?case
  proof (cases "y < num_ways c")
    case True
    then have lt: "unat y < way_count c" by (simp add: word_less_nat_alt)
    then have Suc: "unat (y + 1) = Suc (unat y)"
      using unsigned_less [of "num_ways c", where 'a = nat] by (simp add: unat_word_ariths)
    have b: "getBlock c x y = Inr (block_at c (unat x) (unat y))" using getBlock_in [OF geo] x lt by simp
    have l: "[unat y..<way_count c] = unat y # [unat (y + 1)..<way_count c]" using lt Suc by (simp add: upt_conv_Cons)
    show ?thesis
    proof (cases "hit c (unat x) tag (unat y)")
      case h: True
      then show ?thesis using True b l by (subst find_way.simps) (simp add: hit_def entry_def)
    next
      case False
      then have "find_way c x tag y = find_way c x tag (y + 1)"
        using True b lt by (subst find_way.simps) (auto simp: hit_def entry_def)
      then show ?thesis using 1(1) [OF True _ geo x, of "block_at c (unat x) (unat y)"] False l lt by (auto simp: hit_def entry_def)
    qed
  next
    case False
    then have "way_count c \<le> unat y" by (simp add: word_le_nat_alt not_less)
    then show ?thesis using False by (subst find_way.simps) simp
  qed
qed

section \<open>Runs\<close>

datatype cache_op =
    Access unsigned unsigned
  | Replace nat unsigned
  | Set_block unsigned unsigned unsigned BlockState
  | Set_transient unsigned unsigned unsigned
  | Set_state unsigned unsigned BlockState unsigned

text \<open>A step of a client, with the way that a replacement returns.\<close>

fun cache_step :: "cache \<Rightarrow> cache_op \<Rightarrow> (cache \<times> unsigned option) run" where
  "cache_step c (Access x y) = andthen (AccessBlock c x y) (\<lambda>c. Inr (c, None))"
| "cache_step c (Replace r x) = andthen (ReplaceBlock c r x) (\<lambda>(c, w). Inr (c, Some w))"
| "cache_step c (Set_block x y tag state) = andthen (setBlock c x y tag state) (\<lambda>c. Inr (c, None))"
| "cache_step c (Set_transient x y tag) = andthen (setTransientTag c x y tag) (\<lambda>c. Inr (c, None))"
| "cache_step c (Set_state x y state tag) = andthen (setStateTag c x y state tag) (\<lambda>c. Inr (c, None))"

primrec cache_run :: "cache \<Rightarrow> cache_op list \<Rightarrow> (cache \<times> unsigned option list) run" where
  "cache_run c [] = Inr (c, [])"
| "cache_run c (op # ops) =
     andthen (cache_step c op) (\<lambda>(c, r). andthen (cache_run c ops) (\<lambda>(c, rs). Inr (c, r # rs)))"

text \<open>The specification: for each set the ways in replacement order, for each block tag and state.\<close>

type_synonym cache_spec = "(nat \<Rightarrow> nat list) \<times> (nat \<Rightarrow> nat \<Rightarrow> unsigned \<times> BlockState)"

fun spec_cache_step ::
  "ReplacementPolicy \<Rightarrow> nat \<Rightarrow> nat \<Rightarrow> cache_spec \<Rightarrow> cache_op \<Rightarrow> (cache_spec \<times> unsigned option) run" where
  "spec_cache_step p S W (os, tbl) (Access x y) =
     (if \<not> (unat x < S \<and> unat y < W) then Inl Assert
      else Inr ((if p = ReplacementLRU \<or> p = ReplacementFIFO \<and> snd (tbl (unat x) (unat y)) = BlockInvalid
                 then os(unat x := to_front (unat y) (os (unat x))) else os, tbl), None))"
| "spec_cache_step p S W (os, tbl) (Replace r x) =
     (if \<not> unat x < S \<or> p = ReplacementInvalid then Inl Assert
      else if p = ReplacementRandom then Inr ((os, tbl), Some (of_nat (r mod W)))
      else Inr ((os(unat x := to_front (last (os (unat x))) (os (unat x))), tbl), Some (of_nat (last (os (unat x))))))"
| "spec_cache_step p S W (os, tbl) (Set_block x y tag state) =
     (if \<not> (unat x < S \<and> unat y < W) then Inl Assert
      else Inr ((if p = ReplacementFIFO \<and> fst (tbl (unat x) (unat y)) \<noteq> tag
                 then os(unat x := to_front (unat y) (os (unat x))) else os,
                 tbl(unat x := (tbl (unat x))(unat y := (tag, state)))), None))"
| "spec_cache_step p S W (os, tbl) (Set_transient x y tag) =
     (if \<not> (unat x < S \<and> unat y < W) then Inl Assert else Inr ((os, tbl), None))"
| "spec_cache_step p S W (os, tbl) (Set_state x y state tag) =
     (if \<not> (unat x < S \<and> unat y < W) then Inl Assert
      else Inr ((os, tbl(unat x := (tbl (unat x))(unat y := (tag, state)))), None))"

primrec spec_cache_run ::
  "ReplacementPolicy \<Rightarrow> nat \<Rightarrow> nat \<Rightarrow> cache_spec \<Rightarrow> cache_op list \<Rightarrow> (cache_spec \<times> unsigned option list) run" where
  "spec_cache_run p S W st [] = Inr (st, [])"
| "spec_cache_run p S W st (op # ops) =
     andthen (spec_cache_step p S W st op) (\<lambda>(st, r). andthen (spec_cache_run p S W st ops) (\<lambda>(st, rs). Inr (st, r # rs)))"

definition represents :: "cache \<Rightarrow> cache_spec \<Rightarrow> bool" where
  "represents c st \<longleftrightarrow>
     cache_rep c (fst st) \<and> (\<forall>s < set_count c. \<forall>w < way_count c. entry c s w = snd st s w)"

lemma cache_step_correct:
  assumes r: "represents c st" and ne: "0 < way_count c"
  shows "case spec_cache_step (replacement_policy c) (set_count c) (way_count c) st op of
      Inl e \<Rightarrow> cache_step c op = Inl e
    | Inr (st', out) \<Rightarrow> \<exists>c'. cache_step c op = Inr (c', out) \<and> represents c' st' \<and> kept c c'"
proof -
  obtain os tbl where st: "st = (os, tbl)" by (cases st)
  have c: "cache_rep c os" and e: "\<forall>s < set_count c. \<forall>w < way_count c. entry c s w = tbl s w"
    using r by (simp_all add: represents_def st)
  have rep: "represents c' (os', tbl')" if "kept c c'" "cache_rep c' os'"
      "\<forall>s < set_count c. \<forall>w < way_count c. entry c' s w = tbl' s w" for c' os' tbl'
    using that kept_fields(1,2) [OF that(1)] by (simp add: represents_def)
  show ?thesis
  proof (cases op)
    case (Access x y)
    show ?thesis
    proof (cases "unat x < set_count c \<and> unat y < way_count c")
      case True
      then obtain c' where "AccessBlock c x y = Inr c'" "kept c c'" "entry c' = entry c"
          "cache_rep c' (if replacement_policy c = ReplacementLRU \<or>
            replacement_policy c = ReplacementFIFO \<and> snd (entry c (unat x) (unat y)) = BlockInvalid
            then os(unat x := to_front (unat y) (os (unat x))) else os)"
        using AccessBlock_rep [OF c, of x y] by auto
      then show ?thesis using True e rep [of c'] by (auto simp: Access st)
    qed (use AccessBlock_rep [OF c, of x y] in \<open>auto simp: Access st\<close>)
  next
    case (Replace rnd x)
    show ?thesis
      using ReplaceBlock_rep [OF c ne, of x rnd] rep e r by (auto simp: Replace st split: if_splits)
  next
    case (Set_block x y tag state)
    show ?thesis
    proof (cases "unat x < set_count c \<and> unat y < way_count c")
      case True
      then obtain c' where "setBlock c x y tag state = Inr c'" "kept c c'"
          "\<forall>s < set_count c. \<forall>w < way_count c. entry c' s w = (if s = unat x \<and> w = unat y then (tag, state) else entry c s w)"
          "cache_rep c' (if replacement_policy c = ReplacementFIFO \<and> fst (entry c (unat x) (unat y)) \<noteq> tag
            then os(unat x := to_front (unat y) (os (unat x))) else os)"
        using setBlock_rep [OF c, of x y tag state] by auto
      then show ?thesis using True e by (auto simp: Set_block st intro!: rep)
    qed (use setBlock_rep [OF c, of x y tag state] in \<open>auto simp: Set_block st\<close>)
  next
    case (Set_transient x y tag)
    show ?thesis
    proof (cases "unat x < set_count c \<and> unat y < way_count c")
      case True
      then obtain c' where "setTransientTag c x y tag = Inr c'" "kept c c'" "cache_rep c' os"
          "\<forall>s < set_count c. \<forall>w < way_count c. entry c' s w = entry c s w"
        using tags_rep [OF c, of x y tag BlockInvalid] by auto
      then show ?thesis using True e by (auto simp: Set_transient st intro!: rep)
    qed (use tags_rep [OF c, of x y tag BlockInvalid] in \<open>auto simp: Set_transient st\<close>)
  next
    case (Set_state x y state tag)
    show ?thesis
    proof (cases "unat x < set_count c \<and> unat y < way_count c")
      case True
      then obtain c' where "setStateTag c x y state tag = Inr c'" "kept c c'" "cache_rep c' os"
          "\<forall>s < set_count c. \<forall>w < way_count c. entry c' s w = (if s = unat x \<and> w = unat y then (tag, state) else entry c s w)"
        using tags_rep [OF c, of x y tag state] by auto
      then show ?thesis using True e by (auto simp: Set_state st intro!: rep)
    qed (use tags_rep [OF c, of x y tag state] in \<open>auto simp: Set_state st\<close>)
  qed
qed

lemma cache_run_correct:
  assumes "represents c st" "0 < way_count c"
  shows "case spec_cache_run (replacement_policy c) (set_count c) (way_count c) st ops of
      Inl e \<Rightarrow> cache_run c ops = Inl e
    | Inr (st', outs) \<Rightarrow> \<exists>c'. cache_run c ops = Inr (c', outs) \<and> represents c' st' \<and> kept c c'"
  using assms
proof (induction ops arbitrary: c st)
  case Nil
  then show ?case by simp
next
  case (Cons op ops)
  note step = cache_step_correct [OF Cons.prems, of op]
  show ?case
  proof (cases "spec_cache_step (replacement_policy c) (set_count c) (way_count c) st op")
    case (Inl e)
    then show ?thesis using step by simp
  next
    case (Inr p)
    then obtain st' out where p: "spec_cache_step (replacement_policy c) (set_count c) (way_count c) st op = Inr (st', out)"
      by (cases p) simp
    obtain c' where c': "cache_step c op = Inr (c', out)" "represents c' st'" "kept c c'" using step p by auto
    note f = kept_fields [OF c'(3)]
    have "case spec_cache_run (replacement_policy c) (set_count c) (way_count c) st' ops of
        Inl e \<Rightarrow> cache_run c' ops = Inl e
      | Inr (st', outs) \<Rightarrow> \<exists>c''. cache_run c' ops = Inr (c'', outs) \<and> represents c'' st' \<and> kept c' c''"
      using Cons.IH [OF c'(2)] Cons.prems(2) by (simp only: f)
    then show ?thesis
      using p c'(1) kept_trans [OF c'(3)]
      by (cases "spec_cache_run (replacement_policy c) (set_count c) (way_count c) st' ops") auto
  qed
qed

section \<open>Least recent use\<close>

text \<open>What a step uses, and when a way of a set was last used: 0 when it was not.\<close>

fun op_uses :: "cache_op \<Rightarrow> unsigned option \<Rightarrow> (nat \<times> nat) list" where
  "op_uses (Access x y) out = [(unat x, unat y)]"
| "op_uses (Replace r x) (Some w) = [(unat x, unat w)]"
| "op_uses op out = []"

definition uses :: "cache_op list \<Rightarrow> unsigned option list \<Rightarrow> (nat \<times> nat) list" where
  "uses ops outs = concat (map2 op_uses ops outs)"

definition last_use :: "(nat \<times> nat) list \<Rightarrow> nat \<times> nat \<Rightarrow> nat" where
  "last_use us p = length (dropWhile (\<lambda>u. u \<noteq> p) (rev us))"

lemma last_use_snoc: "last_use (us @ [u]) p = (if p = u then Suc (length us) else last_use us p)"
  by (simp add: last_use_def)

lemma last_use_le: "last_use us p \<le> length us"
  unfolding last_use_def by (metis length_dropWhile_le length_rev)

text \<open>Way \<open>a\<close> of the set \<open>s\<close> was used later than way \<open>b\<close>; ways that were not used count by their
  number.\<close>

definition newer :: "(nat \<times> nat) list \<Rightarrow> nat \<Rightarrow> nat \<Rightarrow> nat \<Rightarrow> bool" where
  "newer us s a b \<longleftrightarrow>
     last_use us (s, b) < last_use us (s, a) \<or> last_use us (s, a) = 0 \<and> last_use us (s, b) = 0 \<and> a < b"

lemma newer_to_front:
  assumes o: "sorted_wrt (newer us s) ws" "distinct ws"
  shows "sorted_wrt (newer (us @ [(s, w)]) s) (to_front w ws)"
proof -
  let ?us = "us @ [(s, w)]"
  have "newer ?us s w b" if "b \<in> set (remove1 w ws)" for b
    using that o(2) last_use_le [of us "(s, b)"] by (auto simp: newer_def last_use_snoc)
  moreover have "sorted_wrt (newer ?us s) (remove1 w ws)"
  proof (rule sorted_wrt_mono_rel)
    show "sorted_wrt (newer us s) (remove1 w ws)" using o(1) by (induction ws) (auto dest: notin_set_remove1 set_remove1_subset [THEN subsetD])
    show "newer ?us s a b" if "a \<in> set (remove1 w ws)" "b \<in> set (remove1 w ws)" "newer us s a b" for a b
      using that o(2) by (auto simp: newer_def last_use_snoc)
  qed
  ultimately show ?thesis by (simp add: to_front_def)
qed

lemma newer_other: "fst u \<noteq> s \<Longrightarrow> newer (us @ [u]) s = newer us s"
  by (auto simp: newer_def last_use_snoc fun_eq_iff)

definition lru_ordered :: "nat \<Rightarrow> nat \<Rightarrow> (nat \<times> nat) list \<Rightarrow> (nat \<Rightarrow> nat list) \<Rightarrow> bool" where
  "lru_ordered S W us os \<longleftrightarrow>
     (\<forall>s < S. distinct (os s) \<and> set (os s) = {..<W} \<and> sorted_wrt (newer us s) (os s))"

lemma lru_ordered_use:
  assumes "lru_ordered S W us os" "w < W"
  shows "lru_ordered S W (us @ [(s, w)]) (os(s := to_front w (os s)))"
proof -
  have "distinct (to_front w (os s)) \<and> set (to_front w (os s)) = {..<W}" if "s < S"
    using assms that set_to_front [of w "os s"] by (auto simp: lru_ordered_def to_front_def)
  then show ?thesis using assms newer_to_front [of us s "os s" w] newer_other [of "(s, w)"] by (auto simp: lru_ordered_def)
qed

lemma lru_step:
  assumes step: "spec_cache_step ReplacementLRU S W (os, tbl) op = Inr ((os', tbl'), out)"
    and o: "lru_ordered S W us os" and W: "0 < W" "W < 2 ^ 32"
  shows "lru_ordered S W (us @ op_uses op out) os'"
proof (cases op)
  case (Access x y)
  then show ?thesis using step lru_ordered_use [OF o] by (auto split: if_splits)
next
  case (Replace r x)
  then have x: "unat x < S" and eq: "os' = os(unat x := to_front (last (os (unat x))) (os (unat x)))"
      "out = Some (of_nat (last (os (unat x))))"
    using step by (auto split: if_splits)
  have s: "set (os (unat x)) = {..<W}" using o x by (simp add: lru_ordered_def)
  have "0 \<in> set (os (unat x))" unfolding s using W by simp
  then have "last (os (unat x)) \<in> set (os (unat x))" by (intro last_in_set) auto
  then have w: "last (os (unat x)) < W" using s by simp
  then have "unat (of_nat (last (os (unat x))) :: unsigned) = last (os (unat x))" using W(2) by (simp add: unat_of_nat)
  then show ?thesis using lru_ordered_use [OF o w, of "unat x"] Replace eq by simp
qed (use step o in \<open>auto split: if_splits\<close>)

lemma lru_run:
  assumes "spec_cache_run ReplacementLRU S W st ops = Inr (st', outs)" "lru_ordered S W us (fst st)" "0 < W" "W < 2 ^ 32"
  shows "lru_ordered S W (us @ uses ops outs) (fst st')"
  using assms(1,2)
proof (induction ops arbitrary: st us outs)
  case Nil
  then show ?case by (simp add: uses_def)
next
  case (Cons op ops)
  obtain os tbl where st: "st = (os, tbl)" by (cases st)
  obtain os1 tbl1 out outs1 where s: "spec_cache_step ReplacementLRU S W (os, tbl) op = Inr ((os1, tbl1), out)"
      "spec_cache_run ReplacementLRU S W (os1, tbl1) ops = Inr (st', outs1)" "outs = out # outs1"
    using Cons.prems(1) by (auto simp: st andthen_eq_Inr)
  have "lru_ordered S W (us @ op_uses op out) (fst (os1, tbl1))"
    using lru_step [OF s(1) _ assms(3,4)] Cons.prems(2) by (simp add: st)
  from Cons.IH [OF s(2) this] show ?case using s(3) by (simp add: uses_def)
qed

section \<open>Properties\<close>

text \<open>The caches that clients have: constructed and used, without a stop.\<close>

definition cache_reached :: "unsigned \<Rightarrow> unsigned \<Rightarrow> unsigned \<Rightarrow> ReplacementPolicy \<Rightarrow> cache_op list \<Rightarrow> cache \<Rightarrow> unsigned option list \<Rightarrow> bool" where
  "cache_reached ns nw bs rp ops c outs \<longleftrightarrow>
     (\<exists>wp c0. cache_create ns nw bs rp wp = ret c0 \<and> cache_run c0 ops = Inr (c, outs))"

definition spec_create :: "nat \<Rightarrow> cache_spec" where
  "spec_create W = (\<lambda>s. [0..<W], \<lambda>s w. (0, BlockInvalid))"

lemma create_represents:
  assumes "valid_geometry ns nw bs"
  shows "\<exists>c. cache_create ns nw bs rp wp = ret c \<and> represents c (spec_create (unat nw)) \<and>
    num_sets c = ns \<and> num_ways c = nw \<and> replacement_policy c = rp \<and> block_size c = bs"
  using cache_create_rep [OF assms, of rp wp] by (auto simp: represents_def spec_create_def)

lemma reached_represents:
  assumes v: "valid_geometry ns nw bs" and r: "cache_reached ns nw bs rp ops c outs"
  shows "\<exists>st. spec_cache_run rp (unat ns) (unat nw) (spec_create (unat nw)) ops = Inr (st, outs) \<and> represents c st \<and>
    num_sets c = ns \<and> num_ways c = nw \<and> replacement_policy c = rp \<and> block_size c = bs"
proof -
  obtain wp c0 where c0: "cache_create ns nw bs rp wp = ret c0" "cache_run c0 ops = Inr (c, outs)"
    using r by (auto simp: cache_reached_def)
  have f: "represents c0 (spec_create (unat nw))" "num_sets c0 = ns" "num_ways c0 = nw" "replacement_policy c0 = rp" "block_size c0 = bs"
    using create_represents [OF v, of rp wp] c0(1) by auto
  have "0 < way_count c0" using v f(3) by (simp add: valid_geometry_def unat_gt_0)
  from cache_run_correct [OF f(1) this, of ops, unfolded f(2-4)]
  show ?thesis using c0(2) f(2-5)
    by (cases "spec_cache_run rp (unat ns) (unat nw) (spec_create (unat nw)) ops") (auto simp: kept_def)
qed

lemma decode_parts:
  assumes "geometry c"
  shows "DecodeAddress c a = Inr (drop_bit (log_block_size c) a mod num_sets c, a AND NOT (mask (log_block_size c)), a AND mask (log_block_size c))"
    "unat (drop_bit (log_block_size c) a mod num_sets c) = unat a div unat (block_size c) mod set_count c"
    "unat (drop_bit (log_block_size c) a mod num_sets c) < set_count c" "unat (block_size c) = 2 ^ log_block_size c"
    "block_mask c = mask (log_block_size c)" "num_sets c \<noteq> 0"
proof -
  obtain k where k: "k < 32" "num_sets c = 2 ^ k" using assms by (auto simp: geometry_def)
  show nz: "num_sets c \<noteq> 0" using k pow2_facts(4) by simp
  show "block_mask c = mask (log_block_size c)" using assms by (simp add: geometry_def)
  then show "DecodeAddress c a = Inr (drop_bit (log_block_size c) a mod num_sets c, a AND NOT (mask (log_block_size c)), a AND mask (log_block_size c))"
    using nz by (simp add: DecodeAddress_def)
  show b: "unat (block_size c) = 2 ^ log_block_size c" using assms unat_pow2 by (simp add: geometry_def)
  show e: "unat (drop_bit (log_block_size c) a mod num_sets c) = unat a div unat (block_size c) mod set_count c"
    by (simp only: unat_mod_distrib unat_drop_bit_eq b) (simp only: drop_bit_eq_div)
  show "unat (drop_bit (log_block_size c) a mod num_sets c) < set_count c"
    unfolding e using nz by (simp add: unat_gt_0)
qed

text \<open>A run of a client that the specification accepts.\<close>

lemma reached_run:
  assumes "valid_geometry ns nw bs" "spec_cache_run rp (unat ns) (unat nw) (spec_create (unat nw)) ops = Inr (st, outs)"
  shows "\<exists>c. cache_reached ns nw bs rp ops c outs"
proof -
  obtain c0 where c0: "cache_create ns nw bs rp WriteBack = ret c0" "represents c0 (spec_create (unat nw))"
      "num_sets c0 = ns" "num_ways c0 = nw" "replacement_policy c0 = rp"
    using create_represents [OF assms(1)] by blast
  have "0 < way_count c0" using assms(1) c0(4) by (simp add: valid_geometry_def unat_gt_0)
  from cache_run_correct [OF c0(2) this, of ops, unfolded c0(3-5)]
  show ?thesis using assms(2) c0(1) by (auto simp: cache_reached_def)
qed

lemma small_geometry: "valid_geometry 2 2 64" "unat (2 :: unsigned) = 2" "unat (64 :: unsigned) = 64"
  by (simp_all add: valid_geometry_def)

text \<open>C19: A cache of any geometry of powers of two and any policy is constructed, and every sequence of
  calls behaves as on a list of ways in replacement order for each set and a tag and state for each
  block: the same ways are replaced and the same call fails its assertion, which only a set or way
  out of range (or the invalid policy) makes happen. Afterwards the list of each set holds every way
  once, in that order, and each block has its tag and state.\<close>

theorem cache_refines_orders:
  assumes "valid_geometry ns nw bs"
  shows "\<exists>c0. cache_create ns nw bs rp wp = ret c0 \<and>
    (case spec_cache_run rp (unat ns) (unat nw) (spec_create (unat nw)) ops of
       Inl e \<Rightarrow> cache_run c0 ops = Inl e
     | Inr ((os, tbl), outs) \<Rightarrow>
         \<exists>c. cache_run c0 ops = Inr (c, outs) \<and>
           (\<forall>s < unat ns. distinct (os s) \<and> set (os s) = {..<unat nw} \<and>
              range_loop (nodes c) (sets c ! s) (iter_begin (sets c ! s)) [] = ret (map (\<lambda>w. s * unat nw + w) (os s))) \<and>
           (\<forall>x y. unat x < unat ns \<and> unat y < unat nw \<longrightarrow> block_info c x y = Inr (tbl (unat x) (unat y))))"
proof -
  obtain c0 where c0: "cache_create ns nw bs rp wp = ret c0" "represents c0 (spec_create (unat nw))"
      "num_sets c0 = ns" "num_ways c0 = nw" "replacement_policy c0 = rp"
    using create_represents [OF assms] by blast
  have "0 < way_count c0" using assms c0(4) by (simp add: valid_geometry_def unat_gt_0)
  note run = cache_run_correct [OF c0(2) this, of ops, unfolded c0(3-5)]
  show ?thesis
  proof (cases "spec_cache_run rp (unat ns) (unat nw) (spec_create (unat nw)) ops")
    case (Inl e)
    then show ?thesis using run c0(1) by simp
  next
    case (Inr p)
    then obtain os tbl outs where p: "p = ((os, tbl), outs)" by (metis surj_pair)
    obtain c where c: "cache_run c0 ops = Inr (c, outs)" "represents c (os, tbl)" "kept c0 c" using run Inr p by auto
    have f: "num_sets c = ns" "num_ways c = nw" using kept_fields(1,2) [OF c(3)] c0(3,4) by simp_all
    have rep: "cache_rep c os" "\<forall>s < unat ns. \<forall>w < unat nw. entry c s w = tbl s w" using c(2) by (simp_all add: represents_def f)
    note D = cache_repD [OF rep(1), unfolded f]
    have "range_loop (nodes c) (sets c ! s) (iter_begin (sets c ! s)) [] = ret (map (\<lambda>w. s * unat nw + w) (os s))" if s: "s < unat ns" for s
    proof -
      have r: "ilist_rep (nodes c) (sets c ! s) (map (\<lambda>w. s * unat nw + w) (os s))" using D(4) [OF s] by (simp add: set_rep_def f)
      have "in_data (the (nodes c (s * unat nw + w))) = s * unat nw + w" if "w \<in> set (os s)" for w
      proof -
        have "s * unat nw + w < length (blocks c)" using block_at_in [OF D(1), of s w] s that D(3) [OF s] by (simp add: f)
        then have "map_option in_data (nodes c (s * unat nw + w)) = Some (s * unat nw + w)" using D(2) by (simp add: cache_part_def)
        then show ?thesis by auto
      qed
      then show ?thesis
        using range_loop_rep [OF r, of 0 "[]"] ilist_repD(3) [OF r] by (simp add: iter_begin_def)
    qed
    moreover have "block_info c x y = Inr (tbl (unat x) (unat y))" if "unat x < unat ns" "unat y < unat nw" for x y
      using that rep(2) getBlock_in [OF D(1), of x y] by (auto simp: block_info_def entry_def f)
    ultimately show ?thesis using Inr p c0(1) c(1) D(3,5) by auto
  qed
qed

theorem cache_refines_orders_witness:
  "\<exists>c0 c. cache_create 2 2 64 ReplacementFIFO WriteBack = ret c0 \<and>
     cache_run c0 [Set_block 1 0 64 BlockShared, Replace 0 1] = Inr (c, [None, Some 1]) \<and> block_info c 1 0 = Inr (64, BlockShared)"
proof -
  have "spec_cache_run ReplacementFIFO 2 2 (spec_create 2) [Set_block 1 0 64 BlockShared, Replace 0 1] =
      Inr (((\<lambda>s. [0..<2])(1 := [0, 1], 1 := [1, 0]), (\<lambda>s w. (0, BlockInvalid))(1 := (\<lambda>w. (0, BlockInvalid))(0 := (64, BlockShared)))), [None, Some 1])"
    by (simp add: spec_create_def to_front_def upt_rec numeral_2_eq_2 fun_eq_iff)
  then show ?thesis
    using cache_refines_orders [OF small_geometry(1), of ReplacementFIFO WriteBack "[Set_block 1 0 64 BlockShared, Replace 0 1]"]
    by (auto simp: small_geometry)
qed

text \<open>C18: Under the LRU policy a replacement takes the way of the set that was used least recently: every
  other way was accessed or replaced later, and among ways that were never used it has the highest
  number.\<close>

theorem cache_lru_victim:
  assumes "valid_geometry ns nw bs" "cache_reached ns nw bs ReplacementLRU ops c outs" "unat x < unat ns"
  shows "\<exists>c' v. ReplaceBlock c r x = Inr (c', v) \<and> unat v < unat nw \<and>
    (\<forall>w < unat nw. w \<noteq> unat v \<longrightarrow> newer (uses ops outs) (unat x) w (unat v))"
proof -
  obtain st where st: "spec_cache_run ReplacementLRU (unat ns) (unat nw) (spec_create (unat nw)) ops = Inr (st, outs)"
      "represents c st" "num_sets c = ns" "num_ways c = nw" "replacement_policy c = ReplacementLRU"
    using reached_represents [OF assms(1,2)] by blast
  have W: "0 < unat nw" "unat nw < 2 ^ 32"
    using assms(1) unsigned_less [of nw, where 'a = nat] by (simp_all add: valid_geometry_def unat_gt_0)
  have "sorted_wrt (newer [] s) [0..<unat nw]" for s
    by (simp add: sorted_wrt_iff_nth_less newer_def last_use_def)
  then have "lru_ordered (unat ns) (unat nw) [] (fst (spec_create (unat nw)))"
    by (auto simp: lru_ordered_def spec_create_def)
  then have o: "lru_ordered (unat ns) (unat nw) (uses ops outs) (fst st)" using lru_run [OF st(1) _ W] by fastforce
  let ?ws = "fst st (unat x)"
  have s: "set ?ws = {..<unat nw}" "distinct ?ws" "sorted_wrt (newer (uses ops outs) (unat x)) ?ws"
    using o assms(3) by (simp_all add: lru_ordered_def)
  have "0 \<in> set ?ws" unfolding s(1) using W by simp
  then have ne: "?ws \<noteq> []" by auto
  then have split: "?ws = butlast ?ws @ [last ?ws]" by simp
  have lt: "last ?ws < unat nw" using last_in_set [OF ne] s(1) by simp
  then have u: "unat (of_nat (last ?ws) :: unsigned) = last ?ws" using W(2) by (simp add: unat_of_nat)
  have "newer (uses ops outs) (unat x) w (last ?ws)" if "w < unat nw" "w \<noteq> last ?ws" for w
  proof -
    have "w \<in> set ?ws" using that s(1) by simp
    then have "w \<in> set (butlast ?ws)" using that(2) by (subst (asm) split) auto
    moreover have "sorted_wrt (newer (uses ops outs) (unat x)) (butlast ?ws @ [last ?ws])" using s(3) split by simp
    ultimately show ?thesis by (simp add: sorted_wrt_append)
  qed
  moreover obtain c' where "ReplaceBlock c r x = Inr (c', of_nat (last ?ws))"
    using ReplaceBlock_rep [of c "fst st" x r] st(2-5) W(1) assms(3) by (auto simp: represents_def)
  ultimately show ?thesis using lt u by metis
qed

theorem cache_lru_victim_witness:
  "\<exists>c outs c' v. cache_reached 2 2 64 ReplacementLRU [Access 1 0, Access 1 1] c outs \<and> ReplaceBlock c 0 1 = Inr (c', v) \<and> unat v = 0"
proof -
  obtain st where "spec_cache_run ReplacementLRU 2 2 (spec_create 2) [Access 1 0, Access 1 1] = Inr (st, [None, None])"
    by (simp add: spec_create_def)
  then obtain c where c: "cache_reached 2 2 64 ReplacementLRU [Access 1 0, Access 1 1] c [None, None]"
    using reached_run [OF small_geometry(1), unfolded small_geometry(2)] by blast
  obtain c' v where v: "ReplaceBlock c 0 1 = Inr (c', v)" "unat v < 2"
      "\<forall>w < 2. w \<noteq> unat v \<longrightarrow> newer (uses [Access 1 0, Access 1 1] [None, None]) 1 w (unat v)"
    using cache_lru_victim [OF small_geometry(1) c, where x = 1 and r = 0] by (auto simp: small_geometry)
  have "\<not> newer (uses [Access 1 0, Access 1 1] [None, None]) 1 0 1"
    by (simp add: newer_def uses_def last_use_def)
  then have "unat v = 0" using v(2,3) by (cases "unat v") auto
  then show ?thesis using c v(1) by blast
qed

text \<open>C20: \<open>FindBlock\<close> finds an address exactly when the set that \<open>DecodeAddress\<close> gives for it has a valid
  block with its tag, and then returns the set, the lowest such way and the state of the block;
  otherwise it returns 0, 0 and the invalid state.\<close>

theorem cache_find_block:
  assumes "valid_geometry ns nw bs" "cache_reached ns nw bs rp ops c outs"
  shows "\<exists>x tag off. DecodeAddress c a = Inr (x, tag, off) \<and>
    (if \<exists>y st. unat y < unat nw \<and> block_info c x y = Inr (tag, st) \<and> st \<noteq> BlockInvalid
     then \<exists>y st. FindBlock c a = Inr (True, x, y, st) \<and> unat y < unat nw \<and> block_info c x y = Inr (tag, st) \<and> st \<noteq> BlockInvalid \<and>
       (\<forall>z st. unat z < unat y \<longrightarrow> block_info c x z = Inr (tag, st) \<longrightarrow> st = BlockInvalid)
     else FindBlock c a = Inr (False, 0, 0, BlockInvalid))"
proof -
  obtain st where st: "represents c st" "num_ways c = nw" using reached_represents [OF assms] by blast
  have geo: "geometry c" using st(1) cache_repD(1) by (auto simp: represents_def)
  note d = decode_parts(1-3) [OF geo, where a = a] decode_parts(4-6) [OF geo]
  let ?x = "drop_bit (log_block_size c) a mod num_sets c" and ?tag = "a AND NOT (mask (log_block_size c))"
  let ?hit = "hit c (unat ?x) ?tag"
  have info: "block_info c ?x y = Inr (entry c (unat ?x) (unat y))" if "unat y < unat nw" for y
    using getBlock_in [OF geo, of ?x y] d(3) that st(2) by (simp add: block_info_def entry_def)
  have u: "unat (of_nat w :: unsigned) = w" if "w < unat nw" for w
    using that unsigned_less [of nw, where 'a = nat] by (simp add: unat_of_nat)
  have hit_info: "?hit (unat y) \<longleftrightarrow> unat y < unat nw \<and> (\<exists>st. block_info c ?x y = Inr (?tag, st) \<and> st \<noteq> BlockInvalid)" for y
    using info [of y] st(2) by (cases "entry c (unat ?x) (unat y)") (auto simp: hit_def)
  have find: "FindBlock c a = Inr (case find ?hit [0..<unat nw] of
      None \<Rightarrow> (False, 0, 0, BlockInvalid) | Some w \<Rightarrow> (True, ?x, of_nat w, snd (entry c (unat ?x) w)))"
    using find_way_rep [OF geo d(3), of ?tag 0] d(5,6) st(2) by (simp add: FindBlock_def)
  show ?thesis
  proof (cases "find ?hit [0..<unat nw]")
    case None
    then have "\<not> ?hit (unat y)" if "unat y < unat nw" for y using that by (auto simp: find_None_iff)
    then have "\<not> (\<exists>y st. unat y < unat nw \<and> block_info c ?x y = Inr (?tag, st) \<and> st \<noteq> BlockInvalid)" using hit_info by blast
    then show ?thesis using d(1) find None by auto
  next
    case (Some w)
    then obtain i where i: "i < unat nw" "w = i" "?hit w" "\<forall>j < i. \<not> ?hit j" by (auto simp: find_Some_iff)
    then have w: "w < unat nw" "\<forall>z :: unsigned. unat z < w \<longrightarrow> \<not> ?hit (unat z)" by auto
    let ?y = "of_nat w :: unsigned"
    have y: "unat ?y = w" by (rule u [OF w(1)])
    obtain state where e: "block_info c ?x ?y = Inr (?tag, state)" "state \<noteq> BlockInvalid" using hit_info [of ?y] i(3) y by auto
    have "entry c (unat ?x) w = (?tag, state)" using info [of ?y] e(1) y w(1) by simp
    then have "FindBlock c a = Inr (True, ?x, ?y, state)" using find Some by simp
    moreover have "st = BlockInvalid" if "unat z < unat ?y" "block_info c ?x z = Inr (?tag, st)" for z st
      using w(2) hit_info [of z] that y w(1) by auto
    ultimately have "\<exists>y st. FindBlock c a = Inr (True, ?x, y, st) \<and> unat y < unat nw \<and> block_info c ?x y = Inr (?tag, st) \<and>
        st \<noteq> BlockInvalid \<and> (\<forall>z st. unat z < unat y \<longrightarrow> block_info c ?x z = Inr (?tag, st) \<longrightarrow> st = BlockInvalid)"
      using e y w(1) by (intro exI [of _ ?y] exI [of _ state]) auto
    moreover have "\<exists>y st. unat y < unat nw \<and> block_info c ?x y = Inr (?tag, st) \<and> st \<noteq> BlockInvalid"
      using e y w(1) by (intro exI [of _ ?y] exI [of _ state]) simp
    ultimately show ?thesis
      by (intro exI [of _ ?x] exI [of _ ?tag] exI [of _ "a AND mask (log_block_size c)"]) (simp only: d(1) if_True simp_thms)
  qed
qed

theorem cache_find_block_witness:
  "\<exists>c x tag off. cache_reached 2 2 64 ReplacementLRU [Set_block 1 0 64 BlockShared] c [None] \<and> DecodeAddress c 100 = Inr (x, tag, off)"
proof -
  obtain st where "spec_cache_run ReplacementLRU 2 2 (spec_create 2) [Set_block 1 0 64 BlockShared] = Inr (st, [None])"
    by (simp add: spec_create_def)
  then obtain c where "cache_reached 2 2 64 ReplacementLRU [Set_block 1 0 64 BlockShared] c [None]"
    using reached_run [OF small_geometry(1), unfolded small_geometry(2)] by blast
  then show ?thesis using cache_find_block [OF small_geometry(1), where a = 100] by blast
qed

text \<open>C21: The parts of an address: the set is the number of the block modulo the number of sets, the tag is
  the address of the first byte of the block, and the offset is the position in the block. Two
  addresses have the same set and tag exactly when they are in the same block.\<close>

theorem cache_decode_address:
  assumes "valid_geometry ns nw bs" "cache_reached ns nw bs rp ops c outs"
  shows "\<exists>x tag off y tag' off'. DecodeAddress c a = Inr (x, tag, off) \<and> DecodeAddress c b = Inr (y, tag', off') \<and>
    unat x = unat a div unat bs mod unat ns \<and> unat tag = unat a div unat bs * unat bs \<and> unat off = unat a mod unat bs \<and>
    tag + off = a \<and> ((x, tag) = (y, tag') \<longleftrightarrow> unat a div unat bs = unat b div unat bs)"
proof -
  obtain st where st: "represents c st" "num_sets c = ns" "block_size c = bs" using reached_represents [OF assms] by blast
  have geo: "geometry c" using st(1) cache_repD(1) by (auto simp: represents_def)
  note da = decode_parts(1,2) [OF geo, where a = a] decode_parts(4) [OF geo] and db = decode_parts(1,2) [OF geo, where a = b]
  let ?k = "log_block_size c"
  have bs: "unat bs = 2 ^ ?k" using da(3) st(3) by simp
  have base: "unat (a AND NOT (mask ?k)) = unat a div unat bs * unat bs" "unat (b AND NOT (mask ?k)) = unat b div unat bs * unat bs"
    unfolding bs by (rule unat_base)+
  then have "a AND NOT (mask ?k) = b AND NOT (mask ?k) \<longleftrightarrow> unat a div unat bs = unat b div unat bs"
    unfolding word_unat_eq_iff by (simp add: bs)
  moreover have "drop_bit ?k a mod num_sets c = drop_bit ?k b mod num_sets c" if "unat a div unat bs = unat b div unat bs"
    unfolding word_unat_eq_iff da(2) db(2) using that st(3) by simp
  ultimately show ?thesis
    using da(1,2) db(1) st(2,3) base(1) unat_offset [of a ?k] base_plus_offset [of a ?k] bs by auto
qed

theorem cache_decode_address_witness:
  "\<exists>c x tag off. cache_reached 2 2 64 ReplacementLRU [] c [] \<and> DecodeAddress c 229 = Inr (x, tag, off) \<and>
     unat x = 1 \<and> unat tag = 192 \<and> unat off = 37"
proof -
  obtain st where "spec_cache_run ReplacementLRU 2 2 (spec_create 2) [] = Inr (st, [])" by simp
  then obtain c where "cache_reached 2 2 64 ReplacementLRU [] c []"
    using reached_run [OF small_geometry(1), unfolded small_geometry(2)] by blast
  then show ?thesis using cache_decode_address [OF small_geometry(1), where a = 229] by (fastforce simp: small_geometry(2,3))
qed

text \<open>A fresh block has the tag 0, so under the FIFO policy bringing in a block whose tag is 0 does not
  count as new: the way stays the next victim.\<close>

lemma cache_fifo_tag_0:
  assumes "valid_geometry ns nw bs"
  shows "\<exists>c0 c. cache_create ns nw bs ReplacementFIFO WriteBack = ret c0 \<and>
    cache_run c0 [Set_block 0 (nw - 1) 0 BlockShared, Replace 0 0] = Inr (c, [None, Some (nw - 1)])"
proof -
  have p: "0 < unat ns" "0 < unat nw" and n: "unat (nw - 1) = unat nw - 1"
    using assms by (simp_all add: valid_geometry_def unat_gt_0 unat_minus_one)
  then have l: "last [0..<unat nw] = unat (nw - 1)" by simp
  have "\<exists>os tbl. spec_cache_run ReplacementFIFO (unat ns) (unat nw) (spec_create (unat nw)) [Set_block 0 (nw - 1) 0 BlockShared, Replace 0 0] =
      Inr ((os, tbl), [None, Some (nw - 1)])"
    using p n l by (simp add: spec_create_def)
  then show ?thesis using cache_refines_orders [OF assms, of ReplacementFIFO WriteBack "[Set_block 0 (nw - 1) 0 BlockShared, Replace 0 0]"] by auto
qed

end
