(* ===== verification/BranchPredictor.thy ===== *)
theory BranchPredictor
  imports Arrays Aligned_Words Recency
begin

text \<open>
  The branch predictor of the x86 processor model, \<open>src/arch/x86/timing/BranchPredictor.cc\<close>: tables of
  2-bit counters for directions (bimodal, two-level adaptive, or both with a choice between them), a
  branch target buffer (BTB) and a return address stack (RAS).

  The static configuration variables are the record \<open>bp_config\<close>, an argument of the operations. Sizes,
  indices and counters are integers (a product of sizes that overflows \<open>int\<close> is undefined in C++ and
  excluded by \<open>valid_config\<close>); addresses and history registers are 32-bit words. Arrays are lists,
  an index outside of them stops with \<open>Segv\<close>; an array that is not allocated is empty. A micro-instruction
  is the record of its fields that the predictor uses. The operations that write predictions into the
  micro-instruction return it.
\<close>

section \<open>Data\<close>

datatype Prediction = PredictionNotTaken | PredictionTaken

datatype Kind = KindInvalid | KindPerfect | KindTaken | KindNottaken | KindBimod | KindTwoLevel | KindCombined

record bp_config =
  kind :: Kind
  btb_num_sets :: int
  btb_num_ways :: int
  ras_size :: int
  bimod_size :: int
  choice_size :: int
  two_level_l1_size :: int
  two_level_l2_size :: int
  two_level_history_size :: int
  two_level_l2_height :: int

record BtbEntry =
  source :: "32 word"
  target :: "32 word"
  counter :: int

record predictor =
  ras :: "32 word list"
  ras_index :: int
  btb :: "BtbEntry list"
  bimod :: "int list"
  two_level_bht :: "32 word list"
  two_level_pht :: "int list"
  choice :: "int list"
  accesses :: int
  hits :: int

datatype Opcode = OpcodeIbranch | OpcodeCall | OpcodeRet | OpcodeOther

record uop =
  flag_ctrl :: bool
  flag_uncond :: bool
  opcode :: Opcode
  eip :: "32 word"
  neip :: "32 word"
  mop_size :: int
  predicted_neip :: "32 word"
  speculative_mode :: bool
  prediction :: Prediction
  bimod_index :: int
  bimod_prediction :: Prediction
  two_level_bht_index :: int
  two_level_pht_row :: int
  two_level_pht_col :: int
  two_level_prediction :: Prediction
  choice_index :: int
  choice_prediction :: Prediction

section \<open>Counters and indices\<close>

text \<open>An index computed as \<open>eip & (size - 1)\<close>, stored in an \<open>int\<close>.\<close>

definition table_index :: "32 word \<Rightarrow> int \<Rightarrow> int" where
  "table_index a sz = sint (a AND (of_int sz - 1))"

text \<open>The 2-bit counters.\<close>

definition count_up :: "int \<Rightarrow> int" where
  "count_up c = (if 3 < c + 1 then 3 else c + 1)"

definition count_down :: "int \<Rightarrow> int" where
  "count_down c = (if c - 1 < 0 then 0 else c - 1)"

definition train :: "bool \<Rightarrow> int \<Rightarrow> int" where
  "train up c = (if up then count_up c else count_down c)"

definition predict :: "int \<Rightarrow> Prediction" where
  "predict c = (if 1 < c then PredictionTaken else PredictionNotTaken)"

section \<open>Configuration\<close>

text \<open>\<open>x & (x - 1)\<close> on \<open>int\<close> is not 0.\<close>

definition not_pow2 :: "int \<Rightarrow> bool" where
  "not_pow2 x \<longleftrightarrow> (of_int x :: 32 word) AND (of_int x - 1) \<noteq> 0"

datatype bp_error = Bimod_not_pow2 | Choice_not_pow2 | Sets_not_pow2 | Ways_not_pow2 | History_range | Two_level_not_pow2

text \<open>The values of the section in the configuration file are the arguments; a variable that is not in the
  file has the default.\<close>

definition read_config :: "Kind option \<Rightarrow> (string \<Rightarrow> int option) \<Rightarrow> bp_config" where
  "read_config file_kind file =
     (let ReadInt = (\<lambda>var d. case file var of Some v \<Rightarrow> v | None \<Rightarrow> d)
      in \<lparr>kind = (case file_kind of Some k \<Rightarrow> k | None \<Rightarrow> KindTwoLevel),
          btb_num_sets = ReadInt ''BTB.Sets'' 256,
          btb_num_ways = ReadInt ''BTB.Assoc'' 4,
          ras_size = ReadInt ''RAS.Size'' 32,
          bimod_size = ReadInt ''Bimod.Size'' 1024,
          choice_size = ReadInt ''Choice.Size'' 1024,
          two_level_l1_size = ReadInt ''TwoLevel.L1Size'' 1,
          two_level_l2_size = ReadInt ''TwoLevel.L2Size'' 1024,
          two_level_history_size = ReadInt ''TwoLevel.HistorySize'' 8,
          two_level_l2_height = 2 ^ nat (ReadInt ''TwoLevel.HistorySize'' 8)\<rparr>)"

definition ParseConfiguration :: "Kind option \<Rightarrow> (string \<Rightarrow> int option) \<Rightarrow> bp_error + bp_config" where
  "ParseConfiguration file_kind file =
     (let cfg = read_config file_kind file
      in if not_pow2 (bimod_size cfg) then Inl Bimod_not_pow2
         else if not_pow2 (choice_size cfg) then Inl Choice_not_pow2
         else if not_pow2 (btb_num_sets cfg) then Inl Sets_not_pow2
         else if not_pow2 (btb_num_ways cfg) then Inl Ways_not_pow2
         else if two_level_history_size cfg < 1 \<or> 30 < two_level_history_size cfg then Inl History_range
         else if not_pow2 (two_level_l1_size cfg) then Inl Two_level_not_pow2
         else if not_pow2 (two_level_l2_size cfg) then Inl Two_level_not_pow2
         else Inr cfg)"

section \<open>Construction\<close>

definition has_bimod :: "bp_config \<Rightarrow> bool" where
  "has_bimod cfg \<longleftrightarrow> kind cfg = KindBimod \<or> kind cfg = KindCombined"

definition has_two_level :: "bp_config \<Rightarrow> bool" where
  "has_two_level cfg \<longleftrightarrow> kind cfg = KindTwoLevel \<or> kind cfg = KindCombined"

definition assign_counters :: "bp_config \<Rightarrow> BtbEntry list \<Rightarrow> BtbEntry list run" where
  "assign_counters cfg b =
     run_list (\<lambda>b i. run_list (\<lambda>b j.
         andthen (rd b (int i * btb_num_ways cfg + int j)) (\<lambda>entry.
         wr b (int i * btb_num_ways cfg + int j) (entry\<lparr>counter := int j\<rparr>)))
       [0..<nat (btb_num_ways cfg)] b)
     [0..<nat (btb_num_sets cfg)] b"

definition predictor_create :: "bp_config \<Rightarrow> predictor run" where
  "predictor_create cfg =
     andthen (new_array (ras_size cfg) 0) (\<lambda>r.
     andthen (if has_bimod cfg then new_array (bimod_size cfg) 2 else Inr []) (\<lambda>bi.
     andthen (if has_two_level cfg then new_array (two_level_l1_size cfg) 0 else Inr []) (\<lambda>bht.
     andthen (if has_two_level cfg then new_array (two_level_l2_size cfg * two_level_l2_height cfg) 2 else Inr []) (\<lambda>pht.
     andthen (if kind cfg = KindCombined then new_array (choice_size cfg) 2 else Inr []) (\<lambda>ch.
     andthen (new_array (btb_num_sets cfg * btb_num_ways cfg) \<lparr>source = 0, target = 0, counter = 0\<rparr>) (\<lambda>b.
     andthen (assign_counters cfg b) (\<lambda>b.
     Inr \<lparr>ras = r, ras_index = 0, btb = b, bimod = bi, two_level_bht = bht, two_level_pht = pht, choice = ch,
       accesses = 0, hits = 0\<rparr>)))))))"

section \<open>Predicting directions\<close>

definition is_taken :: "uop \<Rightarrow> bool" where
  "is_taken u \<longleftrightarrow> neip u \<noteq> eip u + of_int (mop_size u)"

definition lookup_bimod :: "bp_config \<Rightarrow> predictor \<Rightarrow> uop \<Rightarrow> uop run" where
  "lookup_bimod cfg p u =
     (let i = table_index (eip u) (bimod_size cfg)
      in andthen (rd (bimod p) i) (\<lambda>c.
         Inr (u\<lparr>bimod_index := i, bimod_prediction := predict c, prediction := predict c\<rparr>)))"

definition lookup_two_level :: "bp_config \<Rightarrow> predictor \<Rightarrow> uop \<Rightarrow> uop run" where
  "lookup_two_level cfg p u =
     (let i = table_index (eip u) (two_level_l1_size cfg)
      in andthen (rd (two_level_bht p) i) (\<lambda>h.
         let row = sint h; col = table_index (eip u) (two_level_l2_size cfg)
         in if \<not> row < two_level_l2_height cfg then Inl Assert
            else andthen (rd (two_level_pht p) (row * two_level_l2_size cfg + col)) (\<lambda>c.
              Inr (u\<lparr>two_level_bht_index := i, two_level_pht_row := row, two_level_pht_col := col,
                two_level_prediction := predict c, prediction := predict c\<rparr>))))"

definition lookup_choice :: "bp_config \<Rightarrow> predictor \<Rightarrow> uop \<Rightarrow> uop run" where
  "lookup_choice cfg p u =
     (let i = table_index (eip u) (choice_size cfg)
      in andthen (rd (choice p) i) (\<lambda>c.
         let pr = (if 1 < c then two_level_prediction u else bimod_prediction u)
         in Inr (u\<lparr>choice_index := i, choice_prediction := pr, prediction := pr\<rparr>)))"

definition Lookup :: "bp_config \<Rightarrow> predictor \<Rightarrow> uop \<Rightarrow> (uop \<times> Prediction) run" where
  "Lookup cfg p u =
     (if \<not> flag_ctrl u then Inl Assert
      else if flag_uncond u then Inr (u\<lparr>prediction := PredictionTaken\<rparr>, PredictionTaken)
      else if opcode u = OpcodeIbranch then Inr (u\<lparr>prediction := PredictionTaken\<rparr>, PredictionTaken)
      else
        let u = (if kind cfg = KindPerfect
                 then u\<lparr>prediction := (if is_taken u then PredictionTaken else PredictionNotTaken)\<rparr> else u);
            u = (if kind cfg = KindTaken then u\<lparr>prediction := PredictionTaken\<rparr> else u);
            u = (if kind cfg = KindNottaken then u\<lparr>prediction := PredictionNotTaken\<rparr> else u)
        in andthen (if has_bimod cfg then lookup_bimod cfg p u else Inr u) (\<lambda>u.
           andthen (if has_two_level cfg then lookup_two_level cfg p u else Inr u) (\<lambda>u.
           andthen (if kind cfg = KindCombined then lookup_choice cfg p u else Inr u) (\<lambda>u.
           Inr (u, prediction u)))))"

text \<open>Several predictions at once; \<open>temp_prediction << i\<close> is meaningful for less than 31 of them.\<close>

primrec multiple_loop :: "bp_config \<Rightarrow> predictor \<Rightarrow> int \<Rightarrow> nat \<Rightarrow> nat \<Rightarrow> int \<Rightarrow> int \<Rightarrow> int \<Rightarrow> int run" where
  "multiple_loop cfg p col 0 i row temp pred = Inr pred"
| "multiple_loop cfg p col (Suc n) i row temp pred =
     (let row = (push_bit 1 row OR temp) AND (two_level_l2_height cfg - 1)
      in andthen (rd (two_level_pht p) (row * two_level_l2_size cfg + col)) (\<lambda>c.
         let temp = of_bool (1 < c)
         in multiple_loop cfg p col n (i + 1) row temp (pred OR push_bit i temp)))"

definition LookupMultiple :: "bp_config \<Rightarrow> predictor \<Rightarrow> 32 word \<Rightarrow> int \<Rightarrow> int run" where
  "LookupMultiple cfg p a n =
     (if kind cfg \<noteq> KindTwoLevel then Inl Assert
      else
        andthen (rd (two_level_bht p) (table_index a (two_level_l1_size cfg))) (\<lambda>h.
        let row = sint h; col = table_index a (two_level_l2_size cfg)
        in if \<not> row < two_level_l2_height cfg then Inl Assert
           else andthen (rd (two_level_pht p) (row * two_level_l2_size cfg + col)) (\<lambda>c.
             let pred = of_bool (1 < c)
             in multiple_loop cfg p col (nat (n - 1)) 1 row pred pred)))"

section \<open>Training\<close>

definition update_bimod :: "bool \<Rightarrow> uop \<Rightarrow> predictor \<Rightarrow> predictor run" where
  "update_bimod taken u p =
     andthen (rd (bimod p) (bimod_index u)) (\<lambda>c.
     andthen (wr (bimod p) (bimod_index u) (train taken c)) (\<lambda>xs.
     Inr (p\<lparr>bimod := xs\<rparr>)))"

definition update_two_level :: "bp_config \<Rightarrow> bool \<Rightarrow> uop \<Rightarrow> predictor \<Rightarrow> predictor run" where
  "update_two_level cfg taken u p =
     andthen (rd (two_level_bht p) (two_level_bht_index u)) (\<lambda>h.
     andthen (wr (two_level_bht p) (two_level_bht_index u)
       ((push_bit 1 h OR of_bool taken) AND (of_int (two_level_l2_height cfg) - 1))) (\<lambda>bht.
     let i = two_level_pht_row u * two_level_l2_size cfg + two_level_pht_col u
     in andthen (rd (two_level_pht p) i) (\<lambda>c.
        andthen (wr (two_level_pht p) i (train taken c)) (\<lambda>pht.
        Inr (p\<lparr>two_level_bht := bht, two_level_pht := pht\<rparr>)))))"

definition update_choice :: "uop \<Rightarrow> predictor \<Rightarrow> predictor run" where
  "update_choice u p =
     andthen (rd (choice p) (choice_index u)) (\<lambda>c.
     andthen (wr (choice p) (choice_index u) (train (bimod_prediction u \<noteq> PredictionTaken) c)) (\<lambda>xs.
     Inr (p\<lparr>choice := xs\<rparr>)))"

definition Update :: "bp_config \<Rightarrow> predictor \<Rightarrow> uop \<Rightarrow> predictor run" where
  "Update cfg p u =
     (if speculative_mode u then Inl Assert
      else if \<not> flag_ctrl u then Inl Assert
      else
        let taken = is_taken u;
            p = p\<lparr>accesses := accesses p + 1\<rparr>;
            p = (if neip u = predicted_neip u then p\<lparr>hits := hits p + 1\<rparr> else p)
        in if kind cfg = KindPerfect then Inr p
           else if flag_uncond u then Inr p
           else
             andthen (if kind cfg = KindBimod \<or> kind cfg = KindCombined \<and> choice_prediction u = PredictionNotTaken
                      then update_bimod taken u p else Inr p) (\<lambda>p.
             andthen (if kind cfg = KindTwoLevel \<or> kind cfg = KindCombined \<and> choice_prediction u = PredictionTaken
                      then update_two_level cfg taken u p else Inr p) (\<lambda>p.
             if kind cfg = KindCombined \<and> bimod_prediction u \<noteq> two_level_prediction u
             then update_choice u p else Inr p)))"

section \<open>Branch targets\<close>

text \<open>The first way of a set whose source is the address, as an index into the buffer.\<close>

primrec btb_find :: "bp_config \<Rightarrow> predictor \<Rightarrow> int \<Rightarrow> 32 word \<Rightarrow> nat list \<Rightarrow> int option run" where
  "btb_find cfg p s a [] = Inr None"
| "btb_find cfg p s a (way # ways) =
     andthen (rd (btb p) (s * btb_num_ways cfg + int way)) (\<lambda>entry.
     if source entry = a then Inr (Some (s * btb_num_ways cfg + int way))
     else btb_find cfg p s a ways)"

definition push_ras :: "bp_config \<Rightarrow> 32 word \<Rightarrow> predictor \<Rightarrow> predictor run" where
  "push_ras cfg a p =
     andthen (wr (ras p) (ras_index p) a) (\<lambda>xs.
     if ras_size cfg = 0 then Inl Div_zero
     else Inr (p\<lparr>ras := xs, ras_index := c_rem (ras_index p + 1) (ras_size cfg)\<rparr>))"

definition pop_ras :: "bp_config \<Rightarrow> predictor \<Rightarrow> (predictor \<times> 32 word) run" where
  "pop_ras cfg p =
     (if ras_size cfg = 0 then Inl Div_zero
      else
        let i = c_rem (ras_index p + ras_size cfg - 1) (ras_size cfg)
        in andthen (rd (ras p) i) (\<lambda>a. Inr (p\<lparr>ras_index := i\<rparr>, a)))"

definition LookupBtb :: "bp_config \<Rightarrow> predictor \<Rightarrow> uop \<Rightarrow> (predictor \<times> 32 word) run" where
  "LookupBtb cfg p u =
     (if \<not> flag_ctrl u then Inl Assert
      else if kind cfg = KindPerfect then Inr (p, neip u)
      else if opcode u = OpcodeIbranch then Inr (p, eip u)
      else
        andthen (btb_find cfg p (table_index (eip u) (btb_num_sets cfg)) (eip u) [0..<nat (btb_num_ways cfg)]) (\<lambda>found.
        case found of
          None \<Rightarrow> Inr (p, 0)
        | Some i \<Rightarrow>
            andthen (rd (btb p) i) (\<lambda>entry.
            if opcode u = OpcodeCall \<and> \<not> speculative_mode u
            then andthen (push_ras cfg (eip u + of_int (mop_size u)) p) (\<lambda>p. Inr (p, target entry))
            else if opcode u = OpcodeRet \<and> \<not> speculative_mode u then pop_ras cfg p
            else Inr (p, target entry))))"

text \<open>The two loops of \<open>UpdateBtb\<close>, over the ways of the set.\<close>

definition btb_evict :: "bp_config \<Rightarrow> int \<Rightarrow> uop \<Rightarrow> BtbEntry list \<Rightarrow> BtbEntry list run" where
  "btb_evict cfg s u b =
     run_list (\<lambda>b way.
       let i = s * btb_num_ways cfg + int way
       in andthen (rd b i) (\<lambda>entry.
          let entry = entry\<lparr>counter := counter entry - 1\<rparr>
          in wr b i (if counter entry < 0
               then entry\<lparr>counter := btb_num_ways cfg - 1, source := eip u, target := neip u\<rparr> else entry)))
     [0..<nat (btb_num_ways cfg)] b"

definition btb_touch :: "bp_config \<Rightarrow> int \<Rightarrow> int \<Rightarrow> uop \<Rightarrow> BtbEntry list \<Rightarrow> BtbEntry list run" where
  "btb_touch cfg s found u b =
     andthen (run_list (\<lambda>b way.
         let i = s * btb_num_ways cfg + int way
         in andthen (rd b i) (\<lambda>entry. andthen (rd b found) (\<lambda>found_entry.
            if counter found_entry < counter entry then wr b i (entry\<lparr>counter := counter entry - 1\<rparr>) else Inr b)))
       [0..<nat (btb_num_ways cfg)] b) (\<lambda>b.
     andthen (rd b found) (\<lambda>found_entry.
     wr b found (found_entry\<lparr>counter := btb_num_ways cfg - 1, target := neip u\<rparr>)))"

definition UpdateBtb :: "bp_config \<Rightarrow> predictor \<Rightarrow> uop \<Rightarrow> predictor run" where
  "UpdateBtb cfg p u =
     (if kind cfg = KindPerfect then Inr p
      else
        let s = table_index (eip u) (btb_num_sets cfg)
        in andthen (btb_find cfg p s (eip u) [0..<nat (btb_num_ways cfg)]) (\<lambda>found.
           andthen (case found of None \<Rightarrow> btb_evict cfg s u (btb p) | Some i \<Rightarrow> btb_touch cfg s i u (btb p)) (\<lambda>b.
           Inr (p\<lparr>btb := b\<rparr>))))"

function next_branch_loop :: "bp_config \<Rightarrow> predictor \<Rightarrow> 32 word \<Rightarrow> 32 word \<Rightarrow> 32 word \<Rightarrow> 32 word run" where
  "next_branch_loop cfg p limit a ret_addr =
     (if a < limit
      then andthen (btb_find cfg p (table_index a (btb_num_sets cfg)) a [0..<nat (btb_num_ways cfg)]) (\<lambda>found.
        next_branch_loop cfg p limit (a + 1) (if found \<noteq> None then a else ret_addr))
      else Inr ret_addr)"
  by pat_completeness auto
termination
proof (relation "measure (\<lambda>(cfg, p, limit, a, ret_addr). unat limit - unat a)", goal_cases)
  case (2 cfg p limit a ret_addr found)
  then have "unat a < unat limit" by (simp add: word_less_nat_alt)
  moreover have "unat (a + 1) = unat a + 1"
    using calculation unsigned_less [of limit, where 'a = nat] by (simp add: unat_word_ariths)
  ultimately show ?case by simp
qed simp

declare next_branch_loop.simps [simp del]

definition getNextBranch :: "bp_config \<Rightarrow> predictor \<Rightarrow> 32 word \<Rightarrow> 32 word \<Rightarrow> 32 word run" where
  "getNextBranch cfg p a block_size =
     (if block_size AND (block_size - 1) \<noteq> 0 then Inl Assert
      else next_branch_loop cfg p ((a + block_size) AND NOT (block_size - 1)) a 0)"

section \<open>Valid configurations\<close>

definition pow2_size :: "int \<Rightarrow> bool" where
  "pow2_size x \<longleftrightarrow> (\<exists>k < 31. x = 2 ^ k)"

definition valid_config :: "bp_config \<Rightarrow> bool" where
  "valid_config cfg \<longleftrightarrow> pow2_size (bimod_size cfg) \<and> pow2_size (choice_size cfg) \<and> pow2_size (btb_num_sets cfg) \<and>
     pow2_size (btb_num_ways cfg) \<and> pow2_size (two_level_l1_size cfg) \<and> pow2_size (two_level_l2_size cfg) \<and>
     1 \<le> two_level_history_size cfg \<and> two_level_history_size cfg \<le> 30 \<and>
     two_level_l2_height cfg = 2 ^ nat (two_level_history_size cfg) \<and>
     btb_num_sets cfg * btb_num_ways cfg < 2 ^ 31 \<and> two_level_l2_size cfg * two_level_l2_height cfg < 2 ^ 31 \<and>
     0 < ras_size cfg"

lemma valid_configD:
  assumes "valid_config cfg"
  shows "pow2_size (bimod_size cfg)" "pow2_size (choice_size cfg)" "pow2_size (btb_num_sets cfg)"
    "pow2_size (btb_num_ways cfg)" "pow2_size (two_level_l1_size cfg)" "pow2_size (two_level_l2_size cfg)"
    "pow2_size (two_level_l2_height cfg)" "0 < ras_size cfg"
  using assms unfolding valid_config_def pow2_size_def [of "two_level_l2_height cfg"]
  by (auto intro!: exI [of _ "nat (two_level_history_size cfg)"])

lemma pow2_size_pos: "pow2_size x \<Longrightarrow> 0 < x"
  by (auto simp: pow2_size_def)

text \<open>The index into a table of a power of two of entries.\<close>

lemma table_index_pow2:
  assumes "k < 31"
  shows "table_index a (2 ^ k) = int (unat a mod 2 ^ k)"
proof -
  have m: "a AND (of_int (2 ^ k) - 1) = (a AND mask k :: 32 word)" by (simp add: mask_eq_exp_minus_1)
  have "(2 :: nat) ^ k \<le> 2 ^ 31" using assms by (intro power_increasing) simp_all
  then have "unat (a AND mask k) < 2 ^ 31" using offset_less [of a k] by linarith
  then show ?thesis unfolding table_index_def m by (simp only: unat_offset sint_unat_31)
qed

lemma table_index_bounds:
  assumes "pow2_size sz"
  shows "0 \<le> table_index a sz" "table_index a sz < sz"
  using assms by (auto simp: pow2_size_def table_index_pow2 zmod_int)

lemma table_index_nat:
  assumes "pow2_size sz"
  shows "table_index a sz = int (unat a mod nat sz)"
  using assms by (auto simp: pow2_size_def table_index_pow2 nat_power_eq)

section \<open>Rewriting arrays\<close>

text \<open>A loop that rewrites the \<open>n\<close> cells from \<open>off\<close> on, one after the other.\<close>

lemma run_slice:
  assumes step: "\<And>w c. w < n \<Longrightarrow> P c \<Longrightarrow> length c = length b \<Longrightarrow> g c w = Inr (c[off + w := f w (c ! (off + w))])"
    and keep: "\<And>w c. w < n \<Longrightarrow> P c \<Longrightarrow> length c = length b \<Longrightarrow> P (c[off + w := f w (c ! (off + w))])"
    and P: "P b" and len: "off + n \<le> length b"
  shows "\<exists>c. run_list g [0..<n] b = Inr c \<and> length c = length b \<and> P c \<and>
    (\<forall>i < length b. c ! i = (if off \<le> i \<and> i < off + n then f (i - off) (b ! i) else b ! i))"
  using step keep len
proof (induction n)
  case 0
  then show ?case using P by auto
next
  case (Suc n)
  have "\<exists>c. run_list g [0..<n] b = Inr c \<and> length c = length b \<and> P c \<and>
      (\<forall>i < length b. c ! i = (if off \<le> i \<and> i < off + n then f (i - off) (b ! i) else b ! i))"
    by (rule Suc.IH) (use Suc.prems in simp_all)
  then obtain c where c: "run_list g [0..<n] b = Inr c" "length c = length b" "P c"
      "\<forall>i < length b. c ! i = (if off \<le> i \<and> i < off + n then f (i - off) (b ! i) else b ! i)"
    by blast
  let ?c = "c[off + n := f n (c ! (off + n))]"
  have "run_list g [0..<Suc n] b = Inr ?c"
    using c(1) Suc.prems(1) [OF _ c(3,2), of n] by (simp add: run_list_append)
  moreover have "P ?c" using Suc.prems(2) [OF _ c(3,2), of n] by simp
  moreover have "?c ! i = (if off \<le> i \<and> i < off + Suc n then f (i - off) (b ! i) else b ! i)" if "i < length b" for i
  proof (cases "i = off + n")
    case True
    then show ?thesis using c(2,4) that by simp
  next
    case False
    then have "?c ! i = c ! i" by simp
    then show ?thesis using c(4) that False by (cases "i < off + n") auto
  qed
  ultimately show ?case using c(2) by (intro exI [of _ ?c]) simp
qed

end
