(* ===== verification/BranchTarget.thy ===== *)
theory BranchTarget
  imports BranchPredictor
begin

text \<open>
  The branch target buffer as a list of pairs of address and target for each set, the most recently used
  first: an update puts its pair in front and lets the oldest one drop out, and a search finds the pair of an
  address. A fresh buffer holds pairs with the address 0, so the statements about the pairs leave out the
  address 0.
\<close>

section \<open>The branch target buffer by recency\<close>

definition ways :: "bp_config \<Rightarrow> nat" where "ways cfg = nat (btb_num_ways cfg)"

definition nsets :: "bp_config \<Rightarrow> nat" where "nsets cfg = nat (btb_num_sets cfg)"

definition ways_of :: "bp_config \<Rightarrow> BtbEntry list \<Rightarrow> nat \<Rightarrow> BtbEntry list" where
  "ways_of cfg b s = map (\<lambda>w. b ! (s * ways cfg + w)) [0..<ways cfg]"

text \<open>\<open>M\<close> has the entries of a set, the most recently used first: the counters run from the number of ways
  less one down to 0.\<close>

definition by_recency :: "BtbEntry list \<Rightarrow> BtbEntry list \<Rightarrow> bool" where
  "by_recency es M \<longleftrightarrow> mset M = mset es \<and> map counter M = rev (map int [0..<length es])"

abbreviation pair :: "BtbEntry \<Rightarrow> 32 word \<times> 32 word" where
  "pair e \<equiv> (source e, target e)"

definition btb_rep :: "bp_config \<Rightarrow> BtbEntry list \<Rightarrow> (nat \<Rightarrow> (32 word \<times> 32 word) list) \<Rightarrow> bool" where
  "btb_rep cfg b Ls \<longleftrightarrow> length b = nsets cfg * ways cfg \<and>
     (\<forall>s < nsets cfg. \<exists>M. by_recency (ways_of cfg b s) M \<and> Ls s = map pair M)"

lemma length_ways_of [simp]: "length (ways_of cfg b s) = ways cfg"
  by (simp add: ways_of_def)

lemma nth_ways_of [simp]: "w < ways cfg \<Longrightarrow> ways_of cfg b s ! w = b ! (s * ways cfg + w)"
  by (simp add: ways_of_def)

lemma by_recency_length: "by_recency es M \<Longrightarrow> length M = length es"
  by (metis by_recency_def size_mset)

lemma way_less: "s < (S :: nat) \<Longrightarrow> w < W \<Longrightarrow> s * W + w < S * W"
  by (metis add.commute add_less_cancel_left less_le_trans mult_Suc mult_le_mono1 Suc_leI)

lemma way_other:
  fixes s t W :: nat
  assumes "s \<noteq> t" "w < W"
  shows "\<not> (t * W \<le> s * W + w \<and> s * W + w < t * W + W)"
proof
  assume h: "t * W \<le> s * W + w \<and> s * W + w < t * W + W"
  show False
  proof (cases "s < t")
    case True
    then have "s * W + W \<le> t * W" by (metis Suc_leI add.commute mult_Suc mult_le_mono1)
    then show False using h assms(2) by linarith
  next
    case False
    then have "t * W + W \<le> s * W" using assms(1) by (metis Suc_leI add.commute mult_Suc mult_le_mono1 nat_neq_iff)
    then show False using h by linarith
  qed
qed

text \<open>Rewriting one set: the cells of the set change by \<open>f\<close>, all others stay.\<close>

lemma ways_of_slice:
  assumes len: "length b = nsets cfg * ways cfg" "s < nsets cfg" "t < nsets cfg"
    and c: "\<forall>i < length b. c ! i = (if s * ways cfg \<le> i \<and> i < s * ways cfg + ways cfg then f (i - s * ways cfg) (b ! i) else b ! i)"
  shows "ways_of cfg c t = (if t = s then map (\<lambda>w. f w (b ! (s * ways cfg + w))) [0..<ways cfg] else ways_of cfg b t)"
proof -
  have "c ! (t * ways cfg + w) = (if t = s then f w (b ! (s * ways cfg + w)) else b ! (t * ways cfg + w))"
    if w: "w < ways cfg" for w
    using c way_less [OF len(3) w] len(1) w way_other [of t s w "ways cfg"] by auto
  then show ?thesis by (auto simp: ways_of_def)
qed

text \<open>The entry with the counter 0 is replaced, the others grow older.\<close>

definition evict_entry :: "int \<Rightarrow> uop \<Rightarrow> BtbEntry \<Rightarrow> BtbEntry" where
  "evict_entry W u e = (if counter e - 1 < 0 then \<lparr>source = eip u, target = neip u, counter = W - 1\<rparr>
     else e\<lparr>counter := counter e - 1\<rparr>)"

definition touch_entry :: "int \<Rightarrow> BtbEntry \<Rightarrow> BtbEntry" where
  "touch_entry c e = (if c < counter e then e\<lparr>counter := counter e - 1\<rparr> else e)"

lemma rev_upt_Suc: "rev (map int [0..<Suc n]) = int n # rev (map int [0..<n])"
  by simp

lemma rev_upt_last: "rev (map int [0..<Suc n]) = map (\<lambda>i. i + 1) (rev (map int [0..<n])) @ [0]"
proof -
  have "map int [0..<Suc n] = 0 # map (\<lambda>i. i + 1) (map int [0..<n])"
    by (rule nth_equalityI) (auto simp: nth_Cons split: nat.split simp del: upt_Suc)
  then show ?thesis by (simp add: rev_map del: upt_Suc)
qed

lemma by_recency_evict:
  assumes M: "by_recency es M" and W: "length es = Suc n"
  shows "\<exists>M0 z. M = M0 @ [z] \<and>
    by_recency (map (evict_entry (int (Suc n)) u) es) (\<lparr>source = eip u, target = neip u, counter = int n\<rparr> # map (\<lambda>e. e\<lparr>counter := counter e - 1\<rparr>) M0)"
proof -
  have len: "length M = Suc n" using by_recency_length [OF M] W by simp
  then obtain M0 z where m: "M = M0 @ [z]" by (metis append_butlast_last_id length_0_conv nat.simps(3))
  have c: "map counter M0 @ [counter z] = map (\<lambda>i. i + 1) (rev (map int [0..<n])) @ [0]"
    using M W m unfolding by_recency_def rev_upt_last [symmetric] by simp
  then have c0: "map counter M0 = map (\<lambda>i. i + 1) (rev (map int [0..<n]))" and z: "counter z = 0" by simp_all
  have pos: "\<not> counter e - 1 < 0" if "e \<in> set M0" for e
  proof -
    have "counter e \<in> set (map (\<lambda>i. i + 1) (rev (map int [0..<n])))" using that unfolding c0 [symmetric] by simp
    then show ?thesis by auto
  qed
  let ?N = "\<lparr>source = eip u, target = neip u, counter = int n\<rparr>"
  let ?dec = "\<lambda>e. e\<lparr>counter := counter e - 1\<rparr>"
  have zN: "evict_entry (int (Suc n)) u z = ?N" using z by (simp add: evict_entry_def)
  have mN: "map (evict_entry (int (Suc n)) u) M0 = map ?dec M0"
    using pos by (intro map_cong refl) (simp add: evict_entry_def)
  have "mset (map (evict_entry (int (Suc n)) u) es) = mset (map (evict_entry (int (Suc n)) u) M)"
    using M by (simp add: by_recency_def)
  also have "\<dots> = mset (?N # map ?dec M0)"
    unfolding m map_append mN list.map zN by simp
  finally have "mset (?N # map ?dec M0) = mset (map (evict_entry (int (Suc n)) u) es)" by simp
  moreover have "map counter (?N # map ?dec M0) = int n # map (\<lambda>i. i - 1) (map counter M0)" by simp
  then have "map counter (?N # map ?dec M0) = rev (map int [0..<Suc n])"
    unfolding c0 rev_upt_Suc by (simp add: comp_def)
  ultimately show ?thesis using m W by (intro exI [of _ M0] exI [of _ z]) (simp add: by_recency_def)
qed

text \<open>The entry that is found becomes the most recent one.\<close>

lemma by_recency_touch:
  assumes M: "by_recency es M" and W: "length es = Suc n" and j: "j < length es" and m: "M = M1 @ es ! j # M2"
  shows "by_recency ((map (touch_entry (counter (es ! j))) es)[j := (es ! j)\<lparr>counter := int n, target := t\<rparr>])
    ((es ! j)\<lparr>counter := int n, target := t\<rparr> # map (\<lambda>e. e\<lparr>counter := counter e - 1\<rparr>) M1 @ M2)"
proof -
  let ?e = "es ! j"
  let ?new = "?e\<lparr>counter := int n, target := t\<rparr>"
  let ?dec = "\<lambda>e :: BtbEntry. e\<lparr>counter := counter e - 1\<rparr>"
  let ?k = "length M2"
  have len: "length M1 + Suc ?k = Suc n" using by_recency_length [OF M] W m by simp
  have c: "map counter M1 @ counter ?e # map counter M2 = rev (map int [0..<Suc n])"
    using M W m unfolding by_recency_def by simp
  have at: "(map counter M1 @ counter ?e # map counter M2) ! i = int (n - i)" if "i < Suc n" for i
    using that unfolding c by (simp add: rev_nth del: upt_Suc)
  have e: "counter ?e = int ?k" using at [of "length M1"] len by (simp add: nth_append)
  have c1: "counter (M1 ! i) = int (n - i)" if "i < length M1" for i
    using at [of i] that len by (simp add: nth_append)
  have c2: "counter (M2 ! i) = int (?k - Suc i)" if "i < ?k" for i
  proof -
    have "n - (length M1 + Suc i) = ?k - Suc i" using len by simp
    then show ?thesis using at [of "length M1 + Suc i"] that len by (simp add: nth_append)
  qed
  have up: "map (touch_entry (counter ?e)) M1 = map ?dec M1"
    by (rule nth_equalityI) (use c1 len in \<open>auto simp: touch_entry_def e\<close>)
  have low: "map (touch_entry (counter ?e)) M2 = M2"
    by (rule nth_equalityI) (use c2 in \<open>auto simp: touch_entry_def e\<close>)
  have "mset (map (touch_entry (counter ?e)) es) = mset (map (touch_entry (counter ?e)) M)"
    using M by (simp add: by_recency_def)
  also have "\<dots> = add_mset ?e (mset (map ?dec M1) + mset M2)"
    unfolding m map_append list.map up low by (simp add: touch_entry_def)
  finally have "mset (map (touch_entry (counter ?e)) es) = add_mset ?e (mset (map ?dec M1) + mset M2)" .
  moreover have "map (touch_entry (counter ?e)) es ! j = ?e" using j by (simp add: touch_entry_def)
  ultimately have ms: "mset ((map (touch_entry (counter ?e)) es)[j := ?new]) = mset (?new # map ?dec M1 @ M2)"
    using j by (simp add: mset_update)
  have "map counter (?new # map ?dec M1 @ M2) ! i = rev (map int [0..<Suc n]) ! i" if i: "i < Suc n" for i
  proof -
    have r: "rev (map int [0..<Suc n]) ! i = int (n - i)" using i by (simp add: rev_nth del: upt_Suc)
    show ?thesis
    proof (cases i)
      case 0
      then show ?thesis using r by simp
    next
      case (Suc i')
      show ?thesis
      proof (cases "i' < length M1")
        case True
        then show ?thesis using r c1 [of i'] len Suc by (simp add: nth_append)
      next
        case False
        then have "n - i = ?k - Suc (i' - length M1)" using len Suc by simp
        then show ?thesis using r c2 [of "i' - length M1"] False len Suc i by (simp add: nth_append)
      qed
    qed
  qed
  then have "map counter (?new # map ?dec M1 @ M2) = rev (map int [0..<Suc n])"
    using len by (intro nth_equalityI) simp_all
  then show ?thesis using ms W by (simp add: by_recency_def)
qed

text \<open>Indices of the code as indices of cells.\<close>

definition btb_config :: "bp_config \<Rightarrow> bool" where
  "btb_config cfg \<longleftrightarrow> pow2_size (btb_num_sets cfg) \<and> pow2_size (btb_num_ways cfg)"

definition set_of :: "bp_config \<Rightarrow> 32 word \<Rightarrow> nat" where
  "set_of cfg a = unat a mod nsets cfg"

lemma valid_btb: "valid_config cfg \<Longrightarrow> btb_config cfg"
  by (simp add: btb_config_def valid_configD)

lemma btb_configD:
  assumes "btb_config cfg"
  shows "btb_num_ways cfg = int (ways cfg)" "btb_num_sets cfg = int (nsets cfg)" "0 < ways cfg" "0 < nsets cfg"
    "table_index a (btb_num_sets cfg) = int (set_of cfg a)" "set_of cfg a < nsets cfg"
  using assms table_index_nat [of "btb_num_sets cfg" a]
  by (auto simp: btb_config_def ways_def nsets_def set_of_def dest: pow2_size_pos)

lemma btb_index:
  assumes "btb_config cfg"
  shows "int s * btb_num_ways cfg + int w = int (s * ways cfg + w)"
  using assms by (simp add: btb_configD)

lemma btb_find_first:
  assumes cfg: "btb_config cfg" and len: "length (btb p) = nsets cfg * ways cfg" and s: "s < nsets cfg"
    and ns: "\<forall>n \<in> set ns. n < ways cfg"
  shows "btb_find cfg p (int s) a ns =
    Inr (map_option (\<lambda>w. int (s * ways cfg + w)) (find (\<lambda>w. source (ways_of cfg (btb p) s ! w) = a) ns))"
  using ns
proof (induction ns)
  case (Cons n ns)
  then have "s * ways cfg + n < length (btb p)" using way_less [OF s, of n] len by simp
  then have "btb_find cfg p (int s) a (n # ns) = (if source (btb p ! (s * ways cfg + n)) = a then Inr (Some (int (s * ways cfg + n)))
      else btb_find cfg p (int s) a ns)"
    by (simp only: btb_find.simps btb_index [OF cfg] rd_nat andthen_simps)
  then show ?case using Cons by simp
qed simp

lemma find_way_cases:
  assumes "find (\<lambda>w. source (es ! w) = a) [0..<n] = r"
  shows "case r of None \<Rightarrow> \<forall>w < n. source (es ! w) \<noteq> a | Some w \<Rightarrow> w < n \<and> source (es ! w) = a"
proof (cases r)
  case None
  then show ?thesis using assms by (auto simp: find_None_iff)
next
  case (Some w)
  then obtain i where "i < length [0..<n]" "source (es ! ([0..<n] ! i)) = a" "w = [0..<n] ! i"
    using assms by (auto simp: find_Some_iff)
  then show ?thesis using Some by simp
qed

lemma btb_evict_ways:
  assumes cfg: "btb_config cfg" and len: "length b = nsets cfg * ways cfg" and s: "s < nsets cfg"
  shows "\<exists>c. btb_evict cfg (int s) u b = Inr c \<and> length c = length b \<and> (\<forall>t < nsets cfg.
    ways_of cfg c t = (if t = s then map (evict_entry (int (ways cfg)) u) (ways_of cfg b s) else ways_of cfg b t))"
proof -
  let ?g = "\<lambda>b way. let i = int s * btb_num_ways cfg + int way
     in andthen (rd b i) (\<lambda>entry. let entry = entry\<lparr>counter := counter entry - 1\<rparr>
        in wr b i (if counter entry < 0
             then entry\<lparr>counter := btb_num_ways cfg - 1, source := eip u, target := neip u\<rparr> else entry))"
  have step: "?g c w = Inr (c[s * ways cfg + w := evict_entry (int (ways cfg)) u (c ! (s * ways cfg + w))])"
    if "w < ways cfg" "length c = length b" for w c
  proof -
    have l: "s * ways cfg + w < length c" using way_less [OF s that(1)] that(2) len by simp
    show ?thesis unfolding Let_def btb_index [OF cfg] rd_nat [OF l] wr_nat [OF l] andthen_simps
      by (cases "c ! (s * ways cfg + w)") (simp add: evict_entry_def btb_configD(1) [OF cfg])
  qed
  have off: "s * ways cfg + ways cfg \<le> length b"
    using s unfolding len by (metis Suc_leI add.commute mult_Suc mult_le_mono1)
  obtain c where c: "run_list ?g [0..<ways cfg] b = Inr c" "length c = length b" "\<forall>i < length b. c ! i =
      (if s * ways cfg \<le> i \<and> i < s * ways cfg + ways cfg then evict_entry (int (ways cfg)) u (b ! i) else b ! i)"
    using run_slice [where P = "\<lambda>_. True" and g = ?g and f = "\<lambda>_. evict_entry (int (ways cfg)) u" and n = "ways cfg", OF step _ _ off]
    by blast
  have "ways_of cfg c t = (if t = s then map (evict_entry (int (ways cfg)) u) (ways_of cfg b s) else ways_of cfg b t)"
    if "t < nsets cfg" for t
    using ways_of_slice [OF len s that, of c "\<lambda>_. evict_entry (int (ways cfg)) u"] c(3) by (simp add: ways_of_def comp_def)
  then show ?thesis using c(1,2) by (intro exI [of _ c]) (simp add: btb_evict_def ways_def)
qed

lemma btb_touch_ways:
  assumes cfg: "btb_config cfg" and len: "length b = nsets cfg * ways cfg" and s: "s < nsets cfg" and j: "j < ways cfg"
  shows "\<exists>c. btb_touch cfg (int s) (int (s * ways cfg + j)) u b = Inr c \<and> length c = length b \<and> (\<forall>t < nsets cfg.
    ways_of cfg c t = (if t = s then (map (touch_entry (counter (ways_of cfg b s ! j))) (ways_of cfg b s))
        [j := (ways_of cfg b s ! j)\<lparr>counter := int (ways cfg) - 1, target := neip u\<rparr>] else ways_of cfg b t))"
proof -
  let ?f = "s * ways cfg + j"
  let ?n = "counter (b ! ?f)"
  let ?g = "\<lambda>b way. let i = int s * btb_num_ways cfg + int way
     in andthen (rd b i) (\<lambda>entry. andthen (rd b (int ?f)) (\<lambda>found_entry.
        if counter found_entry < counter entry then wr b i (entry\<lparr>counter := counter entry - 1\<rparr>) else Inr b))"
  have step: "?g c w = Inr (c[s * ways cfg + w := touch_entry ?n (c ! (s * ways cfg + w))])"
    if "w < ways cfg" "counter (c ! ?f) = ?n" "length c = length b" for w c
  proof -
    have l: "s * ways cfg + w < length c" "?f < length c"
      using way_less [OF s that(1)] way_less [OF s j] that(3) len by simp_all
    show ?thesis unfolding Let_def btb_index [OF cfg] rd_nat [OF l(1)] rd_nat [OF l(2)] wr_nat [OF l(1)] andthen_simps
      using that(2) by (simp add: touch_entry_def)
  qed
  have keep: "counter (c[s * ways cfg + w := touch_entry ?n (c ! (s * ways cfg + w))] ! ?f) = ?n"
    if "w < ways cfg" "counter (c ! ?f) = ?n" "length c = length b" for w c
    using that way_less [OF s j] len by (cases "w = j") (simp_all add: touch_entry_def)
  have off: "s * ways cfg + ways cfg \<le> length b"
    using s unfolding len by (metis Suc_leI add.commute mult_Suc mult_le_mono1)
  obtain c where c: "run_list ?g [0..<ways cfg] b = Inr c" "length c = length b" "\<forall>i < length b. c ! i =
      (if s * ways cfg \<le> i \<and> i < s * ways cfg + ways cfg then touch_entry ?n (b ! i) else b ! i)"
    using run_slice [where P = "\<lambda>c. counter (c ! ?f) = ?n" and g = ?g and f = "\<lambda>_. touch_entry ?n" and n = "ways cfg",
        OF step keep refl off] by blast
  let ?c = "c[?f := (b ! ?f)\<lparr>counter := int (ways cfg) - 1, target := neip u\<rparr>]"
  have fl: "?f < length b" using way_less [OF s j] len by simp
  then have cf: "c ! ?f = b ! ?f" using c(3) j by (simp add: touch_entry_def)
  have r: "btb_touch cfg (int s) (int ?f) u b = Inr ?c"
    unfolding btb_touch_def ways_def [symmetric] c(1) andthen_simps rd_nat [OF fl [folded c(2)]] wr_nat [OF fl [folded c(2)]]
    by (simp add: cf btb_configD(1) [OF cfg])
  have wc: "ways_of cfg c t = (if t = s then map (touch_entry ?n) (ways_of cfg b s) else ways_of cfg b t)"
    if "t < nsets cfg" for t
    using ways_of_slice [OF len s that, of c "\<lambda>_. touch_entry ?n"] c(3) by (simp add: ways_of_def comp_def)
  have "ways_of cfg ?c t = (if t = s then (map (touch_entry ?n) (ways_of cfg b s))
      [j := (b ! ?f)\<lparr>counter := int (ways cfg) - 1, target := neip u\<rparr>] else ways_of cfg b t)" if t: "t < nsets cfg" for t
  proof (cases "t = s")
    case True
    have "ways_of cfg ?c s = (ways_of cfg c s)[j := (b ! ?f)\<lparr>counter := int (ways cfg) - 1, target := neip u\<rparr>]"
      using fl c(2) j by (intro nth_equalityI) (auto simp: nth_list_update)
    then show ?thesis using wc [OF t] True by simp
  next
    case False
    have "ways_of cfg ?c t = ways_of cfg c t"
      using way_other [of t s _ "ways cfg"] False j by (fastforce simp: ways_of_def)
    then show ?thesis using wc [OF t] False by simp
  qed
  then show ?thesis using r c(2) j by (intro exI [of _ ?c]) simp
qed

text \<open>What an update does to the pairs of a set: the new pair in front, the oldest one drops out.\<close>

definition btb_spec :: "nat \<Rightarrow> 32 word \<Rightarrow> 32 word \<Rightarrow> (32 word \<times> 32 word) list \<Rightarrow> (32 word \<times> 32 word) list" where
  "btb_spec W a t L = take W ((a, t) # filter (\<lambda>x. fst x \<noteq> a) L)"

definition keys_ok :: "(32 word \<times> 32 word) list \<Rightarrow> bool" where
  "keys_ok L \<longleftrightarrow> distinct (filter (\<lambda>k. k \<noteq> 0) (map fst L))"

lemma keys_ok_split:
  assumes "keys_ok (L1 @ (a, t) # L2)" "a \<noteq> 0"
  shows "filter (\<lambda>x. fst x \<noteq> a) (L1 @ (a, t) # L2) = L1 @ L2"
proof -
  have "a \<notin> set (filter (\<lambda>k. k \<noteq> 0) (map fst L1))" "a \<notin> set (filter (\<lambda>k. k \<noteq> 0) (map fst L2))"
    using assms by (auto simp: keys_ok_def)
  then have "\<forall>x \<in> set L1. fst x \<noteq> a" "\<forall>x \<in> set L2. fst x \<noteq> a" using assms(2) by auto
  then show ?thesis by (simp add: filter_id_conv)
qed

lemma keys_ok_take: "keys_ok L \<Longrightarrow> keys_ok (take n L)"
proof -
  assume k: "keys_ok L"
  have "filter P (map fst L) = filter P (map fst (take n L)) @ filter P (map fst (drop n L))" for P
    by (metis append_take_drop_id filter_append map_append)
  then show ?thesis using k by (metis (no_types) distinct_append keys_ok_def)
qed

lemma keys_ok_spec:
  assumes k: "keys_ok L"
  shows "keys_ok (btb_spec W a t L)"
proof -
  let ?F = "filter (\<lambda>x. fst x \<noteq> a) L"
  have m: "map fst ?F = filter (\<lambda>y. y \<noteq> a) (map fst L)" by (induction L) simp_all
  have "filter (\<lambda>y. y \<noteq> 0) (filter (\<lambda>y. y \<noteq> a) (map fst L)) = filter (\<lambda>y. y \<noteq> a) (filter (\<lambda>y. y \<noteq> 0) (map fst L))"
    by (simp only: filter_filter conj_commute)
  then have "distinct (filter (\<lambda>y. y \<noteq> 0) (map fst ?F))"
    using k unfolding keys_ok_def m by (simp only: distinct_filter)
  moreover have "a \<notin> set (map fst ?F)" unfolding m by simp
  moreover have "distinct (filter P (a # xs))" if "distinct (filter P xs)" "a \<notin> set xs" for P xs using that by simp
  ultimately have "keys_ok ((a, t) # ?F)" unfolding keys_ok_def list.map fst_conv by blast
  then show ?thesis unfolding btb_spec_def by (rule keys_ok_take)
qed

lemma update_set:
  assumes r: "btb_rep cfg b Ls" and s: "s < nsets cfg" and c: "length c = length b"
    "\<forall>t < nsets cfg. t \<noteq> s \<longrightarrow> ways_of cfg c t = ways_of cfg b t"
    and M: "by_recency (ways_of cfg c s) M" and L: "L = map pair M"
  shows "btb_rep cfg c (Ls(s := L))"
  unfolding btb_rep_def
proof (intro conjI allI impI)
  show "length c = nsets cfg * ways cfg" using r c(1) by (simp add: btb_rep_def)
  fix t assume t: "t < nsets cfg"
  show "\<exists>M. by_recency (ways_of cfg c t) M \<and> (Ls(s := L)) t = map pair M"
  proof (cases "t = s")
    case True
    then show ?thesis using M L by auto
  next
    case False
    then show ?thesis using r c(2) t by (simp add: btb_rep_def)
  qed
qed

lemma UpdateBtb_rep:
  assumes cfg: "btb_config cfg" and r: "btb_rep cfg (btb p) Ls" and k: "kind cfg \<noteq> KindPerfect"
  shows "\<exists>b L. UpdateBtb cfg p u = Inr (p\<lparr>btb := b\<rparr>) \<and> btb_rep cfg b (Ls(set_of cfg (eip u) := L)) \<and>
    (eip u \<noteq> 0 \<and> keys_ok (Ls (set_of cfg (eip u))) \<longrightarrow> L = btb_spec (ways cfg) (eip u) (neip u) (Ls (set_of cfg (eip u))))"
proof -
  let ?s = "set_of cfg (eip u)"
  let ?es = "ways_of cfg (btb p) ?s"
  have s: "?s < nsets cfg" using cfg by (rule btb_configD(6))
  have len: "length (btb p) = nsets cfg * ways cfg" using r by (simp add: btb_rep_def)
  obtain M where M: "by_recency ?es M" "Ls ?s = map pair M" using r s unfolding btb_rep_def by blast
  obtain n where W: "ways cfg = Suc n" using btb_configD(3) [OF cfg] gr0_implies_Suc by blast
  then have W1: "length ?es = Suc n" by simp
  let ?f = "find (\<lambda>w. source (?es ! w) = eip u) [0..<ways cfg]"
  have find: "btb_find cfg p (int ?s) (eip u) [0..<nat (btb_num_ways cfg)] = Inr (map_option (\<lambda>w. int (?s * ways cfg + w)) ?f)"
    using btb_find_first [OF cfg len s, of "[0..<ways cfg]"] by (simp add: ways_def)
  show ?thesis
  proof (cases ?f)
    case None
    then have no: "source e \<noteq> eip u" if "e \<in> set ?es" for e
      using find_way_cases [OF refl, where es = ?es and a = "eip u" and n = "ways cfg"] that by (auto simp: in_set_conv_nth)
    obtain b where b: "btb_evict cfg (int ?s) u (btb p) = Inr b" "length b = length (btb p)"
        "\<forall>t < nsets cfg. ways_of cfg b t = (if t = ?s then map (evict_entry (int (ways cfg)) u) ?es else ways_of cfg (btb p) t)"
      using btb_evict_ways [OF cfg len s] by blast
    have upd: "UpdateBtb cfg p u = Inr (p\<lparr>btb := b\<rparr>)"
      using k find None b(1) by (simp add: UpdateBtb_def btb_configD(5) [OF cfg])
    obtain M0 z where z: "M = M0 @ [z]" "by_recency (map (evict_entry (int (Suc n)) u) ?es)
        (\<lparr>source = eip u, target = neip u, counter = int n\<rparr> # map (\<lambda>e. e\<lparr>counter := counter e - 1\<rparr>) M0)"
      using by_recency_evict [OF M(1) W1] by blast
    let ?L = "(eip u, neip u) # map pair M0"
    have "btb_rep cfg b (Ls(?s := ?L))"
      by (rule update_set [OF r s b(2), where M = "\<lparr>source = eip u, target = neip u, counter = int n\<rparr> #
          map (\<lambda>e. e\<lparr>counter := counter e - 1\<rparr>) M0"]) (use b(3) s z(2) in \<open>simp_all add: W comp_def\<close>)
    moreover have "?L = btb_spec (ways cfg) (eip u) (neip u) (Ls ?s)"
    proof -
      have "filter (\<lambda>x. fst x \<noteq> eip u) (map pair M) = map pair M"
        using no M(1) unfolding by_recency_def by (auto simp: filter_id_conv dest: mset_eq_setD)
      moreover have "length M0 = n" using by_recency_length [OF M(1)] W1 z(1) by simp
      ultimately show ?thesis by (simp add: btb_spec_def M(2) W z(1))
    qed
    ultimately show ?thesis using upd by blast
  next
    case (Some w)
    then have w: "w < ways cfg" "source (?es ! w) = eip u"
      using find_way_cases [OF refl, where es = ?es and a = "eip u" and n = "ways cfg"] by auto
    let ?t = "(?es ! w)\<lparr>counter := int (ways cfg) - 1, target := neip u\<rparr>"
    obtain b where b: "btb_touch cfg (int ?s) (int (?s * ways cfg + w)) u (btb p) = Inr b" "length b = length (btb p)"
        "\<forall>t < nsets cfg. ways_of cfg b t = (if t = ?s then (map (touch_entry (counter (?es ! w))) ?es)[w := ?t] else ways_of cfg (btb p) t)"
      using btb_touch_ways [OF cfg len s w(1), of u] by blast
    have upd: "UpdateBtb cfg p u = Inr (p\<lparr>btb := b\<rparr>)"
      using k find Some b(1) by (simp add: UpdateBtb_def btb_configD(5) [OF cfg])
    have "?es ! w \<in> set M" using M(1) w(1) unfolding by_recency_def
      by (metis length_ways_of nth_mem mset_eq_setD)
    then obtain M1 M2 where m: "M = M1 @ ?es ! w # M2" by (meson split_list)
    let ?M = "?t # map (\<lambda>e. e\<lparr>counter := counter e - 1\<rparr>) M1 @ M2"
    have rec: "by_recency ((map (touch_entry (counter (?es ! w))) ?es)[w := ?t]) ?M"
      using by_recency_touch [OF M(1) W1 _ m, of "neip u"] w(1) W by simp
    let ?L = "(eip u, neip u) # map pair M1 @ map pair M2"
    have "btb_rep cfg b (Ls(?s := ?L))"
      by (rule update_set [OF r s b(2), where M = ?M]) (use b(3) s rec w(2) in \<open>simp_all add: comp_def\<close>)
    moreover have "?L = btb_spec (ways cfg) (eip u) (neip u) (Ls ?s)" if h: "eip u \<noteq> 0" "keys_ok (Ls ?s)"
    proof -
      have l: "Ls ?s = map pair M1 @ (eip u, target (?es ! w)) # map pair M2" using M(2) m w(2) by simp
      have "filter (\<lambda>x. fst x \<noteq> eip u) (Ls ?s) = map pair M1 @ map pair M2"
        unfolding l by (rule keys_ok_split [OF h(2) [unfolded l] h(1)])
      moreover have "Suc (length M1 + length M2) = ways cfg" using by_recency_length [OF M(1)] m by simp
      ultimately show ?thesis by (simp add: btb_spec_def)
    qed
    ultimately show ?thesis using upd by blast
  qed
qed

lemma keys_ok_map_of:
  assumes "keys_ok L" "(a, t) \<in> set L" "a \<noteq> 0"
  shows "map_of L a = Some t"
proof -
  obtain L1 L2 where l: "L = L1 @ (a, t) # L2" using assms(2) by (meson split_list)
  have "a \<notin> set (filter (\<lambda>k. k \<noteq> 0) (map fst L1))" using assms(1) assms(3) by (auto simp: keys_ok_def l)
  then have "map_of L1 a = None" using assms(3) by (auto simp: map_of_eq_None_iff)
  then show ?thesis by (simp add: l map_add_def)
qed

text \<open>The search finds the pair of the address, if there is one.\<close>

lemma btb_find_rep:
  assumes cfg: "btb_config cfg" and r: "btb_rep cfg (btb p) Ls"
  obtains f where "btb_find cfg p (table_index a (btb_num_sets cfg)) a [0..<nat (btb_num_ways cfg)] = Inr f"
    "case f of None \<Rightarrow> map_of (Ls (set_of cfg a)) a = None
      | Some i \<Rightarrow> \<exists>e. rd (btb p) i = Inr e \<and> a \<in> fst ` set (Ls (set_of cfg a)) \<and>
          (a \<noteq> 0 \<and> keys_ok (Ls (set_of cfg a)) \<longrightarrow> map_of (Ls (set_of cfg a)) a = Some (target e))"
proof -
  let ?s = "set_of cfg a"
  let ?es = "ways_of cfg (btb p) ?s"
  have s: "?s < nsets cfg" using cfg by (rule btb_configD(6))
  have len: "length (btb p) = nsets cfg * ways cfg" using r by (simp add: btb_rep_def)
  obtain M where M: "by_recency ?es M" "Ls ?s = map pair M" using r s unfolding btb_rep_def by blast
  have Ms: "set M = set ?es" using M(1) unfolding by_recency_def by (blast dest: mset_eq_setD)
  let ?f = "find (\<lambda>w. source (?es ! w) = a) [0..<ways cfg]"
  have find: "btb_find cfg p (table_index a (btb_num_sets cfg)) a [0..<nat (btb_num_ways cfg)] = Inr (map_option (\<lambda>w. int (?s * ways cfg + w)) ?f)"
    using btb_find_first [OF cfg len s, of "[0..<ways cfg]"] by (simp add: ways_def btb_configD(5) [OF cfg])
  show thesis
  proof (cases ?f)
    case None
    then have "source e \<noteq> a" if "e \<in> set ?es" for e
      using find_way_cases [OF refl, where es = ?es and a = a and n = "ways cfg"] that by (auto simp: in_set_conv_nth)
    then have "\<forall>e \<in> set M. source e \<noteq> a" unfolding Ms by blast
    then have "map_of (Ls ?s) a = None" unfolding M(2) by (force simp: map_of_eq_None_iff)
    then show thesis using that [OF find] None by simp
  next
    case (Some w)
    then have w: "w < ways cfg" "source (?es ! w) = a"
      using find_way_cases [OF refl, where es = ?es and a = a and n = "ways cfg"] by auto
    have "?s * ways cfg + w < length (btb p)" using way_less [OF s w(1)] len by simp
    then have rd: "rd (btb p) (int (?s * ways cfg + w)) = Inr (?es ! w)" using w(1) by (simp only: rd_nat nth_ways_of)
    have "?es ! w \<in> set ?es" by (rule nth_mem) (simp add: w(1))
    then have "?es ! w \<in> set M" using Ms by blast
    then have "pair (?es ! w) \<in> set (Ls ?s)" using M(2) by simp
    then have mem: "(a, target (?es ! w)) \<in> set (Ls ?s)" using w(2) by simp
    then have k: "a \<in> fst ` set (Ls ?s)" by force
    have "map_of (Ls ?s) a = Some (target (?es ! w))" if "a \<noteq> 0" "keys_ok (Ls ?s)"
      using keys_ok_map_of [OF that(2) mem that(1)] .
    then show thesis using that [OF find] Some rd k by (simp only: option.map option.case) blast
  qed
qed

section \<open>A fresh buffer\<close>

definition fresh_entry :: "nat \<Rightarrow> BtbEntry" where
  "fresh_entry w = \<lparr>source = 0, target = 0, counter = int w\<rparr>"

lemma by_recency_fresh:
  "by_recency (map fresh_entry [0..<n]) (rev (map fresh_entry [0..<n]))"
  by (simp add: by_recency_def rev_map comp_def fresh_entry_def)

lemma assign_counters_fresh:
  assumes cfg: "btb_config cfg" and len: "length b = nsets cfg * ways cfg" and b: "\<forall>e \<in> set b. source e = 0 \<and> target e = 0"
  shows "\<exists>c. assign_counters cfg b = Inr c \<and> length c = length b \<and> (\<forall>t < nsets cfg. ways_of cfg c t = map fresh_entry [0..<ways cfg])"
proof -
  let ?h = "\<lambda>b i. run_list (\<lambda>b j. andthen (rd b (int i * btb_num_ways cfg + int j)) (\<lambda>entry.
      wr b (int i * btb_num_ways cfg + int j) (entry\<lparr>counter := int j\<rparr>))) [0..<ways cfg] b"
  have "\<exists>c. run_list ?h [0..<k] b = Inr c \<and> length c = length b \<and> (\<forall>e \<in> set c. source e = 0 \<and> target e = 0) \<and>
      (\<forall>t < k. ways_of cfg c t = map fresh_entry [0..<ways cfg])" if "k \<le> nsets cfg" for k
    using that
  proof (induction k)
    case 0
    then show ?case using b by simp
  next
    case (Suc k)
    then obtain c where c: "run_list ?h [0..<k] b = Inr c" "length c = length b" "\<forall>e \<in> set c. source e = 0 \<and> target e = 0"
        "\<forall>t < k. ways_of cfg c t = map fresh_entry [0..<ways cfg]" by auto
    have k: "k < nsets cfg" using Suc.prems by simp
    have lc: "length c = nsets cfg * ways cfg" using c(2) len by simp
    let ?P = "\<lambda>c :: BtbEntry list. \<forall>e \<in> set c. source e = 0 \<and> target e = 0"
    let ?f = "\<lambda>j e :: BtbEntry. e\<lparr>counter := int j\<rparr>"
    have step: "andthen (rd d (int k * btb_num_ways cfg + int j)) (\<lambda>entry. wr d (int k * btb_num_ways cfg + int j) (entry\<lparr>counter := int j\<rparr>))
        = Inr (d[k * ways cfg + j := ?f j (d ! (k * ways cfg + j))])" if "j < ways cfg" "?P d" "length d = length c" for j d
    proof -
      have l: "k * ways cfg + j < length d" using way_less [OF k that(1)] that(3) lc by simp
      show ?thesis unfolding btb_index [OF cfg] rd_nat [OF l] wr_nat [OF l] andthen_simps by simp
    qed
    have keep: "?P (d[k * ways cfg + j := ?f j (d ! (k * ways cfg + j))])" if "j < ways cfg" "?P d" "length d = length c" for j d
    proof -
      have "k * ways cfg + j < length d" using way_less [OF k that(1)] that(3) lc by simp
      then show ?thesis using that(2) by (auto dest!: set_update_subset_insert [THEN subsetD])
    qed
    have off: "k * ways cfg + ways cfg \<le> length c" using k unfolding lc by (metis Suc_leI add.commute mult_Suc mult_le_mono1)
    obtain d where d: "?h c k = Inr d" "length d = length c" "?P d" "\<forall>i < length c. d ! i =
        (if k * ways cfg \<le> i \<and> i < k * ways cfg + ways cfg then ?f (i - k * ways cfg) (c ! i) else c ! i)"
      using run_slice [where P = ?P and f = ?f and n = "ways cfg", OF step keep c(3) off] by blast
    have "ways_of cfg d t = map fresh_entry [0..<ways cfg]" if t: "t < Suc k" for t
    proof (cases "t = k")
      case True
      have "(c ! (k * ways cfg + w))\<lparr>counter := int w\<rparr> = fresh_entry w" if "w < ways cfg" for w
      proof -
        have "c ! (k * ways cfg + w) \<in> set c" using way_less [OF k that] lc by simp
        then have "source (c ! (k * ways cfg + w)) = 0 \<and> target (c ! (k * ways cfg + w)) = 0" using c(3) by blast
        then show ?thesis by (simp add: fresh_entry_def)
      qed
      then show ?thesis using ways_of_slice [OF lc k k, of d ?f] d(4) True by simp
    next
      case False
      then have "t < k" using t by simp
      then show ?thesis using ways_of_slice [OF lc k, of t d ?f] d(4) False k c(4) by simp
    qed
    then show ?case using c(1,2) d by (intro exI [of _ d]) (simp add: run_list_append)
  qed
  from this [of "nsets cfg"] show ?thesis unfolding assign_counters_def ways_def [symmetric] nsets_def [symmetric] by blast
qed

end
