(* ===== verification/BranchPrediction.thy ===== *)
theory BranchPrediction
  imports BranchTarget
begin

text \<open>
  What the operations of the branch predictor do: the invariant of its tables, the directions that lookups
  give and updates train, the return address stack as a bounded stack, several predictions at once, the next
  branch of a block, runs of commits; and the properties.
\<close>

section \<open>The invariant\<close>

definition counters_ok :: "int \<Rightarrow> int list \<Rightarrow> bool" where
  "counters_ok n xs \<longleftrightarrow> int (length xs) = n \<and> set xs \<subseteq> {0..3}"

text \<open>Tables have their size, counters two bits, history registers fit the pattern table, and the counters of
  each set of the BTB rank its ways by recency.\<close>

definition bp_inv :: "bp_config \<Rightarrow> predictor \<Rightarrow> bool" where
  "bp_inv cfg p \<longleftrightarrow>
     int (length (ras p)) = ras_size cfg \<and> 0 \<le> ras_index p \<and> ras_index p < ras_size cfg \<and>
     (\<exists>Ls. btb_rep cfg (btb p) Ls) \<and>
     (has_bimod cfg \<longrightarrow> counters_ok (bimod_size cfg) (bimod p)) \<and>
     (has_two_level cfg \<longrightarrow> int (length (two_level_bht p)) = two_level_l1_size cfg \<and>
        (\<forall>h \<in> set (two_level_bht p). int (unat h) < two_level_l2_height cfg) \<and>
        counters_ok (two_level_l2_size cfg * two_level_l2_height cfg) (two_level_pht p)) \<and>
     (kind cfg = KindCombined \<longrightarrow> counters_ok (choice_size cfg) (choice p))"

text \<open>The indices that \<open>Lookup\<close> leaves in a micro-instruction are inside the tables.\<close>

definition uop_ok :: "bp_config \<Rightarrow> uop \<Rightarrow> bool" where
  "uop_ok cfg u \<longleftrightarrow> flag_ctrl u \<and>
     0 \<le> bimod_index u \<and> bimod_index u < bimod_size cfg \<and>
     0 \<le> two_level_bht_index u \<and> two_level_bht_index u < two_level_l1_size cfg \<and>
     0 \<le> two_level_pht_row u \<and> two_level_pht_row u < two_level_l2_height cfg \<and>
     0 \<le> two_level_pht_col u \<and> two_level_pht_col u < two_level_l2_size cfg \<and>
     0 \<le> choice_index u \<and> choice_index u < choice_size cfg"

lemma rd_counter:
  assumes "counters_ok n xs" "0 \<le> i" "i < n"
  shows "\<exists>c. rd xs i = Inr c \<and> 0 \<le> c \<and> c \<le> 3"
proof -
  have "nat i < length xs" using assms by (simp add: counters_ok_def nat_less_iff)
  then have "xs ! nat i \<in> {0..3}" using assms(1) nth_mem unfolding counters_ok_def by blast
  then show ?thesis using assms by (simp add: rd_in counters_ok_def)
qed

lemma rd_nth: "0 \<le> i \<Longrightarrow> i < n \<Longrightarrow> int (length xs) = n \<Longrightarrow> rd xs i = Inr (xs ! nat i)"
  by (simp add: rd_in)

lemma wr_upd: "0 \<le> i \<Longrightarrow> i < n \<Longrightarrow> int (length xs) = n \<Longrightarrow> wr xs i x = Inr (xs[nat i := x])"
  by (simp add: wr_in)

lemma counters_ok_length: "counters_ok n xs \<Longrightarrow> int (length xs) = n"
  by (simp add: counters_ok_def)

lemma train_counter:
  assumes "counters_ok n xs" "0 \<le> i" "i < n"
  shows "counters_ok n (xs[nat i := train up (xs ! nat i)])"
proof -
  obtain c where c: "rd xs i = Inr c" "0 \<le> c" "c \<le> 3" using rd_counter [OF assms] by blast
  then have "c = xs ! nat i" using rd_nth [OF assms(2,3) counters_ok_length [OF assms(1)]] by simp
  then have "train up (xs ! nat i) \<in> {0..3}" using c by (auto simp: train_def count_up_def count_down_def)
  then have "set (xs[nat i := train up (xs ! nat i)]) \<subseteq> {0..3}"
    using assms(1) set_update_subset_insert [of xs "nat i" "train up (xs ! nat i)"] unfolding counters_ok_def by blast
  then show ?thesis using assms(1) by (simp add: counters_ok_def)
qed

lemma fresh_counters: "0 \<le> n \<Longrightarrow> counters_ok n (replicate (nat n) 2)"
  by (simp add: counters_ok_def set_replicate_conv_if)

lemma pht_index:
  assumes "pow2_size (two_level_l2_size cfg)" "0 \<le> row" "row < two_level_l2_height cfg" "0 \<le> col" "col < two_level_l2_size cfg"
  shows "0 \<le> row * two_level_l2_size cfg + col"
    "row * two_level_l2_size cfg + col < two_level_l2_size cfg * two_level_l2_height cfg"
proof -
  have p: "0 < two_level_l2_size cfg" by (rule pow2_size_pos [OF assms(1)])
  then show "0 \<le> row * two_level_l2_size cfg + col" using assms by simp
  have "row * two_level_l2_size cfg + col < (row + 1) * two_level_l2_size cfg" using assms by (simp add: algebra_simps)
  also have "\<dots> \<le> two_level_l2_height cfg * two_level_l2_size cfg" using assms p by (intro mult_right_mono) simp_all
  finally show "row * two_level_l2_size cfg + col < two_level_l2_size cfg * two_level_l2_height cfg" by (simp add: mult.commute)
qed

lemma height_le: "valid_config cfg \<Longrightarrow> two_level_l2_height cfg \<le> 2 ^ 30"
proof -
  assume "valid_config cfg"
  then have "two_level_history_size cfg \<le> 30" "two_level_l2_height cfg = 2 ^ nat (two_level_history_size cfg)"
    by (simp_all add: valid_config_def)
  then show ?thesis using power_increasing [of "nat (two_level_history_size cfg)" 30 "2 :: int"] by (simp add: nat_le_iff)
qed

lemma history_small:
  assumes "valid_config cfg" "int (unat h) < two_level_l2_height cfg"
  shows "sint (h :: 32 word) = int (unat h)"
proof -
  have "int (unat h) < 2 ^ 30" using height_le [OF assms(1)] assms(2) by (rule order_less_le_trans [rotated])
  then have "int (unat h) < int (2 ^ 30)" by (simp only: of_nat_power of_nat_numeral)
  then have "unat h < 2 ^ 30" by (simp only: of_nat_less_iff)
  then have "unat h < 2 ^ 31" by (rule order_less_le_trans) simp
  then show ?thesis by (rule sint_unat_31)
qed

lemma predictor_create_inv:
  assumes v: "valid_config cfg"
  shows "\<exists>p. predictor_create cfg = Inr p \<and> bp_inv cfg p \<and> btb_rep cfg (btb p) (\<lambda>_. replicate (ways cfg) (0, 0)) \<and>
    ras_index p = 0 \<and> accesses p = 0 \<and> hits p = 0 \<and>
    (has_bimod cfg \<longrightarrow> bimod p = replicate (nat (bimod_size cfg)) 2) \<and>
    (has_two_level cfg \<longrightarrow> two_level_bht p = replicate (nat (two_level_l1_size cfg)) 0 \<and>
       two_level_pht p = replicate (nat (two_level_l2_size cfg * two_level_l2_height cfg)) 2) \<and>
    (kind cfg = KindCombined \<longrightarrow> choice p = replicate (nat (choice_size cfg)) 2)"
proof -
  note pos = valid_configD [OF v] valid_configD(1-7) [OF v, THEN pow2_size_pos]
  have cfg: "btb_config cfg" by (rule valid_btb [OF v])
  have prod: "0 < two_level_l2_size cfg * two_level_l2_height cfg" using pos by simp
  have n: "btb_num_sets cfg * btb_num_ways cfg = int (nsets cfg * ways cfg)" using btb_configD(1,2) [OF cfg] by simp
  let ?z = "\<lparr>source = 0, target = 0, counter = 0\<rparr> :: BtbEntry"
  obtain b where b: "assign_counters cfg (replicate (nsets cfg * ways cfg) ?z) = Inr b" "length b = nsets cfg * ways cfg"
      "\<forall>t < nsets cfg. ways_of cfg b t = map fresh_entry [0..<ways cfg]"
    using assign_counters_fresh [OF cfg, of "replicate (nsets cfg * ways cfg) ?z"] by auto
  have rep: "btb_rep cfg b (\<lambda>_. replicate (ways cfg) (0, 0))"
    unfolding btb_rep_def
  proof (intro conjI allI impI)
    fix t assume "t < nsets cfg"
    then have "by_recency (ways_of cfg b t) (rev (map fresh_entry [0..<ways cfg]))" using b(3) by_recency_fresh by simp
    moreover have "replicate (ways cfg) (0, 0) = map pair (rev (map fresh_entry [0..<ways cfg]))"
      by (simp add: fresh_entry_def rev_map comp_def map_replicate_const)
    ultimately show "\<exists>M. by_recency (ways_of cfg b t) M \<and> replicate (ways cfg) (0, 0) = map pair M" by blast
  qed (fact b(2))
  let ?p = "\<lparr>ras = replicate (nat (ras_size cfg)) 0, ras_index = 0, btb = b,
    bimod = (if has_bimod cfg then replicate (nat (bimod_size cfg)) 2 else []),
    two_level_bht = (if has_two_level cfg then replicate (nat (two_level_l1_size cfg)) 0 else []),
    two_level_pht = (if has_two_level cfg then replicate (nat (two_level_l2_size cfg * two_level_l2_height cfg)) 2 else []),
    choice = (if kind cfg = KindCombined then replicate (nat (choice_size cfg)) 2 else []), accesses = 0, hits = 0\<rparr>"
  have na: "new_array x y = Inr (replicate (nat x) y)" if "0 \<le> x" for x :: int and y :: 'a using that by (simp add: new_array_def)
  have bi: "(if has_bimod cfg then new_array (bimod_size cfg) 2 else Inr []) = Inr (bimod ?p)"
    using pos by (simp add: new_array_def)
  have bh: "(if has_two_level cfg then new_array (two_level_l1_size cfg) 0 else Inr []) = Inr (two_level_bht ?p)"
    using pos by (simp add: new_array_def)
  have ph: "(if has_two_level cfg then new_array (two_level_l2_size cfg * two_level_l2_height cfg) 2 else Inr []) = Inr (two_level_pht ?p)"
    using prod by (simp add: new_array_def)
  have ch: "(if kind cfg = KindCombined then new_array (choice_size cfg) 2 else Inr []) = Inr (choice ?p)"
    using pos by (simp add: new_array_def)
  have ra: "new_array (ras_size cfg) 0 = Inr (ras ?p)" using pos by (simp add: new_array_def)
  have bt: "new_array (btb_num_sets cfg * btb_num_ways cfg) ?z = Inr (replicate (nsets cfg * ways cfg) ?z)"
    unfolding n new_array_def nat_int by (simp del: of_nat_mult)
  have "predictor_create cfg = Inr ?p"
    unfolding predictor_create_def ra bi bh ph ch bt andthen_simps b(1) by simp
  moreover have "bp_inv cfg ?p"
    unfolding bp_inv_def using pos prod rep by (auto simp: fresh_counters)
  ultimately show ?thesis using rep by (intro exI [of _ ?p]) simp
qed

section \<open>The tables of directions\<close>

text \<open>The counters that an address reads.\<close>

definition bimod_counter :: "bp_config \<Rightarrow> predictor \<Rightarrow> 32 word \<Rightarrow> int" where
  "bimod_counter cfg p a = bimod p ! nat (table_index a (bimod_size cfg))"

definition history :: "bp_config \<Rightarrow> predictor \<Rightarrow> 32 word \<Rightarrow> int" where
  "history cfg p a = int (unat (two_level_bht p ! nat (table_index a (two_level_l1_size cfg))))"

definition pattern_counter :: "bp_config \<Rightarrow> predictor \<Rightarrow> int \<Rightarrow> int \<Rightarrow> int" where
  "pattern_counter cfg p row col = two_level_pht p ! nat (row * two_level_l2_size cfg + col)"

definition choice_counter :: "bp_config \<Rightarrow> predictor \<Rightarrow> 32 word \<Rightarrow> int" where
  "choice_counter cfg p a = choice p ! nat (table_index a (choice_size cfg))"

lemma lookup_bimod_eq:
  assumes v: "valid_config cfg" and inv: "bp_inv cfg p" and k: "has_bimod cfg"
  shows "lookup_bimod cfg p u = Inr (u\<lparr>bimod_index := table_index (eip u) (bimod_size cfg),
    bimod_prediction := predict (bimod_counter cfg p (eip u)), prediction := predict (bimod_counter cfg p (eip u))\<rparr>)"
proof -
  have "int (length (bimod p)) = bimod_size cfg" using inv k by (simp add: bp_inv_def counters_ok_def)
  then have "rd (bimod p) (table_index (eip u) (bimod_size cfg)) = Inr (bimod_counter cfg p (eip u))"
    unfolding bimod_counter_def by (rule rd_nth [OF table_index_bounds [OF valid_configD(1) [OF v]]])
  then show ?thesis by (simp add: lookup_bimod_def Let_def)
qed

lemma history_bounds:
  assumes v: "valid_config cfg" and inv: "bp_inv cfg p" and k: "has_two_level cfg"
  shows "rd (two_level_bht p) (table_index a (two_level_l1_size cfg)) = Inr (two_level_bht p ! nat (table_index a (two_level_l1_size cfg)))"
    "sint (two_level_bht p ! nat (table_index a (two_level_l1_size cfg))) = history cfg p a"
    "0 \<le> history cfg p a" "history cfg p a < two_level_l2_height cfg"
proof -
  let ?i = "table_index a (two_level_l1_size cfg)"
  have len: "int (length (two_level_bht p)) = two_level_l1_size cfg" using inv k by (simp add: bp_inv_def)
  note i = table_index_bounds [OF valid_configD(5) [OF v], of a]
  show "rd (two_level_bht p) ?i = Inr (two_level_bht p ! nat ?i)" by (rule rd_nth [OF i len])
  have "two_level_bht p ! nat ?i \<in> set (two_level_bht p)" using i len by (intro nth_mem) simp
  then have h: "history cfg p a < two_level_l2_height cfg" using inv k unfolding bp_inv_def history_def by blast
  then show "history cfg p a < two_level_l2_height cfg" .
  show "sint (two_level_bht p ! nat ?i) = history cfg p a"
    using history_small [OF v] h unfolding history_def by blast
  show "0 \<le> history cfg p a" by (simp add: history_def)
qed

lemma rd_pattern:
  assumes v: "valid_config cfg" and inv: "bp_inv cfg p" and k: "has_two_level cfg"
    and r: "0 \<le> row" "row < two_level_l2_height cfg" "0 \<le> col" "col < two_level_l2_size cfg"
  shows "rd (two_level_pht p) (row * two_level_l2_size cfg + col) = Inr (pattern_counter cfg p row col)"
proof -
  have "int (length (two_level_pht p)) = two_level_l2_size cfg * two_level_l2_height cfg"
    using inv k by (simp add: bp_inv_def counters_ok_def)
  then show ?thesis unfolding pattern_counter_def by (rule rd_nth [OF pht_index [OF valid_configD(6) [OF v] r]])
qed

lemma lookup_two_level_eq:
  fixes u :: uop
  assumes v: "valid_config cfg" and inv: "bp_inv cfg p" and k: "has_two_level cfg"
  defines "a \<equiv> eip u"
  defines "c \<equiv> predict (pattern_counter cfg p (history cfg p a) (table_index a (two_level_l2_size cfg)))"
  shows "lookup_two_level cfg p u = Inr (u\<lparr>two_level_bht_index := table_index a (two_level_l1_size cfg),
    two_level_pht_row := history cfg p a, two_level_pht_col := table_index a (two_level_l2_size cfg),
    two_level_prediction := c, prediction := c\<rparr>)"
  unfolding lookup_two_level_def Let_def a_def [symmetric] history_bounds(1,2) [OF v inv k] andthen_simps
    rd_pattern [OF v inv k history_bounds(3,4) [OF v inv k] table_index_bounds [OF valid_configD(6) [OF v]]] c_def
  using history_bounds(4) [OF v inv k, of a] by simp

lemma lookup_choice_eq:
  fixes u :: uop
  assumes v: "valid_config cfg" and inv: "bp_inv cfg p" and k: "kind cfg = KindCombined"
  defines "d \<equiv> (if 1 < choice_counter cfg p (eip u) then two_level_prediction u else bimod_prediction u)"
  shows "lookup_choice cfg p u = Inr (u\<lparr>choice_index := table_index (eip u) (choice_size cfg), choice_prediction := d, prediction := d\<rparr>)"
proof -
  have "int (length (choice p)) = choice_size cfg" using inv k by (simp add: bp_inv_def counters_ok_def)
  then have "rd (choice p) (table_index (eip u) (choice_size cfg)) = Inr (choice_counter cfg p (eip u))"
    unfolding choice_counter_def by (rule rd_nth [OF table_index_bounds [OF valid_configD(2) [OF v]]])
  then show ?thesis by (simp add: lookup_choice_def Let_def d_def)
qed

text \<open>Training, table by table.\<close>

lemma update_bimod_eq:
  fixes t :: bool
  assumes inv: "bp_inv cfg p" and k: "has_bimod cfg" and u: "uop_ok cfg u"
  defines "xs \<equiv> (bimod p)[nat (bimod_index u) := train t (bimod p ! nat (bimod_index u))]"
  shows "update_bimod t u p = Inr (p\<lparr>bimod := xs\<rparr>)" "bp_inv cfg (p\<lparr>bimod := xs\<rparr>)"
proof -
  have c: "counters_ok (bimod_size cfg) (bimod p)" using inv k by (simp add: bp_inv_def)
  have i: "0 \<le> bimod_index u" "bimod_index u < bimod_size cfg" using u by (simp_all add: uop_ok_def)
  show "update_bimod t u p = Inr (p\<lparr>bimod := xs\<rparr>)"
    unfolding update_bimod_def rd_nth [OF i counters_ok_length [OF c]] wr_upd [OF i counters_ok_length [OF c]] xs_def by simp
  show "bp_inv cfg (p\<lparr>bimod := xs\<rparr>)" using inv train_counter [OF c i] by (simp add: bp_inv_def xs_def)
qed

lemma update_choice_eq:
  assumes inv: "bp_inv cfg p" and k: "kind cfg = KindCombined" and u: "uop_ok cfg u"
  defines "xs \<equiv> (choice p)[nat (choice_index u) := train (bimod_prediction u \<noteq> PredictionTaken) (choice p ! nat (choice_index u))]"
  shows "update_choice u p = Inr (p\<lparr>choice := xs\<rparr>)" "bp_inv cfg (p\<lparr>choice := xs\<rparr>)"
proof -
  have c: "counters_ok (choice_size cfg) (choice p)" using inv k by (simp add: bp_inv_def)
  have i: "0 \<le> choice_index u" "choice_index u < choice_size cfg" using u by (simp_all add: uop_ok_def)
  show "update_choice u p = Inr (p\<lparr>choice := xs\<rparr>)"
    unfolding update_choice_def rd_nth [OF i counters_ok_length [OF c]] wr_upd [OF i counters_ok_length [OF c]] xs_def by simp
  show "bp_inv cfg (p\<lparr>choice := xs\<rparr>)" using inv train_counter [OF c i] by (simp add: bp_inv_def xs_def)
qed

text \<open>The new history: the outcome enters on the right, the oldest one leaves on the left.\<close>

definition shift_in :: "bp_config \<Rightarrow> bool \<Rightarrow> 32 word \<Rightarrow> 32 word" where
  "shift_in cfg t h = (push_bit 1 h OR of_bool t) AND (of_int (two_level_l2_height cfg) - 1)"

lemma height_mask:
  assumes "valid_config cfg"
  shows "of_int (two_level_l2_height cfg) - 1 = (mask (nat (two_level_history_size cfg)) :: 32 word)"
  using assms by (simp add: valid_config_def mask_eq_exp_minus_1)

lemma shift_in_less: "valid_config cfg \<Longrightarrow> int (unat (shift_in cfg t h)) < two_level_l2_height cfg"
proof -
  assume v: "valid_config cfg"
  have "int (unat (shift_in cfg t h)) < int (2 ^ nat (two_level_history_size cfg))"
    unfolding shift_in_def height_mask [OF v] of_nat_less_iff by (rule offset_less)
  then show ?thesis using v by (simp add: valid_config_def)
qed

lemma update_two_level_eq:
  fixes t :: bool
  assumes v: "valid_config cfg" and inv: "bp_inv cfg p" and k: "has_two_level cfg" and u: "uop_ok cfg u"
  defines "hs \<equiv> (two_level_bht p)[nat (two_level_bht_index u) := shift_in cfg t (two_level_bht p ! nat (two_level_bht_index u))]"
  defines "i \<equiv> two_level_pht_row u * two_level_l2_size cfg + two_level_pht_col u"
  defines "xs \<equiv> (two_level_pht p)[nat i := train t (two_level_pht p ! nat i)]"
  shows "update_two_level cfg t u p = Inr (p\<lparr>two_level_bht := hs, two_level_pht := xs\<rparr>)"
    "bp_inv cfg (p\<lparr>two_level_bht := hs, two_level_pht := xs\<rparr>)"
proof -
  let ?n = "two_level_l2_size cfg * two_level_l2_height cfg"
  have c: "counters_ok ?n (two_level_pht p)" and len: "int (length (two_level_bht p)) = two_level_l1_size cfg"
    and hl: "\<forall>h \<in> set (two_level_bht p). int (unat h) < two_level_l2_height cfg" using inv k by (simp_all add: bp_inv_def)
  have b: "0 \<le> two_level_bht_index u" "two_level_bht_index u < two_level_l1_size cfg" using u by (simp_all add: uop_ok_def)
  have ii: "0 \<le> i" "i < ?n" unfolding i_def using u by (auto intro!: pht_index [OF valid_configD(6) [OF v]] simp: uop_ok_def)
  show "update_two_level cfg t u p = Inr (p\<lparr>two_level_bht := hs, two_level_pht := xs\<rparr>)"
    unfolding update_two_level_def rd_nth [OF b len] wr_upd [OF b len] andthen_simps i_def [symmetric] Let_def
      rd_nth [OF ii counters_ok_length [OF c]] wr_upd [OF ii counters_ok_length [OF c]] hs_def xs_def shift_in_def by simp
  have "\<forall>h \<in> set hs. int (unat h) < two_level_l2_height cfg"
    using hl set_update_subset_insert [of "two_level_bht p" "nat (two_level_bht_index u)"
        "shift_in cfg t (two_level_bht p ! nat (two_level_bht_index u))"] shift_in_less [OF v]
    unfolding hs_def by blast
  then show "bp_inv cfg (p\<lparr>two_level_bht := hs, two_level_pht := xs\<rparr>)"
    using inv train_counter [OF c ii] len by (simp add: bp_inv_def hs_def xs_def)
qed

section \<open>Looking up and training a direction\<close>

text \<open>A branch whose direction the tables predict.\<close>

definition conditional :: "uop \<Rightarrow> bool" where
  "conditional u \<longleftrightarrow> flag_ctrl u \<and> \<not> flag_uncond u \<and> opcode u \<noteq> OpcodeIbranch"

text \<open>The direction that each predictor gives for an address.\<close>

definition bimod_dir :: "bp_config \<Rightarrow> predictor \<Rightarrow> 32 word \<Rightarrow> Prediction" where
  "bimod_dir cfg p a = predict (bimod_counter cfg p a)"

definition two_level_dir :: "bp_config \<Rightarrow> predictor \<Rightarrow> 32 word \<Rightarrow> Prediction" where
  "two_level_dir cfg p a = predict (pattern_counter cfg p (history cfg p a) (table_index a (two_level_l2_size cfg)))"

definition direction :: "bp_config \<Rightarrow> predictor \<Rightarrow> uop \<Rightarrow> Prediction" where
  "direction cfg p u =
     (if \<not> conditional u then PredictionTaken
      else case kind cfg of
        KindInvalid \<Rightarrow> prediction u
      | KindPerfect \<Rightarrow> (if is_taken u then PredictionTaken else PredictionNotTaken)
      | KindTaken \<Rightarrow> PredictionTaken
      | KindNottaken \<Rightarrow> PredictionNotTaken
      | KindBimod \<Rightarrow> bimod_dir cfg p (eip u)
      | KindTwoLevel \<Rightarrow> two_level_dir cfg p (eip u)
      | KindCombined \<Rightarrow> (if 1 < choice_counter cfg p (eip u) then two_level_dir cfg p (eip u) else bimod_dir cfg p (eip u)))"

text \<open>The micro-instruction after the lookup: the part of the predictors that the configuration has.\<close>

definition with_bimod :: "bp_config \<Rightarrow> predictor \<Rightarrow> uop \<Rightarrow> uop" where
  "with_bimod cfg p u =
     (if has_bimod cfg then u\<lparr>bimod_index := table_index (eip u) (bimod_size cfg), bimod_prediction := bimod_dir cfg p (eip u)\<rparr> else u)"

definition with_two_level :: "bp_config \<Rightarrow> predictor \<Rightarrow> uop \<Rightarrow> uop" where
  "with_two_level cfg p u =
     (if has_two_level cfg
      then u\<lparr>two_level_bht_index := table_index (eip u) (two_level_l1_size cfg), two_level_pht_row := history cfg p (eip u),
        two_level_pht_col := table_index (eip u) (two_level_l2_size cfg), two_level_prediction := two_level_dir cfg p (eip u)\<rparr>
      else u)"

definition with_choice :: "bp_config \<Rightarrow> predictor \<Rightarrow> uop \<Rightarrow> uop" where
  "with_choice cfg p u =
     (if kind cfg = KindCombined
      then u\<lparr>choice_index := table_index (eip u) (choice_size cfg), choice_prediction := direction cfg p u\<rparr> else u)"

definition looked_up :: "bp_config \<Rightarrow> predictor \<Rightarrow> uop \<Rightarrow> uop" where
  "looked_up cfg p u =
     (if conditional u
      then (with_choice cfg p (with_two_level cfg p (with_bimod cfg p u)))\<lparr>prediction := direction cfg p u\<rparr>
      else u\<lparr>prediction := PredictionTaken\<rparr>)"

lemma Lookup_eq:
  assumes v: "valid_config cfg" and inv: "bp_inv cfg p" and c: "flag_ctrl u"
  shows "Lookup cfg p u = Inr (looked_up cfg p u, direction cfg p u)"
proof (cases "conditional u")
  case False
  then show ?thesis using c by (auto simp: Lookup_def looked_up_def direction_def conditional_def)
next
  case True
  then have n: "\<not> flag_uncond u" "opcode u \<noteq> OpcodeIbranch" by (simp_all add: conditional_def)
  note eqs = lookup_bimod_eq [OF v inv] lookup_two_level_eq [OF v inv] lookup_choice_eq [OF v inv]
  note defs = has_bimod_def has_two_level_def with_bimod_def with_two_level_def with_choice_def direction_def
    bimod_dir_def two_level_dir_def
  show ?thesis
  proof (cases "kind cfg")
    case KindCombined
    then show ?thesis using True n c by (simp add: Lookup_def looked_up_def eqs defs conditional_def Let_def)
  next
    case KindBimod
    then show ?thesis using True n c by (simp add: Lookup_def looked_up_def eqs defs conditional_def Let_def)
  next
    case KindTwoLevel
    then show ?thesis using True n c by (simp add: Lookup_def looked_up_def eqs defs conditional_def Let_def)
  qed (use True n c in \<open>simp_all add: Lookup_def looked_up_def defs conditional_def Let_def\<close>)
qed

lemma uop_ok_looked_up:
  assumes v: "valid_config cfg" and inv: "bp_inv cfg p" and u: "uop_ok cfg u"
  shows "uop_ok cfg (looked_up cfg p u)"
proof -
  note i = table_index_bounds [OF valid_configD(1) [OF v]] table_index_bounds [OF valid_configD(2) [OF v]]
    table_index_bounds [OF valid_configD(5) [OF v]] table_index_bounds [OF valid_configD(6) [OF v]]
  have b: "uop_ok cfg (with_bimod cfg p u)" using u i by (simp add: uop_ok_def with_bimod_def)
  have t: "uop_ok cfg (with_two_level cfg p w)" if "uop_ok cfg w" for w
    using that i history_bounds(3,4) [OF v inv] by (simp add: uop_ok_def with_two_level_def)
  have ch: "uop_ok cfg (with_choice cfg p w)" if "uop_ok cfg w" for w
    using that i by (simp add: uop_ok_def with_choice_def)
  have "uop_ok cfg (w\<lparr>prediction := d\<rparr>)" if "uop_ok cfg w" for w d using that by (simp add: uop_ok_def)
  then show ?thesis using b t ch u by (simp add: looked_up_def)
qed

text \<open>Which tables a committed branch trains.\<close>

definition trained :: "bp_config \<Rightarrow> uop \<Rightarrow> bool" where
  "trained cfg u \<longleftrightarrow> kind cfg \<noteq> KindPerfect \<and> \<not> flag_uncond u"

definition trains_bimod :: "bp_config \<Rightarrow> uop \<Rightarrow> bool" where
  "trains_bimod cfg u \<longleftrightarrow> trained cfg u \<and> (kind cfg = KindBimod \<or> kind cfg = KindCombined \<and> choice_prediction u = PredictionNotTaken)"

definition trains_two_level :: "bp_config \<Rightarrow> uop \<Rightarrow> bool" where
  "trains_two_level cfg u \<longleftrightarrow> trained cfg u \<and> (kind cfg = KindTwoLevel \<or> kind cfg = KindCombined \<and> choice_prediction u = PredictionTaken)"

definition trains_choice :: "bp_config \<Rightarrow> uop \<Rightarrow> bool" where
  "trains_choice cfg u \<longleftrightarrow> trained cfg u \<and> kind cfg = KindCombined \<and> bimod_prediction u \<noteq> two_level_prediction u"

definition pht_cell :: "bp_config \<Rightarrow> uop \<Rightarrow> nat" where
  "pht_cell cfg u = nat (two_level_pht_row u * two_level_l2_size cfg + two_level_pht_col u)"

definition after_update :: "bp_config \<Rightarrow> predictor \<Rightarrow> uop \<Rightarrow> predictor" where
  "after_update cfg p u = p
     \<lparr>accesses := accesses p + 1,
      hits := hits p + (if neip u = predicted_neip u then 1 else 0),
      bimod := (if trains_bimod cfg u
        then (bimod p)[nat (bimod_index u) := train (is_taken u) (bimod p ! nat (bimod_index u))] else bimod p),
      two_level_bht := (if trains_two_level cfg u
        then (two_level_bht p)[nat (two_level_bht_index u) := shift_in cfg (is_taken u) (two_level_bht p ! nat (two_level_bht_index u))]
        else two_level_bht p),
      two_level_pht := (if trains_two_level cfg u
        then (two_level_pht p)[pht_cell cfg u := train (is_taken u) (two_level_pht p ! pht_cell cfg u)] else two_level_pht p),
      choice := (if trains_choice cfg u
        then (choice p)[nat (choice_index u) := train (bimod_prediction u \<noteq> PredictionTaken) (choice p ! nat (choice_index u))]
        else choice p)\<rparr>"

lemma bp_inv_stats [simp]: "bp_inv cfg (p\<lparr>accesses := x\<rparr>) = bp_inv cfg p" "bp_inv cfg (p\<lparr>hits := y\<rparr>) = bp_inv cfg p"
  by (simp_all add: bp_inv_def)

lemma Update_eq:
  assumes v: "valid_config cfg" and inv: "bp_inv cfg p" and u: "uop_ok cfg u" and sp: "\<not> speculative_mode u"
  shows "Update cfg p u = Inr (after_update cfg p u)" "bp_inv cfg (after_update cfg p u)"
proof -
  let ?q = "p\<lparr>accesses := accesses p + 1, hits := hits p + (if neip u = predicted_neip u then 1 else 0)\<rparr>"
  have iq: "bp_inv cfg ?q" using inv by simp
  have q: "(if neip u = predicted_neip u then p\<lparr>accesses := accesses p + 1, hits := hits p + 1\<rparr> else p\<lparr>accesses := accesses p + 1\<rparr>) = ?q"
    by simp
  have ctrl: "flag_ctrl u" using u by (simp add: uop_ok_def)
  have "Update cfg p u = Inr (after_update cfg p u) \<and> bp_inv cfg (after_update cfg p u)"
  proof (cases "trained cfg u")
    case False
    then have "Update cfg p u = Inr ?q" using sp ctrl by (auto simp: Update_def trained_def Let_def)
    moreover have "after_update cfg p u = ?q"
      using False by (simp add: after_update_def trains_bimod_def trains_two_level_def trains_choice_def)
    ultimately show ?thesis using iq by simp
  next
    case True
    define q1 where "q1 = ?q\<lparr>bimod := (if trains_bimod cfg u
        then (bimod p)[nat (bimod_index u) := train (is_taken u) (bimod p ! nat (bimod_index u))] else bimod p)\<rparr>"
    define q2 where "q2 = q1\<lparr>two_level_bht := (if trains_two_level cfg u
        then (two_level_bht p)[nat (two_level_bht_index u) := shift_in cfg (is_taken u) (two_level_bht p ! nat (two_level_bht_index u))]
        else two_level_bht p), two_level_pht := (if trains_two_level cfg u
        then (two_level_pht p)[pht_cell cfg u := train (is_taken u) (two_level_pht p ! pht_cell cfg u)] else two_level_pht p)\<rparr>"
    define q3 where "q3 = q2\<lparr>choice := (if trains_choice cfg u
        then (choice p)[nat (choice_index u) := train (bimod_prediction u \<noteq> PredictionTaken) (choice p ! nat (choice_index u))]
        else choice p)\<rparr>"
    have s1: "(if trains_bimod cfg u then update_bimod (is_taken u) u ?q else Inr ?q) = Inr q1 \<and> bp_inv cfg q1"
    proof (cases "trains_bimod cfg u")
      case True
      then have "has_bimod cfg" by (auto simp: trains_bimod_def has_bimod_def)
      then show ?thesis using update_bimod_eq [OF iq _ u, of "is_taken u"] True by (simp add: q1_def)
    qed (use iq in \<open>simp add: q1_def\<close>)
    have s2: "(if trains_two_level cfg u then update_two_level cfg (is_taken u) u q1 else Inr q1) = Inr q2 \<and> bp_inv cfg q2"
    proof (cases "trains_two_level cfg u")
      case True
      then have h: "has_two_level cfg" by (auto simp: trains_two_level_def has_two_level_def)
      have "two_level_bht q1 = two_level_bht p" "two_level_pht q1 = two_level_pht p" by (simp_all add: q1_def)
      then show ?thesis using update_two_level_eq [OF v conjunct2 [OF s1] h u, of "is_taken u"] True by (simp add: q2_def pht_cell_def)
    next
      case False
      then have "q2 = q1" by (simp add: q2_def q1_def)
      then show ?thesis using s1 False by simp
    qed
    have s3: "(if trains_choice cfg u then update_choice u q2 else Inr q2) = Inr q3 \<and> bp_inv cfg q3"
    proof (cases "trains_choice cfg u")
      case True
      then have h: "kind cfg = KindCombined" by (simp add: trains_choice_def)
      have "choice q2 = choice p" by (simp add: q2_def q1_def)
      then show ?thesis using update_choice_eq [OF conjunct2 [OF s2] h u] True by (simp add: q3_def)
    next
      case False
      then have "q3 = q2" by (simp add: q3_def q2_def q1_def)
      then show ?thesis using s2 False by simp
    qed
    have "Update cfg p u = andthen (if trains_bimod cfg u then update_bimod (is_taken u) u ?q else Inr ?q) (\<lambda>p.
        andthen (if trains_two_level cfg u then update_two_level cfg (is_taken u) u p else Inr p) (\<lambda>p.
        if trains_choice cfg u then update_choice u p else Inr p))"
      using True sp ctrl by (simp add: Update_def Let_def trained_def trains_bimod_def trains_two_level_def trains_choice_def)
    then have "Update cfg p u = Inr q3" using s1 s2 s3 by simp
    moreover have "q3 = after_update cfg p u" by (simp add: q3_def q2_def q1_def after_update_def)
    ultimately show ?thesis using s3 by simp
  qed
  then show "Update cfg p u = Inr (after_update cfg p u)" "bp_inv cfg (after_update cfg p u)" by simp_all
qed

section \<open>The return address stack\<close>

text \<open>\<open>S\<close> has the addresses of the open calls, the last one first; the stack keeps as many as fit.\<close>

definition ras_rep :: "bp_config \<Rightarrow> predictor \<Rightarrow> 32 word list \<Rightarrow> bool" where
  "ras_rep cfg p S \<longleftrightarrow> int (length (ras p)) = ras_size cfg \<and> 0 \<le> ras_index p \<and> ras_index p < ras_size cfg \<and>
     int (length S) \<le> ras_size cfg \<and> (\<forall>i < length S. ras p ! nat ((ras_index p - 1 - int i) mod ras_size cfg) = S ! i)"

lemma push_ras_rep:
  assumes r: "ras_rep cfg p S"
  shows "\<exists>p'. push_ras cfg a p = Inr p' \<and> ras_rep cfg p' (take (nat (ras_size cfg)) (a # S)) \<and> p' = p\<lparr>ras := ras p', ras_index := ras_index p'\<rparr>"
proof -
  let ?R = "ras_size cfg"
  let ?i = "(ras_index p + 1) mod ?R"
  let ?xs = "(ras p)[nat (ras_index p) := a]"
  let ?p = "p\<lparr>ras := ?xs, ras_index := ?i\<rparr>"
  have R: "0 < ?R" and i: "0 \<le> ras_index p" "ras_index p < ?R" and len: "int (length (ras p)) = ?R"
    using r by (auto simp: ras_rep_def)
  have "push_ras cfg a p = Inr ?p"
    using R i by (simp add: push_ras_def wr_upd [OF i len] c_rem_nonneg)
  moreover have "ras_rep cfg ?p (take (nat ?R) (a # S))"
    unfolding ras_rep_def
  proof (intro conjI allI impI)
    show "int (length (take (nat ?R) (a # S))) \<le> ?R" using R by simp
    fix j assume j: "j < length (take (nat ?R) (a # S))"
    then have jR: "int j < ?R" "j < Suc (length S)" by auto
    have m: "(?i - 1 - int j) mod ?R = (ras_index p - int j) mod ?R"
    proof -
      have "(?i - 1 - int j) mod ?R = (?i - (1 + int j)) mod ?R" by (simp add: algebra_simps)
      also have "\<dots> = (ras_index p + 1 - (1 + int j)) mod ?R" by (rule mod_diff_left_eq)
      finally show ?thesis by simp
    qed
    show "ras ?p ! nat ((ras_index ?p - 1 - int j) mod ?R) = take (nat ?R) (a # S) ! j"
    proof (cases j)
      case 0
      have "nat (ras_index p) < length (ras p)" using i len by simp
      then show ?thesis using 0 m i R by simp
    next
      case (Suc k)
      have neq: "(ras_index p - int j) mod ?R \<noteq> ras_index p"
      proof
        assume "(ras_index p - int j) mod ?R = ras_index p"
        then have "(ras_index p - int j) mod ?R = ras_index p mod ?R" using i by simp
        then have "?R dvd int j" by (simp add: mod_eq_dvd_iff)
        then show False using jR(1) Suc by (auto dest: zdvd_imp_le)
      qed
      have nn: "0 \<le> (ras_index p - int j) mod ?R" using R by simp
      have "nat ((ras_index p - int j) mod ?R) \<noteq> nat (ras_index p)" using neq nn i by (simp add: nat_eq_iff)
      moreover have "ras p ! nat ((ras_index p - 1 - int k) mod ?R) = S ! k"
        using r Suc jR by (simp add: ras_rep_def)
      moreover have "ras_index p - 1 - int k = ras_index p - int j" using Suc by simp
      ultimately show ?thesis using m Suc j by simp
    qed
  qed (use R len in simp_all)
  ultimately show ?thesis by (intro exI [of _ ?p]) simp
qed

lemma pop_ras_rep:
  assumes r: "ras_rep cfg p S"
  shows "\<exists>p' a. pop_ras cfg p = Inr (p', a) \<and> ras_rep cfg p' (tl S) \<and> (S \<noteq> [] \<longrightarrow> a = hd S) \<and> p' = p\<lparr>ras_index := ras_index p'\<rparr>"
proof -
  let ?R = "ras_size cfg"
  let ?i = "(ras_index p - 1) mod ?R"
  let ?p = "p\<lparr>ras_index := ?i\<rparr>"
  have R: "0 < ?R" and i: "0 \<le> ras_index p" "ras_index p < ?R" and len: "int (length (ras p)) = ?R"
    using r by (auto simp: ras_rep_def)
  have "c_rem (ras_index p + ?R - 1) ?R = (ras_index p + ?R - 1) mod ?R" using i R by (intro c_rem_nonneg) simp_all
  moreover have "ras_index p + ?R - 1 = (ras_index p - 1) + ?R" by simp
  ultimately have c: "c_rem (ras_index p + ?R - 1) ?R = ?i" by (simp only: mod_add_self2)
  have ii: "0 \<le> ?i" "?i < ?R" using R by simp_all
  have "pop_ras cfg p = Inr (?p, ras p ! nat ?i)"
    using R by (simp add: pop_ras_def Let_def c rd_nth [OF ii len])
  moreover have "ras p ! nat ?i = hd S" if "S \<noteq> []"
    using r that by (cases S) (auto simp: ras_rep_def)
  moreover have "ras_rep cfg ?p (tl S)"
    unfolding ras_rep_def
  proof (intro conjI allI impI)
    fix j assume j: "j < length (tl S)"
    have "(?i - 1 - int j) mod ?R = (?i - (1 + int j)) mod ?R" by (simp add: algebra_simps)
    also have "\<dots> = (ras_index p - 1 - (1 + int j)) mod ?R" by (rule mod_diff_left_eq)
    also have "ras_index p - 1 - (1 + int j) = ras_index p - 1 - int (Suc j)" by simp
    finally have "(?i - 1 - int j) mod ?R = (ras_index p - 1 - int (Suc j)) mod ?R" .
    moreover have "Suc j < length S" using j by simp
    then have "ras p ! nat ((ras_index p - 1 - int (Suc j)) mod ?R) = S ! Suc j"
      using r unfolding ras_rep_def by blast
    ultimately show "ras ?p ! nat ((ras_index ?p - 1 - int j) mod ?R) = tl S ! j" using j by (simp add: nth_tl)
  next
    have "int (length (tl S)) \<le> int (length S)" by simp
    then show "int (length (tl S)) \<le> ?R" using r unfolding ras_rep_def by linarith
  qed (use len ii in simp_all)
  ultimately show ?thesis by (intro exI [of _ ?p] exI [of _ "ras p ! nat ?i"]) simp
qed

text \<open>What a lookup of the target does: its hit in the buffer, the target it gives, and the stack.\<close>

definition return_address :: "uop \<Rightarrow> 32 word" where
  "return_address u = eip u + of_int (mop_size u)"

definition btb_hit :: "bp_config \<Rightarrow> predictor \<Rightarrow> uop \<Rightarrow> bool" where
  "btb_hit cfg p u \<longleftrightarrow> kind cfg \<noteq> KindPerfect \<and> opcode u \<noteq> OpcodeIbranch \<and>
     btb_find cfg p (table_index (eip u) (btb_num_sets cfg)) (eip u) [0..<nat (btb_num_ways cfg)] \<notin> {Inr None}"

definition is_call :: "uop \<Rightarrow> bool" where "is_call u \<longleftrightarrow> opcode u = OpcodeCall \<and> \<not> speculative_mode u"

definition is_ret :: "uop \<Rightarrow> bool" where "is_ret u \<longleftrightarrow> opcode u = OpcodeRet \<and> \<not> speculative_mode u"

lemma LookupBtb_rep:
  assumes cfg: "btb_config cfg" and r: "btb_rep cfg (btb p) Ls" and s: "ras_rep cfg p S" and c: "flag_ctrl u"
  shows "\<exists>p' t. LookupBtb cfg p u = Inr (p', t) \<and> p' = p\<lparr>ras := ras p', ras_index := ras_index p'\<rparr> \<and>
    ras_rep cfg p' (if btb_hit cfg p u \<and> is_call u then take (nat (ras_size cfg)) (return_address u # S)
                    else if btb_hit cfg p u \<and> is_ret u then tl S else S) \<and>
    (btb_hit cfg p u \<and> is_ret u \<and> S \<noteq> [] \<longrightarrow> t = hd S) \<and>
    (\<not> is_ret u \<and> eip u \<noteq> 0 \<and> keys_ok (Ls (set_of cfg (eip u))) \<and> kind cfg \<noteq> KindPerfect \<and> opcode u \<noteq> OpcodeIbranch \<longrightarrow>
       t = (case map_of (Ls (set_of cfg (eip u))) (eip u) of None \<Rightarrow> 0 | Some t \<Rightarrow> t))"
proof (cases "kind cfg = KindPerfect \<or> opcode u = OpcodeIbranch")
  case True
  then have nh: "\<not> btb_hit cfg p u" by (auto simp: btb_hit_def)
  have "\<exists>t. LookupBtb cfg p u = Inr (p, t)" using True c by (auto simp: LookupBtb_def)
  then obtain t where "LookupBtb cfg p u = Inr (p, t)" by blast
  then show ?thesis using nh s True by (intro exI [of _ p] exI [of _ t]) auto
next
  case False
  then have n: "kind cfg \<noteq> KindPerfect" "opcode u \<noteq> OpcodeIbranch" by simp_all
  let ?Ls = "Ls (set_of cfg (eip u))"
  obtain f where f: "btb_find cfg p (table_index (eip u) (btb_num_sets cfg)) (eip u) [0..<nat (btb_num_ways cfg)] = Inr f"
    "case f of None \<Rightarrow> map_of ?Ls (eip u) = None
      | Some i \<Rightarrow> \<exists>e. rd (btb p) i = Inr e \<and> eip u \<in> fst ` set ?Ls \<and>
          (eip u \<noteq> 0 \<and> keys_ok ?Ls \<longrightarrow> map_of ?Ls (eip u) = Some (target e))"
    using btb_find_rep [OF cfg r, of "eip u"] by blast
  show ?thesis
  proof (cases f)
    case None
    then have "\<not> btb_hit cfg p u" using f(1) by (simp add: btb_hit_def)
    moreover have "LookupBtb cfg p u = Inr (p, 0)" using n c f(1) None by (simp add: LookupBtb_def)
    ultimately show ?thesis using s f(2) None by (intro exI [of _ p] exI [of _ 0]) simp
  next
    case (Some i)
    then have hit: "btb_hit cfg p u" using f(1) n by (simp add: btb_hit_def)
    obtain e where e: "rd (btb p) i = Inr e" "eip u \<noteq> 0 \<and> keys_ok ?Ls \<longrightarrow> map_of ?Ls (eip u) = Some (target e)"
      using f(2) Some by auto
    have L: "LookupBtb cfg p u = (if is_call u then andthen (push_ras cfg (return_address u) p) (\<lambda>p. Inr (p, target e))
        else if is_ret u then pop_ras cfg p else Inr (p, target e))"
      using n c f(1) Some e(1) by (simp add: LookupBtb_def is_call_def is_ret_def return_address_def)
    show ?thesis
    proof (cases "is_call u")
      case True
      then have nr: "\<not> is_ret u" by (simp add: is_call_def is_ret_def)
      obtain p' where p': "push_ras cfg (return_address u) p = Inr p'"
          "ras_rep cfg p' (take (nat (ras_size cfg)) (return_address u # S))" "p' = p\<lparr>ras := ras p', ras_index := ras_index p'\<rparr>"
        using push_ras_rep [OF s, of "return_address u"] by blast
      then have "LookupBtb cfg p u = Inr (p', target e)" using L True by simp
      then show ?thesis using p' hit True nr e(2) by (intro exI [of _ p'] exI [of _ "target e"]) simp
    next
      case nc: False
      show ?thesis
      proof (cases "is_ret u")
        case True
        obtain p' a where p': "pop_ras cfg p = Inr (p', a)" "ras_rep cfg p' (tl S)" "S \<noteq> [] \<longrightarrow> a = hd S"
            "p' = p\<lparr>ras_index := ras_index p'\<rparr>"
          using pop_ras_rep [OF s] by blast
        have "ras p' = ras p" using arg_cong [OF p'(4), of ras] by simp
        then have "p' = p\<lparr>ras := ras p', ras_index := ras_index p'\<rparr>" using p'(4) by simp
        then show ?thesis using p' L hit True nc by (intro exI [of _ p'] exI [of _ a]) simp
      next
        case False
        then show ?thesis using L hit nc s e(2) by (intro exI [of _ p] exI [of _ "target e"]) simp
      qed
    qed
  qed
qed

lemma bp_inv_ras: "bp_inv cfg p \<Longrightarrow> ras_rep cfg p []"
  by (auto simp: bp_inv_def ras_rep_def)

lemma bp_inv_btb: "bp_inv cfg p \<Longrightarrow> \<exists>Ls. btb_rep cfg (btb p) Ls"
  by (simp add: bp_inv_def)

lemma LookupBtb_inv:
  assumes v: "valid_config cfg" and inv: "bp_inv cfg p" and c: "flag_ctrl u"
  shows "\<exists>p' t. LookupBtb cfg p u = Inr (p', t) \<and> bp_inv cfg p' \<and> btb p' = btb p"
proof -
  obtain Ls where r: "btb_rep cfg (btb p) Ls" using inv unfolding bp_inv_def by blast
  obtain p' t S where p': "LookupBtb cfg p u = Inr (p', t)" "p' = p\<lparr>ras := ras p', ras_index := ras_index p'\<rparr>" "ras_rep cfg p' S"
    using LookupBtb_rep [OF valid_btb [OF v] r bp_inv_ras [OF inv] c] by blast
  have "bp_inv cfg (p\<lparr>ras := ras p', ras_index := ras_index p'\<rparr>)"
    using inv p'(3) by (simp add: bp_inv_def ras_rep_def)
  then have "bp_inv cfg p'" using p'(2) by simp
  moreover have "btb p' = btb p" using arg_cong [OF p'(2), of btb] by simp
  ultimately show ?thesis using p'(1) by blast
qed

lemma UpdateBtb_inv:
  assumes v: "valid_config cfg" and inv: "bp_inv cfg p"
  shows "\<exists>b. UpdateBtb cfg p u = Inr (p\<lparr>btb := b\<rparr>) \<and> bp_inv cfg (p\<lparr>btb := b\<rparr>)"
proof (cases "kind cfg = KindPerfect")
  case True
  then show ?thesis using inv by (intro exI [of _ "btb p"]) (simp add: UpdateBtb_def)
next
  case False
  obtain Ls where r: "btb_rep cfg (btb p) Ls" using inv unfolding bp_inv_def by blast
  obtain b L where b: "UpdateBtb cfg p u = Inr (p\<lparr>btb := b\<rparr>)" "btb_rep cfg b L"
    using UpdateBtb_rep [OF valid_btb [OF v] r False, of u] by blast
  have "bp_inv cfg (p\<lparr>btb := b\<rparr>)" using inv b(2) unfolding bp_inv_def by auto
  then show ?thesis using b(1) by blast
qed

section \<open>Several predictions at once\<close>

text \<open>The predictor after a predicted branch, before its outcome is known: only the history moves on.\<close>

definition shifted :: "bp_config \<Rightarrow> predictor \<Rightarrow> 32 word \<Rightarrow> bool \<Rightarrow> predictor" where
  "shifted cfg p a t =
     (let i = nat (table_index a (two_level_l1_size cfg))
      in p\<lparr>two_level_bht := (two_level_bht p)[i := shift_in cfg t (two_level_bht p ! i)]\<rparr>)"

text \<open>The directions that lookups of the same branch give one after the other.\<close>

primrec lookups :: "bp_config \<Rightarrow> uop \<Rightarrow> nat \<Rightarrow> predictor \<Rightarrow> bool list" where
  "lookups cfg u 0 p = []"
| "lookups cfg u (Suc n) p =
     (case Lookup cfg p u of
        Inl e \<Rightarrow> []
      | Inr (_, d) \<Rightarrow> (d = PredictionTaken) # lookups cfg u n (shifted cfg p (eip u) (d = PredictionTaken)))"

lemma uint_shift_in:
  assumes v: "valid_config cfg" and h: "int (unat h) < two_level_l2_height cfg"
  shows "int (unat (shift_in cfg t h)) = (push_bit 1 (int (unat h)) OR of_bool t) AND (two_level_l2_height cfg - 1)"
proof -
  let ?k = "nat (two_level_history_size cfg)"
  have k: "?k \<le> 30" "two_level_l2_height cfg = 2 ^ ?k" using v by (auto simp: valid_config_def nat_le_iff)
  have m: "two_level_l2_height cfg - 1 = mask ?k" using k(2) by (simp add: mask_eq_exp_minus_1)
  show ?thesis unfolding shift_in_def height_mask [OF v] m
    by (rule bit_eqI) (use k(1) in \<open>auto simp: bit_simps simp del: One_nat_def push_bit_Suc\<close>)
qed

lemma shifted_inv:
  assumes v: "valid_config cfg" and inv: "bp_inv cfg p"
  shows "bp_inv cfg (shifted cfg p a t)"
proof -
  let ?i = "nat (table_index a (two_level_l1_size cfg))"
  let ?hs = "(two_level_bht p)[?i := shift_in cfg t (two_level_bht p ! ?i)]"
  have "set ?hs \<subseteq> insert (shift_in cfg t (two_level_bht p ! ?i)) (set (two_level_bht p))"
    by (rule set_update_subset_insert)
  then have "has_two_level cfg \<longrightarrow> (\<forall>h \<in> set ?hs. int (unat h) < two_level_l2_height cfg)"
    using inv shift_in_less [OF v] unfolding bp_inv_def by blast
  then show ?thesis using inv by (simp add: bp_inv_def shifted_def Let_def)
qed

lemma shifted_history:
  assumes v: "valid_config cfg" and inv: "bp_inv cfg p" and k: "has_two_level cfg"
  shows "history cfg (shifted cfg p a t) a = (push_bit 1 (history cfg p a) OR of_bool t) AND (two_level_l2_height cfg - 1)"
proof -
  let ?i = "nat (table_index a (two_level_l1_size cfg))"
  have "int (length (two_level_bht p)) = two_level_l1_size cfg" using inv k by (simp add: bp_inv_def)
  then have "?i < length (two_level_bht p)"
    using table_index_bounds [OF valid_configD(5) [OF v], of a] by (simp add: nat_less_iff)
  then have "history cfg (shifted cfg p a t) a = int (unat (shift_in cfg t (two_level_bht p ! ?i)))"
    by (simp add: history_def shifted_def Let_def)
  then show ?thesis
    using uint_shift_in [OF v, of "two_level_bht p ! ?i" t] history_bounds(4) [OF v inv k, of a] by (simp add: history_def)
qed

lemma pattern_counter_shifted [simp]: "pattern_counter cfg (shifted cfg p a t) = pattern_counter cfg p"
  by (intro ext) (simp add: pattern_counter_def shifted_def Let_def)

lemma bit_or_shift:
  fixes r :: int
  assumes "\<forall>j \<ge> i. \<not> bit r j"
  shows "bit (r OR push_bit i (of_bool b)) j \<longleftrightarrow> (if j = i then b else bit r j)"
  using assms by (auto simp: bit_simps)

lemma multiple_loop_lookups:
  assumes v: "valid_config cfg" and k: "kind cfg = KindTwoLevel" and c: "conditional u" and inv: "bp_inv cfg p"
    and r: "\<forall>j \<ge> i. \<not> bit r j"
    and h: "history cfg p (eip u) = (push_bit 1 row OR of_bool t) AND (two_level_l2_height cfg - 1)"
    and pc: "pattern_counter cfg p' = pattern_counter cfg p" "two_level_pht p' = two_level_pht p"
  shows "\<exists>r'. multiple_loop cfg p' (table_index (eip u) (two_level_l2_size cfg)) n i row (of_bool t) r = Inr r' \<and>
     (\<forall>j. bit r' j \<longleftrightarrow> (if i \<le> j \<and> j < i + n then lookups cfg u n p ! (j - i) else bit r j))"
  using inv r h pc
proof (induction n arbitrary: p i row t r)
  case 0
  have "\<not> (i \<le> j \<and> j < i)" for j :: nat by simp
  then show ?case by auto
next
  case (Suc n)
  let ?a = "eip u"
  let ?col = "table_index ?a (two_level_l2_size cfg)"
  have h2: "has_two_level cfg" using k by (simp add: has_two_level_def)
  let ?h = "history cfg p ?a"
  define d where "d \<longleftrightarrow> 1 < pattern_counter cfg p ?h ?col"
  have rd: "rd (two_level_pht p') (?h * two_level_l2_size cfg + ?col) = Inr (pattern_counter cfg p ?h ?col)"
    unfolding Suc.prems(5)
    by (rule rd_pattern [OF v Suc.prems(1) h2 history_bounds(3,4) [OF v Suc.prems(1) h2] table_index_bounds [OF valid_configD(6) [OF v]]])
  have dir: "Lookup cfg p u = Inr (looked_up cfg p u, if d then PredictionTaken else PredictionNotTaken)"
    using Lookup_eq [OF v Suc.prems(1)] c k
    by (simp add: conditional_def direction_def two_level_dir_def predict_def d_def)
  let ?q = "shifted cfg p ?a d"
  let ?r = "r OR push_bit i (of_bool d)"
  have b: "bit ?r j \<longleftrightarrow> (if j = i then d else bit r j)" for j using bit_or_shift [OF Suc.prems(2)] .
  have hq: "history cfg ?q ?a = (push_bit 1 ?h OR of_bool d) AND (two_level_l2_height cfg - 1)"
    by (rule shifted_history [OF v Suc.prems(1) h2])
  have pq: "pattern_counter cfg p' = pattern_counter cfg ?q" "two_level_pht p' = two_level_pht ?q"
    unfolding pattern_counter_shifted by (rule Suc.prems(4)) (simp add: Suc.prems(5) shifted_def Let_def)
  obtain r' where r': "multiple_loop cfg p' ?col n (i + 1) ?h (of_bool d) ?r = Inr r'"
      "\<forall>j. bit r' j \<longleftrightarrow> (if i + 1 \<le> j \<and> j < i + 1 + n then lookups cfg u n ?q ! (j - (i + 1)) else bit ?r j)"
    using Suc.IH [OF shifted_inv [OF v Suc.prems(1)] _ hq pq, of "i + 1" ?r] b Suc.prems(2) by auto
  have "multiple_loop cfg p' ?col (Suc n) i row (of_bool t) r = Inr r'"
    using r'(1) unfolding multiple_loop.simps Suc.prems(3) [symmetric] Let_def rd andthen_simps d_def by simp
  moreover have "lookups cfg u (Suc n) p = d # lookups cfg u n ?q" using dir by simp
  moreover have "bit r' j \<longleftrightarrow> (if i \<le> j \<and> j < i + Suc n then (d # lookups cfg u n ?q) ! (j - i) else bit r j)" for j
  proof (cases "j = i")
    case True
    then show ?thesis using r'(2) b by simp
  next
    case False
    show ?thesis
    proof (cases "i + 1 \<le> j \<and> j < i + 1 + n")
      case True
      then have "j - i = Suc (j - (i + 1))" by arith
      then show ?thesis using r'(2) True by simp
    next
      case n: False
      then have "bit r' j \<longleftrightarrow> bit ?r j" using r'(2) by auto
      also have "\<dots> \<longleftrightarrow> bit r j" using b False by simp
      finally have "bit r' j \<longleftrightarrow> bit r j" .
      moreover have "\<not> (i \<le> j \<and> j < i + Suc n)" using n False by arith
      ultimately show ?thesis by auto
    qed
  qed
  ultimately show ?case by (intro exI [of _ r']) simp
qed

lemma LookupMultiple_lookups:
  assumes v: "valid_config cfg" and inv: "bp_inv cfg p" and k: "kind cfg = KindTwoLevel" and c: "conditional u"
  shows "\<exists>r. LookupMultiple cfg p (eip u) n = Inr r \<and>
    (\<forall>j. bit r j \<longleftrightarrow> j < max 1 (nat n) \<and> lookups cfg u (max 1 (nat n)) p ! j)"
proof -
  have h2: "has_two_level cfg" using k by (simp add: has_two_level_def)
  let ?a = "eip u"
  let ?col = "table_index ?a (two_level_l2_size cfg)"
  let ?h = "history cfg p ?a"
  define d where "d \<longleftrightarrow> 1 < pattern_counter cfg p ?h ?col"
  have dir: "Lookup cfg p u = Inr (looked_up cfg p u, if d then PredictionTaken else PredictionNotTaken)"
    using Lookup_eq [OF v inv] c k by (simp add: conditional_def direction_def two_level_dir_def predict_def d_def)
  let ?q = "shifted cfg p ?a d"
  have hq: "history cfg ?q ?a = (push_bit 1 ?h OR of_bool d) AND (two_level_l2_height cfg - 1)"
    by (rule shifted_history [OF v inv h2])
  have pq: "pattern_counter cfg p = pattern_counter cfg ?q" "two_level_pht p = two_level_pht ?q"
    unfolding pattern_counter_shifted by (rule refl) (simp add: shifted_def Let_def)
  have b0: "bit (of_bool d :: int) j \<longleftrightarrow> j = 0 \<and> d" for j by (auto simp: bit_simps)
  obtain r where r: "multiple_loop cfg p ?col (nat (n - 1)) 1 ?h (of_bool d) (of_bool d) = Inr r"
      "\<forall>j. bit r j \<longleftrightarrow> (if 1 \<le> j \<and> j < 1 + nat (n - 1) then lookups cfg u (nat (n - 1)) ?q ! (j - 1) else bit (of_bool d :: int) j)"
    using multiple_loop_lookups [OF v k c shifted_inv [OF v inv] _ hq pq, of 1 "of_bool d" "nat (n - 1)"] b0 by auto
  have "LookupMultiple cfg p ?a n = Inr r"
    unfolding LookupMultiple_def Let_def history_bounds(1,2) [OF v inv h2] andthen_simps
      rd_pattern [OF v inv h2 history_bounds(3,4) [OF v inv h2] table_index_bounds [OF valid_configD(6) [OF v]]]
    using k history_bounds(4) [OF v inv h2, of ?a] r(1) by (simp add: d_def)
  moreover have m: "max 1 (nat n) = Suc (nat (n - 1))" by auto
  moreover have "bit r j \<longleftrightarrow> j < Suc (nat (n - 1)) \<and> lookups cfg u (Suc (nat (n - 1))) p ! j" for j
  proof -
    have l: "lookups cfg u (Suc (nat (n - 1))) p = d # lookups cfg u (nat (n - 1)) ?q" using dir by simp
    show ?thesis unfolding l by (cases j) (use r(2) b0 in \<open>auto split: if_splits\<close>)
  qed
  ultimately show ?thesis by (intro exI [of _ r]) (simp only: m simp_thms)
qed

section \<open>The next branch of a block\<close>

definition known :: "bp_config \<Rightarrow> predictor \<Rightarrow> 32 word \<Rightarrow> bool" where
  "known cfg p a \<longleftrightarrow> a \<in> source ` set (ways_of cfg (btb p) (set_of cfg a))"

lemma btb_find_known:
  assumes cfg: "btb_config cfg" and r: "btb_rep cfg (btb p) Ls"
  shows "\<exists>f. btb_find cfg p (table_index a (btb_num_sets cfg)) a [0..<nat (btb_num_ways cfg)] = Inr f \<and> (f \<noteq> None \<longleftrightarrow> known cfg p a)"
proof -
  let ?s = "set_of cfg a"
  let ?es = "ways_of cfg (btb p) ?s"
  let ?f = "find (\<lambda>w. source (?es ! w) = a) [0..<ways cfg]"
  have len: "length (btb p) = nsets cfg * ways cfg" using r by (simp add: btb_rep_def)
  have find: "btb_find cfg p (table_index a (btb_num_sets cfg)) a [0..<nat (btb_num_ways cfg)] = Inr (map_option (\<lambda>w. int (?s * ways cfg + w)) ?f)"
    using btb_find_first [OF cfg len btb_configD(6) [OF cfg], of "[0..<ways cfg]"] by (simp add: ways_def btb_configD(5) [OF cfg])
  have k: "known cfg p a \<longleftrightarrow> (\<exists>w < ways cfg. source (?es ! w) = a)"
    unfolding known_def set_conv_nth by (auto simp: image_iff)
  have "map_option (\<lambda>w. int (?s * ways cfg + w)) ?f \<noteq> None \<longleftrightarrow> known cfg p a"
    unfolding k using find_way_cases [OF refl, where es = ?es and a = a and n = "ways cfg"] by (cases ?f) auto
  then show ?thesis using find by blast
qed

lemma next_branch_loop_max:
  assumes cfg: "btb_config cfg" and r: "btb_rep cfg (btb p) Ls"
  shows "\<exists>r. next_branch_loop cfg p limit a ra = Inr r \<and>
    (r = ra \<and> (\<forall>b. a \<le> b \<and> b < limit \<longrightarrow> \<not> known cfg p b) \<or>
     a \<le> r \<and> r < limit \<and> known cfg p r \<and> (\<forall>b. r < b \<and> b < limit \<longrightarrow> \<not> known cfg p b))"
proof (induction "unat limit - unat a" arbitrary: a ra rule: less_induct)
  case less
  show ?case
  proof (cases "a < limit")
    case False
    then have "next_branch_loop cfg p limit a ra = Inr ra" by (subst next_branch_loop.simps) simp
    moreover have "\<forall>b. a \<le> b \<and> b < limit \<longrightarrow> \<not> known cfg p b" using False by (meson order_le_less_trans)
    ultimately show ?thesis by blast
  next
    case True
    obtain f where f: "btb_find cfg p (table_index a (btb_num_sets cfg)) a [0..<nat (btb_num_ways cfg)] = Inr f"
        "f \<noteq> None \<longleftrightarrow> known cfg p a"
      using btb_find_known [OF cfg r] by blast
    let ?ra = "if known cfg p a then a else ra"
    have step: "next_branch_loop cfg p limit a ra = next_branch_loop cfg p limit (a + 1) ?ra"
      using True f by (subst next_branch_loop.simps) simp
    have lt: "unat a < unat limit" using True by (simp add: word_less_nat_alt)
    then have u: "unat (a + 1) = unat a + 1" using unsigned_less [of limit, where 'a = nat] by (simp add: unat_word_ariths)
    have after: "a + 1 \<le> b \<longleftrightarrow> a < b" for b using u by (simp add: word_le_nat_alt word_less_nat_alt Suc_le_eq)
    have "unat limit - unat (a + 1) < unat limit - unat a" using lt u by simp
    from less [OF this, of ?ra] obtain r' where r': "next_branch_loop cfg p limit (a + 1) ?ra = Inr r'"
        "r' = ?ra \<and> (\<forall>b. a < b \<and> b < limit \<longrightarrow> \<not> known cfg p b) \<or>
         a < r' \<and> r' < limit \<and> known cfg p r' \<and> (\<forall>b. r' < b \<and> b < limit \<longrightarrow> \<not> known cfg p b)"
      unfolding after by blast
    have "r' = ra \<and> (\<forall>b. a \<le> b \<and> b < limit \<longrightarrow> \<not> known cfg p b) \<or>
        a \<le> r' \<and> r' < limit \<and> known cfg p r' \<and> (\<forall>b. r' < b \<and> b < limit \<longrightarrow> \<not> known cfg p b)"
      using r'(2)
    proof
      assume h: "r' = ?ra \<and> (\<forall>b. a < b \<and> b < limit \<longrightarrow> \<not> known cfg p b)"
      show ?thesis
      proof (cases "known cfg p a")
        case True
        then show ?thesis using h \<open>a < limit\<close> by auto
      next
        case False
        then show ?thesis using h by (auto simp: order_le_less)
      qed
    qed auto
    then show ?thesis using step r'(1) by auto
  qed
qed

text \<open>The end of the block of an address, unless it is the last block.\<close>

lemma block_limit:
  fixes a :: "32 word"
  assumes k: "k < 32"
  defines "limit \<equiv> (a + 2 ^ k) AND NOT (2 ^ k - 1)"
  shows "unat a + 2 ^ k < 2 ^ 32 \<Longrightarrow> a \<le> b \<Longrightarrow> b < limit \<longleftrightarrow> b AND NOT (2 ^ k - 1) = a AND NOT (2 ^ k - 1)"
    "2 ^ 32 \<le> unat a + 2 ^ k \<Longrightarrow> limit = 0"
proof -
  have m: "(2 ^ k - 1 :: 32 word) = mask k" and p: "unat (2 ^ k :: 32 word) = 2 ^ k"
    using pow2_facts [OF k] by simp_all
  have l: "unat limit = unat (a + 2 ^ k) div 2 ^ k * 2 ^ k" unfolding limit_def m by (rule unat_base)
  have s: "unat (a + 2 ^ k) = (unat a + 2 ^ k) mod 2 ^ 32" using p by (simp add: unat_word_ariths)
  show "2 ^ 32 \<le> unat a + 2 ^ k \<Longrightarrow> limit = 0"
  proof -
    assume h: "2 ^ 32 \<le> unat a + 2 ^ k"
    have "(2 :: nat) ^ k < 2 ^ 32" using k by (intro power_strict_increasing) simp_all
    moreover have "unat a < 2 ^ 32" using unsigned_less [of a, where 'a = nat] by simp
    ultimately have "(unat a + 2 ^ k) mod 2 ^ 32 = unat a + 2 ^ k - 2 ^ 32" using h
      by (subst le_mod_geq) (simp_all add: mod_less)
    also have "x + y - z < y" if "x < z" "z \<le> x + y" for x y z :: nat using that by arith
    then have "unat a + 2 ^ k - 2 ^ 32 < 2 ^ k" using h \<open>unat a < 2 ^ 32\<close> by blast
    finally have "unat limit = 0" unfolding l s by simp
    then show "limit = 0" by (simp add: unat_eq_0)
  qed
  assume h: "unat a + 2 ^ k < 2 ^ 32" "a \<le> b"
  have "unat limit = (unat a + 2 ^ k) div 2 ^ k * 2 ^ k" using h(1) unfolding l s by (simp only: mod_less)
  also have "(unat a + 2 ^ k) div 2 ^ k = unat a div 2 ^ k + 1" by (rule div_add_self2) simp
  finally have lim: "unat limit = (unat a div 2 ^ k + 1) * 2 ^ k" .
  have "b < limit \<longleftrightarrow> unat b div 2 ^ k < unat a div 2 ^ k + 1"
    unfolding word_less_nat_alt lim by (simp add: div_less_iff_less_mult mult.commute)
  also have "\<dots> \<longleftrightarrow> unat b div 2 ^ k = unat a div 2 ^ k"
    using div_le_mono [of "unat a" "unat b" "2 ^ k"] h(2) by (auto simp: word_le_nat_alt)
  also have "\<dots> \<longleftrightarrow> b AND NOT (2 ^ k - 1) = a AND NOT (2 ^ k - 1)"
    unfolding m word_unat_eq_iff unat_base by simp
  finally show "b < limit \<longleftrightarrow> b AND NOT (2 ^ k - 1) = a AND NOT (2 ^ k - 1)" .
qed

section \<open>Runs\<close>

text \<open>The pairs of address and target of the updates, the last one first, one for each address.\<close>

definition recent :: "uop list \<Rightarrow> (32 word \<times> 32 word) list" where
  "recent us = foldl (\<lambda>L u. (eip u, neip u) # filter (\<lambda>x. fst x \<noteq> eip u) L) [] us"

lemma recent_snoc: "recent (us @ [u]) = (eip u, neip u) # filter (\<lambda>x. fst x \<noteq> eip u) (recent us)"
  by (simp add: recent_def)

lemma recent_keys:
  assumes "\<forall>u \<in> set us. eip u \<noteq> 0"
  shows "distinct (map fst (recent us)) \<and> 0 \<notin> set (map fst (recent us))"
  using assms
proof (induction us rule: rev_induct)
  case Nil
  then show ?case by (simp add: recent_def)
next
  case (snoc u us)
  then have IH: "distinct (map fst (recent us))" "0 \<notin> set (map fst (recent us))" by simp_all
  then have "distinct (map fst (filter (\<lambda>x. fst x \<noteq> eip u) (recent us)))" by (intro distinct_map_filter IH(1))
  then show ?case using IH snoc.prems unfolding recent_snoc by auto
qed

lemma btb_spec_take:
  assumes "keys_ok X" "a \<noteq> 0"
  shows "btb_spec W a t (take W X) = take W ((a, t) # filter (\<lambda>x. fst x \<noteq> a) X)"
proof (cases "a \<in> fst ` set (take W X)")
  case False
  then have "filter (\<lambda>x. fst x \<noteq> a) (take W X) = take W X" by (auto simp: filter_id_conv)
  moreover have "take (W - 1) (filter (\<lambda>x. fst x \<noteq> a) X) = take (W - 1) X"
  proof -
    have "filter (\<lambda>x. fst x \<noteq> a) X = take W X @ filter (\<lambda>x. fst x \<noteq> a) (drop W X)"
      by (metis append_take_drop_id calculation filter_append)
    then show ?thesis by (cases "W \<le> length X") (simp_all add: min_def)
  qed
  ultimately show ?thesis by (cases W) (simp_all add: btb_spec_def)
next
  case True
  then obtain s where "(a, s) \<in> set (take W X)" by force
  then obtain X1 X2 where x: "take W X = X1 @ (a, s) # X2" by (meson split_list)
  let ?D = "drop W X"
  have X: "X = X1 @ (a, s) # (X2 @ ?D)" using x by (metis append.assoc append_Cons append_take_drop_id)
  have f: "filter (\<lambda>y. fst y \<noteq> a) X = X1 @ X2 @ ?D"
    using keys_ok_split [of X1 a s "X2 @ ?D"] assms X by metis
  have f': "filter (\<lambda>y. fst y \<noteq> a) (take W X) = X1 @ X2"
    unfolding x using keys_ok_split [of X1 a s X2] keys_ok_take [OF assms(1), of W] assms(2) x by metis
  show ?thesis
  proof (cases "W \<le> length X")
    case True
    then have "length X1 + Suc (length X2) = W" using arg_cong [OF x, of length] by simp
    then show ?thesis unfolding btb_spec_def f f' by (cases W) (simp_all add: min_def)
  next
    case False
    then show ?thesis unfolding btb_spec_def f f' by simp
  qed
qed

lemma UpdateBtb_run:
  assumes cfg: "btb_config cfg" and k: "kind cfg \<noteq> KindPerfect" and r: "btb_rep cfg (btb p) (\<lambda>_. replicate (ways cfg) (0, 0))"
    and us: "\<forall>u \<in> set us. eip u \<noteq> 0"
  shows "\<exists>b Ls. run_list (UpdateBtb cfg) us p = Inr (p\<lparr>btb := b\<rparr>) \<and> btb_rep cfg b Ls \<and>
    (\<forall>s. Ls s = take (ways cfg) (recent (filter (\<lambda>u. set_of cfg (eip u) = s) us) @ replicate (ways cfg) (0, 0)))"
  using us
proof (induction us rule: rev_induct)
  case Nil
  then show ?case using r by (intro exI [of _ "btb p"] exI [of _ "\<lambda>_. replicate (ways cfg) (0, 0)"]) (simp add: recent_def)
next
  case (snoc u us)
  let ?X = "\<lambda>us s. recent (filter (\<lambda>u. set_of cfg (eip u) = s) us) @ replicate (ways cfg) (0, 0)"
  obtain b Ls where IH: "run_list (UpdateBtb cfg) us p = Inr (p\<lparr>btb := b\<rparr>)" "btb_rep cfg b Ls" "\<forall>s. Ls s = take (ways cfg) (?X us s)"
    using snoc by auto
  let ?s = "set_of cfg (eip u)"
  have u0: "eip u \<noteq> 0" using snoc.prems by simp
  have ko: "keys_ok (?X us s)" for s
  proof -
    have "distinct (map fst (recent (filter (\<lambda>u. set_of cfg (eip u) = s) us)))"
      using recent_keys [of "filter (\<lambda>u. set_of cfg (eip u) = s) us"] snoc.prems by simp
    then show ?thesis unfolding keys_ok_def by (simp add: distinct_filter)
  qed
  have kl: "keys_ok (Ls ?s)" unfolding IH(3) [rule_format] by (rule keys_ok_take [OF ko])
  obtain b' L where b': "UpdateBtb cfg (p\<lparr>btb := b\<rparr>) u = Inr (p\<lparr>btb := b\<rparr>\<lparr>btb := b'\<rparr>)"
      "btb_rep cfg b' (Ls(?s := L))" "L = btb_spec (ways cfg) (eip u) (neip u) (Ls ?s)"
    using UpdateBtb_rep [OF cfg _ k, of "p\<lparr>btb := b\<rparr>" Ls u] IH(2) u0 kl by auto
  have "L = take (ways cfg) (?X (us @ [u]) ?s)"
    using b'(3) u0 unfolding IH(3) [rule_format] btb_spec_take [OF ko u0] by (simp add: recent_snoc)
  moreover have "?X (us @ [u]) s = ?X us s" if "s \<noteq> ?s" for s using that by simp
  ultimately have "\<forall>s. (Ls(?s := L)) s = take (ways cfg) (?X (us @ [u]) s)" using IH(3) by auto
  moreover have "run_list (UpdateBtb cfg) (us @ [u]) p = Inr (p\<lparr>btb := b'\<rparr>)" using IH(1) b'(1) by (simp add: run_list_append)
  ultimately show ?case using b'(2) by blast
qed

lemma btb_hit_map_of:
  assumes cfg: "btb_config cfg" and r: "btb_rep cfg (btb p) Ls" and m: "map_of (Ls (set_of cfg (eip u))) (eip u) \<noteq> None"
    and k: "kind cfg \<noteq> KindPerfect" "opcode u \<noteq> OpcodeIbranch"
  shows "btb_hit cfg p u"
proof -
  obtain f where f: "btb_find cfg p (table_index (eip u) (btb_num_sets cfg)) (eip u) [0..<nat (btb_num_ways cfg)] = Inr f"
    "case f of None \<Rightarrow> map_of (Ls (set_of cfg (eip u))) (eip u) = None
      | Some i \<Rightarrow> \<exists>e. rd (btb p) i = Inr e \<and> eip u \<in> fst ` set (Ls (set_of cfg (eip u))) \<and>
          (eip u \<noteq> 0 \<and> keys_ok (Ls (set_of cfg (eip u))) \<longrightarrow> map_of (Ls (set_of cfg (eip u))) (eip u) = Some (target e))"
    using btb_find_rep [OF cfg r, of "eip u"] by blast
  then have "f \<noteq> None" using m by (cases f) simp_all
  then show ?thesis using f(1) k by (simp add: btb_hit_def)
qed

text \<open>The targets that a run of lookups gives, and the return addresses it should give: a call that hits in the
  buffer pushes, a return pops, and the stack holds the last \<open>R\<close> open calls.\<close>

primrec targets_run :: "bp_config \<Rightarrow> uop list \<Rightarrow> predictor \<Rightarrow> (predictor \<times> 32 word list) run" where
  "targets_run cfg [] p = Inr (p, [])"
| "targets_run cfg (u # us) p =
     andthen (LookupBtb cfg p u) (\<lambda>(p, t). andthen (targets_run cfg us p) (\<lambda>(p, ts). Inr (p, t # ts)))"

primrec expected_returns :: "nat \<Rightarrow> (uop \<Rightarrow> bool) \<Rightarrow> uop list \<Rightarrow> 32 word list \<Rightarrow> 32 word option list" where
  "expected_returns R hit [] S = []"
| "expected_returns R hit (u # us) S =
     (if hit u \<and> is_call u then None # expected_returns R hit us (take R (return_address u # S))
      else if hit u \<and> is_ret u then (case S of [] \<Rightarrow> None | a # _ \<Rightarrow> Some a) # expected_returns R hit us (tl S)
      else None # expected_returns R hit us S)"

lemma btb_find_btb:
  assumes "btb p = btb q"
  shows "btb_find cfg p s a ns = btb_find cfg q s a ns"
  by (induction ns) (simp_all add: assms cong: if_cong)

lemma btb_hit_btb: "btb p = btb q \<Longrightarrow> btb_hit cfg p = btb_hit cfg q"
  by (intro ext) (simp add: btb_hit_def btb_find_btb [of p q])

lemma targets_run_expected:
  assumes cfg: "btb_config cfg" and r: "btb_rep cfg (btb p) Ls" and s: "ras_rep cfg p S" and c: "\<forall>u \<in> set us. flag_ctrl u"
  shows "\<exists>p' ts. targets_run cfg us p = Inr (p', ts) \<and>
    list_all2 (\<lambda>e t. e = None \<or> e = Some t) (expected_returns (nat (ras_size cfg)) (btb_hit cfg p) us S) ts"
  using r s c
proof (induction us arbitrary: p S)
  case (Cons u us)
  let ?S = "if btb_hit cfg p u \<and> is_call u then take (nat (ras_size cfg)) (return_address u # S)
    else if btb_hit cfg p u \<and> is_ret u then tl S else S"
  obtain q t where q: "LookupBtb cfg p u = Inr (q, t)" "q = p\<lparr>ras := ras q, ras_index := ras_index q\<rparr>" "ras_rep cfg q ?S"
      "btb_hit cfg p u \<and> is_ret u \<and> S \<noteq> [] \<longrightarrow> t = hd S"
    using LookupBtb_rep [OF cfg Cons.prems(1,2), of u] Cons.prems(3) by auto
  have bq: "btb q = btb p" using arg_cong [OF q(2), of btb] by simp
  obtain p' ts where p': "targets_run cfg us q = Inr (p', ts)"
      "list_all2 (\<lambda>e t. e = None \<or> e = Some t) (expected_returns (nat (ras_size cfg)) (btb_hit cfg p) us ?S) ts"
    using Cons.IH [of q ?S] Cons.prems(1,3) q(3) bq btb_hit_btb [OF bq] by auto
  have "list_all2 (\<lambda>e t. e = None \<or> e = Some t) (expected_returns (nat (ras_size cfg)) (btb_hit cfg p) (u # us) S) (t # ts)"
    using p'(2) q(4) by (cases S) auto
  then show ?case using q(1) p'(1) by (intro exI [of _ p'] exI [of _ "t # ts"]) simp
qed simp



definition nonspec_ok :: "bp_config \<Rightarrow> uop \<Rightarrow> bool" where
  "nonspec_ok cfg u \<longleftrightarrow> uop_ok cfg u \<and> \<not> speculative_mode u"






section \<open>Sizes that the configuration accepts\<close>

lemma pow2_accepted:
  assumes x: "- (2 ^ 31) \<le> x" "x < 2 ^ 31" and t: "\<not> not_pow2 x"
  shows "x = 0 \<or> x = - (2 ^ 31) \<or> pow2_size x"
proof (cases "(of_int x :: 32 word) = 0")
  case True
  have "uint (of_int x :: 32 word) = x mod 2 ^ 32" by (simp add: uint_word_of_int)
  then have "x mod 2 ^ 32 = 0" unfolding True by simp
  then have "(2 ^ 32 :: int) dvd x" by (rule mod_0_imp_dvd)
  then obtain q where q: "x = 2 ^ 32 * q" by (rule dvdE)
  then have "q = 0" using x by (cases "0 < q"; cases "q < 0") auto
  then show ?thesis using q by simp
next
  case False
  then obtain k where k: "k < 32" "(of_int x :: 32 word) = 2 ^ k" "unat (of_int x :: 32 word) = 2 ^ k"
    using pow2_test [of "of_int x"] t unfolding not_pow2_def by blast
  have "uint (of_int x :: 32 word) = x mod 2 ^ 32" by (simp add: uint_word_of_int)
  moreover have "uint (of_int x :: 32 word) = int (2 ^ k)" unfolding k(3) [symmetric] by simp
  ultimately have m: "x mod 2 ^ 32 = 2 ^ k" by simp
  show ?thesis
  proof (cases "0 \<le> x")
    case True
    then have "x mod 2 ^ 32 = x" using x(2) by (intro mod_pos_pos_trivial) simp_all
    then have e: "x = 2 ^ k" using m by simp
    then have "(2 :: int) ^ k < 2 ^ 31" using x(2) by simp
    then have "k < 31" by (rule power_less_imp_less_exp [rotated]) simp
    then show ?thesis using e by (auto simp: pow2_size_def)
  next
    case False
    have "x mod 2 ^ 32 = (x + 2 ^ 32) mod 2 ^ 32" by simp
    also have "\<dots> = x + 2 ^ 32" using x False by (intro mod_pos_pos_trivial) simp_all
    finally have e: "x = 2 ^ k - 2 ^ 32" using m by simp
    then have "(2 :: int) ^ 31 \<le> 2 ^ k" using x(1) by simp
    then have "31 \<le> k" by (rule power_le_imp_le_exp [rotated]) simp
    then have "k = 31" using k(1) by simp
    then show ?thesis using e by simp
  qed
qed

section \<open>Properties\<close>

text \<open>A small predictor for the examples.\<close>

definition small :: "Kind \<Rightarrow> bp_config" where
  "small k = \<lparr>kind = k, btb_num_sets = 2, btb_num_ways = 2, ras_size = 2, bimod_size = 4, choice_size = 4,
     two_level_l1_size = 1, two_level_l2_size = 4, two_level_history_size = 2, two_level_l2_height = 4\<rparr>"

lemma small_valid: "valid_config (small k)"
proof -
  have "pow2_size 1" "pow2_size 2" "pow2_size 4"
    unfolding pow2_size_def by (rule exI [of _ 0], simp) (rule exI [of _ 1], simp, rule exI [of _ 2], simp)
  then show ?thesis by (simp add: valid_config_def small_def)
qed

definition branch :: "32 word \<Rightarrow> 32 word \<Rightarrow> uop" where
  "branch a t = \<lparr>flag_ctrl = True, flag_uncond = False, opcode = OpcodeOther, eip = a, neip = t, mop_size = 2,
     predicted_neip = 0, speculative_mode = False, prediction = PredictionNotTaken, bimod_index = 0,
     bimod_prediction = PredictionNotTaken, two_level_bht_index = 0, two_level_pht_row = 0, two_level_pht_col = 0,
     two_level_prediction = PredictionNotTaken, choice_index = 0, choice_prediction = PredictionNotTaken\<rparr>"

lemma branch_ok: "uop_ok (small k) (branch a t)" "nonspec_ok (small k) (branch a t)" "conditional (branch a t)"
  by (simp_all add: uop_ok_def nonspec_ok_def conditional_def branch_def small_def)

text \<open>With a valid configuration the constructor gives tables of the configured sizes; from then on no
  operation runs outside a table, fails an assertion or divides by zero, counters keep two bits, histories fit
  the pattern table and the counters of each set of the target buffer stay a ranking of its ways.\<close>

theorem bp_operations_safe:
  assumes v: "valid_config cfg"
  shows "(\<exists>p. predictor_create cfg = Inr p \<and> bp_inv cfg p) \<and>
    (\<forall>p u. bp_inv cfg p \<and> uop_ok cfg u \<longrightarrow>
      (\<exists>u' d. Lookup cfg p u = Inr (u', d) \<and> uop_ok cfg u') \<and>
      (\<exists>p' t. LookupBtb cfg p u = Inr (p', t) \<and> bp_inv cfg p') \<and>
      (\<exists>p'. UpdateBtb cfg p u = Inr p' \<and> bp_inv cfg p') \<and>
      (\<not> speculative_mode u \<longrightarrow> (\<exists>p'. Update cfg p u = Inr p' \<and> bp_inv cfg p')) \<and>
      (\<forall>a n. kind cfg = KindTwoLevel \<longrightarrow> (\<exists>r. LookupMultiple cfg p a n = Inr r)) \<and>
      (\<forall>a bs. bs AND (bs - 1) = 0 \<longrightarrow> (\<exists>r. getNextBranch cfg p a bs = Inr r)))"
proof (intro conjI allI impI)
  show "\<exists>p. predictor_create cfg = Inr p \<and> bp_inv cfg p" using predictor_create_inv [OF v] by blast
next
  fix p u assume h: "bp_inv cfg p \<and> uop_ok cfg u"
  then have inv: "bp_inv cfg p" and ok: "uop_ok cfg u" and c: "flag_ctrl u" by (auto simp: uop_ok_def)
  show "\<exists>u' d. Lookup cfg p u = Inr (u', d) \<and> uop_ok cfg u'"
    using Lookup_eq [OF v inv c] uop_ok_looked_up [OF v inv ok] by blast
  show "\<exists>p' t. LookupBtb cfg p u = Inr (p', t) \<and> bp_inv cfg p'" using LookupBtb_inv [OF v inv c] by blast
  show "\<exists>p'. UpdateBtb cfg p u = Inr p' \<and> bp_inv cfg p'" using UpdateBtb_inv [OF v inv] by blast
  show "\<exists>p'. Update cfg p u = Inr p' \<and> bp_inv cfg p'" if "\<not> speculative_mode u"
    using Update_eq [OF v inv ok that] by blast
  fix a :: "32 word"
  obtain Ls where r: "btb_rep cfg (btb p) Ls" using bp_inv_btb [OF inv] by blast
  show "\<exists>r. getNextBranch cfg p a bs = Inr r" if "bs AND (bs - 1) = 0" for bs
  proof -
    obtain r where "next_branch_loop cfg p ((a + bs) AND NOT (bs - 1)) a 0 = Inr r"
      using next_branch_loop_max [OF valid_btb [OF v] r] by blast
    then show ?thesis using that by (simp add: getNextBranch_def)
  qed
  show "\<exists>r. LookupMultiple cfg p a n = Inr r" if k: "kind cfg = KindTwoLevel" for n
    using LookupMultiple_lookups [OF v inv k, of "branch a 0" n] by (auto simp: branch_def conditional_def)
qed

theorem bp_operations_safe_witness:
  "(\<exists>p. predictor_create (small KindCombined) = Inr p \<and> bp_inv (small KindCombined) p)"
  using bp_operations_safe [OF small_valid] by blast

text \<open>C22: The target buffer keeps, for each set, the targets of the branches updated last: a lookup gives the last
  target of its branch if the branch is one of the most recent ones of its set, as many as there are ways, and 0
  otherwise.\<close>

theorem btb_most_recent:
  assumes v: "valid_config cfg" and k: "kind cfg \<noteq> KindPerfect" and p0: "predictor_create cfg = Inr p0"
    and us: "\<forall>w \<in> set us. eip w \<noteq> 0" and u: "flag_ctrl u" "eip u \<noteq> 0" "opcode u \<noteq> OpcodeIbranch" "opcode u \<noteq> OpcodeRet"
  shows "\<exists>p p'. run_list (UpdateBtb cfg) us p0 = Inr p \<and>
    LookupBtb cfg p u = Inr (p',
      case map_of (take (ways cfg) (recent (filter (\<lambda>w. set_of cfg (eip w) = set_of cfg (eip u)) us))) (eip u) of
        None \<Rightarrow> 0 | Some t \<Rightarrow> t)"
proof -
  have cfg: "btb_config cfg" by (rule valid_btb [OF v])
  have init: "bp_inv cfg p0" "btb_rep cfg (btb p0) (\<lambda>_. replicate (ways cfg) (0, 0))"
    using predictor_create_inv [OF v] p0 by auto
  let ?R = "recent (filter (\<lambda>w. set_of cfg (eip w) = set_of cfg (eip u)) us)"
  obtain b Ls where b: "run_list (UpdateBtb cfg) us p0 = Inr (p0\<lparr>btb := b\<rparr>)" "btb_rep cfg b Ls"
      "Ls (set_of cfg (eip u)) = take (ways cfg) (?R @ replicate (ways cfg) (0, 0))"
    using UpdateBtb_run [OF cfg k init(2) us] by blast
  have "distinct (map fst ?R)" using recent_keys [of "filter (\<lambda>w. set_of cfg (eip w) = set_of cfg (eip u)) us"] us by simp
  then have "keys_ok (?R @ replicate (ways cfg) (0, 0))" unfolding keys_ok_def by (simp add: distinct_filter)
  then have ko: "keys_ok (Ls (set_of cfg (eip u)))" unfolding b(3) by (rule keys_ok_take)
  have "map_of (replicate n (0, 0 :: 32 word)) (eip u) = None" for n using u(2) by (induction n) simp_all
  then have m: "map_of (Ls (set_of cfg (eip u))) (eip u) = map_of (take (ways cfg) ?R) (eip u)"
    unfolding b(3) by (simp add: map_add_def split: option.split)
  have s: "ras_rep cfg (p0\<lparr>btb := b\<rparr>) []" using bp_inv_ras [OF init(1)] by (simp add: ras_rep_def)
  have "btb_rep cfg (btb (p0\<lparr>btb := b\<rparr>)) Ls" using b(2) by simp
  from LookupBtb_rep [OF cfg this s u(1)] obtain p' where
    "LookupBtb cfg (p0\<lparr>btb := b\<rparr>) u = Inr (p', case map_of (Ls (set_of cfg (eip u))) (eip u) of None \<Rightarrow> 0 | Some t \<Rightarrow> t)"
    using u k ko by (auto simp: is_ret_def)
  then show ?thesis using b(1) unfolding m by blast
qed

theorem btb_most_recent_witness:
  "\<exists>p0 p p'. predictor_create (small KindTaken) = Inr p0 \<and>
    run_list (UpdateBtb (small KindTaken)) [branch 2 100, branch 4 200, branch 6 300, branch 4 400] p0 = Inr p \<and>
    LookupBtb (small KindTaken) p (branch 4 0) = Inr (p', 400)"
proof -
  obtain p0 where p0: "predictor_create (small KindTaken) = Inr p0" using predictor_create_inv [OF small_valid] by blast
  let ?us = "[branch 2 100, branch 4 200, branch 6 300, branch 4 400]"
  have "map_of (take (ways (small KindTaken)) (recent (filter (\<lambda>w. set_of (small KindTaken) (eip w) = set_of (small KindTaken) (eip (branch 4 0))) ?us)))
      (eip (branch 4 0)) = Some 400"
    by (simp add: recent_def branch_def set_of_def nsets_def small_def ways_def)
  then show ?thesis
    using btb_most_recent [OF small_valid _ p0, of ?us "branch 4 0"] p0 by (simp add: small_def) (simp add: branch_def)
qed

text \<open>C23: Return addresses: in any run of lookups, a return that hits in the target buffer is predicted to
  go back behind the call that it matches, as long as not more calls are open than the return address stack has
  entries; speculative calls and returns leave the stack alone.\<close>

theorem ras_matches_calls:
  assumes v: "valid_config cfg" and inv: "bp_inv cfg p" and us: "\<forall>u \<in> set us. flag_ctrl u"
  shows "\<exists>p' ts. targets_run cfg us p = Inr (p', ts) \<and> length ts = length us \<and>
    (\<forall>i < length us. \<forall>a. expected_returns (nat (ras_size cfg)) (btb_hit cfg p) us [] ! i = Some a \<longrightarrow> ts ! i = a)"
proof -
  obtain Ls where r: "btb_rep cfg (btb p) Ls" using bp_inv_btb [OF inv] by blast
  obtain p' ts where t: "targets_run cfg us p = Inr (p', ts)"
      "list_all2 (\<lambda>e t. e = None \<or> e = Some t) (expected_returns (nat (ras_size cfg)) (btb_hit cfg p) us []) ts"
    using targets_run_expected [OF valid_btb [OF v] r bp_inv_ras [OF inv] us] by blast
  have l: "length (expected_returns R hit us S) = length us" for R hit S
    by (induction us arbitrary: S) simp_all
  have "length ts = length us" using list_all2_lengthD [OF t(2)] l by simp
  moreover have "ts ! i = a" if "i < length us" "expected_returns (nat (ras_size cfg)) (btb_hit cfg p) us [] ! i = Some a" for i a
    using list_all2_nthD [OF t(2), of i] that l by simp
  ultimately show ?thesis using t(1) by blast
qed

definition call_uop :: "32 word \<Rightarrow> uop" where "call_uop a = (branch a 0)\<lparr>flag_uncond := True, opcode := OpcodeCall\<rparr>"

definition ret_uop :: "32 word \<Rightarrow> uop" where "ret_uop a = (branch a 0)\<lparr>flag_uncond := True, opcode := OpcodeRet\<rparr>"

theorem ras_matches_calls_witness:
  "\<exists>p0 p p' t0 t1 t2. predictor_create (small KindTaken) = Inr p0 \<and> run_list (UpdateBtb (small KindTaken)) [call_uop 2, call_uop 5, ret_uop 8] p0 = Inr p \<and>
    targets_run (small KindTaken) [call_uop 2, call_uop 5, ret_uop 8, ret_uop 8] p = Inr (p', [t0, t1, 7, 4])"
proof -
  let ?c = "small KindTaken"
  obtain p0 where p0: "predictor_create ?c = Inr p0" "bp_inv ?c p0" "btb_rep ?c (btb p0) (\<lambda>_. replicate (ways ?c) (0, 0))"
    using predictor_create_inv [OF small_valid] by blast
  let ?us = "[call_uop 2, call_uop 5, ret_uop 8]"
  have cfg: "btb_config ?c" by (rule valid_btb [OF small_valid])
  obtain b Ls where b: "run_list (UpdateBtb ?c) ?us p0 = Inr (p0\<lparr>btb := b\<rparr>)" "btb_rep ?c b Ls"
      "\<forall>s. Ls s = take (ways ?c) (recent (filter (\<lambda>u. set_of ?c (eip u) = s) ?us) @ replicate (ways ?c) (0, 0))"
    using UpdateBtb_run [OF cfg _ p0(3), of ?us] by (auto simp: small_def call_uop_def ret_uop_def branch_def)
  let ?p = "p0\<lparr>btb := b\<rparr>"
  have inv: "bp_inv ?c ?p" using p0(2) b(2) unfolding bp_inv_def by auto
  have L: "Ls 0 = [(8, 0), (2, 0)]" "Ls (Suc 0) = [(5, 0), (0, 0)]"
    unfolding b(3) [rule_format]
    by (simp_all add: recent_def branch_def set_of_def nsets_def small_def ways_def call_uop_def ret_uop_def)
  have s: "set_of ?c 2 = 0" "set_of ?c 8 = 0" "set_of ?c 5 = Suc 0" by (simp_all add: set_of_def nsets_def small_def)
  have hit: "btb_hit ?c ?p u" if "map_of (Ls (set_of ?c (eip u))) (eip u) \<noteq> None" "opcode u \<noteq> OpcodeIbranch" for u
    by (rule btb_hit_map_of [where Ls = Ls, OF cfg]) (use b(2) that in \<open>simp_all add: small_def\<close>)
  have h: "btb_hit ?c ?p (call_uop 2)" "btb_hit ?c ?p (call_uop 5)" "btb_hit ?c ?p (ret_uop 8)"
    by (simp_all add: hit call_uop_def ret_uop_def branch_def s L)
  obtain p' ts where t: "targets_run ?c [call_uop 2, call_uop 5, ret_uop 8, ret_uop 8] ?p = Inr (p', ts)" "length ts = 4"
      "\<forall>i < 4. \<forall>a. expected_returns 2 (btb_hit ?c ?p) [call_uop 2, call_uop 5, ret_uop 8, ret_uop 8] [] ! i = Some a \<longrightarrow> ts ! i = a"
    using ras_matches_calls [OF small_valid inv, of "[call_uop 2, call_uop 5, ret_uop 8, ret_uop 8]"]
    by (auto simp: small_def call_uop_def ret_uop_def branch_def numeral_eq_Suc)
  have e: "expected_returns 2 (btb_hit ?c ?p) [call_uop 2, call_uop 5, ret_uop 8, ret_uop 8] [] = [None, None, Some 7, Some 4]"
    using h by (simp add: is_call_def is_ret_def return_address_def) (simp add: call_uop_def ret_uop_def branch_def)
  have "ts ! 2 = 7" "ts ! 3 = 4" using t(3) unfolding e by (simp_all add: numeral_eq_Suc)
  moreover obtain t0 t1 t2 t3 where "ts = [t0, t1, t2, t3]" using t(2) by (auto simp: numeral_eq_Suc length_Suc_conv)
  ultimately have "ts = [t0, t1, 7, 4]" by (simp add: numeral_eq_Suc)
  then show ?thesis using p0(1) b(1) t(1) by blast
qed





text \<open>\<open>LookupMultiple\<close> gives in bit \<open>j\<close> the direction that the \<open>j\<close>th of successive lookups of the branch would
  give if the history moved on with each prediction.\<close>

theorem lookup_multiple_is_lookups:
  assumes v: "valid_config cfg" and inv: "bp_inv cfg p" and k: "kind cfg = KindTwoLevel" and u: "conditional u"
  shows "\<exists>r. LookupMultiple cfg p (eip u) n = Inr r \<and>
    (\<forall>j. bit r j \<longleftrightarrow> j < max 1 (nat n) \<and> lookups cfg u (max 1 (nat n)) p ! j)"
  by (rule LookupMultiple_lookups [OF v inv k u])

theorem lookup_multiple_is_lookups_witness:
  "\<exists>p r. predictor_create (small KindTwoLevel) = Inr p \<and> LookupMultiple (small KindTwoLevel) p 4 3 = Inr r \<and>
    (\<forall>j. bit r j \<longleftrightarrow> j < 3 \<and> lookups (small KindTwoLevel) (branch 4 0) 3 p ! j)"
proof -
  obtain p where p: "predictor_create (small KindTwoLevel) = Inr p" "bp_inv (small KindTwoLevel) p"
    using predictor_create_inv [OF small_valid] by blast
  have "eip (branch 4 0) = 4" "kind (small KindTwoLevel) = KindTwoLevel" "max 1 (nat 3) = 3"
    by (simp_all add: branch_def small_def)
  then show ?thesis using lookup_multiple_is_lookups [OF small_valid p(2) _ branch_ok(3), of 4 0 3] p(1) by auto
qed

text \<open>\<open>getNextBranch\<close> returns the last, not the next, branch of the block of its argument that the target buffer
  knows and that is not before the argument, and 0 if there is none or if the block is the last of the address space.\<close>

theorem next_branch_is_last:
  assumes v: "valid_config cfg" and inv: "bp_inv cfg p" and k: "k < 32"
  shows "\<exists>r. getNextBranch cfg p a (2 ^ k) = Inr r \<and>
    (2 ^ 32 \<le> unat a + 2 ^ k \<longrightarrow> r = 0) \<and>
    (unat a + 2 ^ k < 2 ^ 32 \<longrightarrow>
      (let later = (\<lambda>b. a \<le> b \<and> b AND NOT (2 ^ k - 1) = a AND NOT (2 ^ k - 1) \<and> known cfg p b)
       in if \<exists>b. later b then later r \<and> (\<forall>b. later b \<longrightarrow> b \<le> r) else r = 0))"
proof -
  obtain Ls where rep: "btb_rep cfg (btb p) Ls" using bp_inv_btb [OF inv] by blast
  let ?limit = "(a + 2 ^ k) AND NOT (2 ^ k - 1)"
  obtain r where r: "next_branch_loop cfg p ?limit a 0 = Inr r"
      "r = 0 \<and> (\<forall>b. a \<le> b \<and> b < ?limit \<longrightarrow> \<not> known cfg p b) \<or>
       a \<le> r \<and> r < ?limit \<and> known cfg p r \<and> (\<forall>b. r < b \<and> b < ?limit \<longrightarrow> \<not> known cfg p b)"
    using next_branch_loop_max [OF valid_btb [OF v] rep, of ?limit a 0] by blast
  have g: "getNextBranch cfg p a (2 ^ k) = Inr r"
    using r(1) pow2_facts(3) [OF k] by (simp add: getNextBranch_def)
  have last: "r = 0" if "2 ^ 32 \<le> unat a + 2 ^ k"
    using r(2) block_limit(2) [OF k that] by auto
  have "if \<exists>b. a \<le> b \<and> b AND NOT (2 ^ k - 1) = a AND NOT (2 ^ k - 1) \<and> known cfg p b
      then (a \<le> r \<and> r AND NOT (2 ^ k - 1) = a AND NOT (2 ^ k - 1) \<and> known cfg p r) \<and>
        (\<forall>b. a \<le> b \<and> b AND NOT (2 ^ k - 1) = a AND NOT (2 ^ k - 1) \<and> known cfg p b \<longrightarrow> b \<le> r)
      else r = 0" if h: "unat a + 2 ^ k < 2 ^ 32"
    using r(2)
  proof
    assume n: "r = 0 \<and> (\<forall>b. a \<le> b \<and> b < ?limit \<longrightarrow> \<not> known cfg p b)"
    then have "\<not> (\<exists>b. a \<le> b \<and> b AND NOT (2 ^ k - 1) = a AND NOT (2 ^ k - 1) \<and> known cfg p b)"
      using block_limit(1) [OF k h] by blast
    then show ?thesis using n by (simp only: if_False)
  next
    assume y: "a \<le> r \<and> r < ?limit \<and> known cfg p r \<and> (\<forall>b. r < b \<and> b < ?limit \<longrightarrow> \<not> known cfg p b)"
    then have i: "a \<le> r \<and> r AND NOT (2 ^ k - 1) = a AND NOT (2 ^ k - 1) \<and> known cfg p r"
      using block_limit(1) [OF k h, of r] by blast
    moreover have "b \<le> r" if b: "a \<le> b \<and> b AND NOT (2 ^ k - 1) = a AND NOT (2 ^ k - 1) \<and> known cfg p b" for b
    proof -
      have "b < ?limit" using block_limit(1) [OF k h, of b] b by blast
      then show ?thesis using y b by (meson linorder_not_less)
    qed
    ultimately show ?thesis by auto
  qed
  then show ?thesis using g last unfolding Let_def by blast
qed

theorem next_branch_is_last_witness:
  "\<exists>p r. predictor_create (small KindTaken) = Inr p \<and> getNextBranch (small KindTaken) p 0xFFFFFFF0 (2 ^ 6) = Inr r \<and> r = 0"
proof -
  obtain p where p: "predictor_create (small KindTaken) = Inr p" "bp_inv (small KindTaken) p"
    using predictor_create_inv [OF small_valid] by blast
  show ?thesis using next_branch_is_last [OF small_valid p(2), of 6 "0xFFFFFFF0"] p(1) by auto
qed

text \<open>A configuration that is accepted has tables of a power of two of entries, or of none, and a history of 1 to
  30 bits; if no size is 0 and the products of sizes fit, it is valid. Sizes of 0 are accepted, and the first
  lookup then runs outside the table.\<close>

theorem parse_configuration:
  assumes range: "\<forall>var v. file var = Some v \<longrightarrow> - (2 ^ 31) \<le> v \<and> v < 2 ^ 31"
    and parse: "ParseConfiguration fk file = Inr cfg"
  shows "(\<forall>x \<in> {bimod_size cfg, choice_size cfg, btb_num_sets cfg, btb_num_ways cfg, two_level_l1_size cfg, two_level_l2_size cfg}.
      x = 0 \<or> x = - (2 ^ 31) \<or> pow2_size x) \<and>
    1 \<le> two_level_history_size cfg \<and> two_level_history_size cfg \<le> 30 \<and>
    (0 < bimod_size cfg \<and> 0 < choice_size cfg \<and> 0 < btb_num_sets cfg \<and> 0 < btb_num_ways cfg \<and> 0 < two_level_l1_size cfg \<and>
     0 < two_level_l2_size cfg \<and> 0 < ras_size cfg \<and> btb_num_sets cfg * btb_num_ways cfg < 2 ^ 31 \<and>
     two_level_l2_size cfg * two_level_l2_height cfg < 2 ^ 31 \<longrightarrow> valid_config cfg)"
proof -
  have cfg: "cfg = read_config fk file"
    and np: "\<not> not_pow2 (bimod_size cfg)" "\<not> not_pow2 (choice_size cfg)" "\<not> not_pow2 (btb_num_sets cfg)"
      "\<not> not_pow2 (btb_num_ways cfg)" "\<not> not_pow2 (two_level_l1_size cfg)" "\<not> not_pow2 (two_level_l2_size cfg)"
    and h: "1 \<le> two_level_history_size cfg" "two_level_history_size cfg \<le> 30"
    using parse by (auto simp: ParseConfiguration_def Let_def split: if_splits)
  have ht: "two_level_l2_height cfg = 2 ^ nat (two_level_history_size cfg)" by (simp add: cfg read_config_def)
  have rd: "- (2 ^ 31) \<le> (case file var of Some v \<Rightarrow> v | None \<Rightarrow> d) \<and> (case file var of Some v \<Rightarrow> v | None \<Rightarrow> d) < 2 ^ 31"
    if "- (2 ^ 31) \<le> d \<and> d < 2 ^ 31" for var d
    using range that by (cases "file var") auto
  let ?ok = "\<lambda>x :: int. - (2 ^ 31) \<le> x \<and> x < 2 ^ 31"
  have "?ok (bimod_size cfg)" "?ok (choice_size cfg)" "?ok (btb_num_sets cfg)" "?ok (btb_num_ways cfg)"
    "?ok (two_level_l1_size cfg)" "?ok (two_level_l2_size cfg)"
    unfolding cfg read_config_def Let_def bp_config.simps by (rule rd, simp)+
  then have acc: "x = 0 \<or> x = - (2 ^ 31) \<or> pow2_size x"
    if "x \<in> {bimod_size cfg, choice_size cfg, btb_num_sets cfg, btb_num_ways cfg, two_level_l1_size cfg, two_level_l2_size cfg}" for x
    using np that pow2_accepted [of x] by blast
  then have pos: "pow2_size x"
    if "x \<in> {bimod_size cfg, choice_size cfg, btb_num_sets cfg, btb_num_ways cfg, two_level_l1_size cfg, two_level_l2_size cfg}" "0 < x" for x
    using that by fastforce
  show ?thesis
  proof (intro conjI ballI impI)
    show "valid_config cfg" if "0 < bimod_size cfg \<and> 0 < choice_size cfg \<and> 0 < btb_num_sets cfg \<and> 0 < btb_num_ways cfg \<and>
        0 < two_level_l1_size cfg \<and> 0 < two_level_l2_size cfg \<and> 0 < ras_size cfg \<and> btb_num_sets cfg * btb_num_ways cfg < 2 ^ 31 \<and>
        two_level_l2_size cfg * two_level_l2_height cfg < 2 ^ 31"
      unfolding valid_config_def using that h ht by (intro conjI pos) simp_all
  qed (use acc h in blast)+
qed

theorem parse_configuration_witness:
  "\<exists>cfg. ParseConfiguration None (\<lambda>_. None) = Inr cfg \<and> valid_config cfg"
proof -
  let ?cfg = "read_config None (\<lambda>_. None)"
  have "ParseConfiguration None (\<lambda>_. None) = Inr ?cfg"
    by (simp add: ParseConfiguration_def read_config_def Let_def not_pow2_def)
  moreover from parse_configuration [OF _ this] have "valid_config ?cfg" by (simp add: read_config_def)
  ultimately show ?thesis by blast
qed

text \<open>An empty table is accepted; the first lookup reads outside it.\<close>

lemma empty_table_accepted:
  "\<exists>cfg p. ParseConfiguration (Some KindBimod) [''Bimod.Size'' \<mapsto> 0] = Inr cfg \<and> predictor_create cfg = Inr p \<and>
    Lookup cfg p (branch 4 0) = Inl Segv"
proof -
  let ?cfg = "\<lparr>kind = KindBimod, btb_num_sets = 256, btb_num_ways = 4, ras_size = 32, bimod_size = 0, choice_size = 1024,
    two_level_l1_size = 1, two_level_l2_size = 1024, two_level_history_size = 8, two_level_l2_height = 2 ^ nat 8\<rparr>"
  have parse: "ParseConfiguration (Some KindBimod) [''Bimod.Size'' \<mapsto> 0] = Inr ?cfg"
    by (simp add: ParseConfiguration_def read_config_def Let_def not_pow2_def)
  have cfg: "btb_config ?cfg"
    unfolding btb_config_def pow2_size_def by (simp, intro conjI exI [of _ 8] exI [of _ 2]) simp_all
  let ?z = "\<lparr>source = 0, target = 0, counter = 0\<rparr> :: BtbEntry"
  obtain b where b: "assign_counters ?cfg (replicate 1024 ?z) = Inr b"
    using assign_counters_fresh [OF cfg, of "replicate 1024 ?z"] by (auto simp: nsets_def ways_def)
  let ?p = "\<lparr>ras = replicate 32 0, ras_index = 0, btb = b, bimod = [], two_level_bht = [], two_level_pht = [], choice = [],
    accesses = 0, hits = 0\<rparr>"
  have "predictor_create ?cfg = Inr ?p"
    using b unfolding predictor_create_def new_array_def by (simp add: has_bimod_def has_two_level_def)
  moreover have "rd (bimod ?p) i = Inl Segv" for i by (simp add: rd_def)
  then have "Lookup ?cfg ?p (branch 4 0) = Inl Segv"
    by (simp add: Lookup_def has_bimod_def branch_def lookup_bimod_def Let_def)
  ultimately show ?thesis using parse by blast
qed

end
