(* ===== verification/CppBitmap.thy ===== *)
theory CppBitmap
  imports Arrays Aligned_Words
begin

unbundle bit_operations_syntax

text \<open>
  The bit map of the C++ classes, \<open>src/lib/cpp/Bitmap.cc\<close>: a vector of 64-bit blocks. Positions and sizes are
  the code's \<open>size_t\<close>, 64-bit words here, with their wrap-around. The abstract value of a bit map is the list
  of its bits; the bits of the last block beyond the size are kept at 0, so that blocks can be compared.
\<close>

section \<open>Operations\<close>

type_synonym size_t = "64 word"

record bitmap =
  bits_size :: size_t
  size_in_blocks :: size_t
  bits_mask :: size_t
  bits_data :: "size_t list"

definition getBlockBit :: "bitmap \<Rightarrow> size_t \<Rightarrow> (nat \<times> nat) run" where
  "getBlockBit b a = (if a < bits_size b then Inr (unat (a div 64), unat (a mod 64)) else Inl Assert)"

definition last_mask :: "size_t \<Rightarrow> size_t" where
  "last_mask sz =
     (let num_bits_in_last_word = unat ((sz - 1) mod 64 + 1)
      in if num_bits_in_last_word = 64 then - 1 else push_bit num_bits_in_last_word 1 - 1)"

text \<open>The number of blocks is converted to the \<open>int\<close> argument of \<open>new_unique_array\<close>.\<close>

definition new_blocks :: "size_t \<Rightarrow> size_t list run" where
  "new_blocks n = new_array (sint (ucast n :: 32 word)) 0"

definition bitmap_create :: "size_t \<Rightarrow> bitmap run" where
  "bitmap_create sz =
     (let n = (sz + 64 - 1) div 64
      in andthen (new_blocks n) (\<lambda>d. Inr \<lparr>bits_size = sz, size_in_blocks = n, bits_mask = last_mask sz, bits_data = d\<rparr>))"

text \<open>The loops over all blocks: block \<open>i\<close> becomes \<open>f i w\<close>.\<close>

function blocks_loop :: "(nat \<Rightarrow> size_t \<Rightarrow> size_t run) \<Rightarrow> nat \<Rightarrow> nat \<Rightarrow> size_t list \<Rightarrow> size_t list run" where
  "blocks_loop f n i d =
     (if i < n
      then andthen (rd d (int i)) (\<lambda>w. andthen (f i w) (\<lambda>v. andthen (wr d (int i) v) (\<lambda>d. blocks_loop f n (i + 1) d)))
      else Inr d)"
  by pat_completeness auto
termination by (relation "measure (\<lambda>(f, n, i, d). n - i)") auto

definition each_block :: "(nat \<Rightarrow> size_t \<Rightarrow> size_t run) \<Rightarrow> bitmap \<Rightarrow> bitmap run" where
  "each_block f b = andthen (blocks_loop f (unat (size_in_blocks b)) 0 (bits_data b)) (\<lambda>d. Inr (b\<lparr>bits_data := d\<rparr>))"

definition bitmap_copy :: "bitmap \<Rightarrow> bitmap run" where
  "bitmap_copy b = andthen (new_blocks (size_in_blocks b)) (\<lambda>d. each_block (\<lambda>i _. rd (bits_data b) (int i)) (b\<lparr>bits_data := d\<rparr>))"

definition bitmap_assign :: "bitmap \<Rightarrow> bitmap \<Rightarrow> bitmap run" where
  "bitmap_assign this b =
     andthen (if bits_size this \<noteq> bits_size b
              then andthen (new_blocks (size_in_blocks b)) (\<lambda>d.
                Inr (this\<lparr>bits_size := bits_size b, size_in_blocks := size_in_blocks b, bits_data := d\<rparr>))
              else Inr this) (\<lambda>this.
     each_block (\<lambda>i _. rd (bits_data b) (int i)) this)"

definition set_bit_at :: "size_t \<Rightarrow> bool \<Rightarrow> bitmap \<Rightarrow> bitmap run" where
  "set_bit_at a v b =
     andthen (getBlockBit b a) (\<lambda>(block, bit).
     andthen (rd (bits_data b) (int block)) (\<lambda>w.
     andthen (wr (bits_data b) (int block) (if v then w OR push_bit bit 1 else w AND NOT (push_bit bit 1))) (\<lambda>d.
     Inr (b\<lparr>bits_data := d\<rparr>))))"

definition mask_last :: "bitmap \<Rightarrow> bitmap run" where
  "mask_last b =
     (let i = uint (size_in_blocks b - 1)
      in andthen (rd (bits_data b) i) (\<lambda>w.
         andthen (wr (bits_data b) i (w AND bits_mask b)) (\<lambda>d. Inr (b\<lparr>bits_data := d\<rparr>))))"

definition set_all :: "bitmap \<Rightarrow> bitmap run" where
  "set_all b = andthen (each_block (\<lambda>_ _. Inr (NOT 0)) b) mask_last"

definition reset_all :: "bitmap \<Rightarrow> bitmap run" where
  "reset_all = each_block (\<lambda>_ _. Inr 0)"

definition flip_all :: "bitmap \<Rightarrow> bitmap run" where
  "flip_all b = andthen (each_block (\<lambda>_ w. Inr (NOT w)) b) mask_last"

definition Test :: "bitmap \<Rightarrow> size_t \<Rightarrow> bool run" where
  "Test b a =
     andthen (getBlockBit b a) (\<lambda>(block, bit).
     andthen (rd (bits_data b) (int block)) (\<lambda>w. Inr (w AND push_bit bit 1 \<noteq> 0)))"

definition reset_at :: "size_t \<Rightarrow> bitmap \<Rightarrow> bitmap run" where
  "reset_at a b = set_bit_at a False b"

definition flip_at :: "size_t \<Rightarrow> bitmap \<Rightarrow> bitmap run" where
  "flip_at a b = andthen (Test b a) (\<lambda>v. set_bit_at a (\<not> v) b)"

text \<open>The loops that test the bits from \<open>i\<close> to \<open>n\<close>.\<close>

function test_loop :: "(bool \<Rightarrow> 'a \<Rightarrow> 'a) \<Rightarrow> bitmap \<Rightarrow> nat \<Rightarrow> nat \<Rightarrow> 'a \<Rightarrow> 'a run" where
  "test_loop f b n i acc =
     (if i < n then andthen (Test b (of_nat i)) (\<lambda>v. test_loop f b n (i + 1) (f v acc)) else Inr acc)"
  by pat_completeness auto
termination by (relation "measure (\<lambda>(f, b, n, i, acc). n - i)") auto

function any_block :: "size_t list \<Rightarrow> nat \<Rightarrow> nat \<Rightarrow> bool run" where
  "any_block d n i =
     (if i < n then andthen (rd d (int i)) (\<lambda>w. if w \<noteq> 0 then Inr True else any_block d n (i + 1)) else Inr False)"
  by pat_completeness auto
termination by (relation "measure (\<lambda>(d, n, i). n - i)") auto

function any_bit :: "bitmap \<Rightarrow> nat \<Rightarrow> nat \<Rightarrow> bool run" where
  "any_bit b n i =
     (if i < n then andthen (Test b (of_nat i)) (\<lambda>v. if v then Inr True else any_bit b n (i + 1)) else Inr False)"
  by pat_completeness auto
termination by (relation "measure (\<lambda>(b, n, i). n - i)") auto

definition Any :: "bitmap \<Rightarrow> bool run" where
  "Any b =
     (let full = unat (bits_size b div 64)
      in andthen (any_block (bits_data b) full 0) (\<lambda>r.
         if r then Inr True else any_bit b (unat (bits_size b)) (full * 64)))"

definition bitmap_None :: "bitmap \<Rightarrow> bool run" where
  "bitmap_None b = andthen (Any b) (\<lambda>v. Inr (\<not> v))"

definition CountZeros :: "bitmap \<Rightarrow> size_t run" where
  "CountZeros b = test_loop (\<lambda>v c. if \<not> v then c + 1 else c) b (unat (bits_size b)) 0 0"

definition CountOnes :: "bitmap \<Rightarrow> size_t run" where
  "CountOnes b = test_loop (\<lambda>v c. if v then c + 1 else c) b (unat (bits_size b)) 0 0"

definition bitmap_Dump :: "bitmap \<Rightarrow> string run" where
  "bitmap_Dump b = test_loop (\<lambda>v s. s @ [if v then CHR ''1'' else CHR ''0'']) b (unat (bits_size b)) 0 []"

function equal_loop :: "size_t list \<Rightarrow> size_t list \<Rightarrow> nat \<Rightarrow> nat \<Rightarrow> bool run" where
  "equal_loop d d' n i =
     (if i < n
      then andthen (rd d (int i)) (\<lambda>w. andthen (rd d' (int i)) (\<lambda>w'. if w \<noteq> w' then Inr False else equal_loop d d' n (i + 1)))
      else Inr True)"
  by pat_completeness auto
termination by (relation "measure (\<lambda>(d, d', n, i). n - i)") auto

definition bitmap_equal :: "bitmap \<Rightarrow> bitmap \<Rightarrow> bool run" where
  "bitmap_equal this b =
     (if bits_size this \<noteq> bits_size b then Inl Assert
      else equal_loop (bits_data this) (bits_data b) (unat (size_in_blocks this)) 0)"

text \<open>The assignments \<open>&=\<close>, \<open>|=\<close>, \<open>^=\<close> and \<open>-=\<close>, by the operation on blocks.\<close>

definition bitmap_combine :: "(size_t \<Rightarrow> size_t \<Rightarrow> size_t) \<Rightarrow> bitmap \<Rightarrow> bitmap \<Rightarrow> bitmap run" where
  "bitmap_combine f this b =
     (if bits_size this \<noteq> bits_size b then Inl Assert
      else each_block (\<lambda>i w. andthen (rd (bits_data b) (int i)) (\<lambda>w'. Inr (f w w'))) this)"

definition bitmap_and :: "bitmap \<Rightarrow> bitmap \<Rightarrow> bitmap run" where
  "bitmap_and = bitmap_combine (\<lambda>w w'. w AND w')"

definition bitmap_or :: "bitmap \<Rightarrow> bitmap \<Rightarrow> bitmap run" where
  "bitmap_or = bitmap_combine (\<lambda>w w'. w OR w')"

definition bitmap_xor :: "bitmap \<Rightarrow> bitmap \<Rightarrow> bitmap run" where
  "bitmap_xor = bitmap_combine (\<lambda>w w'. w XOR w')"

definition bitmap_minus :: "bitmap \<Rightarrow> bitmap \<Rightarrow> bitmap run" where
  "bitmap_minus = bitmap_combine (\<lambda>w w'. w AND NOT w')"

text \<open>The two loops of \<open><<=\<close> count an unsigned position down; the condition of the second one always holds.\<close>

partial_function (option) shl_move :: "size_t \<Rightarrow> size_t \<Rightarrow> bitmap \<Rightarrow> bitmap run option" where
  "shl_move n i b =
     (if n \<le> i then bindr (Some (andthen (Test b (i - n)) (\<lambda>v. set_bit_at i v b))) (shl_move n (i - 1)) else ret b)"

partial_function (option) shl_clear :: "size_t \<Rightarrow> bitmap \<Rightarrow> bitmap run option" where
  "shl_clear i b = bindr (Some (set_bit_at i False b)) (shl_clear (i - 1))"

definition shl_assign :: "size_t \<Rightarrow> bitmap \<Rightarrow> bitmap run option" where
  "shl_assign n b =
     (if bits_size b \<le> n then Some (reset_all b)
      else bindr (shl_move n (bits_size b - 1) b) (shl_clear (n - 1)))"

function shr_move :: "nat \<Rightarrow> nat \<Rightarrow> nat \<Rightarrow> bitmap \<Rightarrow> bitmap run" where
  "shr_move n m i b =
     (if i < m
      then andthen (Test b (of_nat (i + n))) (\<lambda>v. andthen (set_bit_at (of_nat i) v b) (\<lambda>b. shr_move n m (i + 1) b))
      else Inr b)"
  by pat_completeness auto
termination by (relation "measure (\<lambda>(n, m, i, b). m - i)") auto

function shr_clear :: "nat \<Rightarrow> nat \<Rightarrow> bitmap \<Rightarrow> bitmap run" where
  "shr_clear m i b =
     (if i < m then andthen (set_bit_at (of_nat i) False b) (\<lambda>b. shr_clear m (i + 1) b) else Inr b)"
  by pat_completeness auto
termination by (relation "measure (\<lambda>(m, i, b). m - i)") auto

definition shr_assign :: "size_t \<Rightarrow> bitmap \<Rightarrow> bitmap run" where
  "shr_assign n b =
     (if bits_size b \<le> n then reset_all b
      else
        let m = unat (bits_size b - n)
        in andthen (shr_move (unat n) m 0 b) (shr_clear (unat (bits_size b)) m))"

text \<open>The operators that leave the bit map and return a new one.\<close>

definition bitmap_not :: "bitmap \<Rightarrow> bitmap run" where
  "bitmap_not b = andthen (bitmap_copy b) flip_all"

definition op_and :: "bitmap \<Rightarrow> bitmap \<Rightarrow> bitmap run" where
  "op_and this b = andthen (bitmap_copy this) (\<lambda>b2. bitmap_and b2 b)"

definition op_or :: "bitmap \<Rightarrow> bitmap \<Rightarrow> bitmap run" where
  "op_or this b = andthen (bitmap_copy this) (\<lambda>b2. bitmap_or b2 b)"

definition op_xor :: "bitmap \<Rightarrow> bitmap \<Rightarrow> bitmap run" where
  "op_xor this b = andthen (bitmap_copy this) (\<lambda>b2. bitmap_xor b2 b)"

definition op_minus :: "bitmap \<Rightarrow> bitmap \<Rightarrow> bitmap run" where
  "op_minus this b = andthen (bitmap_copy this) (\<lambda>b2. bitmap_minus b2 b)"

definition op_shl :: "bitmap \<Rightarrow> size_t \<Rightarrow> bitmap run option" where
  "op_shl b n = bindr (Some (bitmap_copy b)) (shl_assign n)"

definition op_shr :: "bitmap \<Rightarrow> size_t \<Rightarrow> bitmap run" where
  "op_shr b n = andthen (bitmap_copy b) (shr_assign n)"

section \<open>The invariant and the bits\<close>

definition bit_of :: "size_t list \<Rightarrow> nat \<Rightarrow> bool" where
  "bit_of d i = bit (d ! (i div 64)) (i mod 64)"

definition bits :: "bitmap \<Rightarrow> bool list" where
  "bits b = map (bit_of (bits_data b)) [0..<unat (bits_size b)]"

text \<open>Sizes below \<open>2 ^ 37\<close> bits, 16 GB, since the number of blocks has to fit into an \<open>int\<close>.\<close>

definition bitmap_ok :: "bitmap \<Rightarrow> bool" where
  "bitmap_ok b \<longleftrightarrow> unat (bits_size b) + 63 < 2 ^ 37 \<and> size_in_blocks b = (bits_size b + 63) div 64 \<and>
     bits_mask b = last_mask (bits_size b) \<and> length (bits_data b) = unat (size_in_blocks b) \<and>
     (\<forall>i. unat (bits_size b) \<le> i \<longrightarrow> i < 64 * length (bits_data b) \<longrightarrow> \<not> bit_of (bits_data b) i)"

lemma blocks_number:
  assumes "bitmap_ok b"
  shows "length (bits_data b) = (unat (bits_size b) + 63) div 64" "unat (size_in_blocks b) = (unat (bits_size b) + 63) div 64"
    "length (bits_data b) < 2 ^ 31"
proof -
  let ?n = "unat (bits_size b)"
  have s: "?n + 63 < 2 ^ 37" using assms by (simp add: bitmap_ok_def)
  have "unat (bits_size b + 63) = ?n + 63" using s by (subst unat_add_lem [THEN iffD1]) simp_all
  then show "unat (size_in_blocks b) = (?n + 63) div 64" using assms by (simp add: bitmap_ok_def unat_div)
  then show l: "length (bits_data b) = (?n + 63) div 64" using assms by (simp add: bitmap_ok_def)
  have "(?n + 63) div 64 < 2 ^ 31" using s by (simp add: less_mult_imp_div_less)
  then show "length (bits_data b) < 2 ^ 31" using l by simp
qed

lemma length_bits [simp]: "length (bits b) = unat (bits_size b)"
  by (simp add: bits_def)

lemma nth_bits: "i < unat (bits_size b) \<Longrightarrow> bits b ! i = bit_of (bits_data b) i"
  by (simp add: bits_def)

lemma bit_in_block:
  assumes "bitmap_ok b" "i < unat (bits_size b)"
  shows "i div 64 < length (bits_data b)"
proof -
  have "i div 64 \<le> (unat (bits_size b) - 1) div 64" using assms(2) by (intro div_le_mono) simp
  also have "\<dots> < (unat (bits_size b) + 63) div 64" using assms(2) by linarith
  finally show ?thesis using blocks_number(1) [OF assms(1)] by simp
qed

lemma getBlockBit_in: "i < unat (bits_size b) \<Longrightarrow> getBlockBit b (of_nat i) = Inr (i div 64, i mod 64)"
proof -
  assume i: "i < unat (bits_size b)"
  have "unat (bits_size b) < 2 ^ LENGTH(64)" by (rule unsigned_less)
  then have u: "unat (of_nat i :: size_t) = i" using i by (simp add: unat_of_nat)
  have "(of_nat i :: size_t) < bits_size b" using i u by (simp add: word_less_nat_alt)
  then show ?thesis by (simp add: getBlockBit_def unat_div unat_mod u)
qed

lemma Test_bits:
  assumes "bitmap_ok b" "i < unat (bits_size b)"
  shows "Test b (of_nat i) = Inr (bits b ! i)"
proof -
  have "bits_data b ! (i div 64) AND push_bit (i mod 64) 1 \<noteq> 0 \<longleftrightarrow> bit (bits_data b ! (i div 64)) (i mod 64)"
    by (simp add: and_exp_eq_0_iff_not_bit push_bit_eq_mult flip: push_bit_eq_mult)
  then show ?thesis
    using getBlockBit_in [OF assms(2)] bit_in_block [OF assms] nth_bits [OF assms(2)] by (simp add: Test_def bit_of_def)
qed

lemma Test_outside: "bits_size b \<le> a \<Longrightarrow> Test b a = Inl Assert"
  by (simp add: Test_def getBlockBit_def)

text \<open>Writing one bit.\<close>

lemma set_bit_bits:
  assumes ok: "bitmap_ok b" and i: "i < unat (bits_size b)"
  shows "\<exists>b'. set_bit_at (of_nat i) v b = Inr b' \<and> bitmap_ok b' \<and> bits_size b' = bits_size b \<and> bits b' = (bits b)[i := v]"
proof -
  let ?d = "bits_data b" and ?k = "i div 64" and ?m = "i mod 64"
  let ?w = "if v then ?d ! ?k OR push_bit ?m 1 else ?d ! ?k AND NOT (push_bit ?m 1)"
  let ?b = "b\<lparr>bits_data := ?d[?k := ?w]\<rparr>"
  have k: "?k < length ?d" by (rule bit_in_block [OF ok i])
  have r: "set_bit_at (of_nat i) v b = Inr ?b" using getBlockBit_in [OF i] k by (simp add: set_bit_at_def)
  have bw: "bit ?w n \<longleftrightarrow> (if n = ?m then v else bit (?d ! ?k) n)" if "n < 64" for n
    using that by (auto simp: bit_simps)
  have bo: "bit_of (?d[?k := ?w]) j \<longleftrightarrow> (if j = i then v else bit_of ?d j)" if "j < 64 * length ?d" for j
  proof (cases "j div 64 = ?k")
    case True
    then have "j mod 64 = ?m \<longleftrightarrow> j = i" by (metis div_mult_mod_eq)
    then show ?thesis using True k bw [of "j mod 64"] by (simp add: bit_of_def)
  next
    case False
    then have "j \<noteq> i" by auto
    then show ?thesis using False by (simp add: bit_of_def)
  qed
  have "bitmap_ok ?b"
    unfolding bitmap_ok_def
  proof (intro conjI allI impI)
    fix j assume j: "unat (bits_size ?b) \<le> j" "j < 64 * length (bits_data ?b)"
    then have "j \<noteq> i" using i by auto
    then show "\<not> bit_of (bits_data ?b) j" using bo [of j] j ok by (simp add: bitmap_ok_def)
  qed (use ok in \<open>simp_all add: bitmap_ok_def\<close>)
  moreover have "bits ?b = (bits b)[i := v]"
  proof (rule nth_equalityI)
    fix j assume j: "j < length (bits ?b)"
    then have "j < 64 * length ?d" using bit_in_block [OF ok, of j] by simp
    then show "bits ?b ! j = (bits b)[i := v] ! j" using bo [of j] j i by (simp add: nth_bits nth_list_update)
  qed simp
  ultimately show ?thesis using r by simp
qed

section \<open>Whole bit maps\<close>

declare blocks_loop.simps [simp del] test_loop.simps [simp del] any_block.simps [simp del] any_bit.simps [simp del]
  equal_loop.simps [simp del] shr_move.simps [simp del] shr_clear.simps [simp del]

lemma blocks_loop_result:
  "n \<le> length d \<Longrightarrow> \<forall>j. i \<le> j \<and> j < n \<longrightarrow> f j (d ! j) = Inr (g j (d ! j)) \<Longrightarrow>
   \<exists>e. blocks_loop f n i d = Inr e \<and> length e = length d \<and> (\<forall>j < length d. e ! j = (if i \<le> j \<and> j < n then g j (d ! j) else d ! j))"
proof (induction f n i d rule: blocks_loop.induct)
  case (1 f n i d)
  show ?case
  proof (cases "i < n")
    case False
    then show ?thesis by (subst blocks_loop.simps) auto
  next
    case True
    let ?d = "d[i := g i (d ! i)]"
    have st: "rd d (int i) = Inr (d ! i)" "f i (d ! i) = Inr (g i (d ! i))" "wr d (int i) (g i (d ! i)) = Inr ?d"
      using True 1(2,3) by simp_all
    have "\<forall>j. i + 1 \<le> j \<and> j < n \<longrightarrow> f j (?d ! j) = Inr (g j (?d ! j))" using 1(3) by simp
    then obtain e where e: "blocks_loop f n (i + 1) ?d = Inr e" "length e = length ?d"
        "\<forall>j < length ?d. e ! j = (if i + 1 \<le> j \<and> j < n then g j (?d ! j) else ?d ! j)"
      using 1(1) [OF True, of ?d] 1(2) by auto
    have "blocks_loop f n i d = Inr e" using True st e(1) by (subst blocks_loop.simps) simp
    moreover have "e ! j = (if i \<le> j \<and> j < n then g j (d ! j) else d ! j)" if "j < length d" for j
      using e(3) that True by (cases "j = i") auto
    ultimately show ?thesis using e(2) by auto
  qed
qed

lemma each_block_result:
  assumes "length (bits_data b) = unat (size_in_blocks b)" "\<And>j. j < length (bits_data b) \<Longrightarrow> f j (bits_data b ! j) = Inr (g j (bits_data b ! j))"
  obtains e where "each_block f b = Inr (b\<lparr>bits_data := e\<rparr>)" "length e = length (bits_data b)" "\<And>j. j < length e \<Longrightarrow> e ! j = g j (bits_data b ! j)"
proof -
  obtain e where "blocks_loop f (unat (size_in_blocks b)) 0 (bits_data b) = Inr e" "length e = length (bits_data b)"
      "\<forall>j < length (bits_data b). e ! j = (if 0 \<le> j \<and> j < unat (size_in_blocks b) then g j (bits_data b ! j) else bits_data b ! j)"
    using blocks_loop_result [of "unat (size_in_blocks b)" "bits_data b" 0 f g] assms by auto
  then show thesis using that [of e] assms(1) by (simp add: each_block_def)
qed

text \<open>The mask of the last block.\<close>

lemma bit_last_mask:
  assumes "0 < sz" "n < 64"
  shows "bit (last_mask sz) n \<longleftrightarrow> n < (unat sz - 1) mod 64 + 1"
proof -
  have "unat (sz - 1) = unat sz - 1" using assms(1) by (simp add: unat_minus_one word_neq_0_conv)
  then have "unat ((sz - 1) mod 64) = (unat sz - 1) mod 64" by (simp add: unat_mod)
  moreover have "(unat sz - 1) mod 64 < 64" by simp
  moreover have "unat ((sz - 1) mod 64 + 1) = unat ((sz - 1) mod 64) + 1"
    using calculation by (subst unat_add_lem [THEN iffD1]) simp_all
  ultimately have u: "unat ((sz - 1) mod 64 + 1) = (unat sz - 1) mod 64 + 1" by simp
  define k where "k = (unat sz - 1) mod 64 + 1"
  then have "unat ((sz - 1) mod 64 + 1) = k" using u by simp
  then have "bit (last_mask sz) n \<longleftrightarrow> n < k"
    using assms(2) by (cases "k = 64") (simp_all add: last_mask_def bit_mask_iff flip: mask_eq_exp_minus_1)
  then show ?thesis by (simp add: k_def)
qed

text \<open>New blocks of which each bit is known.\<close>

lemma bitmap_pointwise:
  assumes ok: "bitmap_ok b" and l: "length e = length (bits_data b)"
    and bo: "\<And>i. i < 64 * length e \<Longrightarrow> bit_of e i \<longleftrightarrow> i < unat (bits_size b) \<and> G i"
  shows "bitmap_ok (b\<lparr>bits_data := e\<rparr>)" "bits (b\<lparr>bits_data := e\<rparr>) = map G [0..<unat (bits_size b)]"
proof -
  show "bitmap_ok (b\<lparr>bits_data := e\<rparr>)" using ok l bo by (simp add: bitmap_ok_def)
  show "bits (b\<lparr>bits_data := e\<rparr>) = map G [0..<unat (bits_size b)]"
  proof (rule nth_equalityI)
    fix i assume i: "i < length (bits (b\<lparr>bits_data := e\<rparr>))"
    then have "i < 64 * length e" using bit_in_block [OF ok, of i] l by simp
    then show "bits (b\<lparr>bits_data := e\<rparr>) ! i = map G [0..<unat (bits_size b)] ! i" using bo i by (simp add: nth_bits)
  qed simp
qed

lemma bitmap_unused: "bitmap_ok b \<Longrightarrow> unat (bits_size b) \<le> i \<Longrightarrow> i < 64 * length (bits_data b) \<Longrightarrow> \<not> bit_of (bits_data b) i"
  unfolding bitmap_ok_def by blast

lemma reset_all_bits:
  assumes ok: "bitmap_ok b"
  shows "\<exists>b'. reset_all b = Inr b' \<and> bitmap_ok b' \<and> bits_size b' = bits_size b \<and> bits b' = replicate (unat (bits_size b)) False"
proof -
  obtain e where e: "reset_all b = Inr (b\<lparr>bits_data := e\<rparr>)" "length e = length (bits_data b)" "\<And>j. j < length e \<Longrightarrow> e ! j = 0"
    using each_block_result [of b "\<lambda>_ _. Inr 0" "\<lambda>_ _. 0"] ok by (auto simp: bitmap_ok_def reset_all_def)
  have "bit_of e i \<longleftrightarrow> i < unat (bits_size b) \<and> False" if "i < 64 * length e" for i
    using e(3) [of "i div 64"] that by (simp add: bit_of_def)
  note p = bitmap_pointwise [OF ok e(2) this]
  show ?thesis using e(1) p by (simp add: map_replicate_const)
qed

lemma combine_bits:
  assumes ok: "bitmap_ok b" "bitmap_ok c" and sz: "bits_size b = bits_size c"
    and f: "\<And>w w' n. n < 64 \<Longrightarrow> bit (f w w') n \<longleftrightarrow> B (bit w n) (bit w' n)" and B: "\<not> B False False"
  shows "\<exists>b'. bitmap_combine f b c = Inr b' \<and> bitmap_ok b' \<and> bits_size b' = bits_size b \<and> bits b' = map2 B (bits b) (bits c)"
proof -
  have l: "length (bits_data b) = length (bits_data c)" using blocks_number(1) ok sz by simp
  obtain e where e: "each_block (\<lambda>i w. andthen (rd (bits_data c) (int i)) (\<lambda>w'. Inr (f w w'))) b = Inr (b\<lparr>bits_data := e\<rparr>)"
      "length e = length (bits_data b)" "\<And>j. j < length e \<Longrightarrow> e ! j = f (bits_data b ! j) (bits_data c ! j)"
  proof (rule each_block_result [of b "\<lambda>i w. andthen (rd (bits_data c) (int i)) (\<lambda>w'. Inr (f w w'))" "\<lambda>j w. f w (bits_data c ! j)"])
    show "length (bits_data b) = unat (size_in_blocks b)" using ok(1) by (simp add: bitmap_ok_def)
  qed (use l in auto)
  have bo: "bit_of e i \<longleftrightarrow> i < unat (bits_size b) \<and> B (bit_of (bits_data b) i) (bit_of (bits_data c) i)" if i: "i < 64 * length e" for i
  proof -
    have "bit_of e i \<longleftrightarrow> B (bit_of (bits_data b) i) (bit_of (bits_data c) i)"
      using e(3) [of "i div 64"] i f by (simp add: bit_of_def)
    moreover have "\<not> bit_of (bits_data b) i \<and> \<not> bit_of (bits_data c) i" if "unat (bits_size b) \<le> i"
      using bitmap_unused [OF ok(1) that] bitmap_unused [OF ok(2), of i] that i unfolding e(2) l sz by blast
    ultimately show ?thesis using B by (cases "i < unat (bits_size b)") auto
  qed
  note p = bitmap_pointwise [OF ok(1) e(2) bo]
  have "map (\<lambda>i. B (bit_of (bits_data b) i) (bit_of (bits_data c) i)) [0..<unat (bits_size b)] = map2 B (bits b) (bits c)"
    using sz by (intro nth_equalityI) (simp_all add: nth_bits)
  then show ?thesis using e(1) p sz by (simp add: bitmap_combine_def)
qed

text \<open>Filling blocks and masking the last one.\<close>

lemma mask_last_bits:
  assumes ok: "bitmap_ok b" and n: "0 < bits_size b" and l: "length e = length (bits_data b)"
    and bo: "\<And>i. i < unat (bits_size b) \<Longrightarrow> bit_of e i = G i"
  shows "\<exists>b'. mask_last (b\<lparr>bits_data := e\<rparr>) = Inr b' \<and> bitmap_ok b' \<and> bits_size b' = bits_size b \<and> bits b' = map G [0..<unat (bits_size b)]"
proof -
  define sz where "sz = unat (bits_size b)"
  have n0: "0 < sz" using n by (simp add: sz_def word_less_nat_alt)
  define q where "q = (sz - 1) div 64"
  have len: "length e = q + 1" "unat (size_in_blocks b) = q + 1"
    using blocks_number(1,2) [OF ok] l n0 by (simp_all add: q_def flip: sz_def)
  then have "size_in_blocks b \<noteq> 0" by auto
  then have "unat (size_in_blocks b - 1) = q" using len(2) by (simp add: unat_minus_one)
  then have i: "uint (size_in_blocks b - 1) = int q" by (metis uint_nat)
  let ?e = "e[q := e ! q AND bits_mask b]"
  have m: "mask_last (b\<lparr>bits_data := e\<rparr>) = Inr (b\<lparr>bits_data := ?e\<rparr>)" using i len(1) by (simp add: mask_last_def Let_def)
  have bm: "bit (bits_mask b) k \<longleftrightarrow> k < (sz - 1) mod 64 + 1" if "k < 64" for k
    using bit_last_mask [OF n that] ok by (simp add: bitmap_ok_def sz_def)
  have "bit_of ?e j \<longleftrightarrow> j < sz \<and> G j" if j: "j < 64 * length ?e" for j
  proof -
    have jq: "j div 64 \<le> q" using j len(1) by simp
    have js: "j < sz \<longleftrightarrow> j div 64 < q \<or> j div 64 = q \<and> j mod 64 < (sz - 1) mod 64 + 1"
    proof -
      have d: "j = j div 64 * 64 + j mod 64" "sz - 1 = q * 64 + (sz - 1) mod 64" "(sz - 1) mod 64 < 64" "j mod 64 < 64"
        by (simp_all add: q_def)
      show ?thesis using d n0 jq by linarith
    qed
    have "bit_of ?e j \<longleftrightarrow> bit_of e j \<and> j < sz"
    proof (cases "j div 64 = q")
      case True
      then show ?thesis using bm [of "j mod 64"] js len(1) by (auto simp: bit_of_def bit_and_iff)
    next
      case False
      then show ?thesis using js jq by (simp add: bit_of_def)
    qed
    then show ?thesis using bo [of j] by (auto simp: sz_def)
  qed
  note p = bitmap_pointwise [OF ok _ this [unfolded sz_def]]
  show ?thesis using m p l by simp
qed

lemma set_all_bits:
  assumes ok: "bitmap_ok b" and n: "0 < bits_size b"
  shows "\<exists>b'. set_all b = Inr b' \<and> bitmap_ok b' \<and> bits_size b' = bits_size b \<and> bits b' = replicate (unat (bits_size b)) True"
proof -
  obtain e where e: "each_block (\<lambda>_ _. Inr (NOT 0)) b = Inr (b\<lparr>bits_data := e\<rparr>)" "length e = length (bits_data b)"
      "\<And>j. j < length e \<Longrightarrow> e ! j = NOT 0"
    using each_block_result [of b "\<lambda>_ _. Inr (NOT 0)" "\<lambda>_ _. NOT 0"] ok unfolding bitmap_ok_def by metis
  have "bit_of e i = True" if "i < unat (bits_size b)" for i
    using e(2) e(3) [of "i div 64"] bit_in_block [OF ok that] by (simp add: bit_of_def)
  then show ?thesis using mask_last_bits [OF ok n e(2), of "\<lambda>_. True"] e(1) by (simp add: set_all_def map_replicate_const)
qed

lemma flip_all_bits:
  assumes ok: "bitmap_ok b" and n: "0 < bits_size b"
  shows "\<exists>b'. flip_all b = Inr b' \<and> bitmap_ok b' \<and> bits_size b' = bits_size b \<and> bits b' = map Not (bits b)"
proof -
  obtain e where e: "each_block (\<lambda>_ w. Inr (NOT w)) b = Inr (b\<lparr>bits_data := e\<rparr>)" "length e = length (bits_data b)"
      "\<And>j. j < length e \<Longrightarrow> e ! j = NOT (bits_data b ! j)"
    using each_block_result [of b "\<lambda>_ w. Inr (NOT w)" "\<lambda>_ w. NOT w"] ok unfolding bitmap_ok_def by metis
  have "bit_of e i = (\<not> bit_of (bits_data b) i)" if "i < unat (bits_size b)" for i
    using e(2) e(3) [of "i div 64"] bit_in_block [OF ok that] by (simp add: bit_of_def bit_not_iff)
  then show ?thesis
    using mask_last_bits [OF ok n e(2), of "\<lambda>i. \<not> bit_of (bits_data b) i"] e(1) by (simp add: flip_all_def bits_def comp_def)
qed

section \<open>Construction and copies\<close>

lemma new_blocks_in:
  assumes "unat n < 2 ^ 31"
  shows "new_blocks n = Inr (replicate (unat n) 0)"
proof -
  have u: "unat (ucast n :: 32 word) = unat n" using assms by (simp add: unsigned_ucast_eq take_bit_nat_eq_self)
  then have "sint (ucast n :: 32 word) = int (unat n)" using sint_unat_31 [of "ucast n"] assms by simp
  then show ?thesis by (simp add: new_blocks_def new_array_def)
qed

lemma bitmap_create_bits:
  assumes "unat sz + 63 < 2 ^ 37"
  shows "\<exists>b. bitmap_create sz = Inr b \<and> bitmap_ok b \<and> bits_size b = sz \<and> bits b = replicate (unat sz) False"
proof -
  let ?n = "(sz + 63) div 64"
  have "unat (sz + 63) = unat sz + 63" using assms by (subst unat_add_lem [THEN iffD1]) simp_all
  then have un: "unat ?n = (unat sz + 63) div 64" by (simp add: unat_div)
  then have "unat ?n < 2 ^ 31" using assms by (simp add: less_mult_imp_div_less)
  then have c: "bitmap_create sz = Inr \<lparr>bits_size = sz, size_in_blocks = ?n, bits_mask = last_mask sz, bits_data = replicate (unat ?n) 0\<rparr>"
    using new_blocks_in [of ?n] by (simp add: bitmap_create_def Let_def add.commute)
  let ?b = "\<lparr>bits_size = sz, size_in_blocks = ?n, bits_mask = last_mask sz, bits_data = replicate (unat ?n) 0\<rparr>"
  have z: "\<not> bit_of (replicate (unat ?n) 0) i" if "i < 64 * unat ?n" for i
    using that by (simp add: bit_of_def)
  then have ok: "bitmap_ok ?b" using assms by (simp add: bitmap_ok_def)
  moreover have "bits ?b = replicate (unat sz) False"
  proof (rule nth_equalityI)
    fix i assume "i < length (bits ?b)"
    then show "bits ?b ! i = replicate (unat sz) False ! i" using z [of i] bit_in_block [OF ok, of i] by (simp add: nth_bits)
  qed simp
  ultimately show ?thesis using c by auto
qed

lemma copy_blocks:
  assumes ok: "bitmap_ok b" and l: "size_in_blocks c = size_in_blocks b" "length (bits_data c) = length (bits_data b)"
  shows "each_block (\<lambda>i _. rd (bits_data b) (int i)) c = Inr (c\<lparr>bits_data := bits_data b\<rparr>)"
proof -
  have "length (bits_data c) = unat (size_in_blocks c)" using ok l by (simp add: bitmap_ok_def)
  then obtain e where e: "each_block (\<lambda>i _. rd (bits_data b) (int i)) c = Inr (c\<lparr>bits_data := e\<rparr>)" "length e = length (bits_data c)"
      "\<And>j. j < length e \<Longrightarrow> e ! j = bits_data b ! j"
    by (rule each_block_result [of c "\<lambda>i _. rd (bits_data b) (int i)" "\<lambda>j _. bits_data b ! j"]) (use l(2) in auto)
  then have "e = bits_data b" using l(2) by (intro nth_equalityI) auto
  then show ?thesis using e(1) by simp
qed

lemma bitmap_copy_same:
  assumes ok: "bitmap_ok b"
  shows "bitmap_copy b = Inr b"
proof -
  have n: "length (bits_data b) = unat (size_in_blocks b)" using ok by (simp add: bitmap_ok_def)
  then have "new_blocks (size_in_blocks b) = Inr (replicate (length (bits_data b)) 0)"
    using new_blocks_in blocks_number(3) [OF ok] by simp
  then show ?thesis using copy_blocks [OF ok, of "b\<lparr>bits_data := replicate (length (bits_data b)) 0\<rparr>"] by (simp add: bitmap_copy_def)
qed

text \<open>An assignment copies everything but the mask.\<close>

lemma bitmap_assign_blocks:
  assumes ok: "bitmap_ok b" "bitmap_ok this"
  shows "bitmap_assign this b = Inr (b\<lparr>bits_mask := bits_mask this\<rparr>)"
proof (cases "bits_size this = bits_size b")
  case True
  then have n: "size_in_blocks this = size_in_blocks b" using ok by (simp add: bitmap_ok_def)
  moreover have "length (bits_data this) = length (bits_data b)" using blocks_number(1) ok True by simp
  moreover have "this\<lparr>bits_data := bits_data b\<rparr> = b\<lparr>bits_mask := bits_mask this\<rparr>" using True n by simp
  ultimately show ?thesis using copy_blocks [OF ok(1), of this] True by (simp add: bitmap_assign_def)
next
  case False
  have n: "length (bits_data b) = unat (size_in_blocks b)" using ok(1) by (simp add: bitmap_ok_def)
  let ?t = "this\<lparr>bits_size := bits_size b, size_in_blocks := size_in_blocks b, bits_data := replicate (length (bits_data b)) 0\<rparr>"
  have "new_blocks (size_in_blocks b) = Inr (replicate (length (bits_data b)) 0)"
    using n new_blocks_in blocks_number(3) [OF ok(1)] by simp
  moreover have "each_block (\<lambda>i _. rd (bits_data b) (int i)) ?t = Inr (?t\<lparr>bits_data := bits_data b\<rparr>)"
    by (rule copy_blocks [OF ok(1)]) simp_all
  ultimately show ?thesis using False by (simp add: bitmap_assign_def)
qed

section \<open>Reading all bits\<close>

lemma test_loop_fold:
  assumes ok: "bitmap_ok b" and n: "n \<le> unat (bits_size b)"
  shows "i \<le> n \<Longrightarrow> test_loop f b n i acc = Inr (fold f (map (\<lambda>j. bits b ! j) [i..<n]) acc)"
proof (induction "n - i" arbitrary: i acc)
  case 0
  then show ?case by (subst test_loop.simps) simp
next
  case (Suc k)
  then have i: "i < n" by simp
  then have "Test b (of_nat i) = Inr (bits b ! i)" using Test_bits [OF ok, of i] n by simp
  moreover have "test_loop f b n (i + 1) (f (bits b ! i) acc) = Inr (fold f (map (\<lambda>j. bits b ! j) [i + 1..<n]) (f (bits b ! i) acc))"
    by (rule Suc.hyps(1)) (use Suc.hyps(2) i in simp_all)
  ultimately show ?case using i by (subst test_loop.simps) (simp add: upt_rec [of i n])
qed

lemma test_all: "bitmap_ok b \<Longrightarrow> test_loop f b (unat (bits_size b)) 0 acc = Inr (fold f (bits b) acc)"
  using test_loop_fold [of b "unat (bits_size b)" 0 f acc] map_nth [of "bits b"] by simp

lemma fold_count: "fold (\<lambda>v c. if P v then c + 1 else c) xs (c :: size_t) = c + of_nat (length (filter P xs))"
  by (induction xs arbitrary: c) simp_all

lemma fold_append: "fold (\<lambda>v s. s @ [g v]) xs s = s @ map g xs"
  by (induction xs arbitrary: s) simp_all

lemma counts_bits:
  assumes "bitmap_ok b"
  shows "CountOnes b = Inr (of_nat (length (filter id (bits b))))" "CountZeros b = Inr (of_nat (length (filter Not (bits b))))"
    "bitmap_Dump b = Inr (map (\<lambda>v. if v then CHR ''1'' else CHR ''0'') (bits b))"
  using fold_count [of "\<lambda>v. v" "bits b" 0] fold_count [of Not "bits b" 0]
    fold_append [of "\<lambda>v. if v then CHR ''1'' else CHR ''0''" "bits b" "[]"]
  by (simp_all add: CountOnes_def CountZeros_def bitmap_Dump_def test_all [OF assms] id_def)

lemma any_block_result: "n \<le> length d \<Longrightarrow> any_block d n i = Inr (\<exists>j. i \<le> j \<and> j < n \<and> d ! j \<noteq> 0)"
proof (induction "n - i" arbitrary: i)
  case 0
  then show ?case by (subst any_block.simps) auto
next
  case (Suc k)
  then have i: "i < n" by simp
  show ?case
  proof (cases "d ! i = 0")
    case True
    have "any_block d n (i + 1) = Inr (\<exists>j. i + 1 \<le> j \<and> j < n \<and> d ! j \<noteq> 0)" using Suc i by simp
    moreover have "(\<exists>j. i + 1 \<le> j \<and> j < n \<and> d ! j \<noteq> 0) = (\<exists>j. i \<le> j \<and> j < n \<and> d ! j \<noteq> 0)"
      using True by (metis Suc_eq_plus1 Suc_leI le_neq_implies_less order.trans le_add1)
    ultimately show ?thesis using i Suc.prems True by (subst any_block.simps) simp
  next
    case False
    then show ?thesis using i Suc.prems by (subst any_block.simps) auto
  qed
qed

lemma any_bit_result:
  assumes ok: "bitmap_ok b" and n: "n \<le> unat (bits_size b)"
  shows "any_bit b n i = Inr (\<exists>j. i \<le> j \<and> j < n \<and> bits b ! j)"
proof (induction "n - i" arbitrary: i)
  case 0
  then show ?case by (subst any_bit.simps) auto
next
  case (Suc k)
  then have i: "i < n" by simp
  then have t: "Test b (of_nat i) = Inr (bits b ! i)" using Test_bits [OF ok, of i] n by simp
  show ?case
  proof (cases "bits b ! i")
    case False
    have "any_bit b n (i + 1) = Inr (\<exists>j. i + 1 \<le> j \<and> j < n \<and> bits b ! j)" using Suc i by simp
    moreover have "(\<exists>j. i + 1 \<le> j \<and> j < n \<and> bits b ! j) = (\<exists>j. i \<le> j \<and> j < n \<and> bits b ! j)"
      using False by (metis Suc_eq_plus1 Suc_leI le_neq_implies_less order.trans le_add1)
    ultimately show ?thesis using i t False by (subst any_bit.simps) simp
  next
    case True
    then show ?thesis using i t by (subst any_bit.simps) auto
  qed
qed

lemma nonzero_block: "w \<noteq> 0 \<longleftrightarrow> (\<exists>n < 64. bit (w :: size_t) n)"
proof
  assume "w \<noteq> 0"
  show "\<exists>n < 64. bit w n"
  proof (rule ccontr)
    assume "\<not> (\<exists>n < 64. bit w n)"
    then have "w = 0" by (intro bit_word_eqI) simp
    then show False using \<open>w \<noteq> 0\<close> by simp
  qed
qed auto

lemma Any_bits:
  assumes ok: "bitmap_ok b"
  shows "Any b = Inr (True \<in> set (bits b))"
proof -
  let ?n = "unat (bits_size b)" and ?d = "bits_data b"
  let ?full = "?n div 64"
  have f: "unat (bits_size b div 64) = ?full" by (simp add: unat_div)
  have fl: "?full \<le> length ?d" using blocks_number(1) [OF ok] by (simp add: div_le_mono)
  have "any_block ?d ?full 0 = Inr (\<exists>i < ?full * 64. bits b ! i)"
  proof -
    have "(\<exists>j. 0 \<le> j \<and> j < ?full \<and> ?d ! j \<noteq> 0) \<longleftrightarrow> (\<exists>i < ?full * 64. bits b ! i)"
    proof
      assume "\<exists>j. 0 \<le> j \<and> j < ?full \<and> ?d ! j \<noteq> 0"
      then obtain j k where jk: "j < ?full" "k < 64" "bit (?d ! j) k" using nonzero_block by blast
      have "j * 64 + k < ?full * 64" using jk(1,2) by linarith
      moreover have "(j * 64 + k) div 64 = j" "(j * 64 + k) mod 64 = k" using jk(2) by simp_all
      ultimately show "\<exists>i < ?full * 64. bits b ! i"
        using jk(3) by (intro exI [of _ "j * 64 + k"]) (simp add: nth_bits bit_of_def)
    next
      assume "\<exists>i < ?full * 64. bits b ! i"
      then obtain i where i: "i < ?full * 64" "bits b ! i" by blast
      then have "bit (?d ! (i div 64)) (i mod 64)" by (simp add: nth_bits bit_of_def)
      moreover have "i div 64 < ?full" using i(1) by (simp add: less_mult_imp_div_less)
      ultimately show "\<exists>j. 0 \<le> j \<and> j < ?full \<and> ?d ! j \<noteq> 0" using nonzero_block by fastforce
    qed
    then show ?thesis using any_block_result [OF fl, of 0] by simp
  qed
  moreover have "any_bit b ?n (?full * 64) = Inr (\<exists>j. ?full * 64 \<le> j \<and> j < ?n \<and> bits b ! j)"
    by (rule any_bit_result [OF ok order_refl])
  moreover have "True \<in> set (bits b) \<longleftrightarrow> (\<exists>i < ?full * 64. bits b ! i) \<or> (\<exists>j. ?full * 64 \<le> j \<and> j < ?n \<and> bits b ! j)"
  proof -
    have "True \<in> set (bits b) \<longleftrightarrow> (\<exists>i < ?n. bits b ! i)" by (auto simp: in_set_conv_nth)
    moreover have "i < ?n \<longleftrightarrow> i < ?full * 64 \<or> ?full * 64 \<le> i \<and> i < ?n" for i
      using div_times_less_eq_dividend [of ?n 64] by linarith
    ultimately show ?thesis by metis
  qed
  ultimately show ?thesis
    by (cases "\<exists>i < ?full * 64. bits b ! i") (simp_all add: Any_def Let_def f)
qed

section \<open>Comparison\<close>

lemma equal_loop_result:
  "n \<le> length d \<Longrightarrow> n \<le> length d' \<Longrightarrow> equal_loop d d' n i = Inr (\<forall>j. i \<le> j \<and> j < n \<longrightarrow> d ! j = d' ! j)"
proof (induction "n - i" arbitrary: i)
  case 0
  then show ?case by (subst equal_loop.simps) auto
next
  case (Suc k)
  then have i: "i < n" by simp
  show ?case
  proof (cases "d ! i = d' ! i")
    case True
    have "equal_loop d d' n (i + 1) = Inr (\<forall>j. i + 1 \<le> j \<and> j < n \<longrightarrow> d ! j = d' ! j)" using Suc i by simp
    moreover have "(\<forall>j. i + 1 \<le> j \<and> j < n \<longrightarrow> d ! j = d' ! j) = (\<forall>j. i \<le> j \<and> j < n \<longrightarrow> d ! j = d' ! j)"
      using True by (metis Suc_eq_plus1 Suc_leI le_neq_implies_less order.trans le_add1)
    ultimately show ?thesis using i Suc.prems True by (subst equal_loop.simps) simp
  next
    case False
    then show ?thesis using i Suc.prems by (subst equal_loop.simps) auto
  qed
qed

text \<open>Blocks are equal exactly if the bits are.\<close>

lemma blocks_equal:
  assumes ok: "bitmap_ok b" "bitmap_ok c" and sz: "bits_size b = bits_size c"
  shows "bits_data b = bits_data c \<longleftrightarrow> bits b = bits c"
proof
  show "bits_data b = bits_data c \<Longrightarrow> bits b = bits c" using sz by (simp add: bits_def)
  assume e: "bits b = bits c"
  have l: "length (bits_data b) = length (bits_data c)" using blocks_number(1) ok sz by simp
  have bo: "bit_of (bits_data b) i = bit_of (bits_data c) i" if i: "i < 64 * length (bits_data b)" for i
  proof (cases "i < unat (bits_size b)")
    case True
    then show ?thesis using e sz nth_bits [of i b] nth_bits [of i c] by simp
  next
    case False
    then show ?thesis using bitmap_unused [OF ok(1), of i] bitmap_unused [OF ok(2), of i] i l sz by simp
  qed
  show "bits_data b = bits_data c"
  proof (rule nth_equalityI [OF l])
    fix j assume j: "j < length (bits_data b)"
    show "bits_data b ! j = bits_data c ! j"
    proof (rule bit_word_eqI)
      fix n assume "n < LENGTH(64)"
      then have n: "n < 64" by simp
      then have "j * 64 + n < 64 * length (bits_data b)" using j by linarith
      then have "bit_of (bits_data b) (j * 64 + n) = bit_of (bits_data c) (j * 64 + n)" by (rule bo)
      then show "bit (bits_data b ! j) n = bit (bits_data c ! j) n" using n by (simp add: bit_of_def)
    qed
  qed
qed

lemma bitmap_equal_bits:
  assumes ok: "bitmap_ok b" "bitmap_ok c" and sz: "bits_size b = bits_size c"
  shows "bitmap_equal b c = Inr (bits b = bits c)"
proof -
  have l: "length (bits_data b) = unat (size_in_blocks b)" "length (bits_data c) = length (bits_data b)"
    using blocks_number(1,2) [OF ok(1)] blocks_number(1) [OF ok(2)] sz by simp_all
  then have "bitmap_equal b c = Inr (\<forall>j. 0 \<le> j \<and> j < length (bits_data b) \<longrightarrow> bits_data b ! j = bits_data c ! j)"
    using equal_loop_result [of "length (bits_data b)" "bits_data b" "bits_data c" 0] sz by (simp add: bitmap_equal_def)
  moreover have "(\<forall>j. 0 \<le> j \<and> j < length (bits_data b) \<longrightarrow> bits_data b ! j = bits_data c ! j) \<longleftrightarrow> bits_data b = bits_data c"
    using l(2) by (auto intro: nth_equalityI)
  ultimately show ?thesis using blocks_equal [OF ok sz] by simp
qed

section \<open>Shifts\<close>

lemma shr_move_bits:
  "bitmap_ok b \<Longrightarrow> m + n \<le> unat (bits_size b) \<Longrightarrow> i \<le> m \<Longrightarrow>
   \<exists>b'. shr_move n m i b = Inr b' \<and> bitmap_ok b' \<and> bits_size b' = bits_size b \<and>
     (\<forall>j < unat (bits_size b). bits b' ! j = (if i \<le> j \<and> j < m then bits b ! (j + n) else bits b ! j))"
proof (induction "m - i" arbitrary: i b)
  case 0
  then show ?case by (subst shr_move.simps) auto
next
  case (Suc k)
  then have i: "i < m" by simp
  have t: "Test b (of_nat (i + n)) = Inr (bits b ! (i + n))" using Test_bits [OF Suc.prems(1), of "i + n"] i Suc.prems(2) by simp
  obtain b1 where b1: "set_bit_at (of_nat i) (bits b ! (i + n)) b = Inr b1" "bitmap_ok b1" "bits_size b1 = bits_size b"
      "bits b1 = (bits b)[i := bits b ! (i + n)]"
    using set_bit_bits [OF Suc.prems(1), of i "bits b ! (i + n)"] i Suc.prems(2) by auto
  have pre: "k = m - (i + 1)" "i + 1 \<le> m" using Suc.hyps(2) i by simp_all
  obtain b' where b': "shr_move n m (i + 1) b1 = Inr b'" "bitmap_ok b'" "bits_size b' = bits_size b1"
      "\<forall>j < unat (bits_size b1). bits b' ! j = (if i + 1 \<le> j \<and> j < m then bits b1 ! (j + n) else bits b1 ! j)"
    using Suc.hyps(1) [OF pre(1) b1(2) _ pre(2)] Suc.prems(2) b1(3) by metis
  have "shr_move n m i b = Inr b'" using i t b1(1) b'(1) by (subst shr_move.simps) simp
  moreover have "bits b' ! j = (if i \<le> j \<and> j < m then bits b ! (j + n) else bits b ! j)" if "j < unat (bits_size b)" for j
    using b'(4) b1(3,4) that i Suc.prems(2) by (cases "j = i") (auto simp: nth_list_update)
  ultimately show ?case using b'(2,3) b1(3) by auto
qed

lemma shr_clear_bits:
  "bitmap_ok b \<Longrightarrow> m \<le> unat (bits_size b) \<Longrightarrow> i \<le> m \<Longrightarrow>
   \<exists>b'. shr_clear m i b = Inr b' \<and> bitmap_ok b' \<and> bits_size b' = bits_size b \<and>
     (\<forall>j < unat (bits_size b). bits b' ! j \<longleftrightarrow> \<not> (i \<le> j \<and> j < m) \<and> bits b ! j)"
proof (induction "m - i" arbitrary: i b)
  case 0
  then show ?case by (subst shr_clear.simps) auto
next
  case (Suc k)
  then have i: "i < m" by simp
  obtain b1 where b1: "set_bit_at (of_nat i) False b = Inr b1" "bitmap_ok b1" "bits_size b1 = bits_size b" "bits b1 = (bits b)[i := False]"
    using set_bit_bits [OF Suc.prems(1), of i False] i Suc.prems(2) by auto
  have pre: "k = m - (i + 1)" "i + 1 \<le> m" using Suc.hyps(2) i by simp_all
  obtain b' where b': "shr_clear m (i + 1) b1 = Inr b'" "bitmap_ok b'" "bits_size b' = bits_size b1"
      "\<forall>j < unat (bits_size b1). bits b' ! j \<longleftrightarrow> \<not> (i + 1 \<le> j \<and> j < m) \<and> bits b1 ! j"
    using Suc.hyps(1) [OF pre(1) b1(2) _ pre(2)] Suc.prems(2) b1(3) by metis
  have "shr_clear m i b = Inr b'" using i b1(1) b'(1) by (subst shr_clear.simps) simp
  moreover have "bits b' ! j \<longleftrightarrow> \<not> (i \<le> j \<and> j < m) \<and> bits b ! j" if "j < unat (bits_size b)" for j
    using b'(4) b1(3,4) that i by (cases "j = i") (auto simp: nth_list_update)
  ultimately show ?case using b'(2,3) b1(3) by auto
qed

lemma shr_bits:
  assumes ok: "bitmap_ok b"
  shows "\<exists>b'. shr_assign n b = Inr b' \<and> bitmap_ok b' \<and> bits_size b' = bits_size b \<and>
    bits b' = drop (unat n) (bits b) @ replicate (min (unat n) (unat (bits_size b))) False"
proof (cases "bits_size b \<le> n")
  case True
  then have "unat (bits_size b) \<le> unat n" by (simp add: word_le_nat_alt)
  then show ?thesis using reset_all_bits [OF ok] True by (simp add: shr_assign_def min_def)
next
  case False
  let ?s = "unat (bits_size b)" and ?n = "unat n"
  have n: "?n < ?s" using False by (simp add: word_le_nat_alt)
  then have m: "unat (bits_size b - n) = ?s - ?n" by (intro unat_sub) (simp add: word_le_nat_alt)
  obtain b1 where b1: "shr_move ?n (?s - ?n) 0 b = Inr b1" "bitmap_ok b1" "bits_size b1 = bits_size b"
      "\<forall>j < ?s. bits b1 ! j = (if j < ?s - ?n then bits b ! (j + ?n) else bits b ! j)"
    using shr_move_bits [OF ok, of "?s - ?n" ?n 0] n by auto
  obtain b2 where b2: "shr_clear ?s (?s - ?n) b1 = Inr b2" "bitmap_ok b2" "bits_size b2 = bits_size b"
      "\<forall>j < ?s. bits b2 ! j \<longleftrightarrow> \<not> (?s - ?n \<le> j \<and> j < ?s) \<and> bits b1 ! j"
    using shr_clear_bits [OF b1(2), of ?s "?s - ?n"] b1(3) by auto
  have "bits b2 = drop ?n (bits b) @ replicate ?n False"
  proof (rule nth_equalityI)
    show "length (bits b2) = length (drop ?n (bits b) @ replicate ?n False)" using b2(3) n by simp
    fix j assume "j < length (bits b2)"
    then have j: "j < ?s" using b2(3) by simp
    then show "bits b2 ! j = (drop ?n (bits b) @ replicate ?n False) ! j"
      using b2(4) b1(4) n by (auto simp: nth_append add.commute)
  qed
  then show ?thesis using False b1(1) b2 m n by (simp add: shr_assign_def Let_def)
qed

text \<open>The left shift counts below 0, which is the greatest position, and stops at the assertion there.\<close>

lemma top_position: "set_bit_at (- 1) v b = Inl Assert" "Test b (- 1) = Inl Assert"
proof -
  have "\<not> - 1 < bits_size b" by (simp add: not_less)
  then show "set_bit_at (- 1) v b = Inl Assert" "Test b (- 1) = Inl Assert"
    by (simp_all add: set_bit_at_def Test_def getBlockBit_def)
qed

lemma word_of_nat_pred: "0 < i \<Longrightarrow> (of_nat i :: size_t) - 1 = of_nat (i - 1)"
  by (simp add: of_nat_diff)

lemma shl_clear_asserts: "bitmap_ok b \<Longrightarrow> i < unat (bits_size b) \<Longrightarrow> shl_clear (of_nat i) b = Some (Inl Assert)"
proof (induction i arbitrary: b)
  case 0
  obtain b1 where "set_bit_at 0 False b = Inr b1" using set_bit_bits [OF 0, of False] by auto
  then show ?case by (subst shl_clear.simps, simp, subst shl_clear.simps) (simp add: top_position)
next
  case (Suc i)
  obtain b1 where "set_bit_at (of_nat (Suc i)) False b = Inr b1" "bitmap_ok b1" "bits_size b1 = bits_size b"
    using set_bit_bits [OF Suc.prems, of False] by auto
  then show ?case using Suc.IH [of b1] Suc.prems(2) by (subst shl_clear.simps) simp
qed

lemma shl_move_result:
  assumes n: "unat n = m"
  shows "bitmap_ok b \<Longrightarrow> i < unat (bits_size b) \<Longrightarrow>
    (if m = 0 then shl_move n (of_nat i) b = Some (Inl Assert)
     else \<exists>b'. shl_move n (of_nat i) b = ret b' \<and> bitmap_ok b' \<and> bits_size b' = bits_size b)"
proof (induction i arbitrary: b)
  case 0
  show ?case
  proof (cases "m = 0")
    case True
    then have n0: "n = 0" using n by (simp add: unat_eq_zero)
    obtain b1 where "set_bit_at 0 (bits b ! 0) b = Inr b1" using set_bit_bits [OF 0, of "bits b ! 0"] by auto
    moreover have "Test b 0 = Inr (bits b ! 0)" using Test_bits [OF 0] by simp
    ultimately show ?thesis
      using True n0 by (simp, subst shl_move.simps, simp, subst shl_move.simps) (simp add: top_position)
  next
    case False
    then have "\<not> n \<le> 0" using n by (auto simp: unat_eq_zero)
    then show ?thesis using False 0 by (subst shl_move.simps) simp
  qed
next
  case (Suc i)
  have u: "unat (of_nat (Suc i) :: size_t) = Suc i"
  proof -
    have "unat (bits_size b) < 2 ^ LENGTH(64)" by (rule unsigned_less)
    then show ?thesis using Suc.prems(2) by (simp add: unat_of_nat del: of_nat_Suc)
  qed
  have nn: "n = of_nat m" using n by auto
  show ?case
  proof (cases "m \<le> Suc i")
    case False
    then have "\<not> n \<le> of_nat (Suc i)" using u n by (simp add: word_le_nat_alt del: of_nat_Suc)
    then show ?thesis using False Suc.prems by (subst shl_move.simps) (simp del: of_nat_Suc)
  next
    case True
    then have le: "n \<le> of_nat (Suc i)" using u n by (simp add: word_le_nat_alt del: of_nat_Suc)
    have d: "of_nat (Suc i) - n = of_nat (Suc i - m)" using True unfolding nn by (rule of_nat_diff [symmetric])
    have t: "Test b (of_nat (Suc i) - n) = Inr (bits b ! (Suc i - m))"
      unfolding d by (rule Test_bits [OF Suc.prems(1)]) (use Suc.prems(2) in simp)
    obtain b1 where b1: "set_bit_at (of_nat (Suc i)) (bits b ! (Suc i - m)) b = Inr b1" "bitmap_ok b1" "bits_size b1 = bits_size b"
      using set_bit_bits [OF Suc.prems, of "bits b ! (Suc i - m)"] by auto
    have "shl_move n (of_nat (Suc i)) b = shl_move n (of_nat (Suc i) - 1) b1"
      using le t b1(1) by (subst shl_move.simps) (simp del: of_nat_Suc)
    then have "shl_move n (of_nat (Suc i)) b = shl_move n (of_nat i) b1" by simp
    then show ?thesis using Suc.IH [OF b1(2)] b1(3) Suc.prems(2) by (cases "m = 0") (simp_all del: of_nat_Suc)
  qed
qed

lemma shl_asserts:
  assumes ok: "bitmap_ok b" and n: "n < bits_size b"
  shows "shl_assign n b = Some (Inl Assert)"
proof -
  let ?s = "unat (bits_size b)"
  have s: "unat n < ?s" using n by (simp add: word_less_nat_alt)
  have p: "bits_size b - 1 = of_nat (?s - 1)" using s by (simp add: of_nat_diff)
  have r: "if unat n = 0 then shl_move n (bits_size b - 1) b = Some (Inl Assert)
      else \<exists>b'. shl_move n (bits_size b - 1) b = ret b' \<and> bitmap_ok b' \<and> bits_size b' = bits_size b"
    unfolding p by (rule shl_move_result [OF refl ok]) (use s in simp)
  show ?thesis
  proof (cases "unat n = 0")
    case True
    then show ?thesis using r n by (simp add: shl_assign_def not_le [symmetric])
  next
    case False
    then obtain b' where b': "shl_move n (bits_size b - 1) b = ret b'" "bitmap_ok b'" "bits_size b' = bits_size b" using r by auto
    have "n - 1 = of_nat (unat n - 1)" using False by (simp add: of_nat_diff)
    moreover have "shl_clear (of_nat (unat n - 1)) b' = Some (Inl Assert)"
      by (rule shl_clear_asserts [OF b'(2)]) (use b'(3) s in simp)
    ultimately show ?thesis using n b'(1) by (simp add: shl_assign_def not_le [symmetric])
  qed
qed

section \<open>The interface\<close>

text \<open>What the classes that keep flags in a bit map rely on: bits are read and written by position.\<close>

locale bit_vector =
  fixes invar :: "'b \<Rightarrow> bool" and contents :: "'b \<Rightarrow> bool list"
    and get :: "'b \<Rightarrow> nat \<Rightarrow> bool run" and put :: "nat \<Rightarrow> bool \<Rightarrow> 'b \<Rightarrow> 'b run"
  assumes get: "invar b \<Longrightarrow> i < length (contents b) \<Longrightarrow> get b i = Inr (contents b ! i)"
    and put: "invar b \<Longrightarrow> i < length (contents b) \<Longrightarrow> \<exists>b'. put i v b = Inr b' \<and> invar b' \<and> contents b' = (contents b)[i := v]"
begin

lemma put_range:
  "invar b \<Longrightarrow> off + n \<le> length (contents b) \<Longrightarrow>
   \<exists>b'. run_list (\<lambda>b i. put (off + i) v b) [0..<n] b = Inr b' \<and> invar b' \<and> length (contents b') = length (contents b) \<and>
     (\<forall>j < length (contents b). contents b' ! j = (if off \<le> j \<and> j < off + n then v else contents b ! j))"
proof (induction n)
  case 0
  then show ?case by auto
next
  case (Suc n)
  obtain b1 where b1: "run_list (\<lambda>b i. put (off + i) v b) [0..<n] b = Inr b1" "invar b1" "length (contents b1) = length (contents b)"
      "\<forall>j < length (contents b). contents b1 ! j = (if off \<le> j \<and> j < off + n then v else contents b ! j)"
    using Suc by auto
  obtain b2 where b2: "put (off + n) v b1 = Inr b2" "invar b2" "contents b2 = (contents b1)[off + n := v]"
    using put [OF b1(2), of "off + n" v] b1(3) Suc.prems(2) by auto
  have "run_list (\<lambda>b i. put (off + i) v b) [0..<Suc n] b = Inr b2" using b1(1) b2(1) by (simp add: run_list_append)
  moreover have "contents b2 ! j = (if off \<le> j \<and> j < off + Suc n then v else contents b ! j)" if "j < length (contents b)" for j
    using b1(3,4) b2(3) that by (cases "j = off + n") (auto simp: nth_list_update)
  ultimately show ?case using b2 b1(3) by auto
qed

end

interpretation flags: bit_vector bitmap_ok bits "\<lambda>b i. Test b (of_nat i)" "\<lambda>i. set_bit_at (of_nat i)"
proof unfold_locales
  fix b i v assume b: "bitmap_ok b" "i < length (bits b)"
  then show "Test b (of_nat i) = Inr (bits b ! i)" by (simp add: Test_bits)
  show "\<exists>b'. set_bit_at (of_nat i) v b = Inr b' \<and> bitmap_ok b' \<and> bits b' = (bits b)[i := v]"
    using set_bit_bits [of b i v] b by auto
qed

section \<open>Properties\<close>

text \<open>bit maps are lists of bits: reading, writing, setting, clearing and inverting, counting and comparing, the operators
  on two maps of one size and the right shift do what the list operations do, and keep the unused bits at 0.\<close>

theorem bitmap_refines_bit_list:
  assumes "bitmap_ok b" "bitmap_ok c" "bits_size b = bits_size c" "0 < bits_size b" "i < unat (bits_size b)"
  shows "Test b (of_nat i) = Inr (bits b ! i) \<and>
    (\<exists>b'. set_bit_at (of_nat i) v b = Inr b' \<and> bitmap_ok b' \<and> bits b' = (bits b)[i := v]) \<and>
    (\<exists>b'. set_all b = Inr b' \<and> bitmap_ok b' \<and> bits b' = map (\<lambda>_. True) (bits b)) \<and>
    (\<exists>b'. reset_all b = Inr b' \<and> bitmap_ok b' \<and> bits b' = map (\<lambda>_. False) (bits b)) \<and>
    (\<exists>b'. flip_all b = Inr b' \<and> bitmap_ok b' \<and> bits b' = map Not (bits b)) \<and>
    Any b = Inr (True \<in> set (bits b)) \<and>
    CountOnes b = Inr (of_nat (length (filter id (bits b)))) \<and> CountZeros b = Inr (of_nat (length (filter Not (bits b)))) \<and>
    bitmap_equal b c = Inr (bits b = bits c) \<and>
    (\<exists>b'. bitmap_and b c = Inr b' \<and> bitmap_ok b' \<and> bits b' = map2 (\<and>) (bits b) (bits c)) \<and>
    (\<exists>b'. bitmap_or b c = Inr b' \<and> bitmap_ok b' \<and> bits b' = map2 (\<or>) (bits b) (bits c)) \<and>
    (\<exists>b'. bitmap_xor b c = Inr b' \<and> bitmap_ok b' \<and> bits b' = map2 (\<noteq>) (bits b) (bits c)) \<and>
    (\<exists>b'. bitmap_minus b c = Inr b' \<and> bitmap_ok b' \<and> bits b' = map2 (\<lambda>x y. x \<and> \<not> y) (bits b) (bits c)) \<and>
    (\<exists>b'. op_shr b n = Inr b' \<and> bitmap_ok b' \<and>
       bits b' = drop (unat n) (bits b) @ replicate (min (unat n) (length (bits b))) False)"
proof (intro conjI)
  show "Test b (of_nat i) = Inr (bits b ! i)" by (rule Test_bits [OF assms(1,5)])
  show "\<exists>b'. set_bit_at (of_nat i) v b = Inr b' \<and> bitmap_ok b' \<and> bits b' = (bits b)[i := v]"
    using set_bit_bits [OF assms(1,5), of v] by blast
  show "\<exists>b'. set_all b = Inr b' \<and> bitmap_ok b' \<and> bits b' = map (\<lambda>_. True) (bits b)"
    using set_all_bits [OF assms(1,4)] by (auto simp: map_replicate_const)
  show "\<exists>b'. reset_all b = Inr b' \<and> bitmap_ok b' \<and> bits b' = map (\<lambda>_. False) (bits b)"
    using reset_all_bits [OF assms(1)] by (auto simp: map_replicate_const)
  show "\<exists>b'. flip_all b = Inr b' \<and> bitmap_ok b' \<and> bits b' = map Not (bits b)" using flip_all_bits [OF assms(1,4)] by blast
  show "Any b = Inr (True \<in> set (bits b))" by (rule Any_bits [OF assms(1)])
  show "CountOnes b = Inr (of_nat (length (filter id (bits b))))" "CountZeros b = Inr (of_nat (length (filter Not (bits b))))"
    by (rule counts_bits [OF assms(1)])+
  show "bitmap_equal b c = Inr (bits b = bits c)" by (rule bitmap_equal_bits [OF assms(1-3)])
  show "\<exists>b'. bitmap_and b c = Inr b' \<and> bitmap_ok b' \<and> bits b' = map2 (\<and>) (bits b) (bits c)"
    unfolding bitmap_and_def using combine_bits [OF assms(1-3), of "\<lambda>w w'. w AND w'" "(\<and>)"] by (auto simp: bit_and_iff)
  show "\<exists>b'. bitmap_or b c = Inr b' \<and> bitmap_ok b' \<and> bits b' = map2 (\<or>) (bits b) (bits c)"
    unfolding bitmap_or_def using combine_bits [OF assms(1-3), of "\<lambda>w w'. w OR w'" "(\<or>)"] by (auto simp: bit_or_iff)
  show "\<exists>b'. bitmap_xor b c = Inr b' \<and> bitmap_ok b' \<and> bits b' = map2 (\<noteq>) (bits b) (bits c)"
    unfolding bitmap_xor_def using combine_bits [OF assms(1-3), of "\<lambda>w w'. w XOR w'" "(\<noteq>)"] by (auto simp: bit_xor_iff)
  show "\<exists>b'. bitmap_minus b c = Inr b' \<and> bitmap_ok b' \<and> bits b' = map2 (\<lambda>x y. x \<and> \<not> y) (bits b) (bits c)"
    unfolding bitmap_minus_def using combine_bits [OF assms(1-3), of "\<lambda>w w'. w AND NOT w'" "\<lambda>x y. x \<and> \<not> y"]
    by (auto simp: bit_and_iff bit_not_iff)
  show "\<exists>b'. op_shr b n = Inr b' \<and> bitmap_ok b' \<and> bits b' = drop (unat n) (bits b) @ replicate (min (unat n) (length (bits b))) False"
    using shr_bits [OF assms(1), of n] bitmap_copy_same [OF assms(1)] by (auto simp: op_shr_def)
qed

theorem bitmap_refines_bit_list_witness:
  "\<exists>b. bitmap_create 70 = Inr b \<and> (\<exists>b'. flip_all b = Inr b' \<and> bits b' = replicate 70 True) \<and> Any b = Inr False"
proof -
  obtain b where b: "bitmap_create 70 = Inr b" "bitmap_ok b" "bits_size b = 70" "bits b = replicate 70 False"
    using bitmap_create_bits [of 70] by auto
  have "(0 :: size_t) < 70" "(3 :: nat) < unat (bits_size b)" using b(3) by simp_all
  then show ?thesis using bitmap_refines_bit_list [OF b(2) b(2) refl, of 3] b by (auto simp: map_replicate)
qed

text \<open>the left shift by less than the size always stops at an assertion: the unsigned position of its loops is never below
  0, so the one after 0 is outside the bit map.\<close>

theorem left_shift_asserts:
  assumes "bitmap_ok b" "n < bits_size b"
  shows "shl_assign n b = Some (Inl Assert) \<and> op_shl b n = Some (Inl Assert)"
  using shl_asserts [OF assms] bitmap_copy_same [OF assms(1)] by (simp add: op_shl_def)

theorem left_shift_asserts_witness:
  "\<exists>b. bitmap_create 70 = Inr b \<and> op_shl b 3 = Some (Inl Assert)"
proof -
  obtain b where b: "bitmap_create 70 = Inr b" "bitmap_ok b" "bits_size b = 70" using bitmap_create_bits [of 70] by auto
  then show ?thesis using left_shift_asserts [of b 3] by simp
qed

text \<open>An assignment from a map of another size keeps the old mask, so that setting all bits leaves some out.\<close>

lemma assigned_mask:
  "\<exists>a b c. bitmap_create 1 = Inr a \<and> bitmap_create 64 = Inr b \<and> bitmap_assign a b = Inr c \<and>
     (\<exists>c'. set_all c = Inr c' \<and> bits c' = True # replicate 63 False)"
proof -
  obtain a where a: "bitmap_create 1 = Inr a" "bitmap_ok a" "bits_size a = 1" using bitmap_create_bits [of 1] by auto
  obtain b where b: "bitmap_create 64 = Inr b" "bitmap_ok b" "bits_size b = 64" using bitmap_create_bits [of 64] by auto
  let ?c = "b\<lparr>bits_mask := bits_mask a\<rparr>"
  have m: "bits_mask a = 1" using a by (simp add: bitmap_ok_def last_mask_def)
  have n: "size_in_blocks b = 1" "length (bits_data b) = 1" using b(2,3) by (simp_all add: bitmap_ok_def)
  obtain e where e: "each_block (\<lambda>_ _. Inr (NOT 0)) ?c = Inr (?c\<lparr>bits_data := e\<rparr>)" "length e = 1" "e ! 0 = NOT 0"
    using each_block_result [of ?c "\<lambda>_ _. Inr (NOT 0)" "\<lambda>_ _. NOT 0"] n by auto
  then have "e = [NOT 0]" by (cases e) auto
  then have "set_all ?c = Inr (?c\<lparr>bits_data := [1]\<rparr>)" using e(1) n m by (simp add: set_all_def mask_last_def Let_def rd_def wr_def)
  moreover have "bits (?c\<lparr>bits_data := [1]\<rparr>) = True # replicate 63 False"
    using b(3) by (intro nth_equalityI) (auto simp: bits_def bit_of_def nth_Cons bit_1_iff split: nat.splits)
  ultimately show ?thesis using a b bitmap_assign_blocks [OF b(2) a(2)] by blast
qed

end
