(* ===== verification/EventEngine.thy ===== *)
theory EventEngine
  imports Prelude
begin

text \<open>
  The event-driven simulation engine of \<open>src/lib/esim\<close>: frequency domains, event types, frames (the
  data of a chain of events), the heap of scheduled frames and the loops that run them (\<open>Engine.cc\<close>), and
  the queues in which a chain of events waits (\<open>Queue.cc\<close>).

  Events, domains, frames and queues are numbers that stand for their addresses; event 0 is the null event
  that the constructor registers. Frames live in a memory and are never released (a shared pointer keeps them
  as long as anybody can look at them). Times are the code's \<open>long long\<close> picoseconds, taken as integers
  (\<open>2 ^ 63\<close> ps are 106 days of simulated time). The handler of an event is an argument of the operations that
  run it: a function that gets the event and the frame and may call the engine. The program around the engine
  has the state \<open>user\<close>. The lines of the debug output are kept, since they tell what has run; names, the
  real-time timer and the texts of warnings are left out.

  \<open>std::priority_queue\<close> is a list of frames, the one to take first in front: a frame is put before the first one
  that compares as later. Keys of frames in the heap do not change, because \<open>Schedule\<close> panics on them.

  The loops may not end if the handlers keep scheduling events; they are partial functions, and \<open>None\<close> is not
  returning.
\<close>

section \<open>Data\<close>

record frame =
  fr_event :: "nat ptr"
  fr_time :: int
  fr_sequence :: int
  fr_period :: int
  fr_in_heap :: bool
  fr_parent :: "nat ptr"
  fr_return :: "nat ptr"
  fr_in_queue :: bool
  fr_next :: "nat ptr"
  fr_wakeup :: "nat ptr"

definition new_frame :: frame where
  "new_frame = \<lparr>fr_event = NULL, fr_time = 0, fr_sequence = 0, fr_period = 0, fr_in_heap = False, fr_parent = NULL,
     fr_return = NULL, fr_in_queue = False, fr_next = NULL, fr_wakeup = NULL\<rparr>"

record event =
  ev_domain :: "nat ptr"
  ev_in_flight :: int

record domain =
  dom_frequency :: int
  dom_cycle_time :: int

record equeue =
  q_head :: "nat ptr"
  q_tail :: "nat ptr"

datatype line = Scheduled nat int | Discarded | Triggered nat | Drained nat | End_triggered nat

record 'u engine =
  finish :: bool
  finish_reason :: string
  signal_received :: int
  events :: "event list"
  domains :: "domain list"
  frames :: "frame memory"
  next_address :: nat
  queues :: "nat \<Rightarrow> equeue"
  heap :: "nat list"
  end_frames :: "nat list"
  locked :: bool
  current_time :: int
  fastest_frequency :: int
  shortest_cycle_time :: int
  current_frame :: "nat ptr"
  sequence_counter :: int
  warned :: bool
  debug :: "line list"
  user :: 'u

type_synonym 'u handler = "nat \<Rightarrow> nat \<Rightarrow> 'u engine \<Rightarrow> 'u engine run"

definition null_event :: nat where "null_event = 0"

definition max_inflight_events :: nat where "max_inflight_events = 10000"

definition max_finalization_events :: int where "max_finalization_events = 1000000"

definition SIGINT :: int where "SIGINT = 2"

section \<open>Construction and registration\<close>

definition engine_create :: "'u \<Rightarrow> 'u engine" where
  "engine_create u = \<lparr>finish = False, finish_reason = [], signal_received = 0,
     events = [\<lparr>ev_domain = NULL, ev_in_flight = 0\<rparr>], domains = [], frames = Map.empty, next_address = 0,
     queues = (\<lambda>_. \<lparr>q_head = NULL, q_tail = NULL\<rparr>), heap = [], end_frames = [], locked = False, current_time = 0,
     fastest_frequency = 0, shortest_cycle_time = 0, current_frame = NULL, sequence_counter = 0, warned = False,
     debug = [], user = u\<rparr>"

definition RegisterEvent :: "nat ptr \<Rightarrow> 'u engine \<Rightarrow> 'u engine \<times> nat" where
  "RegisterEvent d e = (e\<lparr>events := events e @ [\<lparr>ev_domain = d, ev_in_flight = 0\<rparr>]\<rparr>, length (events e))"

definition FrequencyDomain :: "int \<Rightarrow> domain run" where
  "FrequencyDomain frequency =
     (if frequency = 0 then Inl Div_zero
      else Inr \<lparr>dom_frequency = frequency, dom_cycle_time = c_div 1000000 frequency\<rparr>)"

definition RegisterFrequencyDomain :: "int \<Rightarrow> 'u engine \<Rightarrow> ('u engine \<times> nat) run" where
  "RegisterFrequencyDomain frequency e =
     andthen (FrequencyDomain frequency) (\<lambda>d.
     let e = e\<lparr>domains := domains e @ [d]\<rparr>;
         e = (if fastest_frequency e < frequency
              then e\<lparr>fastest_frequency := frequency, shortest_cycle_time := c_div 1000000 frequency\<rparr> else e)
     in Inr (e, length (domains e) - 1))"

definition update_fastest :: "'u engine \<Rightarrow> domain \<Rightarrow> 'u engine" where
  "update_fastest e d =
     (if fastest_frequency e < dom_frequency d
      then e\<lparr>fastest_frequency := dom_frequency d, shortest_cycle_time := dom_cycle_time d\<rparr> else e)"

definition UpdateFastestFrequency :: "'u engine \<Rightarrow> 'u engine run" where
  "UpdateFastestFrequency e =
     (if domains e = [] then Inl Assert
      else Inr (foldl update_fastest (e\<lparr>fastest_frequency := 0, shortest_cycle_time := 0\<rparr>) (domains e)))"

definition domain_at :: "'u engine \<Rightarrow> nat \<Rightarrow> domain run" where
  "domain_at e d = (if d < length (domains e) then Inr (domains e ! d) else Inl Segv)"

definition setFrequency :: "nat \<Rightarrow> int \<Rightarrow> 'u engine \<Rightarrow> 'u engine run" where
  "setFrequency d frequency e =
     andthen (domain_at e d) (\<lambda>_.
     andthen (FrequencyDomain frequency) (\<lambda>dom.
     UpdateFastestFrequency (e\<lparr>domains := (domains e)[d := dom]\<rparr>)))"

definition isValidFrequency :: "int \<Rightarrow> bool" where
  "isValidFrequency frequency \<longleftrightarrow> 1 \<le> frequency \<and> frequency \<le> 1000000"

definition Finish :: "string \<Rightarrow> 'u engine \<Rightarrow> 'u engine" where
  "Finish reason e = e\<lparr>finish := True, finish_reason := reason\<rparr>"

definition SignalHandler :: "int \<Rightarrow> 'u engine \<Rightarrow> 'u engine run" where
  "SignalHandler signum e =
     (if signal_received e = signum \<and> signum = SIGINT then Inl Fatal else Inr (e\<lparr>signal_received := signum\<rparr>))"

definition engine_getCycle :: "'u engine \<Rightarrow> int run" where
  "engine_getCycle e =
     (if shortest_cycle_time e = 0 then Inl Assert else Inr (c_div (current_time e) (shortest_cycle_time e) + 1))"

definition domain_getCycle :: "'u engine \<Rightarrow> nat \<Rightarrow> int run" where
  "domain_getCycle e d =
     andthen (domain_at e d) (\<lambda>dom.
     if dom_cycle_time dom = 0 then Inl Div_zero else Inr (c_div (current_time e) (dom_cycle_time dom) + 1))"

section \<open>The heap\<close>

text \<open>\<open>CompareSharedPointers\<close>: \<open>f\<close> comes after \<open>g\<close>.\<close>

definition later :: "frame memory \<Rightarrow> nat \<Rightarrow> nat \<Rightarrow> bool" where
  "later mem f g \<longleftrightarrow>
     (case (mem f, mem g) of
        (Some a, Some b) \<Rightarrow> fr_time b < fr_time a \<or> fr_time a = fr_time b \<and> fr_sequence b < fr_sequence a
      | _ \<Rightarrow> False)"

primrec heap_emplace :: "frame memory \<Rightarrow> nat \<Rightarrow> nat list \<Rightarrow> nat list" where
  "heap_emplace mem f [] = [f]"
| "heap_emplace mem f (g # gs) = (if later mem g f then f # g # gs else g # heap_emplace mem f gs)"

definition event_at :: "'u engine \<Rightarrow> nat \<Rightarrow> event run" where
  "event_at e ev = (if ev < length (events e) then Inr (events e ! ev) else Inl Segv)"

text \<open>\<open>incInFlight\<close> and \<open>decInFlight\<close>.\<close>

definition add_in_flight :: "int \<Rightarrow> nat \<Rightarrow> 'u engine \<Rightarrow> 'u engine" where
  "add_in_flight n ev e = e\<lparr>events := (events e)[ev := (events e ! ev)\<lparr>ev_in_flight := ev_in_flight (events e ! ev) + n\<rparr>]\<rparr>"

definition warn :: "'u engine \<Rightarrow> 'u engine" where
  "warn e = (if \<not> warned e \<and> max_inflight_events \<le> length (heap e) then e\<lparr>warned := True\<rparr> else e)"

text \<open>The part of \<open>Schedule\<close> after its checks, for a domain with cycle time \<open>ct\<close>.\<close>

definition enter_heap :: "nat \<Rightarrow> nat \<Rightarrow> int \<Rightarrow> int \<Rightarrow> int \<Rightarrow> 'u engine \<Rightarrow> 'u engine run" where
  "enter_heap ev f ct after period e =
     (let time = c_div (current_time e) ct * ct + ct * after;
          seq = sequence_counter e + 1
      in andthen (node_put (frames e) (Some f)
           (\<lambda>fr. fr\<lparr>fr_time := time, fr_event := Some ev, fr_period := period, fr_sequence := seq\<rparr>)) (\<lambda>mem.
         let hp = heap_emplace mem f (heap e)
         in andthen (node_put mem (Some f) (\<lambda>fr. fr\<lparr>fr_in_heap := True\<rparr>)) (\<lambda>mem.
            Inr (warn (add_in_flight 1 ev (e\<lparr>frames := mem, heap := hp, sequence_counter := seq,
              debug := debug e @ [Scheduled ev time]\<rparr>))))))"

definition Schedule :: "nat ptr \<Rightarrow> nat ptr \<Rightarrow> int \<Rightarrow> int \<Rightarrow> 'u engine \<Rightarrow> 'u engine run" where
  "Schedule event frame after period e =
     (if after < 0 then Inl Assert
      else case frame of
        None \<Rightarrow> Inl Assert
      | Some f \<Rightarrow>
          andthen (node_at (frames e) frame) (\<lambda>fr.
          if fr_in_queue fr then Inl Panic
          else if fr_in_heap fr then Inl Panic
          else if locked e then Inr e
          else if event = NULL \<or> event = Some null_event then Inr (e\<lparr>debug := debug e @ [Discarded]\<rparr>)
          else
            andthen (event_at e (the event)) (\<lambda>evt.
            case ev_domain evt of
              None \<Rightarrow> Inl Panic
            | Some d \<Rightarrow>
                andthen (domain_at e d) (\<lambda>dom.
                if dom_cycle_time dom = 0 then Inl Div_zero
                else enter_heap (the event) f (dom_cycle_time dom) after period e))))"

section \<open>What handlers call\<close>

definition alloc_frame :: "'u engine \<Rightarrow> 'u engine \<times> nat" where
  "alloc_frame e =
     (e\<lparr>frames := (frames e)(next_address e \<mapsto> new_frame), next_address := next_address e + 1\<rparr>, next_address e)"

definition Next :: "nat ptr \<Rightarrow> int \<Rightarrow> int \<Rightarrow> 'u engine \<Rightarrow> 'u engine run" where
  "Next event after period e =
     (case current_frame e of
        Some f \<Rightarrow> Schedule event (Some f) after period e
      | None \<Rightarrow> (case alloc_frame e of (e, f) \<Rightarrow> Schedule event (Some f) after period e))"

definition Call :: "nat ptr \<Rightarrow> nat ptr \<Rightarrow> nat ptr \<Rightarrow> int \<Rightarrow> int \<Rightarrow> 'u engine \<Rightarrow> 'u engine run" where
  "Call event frame return_event after period e =
     (case (case frame of Some f \<Rightarrow> (e, f) | None \<Rightarrow> alloc_frame e) of
        (e, f) \<Rightarrow>
          andthen (node_put (frames e) (Some f) (\<lambda>fr. fr\<lparr>fr_return := return_event, fr_parent := current_frame e\<rparr>)) (\<lambda>mem.
          Schedule event (Some f) after period (e\<lparr>frames := mem\<rparr>)))"

definition Return :: "int \<Rightarrow> 'u engine \<Rightarrow> 'u engine run" where
  "Return after e =
     (case current_frame e of
        None \<Rightarrow> Inl Panic
      | Some f \<Rightarrow>
          andthen (node_at (frames e) (Some f)) (\<lambda>fr.
          if fr_return fr = NULL then Inr e else Schedule (fr_return fr) (fr_parent fr) after 0 e))"

definition Execute :: "'u handler \<Rightarrow> nat ptr \<Rightarrow> nat ptr \<Rightarrow> nat ptr \<Rightarrow> 'u engine \<Rightarrow> 'u engine run" where
  "Execute h event frame receive_event e =
     (if event = NULL \<or> event = Some null_event then Inr e
      else
        andthen (node_put (frames e) frame (\<lambda>fr. fr\<lparr>fr_parent := current_frame e, fr_return := receive_event\<rparr>)) (\<lambda>mem.
        andthen (h (the event) (the frame) (e\<lparr>frames := mem, current_frame := frame\<rparr>)) (\<lambda>e'.
        Inr (e'\<lparr>current_frame := current_frame e\<rparr>))))"

definition EndEvent :: "nat ptr \<Rightarrow> 'u engine \<Rightarrow> 'u engine" where
  "EndEvent event e =
     (if event = NULL \<or> event = Some null_event then e
      else
        case alloc_frame e of
          (e, f) \<Rightarrow> e\<lparr>frames := (frames e)(f \<mapsto> new_frame\<lparr>fr_event := event\<rparr>), end_frames := end_frames e @ [f]\<rparr>)"

section \<open>Running events\<close>

text \<open>The frame on top of the heap becomes the current one.\<close>

definition take_top :: "nat \<Rightarrow> 'u engine \<Rightarrow> ('u engine \<times> nat) run" where
  "take_top f e =
     (if current_frame e \<noteq> NULL then Inl Assert
      else
        andthen (node_at (frames e) (Some f)) (\<lambda>fr.
        if \<not> fr_in_heap fr then Inl Assert
        else
          let e = e\<lparr>current_frame := Some f, heap := tl (heap e), frames := (frames e)(f \<mapsto> fr\<lparr>fr_in_heap := False\<rparr>)\<rparr>
          in case fr_event fr of
               None \<Rightarrow> Inl Segv
             | Some ev \<Rightarrow>
                 andthen (event_at e ev) (\<lambda>evt.
                 case ev_domain evt of None \<Rightarrow> Inl Segv | Some d \<Rightarrow> andthen (domain_at e d) (\<lambda>_. Inr (e, ev)))))"

definition process_one :: "'u handler \<Rightarrow> nat \<Rightarrow> 'u engine \<Rightarrow> 'u engine run" where
  "process_one h f e =
     andthen (take_top f e) (\<lambda>(e, ev).
     andthen (h ev f (add_in_flight (- 1) ev (e\<lparr>debug := debug e @ [Triggered ev]\<rparr>))) (\<lambda>e.
     andthen (node_at (frames e) (current_frame e)) (\<lambda>fr.
     andthen (if 0 < fr_period fr then Schedule (Some ev) (current_frame e) (fr_period fr) (fr_period fr) e else Inr e) (\<lambda>e.
     Inr (e\<lparr>current_frame := NULL\<rparr>)))))"

partial_function (option) process_loop :: "'u handler \<Rightarrow> 'u engine \<Rightarrow> 'u engine run option" where
  "process_loop h e =
     (case heap e of
        [] \<Rightarrow> ret e
      | f # _ \<Rightarrow>
          bindr (Some (node_at (frames e) (Some f))) (\<lambda>fr.
          if current_time e < fr_time fr then ret e
          else bindr (Some (process_one h f e)) (process_loop h)))"

definition ProcessEvents :: "'u handler \<Rightarrow> 'u engine \<Rightarrow> 'u engine run option" where
  "ProcessEvents h e =
     bindr (process_loop h (if signal_received e = SIGINT then Finish ''Signal'' e else e)) (\<lambda>e.
     ret (e\<lparr>current_time := current_time e + shortest_cycle_time e\<rparr>))"

definition drain_one :: "'u handler \<Rightarrow> nat \<Rightarrow> 'u engine \<Rightarrow> 'u engine run" where
  "drain_one h f e =
     andthen (take_top f e) (\<lambda>(e, ev).
     andthen (node_at (frames e) (Some f)) (\<lambda>fr.
     andthen (h ev f (e\<lparr>debug := debug e @ [Drained ev], current_time := fr_time fr\<rparr>)) (\<lambda>e.
     Inr (e\<lparr>current_frame := NULL\<rparr>))))"

partial_function (option) drain_loop :: "'u handler \<Rightarrow> int \<Rightarrow> int \<Rightarrow> 'u engine \<Rightarrow> ('u engine \<times> bool) run option" where
  "drain_loop h max_events num_events e =
     (case heap e of
        [] \<Rightarrow> ret (e, False)
      | f # _ \<Rightarrow>
          bindr (Some (drain_one h f e)) (\<lambda>e.
          if num_events + 1 = max_events then ret (e, True) else drain_loop h max_events (num_events + 1) e))"

definition Drain :: "'u handler \<Rightarrow> int \<Rightarrow> 'u engine \<Rightarrow> ('u engine \<times> bool) run option" where
  "Drain h max_events e = drain_loop h max_events 0 e"

definition end_one :: "'u handler \<Rightarrow> nat \<Rightarrow> 'u engine \<Rightarrow> 'u engine run" where
  "end_one h f e =
     (if current_frame e \<noteq> NULL then Inl Assert
      else
        andthen (node_at (frames e) (Some f)) (\<lambda>fr.
        case fr_event fr of
          None \<Rightarrow> Inl Segv
        | Some ev \<Rightarrow>
            andthen (h ev f (e\<lparr>current_frame := Some f, end_frames := tl (end_frames e), debug := debug e @ [End_triggered ev]\<rparr>)) (\<lambda>e.
            Inr (e\<lparr>current_frame := NULL\<rparr>))))"

partial_function (option) ProcessEndEvents :: "'u handler \<Rightarrow> 'u engine \<Rightarrow> 'u engine run option" where
  "ProcessEndEvents h e =
     (case end_frames e of
        [] \<Rightarrow> ret e
      | f # _ \<Rightarrow> bindr (Some (end_one h f e)) (ProcessEndEvents h))"

definition ProcessAllEvents :: "'u handler \<Rightarrow> 'u engine \<Rightarrow> 'u engine run option" where
  "ProcessAllEvents h e =
     bindr (Drain h max_finalization_events e) (\<lambda>(e, overflow).
     if overflow then ret e
     else
       bindr (ProcessEndEvents h e) (\<lambda>e.
       bindr (Drain h max_finalization_events e) (\<lambda>(e, _). ret e)))"

section \<open>Queues\<close>

definition put_frames :: "frame memory \<Rightarrow> 'u engine \<Rightarrow> 'u engine" where
  "put_frames mem e = e\<lparr>frames := mem\<rparr>"

definition put_queue :: "nat \<Rightarrow> nat ptr \<Rightarrow> nat ptr \<Rightarrow> 'u engine \<Rightarrow> 'u engine" where
  "put_queue q h t e = e\<lparr>queues := (queues e)(q := \<lparr>q_head = h, q_tail = t\<rparr>)\<rparr>"

text \<open>The marks that both insertions set on the frame, after their assertions.\<close>

definition mark_queued :: "nat \<Rightarrow> 'u engine \<Rightarrow> frame memory run" where
  "mark_queued f e =
     andthen (node_at (frames e) (Some f)) (\<lambda>fr.
     if fr_in_queue fr then Inl Assert
     else if fr_next fr \<noteq> NULL then Inl Assert
     else node_put (frames e) (Some f) (\<lambda>fr. fr\<lparr>fr_in_queue := True\<rparr>))"

definition queue_PushBack :: "nat \<Rightarrow> nat \<Rightarrow> 'u engine \<Rightarrow> 'u engine run" where
  "queue_PushBack q f e =
     andthen (mark_queued f e) (\<lambda>mem.
     let head = q_head (queues e q); tail = q_tail (queues e q)
     in if head = NULL \<and> tail = NULL then Inr (put_queue q (Some f) (Some f) (put_frames mem e))
        else if head = NULL \<or> tail = NULL then Inl Assert
        else
          andthen (node_at mem tail) (\<lambda>last.
          if fr_next last \<noteq> NULL then Inl Assert
          else andthen (node_put mem tail (\<lambda>fr. fr\<lparr>fr_next := Some f\<rparr>)) (\<lambda>mem.
            Inr (put_queue q head (Some f) (put_frames mem e)))))"

definition queue_PushFront :: "nat \<Rightarrow> nat \<Rightarrow> 'u engine \<Rightarrow> 'u engine run" where
  "queue_PushFront q f e =
     andthen (mark_queued f e) (\<lambda>mem.
     let head = q_head (queues e q); tail = q_tail (queues e q)
     in if head = NULL \<and> tail = NULL then Inr (put_queue q (Some f) (Some f) (put_frames mem e))
        else if head = NULL \<or> tail = NULL then Inl Assert
        else
          andthen (node_at mem tail) (\<lambda>last.
          if fr_next last \<noteq> NULL then Inl Assert
          else andthen (node_put mem (Some f) (\<lambda>fr. fr\<lparr>fr_next := head\<rparr>)) (\<lambda>mem.
            Inr (put_queue q (Some f) tail (put_frames mem e)))))"

definition queue_PopFront :: "nat \<Rightarrow> 'u engine \<Rightarrow> ('u engine \<times> nat ptr) run" where
  "queue_PopFront q e =
     (let head = q_head (queues e q); tail = q_tail (queues e q)
      in case head of
           None \<Rightarrow> if tail \<noteq> NULL then Inl Assert else Inr (e, NULL)
         | Some f \<Rightarrow>
             andthen (node_at (frames e) head) (\<lambda>fr.
             let e' = (if head = tail then put_queue q NULL NULL e else put_queue q (fr_next fr) tail e)
             in Inr (put_frames ((frames e)(f \<mapsto> fr\<lparr>fr_next := NULL, fr_in_queue := False\<rparr>)) e', Some f)))"

definition queue_Wait :: "nat \<Rightarrow> nat ptr \<Rightarrow> bool \<Rightarrow> 'u engine \<Rightarrow> 'u engine run" where
  "queue_Wait q event priority e =
     (case current_frame e of
        None \<Rightarrow> Inl Panic
      | Some f \<Rightarrow>
          andthen (node_at (frames e) (Some f)) (\<lambda>fr.
          if fr_in_heap fr then Inl Panic
          else if event = NULL then Inl Panic
          else if fr_wakeup fr \<noteq> NULL then Inl Assert
          else
            let e = put_frames ((frames e)(f \<mapsto> fr\<lparr>fr_wakeup := event\<rparr>)) e
            in if priority then queue_PushFront q f e else queue_PushBack q f e))"

definition queue_WakeupOne :: "nat \<Rightarrow> 'u engine \<Rightarrow> 'u engine run" where
  "queue_WakeupOne q e =
     (if q_head (queues e q) = NULL then Inl Panic
      else
        andthen (queue_PopFront q e) (\<lambda>(e, frame).
        andthen (node_at (frames e) frame) (\<lambda>fr.
        let event = fr_wakeup fr
        in andthen (node_put (frames e) frame (\<lambda>fr. fr\<lparr>fr_wakeup := NULL\<rparr>)) (\<lambda>mem.
           if event = NULL then Inl Assert else Schedule event frame 0 0 (put_frames mem e)))))"

partial_function (option) queue_WakeupAll :: "nat \<Rightarrow> 'u engine \<Rightarrow> 'u engine run option" where
  "queue_WakeupAll q e =
     (if q_head (queues e q) = NULL then ret e
      else bindr (Some (queue_WakeupOne q e)) (queue_WakeupAll q))"

end
