(* ===== verification/EngineInvariant.thy ===== *)
theory EngineInvariant
  imports EventEngine
begin

text \<open>
  The invariant of the engine: the heap is in the order in which its frames will run, the flags of the frames
  say which ones are in it, and the counters of events in flight count them. Every operation keeps it. The
  relation \<open>extends\<close> says what a handler may do to the frames that are scheduled.
\<close>

section \<open>The order of the heap\<close>

abbreviation fr :: "'u engine \<Rightarrow> nat \<Rightarrow> frame" where
  "fr e f \<equiv> the (frames e f)"

definition heap_sorted :: "frame memory \<Rightarrow> nat list \<Rightarrow> bool" where
  "heap_sorted mem hs \<longleftrightarrow> sorted_wrt (\<lambda>f g. later mem g f) hs \<and> (\<forall>f \<in> set hs. mem f \<noteq> None)"

lemma later_Some [simp]:
  "mem f = Some a \<Longrightarrow> mem g = Some b \<Longrightarrow>
   later mem f g \<longleftrightarrow> fr_time b < fr_time a \<or> fr_time a = fr_time b \<and> fr_sequence b < fr_sequence a"
  by (simp add: later_def)

lemma set_heap_emplace [simp]: "set (heap_emplace mem f hs) = insert f (set hs)"
  by (induction hs) auto

lemma distinct_heap_emplace: "distinct hs \<Longrightarrow> f \<notin> set hs \<Longrightarrow> distinct (heap_emplace mem f hs)"
  by (induction hs) auto

lemma later_trans: "later mem f g \<Longrightarrow> later mem g h \<Longrightarrow> later mem f h"
  by (auto simp: later_def split: option.splits)

text \<open>A new frame has the greatest sequence number, so it goes behind the frames of its time.\<close>

lemma heap_emplace_sorted:
  assumes "heap_sorted mem hs" "mem f = Some a" "\<forall>g \<in> set hs. fr_sequence (the (mem g)) < fr_sequence a"
  shows "heap_sorted mem (heap_emplace mem f hs)"
  using assms
proof (induction hs)
  case Nil
  then show ?case by (simp add: heap_sorted_def)
next
  case (Cons g gs)
  obtain b where b: "mem g = Some b" using Cons.prems(1) by (auto simp: heap_sorted_def)
  show ?case
  proof (cases "later mem g f")
    case True
    then have "\<forall>x \<in> set gs. later mem x f"
      using Cons.prems(1) later_trans [of mem _ g f] by (auto simp: heap_sorted_def)
    then show ?thesis using Cons.prems True by (simp add: heap_sorted_def)
  next
    case False
    have "fr_sequence b < fr_sequence a" using Cons.prems(3) b by simp
    then have "later mem f g" using False Cons.prems(2) b by auto
    moreover have "heap_sorted mem (heap_emplace mem f gs)" using Cons by (simp add: heap_sorted_def)
    ultimately show ?thesis using Cons.prems False by (auto simp: heap_sorted_def)
  qed
qed

text \<open>The order depends on the keys of the frames in the heap only.\<close>

lemma heap_sorted_cong:
  assumes "heap_sorted mem hs"
    and "\<forall>f \<in> set hs. \<exists>a. mem' f = Some a \<and> fr_time a = fr_time (the (mem f)) \<and> fr_sequence a = fr_sequence (the (mem f))"
  shows "heap_sorted mem' hs"
proof -
  have "later mem' g f" if h: "f \<in> set hs" "g \<in> set hs" "later mem g f" for f g
  proof -
    have "mem f \<noteq> None" "mem g \<noteq> None" using h(1,2) assms(1) by (auto simp: heap_sorted_def)
    then obtain a b where ab: "mem f = Some a" "mem g = Some b" by blast
    obtain a' where a': "mem' f = Some a'" "fr_time a' = fr_time a" "fr_sequence a' = fr_sequence a"
      using bspec [OF assms(2) h(1)] ab(1) by auto
    obtain b' where b': "mem' g = Some b'" "fr_time b' = fr_time b" "fr_sequence b' = fr_sequence b"
      using bspec [OF assms(2) h(2)] ab(2) by auto
    show ?thesis using h(3) ab a' b' by simp
  qed
  then have "sorted_wrt (\<lambda>f g. later mem' g f) hs"
    using assms(1) unfolding heap_sorted_def by (auto intro: sorted_wrt_mono_rel [of hs "\<lambda>f g. later mem g f"])
  then show ?thesis using assms(2) by (auto simp: heap_sorted_def)
qed

section \<open>The invariant\<close>

definition live_event :: "'u engine \<Rightarrow> nat \<Rightarrow> bool" where
  "live_event e ev \<longleftrightarrow> ev < length (events e) \<and> ev_domain (events e ! ev) \<noteq> None"

definition events_ok :: "'u engine \<Rightarrow> bool" where
  "events_ok e \<longleftrightarrow> events e \<noteq> [] \<and> ev_domain (events e ! null_event) = None \<and> 0 \<le> current_time e \<and> 0 \<le> shortest_cycle_time e \<and>
     (\<forall>d \<in> set (domains e). 0 < dom_cycle_time d) \<and>
     (\<forall>ev < length (events e). \<forall>d. ev_domain (events e ! ev) = Some d \<longrightarrow>
        d < length (domains e) \<and> 0 < dom_cycle_time (domains e ! d))"

definition frame_ok :: "'u engine \<Rightarrow> nat \<Rightarrow> frame \<Rightarrow> bool" where
  "frame_ok e f a \<longleftrightarrow> f < next_address e \<and> (fr_in_heap a \<longleftrightarrow> f \<in> set (heap e)) \<and>
     (fr_in_heap a \<longrightarrow> \<not> fr_in_queue a \<and> fr_sequence a \<le> sequence_counter e \<and> 0 \<le> fr_time a \<and>
        (\<exists>ev. fr_event a = Some ev \<and> live_event e ev)) \<and>
     (\<forall>g. fr_parent a = Some g \<longrightarrow> frames e g \<noteq> None)"

definition in_flight :: "'u engine \<Rightarrow> nat \<Rightarrow> nat" where
  "in_flight e ev = length (filter (\<lambda>f. fr_event (fr e f) = Some ev) (heap e))"

definition engine_ok :: "'u engine \<Rightarrow> bool" where
  "engine_ok e \<longleftrightarrow> heap_sorted (frames e) (heap e) \<and> distinct (heap e) \<and> (\<forall>f a. frames e f = Some a \<longrightarrow> frame_ok e f a) \<and>
     (\<forall>f. current_frame e = Some f \<longrightarrow> frames e f \<noteq> None) \<and> events_ok e"

text \<open>The counters of the events that are in flight.\<close>

definition in_flight_ok :: "'u engine \<Rightarrow> bool" where
  "in_flight_ok e \<longleftrightarrow> (\<forall>ev < length (events e). ev_in_flight (events e ! ev) = int (in_flight e ev))"

lemma engine_okD:
  assumes "engine_ok e"
  shows "heap_sorted (frames e) (heap e)" "distinct (heap e)" "frames e f = Some a \<Longrightarrow> frame_ok e f a"
    "current_frame e = Some f \<Longrightarrow> frames e f \<noteq> None" "events_ok e"
  using assms by (auto simp: engine_ok_def)

lemma scheduled_frame:
  assumes "engine_ok e" "f \<in> set (heap e)"
  shows "\<exists>a ev. frames e f = Some a \<and> fr_in_heap a \<and> \<not> fr_in_queue a \<and> fr_sequence a \<le> sequence_counter e \<and>
    0 \<le> fr_time a \<and> fr_event a = Some ev \<and> live_event e ev"
proof -
  obtain a where a: "frames e f = Some a" using assms by (auto simp: engine_ok_def heap_sorted_def)
  then have "frame_ok e f a" using assms(1) by (simp add: engine_ok_def)
  then show ?thesis using a assms(2) by (auto simp: frame_ok_def)
qed

lemma live_domain:
  assumes "events_ok e" "live_event e ev"
  obtains d where "event_at e ev = Inr (events e ! ev)" "ev_domain (events e ! ev) = Some d"
    "domain_at e d = Inr (domains e ! d)" "0 < dom_cycle_time (domains e ! d)"
  using assms by (auto simp: live_event_def events_ok_def event_at_def domain_at_def)

text \<open>What a handler may do: the frames in the heap stay there with their keys, new ones have new sequence numbers.\<close>

definition same_key :: "'u engine \<Rightarrow> 'u engine \<Rightarrow> nat \<Rightarrow> bool" where
  "same_key e e' f \<longleftrightarrow> fr_time (fr e' f) = fr_time (fr e f) \<and> fr_sequence (fr e' f) = fr_sequence (fr e f) \<and>
     fr_event (fr e' f) = fr_event (fr e f)"

definition same_program :: "'u engine \<Rightarrow> 'u engine \<Rightarrow> bool" where
  "same_program e e' \<longleftrightarrow> domains e' = domains e \<and> map ev_domain (events e') = map ev_domain (events e) \<and>
     shortest_cycle_time e' = shortest_cycle_time e \<and> current_time e' = current_time e \<and> locked e' = locked e"

text \<open>The events that the lines of the debug output say have run.\<close>

fun triggered :: "line list \<Rightarrow> nat list" where
  "triggered [] = []"
| "triggered (Triggered ev # ls) = ev # triggered ls"
| "triggered (Drained ev # ls) = ev # triggered ls"
| "triggered (End_triggered ev # ls) = ev # triggered ls"
| "triggered (_ # ls) = triggered ls"

lemma triggered_append [simp]: "triggered (xs @ ys) = triggered xs @ triggered ys"
  by (induction xs rule: triggered.induct) simp_all

definition extends :: "'u engine \<Rightarrow> 'u engine \<Rightarrow> bool" where
  "extends e e' \<longleftrightarrow> same_program e e' \<and> current_frame e' = current_frame e \<and> (\<exists>l. debug e' = debug e @ l \<and> triggered l = []) \<and>
     sequence_counter e \<le> sequence_counter e' \<and>
     (\<forall>f \<in> set (heap e). f \<in> set (heap e') \<and> same_key e e' f) \<and>
     (\<forall>f \<in> set (heap e'). f \<notin> set (heap e) \<longrightarrow> sequence_counter e < fr_sequence (fr e' f)) \<and>
     (\<forall>f. frames e f \<noteq> None \<longrightarrow> frames e' f \<noteq> None)"

text \<open>All that is new in the heap is for later.\<close>

definition future :: "'u engine \<Rightarrow> 'u engine \<Rightarrow> bool" where
  "future e e' \<longleftrightarrow> (\<forall>f \<in> set (heap e'). f \<notin> set (heap e) \<longrightarrow> current_time e < fr_time (fr e' f))"

lemma same_program_refl [simp]: "same_program e e"
  by (simp add: same_program_def)

lemma extends_refl [simp]: "extends e e"
  by (auto simp: extends_def same_key_def)

lemma same_program_trans: "same_program e e1 \<Longrightarrow> same_program e1 e2 \<Longrightarrow> same_program e e2"
  by (simp add: same_program_def)

lemma extends_trans: "extends e e1 \<Longrightarrow> extends e1 e2 \<Longrightarrow> extends e e2"
  unfolding extends_def
proof (intro conjI ballI impI, goal_cases)
  case 1
  then show ?case using same_program_trans by blast
next
  case (7 f)
  then show ?case by (cases "f \<in> set (heap e1)") (auto simp: same_key_def)
qed (auto simp: same_key_def)

lemma future_trans: "extends e e1 \<Longrightarrow> extends e1 e2 \<Longrightarrow> future e e1 \<Longrightarrow> future e1 e2 \<Longrightarrow> future e e2"
  unfolding future_def extends_def same_program_def same_key_def by (metis (no_types, lifting))

lemma live_same_program: "same_program e e' \<Longrightarrow> live_event e' ev = live_event e ev"
  unfolding same_program_def live_event_def by (metis length_map nth_map)

section \<open>Scheduling\<close>

lemma map_domain_nth:
  assumes "map ev_domain es' = map ev_domain es"
  shows "length es' = length es" "ev < length es \<Longrightarrow> ev_domain (es' ! ev) = ev_domain (es ! ev)"
  using assms by (metis length_map) (metis assms length_map nth_map)

text \<open>The invariant looks at the frames, the heap and the static data only.\<close>

lemma events_ok_cong:
  assumes "map ev_domain (events e') = map ev_domain (events e)" "domains e' = domains e" "current_time e' = current_time e"
    "shortest_cycle_time e' = shortest_cycle_time e" "events_ok e"
  shows "events_ok e'"
proof -
  note d = map_domain_nth [OF assms(1)]
  have "events e' \<noteq> []" using assms(5) d(1) by (auto simp: events_ok_def)
  moreover have "ev_domain (events e' ! null_event) = None"
    using assms(5) d(2) [of null_event] by (simp add: events_ok_def null_event_def)
  ultimately show ?thesis using assms d by (simp add: events_ok_def)
qed

lemma engine_ok_cong:
  assumes "frames e' = frames e" "heap e' = heap e" "next_address e' = next_address e" "sequence_counter e' = sequence_counter e"
    "map ev_domain (events e') = map ev_domain (events e)" "domains e' = domains e" "current_frame e' = current_frame e"
    "current_time e' = current_time e" "shortest_cycle_time e' = shortest_cycle_time e" "engine_ok e"
  shows "engine_ok e'"
proof -
  have live: "live_event e' ev = live_event e ev" for ev
    using map_domain_nth [OF assms(5)] by (auto simp: live_event_def)
  have "frame_ok e' f a = frame_ok e f a" for f a
    using assms by (simp add: frame_ok_def live)
  moreover have "events_ok e'" using assms by (intro events_ok_cong [of e' e]) (simp_all add: engine_ok_def)
  ultimately show ?thesis using assms by (simp add: engine_ok_def)
qed

lemma warn_fields [simp]:
  "frames (warn e) = frames e" "heap (warn e) = heap e" "next_address (warn e) = next_address e"
  "sequence_counter (warn e) = sequence_counter e" "events (warn e) = events e" "domains (warn e) = domains e"
  "current_frame (warn e) = current_frame e" "current_time (warn e) = current_time e" "debug (warn e) = debug e"
  "shortest_cycle_time (warn e) = shortest_cycle_time e" "locked (warn e) = locked e" "queues (warn e) = queues e"
  "end_frames (warn e) = end_frames e" "user (warn e) = user e"
  by (simp_all add: warn_def)

lemma add_in_flight_fields [simp]:
  "frames (add_in_flight n ev e) = frames e" "heap (add_in_flight n ev e) = heap e" "next_address (add_in_flight n ev e) = next_address e"
  "sequence_counter (add_in_flight n ev e) = sequence_counter e" "domains (add_in_flight n ev e) = domains e"
  "current_frame (add_in_flight n ev e) = current_frame e" "current_time (add_in_flight n ev e) = current_time e"
  "debug (add_in_flight n ev e) = debug e" "shortest_cycle_time (add_in_flight n ev e) = shortest_cycle_time e"
  "locked (add_in_flight n ev e) = locked e" "queues (add_in_flight n ev e) = queues e"
  "end_frames (add_in_flight n ev e) = end_frames e" "user (add_in_flight n ev e) = user e"
  "length (events (add_in_flight n ev e)) = length (events e)"
  by (simp_all add: add_in_flight_def)

lemma add_in_flight_domains [simp]: "map ev_domain (events (add_in_flight n ev e)) = map ev_domain (events e)"
  by (cases "ev < length (events e)")
    (simp_all add: add_in_flight_def map_update list_update_same_conv list_update_beyond)

lemma add_in_flight_count:
  "ev < length (events e) \<Longrightarrow> ev_in_flight (events (add_in_flight n ev e) ! v) =
   ev_in_flight (events e ! v) + (if v = ev then n else 0)"
  by (simp add: add_in_flight_def nth_list_update)

text \<open>The time of an event that is scheduled \<open>after\<close> cycles from now, in a domain with cycle time \<open>ct\<close>.\<close>

definition due_time :: "int \<Rightarrow> int \<Rightarrow> int \<Rightarrow> int" where
  "due_time now ct after = now div ct * ct + ct * after"

lemma due_time_bounds:
  assumes "0 < ct" "0 \<le> now"
  shows "now - ct < due_time now ct 0" "due_time now ct 0 \<le> now" "1 \<le> after \<Longrightarrow> now < due_time now ct after"
    "0 \<le> after \<Longrightarrow> due_time now ct 0 \<le> due_time now ct after"
proof -
  have m: "now = now div ct * ct + now mod ct" by simp
  have b: "0 \<le> now mod ct" "now mod ct < ct" using assms by simp_all
  show "now - ct < due_time now ct 0" "due_time now ct 0 \<le> now" unfolding due_time_def using m b by linarith+
  show "due_time now ct 0 \<le> due_time now ct after" if "0 \<le> after" using that assms by (simp add: due_time_def)
  assume "1 \<le> after"
  then have "ct * 1 \<le> ct * after" using assms by (intro mult_left_mono) simp_all
  then show "now < due_time now ct after" unfolding due_time_def using m b by linarith
qed

definition entered :: "frame \<Rightarrow> nat \<Rightarrow> int \<Rightarrow> int \<Rightarrow> int \<Rightarrow> frame" where
  "entered a ev time period seq =
     a\<lparr>fr_time := time, fr_event := Some ev, fr_period := period, fr_sequence := seq, fr_in_heap := True\<rparr>"

lemma enter_heap_ok:
  fixes after :: int
  assumes ok: "engine_ok e" and live: "live_event e ev" and f: "frames e f = Some a"
    and a: "\<not> fr_in_heap a" "\<not> fr_in_queue a" and ct: "0 < ct" "0 \<le> after"
  defines "time \<equiv> due_time (current_time e) ct after"
  shows "\<exists>e'. enter_heap ev f ct after period e = Inr e' \<and> engine_ok e' \<and> (in_flight_ok e \<longrightarrow> in_flight_ok e') \<and> extends e e' \<and>
    frames e' = (frames e)(f \<mapsto> entered a ev time period (sequence_counter e + 1)) \<and> set (heap e') = insert f (set (heap e)) \<and>
    sequence_counter e' = sequence_counter e + 1 \<and> debug e' = debug e @ [Scheduled ev time] \<and> user e' = user e \<and>
    queues e' = queues e \<and> next_address e' = next_address e \<and> end_frames e' = end_frames e"
proof -
  let ?a = "entered a ev time period (sequence_counter e + 1)"
  let ?raw = "a\<lparr>fr_time := time, fr_event := Some ev, fr_period := period, fr_sequence := sequence_counter e + 1\<rparr>"
  let ?half = "(frames e)(f \<mapsto> ?raw)"
  let ?mem = "(frames e)(f \<mapsto> ?a)"
  let ?hp = "heap_emplace ?half f (heap e)"
  let ?base = "e\<lparr>frames := ?mem, heap := ?hp, sequence_counter := sequence_counter e + 1, debug := debug e @ [Scheduled ev time]\<rparr>"
  let ?e = "warn (add_in_flight 1 ev ?base)"
  note okD = engine_okD [OF ok]
  have now: "0 \<le> current_time e" using okD(5) by (simp add: events_ok_def)
  have "0 \<le> current_time e div ct" "0 \<le> ct * after" using now ct by (simp_all add: pos_imp_zdiv_nonneg_iff)
  then have t0: "0 \<le> time" using ct by (simp add: time_def due_time_def)
  have t: "c_div (current_time e) ct * ct + ct * after = time"
    using now ct by (simp add: time_def due_time_def c_div_nonneg)
  have fn: "f \<notin> set (heap e)" using okD(3) [OF f] a(1) by (simp add: frame_ok_def)
  have r: "enter_heap ev f ct after period e = Inr ?e"
    by (simp add: enter_heap_def Let_def t f entered_def)
  have seqs: "\<forall>g \<in> set (heap e). fr_sequence (fr e g) \<le> sequence_counter e" using scheduled_frame [OF ok] by force
  have ex: "\<exists>b. frames e g = Some b" if "g \<in> set (heap e)" for g using scheduled_frame [OF ok that] by blast
  have "heap_sorted ?half (heap e)"
    by (rule heap_sorted_cong [OF okD(1)]) (use fn ex in \<open>force\<close>)
  then have "heap_sorted ?half ?hp"
    by (rule heap_emplace_sorted [where a = ?raw]) (use seqs fn in \<open>auto\<close>)
  then have sorted: "heap_sorted ?mem ?hp"
    by (rule heap_sorted_cong) (use ex in \<open>force simp: entered_def\<close>)
  have fok: "frame_ok ?base g b" if "?mem g = Some b" for g b
  proof (cases "g = f")
    case True
    then have b: "b = ?a" using that by simp
    have p: "fr_parent b = fr_parent a" "fr_in_heap b" "\<not> fr_in_queue b" "fr_sequence b = sequence_counter e + 1" "fr_event b = Some ev"
      "0 \<le> fr_time b"
      using a(2) t0 by (simp_all add: b entered_def)
    show ?thesis using okD(3) [OF f] p True live by (auto simp: frame_ok_def live_event_def)
  next
    case False
    then have "frame_ok e g b" using that okD(3) by simp
    then show ?thesis using False by (auto simp: frame_ok_def live_event_def)
  qed
  have "events_ok ?base" by (rule events_ok_cong [of _ e]) (use okD(5) in simp_all)
  then have "engine_ok ?base"
    using sorted distinct_heap_emplace [OF okD(2) fn, of ?half] fok okD(4) by (simp add: engine_ok_def)
  then have ok': "engine_ok ?e" by (rule engine_ok_cong [rotated 9]) simp_all
  have fl: "in_flight_ok ?e" if fo: "in_flight_ok e"
    unfolding in_flight_ok_def
  proof (intro allI impI)
    fix v assume v: "v < length (events ?e)"
    have evl: "ev < length (events e)" using live by (simp add: live_event_def)
    have len: "length (filter P (heap_emplace m f hs)) = length (filter P hs) + (if P f then 1 else 0)" for P m hs
      by (induction hs) auto
    have "filter (\<lambda>g. fr_event (the (?mem g)) = Some v) (heap e) = filter (\<lambda>g. fr_event (fr e g) = Some v) (heap e)"
      using fn by (intro filter_cong) auto
    then have "in_flight ?e v = in_flight e v + (if v = ev then 1 else 0)"
      by (simp add: in_flight_def len entered_def eq_commute)
    moreover have "ev_in_flight (events ?e ! v) = ev_in_flight (events e ! v) + (if v = ev then 1 else 0)"
      using add_in_flight_count [of ev ?base 1 v] evl by simp
    ultimately show "ev_in_flight (events ?e ! v) = int (in_flight ?e v)" using fo v by (simp add: in_flight_ok_def)
  qed
  have ext: "extends e ?e"
    unfolding extends_def same_program_def same_key_def using fn by (auto simp: entered_def)
  show ?thesis using r ok' fl ext by (intro exI [of _ ?e]) simp
qed

text \<open>What an operation that a handler may call does: \<open>t\<close> is whether all it schedules is for later.\<close>

definition handler_step :: "bool \<Rightarrow> 'u engine \<Rightarrow> 'u engine \<Rightarrow> bool" where
  "handler_step t e e' \<longleftrightarrow> engine_ok e' \<and> (in_flight_ok e \<longrightarrow> in_flight_ok e') \<and> extends e e' \<and> (t \<longrightarrow> future e e')"

lemma handler_step_refl: "engine_ok e \<Longrightarrow> handler_step t e e"
  by (simp add: handler_step_def future_def)

lemma handler_step_trans: "handler_step t e e1 \<Longrightarrow> handler_step t e1 e2 \<Longrightarrow> handler_step t e e2"
  unfolding handler_step_def using extends_trans future_trans by blast

text \<open>Fields that the invariant does not look at.\<close>

lemma handler_step_cong:
  assumes "engine_ok e" "frames e' = frames e" "heap e' = heap e" "next_address e' = next_address e" "sequence_counter e' = sequence_counter e"
    "events e' = events e" "domains e' = domains e" "current_frame e' = current_frame e" "current_time e' = current_time e"
    "shortest_cycle_time e' = shortest_cycle_time e" "locked e' = locked e" "debug e' = debug e @ l" "triggered l = []"
  shows "handler_step t e e'"
proof -
  have "engine_ok e'" by (rule engine_ok_cong [of e' e]) (use assms in simp_all)
  moreover have "in_flight_ok e' = in_flight_ok e" using assms by (simp add: in_flight_ok_def in_flight_def)
  moreover have "extends e e'" using assms by (auto simp: extends_def same_program_def same_key_def)
  ultimately show ?thesis using assms by (simp add: handler_step_def future_def)
qed

text \<open>Rewriting a frame, but for its key and its flag.\<close>

lemma handler_step_frame:
  assumes ok: "engine_ok e" and f: "frames e f = Some a"
    and b: "fr_time b = fr_time a" "fr_sequence b = fr_sequence a" "fr_event b = fr_event a" "fr_in_heap b = fr_in_heap a"
      "fr_in_heap a \<longrightarrow> \<not> fr_in_queue b" "\<forall>g. fr_parent b = Some g \<longrightarrow> frames e g \<noteq> None"
  shows "handler_step t e (e\<lparr>frames := (frames e)(f \<mapsto> b)\<rparr>)"
proof -
  let ?e = "e\<lparr>frames := (frames e)(f \<mapsto> b)\<rparr>"
  note okD = engine_okD [OF ok]
  have "heap_sorted (frames ?e) (heap ?e)"
    by (rule heap_sorted_cong [where mem = "frames e"]) (use okD(1) f b in \<open>auto simp: heap_sorted_def\<close>)
  moreover have "frame_ok ?e g c" if g: "frames ?e g = Some c" for g c
  proof (cases "g = f")
    case True
    then have "c = b" using g by simp
    then show ?thesis using okD(3) [OF f] b True by (auto simp: frame_ok_def live_event_def)
  next
    case False
    then have "frame_ok e g c" using g okD(3) by simp
    then show ?thesis by (auto simp: frame_ok_def live_event_def)
  qed
  moreover have "events_ok ?e" by (rule events_ok_cong [of _ e]) (use okD(5) in simp_all)
  ultimately have "engine_ok ?e" using okD(2,4) by (simp add: engine_ok_def)
  moreover have "filter (\<lambda>g. fr_event (fr ?e g) = Some v) (heap e) = filter (\<lambda>g. fr_event (fr e g) = Some v) (heap e)" for v
    using f b(3) by (intro filter_cong) auto
  then have "in_flight_ok ?e = in_flight_ok e" by (simp add: in_flight_ok_def in_flight_def)
  moreover have "extends e ?e" using f b by (auto simp: extends_def same_program_def same_key_def)
  ultimately show ?thesis by (simp add: handler_step_def future_def)
qed

text \<open>A new frame.\<close>

lemma handler_step_alloc:
  assumes ok: "engine_ok e" and n: "alloc_frame e = (e', f)"
  shows "handler_step t e e'" "frames e f = None" "frames e' = (frames e)(f \<mapsto> new_frame)" "heap e' = heap e" "current_frame e' = current_frame e"
    "events e' = events e" "current_time e' = current_time e" "locked e' = locked e" "domains e' = domains e" "f < next_address e'"
proof -
  have f: "f = next_address e" and e': "e' = e\<lparr>frames := (frames e)(f \<mapsto> new_frame), next_address := f + 1\<rparr>"
    using n by (auto simp: alloc_frame_def)
  note okD = engine_okD [OF ok]
  show none: "frames e f = None"
  proof (rule ccontr)
    assume "frames e f \<noteq> None"
    then obtain a where "frames e f = Some a" by blast
    then have "f < next_address e" using okD(3) by (simp add: frame_ok_def)
    then show False using f by simp
  qed
  then have fn: "f \<notin> set (heap e)" using okD(1) by (auto simp: heap_sorted_def)
  have s: "heap_sorted (frames e') (heap e')"
    unfolding e' by (rule heap_sorted_cong [where mem = "frames e"]) (use okD(1) fn in \<open>auto simp: heap_sorted_def\<close>)
  have "frame_ok e' g c" if g: "frames e' g = Some c" for g c
  proof (cases "g = f")
    case True
    then have "c = new_frame" using g by (simp add: e')
    then show ?thesis using True fn by (simp add: frame_ok_def new_frame_def e')
  next
    case False
    then have "frame_ok e g c" using g okD(3) by (simp add: e')
    then show ?thesis by (auto simp: frame_ok_def live_event_def e' f)
  qed
  moreover have "events_ok e'" by (rule events_ok_cong [of _ e]) (use okD(5) in \<open>simp_all add: e'\<close>)
  ultimately have "engine_ok e'" using s okD(2,4) by (auto simp: engine_ok_def e')
  moreover have "filter (\<lambda>g. fr_event (fr e' g) = Some v) (heap e) = filter (\<lambda>g. fr_event (fr e g) = Some v) (heap e)" for v
    using fn by (intro filter_cong) (auto simp: e')
  then have "in_flight_ok e' = in_flight_ok e" by (simp add: in_flight_ok_def in_flight_def e')
  moreover have "extends e e'" using fn by (auto simp: extends_def same_program_def same_key_def e')
  ultimately show "handler_step t e e'" by (simp add: handler_step_def future_def e')
  show "frames e' = (frames e)(f \<mapsto> new_frame)" "heap e' = heap e" "current_frame e' = current_frame e"
    "events e' = events e" "current_time e' = current_time e" "locked e' = locked e" "domains e' = domains e" "f < next_address e'"
    by (simp_all add: e')
qed

lemma Schedule_step:
  assumes ok: "engine_ok e" and s: "Schedule event frame after period e = Inr e'"
  shows "handler_step (1 \<le> after) e e'" "\<forall>g. frame \<noteq> Some g \<longrightarrow> frames e' g = frames e g"
    "\<forall>f a. frame = Some f \<and> frames e f = Some a \<longrightarrow> (\<exists>b. frames e' f = Some b \<and> fr_in_queue b = fr_in_queue a \<and>
       fr_parent b = fr_parent a \<and> fr_return b = fr_return a \<and> (fr_period b = fr_period a \<or> fr_period b = period) \<and>
       (b \<noteq> a \<longrightarrow> fr_period b = period))"
    "queues e' = queues e"
proof -
  obtain f a where fa: "frame = Some f" "frames e f = Some a" "0 \<le> after" "\<not> fr_in_queue a" "\<not> fr_in_heap a"
    using s by (auto simp: Schedule_def node_at_def split: if_splits option.splits)
  have "handler_step (1 \<le> after) e e' \<and> (\<forall>g. frame \<noteq> Some g \<longrightarrow> frames e' g = frames e g) \<and> queues e' = queues e \<and>
    (\<exists>b. frames e' f = Some b \<and> fr_in_queue b = fr_in_queue a \<and> fr_parent b = fr_parent a \<and> fr_return b = fr_return a \<and>
      (fr_period b = fr_period a \<or> fr_period b = period) \<and> (b \<noteq> a \<longrightarrow> fr_period b = period))"
  proof (cases "locked e \<or> event = NULL \<or> event = Some null_event")
    case True
    have "Schedule event frame after period e = Inr (if locked e then e else e\<lparr>debug := debug e @ [Discarded]\<rparr>)"
      using True fa by (cases "locked e") (auto simp: Schedule_def)
    then have "e' = e \<or> e' = e\<lparr>debug := debug e @ [Discarded]\<rparr>" using s by (simp split: if_splits)
    moreover have "handler_step t e (e\<lparr>debug := debug e @ [Discarded]\<rparr>)" for t
      by (rule handler_step_cong [OF ok, where l = "[Discarded]"]) simp_all
    ultimately show ?thesis using handler_step_refl [OF ok] fa(2) by auto
  next
    case False
    then obtain ev where ev: "event = Some ev" by auto
    obtain d where d: "ev < length (events e)" "ev_domain (events e ! ev) = Some d" "d < length (domains e)"
        "enter_heap ev f (dom_cycle_time (domains e ! d)) after period e = Inr e'"
    proof -
      have S: "andthen (event_at e ev) (\<lambda>evt. case ev_domain evt of None \<Rightarrow> Inl Panic | Some d \<Rightarrow>
          andthen (domain_at e d) (\<lambda>dom. if dom_cycle_time dom = 0 then Inl Div_zero
            else enter_heap ev f (dom_cycle_time dom) after period e)) = Inr e'"
        using s fa False ev by (simp add: Schedule_def cong: option.case_cong if_cong)
      have l: "ev < length (events e)" using S by (cases "ev < length (events e)") (simp_all add: event_at_def)
      then obtain d where d: "ev_domain (events e ! ev) = Some d"
        using S by (cases "ev_domain (events e ! ev)") (simp_all add: event_at_def)
      have ld: "d < length (domains e)" using S l d by (cases "d < length (domains e)") (simp_all add: event_at_def domain_at_def)
      have "enter_heap ev f (dom_cycle_time (domains e ! d)) after period e = Inr e'"
        using S l d ld ev by (simp add: event_at_def domain_at_def split: if_splits)
      then show thesis using that l d ld by blast
    qed
    let ?ct = "dom_cycle_time (domains e ! d)"
    have live: "live_event e ev" using d by (simp add: live_event_def)
    have ct: "0 < ?ct" and now: "0 \<le> current_time e" using engine_okD(5) [OF ok] d(1,2) by (auto simp: events_ok_def)
    let ?a = "entered a ev (due_time (current_time e) ?ct after) period (sequence_counter e + 1)"
    have e': "engine_ok e'" "in_flight_ok e \<longrightarrow> in_flight_ok e'" "extends e e'" "frames e' = (frames e)(f \<mapsto> ?a)"
        "set (heap e') = insert f (set (heap e))" "queues e' = queues e"
      using enter_heap_ok [OF ok live fa(2,5,4) ct fa(3), of period] d(4) by auto
    have "future e e'" if "1 \<le> after"
      using that due_time_bounds(3) [OF ct now, of after] e'(4,5) by (auto simp: future_def entered_def)
    then have "handler_step (1 \<le> after) e e'" using e' by (simp add: handler_step_def)
    then show ?thesis using e'(4,6) fa(1) by (simp add: entered_def)
  qed
  then show "handler_step (1 \<le> after) e e'" "\<forall>g. frame \<noteq> Some g \<longrightarrow> frames e' g = frames e g" "queues e' = queues e"
    "\<forall>f a. frame = Some f \<and> frames e f = Some a \<longrightarrow> (\<exists>b. frames e' f = Some b \<and> fr_in_queue b = fr_in_queue a \<and>
       fr_parent b = fr_parent a \<and> fr_return b = fr_return a \<and> (fr_period b = fr_period a \<or> fr_period b = period) \<and>
       (b \<noteq> a \<longrightarrow> fr_period b = period))"
    using fa by auto
qed

text \<open>When \<open>Schedule\<close> succeeds.\<close>

lemma Schedule_runs:
  assumes ok: "engine_ok e" and f: "frames e f = Some a" "\<not> fr_in_queue a" "\<not> fr_in_heap a" and live: "live_event e ev" and t: "0 \<le> after"
  shows "\<exists>e'. Schedule (Some ev) (Some f) after period e = Inr e'"
proof -
  obtain d where d: "event_at e ev = Inr (events e ! ev)" "ev_domain (events e ! ev) = Some d" "domain_at e d = Inr (domains e ! d)"
      "0 < dom_cycle_time (domains e ! d)"
    using live_domain [OF engine_okD(5) [OF ok] live] by blast
  obtain e' where "enter_heap ev f (dom_cycle_time (domains e ! d)) after period e = Inr e'"
    using enter_heap_ok [OF ok live f(1,3,2) d(4) t] by blast
  then show ?thesis using f t d by (auto simp: Schedule_def)
qed

section \<open>The operations of handlers\<close>

lemma Next_step:
  assumes ok: "engine_ok e" and n: "Next event after period e = Inr e'"
  shows "handler_step (1 \<le> after) e e'"
proof (cases "current_frame e")
  case None
  obtain e1 f where a: "alloc_frame e = (e1, f)" by fastforce
  note al = handler_step_alloc [OF ok a]
  have "engine_ok e1" using al(1) by (simp add: handler_step_def)
  moreover have "Schedule event (Some f) after period e1 = Inr e'" using n None a by (simp add: Next_def)
  ultimately have "handler_step (1 \<le> after) e1 e'" by (rule Schedule_step(1))
  then show ?thesis using handler_step_trans al(1) by blast
next
  case (Some f)
  then show ?thesis using Schedule_step(1) [OF ok] n by (simp add: Next_def)
qed

lemma Call_step:
  assumes ok: "engine_ok e" and c: "Call event frame return_event after period e = Inr e'"
  shows "handler_step (1 \<le> after) e e'"
proof -
  obtain e1 f where a: "(case frame of Some f \<Rightarrow> (e, f) | None \<Rightarrow> alloc_frame e) = (e1, f)" by fastforce
  have s1: "handler_step t e e1 \<and> current_frame e1 = current_frame e" for t
  proof (cases frame)
    case None
    then show ?thesis using handler_step_alloc(1,5) [OF ok] a by simp
  next
    case (Some g)
    then show ?thesis using handler_step_refl [OF ok] a by simp
  qed
  obtain b where b: "frames e1 f = Some b" and s: "Schedule event (Some f) after period
      (e1\<lparr>frames := (frames e1)(f \<mapsto> b\<lparr>fr_return := return_event, fr_parent := current_frame e1\<rparr>)\<rparr>) = Inr e'"
    using c a by (cases "frames e1 f") (auto simp: Call_def node_put_def node_at_def)
  have ok1: "engine_ok e1" using s1 [of True] by (simp add: handler_step_def)
  have s2: "handler_step t e1 (e1\<lparr>frames := (frames e1)(f \<mapsto> b\<lparr>fr_return := return_event, fr_parent := current_frame e1\<rparr>)\<rparr>)" for t
    using engine_okD(3) [OF ok1 b] engine_okD(4) [OF ok1]
    by (intro handler_step_frame [OF ok1 b]) (auto simp: frame_ok_def)
  then have ok2: "engine_ok (e1\<lparr>frames := (frames e1)(f \<mapsto> b\<lparr>fr_return := return_event, fr_parent := current_frame e1\<rparr>)\<rparr>)"
    unfolding handler_step_def by blast
  show ?thesis using Schedule_step(1) [OF ok2 s] s1 s2 handler_step_trans by blast
qed

lemma Return_step:
  assumes ok: "engine_ok e" and r: "Return after e = Inr e'"
  shows "handler_step (1 \<le> after) e e'"
proof -
  obtain f where f: "current_frame e = Some f" using r by (auto simp: Return_def split: option.splits)
  obtain a where a: "frames e f = Some a" using engine_okD(4) [OF ok f] by blast
  show ?thesis
  proof (cases "fr_return a = NULL")
    case True
    then show ?thesis using r f a handler_step_refl [OF ok] by (simp add: Return_def)
  next
    case False
    then show ?thesis using r f a Schedule_step(1) [OF ok] by (auto simp: Return_def)
  qed
qed

lemma EndEvent_step:
  assumes ok: "engine_ok e"
  shows "handler_step t e (EndEvent event e)"
proof (cases "event = NULL \<or> event = Some null_event")
  case True
  then show ?thesis using handler_step_refl [OF ok] by (auto simp: EndEvent_def)
next
  case False
  obtain e1 f where a: "alloc_frame e = (e1, f)" by fastforce
  note al = handler_step_alloc [OF ok a]
  let ?b = "new_frame\<lparr>fr_event := event\<rparr>"
  have ok1: "engine_ok e1" using al(1) by (simp add: handler_step_def)
  have f: "frames e1 f = Some new_frame" using al(3) by simp
  let ?e2 = "e1\<lparr>frames := (frames e1)(f \<mapsto> ?b)\<rparr>"
  have fn: "f \<notin> set (heap e1)" using engine_okD(3) [OF ok1 f] by (simp add: frame_ok_def new_frame_def)
  have ok2: "engine_ok ?e2"
    unfolding engine_ok_def
  proof (intro conjI allI impI)
    show "heap_sorted (frames ?e2) (heap ?e2)"
      by (rule heap_sorted_cong [where mem = "frames e1"]) (use engine_okD(1) [OF ok1] fn in \<open>auto simp: heap_sorted_def\<close>)
    show "events_ok ?e2" by (rule events_ok_cong [of _ e1]) (use engine_okD(5) [OF ok1] in simp_all)
    show "frame_ok ?e2 g c" if g: "frames ?e2 g = Some c" for g c
    proof (cases "g = f")
      case True
      then have "c = ?b" using g by simp
      then show ?thesis using engine_okD(3) [OF ok1 f] True by (simp add: frame_ok_def new_frame_def)
    next
      case False
      then have "frame_ok e1 g c" using g engine_okD(3) [OF ok1] by simp
      then show ?thesis by (auto simp: frame_ok_def live_event_def)
    qed
  qed (use engine_okD(2,4) [OF ok1] in auto)
  have "filter (\<lambda>g. fr_event (fr ?e2 g) = Some v) (heap e1) = filter (\<lambda>g. fr_event (fr e1 g) = Some v) (heap e1)" for v
    using fn by (intro filter_cong) auto
  then have "in_flight_ok ?e2 = in_flight_ok e1" by (simp add: in_flight_ok_def in_flight_def)
  moreover have "extends e1 ?e2" using fn by (auto simp: extends_def same_program_def same_key_def)
  ultimately have "handler_step t e1 ?e2" using ok2 by (simp add: handler_step_def future_def)
  moreover have "handler_step t ?e2 (EndEvent event e)"
    using False a by (intro handler_step_cong [OF ok2, where l = "[]"]) (auto simp: EndEvent_def)
  ultimately show ?thesis using handler_step_trans al(1) by blast
qed

text \<open>The queues.\<close>

lemma queue_put_step:
  assumes ok: "engine_ok e" and f: "frames e f = Some a"
    and b: "fr_time b = fr_time a" "fr_sequence b = fr_sequence a" "fr_event b = fr_event a" "fr_in_heap b = fr_in_heap a"
      "fr_in_heap a \<longrightarrow> \<not> fr_in_queue b" "fr_parent b = fr_parent a"
  shows "handler_step t e (put_frames ((frames e)(f \<mapsto> b)) e)"
  using handler_step_frame [OF ok f, of b] engine_okD(3) [OF ok f] b by (simp add: put_frames_def frame_ok_def)

lemma put_queue_step: "engine_ok e \<Longrightarrow> handler_step t e (put_queue q h tt e)"
  by (rule handler_step_cong [where l = "[]"]) (simp_all add: put_queue_def)

lemma put_frames_fields [simp]:
  "frames (put_frames mem e) = mem" "queues (put_frames mem e) = queues e" "put_frames mem (put_frames mem' e) = put_frames mem e"
  "put_frames mem (put_queue q h tt e) = put_queue q h tt (put_frames mem e)" "frames (put_queue q h tt e) = frames e"
  "current_frame (put_frames mem e) = current_frame e" "queues (put_queue q h tt e) = (queues e)(q := \<lparr>q_head = h, q_tail = tt\<rparr>)"
  by (simp_all add: put_frames_def put_queue_def)

lemma queue_push_step:
  assumes ok: "engine_ok e" and f: "frames e f = Some a" "\<not> fr_in_heap a"
    and p: "queue_PushBack q f e = Inr e' \<or> queue_PushFront q f e = Inr e'"
  shows "handler_step t e e'"
proof -
  let ?a = "a\<lparr>fr_in_queue := True\<rparr>"
  let ?mem = "(frames e)(f \<mapsto> ?a)"
  have m: "mark_queued f e = Inr ?mem"
    using p f by (auto simp: queue_PushBack_def queue_PushFront_def mark_queued_def split: if_splits)
  have s1: "handler_step t e (put_frames ?mem e)" by (rule queue_put_step [OF ok f(1)]) (use f(2) in simp_all)
  then have ok1: "engine_ok (put_frames ?mem e)" by (simp add: handler_step_def)
  have "\<exists>g b h t n. e' = put_queue q h t (put_frames (?mem(g \<mapsto> b\<lparr>fr_next := n\<rparr>)) e) \<and> ?mem g = Some b"
  proof (cases "q_head (queues e q) = NULL \<and> q_tail (queues e q) = NULL")
    case True
    then have "e' = put_queue q (Some f) (Some f) (put_frames ?mem e)"
      using p m by (simp add: queue_PushBack_def queue_PushFront_def Let_def)
    moreover have "?mem = ?mem(f \<mapsto> ?a\<lparr>fr_next := fr_next ?a\<rparr>)" by simp
    ultimately show ?thesis by (metis fun_upd_same)
  next
    case False
    then obtain h t where ht: "q_head (queues e q) = Some h" "q_tail (queues e q) = Some t"
      using p m by (auto simp: queue_PushBack_def queue_PushFront_def Let_def split: if_splits)
    then obtain b where b: "?mem t = Some b"
      using p m by (cases "?mem t") (auto simp: queue_PushBack_def queue_PushFront_def Let_def node_at_def)
    have "e' = put_queue q (Some h) (Some f) (put_frames (?mem(t \<mapsto> b\<lparr>fr_next := Some f\<rparr>)) e) \<or>
        e' = put_queue q (Some f) (Some t) (put_frames (?mem(f \<mapsto> ?a\<lparr>fr_next := Some h\<rparr>)) e)"
      using p
    proof
      assume "queue_PushBack q f e = Inr e'"
      then show ?thesis using m ht b by (simp add: queue_PushBack_def Let_def node_at_def node_put_def split: if_splits)
    next
      assume "queue_PushFront q f e = Inr e'"
      then show ?thesis using m ht b by (simp add: queue_PushFront_def Let_def node_at_def node_put_def split: if_splits)
    qed
    then show ?thesis using b by (metis fun_upd_same)
  qed
  then obtain g b h tt n where g: "e' = put_queue q h tt (put_frames (?mem(g \<mapsto> b\<lparr>fr_next := n\<rparr>)) e)" "?mem g = Some b" by blast
  have fo: "frame_ok (put_frames ?mem e) g b" using engine_okD(3) [OF ok1, of g b] g(2) by simp
  have "handler_step t (put_frames ?mem e) (put_frames (?mem(g \<mapsto> b\<lparr>fr_next := n\<rparr>)) (put_frames ?mem e))"
    using queue_put_step [OF ok1, of g b "b\<lparr>fr_next := n\<rparr>"] g(2) fo by (simp add: frame_ok_def)
  then have s2: "handler_step t (put_frames ?mem e) (put_frames (?mem(g \<mapsto> b\<lparr>fr_next := n\<rparr>)) e)" by simp
  then have "engine_ok (put_frames (?mem(g \<mapsto> b\<lparr>fr_next := n\<rparr>)) e)" by (simp add: handler_step_def)
  then have "handler_step t (put_frames (?mem(g \<mapsto> b\<lparr>fr_next := n\<rparr>)) e) e'" unfolding g(1) by (rule put_queue_step)
  then show ?thesis using s1 s2 handler_step_trans by blast
qed

lemma queue_PopFront_step:
  assumes ok: "engine_ok e" and p: "queue_PopFront q e = Inr (e', r)"
  shows "handler_step t e e'" "\<forall>f. r = Some f \<longrightarrow> frames e' f \<noteq> None"
proof -
  have "handler_step t e e' \<and> (\<forall>f. r = Some f \<longrightarrow> frames e' f \<noteq> None)"
  proof (cases "q_head (queues e q)")
    case None
    then show ?thesis using p handler_step_refl [OF ok] by (auto simp: queue_PopFront_def Let_def split: if_splits)
  next
    case (Some f)
    then obtain a where a: "frames e f = Some a" using p by (cases "frames e f") (auto simp: queue_PopFront_def Let_def node_at_def)
    let ?e1 = "put_frames ((frames e)(f \<mapsto> a\<lparr>fr_next := NULL, fr_in_queue := False\<rparr>)) e"
    have s1: "handler_step t e ?e1" by (rule queue_put_step [OF ok a]) simp_all
    then have ok1: "engine_ok ?e1" by (simp add: handler_step_def)
    have "e' = put_queue q NULL NULL ?e1 \<or> e' = put_queue q (fr_next a) (q_tail (queues e q)) ?e1" "r = Some f"
      using p Some a by (auto simp: queue_PopFront_def Let_def split: if_splits)
    then have "handler_step t ?e1 e'" "frames e' = frames ?e1" using put_queue_step [OF ok1] by auto
    then show ?thesis using s1 handler_step_trans \<open>r = Some f\<close> by auto
  qed
  then show "handler_step t e e'" "\<forall>f. r = Some f \<longrightarrow> frames e' f \<noteq> None" by auto
qed

lemma queue_Wait_step:
  assumes ok: "engine_ok e" and w: "queue_Wait q event priority e = Inr e'"
  shows "handler_step t e e'"
proof -
  obtain f a where f: "current_frame e = Some f" "frames e f = Some a" "\<not> fr_in_heap a"
    using w engine_okD(4) [OF ok] by (fastforce simp: queue_Wait_def split: option.splits if_splits)
  let ?a = "a\<lparr>fr_wakeup := event\<rparr>"
  let ?e1 = "put_frames ((frames e)(f \<mapsto> ?a)) e"
  have s1: "handler_step t e ?e1" by (rule queue_put_step [OF ok f(2)]) (use f(3) in simp_all)
  then have ok1: "engine_ok ?e1" by (simp add: handler_step_def)
  have "queue_PushBack q f ?e1 = Inr e' \<or> queue_PushFront q f ?e1 = Inr e'"
    using w f by (auto simp: queue_Wait_def Let_def split: if_splits)
  then have "handler_step t ?e1 e'" using queue_push_step [OF ok1, of f ?a] f(3) by simp
  then show ?thesis using s1 handler_step_trans by blast
qed

lemma queue_WakeupOne_step:
  assumes ok: "engine_ok e" and w: "queue_WakeupOne q e = Inr e'"
  shows "handler_step False e e'"
proof -
  obtain e1 r where p: "queue_PopFront q e = Inr (e1, r)"
    using w by (cases "queue_PopFront q e") (auto simp: queue_WakeupOne_def split: if_splits)
  note s1 = queue_PopFront_step [OF ok p]
  obtain f a where f: "r = Some f" "frames e1 f = Some a"
    using w p s1(2) by (cases r) (auto simp: queue_WakeupOne_def node_at_def split: if_splits)
  let ?e2 = "put_frames ((frames e1)(f \<mapsto> a\<lparr>fr_wakeup := NULL\<rparr>)) e1"
  have ok1: "engine_ok e1" using s1(1) by (simp add: handler_step_def)
  have "frame_ok e1 f a" using engine_okD(3) [OF ok1 f(2)] .
  then have s2: "handler_step False e1 ?e2" by (intro queue_put_step [OF ok1 f(2)]) (simp_all add: frame_ok_def)
  then have ok2: "engine_ok ?e2" by (simp add: handler_step_def)
  have "Schedule (fr_wakeup a) (Some f) 0 0 ?e2 = Inr e'"
    using w p f by (auto simp: queue_WakeupOne_def node_put_def node_at_def Let_def split: if_splits)
  then have "handler_step False ?e2 e'" using Schedule_step(1) [OF ok2] by force
  then show ?thesis using s1(1) s2 handler_step_trans by blast
qed

lemma queue_WakeupAll_step:
  assumes "queue_WakeupAll q e = Some (Inr e')" "engine_ok e"
  shows "handler_step False e e'"
proof (rule queue_WakeupAll.raw_induct [where P = "\<lambda>q e r. \<forall>e'. r = Inr e' \<longrightarrow> engine_ok e \<longrightarrow> handler_step False e e'",
    OF _ assms(1), rule_format, OF _ refl assms(2)])
  fix loop :: "nat \<Rightarrow> 'a engine \<Rightarrow> 'a engine run option" and q and e :: "'a engine" and r e'
  assume IH: "\<And>q e r e'. loop q e = Some r \<Longrightarrow> r = Inr e' \<Longrightarrow> engine_ok e \<Longrightarrow> handler_step False e e'"
    and b: "(if q_head (queues e q) = NULL then ret e else bindr (Some (queue_WakeupOne q e)) (loop q)) = Some r"
    and r: "r = Inr e'" and ok: "engine_ok e"
  show "handler_step False e e'"
  proof (cases "q_head (queues e q) = NULL")
    case True
    then show ?thesis using b r handler_step_refl [OF ok] by simp
  next
    case False
    then obtain e1 where w: "queue_WakeupOne q e = Inr e1" "loop q e1 = Some (Inr e')"
      using b r by (auto simp: bindr_def split: sum.splits)
    have "handler_step False e e1" using queue_WakeupOne_step [OF ok w(1)] .
    then show ?thesis using IH [OF w(2) refl] handler_step_trans by (auto simp: handler_step_def)
  qed
qed

end
