(* ===== verification/EngineRuns.thy ===== *)
theory EngineRuns
  imports EngineInvariant
begin

text \<open>
  What the loops of the engine do with the events, for the handlers that keep to a contract. A handler is sound
  if whatever it does keeps the frames that are scheduled, and prompt if it returns and all it schedules is for
  later. The contracts are locales; the handlers that are scripts of engine operations satisfy them.
\<close>

section \<open>Taking the first frame\<close>

definition started :: "'u engine \<Rightarrow> nat \<Rightarrow> nat \<Rightarrow> 'u engine" where
  "started e f ev = e\<lparr>current_frame := Some f, heap := tl (heap e), frames := (frames e)(f \<mapsto> (fr e f)\<lparr>fr_in_heap := False\<rparr>)\<rparr>"

lemma started_fields [simp]:
  "heap (started e f ev) = tl (heap e)" "current_frame (started e f ev) = Some f" "events (started e f ev) = events e"
  "domains (started e f ev) = domains e" "current_time (started e f ev) = current_time e" "debug (started e f ev) = debug e"
  "shortest_cycle_time (started e f ev) = shortest_cycle_time e" "locked (started e f ev) = locked e"
  "sequence_counter (started e f ev) = sequence_counter e" "next_address (started e f ev) = next_address e"
  "frames (started e f ev) = (frames e)(f \<mapsto> (fr e f)\<lparr>fr_in_heap := False\<rparr>)"
  by (simp_all add: started_def)

lemma take_top_ok:
  assumes ok: "engine_ok e" and n: "current_frame e = NULL" and h: "heap e = f # fs"
  obtains a ev where "frames e f = Some a" "fr_event a = Some ev" "live_event e ev" "\<not> fr_in_queue a" "0 \<le> fr_time a"
    "take_top f e = Inr (started e f ev, ev)"
    "engine_ok (started e f ev)" "in_flight_ok e \<Longrightarrow> in_flight_ok (add_in_flight (- 1) ev (started e f ev))"
proof -
  obtain a ev where a: "frames e f = Some a" "fr_in_heap a" "\<not> fr_in_queue a" "0 \<le> fr_time a" "fr_event a = Some ev" "live_event e ev"
    using scheduled_frame [OF ok, of f] h by auto
  obtain d where d: "event_at e ev = Inr (events e ! ev)" "ev_domain (events e ! ev) = Some d" "domain_at e d = Inr (domains e ! d)"
    using live_domain [OF engine_okD(5) [OF ok] a(6)] by blast
  let ?s = "started e f ev"
  have "event_at ?s ev = Inr (events e ! ev)" "domain_at ?s d = Inr (domains e ! d)"
    using d by (simp_all add: event_at_def domain_at_def split: if_splits)
  then have t: "take_top f e = Inr (?s, ev)"
    using n a d(2) by (simp add: take_top_def started_def Let_def)
  have fs: "f \<notin> set fs" "distinct fs" using engine_okD(2) [OF ok] h by auto
  have "heap_sorted (frames e) fs" using engine_okD(1) [OF ok] h by (simp add: heap_sorted_def)
  then have "heap_sorted (frames ?s) fs"
    by (rule heap_sorted_cong) (use fs scheduled_frame [OF ok] h in \<open>force\<close>)
  moreover have "frame_ok ?s g b" if g: "frames ?s g = Some b" for g b
  proof (cases "g = f")
    case True
    then have b: "b = a\<lparr>fr_in_heap := False\<rparr>" using g a(1) by simp
    have fo: "frame_ok e f a" using engine_okD(3) [OF ok a(1)] .
    show ?thesis unfolding frame_ok_def
      using b fo h fs True a(1) by (auto simp: frame_ok_def)
  next
    case False
    then have "frame_ok e g b" using g engine_okD(3) [OF ok] by simp
    then show ?thesis using False h by (auto simp: frame_ok_def live_event_def)
  qed
  moreover have "events_ok ?s" by (rule events_ok_cong [of _ e]) (use engine_okD(5) [OF ok] in simp_all)
  ultimately have ok': "engine_ok ?s" using fs h by (simp add: engine_ok_def)
  have "in_flight_ok (add_in_flight (- 1) ev ?s)" if fo: "in_flight_ok e"
    unfolding in_flight_ok_def
  proof (intro allI impI)
    fix v assume v: "v < length (events (add_in_flight (- 1) ev ?s))"
    have c: "ev_in_flight (events (add_in_flight (- 1) ev ?s) ! v) = ev_in_flight (events e ! v) + (if v = ev then - 1 else 0)"
      using a(6) by (subst add_in_flight_count) (simp_all add: live_event_def)
    have "filter (\<lambda>g. fr_event (fr ?s g) = Some v) fs = filter (\<lambda>g. fr_event (fr e g) = Some v) fs"
      using fs by (intro filter_cong) auto
    then have "int (in_flight e v) = int (in_flight ?s v) + (if v = ev then 1 else 0)"
      using h a by (auto simp: in_flight_def)
    moreover have "in_flight (add_in_flight (- 1) ev ?s) v = in_flight ?s v" by (simp add: in_flight_def)
    ultimately show "ev_in_flight (events (add_in_flight (- 1) ev ?s) ! v) = int (in_flight (add_in_flight (- 1) ev ?s) v)"
      using fo v c by (simp add: in_flight_ok_def)
  qed
  then show thesis using that a t ok' by blast
qed

section \<open>Handlers\<close>

text \<open>\<open>sound t h\<close>: whatever the handler does is a step of the invariant; with \<open>t\<close>, all it schedules is for later.\<close>

definition sound :: "bool \<Rightarrow> 'u handler \<Rightarrow> bool" where
  "sound t h \<longleftrightarrow> (\<forall>ev f e e'. engine_ok e \<longrightarrow> current_frame e = Some f \<longrightarrow> h ev f e = Inr e' \<longrightarrow> handler_step t e e')"

text \<open>\<open>returns h\<close>: the handler returns, and does not schedule or queue itself when its event repeats.\<close>

definition may_repeat :: "'u engine \<Rightarrow> nat \<Rightarrow> bool" where
  "may_repeat e f \<longleftrightarrow> (0 < fr_period (fr e f) \<longrightarrow> \<not> fr_in_heap (fr e f) \<and> \<not> fr_in_queue (fr e f))"

definition returns :: "'u handler \<Rightarrow> bool" where
  "returns h \<longleftrightarrow> (\<forall>ev f e. engine_ok e \<longrightarrow> current_frame e = Some f \<longrightarrow> \<not> fr_in_heap (fr e f) \<longrightarrow> \<not> fr_in_queue (fr e f) \<longrightarrow>
     live_event e ev \<longrightarrow> (\<exists>e'. h ev f e = Inr e' \<and> may_repeat e' f))"

lemma soundD: "sound t h \<Longrightarrow> engine_ok e \<Longrightarrow> current_frame e = Some f \<Longrightarrow> h ev f e = Inr e' \<Longrightarrow> handler_step t e e'"
  by (auto simp: sound_def)

text \<open>What running the first frame of the heap does.\<close>

definition ran :: "bool \<Rightarrow> nat \<Rightarrow> 'u engine \<Rightarrow> 'u engine \<Rightarrow> bool" where
  "ran t ev e e' \<longleftrightarrow> engine_ok e' \<and> (in_flight_ok e \<longrightarrow> in_flight_ok e') \<and> same_program e e' \<and> current_frame e' = NULL \<and>
     (\<exists>l. debug e' = debug e @ l \<and> triggered l = [ev]) \<and> sequence_counter e \<le> sequence_counter e' \<and>
     (\<forall>g \<in> set (tl (heap e)). g \<in> set (heap e') \<and> same_key e e' g) \<and>
     (\<forall>g \<in> set (heap e'). g \<notin> set (tl (heap e)) \<longrightarrow>
        sequence_counter e < fr_sequence (fr e' g) \<and> (t \<longrightarrow> current_time e < fr_time (fr e' g)))"

definition triggering :: "'u engine \<Rightarrow> nat \<Rightarrow> nat \<Rightarrow> 'u engine" where
  "triggering e f ev = add_in_flight (- 1) ev ((started e f ev)\<lparr>debug := debug e @ [Triggered ev]\<rparr>)"

lemma triggering_ok:
  assumes "engine_ok (started e f ev)" "in_flight_ok e \<Longrightarrow> in_flight_ok (add_in_flight (- 1) ev (started e f ev))"
  shows "engine_ok (triggering e f ev)" "in_flight_ok e \<Longrightarrow> in_flight_ok (triggering e f ev)"
proof -
  show "engine_ok (triggering e f ev)"
    by (rule engine_ok_cong [rotated 9, OF assms(1)]) (simp_all add: triggering_def)
  show "in_flight_ok (triggering e f ev)" if "in_flight_ok e"
    using assms(2) [OF that] by (simp add: triggering_def in_flight_ok_def in_flight_def add_in_flight_def)
qed

lemma ran_trigger:
  assumes ok: "engine_ok e" and h: "heap e = f # fs" and s: "handler_step t (triggering e f ev) e3"
    and i: "in_flight_ok e \<Longrightarrow> in_flight_ok (triggering e f ev)"
  shows "ran t ev e (e3\<lparr>current_frame := NULL\<rparr>)"
proof -
  let ?e = "e3\<lparr>current_frame := NULL\<rparr>"
  have f: "f \<notin> set fs" using engine_okD(2) [OF ok] h by simp
  have x: "extends (triggering e f ev) e3" and o3: "engine_ok e3" using s by (simp_all add: handler_step_def)
  have heap: "heap (triggering e f ev) = fs" "sequence_counter (triggering e f ev) = sequence_counter e"
    "current_time (triggering e f ev) = current_time e" "debug (triggering e f ev) = debug e @ [Triggered ev]"
    "frames (triggering e f ev) = (frames e)(f \<mapsto> (fr e f)\<lparr>fr_in_heap := False\<rparr>)"
    using h by (simp_all add: triggering_def)
  have "frame_ok ?e g a" if "frames e3 g = Some a" for g a
    using engine_okD(3) [OF o3 that] by (simp add: frame_ok_def live_event_def)
  moreover have "events_ok ?e" by (rule events_ok_cong [of _ e3]) (use engine_okD(5) [OF o3] in simp_all)
  ultimately have o: "engine_ok ?e" using engine_okD(1,2) [OF o3] by (simp add: engine_ok_def)
  have i3: "in_flight_ok e \<longrightarrow> in_flight_ok ?e"
    using i s by (auto simp: handler_step_def in_flight_ok_def in_flight_def)
  have p: "same_program e ?e"
    using x by (auto simp: extends_def same_program_def triggering_def)
  obtain l where l: "debug e3 = debug e @ Triggered ev # l" "triggered l = []"
    using x heap(4) by (auto simp: extends_def)
  have seq: "sequence_counter e \<le> sequence_counter e3" using x heap(2) by (simp add: extends_def)
  have keep: "g \<in> set (heap e3) \<and> same_key e ?e g" if "g \<in> set fs" for g
  proof -
    have "g \<in> set (heap e3)" "same_key (triggering e f ev) e3 g" using x that heap(1) by (auto simp: extends_def)
    moreover have "g \<noteq> f" using f that by auto
    ultimately show ?thesis using heap(5) by (simp add: same_key_def)
  qed
  have new: "sequence_counter e < fr_sequence (fr e3 g) \<and> (t \<longrightarrow> current_time e < fr_time (fr e3 g))"
    if "g \<in> set (heap e3)" "g \<notin> set fs" for g
    using x s that heap by (auto simp: extends_def handler_step_def future_def)
  show ?thesis
    unfolding ran_def using o i3 p l seq keep new h by (auto intro!: exI [of _ "Triggered ev # l"])
qed

lemma process_one_ran:
  assumes ok: "engine_ok e" and n: "current_frame e = NULL" and h: "heap e = f # fs" and snd: "sound t h'"
    and p: "process_one h' f e = Inr e'"
  shows "ran t (the (fr_event (fr e f))) e e'"
proof -
  obtain a ev where a: "frames e f = Some a" "fr_event a = Some ev" "take_top f e = Inr (started e f ev, ev)"
      "engine_ok (started e f ev)" "in_flight_ok e \<Longrightarrow> in_flight_ok (add_in_flight (- 1) ev (started e f ev))"
    using take_top_ok [OF ok n h] by metis
  note tr = triggering_ok [OF a(4,5)]
  obtain e3 where e3: "h' ev f (triggering e f ev) = Inr e3"
    using p a(3) by (cases "h' ev f (triggering e f ev)") (auto simp: process_one_def triggering_def)
  have cur: "current_frame (triggering e f ev) = Some f" by (simp add: triggering_def)
  have s3: "handler_step t (triggering e f ev) e3" using soundD [OF snd tr(1) cur e3] .
  then have o3: "engine_ok e3" and c3: "current_frame e3 = Some f" using cur by (simp_all add: handler_step_def extends_def)
  obtain b where b: "frames e3 f = Some b" using engine_okD(4) [OF o3 c3] by blast
  have P: "andthen (if 0 < fr_period b then Schedule (Some ev) (Some f) (fr_period b) (fr_period b) e3 else Inr e3)
      (\<lambda>e. Inr (e\<lparr>current_frame := NULL\<rparr>)) = Inr e'"
    using p a(3) e3 c3 b by (simp add: process_one_def triggering_def cong: if_cong)
  then obtain e4 where e4: "e' = e4\<lparr>current_frame := NULL\<rparr>"
      "(if 0 < fr_period b then Schedule (Some ev) (Some f) (fr_period b) (fr_period b) e3 else Inr e3) = Inr e4"
    by (cases "if 0 < fr_period b then Schedule (Some ev) (Some f) (fr_period b) (fr_period b) e3 else Inr e3") auto
  have "handler_step True e3 e4"
  proof (cases "0 < fr_period b")
    case True
    then have "Schedule (Some ev) (Some f) (fr_period b) (fr_period b) e3 = Inr e4" using e4(2) by simp
    then show ?thesis using Schedule_step(1) [OF o3] True by fastforce
  next
    case False
    then show ?thesis using e4(2) handler_step_refl [OF o3] by simp
  qed
  then have "handler_step t e3 e4" by (simp add: handler_step_def)
  then have "handler_step t (triggering e f ev) e4" using s3 handler_step_trans by blast
  then have "ran t ev e e'" unfolding e4(1) by (rule ran_trigger [OF ok h]) (rule tr(2))
  then show ?thesis using a by simp
qed

lemma process_one_returns:
  assumes ok: "engine_ok e" and n: "current_frame e = NULL" and h: "heap e = f # fs" and snd: "sound t h'" and r: "returns h'"
  shows "\<exists>e'. process_one h' f e = Inr e'"
proof -
  obtain a ev where a: "frames e f = Some a" "fr_event a = Some ev" "live_event e ev" "\<not> fr_in_queue a" "take_top f e = Inr (started e f ev, ev)"
      "engine_ok (started e f ev)" "in_flight_ok e \<Longrightarrow> in_flight_ok (add_in_flight (- 1) ev (started e f ev))"
    using take_top_ok [OF ok n h] by metis
  note tr = triggering_ok [OF a(6,7)]
  have cur: "current_frame (triggering e f ev) = Some f" by (simp add: triggering_def)
  have lv: "live_event (triggering e f ev) ev"
  proof -
    have "same_program e (triggering e f ev)" by (simp add: triggering_def same_program_def)
    then show ?thesis using live_same_program a(3) by blast
  qed
  have rd: "\<not> fr_in_heap (fr (triggering e f ev) f)" "\<not> fr_in_queue (fr (triggering e f ev) f)"
    using a(1,4) by (simp_all add: triggering_def)
  obtain e3 where e3: "h' ev f (triggering e f ev) = Inr e3" "may_repeat e3 f"
    using r [unfolded returns_def, rule_format, OF tr(1) cur rd lv] by blast
  have s3: "handler_step t (triggering e f ev) e3" using soundD [OF snd tr(1) cur e3(1)] .
  then have o3: "engine_ok e3" and c3: "current_frame e3 = Some f" using cur by (simp_all add: handler_step_def extends_def)
  obtain b where b: "frames e3 f = Some b" using engine_okD(4) [OF o3 c3] by blast
  have "same_program (triggering e f ev) e3" using s3 by (simp add: handler_step_def extends_def)
  then have lv3: "live_event e3 ev" using lv live_same_program by blast
  have "\<exists>e4. (if 0 < fr_period b then Schedule (Some ev) (Some f) (fr_period b) (fr_period b) e3 else Inr e3) = Inr e4"
    using Schedule_runs [OF o3 b _ _ lv3, of "fr_period b" "fr_period b"] e3(2) b by (auto simp: may_repeat_def)
  then show ?thesis using a(5) e3(1) c3 b by (auto simp: process_one_def triggering_def)
qed

section \<open>One cycle\<close>

text \<open>The frames whose time has come, in the order of the heap.\<close>

definition due :: "'u engine \<Rightarrow> nat list" where
  "due e = filter (\<lambda>f. fr_time (fr e f) \<le> current_time e) (heap e)"

definition due_events :: "'u engine \<Rightarrow> nat list" where
  "due_events e = map (\<lambda>f. the (fr_event (fr e f))) (due e)"

lemma sorted_wrt_unique:
  assumes "\<And>x y. R x y \<Longrightarrow> \<not> R y x"
  shows "sorted_wrt R xs \<Longrightarrow> sorted_wrt R ys \<Longrightarrow> set xs = set ys \<Longrightarrow> xs = ys"
proof (induction xs arbitrary: ys)
  case Nil
  then show ?case by simp
next
  case (Cons x xs)
  obtain y zs where y: "ys = y # zs" using Cons.prems(3) by (cases ys) auto
  have "x = y"
  proof (rule ccontr)
    assume "x \<noteq> y"
    then have "x \<in> set zs" "y \<in> set xs" using Cons.prems(3) y by auto
    then have "R y x" "R x y" using Cons.prems(1,2) y by auto
    then show False using assms by blast
  qed
  moreover have "x \<notin> set xs" "y \<notin> set zs" using Cons.prems(1,2) y assms by fastforce+
  ultimately have "set xs = set zs" using Cons.prems(3) y by auto
  then show ?case using Cons.IH [of zs] Cons.prems(1,2) y \<open>x = y\<close> by simp
qed

lemma due_first:
  assumes ok: "engine_ok e" and h: "heap e = f # fs"
  shows "current_time e < fr_time (fr e f) \<Longrightarrow> due e = []"
    "fr_time (fr e f) \<le> current_time e \<Longrightarrow> due e = f # filter (\<lambda>f. fr_time (fr e f) \<le> current_time e) fs"
proof -
  show "due e = []" if l: "current_time e < fr_time (fr e f)"
  proof -
    have "fr_time (fr e f) \<le> fr_time (fr e g)" if g: "g \<in> set fs" for g
    proof -
      have "later (frames e) g f" using engine_okD(1) [OF ok] h g by (simp add: heap_sorted_def)
      then show ?thesis by (auto simp: later_def split: option.splits)
    qed
    then show ?thesis using l h by (fastforce simp: due_def filter_empty_conv)
  qed
  show "fr_time (fr e f) \<le> current_time e \<Longrightarrow> due e = f # filter (\<lambda>f. fr_time (fr e f) \<le> current_time e) fs"
    using h by (simp add: due_def)
qed

lemma due_after:
  assumes ok: "engine_ok e" and r: "ran True ev e e1" and h: "heap e = f # fs"
  shows "due e1 = filter (\<lambda>f. fr_time (fr e f) \<le> current_time e) fs"
    "\<And>g. g \<in> set fs \<Longrightarrow> g \<in> set (heap e1) \<and> same_key e e1 g"
proof -
  show keep: "\<And>g. g \<in> set fs \<Longrightarrow> g \<in> set (heap e1) \<and> same_key e e1 g" using r h by (simp add: ran_def)
  have now: "current_time e1 = current_time e" and o1: "engine_ok e1" using r by (simp_all add: ran_def same_program_def)
  let ?R = "\<lambda>f g. later (frames e1) g f"
  have "sorted_wrt (\<lambda>f g. later (frames e) g f) fs" using engine_okD(1) [OF ok] h by (simp add: heap_sorted_def)
  then have "sorted_wrt ?R fs"
  proof (rule sorted_wrt_mono_rel [rotated])
    fix x y
    assume xy: "x \<in> set fs" "y \<in> set fs" "later (frames e) y x"
    have "frames e x \<noteq> None" "frames e y \<noteq> None" "frames e1 x \<noteq> None" "frames e1 y \<noteq> None"
      using engine_okD(1) [OF ok] engine_okD(1) [OF o1] keep [OF xy(1)] keep [OF xy(2)] xy h by (auto simp: heap_sorted_def)
    then show "later (frames e1) y x"
      using keep [OF xy(1)] keep [OF xy(2)] xy(3) by (auto simp: same_key_def)
  qed
  then have s1: "sorted_wrt ?R (filter (\<lambda>f. fr_time (fr e f) \<le> current_time e) fs)" by (rule sorted_wrt_filter)
  have s2: "sorted_wrt ?R (due e1)"
    using engine_okD(1) [OF o1] by (simp add: due_def heap_sorted_def sorted_wrt_filter)
  have "set (due e1) = set (filter (\<lambda>f. fr_time (fr e f) \<le> current_time e) fs)"
  proof (intro set_eqI iffI)
    fix g assume "g \<in> set (due e1)"
    then have g: "g \<in> set (heap e1)" "fr_time (fr e1 g) \<le> current_time e" using now by (auto simp: due_def)
    have "g \<in> set fs" using r g h by (auto simp: ran_def)
    then show "g \<in> set (filter (\<lambda>f. fr_time (fr e f) \<le> current_time e) fs)" using g keep by (auto simp: same_key_def)
  next
    fix g assume "g \<in> set (filter (\<lambda>f. fr_time (fr e f) \<le> current_time e) fs)"
    then show "g \<in> set (due e1)" using keep [of g] now by (auto simp: due_def same_key_def)
  qed
  then show "due e1 = filter (\<lambda>f. fr_time (fr e f) \<le> current_time e) fs"
    by (rule sorted_wrt_unique [where R = ?R, OF _ s2 s1, rotated]) (auto simp: later_def split: option.splits)
qed

text \<open>The loop runs the frames that are due, in their order, and leaves the others in the heap.\<close>

definition cycled :: "'u engine \<Rightarrow> 'u engine \<Rightarrow> bool" where
  "cycled e e' \<longleftrightarrow> engine_ok e' \<and> (in_flight_ok e \<longrightarrow> in_flight_ok e') \<and> same_program e e' \<and> current_frame e' = NULL \<and>
     (\<exists>l. debug e' = debug e @ l \<and> triggered l = due_events e) \<and> due e' = [] \<and>
     (\<forall>g \<in> set (heap e). current_time e < fr_time (fr e g) \<longrightarrow> g \<in> set (heap e') \<and> same_key e e' g)"

lemma process_loop_cycle:
  assumes "engine_ok e" "current_frame e = NULL" "sound True h" "returns h"
  shows "\<exists>e'. process_loop h e = Some (Inr e') \<and> cycled e e'"
  using assms(1,2)
proof (induction "length (due e)" arbitrary: e)
  case (0 e)
  have "process_loop h e = ret e"
  proof (cases "heap e")
    case Nil
    then show ?thesis by (subst process_loop.simps) simp
  next
    case (Cons f fs)
    then have "current_time e < fr_time (fr e f)" using 0 due_first(2) [OF _ Cons] by force
    moreover obtain a where "frames e f = Some a" using scheduled_frame [of e f] 0 Cons by auto
    ultimately show ?thesis using Cons by (subst process_loop.simps) simp
  qed
  moreover have "cycled e e" using 0 by (auto simp: cycled_def same_key_def due_events_def intro!: exI [of _ "[]"])
  ultimately show ?case by blast
next
  case (Suc n e)
  note ok = Suc.prems(1) and cur = Suc.prems(2)
  obtain f fs where h: "heap e = f # fs" using Suc(2) by (cases "heap e") (auto simp: due_def)
  obtain a where a: "frames e f = Some a" using scheduled_frame [OF ok, of f] h by auto
  have now: "fr_time (fr e f) \<le> current_time e" using due_first(1) [OF ok h] Suc(2) by force
  note due = due_first(2) [OF ok h now]
  obtain e1 where e1: "process_one h f e = Inr e1" using process_one_returns [OF ok cur h assms(3,4)] by blast
  let ?ev = "the (fr_event (fr e f))"
  have r: "ran True ?ev e e1" by (rule process_one_ran [OF ok cur h assms(3) e1])
  note da = due_after [OF ok r h]
  have "n = length (due e1)" using Suc(2) due da(1) by simp
  moreover have o1: "engine_ok e1" "current_frame e1 = NULL" using r by (simp_all add: ran_def)
  ultimately obtain e' where e': "process_loop h e1 = Some (Inr e')" "cycled e1 e'" using Suc(1) by blast
  have "process_loop h e = Some (Inr e')"
    using h a now e1 e' by (subst process_loop.simps) simp
  moreover have "cycled e e'"
  proof -
    obtain k where k: "debug e1 = debug e @ k" "triggered k = [?ev]" using r by (auto simp: ran_def)
    obtain l where l: "debug e' = debug e1 @ l" "triggered l = due_events e1" using e'(2) by (auto simp: cycled_def)
    have "due_events e = ?ev # due_events e1"
      using da(2) unfolding due_events_def da(1) due by (auto simp: same_key_def)
    then have t: "debug e' = debug e @ (k @ l) \<and> triggered (k @ l) = due_events e" using k l by simp
    have keep: "g \<in> set (heap e') \<and> same_key e e' g" if g: "g \<in> set (heap e)" "current_time e < fr_time (fr e g)" for g
    proof -
      have "g \<in> set fs" using g h now by auto
      then have k1: "g \<in> set (heap e1)" "same_key e e1 g" using da(2) by blast+
      moreover have "current_time e1 < fr_time (fr e1 g)" using k1 g(2) r by (simp add: ran_def same_program_def same_key_def)
      ultimately have "g \<in> set (heap e')" "same_key e1 e' g" using e'(2) by (auto simp: cycled_def)
      then show ?thesis using k1 by (simp add: same_key_def)
    qed
    show ?thesis
      unfolding cycled_def using e'(2) r t keep same_program_trans by (auto simp: cycled_def ran_def)
  qed
  ultimately show ?case by blast
qed

text \<open>A call of \<open>ProcessEvents\<close> runs what is due, then time goes on by the cycle of the fastest domain.\<close>

definition advanced :: "'u engine \<Rightarrow> 'u engine \<Rightarrow> bool" where
  "advanced e e' \<longleftrightarrow> engine_ok e' \<and> (in_flight_ok e \<longrightarrow> in_flight_ok e') \<and> current_frame e' = NULL \<and>
     current_time e' = current_time e + shortest_cycle_time e \<and> shortest_cycle_time e' = shortest_cycle_time e \<and>
     (\<exists>l. debug e' = debug e @ l \<and> triggered l = due_events e) \<and>
     (\<forall>g \<in> set (heap e). current_time e < fr_time (fr e g) \<longrightarrow> g \<in> set (heap e') \<and> same_key e e' g)"

lemma ProcessEvents_advances:
  assumes ok: "engine_ok e" and cur: "current_frame e = NULL" and h: "sound True h" "returns h"
  shows "\<exists>e'. ProcessEvents h e = Some (Inr e') \<and> advanced e e'"
proof -
  let ?e = "if signal_received e = SIGINT then Finish ''Signal'' e else e"
  have fields: "frames ?e = frames e" "heap ?e = heap e" "next_address ?e = next_address e" "sequence_counter ?e = sequence_counter e"
    "events ?e = events e" "domains ?e = domains e" "current_frame ?e = current_frame e" "current_time ?e = current_time e"
    "shortest_cycle_time ?e = shortest_cycle_time e" "locked ?e = locked e" "debug ?e = debug e"
    by (simp_all add: Finish_def)
  have s: "handler_step True e ?e" by (rule handler_step_cong [OF ok, where l = "[]"]) (use fields in simp_all)
  have o: "engine_ok ?e" "current_frame ?e = NULL" using s cur by (simp_all add: handler_step_def extends_def)
  obtain e1 where e1: "process_loop h ?e = Some (Inr e1)" "cycled ?e e1" using process_loop_cycle [OF o h] by blast
  let ?e2 = "e1\<lparr>current_time := current_time e1 + shortest_cycle_time e1\<rparr>"
  have p: "ProcessEvents h e = Some (Inr ?e2)" using e1(1) by (simp add: ProcessEvents_def)
  have o1: "engine_ok e1" using e1(2) by (simp add: cycled_def)
  have "frame_ok ?e2 g a" if "frames e1 g = Some a" for g a
    using engine_okD(3) [OF o1 that] by (simp add: frame_ok_def live_event_def)
  moreover have "events_ok ?e2" using engine_okD(5) [OF o1] by (simp add: events_ok_def)
  ultimately have o2: "engine_ok ?e2" using engine_okD(1,2,4) [OF o1] by (simp add: engine_ok_def)
  have same: "due_events ?e = due_events e" using fields by (simp add: due_events_def due_def)
  have "in_flight_ok e \<longrightarrow> in_flight_ok ?e2" using e1(2) s by (auto simp: cycled_def handler_step_def in_flight_ok_def in_flight_def)
  then have "advanced e ?e2"
    using e1(2) o2 same fields unfolding cycled_def advanced_def same_program_def same_key_def by auto
  then show ?thesis using p by blast
qed

primrec process_cycles :: "nat \<Rightarrow> 'u handler \<Rightarrow> 'u engine \<Rightarrow> 'u engine run option" where
  "process_cycles 0 h e = ret e"
| "process_cycles (Suc n) h e = bindr (ProcessEvents h e) (process_cycles n h)"

lemma process_cycles_advance:
  assumes "sound True h" "returns h"
  shows "engine_ok e \<Longrightarrow> current_frame e = NULL \<Longrightarrow>
    \<exists>e'. process_cycles n h e = Some (Inr e') \<and> engine_ok e' \<and> current_frame e' = NULL \<and> (in_flight_ok e \<longrightarrow> in_flight_ok e') \<and>
      current_time e' = current_time e + int n * shortest_cycle_time e \<and> (\<exists>l. debug e' = debug e @ l)"
proof (induction n arbitrary: e)
  case 0
  then show ?case by simp
next
  case (Suc n)
  obtain e1 where e1: "ProcessEvents h e = Some (Inr e1)" "advanced e e1"
    using ProcessEvents_advances [OF Suc.prems assms] by blast
  then have "engine_ok e1" "current_frame e1 = NULL" by (simp_all add: advanced_def)
  then obtain e' where "process_cycles n h e1 = Some (Inr e')" "engine_ok e'" "current_frame e' = NULL"
      "in_flight_ok e1 \<longrightarrow> in_flight_ok e'"
      "current_time e' = current_time e1 + int n * shortest_cycle_time e1" "\<exists>l. debug e' = debug e1 @ l"
    using Suc.IH [of e1] by blast
  then show ?case using e1 by (auto simp: advanced_def algebra_simps)
qed

text \<open>A scheduled event runs as soon as the time has gone by.\<close>

lemma scheduled_runs:
  assumes "sound True h" "returns h"
  shows "engine_ok e \<Longrightarrow> current_frame e = NULL \<Longrightarrow> f \<in> set (heap e) \<Longrightarrow>
    fr_time (fr e f) \<le> current_time e + int n * shortest_cycle_time e \<Longrightarrow>
    \<exists>e' l. process_cycles (Suc n) h e = Some (Inr e') \<and> debug e' = debug e @ l \<and> the (fr_event (fr e f)) \<in> set (triggered l)"
proof (induction n arbitrary: e)
  case 0
  obtain e1 where e1: "ProcessEvents h e = Some (Inr e1)" "advanced e e1"
    using ProcessEvents_advances [OF 0(1,2) assms] by blast
  have "the (fr_event (fr e f)) \<in> set (due_events e)" using 0 by (auto simp: due_events_def due_def)
  then show ?case using e1 by (auto simp: advanced_def)
next
  case (Suc n)
  obtain e1 where e1: "ProcessEvents h e = Some (Inr e1)" "advanced e e1"
    using ProcessEvents_advances [OF Suc.prems(1,2) assms] by blast
  then have o1: "engine_ok e1" "current_frame e1 = NULL" by (simp_all add: advanced_def)
  obtain k where k: "debug e1 = debug e @ k" "triggered k = due_events e" using e1(2) by (auto simp: advanced_def)
  show ?case
  proof (cases "fr_time (fr e f) \<le> current_time e")
    case True
    then have "the (fr_event (fr e f)) \<in> set (due_events e)" using Suc.prems(3) by (auto simp: due_events_def due_def)
    moreover obtain e' l where "process_cycles (Suc n) h e1 = Some (Inr e')" "debug e' = debug e1 @ l"
      using process_cycles_advance [OF assms o1] by blast
    ultimately show ?thesis using e1 k by (intro exI [of _ e'] exI [of _ "k @ l"]) auto
  next
    case False
    then have "f \<in> set (heap e1)" "same_key e e1 f" using e1(2) Suc.prems(3) by (auto simp: advanced_def)
    moreover have "fr_time (fr e1 f) \<le> current_time e1 + int n * shortest_cycle_time e1"
      using Suc.prems(4) e1(2) calculation(2) by (simp add: advanced_def same_key_def algebra_simps)
    ultimately obtain e' l where e': "process_cycles (Suc n) h e1 = Some (Inr e')" "debug e' = debug e1 @ l"
        "the (fr_event (fr e1 f)) \<in> set (triggered l)"
      using Suc.IH [OF o1] by blast
    then show ?thesis using e1(1) k \<open>same_key e e1 f\<close> by (intro exI [of _ e'] exI [of _ "k @ l"]) (auto simp: same_key_def)
  qed
qed

section \<open>Draining\<close>

lemma engine_ok_retime:
  assumes "engine_ok e" "0 \<le> t"
  shows "engine_ok (e\<lparr>current_time := t, debug := l\<rparr>)"
proof -
  have "frame_ok (e\<lparr>current_time := t, debug := l\<rparr>) g a" if "frames e g = Some a" for g a
    using engine_okD(3) [OF assms(1) that] by (simp add: frame_ok_def live_event_def)
  moreover have "events_ok (e\<lparr>current_time := t, debug := l\<rparr>)" using engine_okD(5) [OF assms(1)] assms(2) by (simp add: events_ok_def)
  ultimately show ?thesis using engine_okD(1,2,4) [OF assms(1)] by (simp add: engine_ok_def)
qed

lemma engine_ok_no_current:
  assumes "engine_ok e"
  shows "engine_ok (e\<lparr>current_frame := NULL\<rparr>)" "in_flight_ok (e\<lparr>current_frame := NULL\<rparr>) = in_flight_ok e"
proof -
  have "frame_ok (e\<lparr>current_frame := NULL\<rparr>) g a" if "frames e g = Some a" for g a
    using engine_okD(3) [OF assms that] by (simp add: frame_ok_def live_event_def)
  moreover have "events_ok (e\<lparr>current_frame := NULL\<rparr>)" by (rule events_ok_cong [of _ e]) (use engine_okD(5) [OF assms] in simp_all)
  ultimately show "engine_ok (e\<lparr>current_frame := NULL\<rparr>)" using engine_okD(1,2) [OF assms] by (simp add: engine_ok_def)
  show "in_flight_ok (e\<lparr>current_frame := NULL\<rparr>) = in_flight_ok e" by (simp add: in_flight_ok_def in_flight_def)
qed

definition draining :: "'u engine \<Rightarrow> nat \<Rightarrow> nat \<Rightarrow> 'u engine" where
  "draining e f ev = (started e f ev)\<lparr>current_time := fr_time (fr e f), debug := debug e @ [Drained ev]\<rparr>"

lemma drain_one_step:
  assumes ok: "engine_ok e" and n: "current_frame e = NULL" and h: "heap e = f # fs"
  obtains ev where "engine_ok (draining e f ev)" "current_frame (draining e f ev) = Some f" "live_event (draining e f ev) ev"
    "\<not> fr_in_heap (fr (draining e f ev) f)" "\<not> fr_in_queue (fr (draining e f ev) f)"
    "drain_one h' f e = andthen (h' ev f (draining e f ev)) (\<lambda>e. Inr (e\<lparr>current_frame := NULL\<rparr>))"
proof -
  obtain a ev where a: "frames e f = Some a" "live_event e ev" "\<not> fr_in_queue a" "0 \<le> fr_time a" "take_top f e = Inr (started e f ev, ev)"
      "engine_ok (started e f ev)"
    using take_top_ok [OF ok n h] by metis
  have "engine_ok (draining e f ev)"
    using engine_ok_retime [OF a(6,4), of "debug e @ [Drained ev]"] a(1) by (simp add: draining_def)
  moreover have "current_frame (draining e f ev) = Some f" "\<not> fr_in_heap (fr (draining e f ev) f)" "\<not> fr_in_queue (fr (draining e f ev) f)"
    using a(1,3) by (simp_all add: draining_def)
  moreover have "live_event (draining e f ev) ev" using a(2) by (simp add: live_event_def draining_def)
  moreover have "drain_one h' f e = andthen (h' ev f (draining e f ev)) (\<lambda>e. Inr (e\<lparr>current_frame := NULL\<rparr>))"
  proof -
    have "draining e f ev = (started e f ev)\<lparr>debug := debug e @ [Drained ev], current_time := fr_time a\<rparr>"
      using a(1) by (simp add: draining_def)
    then show ?thesis using a(1,5) by (simp add: drain_one_def)
  qed
  ultimately show thesis using that by blast
qed

lemma drain_one_sound:
  assumes ok: "engine_ok e" and n: "current_frame e = NULL" and h: "heap e = f # fs" and s: "sound t h'" and d: "drain_one h' f e = Inr e'"
  shows "engine_ok e'" "current_frame e' = NULL" "\<exists>l ev. debug e' = debug e @ l \<and> triggered l = [ev]"
proof -
  obtain ev where ev: "engine_ok (draining e f ev)" "current_frame (draining e f ev) = Some f"
      "drain_one h' f e = andthen (h' ev f (draining e f ev)) (\<lambda>e. Inr (e\<lparr>current_frame := NULL\<rparr>))"
    by (rule drain_one_step [OF ok n h, of h']) blast
  obtain e1 where e1: "h' ev f (draining e f ev) = Inr e1" "e' = e1\<lparr>current_frame := NULL\<rparr>"
    using d ev(3) by (cases "h' ev f (draining e f ev)") auto
  have st: "handler_step t (draining e f ev) e1" using soundD [OF s ev(1,2) e1(1)] .
  then show "engine_ok e'" "current_frame e' = NULL"
    using engine_ok_no_current(1) [of e1] e1(2) by (simp_all add: handler_step_def)
  obtain l where "debug e1 = debug (draining e f ev) @ l" "triggered l = []" using st by (auto simp: handler_step_def extends_def)
  then show "\<exists>l ev. debug e' = debug e @ l \<and> triggered l = [ev]"
    using e1(2) by (intro exI [of _ "Drained ev # l"]) (simp add: draining_def)
qed

lemma drain_one_returns:
  assumes "engine_ok e" "current_frame e = NULL" "heap e = f # fs" "returns h'"
  shows "\<exists>e'. drain_one h' f e = Inr e'"
proof -
  obtain ev where ev: "engine_ok (draining e f ev)" "current_frame (draining e f ev) = Some f" "live_event (draining e f ev) ev"
      "\<not> fr_in_heap (fr (draining e f ev) f)" "\<not> fr_in_queue (fr (draining e f ev) f)"
      "drain_one h' f e = andthen (h' ev f (draining e f ev)) (\<lambda>e. Inr (e\<lparr>current_frame := NULL\<rparr>))"
    by (rule drain_one_step [OF assms(1-3), of h']) blast
  have "\<exists>e1. h' ev f (draining e f ev) = Inr e1 \<and> may_repeat e1 f"
    using assms(4) [unfolded returns_def, rule_format, OF ev(1,2,4,5,3)] .
  then show ?thesis using ev(6) by auto
qed

text \<open>Draining stops after \<open>m\<close> events, or before that with an empty heap.\<close>

lemma drain_loop_bounded:
  assumes h: "sound t h" "returns h"
  shows "engine_ok e \<Longrightarrow> current_frame e = NULL \<Longrightarrow> n < m \<Longrightarrow>
    \<exists>e' over l. drain_loop h m n e = Some (Inr (e', over)) \<and> engine_ok e' \<and> current_frame e' = NULL \<and> debug e' = debug e @ l \<and>
      int (length (triggered l)) \<le> m - n \<and> (if over then int (length (triggered l)) = m - n else heap e' = [])"
proof (induction "nat (m - n)" arbitrary: n e)
  case 0
  then show ?case by simp
next
  case (Suc k)
  note ok = Suc.prems(1) and cur = Suc.prems(2)
  show ?case
  proof (cases "heap e")
    case Nil
    then have "drain_loop h m n e = ret (e, False)" by (subst drain_loop.simps) simp
    then show ?thesis using ok cur Nil Suc.prems(3) by auto
  next
    case (Cons f fs)
    obtain e1 where e1: "drain_one h f e = Inr e1" using drain_one_returns [OF ok cur Cons h(2)] by blast
    note o1 = drain_one_sound [OF ok cur Cons h(1) e1]
    obtain k1 ev where k1: "debug e1 = debug e @ k1" "triggered k1 = [ev]" using o1(3) by blast
    show ?thesis
    proof (cases "n + 1 = m")
      case True
      then have "drain_loop h m n e = ret (e1, True)" using Cons e1 by (subst drain_loop.simps) simp
      then show ?thesis using o1 k1 True by (intro exI [of _ e1] exI [of _ True] exI [of _ k1]) auto
    next
      case False
      then obtain e' over l where l: "drain_loop h m (n + 1) e1 = Some (Inr (e', over))" "engine_ok e'" "current_frame e' = NULL"
          "debug e' = debug e1 @ l" "int (length (triggered l)) \<le> m - (n + 1)"
          "if over then int (length (triggered l)) = m - (n + 1) else heap e' = []"
      proof -
        have "k = nat (m - (n + 1))" "n + 1 < m" using Suc.hyps(2) Suc.prems(3) False by simp_all
        then show thesis using Suc.hyps(1) [of "n + 1" e1] o1(1,2) that by blast
      qed
      have "drain_loop h m n e = Some (Inr (e', over))" using Cons e1 False l(1) by (subst drain_loop.simps) simp
      then show ?thesis using l k1
        by (intro exI [of _ e'] exI [of _ over] exI [of _ "k1 @ l"]) (auto split: if_splits)
    qed
  qed
qed

section \<open>The contract of sound handlers\<close>

locale sound_handler =
  fixes h :: "'u handler" and t :: bool
  assumes sound: "sound t h"
begin

lemma loop_keeps:
  assumes "process_loop h e = Some (Inr e')" "engine_ok e" "current_frame e = NULL"
  shows "engine_ok e' \<and> current_frame e' = NULL \<and> (in_flight_ok e \<longrightarrow> in_flight_ok e')"
proof (rule process_loop.raw_induct [where P = "\<lambda>h' e r. \<forall>e'. h' = h \<longrightarrow> r = Inr e' \<longrightarrow> engine_ok e \<longrightarrow> current_frame e = NULL \<longrightarrow>
    engine_ok e' \<and> current_frame e' = NULL \<and> (in_flight_ok e \<longrightarrow> in_flight_ok e')",
    OF _ assms(1), rule_format, OF _ refl refl assms(2,3)], goal_cases)
  case (1 loop h' e r e')
  show ?case
  proof (cases "heap e")
    case Nil
    then show ?thesis using 1 by simp
  next
    case (Cons f fs)
    obtain a where a: "frames e f = Some a" using scheduled_frame [OF 1(5), of f] Cons by auto
    show ?thesis
    proof (cases "current_time e < fr_time a")
      case True
      then show ?thesis using 1 Cons a by simp
    next
      case False
      then obtain e1 where e1: "process_one h f e = Inr e1" "loop h e1 = Some (Inr e')"
        using 1 Cons a by (cases "process_one h f e") auto
      have "ran t (the (fr_event (fr e f))) e e1" using process_one_ran [OF 1(5,6) Cons sound e1(1)] .
      then have r1: "engine_ok e1" "current_frame e1 = NULL" "in_flight_ok e \<longrightarrow> in_flight_ok e1" by (simp_all add: ran_def)
      then show ?thesis using 1(1) [OF e1(2) refl refl r1(1,2)] by blast
    qed
  qed
qed

lemma cycle_keeps:
  assumes p: "ProcessEvents h e = Some (Inr e')" and ok: "engine_ok e" "current_frame e = NULL"
  shows "engine_ok e' \<and> current_frame e' = NULL \<and> (in_flight_ok e \<longrightarrow> in_flight_ok e')"
proof -
  let ?e = "if signal_received e = SIGINT then Finish ''Signal'' e else e"
  have "handler_step True e ?e"
    by (rule handler_step_cong [OF ok(1), where l = "[]"]) (simp_all add: Finish_def)
  then have s: "engine_ok ?e" "current_frame ?e = NULL" "in_flight_ok e \<longrightarrow> in_flight_ok ?e"
    using ok(2) by (simp_all add: handler_step_def extends_def)
  obtain e1 where e1: "process_loop h ?e = Some (Inr e1)" "e' = e1\<lparr>current_time := current_time e1 + shortest_cycle_time e1\<rparr>"
    using p by (auto simp: ProcessEvents_def bindr_def split: option.splits sum.splits)
  have k: "engine_ok e1 \<and> current_frame e1 = NULL \<and> (in_flight_ok ?e \<longrightarrow> in_flight_ok e1)" using loop_keeps [OF e1(1) s(1,2)] .
  then have "0 \<le> current_time e1 + shortest_cycle_time e1" by (auto simp: engine_ok_def events_ok_def)
  then have "engine_ok (e1\<lparr>current_time := current_time e1 + shortest_cycle_time e1, debug := debug e1\<rparr>)"
    using engine_ok_retime k by blast
  then have "engine_ok e'" using e1(2) by simp
  then show ?thesis using k s(3) e1(2) by (simp add: in_flight_ok_def in_flight_def)
qed

lemma drain_keeps:
  assumes "Drain h m e = Some (Inr (e', over))" "engine_ok e" "current_frame e = NULL"
  shows "engine_ok e' \<and> current_frame e' = NULL"
proof (rule drain_loop.raw_induct [where P = "\<lambda>h' m n e r. \<forall>e' over. h' = h \<longrightarrow> r = Inr (e', over) \<longrightarrow> engine_ok e \<longrightarrow>
    current_frame e = NULL \<longrightarrow> engine_ok e' \<and> current_frame e' = NULL",
    OF _ assms(1) [unfolded Drain_def], rule_format, OF _ refl refl assms(2,3)], goal_cases)
  case (1 loop h' m n e r e' over)
  show ?case
  proof (cases "heap e")
    case Nil
    then show ?thesis using 1 by simp
  next
    case (Cons f fs)
    then obtain e1 where e1: "drain_one h f e = Inr e1" "(if n + 1 = m then ret (e1, True) else loop h m (n + 1) e1) = Some r"
      using 1 by (cases "drain_one h f e") auto
    note o1 = drain_one_sound(1,2) [OF 1(5,6) Cons sound e1(1)]
    then show ?thesis using e1(2) 1(1) [of h m "n + 1" e1 "Inr (e', over)" e' over] 1(4) by (simp split: if_splits)
  qed
qed

lemma end_events_keep:
  assumes "ProcessEndEvents h e = Some (Inr e')" "engine_ok e" "current_frame e = NULL"
  shows "engine_ok e' \<and> current_frame e' = NULL \<and> (in_flight_ok e \<longrightarrow> in_flight_ok e')"
proof (rule ProcessEndEvents.raw_induct [where P = "\<lambda>h' e r. \<forall>e'. h' = h \<longrightarrow> r = Inr e' \<longrightarrow> engine_ok e \<longrightarrow> current_frame e = NULL \<longrightarrow>
    engine_ok e' \<and> current_frame e' = NULL \<and> (in_flight_ok e \<longrightarrow> in_flight_ok e')",
    OF _ assms(1), rule_format, OF _ refl refl assms(2,3)], goal_cases)
  case (1 loop h' e r e')
  show ?case
  proof (cases "end_frames e")
    case Nil
    then show ?thesis using 1 by simp
  next
    case (Cons f fs)
    then obtain e1 where e1: "end_one h f e = Inr e1" "loop h e1 = Some (Inr e')"
      using 1 by (cases "end_one h f e") auto
    obtain a ev where a: "frames e f = Some a" "fr_event a = Some ev"
      using e1(1) 1(6) by (cases "frames e f") (auto simp: end_one_def node_at_def split: option.splits)
    let ?s = "e\<lparr>current_frame := Some f, end_frames := fs, debug := debug e @ [End_triggered ev]\<rparr>"
    obtain e2 where e2: "h ev f ?s = Inr e2" "e1 = e2\<lparr>current_frame := NULL\<rparr>"
      using e1(1) a Cons 1(6) by (cases "h ev f ?s") (simp_all add: end_one_def)
    have "frame_ok ?s g b" if "frames e g = Some b" for g b
      using engine_okD(3) [OF 1(5) that] by (simp add: frame_ok_def live_event_def)
    moreover have "events_ok ?s" by (rule events_ok_cong [of _ e]) (use engine_okD(5) [OF 1(5)] in simp_all)
    ultimately have os: "engine_ok ?s" using engine_okD(1,2) [OF 1(5)] a(1) by (simp add: engine_ok_def)
    have "handler_step t ?s e2" using soundD [OF sound os _ e2(1)] by simp
    then have "engine_ok e2" "in_flight_ok ?s \<longrightarrow> in_flight_ok e2" by (simp_all add: handler_step_def)
    then have o1: "engine_ok e1" "current_frame e1 = NULL" "in_flight_ok e \<longrightarrow> in_flight_ok e1"
      using engine_ok_no_current [of e2] e2(2) by (simp_all add: in_flight_ok_def in_flight_def)
    then show ?thesis using 1(1) [OF e1(2) refl refl o1(1,2)] by blast
  qed
qed

lemma all_events_keep:
  assumes p: "ProcessAllEvents h e = Some (Inr e')" and ok: "engine_ok e" "current_frame e = NULL"
  shows "engine_ok e' \<and> current_frame e' = NULL"
proof -
  obtain e1 over where e1: "Drain h max_finalization_events e = Some (Inr (e1, over))"
      "(if over then ret e1 else bindr (ProcessEndEvents h e1) (\<lambda>e. bindr (Drain h max_finalization_events e) (\<lambda>(e, _). ret e))) = Some (Inr e')"
    using p by (cases "Drain h max_finalization_events e") (auto simp: ProcessAllEvents_def bindr_def split: sum.splits)
  note o1 = drain_keeps [OF e1(1) ok]
  show ?thesis
  proof (cases over)
    case True
    then show ?thesis using e1(2) o1 by simp
  next
    case False
    then obtain e2 over2 where e2: "ProcessEndEvents h e1 = Some (Inr e2)" "Drain h max_finalization_events e2 = Some (Inr (e', over2))"
      using e1(2) by (auto simp: bindr_def split: option.splits sum.splits)
    have "engine_ok e2" "current_frame e2 = NULL" using end_events_keep [OF e2(1)] o1 by simp_all
    then show ?thesis by (rule drain_keeps [OF e2(2)])
  qed
qed

end

text \<open>A prompt handler also returns, and all it schedules is for later.\<close>

locale prompt_handler =
  fixes h :: "'u handler"
  assumes prompt: "sound True h" and returns: "returns h"

sublocale prompt_handler \<subseteq> sound_handler h True
  by unfold_locales (rule prompt)

context prompt_handler
begin

lemmas cycle_advances = ProcessEvents_advances [OF _ _ prompt returns]

lemmas cycles_advance = process_cycles_advance [OF prompt returns]

lemmas runs_scheduled = scheduled_runs [OF prompt returns]

lemma drains:
  assumes "engine_ok e" "current_frame e = NULL" "0 < m"
  shows "\<exists>e' over l. Drain h m e = Some (Inr (e', over)) \<and> engine_ok e' \<and> current_frame e' = NULL \<and> debug e' = debug e @ l \<and>
    int (length (triggered l)) \<le> m \<and> (if over then int (length (triggered l)) = m else heap e' = [])"
  using drain_loop_bounded [OF prompt returns assms] unfolding Drain_def diff_0_right .

end

end
