(* ===== verification/EngineScripts.thy ===== *)
theory EngineScripts
  imports EngineRuns
begin

text \<open>
  Handlers that are scripts of engine operations, which satisfy the contracts of \<open>EngineRuns\<close>, and the properties
  of the engine: its invariant over all sequences of operations, the order in which events run, that scheduled
  events do run, that draining ends, and the panic of events that repeat themselves.
\<close>

section \<open>Scripts of operations\<close>

datatype action =
    Do_schedule "nat ptr" "nat ptr" int int
  | Do_next "nat ptr" int int
  | Do_call "nat ptr" "nat ptr" "nat ptr" int int
  | Do_return int
  | Do_end "nat ptr"
  | Do_wait nat "nat ptr" bool
  | Do_wakeup nat
  | Do_finish string

fun act :: "'u engine \<Rightarrow> action \<Rightarrow> 'u engine run" where
  "act e (Do_schedule ev f after period) = Schedule ev f after period e"
| "act e (Do_next ev after period) = Next ev after period e"
| "act e (Do_call ev f r after period) = Call ev f r after period e"
| "act e (Do_return after) = Return after e"
| "act e (Do_end ev) = Inr (EndEvent ev e)"
| "act e (Do_wait q ev priority) = queue_Wait q ev priority e"
| "act e (Do_wakeup q) = queue_WakeupOne q e"
| "act e (Do_finish reason) = Inr (Finish reason e)"

lemma weaken_step: "handler_step t e e' \<Longrightarrow> handler_step False e e'"
  by (simp add: handler_step_def)

lemma act_step:
  assumes ok: "engine_ok e" and a: "act e x = Inr e'"
  shows "handler_step False e e'"
proof (cases x)
  case (Do_schedule ev f after period)
  then show ?thesis using a Schedule_step(1) [OF ok] weaken_step by fastforce
next
  case (Do_next ev after period)
  then show ?thesis using a Next_step [OF ok] weaken_step by fastforce
next
  case (Do_call ev f r after period)
  then show ?thesis using a Call_step [OF ok] weaken_step by fastforce
next
  case (Do_return after)
  then show ?thesis using a Return_step [OF ok] weaken_step by fastforce
next
  case (Do_end ev)
  then show ?thesis using a EndEvent_step [OF ok] by auto
next
  case (Do_wait q ev priority)
  then show ?thesis using a queue_Wait_step [OF ok] by simp
next
  case (Do_wakeup q)
  then show ?thesis using a queue_WakeupOne_step [OF ok] by simp
next
  case (Do_finish reason)
  then have "e' = Finish reason e" using a by simp
  then show ?thesis by (simp add: handler_step_cong [OF ok, where l = "[]"] Finish_def)
qed

lemma run_acts_step: "run_list act xs e = Inr e' \<Longrightarrow> engine_ok e \<Longrightarrow> handler_step False e e'"
proof (induction xs arbitrary: e)
  case Nil
  then show ?case using handler_step_refl by simp
next
  case (Cons x xs)
  obtain e1 where e1: "act e x = Inr e1" "run_list act xs e1 = Inr e'" using Cons.prems(1) by (cases "act e x") simp_all
  have s: "handler_step False e e1" using act_step [OF Cons.prems(2) e1(1)] .
  then have "handler_step False e1 e'" using Cons.IH [OF e1(2)] by (simp add: handler_step_def)
  then show ?case using s handler_step_trans by blast
qed

type_synonym 'u script = "nat \<Rightarrow> 'u \<Rightarrow> action list \<times> 'u"

definition scripted :: "'u script \<Rightarrow> 'u handler" where
  "scripted s ev f e = (case s ev (user e) of (xs, u) \<Rightarrow> run_list act xs (e\<lparr>user := u\<rparr>))"

lemma set_user_step: "engine_ok e \<Longrightarrow> handler_step t e (e\<lparr>user := u\<rparr>)"
  by (rule handler_step_cong [where l = "[]"]) simp_all

lemma scripted_sound: "sound False (scripted s)"
  unfolding sound_def
proof (intro allI impI)
  fix ev f :: nat and e e' :: "'a engine"
  assume ok: "engine_ok e" and r: "scripted s ev f e = Inr e'"
  obtain xs u where s: "s ev (user e) = (xs, u)" by fastforce
  have s1: "handler_step False e (e\<lparr>user := u\<rparr>)" using set_user_step [OF ok] .
  have "run_list act xs (e\<lparr>user := u\<rparr>) = Inr e'" using r s by (simp add: scripted_def)
  then have "handler_step False (e\<lparr>user := u\<rparr>) e'" using run_acts_step s1 unfolding handler_step_def by blast
  then show "handler_step False e e'" using s1 handler_step_trans by blast
qed

interpretation script: sound_handler "scripted s" False for s
  by unfold_locales (rule scripted_sound)

section \<open>Timers\<close>

text \<open>A timer chooses the next event of its chain and the chains it starts, all with a delay.\<close>

type_synonym 'u timer = "nat \<Rightarrow> 'u \<Rightarrow> (nat \<times> nat) option \<times> (nat \<times> nat) list \<times> 'u"

definition start_chain :: "'u engine \<Rightarrow> nat \<times> nat \<Rightarrow> 'u engine run" where
  "start_chain e c = (if live_event e (fst c) then Call (Some (fst c)) NULL NULL (1 + int (snd c)) 0 e else Inr e)"

definition timed :: "'u timer \<Rightarrow> 'u handler" where
  "timed s ev f e =
     (case s ev (user e) of (nxt, cs, u) \<Rightarrow>
        andthen (run_list start_chain cs (e\<lparr>user := u\<rparr>)) (\<lambda>e.
        case nxt of
          None \<Rightarrow> Inr e
        | Some (ev', d) \<Rightarrow> if live_event e ev' then Next (Some ev') (1 + int d) 0 e else Inr e))"

lemma start_chain_runs:
  assumes ok: "engine_ok e"
  shows "\<exists>e'. start_chain e c = Inr e' \<and> handler_step True e e' \<and> (\<forall>f. frames e f \<noteq> None \<longrightarrow> frames e' f = frames e f)"
proof (cases "live_event e (fst c)")
  case False
  then show ?thesis using handler_step_refl [OF ok] by (simp add: start_chain_def)
next
  case True
  obtain e1 f where a: "alloc_frame e = (e1, f)" by fastforce
  note al = handler_step_alloc [OF ok a]
  have o1: "engine_ok e1" using al(1) by (simp add: handler_step_def)
  let ?b = "new_frame\<lparr>fr_return := NULL, fr_parent := current_frame e1\<rparr>"
  let ?e = "e1\<lparr>frames := (frames e1)(f \<mapsto> ?b)\<rparr>"
  have f1: "frames e1 f = Some new_frame" using al(3) by simp
  have s2: "handler_step True e1 ?e"
    by (rule handler_step_frame [OF o1 f1]) (use engine_okD(4) [OF o1] in \<open>simp_all add: new_frame_def\<close>)
  then have o2: "engine_ok ?e" by (simp add: handler_step_def)
  have lv: "live_event ?e (fst c)" using True al by (simp add: live_event_def)
  obtain e' where s: "Schedule (Some (fst c)) (Some f) (1 + int (snd c)) 0 ?e = Inr e'"
    using Schedule_runs [OF o2, of f ?b "fst c" "1 + int (snd c)" 0] lv by (auto simp: new_frame_def)
  then have "start_chain e c = Inr e'" using True a f1 by (simp add: start_chain_def Call_def)
  moreover have "handler_step True ?e e'" using Schedule_step(1) [OF o2 s] by simp
  then have "handler_step True e e'" using al(1) s2 handler_step_trans by blast
  moreover have "frames e' g = frames e g" if "frames e g \<noteq> None" for g
    using Schedule_step(2) [OF o2 s] al(2,3) that by (cases "g = f") auto
  ultimately show ?thesis by blast
qed

lemma start_chains_run:
  "engine_ok e \<Longrightarrow> \<exists>e'. run_list start_chain cs e = Inr e' \<and> handler_step True e e' \<and> (\<forall>f. frames e f \<noteq> None \<longrightarrow> frames e' f = frames e f)"
proof (induction cs arbitrary: e)
  case Nil
  then show ?case using handler_step_refl by simp
next
  case (Cons c cs)
  obtain e1 where e1: "start_chain e c = Inr e1" "handler_step True e e1" "\<forall>f. frames e f \<noteq> None \<longrightarrow> frames e1 f = frames e f"
    using start_chain_runs [OF Cons.prems] by blast
  obtain e2 where "run_list start_chain cs e1 = Inr e2" "handler_step True e1 e2" "\<forall>f. frames e1 f \<noteq> None \<longrightarrow> frames e2 f = frames e1 f"
    using Cons.IH [of e1] e1(2) by (auto simp: handler_step_def)
  then show ?case using e1 handler_step_trans by (intro exI [of _ e2]) auto
qed

text \<open>What a timer does before it schedules its own chain.\<close>

lemma timed_start:
  assumes ok: "engine_ok e"
  obtains nxt e2 where "handler_step True e e2" "\<forall>f. frames e f \<noteq> None \<longrightarrow> frames e2 f = frames e f"
    "timed s ev f e = (case nxt of None \<Rightarrow> Inr e2 | Some (ev', d) \<Rightarrow> if live_event e2 ev' then Next (Some ev') (1 + int d) 0 e2 else Inr e2)"
proof -
  obtain nxt cs u where s: "s ev (user e) = (nxt, cs, u)" by (metis prod_cases3)
  have s1: "handler_step True e (e\<lparr>user := u\<rparr>)" using set_user_step [OF ok] .
  then have o1: "engine_ok (e\<lparr>user := u\<rparr>)" by (simp add: handler_step_def)
  obtain e2 where e2: "run_list start_chain cs (e\<lparr>user := u\<rparr>) = Inr e2" "handler_step True (e\<lparr>user := u\<rparr>) e2"
      "\<forall>f. frames e f \<noteq> None \<longrightarrow> frames e2 f = frames e f"
    using start_chains_run [OF o1, of cs] by auto
  have "handler_step True e e2" using s1 e2(2) handler_step_trans by blast
  moreover have "timed s ev f e = (case nxt of None \<Rightarrow> Inr e2
      | Some (ev', d) \<Rightarrow> if live_event e2 ev' then Next (Some ev') (1 + int d) 0 e2 else Inr e2)"
    using s e2(1) by (simp add: timed_def)
  ultimately show thesis using that e2(3) by blast
qed

lemma timed_sound: "sound True (timed s)"
  unfolding sound_def
proof (intro allI impI)
  fix ev f :: nat and e e' :: "'a engine"
  assume ok: "engine_ok e" and r: "timed s ev f e = Inr e'"
  obtain nxt e2 where e2: "handler_step True e e2" "\<forall>f. frames e f \<noteq> None \<longrightarrow> frames e2 f = frames e f"
      "timed s ev f e = (case nxt of None \<Rightarrow> Inr e2 | Some (ev', d) \<Rightarrow> if live_event e2 ev' then Next (Some ev') (1 + int d) 0 e2 else Inr e2)"
    by (rule timed_start [OF ok, of s ev f])
  have o2: "engine_ok e2" using e2(1) by (simp add: handler_step_def)
  have "e' = e2 \<or> (\<exists>ev' d. Next (Some ev') (1 + int d) 0 e2 = Inr e')"
    using r e2(3) by (auto split: option.splits if_splits)
  moreover have "handler_step True e2 e'" if n: "Next (Some ev') (1 + int d) 0 e2 = Inr e'" for ev' d
    using Next_step [OF o2 n] by simp
  ultimately show "handler_step True e e'" using e2(1) handler_step_trans by blast
qed

lemma timed_returns: "returns (timed s)"
  unfolding returns_def
proof (intro allI impI)
  fix ev f :: nat and e :: "'a engine"
  assume ok: "engine_ok e" and cur: "current_frame e = Some f" and f: "\<not> fr_in_heap (fr e f)" "\<not> fr_in_queue (fr e f)"
  obtain a where a: "frames e f = Some a" using engine_okD(4) [OF ok cur] by blast
  obtain nxt e2 where e2: "handler_step True e e2" "\<forall>f. frames e f \<noteq> None \<longrightarrow> frames e2 f = frames e f"
      "timed s ev f e = (case nxt of None \<Rightarrow> Inr e2 | Some (ev', d) \<Rightarrow> if live_event e2 ev' then Next (Some ev') (1 + int d) 0 e2 else Inr e2)"
    by (rule timed_start [OF ok, of s ev f])
  have o2: "engine_ok e2" and c2: "current_frame e2 = Some f" using e2(1) cur by (simp_all add: handler_step_def extends_def)
  have a2: "frames e2 f = Some a" using e2(2) a by simp
  show "\<exists>e'. timed s ev f e = Inr e' \<and> may_repeat e' f"
  proof (cases "\<exists>ev' d. nxt = Some (ev', d) \<and> live_event e2 ev'")
    case False
    then have "timed s ev f e = Inr e2" using e2(3) by (auto split: option.splits)
    then show ?thesis using a f a2 by (simp add: may_repeat_def)
  next
    case True
    then obtain ev' d where n: "nxt = Some (ev', d)" "live_event e2 ev'" by blast
    obtain e' where e': "Schedule (Some ev') (Some f) (1 + int d) 0 e2 = Inr e'"
      using Schedule_runs [OF o2 a2 _ _ n(2), of "1 + int d" 0] f a by auto
    have "timed s ev f e = Inr e'" using e2(3) n c2 e' by (simp add: Next_def)
    moreover obtain b where "frames e' f = Some b" "b \<noteq> a \<longrightarrow> fr_period b = 0" using Schedule_step(3) [OF o2 e'] a2 by blast
    then have "may_repeat e' f" using a f by (cases "b = a") (simp_all add: may_repeat_def)
    ultimately show ?thesis by blast
  qed
qed

interpretation timer: prompt_handler "timed s" for s
  by unfold_locales (rule timed_sound timed_returns)+

end
