(* ===== verification/EngineReachable.thy ===== *)
theory EngineReachable
  imports EngineScripts
begin

text \<open>
  The states that an engine gets into, whatever sequence of operations the program calls, and the properties of
  the engine.
\<close>

section \<open>Registration\<close>

lemma engine_create_ok: "engine_ok (engine_create u)" "in_flight_ok (engine_create u)" "current_frame (engine_create u) = NULL"
  by (simp_all add: engine_create_def engine_ok_def heap_sorted_def events_ok_def null_event_def in_flight_ok_def in_flight_def)

lemma RegisterEvent_ok:
  assumes ok: "engine_ok e" and d: "\<forall>n. d = Some n \<longrightarrow> n < length (domains e)" and r: "RegisterEvent d e = (e', n)"
  shows "engine_ok e'" "in_flight_ok e \<Longrightarrow> in_flight_ok e'" "current_frame e' = current_frame e"
proof -
  have e': "e' = e\<lparr>events := events e @ [\<lparr>ev_domain = d, ev_in_flight = 0\<rparr>]\<rparr>" using r by (simp add: RegisterEvent_def)
  have live: "live_event e ev \<Longrightarrow> live_event e' ev" for ev by (simp add: live_event_def e' nth_append)
  have "frame_ok e' f a" if "frames e f = Some a" for f a
    using engine_okD(3) [OF ok that] live by (auto simp: frame_ok_def e')
  moreover have "events_ok e'"
    using engine_okD(5) [OF ok] d by (auto simp: events_ok_def e' nth_append null_event_def less_Suc_eq)
  ultimately show "engine_ok e'" using engine_okD(1,2,4) [OF ok] by (simp add: engine_ok_def e')
  show "current_frame e' = current_frame e" by (simp add: e')
  assume fo: "in_flight_ok e"
  have "in_flight e (length (events e)) = 0"
    using scheduled_frame [OF ok] by (fastforce simp: in_flight_def filter_empty_conv live_event_def)
  then show "in_flight_ok e'" using fo by (auto simp: in_flight_ok_def in_flight_def e' nth_append less_Suc_eq)
qed

lemma engine_ok_domains:
  assumes ok: "engine_ok e"
    and e': "e' = e\<lparr>domains := ds, fastest_frequency := ff, shortest_cycle_time := sh\<rparr>"
    and ds: "length (domains e) \<le> length ds" "\<forall>d \<in> set ds. 0 < dom_cycle_time d" "0 \<le> sh"
  shows "engine_ok e'" "in_flight_ok e' = in_flight_ok e" "current_frame e' = current_frame e"
proof -
  have "frame_ok e' f a" if "frames e f = Some a" for f a
    using engine_okD(3) [OF ok that] by (auto simp: frame_ok_def live_event_def e')
  moreover have "events_ok e'"
    using engine_okD(5) [OF ok] ds by (fastforce simp: events_ok_def e')
  ultimately show "engine_ok e'" using engine_okD(1,2,4) [OF ok] by (simp add: engine_ok_def e')
  show "in_flight_ok e' = in_flight_ok e" "current_frame e' = current_frame e" by (simp_all add: in_flight_ok_def in_flight_def e')
qed

lemma FrequencyDomain_valid:
  assumes "isValidFrequency fq"
  shows "FrequencyDomain fq = Inr \<lparr>dom_frequency = fq, dom_cycle_time = c_div 1000000 fq\<rparr>" "0 < c_div 1000000 fq"
proof -
  have f: "1 \<le> fq" "fq \<le> 1000000" using assms by (simp_all add: isValidFrequency_def)
  then show "FrequencyDomain fq = Inr \<lparr>dom_frequency = fq, dom_cycle_time = c_div 1000000 fq\<rparr>" by (simp add: FrequencyDomain_def)
  show "0 < c_div 1000000 fq" using f by (simp add: c_div_nonneg pos_imp_zdiv_pos_iff)
qed

lemma RegisterFrequencyDomain_ok:
  assumes ok: "engine_ok e" and fq: "isValidFrequency fq" and r: "RegisterFrequencyDomain fq e = Inr (e', n)"
  shows "engine_ok e'" "in_flight_ok e' = in_flight_ok e" "current_frame e' = current_frame e"
proof -
  note F = FrequencyDomain_valid [OF fq]
  let ?ds = "domains e @ [\<lparr>dom_frequency = fq, dom_cycle_time = c_div 1000000 fq\<rparr>]"
  obtain ff sh where sh: "0 \<le> sh" "e' = e\<lparr>domains := ?ds, fastest_frequency := ff, shortest_cycle_time := sh\<rparr>"
  proof (cases "fastest_frequency e < fq")
    case True
    then show ?thesis using that [of "c_div 1000000 fq" fq] F r by (simp add: RegisterFrequencyDomain_def Let_def)
  next
    case False
    then have "e' = e\<lparr>domains := ?ds\<rparr>" using F r by (simp add: RegisterFrequencyDomain_def Let_def)
    moreover have "x = x\<lparr>fastest_frequency := fastest_frequency x, shortest_cycle_time := shortest_cycle_time x\<rparr>" for x :: "'a engine"
      by simp
    ultimately have eq: "e' = e\<lparr>domains := ?ds, fastest_frequency := fastest_frequency e, shortest_cycle_time := shortest_cycle_time e\<rparr>"
      by simp
    have "0 \<le> shortest_cycle_time e" using engine_okD(5) [OF ok] by (simp add: events_ok_def)
    then show ?thesis using eq by (rule that)
  qed
  have ds: "\<forall>d \<in> set ?ds. 0 < dom_cycle_time d" using engine_okD(5) [OF ok] F(2) by (auto simp: events_ok_def)
  show "engine_ok e'" "in_flight_ok e' = in_flight_ok e" "current_frame e' = current_frame e"
    using engine_ok_domains [OF ok sh(2) _ ds sh(1)] by simp_all
qed

definition set_fastest :: "int \<Rightarrow> int \<Rightarrow> 'u engine \<Rightarrow> 'u engine" where
  "set_fastest fq sh e = e\<lparr>fastest_frequency := fq, shortest_cycle_time := sh\<rparr>"

lemma set_fastest_twice: "set_fastest fq' sh' (set_fastest fq sh e) = set_fastest fq' sh' e"
  by (simp add: set_fastest_def)

lemma update_fastest_set:
  "update_fastest e d = (if fastest_frequency e < dom_frequency d then set_fastest (dom_frequency d) (dom_cycle_time d) e
     else set_fastest (fastest_frequency e) (shortest_cycle_time e) e)"
  by (simp add: update_fastest_def set_fastest_def)

lemma update_fastest_fold:
  "\<forall>d \<in> set ds. 0 < dom_cycle_time d \<Longrightarrow> 0 \<le> shortest_cycle_time e \<Longrightarrow>
   \<exists>fq sh. 0 \<le> sh \<and> foldl update_fastest e ds = set_fastest fq sh e"
proof (induction ds arbitrary: e)
  case Nil
  have "e = set_fastest (fastest_frequency e) (shortest_cycle_time e) e" by (simp add: set_fastest_def)
  then show ?case using Nil.prems(2) by (metis foldl_Nil)
next
  case (Cons d ds)
  obtain fq sh where u: "update_fastest e d = set_fastest fq sh e" "0 \<le> sh"
    using Cons.prems by (cases "fastest_frequency e < dom_frequency d") (auto simp: update_fastest_set)
  then have "0 \<le> shortest_cycle_time (set_fastest fq sh e)" by (simp add: set_fastest_def)
  then obtain fq' sh' where "0 \<le> sh'" "foldl update_fastest (set_fastest fq sh e) ds = set_fastest fq' sh' (set_fastest fq sh e)"
    using Cons.IH Cons.prems(1) by force
  then show ?case using u(1) by (auto simp: set_fastest_twice)
qed

lemma setFrequency_ok:
  assumes ok: "engine_ok e" and fq: "isValidFrequency fq" and r: "setFrequency d fq e = Inr e'"
  shows "engine_ok e'" "in_flight_ok e' = in_flight_ok e" "current_frame e' = current_frame e"
proof -
  note F = FrequencyDomain_valid [OF fq]
  let ?ds = "(domains e)[d := \<lparr>dom_frequency = fq, dom_cycle_time = c_div 1000000 fq\<rparr>]"
  have ds: "\<forall>d \<in> set ?ds. 0 < dom_cycle_time d"
    using engine_okD(5) [OF ok] F(2) set_update_subset_insert [of "domains e" d] by (fastforce simp: events_ok_def)
  let ?e = "e\<lparr>domains := ?ds, fastest_frequency := 0, shortest_cycle_time := 0\<rparr>"
  have "e' = foldl update_fastest ?e ?ds"
    using r F by (simp add: setFrequency_def domain_at_def UpdateFastestFrequency_def split: if_splits)
  moreover obtain ff sh where "0 \<le> sh" "foldl update_fastest ?e ?ds = set_fastest ff sh ?e"
    using update_fastest_fold [OF ds, of ?e] by auto
  ultimately have e': "e' = e\<lparr>domains := ?ds, fastest_frequency := ff, shortest_cycle_time := sh\<rparr>" and sh: "0 \<le> sh"
    by (simp_all add: set_fastest_def)
  show "engine_ok e'" "in_flight_ok e' = in_flight_ok e" "current_frame e' = current_frame e"
    using engine_ok_domains [OF ok e' _ ds sh] by simp_all
qed

lemma set_current_ok:
  assumes "engine_ok e" "\<forall>f. p = Some f \<longrightarrow> frames e f \<noteq> None"
  shows "engine_ok (e\<lparr>current_frame := p\<rparr>)" "in_flight_ok (e\<lparr>current_frame := p\<rparr>) = in_flight_ok e"
proof -
  have "frame_ok (e\<lparr>current_frame := p\<rparr>) g a" if "frames e g = Some a" for g a
    using engine_okD(3) [OF assms(1) that] by (simp add: frame_ok_def live_event_def)
  moreover have "events_ok (e\<lparr>current_frame := p\<rparr>)" by (rule events_ok_cong [of _ e]) (use engine_okD(5) [OF assms(1)] in simp_all)
  ultimately show "engine_ok (e\<lparr>current_frame := p\<rparr>)" using engine_okD(1,2) [OF assms(1)] assms(2) by (simp add: engine_ok_def)
  show "in_flight_ok (e\<lparr>current_frame := p\<rparr>) = in_flight_ok e" by (simp add: in_flight_ok_def in_flight_def)
qed

text \<open>An event that is executed in place leaves the current frame as it was.\<close>

lemma Execute_ok:
  assumes ok: "engine_ok e" and s: "sound t h" and x: "Execute h event frame receive e = Inr e'"
  shows "engine_ok e'" "in_flight_ok e \<Longrightarrow> in_flight_ok e'" "current_frame e' = current_frame e"
proof -
  have "engine_ok e' \<and> (in_flight_ok e \<longrightarrow> in_flight_ok e') \<and> current_frame e' = current_frame e"
  proof (cases "event = NULL \<or> event = Some null_event")
    case True
    then show ?thesis using x ok by (simp add: Execute_def)
  next
    case False
    obtain f a where f: "frame = Some f" "frames e f = Some a"
    proof (cases "node_put (frames e) frame (\<lambda>fr. fr\<lparr>fr_parent := current_frame e, fr_return := receive\<rparr>)")
      case (Inl x)
      then show thesis using assms(3) False by (simp add: Execute_def)
    next
      case (Inr mem)
      then show thesis using that by (auto simp: node_put_def node_at_def split: option.splits)
    qed
    let ?e1 = "e\<lparr>frames := (frames e)(f \<mapsto> a\<lparr>fr_parent := current_frame e, fr_return := receive\<rparr>)\<rparr>"
    have s1: "handler_step True e ?e1"
      using engine_okD(3) [OF ok f(2)] engine_okD(4) [OF ok] by (intro handler_step_frame [OF ok f(2)]) (auto simp: frame_ok_def)
    then have o1: "engine_ok ?e1" "in_flight_ok e \<longrightarrow> in_flight_ok ?e1" by (simp_all add: handler_step_def)
    let ?e2 = "?e1\<lparr>current_frame := Some f\<rparr>"
    have o2: "engine_ok ?e2" "in_flight_ok ?e2 = in_flight_ok ?e1"
      using set_current_ok [OF o1(1), of "Some f"] by simp_all
    obtain e3 where e3: "h (the event) f ?e2 = Inr e3" "e' = e3\<lparr>current_frame := current_frame e\<rparr>"
      using x False f by (cases "h (the event) f ?e2") (simp_all add: Execute_def)
    have st: "handler_step t ?e2 e3" using soundD [OF s o2(1) _ e3(1)] by simp
    then have o3: "engine_ok e3" "in_flight_ok ?e2 \<longrightarrow> in_flight_ok e3" by (simp_all add: handler_step_def)
    have "frames e3 g \<noteq> None" if "frames ?e2 g \<noteq> None" for g
      using st that unfolding handler_step_def extends_def by blast
    moreover have "frames ?e2 g \<noteq> None" if "frames e g \<noteq> None" for g using that by simp
    ultimately have "\<forall>g. current_frame e = Some g \<longrightarrow> frames e3 g \<noteq> None" using engine_okD(4) [OF ok] by blast
    note c = set_current_ok [OF o3(1) this]
    show ?thesis using c o3(2) o2(2) o1(2) e3(2) by simp
  qed
  then show "engine_ok e'" "in_flight_ok e \<Longrightarrow> in_flight_ok e'" "current_frame e' = current_frame e" by blast+
qed

section \<open>Reachable states\<close>

text \<open>The flag says whether the engine has been drained.\<close>

inductive reach :: "'u script \<Rightarrow> 'u \<Rightarrow> bool \<Rightarrow> 'u engine \<Rightarrow> bool" for s u where
  create: "reach s u False (engine_create u)"
| add_domain: "reach s u b e \<Longrightarrow> isValidFrequency fq \<Longrightarrow> RegisterFrequencyDomain fq e = Inr (e', d) \<Longrightarrow> reach s u b e'"
| add_event: "reach s u b e \<Longrightarrow> \<forall>d'. d = Some d' \<longrightarrow> d' < length (domains e) \<Longrightarrow> RegisterEvent d e = (e', n) \<Longrightarrow> reach s u b e'"
| set_frequency: "reach s u b e \<Longrightarrow> isValidFrequency fq \<Longrightarrow> setFrequency d fq e = Inr e' \<Longrightarrow> reach s u b e'"
| signal: "reach s u b e \<Longrightarrow> SignalHandler n e = Inr e' \<Longrightarrow> reach s u b e'"
| action: "reach s u b e \<Longrightarrow> act e x = Inr e' \<Longrightarrow> reach s u b e'"
| wakeup_all: "reach s u b e \<Longrightarrow> queue_WakeupAll q e = Some (Inr e') \<Longrightarrow> reach s u b e'"
| execute: "reach s u b e \<Longrightarrow> Execute (scripted s) event frame receive e = Inr e' \<Longrightarrow> reach s u b e'"
| cycle: "reach s u b e \<Longrightarrow> ProcessEvents (scripted s) e = Some (Inr e') \<Longrightarrow> reach s u b e'"
| end_events: "reach s u b e \<Longrightarrow> ProcessEndEvents (scripted s) e = Some (Inr e') \<Longrightarrow> reach s u b e'"
| drain: "reach s u b e \<Longrightarrow> Drain (scripted s) m e = Some (Inr (e', over)) \<Longrightarrow> reach s u True e'"
| all_events: "reach s u b e \<Longrightarrow> ProcessAllEvents (scripted s) e = Some (Inr e') \<Longrightarrow> reach s u True e'"

lemma handler_step_keeps:
  "handler_step t e e' \<Longrightarrow> current_frame e = NULL \<Longrightarrow> engine_ok e' \<and> current_frame e' = NULL \<and> (in_flight_ok e \<longrightarrow> in_flight_ok e')"
  by (simp add: handler_step_def extends_def)

lemma SignalHandler_step: "engine_ok e \<Longrightarrow> SignalHandler n e = Inr e' \<Longrightarrow> handler_step t e e'"
  by (rule handler_step_cong [where l = "[]"]) (auto simp: SignalHandler_def split: if_splits)

lemma reach_invariant:
  assumes "reach s u drained e"
  shows "engine_ok e \<and> current_frame e = NULL \<and> (\<not> drained \<longrightarrow> in_flight_ok e)"
  using assms
proof induction
  case create
  then show ?case by (simp add: engine_create_ok)
next
  case (add_domain b e fq e' d)
  then show ?case using RegisterFrequencyDomain_ok [of e fq e' d] by simp
next
  case (add_event b e d e' n)
  then show ?case using RegisterEvent_ok [of e d e' n] by simp
next
  case (set_frequency b e fq d e')
  then show ?case using setFrequency_ok [of e fq d e'] by simp
next
  case (signal b e n e')
  then show ?case using handler_step_keeps [OF SignalHandler_step [of e n e' True]] by blast
next
  case (action b e x e')
  then show ?case using handler_step_keeps [OF act_step [of e x e']] by blast
next
  case (wakeup_all b e q e')
  then show ?case using handler_step_keeps [OF queue_WakeupAll_step [of q e e']] by blast
next
  case (execute b e event frame receive e')
  then show ?case using Execute_ok [OF _ scripted_sound, of e s event frame receive e'] by simp
next
  case (cycle b e e')
  then show ?case using script.cycle_keeps by blast
next
  case (end_events b e e')
  then show ?case using script.end_events_keep by blast
next
  case (drain b e m e' over)
  then show ?case using script.drain_keeps by blast
next
  case (all_events b e e')
  then show ?case using script.all_events_keep by blast
qed

section \<open>Scheduling and repeating\<close>

text \<open>Where an event that is scheduled gets to.\<close>

lemma Schedule_entered:
  assumes ok: "engine_ok e" and l: "\<not> locked e" and live: "live_event e ev" and d: "ev_domain (events e ! ev) = Some d"
    and s: "Schedule (Some ev) frame after period e = Inr e'"
  shows "\<exists>f. frame = Some f \<and> f \<in> set (heap e') \<and> fr_event (fr e' f) = Some ev \<and> fr_period (fr e' f) = period \<and>
    fr_time (fr e' f) = due_time (current_time e) (dom_cycle_time (domains e ! d)) after \<and> same_program e e' \<and> engine_ok e' \<and>
    current_frame e' = current_frame e"
proof -
  obtain f a where fa: "frame = Some f" "frames e f = Some a" "0 \<le> after" "\<not> fr_in_queue a" "\<not> fr_in_heap a"
    using s by (auto simp: Schedule_def node_at_def split: if_splits option.splits)
  have ev: "ev \<noteq> null_event" using live engine_okD(5) [OF ok] by (auto simp: live_event_def events_ok_def)
  have dm: "event_at e ev = Inr (events e ! ev)" "domain_at e d = Inr (domains e ! d)" "0 < dom_cycle_time (domains e ! d)"
    using live_domain [OF engine_okD(5) [OF ok] live] d by auto
  have "enter_heap ev f (dom_cycle_time (domains e ! d)) after period e = Inr e'"
    using s fa l ev dm d by (simp add: Schedule_def)
  then have "engine_ok e'" "extends e e'" "set (heap e') = insert f (set (heap e))"
      "frames e' = (frames e)(f \<mapsto> entered a ev (due_time (current_time e) (dom_cycle_time (domains e ! d)) after) period (sequence_counter e + 1))"
    using enter_heap_ok [OF ok live fa(2,5,4) dm(3) fa(3), of period] by auto
  then show ?thesis using fa(1) by (simp add: entered_def extends_def)
qed

text \<open>An event that calls \<open>Next\<close> with a period has put its frame into the heap when the loop wants to repeat it.\<close>

lemma process_one_repeat_panics:
  assumes ok: "engine_ok e" and cur: "current_frame e = NULL" and h: "heap e = f # fs" and l: "\<not> locked e"
    and live: "live_event e nx" and t: "0 \<le> after" "0 < period"
  shows "process_one (\<lambda>_ _. Next (Some nx) after period) f e = Inl Panic"
proof -
  obtain a ev where a: "frames e f = Some a" "\<not> fr_in_queue a" "take_top f e = Inr (started e f ev, ev)"
      "engine_ok (started e f ev)" "in_flight_ok e \<Longrightarrow> in_flight_ok (add_in_flight (- 1) ev (started e f ev))"
    using take_top_ok [OF ok cur h] by metis
  let ?t = "triggering e f ev"
  have ot: "engine_ok ?t" using triggering_ok(1) [OF a(4,5)] by simp
  have p: "same_program e ?t" "current_frame ?t = Some f" by (simp_all add: triggering_def same_program_def)
  have lt: "live_event ?t nx" using live_same_program [OF p(1)] live by simp
  have ft: "frames ?t f = Some (a\<lparr>fr_in_heap := False\<rparr>)" using a(1) by (simp add: triggering_def)
  obtain e2 where e2: "Schedule (Some nx) (Some f) after period ?t = Inr e2"
    using Schedule_runs [OF ot ft _ _ lt t(1)] a(2) by auto
  obtain d where d: "ev_domain (events ?t ! nx) = Some d" using lt by (auto simp: live_event_def)
  have lk: "\<not> locked ?t" using l by (simp add: triggering_def)
  have e2f: "f \<in> set (heap e2)" "fr_period (fr e2 f) = period" "engine_ok e2" "current_frame e2 = Some f"
    using Schedule_entered [OF ot lk lt d e2] p(2) by auto
  obtain b where b: "frames e2 f = Some b" "fr_in_heap b" "\<not> fr_in_queue b" using scheduled_frame [OF e2f(3,1)] by blast
  have "Schedule (Some ev) (Some f) period period e2 = Inl Panic" using b t by (simp add: Schedule_def)
  moreover have "Next (Some nx) after period ?t = Inr e2" using e2 p(2) by (simp add: Next_def)
  ultimately show ?thesis using a(3) e2f(2,4) b t by (simp add: process_one_def triggering_def)
qed

section \<open>Properties\<close>

text \<open>C12: from construction on, whatever domains and events are registered, whatever operations the program and the
  handlers call, and however the engine runs, the heap is in the order in which its frames run, the flags of the
  frames say which are in it, each scheduled frame has an event with a domain, and no frame is current between runs;
  until the engine is drained, the counters of events in flight count the frames in the heap.\<close>

theorem reachable_states_ok:
  assumes "reach s u drained e"
  shows "engine_ok e \<and> current_frame e = NULL \<and> (\<not> drained \<longrightarrow> in_flight_ok e)"
  by (rule reach_invariant [OF assms])

definition demo_engine :: "nat engine" where
  "demo_engine = fst (RegisterEvent (Some 0) (fst (RegisterEvent (Some 0)
     (case RegisterFrequencyDomain 1000 (engine_create 0) of Inr (e, d) \<Rightarrow> e | Inl x \<Rightarrow> engine_create 0))))"

definition demo_scheduled :: "nat engine" where
  "demo_scheduled = (case run_list act [Do_next (Some 1) 2 0, Do_next (Some 2) 1 0, Do_next (Some 1) 1 0] demo_engine of
     Inr e \<Rightarrow> e | Inl x \<Rightarrow> demo_engine)"

lemmas demo_defs = demo_engine_def engine_create_def RegisterEvent_def RegisterFrequencyDomain_def FrequencyDomain_def c_div_def
  Next_def alloc_frame_def new_frame_def Schedule_def enter_heap_def node_put_def node_at_def event_at_def domain_at_def
  add_in_flight_def warn_def null_event_def max_inflight_events_def Let_def later_def

lemma demo_engine_fields:
  "heap demo_engine = []" "events demo_engine = [\<lparr>ev_domain = NULL, ev_in_flight = 0\<rparr>, \<lparr>ev_domain = Some 0, ev_in_flight = 0\<rparr>,
     \<lparr>ev_domain = Some 0, ev_in_flight = 0\<rparr>]" "domains demo_engine = [\<lparr>dom_frequency = 1000, dom_cycle_time = 1000\<rparr>]"
  by (simp_all add: demo_defs)

lemma demo_runs:
  "run_list act [Do_next (Some 1) 2 0, Do_next (Some 2) 1 0, Do_next (Some 1) 1 0] demo_engine = Inr demo_scheduled"
  "heap demo_scheduled = [1, 2, 0]" "current_time demo_scheduled = 0" "shortest_cycle_time demo_scheduled = 1000"
  "events demo_scheduled = [\<lparr>ev_domain = NULL, ev_in_flight = 0\<rparr>, \<lparr>ev_domain = Some 0, ev_in_flight = 2\<rparr>,
     \<lparr>ev_domain = Some 0, ev_in_flight = 1\<rparr>]"
  "domains demo_scheduled = [\<lparr>dom_frequency = 1000, dom_cycle_time = 1000\<rparr>]" "locked demo_scheduled = False"
  "signal_received demo_scheduled = 0"
  "map (\<lambda>f. (fr_time (fr demo_scheduled f), the (fr_event (fr demo_scheduled f)))) [1, 2, 0] = [(1000, 2), (1000, 1), (2000, 1)]"
  unfolding demo_scheduled_def by (simp_all add: demo_defs)

lemma reach_acts: "run_list act xs e = Inr e' \<Longrightarrow> reach s u b e \<Longrightarrow> reach s u b e'"
proof (induction xs arbitrary: e)
  case (Cons x xs)
  then obtain e1 where e1: "act e x = Inr e1" "run_list act xs e1 = Inr e'" by (cases "act e x") simp_all
  then have "reach s u b e1" using reach.action [OF Cons.prems(2)] by blast
  then show ?case using Cons.IH [OF e1(2)] by blast
qed simp

lemma demo_reach: "reach s 0 False demo_engine" "reach s 0 False demo_scheduled"
proof -
  obtain e1 where e1: "RegisterFrequencyDomain 1000 (engine_create (0 :: nat)) = Inr (e1, 0)" "length (domains e1) = 1"
    by (simp add: demo_defs)
  have d: "demo_engine = fst (RegisterEvent (Some 0) (fst (RegisterEvent (Some 0) e1)))" using e1 by (simp add: demo_engine_def)
  have r1: "reach s 0 False e1" by (rule reach.add_domain [OF reach.create _ e1(1)]) (simp add: isValidFrequency_def)
  obtain e2 n where e2: "RegisterEvent (Some 0) e1 = (e2, n)" by fastforce
  have r2: "reach s 0 False e2" by (rule reach.add_event [OF r1 _ e2]) (simp add: e1)
  have "length (domains e2) = 1" using e1(2) e2 by (auto simp: RegisterEvent_def)
  moreover obtain n' where "RegisterEvent (Some 0) e2 = (demo_engine, n')" using d e2 by (metis fst_conv prod.collapse)
  ultimately show r3: "reach s 0 False demo_engine" by (intro reach.add_event [OF r2]) simp_all
  show "reach s 0 False demo_scheduled" using reach_acts [OF demo_runs(1) r3] .
qed

lemma demo_ok: "engine_ok demo_scheduled" "current_frame demo_scheduled = NULL" "engine_ok (demo_scheduled\<lparr>current_time := 1000\<rparr>)"
proof -
  show ok: "engine_ok demo_scheduled" "current_frame demo_scheduled = NULL"
    using reach_invariant [OF demo_reach(2) [of "\<lambda>_ n. ([], n)"]] by simp_all
  show "engine_ok (demo_scheduled\<lparr>current_time := 1000\<rparr>)"
    using engine_ok_retime [OF ok(1), of 1000 "debug demo_scheduled"] by simp
qed

theorem reachable_states_ok_witness:
  "reach (\<lambda>_ n. ([], n)) 0 False demo_scheduled \<and> engine_ok demo_scheduled \<and> in_flight_ok demo_scheduled \<and> heap demo_scheduled = [1, 2, 0]"
  using reachable_states_ok [OF demo_reach(2) [of "\<lambda>_ n. ([], n)"]] demo_reach(2) demo_runs(2) by simp

text \<open>C10: if the handlers return and schedule for later only, a call of \<open>ProcessEvents\<close> returns, and the events it runs are
  those of the frames that were due, by time and, for the same time, in the order in which they were scheduled; the
  others stay in the heap as they are, and time goes on by a cycle of the fastest domain.\<close>

theorem cycle_runs_due_events:
  assumes "sound True h" "returns h" "engine_ok e" "current_frame e = NULL"
  shows "sorted_wrt (\<lambda>f g. later (frames e) g f) (due e) \<and>
    (\<exists>e' l. ProcessEvents h e = Some (Inr e') \<and> debug e' = debug e @ l \<and> triggered l = due_events e \<and>
       (\<forall>g \<in> set (heap e). current_time e < fr_time (fr e g) \<longrightarrow> g \<in> set (heap e') \<and> same_key e e' g) \<and>
       current_time e' = current_time e + shortest_cycle_time e)"
proof
  show "sorted_wrt (\<lambda>f g. later (frames e) g f) (due e)"
    using engine_okD(1) [OF assms(3)] by (simp add: due_def heap_sorted_def sorted_wrt_filter)
  obtain e' where "ProcessEvents h e = Some (Inr e')" "advanced e e'"
    using prompt_handler.cycle_advances [OF prompt_handler.intro [OF assms(1,2)] assms(3,4)] by blast
  then show "\<exists>e' l. ProcessEvents h e = Some (Inr e') \<and> debug e' = debug e @ l \<and> triggered l = due_events e \<and>
       (\<forall>g \<in> set (heap e). current_time e < fr_time (fr e g) \<longrightarrow> g \<in> set (heap e') \<and> same_key e e' g) \<and>
       current_time e' = current_time e + shortest_cycle_time e"
    by (auto simp: advanced_def)
qed

definition demo_timer :: "nat timer" where
  "demo_timer ev n = (if ev = 1 \<and> n < 2 then (Some (2, 0), [(1, 1)], n + 1) else (None, [], n))"

theorem cycle_runs_due_events_witness:
  "\<exists>e' l. ProcessEvents (timed demo_timer) (demo_scheduled\<lparr>current_time := 1000\<rparr>) = Some (Inr e') \<and>
     debug e' = debug demo_scheduled @ l \<and> triggered l = [2, 1] \<and> current_time e' = 2000"
proof -
  let ?e = "demo_scheduled\<lparr>current_time := 1000\<rparr>"
  have "due_events ?e = [2, 1]" using demo_runs(2,9) by (simp add: due_events_def due_def)
  moreover have "current_frame ?e = NULL" "shortest_cycle_time ?e = 1000" using demo_ok demo_runs by simp_all
  ultimately show ?thesis
    using cycle_runs_due_events [OF timed_sound timed_returns demo_ok(3), of demo_timer] by auto
qed

text \<open>C11: an event that is scheduled \<open>after\<close> cycles of its domain from now runs within as many cycles of the fastest domain as
  cover them, whatever else the handlers do and schedule meanwhile, as long as they return and schedule for later.\<close>

theorem scheduled_event_runs:
  assumes "sound True h" "returns h" "engine_ok e" "current_frame e = NULL" "\<not> locked e" "live_event e ev"
    and "ev_domain (events e ! ev) = Some d" "Schedule (Some ev) frame after period e = Inr e1"
    and "dom_cycle_time (domains e ! d) * after \<le> int n * shortest_cycle_time e"
  shows "\<exists>e' l. process_cycles (Suc n) h e1 = Some (Inr e') \<and> debug e' = debug e1 @ l \<and> ev \<in> set (triggered l)"
proof -
  obtain f where f: "f \<in> set (heap e1)" "fr_event (fr e1 f) = Some ev" "engine_ok e1" "current_frame e1 = NULL" "same_program e e1"
      "fr_time (fr e1 f) = due_time (current_time e) (dom_cycle_time (domains e ! d)) after"
    using Schedule_entered [OF assms(3,5-8)] assms(4) by auto
  have "0 < dom_cycle_time (domains e ! d)" "0 \<le> current_time e"
    using engine_okD(5) [OF assms(3)] assms(6,7) by (auto simp: events_ok_def live_event_def)
  then have "due_time (current_time e) (dom_cycle_time (domains e ! d)) 0 \<le> current_time e" by (rule due_time_bounds(2))
  then have "fr_time (fr e1 f) \<le> current_time e1 + int n * shortest_cycle_time e1"
    using f(5,6) assms(9) by (simp add: due_time_def same_program_def)
  then show ?thesis
    using prompt_handler.runs_scheduled [OF prompt_handler.intro [OF assms(1,2)] f(3,4,1)] f(2) by simp
qed

theorem scheduled_event_runs_witness:
  "\<exists>e1 e' l. Next (Some 2) 3 0 demo_scheduled = Inr e1 \<and> process_cycles 4 (timed demo_timer) e1 = Some (Inr e') \<and>
     debug e' = debug e1 @ l \<and> 2 \<in> set (triggered l)"
proof -
  obtain e0 f where a: "alloc_frame demo_scheduled = (e0, f)" by fastforce
  note al = handler_step_alloc [OF demo_ok(1) a]
  have o0: "engine_ok e0" "current_frame e0 = NULL" "\<not> locked e0" "shortest_cycle_time e0 = 1000"
    using al(1) [of True] al(5,8) demo_ok demo_runs by (simp_all add: handler_step_def extends_def same_program_def)
  have live: "live_event e0 2" "ev_domain (events e0 ! 2) = Some 0" "dom_cycle_time (domains e0 ! 0) = 1000"
    using al(6,9) demo_runs by (simp_all add: live_event_def)
  obtain e1 where s: "Schedule (Some 2) (Some f) 3 0 e0 = Inr e1"
    using Schedule_runs [OF o0(1), of f new_frame 2 3 0] al(3) live(1) by (auto simp: new_frame_def)
  have "Next (Some 2) 3 0 demo_scheduled = Inr e1" using a s demo_ok(2) by (simp add: Next_def)
  moreover have "\<exists>e' l. process_cycles (Suc 3) (timed demo_timer) e1 = Some (Inr e') \<and> debug e' = debug e1 @ l \<and> 2 \<in> set (triggered l)"
    by (rule scheduled_event_runs [OF timed_sound timed_returns o0(1-3) live(1,2) s]) (simp add: live(3) o0(4))
  ultimately show ?thesis by (simp add: numeral_eq_Suc)
qed

text \<open>draining with handlers that return, whatever they schedule, ends: it runs at most the given number of events, and says
  that it stopped because of them exactly if it ran that many; otherwise the heap is empty.\<close>

theorem drain_terminates:
  assumes "sound True h" "returns h" "engine_ok e" "current_frame e = NULL" "0 < m"
  shows "\<exists>e' over l. Drain h m e = Some (Inr (e', over)) \<and> engine_ok e' \<and> debug e' = debug e @ l \<and>
    int (length (triggered l)) \<le> m \<and> (if over then int (length (triggered l)) = m else heap e' = [])"
proof -
  obtain e' over l where "Drain h m e = Some (Inr (e', over))" "engine_ok e'" "debug e' = debug e @ l" "int (length (triggered l)) \<le> m"
      "if over then int (length (triggered l)) = m else heap e' = []"
    using prompt_handler.drains [OF prompt_handler.intro [OF assms(1,2)] assms(3-5)] by blast
  then show ?thesis by blast
qed

theorem drain_terminates_witness:
  "\<exists>e' over l. Drain (timed demo_timer) 10 demo_scheduled = Some (Inr (e', over)) \<and> debug e' = debug demo_scheduled @ l \<and>
     length (triggered l) \<le> 10 \<and> (over \<or> heap e' = [])"
  using drain_terminates [OF timed_sound timed_returns demo_ok(1,2), of 10 demo_timer] by (fastforce split: if_splits)

text \<open>an event whose handler calls \<open>Next\<close> with a period panics: \<open>Next\<close> has put the frame into the heap with the period,
  and the loop then schedules it again because of the period.\<close>

theorem periodic_next_panics:
  assumes "engine_ok e" "current_frame e = NULL" "heap e = f # fs" "fr_time (fr e f) \<le> current_time e" "\<not> locked e"
    and "live_event e nx" "0 \<le> after" "0 < period" "signal_received e \<noteq> SIGINT"
  shows "ProcessEvents (\<lambda>_ _. Next (Some nx) after period) e = Some (Inl Panic)"
proof -
  obtain a where "frames e f = Some a" using scheduled_frame [OF assms(1), of f] assms(3) by auto
  then have "process_loop (\<lambda>_ _. Next (Some nx) after period) e = Some (Inl Panic)"
    using process_one_repeat_panics [OF assms(1-3,5-8)] assms(3,4) by (subst process_loop.simps) simp
  then show ?thesis using assms(9) by (simp add: ProcessEvents_def)
qed

theorem periodic_next_panics_witness:
  "ProcessEvents (\<lambda>_ _. Next (Some 1) 0 5) (demo_scheduled\<lparr>current_time := 1000\<rparr>) = Some (Inl Panic)"
  by (rule periodic_next_panics [OF demo_ok(3), where f = 1 and fs = "[2, 0]"])
    (use demo_runs demo_ok(2) in \<open>simp_all add: live_event_def SIGINT_def\<close>)

end
