(* ===== verification/EventQueue.thy ===== *)
theory EventQueue
  imports EngineReachable
begin

text \<open>
  The queues of event chains as lists of frames: the links of the frames refine the list operations, and waking up a
  whole queue schedules its frames in their order.
\<close>

section \<open>The lists of the queues\<close>

primrec chain :: "frame memory \<Rightarrow> nat ptr \<Rightarrow> nat list \<Rightarrow> bool" where
  "chain mem p [] \<longleftrightarrow> p = NULL"
| "chain mem p (f # fs) \<longleftrightarrow> p = Some f \<and> mem f \<noteq> None \<and> chain mem (fr_next (the (mem f))) fs"

definition queue_rep :: "'u engine \<Rightarrow> nat \<Rightarrow> nat list \<Rightarrow> bool" where
  "queue_rep e q fs \<longleftrightarrow> chain (frames e) (q_head (queues e q)) fs \<and> q_tail (queues e q) = (if fs = [] then NULL else Some (last fs)) \<and>
     distinct fs"

text \<open>A frame is in one queue at most, and its flag says whether it is.\<close>

definition queues_rep :: "'u engine \<Rightarrow> (nat \<Rightarrow> nat list) \<Rightarrow> bool" where
  "queues_rep e Q \<longleftrightarrow> (\<forall>q. queue_rep e q (Q q)) \<and> (\<forall>p q. p \<noteq> q \<longrightarrow> set (Q p) \<inter> set (Q q) = {}) \<and>
     (\<forall>f a. frames e f = Some a \<longrightarrow> (fr_in_queue a \<longleftrightarrow> (\<exists>q. f \<in> set (Q q))) \<and> (\<not> fr_in_queue a \<longrightarrow> fr_next a = NULL))"

lemma chain_cong:
  "\<forall>f \<in> set fs. mem' f \<noteq> None \<and> fr_next (the (mem' f)) = fr_next (the (mem f)) \<Longrightarrow> chain mem p fs \<Longrightarrow> chain mem' p fs"
  by (induction fs arbitrary: p) auto

lemma chain_frames: "chain mem p fs \<Longrightarrow> f \<in> set fs \<Longrightarrow> mem f \<noteq> None"
  by (induction fs arbitrary: p) auto

lemma chain_last: "chain mem p fs \<Longrightarrow> fs \<noteq> [] \<Longrightarrow> fr_next (the (mem (last fs))) = NULL"
proof (induction fs arbitrary: p)
  case (Cons f fs)
  then show ?case by (cases fs) auto
qed simp

text \<open>Linking a frame behind the last one.\<close>

lemma chain_append:
  "chain mem p fs \<Longrightarrow> fs \<noteq> [] \<Longrightarrow> distinct fs \<Longrightarrow> f \<notin> set fs \<Longrightarrow> mem f = Some b \<Longrightarrow> fr_next b = NULL \<Longrightarrow> mem (last fs) = Some c \<Longrightarrow>
   chain (mem(last fs \<mapsto> c\<lparr>fr_next := Some f\<rparr>)) p (fs @ [f])"
proof (induction fs arbitrary: p)
  case (Cons g gs)
  show ?case
  proof (cases "gs = []")
    case True
    then show ?thesis using Cons.prems by auto
  next
    case False
    then have l: "last gs \<noteq> g" using Cons.prems(3) by (metis distinct.simps(2) last_in_set)
    define m where "m = mem(last gs \<mapsto> c\<lparr>fr_next := Some f\<rparr>)"
    have n: "m g = mem g" using l by (simp add: m_def)
    have "chain m (fr_next (the (mem g))) (gs @ [f])"
      unfolding m_def by (rule Cons.IH) (use Cons.prems False in simp_all)
    then have "chain m p ((g # gs) @ [f])" using Cons.prems(1) n by simp
    then show ?thesis unfolding m_def last_ConsR [OF False] .
  qed
qed simp

lemma queues_repD:
  assumes "queues_rep e Q"
  shows "queue_rep e q (Q q)" "p \<noteq> q \<Longrightarrow> set (Q p) \<inter> set (Q q) = {}"
    "frames e f = Some a \<Longrightarrow> fr_in_queue a \<longleftrightarrow> (\<exists>q. f \<in> set (Q q))"
    "frames e f = Some a \<Longrightarrow> \<not> fr_in_queue a \<Longrightarrow> fr_next a = NULL"
  using assms unfolding queues_rep_def by blast+

lemma in_queue_frame: "queues_rep e Q \<Longrightarrow> f \<in> set (Q q) \<Longrightarrow> \<exists>a. frames e f = Some a \<and> fr_in_queue a"
  using queues_repD(1,3) [of e Q] chain_frames unfolding queue_rep_def by blast

text \<open>The queues do not look at anything else.\<close>

lemma queues_rep_cong:
  assumes r: "queues_rep e Q" and q: "queues e' = queues e"
    and f: "\<And>f a. frames e' f = Some a \<Longrightarrow>
      (case frames e f of None \<Rightarrow> \<not> fr_in_queue a \<and> fr_next a = NULL | Some b \<Rightarrow> fr_in_queue a = fr_in_queue b \<and> fr_next a = fr_next b)"
    and k: "\<And>f. frames e f \<noteq> None \<Longrightarrow> frames e' f \<noteq> None"
  shows "queues_rep e' Q"
  unfolding queues_rep_def
proof (intro conjI allI impI)
  fix q'
  have "queue_rep e q' (Q q')" using queues_repD(1) [OF r] .
  moreover have "chain (frames e) p (Q q') \<Longrightarrow> chain (frames e') p (Q q')" for p
  proof (rule chain_cong)
    show "\<forall>f \<in> set (Q q'). frames e' f \<noteq> None \<and> fr_next (fr e' f) = fr_next (fr e f)"
    proof
      fix g assume "g \<in> set (Q q')"
      then obtain b where b: "frames e g = Some b" using in_queue_frame [OF r] by blast
      then obtain a where a: "frames e' g = Some a" using k by blast
      then show "frames e' g \<noteq> None \<and> fr_next (fr e' g) = fr_next (fr e g)" using f [OF a] b by simp
    qed
  qed
  ultimately show "queue_rep e' q' (Q q')" using q by (simp add: queue_rep_def)
next
  show "set (Q p) \<inter> set (Q q) = {}" if "p \<noteq> q" for p q using queues_repD(2) [OF r that] .
next
  fix g a assume a: "frames e' g = Some a"
  have out: "\<not> (\<exists>q. g \<in> set (Q q))" if "frames e g = None" using in_queue_frame [OF r] that by fastforce
  show "fr_in_queue a \<longleftrightarrow> (\<exists>q. g \<in> set (Q q))" using f [OF a] out queues_repD(3) [OF r] by (cases "frames e g") auto
  show "\<not> fr_in_queue a \<Longrightarrow> fr_next a = NULL" using f [OF a] queues_repD(4) [OF r] by (cases "frames e g") auto
qed

section \<open>Putting and taking\<close>

lemma mark_queued_cases:
  assumes r: "queues_rep e Q" and f: "frames e f = Some a"
  shows "mark_queued f e = (if \<exists>q. f \<in> set (Q q) then Inl Assert else Inr ((frames e)(f \<mapsto> a\<lparr>fr_in_queue := True\<rparr>)))"
  using queues_repD(3,4) [OF r f] f by (auto simp: mark_queued_def node_put_def node_at_def)

text \<open>A queue of which one list changes.\<close>

lemma queues_rep_upd:
  assumes r: "queues_rep e Q" and q: "\<And>p. p \<noteq> q \<Longrightarrow> queues e' p = queues e p" and rep: "queue_rep e' q fs"
    and s: "\<And>p. p \<noteq> q \<Longrightarrow> set (Q p) \<inter> set fs = {}"
    and keep: "\<And>p g. p \<noteq> q \<Longrightarrow> g \<in> set (Q p) \<Longrightarrow> frames e' g = frames e g"
    and fl: "\<And>g a. frames e' g = Some a \<Longrightarrow> (\<forall>p. p \<noteq> q \<longrightarrow> g \<notin> set (Q p)) \<Longrightarrow> (fr_in_queue a \<longleftrightarrow> g \<in> set fs) \<and> (\<not> fr_in_queue a \<longrightarrow> fr_next a = NULL)"
  shows "queues_rep e' (Q(q := fs))"
  unfolding queues_rep_def
proof (intro conjI allI impI)
  show "queue_rep e' p ((Q(q := fs)) p)" for p
  proof (cases "p = q")
    case False
    have "queue_rep e p (Q p)" using queues_repD(1) [OF r] .
    moreover have "chain (frames e) x (Q p) \<Longrightarrow> chain (frames e') x (Q p)" for x
      by (rule chain_cong) (use keep [OF False] in_queue_frame [OF r] in fastforce)
    ultimately show ?thesis using q [OF False] False by (simp add: queue_rep_def)
  qed (use rep in simp)
next
  show "set ((Q(q := fs)) p) \<inter> set ((Q(q := fs)) p') = {}" if "p \<noteq> p'" for p p'
    using that s [of p] s [of p'] queues_repD(2) [OF r that] by (cases "p = q"; cases "p' = q") auto
next
  fix g a assume a: "frames e' g = Some a"
  have "(fr_in_queue a \<longleftrightarrow> (\<exists>p. g \<in> set ((Q(q := fs)) p))) \<and> (\<not> fr_in_queue a \<longrightarrow> fr_next a = NULL)"
  proof (cases "\<exists>p. p \<noteq> q \<and> g \<in> set (Q p)")
    case True
    then obtain p where p: "p \<noteq> q" "g \<in> set (Q p)" by blast
    then have "frames e g = Some a" using keep a by simp
    then have "fr_in_queue a" using queues_repD(3) [OF r] p by blast
    moreover have "\<exists>p. g \<in> set ((Q(q := fs)) p)" using p by (intro exI [of _ p]) simp
    ultimately show ?thesis by blast
  next
    case False
    then have "(\<exists>p. g \<in> set ((Q(q := fs)) p)) \<longleftrightarrow> g \<in> set fs" by (auto simp: fun_upd_def)
    then show ?thesis using fl [OF a] False by blast
  qed
  then show "fr_in_queue a \<longleftrightarrow> (\<exists>p. g \<in> set ((Q(q := fs)) p))" "\<not> fr_in_queue a \<Longrightarrow> fr_next a = NULL" by blast+
qed

lemma queue_PushBack_rep:
  assumes r: "queues_rep e Q" and f: "frames e f = Some a" and n: "\<forall>p. f \<notin> set (Q p)"
  shows "\<exists>e'. queue_PushBack q f e = Inr e' \<and> queues_rep e' (Q(q := Q q @ [f]))"
proof -
  let ?a = "a\<lparr>fr_in_queue := True\<rparr>"
  let ?mem = "(frames e)(f \<mapsto> ?a)"
  have m: "mark_queued f e = Inr ?mem" using mark_queued_cases [OF r f] n by simp
  have q: "chain (frames e) (q_head (queues e q)) (Q q)" "q_tail (queues e q) = (if Q q = [] then NULL else Some (last (Q q)))"
      "distinct (Q q)"
    using queues_repD(1) [OF r, of q] by (simp_all add: queue_rep_def)
  have nx: "fr_next a = NULL" using queues_repD(3,4) [OF r f] n by blast
  show ?thesis
  proof (cases "Q q = []")
    case True
    then have p: "queue_PushBack q f e = Inr (put_queue q (Some f) (Some f) (put_frames ?mem e))"
      using m q by (simp add: queue_PushBack_def Let_def)
    have "queues_rep (put_queue q (Some f) (Some f) (put_frames ?mem e)) (Q(q := [f]))"
    proof (rule queues_rep_upd [OF r])
      show "queue_rep (put_queue q (Some f) (Some f) (put_frames ?mem e)) q [f]" using nx by (simp add: queue_rep_def)
      show "frames (put_queue q (Some f) (Some f) (put_frames ?mem e)) g = frames e g" if "g \<in> set (Q p)" for p g
        using that n by auto
    next
      fix g c assume g: "frames (put_queue q (Some f) (Some f) (put_frames ?mem e)) g = Some c" "\<forall>p. p \<noteq> q \<longrightarrow> g \<notin> set (Q p)"
      then have "\<forall>p. g \<notin> set (Q p)" using True by (metis empty_iff list.set(1))
      then show "(fr_in_queue c \<longleftrightarrow> g \<in> set [f]) \<and> (\<not> fr_in_queue c \<longrightarrow> fr_next c = NULL)"
        using g(1) queues_repD(3,4) [OF r, of g c] by (cases "g = f") auto
    qed (use n in auto)
    then show ?thesis using p True by simp
  next
    case False
    then obtain c where c: "frames e (last (Q q)) = Some c" "fr_in_queue c" using in_queue_frame [OF r] last_in_set by blast
    have lf: "last (Q q) \<noteq> f" using n False last_in_set by metis
    have cn: "fr_next c = NULL" using chain_last [OF q(1) False] c(1) by simp
    obtain h where h: "q_head (queues e q) = Some h" using q(1) False by (cases "Q q") auto
    let ?mem2 = "?mem(last (Q q) \<mapsto> c\<lparr>fr_next := Some f\<rparr>)"
    let ?e = "put_queue q (Some h) (Some f) (put_frames ?mem2 e)"
    have p: "queue_PushBack q f e = Inr ?e"
      using m q(2) h c(1) cn lf False by (simp add: queue_PushBack_def Let_def node_put_def node_at_def)
    have ch: "chain ?mem (Some h) (Q q)"
      by (rule chain_cong [OF _ q(1) [unfolded h]]) (use in_queue_frame [OF r] n in fastforce)
    have "chain ?mem2 (Some h) (Q q @ [f])"
      by (rule chain_append [OF ch False q(3), where b = ?a]) (use n nx c(1) lf in simp_all)
    then have "queue_rep ?e q (Q q @ [f])" using q(3) n by (simp add: queue_rep_def)
    then have "queues_rep ?e (Q(q := Q q @ [f]))"
    proof (rule queues_rep_upd [OF r, rotated])
      show "frames ?e g = frames e g" if "p \<noteq> q" "g \<in> set (Q p)" for p g
      proof -
        have "g \<noteq> last (Q q)" using queues_repD(2) [OF r that(1)] that(2) False last_in_set by blast
        then show ?thesis using that(2) n by auto
      qed
      show "set (Q p) \<inter> set (Q q @ [f]) = {}" if "p \<noteq> q" for p using queues_repD(2) [OF r that] n by auto
    next
      fix g b assume g: "frames ?e g = Some b" "\<forall>p. p \<noteq> q \<longrightarrow> g \<notin> set (Q p)"
      then have "(\<exists>p. g \<in> set (Q p)) \<longleftrightarrow> g \<in> set (Q q)" by metis
      then show "(fr_in_queue b \<longleftrightarrow> g \<in> set (Q q @ [f])) \<and> (\<not> fr_in_queue b \<longrightarrow> fr_next b = NULL)"
        using g(1) queues_repD(3,4) [OF r, of g b] c lf False by (cases "g = f"; cases "g = last (Q q)") auto
    qed simp
    then show ?thesis using p by blast
  qed
qed

lemma queue_PushFront_rep:
  assumes r: "queues_rep e Q" and f: "frames e f = Some a" and n: "\<forall>p. f \<notin> set (Q p)"
  shows "\<exists>e'. queue_PushFront q f e = Inr e' \<and> queues_rep e' (Q(q := f # Q q))"
proof -
  let ?a = "a\<lparr>fr_in_queue := True\<rparr>"
  let ?mem = "(frames e)(f \<mapsto> ?a)"
  have m: "mark_queued f e = Inr ?mem" using mark_queued_cases [OF r f] n by simp
  have q: "chain (frames e) (q_head (queues e q)) (Q q)" "q_tail (queues e q) = (if Q q = [] then NULL else Some (last (Q q)))"
      "distinct (Q q)"
    using queues_repD(1) [OF r, of q] by (simp_all add: queue_rep_def)
  have nx: "fr_next a = NULL" using queues_repD(3,4) [OF r f] n by blast
  let ?hd = "q_head (queues e q)" and ?tail = "if Q q = [] then Some f else Some (last (Q q))"
  let ?e = "put_queue q (Some f) ?tail (put_frames ((frames e)(f \<mapsto> ?a\<lparr>fr_next := ?hd\<rparr>)) e)"
  have p: "queue_PushFront q f e = Inr ?e"
  proof (cases "Q q = []")
    case True
    moreover have "?a\<lparr>fr_next := NULL\<rparr> = ?a" using nx by simp
    ultimately show ?thesis using m q by (simp add: queue_PushFront_def Let_def)
  next
    case False
    then obtain c where c: "frames e (last (Q q)) = Some c" using in_queue_frame [OF r] last_in_set by blast
    have lf: "last (Q q) \<noteq> f" using n False last_in_set by metis
    have cn: "fr_next c = NULL" using chain_last [OF q(1) False] c(1) by simp
    obtain h where h: "?hd = Some h" using q(1) False by (cases "Q q") auto
    show ?thesis using m q(2) h c(1) cn lf False by (simp add: queue_PushFront_def Let_def node_put_def node_at_def)
  qed
  have "chain ((frames e)(f \<mapsto> ?a\<lparr>fr_next := ?hd\<rparr>)) ?hd (Q q)"
    by (rule chain_cong [OF _ q(1)]) (use in_queue_frame [OF r] n in fastforce)
  then have "queue_rep ?e q (f # Q q)" using q(3) n by (simp add: queue_rep_def)
  then have "queues_rep ?e (Q(q := f # Q q))"
  proof (rule queues_rep_upd [OF r, rotated])
    show "frames ?e g = frames e g" if "g \<in> set (Q p)" for p g using that n by auto
    show "set (Q p) \<inter> set (f # Q q) = {}" if "p \<noteq> q" for p using queues_repD(2) [OF r that] n by auto
  next
    fix g b assume g: "frames ?e g = Some b" "\<forall>p. p \<noteq> q \<longrightarrow> g \<notin> set (Q p)"
    then have "(\<exists>p. g \<in> set (Q p)) \<longleftrightarrow> g \<in> set (Q q)" by metis
    then show "(fr_in_queue b \<longleftrightarrow> g \<in> set (f # Q q)) \<and> (\<not> fr_in_queue b \<longrightarrow> fr_next b = NULL)"
      using g(1) queues_repD(3,4) [OF r, of g b] by (cases "g = f") auto
  qed simp
  then show ?thesis using p by blast
qed

lemma queue_PopFront_rep:
  assumes r: "queues_rep e Q" and q: "Q q = f # fs"
  shows "\<exists>a e'. frames e f = Some a \<and> queue_PopFront q e = Inr (e', Some f) \<and> queues_rep e' (Q(q := fs)) \<and>
    frames e' = (frames e)(f \<mapsto> a\<lparr>fr_next := NULL, fr_in_queue := False\<rparr>) \<and> heap e' = heap e \<and> debug e' = debug e"
proof -
  obtain a where a: "frames e f = Some a" "fr_in_queue a" using in_queue_frame [OF r, of f q] q by auto
  have c: "q_head (queues e q) = Some f" "chain (frames e) (fr_next a) fs" "q_tail (queues e q) = Some (last (f # fs))" "distinct (f # fs)"
    using queues_repD(1) [OF r, of q] q a(1) by (auto simp: queue_rep_def)
  let ?mem = "(frames e)(f \<mapsto> a\<lparr>fr_next := NULL, fr_in_queue := False\<rparr>)"
  let ?tail = "if fs = [] then NULL else Some (last fs)"
  let ?e = "put_queue q (fr_next a) ?tail (put_frames ?mem e)"
  have "Some f = q_tail (queues e q) \<longleftrightarrow> fs = []" using c(3,4) last_in_set [of fs] by auto
  then have p: "queue_PopFront q e = Inr (?e, Some f)"
    using c a(1) by (cases "fs = []") (simp_all add: queue_PopFront_def Let_def)
  have "chain ?mem (fr_next a) fs"
    by (rule chain_cong [OF _ c(2)]) (use chain_frames [OF c(2)] c(4) in auto)
  then have "queue_rep ?e q fs" using c(4) by (simp add: queue_rep_def)
  then have "queues_rep ?e (Q(q := fs))"
  proof (rule queues_rep_upd [OF r, rotated])
    show "frames ?e g = frames e g" if "p \<noteq> q" "g \<in> set (Q p)" for p g
      using queues_repD(2) [OF r that(1)] that(2) q by auto
    show "set (Q p) \<inter> set fs = {}" if "p \<noteq> q" for p using queues_repD(2) [OF r that] q by auto
  next
    fix g b assume g: "frames ?e g = Some b" "\<forall>p. p \<noteq> q \<longrightarrow> g \<notin> set (Q p)"
    then have "(\<exists>p. g \<in> set (Q p)) \<longleftrightarrow> g \<in> set (f # fs)" using q by metis
    then show "(fr_in_queue b \<longleftrightarrow> g \<in> set fs) \<and> (\<not> fr_in_queue b \<longrightarrow> fr_next b = NULL)"
      using g(1) queues_repD(3,4) [OF r, of g b] c(4) by (cases "g = f") auto
  qed simp
  then show ?thesis using p a(1) by (simp add: put_queue_def put_frames_def)
qed

section \<open>Waking up\<close>

definition cycle_of :: "'u engine \<Rightarrow> nat \<Rightarrow> int" where
  "cycle_of e ev = dom_cycle_time (domains e ! the (ev_domain (events e ! ev)))"

lemma cycle_of_same:
  assumes "same_program e e'" "live_event e ev"
  shows "cycle_of e' ev = cycle_of e ev"
proof -
  have "ev_domain (events e' ! ev) = ev_domain (events e ! ev)"
    using assms by (intro map_domain_nth(2)) (simp_all add: same_program_def live_event_def)
  then show ?thesis using assms(1) by (simp add: cycle_of_def same_program_def)
qed

lemma Schedule_enters:
  assumes ok: "engine_ok e" and l: "\<not> locked e" and live: "live_event e ev" and t: "0 \<le> after"
    and f: "frames e f = Some a" "\<not> fr_in_heap a" "\<not> fr_in_queue a"
  shows "Schedule (Some ev) (Some f) after period e = enter_heap ev f (cycle_of e ev) after period e" "0 < cycle_of e ev"
proof -
  have ev: "ev \<noteq> null_event" using live engine_okD(5) [OF ok] by (auto simp: live_event_def events_ok_def)
  obtain d where d: "event_at e ev = Inr (events e ! ev)" "ev_domain (events e ! ev) = Some d" "domain_at e d = Inr (domains e ! d)"
      "0 < dom_cycle_time (domains e ! d)"
    using live_domain [OF engine_okD(5) [OF ok] live] by blast
  then show "Schedule (Some ev) (Some f) after period e = enter_heap ev f (cycle_of e ev) after period e" "0 < cycle_of e ev"
    using f l ev t by (simp_all add: Schedule_def cycle_of_def)
qed

lemma WakeupOne_rep:
  assumes ok: "engine_ok e" and r: "queues_rep e Q" and l: "\<not> locked e" and q: "Q q = f # fs"
    and w: "fr_wakeup (fr e f) = Some ev" "live_event e ev"
  shows "\<exists>e'. queue_WakeupOne q e = Inr e' \<and> engine_ok e' \<and> queues_rep e' (Q(q := fs)) \<and> same_program e e' \<and>
    debug e' = debug e @ [Scheduled ev (due_time (current_time e) (cycle_of e ev) 0)] \<and> set (heap e') = insert f (set (heap e)) \<and>
    (\<forall>g. g \<noteq> f \<longrightarrow> frames e' g = frames e g) \<and> fr_event (fr e' f) = Some ev \<and>
    fr_time (fr e' f) = due_time (current_time e) (cycle_of e ev) 0"
proof -
  obtain a e1 where e1: "frames e f = Some a" "queue_PopFront q e = Inr (e1, Some f)" "queues_rep e1 (Q(q := fs))"
      "frames e1 = (frames e)(f \<mapsto> a\<lparr>fr_next := NULL, fr_in_queue := False\<rparr>)" "heap e1 = heap e" "debug e1 = debug e"
    using queue_PopFront_rep [OF r q] by blast
  let ?b = "a\<lparr>fr_next := NULL, fr_in_queue := False\<rparr>"
  let ?c = "?b\<lparr>fr_wakeup := NULL\<rparr>"
  let ?e2 = "put_frames ((frames e1)(f \<mapsto> ?c)) e1"
  have s1: "handler_step True e e1" by (rule queue_PopFront_step(1) [OF ok e1(2)])
  then have o1: "engine_ok e1" and p1: "same_program e e1" by (simp_all add: handler_step_def extends_def)
  have f1: "frames e1 f = Some ?b" using e1(4) by simp
  have s2: "handler_step True e1 ?e2" by (rule queue_put_step [OF o1 f1]) simp_all
  then have o2: "engine_ok ?e2" and p2: "same_program e1 ?e2" by (simp_all add: handler_step_def extends_def)
  have p: "same_program e ?e2" using same_program_trans [OF p1 p2] .
  have r2: "queues_rep ?e2 (Q(q := fs))" by (rule queues_rep_cong [OF e1(3)]) (use f1 in \<open>auto split: option.splits if_splits\<close>)
  have f2: "frames ?e2 f = Some ?c" by simp
  have inq: "fr_in_queue a" using in_queue_frame [OF r, of f q] q e1(1) by simp
  then have nh: "\<not> fr_in_heap ?c" using engine_okD(3) [OF ok e1(1)] by (auto simp: frame_ok_def)
  have l2: "\<not> locked ?e2" and t2: "current_time ?e2 = current_time e" using p l by (simp_all add: same_program_def)
  have lv: "live_event ?e2 ev" and cy: "cycle_of ?e2 ev = cycle_of e ev"
    using live_same_program [OF p] cycle_of_same [OF p w(2)] w(2) by simp_all
  have nq: "\<not> fr_in_queue ?c" by simp
  note sch = Schedule_enters(1) [OF o2 l2 lv order_refl f2 nh nq, of 0] and pos = Schedule_enters(2) [OF o2 l2 lv order_refl f2 nh nq]
  obtain e3 where e3: "enter_heap ev f (cycle_of ?e2 ev) 0 0 ?e2 = Inr e3" "engine_ok e3" "extends ?e2 e3"
      "frames e3 = (frames ?e2)(f \<mapsto> entered ?c ev (due_time (current_time ?e2) (cycle_of ?e2 ev) 0) 0 (sequence_counter ?e2 + 1))"
      "set (heap e3) = insert f (set (heap ?e2))" "debug e3 = debug ?e2 @ [Scheduled ev (due_time (current_time ?e2) (cycle_of ?e2 ev) 0)]"
      "queues e3 = queues ?e2"
    using enter_heap_ok [OF o2 lv f2 nh nq pos order_refl, of 0] by auto
  have h2: "heap ?e2 = heap e" "debug ?e2 = debug e" using e1(5,6) by (simp_all add: put_frames_def)
  have "queue_WakeupOne q e = Inr e3"
  proof -
    have "q_head (queues e q) = Some f" using queues_repD(1) [OF r, of q] q by (simp add: queue_rep_def)
    then show ?thesis using e1(1,2) f1 w(1) sch e3(1) by (simp add: queue_WakeupOne_def node_put_def node_at_def Let_def)
  qed
  moreover have "queues_rep e3 (Q(q := fs))"
    by (rule queues_rep_cong [OF r2 e3(7)]) (use e3(4) in \<open>auto simp: entered_def split: option.splits if_splits\<close>)
  moreover have "same_program e e3" using p e3(3) same_program_trans by (auto simp: extends_def)
  ultimately show ?thesis
    using e3(2,4,5,6) e1(4) h2 cy t2 by (intro exI [of _ e3]) (simp add: entered_def)
qed

lemma WakeupAll_rep:
  "engine_ok e \<Longrightarrow> queues_rep e Q \<Longrightarrow> \<not> locked e \<Longrightarrow> \<forall>f \<in> set (Q q). \<exists>ev. fr_wakeup (fr e f) = Some ev \<and> live_event e ev \<Longrightarrow>
   \<exists>e'. queue_WakeupAll q e = Some (Inr e') \<and> engine_ok e' \<and> queues_rep e' (Q(q := [])) \<and>
     debug e' = debug e @ map (\<lambda>f. let ev = the (fr_wakeup (fr e f)) in Scheduled ev (due_time (current_time e) (cycle_of e ev) 0)) (Q q) \<and>
     set (heap e') = set (heap e) \<union> set (Q q) \<and> same_program e e' \<and> (\<forall>g. g \<notin> set (Q q) \<longrightarrow> frames e' g = frames e g) \<and>
     (\<forall>f \<in> set (Q q). fr_event (fr e' f) = fr_wakeup (fr e f) \<and>
        fr_time (fr e' f) = due_time (current_time e) (cycle_of e (the (fr_wakeup (fr e f)))) 0)"
proof (induction "Q q" arbitrary: e Q)
  case Nil
  then have "q_head (queues e q) = NULL" using queues_repD(1) [OF Nil(3), of q] by (simp add: queue_rep_def)
  moreover have "Q(q := []) = Q" using Nil(1) by auto
  ultimately show ?case using Nil by (subst queue_WakeupAll.simps) simp
next
  case (Cons f fs)
  note q = Cons(2) [symmetric]
  obtain ev where ev: "fr_wakeup (fr e f) = Some ev" "live_event e ev" using Cons(6) q by auto
  obtain e1 where e1: "queue_WakeupOne q e = Inr e1" "engine_ok e1" "queues_rep e1 (Q(q := fs))" "same_program e e1"
      "debug e1 = debug e @ [Scheduled ev (due_time (current_time e) (cycle_of e ev) 0)]" "set (heap e1) = insert f (set (heap e))"
      "\<And>g. g \<noteq> f \<Longrightarrow> frames e1 g = frames e g" "fr_event (fr e1 f) = Some ev"
      "fr_time (fr e1 f) = due_time (current_time e) (cycle_of e ev) 0"
    using WakeupOne_rep [OF Cons(3,4,5) q ev] by blast
  have nf: "f \<notin> set fs" using queues_repD(1) [OF Cons(4), of q] q by (simp add: queue_rep_def)
  have w1: "\<forall>g \<in> set fs. \<exists>ev. fr_wakeup (fr e1 g) = Some ev \<and> live_event e1 ev"
  proof
    fix g assume g: "g \<in> set fs"
    then have "g \<noteq> f" using nf by blast
    then show "\<exists>ev. fr_wakeup (fr e1 g) = Some ev \<and> live_event e1 ev"
      using Cons(6) q g e1(7) live_same_program [OF e1(4)] by simp
  qed
  have l1: "\<not> locked e1" using e1(4) Cons(5) by (simp add: same_program_def)
  have "fs = (Q(q := fs)) q" by simp
  then obtain e' where e': "queue_WakeupAll q e1 = Some (Inr e')" "engine_ok e'" "queues_rep e' (Q(q := []))"
      "debug e' = debug e1 @ map (\<lambda>f. let ev = the (fr_wakeup (fr e1 f)) in Scheduled ev (due_time (current_time e1) (cycle_of e1 ev) 0)) fs"
      "set (heap e') = set (heap e1) \<union> set fs" "same_program e1 e'" "\<And>g. g \<notin> set fs \<Longrightarrow> frames e' g = frames e1 g"
      "\<And>g. g \<in> set fs \<Longrightarrow> fr_event (fr e' g) = fr_wakeup (fr e1 g) \<and>
         fr_time (fr e' g) = due_time (current_time e1) (cycle_of e1 (the (fr_wakeup (fr e1 g)))) 0"
    using Cons(1) [of "Q(q := fs)" e1] e1(2,3) l1 w1 by auto
  have same: "map (\<lambda>f. let ev = the (fr_wakeup (fr e1 f)) in Scheduled ev (due_time (current_time e1) (cycle_of e1 ev) 0)) fs =
      map (\<lambda>f. let ev = the (fr_wakeup (fr e f)) in Scheduled ev (due_time (current_time e) (cycle_of e ev) 0)) fs"
  proof (rule map_cong [OF refl])
    fix g assume g: "g \<in> set fs"
    then have gf: "g \<noteq> f" using nf by blast
    then obtain v where v: "fr_wakeup (fr e g) = Some v" "live_event e v" using Cons(6) q g by force
    show "(let ev = the (fr_wakeup (fr e1 g)) in Scheduled ev (due_time (current_time e1) (cycle_of e1 ev) 0)) =
        (let ev = the (fr_wakeup (fr e g)) in Scheduled ev (due_time (current_time e) (cycle_of e ev) 0))"
      using e1(7) [OF gf] v cycle_of_same [OF e1(4) v(2)] e1(4) by (simp add: same_program_def)
  qed
  have "q_head (queues e q) = Some f" using queues_repD(1) [OF Cons(4), of q] q by (simp add: queue_rep_def)
  then have "queue_WakeupAll q e = Some (Inr e')" using e1(1) e'(1) by (subst queue_WakeupAll.simps) simp
  moreover have "same_program e e'" using e1(4) e'(6) by (rule same_program_trans)
  moreover have "frames e' g = frames e g" if "g \<notin> set (Q q)" for g using that q e'(7) [of g] e1(7) [of g] by simp
  moreover have "fr_event (fr e' g) = fr_wakeup (fr e g) \<and> fr_time (fr e' g) = due_time (current_time e) (cycle_of e (the (fr_wakeup (fr e g)))) 0"
    if g: "g \<in> set (Q q)" for g
  proof (cases "g = f")
    case True
    then show ?thesis using e'(7) [OF nf] e1(8,9) ev(1) by simp
  next
    case False
    then have gs: "g \<in> set fs" using g q by simp
    obtain v where v: "fr_wakeup (fr e g) = Some v" "live_event e v" using Cons(6) g by blast
    have "current_time e1 = current_time e" using e1(4) by (simp add: same_program_def)
    then show ?thesis using e'(8) [OF gs] e1(7) [OF False] v cycle_of_same [OF e1(4) v(2)] by simp
  qed
  ultimately show ?case using e'(2,3,5) e'(4) [unfolded same] e1(5,6) q ev(1) by (intro exI [of _ e']) (simp add: Let_def)
qed

section \<open>Properties\<close>

text \<open>the queues of event chains are lists of frames: \<open>PushBack\<close> and \<open>PushFront\<close> put a frame at the end and at the front, and
  stop at an assertion on a frame that is in a queue already; \<open>PopFront\<close> takes the first one, or gives null. The other
  queues stay as they are.\<close>

theorem queue_operations_refine_lists:
  assumes "queues_rep e Q" "frames e f \<noteq> None"
  shows "(if \<exists>p. f \<in> set (Q p) then queue_PushBack q f e = Inl Assert \<and> queue_PushFront q f e = Inl Assert
    else (\<exists>e'. queue_PushBack q f e = Inr e' \<and> queues_rep e' (Q(q := Q q @ [f]))) \<and>
         (\<exists>e'. queue_PushFront q f e = Inr e' \<and> queues_rep e' (Q(q := f # Q q)))) \<and>
    (\<exists>e'. queue_PopFront q e = Inr (e', if Q q = [] then NULL else Some (hd (Q q))) \<and> queues_rep e' (Q(q := tl (Q q))))"
proof
  obtain a where a: "frames e f = Some a" using assms(2) by blast
  show "if \<exists>p. f \<in> set (Q p) then queue_PushBack q f e = Inl Assert \<and> queue_PushFront q f e = Inl Assert
    else (\<exists>e'. queue_PushBack q f e = Inr e' \<and> queues_rep e' (Q(q := Q q @ [f]))) \<and>
         (\<exists>e'. queue_PushFront q f e = Inr e' \<and> queues_rep e' (Q(q := f # Q q)))"
    using queue_PushBack_rep [OF assms(1) a, of q] queue_PushFront_rep [OF assms(1) a, of q] mark_queued_cases [OF assms(1) a]
    by (simp add: queue_PushBack_def queue_PushFront_def)
  show "\<exists>e'. queue_PopFront q e = Inr (e', if Q q = [] then NULL else Some (hd (Q q))) \<and> queues_rep e' (Q(q := tl (Q q)))"
  proof (cases "Q q")
    case Nil
    then have "q_head (queues e q) = NULL" "q_tail (queues e q) = NULL" using queues_repD(1) [OF assms(1), of q] by (simp_all add: queue_rep_def)
    moreover have "Q(q := []) = Q" using Nil by auto
    ultimately show ?thesis using Nil assms(1) by (simp add: queue_PopFront_def)
  next
    case (Cons g gs)
    then show ?thesis using queue_PopFront_rep [OF assms(1) Cons] by auto
  qed
qed

lemma demo_queues: "queues_rep demo_scheduled (\<lambda>_. [])" "frames demo_scheduled 0 \<noteq> None"
proof -
  have q: "queues demo_scheduled = (\<lambda>_. \<lparr>q_head = NULL, q_tail = NULL\<rparr>)"
    unfolding demo_scheduled_def by (simp add: demo_defs)
  have f: "frames demo_scheduled g = Some a \<Longrightarrow> \<not> fr_in_queue a \<and> fr_next a = NULL" for g a
    unfolding demo_scheduled_def by (simp add: demo_defs split: if_splits) auto
  show "queues_rep demo_scheduled (\<lambda>_. [])" using q f by (auto simp: queues_rep_def queue_rep_def)
  show "frames demo_scheduled 0 \<noteq> None" unfolding demo_scheduled_def by (simp add: demo_defs)
qed

theorem queue_operations_refine_lists_witness:
  "(\<exists>e'. queue_PushBack 7 0 demo_scheduled = Inr e' \<and> queues_rep e' ((\<lambda>_. [])(7 := [0]))) \<and>
   (\<exists>e'. queue_PopFront 7 demo_scheduled = Inr (e', NULL))"
  using queue_operations_refine_lists [OF demo_queues, of 7] by auto

text \<open>waking up a whole queue ends, empties the queue and schedules the wakeup event of each waiting frame for the current
  cycle of its domain, in the order of the queue; the other queues and the invariant of the engine stay.\<close>

theorem wakeup_all_schedules_queue:
  assumes "engine_ok e" "queues_rep e Q" "\<not> locked e"
    and "\<forall>f \<in> set (Q q). \<exists>ev. fr_wakeup (fr e f) = Some ev \<and> live_event e ev"
  shows "\<exists>e'. queue_WakeupAll q e = Some (Inr e') \<and> engine_ok e' \<and> queues_rep e' (Q(q := [])) \<and>
    debug e' = debug e @ map (\<lambda>f. let ev = the (fr_wakeup (fr e f)) in Scheduled ev (due_time (current_time e) (cycle_of e ev) 0)) (Q q) \<and>
    set (heap e') = set (heap e) \<union> set (Q q)"
  using WakeupAll_rep [where Q = Q, OF assms] by blast

text \<open>Two chains that wait in a queue.\<close>

definition demo_waiting :: "nat engine" where
  "demo_waiting =
     (case alloc_frame (fst (alloc_frame demo_engine)) of (e, _) \<Rightarrow>
      case andthen (queue_Wait 3 (Some 1) False (e\<lparr>current_frame := Some 0\<rparr>)) (\<lambda>e.
        queue_Wait 3 (Some 2) False (e\<lparr>current_frame := Some 1\<rparr>)) of
        Inr e \<Rightarrow> e\<lparr>current_frame := NULL\<rparr> | Inl x \<Rightarrow> e)"

lemmas demo_wait_defs = demo_waiting_def demo_defs queue_Wait_def queue_PushBack_def mark_queued_def put_frames_def put_queue_def

lemma demo_waiting_fields:
  "frames demo_waiting = (\<lambda>f. if f = 1 then Some (new_frame\<lparr>fr_wakeup := Some 2, fr_in_queue := True\<rparr>)
     else if f = 0 then Some (new_frame\<lparr>fr_wakeup := Some 1, fr_in_queue := True, fr_next := Some 1\<rparr>) else None)"
  "queues demo_waiting = (\<lambda>q. if q = 3 then \<lparr>q_head = Some 0, q_tail = Some 1\<rparr> else \<lparr>q_head = NULL, q_tail = NULL\<rparr>)"
  "heap demo_waiting = []" "events demo_waiting = events demo_engine" "domains demo_waiting = domains demo_engine"
  "locked demo_waiting = False" "current_time demo_waiting = 0" "next_address demo_waiting = 2" "current_frame demo_waiting = NULL"
  "shortest_cycle_time demo_waiting = 1000" "debug demo_waiting = []"
  by (simp_all add: demo_wait_defs fun_eq_iff)

lemma demo_waiting_ok:
  "engine_ok demo_waiting" "queues_rep demo_waiting ((\<lambda>_. [])(3 := [0, 1]))"
  "\<forall>f \<in> set (((\<lambda>_. [])(3 := [0, 1])) 3). \<exists>ev. fr_wakeup (fr demo_waiting f) = Some ev \<and> live_event demo_waiting ev"
proof -
  show "engine_ok demo_waiting"
    by (auto simp: engine_ok_def heap_sorted_def frame_ok_def events_ok_def demo_waiting_fields demo_engine_fields new_frame_def null_event_def
      less_Suc_eq numeral_3_eq_3 split: if_splits)
  show "queues_rep demo_waiting ((\<lambda>_. [])(3 := [0, 1]))"
    by (auto simp: queues_rep_def queue_rep_def demo_waiting_fields new_frame_def split: if_splits)
  show "\<forall>f \<in> set (((\<lambda>_. [])(3 := [0, 1])) 3). \<exists>ev. fr_wakeup (fr demo_waiting f) = Some ev \<and> live_event demo_waiting ev"
    by (simp add: demo_waiting_fields demo_engine_fields live_event_def)
qed

theorem wakeup_all_schedules_queue_witness:
  "\<exists>e'. queue_WakeupAll 3 demo_waiting = Some (Inr e') \<and> debug e' = [Scheduled 1 0, Scheduled 2 0] \<and> set (heap e') = {0, 1}"
  using wakeup_all_schedules_queue [OF demo_waiting_ok(1,2) _ demo_waiting_ok(3)]
  by (auto simp: demo_waiting_fields demo_engine_fields cycle_of_def due_time_def)

text \<open>A chain that has not waited yet, as the current one.\<close>

definition demo_arriving :: "nat engine" where
  "demo_arriving = (fst (alloc_frame demo_engine))\<lparr>current_frame := Some 0\<rparr>"

lemma demo_arriving_ok:
  "queues_rep demo_arriving (\<lambda>_. [])" "current_frame demo_arriving = Some 0" "frames demo_arriving 0 = Some new_frame"
proof -
  have f: "frames demo_arriving = (\<lambda>f. if f = 0 then Some new_frame else None)" "current_frame demo_arriving = Some 0"
      "queues demo_arriving = (\<lambda>_. \<lparr>q_head = NULL, q_tail = NULL\<rparr>)"
    by (simp_all add: demo_arriving_def demo_defs fun_eq_iff)
  then show "queues_rep demo_arriving (\<lambda>_. [])" "current_frame demo_arriving = Some 0" "frames demo_arriving 0 = Some new_frame"
    by (auto simp: queues_rep_def queue_rep_def new_frame_def split: if_splits)
qed

end
