(* ===== verification/Directory.thy ===== *)
theory Directory
  imports CppBitmap EventQueue
begin

text \<open>
  The directory of a cache, \<open>src/memory/Directory.cc\<close>: for each block of a set and way, and each of its sub-blocks,
  the owner and the sharers, kept as flags of a bit map (\<open>CppBitmap\<close>) beside their number, and a lock per block, in
  whose queue the event chains wait (\<open>EventEngine\<close>). Dimensions and positions are the code's \<open>int\<close>, taken as
  integers; their products are below \<open>2 ^ 31\<close>. The queue of a lock is a number that stands for its address. Debug and
  trace output is left out, but for the loop that follows the waiting frames to print them.
\<close>

section \<open>State\<close>

definition NoOwner :: int where "NoOwner = - 1"

record dir_entry =
  dir_owner :: int
  num_sharers :: int

record lock =
  access_id :: int
  lock_queue :: nat

record directory =
  num_sets :: int
  num_ways :: int
  num_sub_blocks :: int
  num_nodes :: int
  sharers :: bitmap
  entries :: "dir_entry list"
  locks :: "lock list"

text \<open>\<open>misc::inRange\<close>.\<close>

definition inRange :: "int \<Rightarrow> int \<Rightarrow> int \<Rightarrow> bool" where
  "inRange v lo hi \<longleftrightarrow> lo \<le> v \<and> v \<le> hi"

definition checked :: "bool \<Rightarrow> 'a run \<Rightarrow> 'a run" where
  "checked p m = (if p then m else Inl Assert)"

text \<open>The queues of the locks have the addresses from \<open>q\<close> on.\<close>

definition directory_create :: "int \<Rightarrow> int \<Rightarrow> int \<Rightarrow> int \<Rightarrow> nat \<Rightarrow> directory run" where
  "directory_create sets ways subs nodes q =
     andthen (bitmap_create (of_int (sets * ways * subs * nodes))) (\<lambda>bm.
     andthen (new_array (sets * ways * subs) \<lparr>dir_owner = NoOwner, num_sharers = 0\<rparr>) (\<lambda>es.
     andthen (new_array (sets * ways) \<lparr>access_id = 0, lock_queue = 0\<rparr>) (\<lambda>ls.
     Inr \<lparr>num_sets = sets, num_ways = ways, num_sub_blocks = subs, num_nodes = nodes, sharers = bm, entries = es,
       locks = map (\<lambda>i. (ls ! i)\<lparr>lock_queue := q + i\<rparr>) [0..<length ls]\<rparr>)))"

section \<open>Owners and sharers\<close>

definition entry_index :: "directory \<Rightarrow> int \<Rightarrow> int \<Rightarrow> int \<Rightarrow> int run" where
  "entry_index d set_id way_id sub_block_id =
     checked (inRange set_id 0 (num_sets d - 1))
     (checked (inRange way_id 0 (num_ways d - 1))
     (checked (inRange sub_block_id 0 (num_sub_blocks d - 1))
     (Inr (set_id * num_ways d * num_sub_blocks d + way_id * num_sub_blocks d + sub_block_id))))"

definition getEntry :: "directory \<Rightarrow> int \<Rightarrow> int \<Rightarrow> int \<Rightarrow> dir_entry run" where
  "getEntry d set_id way_id sub_block_id = andthen (entry_index d set_id way_id sub_block_id) (rd (entries d))"

text \<open>A change of the entry that \<open>getEntry\<close> points to.\<close>

definition put_entry :: "directory \<Rightarrow> int \<Rightarrow> int \<Rightarrow> int \<Rightarrow> (dir_entry \<Rightarrow> dir_entry) \<Rightarrow> directory run" where
  "put_entry d set_id way_id sub_block_id f =
     andthen (entry_index d set_id way_id sub_block_id) (\<lambda>i.
     andthen (rd (entries d) i) (\<lambda>x.
     andthen (wr (entries d) i (f x)) (\<lambda>es. Inr (d\<lparr>entries := es\<rparr>))))"

definition setOwner :: "int \<Rightarrow> int \<Rightarrow> int \<Rightarrow> int \<Rightarrow> directory \<Rightarrow> directory run" where
  "setOwner set_id way_id sub_block_id owner d =
     checked (owner = NoOwner \<or> inRange owner 0 (num_nodes d - 1))
     (put_entry d set_id way_id sub_block_id (\<lambda>x. x\<lparr>dir_owner := owner\<rparr>))"

text \<open>The checks of the position and its bit.\<close>

definition sharer_bit :: "directory \<Rightarrow> int \<Rightarrow> int \<Rightarrow> int \<Rightarrow> int \<Rightarrow> int run" where
  "sharer_bit d set_id way_id sub_block_id node_id =
     checked (inRange set_id 0 (num_sets d - 1))
     (checked (inRange way_id 0 (num_ways d - 1))
     (checked (inRange sub_block_id 0 (num_sub_blocks d - 1))
     (checked (inRange node_id 0 (num_nodes d - 1))
     (Inr (set_id * num_ways d * num_sub_blocks d * num_nodes d + way_id * num_sub_blocks d * num_nodes d +
        sub_block_id * num_nodes d + node_id)))))"

definition setSharer :: "int \<Rightarrow> int \<Rightarrow> int \<Rightarrow> int \<Rightarrow> directory \<Rightarrow> directory run" where
  "setSharer set_id way_id sub_block_id node_id d =
     andthen (sharer_bit d set_id way_id sub_block_id node_id) (\<lambda>bit_id.
     andthen (Test (sharers d) (of_int bit_id)) (\<lambda>present.
     if present then Inr d
     else
       andthen (getEntry d set_id way_id sub_block_id) (\<lambda>x.
       checked (num_sharers x < num_nodes d)
       (andthen (put_entry d set_id way_id sub_block_id (\<lambda>x. x\<lparr>num_sharers := num_sharers x + 1\<rparr>)) (\<lambda>d.
        andthen (set_bit_at (of_int bit_id) True (sharers d)) (\<lambda>bm. Inr (d\<lparr>sharers := bm\<rparr>)))))))"

definition clearSharer :: "int \<Rightarrow> int \<Rightarrow> int \<Rightarrow> int \<Rightarrow> directory \<Rightarrow> directory run" where
  "clearSharer set_id way_id sub_block_id node_id d =
     andthen (sharer_bit d set_id way_id sub_block_id node_id) (\<lambda>bit_id.
     andthen (Test (sharers d) (of_int bit_id)) (\<lambda>present.
     if \<not> present then Inr d
     else
       andthen (getEntry d set_id way_id sub_block_id) (\<lambda>x.
       checked (0 < num_sharers x)
       (andthen (put_entry d set_id way_id sub_block_id (\<lambda>x. x\<lparr>num_sharers := num_sharers x - 1\<rparr>)) (\<lambda>d.
        andthen (set_bit_at (of_int bit_id) False (sharers d)) (\<lambda>bm. Inr (d\<lparr>sharers := bm\<rparr>)))))))"

definition clearAllSharers :: "int \<Rightarrow> int \<Rightarrow> int \<Rightarrow> directory \<Rightarrow> directory run" where
  "clearAllSharers set_id way_id sub_block_id d =
     andthen (getEntry d set_id way_id sub_block_id) (\<lambda>x.
     if num_sharers x = 0 then Inr d
     else
       let bit_id = set_id * num_ways d * num_sub_blocks d * num_nodes d + way_id * num_sub_blocks d * num_nodes d +
                    sub_block_id * num_nodes d
       in andthen (put_entry d set_id way_id sub_block_id (\<lambda>x. x\<lparr>num_sharers := 0\<rparr>)) (\<lambda>d.
          andthen (run_list (\<lambda>bm i. set_bit_at (of_int (bit_id + int i)) False bm) [0..<nat (num_nodes d)] (sharers d)) (\<lambda>bm.
          Inr (d\<lparr>sharers := bm\<rparr>))))"

definition isSharer :: "directory \<Rightarrow> int \<Rightarrow> int \<Rightarrow> int \<Rightarrow> int \<Rightarrow> bool run" where
  "isSharer d set_id way_id sub_block_id node_id =
     andthen (sharer_bit d set_id way_id sub_block_id node_id) (\<lambda>bit_id. Test (sharers d) (of_int bit_id))"

function shared_loop :: "directory \<Rightarrow> int \<Rightarrow> int \<Rightarrow> int \<Rightarrow> bool run" where
  "shared_loop d set_id way_id sub_block_id =
     (if sub_block_id < num_sub_blocks d
      then andthen (getEntry d set_id way_id sub_block_id) (\<lambda>x.
        if 0 < num_sharers x \<or> dir_owner x \<noteq> NoOwner then Inr True else shared_loop d set_id way_id (sub_block_id + 1))
      else Inr False)"
  by pat_completeness auto
termination by (relation "measure (\<lambda>(d, s, w, b). nat (num_sub_blocks d - b))") auto

declare shared_loop.simps [simp del]

definition isBlockSharedOrOwned :: "directory \<Rightarrow> int \<Rightarrow> int \<Rightarrow> bool run" where
  "isBlockSharedOrOwned d set_id way_id = shared_loop d set_id way_id 0"

section \<open>Locks\<close>

definition lock_index :: "directory \<Rightarrow> int \<Rightarrow> int \<Rightarrow> int run" where
  "lock_index d set_id way_id =
     checked (inRange set_id 0 (num_sets d - 1))
     (checked (inRange way_id 0 (num_ways d - 1)) (Inr (set_id * num_ways d + way_id)))"

definition LockEntry :: "int \<Rightarrow> int \<Rightarrow> nat ptr \<Rightarrow> int \<Rightarrow> directory \<Rightarrow> 'u engine \<Rightarrow> (directory \<times> 'u engine \<times> bool) run" where
  "LockEntry set_id way_id event acc d e =
     checked (0 < acc)
     (andthen (lock_index d set_id way_id) (\<lambda>i.
      andthen (rd (locks d) i) (\<lambda>lk.
      if access_id lk \<noteq> 0
      then andthen (queue_Wait (lock_queue lk) event False e) (\<lambda>e. Inr (d, e, False))
      else andthen (wr (locks d) i (lk\<lparr>access_id := acc\<rparr>)) (\<lambda>ls. Inr (d\<lparr>locks := ls\<rparr>, e, True)))))"

text \<open>The loop that prints the frames to be resumed.\<close>

partial_function (option) resume_loop :: "'u engine \<Rightarrow> nat \<Rightarrow> unit run option" where
  "resume_loop e f =
     bindr (Some (node_at (frames e) (Some f))) (\<lambda>fr. case fr_next fr of None \<Rightarrow> ret () | Some g \<Rightarrow> resume_loop e g)"

definition UnlockEntry :: "int \<Rightarrow> int \<Rightarrow> int \<Rightarrow> directory \<Rightarrow> 'u engine \<Rightarrow> (directory \<times> 'u engine) run option" where
  "UnlockEntry set_id way_id acc d e =
     bindr (Some (lock_index d set_id way_id)) (\<lambda>i.
     bindr (Some (rd (locks d) i)) (\<lambda>lk.
     if \<not> 0 < access_id lk then stops Assert
     else if acc \<noteq> access_id lk then stops Assert
     else
       bindr (case q_head (queues e (lock_queue lk)) of
                None \<Rightarrow> ret e
              | Some f \<Rightarrow> bindr (resume_loop e f) (\<lambda>_. queue_WakeupAll (lock_queue lk) e)) (\<lambda>e.
       bindr (Some (wr (locks d) i (lk\<lparr>access_id := 0\<rparr>))) (\<lambda>ls. ret (d\<lparr>locks := ls\<rparr>, e)))))"

definition getEntryAccessId :: "directory \<Rightarrow> int \<Rightarrow> int \<Rightarrow> int run" where
  "getEntryAccessId d set_id way_id = andthen (lock_index d set_id way_id) (\<lambda>i. andthen (rd (locks d) i) (\<lambda>lk. Inr (access_id lk)))"

definition isEntryLocked :: "directory \<Rightarrow> int \<Rightarrow> int \<Rightarrow> bool run" where
  "isEntryLocked d set_id way_id = andthen (getEntryAccessId d set_id way_id) (\<lambda>a. Inr (a \<noteq> 0))"

section \<open>Positions\<close>

lemma mix_bounds:
  assumes "0 \<le> i" "i < m" "0 \<le> j" "j < (n :: int)"
  shows "0 \<le> i * n + j" "i * n + j < m * n"
proof -
  have "0 \<le> i * n" using assms by (intro mult_nonneg_nonneg) simp_all
  then show "0 \<le> i * n + j" using assms by simp
  have "(i + 1) * n \<le> m * n" using assms by (intro mult_right_mono) simp_all
  then show "i * n + j < m * n" using assms by (simp add: distrib_right)
qed

lemma mix_inj:
  assumes "0 \<le> j" "j < (n :: int)" "0 \<le> l" "l < n" "i * n + j = k * n + l"
  shows "i = k" "j = l"
proof -
  have "(i * n + j) div n = i" "(k * n + l) div n = k" "(i * n + j) mod n = j" "(k * n + l) mod n = l"
    using assms(1-4) by (simp_all add: div_add1_eq)
  then show "i = k" "j = l" using assms(5) by auto
qed

type_synonym place = "int \<times> int \<times> int"

fun valid :: "directory \<Rightarrow> place \<Rightarrow> bool" where
  "valid d (s, w, b) \<longleftrightarrow> 0 \<le> s \<and> s < num_sets d \<and> 0 \<le> w \<and> w < num_ways d \<and> 0 \<le> b \<and> b < num_sub_blocks d"

fun pos :: "directory \<Rightarrow> place \<Rightarrow> int" where
  "pos d (s, w, b) = (s * num_ways d + w) * num_sub_blocks d + b"

definition bit_pos :: "directory \<Rightarrow> place \<Rightarrow> int \<Rightarrow> int" where
  "bit_pos d p n = pos d p * num_nodes d + n"

definition node_ok :: "directory \<Rightarrow> int \<Rightarrow> bool" where
  "node_ok d n \<longleftrightarrow> 0 \<le> n \<and> n < num_nodes d"

text \<open>The arrays have the size of the dimensions, whose product is an \<open>int\<close>.\<close>

definition shape :: "directory \<Rightarrow> bool" where
  "shape d \<longleftrightarrow> 0 \<le> num_sets d \<and> 0 \<le> num_ways d \<and> 0 \<le> num_sub_blocks d \<and> 0 \<le> num_nodes d \<and> bitmap_ok (sharers d) \<and>
     int (unat (bits_size (sharers d))) = num_sets d * num_ways d * num_sub_blocks d * num_nodes d \<and>
     int (length (entries d)) = num_sets d * num_ways d * num_sub_blocks d \<and> int (length (locks d)) = num_sets d * num_ways d"

lemma pos_bounds:
  assumes "shape d" "valid d p"
  shows "0 \<le> pos d p" "pos d p < int (length (entries d))"
proof -
  obtain s w b where p: "p = (s, w, b)" by (cases p)
  have "0 \<le> s * num_ways d + w" "s * num_ways d + w < num_sets d * num_ways d" using assms(2) p by (auto intro: mix_bounds)
  then have "0 \<le> pos d p \<and> pos d p < num_sets d * num_ways d * num_sub_blocks d" using assms(2) p mix_bounds by simp
  then show "0 \<le> pos d p" "pos d p < int (length (entries d))" using assms(1) by (auto simp: shape_def)
qed

lemma pos_inj:
  assumes "valid d p" "valid d q" "pos d p = pos d q"
  shows "p = q"
proof -
  obtain s w b where p: "p = (s, w, b)" by (cases p)
  obtain s' w' b' where q: "q = (s', w', b')" by (cases q)
  have b: "s * num_ways d + w = s' * num_ways d + w'" "b = b'"
    using assms mix_inj [of b "num_sub_blocks d" b' "s * num_ways d + w" "s' * num_ways d + w'"] p q by simp_all
  then have "s = s'" "w = w'" using assms mix_inj [of w "num_ways d" w' s s'] p q by simp_all
  then show ?thesis using b p q by simp
qed

lemma bit_bounds:
  assumes "shape d" "valid d p" "node_ok d n"
  shows "0 \<le> bit_pos d p n" "nat (bit_pos d p n) < length (bits (sharers d))"
proof -
  have "pos d p < num_sets d * num_ways d * num_sub_blocks d" using pos_bounds [OF assms(1,2)] assms(1) by (simp add: shape_def)
  then have b: "0 \<le> bit_pos d p n" "bit_pos d p n < num_sets d * num_ways d * num_sub_blocks d * num_nodes d"
    using mix_bounds [of "pos d p" _ n "num_nodes d"] pos_bounds(1) [OF assms(1,2)] assms(3) by (simp_all add: node_ok_def bit_pos_def)
  then show "0 \<le> bit_pos d p n" by simp
  have "bit_pos d p n < int (length (bits (sharers d)))" using b assms(1) by (simp add: shape_def)
  then show "nat (bit_pos d p n) < length (bits (sharers d))" using b by linarith
qed

lemma bit_inj:
  assumes "shape d" "valid d p" "valid d q" "node_ok d n" "node_ok d m" "nat (bit_pos d p n) = nat (bit_pos d q m)"
  shows "p = q" "n = m"
proof -
  have "bit_pos d p n = bit_pos d q m" using assms(6) bit_bounds(1) [OF assms(1)] assms(2-5) by (metis eq_nat_nat_iff)
  then have "pos d p = pos d q" "n = m"
    using mix_inj [of n "num_nodes d" m "pos d p" "pos d q"] assms(4,5) by (simp_all add: bit_pos_def node_ok_def)
  then show "p = q" "n = m" using pos_inj assms(2,3) by auto
qed

lemma entry_index_valid: "valid d (s, w, b) \<Longrightarrow> entry_index d s w b = Inr (pos d (s, w, b))"
  by (simp add: entry_index_def checked_def inRange_def algebra_simps)

lemma sharer_bit_valid: "valid d (s, w, b) \<Longrightarrow> node_ok d n \<Longrightarrow> sharer_bit d s w b n = Inr (bit_pos d (s, w, b) n)"
  by (simp add: sharer_bit_def checked_def inRange_def bit_pos_def node_ok_def algebra_simps)

section \<open>The owner and the sharers\<close>

text \<open>The abstract value of a directory: the owner and the set of sharers at each place.\<close>

definition dir_rep :: "directory \<Rightarrow> (place \<Rightarrow> int \<times> int set) \<Rightarrow> bool" where
  "dir_rep d A \<longleftrightarrow> shape d \<and>
     (\<forall>p. valid d p \<longrightarrow> (entries d ! nat (pos d p) = \<lparr>dir_owner = fst (A p), num_sharers = int (card (snd (A p)))\<rparr> \<and>
        (fst (A p) = NoOwner \<or> node_ok d (fst (A p))) \<and> snd (A p) \<subseteq> {n. node_ok d n} \<and>
        (\<forall>n. node_ok d n \<longrightarrow> (bits (sharers d) ! nat (bit_pos d p n) \<longleftrightarrow> n \<in> snd (A p)))))"

lemma finite_nodes: "S \<subseteq> {n. node_ok d n} \<Longrightarrow> finite S"
proof -
  assume "S \<subseteq> {n. node_ok d n}"
  moreover have "{n. node_ok d n} \<subseteq> {0..num_nodes d}" by (auto simp: node_ok_def)
  ultimately show "finite S" by (meson finite_atLeastAtMost_int finite_subset)
qed

lemma dir_repD:
  assumes "dir_rep d A" "valid d p"
  shows "shape d" "entries d ! nat (pos d p) = \<lparr>dir_owner = fst (A p), num_sharers = int (card (snd (A p)))\<rparr>"
    "fst (A p) = NoOwner \<or> node_ok d (fst (A p))" "snd (A p) \<subseteq> {n. node_ok d n}" "finite (snd (A p))"
    "node_ok d n \<Longrightarrow> bits (sharers d) ! nat (bit_pos d p n) \<longleftrightarrow> n \<in> snd (A p)"
proof -
  show "shape d" "entries d ! nat (pos d p) = \<lparr>dir_owner = fst (A p), num_sharers = int (card (snd (A p)))\<rparr>"
    "fst (A p) = NoOwner \<or> node_ok d (fst (A p))" and s: "snd (A p) \<subseteq> {n. node_ok d n}"
    and "node_ok d n \<Longrightarrow> bits (sharers d) ! nat (bit_pos d p n) \<longleftrightarrow> n \<in> snd (A p)"
    using assms unfolding dir_rep_def by blast+
  show "finite (snd (A p))" by (rule finite_nodes [OF s])
qed

lemma getEntry_rep: "dir_rep d A \<Longrightarrow> valid d (s, w, b) \<Longrightarrow>
  getEntry d s w b = Inr \<lparr>dir_owner = fst (A (s, w, b)), num_sharers = int (card (snd (A (s, w, b))))\<rparr>"
  using dir_repD(1,2) [of d A "(s, w, b)"] pos_bounds [of d "(s, w, b)"] rd_in [of "pos d (s, w, b)" "entries d"] entry_index_valid
  by (simp add: getEntry_def)

lemma put_entry_valid:
  assumes "shape d" "valid d (s, w, b)"
  shows "put_entry d s w b f = Inr (d\<lparr>entries := (entries d)[nat (pos d (s, w, b)) := f (entries d ! nat (pos d (s, w, b)))]\<rparr>)"
  using pos_bounds [OF assms] entry_index_valid [OF assms(2)] by (simp add: put_entry_def rd_in wr_in del: pos.simps)

text \<open>A change at one place.\<close>

lemma dir_rep_upd:
  assumes r: "dir_rep d A" and p: "valid d p" and bm: "bitmap_ok bm" "length (bits bm) = length (bits (sharers d))"
    and o: "owner = NoOwner \<or> node_ok d owner" and S: "S \<subseteq> {n. node_ok d n}"
    and here: "\<And>n. node_ok d n \<Longrightarrow> bits bm ! nat (bit_pos d p n) \<longleftrightarrow> n \<in> S"
    and other: "\<And>q n. q \<noteq> p \<Longrightarrow> valid d q \<Longrightarrow> node_ok d n \<Longrightarrow> bits bm ! nat (bit_pos d q n) = bits (sharers d) ! nat (bit_pos d q n)"
  shows "dir_rep (d\<lparr>entries := (entries d)[nat (pos d p) := \<lparr>dir_owner = owner, num_sharers = int (card S)\<rparr>], sharers := bm\<rparr>) (A(p := (owner, S)))"
proof -
  let ?d = "d\<lparr>entries := (entries d)[nat (pos d p) := \<lparr>dir_owner = owner, num_sharers = int (card S)\<rparr>], sharers := bm\<rparr>"
  have sh: "shape d" using dir_repD(1) [OF r p] .
  have shape: "shape ?d" using sh bm by (simp add: shape_def)
  have v: "valid ?d q = valid d q" and ps: "pos ?d q = pos d q" for q by (cases q; simp)+
  have bp: "bit_pos ?d q n = bit_pos d q n" and nk: "node_ok ?d n = node_ok d n" for q n
    using ps by (simp_all add: bit_pos_def node_ok_def)
  have "entries ?d ! nat (pos d q) = \<lparr>dir_owner = fst ((A(p := (owner, S))) q), num_sharers = int (card (snd ((A(p := (owner, S))) q)))\<rparr> \<and>
      (fst ((A(p := (owner, S))) q) = NoOwner \<or> node_ok d (fst ((A(p := (owner, S))) q))) \<and> snd ((A(p := (owner, S))) q) \<subseteq> {n. node_ok d n} \<and>
      (\<forall>n. node_ok d n \<longrightarrow> (bits (sharers ?d) ! nat (bit_pos d q n) \<longleftrightarrow> n \<in> snd ((A(p := (owner, S))) q)))"
    if q: "valid d q" for q
  proof (cases "q = p")
    case True
    then show ?thesis using pos_bounds [OF sh p] o S here by simp
  next
    case False
    then have "pos d q \<noteq> pos d p" using pos_inj [OF q p] by blast
    then have "nat (pos d q) \<noteq> nat (pos d p)" using pos_bounds(1) [OF sh q] pos_bounds(1) [OF sh p] by (simp add: eq_nat_nat_iff)
    then show ?thesis using False other [OF False q] dir_repD(2-4,6) [OF r q] by simp
  qed
  then show ?thesis unfolding dir_rep_def v ps bp nk using shape by blast
qed

lemma setOwner_rep:
  assumes r: "dir_rep d A" and p: "valid d (s, w, b)" and o: "owner = NoOwner \<or> node_ok d owner"
  shows "\<exists>d'. setOwner s w b owner d = Inr d' \<and> dir_rep d' (A((s, w, b) := (owner, snd (A (s, w, b)))))"
proof -
  let ?p = "(s, w, b)"
  note rd = dir_repD [OF r p]
  have "setOwner s w b owner d = put_entry d s w b (\<lambda>x. x\<lparr>dir_owner := owner\<rparr>)"
    using o by (auto simp: setOwner_def checked_def inRange_def node_ok_def)
  then have "setOwner s w b owner d = Inr (d\<lparr>entries := (entries d)[nat (pos d ?p) := \<lparr>dir_owner = owner, num_sharers = int (card (snd (A ?p)))\<rparr>]\<rparr>)"
    using put_entry_valid [OF rd(1) p] rd(2) by simp
  moreover have "dir_rep (d\<lparr>entries := (entries d)[nat (pos d ?p) := \<lparr>dir_owner = owner, num_sharers = int (card (snd (A ?p)))\<rparr>], sharers := sharers d\<rparr>)
      (A(?p := (owner, snd (A ?p))))"
    by (rule dir_rep_upd [OF r p _ refl o rd(4)]) (use rd(1,6) in \<open>auto simp: shape_def\<close>)
  moreover have "x\<lparr>sharers := sharers d\<rparr> = x" if "sharers x = sharers d" for x :: directory using that by simp
  ultimately show ?thesis by simp
qed

text \<open>Writing the flag of one sharer.\<close>

lemma put_flag:
  assumes r: "dir_rep d A" and p: "valid d p" and n: "node_ok d n"
  shows "\<exists>bm. set_bit_at (of_int (bit_pos d p n)) v (sharers d) = Inr bm \<and> bitmap_ok bm \<and> length (bits bm) = length (bits (sharers d)) \<and>
    (\<forall>m. node_ok d m \<longrightarrow> (bits bm ! nat (bit_pos d p m) \<longleftrightarrow> m \<in> (if v then insert n (snd (A p)) else snd (A p) - {n}))) \<and>
    (\<forall>q m. q \<noteq> p \<longrightarrow> valid d q \<longrightarrow> node_ok d m \<longrightarrow> bits bm ! nat (bit_pos d q m) = bits (sharers d) ! nat (bit_pos d q m))"
proof -
  note rd = dir_repD [OF r p]
  have ok: "bitmap_ok (sharers d)" using rd(1) by (simp add: shape_def)
  note b = bit_bounds [OF rd(1) p n]
  have w: "(of_int (bit_pos d p n) :: size_t) = of_nat (nat (bit_pos d p n))" using b(1) by simp
  obtain bm where bm: "set_bit_at (of_nat (nat (bit_pos d p n))) v (sharers d) = Inr bm" "bitmap_ok bm"
      "bits bm = (bits (sharers d))[nat (bit_pos d p n) := v]"
    using flags.put [OF ok b(2), of v] by blast
  show ?thesis
  proof (intro exI [of _ bm] conjI allI impI)
    show "set_bit_at (of_int (bit_pos d p n)) v (sharers d) = Inr bm" using bm(1) w by simp
    show "bitmap_ok bm" by (rule bm(2))
    show "length (bits bm) = length (bits (sharers d))" unfolding bm(3) by simp
  next
    fix m assume m: "node_ok d m"
    show "bits bm ! nat (bit_pos d p m) \<longleftrightarrow> m \<in> (if v then insert n (snd (A p)) else snd (A p) - {n})"
    proof (cases "m = n")
      case True
      then show ?thesis using b(2) bm(3) by simp
    next
      case False
      then have "nat (bit_pos d p n) \<noteq> nat (bit_pos d p m)" using bit_inj(2) [OF rd(1) p p n m] by blast
      then show ?thesis using bm(3) rd(6) [OF m] False by simp
    qed
  next
    fix q m assume q: "q \<noteq> p" "valid d q" "node_ok d m"
    then have "nat (bit_pos d p n) \<noteq> nat (bit_pos d q m)" using bit_inj(1) [OF rd(1) p q(2) n q(3)] by blast
    then show "bits bm ! nat (bit_pos d q m) = bits (sharers d) ! nat (bit_pos d q m)" using bm(3) by simp
  qed
qed

lemma flag_rep:
  assumes r: "dir_rep d A" and p: "valid d p" and n: "node_ok d n"
  shows "Test (sharers d) (of_int (bit_pos d p n)) = Inr (n \<in> snd (A p))"
proof -
  note rd = dir_repD [OF r p]
  have ok: "bitmap_ok (sharers d)" using rd(1) by (simp add: shape_def)
  note b = bit_bounds [OF rd(1) p n]
  have "(of_int (bit_pos d p n) :: size_t) = of_nat (nat (bit_pos d p n))" using b(1) by simp
  then show ?thesis using flags.get [OF ok b(2)] rd(6) [OF n] by simp
qed

text \<open>Changing the number of sharers and a flag at a place.\<close>

lemma change_sharer:
  assumes r: "dir_rep d A" and p: "valid d (s, w, b)" and n: "node_ok d n"
    and S: "S = (if v then insert n (snd (A (s, w, b))) else snd (A (s, w, b)) - {n})"
    and f: "f \<lparr>dir_owner = fst (A (s, w, b)), num_sharers = int (card (snd (A (s, w, b))))\<rparr> =
      \<lparr>dir_owner = fst (A (s, w, b)), num_sharers = int (card S)\<rparr>"
  shows "\<exists>d'. andthen (put_entry d s w b f) (\<lambda>d'. andthen (set_bit_at (of_int (bit_pos d (s, w, b) n)) v (sharers d'))
      (\<lambda>bm. Inr (d'\<lparr>sharers := bm\<rparr>))) = Inr d' \<and> dir_rep d' (A((s, w, b) := (fst (A (s, w, b)), S)))"
proof -
  let ?p = "(s, w, b)"
  note rd = dir_repD [OF r p]
  obtain bm where bm: "set_bit_at (of_int (bit_pos d ?p n)) v (sharers d) = Inr bm" "bitmap_ok bm" "length (bits bm) = length (bits (sharers d))"
      "\<And>m. node_ok d m \<Longrightarrow> bits bm ! nat (bit_pos d ?p m) \<longleftrightarrow> m \<in> (if v then insert n (snd (A ?p)) else snd (A ?p) - {n})"
      "\<And>q m. q \<noteq> ?p \<Longrightarrow> valid d q \<Longrightarrow> node_ok d m \<Longrightarrow> bits bm ! nat (bit_pos d q m) = bits (sharers d) ! nat (bit_pos d q m)"
    using put_flag [OF r p n, of v] by blast
  have Sn: "S \<subseteq> {n. node_ok d n}" using rd(4) n unfolding S by auto
  have "put_entry d s w b f = Inr (d\<lparr>entries := (entries d)[nat (pos d ?p) := \<lparr>dir_owner = fst (A ?p), num_sharers = int (card S)\<rparr>]\<rparr>)"
    using put_entry_valid [OF rd(1) p] rd(2) f by simp
  then show ?thesis
    using bm(1) dir_rep_upd [OF r p bm(2,3) rd(3) Sn bm(4) [folded S] bm(5)] by simp
qed

lemma setSharer_rep:
  assumes r: "dir_rep d A" and p: "valid d (s, w, b)" and n: "node_ok d n"
  shows "\<exists>d'. setSharer s w b n d = Inr d' \<and> dir_rep d' (A((s, w, b) := (fst (A (s, w, b)), insert n (snd (A (s, w, b))))))"
proof (cases "n \<in> snd (A (s, w, b))")
  case True
  then have "A((s, w, b) := (fst (A (s, w, b)), insert n (snd (A (s, w, b))))) = A" by (simp add: insert_absorb)
  then show ?thesis using r sharer_bit_valid [OF p n] flag_rep [OF r p n] True by (simp add: setSharer_def)
next
  case False
  let ?p = "(s, w, b)"
  note rd = dir_repD [OF r p]
  have c: "card (insert n (snd (A ?p))) = card (snd (A ?p)) + 1" using False rd(5) by simp
  have "insert n (snd (A ?p)) \<subseteq> {0..<num_nodes d}" using rd(4) n by (auto simp: node_ok_def)
  then have "card (insert n (snd (A ?p))) \<le> card {0..<num_nodes d}" by (intro card_mono) simp_all
  then have "int (card (snd (A ?p))) < num_nodes d" using c by simp
  then have "setSharer s w b n d = andthen (put_entry d s w b (\<lambda>x. x\<lparr>num_sharers := num_sharers x + 1\<rparr>))
      (\<lambda>d'. andthen (set_bit_at (of_int (bit_pos d ?p n)) True (sharers d')) (\<lambda>bm. Inr (d'\<lparr>sharers := bm\<rparr>)))"
    using sharer_bit_valid [OF p n] flag_rep [OF r p n] False getEntry_rep [OF r p] by (simp add: setSharer_def checked_def)
  then show ?thesis
    using change_sharer [OF r p n, where v = True and S = "insert n (snd (A ?p))" and f = "\<lambda>x. x\<lparr>num_sharers := num_sharers x + 1\<rparr>"] c by simp
qed

lemma clearSharer_rep:
  assumes r: "dir_rep d A" and p: "valid d (s, w, b)" and n: "node_ok d n"
  shows "\<exists>d'. clearSharer s w b n d = Inr d' \<and> dir_rep d' (A((s, w, b) := (fst (A (s, w, b)), snd (A (s, w, b)) - {n})))"
proof (cases "n \<in> snd (A (s, w, b))")
  case False
  then have "A((s, w, b) := (fst (A (s, w, b)), snd (A (s, w, b)) - {n})) = A" by simp
  then show ?thesis using r sharer_bit_valid [OF p n] flag_rep [OF r p n] False by (simp add: clearSharer_def)
next
  case True
  let ?p = "(s, w, b)"
  note rd = dir_repD [OF r p]
  have c: "0 < card (snd (A ?p))" using True rd(5) card_gt_0_iff by blast
  have c1: "card (snd (A ?p) - {n}) = card (snd (A ?p)) - 1" using True rd(5) by simp
  have "clearSharer s w b n d = andthen (put_entry d s w b (\<lambda>x. x\<lparr>num_sharers := num_sharers x - 1\<rparr>))
      (\<lambda>d'. andthen (set_bit_at (of_int (bit_pos d ?p n)) False (sharers d')) (\<lambda>bm. Inr (d'\<lparr>sharers := bm\<rparr>)))"
    using sharer_bit_valid [OF p n] flag_rep [OF r p n] True getEntry_rep [OF r p] c by (simp add: clearSharer_def checked_def)
  then show ?thesis
    using change_sharer [OF r p n, where v = False and S = "snd (A ?p) - {n}" and f = "\<lambda>x. x\<lparr>num_sharers := num_sharers x - 1\<rparr>"] c c1
    by (simp add: of_nat_diff)
qed

lemma clearAllSharers_rep:
  assumes r: "dir_rep d A" and p: "valid d (s, w, b)"
  shows "\<exists>d'. clearAllSharers s w b d = Inr d' \<and> dir_rep d' (A((s, w, b) := (fst (A (s, w, b)), {})))"
proof (cases "snd (A (s, w, b)) = {}")
  case True
  then have "A((s, w, b) := (fst (A (s, w, b)), {})) = A" by (metis fun_upd_triv prod.collapse)
  then show ?thesis using r getEntry_rep [OF r p] True by (simp add: clearAllSharers_def)
next
  case False
  let ?p = "(s, w, b)"
  note rd = dir_repD [OF r p]
  have ok: "bitmap_ok (sharers d)" and nn: "0 \<le> num_nodes d" using rd(1) by (simp_all add: shape_def)
  define base where "base = bit_pos d ?p 0"
  have c: "card (snd (A ?p)) \<noteq> 0" using False rd(5) by simp
  obtain k where k: "k \<in> snd (A ?p)" using False by blast
  then have "node_ok d k" using rd(4) by auto
  then have n0: "0 < num_nodes d" by (simp add: node_ok_def)
  have last: "node_ok d (num_nodes d - 1)" "node_ok d 0" using n0 by (simp_all add: node_ok_def)
  have b0: "0 \<le> base" unfolding base_def using bit_bounds(1) [OF rd(1) p last(2)] .
  have len: "nat base + nat (num_nodes d) \<le> length (bits (sharers d))"
    using bit_bounds(2) [OF rd(1) p last(1)] b0 n0 by (simp add: base_def bit_pos_def)
  have bp: "nat (bit_pos d ?p m) = nat base + nat m" if "node_ok d m" for m
    using b0 that by (simp add: base_def bit_pos_def node_ok_def nat_add_distrib)
  obtain bm where bm: "run_list (\<lambda>bm i. set_bit_at (of_nat (nat base + i)) False bm) [0..<nat (num_nodes d)] (sharers d) = Inr bm"
      "bitmap_ok bm" "length (bits bm) = length (bits (sharers d))"
      "\<forall>j < length (bits (sharers d)). bits bm ! j = (if nat base \<le> j \<and> j < nat base + nat (num_nodes d) then False else bits (sharers d) ! j)"
    using flags.put_range [OF ok len, of False] by blast
  have w: "(of_int (base + int i) :: size_t) = of_nat (nat base + i)" for i using b0 by simp
  have base: "s * num_ways d * num_sub_blocks d * num_nodes d + w * num_sub_blocks d * num_nodes d + b * num_nodes d = base"
    by (simp add: base_def bit_pos_def algebra_simps)
  have "put_entry d s w b (\<lambda>x. x\<lparr>num_sharers := 0\<rparr>) =
      Inr (d\<lparr>entries := (entries d)[nat (pos d ?p) := \<lparr>dir_owner = fst (A ?p), num_sharers = int (card ({} :: int set))\<rparr>]\<rparr>)"
    using put_entry_valid [OF rd(1) p] rd(2) by simp
  then have "clearAllSharers s w b d =
      Inr (d\<lparr>entries := (entries d)[nat (pos d ?p) := \<lparr>dir_owner = fst (A ?p), num_sharers = int (card ({} :: int set))\<rparr>], sharers := bm\<rparr>)"
    using getEntry_rep [OF r p] c bm(1) by (simp add: clearAllSharers_def Let_def base w del: of_int_add of_nat_add pos.simps)
  moreover have "dir_rep (d\<lparr>entries := (entries d)[nat (pos d ?p) := \<lparr>dir_owner = fst (A ?p), num_sharers = int (card ({} :: int set))\<rparr>], sharers := bm\<rparr>)
      (A(?p := (fst (A ?p), {})))"
  proof (rule dir_rep_upd [OF r p bm(2,3) rd(3)])
    show "bits bm ! nat (bit_pos d ?p m) \<longleftrightarrow> m \<in> {}" if m: "node_ok d m" for m
      using bm(4) bit_bounds(2) [OF rd(1) p m] bp [OF m] m by (simp add: node_ok_def)
    show "bits bm ! nat (bit_pos d q m) = bits (sharers d) ! nat (bit_pos d q m)" if q: "q \<noteq> ?p" "valid d q" "node_ok d m" for q m
    proof -
      have "\<not> (nat base \<le> nat (bit_pos d q m) \<and> nat (bit_pos d q m) < nat base + nat (num_nodes d))"
      proof
        assume a: "nat base \<le> nat (bit_pos d q m) \<and> nat (bit_pos d q m) < nat base + nat (num_nodes d)"
        let ?l = "int (nat (bit_pos d q m) - nat base)"
        have l: "node_ok d ?l" using a n0 by (auto simp: node_ok_def)
        have "nat (bit_pos d ?p ?l) = nat base + (nat (bit_pos d q m) - nat base)" using bp [OF l] by (simp only: nat_int)
        then have "nat (bit_pos d q m) = nat (bit_pos d ?p ?l)" using a by (simp only: le_add_diff_inverse)
        then show False using bit_inj(1) [OF rd(1) q(2) p q(3) l] q(1) by blast
      qed
      then show ?thesis using bm(4) bit_bounds(2) [OF rd(1) q(2,3)] by auto
    qed
  qed simp
  ultimately show ?thesis by blast
qed

lemma isSharer_rep: "dir_rep d A \<Longrightarrow> valid d (s, w, b) \<Longrightarrow> node_ok d n \<Longrightarrow> isSharer d s w b n = Inr (n \<in> snd (A (s, w, b)))"
  using sharer_bit_valid flag_rep by (simp add: isSharer_def)

lemma shared_loop_rep:
  assumes r: "dir_rep d A" and p: "0 \<le> s" "s < num_sets d" "0 \<le> w" "w < num_ways d"
  shows "0 \<le> b \<Longrightarrow> shared_loop d s w b = Inr (\<exists>c. b \<le> c \<and> c < num_sub_blocks d \<and> (snd (A (s, w, c)) \<noteq> {} \<or> fst (A (s, w, c)) \<noteq> NoOwner))"
proof (induction "nat (num_sub_blocks d - b)" arbitrary: b)
  case 0
  then show ?case by (subst shared_loop.simps) auto
next
  case (Suc k)
  then have b: "b < num_sub_blocks d" by simp
  have v: "valid d (s, w, b)" using p b Suc.prems by simp
  have g: "getEntry d s w b = Inr \<lparr>dir_owner = fst (A (s, w, b)), num_sharers = int (card (snd (A (s, w, b))))\<rparr>"
    by (rule getEntry_rep [OF r v])
  have c: "0 < int (card (snd (A (s, w, b)))) \<longleftrightarrow> snd (A (s, w, b)) \<noteq> {}" using dir_repD(5) [OF r v] by (simp add: card_gt_0_iff)
  show ?case
  proof (cases "snd (A (s, w, b)) \<noteq> {} \<or> fst (A (s, w, b)) \<noteq> NoOwner")
    case True
    then show ?thesis using b g c by (subst shared_loop.simps) auto
  next
    case False
    have "shared_loop d s w (b + 1) = Inr (\<exists>c. b + 1 \<le> c \<and> c < num_sub_blocks d \<and> (snd (A (s, w, c)) \<noteq> {} \<or> fst (A (s, w, c)) \<noteq> NoOwner))"
      by (rule Suc.hyps(1)) (use Suc.hyps(2) Suc.prems in simp_all)
    moreover have "(\<exists>c. b + 1 \<le> c \<and> c < num_sub_blocks d \<and> (snd (A (s, w, c)) \<noteq> {} \<or> fst (A (s, w, c)) \<noteq> NoOwner)) =
        (\<exists>c. b \<le> c \<and> c < num_sub_blocks d \<and> (snd (A (s, w, c)) \<noteq> {} \<or> fst (A (s, w, c)) \<noteq> NoOwner))"
    proof -
      have "b \<le> x \<and> x \<noteq> b \<longleftrightarrow> b + 1 \<le> x" for x by linarith
      then show ?thesis using False by metis
    qed
    ultimately show ?thesis using b g c False by (subst shared_loop.simps) simp
  qed
qed

lemma isBlockSharedOrOwned_rep:
  "dir_rep d A \<Longrightarrow> 0 \<le> s \<Longrightarrow> s < num_sets d \<Longrightarrow> 0 \<le> w \<Longrightarrow> w < num_ways d \<Longrightarrow>
   isBlockSharedOrOwned d s w = Inr (\<exists>b. 0 \<le> b \<and> b < num_sub_blocks d \<and> (snd (A (s, w, b)) \<noteq> {} \<or> fst (A (s, w, b)) \<noteq> NoOwner))"
  using shared_loop_rep [of d A s w 0] by (simp add: isBlockSharedOrOwned_def)

lemma directory_create_rep:
  assumes "0 \<le> sets" "0 \<le> ways" "0 \<le> subs" "0 \<le> nodes" "sets * ways * subs * nodes < 2 ^ 31"
  shows "\<exists>d. directory_create sets ways subs nodes q = Inr d \<and> dir_rep d (\<lambda>_. (NoOwner, {})) \<and>
    num_sets d = sets \<and> num_ways d = ways \<and> num_sub_blocks d = subs \<and> num_nodes d = nodes \<and>
    locks d = map (\<lambda>i. \<lparr>access_id = 0, lock_queue = q + i\<rparr>) [0..<nat (sets * ways)]"
proof -
  let ?n = "sets * ways * subs * nodes"
  have n: "0 \<le> ?n" using assms by simp
  have un: "unat (of_int ?n :: size_t) = nat ?n"
  proof -
    have "(of_int ?n :: size_t) = of_nat (nat ?n)" using n by simp
    moreover have "nat ?n < 2 ^ 64" using assms(5) n by simp
    ultimately show ?thesis by (simp add: unat_of_nat)
  qed
  then have "unat (of_int ?n :: size_t) + 63 < 2 ^ 37" using assms(5) n by simp
  then obtain bm where bm: "bitmap_create (of_int ?n) = Inr bm" "bitmap_ok bm" "bits_size bm = of_int ?n" "bits bm = replicate (nat ?n) False"
    using bitmap_create_bits un by metis
  let ?es = "replicate (nat (sets * ways * subs)) \<lparr>dir_owner = NoOwner, num_sharers = 0\<rparr>"
  let ?ls = "map (\<lambda>i. \<lparr>access_id = 0, lock_queue = q + i\<rparr>) [0..<nat (sets * ways)]"
  let ?d = "\<lparr>num_sets = sets, num_ways = ways, num_sub_blocks = subs, num_nodes = nodes, sharers = bm, entries = ?es, locks = ?ls\<rparr>"
  have "0 \<le> sets * ways * subs" "0 \<le> sets * ways" using assms by simp_all
  then have c: "directory_create sets ways subs nodes q = Inr ?d"
    using bm(1) by (simp add: directory_create_def new_array_def cong: map_cong)
  have sh: "shape ?d" using assms(1-4) n bm un by (simp add: shape_def)
  have "dir_rep ?d (\<lambda>_. (NoOwner, {}))"
    unfolding dir_rep_def
  proof (intro conjI allI impI sh)
    fix p assume v: "valid ?d p"
    have "pos ?d p < int (length ?es)" using pos_bounds(2) [OF sh v] by simp
    then have "nat (pos ?d p) < length ?es" using pos_bounds(1) [OF sh v] by linarith
    then show "entries ?d ! nat (pos ?d p) = \<lparr>dir_owner = fst (NoOwner, {} :: int set), num_sharers = int (card (snd (NoOwner, {} :: int set)))\<rparr>"
      by simp
    show "bits (sharers ?d) ! nat (bit_pos ?d p n) \<longleftrightarrow> n \<in> snd (NoOwner, {} :: int set)" if m: "node_ok ?d n" for n
      using bit_bounds(2) [OF sh v m] bm(4) by simp
  qed simp_all
  then show ?thesis using c by (intro exI [of _ ?d]) simp
qed

section \<open>Waiting for a lock\<close>

lemma queue_PushBack_wakeup:
  assumes "queue_PushBack q f e = Inr e'"
  shows "fr_wakeup (fr e' g) = fr_wakeup (fr e g)"
proof -
  obtain mem where m: "mark_queued f e = Inr mem" using assms by (cases "mark_queued f e") (auto simp: queue_PushBack_def)
  then obtain a where a: "frames e f = Some a" "mem = (frames e)(f \<mapsto> a\<lparr>fr_in_queue := True\<rparr>)"
    by (cases "frames e f") (auto simp: mark_queued_def node_at_def split: if_splits)
  then have mw: "fr_wakeup (the (mem x)) = fr_wakeup (fr e x)" for x by simp
  have "frames e' = mem \<or> (\<exists>x b n. frames e' = mem(x \<mapsto> b\<lparr>fr_next := n\<rparr>) \<and> mem x = Some b)"
    using assms m by (auto simp: queue_PushBack_def Let_def node_put_def node_at_def split: if_splits option.splits) blast
  then show ?thesis
  proof
    assume "frames e' = mem"
    then show ?thesis using mw by simp
  next
    assume "\<exists>x b n. frames e' = mem(x \<mapsto> b\<lparr>fr_next := n\<rparr>) \<and> mem x = Some b"
    then obtain x b n where x: "frames e' = mem(x \<mapsto> b\<lparr>fr_next := n\<rparr>)" "mem x = Some b" by blast
    then show ?thesis using mw [of g] by (cases "g = x") auto
  qed
qed

lemma queue_Wait_rep:
  assumes r: "queues_rep e Q" and f: "current_frame e = Some f" "frames e f = Some a" "\<not> fr_in_heap a" "fr_wakeup a = NULL" "\<forall>p. f \<notin> set (Q p)"
  shows "\<exists>e'. queue_Wait q (Some ev) False e = Inr e' \<and> queues_rep e' (Q(q := Q q @ [f])) \<and> fr_wakeup (fr e' f) = Some ev"
proof -
  let ?a = "a\<lparr>fr_wakeup := Some ev\<rparr>"
  let ?e = "put_frames ((frames e)(f \<mapsto> ?a)) e"
  have "queues_rep ?e Q" by (rule queues_rep_cong [OF r]) (use f(2) in \<open>auto split: option.splits if_splits\<close>)
  moreover have "frames ?e f = Some ?a" by simp
  ultimately obtain e' where e': "queue_PushBack q f ?e = Inr e'" "queues_rep e' (Q(q := Q q @ [f]))"
    using queue_PushBack_rep f(5) by blast
  have "queue_Wait q (Some ev) False e = Inr e'" using f e'(1) by (simp add: queue_Wait_def Let_def)
  moreover have "fr_wakeup (fr e' f) = Some ev" using queue_PushBack_wakeup [OF e'(1), of f] by simp
  ultimately show ?thesis using e'(2) by blast
qed

lemma lock_index_valid:
  assumes "shape d" "0 \<le> s" "s < num_sets d" "0 \<le> w" "w < num_ways d"
  shows "lock_index d s w = Inr (s * num_ways d + w)" "0 \<le> s * num_ways d + w" "s * num_ways d + w < int (length (locks d))"
  using assms mix_bounds [of s "num_sets d" w "num_ways d"] by (simp_all add: lock_index_def checked_def inRange_def shape_def)

definition lock_at :: "directory \<Rightarrow> int \<Rightarrow> int \<Rightarrow> lock" where
  "lock_at d s w = locks d ! nat (s * num_ways d + w)"

definition with_lock :: "directory \<Rightarrow> int \<Rightarrow> int \<Rightarrow> int \<Rightarrow> directory" where
  "with_lock d s w acc = d\<lparr>locks := (locks d)[nat (s * num_ways d + w) := (lock_at d s w)\<lparr>access_id := acc\<rparr>]\<rparr>"

lemma with_lock:
  assumes "shape d" "0 \<le> s" "s < num_sets d" "0 \<le> w" "w < num_ways d"
  shows "shape (with_lock d s w acc)" "lock_at (with_lock d s w acc) s w = (lock_at d s w)\<lparr>access_id := acc\<rparr>"
    "0 \<le> s' \<Longrightarrow> s' < num_sets d \<Longrightarrow> 0 \<le> w' \<Longrightarrow> w' < num_ways d \<Longrightarrow> (s', w') \<noteq> (s, w) \<Longrightarrow>
     lock_at (with_lock d s w acc) s' w' = lock_at d s' w'"
proof -
  note l = lock_index_valid [OF assms]
  show "shape (with_lock d s w acc)" using assms(1) by (simp add: shape_def with_lock_def)
  have "nat (s * num_ways d + w) < length (locks d)" using l(2,3) by linarith
  then show "lock_at (with_lock d s w acc) s w = (lock_at d s w)\<lparr>access_id := acc\<rparr>" by (simp add: lock_at_def with_lock_def)
  assume v: "0 \<le> s'" "s' < num_sets d" "0 \<le> w'" "w' < num_ways d" and ne: "(s', w') \<noteq> (s, w)"
  have "s' * num_ways d + w' \<noteq> s * num_ways d + w" using mix_inj [of w' "num_ways d" w s' s] v assms(4,5) ne by auto
  then have "nat (s * num_ways d + w) \<noteq> nat (s' * num_ways d + w')"
    using l(2) lock_index_valid(2) [OF assms(1) v] by (simp add: eq_nat_nat_iff)
  then show "lock_at (with_lock d s w acc) s' w' = lock_at d s' w'" by (simp add: lock_at_def with_lock_def)
qed

lemma LockEntry_cases:
  assumes "shape d" "0 \<le> s" "s < num_sets d" "0 \<le> w" "w < num_ways d" "0 < acc"
  shows "LockEntry s w event acc d e =
    (if access_id (lock_at d s w) \<noteq> 0 then andthen (queue_Wait (lock_queue (lock_at d s w)) event False e) (\<lambda>e. Inr (d, e, False))
     else Inr (with_lock d s w acc, e, True))"
  using lock_index_valid [OF assms(1-5)] assms(6) by (simp add: LockEntry_def checked_def rd_in wr_in lock_at_def with_lock_def)

lemma getEntryAccessId_at:
  "shape d \<Longrightarrow> 0 \<le> s \<Longrightarrow> s < num_sets d \<Longrightarrow> 0 \<le> w \<Longrightarrow> w < num_ways d \<Longrightarrow> getEntryAccessId d s w = Inr (access_id (lock_at d s w))"
  using lock_index_valid [of d s w] by (simp add: getEntryAccessId_def rd_in lock_at_def)

text \<open>The loop over the waiting frames ends at the last one.\<close>

lemma resume_loop_ends: "chain (frames e) (Some f) (f # fs) \<Longrightarrow> resume_loop e f = ret ()"
proof (induction fs arbitrary: f)
  case Nil
  then obtain a where "frames e f = Some a" "fr_next a = NULL" by auto
  then show ?case by (subst resume_loop.simps) simp
next
  case (Cons g gs)
  then obtain a where a: "frames e f = Some a" "fr_next a = Some g" by auto
  have "chain (frames e) (Some g) (g # gs)" using Cons.prems a by simp
  then have "resume_loop e g = ret ()" by (rule Cons.IH)
  then show ?case using a by (subst resume_loop.simps) simp
qed

lemma UnlockEntry_wakes:
  assumes d: "shape d" "0 \<le> s" "s < num_sets d" "0 \<le> w" "w < num_ways d" and acc: "0 < acc" "access_id (lock_at d s w) = acc"
    and ok: "engine_ok e" "queues_rep e Q" "\<not> locked e" and q: "q = lock_queue (lock_at d s w)"
    and wake: "\<forall>f \<in> set (Q q). \<exists>ev. fr_wakeup (fr e f) = Some ev \<and> live_event e ev"
  shows "\<exists>e'. UnlockEntry s w acc d e = ret (with_lock d s w 0, e') \<and> queue_WakeupAll q e = ret e'"
proof -
  note l = lock_index_valid [OF d]
  obtain e' where e': "queue_WakeupAll q e = ret e'" using WakeupAll_rep [OF ok wake] by blast
  have c: "(case q_head (queues e q) of None \<Rightarrow> ret e | Some f \<Rightarrow> bindr (resume_loop e f) (\<lambda>_. queue_WakeupAll q e)) = ret e'"
  proof (cases "Q q")
    case Nil
    then have h: "q_head (queues e q) = NULL" using queues_repD(1) [OF ok(2), of q] by (simp add: queue_rep_def)
    then have "queue_WakeupAll q e = ret e" by (subst queue_WakeupAll.simps) simp
    then show ?thesis using h e' by simp
  next
    case (Cons f fs)
    then have c: "chain (frames e) (Some f) (f # fs)" "q_head (queues e q) = Some f"
      using queues_repD(1) [OF ok(2), of q] by (auto simp: queue_rep_def)
    then show ?thesis using resume_loop_ends [OF c(1)] e' by simp
  qed
  have "UnlockEntry s w acc d e = ret (with_lock d s w 0, e')"
    using l acc c [unfolded q lock_at_def] by (simp add: UnlockEntry_def rd_in wr_in lock_at_def with_lock_def)
  then show ?thesis using e' by blast
qed

section \<open>Properties\<close>

datatype dir_op = Set_owner int int int int | Set_sharer int int int int | Clear_sharer int int int int | Clear_all int int int

fun dir_run :: "directory \<Rightarrow> dir_op \<Rightarrow> directory run" where
  "dir_run d (Set_owner s w b owner) = setOwner s w b owner d"
| "dir_run d (Set_sharer s w b n) = setSharer s w b n d"
| "dir_run d (Clear_sharer s w b n) = clearSharer s w b n d"
| "dir_run d (Clear_all s w b) = clearAllSharers s w b d"

fun dir_spec :: "dir_op \<Rightarrow> (place \<Rightarrow> int \<times> int set) \<Rightarrow> place \<Rightarrow> int \<times> int set" where
  "dir_spec (Set_owner s w b owner) A = A((s, w, b) := (owner, snd (A (s, w, b))))"
| "dir_spec (Set_sharer s w b n) A = A((s, w, b) := (fst (A (s, w, b)), insert n (snd (A (s, w, b)))))"
| "dir_spec (Clear_sharer s w b n) A = A((s, w, b) := (fst (A (s, w, b)), snd (A (s, w, b)) - {n}))"
| "dir_spec (Clear_all s w b) A = A((s, w, b) := (fst (A (s, w, b)), {}))"

text \<open>An operation inside the dimensions \<open>sets\<close>, \<open>ways\<close>, \<open>subs\<close> and \<open>nodes\<close>.\<close>

fun op_inside :: "int \<Rightarrow> int \<Rightarrow> int \<Rightarrow> int \<Rightarrow> dir_op \<Rightarrow> bool" where
  "op_inside S W B N (Set_owner s w b owner) \<longleftrightarrow> s \<in> {0..<S} \<and> w \<in> {0..<W} \<and> b \<in> {0..<B} \<and> (owner = NoOwner \<or> owner \<in> {0..<N})"
| "op_inside S W B N (Set_sharer s w b n) \<longleftrightarrow> s \<in> {0..<S} \<and> w \<in> {0..<W} \<and> b \<in> {0..<B} \<and> n \<in> {0..<N}"
| "op_inside S W B N (Clear_sharer s w b n) \<longleftrightarrow> s \<in> {0..<S} \<and> w \<in> {0..<W} \<and> b \<in> {0..<B} \<and> n \<in> {0..<N}"
| "op_inside S W B N (Clear_all s w b) \<longleftrightarrow> s \<in> {0..<S} \<and> w \<in> {0..<W} \<and> b \<in> {0..<B}"

definition dims :: "directory \<Rightarrow> int \<times> int \<times> int \<times> int" where
  "dims d = (num_sets d, num_ways d, num_sub_blocks d, num_nodes d)"

lemma put_entry_dims: "put_entry d s w b f = Inr d' \<Longrightarrow> dims d' = dims d"
  by (auto simp: put_entry_def andthen_eq_Inr dims_def)

lemma dir_run_dims: "dir_run d x = Inr d' \<Longrightarrow> dims d' = dims d"
proof (cases x)
  case (Set_owner s w b owner)
  then show "dir_run d x = Inr d' \<Longrightarrow> dims d' = dims d" using put_entry_dims by (auto simp: setOwner_def checked_def split: if_splits)
next
  case (Set_sharer s w b n)
  then show "dir_run d x = Inr d' \<Longrightarrow> dims d' = dims d"
    using put_entry_dims by (fastforce simp: setSharer_def checked_def andthen_eq_Inr dims_def split: if_splits)
next
  case (Clear_sharer s w b n)
  then show "dir_run d x = Inr d' \<Longrightarrow> dims d' = dims d"
    using put_entry_dims by (fastforce simp: clearSharer_def checked_def andthen_eq_Inr dims_def split: if_splits)
next
  case (Clear_all s w b)
  then show "dir_run d x = Inr d' \<Longrightarrow> dims d' = dims d"
    using put_entry_dims by (fastforce simp: clearAllSharers_def andthen_eq_Inr dims_def Let_def split: if_splits)
qed

lemma dir_run_rep:
  assumes "dir_rep d A" "dims d = (S, W, B, N)" "op_inside S W B N x"
  shows "\<exists>d'. dir_run d x = Inr d' \<and> dir_rep d' (dir_spec x A)"
  using assms setOwner_rep [OF assms(1)] setSharer_rep [OF assms(1)] clearSharer_rep [OF assms(1)] clearAllSharers_rep [OF assms(1)]
  by (cases x) (auto simp: dims_def node_ok_def)

lemma dir_runs_rep:
  "dir_rep d A \<Longrightarrow> dims d = (S, W, B, N) \<Longrightarrow> \<forall>x \<in> set xs. op_inside S W B N x \<Longrightarrow>
   \<exists>d'. run_list dir_run xs d = Inr d' \<and> dir_rep d' (fold dir_spec xs A) \<and> dims d' = (S, W, B, N)"
proof (induction xs arbitrary: d A)
  case (Cons x xs)
  obtain d1 where d1: "dir_run d x = Inr d1" "dir_rep d1 (dir_spec x A)" using dir_run_rep [OF Cons.prems(1,2)] Cons.prems(3) by auto
  have "dims d1 = (S, W, B, N)" using dir_run_dims [OF d1(1)] Cons.prems(2) by simp
  then show ?case using Cons.IH [OF d1(2)] Cons.prems(3) d1(1) by simp
qed simp

text \<open>C13: from construction on, whatever owners and sharers are set and cleared inside the dimensions, no assertion fails and
  no access is out of bounds, and the directory is a table of an owner and a set of sharers at each place: flags,
  numbers of sharers and the test of a block agree with it.\<close>

theorem directory_refines_sharer_sets:
  assumes "0 \<le> S" "0 \<le> W" "0 \<le> B" "0 \<le> N" "S * W * B * N < 2 ^ 31" "\<forall>x \<in> set xs. op_inside S W B N x"
  shows "\<exists>d d'. directory_create S W B N q = Inr d \<and> run_list dir_run xs d = Inr d' \<and>
    (let A = fold dir_spec xs (\<lambda>_. (NoOwner, {})) in
      \<forall>s w. 0 \<le> s \<and> s < S \<and> 0 \<le> w \<and> w < W \<longrightarrow>
        (\<forall>b. 0 \<le> b \<and> b < B \<longrightarrow>
          getEntry d' s w b = Inr \<lparr>dir_owner = fst (A (s, w, b)), num_sharers = int (card (snd (A (s, w, b))))\<rparr> \<and>
          (\<forall>n. 0 \<le> n \<and> n < N \<longrightarrow> isSharer d' s w b n = Inr (n \<in> snd (A (s, w, b))))) \<and>
        isBlockSharedOrOwned d' s w = Inr (\<exists>b. 0 \<le> b \<and> b < B \<and> (snd (A (s, w, b)) \<noteq> {} \<or> fst (A (s, w, b)) \<noteq> NoOwner)))"
proof -
  obtain d where d: "directory_create S W B N q = Inr d" "dir_rep d (\<lambda>_. (NoOwner, {}))" "dims d = (S, W, B, N)"
    using directory_create_rep [OF assms(1-5)] by (auto simp: dims_def)
  obtain d' where d': "run_list dir_run xs d = Inr d'" "dir_rep d' (fold dir_spec xs (\<lambda>_. (NoOwner, {})))" "dims d' = (S, W, B, N)"
    using dir_runs_rep [OF d(2,3) assms(6)] by blast
  have dm: "num_sets d' = S" "num_ways d' = W" "num_sub_blocks d' = B" "num_nodes d' = N" using d'(3) by (simp_all add: dims_def)
  show ?thesis
    using d(1) d'(1) getEntry_rep [OF d'(2)] isSharer_rep [OF d'(2)] isBlockSharedOrOwned_rep [OF d'(2)] dm
    by (intro exI [of _ d] exI [of _ d']) (simp add: Let_def node_ok_def)
qed

theorem directory_refines_sharer_sets_witness:
  "\<exists>d d'. directory_create 2 2 1 4 0 = Inr d \<and>
     run_list dir_run [Set_sharer 1 0 0 3, Set_owner 1 0 0 2, Set_sharer 1 0 0 1, Clear_sharer 1 0 0 3] d = Inr d' \<and>
     getEntry d' 1 0 0 = Inr \<lparr>dir_owner = 2, num_sharers = 1\<rparr> \<and> isSharer d' 1 0 0 3 = Inr False \<and> isBlockSharedOrOwned d' 0 0 = Inr False"
proof -
  let ?xs = "[Set_sharer 1 0 0 3, Set_owner 1 0 0 2, Set_sharer 1 0 0 1, Clear_sharer 1 0 0 3]"
  have "\<forall>x \<in> set ?xs. op_inside 2 2 1 4 x" by simp
  then obtain d d' where d: "directory_create 2 2 1 4 0 = Inr d" "run_list dir_run ?xs d = Inr d'"
      "\<forall>s w. 0 \<le> s \<and> s < 2 \<and> 0 \<le> w \<and> w < 2 \<longrightarrow>
        (\<forall>b. 0 \<le> b \<and> b < 1 \<longrightarrow>
          getEntry d' s w b = Inr \<lparr>dir_owner = fst (fold dir_spec ?xs (\<lambda>_. (NoOwner, {})) (s, w, b)),
            num_sharers = int (card (snd (fold dir_spec ?xs (\<lambda>_. (NoOwner, {})) (s, w, b))))\<rparr> \<and>
          (\<forall>n. 0 \<le> n \<and> n < 4 \<longrightarrow> isSharer d' s w b n = Inr (n \<in> snd (fold dir_spec ?xs (\<lambda>_. (NoOwner, {})) (s, w, b))))) \<and>
        isBlockSharedOrOwned d' s w = Inr (\<exists>b. 0 \<le> b \<and> b < 1 \<and> (snd (fold dir_spec ?xs (\<lambda>_. (NoOwner, {})) (s, w, b)) \<noteq> {} \<or>
          fst (fold dir_spec ?xs (\<lambda>_. (NoOwner, {})) (s, w, b)) \<noteq> NoOwner))"
    using directory_refines_sharer_sets [of 2 2 1 4 ?xs 0] unfolding Let_def by auto
  show ?thesis
    using d(1,2) d(3) [rule_format, of 1 0] d(3) [rule_format, of 0 0] by (intro exI [of _ d] exI [of _ d']) (auto simp: NoOwner_def)
qed

text \<open>C14: a lock that is free is granted and recorded, without a change of the others; until it is released, no other access gets
  it and no other access can release it. A lock that is held puts the event chain that asks for it at the end of its queue,
  with the event to retry.\<close>

theorem lock_is_exclusive:
  fixes e :: "'u engine"
  assumes "shape d" "0 \<le> s" "s < num_sets d" "0 \<le> w" "w < num_ways d" "0 < acc" "queues_rep e Q"
    and "current_frame e = Some f" "frames e f = Some a" "\<not> fr_in_heap a" "fr_wakeup a = NULL" "\<forall>p. f \<notin> set (Q p)"
  shows "if access_id (lock_at d s w) = 0
    then LockEntry s w (Some ev) acc d e = Inr (with_lock d s w acc, e, True) \<and> getEntryAccessId (with_lock d s w acc) s w = Inr acc \<and>
      (\<forall>ev' acc' (e1 :: 'u engine) d2 e2 r. LockEntry s w ev' acc' (with_lock d s w acc) e1 = Inr (d2, e2, r) \<longrightarrow> \<not> r \<and> d2 = with_lock d s w acc) \<and>
      (\<forall>acc' (e1 :: 'u engine). acc' \<noteq> acc \<longrightarrow> UnlockEntry s w acc' (with_lock d s w acc) e1 = Some (Inl Assert)) \<and>
      (\<forall>s' w'. 0 \<le> s' \<and> s' < num_sets d \<and> 0 \<le> w' \<and> w' < num_ways d \<and> (s', w') \<noteq> (s, w) \<longrightarrow>
         getEntryAccessId (with_lock d s w acc) s' w' = getEntryAccessId d s' w')
    else let q = lock_queue (lock_at d s w) in
      \<exists>e'. LockEntry s w (Some ev) acc d e = Inr (d, e', False) \<and> queues_rep e' (Q(q := Q q @ [f])) \<and> fr_wakeup (fr e' f) = Some ev"
proof -
  note dd = assms(1-5)
  let ?d = "with_lock d s w acc" and ?q = "lock_queue (lock_at d s w)"
  have dims: "num_sets ?d = num_sets d" "num_ways ?d = num_ways d" by (simp_all add: with_lock_def)
  note wl = with_lock [OF dd]
  have inside: "s < num_sets ?d" "w < num_ways ?d" using dd dims by simp_all
  have L: "LockEntry s w ev' acc' ?d e1 = andthen (queue_Wait ?q ev' False e1) (\<lambda>e. Inr (?d, e, False))"
    if "0 < acc'" for ev' acc' and e1 :: "'u engine"
    using LockEntry_cases [OF wl(1) dd(2) inside(1) dd(4) inside(2) that, of ev' e1] wl(2) assms(6) by simp
  have "\<not> r \<and> d2 = ?d" if l: "LockEntry s w ev' acc' ?d e1 = Inr (d2, e2, r)" for ev' acc' d2 e2 r and e1 :: "'u engine"
  proof (cases "0 < acc'")
    case True
    then show ?thesis using l unfolding L [OF True] by (auto simp: andthen_eq_Inr)
  next
    case False
    then show ?thesis using l by (simp add: LockEntry_def checked_def)
  qed
  then have waits: "\<forall>ev' acc' (e1 :: 'u engine) d2 e2 r. LockEntry s w ev' acc' ?d e1 = Inr (d2, e2, r) \<longrightarrow> \<not> r \<and> d2 = ?d" by blast
  have held: "\<forall>acc' (e1 :: 'u engine). acc' \<noteq> acc \<longrightarrow> UnlockEntry s w acc' ?d e1 = Some (Inl Assert)"
    using lock_index_valid [OF wl(1) dd(2) inside(1) dd(4) inside(2)] wl(2) assms(6)
    by (simp add: UnlockEntry_def rd_in lock_at_def)
  have "getEntryAccessId ?d s' w' = getEntryAccessId d s' w'"
    if v: "0 \<le> s' \<and> s' < num_sets d \<and> 0 \<le> w' \<and> w' < num_ways d \<and> (s', w') \<noteq> (s, w)" for s' w'
    using getEntryAccessId_at [OF wl(1) [of acc], of s' w'] getEntryAccessId_at [OF dd(1), of s' w'] wl(3) [of s' w'] v dims by simp
  then have others: "\<forall>s' w'. 0 \<le> s' \<and> s' < num_sets d \<and> 0 \<le> w' \<and> w' < num_ways d \<and> (s', w') \<noteq> (s, w) \<longrightarrow>
      getEntryAccessId ?d s' w' = getEntryAccessId d s' w'" by blast
  have own: "getEntryAccessId ?d s w = Inr acc"
    using getEntryAccessId_at [OF wl(1) dd(2) inside(1) dd(4) inside(2)] wl(2) by simp
  have queued: "\<exists>e'. queue_Wait ?q (Some ev) False e = Inr e' \<and> queues_rep e' (Q(?q := Q ?q @ [f])) \<and> fr_wakeup (fr e' f) = Some ev"
    by (rule queue_Wait_rep [OF assms(7-12)])
  show ?thesis
  proof (cases "access_id (lock_at d s w) = 0")
    case True
    then have "LockEntry s w (Some ev) acc d e = Inr (?d, e, True)" using LockEntry_cases [OF dd assms(6), of "Some ev" e] by simp
    then show ?thesis unfolding if_P [OF True] using own waits held others by blast
  next
    case False
    then show ?thesis using queued LockEntry_cases [OF dd assms(6), of "Some ev" e] by (auto simp: Let_def)
  qed
qed

text \<open>A directory of two sets of two ways, the queues of its locks from address 3 on.\<close>

lemma demo_directory:
  obtains d where "directory_create 2 2 1 4 3 = Inr d" "shape d" "num_sets d = 2" "num_ways d = 2"
    "lock_at d 0 0 = \<lparr>access_id = 0, lock_queue = 3\<rparr>"
  using directory_create_rep [of 2 2 1 4 3] by (force simp: lock_at_def dir_rep_def)

theorem lock_is_exclusive_witness:
  "\<exists>d e e'. directory_create 2 2 1 4 3 = Inr d \<and> LockEntry 0 0 (Some 2) 7 d demo_arriving = Inr (with_lock d 0 0 7, e, True) \<and>
     LockEntry 0 0 (Some 2) 8 (with_lock d 0 0 7) demo_arriving = Inr (with_lock d 0 0 7, e', False) \<and>
     queues_rep e' ((\<lambda>_. [])(3 := [0])) \<and> UnlockEntry 0 0 8 (with_lock d 0 0 7) e' = Some (Inl Assert)"
proof -
  obtain d where d: "directory_create 2 2 1 4 3 = Inr d" "shape d" "num_sets d = 2" "num_ways d = 2"
      "lock_at d 0 0 = \<lparr>access_id = 0, lock_queue = 3\<rparr>"
    by (rule demo_directory)
  have new: "\<not> fr_in_heap new_frame" "fr_wakeup new_frame = NULL" by (simp_all add: new_frame_def)
  have l: "shape (with_lock d 0 0 7)" "lock_at (with_lock d 0 0 7) 0 0 = \<lparr>access_id = 7, lock_queue = 3\<rparr>"
      "num_sets (with_lock d 0 0 7) = 2" "num_ways (with_lock d 0 0 7) = 2"
    using with_lock(1,2) [of d 0 0 7] d by (simp_all add: with_lock_def)
  note ar = demo_arriving_ok
  show ?thesis
    using lock_is_exclusive [OF d(2), of 0 0 7 demo_arriving _ 0 new_frame 2] lock_is_exclusive [OF l(1), of 0 0 8 demo_arriving _ 0 new_frame 2]
      d l(2-4) ar new by (fastforce simp: Let_def)
qed

text \<open>C15: releasing a lock frees it, resumes every event chain that waits for it, in the order in which they came, and the
  retry events of all of them run in the next call of \<open>ProcessEvents\<close> with handlers that return and schedule for later.\<close>

theorem unlock_resumes_waiters:
  assumes "shape d" "0 \<le> s" "s < num_sets d" "0 \<le> w" "w < num_ways d" "0 < acc" "access_id (lock_at d s w) = acc"
    and "engine_ok e" "queues_rep e Q" "\<not> locked e" "sound True h" "returns h"
    and "\<forall>f \<in> set (Q (lock_queue (lock_at d s w))). \<exists>ev. fr_wakeup (fr e f) = Some ev \<and> live_event e ev"
  shows "\<exists>e' e'' l. UnlockEntry s w acc d e = ret (with_lock d s w 0, e') \<and> queues_rep e' (Q(lock_queue (lock_at d s w) := [])) \<and>
    debug e' = debug e @ map (\<lambda>f. let ev = the (fr_wakeup (fr e f)) in Scheduled ev (due_time (current_time e) (cycle_of e ev) 0))
      (Q (lock_queue (lock_at d s w))) \<and>
    ProcessEvents h (e'\<lparr>current_frame := NULL\<rparr>) = ret e'' \<and> debug e'' = debug e' @ l \<and>
    (\<forall>f \<in> set (Q (lock_queue (lock_at d s w))). the (fr_wakeup (fr e f)) \<in> set (triggered l))"
proof -
  let ?q = "lock_queue (lock_at d s w)"
  obtain e' where e': "UnlockEntry s w acc d e = ret (with_lock d s w 0, e')" "queue_WakeupAll ?q e = ret e'"
    using UnlockEntry_wakes [OF assms(1-10) refl assms(13)] by blast
  have wk: "engine_ok e'" "queues_rep e' (Q(?q := []))"
      "debug e' = debug e @ map (\<lambda>f. let ev = the (fr_wakeup (fr e f)) in Scheduled ev (due_time (current_time e) (cycle_of e ev) 0)) (Q ?q)"
      "set (heap e') = set (heap e) \<union> set (Q ?q)" "same_program e e'"
      "\<forall>f \<in> set (Q ?q). fr_event (fr e' f) = fr_wakeup (fr e f) \<and>
         fr_time (fr e' f) = due_time (current_time e) (cycle_of e (the (fr_wakeup (fr e f)))) 0"
    using WakeupAll_rep [OF assms(8-10,13)] e'(2) by auto
  let ?e = "e'\<lparr>current_frame := NULL\<rparr>"
  have ok: "engine_ok ?e" by (rule engine_ok_no_current(1) [OF wk(1)])
  obtain e'' where e'': "ProcessEvents h ?e = ret e''" "advanced ?e e''"
    using prompt_handler.cycle_advances [OF prompt_handler.intro [OF assms(11,12)] ok] by auto
  then obtain l where l: "debug e'' = debug e' @ l" "triggered l = due_events ?e" by (auto simp: advanced_def)
  have "the (fr_wakeup (fr e f)) \<in> set (due_events ?e)" if f: "f \<in> set (Q ?q)" for f
  proof -
    obtain ev where ev: "fr_wakeup (fr e f) = Some ev" "live_event e ev" using assms(13) f by blast
    obtain dm where "ev_domain (events e ! ev) = Some dm" "0 < dom_cycle_time (domains e ! dm)"
      using live_domain [OF engine_okD(5) [OF assms(8)] ev(2)] by blast
    then have "0 < cycle_of e ev" "0 \<le> current_time e" using engine_okD(5) [OF assms(8)] by (simp_all add: cycle_of_def events_ok_def)
    then have "due_time (current_time e) (cycle_of e ev) 0 \<le> current_time e" by (rule due_time_bounds(2))
    then have "f \<in> set (due ?e)" using f ev(1) wk(4-6) by (simp add: due_def same_program_def)
    then show ?thesis using f ev(1) wk(6) by (force simp: due_events_def)
  qed
  then show ?thesis using e'(1) e'' wk l by auto
qed

theorem unlock_resumes_waiters_witness:
  "\<exists>d e' e'' l. directory_create 2 2 1 4 3 = Inr d \<and>
     UnlockEntry 0 0 7 (with_lock d 0 0 7) demo_waiting = ret (with_lock (with_lock d 0 0 7) 0 0 0, e') \<and>
     debug e' = [Scheduled 1 0, Scheduled 2 0] \<and>
     ProcessEvents (timed demo_timer) (e'\<lparr>current_frame := NULL\<rparr>) = ret e'' \<and> debug e'' = debug e' @ l \<and> {1, 2} \<subseteq> set (triggered l)"
proof -
  obtain d where d: "directory_create 2 2 1 4 3 = Inr d" "shape d" "num_sets d = 2" "num_ways d = 2"
      "lock_at d 0 0 = \<lparr>access_id = 0, lock_queue = 3\<rparr>"
    by (rule demo_directory)
  have l: "shape (with_lock d 0 0 7)" "lock_at (with_lock d 0 0 7) 0 0 = \<lparr>access_id = 7, lock_queue = 3\<rparr>"
      "num_sets (with_lock d 0 0 7) = 2" "num_ways (with_lock d 0 0 7) = 2"
    using with_lock(1,2) [of d 0 0 7] d by (simp_all add: with_lock_def)
  show ?thesis
    using unlock_resumes_waiters [OF l(1), of 0 0 7, OF _ _ _ _ _ _ demo_waiting_ok(1,2) _ timed_sound timed_returns, of demo_timer] demo_waiting_ok(3)
      d(1) l(2-4) by (auto simp: demo_waiting_fields demo_engine_fields cycle_of_def due_time_def)
qed

end
