(* ===== verification/CppGraph.thy ===== *)
theory CppGraph
  imports Arrays
begin

text \<open>
  The directed graphs of \<open>src/lib/cpp/Graph.cc\<close> that the network uses: building, looking for an edge, and the
  detection of cycles by a depth-first traversal. Vertices are only added, so a pointer to a vertex is its place in the
  vector of vertices, and the place is what \<open>find_if\<close> finds. Names of vertices and what the layout of drawings
  keeps in them are left out.
\<close>

section \<open>Graphs\<close>

record vertex =
  incoming_vertices :: "nat list"
  outgoing_vertices :: "nat list"

record graph =
  vertices :: "vertex list"
  edges :: "(nat \<times> nat) list"

definition empty_graph :: graph where
  "empty_graph = \<lparr>vertices = [], edges = []\<rparr>"

definition addVertex :: "graph \<Rightarrow> graph" where
  "addVertex g = g\<lparr>vertices := vertices g @ [\<lparr>incoming_vertices = [], outgoing_vertices = []\<rparr>]\<rparr>"

definition add_outgoing :: "vertex list \<Rightarrow> nat \<Rightarrow> nat \<Rightarrow> vertex list run" where
  "add_outgoing vs v d =
     andthen (rd vs (int v)) (\<lambda>x. wr vs (int v) (x\<lparr>outgoing_vertices := outgoing_vertices x @ [d]\<rparr>))"

definition add_incoming :: "vertex list \<Rightarrow> nat \<Rightarrow> nat \<Rightarrow> vertex list run" where
  "add_incoming vs v s =
     andthen (rd vs (int v)) (\<lambda>x. wr vs (int v) (x\<lparr>incoming_vertices := incoming_vertices x @ [s]\<rparr>))"

definition addEdge :: "nat \<Rightarrow> nat \<Rightarrow> graph \<Rightarrow> graph run" where
  "addEdge s d g =
     andthen (add_outgoing (vertices g) s d) (\<lambda>vs.
     andthen (add_incoming vs d s) (\<lambda>vs.
     Inr (g\<lparr>vertices := vs, edges := edges g @ [(s, d)]\<rparr>)))"

definition findEdge :: "graph \<Rightarrow> nat \<Rightarrow> nat \<Rightarrow> (nat \<times> nat) ptr" where
  "findEdge g s d = find (\<lambda>e. fst e = s \<and> snd e = d) (edges g)"

definition getVertex :: "graph \<Rightarrow> int \<Rightarrow> vertex run" where
  "getVertex g index = (if 0 \<le> index \<and> index < int (length (vertices g)) then Inr (vertices g ! nat index) else Inl Assert)"

text \<open>The place of a vertex in the vector.\<close>

definition vertex_id :: "graph \<Rightarrow> nat \<Rightarrow> nat run" where
  "vertex_id g v = (if v < length (vertices g) then Inr v else Inl Assert)"

text \<open>The traversal from a vertex: \<open>NULL\<close> for the call of the function, and in its loop the adjacent vertices that are left.
  The result is what the function returns and the two arrays.\<close>

partial_function (option) CycleDetectionDepthFirstTraverse ::
  "graph \<Rightarrow> nat \<Rightarrow> nat list ptr \<Rightarrow> bool list \<Rightarrow> bool list \<Rightarrow> (bool \<times> bool list \<times> bool list) run option" where
  "CycleDetectionDepthFirstTraverse g v loop visited stacked =
     (case loop of
        None \<Rightarrow>
          bindr (Some (rd visited (int v))) (\<lambda>seen.
          if \<not> seen
          then bindr (Some (wr visited (int v) True)) (\<lambda>visited.
               bindr (Some (wr stacked (int v) True)) (\<lambda>stacked.
               bindr (Some (getVertex g (int v))) (\<lambda>x.
               CycleDetectionDepthFirstTraverse g v (Some (outgoing_vertices x)) visited stacked)))
          else bindr (Some (wr stacked (int v) False)) (\<lambda>stacked. ret (False, visited, stacked)))
      | Some [] \<Rightarrow> bindr (Some (wr stacked (int v) False)) (\<lambda>stacked. ret (False, visited, stacked))
      | Some (a # as) \<Rightarrow>
          bindr (Some (vertex_id g a)) (\<lambda>a.
          bindr (Some (rd visited (int a))) (\<lambda>seen.
          bindr (if \<not> seen then CycleDetectionDepthFirstTraverse g a NULL visited stacked else ret (False, visited, stacked))
            (\<lambda>(found, visited, stacked).
          if found then ret (True, visited, stacked)
          else bindr (Some (rd stacked (int a))) (\<lambda>on.
               if on then ret (True, visited, stacked)
               else CycleDetectionDepthFirstTraverse g v (Some as) visited stacked)))))"

primrec cycle_loop :: "graph \<Rightarrow> nat list \<Rightarrow> bool list \<Rightarrow> bool list \<Rightarrow> bool run option" where
  "cycle_loop g [] visited stacked = ret False"
| "cycle_loop g (v # vs) visited stacked =
     bindr (CycleDetectionDepthFirstTraverse g v NULL visited stacked) (\<lambda>(found, visited, stacked).
     if found then ret True else cycle_loop g vs visited stacked)"

definition graph_hasCycle :: "graph \<Rightarrow> bool run option" where
  "graph_hasCycle g =
     (let n = length (vertices g) in cycle_loop g [0..<n] (replicate n False) (replicate n False))"

section \<open>Depth-first traversal\<close>

definition edge_rel :: "graph \<Rightarrow> nat rel" where
  "edge_rel g = {(u, v). u < length (vertices g) \<and> v \<in> set (outgoing_vertices (vertices g ! u))}"

definition graph_ok :: "graph \<Rightarrow> bool" where
  "graph_ok g \<longleftrightarrow> edge_rel g = set (edges g) \<and> edge_rel g \<subseteq> UNIV \<times> {..<length (vertices g)}"

text \<open>The flags that are set.\<close>

definition flagged :: "bool list \<Rightarrow> nat set" where
  "flagged xs = {i. i < length xs \<and> xs ! i}"

lemma flagged_upd: "i < length xs \<Longrightarrow> flagged (xs[i := b]) = (if b then insert i (flagged xs) else flagged xs - {i})"
  by (auto simp: flagged_def nth_list_update)

lemma flagged_nth: "i < length xs \<Longrightarrow> xs ! i \<longleftrightarrow> i \<in> flagged xs"
  by (simp add: flagged_def)

lemma flagged_finite [simp]: "finite (flagged xs)"
  by (simp add: flagged_def)

lemma flagged_replicate [simp]: "flagged (replicate n False) = {}"
  by (auto simp: flagged_def)

text \<open>Vertices that are finished lead to finished vertices only and are on no cycle; those on the stack lead to \<open>v\<close>.\<close>

definition finished :: "nat rel \<Rightarrow> nat set \<Rightarrow> bool" where
  "finished E B \<longleftrightarrow> E `` B \<subseteq> B \<and> (\<forall>x \<in> B. (x, x) \<notin> E\<^sup>+)"

lemma finished_insert:
  assumes "finished E B" "E `` {v} \<subseteq> B" "v \<notin> B"
  shows "finished E (insert v B)"
proof -
  have closed: "E `` B \<subseteq> B" using assms(1) by (simp add: finished_def)
  have "E\<^sup>+ `` B \<subseteq> B" using Image_closed_trancl [OF closed] by (auto dest: trancl_into_rtrancl)
  moreover have "y \<in> B" if "(v, y) \<in> E" for y using assms(2) that by auto
  ultimately have "(v, v) \<notin> E\<^sup>+" using assms(3) by (metis ImageI converse_tranclE subset_iff)
  then show ?thesis using assms by (auto simp: finished_def)
qed

definition traversal :: "graph \<Rightarrow> nat \<Rightarrow> nat list ptr \<Rightarrow> bool list \<Rightarrow> bool list \<Rightarrow> bool" where
  "traversal g v loop vis stk \<longleftrightarrow>
     (let E = edge_rel g; n = length (vertices g); V = flagged vis; S = flagged stk
      in v < n \<and> length vis = n \<and> length stk = n \<and> S \<subseteq> V \<and> finished E (V - S) \<and> (\<forall>s \<in> S. (s, v) \<in> E\<^sup>*) \<and>
         (case loop of None \<Rightarrow> v \<notin> S
          | Some as \<Rightarrow> v \<in> S \<and> set as \<subseteq> E `` {v} \<and> E `` {v} - set as \<subseteq> V - S))"

definition traversed :: "graph \<Rightarrow> nat \<Rightarrow> bool list \<Rightarrow> bool list \<Rightarrow> bool list \<Rightarrow> bool list \<Rightarrow> bool" where
  "traversed g v vis stk vis' stk' \<longleftrightarrow>
     (let n = length (vertices g); V' = flagged vis'; S' = flagged stk'
      in length vis' = n \<and> length stk' = n \<and> flagged vis \<subseteq> V' \<and> v \<in> V' \<and> S' = flagged stk - {v} \<and> S' \<subseteq> V' \<and>
         finished (edge_rel g) (V' - S'))"

lemma finish_vertex:
  assumes "traversal g v (Some []) vis stk"
  shows "wr stk (int v) False = Inr (stk[v := False]) \<and> traversed g v vis stk vis (stk[v := False])"
proof -
  let ?E = "edge_rel g" and ?V = "flagged vis" and ?S = "flagged stk"
  have t: "v < length (vertices g)" "length vis = length (vertices g)" "length stk = length (vertices g)" "?S \<subseteq> ?V"
      "finished ?E (?V - ?S)" "v \<in> ?S" "?E `` {v} \<subseteq> ?V - ?S"
    using assms by (simp_all add: traversal_def Let_def)
  have "?V - (?S - {v}) = insert v (?V - ?S)" using t(4,6) by blast
  moreover have "finished ?E (insert v (?V - ?S))" by (rule finished_insert [OF t(5,7)]) (use t(6) in blast)
  ultimately show ?thesis using t by (auto simp: traversed_def Let_def flagged_upd)
qed

lemma traversal_correct:
  assumes g: "graph_ok g" and t: "traversal g v loop vis stk"
  shows "\<exists>found vis' stk'. CycleDetectionDepthFirstTraverse g v loop vis stk = ret (found, vis', stk') \<and>
    (if found then \<exists>x. (x, x) \<in> (edge_rel g)\<^sup>+ else traversed g v vis stk vis' stk')"
  using t
proof (induction "(length (vertices g) - card (flagged vis), case loop of None \<Rightarrow> 0 | Some as \<Rightarrow> Suc (length as))"
    arbitrary: v loop vis stk rule: wf_induct_rule [OF wf_lex_prod [OF wf_less_than wf_less_than]])
  case (1 loop vis v stk)
  let ?n = "length (vertices g)" and ?E = "edge_rel g" and ?V = "flagged vis" and ?S = "flagged stk"
  let ?f = CycleDetectionDepthFirstTraverse
  have t: "v < ?n" "length vis = ?n" "length stk = ?n" "?S \<subseteq> ?V" "finished ?E (?V - ?S)" "\<forall>s \<in> ?S. (s, v) \<in> ?E\<^sup>*"
    using 1(2) by (simp_all add: traversal_def Let_def)
  show ?case
  proof (cases loop)
    case None
    then have v: "v \<notin> ?S" using 1(2) by (simp add: traversal_def Let_def)
    show ?thesis
    proof (cases "v \<in> ?V")
      case True
      then have "?f g v loop vis stk = ret (False, vis, stk[v := False])"
        unfolding None using t by (subst CycleDetectionDepthFirstTraverse.simps) (simp add: flagged_nth)
      moreover have "traversed g v vis stk vis (stk[v := False])" using t True v by (simp add: traversed_def Let_def flagged_upd)
      ultimately show ?thesis by auto
    next
      case False
      let ?vis = "vis[v := True]" and ?stk = "stk[v := True]" and ?as = "outgoing_vertices (vertices g ! v)"
      have fl: "flagged ?vis = insert v ?V" "flagged ?stk = insert v ?S" using t by (simp_all add: flagged_upd)
      have step: "?f g v loop vis stk = ?f g v (Some ?as) ?vis ?stk"
        unfolding None using t False by (subst CycleDetectionDepthFirstTraverse.simps) (simp add: flagged_nth getVertex_def)
      have "insert v ?V - insert v ?S = ?V - ?S" using False by blast
      moreover have "set ?as = ?E `` {v}" using t(1) by (auto simp: edge_rel_def)
      ultimately have tr: "traversal g v (Some ?as) ?vis ?stk" using t fl by (auto simp: traversal_def Let_def)
      have "flagged ?vis \<subseteq> {..<?n}" using t(2) by (auto simp: flagged_def)
      then have "card (flagged ?vis) \<le> ?n" using card_mono [of "{..<?n}"] by fastforce
      moreover have "card (flagged ?vis) = Suc (card ?V)" using False by (simp add: fl)
      ultimately have "?n - card (flagged ?vis) < ?n - card ?V" by linarith
      then obtain found vis' stk' where r: "?f g v (Some ?as) ?vis ?stk = ret (found, vis', stk')"
          "if found then \<exists>x. (x, x) \<in> ?E\<^sup>+ else traversed g v ?vis ?stk vis' stk'"
        using 1(1) [OF _ tr] by auto
      have "traversed g v vis stk vis' stk'" if "traversed g v ?vis ?stk vis' stk'"
        using that v fl by (auto simp: traversed_def Let_def)
      then show ?thesis using r step by (cases found) auto
    qed
  next
    case (Some as)
    show ?thesis
    proof (cases as)
      case Nil
      then show ?thesis using finish_vertex [of g v vis stk] 1(2) Some
        by (subst CycleDetectionDepthFirstTraverse.simps) auto
    next
      case (Cons a bs)
      have c: "v \<in> ?S" "(v, a) \<in> ?E" "set bs \<subseteq> ?E `` {v}" "?E `` {v} - insert a (set bs) \<subseteq> ?V - ?S"
        using 1(2) Some Cons by (auto simp: traversal_def Let_def)
      have a: "a < ?n" using g c(2) by (auto simp: graph_ok_def)
      have rest: "traversal g v (Some bs) vis' stk" if "length vis' = ?n" "?V \<subseteq> flagged vis'" "a \<in> flagged vis'" "a \<notin> ?S" "?S \<subseteq> flagged vis'"
          "finished ?E (flagged vis' - ?S)" for vis'
        using that t(1,3,6) c by (auto simp: traversal_def Let_def)
      show ?thesis
      proof (cases "a \<in> ?V")
        case True
        have step: "?f g v loop vis stk = (if a \<in> ?S then ret (True, vis, stk) else ?f g v (Some bs) vis stk)"
          unfolding Some Cons using t a True by (subst CycleDetectionDepthFirstTraverse.simps) (simp add: flagged_nth vertex_id_def)
        show ?thesis
        proof (cases "a \<in> ?S")
          case True
          then have "(a, a) \<in> ?E\<^sup>+" using t(6) c(2) by (meson rtrancl_into_trancl1)
          then show ?thesis using step True by auto
        next
          case False
          then show ?thesis using 1(1) [OF _ rest [OF t(2) subset_refl True False t(4,5)]] step Some Cons by auto
        qed
      next
        case False
        have "traversal g a NULL vis stk" using t a False c by (auto simp: traversal_def Let_def intro: rtrancl_into_rtrancl)
        then obtain found vis' stk' where r: "?f g a NULL vis stk = ret (found, vis', stk')"
            "if found then \<exists>x. (x, x) \<in> ?E\<^sup>+ else traversed g a vis stk vis' stk'"
          using 1(1) [of vis NULL a stk] Some by auto
        show ?thesis
        proof (cases found)
          case True
          then have "?f g v loop vis stk = ret (True, vis', stk')"
            unfolding Some Cons using t a False r by (subst CycleDetectionDepthFirstTraverse.simps) (simp add: flagged_nth vertex_id_def)
          then show ?thesis using r True by auto
        next
          case nf: False
          have "a \<notin> ?S" using False t(4) by blast
          then have d: "length vis' = ?n" "length stk' = ?n" "?V \<subseteq> flagged vis'" "a \<in> flagged vis'" "flagged stk' = ?S"
              "?S \<subseteq> flagged vis'" "finished ?E (flagged vis' - ?S)"
            using r(2) nf by (auto simp: traversed_def Let_def)
          have "stk' = stk"
          proof (rule nth_equalityI)
            show "length stk' = length stk" using d(2) t(3) by simp
            show "stk' ! i = stk ! i" if "i < length stk'" for i
              using flagged_nth [of i stk'] flagged_nth [of i stk] that d(2,5) t(3) by simp
          qed
          then have step: "?f g v loop vis stk = ?f g v (Some bs) vis' stk"
            unfolding Some Cons using t(2,3) a False r(1) nf \<open>a \<notin> ?S\<close>
            by (subst CycleDetectionDepthFirstTraverse.simps) (simp add: flagged_nth vertex_id_def)
          have "card ?V \<le> card (flagged vis')" using d(3) by (simp add: card_mono)
          then have "((?n - card (flagged vis'), Suc (length bs)), (?n - card ?V, case loop of None \<Rightarrow> 0 | Some as \<Rightarrow> Suc (length as)))
              \<in> less_than <*lex*> less_than"
            unfolding Some Cons by auto
          then obtain found2 vis2 stk2 where r2: "?f g v (Some bs) vis' stk = ret (found2, vis2, stk2)"
              "if found2 then \<exists>x. (x, x) \<in> ?E\<^sup>+ else traversed g v vis' stk vis2 stk2"
            using 1(1) [OF _ rest [OF d(1,3,4) \<open>a \<notin> ?S\<close> d(6,7)]] by auto
          have "traversed g v vis stk vis2 stk2" if "traversed g v vis' stk vis2 stk2"
            using that d(3) by (auto simp: traversed_def Let_def)
          then show ?thesis using r2 step by (cases found2) auto
        qed
      qed
    qed
  qed
qed

lemma cycle_loop_correct:
  assumes g: "graph_ok g"
  shows "set vs \<subseteq> {..<length (vertices g)} \<Longrightarrow> length vis = length (vertices g) \<Longrightarrow> length stk = length (vertices g) \<Longrightarrow> flagged stk = {} \<Longrightarrow>
    finished (edge_rel g) (flagged vis) \<Longrightarrow>
    \<exists>b. cycle_loop g vs vis stk = ret b \<and> (if b then \<exists>x. (x, x) \<in> (edge_rel g)\<^sup>+ else \<forall>v \<in> set vs. (v, v) \<notin> (edge_rel g)\<^sup>+) \<and>
      (\<not> b \<longrightarrow> (\<forall>v \<in> flagged vis. (v, v) \<notin> (edge_rel g)\<^sup>+))"
proof (induction vs arbitrary: vis stk)
  case Nil
  then show ?case by (intro exI [of _ False]) (simp add: finished_def)
next
  case (Cons v vs)
  have "traversal g v NULL vis stk" using Cons.prems by (simp add: traversal_def Let_def)
  then obtain found vis' stk' where r: "CycleDetectionDepthFirstTraverse g v NULL vis stk = ret (found, vis', stk')"
      "if found then \<exists>x. (x, x) \<in> (edge_rel g)\<^sup>+ else traversed g v vis stk vis' stk'"
    using traversal_correct [OF g] by blast
  show ?case
  proof (cases found)
    case True
    then show ?thesis using r by (intro exI [of _ True]) simp
  next
    case False
    then have d: "length vis' = length (vertices g)" "length stk' = length (vertices g)" "flagged stk' = {}" "v \<in> flagged vis'"
        "flagged vis \<subseteq> flagged vis'" "finished (edge_rel g) (flagged vis' - flagged stk')"
      using r(2) Cons.prems(4) unfolding traversed_def Let_def by auto
    then have "finished (edge_rel g) (flagged vis')" by simp
    with d obtain b where b: "cycle_loop g vs vis' stk' = ret b"
        "if b then \<exists>x. (x, x) \<in> (edge_rel g)\<^sup>+ else \<forall>v \<in> set vs. (v, v) \<notin> (edge_rel g)\<^sup>+"
        "\<not> b \<longrightarrow> (\<forall>v \<in> flagged vis'. (v, v) \<notin> (edge_rel g)\<^sup>+)"
      using Cons.IH [of vis' stk'] Cons.prems(1) by auto
    then show ?thesis using r(1) False d(4,5) by (intro exI [of _ b]) auto
  qed
qed

lemma graph_hasCycle_decides:
  assumes "graph_ok g"
  shows "graph_hasCycle g = ret (\<exists>v. (v, v) \<in> (set (edges g))\<^sup>+)"
proof -
  let ?n = "length (vertices g)"
  have range: "set [0..<?n] \<subseteq> {..<?n}" by auto
  obtain b where b: "cycle_loop g [0..<?n] (replicate ?n False) (replicate ?n False) = ret b"
      "if b then \<exists>x. (x, x) \<in> (edge_rel g)\<^sup>+ else \<forall>v \<in> set [0..<?n]. (v, v) \<notin> (edge_rel g)\<^sup>+"
    using cycle_loop_correct [OF assms range, of "replicate ?n False" "replicate ?n False"] by (auto simp: finished_def)
  have "v < ?n" if "(v, v) \<in> (edge_rel g)\<^sup>+" for v
    using that assms by (induction rule: trancl_induct) (auto simp: graph_ok_def)
  then have "b \<longleftrightarrow> (\<exists>v. (v, v) \<in> (edge_rel g)\<^sup>+)" using b(2) by (cases b) auto
  moreover have "edge_rel g = set (edges g)" using assms by (simp add: graph_ok_def)
  ultimately show ?thesis using b(1) by (simp add: graph_hasCycle_def Let_def)
qed

section \<open>Building\<close>

lemma empty_graph_ok: "graph_ok empty_graph" "edges empty_graph = []" "vertices empty_graph = []"
  by (simp_all add: graph_ok_def edge_rel_def empty_graph_def)

lemma addVertex_ok:
  assumes "graph_ok g"
  shows "graph_ok (addVertex g)" "edges (addVertex g) = edges g" "length (vertices (addVertex g)) = Suc (length (vertices g))"
proof -
  have "edge_rel (addVertex g) = edge_rel g" by (auto simp: edge_rel_def addVertex_def nth_append less_Suc_eq)
  then show "graph_ok (addVertex g)" using assms by (force simp: graph_ok_def addVertex_def)
  show "edges (addVertex g) = edges g" "length (vertices (addVertex g)) = Suc (length (vertices g))" by (simp_all add: addVertex_def)
qed

lemma addEdge_ok:
  assumes "graph_ok g" "s < length (vertices g)" "d < length (vertices g)"
  shows "\<exists>g'. addEdge s d g = Inr g' \<and> graph_ok g' \<and> edges g' = edges g @ [(s, d)] \<and> length (vertices g') = length (vertices g)"
proof -
  let ?vs = "(vertices g)[s := (vertices g ! s)\<lparr>outgoing_vertices := outgoing_vertices (vertices g ! s) @ [d]\<rparr>]"
  let ?vs2 = "?vs[d := (?vs ! d)\<lparr>incoming_vertices := incoming_vertices (?vs ! d) @ [s]\<rparr>]"
  let ?g = "g\<lparr>vertices := ?vs2, edges := edges g @ [(s, d)]\<rparr>"
  have "addEdge s d g = Inr ?g" using assms(2,3) by (simp add: addEdge_def add_outgoing_def add_incoming_def)
  moreover have o: "outgoing_vertices (?vs2 ! v) = (if v = s then outgoing_vertices (vertices g ! s) @ [d] else outgoing_vertices (vertices g ! v))"
    if "v < length (vertices g)" for v
    using that assms(2,3) by (simp add: nth_list_update)
  have "edge_rel ?g = insert (s, d) (edge_rel g)" using assms(2) by (auto simp: edge_rel_def o split: if_splits)
  then have "graph_ok ?g" using assms by (auto simp: graph_ok_def)
  ultimately show ?thesis by auto
qed

lemma findEdge_iff: "findEdge g s d \<noteq> NULL \<longleftrightarrow> (s, d) \<in> set (edges g)"
  by (auto simp: findEdge_def find_None_iff)

end
