(* ===== verification/RoutingTable.thy ===== *)
theory RoutingTable
  imports CppGraph
begin

text \<open>
  The routing table of a network, \<open>src/network/RoutingTable.cc\<close>: the initial table of direct connections, the shortest
  routes by the algorithm of Floyd and Warshall, the output buffer of each route, routes that the user gives step by
  step, and the check for cycles of buffers that wait for each other. A node is its index, as
  \<open>getNode\<close> and \<open>getIndex\<close> have it; buffers and connections are numbers that stand for their addresses, and the network,
  which the table only reads, has their fields as functions. Costs and indices are natural numbers: the code's
  \<open>int\<close>s are never negative, and sums of costs are at most twice the dimension.
\<close>

section \<open>Networks\<close>

text \<open>Of \<open>Node\<close> its output buffers, of \<open>Buffer\<close> its node and connection, of \<open>Connection\<close> its lists of buffers, and of a
  connection that is a \<open>Link\<close> its destination node and number of virtual channels.\<close>

record network =
  num_nodes :: nat
  output_buffers :: "nat \<Rightarrow> nat list"
  buffer_node :: "nat \<Rightarrow> nat"
  buffer_connection :: "nat \<Rightarrow> nat"
  source_buffers :: "nat \<Rightarrow> nat list"
  destination_buffers :: "nat \<Rightarrow> nat list"
  link :: "nat \<Rightarrow> (nat \<times> int) option"

record route =
  cost :: nat
  next_node :: "nat ptr"
  out_buffer :: "nat ptr"

record routing_table =
  dimension :: nat
  routes :: "route list"

section \<open>Operations\<close>

text \<open>The place of an entry; \<open>at\<close> throws for a place outside the vector.\<close>

definition Lookup :: "routing_table \<Rightarrow> nat \<Rightarrow> nat \<Rightarrow> nat run" where
  "Lookup t i j =
     (if 0 < dimension t \<and> i < dimension t \<and> j < dimension t
      then let location = i * dimension t + j in if location < length (routes t) then Inr location else Inl Abort
      else Inl Assert)"

definition get_route :: "routing_table \<Rightarrow> nat \<Rightarrow> nat \<Rightarrow> route run" where
  "get_route t i j = andthen (Lookup t i j) (\<lambda>l. Inr (routes t ! l))"

text \<open>Assignments to fields of the entry that \<open>Lookup\<close> points to.\<close>

definition put_route :: "routing_table \<Rightarrow> nat \<Rightarrow> nat \<Rightarrow> (route \<Rightarrow> route) \<Rightarrow> routing_table run" where
  "put_route t i j f = andthen (Lookup t i j) (\<lambda>l. Inr (t\<lparr>routes := (routes t)[l := f (routes t ! l)]\<rparr>))"

definition destinations :: "network \<Rightarrow> nat \<Rightarrow> nat list" where
  "destinations net b = map (buffer_node net) (destination_buffers net (buffer_connection net b))"

definition one_hop :: "network \<Rightarrow> routing_table \<Rightarrow> nat \<Rightarrow> routing_table run" where
  "one_hop net t i =
     run_list (\<lambda>t b. run_list (\<lambda>t d.
       if i \<noteq> d then put_route t i d (\<lambda>_. \<lparr>cost = 1, next_node = Some d, out_buffer = Some b\<rparr>) else Inr t)
       (destinations net b) t) (output_buffers net i) t"

definition Initialize :: "network \<Rightarrow> routing_table \<Rightarrow> routing_table run" where
  "Initialize net t =
     (if routes t \<noteq> [] then Inl Panic
      else let n = num_nodes net in
        run_list (one_hop net) [0..<n]
          (t\<lparr>dimension := n, routes := concat (map (\<lambda>i. map (\<lambda>j.
             \<lparr>cost = if i = j then 0 else n, next_node = NULL, out_buffer = NULL\<rparr>) [0..<n]) [0..<n])\<rparr>))"

definition relax :: "nat \<Rightarrow> nat \<Rightarrow> routing_table \<Rightarrow> nat \<Rightarrow> routing_table run" where
  "relax k i t j =
     andthen (get_route t i k) (\<lambda>ik.
     andthen (get_route t k j) (\<lambda>kj.
     andthen (get_route t i j) (\<lambda>ij.
     let temp_cost = cost ik + cost kj
     in if temp_cost < cost ij then put_route t i j (\<lambda>e. e\<lparr>cost := temp_cost, next_node := Some k\<rparr>) else Inr t)))"

definition shortest_loop :: "routing_table \<Rightarrow> routing_table run" where
  "shortest_loop t =
     (let n = dimension t in run_list (\<lambda>t k. run_list (\<lambda>t i. run_list (relax k i) [0..<n] t) [0..<n] t) [0..<n] t)"

text \<open>Following the path of the buffers; a route without a next node is \<open>NULL\<close> for \<open>Lookup\<close>.\<close>

partial_function (option) follow :: "routing_table \<Rightarrow> nat \<Rightarrow> nat \<Rightarrow> nat run option" where
  "follow t i n =
     bindr (Some (get_route t i n)) (\<lambda>e.
     if cost e \<le> 1 then ret n
     else case next_node e of None \<Rightarrow> stops Segv | Some n' \<Rightarrow> follow t i n')"

definition set_output :: "network \<Rightarrow> nat \<Rightarrow> nat \<Rightarrow> nat \<Rightarrow> routing_table \<Rightarrow> routing_table run" where
  "set_output net i j n t =
     (case find (\<lambda>b. n \<in> set (destinations net b)) (output_buffers net i) of
        None \<Rightarrow> Inr t
      | Some b \<Rightarrow> put_route t i j (\<lambda>e. e\<lparr>next_node := Some n, out_buffer := Some b\<rparr>))"

definition assign_buffer :: "network \<Rightarrow> nat \<Rightarrow> routing_table \<Rightarrow> nat \<Rightarrow> routing_table run option" where
  "assign_buffer net i t j =
     bindr (Some (get_route t i j)) (\<lambda>e.
     case next_node e of
       None \<Rightarrow> Some (put_route t i j (\<lambda>e. e\<lparr>out_buffer := NULL\<rparr>))
     | Some n \<Rightarrow> bindr (follow t i n) (\<lambda>n. Some (set_output net i j n t)))"

definition FloydWarshall :: "network \<Rightarrow> routing_table \<Rightarrow> routing_table run option" where
  "FloydWarshall net t =
     bindr (Some (shortest_loop t)) (\<lambda>t.
     let n = dimension t in run_each (\<lambda>t i. run_each (assign_buffer net i) [0..<n] t) [0..<n] t)"

text \<open>A step of a route that the user gives; a thrown \<open>Error\<close> ends the program.\<close>

primrec update_loop :: "network \<Rightarrow> nat \<Rightarrow> nat \<Rightarrow> nat \<Rightarrow> int \<Rightarrow> nat list \<Rightarrow> routing_table \<Rightarrow> (routing_table \<times> bool) run" where
  "update_loop net s d n vc [] t = Inr (t, False)"
| "update_loop net s d n vc (b # bs) t =
     (let c = buffer_connection net b
      in case link net c of
           Some (destination_node, channels) \<Rightarrow>
             if destination_node = n
             then if vc > channels - 1 then Inl Fatal
                  else andthen (rd (source_buffers net c) vc) (\<lambda>entry_buffer.
                       if buffer_node net entry_buffer \<noteq> s then Inl Assert
                       else andthen (put_route t s d (\<lambda>e. e\<lparr>out_buffer := Some entry_buffer\<rparr>)) (\<lambda>t. Inr (t, True)))
             else update_loop net s d n vc bs t
         | None \<Rightarrow>
             if vc \<noteq> 0 then Inl Fatal
             else case find (\<lambda>m. buffer_node net m = n) (destination_buffers net c) of
                    Some m \<Rightarrow> andthen (put_route t s d (\<lambda>e. e\<lparr>out_buffer := Some m\<rparr>)) (\<lambda>t. Inr (t, True))
                  | None \<Rightarrow> update_loop net s d n vc bs t)"

definition UpdateRoute :: "network \<Rightarrow> nat \<Rightarrow> nat \<Rightarrow> nat \<Rightarrow> int \<Rightarrow> routing_table \<Rightarrow> routing_table run" where
  "UpdateRoute net s d n vc t =
     (if s = d then Inl Fatal
      else andthen (put_route t s d (\<lambda>e. e\<lparr>next_node := Some n\<rparr>)) (\<lambda>t.
           andthen (update_loop net s d n vc (output_buffers net s) t) (\<lambda>(t, updated).
           if updated then Inr t else Inl Fatal)))"

text \<open>The costs of such routes.\<close>

partial_function (option) path_cost :: "nat \<Rightarrow> nat \<Rightarrow> nat \<Rightarrow> routing_table \<Rightarrow> routing_table run option" where
  "path_cost i j n t =
     (if n = j then ret t
      else bindr (Some (get_route t n j)) (\<lambda>e.
           case next_node e of
             None \<Rightarrow> ret t
           | Some p \<Rightarrow>
               bindr (Some (get_route t n p)) (\<lambda>step.
               bindr (Some (put_route t i j (\<lambda>e. e\<lparr>cost := cost e + cost step\<rparr>))) (\<lambda>t. path_cost i j p t))))"

definition manual_cost :: "nat \<Rightarrow> routing_table \<Rightarrow> nat \<Rightarrow> routing_table run option" where
  "manual_cost i t j =
     bindr (Some (get_route t i j)) (\<lambda>e.
     case next_node e of
       None \<Rightarrow> ret t
     | Some n \<Rightarrow>
         bindr (Some (get_route t i n)) (\<lambda>first.
         bindr (Some (put_route t i j (\<lambda>e. e\<lparr>cost := cost first\<rparr>))) (path_cost i j n)))"

definition UpdateManualRoutingCost :: "routing_table \<Rightarrow> routing_table run option" where
  "UpdateManualRoutingCost t =
     (let n = dimension t in run_each (\<lambda>t i. run_each (manual_cost i) [0..<n] t) [0..<n] t)"

text \<open>The graph of the buffers of the table.\<close>

primrec used_loop :: "routing_table \<Rightarrow> nat \<Rightarrow> nat \<Rightarrow> nat list \<Rightarrow> bool run" where
  "used_loop t i b [] = Inr False"
| "used_loop t i b (j # js) = andthen (get_route t i j) (\<lambda>e. if out_buffer e = Some b then Inr True else used_loop t i b js)"

definition buffer_vertex :: "routing_table \<Rightarrow> nat \<Rightarrow> graph \<times> (nat \<rightharpoonup> nat) \<Rightarrow> nat \<Rightarrow> (graph \<times> (nat \<rightharpoonup> nat)) run" where
  "buffer_vertex t i s b =
     andthen (used_loop t i b [0..<dimension t]) (\<lambda>found.
     if found
     then let g = addVertex (fst s); vertex = length (vertices g) - 1
          in Inr (g, if snd s b = None then (snd s)(b \<mapsto> vertex) else snd s)
     else Inr s)"

definition route_edge :: "routing_table \<Rightarrow> (nat \<rightharpoonup> nat) \<Rightarrow> nat \<Rightarrow> graph \<Rightarrow> nat \<Rightarrow> graph run" where
  "route_edge t m i g j =
     (if i = j then Inr g
      else andthen (get_route t i j) (\<lambda>e.
        case out_buffer e of
          None \<Rightarrow> Inr g
        | Some b \<Rightarrow>
            (case next_node e of
               None \<Rightarrow> Inl Segv
             | Some h \<Rightarrow>
                 andthen (get_route t h j) (\<lambda>next_entry.
                 case out_buffer next_entry of
                   None \<Rightarrow> Inr g
                 | Some b' \<Rightarrow>
                     (case (m b, m b') of
                        (Some v, Some v') \<Rightarrow> if findEdge g v v' = NULL then addEdge v v' g else Inr g
                      | _ \<Rightarrow> Inl Assert)))))"

definition table_graph :: "network \<Rightarrow> routing_table \<Rightarrow> graph run" where
  "table_graph net t =
     (let n = dimension t
      in andthen (run_list (\<lambda>s i. run_list (buffer_vertex t i) (output_buffers net i) s) [0..<n] (empty_graph, Map.empty)) (\<lambda>(g, m).
         run_list (\<lambda>g i. run_list (route_edge t m i) [0..<n] g) [0..<n] g))"

definition hasCycle :: "network \<Rightarrow> routing_table \<Rightarrow> bool run option" where
  "hasCycle net t = bindr (Some (table_graph net t)) graph_hasCycle"

section \<open>Walks\<close>

definition hop :: "network \<Rightarrow> nat rel" where
  "hop net = {(i, d). i < num_nodes net \<and> i \<noteq> d \<and> (\<exists>b \<in> set (output_buffers net i). d \<in> set (destinations net b))}"

definition network_ok :: "network \<Rightarrow> bool" where
  "network_ok net \<longleftrightarrow> (\<forall>i < num_nodes net. \<forall>b \<in> set (output_buffers net i). \<forall>d \<in> set (destinations net b). d < num_nodes net)"

text \<open>A walk by the nodes between its ends.\<close>

fun walk :: "nat rel \<Rightarrow> nat \<Rightarrow> nat list \<Rightarrow> nat \<Rightarrow> bool" where
  "walk E i [] j \<longleftrightarrow> (i, j) \<in> E"
| "walk E i (x # xs) j \<longleftrightarrow> (i, x) \<in> E \<and> walk E x xs j"

lemma walk_append: "walk E i (xs @ x # ys) j \<longleftrightarrow> walk E i xs x \<and> walk E x ys j"
  by (induction xs arbitrary: i) auto

lemma walk_relpow: "walk E i xs j \<Longrightarrow> (i, j) \<in> E ^^ Suc (length xs)"
  by (induction xs arbitrary: i) (auto intro: relpow_Suc_I2 simp del: relpow.simps(2) simp: relpow_Suc_I2 [of _ _ _ 0, simplified])

lemma relpow_walk: "(i, j) \<in> E ^^ Suc m \<Longrightarrow> \<exists>xs. walk E i xs j \<and> length xs = m \<and> set xs \<subseteq> Range E"
proof (induction m arbitrary: j)
  case 0
  then show ?case by (intro exI [of _ "[]"]) auto
next
  case (Suc m)
  from Suc.prems obtain y where y: "(i, y) \<in> E ^^ Suc m" "(y, j) \<in> E" by (rule relpow_Suc_E)
  then obtain xs where "walk E i xs y" "length xs = m" "set xs \<subseteq> Range E" using Suc.IH by blast
  then show ?case using y by (intro exI [of _ "xs @ [y]"]) (auto simp: walk_append)
qed

text \<open>A walk without repetitions.\<close>

lemma walk_distinct:
  "walk E i xs j \<Longrightarrow> \<exists>ys. walk E i ys j \<and> distinct ys \<and> i \<notin> set ys \<and> j \<notin> set ys \<and> set ys \<subseteq> set xs"
proof (induction xs arbitrary: i j rule: length_induct)
  case (1 xs)
  consider (start) ys zs where "xs = ys @ i # zs" | (stop) ys zs where "xs = ys @ j # zs"
    | (twice) ys y zs us where "xs = ys @ y # zs @ y # us" | (none) "distinct xs" "i \<notin> set xs" "j \<notin> set xs"
  proof -
    assume start: "\<And>ys zs. xs = ys @ i # zs \<Longrightarrow> thesis" and stop: "\<And>ys zs. xs = ys @ j # zs \<Longrightarrow> thesis"
      and twice: "\<And>ys y zs us. xs = ys @ y # zs @ y # us \<Longrightarrow> thesis"
      and none: "distinct xs \<Longrightarrow> i \<notin> set xs \<Longrightarrow> j \<notin> set xs \<Longrightarrow> thesis"
    show thesis
    proof (cases "distinct xs")
      case True
      then show thesis using none start stop by (meson split_list)
    next
      case False
      then show thesis using twice not_distinct_decomp [of xs] by force
    qed
  qed
  then show ?case
  proof cases
    case start
    then have "length zs < length xs" "walk E i zs j" "set zs \<subseteq> set xs" using 1(2) by (auto simp: walk_append)
    then show ?thesis using 1(1) by (meson subset_trans)
  next
    case stop
    then have "length ys < length xs" "walk E i ys j" "set ys \<subseteq> set xs" using 1(2) by (auto simp: walk_append)
    then show ?thesis using 1(1) by (meson subset_trans)
  next
    case twice
    then have "length (ys @ y # us) < length xs" "walk E i (ys @ y # us) j" "set (ys @ y # us) \<subseteq> set xs"
      using 1(2) by (auto simp: walk_append)
    then show ?thesis using 1(1) by (meson subset_trans)
  next
    case none
    then show ?thesis using 1(2) by blast
  qed
qed

section \<open>Tables\<close>

text \<open>The entry of a place, in a table of \<open>n\<close> nodes.\<close>

definition table :: "nat \<Rightarrow> routing_table \<Rightarrow> bool" where
  "table n t \<longleftrightarrow> dimension t = n \<and> length (routes t) = n * n"

definition ent :: "routing_table \<Rightarrow> nat \<Rightarrow> nat \<Rightarrow> route" where
  "ent t i j = routes t ! (i * dimension t + j)"

lemma place:
  assumes "i < n" "j < (n :: nat)"
  shows "i * n + j < n * n" "i' < n \<Longrightarrow> j' < n \<Longrightarrow> i * n + j = i' * n + j' \<longleftrightarrow> i = i' \<and> j = j'"
proof -
  have "i * n + j < Suc i * n" using assms by simp
  also have "\<dots> \<le> n * n" using assms(1) by (intro mult_le_mono1) simp
  finally show "i * n + j < n * n" .
  assume v: "i' < n" "j' < n"
  have "(i * n + j) div n = i" "(i' * n + j') div n = i'" "(i * n + j) mod n = j" "(i' * n + j') mod n = j'" using assms v by auto
  then show "i * n + j = i' * n + j' \<longleftrightarrow> i = i' \<and> j = j'" by metis
qed

lemma Lookup_in: "table n t \<Longrightarrow> i < n \<Longrightarrow> j < n \<Longrightarrow> Lookup t i j = Inr (i * n + j)"
  using place [of i n j] by (simp add: Lookup_def table_def)

lemma get_route_in: "table n t \<Longrightarrow> i < n \<Longrightarrow> j < n \<Longrightarrow> get_route t i j = Inr (ent t i j)"
  using Lookup_in [of n t i j] by (simp add: get_route_def ent_def table_def)

lemma put_route_in:
  assumes "table n t" "i < n" "j < n"
  shows "\<exists>t'. put_route t i j f = Inr t' \<and> table n t' \<and>
    (\<forall>a < n. \<forall>b < n. ent t' a b = (if a = i \<and> b = j then f (ent t i j) else ent t a b))"
proof (intro exI conjI allI impI)
  let ?t = "t\<lparr>routes := (routes t)[i * n + j := f (routes t ! (i * n + j))]\<rparr>"
  show "put_route t i j f = Inr ?t" using assms by (simp add: put_route_def Lookup_in)
  show "table n ?t" using assms(1) by (simp add: table_def)
  show "ent ?t a b = (if a = i \<and> b = j then f (ent t i j) else ent t a b)" if "a < n" "b < n" for a b
    using assms place [OF assms(2,3)] place(2) [OF assms(2,3) that] that by (auto simp: ent_def table_def nth_list_update)
qed

section \<open>Shortest routes\<close>

text \<open>What every table holds while routes are improved: routes to other nodes are absent, or have the length of a walk and a
  node on the way, from which the rest is known.\<close>

definition sound_routes :: "nat rel \<Rightarrow> nat \<Rightarrow> routing_table \<Rightarrow> bool" where
  "sound_routes E n t \<longleftrightarrow> table n t \<and>
     (\<forall>i < n. ent t i i = \<lparr>cost = 0, next_node = NULL, out_buffer = NULL\<rparr>) \<and>
     (\<forall>i < n. \<forall>j < n. i \<noteq> j \<longrightarrow>
        (next_node (ent t i j) = NULL \<and> cost (ent t i j) = n \<and> out_buffer (ent t i j) = NULL) \<or>
        ((i, j) \<in> E ^^ cost (ent t i j) \<and> 1 \<le> cost (ent t i j) \<and> cost (ent t i j) < n \<and>
          (\<exists>k < n. next_node (ent t i j) = Some k \<and> k \<noteq> i \<and>
            (if k = j then cost (ent t i j) = 1 else cost (ent t i k) + cost (ent t k j) \<le> cost (ent t i j)))))"

lemma sound_routesD:
  assumes "sound_routes E n t"
  shows "table n t" "i < n \<Longrightarrow> ent t i i = \<lparr>cost = 0, next_node = NULL, out_buffer = NULL\<rparr>"
    "i < n \<Longrightarrow> j < n \<Longrightarrow> i \<noteq> j \<Longrightarrow>
        (next_node (ent t i j) = NULL \<and> cost (ent t i j) = n \<and> out_buffer (ent t i j) = NULL) \<or>
        ((i, j) \<in> E ^^ cost (ent t i j) \<and> 1 \<le> cost (ent t i j) \<and> cost (ent t i j) < n \<and>
          (\<exists>k < n. next_node (ent t i j) = Some k \<and> k \<noteq> i \<and>
            (if k = j then cost (ent t i j) = 1 else cost (ent t i k) + cost (ent t k j) \<le> cost (ent t i j))))"
  using assms by (auto simp: sound_routes_def)

lemma sound_cost:
  assumes "sound_routes E n t" "i < n" "j < n"
  shows "cost (ent t i j) \<le> n" "cost (ent t i j) = 0 \<longleftrightarrow> i = j" "cost (ent t i j) < n \<Longrightarrow> (i, j) \<in> E ^^ cost (ent t i j)"
  using sound_routesD(2) [OF assms(1,2)] sound_routesD(3) [OF assms] assms(2,3) by (cases "i = j"; force)+

text \<open>Fewer steps everywhere.\<close>

definition improves :: "nat \<Rightarrow> routing_table \<Rightarrow> routing_table \<Rightarrow> bool" where
  "improves n t t' \<longleftrightarrow> (\<forall>a < n. \<forall>b < n. cost (ent t' a b) \<le> cost (ent t a b))"

lemma relax_sound:
  assumes s: "sound_routes E n t" and v: "i < n" "j < n" "k < n"
  shows "\<exists>t'. relax k i t j = Inr t' \<and> sound_routes E n t' \<and> improves n t t' \<and>
    cost (ent t' i j) \<le> cost (ent t i k) + cost (ent t k j)"
proof (cases "cost (ent t i k) + cost (ent t k j) < cost (ent t i j)")
  case False
  then have "relax k i t j = Inr t" using v get_route_in [OF sound_routesD(1) [OF s]] by (simp add: relax_def Let_def)
  then show ?thesis using s False by (auto simp: improves_def)
next
  case True
  let ?c = "cost (ent t i k) + cost (ent t k j)"
  note c = sound_cost [OF s]
  have ne: "i \<noteq> j" using True c(2) [OF v(1,1)] by auto
  have ki: "k \<noteq> i" "k \<noteq> j" using True c(2) [OF v(1,1)] c(2) [OF v(2,2)] by auto
  have small: "?c < n" using True c(1) [OF v(1,2)] by simp
  have "(i, k) \<in> E ^^ cost (ent t i k)" "(k, j) \<in> E ^^ cost (ent t k j)" using small c(3) v by simp_all
  then have rel: "(i, j) \<in> E ^^ ?c" unfolding relpow_add by blast
  have pos: "1 \<le> ?c" using ki c(2) v by (metis One_nat_def Suc_leI add_is_0 gr0I)
  obtain t' where t': "put_route t i j (\<lambda>e. e\<lparr>cost := ?c, next_node := Some k\<rparr>) = Inr t'" "table n t'"
      "\<And>a b. a < n \<Longrightarrow> b < n \<Longrightarrow> ent t' a b = (if a = i \<and> b = j then (ent t i j)\<lparr>cost := ?c, next_node := Some k\<rparr> else ent t a b)"
    using put_route_in [OF sound_routesD(1) [OF s] v(1,2), of "\<lambda>e. e\<lparr>cost := ?c, next_node := Some k\<rparr>"] by auto
  have r: "relax k i t j = Inr t'" using True t'(1) v get_route_in [OF sound_routesD(1) [OF s]] by (simp add: relax_def Let_def)
  have le: "cost (ent t' a b) \<le> cost (ent t a b)" if "a < n" "b < n" for a b using t'(3) [OF that] True by simp
  have "sound_routes E n t'"
    unfolding sound_routes_def
  proof (intro conjI allI impI t'(2))
    show "ent t' a a = \<lparr>cost = 0, next_node = NULL, out_buffer = NULL\<rparr>" if "a < n" for a
      using t'(3) [OF that that] sound_routesD(2) [OF s that] ne by auto
  next
    fix a b assume ab: "a < n" "b < n" "a \<noteq> b"
    show "(next_node (ent t' a b) = NULL \<and> cost (ent t' a b) = n \<and> out_buffer (ent t' a b) = NULL) \<or>
        ((a, b) \<in> E ^^ cost (ent t' a b) \<and> 1 \<le> cost (ent t' a b) \<and> cost (ent t' a b) < n \<and>
          (\<exists>m < n. next_node (ent t' a b) = Some m \<and> m \<noteq> a \<and>
            (if m = b then cost (ent t' a b) = 1 else cost (ent t' a m) + cost (ent t' m b) \<le> cost (ent t' a b))))"
    proof (cases "a = i \<and> b = j")
      case True
      then show ?thesis using t'(3) [OF v(1,2)] t'(3) [OF v(1,3)] t'(3) [OF v(3,2)] rel pos small ki v by auto
    next
      case False
      then have same: "ent t' a b = ent t a b" using t'(3) [OF ab(1,2)] by auto
      have grow: "cost (ent t' a m) + cost (ent t' m b) \<le> x" if "m < n" "cost (ent t a m) + cost (ent t m b) \<le> x" for m x
        using le [OF ab(1) that(1)] le [OF that(1) ab(2)] that(2) by linarith
      show ?thesis using sound_routesD(3) [OF s ab] grow unfolding same by fastforce
    qed
  qed
  then show ?thesis using r le t'(3) [OF v(1,2)] by (auto simp: improves_def)
qed

lemma improves_trans: "improves n t t' \<Longrightarrow> improves n t' t'' \<Longrightarrow> improves n t t''"
  unfolding improves_def by (meson le_trans)

text \<open>One row, and one round.\<close>

lemma relax_row:
  assumes s: "sound_routes E n t" and v: "i < n" "k < n"
  shows "\<exists>t'. run_list (relax k i) [0..<n] t = Inr t' \<and> sound_routes E n t' \<and> improves n t t' \<and>
    (\<forall>j < n. cost (ent t' i j) \<le> cost (ent t i k) + cost (ent t k j))"
proof -
  let ?I = "\<lambda>m u. sound_routes E n u \<and> improves n t u \<and> (\<forall>j < m. cost (ent u i j) \<le> cost (ent t i k) + cost (ent t k j))"
  have "\<exists>t'. run_list (relax k i) [0..<n] t = Inr t' \<and> ?I n t'"
  proof (rule run_list_upto [where I = ?I])
    show "?I 0 t" using s by (simp add: improves_def)
    fix j u assume j: "j < n" and u: "?I j u"
    obtain u' where u': "relax k i u j = Inr u'" "sound_routes E n u'" "improves n u u'"
        "cost (ent u' i j) \<le> cost (ent u i k) + cost (ent u k j)"
      using relax_sound [of E n u i j k] u v j by blast
    have "cost (ent u i k) \<le> cost (ent t i k)" "cost (ent u k j) \<le> cost (ent t k j)" using u v j by (simp_all add: improves_def)
    then have "cost (ent u' i j) \<le> cost (ent t i k) + cost (ent t k j)" using u'(4) by linarith
    moreover have "cost (ent u' i b) \<le> cost (ent t i k) + cost (ent t k b)" if b: "b < j" for b
    proof -
      have "cost (ent u' i b) \<le> cost (ent u i b)" using u'(3) v(1) b j by (simp add: improves_def)
      then show ?thesis using u b by (meson le_trans)
    qed
    ultimately have "?I (Suc j) u'" using u u' improves_trans [of n t u u'] by (simp add: less_Suc_eq)
    then show "\<exists>u'. relax k i u j = Inr u' \<and> ?I (Suc j) u'" using u'(1) by blast
  qed
  then show ?thesis by blast
qed

lemma relax_round:
  assumes s: "sound_routes E n t" and k: "k < n"
  shows "\<exists>t'. run_list (\<lambda>t i. run_list (relax k i) [0..<n] t) [0..<n] t = Inr t' \<and> sound_routes E n t' \<and> improves n t t' \<and>
    (\<forall>i < n. \<forall>j < n. cost (ent t' i j) \<le> cost (ent t i k) + cost (ent t k j))"
proof -
  let ?I = "\<lambda>m u. sound_routes E n u \<and> improves n t u \<and> (\<forall>i < m. \<forall>j < n. cost (ent u i j) \<le> cost (ent t i k) + cost (ent t k j))"
  have "\<exists>t'. run_list (\<lambda>t i. run_list (relax k i) [0..<n] t) [0..<n] t = Inr t' \<and> ?I n t'"
  proof (rule run_list_upto [where I = ?I])
    show "?I 0 t" using s by (simp add: improves_def)
    fix i u assume i: "i < n" and u: "?I i u"
    obtain u' where u': "run_list (relax k i) [0..<n] u = Inr u'" "sound_routes E n u'" "improves n u u'"
        "\<forall>j < n. cost (ent u' i j) \<le> cost (ent u i k) + cost (ent u k j)"
      using relax_row [of E n u i k] u i k by blast
    have "cost (ent u' i j) \<le> cost (ent t i k) + cost (ent t k j)" if j: "j < n" for j
    proof -
      have "cost (ent u i k) \<le> cost (ent t i k)" "cost (ent u k j) \<le> cost (ent t k j)" using u i k j by (simp_all add: improves_def)
      then show ?thesis using u'(4) j by (meson add_mono le_trans)
    qed
    moreover have "cost (ent u' a j) \<le> cost (ent t a k) + cost (ent t k j)" if a: "a < i" "j < n" for a j
    proof -
      have "cost (ent u' a j) \<le> cost (ent u a j)" using u'(3) a i by (simp add: improves_def)
      then show ?thesis using u a by (meson le_trans)
    qed
    ultimately have "?I (Suc i) u'" using u u' improves_trans [of n t u u'] by (auto simp: less_Suc_eq)
    then show "\<exists>u'. run_list (relax k i) [0..<n] u = Inr u' \<and> ?I (Suc i) u'" using u'(1) by blast
  qed
  then show ?thesis by blast
qed

text \<open>After round \<open>k\<close> no walk through the first \<open>k\<close> nodes is shorter.\<close>

definition bounded_by :: "nat rel \<Rightarrow> nat \<Rightarrow> nat \<Rightarrow> routing_table \<Rightarrow> bool" where
  "bounded_by E n k t \<longleftrightarrow> (\<forall>i < n. \<forall>j < n. \<forall>xs. walk E i xs j \<and> set xs \<subseteq> {..<k} \<longrightarrow> cost (ent t i j) \<le> Suc (length xs))"

lemma bounded_step:
  assumes b: "bounded_by E n k t" and im: "improves n t t'" and k: "k < n"
    and r: "\<forall>i < n. \<forall>j < n. cost (ent t' i j) \<le> cost (ent t i k) + cost (ent t k j)"
  shows "bounded_by E n (Suc k) t'"
  unfolding bounded_by_def
proof (intro allI impI, elim conjE)
  fix i j xs assume v: "i < n" "j < n" and w: "walk E i xs j" "set xs \<subseteq> {..<Suc k}"
  show "cost (ent t' i j) \<le> Suc (length xs)"
  proof (cases "k \<in> set xs")
    case False
    then have "set xs \<subseteq> {..<k}" using w(2) by (auto simp: less_Suc_eq)
    then have "cost (ent t i j) \<le> Suc (length xs)" using b v w(1) by (simp add: bounded_by_def)
    then show ?thesis using im v by (meson improves_def le_trans)
  next
    case True
    then obtain ys zs where ys: "xs = ys @ k # zs" "k \<notin> set ys" by (meson split_list_first)
    obtain us vs where vs: "k # zs = us @ k # vs" "k \<notin> set vs" by (meson list.set_intros(1) split_list_last)
    have "walk E i ys k" using w(1) ys(1) by (simp add: walk_append)
    moreover have "walk E k vs j" using w(1) ys(1) vs(1) by (metis append.assoc walk_append)
    moreover have "set ys \<subseteq> {..<k}" "set vs \<subseteq> {..<k}"
    proof -
      have "set ys \<subseteq> set xs" "set vs \<subseteq> set (k # zs)" unfolding vs(1) using ys(1) by auto
      then show "set ys \<subseteq> {..<k}" "set vs \<subseteq> {..<k}" using w(2) ys vs(2) by (auto simp: less_Suc_eq)
    qed
    ultimately have "cost (ent t i k) \<le> Suc (length ys)" "cost (ent t k j) \<le> Suc (length vs)"
      using b v k by (simp_all add: bounded_by_def)
    moreover have "length vs \<le> length zs" using arg_cong [OF vs(1), of length] by simp
    moreover have "cost (ent t' i j) \<le> cost (ent t i k) + cost (ent t k j)" using r v by blast
    ultimately show ?thesis using ys(1) by simp
  qed
qed

lemma shortest_loop_bounds:
  assumes s: "sound_routes E n t" and e: "\<And>i j. i < n \<Longrightarrow> j < n \<Longrightarrow> (i, j) \<in> E \<Longrightarrow> cost (ent t i j) = 1"
  shows "\<exists>t'. shortest_loop t = Inr t' \<and> sound_routes E n t' \<and> bounded_by E n n t'"
proof -
  let ?I = "\<lambda>k u. sound_routes E n u \<and> bounded_by E n k u"
  have d: "dimension t = n" using s by (simp add: sound_routes_def table_def)
  have "\<exists>t'. run_list (\<lambda>t k. run_list (\<lambda>t i. run_list (relax k i) [0..<n] t) [0..<n] t) [0..<n] t = Inr t' \<and> ?I n t'"
  proof (rule run_list_upto [where I = ?I])
    show "?I 0 t" using s e by (auto simp: bounded_by_def)
    fix k u assume k: "k < n" and u: "?I k u"
    obtain u' where u': "run_list (\<lambda>t i. run_list (relax k i) [0..<n] t) [0..<n] u = Inr u'" "sound_routes E n u'" "improves n u u'"
        "\<forall>i < n. \<forall>j < n. cost (ent u' i j) \<le> cost (ent u i k) + cost (ent u k j)"
      using relax_round [OF conjunct1 [OF u] k] by blast
    have "bounded_by E n (Suc k) u'" by (rule bounded_step [OF conjunct2 [OF u] u'(3) k u'(4)])
    then show "\<exists>u'. run_list (\<lambda>t i. run_list (relax k i) [0..<n] t) [0..<n] u = Inr u' \<and> ?I (Suc k) u'" using u'(1,2) by blast
  qed
  then show ?thesis using d by (simp add: shortest_loop_def Let_def)
qed

text \<open>What the costs are then.\<close>

lemma shortest_costs:
  assumes s: "sound_routes E n t" and b: "bounded_by E n n t" and E: "E \<subseteq> {..<n} \<times> {..<n}" and v: "i < n" "j < n"
  shows "(i, j) \<in> E ^^ m \<Longrightarrow> cost (ent t i j) \<le> m" "i \<noteq> j \<Longrightarrow> (i, j) \<in> E\<^sup>* \<longleftrightarrow> cost (ent t i j) < n"
proof -
  have R: "Range E \<subseteq> {..<n}" using E by auto
  show *: "cost (ent t i j) \<le> m" if "(i, j) \<in> E ^^ m" for m
  proof (cases m)
    case 0
    then show ?thesis using that sound_cost(2) [OF s v] by simp
  next
    case (Suc m')
    have "(i, j) \<in> E ^^ Suc m'" using that unfolding Suc .
    then obtain xs where "walk E i xs j" "length xs = m'" "set xs \<subseteq> {..<n}" using relpow_walk [of i j m' E] R by blast
    then show ?thesis using b v Suc by (auto simp: bounded_by_def)
  qed
  assume ne: "i \<noteq> j"
  show "(i, j) \<in> E\<^sup>* \<longleftrightarrow> cost (ent t i j) < n"
  proof
    assume "cost (ent t i j) < n"
    then show "(i, j) \<in> E\<^sup>*" using sound_cost(3) [OF s v] by (meson relpow_imp_rtrancl)
  next
    assume "(i, j) \<in> E\<^sup>*"
    then obtain m where m: "(i, j) \<in> E ^^ m" by (metis rtrancl_imp_relpow)
    then obtain m' where "(i, j) \<in> E ^^ Suc m'" using ne by (cases m) auto
    then obtain xs where "walk E i xs j" "set xs \<subseteq> {..<n}" using relpow_walk [of i j m' E] R by blast
    then obtain ys where ys: "walk E i ys j" "distinct (i # j # ys)" "set ys \<subseteq> {..<n}" using walk_distinct ne by fastforce
    have "card (set (i # j # ys)) \<le> card {..<n}" using ys(3) v by (intro card_mono) auto
    then have "Suc (Suc (length ys)) \<le> n" using distinct_card [OF ys(2)] by simp
    then show "cost (ent t i j) < n" using b ys(1,3) v by (fastforce simp: bounded_by_def)
  qed
qed

section \<open>The initial table\<close>

definition direct :: "nat \<Rightarrow> nat rel \<Rightarrow> routing_table \<Rightarrow> bool" where
  "direct n S t \<longleftrightarrow> table n t \<and> (\<forall>a < n. \<forall>b < n.
     if (a, b) \<in> S then cost (ent t a b) = 1 \<and> next_node (ent t a b) = Some b
     else ent t a b = \<lparr>cost = if a = b then 0 else n, next_node = NULL, out_buffer = NULL\<rparr>)"

lemma direct_put:
  assumes "direct n S t" "i < n" "d < n"
  shows "\<exists>t'. put_route t i d (\<lambda>_. \<lparr>cost = 1, next_node = Some d, out_buffer = Some b\<rparr>) = Inr t' \<and> direct n (insert (i, d) S) t'"
proof -
  obtain t' where t': "put_route t i d (\<lambda>_. \<lparr>cost = 1, next_node = Some d, out_buffer = Some b\<rparr>) = Inr t'" "table n t'"
      "\<forall>a < n. \<forall>c < n. ent t' a c = (if a = i \<and> c = d then \<lparr>cost = 1, next_node = Some d, out_buffer = Some b\<rparr> else ent t a c)"
    using put_route_in [of n t i d "\<lambda>_. \<lparr>cost = 1, next_node = Some d, out_buffer = Some b\<rparr>"] assms by (auto simp: direct_def)
  have "direct n (insert (i, d) S) t'" using assms(1) t'(2,3) by (auto simp: direct_def)
  then show ?thesis using t'(1) by blast
qed

lemma direct_destinations:
  "direct n S t \<Longrightarrow> i < n \<Longrightarrow> set ds \<subseteq> {..<n} \<Longrightarrow> \<exists>t'. run_list (\<lambda>t d.
     if i \<noteq> d then put_route t i d (\<lambda>_. \<lparr>cost = 1, next_node = Some d, out_buffer = Some b\<rparr>) else Inr t) ds t = Inr t' \<and>
     direct n (S \<union> {(i, d) |d. d \<in> set ds \<and> i \<noteq> d}) t'"
proof (induction ds arbitrary: S t)
  case (Cons d ds)
  show ?case
  proof (cases "i = d")
    case True
    then have "{(i, d') |d'. d' \<in> set (d # ds) \<and> i \<noteq> d'} = {(i, d') |d'. d' \<in> set ds \<and> i \<noteq> d'}" by auto
    then show ?thesis using Cons.IH [OF Cons.prems(1,2)] Cons.prems(3) True by simp
  next
    case False
    obtain t1 where t1: "put_route t i d (\<lambda>_. \<lparr>cost = 1, next_node = Some d, out_buffer = Some b\<rparr>) = Inr t1" "direct n (insert (i, d) S) t1"
      using direct_put [OF Cons.prems(1,2), of d b] Cons.prems(3) by auto
    have "insert (i, d) S \<union> {(i, d') |d'. d' \<in> set ds \<and> i \<noteq> d'} = S \<union> {(i, d') |d'. d' \<in> set (d # ds) \<and> i \<noteq> d'}" using False by auto
    then show ?thesis using Cons.IH [OF t1(2) Cons.prems(2)] Cons.prems(3) t1(1) False by simp
  qed
qed simp

lemma direct_buffers:
  "direct n S t \<Longrightarrow> i < n \<Longrightarrow> \<forall>b \<in> set bs. set (destinations net b) \<subseteq> {..<n} \<Longrightarrow> \<exists>t'. run_list (\<lambda>t b. run_list (\<lambda>t d.
     if i \<noteq> d then put_route t i d (\<lambda>_. \<lparr>cost = 1, next_node = Some d, out_buffer = Some b\<rparr>) else Inr t)
       (destinations net b) t) bs t = Inr t' \<and>
     direct n (S \<union> {(i, d) |d. i \<noteq> d \<and> (\<exists>b \<in> set bs. d \<in> set (destinations net b))}) t'"
proof (induction bs arbitrary: S t)
  case (Cons b bs)
  obtain t1 where t1: "run_list (\<lambda>t d.
     if i \<noteq> d then put_route t i d (\<lambda>_. \<lparr>cost = 1, next_node = Some d, out_buffer = Some b\<rparr>) else Inr t) (destinations net b) t = Inr t1"
      "direct n (S \<union> {(i, d) |d. d \<in> set (destinations net b) \<and> i \<noteq> d}) t1"
    using direct_destinations [OF Cons.prems(1,2), of "destinations net b" b] Cons.prems(3) by auto
  have "S \<union> {(i, d) |d. d \<in> set (destinations net b) \<and> i \<noteq> d} \<union> {(i, d) |d. i \<noteq> d \<and> (\<exists>b \<in> set bs. d \<in> set (destinations net b))} =
      S \<union> {(i, d) |d. i \<noteq> d \<and> (\<exists>b \<in> set (b # bs). d \<in> set (destinations net b))}" by auto
  then show ?case using Cons.IH [OF t1(2) Cons.prems(2)] Cons.prems(3) t1(1) by simp
qed simp

lemma concat_rows:
  "i < n \<Longrightarrow> j < m \<Longrightarrow> concat (map (\<lambda>i. map (f i) [0..<m]) [0..<n]) ! (i * m + j) = f i j"
  "length (concat (map (\<lambda>i. map (f i) [0..<m]) [0..<n])) = n * m"
proof -
  have l: "length (concat (map (\<lambda>i. map (f i) [0..<m]) [0..<n])) = n * m" for n by (induction n) simp_all
  show "length (concat (map (\<lambda>i. map (f i) [0..<m]) [0..<n])) = n * m" by (rule l)
  show "i < n \<Longrightarrow> j < m \<Longrightarrow> concat (map (\<lambda>i. map (f i) [0..<m]) [0..<n]) ! (i * m + j) = f i j"
  proof (induction n)
    case (Suc n)
    show ?case
    proof (cases "i = n")
      case True
      then show ?thesis using Suc.prems by (simp add: nth_append l)
    next
      case False
      then have "Suc i * m \<le> n * m" using Suc.prems by (intro mult_le_mono1) simp
      then have "i * m + j < n * m" using Suc.prems by simp
      then show ?thesis using Suc False by (simp add: nth_append l)
    qed
  qed simp
qed

lemma Initialize_direct:
  assumes "network_ok net" "routes t = []"
  shows "\<exists>t'. Initialize net t = Inr t' \<and> direct (num_nodes net) (hop net) t'"
proof -
  let ?n = "num_nodes net"
  let ?t = "t\<lparr>dimension := ?n, routes := concat (map (\<lambda>i. map (\<lambda>j.
             \<lparr>cost = if i = j then 0 else ?n, next_node = NULL, out_buffer = NULL\<rparr>) [0..<?n]) [0..<?n])\<rparr>"
  let ?I = "\<lambda>k u. direct ?n {(i, d) \<in> hop net. i < k} u"
  have "\<exists>t'. run_list (one_hop net) [0..<?n] ?t = Inr t' \<and> ?I ?n t'"
  proof (rule run_list_upto [where I = ?I])
    show "?I 0 ?t" by (auto simp: direct_def table_def ent_def concat_rows)
    fix i u assume i: "i < ?n" and u: "?I i u"
    have "{(i, d) \<in> hop net. i < k} \<union> {(k, d) |d. k \<noteq> d \<and> (\<exists>b \<in> set (output_buffers net k). d \<in> set (destinations net b))} =
        {(i, d) \<in> hop net. i < Suc k}" if "k < ?n" for k
      using that by (auto simp: hop_def less_Suc_eq)
    moreover have "\<forall>b \<in> set (output_buffers net i). set (destinations net b) \<subseteq> {..<?n}" using assms(1) i by (auto simp: network_ok_def)
    ultimately show "\<exists>u'. one_hop net u i = Inr u' \<and> ?I (Suc i) u'" using direct_buffers [OF u i, of "output_buffers net i" net] i
      by (simp add: one_hop_def)
  qed
  moreover have "{(i, d) \<in> hop net. i < ?n} = hop net" by (auto simp: hop_def)
  ultimately show ?thesis using assms(2) by (simp add: Initialize_def Let_def)
qed

section \<open>Output buffers\<close>

text \<open>Distances: what the second pass needs of the costs.\<close>

definition distances :: "nat \<Rightarrow> (nat \<Rightarrow> nat \<Rightarrow> nat) \<Rightarrow> bool" where
  "distances n D \<longleftrightarrow> (\<forall>i < n. \<forall>j < n. D i j \<le> n \<and> (D i j = 0 \<longleftrightarrow> i = j)) \<and>
     (\<forall>i < n. \<forall>j < n. \<forall>k < n. D i j \<le> D i k + D k j)"

lemma distancesD:
  "distances n D \<Longrightarrow> i < n \<Longrightarrow> j < n \<Longrightarrow> D i j \<le> n"
  "distances n D \<Longrightarrow> i < n \<Longrightarrow> j < n \<Longrightarrow> D i j = 0 \<longleftrightarrow> i = j"
  "distances n D \<Longrightarrow> i < n \<Longrightarrow> j < n \<Longrightarrow> k < n \<Longrightarrow> D i j \<le> D i k + D k j"
  by (simp_all add: distances_def)

text \<open>The next nodes lead along shortest routes.\<close>

definition lead :: "nat \<Rightarrow> (nat \<Rightarrow> nat \<Rightarrow> nat) \<Rightarrow> nat \<Rightarrow> nat \<Rightarrow> route \<Rightarrow> bool" where
  "lead n D i j e \<longleftrightarrow> cost e = D i j \<and>
     (if i = j \<or> D i j = n then next_node e = NULL
      else \<exists>k < n. next_node e = Some k \<and> k \<noteq> i \<and> D i j = D i k + D k j \<and> (k = j \<longrightarrow> D i j = 1))"

definition leads :: "nat \<Rightarrow> (nat \<Rightarrow> nat \<Rightarrow> nat) \<Rightarrow> routing_table \<Rightarrow> bool" where
  "leads n D t \<longleftrightarrow> table n t \<and> (\<forall>i < n. \<forall>j < n. lead n D i j (ent t i j))"

lemma leadsD:
  assumes "leads n D t" "i < n" "j < n"
  shows "get_route t i j = Inr (ent t i j)" "lead n D i j (ent t i j)" "cost (ent t i j) = D i j"
proof -
  have "table n t" using assms(1) unfolding leads_def by blast
  then show "get_route t i j = Inr (ent t i j)" using assms(2,3) by (rule get_route_in)
  show l: "lead n D i j (ent t i j)" using assms unfolding leads_def by blast
  then show "cost (ent t i j) = D i j" unfolding lead_def by blast
qed

lemma lead_out_buffer: "lead n D i j (e\<lparr>out_buffer := x\<rparr>) \<longleftrightarrow> lead n D i j e"
proof -
  have "cost (e\<lparr>out_buffer := x\<rparr>) = cost e" "next_node (e\<lparr>out_buffer := x\<rparr>) = next_node e" by simp_all
  then show ?thesis by (simp only: lead_def)
qed

lemma leads_next:
  assumes "leads n D t" "i < n" "j < n" "i \<noteq> j" "D i j \<noteq> n"
  obtains k where "k < n" "next_node (ent t i j) = Some k" "k \<noteq> i" "D i j = D i k + D k j" "k = j \<longrightarrow> D i j = 1"
proof -
  have ne: "\<not> (i = j \<or> D i j = n)" using assms(4,5) by blast
  show thesis using leadsD(2) [OF assms(1-3)] that unfolding lead_def if_not_P [OF ne] by blast
qed

lemma leads_put:
  assumes "leads n D t" "i < n" "j < n" "lead n D i j (f (ent t i j))"
  shows "\<exists>t'. put_route t i j f = Inr t' \<and> leads n D t' \<and> ent t' i j = f (ent t i j) \<and>
    (\<forall>a < n. \<forall>b < n. (a, b) \<noteq> (i, j) \<longrightarrow> ent t' a b = ent t a b)"
proof -
  have "table n t" using assms(1) by (simp add: leads_def)
  then obtain t' where t': "put_route t i j f = Inr t'" "table n t'"
      "\<forall>a < n. \<forall>b < n. ent t' a b = (if a = i \<and> b = j then f (ent t i j) else ent t a b)"
    using put_route_in assms(2,3) by blast
  have "lead n D a b (ent t' a b)" if "a < n" "b < n" for a b
    using t'(3) leadsD(2) [OF assms(1) that] assms(4) that by (cases "a = i \<and> b = j") simp_all
  then have "leads n D t'" using t'(2) unfolding leads_def by blast
  then show ?thesis using t'(1,3) assms(2,3) by auto
qed

lemma sound_leads:
  assumes s: "sound_routes E n t" and b: "bounded_by E n n t" and E: "E \<subseteq> {..<n} \<times> {..<n}"
  shows "distances n (\<lambda>i j. cost (ent t i j))" "leads n (\<lambda>i j. cost (ent t i j)) t"
proof -
  note c = sound_cost [OF s]
  show d: "distances n (\<lambda>i j. cost (ent t i j))"
    unfolding distances_def
  proof (intro conjI allI impI)
    fix i j assume v: "i < n" "j < n"
    show "cost (ent t i j) \<le> n" "cost (ent t i j) = 0 \<longleftrightarrow> i = j" by (rule c(1,2) [OF v])+
    fix k assume k: "k < n"
    show "cost (ent t i j) \<le> cost (ent t i k) + cost (ent t k j)"
    proof (cases "cost (ent t i k) < n \<and> cost (ent t k j) < n")
      case True
      then have "(i, j) \<in> E ^^ (cost (ent t i k) + cost (ent t k j))" using c(3) v k unfolding relpow_add by blast
      then show ?thesis by (rule shortest_costs(1) [OF s b E v])
    next
      case False
      then show ?thesis using c(1) [OF v] by linarith
    qed
  qed
  have "lead n (\<lambda>i j. cost (ent t i j)) i j (ent t i j)" if v: "i < n" "j < n" for i j
  proof (cases "i = j \<or> cost (ent t i j) = n")
    case True
    then have "next_node (ent t i j) = NULL"
      using sound_routesD(2) [OF s v(1)] sound_routesD(3) [OF s v] by (cases "i = j") auto
    then show ?thesis unfolding lead_def if_P [OF True] by blast
  next
    case False
    then obtain k where k: "k < n" "next_node (ent t i j) = Some k" "k \<noteq> i"
        "if k = j then cost (ent t i j) = 1 else cost (ent t i k) + cost (ent t k j) \<le> cost (ent t i j)"
      using sound_routesD(3) [OF s v] by auto
    have "cost (ent t i j) = cost (ent t i k) + cost (ent t k j)"
      using k(4) distancesD(3) [OF d v k(1)] c(2) [OF v(2,2)] by (cases "k = j") simp_all
    moreover have "k = j \<longrightarrow> cost (ent t i j) = 1" using k(4) by simp
    ultimately show ?thesis unfolding lead_def if_not_P [OF False] using k(1-3) by blast
  qed
  then show "leads n (\<lambda>i j. cost (ent t i j)) t" using sound_routesD(1) [OF s] unfolding leads_def by blast
qed

text \<open>Following them ends at a neighbour.\<close>

lemma follow_neighbour:
  assumes D: "distances n D" and t: "leads n D t" and i: "i < n"
  shows "m < n \<Longrightarrow> m \<noteq> i \<Longrightarrow> D i m < n \<Longrightarrow>
    \<exists>h < n. follow t i m = ret h \<and> h \<noteq> i \<and> D i h = 1 \<and> D i m = 1 + D h m"
proof (induction "D i m" arbitrary: m rule: less_induct)
  case less
  note d = distancesD [OF D]
  have e: "get_route t i m = Inr (ent t i m)" "cost (ent t i m) = D i m"
    by (rule leadsD(1,3) [OF t i less.prems(1)])+
  have pos: "0 < D i m" using d(2) [OF i less.prems(1)] less.prems(2) by auto
  show ?case
  proof (cases "D i m \<le> 1")
    case True
    then have "follow t i m = ret m" using e by (subst follow.simps) simp
    moreover have "D i m = 1" "D m m = 0" using pos True d(2) [OF less.prems(1,1)] by simp_all
    ultimately show ?thesis using less.prems by auto
  next
    case False
    have "D i m \<noteq> n" "i \<noteq> m" using less.prems(2,3) by simp_all
    then obtain k where k: "k < n" "next_node (ent t i m) = Some k" "k \<noteq> i" "D i m = D i k + D k m" "k \<noteq> m"
      using leads_next [OF t i less.prems(1)] False by (metis le_refl)
    have "0 < D k m" using d(2) [OF k(1) less.prems(1)] k(5) by auto
    then obtain h where h: "h < n" "follow t i k = ret h" "h \<noteq> i" "D i h = 1" "D i k = 1 + D h k"
      using less.hyps [of k] k less.prems(3) by auto
    have "follow t i m = ret h" using e False k(2) h(2) by (subst follow.simps) simp
    moreover have "D i m = 1 + D h m" using h(4,5) k(4) d(3) [OF h(1) less.prems(1) k(1)] d(3) [OF i less.prems(1) h(1)] by linarith
    ultimately show ?thesis using h by blast
  qed
qed

text \<open>An entry that is complete.\<close>

definition routed :: "network \<Rightarrow> (nat \<Rightarrow> nat \<Rightarrow> nat) \<Rightarrow> nat \<Rightarrow> nat \<Rightarrow> route \<Rightarrow> bool" where
  "routed net D i j e \<longleftrightarrow> cost e = D i j \<and>
     (if i = j \<or> D i j = num_nodes net then next_node e = NULL \<and> out_buffer e = NULL
      else \<exists>h b. next_node e = Some h \<and> out_buffer e = Some b \<and> b \<in> set (output_buffers net i) \<and> h \<in> set (destinations net b) \<and>
        h < num_nodes net \<and> h \<noteq> i \<and> D i j = 1 + D h j)"

lemma assign_buffer_routed:
  assumes D: "distances n D" and n: "n = num_nodes net" and h: "\<And>i j. i < n \<Longrightarrow> j < n \<Longrightarrow> D i j = 1 \<Longrightarrow> (i, j) \<in> hop net"
    and t: "leads n D t" and v: "i < n" "j < n"
  shows "\<exists>t'. assign_buffer net i t j = ret t' \<and> leads n D t' \<and> routed net D i j (ent t' i j) \<and>
    (\<forall>a < n. \<forall>b < n. (a, b) \<noteq> (i, j) \<longrightarrow> ent t' a b = ent t a b)"
proof -
  have e: "get_route t i j = Inr (ent t i j)" "cost (ent t i j) = D i j" by (rule leadsD(1,3) [OF t v])+
  show ?thesis
  proof (cases "i = j \<or> D i j = n")
    case True
    then have nx: "next_node (ent t i j) = NULL" using leadsD(2) [OF t v] unfolding lead_def by presburger
    have "lead n D i j ((ent t i j)\<lparr>out_buffer := NULL\<rparr>)" unfolding lead_out_buffer by (rule leadsD(2) [OF t v])
    then obtain t' where t': "put_route t i j (\<lambda>e. e\<lparr>out_buffer := NULL\<rparr>) = Inr t'" "leads n D t'"
        "ent t' i j = (ent t i j)\<lparr>out_buffer := NULL\<rparr>" "\<forall>a < n. \<forall>b < n. (a, b) \<noteq> (i, j) \<longrightarrow> ent t' a b = ent t a b"
      using leads_put [OF t v, of "\<lambda>e. e\<lparr>out_buffer := NULL\<rparr>"] by blast
    have "assign_buffer net i t j = ret t'" using nx e t'(1) by (simp add: assign_buffer_def)
    moreover have "routed net D i j (ent t' i j)" using True nx e(2) n by (simp add: routed_def t'(3))
    ultimately show ?thesis using t'(2,4) by blast
  next
    case False
    then obtain k where k: "k < n" "next_node (ent t i j) = Some k" "k \<noteq> i" "D i j = D i k + D k j" using leads_next [OF t v] by blast
    have "D i j < n" using False distancesD(1) [OF D v] by simp
    then have "D i k < n" using k(4) by linarith
    then obtain m where m: "m < n" "follow t i k = ret m" "m \<noteq> i" "D i m = 1" "D i k = 1 + D m k"
      using follow_neighbour [OF D t v(1) k(1,3)] by blast
    have dj: "D i j = 1 + D m j" using k(4) m(4,5) distancesD(3) [OF D m(1) v(2) k(1)] distancesD(3) [OF D v m(1)] by linarith
    obtain b where b: "find (\<lambda>b. m \<in> set (destinations net b)) (output_buffers net i) = Some b"
        "b \<in> set (output_buffers net i)" "m \<in> set (destinations net b)"
    proof -
      have "\<exists>b \<in> set (output_buffers net i). m \<in> set (destinations net b)" using h [OF v(1) m(1,4)] by (auto simp: hop_def)
      then show thesis using that
        by (cases "find (\<lambda>b. m \<in> set (destinations net b)) (output_buffers net i)") (auto simp: find_None_iff find_Some_iff)
    qed
    have "m = j \<longrightarrow> D i j = 1" using m(4) by blast
    then have "lead n D i j ((ent t i j)\<lparr>next_node := Some m, out_buffer := Some b\<rparr>)"
      using e(2) False m(1,3,4) dj by (simp add: lead_def)
    then obtain t' where t': "put_route t i j (\<lambda>e. e\<lparr>next_node := Some m, out_buffer := Some b\<rparr>) = Inr t'" "leads n D t'"
        "ent t' i j = (ent t i j)\<lparr>next_node := Some m, out_buffer := Some b\<rparr>" "\<forall>a < n. \<forall>b < n. (a, b) \<noteq> (i, j) \<longrightarrow> ent t' a b = ent t a b"
      using leads_put [OF t v, of "\<lambda>e. e\<lparr>next_node := Some m, out_buffer := Some b\<rparr>"] by blast
    have a: "assign_buffer net i t j = ret t'" using k(2) m(2) e b(1) t'(1) by (simp add: assign_buffer_def set_output_def)
    moreover have "routed net D i j (ent t' i j)" using False e(2) b m dj n by (auto simp: routed_def t'(3))
    ultimately show ?thesis using t'(2,4) by blast
  qed
qed

lemma assign_buffers_routed:
  assumes D: "distances n D" and n: "n = num_nodes net" and h: "\<And>i j. i < n \<Longrightarrow> j < n \<Longrightarrow> D i j = 1 \<Longrightarrow> (i, j) \<in> hop net"
    and t: "leads n D t"
  shows "\<exists>t'. run_each (\<lambda>t i. run_each (assign_buffer net i) [0..<n] t) [0..<n] t = ret t' \<and> table n t' \<and>
    (\<forall>i < n. \<forall>j < n. routed net D i j (ent t' i j))"
proof -
  let ?I = "\<lambda>i u. leads n D u \<and> (\<forall>a < n. \<forall>b < n. a < i \<longrightarrow> routed net D a b (ent u a b))"
  have "\<exists>t'. run_each (\<lambda>t i. run_each (assign_buffer net i) [0..<n] t) [0..<n] t = ret t' \<and> ?I n t'"
  proof (rule run_each_upto [where I = ?I])
    show "?I 0 t" using t by simp
    fix i u assume i: "i < n" and u: "?I i u"
    let ?J = "\<lambda>j u. leads n D u \<and> (\<forall>a < n. \<forall>b < n. a < i \<or> a = i \<and> b < j \<longrightarrow> routed net D a b (ent u a b))"
    have "\<exists>u'. run_each (assign_buffer net i) [0..<n] u = ret u' \<and> ?J n u'"
    proof (rule run_each_upto [where I = ?J])
      show "?J 0 u" using u by simp
      fix j w assume j: "j < n" and w: "?J j w"
      obtain w' where w': "assign_buffer net i w j = ret w'" "leads n D w'" "routed net D i j (ent w' i j)"
          "\<forall>a < n. \<forall>b < n. (a, b) \<noteq> (i, j) \<longrightarrow> ent w' a b = ent w a b"
        using assign_buffer_routed [OF D n h conjunct1 [OF w] i j] by blast
      have "?J (Suc j) w'" using w w'(2-4) by (auto simp: less_Suc_eq)
      then show "\<exists>w'. assign_buffer net i w j = ret w' \<and> ?J (Suc j) w'" using w'(1) by blast
    qed
    then obtain u' where u': "run_each (assign_buffer net i) [0..<n] u = ret u'" "?J n u'" by blast
    have "?I (Suc i) u'" using u'(2) by (auto simp: less_Suc_eq)
    then show "\<exists>u'. run_each (assign_buffer net i) [0..<n] u = ret u' \<and> ?I (Suc i) u'" using u'(1) by blast
  qed
  then show ?thesis by (auto simp: leads_def)
qed

lemma direct_sound:
  assumes t: "direct n E t" and E: "E \<subseteq> {..<n} \<times> {..<n}" and irrefl: "\<And>i. (i, i) \<notin> E"
  shows "sound_routes E n t"
  unfolding sound_routes_def
proof (intro conjI allI impI)
  show "table n t" using t by (simp add: direct_def)
  show "ent t i i = \<lparr>cost = 0, next_node = NULL, out_buffer = NULL\<rparr>" if "i < n" for i using t irrefl that by (simp add: direct_def)
  fix i j assume v: "i < n" "j < n" "i \<noteq> j"
  then have "1 < n" by linarith
  have "if (i, j) \<in> E then cost (ent t i j) = 1 \<and> next_node (ent t i j) = Some j
      else ent t i j = \<lparr>cost = if i = j then 0 else n, next_node = NULL, out_buffer = NULL\<rparr>"
    using t v unfolding direct_def by blast
  then show "(next_node (ent t i j) = NULL \<and> cost (ent t i j) = n \<and> out_buffer (ent t i j) = NULL) \<or>
        ((i, j) \<in> E ^^ cost (ent t i j) \<and> 1 \<le> cost (ent t i j) \<and> cost (ent t i j) < n \<and>
          (\<exists>k < n. next_node (ent t i j) = Some k \<and> k \<noteq> i \<and>
            (if k = j then cost (ent t i j) = 1 else cost (ent t i k) + cost (ent t k j) \<le> cost (ent t i j))))"
    using v \<open>1 < n\<close> by (cases "(i, j) \<in> E") auto
qed

text \<open>The whole algorithm on a table of direct connections.\<close>

lemma FloydWarshall_routed:
  assumes net: "network_ok net" and t: "direct (num_nodes net) (hop net) t" and n: "n = num_nodes net"
  shows "\<exists>t' D. FloydWarshall net t = ret t' \<and> table n t' \<and> distances n D \<and>
    (\<forall>i < n. \<forall>j < n. routed net D i j (ent t' i j) \<and> (D i j < n \<longrightarrow> (i, j) \<in> hop net ^^ D i j) \<and>
       (\<forall>m. (i, j) \<in> hop net ^^ m \<longrightarrow> D i j \<le> m) \<and> (i \<noteq> j \<longrightarrow> ((i, j) \<in> (hop net)\<^sup>* \<longleftrightarrow> D i j < n)))"
proof -
  let ?E = "hop net"
  have E: "?E \<subseteq> {..<n} \<times> {..<n}" using net n by (auto simp: hop_def network_ok_def)
  have irrefl: "(i, i) \<notin> ?E" for i by (simp add: hop_def)
  have s: "sound_routes ?E n t" by (rule direct_sound [OF _ E irrefl]) (use t n in simp)
  have e: "cost (ent t i j) = 1" if "i < n" "j < n" "(i, j) \<in> ?E" for i j using t n that by (simp add: direct_def)
  obtain u where u: "shortest_loop t = Inr u" "sound_routes ?E n u" "bounded_by ?E n n u" using shortest_loop_bounds [OF s e] by blast
  let ?D = "\<lambda>i j. cost (ent u i j)"
  note l = sound_leads [OF u(2,3) E]
  have one: "(i, j) \<in> ?E" if "i < n" "j < n" "?D i j = 1" for i j
  proof -
    have "i \<noteq> j" using sound_cost(2) [OF u(2) that(1,2)] that(3) by auto
    then have "n \<noteq> 1" using that(1,2) by auto
    then have "?D i j < n" using sound_cost(1) [OF u(2) that(1,2)] that(3) by linarith
    then show ?thesis using sound_cost(3) [OF u(2) that(1,2)] that(3) by simp
  qed
  obtain t' where t': "run_each (\<lambda>t i. run_each (assign_buffer net i) [0..<n] t) [0..<n] u = ret t'" "table n t'"
      "\<forall>i < n. \<forall>j < n. routed net ?D i j (ent t' i j)"
    using assign_buffers_routed [OF l(1) n one l(2)] by blast
  have "dimension u = n" using u(2) by (simp add: sound_routes_def table_def)
  then have "FloydWarshall net t = ret t'" using u(1) t'(1) by (simp add: FloydWarshall_def Let_def)
  then show ?thesis using t'(2,3) l(1) sound_cost(3) [OF u(2)] shortest_costs [OF u(2,3) E] by blast
qed

section \<open>Cycles of buffers\<close>

text \<open>A buffer waits for another one when a packet that is in it goes on to the other one: the output buffer of a route and that
  of the rest of the route.\<close>

definition waits_at :: "routing_table \<Rightarrow> nat \<Rightarrow> nat \<Rightarrow> nat rel" where
  "waits_at t i j = {(b, b'). i \<noteq> j \<and> out_buffer (ent t i j) = Some b \<and>
     (\<exists>h. next_node (ent t i j) = Some h \<and> out_buffer (ent t h j) = Some b')}"

definition waits :: "nat \<Rightarrow> routing_table \<Rightarrow> nat rel" where
  "waits n t = (\<Union>i < n. \<Union>j < n. waits_at t i j)"

text \<open>Tables that the graph of buffers can be built from: the output buffer of a route belongs to its node.\<close>

definition usable :: "network \<Rightarrow> nat \<Rightarrow> routing_table \<Rightarrow> bool" where
  "usable net n t \<longleftrightarrow> table n t \<and> (\<forall>i < n. \<forall>j < n. \<forall>b. out_buffer (ent t i j) = Some b \<longrightarrow>
     b \<in> set (output_buffers net i) \<and> (\<exists>h < n. next_node (ent t i j) = Some h))"

lemma used_loop_in:
  assumes "table n t" "i < n" "set js \<subseteq> {..<n}"
  shows "used_loop t i b js = Inr (\<exists>j \<in> set js. out_buffer (ent t i j) = Some b)"
  using assms(3) by (induction js) (auto simp: get_route_in [OF assms(1,2)])

text \<open>The vertices: each buffer that is used has one, and no two have the same.\<close>

definition vertex_map :: "nat set \<Rightarrow> graph \<times> (nat \<rightharpoonup> nat) \<Rightarrow> bool" where
  "vertex_map B s \<longleftrightarrow> graph_ok (fst s) \<and> edges (fst s) = [] \<and> B \<subseteq> dom (snd s) \<and> ran (snd s) \<subseteq> {..<length (vertices (fst s))} \<and>
     (\<forall>b c v. snd s b = Some v \<longrightarrow> snd s c = Some v \<longrightarrow> b = c)"

definition used :: "nat \<Rightarrow> routing_table \<Rightarrow> nat \<Rightarrow> nat set" where
  "used n t i = {b. \<exists>j < n. out_buffer (ent t i j) = Some b}"

lemma buffer_vertex_map:
  assumes t: "table n t" and i: "i < n" and s: "vertex_map B s"
  shows "\<exists>s'. buffer_vertex t i s b = Inr s' \<and> vertex_map (B \<union> (used n t i \<inter> {b})) s'"
proof -
  have d: "dimension t = n" using t by (simp add: table_def)
  have u: "used_loop t i b [0..<dimension t] = Inr (b \<in> used n t i)"
    using used_loop_in [OF t i, of "[0..<n]" b] by (simp add: d used_def Bex_def atLeast0LessThan)
  show ?thesis
  proof (cases "b \<in> used n t i")
    case False
    then show ?thesis using u s by (simp add: buffer_vertex_def)
  next
    case True
    note A = addVertex_ok [of "fst s"]
    let ?m = "if snd s b = None then (snd s)(b \<mapsto> length (vertices (fst s))) else snd s"
    have r: "ran (snd s) \<subseteq> {..<length (vertices (fst s))}" using s by (simp add: vertex_map_def)
    have new: "snd s c \<noteq> Some (length (vertices (fst s)))" for c using r by (auto intro: ranI)
    have "buffer_vertex t i s b = Inr (addVertex (fst s), ?m)"
      using u True A(3) s by (simp add: buffer_vertex_def Let_def vertex_map_def)
    moreover have "vertex_map (B \<union> (used n t i \<inter> {b})) (addVertex (fst s), ?m)"
    proof (cases "snd s b")
      case None
      have "ran ?m \<subseteq> {..<Suc (length (vertices (fst s)))}" using None r by (auto simp: ran_def split: if_splits)
      moreover have "x = y" if "?m x = Some v" "?m y = Some v" for x y v
      proof -
        have "snd s x = Some v \<longrightarrow> snd s y = Some v \<longrightarrow> x = y" using s unfolding vertex_map_def by blast
        then show ?thesis using that None new [of x] new [of y] by (cases "x = b"; cases "y = b") auto
      qed
      moreover have "B \<union> (used n t i \<inter> {b}) \<subseteq> dom ?m" using None s by (auto simp: vertex_map_def)
      moreover have "graph_ok (fst s)" "edges (fst s) = []" using s by (simp_all add: vertex_map_def)
      ultimately show ?thesis using A unfolding vertex_map_def fst_conv snd_conv by metis
    next
      case (Some v)
      then show ?thesis using s A by (auto simp: vertex_map_def)
    qed
    ultimately show ?thesis by blast
  qed
qed

lemma buffer_vertices:
  assumes "usable net n t"
  shows "\<exists>s. run_list (\<lambda>s i. run_list (buffer_vertex t i) (output_buffers net i) s) [0..<n] (empty_graph, Map.empty) = Inr s \<and>
    vertex_map (\<Union>i < n. used n t i) s"
proof -
  have t: "table n t" using assms by (simp add: usable_def)
  have own: "used n t i \<subseteq> set (output_buffers net i)" if "i < n" for i using assms that by (auto simp: usable_def used_def)
  have start: "vertex_map {} (empty_graph, Map.empty)" using empty_graph_ok by (simp add: vertex_map_def)
  have node: "\<exists>s'. run_list (buffer_vertex t i) (output_buffers net i) s = Inr s' \<and> vertex_map (B \<union> used n t i) s'"
    if i: "i \<in> set [0..<n]" and s: "vertex_map B s" for B i s
  proof -
    have "i < n" using i by simp
    have "(\<Union>b \<in> set (output_buffers net i). used n t i \<inter> {b}) = used n t i" using own [OF \<open>i < n\<close>] by blast
    then show ?thesis
      using run_list_union [of vertex_map B s "output_buffers net i" "buffer_vertex t i" "\<lambda>b. used n t i \<inter> {b}", OF s]
        buffer_vertex_map [OF t \<open>i < n\<close>] by metis
  qed
  show ?thesis
    using run_list_union [of vertex_map "{}" _ "[0..<n]" _ "used n t", OF start node] by (auto simp: atLeast0LessThan)
qed

text \<open>The edges.\<close>

definition edge_image :: "(nat \<rightharpoonup> nat) \<Rightarrow> nat \<Rightarrow> nat rel \<Rightarrow> graph \<Rightarrow> bool" where
  "edge_image m k W g \<longleftrightarrow> graph_ok g \<and> length (vertices g) = k \<and> set (edges g) = map_prod (the \<circ> m) (the \<circ> m) ` W"

lemma route_edge_image:
  assumes u: "usable net n t" and m: "(\<Union>i < n. used n t i) \<subseteq> dom m" "ran m \<subseteq> {..<k}" and v: "i < n" "j < n"
    and g: "edge_image m k W g"
  shows "\<exists>g'. route_edge t m i g j = Inr g' \<and> edge_image m k (W \<union> waits_at t i j) g'"
proof -
  have t: "table n t" using u by (simp add: usable_def)
  show ?thesis
  proof (cases "waits_at t i j = {}")
    case True
    have "route_edge t m i g j = Inr g"
    proof (cases "out_buffer (ent t i j)")
      case None
      then show ?thesis using get_route_in [OF t v] by (simp add: route_edge_def)
    next
      case (Some b)
      then obtain h where h: "h < n" "next_node (ent t i j) = Some h" using u v unfolding usable_def by blast
      then have "i = j \<or> out_buffer (ent t h j) = NULL" using True Some by (cases "out_buffer (ent t h j)") (auto simp: waits_at_def)
      then show ?thesis using Some h get_route_in [OF t v] get_route_in [OF t h(1) v(2)] by (auto simp: route_edge_def)
    qed
    then show ?thesis using True g by simp
  next
    case False
    then obtain b b' h where b: "i \<noteq> j" "out_buffer (ent t i j) = Some b" "next_node (ent t i j) = Some h" "out_buffer (ent t h j) = Some b'"
      by (auto simp: waits_at_def)
    then have W: "waits_at t i j = {(b, b')}" by (auto simp: waits_at_def)
    have "\<exists>p < n. next_node (ent t i j) = Some p" using u v b(2) unfolding usable_def by blast
    then have h: "h < n" using b(3) by simp
    have "b \<in> dom m" "b' \<in> dom m" using m(1) v h b(2,4) by (auto simp: used_def)
    then obtain x y where x: "m b = Some x" "m b' = Some y" by blast
    then have k: "x < length (vertices g)" "y < length (vertices g)" using m(2) g by (auto simp: edge_image_def intro: ranI)
    have e: "route_edge t m i g j = (if findEdge g x y = NULL then addEdge x y g else Inr g)"
      using b x get_route_in [OF t v] get_route_in [OF t h v(2)] by (simp add: route_edge_def)
    have img: "map_prod (the \<circ> m) (the \<circ> m) ` (W \<union> waits_at t i j) = insert (x, y) (map_prod (the \<circ> m) (the \<circ> m) ` W)"
      by (simp add: assms W x)
    show ?thesis
    proof (cases "findEdge g x y = NULL")
      case True
      obtain g' where "addEdge x y g = Inr g'" "graph_ok g'" "edges g' = edges g @ [(x, y)]" "length (vertices g') = length (vertices g)"
        using addEdge_ok [OF _ k] g by (auto simp: edge_image_def)
      then show ?thesis using e True g img by (auto simp: edge_image_def)
    next
      case False
      then have "(x, y) \<in> set (edges g)" using findEdge_iff [of g x y] by blast
      then show ?thesis using e False g img by (auto simp: edge_image_def)
    qed
  qed
qed

lemma trancl_image:
  assumes "\<And>a b. a \<in> Field R \<Longrightarrow> b \<in> Field R \<Longrightarrow> f a = f b \<Longrightarrow> a = b"
  shows "(\<exists>v. (v, v) \<in> (map_prod f f ` R)\<^sup>+) \<longleftrightarrow> (\<exists>b. (b, b) \<in> R\<^sup>+)"
proof -
  have "\<exists>a b. x = f a \<and> y = f b \<and> (a, b) \<in> R\<^sup>+" if "(x, y) \<in> (map_prod f f ` R)\<^sup>+" for x y
    using that
  proof (induction rule: trancl_induct)
    case (step y z)
    then obtain a b c d where s: "x = f a" "y = f b" "(a, b) \<in> R\<^sup>+" "y = f c" "z = f d" "(c, d) \<in> R" by auto
    have "b \<in> Field R" "c \<in> Field R" using s(3,6) by (auto simp: Field_def dest: tranclD2)
    then have "b = c" using assms s(2,4) by metis
    then show ?case using s by (metis trancl.trancl_into_trancl)
  qed auto
  moreover have "(f a, f b) \<in> (map_prod f f ` R)\<^sup>+" if "(a, b) \<in> R\<^sup>+" for a b
    using that by (induction rule: trancl_induct) (auto intro: trancl.trancl_into_trancl)
  moreover have "a = b" if "(a, b) \<in> R\<^sup>+" "f a = f b" for a b
  proof -
    have "a \<in> Field R" "b \<in> Field R" using that(1) by (auto simp: Field_def dest: tranclD tranclD2)
    then show ?thesis using assms that(2) by blast
  qed
  ultimately show ?thesis by metis
qed

lemma hasCycle_decides:
  assumes u: "usable net n t"
  shows "hasCycle net t = ret (\<exists>b. (b, b) \<in> (waits n t)\<^sup>+)"
proof -
  have d: "dimension t = n" using u by (simp add: usable_def table_def)
  obtain g0 m where s: "run_list (\<lambda>s i. run_list (buffer_vertex t i) (output_buffers net i) s) [0..<n] (empty_graph, Map.empty) = Inr (g0, m)"
      "vertex_map (\<Union>i < n. used n t i) (g0, m)" using buffer_vertices [OF u] by auto
  let ?k = "length (vertices g0)"
  have m: "(\<Union>i < n. used n t i) \<subseteq> dom m" "ran m \<subseteq> {..<?k}" "\<And>b c v. m b = Some v \<Longrightarrow> m c = Some v \<Longrightarrow> b = c"
    using s(2) by (auto simp: vertex_map_def)
  have start: "edge_image m ?k {} g0" using s(2) by (simp add: vertex_map_def edge_image_def)
  have row: "\<exists>g'. run_list (route_edge t m i) [0..<n] g = Inr g' \<and> edge_image m ?k (W \<union> (\<Union>j < n. waits_at t i j)) g'"
    if i: "i \<in> set [0..<n]" and g: "edge_image m ?k W g" for W i g
    using run_list_union [of "edge_image m ?k" W g "[0..<n]" "route_edge t m i" "waits_at t i", OF g]
      route_edge_image [OF u m(1,2)] i by (auto simp: atLeast0LessThan)
  obtain g where g: "run_list (\<lambda>g i. run_list (route_edge t m i) [0..<n] g) [0..<n] g0 = Inr g" "edge_image m ?k (waits n t) g"
    using run_list_union [of "edge_image m ?k" "{}" g0 "[0..<n]" "\<lambda>g i. run_list (route_edge t m i) [0..<n] g"
        "\<lambda>i. \<Union>j < n. waits_at t i j", OF start row] by (auto simp: atLeast0LessThan waits_def)
  have "Field (waits n t) \<subseteq> (\<Union>i < n. used n t i)"
    using u by (fastforce simp: Field_def waits_def waits_at_def used_def usable_def)
  then have inj: "a = b" if "a \<in> Field (waits n t)" "b \<in> Field (waits n t)" "(the \<circ> m) a = (the \<circ> m) b" for a b
    using that m by (metis (no_types, lifting) comp_apply domIff option.collapse subsetD)
  have "table_graph net t = Inr g" using s(1) g(1) by (simp add: table_graph_def d Let_def)
  then have "hasCycle net t = ret (\<exists>v. (v, v) \<in> (map_prod (the \<circ> m) (the \<circ> m) ` waits n t)\<^sup>+)"
    using graph_hasCycle_decides [of g] g(2) by (simp add: hasCycle_def edge_image_def)
  then show ?thesis using trancl_image [of "waits n t" "the \<circ> m"] inj by simp
qed

text \<open>Routes of the algorithm are such routes.\<close>

lemma routed_usable:
  assumes "table n t" "n = num_nodes net" "\<forall>i < n. \<forall>j < n. routed net D i j (ent t i j)"
  shows "usable net n t"
  unfolding usable_def
proof (intro conjI allI impI)
  fix i j b assume v: "i < n" "j < n" and b: "out_buffer (ent t i j) = Some b"
  have "routed net D i j (ent t i j)" using assms(3) v by blast
  then show "b \<in> set (output_buffers net i)" "\<exists>h < n. next_node (ent t i j) = Some h"
    using b assms(2) by (auto simp: routed_def split: if_splits)
qed (rule assms(1))

text \<open>Where the next nodes of given routes form a cycle that misses the destination, adding up the costs does not end; this
  happens before the buffers are checked for cycles.\<close>

lemma path_cost_diverges:
  assumes "table n t" "A \<subseteq> {..<n}" "i < n" "j < n" "j \<notin> A" "a \<in> A"
    and "\<forall>a \<in> A. \<exists>p \<in> A. next_node (ent t a j) = Some p"
  shows "path_cost i j a t = None"
proof (rule ccontr)
  let ?P = "\<lambda>i j a t. table n t \<and> i < n \<and> j < n \<and> j \<notin> A \<and> a \<in> A \<and> (\<forall>a \<in> A. \<exists>p \<in> A. next_node (ent t a j) = Some p)"
  assume "path_cost i j a t \<noteq> None"
  then obtain y where "path_cost i j a t = Some y" by blast
  then have "\<not> ?P i j a t"
  proof (rule path_cost.raw_induct [where P = "\<lambda>i j a t y. \<not> ?P i j a t", rotated])
    fix go :: "nat \<Rightarrow> nat \<Rightarrow> nat \<Rightarrow> routing_table \<Rightarrow> routing_table run option" and i j a t y
    assume IH: "\<And>i j a t y. go i j a t = Some y \<Longrightarrow> \<not> ?P i j a t"
      and eq: "(if a = j then ret t
        else bindr (Some (get_route t a j)) (\<lambda>e. case next_node e of None \<Rightarrow> ret t
          | Some p \<Rightarrow> bindr (Some (get_route t a p)) (\<lambda>step.
              bindr (Some (put_route t i j (\<lambda>e. e\<lparr>cost := cost e + cost step\<rparr>))) (\<lambda>t. go i j p t)))) = Some y"
    show "\<not> ?P i j a t"
    proof
      assume P: "?P i j a t"
      then obtain p where p: "p \<in> A" "next_node (ent t a j) = Some p" by blast
      have r: "a < n" "p < n" "a \<noteq> j" using P p(1) assms(2) by auto
      obtain t' where t': "put_route t i j (\<lambda>e. e\<lparr>cost := cost e + cost (ent t a p)\<rparr>) = Inr t'" "table n t'"
          "\<forall>x < n. \<forall>y < n. ent t' x y = (if x = i \<and> y = j then (ent t i j)\<lparr>cost := cost (ent t i j) + cost (ent t a p)\<rparr> else ent t x y)"
        using put_route_in [of n t i j "\<lambda>e. e\<lparr>cost := cost e + cost (ent t a p)\<rparr>"] P by blast
      have "next_node (ent t' x j) = next_node (ent t x j)" if "x \<in> A" for x
        using t'(3) that assms(2) P by auto
      then have "?P i j p t'" using P p(1) t'(2) by auto
      moreover have "go i j p t' = Some y"
        using eq r p(2) t'(1) P get_route_in [of n t a j] get_route_in [of n t a p] by simp
      ultimately show False using IH by blast
    qed
  qed
  then show False using assms by blast
qed

section \<open>Properties\<close>

text \<open>C16: The routing table of a network has, for each pair of nodes, the least number of hops between them, and a next node,
  connected to the output buffer of the entry, that is one hop nearer; nodes that cannot be reached have no route.\<close>

theorem routes_are_shortest:
  assumes "network_ok net" "routes t = []"
  shows "\<exists>t0 t'. Initialize net t = Inr t0 \<and> FloydWarshall net t0 = ret t' \<and>
    (\<forall>i < num_nodes net. \<forall>j < num_nodes net. \<exists>e. get_route t' i j = Inr e \<and>
      (if i = j then cost e = 0 \<and> next_node e = NULL \<and> out_buffer e = NULL
       else if (i, j) \<in> (hop net)\<^sup>* then
         (i, j) \<in> hop net ^^ cost e \<and> (\<forall>m. (i, j) \<in> hop net ^^ m \<longrightarrow> cost e \<le> m) \<and>
         (\<exists>h b e'. next_node e = Some h \<and> out_buffer e = Some b \<and> b \<in> set (output_buffers net i) \<and> h \<in> set (destinations net b) \<and>
            get_route t' h j = Inr e' \<and> cost e = 1 + cost e')
       else cost e = num_nodes net \<and> next_node e = NULL \<and> out_buffer e = NULL))"
proof -
  let ?n = "num_nodes net"
  obtain t0 where t0: "Initialize net t = Inr t0" "direct ?n (hop net) t0" using Initialize_direct [OF assms] by blast
  obtain t' D where t': "FloydWarshall net t0 = ret t'" "table ?n t'" "distances ?n D"
      "\<forall>i < ?n. \<forall>j < ?n. routed net D i j (ent t' i j) \<and> (D i j < ?n \<longrightarrow> (i, j) \<in> hop net ^^ D i j) \<and>
       (\<forall>m. (i, j) \<in> hop net ^^ m \<longrightarrow> D i j \<le> m) \<and> (i \<noteq> j \<longrightarrow> ((i, j) \<in> (hop net)\<^sup>* \<longleftrightarrow> D i j < ?n))"
    using FloydWarshall_routed [OF assms(1) t0(2) refl] by blast
  have nearer: "\<exists>h b e'. next_node (ent t' i j) = Some h \<and> out_buffer (ent t' i j) = Some b \<and> b \<in> set (output_buffers net i) \<and>
      h \<in> set (destinations net b) \<and> get_route t' h j = Inr e' \<and> cost (ent t' i j) = 1 + cost e'"
    if v: "i < ?n" "j < ?n" "i \<noteq> j" "D i j < ?n" for i j
  proof -
    obtain h b where h: "next_node (ent t' i j) = Some h" "out_buffer (ent t' i j) = Some b" "b \<in> set (output_buffers net i)"
        "h \<in> set (destinations net b)" "h < ?n" "cost (ent t' i j) = 1 + D h j"
    proof -
      have "routed net D i j (ent t' i j)" using t'(4) v by blast
      then show thesis using v(3,4) that by (auto simp: routed_def)
    qed
    moreover have "routed net D h j (ent t' h j)" using t'(4) h(5) v(2) by blast
    then have "cost (ent t' h j) = D h j" by (simp add: routed_def)
    moreover have "get_route t' h j = Inr (ent t' h j)" by (rule get_route_in [OF t'(2) h(5) v(2)])
    ultimately show ?thesis by auto
  qed
  have "\<exists>e. get_route t' i j = Inr e \<and>
      (if i = j then cost e = 0 \<and> next_node e = NULL \<and> out_buffer e = NULL
       else if (i, j) \<in> (hop net)\<^sup>* then
         (i, j) \<in> hop net ^^ cost e \<and> (\<forall>m. (i, j) \<in> hop net ^^ m \<longrightarrow> cost e \<le> m) \<and>
         (\<exists>h b e'. next_node e = Some h \<and> out_buffer e = Some b \<and> b \<in> set (output_buffers net i) \<and> h \<in> set (destinations net b) \<and>
            get_route t' h j = Inr e' \<and> cost e = 1 + cost e')
       else cost e = ?n \<and> next_node e = NULL \<and> out_buffer e = NULL)" if v: "i < ?n" "j < ?n" for i j
  proof -
    have r: "routed net D i j (ent t' i j)" and g: "get_route t' i j = Inr (ent t' i j)" using t'(4) get_route_in [OF t'(2) v] v by blast+
    have c: "cost (ent t' i j) = D i j" using r by (simp add: routed_def)
    consider "i = j" | "i \<noteq> j" "D i j < ?n" | "i \<noteq> j" "D i j = ?n" using distancesD(1) [OF t'(3) v] by linarith
    then show ?thesis
    proof cases
      case 1
      then show ?thesis using r g c distancesD(2) [OF t'(3) v] by (simp add: routed_def)
    next
      case 2
      have w: "(i, j) \<in> (hop net)\<^sup>*" "(i, j) \<in> hop net ^^ cost (ent t' i j)" "\<forall>m. (i, j) \<in> hop net ^^ m \<longrightarrow> cost (ent t' i j) \<le> m"
        unfolding c using t'(4) v 2 by blast+
      show ?thesis unfolding if_not_P [OF 2(1)] if_P [OF w(1)] using w g nearer [OF v 2] by blast
    next
      case 3
      then have "(i, j) \<notin> (hop net)\<^sup>*" using t'(4) v by (metis less_irrefl)
      moreover have "next_node (ent t' i j) = NULL \<and> out_buffer (ent t' i j) = NULL"
        using r disjI2 [OF 3(2), of "i = j"] unfolding routed_def by presburger
      ultimately show ?thesis using 3 g c by simp
    qed
  qed
  then show ?thesis using t0(1) t'(1) by blast
qed

text \<open>Three nodes in a ring, each with one buffer to the next.\<close>

definition ring :: network where
  "ring = \<lparr>num_nodes = 3, output_buffers = (\<lambda>i. [i]), buffer_node = id, buffer_connection = id, source_buffers = (\<lambda>c. [c]),
     destination_buffers = (\<lambda>c. [if c = 2 then 0 else c + 1]), link = (\<lambda>c. Some (if c = 2 then 0 else c + 1, 1))\<rparr>"

definition empty_table :: routing_table where
  "empty_table = \<lparr>dimension = 3, routes = []\<rparr>"

lemma ring_ok: "network_ok ring" "routes empty_table = []"
  by (auto simp: network_ok_def ring_def destinations_def empty_table_def)

lemma ring_hop: "hop ring = {(0, 1), (1, 2), (2, 0)}"
  by (auto simp: hop_def ring_def destinations_def split: if_splits)

theorem routes_are_shortest_witness:
  "\<exists>t0 t' e. Initialize ring empty_table = Inr t0 \<and> FloydWarshall ring t0 = ret t' \<and> get_route t' 0 2 = Inr e \<and> cost e = 2"
proof -
  have two: "(0, 2) \<in> hop ring ^^ 2" by (simp add: ring_hop numeral_2_eq_2 relpow_Suc_I relcomp_unfold)
  then have reach: "(0, 2) \<in> (hop ring)\<^sup>*" by (rule relpow_imp_rtrancl)
  obtain t0 t' where t: "Initialize ring empty_table = Inr t0" "FloydWarshall ring t0 = ret t'"
      "\<forall>i < 3. \<forall>j < 3. \<exists>e. get_route t' i j = Inr e \<and>
        (if i = j then cost e = 0 \<and> next_node e = NULL \<and> out_buffer e = NULL
         else if (i, j) \<in> (hop ring)\<^sup>* then (i, j) \<in> hop ring ^^ cost e \<and> (\<forall>m. (i, j) \<in> hop ring ^^ m \<longrightarrow> cost e \<le> m) \<and>
           (\<exists>h b e'. next_node e = Some h \<and> out_buffer e = Some b \<and> b \<in> set (output_buffers ring i) \<and> h \<in> set (destinations ring b) \<and>
             get_route t' h j = Inr e' \<and> cost e = 1 + cost e')
         else cost e = num_nodes ring \<and> next_node e = NULL \<and> out_buffer e = NULL)"
    using routes_are_shortest [OF ring_ok] by (auto simp: ring_def)
  obtain e where e: "get_route t' 0 2 = Inr e" "(0, 2) \<in> hop ring ^^ cost e" "\<forall>m. (0, 2) \<in> hop ring ^^ m \<longrightarrow> cost e \<le> m"
    using t(3) [rule_format, of 0 2] reach by auto
  have "cost e \<le> 2" using e(3) two by blast
  moreover have "cost e \<noteq> 0" using e(2) by (metis relpow_0_E zero_neq_numeral)
  moreover have "cost e \<noteq> 1" using e(2) by (auto simp: ring_hop)
  ultimately have "cost e = 2" by linarith
  then show ?thesis using t(1,2) e(1) by blast
qed

text \<open>C17: The check for deadlocks on the shortest routes of a network always returns, and finds a cycle exactly when
  there is one: a buffer that, directly or over other buffers, waits for itself, where a buffer waits for
  another one when some route uses the one and goes on with the other.\<close>

theorem routing_cycles_found:
  assumes "network_ok net" "routes t = []"
  shows "\<exists>t0 t'. Initialize net t = Inr t0 \<and> FloydWarshall net t0 = ret t' \<and>
    hasCycle net t' = ret (\<exists>b. (b, b) \<in> (waits (num_nodes net) t')\<^sup>+)"
proof -
  let ?n = "num_nodes net"
  obtain t0 where t0: "Initialize net t = Inr t0" "direct ?n (hop net) t0" using Initialize_direct [OF assms] by blast
  obtain t' D where t': "FloydWarshall net t0 = ret t'" "table ?n t'" "\<forall>i < ?n. \<forall>j < ?n. routed net D i j (ent t' i j)"
    using FloydWarshall_routed [OF assms(1) t0(2) refl] by blast
  show ?thesis using t0(1) t'(1) hasCycle_decides [OF routed_usable [OF t'(2) refl t'(3)]] by blast
qed

theorem routing_cycles_found_witness:
  "\<exists>t0 t'. Initialize ring empty_table = Inr t0 \<and> FloydWarshall ring t0 = ret t' \<and> hasCycle ring t' = ret True"
proof -
  obtain t0 t' where t: "Initialize ring empty_table = Inr t0" "FloydWarshall ring t0 = ret t'"
      "hasCycle ring t' = ret (\<exists>b. (b, b) \<in> (waits 3 t')\<^sup>+)"
    using routing_cycles_found [OF ring_ok] by (auto simp: ring_def)
  have n: "num_nodes ring = 3" by (simp add: ring_def)
  obtain D where d: "\<forall>i < 3. \<forall>j < 3. routed ring D i j (ent t' i j) \<and> (i \<noteq> j \<longrightarrow> ((i, j) \<in> (hop ring)\<^sup>* \<longleftrightarrow> D i j < 3))"
    using Initialize_direct [OF ring_ok] FloydWarshall_routed [OF ring_ok(1) _ refl] t(1,2) unfolding n by fastforce
  have nx: "out_buffer (ent t' i j) = Some i \<and> next_node (ent t' i j) = Some (if i = 2 then 0 else i + 1)"
    if v: "i < 3" "j < 3" "i \<noteq> j" "(i, j) \<in> (hop ring)\<^sup>*" for i j
  proof -
    have "routed ring D i j (ent t' i j)" "D i j \<noteq> 3" using d v by auto
    then show ?thesis using v(3) by (auto simp: routed_def ring_def destinations_def)
  qed
  have h: "(0, 1) \<in> hop ring" "(1, 2) \<in> hop ring" "(2, 0) \<in> hop ring" by (auto simp: ring_hop)
  have r: "(0, 1) \<in> (hop ring)\<^sup>*" "(0, 2) \<in> (hop ring)\<^sup>*" "(1, 2) \<in> (hop ring)\<^sup>*" "(1, 0) \<in> (hop ring)\<^sup>*"
      "(2, 0) \<in> (hop ring)\<^sup>*" "(2, 1) \<in> (hop ring)\<^sup>*"
    using h by (meson r_into_rtrancl rtrancl_trans)+
  have "(0, 1) \<in> waits_at t' 0 2" "(1, 2) \<in> waits_at t' 1 0" "(2, 0) \<in> waits_at t' 2 1"
    using nx [of 0 2] nx [of 1 2] nx [of 1 0] nx [of 2 0] nx [of 2 1] nx [of 0 1] r
    by (simp_all add: waits_at_def numeral_2_eq_2)
  then have "(0, 1) \<in> waits 3 t'" "(1, 2) \<in> waits 3 t'" "(2, 0) \<in> waits 3 t'" unfolding waits_def by force+
  then have "(0, 0) \<in> (waits 3 t')\<^sup>+" by (meson r_into_trancl trancl_into_trancl)
  then show ?thesis using t by auto
qed

end
