(* ===== verification/Spec2Isabelle.thy ===== *)
theory Spec2Isabelle
  imports LinkedList HashTable HeapT BitMap Buffer Matrix StringUtil Mhandle Config GuestMemory SpecMem Cache BranchPrediction Directory RoutingTable
begin

text \<open>
  A verification library for Multi2Sim, a simulator of CPUs and GPUs.

  The simulator is built in layers. At the bottom are C libraries: containers and string functions
  (\<open>src/lib/util\<close>), a checked allocator (\<open>src/lib/mhandle\<close>) and configuration files, which sit on
  the hash table, the linked list and the string functions. Above them are C++ classes: an
  intrusive list (\<open>src/lib/cpp/List.h\<close>), the memory of a guest program with its speculative overlay
  (\<open>src/memory/Memory.cc\<close>, \<open>SpecMem.cc\<close>), the caches (\<open>Cache.cc\<close>), whose replacement orders are
  intrusive lists, the event engine that drives the timing models (\<open>src/lib/esim\<close>), the directories of
  the caches (\<open>src/memory/Directory.cc\<close>), which keep their sharers in a bit map
  (\<open>src/lib/cpp/Bitmap.cc\<close>) and suspend event chains in the queues of the engine, the routing tables of the networks
  (\<open>src/network/RoutingTable.cc\<close>), which are checked for deadlocks with a graph (\<open>src/lib/cpp/Graph.cc\<close>), and the branch
  predictor of the x86 pipeline (\<open>src/arch/x86/timing/BranchPredictor.cc\<close>). All paths are under
  \<open>src/multi2sim/\<close>. Every function keeps the name it has in the code, with a suffix where the name is
  taken in HOL.

  Theories, in the order of the layers.

  \<^item> \<open>Prelude\<close>: pointers, the ways a run stops, the C division, ring positions, block copies, node
    memories. \<open>Arrays\<close>: arrays that the code indexes with integers. \<open>Interfaces\<close>: the contracts of queue, stack, dictionary and priority queue as locales.
    \<open>Recency\<close>: orders of use. \<open>Aligned_Words\<close>: addresses split by a power of two. \<open>CString\<close>: the
    functions of \<open>string.h\<close> and \<open>ctype.h\<close> that the program calls. \<open>Linked_Pointers\<close>: what doubly
    linked nodes look like.
  \<^item> \<open>Quicksort\<close>: the sort that \<open>list.c\<close> and \<open>linked-list.c\<close> contain, over any array with a
    read and a write; the locale \<open>comparator\<close> has what a sane comparison gives, \<open>array_view\<close>
    transfers it to a representation.
  \<^item> \<open>ListT\<close> (\<open>list.c\<close>, a ring that is list, stack, queue and array), \<open>LinkedList\<close>
    (\<open>linked-list.c\<close>, nodes in a memory, cursor, iterators), \<open>HashTable\<close> (\<open>hash-table.c\<close>, with
    enumeration), \<open>HeapT\<close> (\<open>heap.c\<close>), \<open>BitMap\<close> (\<open>bit-map.c\<close>), \<open>Buffer\<close> (\<open>buffer.c\<close>), \<open>Matrix\<close>
    (\<open>matrix.c\<close>), \<open>StringUtil\<close> (\<open>string.c\<close>, on \<open>ListT\<close>), \<open>Config\<close> (\<open>config.c\<close>, on \<open>HashTable\<close>,
    \<open>LinkedList\<close> and \<open>StringUtil\<close>), \<open>Mhandle\<close> (\<open>mhandle.c\<close>).
  \<^item> \<open>GuestMemory\<close> (\<open>Memory.cc\<close>), \<open>SpecMem\<close> (\<open>SpecMem.cc\<close>, on \<open>GuestMemory\<close>), \<open>IntrusiveList\<close>
    (\<open>List.h\<close>), \<open>Cache\<close> (\<open>Cache.cc\<close>, on \<open>IntrusiveList\<close>).
  \<^item> \<open>EventEngine\<close>: the model of the event engine (\<open>Engine.cc\<close>, \<open>Queue.cc\<close> and their headers), whose handlers
    are arguments. \<open>EngineInvariant\<close>: the invariant and what an operation called by a handler does.
    \<open>EngineRuns\<close>: the contracts of handlers as locales, and what the loops do under them.
    \<open>EngineScripts\<close>: handlers that are scripts of operations satisfy the contracts.
    \<open>EngineReachable\<close>: the states an engine gets into, and the properties. \<open>EventQueue\<close>: queues of
    event chains as lists.
  \<^item> \<open>CppBitmap\<close> (\<open>Bitmap.cc\<close>): bits in blocks as a list of flags; its locale \<open>bit_vector\<close> is the contract that
    \<open>Directory\<close> (\<open>Directory.cc\<close>) uses. \<open>Directory\<close>, on \<open>CppBitmap\<close> and \<open>EventQueue\<close>: owners and sets of sharers
    of sub-blocks, and the locks of blocks with their waiting event chains.
  \<^item> \<open>CppGraph\<close> (\<open>Graph.cc\<close>): graphs and the detection of cycles by depth-first traversal. \<open>RoutingTable\<close>
    (\<open>RoutingTable.cc\<close>), on \<open>CppGraph\<close>: shortest routes, routes given by the user, and cycles of waiting buffers.
  \<^item> \<open>BranchPredictor\<close>: the model of the branch predictor. \<open>BranchTarget\<close>: its target buffer as lists in the
    order of use (\<open>Recency\<close>). \<open>BranchPrediction\<close>: its invariant, directions, return addresses, and the
    properties.

  How the code is modelled. A C struct or a class is a record with its fields. An operation returns
  the new state beside its result. An operation that can end the process or throw returns \<open>Inl\<close> of
  the reason or \<open>Inr\<close> of the result (\<open>'a run\<close>): an access outside an array, through \<open>NULL\<close> or of a
  released node is \<open>Segv\<close>, a failed \<open>assert\<close> is \<open>Assert\<close>, an integer division by zero is \<open>Div_zero\<close>.
  Linked structures live in an explicit memory of nodes, so aliasing and stale pointers are visible.
  Numbers are words of their width wherever the code lets them wrap around or works on bits
  (\<open>BitMap\<close>, \<open>CppBitmap\<close>, \<open>Mhandle\<close>, \<open>GuestMemory\<close>, \<open>SpecMem\<close>, \<open>Cache\<close>, the hash functions, the version
  counters); elsewhere they are natural numbers or integers, and the theory says which size is out
  of reach. Library functions whose result the program cannot know (\<open>malloc\<close>, \<open>random\<close>,
  the formats of \<open>double\<close>) are arguments.

  Loops. A loop that counts is a recursive function. A loop that may run forever is a partial function
  with an option result, where \<open>None\<close> is not returning, and the properties state when it returns:
  the scans of the quicksort, following \<open>next\<close> pointers, the search of the allocator's table, the left
  shift of the C++ bit map, the loop over the chains that wait for a lock, the loops over pages of the guest memory, the loop of \<open>misc::LogBase2\<close>, the loops that follow routes, the traversal of graphs, the loops of the event engine, which
  end if the handlers schedule for later only, and draining, which is bounded. The hash table inserts again
  after it has grown; after one growth the table is less than half full, so the recursion has depth
  two. The enumeration loop of the hash table takes the number of calls as fuel, and the property
  gives the number that is enough, one more than the elements.

  What is shown. Each component has an invariant that its constructor establishes and every operation
  keeps, an abstract value (a sequence, a map, a multiset, a stream of bytes, a function from
  addresses to bytes and permissions, orders of use), and lemmas that say what each operation does to
  that value on every branch, errors included. The properties put these together over arbitrary
  sequences of operations: containers behave as their abstract value; the sorts sort; printing and
  parsing, saving and loading are inverse; reads see the last write and speculation never changes
  the guest memory; the victim of a cache is the least recently used block; a
  branch target buffer has the latest targets, directions are those of the trained counters; events
  run in the order of their times and of their scheduling, each within its delay; a block lock of a
  directory is held by one access, and releasing it runs the chains that wait; the routes of a network are the shortest ones
  and a deadlock among them is found. Some properties
  pin down behaviour that a caller should know about: groups of bits that straddle two words are not
  read back, a table of the allocator all of whose items have been used makes an invalid release loop,
  a node that is moved to the back of an intrusive list makes it a cycle, ranges that end
  in the last page of the address space are not mapped in finite time and those that go on after it not at all, an event that repeats itself
  with \<open>Next\<close> panics, the tables of a combined predictor are trained by direction, not by use, and no left shift of
  a C++ bit map by less than its size returns.

  Not modelled: the emulators of the instruction sets and the other stages of the pipelines, which
  are tables of instructions over host arithmetic, ELF files and system calls; the coherence protocol of
  the memory hierarchy, the packets of the networks and the DRAM controllers, whose event handlers run on the event
  engine; the runtimes, drivers and the visual
  tool, which are glue to other libraries; the parts of the C++ utilities that wrap the standard
  library. In the components that are modelled, functions that only print or release memory are left
  out.
\<close>

end
